(* ===== verification/Prelude.thy ===== *)
theory Prelude
  imports Main "HOL-Library.AList"
begin

text \<open>
  What the components share: the faults of the C++ code as values, sequencing of fallible
  steps, and the model of \<open>unordered_map<int, T>\<close>.

  An unordered map is an association list with distinct keys. A \<open>for (auto item : m)\<close> loop
  visits the entries in list order. The C++ standard leaves that order open, so the model
  fixes one (a new key goes to the end) and the properties speak of look-ups, sets and sums,
  which do not depend on it.
\<close>

named_theorems umap_simps \<open>look-up laws of the unordered_map model\<close>
named_theorems res_simps \<open>evaluation of fallible steps\<close>

section \<open>Faults and fallible steps\<close>

datatype fault =
    NullNode        \<comment> \<open>dereference of the null pointer that \<open>map[k]\<close> creates for an absent key\<close>
  | OutOfRange      \<comment> \<open>\<open>at()\<close> or \<open>stoi\<close> throws\<close>
  | BadIndex        \<comment> \<open>a vector is indexed past its end\<close>
  | AssertFailed    \<comment> \<open>\<open>assert\<close> aborts\<close>
  | ExitCalled      \<comment> \<open>\<open>exit(1)\<close>\<close>
  | DivByZero       \<comment> \<open>\<open>/\<close> or \<open>%\<close> with divisor 0\<close>
  | BufferOverrun   \<comment> \<open>\<open>memcpy\<close> past the end of a command buffer\<close>
  | NoReturn        \<comment> \<open>a loop that does not end, or a read that blocks for ever\<close>
  | UndefinedConv   \<comment> \<open>a \<open>double\<close> that is converted to \<open>int\<close> out of its range\<close>
  | BadBuffer       \<comment> \<open>a buffer is used after it was handed to another thread, or is input and output at once\<close>

type_synonym 'a res = "fault + 'a"

definition bindR :: "'a res \<Rightarrow> ('a \<Rightarrow> 'b res) \<Rightarrow> 'b res" where
  "bindR r f = (case r of Inl e \<Rightarrow> Inl e | Inr a \<Rightarrow> f a)"

lemma bindR_Inr [simp, res_simps]: "bindR (Inr a) f = f a"
  by (simp add: bindR_def)

lemma bindR_Inl [simp, res_simps]: "bindR (Inl e) f = Inl e"
  by (simp add: bindR_def)

lemma bindR_eq_Inr: "bindR r f = Inr b \<longleftrightarrow> (\<exists>a. r = Inr a \<and> f a = Inr b)"
  by (cases r) auto

definition guardR :: "fault \<Rightarrow> bool \<Rightarrow> unit res" where
  "guardR e b = (if b then Inr () else Inl e)"

lemma guardR_True [simp, res_simps]: "guardR e True = Inr ()"
  by (simp add: guardR_def)

lemma guardR_False [simp, res_simps]: "guardR e False = Inl e"
  by (simp add: guardR_def)

definition ofOpt :: "fault \<Rightarrow> 'a option \<Rightarrow> 'a res" where
  "ofOpt e r = (case r of None \<Rightarrow> Inl e | Some a \<Rightarrow> Inr a)"

lemma ofOpt_Some [simp, res_simps]: "ofOpt e (Some a) = Inr a"
  by (simp add: ofOpt_def)

lemma ofOpt_None [simp, res_simps]: "ofOpt e None = Inl e"
  by (simp add: ofOpt_def)

text \<open>A loop whose body may fault: it stops at the first fault.\<close>

fun foldR :: "('a \<Rightarrow> 's \<Rightarrow> 's res) \<Rightarrow> 'a list \<Rightarrow> 's \<Rightarrow> 's res" where
  "foldR f [] s = Inr s"
| "foldR f (x # xs) s = bindR (f x s) (foldR f xs)"

lemma foldR_append: "foldR f (xs @ ys) s = bindR (foldR f xs s) (foldR f ys)"
  by (induction xs arbitrary: s) (auto simp: bindR_def split: sum.splits)

text \<open>When no body faults, the loop is the fold of the pure bodies.\<close>

lemma foldR_pure:
  "(\<And>x s. x \<in> set xs \<Longrightarrow> f x s = Inr (g x s)) \<Longrightarrow> foldR f xs s = Inr (fold g xs s)"
  by (induction xs arbitrary: s) auto

text \<open>An invariant of the loop state that rules the faults out.\<close>

lemma foldR_invariant:
  assumes "P s" and "\<And>x s. x \<in> set xs \<Longrightarrow> P s \<Longrightarrow> \<exists>s'. f x s = Inr s' \<and> P s'"
  shows "\<exists>s'. foldR f xs s = Inr s' \<and> P s'"
  using assms
proof (induction xs arbitrary: s)
  case Nil
  then show ?case by simp
next
  case (Cons x xs)
  from Cons.prems obtain s1 where "f x s = Inr s1" "P s1" by force
  with Cons.IH [of s1] Cons.prems(2) show ?case by simp
qed

lemma foldR_cong: "(\<And>x s. x \<in> set xs \<Longrightarrow> f x s = g x s) \<Longrightarrow> foldR f xs s = foldR g xs s"
  by (induction xs arbitrary: s) (auto simp: bindR_def split: sum.splits)

fun mapR :: "('a \<Rightarrow> 'b res) \<Rightarrow> 'a list \<Rightarrow> 'b list res" where
  "mapR f [] = Inr []"
| "mapR f (x # xs) = bindR (f x) (\<lambda>y. bindR (mapR f xs) (\<lambda>ys. Inr (y # ys)))"

lemma mapR_pure: "(\<And>x. x \<in> set xs \<Longrightarrow> f x = Inr (g x)) \<Longrightarrow> mapR f xs = Inr (map g xs)"
  by (induction xs) auto

lemma mapR_append:
  "mapR f (xs @ ys) = bindR (mapR f xs) (\<lambda>us. bindR (mapR f ys) (\<lambda>vs. Inr (us @ vs)))"
  by (induction xs) (auto simp: bindR_def split: sum.splits)

lemma mapR_nth:
  "mapR f xs = Inr ys \<Longrightarrow> length ys = length xs \<and> (\<forall>j<length xs. f (xs ! j) = Inr (ys ! j))"
  by (induction xs arbitrary: ys) (auto simp: bindR_eq_Inr nth_Cons split: nat.splits)

lemma mapR_cong: "(\<And>x. x \<in> set xs \<Longrightarrow> f x = g x) \<Longrightarrow> mapR f xs = mapR g xs"
  by (induction xs) simp_all

text \<open>\<open>v[i]\<close> on a vector with an \<open>int\<close> index.\<close>

definition vget :: "'a list \<Rightarrow> int \<Rightarrow> 'a res" where
  "vget xs i = (if 0 \<le> i \<and> nat i < length xs then Inr (xs ! nat i) else Inl BadIndex)"

lemma vget_ok [simp]: "0 \<le> i \<Longrightarrow> nat i < length xs \<Longrightarrow> vget xs i = Inr (xs ! nat i)"
  by (simp add: vget_def)

text \<open>C++ \<open>/\<close> and \<open>%\<close> round towards zero; a zero divisor traps.\<close>

definition cdiv :: "int \<Rightarrow> int \<Rightarrow> int res" where
  "cdiv a b = (if b = 0 then Inl DivByZero else Inr (sgn a * sgn b * (\<bar>a\<bar> div \<bar>b\<bar>)))"

definition cmod :: "int \<Rightarrow> int \<Rightarrow> int res" where
  "cmod a b = (if b = 0 then Inl DivByZero else Inr (sgn a * (\<bar>a\<bar> mod \<bar>b\<bar>)))"

lemma cdiv_nonneg [simp]: "0 \<le> a \<Longrightarrow> 0 < b \<Longrightarrow> cdiv a b = Inr (a div b)"
  by (cases "a = 0") (simp_all add: cdiv_def)

lemma cmod_nonneg [simp]: "0 \<le> a \<Longrightarrow> 0 < b \<Longrightarrow> cmod a b = Inr (a mod b)"
  by (cases "a = 0") (simp_all add: cmod_def)

section \<open>Unordered maps\<close>

type_synonym 'v umap = "(int \<times> 'v) list"

definition um_keys :: "'v umap \<Rightarrow> int list" where
  "um_keys m = map fst m"

definition um_has :: "'v umap \<Rightarrow> int \<Rightarrow> bool" where
  \<comment> \<open>\<open>m.find(k) != m.end()\<close>\<close>
  "um_has m k \<longleftrightarrow> k \<in> set (um_keys m)"

definition um_get :: "'v \<Rightarrow> 'v umap \<Rightarrow> int \<Rightarrow> 'v" where
  \<comment> \<open>the value \<open>m[k]\<close> yields, with \<open>d\<close> the value-initialised default\<close>
  "um_get d m k = (case map_of m k of None \<Rightarrow> d | Some v \<Rightarrow> v)"

definition um_ref :: "'v \<Rightarrow> int \<Rightarrow> 'v umap \<Rightarrow> 'v umap" where
  \<comment> \<open>the side effect of reading \<open>m[k]\<close>: an absent key is inserted\<close>
  "um_ref d k m = (if um_has m k then m else m @ [(k, d)])"

definition um_insert :: "int \<Rightarrow> 'v \<Rightarrow> 'v umap \<Rightarrow> 'v umap" where
  \<comment> \<open>\<open>m.insert(make_pair(k, v))\<close>: no effect when the key is present\<close>
  "um_insert k v m = (if um_has m k then m else m @ [(k, v)])"

definition um_put :: "int \<Rightarrow> 'v \<Rightarrow> 'v umap \<Rightarrow> 'v umap" where
  \<comment> \<open>\<open>m[k] = v\<close>\<close>
  "um_put k v m = AList.update k v m"

definition um_bump :: "int \<Rightarrow> int \<Rightarrow> int umap \<Rightarrow> int umap" where
  \<comment> \<open>\<open>m[k] += d\<close>; also the idiom "insert \<open>d\<close> when absent, else add \<open>d\<close>"\<close>
  "um_bump k d m = um_put k (um_get 0 m k + d) m"

definition um_push :: "int \<Rightarrow> 'a \<Rightarrow> 'a list umap \<Rightarrow> 'a list umap" where
  \<comment> \<open>the idiom "insert the list \<open>{x}\<close> when absent, else \<open>m[k].push_back(x)\<close>"\<close>
  "um_push k x m = um_put k (um_get [] m k @ [x]) m"

definition um_erase :: "int \<Rightarrow> 'v umap \<Rightarrow> 'v umap" where
  \<comment> \<open>\<open>m.erase(m.find(k))\<close>\<close>
  "um_erase k m = filter (\<lambda>p. fst p \<noteq> k) m"

abbreviation um_wf :: "'v umap \<Rightarrow> bool" where
  "um_wf m \<equiv> distinct (um_keys m)"

lemma um_keys_simps [simp, umap_simps]:
  "um_keys [] = []" "um_keys (p # m) = fst p # um_keys m" "um_keys (m @ m') = um_keys m @ um_keys m'"
  by (simp_all add: um_keys_def)

lemma set_um_keys: "set (um_keys m) = fst ` set m"
  by (simp add: um_keys_def)

lemma um_has_iff [umap_simps]: "um_has m k \<longleftrightarrow> map_of m k \<noteq> None"
  by (simp add: um_has_def set_um_keys map_of_eq_None_iff)

lemma map_of_um_keys: "(\<exists>v. map_of m k = Some v) \<longleftrightarrow> k \<in> set (um_keys m)"
  using um_has_iff [of m k] by (auto simp: um_has_def)

lemma map_of_um_put [simp, umap_simps]: "map_of (um_put k v m) = (map_of m)(k \<mapsto> v)"
  by (simp add: um_put_def update_conv')

lemma um_get_put [umap_simps]: "um_get d (um_put k v m) j = (if j = k then v else um_get d m j)"
  by (simp add: um_get_def)

lemma um_get_bump [umap_simps]:
  "um_get 0 (um_bump k d m) j = um_get 0 m j + (if j = k then d else 0)"
  by (simp add: um_bump_def um_get_put)

lemma um_get_push [umap_simps]:
  "um_get [] (um_push k x m) j = um_get [] m j @ (if j = k then [x] else [])"
  by (simp add: um_push_def um_get_put)

lemma um_keys_put [umap_simps]:
  "um_keys (um_put k v m) = (if k \<in> set (um_keys m) then um_keys m else um_keys m @ [k])"
  by (simp add: um_put_def um_keys_def update_keys)

lemma um_keys_bump: "um_keys (um_bump k d m) = (if k \<in> set (um_keys m) then um_keys m else um_keys m @ [k])"
  by (simp add: um_bump_def um_keys_put)

lemma um_wf_put [simp]: "um_wf m \<Longrightarrow> um_wf (um_put k v m)"
  by (simp add: um_keys_put)

lemma um_wf_bump [simp]: "um_wf m \<Longrightarrow> um_wf (um_bump k d m)"
  by (simp add: um_bump_def)

lemma um_wf_push [simp]: "um_wf m \<Longrightarrow> um_wf (um_push k x m)"
  by (simp add: um_push_def)

lemma um_keys_insert [umap_simps]:
  "um_keys (um_insert k v m) = (if k \<in> set (um_keys m) then um_keys m else um_keys m @ [k])"
  by (simp add: um_insert_def um_has_def)

lemma um_wf_insert [simp]: "um_wf m \<Longrightarrow> um_wf (um_insert k v m)"
  by (simp add: um_insert_def um_has_def)

lemma map_of_um_insert [umap_simps]:
  "map_of (um_insert k v m) j = (if j = k \<and> map_of m k = None then Some v else map_of m j)"
  by (auto simp: um_insert_def um_has_iff map_add_def split: option.splits)

lemma um_ref_id [simp]: "um_has m k \<Longrightarrow> um_ref d k m = m"
  by (simp add: um_ref_def)

lemma map_of_um_erase [umap_simps]: "map_of (um_erase k m) j = (if j = k then None else map_of m j)"
  by (induction m) (auto simp: um_erase_def)

lemma um_keys_erase [umap_simps]: "um_keys (um_erase k m) = filter (\<lambda>i. i \<noteq> k) (um_keys m)"
  by (induction m) (auto simp: um_erase_def)

lemma um_get_map_of: "um_wf m \<Longrightarrow> (k, v) \<in> set m \<Longrightarrow> um_get d m k = v"
  by (simp add: um_get_def um_keys_def)

text \<open>On a key that is present, an update rewrites one entry and keeps the order.\<close>

lemma um_put_present:
  "um_wf m \<Longrightarrow> k \<in> set (um_keys m) \<Longrightarrow>
   um_put k v m = map (\<lambda>(i, c). (i, if i = k then v else c)) m"
proof (induction m)
  case Nil
  then show ?case by simp
next
  case (Cons p m)
  show ?case
  proof (cases "fst p = k")
    case True
    have "map (\<lambda>(i, c). (i, if i = k then v else c)) m = m"
      using Cons.prems True
      by (intro map_idI) (auto simp: set_um_keys split: prod.splits intro: rev_image_eqI)
    with True show ?thesis by (cases p) (simp add: um_put_def)
  next
    case False
    with Cons show ?thesis by (auto simp: um_put_def split: prod.splits)
  qed
qed

lemma um_bump_present:
  "um_wf m \<Longrightarrow> k \<in> set (um_keys m) \<Longrightarrow>
   um_bump k d m = map (\<lambda>(i, c). (i, if i = k then c + d else c)) m"
  by (auto simp: um_bump_def um_put_present intro!: map_cong dest: um_get_map_of [where d = 0])

text \<open>The sum of all values, as a sum of look-ups over any finite set that covers the keys.\<close>

lemma sum_values:
  assumes "um_wf m" and "finite A" and "\<And>k. um_get 0 m k \<noteq> 0 \<Longrightarrow> k \<in> A"
  shows "sum_list (map snd m) = (\<Sum>k\<in>A. um_get (0::int) m k)"
proof -
  have "sum_list (map snd m) = sum_list (map (um_get 0 m) (um_keys m))"
    using assms(1) by (auto simp: um_keys_def o_def um_get_map_of [unfolded um_keys_def] intro!: arg_cong [where f = sum_list])
  also have "\<dots> = (\<Sum>k\<in>set (um_keys m). um_get 0 m k)"
    using assms(1) by (rule sum_list_distinct_conv_sum_set)
  also have "\<dots> = (\<Sum>k\<in>A \<union> set (um_keys m). um_get 0 m k)"
    using assms(2) by (intro sum.mono_neutral_left)
      (auto simp: um_get_def set_um_keys map_of_eq_None_iff [THEN iffD2])
  also have "\<dots> = (\<Sum>k\<in>A. um_get 0 m k)"
    using assms(2,3) by (intro sum.mono_neutral_right) auto
  finally show ?thesis .
qed

end
