(* ===== verification/Threads.thy ===== *)
theory Threads
  imports Prelude "HOL-Library.Multiset"
begin

text \<open>
  Threads that talk through queues. The agent's threads (src/src/common/Worker.cc) share nothing but
  blocking queues, lists on Redis servers and files they append to; a thread is an \<open>io\<close> value: what it
  takes from a channel, what it appends to one, and its result. \<open>run\<close> lets one thread run alone;
  \<open>net_step\<close> lets any thread of a list make its next step.

  The main result is independence of the schedule: if no channel has two readers or two writers, and
  the threads can be run to their ends one after the other in some order, then every schedule of them
  ends, after the same number of steps and with the same contents of all channels.
\<close>

section \<open>One thread\<close>

datatype ('c, 'v, 'a) io =
    Ret 'a
  | Crash fault
  | Get 'c "'v \<Rightarrow> ('c, 'v, 'a) io"     \<comment> \<open>take the first element; wait while there is none\<close>
  | Put 'c 'v "('c, 'v, 'a) io"       \<comment> \<open>append an element\<close>

primrec bindP :: "('c, 'v, 'a) io \<Rightarrow> ('a \<Rightarrow> ('c, 'v, 'b) io) \<Rightarrow> ('c, 'v, 'b) io" where
  "bindP (Ret a) f = f a"
| "bindP (Crash e) f = Crash e"
| "bindP (Get c k) f = Get c (\<lambda>v. bindP (k v) f)"
| "bindP (Put c v p) f = Put c v (bindP p f)"

definition liftP :: "'a res \<Rightarrow> ('c, 'v, 'a) io" where
  "liftP r = (case r of Inl e \<Rightarrow> Crash e | Inr a \<Rightarrow> Ret a)"

lemma liftP_simps [simp]: "liftP (Inr a) = Ret a" "liftP (Inl e) = Crash e"
  by (simp_all add: liftP_def)

definition get :: "'c \<Rightarrow> ('c, 'v, 'v) io" where
  "get c = Get c Ret"

definition put :: "'c \<Rightarrow> 'v \<Rightarrow> ('c, 'v, unit) io" where
  "put c v = Put c v (Ret ())"

text \<open>A \<open>for\<close> loop over a list, with the state it carries.\<close>

fun forP :: "('x \<Rightarrow> 's \<Rightarrow> ('c, 'v, 's) io) \<Rightarrow> 'x list \<Rightarrow> 's \<Rightarrow> ('c, 'v, 's) io" where
  "forP f [] s = Ret s"
| "forP f (x # xs) s = bindP (f x s) (forP f xs)"

type_synonym ('c, 'v) chans = "'c \<Rightarrow> 'v list"

primrec run :: "('c, 'v, 'a) io \<Rightarrow> ('c, 'v) chans \<Rightarrow> ('a \<times> ('c, 'v) chans) res" where
  \<comment> \<open>a wait that nobody can end is \<open>NoReturn\<close>\<close>
  "run (Ret a) q = Inr (a, q)"
| "run (Crash e) q = Inl e"
| "run (Get c k) q = (case q c of [] \<Rightarrow> Inl NoReturn | v # vs \<Rightarrow> run (k v) (q(c := vs)))"
| "run (Put c v p) q = run p (q(c := q c @ [v]))"

lemma run_bindP: "run (bindP p f) q = bindR (run p q) (\<lambda>(a, q'). run (f a) q')"
  by (induction p arbitrary: q) (auto split: list.splits)

lemma run_liftP: "run (liftP r) q = bindR r (\<lambda>a. Inr (a, q))"
  by (cases r) simp_all

lemma run_get: "run (get c) q = (case q c of [] \<Rightarrow> Inl NoReturn | v # vs \<Rightarrow> Inr (v, q(c := vs)))"
  by (auto simp: get_def split: list.splits)

lemma run_put [simp]: "run (put c v) q = Inr ((), q(c := q c @ [v]))"
  by (simp add: put_def)

lemma run_forP_append: "run (forP f (xs @ ys) s) q = bindR (run (forP f xs s) q) (\<lambda>(s', q'). run (forP f ys s') q')"
  by (induction xs arbitrary: s q) (auto simp: run_bindP bindR_def split: sum.splits)

text \<open>The channels a thread may take from, and append to.\<close>

primrec gets :: "('c, 'v, 'a) io \<Rightarrow> 'c set" where
  "gets (Ret a) = {}"
| "gets (Crash e) = {}"
| "gets (Get c k) = insert c (\<Union>v. gets (k v))"
| "gets (Put c v p) = gets p"

primrec puts :: "('c, 'v, 'a) io \<Rightarrow> 'c set" where
  "puts (Ret a) = {}"
| "puts (Crash e) = {}"
| "puts (Get c k) = (\<Union>v. puts (k v))"
| "puts (Put c v p) = insert c (puts p)"

lemma gets_bindP: "gets (bindP p f) \<subseteq> gets p \<union> (\<Union>a. gets (f a))"
  by (induction p) auto

lemma puts_bindP: "puts (bindP p f) \<subseteq> puts p \<union> (\<Union>a. puts (f a))"
  by (induction p) auto

lemma chans_of_simps [simp]:
  "gets (liftP r) = {}" "puts (liftP r) = {}" "gets (get c) = {c}" "puts (get c) = {}"
  "gets (put c v) = {}" "puts (put c v) = {c}"
  by (cases r; simp)+ (simp_all add: get_def put_def)

lemma gets_forP: "gets (forP f xs s) \<subseteq> (\<Union>x\<in>set xs. \<Union>s. gets (f x s))"
proof (induction xs arbitrary: s)
  case (Cons x xs)
  have "gets (forP f (x # xs) s) \<subseteq> gets (f x s) \<union> (\<Union>s'. gets (forP f xs s'))" using gets_bindP by simp
  also have "\<dots> \<subseteq> (\<Union>x\<in>set (x # xs). \<Union>s. gets (f x s))" using Cons by auto
  finally show ?case .
qed simp

lemma puts_forP: "puts (forP f xs s) \<subseteq> (\<Union>x\<in>set xs. \<Union>s. puts (f x s))"
proof (induction xs arbitrary: s)
  case (Cons x xs)
  have "puts (forP f (x # xs) s) \<subseteq> puts (f x s) \<union> (\<Union>s'. puts (forP f xs s'))" using puts_bindP by simp
  also have "\<dots> \<subseteq> (\<Union>x\<in>set (x # xs). \<Union>s. puts (f x s))" using Cons by auto
  finally show ?case .
qed simp

text \<open>\<open>within R W p\<close>: whatever it takes, \<open>p\<close> takes from \<open>R\<close> and appends to \<open>W\<close> only.\<close>

definition within :: "'c set \<Rightarrow> 'c set \<Rightarrow> ('c, 'v, 'a) io \<Rightarrow> bool" where
  "within R W p \<longleftrightarrow> gets p \<subseteq> R \<and> puts p \<subseteq> W"

named_theorems within_intros \<open>rules for \<open>within\<close>\<close>

lemma within_simple [within_intros, simp]:
  "within R W (Ret a)" "within R W (Crash e)" "within R W (liftP r)"
  by (cases r; simp add: within_def)+

lemma within_put [within_intros]: "c \<in> W \<Longrightarrow> within R W (put c v)"
  by (simp add: within_def put_def)

lemma within_get [within_intros]: "c \<in> R \<Longrightarrow> within R W (get c)"
  by (simp add: within_def get_def)

lemma within_Get: "c \<in> R \<Longrightarrow> (\<And>v. within R W (k v)) \<Longrightarrow> within R W (Get c k)"
  by (auto simp: within_def)

lemma within_bind [within_intros]:
  "within R W p \<Longrightarrow> (\<And>a. within R W (f a)) \<Longrightarrow> within R W (bindP p f)"
  using gets_bindP [of p f] puts_bindP [of p f] unfolding within_def by blast

lemma within_lift: "(\<And>a. r = Inr a \<Longrightarrow> within R W (f a)) \<Longrightarrow> within R W (bindP (liftP r) f)"
  by (cases r) simp_all

lemma within_forP:
  "(\<And>x s. x \<in> set xs \<Longrightarrow> within R W (f x s)) \<Longrightarrow> within R W (forP f xs s)"
  by (induction xs arbitrary: s) (auto intro!: within_bind)

lemma within_mono: "within R W p \<Longrightarrow> R \<subseteq> R' \<Longrightarrow> W \<subseteq> W' \<Longrightarrow> within R' W' p"
  unfolding within_def by blast

section \<open>Threads side by side\<close>

type_synonym ('c, 'v) net = "('c, 'v, unit) io list \<times> ('c, 'v) chans"

fun thread_step :: "('c, 'v, unit) io \<Rightarrow> ('c, 'v) chans \<Rightarrow> (('c, 'v, unit) io \<times> ('c, 'v) chans) option" where
  "thread_step (Ret a) q = None"
| "thread_step (Crash e) q = None"
| "thread_step (Get c k) q = (case q c of [] \<Rightarrow> None | v # vs \<Rightarrow> Some (k v, q(c := vs)))"
| "thread_step (Put c v p) q = Some (p, q(c := q c @ [v]))"

inductive net_step :: "('c, 'v) net \<Rightarrow> ('c, 'v) net \<Rightarrow> bool" where
  "i < length ts \<Longrightarrow> thread_step (ts ! i) q = Some (p, q') \<Longrightarrow> net_step (ts, q) (ts[i := p], q')"

inductive_cases net_stepE: "net_step (ts, q) s'"

text \<open>No channel has two readers, and none has two writers.\<close>

definition private_chans :: "('c, 'v, unit) io list \<Rightarrow> bool" where
  "private_chans ts \<longleftrightarrow> (\<forall>i<length ts. \<forall>j<length ts. i \<noteq> j \<longrightarrow>
     gets (ts ! i) \<inter> gets (ts ! j) = {} \<and> puts (ts ! i) \<inter> puts (ts ! j) = {})"

lemma thread_step_chans:
  assumes "thread_step p q = Some (p', q')"
  shows "gets p' \<subseteq> gets p" and "puts p' \<subseteq> puts p"
  using assms by (cases p; auto split: list.splits)+

lemma private_step:
  assumes "net_step s s'" and "private_chans (fst s)"
  shows "private_chans (fst s')"
  using assms(1)
proof cases
  case (1 i ts q p q')
  note sub = thread_step_chans [OF 1(4)]
  show ?thesis unfolding private_chans_def
  proof (intro allI impI)
    fix a b assume ab: "a < length (fst s')" "b < length (fst s')" "a \<noteq> b"
    have "gets (fst s' ! x) \<subseteq> gets (ts ! x) \<and> puts (fst s' ! x) \<subseteq> puts (ts ! x)" if "x < length ts" for x
      using sub that by (cases "x = i") (simp_all add: 1(2))
    moreover have "gets (ts ! a) \<inter> gets (ts ! b) = {} \<and> puts (ts ! a) \<inter> puts (ts ! b) = {}"
      using assms(2) ab by (simp add: private_chans_def 1(1,2))
    ultimately show "gets (fst s' ! a) \<inter> gets (fst s' ! b) = {} \<and> puts (fst s' ! a) \<inter> puts (fst s' ! b) = {}"
      using ab by (simp add: 1(2)) blast
  qed
qed

text \<open>Steps of two threads commute.\<close>

lemma thread_steps_commute:
  assumes "thread_step p q = Some (p', q1)" and "thread_step r q = Some (r', q2)"
    and "gets p \<inter> gets r = {}" and "puts p \<inter> puts r = {}"
  shows "\<exists>q'. thread_step r q1 = Some (r', q') \<and> thread_step p q2 = Some (p', q')"
  using assms by (cases p; cases r) (auto split: list.splits if_splits simp: fun_upd_twist)

lemma diamond:
  assumes "net_step s s1" and "net_step s s2" and "private_chans (fst s)" and "s1 \<noteq> s2"
  shows "\<exists>s'. net_step s1 s' \<and> net_step s2 s'"
proof -
  obtain ts q where s: "s = (ts, q)" by (cases s)
  obtain i p q1 where i: "i < length ts" "thread_step (ts ! i) q = Some (p, q1)" "s1 = (ts[i := p], q1)"
    using assms(1) unfolding s by (elim net_stepE) auto
  obtain j r q2 where j: "j < length ts" "thread_step (ts ! j) q = Some (r, q2)" "s2 = (ts[j := r], q2)"
    using assms(2) unfolding s by (elim net_stepE) auto
  have ij: "i \<noteq> j" using i j assms(4) by auto
  then have "gets (ts ! i) \<inter> gets (ts ! j) = {}" "puts (ts ! i) \<inter> puts (ts ! j) = {}"
    using assms(3) i(1) j(1) by (simp_all add: s private_chans_def)
  from thread_steps_commute [OF i(2) j(2) this] obtain q' where
    q': "thread_step (ts ! j) q1 = Some (r, q')" "thread_step (ts ! i) q2 = Some (p, q')" by blast
  have "net_step s1 (ts[i := p, j := r], q')"
    unfolding i(3) using j(1) q'(1) ij by (intro net_step.intros) simp_all
  moreover have "net_step s2 (ts[j := r, i := p], q')"
    unfolding j(3) using i(1) q'(2) ij by (intro net_step.intros) simp_all
  moreover have "ts[i := p, j := r] = ts[j := r, i := p]" using ij by (rule list_update_swap)
  ultimately show ?thesis by auto
qed

definition all_ended :: "('c, 'v) net \<Rightarrow> bool" where
  "all_ended s \<longleftrightarrow> (\<forall>p\<in>set (fst s). p = Ret ())"

lemma ended_no_step:
  assumes "all_ended s" shows "\<not> net_step s s'"
proof
  assume "net_step s s'"
  then obtain i where "i < length (fst s)" "thread_step (fst s ! i) (snd s) \<noteq> None" by cases auto
  moreover from this have "fst s ! i = Ret ()" using assms by (auto simp: all_ended_def)
  ultimately show False by simp
qed

text \<open>A run to the end can begin with any first step, so all runs have the same length and end.\<close>

lemma any_first_step:
  assumes "(net_step ^^ n) s t" and "all_ended t" and "private_chans (fst s)" and "net_step s s1"
  shows "\<exists>k. n = Suc k \<and> (net_step ^^ k) s1 t"
  using assms
proof (induction n arbitrary: s s1)
  case 0
  then have "all_ended s" by simp
  from ended_no_step [OF this] 0(4) show ?case by blast
next
  case (Suc n)
  from Suc.prems(1) obtain s2 where s2: "net_step s s2" "(net_step ^^ n) s2 t" by (metis relpowp_Suc_E2)
  show ?case
  proof (cases "s1 = s2")
    case False
    from diamond [OF Suc.prems(4) s2(1) Suc.prems(3) False] obtain s' where s': "net_step s1 s'" "net_step s2 s'" by blast
    from Suc.IH [OF s2(2) Suc.prems(2) private_step [OF s2(1) Suc.prems(3)] s'(2)] obtain k where
      k: "n = Suc k" "(net_step ^^ k) s' t" by blast
    then have "(net_step ^^ n) s1 t" using relpowp_Suc_I2 [OF s'(1) k(2)] by simp
    then show ?thesis by blast
  qed (use s2 in blast)
qed

lemma any_schedule:
  assumes "(net_step ^^ n) s t" and "all_ended t" and "private_chans (fst s)" and "(net_step ^^ m) s u"
  shows "m \<le> n \<and> (net_step ^^ (n - m)) u t"
  using assms
proof (induction m arbitrary: n s)
  case 0
  then show ?case by simp
next
  case (Suc m)
  from Suc.prems(4) obtain s1 where s1: "net_step s s1" "(net_step ^^ m) s1 u" by (metis relpowp_Suc_E2)
  from any_first_step [OF Suc.prems(1-3) s1(1)] obtain k where k: "n = Suc k" "(net_step ^^ k) s1 t" by blast
  from Suc.IH [OF k(2) Suc.prems(2) private_step [OF s1(1) Suc.prems(3)] s1(2)] show ?case by (simp add: k(1))
qed

section \<open>One thread after the other\<close>

lemma run_alone:
  assumes "run p q = Inr ((), q')" and "i < length ts" and "ts ! i = p"
  shows "\<exists>n. (net_step ^^ n) (ts, q) (ts[i := Ret ()], q')"
  using assms
proof (induction p arbitrary: q ts)
  case (Ret a)
  then have "ts[i := Ret ()] = ts" "q' = q" by (auto intro: list_update_same_conv [THEN iffD2])
  then show ?case by (intro exI [of _ 0]) simp
next
  case (Get c k)
  then obtain v vs where v: "q c = v # vs" "run (k v) (q(c := vs)) = Inr ((), q')" by (auto split: list.splits)
  have "net_step (ts, q) (ts[i := k v], q(c := vs))"
    using Get.prems v(1) by (intro net_step.intros) simp_all
  note step = this
  have "i < length (ts[i := k v])" "ts[i := k v] ! i = k v" using Get.prems(2) by simp_all
  from Get.IH [OF rangeI v(2) this] obtain n where
    "(net_step ^^ n) (ts[i := k v], q(c := vs)) ((ts[i := k v])[i := Ret ()], q')" by blast
  from relpowp_Suc_I2 [OF step this] show ?case by (simp only: list_update_overwrite) (rule exI)
next
  case (Put c v p)
  have "net_step (ts, q) (ts[i := p], q(c := q c @ [v]))"
    using Put.prems by (intro net_step.intros) simp_all
  note step = this
  have "run p (q(c := q c @ [v])) = Inr ((), q')" "i < length (ts[i := p])" "ts[i := p] ! i = p"
    using Put.prems by simp_all
  from Put.IH [OF this] obtain n where
    "(net_step ^^ n) (ts[i := p], q(c := q c @ [v])) ((ts[i := p])[i := Ret ()], q')" by blast
  from relpowp_Suc_I2 [OF step this] show ?case by (simp only: list_update_overwrite) (rule exI)
qed simp

fun run_in_order :: "('c, 'v, unit) io list \<Rightarrow> ('c, 'v) chans \<Rightarrow> ('c, 'v) chans res" where
  "run_in_order [] q = Inr q"
| "run_in_order (p # ps) q = bindR (run p q) (\<lambda>(_, q'). run_in_order ps q')"

lemma run_in_order_append:
  "run_in_order (ps @ rs) q = bindR (run_in_order ps q) (run_in_order rs)"
  by (induction ps arbitrary: q) (auto simp: bindR_def split: sum.splits)

lemma run_in_order_forP:
  "run_in_order (map f xs) q = bindR (run (forP (\<lambda>x _. f x) xs ()) q) (\<lambda>(_, q'). Inr q')"
proof (induction xs arbitrary: q)
  case (Cons x xs)
  show ?case
  proof (cases "run (f x) q")
    case (Inr r)
    then show ?thesis using Cons by (simp add: run_bindP case_prod_unfold)
  qed (simp add: run_bindP)
qed simp

lemma order_reaches:
  assumes "run_in_order (map (\<lambda>i. ts ! i) is) q = Inr q'" and "distinct is" and "set is \<subseteq> {..<length ts}"
  shows "\<exists>n us. (net_step ^^ n) (ts, q) (us, q') \<and> length us = length ts \<and>
    (\<forall>i<length ts. us ! i = (if i \<in> set is then Ret () else ts ! i))"
  using assms
proof (induction "is" arbitrary: q ts)
  case Nil
  then show ?case by (intro exI [of _ 0] exI [of _ ts]) simp
next
  case (Cons i ns)
  then obtain q1 where q1: "run (ts ! i) q = Inr ((), q1)" "run_in_order (map (\<lambda>i. ts ! i) ns) q1 = Inr q'"
    by (auto simp: bindR_eq_Inr)
  let ?ts = "ts[i := Ret ()]"
  from run_alone [OF q1(1), of i ts] Cons.prems(3) obtain n where n: "(net_step ^^ n) (ts, q) (?ts, q1)" by auto
  have "map (\<lambda>i. ?ts ! i) ns = map (\<lambda>i. ts ! i) ns"
    by (intro map_cong refl nth_list_update_neq) (use Cons.prems(2) in auto)
  with q1(2) have "run_in_order (map (\<lambda>i. ?ts ! i) ns) q1 = Inr q'" by (simp only:)
  from Cons.IH [OF this] Cons.prems(2,3) have "\<exists>m us. (net_step ^^ m) (?ts, q1) (us, q') \<and> length us = length ?ts \<and>
      (\<forall>j<length ?ts. us ! j = (if j \<in> set ns then Ret () else ?ts ! j))" by simp
  then obtain m us where m: "(net_step ^^ m) (?ts, q1) (us, q')" "length us = length ts"
    "\<And>j. j < length ts \<Longrightarrow> us ! j = (if j \<in> set ns then Ret () else ?ts ! j)" by auto
  have "(net_step ^^ (n + m)) (ts, q) (us, q')" using n m(1) by (auto simp: relpowp_add)
  moreover have "us ! j = (if j \<in> set (i # ns) then Ret () else ts ! j)" if "j < length ts" for j
    using m(3) [OF that] that by (cases "j = i") auto
  ultimately show ?case using m(2) by blast
qed

text \<open>The threads of \<open>ts\<close> can be run one after the other, in the order \<open>is\<close>; then every schedule ends
  with the same channels.\<close>

lemma schedule_independent:
  assumes "run_in_order (map (\<lambda>i. ts ! i) is) q = Inr q'" and "distinct is" and "set is = {..<length ts}"
    and "private_chans ts"
  shows "\<exists>N. \<forall>m u. (net_step ^^ m) (ts, q) u \<longrightarrow>
    m \<le> N \<and> (m = N \<longrightarrow> all_ended u \<and> snd u = q') \<and> (m < N \<longrightarrow> (\<exists>u'. net_step u u'))"
proof -
  from order_reaches [OF assms(1,2)] assms(3) obtain N us where N: "(net_step ^^ N) (ts, q) (us, q')"
    "length us = length ts" "\<And>i. i < length ts \<Longrightarrow> us ! i = Ret ()" by auto
  have "all_ended (us, q')" using N(2,3) by (auto simp: all_ended_def in_set_conv_nth)
  note A = any_schedule [OF N(1) this, simplified, OF assms(4)]
  have "m \<le> N \<and> (m = N \<longrightarrow> all_ended u \<and> snd u = q') \<and> (m < N \<longrightarrow> (\<exists>u'. net_step u u'))"
    if "(net_step ^^ m) (ts, q) u" for m u
  proof -
    from A [OF that] have r: "m \<le> N" "(net_step ^^ (N - m)) u (us, q')" by auto
    moreover have "\<exists>u'. net_step u u'" if "m < N"
    proof -
      obtain k where "N - m = Suc k" using \<open>m < N\<close> by (metis Suc_diff_Suc)
      with r(2) show ?thesis by (metis relpowp_Suc_E2)
    qed
    moreover have "u = (us, q')" if "m = N" using r(2) that by simp
    ultimately show ?thesis using \<open>all_ended (us, q')\<close> by auto
  qed
  then show ?thesis by blast
qed

section \<open>What a thread takes and gives\<close>

text \<open>
  A thread that runs to its end is known by the elements it takes and appends, as lists of events.
  \<open>gives rs ws p a\<close>: on channels that begin with what \<open>rs\<close> expects, \<open>p\<close> ends with \<open>a\<close>, has taken
  \<open>rs\<close> and appended \<open>ws\<close>.
\<close>

definition on_chan :: "'c \<Rightarrow> ('c \<times> 'v) list \<Rightarrow> 'v list" where
  "on_chan c es = map snd (filter (\<lambda>e. fst e = c) es)"

lemma on_chan_simps [simp]:
  "on_chan c [] = []" "on_chan c (es @ es') = on_chan c es @ on_chan c es'"
  "on_chan c (e # es) = (if fst e = c then snd e # on_chan c es else on_chan c es)"
  by (simp_all add: on_chan_def)

lemma on_chan_concat: "on_chan c (concat (map f xs)) = concat (map (\<lambda>x. on_chan c (f x)) xs)"
  by (induction xs) simp_all

lemma on_chan_none: "c \<notin> fst ` set es \<Longrightarrow> on_chan c es = []"
  by (induction es) auto

definition supplies :: "('c, 'v) chans \<Rightarrow> ('c \<times> 'v) list \<Rightarrow> bool" where
  "supplies q rs \<longleftrightarrow> (\<forall>c. take (length (on_chan c rs)) (q c) = on_chan c rs)"

definition after :: "('c \<times> 'v) list \<Rightarrow> ('c \<times> 'v) list \<Rightarrow> ('c, 'v) chans \<Rightarrow> ('c, 'v) chans" where
  "after rs ws q = (\<lambda>c. drop (length (on_chan c rs)) (q c) @ on_chan c ws)"

definition gives :: "('c \<times> 'v) list \<Rightarrow> ('c \<times> 'v) list \<Rightarrow> ('c, 'v, 'a) io \<Rightarrow> 'a \<Rightarrow> bool" where
  "gives rs ws p a \<longleftrightarrow> (\<forall>q. supplies q rs \<longrightarrow> run p q = Inr (a, after rs ws q))"

lemma gives_run: "gives rs ws p a \<Longrightarrow> supplies q rs \<Longrightarrow> run p q = Inr (a, after rs ws q)"
  by (simp add: gives_def)

lemma gives_Ret [intro]: "gives [] [] (Ret a) a"
  by (simp add: gives_def after_def)

lemma gives_put [intro]: "gives [] [(c, v)] (put c v) ()"
  by (auto simp: gives_def after_def fun_eq_iff)

lemma gives_Put: "gives [] ws p a \<Longrightarrow> gives [] ((c, v) # ws) (Put c v p) a"
  by (auto simp: gives_def after_def supplies_def fun_eq_iff)

lemma gives_Get:
  assumes "gives rs ws (k v) a"
  shows "gives ((c, v) # rs) ws (Get c k) a"
  unfolding gives_def
proof (intro allI impI)
  fix q assume s: "supplies q ((c, v) # rs)"
  then have "take (Suc (length (on_chan c rs))) (q c) = v # on_chan c rs" by (auto simp: supplies_def dest: spec [of _ c])
  then obtain vs where q: "q c = v # vs" "take (length (on_chan c rs)) vs = on_chan c rs" by (cases "q c") auto
  have "supplies (q(c := vs)) rs" using s q(2) by (auto simp: supplies_def split: if_splits)
  from gives_run [OF assms this] show "run (Get c k) q = Inr (a, after ((c, v) # rs) ws q)"
    using q by (auto simp: after_def fun_eq_iff)
qed

lemma gives_bind:
  assumes p: "gives rs ws p a" and f: "gives rs' ws' (f a) b" and "fst ` set ws \<inter> fst ` set rs' = {}"
  shows "gives (rs @ rs') (ws @ ws') (bindP p f) b"
  unfolding gives_def
proof (intro allI impI)
  fix q assume q: "supplies q (rs @ rs')"
  have now: "take (length (on_chan c rs)) (q c) = on_chan c rs"
    and later: "take (length (on_chan c rs')) (drop (length (on_chan c rs)) (q c)) = on_chan c rs'" for c
  proof -
    have *: "take (length (on_chan c rs) + length (on_chan c rs')) (q c) = on_chan c rs @ on_chan c rs'"
      using q by (simp add: supplies_def)
    then show "take (length (on_chan c rs)) (q c) = on_chan c rs"
      by (metis append_eq_conv_conj le_add1 length_append min.absorb1 take_take)
    with * show "take (length (on_chan c rs')) (drop (length (on_chan c rs)) (q c)) = on_chan c rs'"
      by (metis append_same_eq take_add same_append_eq)
  qed
  have none: "on_chan c ws = [] \<or> on_chan c rs' = []" for c
    using assms(3) on_chan_none [of c ws] on_chan_none [of c rs'] by blast
  have "supplies q rs" using now by (simp add: supplies_def)
  note p = gives_run [OF p this]
  have "supplies (after rs ws q) rs'"
    unfolding supplies_def after_def
  proof
    fix c show "take (length (on_chan c rs')) (drop (length (on_chan c rs)) (q c) @ on_chan c ws) = on_chan c rs'"
      using later [of c] none [of c] by auto
  qed
  note f = gives_run [OF f this]
  have "after rs' ws' (after rs ws q) = after (rs @ rs') (ws @ ws') q"
    unfolding after_def
  proof
    fix c show "drop (length (on_chan c rs')) (drop (length (on_chan c rs)) (q c) @ on_chan c ws) @ on_chan c ws' =
        drop (length (on_chan c (rs @ rs'))) (q c) @ on_chan c (ws @ ws')"
    proof (cases "on_chan c ws = []")
      case False
      then have "on_chan c rs' = []" using none [of c] by blast
      then show ?thesis by simp
    qed (simp add: add.commute)
  qed
  then show "run (bindP p f) q = Inr (b, after (rs @ rs') (ws @ ws') q)"
    by (simp add: run_bindP p f)
qed

lemma gives_liftP: "gives rs ws (f a) b \<Longrightarrow> gives rs ws (bindP (liftP (Inr a)) f) b"
  by simp

text \<open>A loop whose rounds never take from a channel that a round appends to.\<close>

lemma gives_forP:
  assumes "\<And>x. x \<in> set xs \<Longrightarrow> gives (r x) (w x) (f x ()) ()"
    and "\<And>x y. x \<in> set xs \<Longrightarrow> y \<in> set xs \<Longrightarrow> fst ` set (w x) \<inter> fst ` set (r y) = {}"
  shows "gives (concat (map r xs)) (concat (map w xs)) (forP f xs ()) ()"
  using assms
proof (induction xs)
  case Nil
  show ?case by (simp add: gives_Ret)
next
  case (Cons x xs)
  have "gives (concat (map r xs)) (concat (map w xs)) (forP f xs ()) ()"
    using Cons.prems by (intro Cons.IH) auto
  moreover have "fst ` set (w x) \<inter> fst ` set (concat (map r xs)) = {}"
    using Cons.prems(2) [of x] by auto
  ultimately show ?case using gives_bind [OF Cons.prems(1) [of x], where f = "forP f xs"] by simp
qed

text \<open>Threads that take and give the same, channel by channel, run alike.\<close>

lemma gives_same_run:
  assumes "gives rs ws p a" and "gives rs' ws' p' a"
    and "\<And>c. on_chan c rs = on_chan c rs'" and "\<And>c. on_chan c ws = on_chan c ws'" and "supplies q rs"
  shows "run p q = run p' q"
proof -
  have "supplies q rs'" using assms(3,5) by (simp add: supplies_def)
  moreover have "after rs ws q = after rs' ws' q" using assms(3,4) by (simp add: after_def)
  ultimately show ?thesis using gives_run [OF assms(1,5)] gives_run [OF assms(2)] by simp
qed

text \<open>Threads that run one after the other.\<close>

fun feeds :: "('c, 'v) chans \<Rightarrow> (('c \<times> 'v) list \<times> ('c \<times> 'v) list) list \<Rightarrow> bool" where
  "feeds q [] \<longleftrightarrow> True"
| "feeds q ((rs, ws) # es) \<longleftrightarrow> supplies q rs \<and> feeds (after rs ws q) es"

fun after_all :: "(('c \<times> 'v) list \<times> ('c \<times> 'v) list) list \<Rightarrow> ('c, 'v) chans \<Rightarrow> ('c, 'v) chans" where
  "after_all [] q = q"
| "after_all ((rs, ws) # es) q = after_all es (after rs ws q)"

lemma run_in_order_gives:
  assumes "list_all2 (\<lambda>p (rs, ws). gives rs ws p ()) ps es" and "feeds q es"
  shows "run_in_order ps q = Inr (after_all es q)"
  using assms
proof (induction ps es arbitrary: q rule: list_all2_induct)
  case (Cons p ps e es)
  obtain rs ws where e: "e = (rs, ws)" by (cases e)
  have "run p q = Inr ((), after rs ws q)" using Cons e by (intro gives_run) auto
  then show ?case using Cons e by simp
qed simp

section \<open>Whole channels\<close>

text \<open>
  \<open>carries vals R W p a\<close>: \<open>p\<close> takes \<open>vals c\<close> from each channel \<open>c\<close> of \<open>R\<close>, appends \<open>vals c\<close> to each channel
  of \<open>W\<close>, touches no other channel and ends with \<open>a\<close>.
\<close>

definition carries :: "('c \<Rightarrow> 'v list) \<Rightarrow> 'c set \<Rightarrow> 'c set \<Rightarrow> ('c, 'v, 'a) io \<Rightarrow> 'a \<Rightarrow> bool" where
  "carries vals R W p a \<longleftrightarrow> (\<exists>rs ws. gives rs ws p a \<and>
     (\<forall>c. on_chan c rs = (if c \<in> R then vals c else [])) \<and> (\<forall>c. on_chan c ws = (if c \<in> W then vals c else [])))"

lemma on_chan_in: "e \<in> set es \<Longrightarrow> on_chan (fst e) es \<noteq> []"
  by (induction es) auto

lemma chans_of_events: "(\<And>c. on_chan c es = (if c \<in> A then vals c else [])) \<Longrightarrow> fst ` set es \<subseteq> A"
proof
  fix c assume *: "\<And>c. on_chan c es = (if c \<in> A then vals c else [])" and "c \<in> fst ` set es"
  then have "on_chan c es \<noteq> []" using on_chan_in by fastforce
  with * [of c] show "c \<in> A" by (simp split: if_splits)
qed

lemma carries_Ret: "carries vals {} {} (Ret a) a"
  unfolding carries_def using gives_Ret by fastforce

lemma carries_put: "vals c = [v] \<Longrightarrow> carries vals {} {c} (put c v) ()"
  unfolding carries_def using gives_put [of c v] by fastforce

lemma carries_Get: 
  assumes "vals c = [v]" and "gives [] [] (k v) a"
  shows "carries vals {c} {} (Get c k) a"
  unfolding carries_def using gives_Get [where k = k and v = v and ws = "[]" and c = c, OF assms(2)] assms(1) by fastforce

lemma carries_bind:
  assumes "carries vals R W p a" and "carries vals R' W' (f a) b"
    and "R \<inter> R' = {}" and "W \<inter> W' = {}" and "W \<inter> R' = {}"
  shows "carries vals (R \<union> R') (W \<union> W') (bindP p f) b"
proof -
  obtain rs ws where 1: "gives rs ws p a" "\<And>c. on_chan c rs = (if c \<in> R then vals c else [])"
    "\<And>c. on_chan c ws = (if c \<in> W then vals c else [])" using assms(1) unfolding carries_def by blast
  obtain rs' ws' where 2: "gives rs' ws' (f a) b" "\<And>c. on_chan c rs' = (if c \<in> R' then vals c else [])"
    "\<And>c. on_chan c ws' = (if c \<in> W' then vals c else [])" using assms(2) unfolding carries_def by blast
  have "fst ` set ws \<inter> fst ` set rs' = {}"
    using chans_of_events [OF 1(3)] chans_of_events [OF 2(2)] assms(5) by blast
  from gives_bind [where f = f and a = a, OF 1(1) 2(1) this] show ?thesis
    unfolding carries_def
  proof (intro exI conjI)
    show "\<forall>c. on_chan c (rs @ rs') = (if c \<in> R \<union> R' then vals c else [])"
      using 1(2) 2(2) assms(3) by auto
    show "\<forall>c. on_chan c (ws @ ws') = (if c \<in> W \<union> W' then vals c else [])"
      using 1(3) 2(3) assms(4) by auto
  qed
qed

lemma carries_liftP: "r = Inr a \<Longrightarrow> carries vals R W (f a) b \<Longrightarrow> carries vals R W (bindP (liftP r) f) b"
  by simp

text \<open>A loop that carries a state.\<close>

lemma carries_fold:
  assumes "\<And>x s. x \<in> set xs \<Longrightarrow> carries vals (R x) (W x) (f x s) (g x s)" and "distinct xs"
    and "\<And>x y. x \<in> set xs \<Longrightarrow> y \<in> set xs \<Longrightarrow> x \<noteq> y \<Longrightarrow> R x \<inter> R y = {} \<and> W x \<inter> W y = {}"
    and "\<And>x y. x \<in> set xs \<Longrightarrow> y \<in> set xs \<Longrightarrow> W x \<inter> R y = {}"
  shows "carries vals (\<Union>x\<in>set xs. R x) (\<Union>x\<in>set xs. W x) (forP f xs s) (fold g xs s)"
  using assms
proof (induction xs arbitrary: s)
  case Nil
  show ?case by (simp add: carries_Ret)
next
  case (Cons x xs)
  have rest: "carries vals (\<Union>x\<in>set xs. R x) (\<Union>x\<in>set xs. W x) (forP f xs (g x s)) (fold g xs (g x s))"
    using Cons.prems by (intro Cons.IH) auto
  have "R x \<inter> (\<Union>x\<in>set xs. R x) = {}" "W x \<inter> (\<Union>x\<in>set xs. W x) = {}" "W x \<inter> (\<Union>x\<in>set xs. R x) = {}"
    using Cons.prems(2-4) by fastforce+
  from carries_bind [OF Cons.prems(1) [of x], where f = "forP f xs", OF _ rest this] show ?case by simp
qed

lemma carries_forP:
  assumes "\<And>x. x \<in> set xs \<Longrightarrow> carries vals (R x) (W x) (f x ()) ()" and "distinct xs"
    and "\<And>x y. x \<in> set xs \<Longrightarrow> y \<in> set xs \<Longrightarrow> x \<noteq> y \<Longrightarrow> R x \<inter> R y = {} \<and> W x \<inter> W y = {}"
    and "\<And>x y. x \<in> set xs \<Longrightarrow> y \<in> set xs \<Longrightarrow> W x \<inter> R y = {}"
  shows "carries vals (\<Union>x\<in>set xs. R x) (\<Union>x\<in>set xs. W x) (forP f xs ()) ()"
  using carries_fold [where f = f and g = "\<lambda>_ _. ()" and s = "()" and vals = vals and R = R and W = W, OF _ assms(2-4)] assms(1) by simp

text \<open>A loop of rounds: the \<open>i\<close>-th takes and appends \<open>part i c\<close>.\<close>

lemma carries_rounds:
  assumes "\<And>i. i < n \<Longrightarrow> carries (part i) R W (f i ()) ()" and "R \<inter> W = {}"
  shows "carries (\<lambda>c. concat (map (\<lambda>i. part i c) [0..<n])) R W (forP f [0..<n] ()) ()"
proof -
  have "\<exists>e. \<forall>i<n. gives (fst (e i)) (snd (e i)) (f i ()) () \<and>
      (\<forall>c. on_chan c (fst (e i)) = (if c \<in> R then part i c else [])) \<and>
      (\<forall>c. on_chan c (snd (e i)) = (if c \<in> W then part i c else []))"
    using assms(1) unfolding carries_def by (intro choice) force
  then obtain e where e: "\<And>i. i < n \<Longrightarrow> gives (fst (e i)) (snd (e i)) (f i ()) ()"
    "\<And>i c. i < n \<Longrightarrow> on_chan c (fst (e i)) = (if c \<in> R then part i c else [])"
    "\<And>i c. i < n \<Longrightarrow> on_chan c (snd (e i)) = (if c \<in> W then part i c else [])" by blast
  have "gives (concat (map (\<lambda>i. fst (e i)) [0..<n])) (concat (map (\<lambda>i. snd (e i)) [0..<n])) (forP f [0..<n] ()) ()"
  proof (rule gives_forP)
    fix i j assume "i \<in> set [0..<n]" "j \<in> set [0..<n]"
    then show "fst ` set (snd (e i)) \<inter> fst ` set (fst (e j)) = {}"
      using chans_of_events [of "snd (e i)", OF e(3)] chans_of_events [of "fst (e j)", OF e(2)] assms(2) by auto
  qed (use e(1) in simp)
  then show ?thesis
    unfolding carries_def
  proof (intro exI conjI)
    have *: "concat (map (\<lambda>i. if b then part i c else []) [0..<n]) = (if b then concat (map (\<lambda>i. part i c) [0..<n]) else [])" for b c
      by (cases b) (simp_all add: concat_eq_Nil_conv)
    show "\<forall>c. on_chan c (concat (map (\<lambda>i. fst (e i)) [0..<n])) = (if c \<in> R then concat (map (\<lambda>i. part i c) [0..<n]) else [])"
      unfolding on_chan_concat * [symmetric] by (intro allI arg_cong [where f = concat] map_cong) (auto simp: e(2))
    show "\<forall>c. on_chan c (concat (map (\<lambda>i. snd (e i)) [0..<n])) = (if c \<in> W then concat (map (\<lambda>i. part i c) [0..<n]) else [])"
      unfolding on_chan_concat * [symmetric] by (intro allI arg_cong [where f = concat] map_cong) (auto simp: e(3))
  qed
qed

lemma carries_cong: "carries vals R W p a \<Longrightarrow> (\<And>c. c \<in> R \<union> W \<Longrightarrow> vals c = vals' c) \<Longrightarrow> carries vals' R W p a"
  unfolding carries_def by (metis UnI1 UnI2)

lemma carries_same_run:
  assumes "carries vals R W p a" and "carries vals R W p' a" and "\<And>c. c \<in> R \<Longrightarrow> take (length (vals c)) (q c) = vals c"
  shows "run p q = run p' q"
proof -
  obtain rs ws where 1: "gives rs ws p a" "\<And>c. on_chan c rs = (if c \<in> R then vals c else [])"
    "\<And>c. on_chan c ws = (if c \<in> W then vals c else [])" using assms(1) unfolding carries_def by blast
  obtain rs' ws' where 2: "gives rs' ws' p' a" "\<And>c. on_chan c rs' = (if c \<in> R then vals c else [])"
    "\<And>c. on_chan c ws' = (if c \<in> W then vals c else [])" using assms(2) unfolding carries_def by blast
  have "supplies q rs" using assms(3) by (simp add: supplies_def 1(2))
  then show ?thesis by (intro gives_same_run [OF 1(1) 2(1)]) (simp_all add: 1 2)
qed

lemma carries_run:
  assumes "carries vals R W p a" and "\<And>c. c \<in> R \<Longrightarrow> take (length (vals c)) (q c) = vals c"
  shows "run p q = Inr (a, \<lambda>c. (if c \<in> R then drop (length (vals c)) (q c) else q c) @ (if c \<in> W then vals c else []))"
proof -
  obtain rs ws where 1: "gives rs ws p a" "\<And>c. on_chan c rs = (if c \<in> R then vals c else [])"
    "\<And>c. on_chan c ws = (if c \<in> W then vals c else [])" using assms(1) unfolding carries_def by blast
  have "supplies q rs" using assms(2) by (simp add: supplies_def 1(2))
  from gives_run [OF 1(1) this] show ?thesis by (auto simp: after_def 1(2,3) fun_eq_iff)
qed

text \<open>
  Threads that can run one after the other: each channel is filled by one of them at most, and emptied by
  at most one that comes later. \<open>full\<close>: the channels that are filled, \<open>used\<close>: those that ever were.
\<close>

fun wired :: "'c set \<Rightarrow> 'c set \<Rightarrow> ('c set \<times> 'c set) list \<Rightarrow> bool" where
  "wired full used [] \<longleftrightarrow> True"
| "wired full used ((R, W) # rws) \<longleftrightarrow> R \<subseteq> full \<and> W \<inter> used = {} \<and> wired (full - R \<union> W) (used \<union> W) rws"

fun drained :: "'c set \<Rightarrow> ('c set \<times> 'c set) list \<Rightarrow> 'c set" where
  "drained full [] = full"
| "drained full ((R, W) # rws) = drained (full - R \<union> W) rws"

definition filled :: "('c set \<times> 'c set) list \<Rightarrow> 'c set" where
  "filled rws = \<Union>(snd ` set rws)"

lemma filled_simps [simp]: "filled [] = {}" "filled ((R, W) # rws) = W \<union> filled rws" "filled (rws @ rws') = filled rws \<union> filled rws'"
  by (auto simp: filled_def)

lemma wired_append:
  "wired full used (rws @ rws') \<longleftrightarrow> wired full used rws \<and> wired (drained full rws) (used \<union> filled rws) rws'"
  by (induction rws arbitrary: full used) (auto simp: Un_assoc)

lemma drained_append: "drained full (rws @ rws') = drained (drained full rws) rws'"
  by (induction rws arbitrary: full) auto

lemma wired_mono: "wired full used rws \<Longrightarrow> used' \<subseteq> used \<Longrightarrow> wired full used' rws"
proof (induction rws arbitrary: full used used')
  case (Cons rw rws)
  obtain R W where rw: "rw = (R, W)" by (cases rw)
  have "wired (full - R \<union> W) (used \<union> W) rws" "used' \<union> W \<subseteq> used \<union> W" using Cons.prems by (auto simp: rw)
  from Cons.IH [OF this] Cons.prems show ?case by (auto simp: rw)
qed simp

text \<open>Threads of which none needs another.\<close>

lemma wired_batch:
  assumes "\<And>x. x \<in> set xs \<Longrightarrow> R x \<subseteq> full" and "\<And>x. x \<in> set xs \<Longrightarrow> W x \<inter> used = {}" and "distinct xs"
    and "\<And>x y. x \<in> set xs \<Longrightarrow> y \<in> set xs \<Longrightarrow> x \<noteq> y \<Longrightarrow> R x \<inter> R y = {} \<and> W x \<inter> W y = {}" and "full \<subseteq> used"
  shows "wired full used (map (\<lambda>x. (R x, W x)) xs) \<and>
    drained full (map (\<lambda>x. (R x, W x)) xs) = full - (\<Union>x\<in>set xs. R x) \<union> (\<Union>x\<in>set xs. W x) \<and>
    filled (map (\<lambda>x. (R x, W x)) xs) = (\<Union>x\<in>set xs. W x)"
  using assms
proof (induction xs arbitrary: full used)
  case (Cons x xs)
  have "wired (full - R x \<union> W x) (used \<union> W x) (map (\<lambda>x. (R x, W x)) xs) \<and>
    drained (full - R x \<union> W x) (map (\<lambda>x. (R x, W x)) xs) = full - R x \<union> W x - (\<Union>x\<in>set xs. R x) \<union> (\<Union>x\<in>set xs. W x) \<and>
    filled (map (\<lambda>x. (R x, W x)) xs) = (\<Union>x\<in>set xs. W x)"
  proof (rule Cons.IH)
    show "R y \<subseteq> full - R x \<union> W x" if "y \<in> set xs" for y
      using that Cons.prems(1) [of y] Cons.prems(3,4) by fastforce
    show "W y \<inter> (used \<union> W x) = {}" if "y \<in> set xs" for y
      using that Cons.prems(2) [of y] Cons.prems(3,4) by fastforce
  qed (use Cons.prems in auto)
  moreover have "W x \<inter> R y = {}" if "y \<in> set xs" for y
    using that Cons.prems(1) [of y] Cons.prems(2) [of x] Cons.prems(5) by fastforce
  ultimately show ?case using Cons.prems(1,2) [of x] by auto
qed simp

lemma wired_disjoint:
  assumes "wired full used rws" and "full \<subseteq> used" and "i < length rws" and "j < length rws" and "i \<noteq> j"
  shows "fst (rws ! i) \<inter> fst (rws ! j) = {} \<and> snd (rws ! i) \<inter> snd (rws ! j) = {}"
proof -
  have later: "fst (rws ! j) \<inter> A = {} \<and> snd (rws ! j) \<inter> used = {}"
    if "wired full used rws" "j < length rws" "A \<inter> full = {}" "A \<subseteq> used" for full used A j and rws :: "('c set \<times> 'c set) list"
    using that
  proof (induction rws arbitrary: full used j)
    case (Cons rw rws)
    obtain R W where rw: "rw = (R, W)" by (cases rw)
    show ?case
    proof (cases j)
      case (Suc k)
      have "fst (rws ! k) \<inter> A = {} \<and> snd (rws ! k) \<inter> (used \<union> W) = {}"
        using Cons.prems Suc by (intro Cons.IH [of "full - R \<union> W"]) (auto simp: rw)
      then show ?thesis using Suc by auto
    qed (use Cons.prems in \<open>auto simp: rw\<close>)
  qed simp
  have "i < j \<Longrightarrow> j < length rws \<Longrightarrow> fst (rws ! i) \<inter> fst (rws ! j) = {} \<and> snd (rws ! i) \<inter> snd (rws ! j) = {}" for i j
    using assms(1,2)
  proof (induction rws arbitrary: full used i j)
    case (Cons rw rws)
    obtain R W where rw: "rw = (R, W)" by (cases rw)
    have w: "wired (full - R \<union> W) (used \<union> W) rws" "R \<subseteq> full" "W \<inter> used = {}" using Cons.prems by (auto simp: rw)
    obtain l where l: "j = Suc l" "l < length rws" using Cons.prems(1,2) by (cases j) auto
    show ?case
    proof (cases i)
      case 0
      have "R \<inter> (full - R \<union> W) = {}" "R \<subseteq> used \<union> W" using w(2,3) Cons.prems(4) by auto
      from later [OF w(1) l(2) this] show ?thesis using 0 l(1) by (auto simp: rw)
    next
      case (Suc k)
      have "full - R \<union> W \<subseteq> used \<union> W" using Cons.prems(4) by auto
      from Cons.IH [OF _ l(2) w(1) this, of k] Suc l(1) Cons.prems(1) show ?thesis by simp
    qed
  qed simp
  from this [of i j] this [of j i] assms(3-5) show ?thesis by (cases "i < j") (auto simp: Int_commute)
qed

lemma run_wired:
  assumes "list_all2 (\<lambda>p (R, W). carries vals R W p ()) ps rws" and "wired full used rws" and "full \<subseteq> used"
    and "\<And>c. q c = (if c \<in> full then vals c else [])"
  shows "run_in_order ps q = Inr (\<lambda>c. if c \<in> drained full rws then vals c else [])"
  using assms
proof (induction ps rws arbitrary: q full used rule: list_all2_induct)
  case Nil
  have "q = (\<lambda>c. if c \<in> full then vals c else [])" using Nil(3) by (simp add: fun_eq_iff)
  then show ?case by simp
next
  case (Cons p ps e es)
  obtain R W where e: "e = (R, W)" by (cases e)
  have sub: "R \<subseteq> full" "W \<inter> used = {}" "wired (full - R \<union> W) (used \<union> W) es" using Cons.prems(1) e by auto
  have "full - R \<union> W \<subseteq> used \<union> W" using Cons.prems(2) by blast
  note IH = Cons.IH [OF sub(3) this]
  have c: "carries vals R W p ()" using Cons.hyps(1) e by simp
  have "take (length (vals c)) (q c) = vals c" if "c \<in> R" for c using that sub(1) by (auto simp: Cons.prems(3))
  from carries_run [OF c this] obtain q1 where q1: "run p q = Inr ((), q1)"
    "q1 = (\<lambda>c. (if c \<in> R then drop (length (vals c)) (q c) else q c) @ (if c \<in> W then vals c else []))" by blast
  have "q1 c = (if c \<in> full - R \<union> W then vals c else [])" for c
    using sub(1,2) Cons.prems(2) unfolding q1(2) by (auto simp: Cons.prems(3))
  from IH [OF this] show ?case by (simp add: q1(1) e)
qed

text \<open>Any schedule of wired threads, given in any order.\<close>

lemma mset_order:
  assumes "mset xs = mset ys"
  shows "\<exists>is. distinct is \<and> set is = {..<length ys} \<and> map (\<lambda>i. ys ! i) is = xs"
  using assms
proof (induction xs arbitrary: ys)
  case Nil
  then show ?case by simp
next
  case (Cons x xs)
  then have "x \<in> set ys" by (metis list.set_intros(1) mset_eq_setD)
  then obtain us vs where ys: "ys = us @ x # vs" by (auto simp: in_set_conv_decomp)
  from Cons.prems have "mset xs = mset (us @ vs)" by (simp add: ys)
  from Cons.IH [OF this] obtain ns where ns: "distinct ns" "set ns = {..<length (us @ vs)}" "map (\<lambda>i. (us @ vs) ! i) ns = xs" by blast
  let ?up = "\<lambda>i. if i < length us then i else Suc i"
  have up: "?up i \<noteq> length us" "i < length (us @ vs) \<Longrightarrow> ?up i < length ys \<and> ys ! ?up i = (us @ vs) ! i" for i
    by (simp_all add: ys nth_append)
  have inj: "inj_on ?up A" for A by (rule inj_onI) (simp split: if_splits)
  have "map (\<lambda>i. ys ! i) (map ?up ns) = map (\<lambda>i. (us @ vs) ! i) ns"
    using up(2) ns(2) by simp
  moreover have "ys ! length us = x" by (simp add: ys)
  ultimately have order: "map (\<lambda>i. ys ! i) (length us # map ?up ns) = x # xs" using ns(3) by simp
  have dist: "distinct (length us # map ?up ns)" using ns(1) inj up(1) by (simp add: distinct_map image_iff)
  have "set (length us # map ?up ns) \<subseteq> {..<length ys}" using up(2) ns(2) by (auto simp: ys)
  moreover have "card (set (length us # map ?up ns)) = card {..<length ys}"
  proof -
    have "length ns = card (set ns)" using ns(1) by (simp add: distinct_card)
    then have "length ns = length (us @ vs)" using ns(2) by simp
    then show ?thesis using distinct_card [OF dist] by (simp add: ys)
  qed
  ultimately have "set (length us # map ?up ns) = {..<length ys}" by (intro card_subset_eq) simp_all
  with dist order show ?case by (intro exI [of _ "length us # map ?up ns"] conjI)
qed

lemma wired_schedules:
  assumes order: "mset ps = mset ts"
    and threads: "list_all2 (\<lambda>p (R, W). carries vals R W p () \<and> within R W p) ps rws"
    and wired: "wired {} {} rws"
  shows "\<exists>N. \<forall>m u. (net_step ^^ m) (ts, \<lambda>_. []) u \<longrightarrow> m \<le> N \<and> (m < N \<longrightarrow> (\<exists>u'. net_step u u')) \<and>
    (m = N \<longrightarrow> all_ended u \<and> snd u = (\<lambda>c. if c \<in> drained {} rws then vals c else []))"
proof -
  from mset_order [OF order] obtain ns where ns: "distinct ns" "set ns = {..<length ts}" "map (\<lambda>i. ts ! i) ns = ps" by blast
  have len: "length ps = length rws" using threads by (rule list_all2_lengthD)
  have "list_all2 (\<lambda>p (R, W). carries vals R W p ()) ps rws"
    using threads by (rule list_all2_mono) auto
  from run_wired [OF this wired] have run: "run_in_order ps (\<lambda>_. []) = Inr (\<lambda>c. if c \<in> drained {} rws then vals c else [])" by simp
  have chans: "gets (ps ! k) \<subseteq> fst (rws ! k)" "puts (ps ! k) \<subseteq> snd (rws ! k)" if "k < length ps" for k
    using list_all2_nthD [OF threads that] by (auto simp: case_prod_unfold within_def)
  have "private_chans ts"
    unfolding private_chans_def
  proof (intro allI impI)
    fix i j assume ij: "i < length ts" "j < length ts" "i \<noteq> j"
    then have "i \<in> set ns" "j \<in> set ns" using ns(2) by auto
    then obtain a b where ab: "a < length ns" "b < length ns" "ns ! a = i" "ns ! b = j" by (auto simp: in_set_conv_nth)
    then have p: "ts ! i = ps ! a" "ts ! j = ps ! b" "a \<noteq> b" "a < length ps" "b < length ps" using ns(3) ij(3) by auto
    have "fst (rws ! a) \<inter> fst (rws ! b) = {} \<and> snd (rws ! a) \<inter> snd (rws ! b) = {}"
      using p len by (intro wired_disjoint [OF wired]) simp_all
    with chans(1) [OF p(4)] chans(1) [OF p(5)] chans(2) [OF p(4)] chans(2) [OF p(5)]
    show "gets (ts ! i) \<inter> gets (ts ! j) = {} \<and> puts (ts ! i) \<inter> puts (ts ! j) = {}" unfolding p(1,2) by blast
  qed
  with schedule_independent [OF _ ns(1,2), unfolded ns(3), OF run] show ?thesis by blast
qed

end
