(* ===== verification/Command.thy ===== *)
theory Command
  imports Prelude
begin

text \<open>
  The command buffers that carry tasks from the coordinator to the agents: \<open>writeInt\<close>,
  \<open>writeString\<close>, \<open>readInt\<close> and \<open>readString\<close>, which src/src/ec/Task.cc, src/src/ec/Task.hh and
  src/src/protocol/AGCommand.cc each have in a copy, and the message \<open>AGCommand\<close>.

  A buffer keeps the bytes written so far (their number is \<open>_cmLen\<close>), the size that was
  allocated and the field \<open>_maxLen\<close>. A \<open>memcpy\<close> past the allocation is the fault
  \<open>BufferOverrun\<close>. A byte is a \<open>char\<close>; an \<open>int\<close> travels as four bytes, high byte first.
\<close>

section \<open>Integers and strings in a buffer\<close>

definition i32 :: "int \<Rightarrow> bool" where
  "i32 v \<longleftrightarrow> - (2 ^ 31) \<le> v \<and> v < 2 ^ 31"

definition htonl_bytes :: "int \<Rightarrow> string" where
  "htonl_bytes v =
     (let u = v mod 2 ^ 32
      in [char_of (u div 2 ^ 24), char_of (u div 2 ^ 16), char_of (u div 2 ^ 8), char_of u])"

definition ntohl_bytes :: "char \<Rightarrow> char \<Rightarrow> char \<Rightarrow> char \<Rightarrow> int" where
  "ntohl_bytes a b c d =
     (let u = of_char a * 2 ^ 24 + of_char b * 2 ^ 16 + of_char c * 2 ^ 8 + of_char d
      in if u < 2 ^ 31 then u else u - 2 ^ 32)"

record cbuf =
  bytes :: string
  bcap :: nat
  bmax :: nat

definition calloc_buf :: "nat \<Rightarrow> nat \<Rightarrow> cbuf" where
  "calloc_buf n m = \<lparr>bytes = [], bcap = n, bmax = m\<rparr>"

definition grow :: "cbuf \<Rightarrow> cbuf" where
  "grow b = b\<lparr>bmax := 2 * bmax b, bcap := 2 * bmax b\<rparr>"

definition memcpy_to :: "string \<Rightarrow> cbuf \<Rightarrow> cbuf res" where
  "memcpy_to s b = (if length (bytes b) + length s \<le> bcap b
     then Inr (b\<lparr>bytes := bytes b @ s\<rparr>) else Inl BufferOverrun)"

definition writeInt :: "int \<Rightarrow> cbuf \<Rightarrow> cbuf res" where
  "writeInt v b =
     memcpy_to (htonl_bytes v) (if length (bytes b) + 4 > bmax b then grow b else b)"

text \<open>\<open>writeString\<close> doubles the buffer once, however long the string is.\<close>

definition writeString :: "string \<Rightarrow> cbuf \<Rightarrow> cbuf res" where
  "writeString s b =
     (let b1 = (if length (bytes b) + 4 + length s > bmax b then grow b else b)
      in bindR (memcpy_to (htonl_bytes (int (length s))) b1) (memcpy_to s))"

definition writeInts :: "int list \<Rightarrow> cbuf \<Rightarrow> cbuf res" where
  "writeInts xs = foldR writeInt xs"

text \<open>Reading consumes the received bytes; past their end the program reads foreign memory.\<close>

fun readInt :: "string \<Rightarrow> (int \<times> string) res" where
  "readInt (a # b # c # d # s) = Inr (ntohl_bytes a b c d, s)"
| "readInt _ = Inl BufferOverrun"

definition readString :: "string \<Rightarrow> (string \<times> string) res" where
  "readString s =
     bindR (readInt s) (\<lambda>(slen, s1).
       if 0 \<le> slen \<and> nat slen \<le> length s1
       then Inr (takeWhile (\<lambda>ch. ch \<noteq> CHR 0x00) (take (nat slen) s1), drop (nat slen) s1)
       else Inl BufferOverrun)"

fun readN :: "(string \<Rightarrow> ('a \<times> string) res) \<Rightarrow> nat \<Rightarrow> string \<Rightarrow> ('a list \<times> string) res" where
  \<comment> \<open>a \<open>for\<close> loop that reads \<open>n\<close> items into a vector\<close>
  "readN rd 0 s = Inr ([], s)"
| "readN rd (Suc n) s =
     bindR (rd s) (\<lambda>(x, s1). bindR (readN rd n s1) (\<lambda>(xs, s2). Inr (x # xs, s2)))"

definition readInts :: "int \<Rightarrow> string \<Rightarrow> (int list \<times> string) res" where
  "readInts n = readN readInt (nat n)"

section \<open>Round trips\<close>

lemma length_htonl [simp]: "length (htonl_bytes v) = 4"
  by (simp add: htonl_bytes_def Let_def)

lemma horner:
  fixes u :: int
  assumes "u = a * 256 + r0" and "a = b * 256 + r1" and "b = c * 256 + r2"
  shows "c * 16777216 + r2 * 65536 + r1 * 256 + r0 = u"
  using assms by simp

lemma byte_sum:
  fixes u :: int
  assumes "0 \<le> u" and "u < 2 ^ 32"
  shows "(u div 2 ^ 24) mod 256 * 2 ^ 24 + (u div 2 ^ 16) mod 256 * 2 ^ 16
    + (u div 2 ^ 8) mod 256 * 2 ^ 8 + u mod 256 = u"
proof -
  define a where "a = u div 256"
  define b where "b = a div 256"
  define c where "c = b div 256"
  have div: "u div 2 ^ 8 = a" "u div 2 ^ 16 = b" "u div 2 ^ 24 = c"
    unfolding a_def b_def c_def
    using zdiv_zmult2_eq [of 256 u 256] zdiv_zmult2_eq [of 256 u "256 * 256"]
      zdiv_zmult2_eq [of 256 "u div 256" 256] by simp_all
  have e: "u = a * 256 + u mod 256" "a = b * 256 + a mod 256" "b = c * 256 + b mod 256"
    unfolding a_def b_def c_def by (rule div_mult_mod_eq [symmetric])+
  have "c mod 256 = c"
  proof (rule mod_pos_pos_trivial)
    show "0 \<le> c" "c < 256" unfolding div(3) [symmetric] using assms by simp_all
  qed
  with horner [OF e] show ?thesis unfolding div by simp
qed

lemma ntohl_char_of:
  "0 \<le> u \<Longrightarrow> u < 2 ^ 32 \<Longrightarrow>
   ntohl_bytes (char_of (u div 2 ^ 24)) (char_of (u div 2 ^ 16)) (char_of (u div 2 ^ 8)) (char_of u) =
   (if u < 2 ^ 31 then u else u - 2 ^ 32)"
  by (simp only: ntohl_bytes_def of_char_of byte_sum Let_def)

lemma readInt_htonl [simp]:
  assumes "i32 v" shows "readInt (htonl_bytes v @ rest) = Inr (v, rest)"
proof -
  let ?u = "v mod 2 ^ 32"
  have "readInt (htonl_bytes v @ rest) = Inr (if ?u < 2 ^ 31 then ?u else ?u - 2 ^ 32, rest)"
    unfolding htonl_bytes_def Let_def append.simps readInt.simps
    by (subst ntohl_char_of) (rule pos_mod_sign pos_mod_bound refl; simp)+
  moreover have "(if ?u < 2 ^ 31 then ?u else ?u - 2 ^ 32) = v"
  proof (cases "0 \<le> v")
    case True
    then have "?u = v" using assms by (simp add: i32_def)
    with True show ?thesis using assms by (simp add: i32_def)
  next
    case False
    then have "?u = v + 2 ^ 32"
      using assms mod_pos_pos_trivial [of "v + 2 ^ 32" "2 ^ 32"] by (simp add: i32_def)
    with False show ?thesis using assms by (simp add: i32_def)
  qed
  ultimately show ?thesis by (simp only:)
qed

text \<open>
  The interface between a writer and its reader: what \<open>enc\<close> puts into the stream, \<open>dec\<close> gets
  back, whatever follows it. Sequences of items inherit the law.
\<close>

locale codec =
  fixes enc :: "'a \<Rightarrow> string"
    and dec :: "string \<Rightarrow> ('a \<times> string) res"
    and ok :: "'a \<Rightarrow> bool"
  assumes dec_enc: "ok x \<Longrightarrow> dec (enc x @ rest) = Inr (x, rest)"
begin

lemma readN_enc:
  "list_all ok xs \<Longrightarrow> readN dec (length xs) (concat (map enc xs) @ rest) = Inr (xs, rest)"
  by (induction xs arbitrary: rest) (simp_all add: dec_enc)

lemma enc_inject: "ok x \<Longrightarrow> ok y \<Longrightarrow> enc x = enc y \<Longrightarrow> x = y"
  using dec_enc [of x "[]"] dec_enc [of y "[]"] by simp

end

definition enc_ints :: "int list \<Rightarrow> string" where
  "enc_ints xs = concat (map htonl_bytes xs)"

definition enc_string :: "string \<Rightarrow> string" where
  "enc_string s = htonl_bytes (int (length s)) @ s"

definition cstring_ok :: "string \<Rightarrow> bool" where
  "cstring_ok s \<longleftrightarrow> CHR 0x00 \<notin> set s \<and> length s < 2 ^ 31"

interpretation int_codec: codec htonl_bytes readInt i32
  by unfold_locales simp

interpretation string_codec: codec enc_string readString cstring_ok
proof unfold_locales
  fix s rest assume ok: "cstring_ok s"
  then have "i32 (int (length s))" by (simp add: cstring_ok_def i32_def)
  moreover have "takeWhile (\<lambda>ch. ch \<noteq> CHR 0x00) s = s"
    using ok by (auto simp: cstring_ok_def takeWhile_eq_all_conv)
  ultimately show "readString (enc_string s @ rest) = Inr (s, rest)"
    by (simp add: readString_def enc_string_def)
qed

lemma readInts_enc [simp]: "list_all i32 xs \<Longrightarrow> readInts (int (length xs)) (enc_ints xs @ rest) = Inr (xs, rest)"
  by (simp add: readInts_def enc_ints_def int_codec.readN_enc)

text \<open>A buffer whose \<open>_maxLen\<close> is its true size takes any number of integers.\<close>

definition buf_ok :: "cbuf \<Rightarrow> bool" where
  "buf_ok b \<longleftrightarrow> bcap b = bmax b \<and> length (bytes b) \<le> bmax b \<and> 4 \<le> bmax b"

lemma buf_ok_calloc [simp]: "4 \<le> n \<Longrightarrow> buf_ok (calloc_buf n n)"
  by (simp add: buf_ok_def calloc_buf_def)

lemma writeInt_ok:
  assumes "buf_ok b"
  shows "\<exists>b'. writeInt v b = Inr b' \<and> buf_ok b' \<and> bytes b' = bytes b @ htonl_bytes v \<and> bmax b \<le> bmax b'"
  using assms by (auto simp: writeInt_def memcpy_to_def grow_def buf_ok_def)

lemma writeInts_ok:
  "buf_ok b \<Longrightarrow> \<exists>b'. writeInts xs b = Inr b' \<and> buf_ok b' \<and> bytes b' = bytes b @ enc_ints xs \<and> bmax b \<le> bmax b'"
proof (induction xs arbitrary: b)
  case Nil
  then show ?case by (simp add: writeInts_def enc_ints_def)
next
  case (Cons x xs)
  from writeInt_ok [OF Cons.prems, of x] obtain b1 where
    "writeInt x b = Inr b1" "buf_ok b1" "bytes b1 = bytes b @ htonl_bytes x" "bmax b \<le> bmax b1" by blast
  with Cons.IH [of b1] show ?case
    by (auto simp: writeInts_def enc_ints_def intro: order_trans)
qed

lemma writeString_ok:
  assumes "buf_ok b" and "length s + 4 \<le> bmax b"
  shows "\<exists>b'. writeString s b = Inr b' \<and> buf_ok b' \<and> bytes b' = bytes b @ enc_string s \<and> bmax b \<le> bmax b'"
  using assms by (auto simp: writeString_def memcpy_to_def grow_def buf_ok_def enc_string_def Let_def)

text \<open>A string longer than twice the buffer is written past its end.\<close>

lemma writeString_overrun:
  assumes "bcap b = bmax b" and "2 * bmax b < length (bytes b) + 4 + length s"
  shows "writeString s b = Inl BufferOverrun"
  using assms by (auto simp: writeString_def memcpy_to_def grow_def bindR_def Let_def)

text \<open>
  \<open>emits n f s\<close>: on every sound buffer of at least \<open>n\<close> bytes the writer \<open>f\<close> appends \<open>s\<close>. Writers
  compose by the rules of \<open>emit_intros\<close>.
\<close>

named_theorems emit_intros \<open>what a writer appends\<close>

definition emits :: "nat \<Rightarrow> (cbuf \<Rightarrow> cbuf res) \<Rightarrow> string \<Rightarrow> bool" where
  "emits n f s \<longleftrightarrow> (\<forall>b. buf_ok b \<and> n \<le> bmax b \<longrightarrow>
     (\<exists>b'. f b = Inr b' \<and> buf_ok b' \<and> bytes b' = bytes b @ s \<and> bmax b \<le> bmax b'))"

lemma emits_writeInt [emit_intros]: "emits n (writeInt v) (htonl_bytes v)"
  by (simp add: emits_def writeInt_ok)

lemma emits_writeInts [emit_intros]: "emits n (writeInts xs) (enc_ints xs)"
  by (simp add: emits_def writeInts_ok)

lemma emits_writeString [emit_intros]: "length s + 4 \<le> n \<Longrightarrow> emits n (writeString s) (enc_string s)"
  by (simp add: emits_def writeString_ok)

lemma emits_skip [emit_intros]: "emits n Inr []"
  by (simp add: emits_def)

lemma emits_seq [emit_intros]:
  assumes "emits n f s" and "emits n g t" shows "emits n (\<lambda>b. bindR (f b) g) (s @ t)"
  unfolding emits_def
proof (intro allI impI)
  fix b assume "buf_ok b \<and> n \<le> bmax b"
  with assms(1) obtain b1 where "f b = Inr b1" "buf_ok b1" "bytes b1 = bytes b @ s" "bmax b \<le> bmax b1"
    unfolding emits_def by blast
  moreover from this \<open>buf_ok b \<and> n \<le> bmax b\<close> assms(2) obtain b2 where
    "g b1 = Inr b2" "buf_ok b2" "bytes b2 = bytes b1 @ t" "bmax b1 \<le> bmax b2"
    unfolding emits_def by (meson order_trans)
  ultimately show "\<exists>b'. bindR (f b) g = Inr b' \<and> buf_ok b' \<and> bytes b' = bytes b @ s @ t \<and> bmax b \<le> bmax b'"
    by auto
qed

lemma emits_foldR:
  "(\<And>x. x \<in> set xs \<Longrightarrow> emits n (f x) (enc x)) \<Longrightarrow> emits n (foldR f xs) (concat (map enc xs))"
proof (induction xs)
  case Nil
  then show ?case by (simp add: emits_def)
next
  case (Cons x xs)
  then have "emits n (\<lambda>b. bindR (f x b) (foldR f xs)) (enc x @ concat (map enc xs))"
    by (intro emits_seq) auto
  then show ?case by (simp add: foldR.simps(2) [abs_def])
qed

lemma emits_at:
  assumes "emits n f s" and "4 \<le> n"
  shows "\<exists>b'. f (calloc_buf n n) = Inr b' \<and> bytes b' = s \<and> buf_ok b'"
proof -
  have "buf_ok (calloc_buf n n)" using assms(2) by simp
  with assms(1) show ?thesis unfolding emits_def by (fastforce simp: calloc_buf_def)
qed

section \<open>AGCommand\<close>

definition AGENT_COMMAND_LEN :: nat where
  "AGENT_COMMAND_LEN = 128"

record agcommand =
  ag_batch_id :: int
  ag_num_stripes :: int
  ag_stripe_id_list :: "int list"
  ag_stripe_task_num :: "int list"

text \<open>The copy of \<open>writeInt\<close> and \<open>readInt\<close> in src/src/protocol/AGCommand.cc.\<close>

definition ag_writeInt :: "int \<Rightarrow> cbuf \<Rightarrow> cbuf res" where
  "ag_writeInt v b =
     memcpy_to (htonl_bytes v) (if length (bytes b) + 4 > bmax b then grow b else b)"

definition ag_writeString :: "string \<Rightarrow> cbuf \<Rightarrow> cbuf res" where
  "ag_writeString s b =
     (let b1 = (if length (bytes b) + 4 + length s > bmax b then grow b else b)
      in bindR (memcpy_to (htonl_bytes (int (length s))) b1) (memcpy_to s))"

fun ag_readInt :: "string \<Rightarrow> (int \<times> string) res" where
  "ag_readInt (a # b # c # d # s) = Inr (ntohl_bytes a b c d, s)"
| "ag_readInt _ = Inl BufferOverrun"

definition ag_readString :: "string \<Rightarrow> (string \<times> string) res" where
  "ag_readString s =
     bindR (ag_readInt s) (\<lambda>(slen, s1).
       if 0 \<le> slen \<and> nat slen \<le> length s1
       then Inr (takeWhile (\<lambda>ch. ch \<noteq> CHR 0x00) (take (nat slen) s1), drop (nat slen) s1)
       else Inl BufferOverrun)"

lemma ag_readInt_eq: "ag_readInt s = readInt s"
  by (cases s rule: readInt.cases) simp_all

lemma ag_copies: "ag_writeInt = writeInt" "ag_writeString = writeString"
  "ag_readInt = readInt" "ag_readString = readString"
  by (simp_all add: fun_eq_iff ag_writeInt_def writeInt_def ag_writeString_def writeString_def
      ag_readInt_eq ag_readString_def readString_def)

definition new_ag_buf :: cbuf where
  "new_ag_buf = calloc_buf AGENT_COMMAND_LEN AGENT_COMMAND_LEN"

definition buildAGCommand :: "int \<Rightarrow> int \<Rightarrow> int list \<Rightarrow> int list \<Rightarrow> cbuf \<Rightarrow> cbuf res" where
  "buildAGCommand batchid nstripes stripelist numlist b =
     bindR (ag_writeInt batchid b) (\<lambda>b1.
     bindR (ag_writeInt nstripes b1)
       (foldR (\<lambda>i b2. bindR (vget stripelist i) (\<lambda>sid. bindR (ag_writeInt sid b2) (\<lambda>b3.
                      bindR (vget numlist i) (\<lambda>num. ag_writeInt num b3))))
          (map int [0..<nat nstripes])))"

definition readStripe :: "string \<Rightarrow> ((int \<times> int) \<times> string) res" where
  "readStripe s = bindR (ag_readInt s) (\<lambda>(sid, s1). bindR (ag_readInt s1) (\<lambda>(num, s2). Inr ((sid, num), s2)))"

definition parseAGCommand :: "string \<Rightarrow> agcommand res" where
  "parseAGCommand s =
     bindR (ag_readInt s) (\<lambda>(batchid, s1).
     bindR (ag_readInt s1) (\<lambda>(num, s2).
     bindR (readN readStripe (nat num) s2) (\<lambda>(items, s3).
       Inr \<lparr>ag_batch_id = batchid, ag_num_stripes = num,
            ag_stripe_id_list = map fst items, ag_stripe_task_num = map snd items\<rparr>)))"

definition enc_stripe :: "int \<times> int \<Rightarrow> string" where
  "enc_stripe p = htonl_bytes (fst p) @ htonl_bytes (snd p)"

interpretation stripe_codec: codec enc_stripe readStripe "\<lambda>p. i32 (fst p) \<and> i32 (snd p)"
  by unfold_locales (auto simp: readStripe_def enc_stripe_def ag_copies)

lemma buildAG_loop:
  assumes "buf_ok b" and "length stripelist = length numlist" and "k \<le> length numlist"
  shows "\<exists>b'. foldR (\<lambda>i b2. bindR (vget stripelist i) (\<lambda>sid. bindR (ag_writeInt sid b2) (\<lambda>b3.
                      bindR (vget numlist i) (\<lambda>num. ag_writeInt num b3))))
              (map int [0..<k]) b = Inr b' \<and> buf_ok b' \<and>
            bytes b' = bytes b @ concat (map enc_stripe (take k (zip stripelist numlist)))"
  using assms(3)
proof (induction k)
  case 0
  then show ?case using assms(1) by simp
next
  case (Suc k)
  then obtain b1 where b1: "foldR (\<lambda>i b2. bindR (vget stripelist i) (\<lambda>sid. bindR (ag_writeInt sid b2) (\<lambda>b3.
                      bindR (vget numlist i) (\<lambda>num. ag_writeInt num b3))))
              (map int [0..<k]) b = Inr b1" "buf_ok b1"
      "bytes b1 = bytes b @ concat (map enc_stripe (take k (zip stripelist numlist)))"
    by auto
  from writeInt_ok [OF b1(2), of "stripelist ! k"] obtain b2 where
    b2: "writeInt (stripelist ! k) b1 = Inr b2" "buf_ok b2" "bytes b2 = bytes b1 @ htonl_bytes (stripelist ! k)"
    by blast
  from writeInt_ok [OF b2(2), of "numlist ! k"] obtain b3 where
    b3: "writeInt (numlist ! k) b2 = Inr b3" "buf_ok b3" "bytes b3 = bytes b2 @ htonl_bytes (numlist ! k)"
    by blast
  show ?case
    using Suc.prems assms(2) b1 b2 b3
    by (simp add: foldR_append ag_copies take_Suc_conv_app_nth enc_stripe_def [of "(_, _)", simplified])
qed

lemma ag_travels:
  assumes len: "length stripelist = length numlist"
    and ids: "i32 batchid" "list_all i32 stripelist" "list_all i32 numlist" "length numlist < 2 ^ 31"
  shows "\<exists>b. buildAGCommand batchid (int (length numlist)) stripelist numlist new_ag_buf = Inr b \<and>
    parseAGCommand (bytes b) = Inr \<lparr>ag_batch_id = batchid, ag_num_stripes = int (length numlist),
      ag_stripe_id_list = stripelist, ag_stripe_task_num = numlist\<rparr>"
proof -
  let ?n = "int (length numlist)" and ?items = "zip stripelist numlist"
  have "buf_ok new_ag_buf" by (simp add: new_ag_buf_def AGENT_COMMAND_LEN_def)
  from writeInt_ok [OF this, of batchid] obtain b1 where
    b1: "writeInt batchid new_ag_buf = Inr b1" "buf_ok b1" "bytes b1 = htonl_bytes batchid"
    by (auto simp: new_ag_buf_def calloc_buf_def)
  from writeInt_ok [OF b1(2), of ?n] obtain b2 where
    b2: "writeInt ?n b1 = Inr b2" "buf_ok b2" "bytes b2 = bytes b1 @ htonl_bytes ?n" by blast
  from buildAG_loop [OF b2(2) len, of "length numlist"] obtain b3 where
    b3: "buildAGCommand batchid ?n stripelist numlist new_ag_buf = Inr b3"
      "bytes b3 = bytes b2 @ concat (map enc_stripe ?items)"
    using b1 b2 len by (auto simp: buildAGCommand_def ag_copies)
  have ok: "list_all (\<lambda>p. i32 (fst p) \<and> i32 (snd p)) ?items"
    using ids(2,3) by (auto simp: list_all_iff dest: set_zip_leftD set_zip_rightD)
  have "i32 ?n" using ids(4) by (simp add: i32_def)
  then have "parseAGCommand (bytes b3) = Inr \<lparr>ag_batch_id = batchid, ag_num_stripes = ?n,
      ag_stripe_id_list = map fst ?items, ag_stripe_task_num = map snd ?items\<rparr>"
    using stripe_codec.readN_enc [OF ok, of "[]"] b1 b2 b3 ids(1) len
    by (simp add: parseAGCommand_def ag_copies)
  with b3(1) len show ?thesis by auto
qed

text \<open>\<open>AGCommand::buildAGCommand\<close> writes any batch of stripes and task counts without running
  out of its growing buffer, and the receiving constructor \<open>AGCommand(char*)\<close> reads back exactly
  the batch id, the stripe ids and the task counts.\<close>

theorem agcommand_roundtrip:
  assumes len: "length stripelist = length numlist"
    and ids: "i32 batchid" "list_all i32 stripelist" "list_all i32 numlist" "length numlist < 2 ^ 31"
  shows "\<exists>b. buildAGCommand batchid (int (length numlist)) stripelist numlist new_ag_buf = Inr b \<and>
    parseAGCommand (bytes b) = Inr \<lparr>ag_batch_id = batchid, ag_num_stripes = int (length numlist),
      ag_stripe_id_list = stripelist, ag_stripe_task_num = numlist\<rparr>"
  by (rule ag_travels [OF assms])

lemma agcommand_roundtrip_witness:
  "\<exists>b. buildAGCommand 7 2 [3, 5] [1, 4] new_ag_buf = Inr b \<and>
    parseAGCommand (bytes b) = Inr \<lparr>ag_batch_id = 7, ag_num_stripes = 2,
      ag_stripe_id_list = [3, 5], ag_stripe_task_num = [1, 4]\<rparr>"
  using agcommand_roundtrip [of "[3, 5]" "[1, 4]" 7] by (simp add: i32_def)

end
