(* ===== verification/DataPacket.thy ===== *)
theory DataPacket
  imports Command
begin

text \<open>
  The unit of data that the agent's threads exchange: class \<open>DataPacket\<close>
  (src/src/common/DataPacket.cc), and the loop of \<open>readRealBlock\<close> (src/src/common/Worker.cc) that
  fills one packet from a file.

  \<open>dp_raw\<close> is the allocation that \<open>_raw\<close> points to, \<open>_data\<close> points four bytes into it. Reads and
  writes past an allocation are \<open>BufferOverrun\<close>.
\<close>

section \<open>DataPacket\<close>

record packet =
  dp_raw :: string
  dp_len :: int

definition raw_len :: "string \<Rightarrow> int res" where
  \<comment> \<open>\<open>memcpy(&tmplen, raw, 4); ntohl(tmplen)\<close>\<close>
  "raw_len raw = bindR (readInt raw) (\<lambda>(len, _). Inr len)"

definition packet_of_raw :: "string \<Rightarrow> packet res" where
  \<comment> \<open>\<open>DataPacket(char* raw)\<close>\<close>
  "packet_of_raw raw =
     bindR (raw_len raw) (\<lambda>len.
       if 0 \<le> len \<and> nat len + 4 \<le> length raw
       then Inr \<lparr>dp_raw = take (nat len + 4) raw, dp_len = len\<rparr> else Inl BufferOverrun)"

definition new_packet :: "int \<Rightarrow> packet" where
  \<comment> \<open>\<open>DataPacket(int len)\<close>\<close>
  "new_packet len = \<lparr>dp_raw = htonl_bytes len @ replicate (nat len) CHR 0x00, dp_len = len\<rparr>"

definition setRaw :: "string \<Rightarrow> packet \<Rightarrow> packet res" where
  "setRaw raw p = bindR (raw_len raw) (\<lambda>len. Inr \<lparr>dp_raw = raw, dp_len = len\<rparr>)"

definition getDatalen :: "packet \<Rightarrow> int" where
  "getDatalen p = dp_len p"

definition getData :: "packet \<Rightarrow> string" where
  "getData p = drop 4 (dp_raw p)"

definition getRaw :: "packet \<Rightarrow> string" where
  "getRaw p = dp_raw p"

definition duplicateBy :: "packet \<Rightarrow> packet \<Rightarrow> packet res" where
  \<comment> \<open>\<open>p->duplicateBy(pkt)\<close>: \<open>memcpy\<close> into the allocation of \<open>p\<close>; its \<open>_dataLen\<close> stays\<close>
  "duplicateBy pkt p =
     (let n = 4 + nat (getDatalen pkt) in
      if n \<le> length (getRaw pkt) \<and> n \<le> length (dp_raw p)
      then Inr (p\<lparr>dp_raw := take n (getRaw pkt) @ drop n (dp_raw p)\<rparr>) else Inl BufferOverrun)"

definition set_data :: "string \<Rightarrow> packet \<Rightarrow> packet" where
  \<comment> \<open>the bytes behind \<open>getData()\<close> are overwritten from the front\<close>
  "set_data bs p = p\<lparr>dp_raw := take 4 (dp_raw p) @ bs @ drop (4 + length bs) (dp_raw p)\<rparr>"

text \<open>A packet as the threads build it: its header says how much data follows.\<close>

definition packet_ok :: "packet \<Rightarrow> bool" where
  "packet_ok p \<longleftrightarrow> 0 \<le> dp_len p \<and> dp_len p < 2 ^ 31 \<and> take 4 (dp_raw p) = htonl_bytes (dp_len p) \<and>
     length (dp_raw p) = 4 + nat (dp_len p)"

definition packet_of :: "string \<Rightarrow> packet" where
  "packet_of bs = \<lparr>dp_raw = htonl_bytes (int (length bs)) @ bs, dp_len = int (length bs)\<rparr>"

lemma packet_ok_of [simp]: "length bs < 2 ^ 31 \<Longrightarrow> packet_ok (packet_of bs)"
  by (simp add: packet_ok_def packet_of_def)

lemma getData_of [simp]: "getData (packet_of bs) = bs" "getDatalen (packet_of bs) = int (length bs)"
  by (simp_all add: getData_def getDatalen_def packet_of_def)

lemma packet_okE:
  assumes "packet_ok p" obtains bs where "p = packet_of bs" "length bs < 2 ^ 31"
proof
  have len: "int (length (drop 4 (dp_raw p))) = dp_len p" using assms by (simp add: packet_ok_def)
  have raw: "htonl_bytes (dp_len p) @ drop 4 (dp_raw p) = dp_raw p"
    using assms append_take_drop_id [of 4 "dp_raw p"] by (simp add: packet_ok_def)
  show "p = packet_of (getData p)"
    unfolding packet_of_def getData_def len raw by simp
  show "length (getData p) < 2 ^ 31" using assms by (auto simp: packet_ok_def getData_def)
qed

lemma new_packet_eq: "0 \<le> n \<Longrightarrow> new_packet n = packet_of (replicate (nat n) CHR 0x00)"
  by (simp add: new_packet_def packet_of_def)

lemma set_data_of [simp]: "length bs = length cs \<Longrightarrow> set_data bs (packet_of cs) = packet_of bs"
  by (simp add: set_data_def packet_of_def)

lemma duplicateBy_of [simp]:
  "length bs = length cs \<Longrightarrow> duplicateBy (packet_of bs) (packet_of cs) = Inr (packet_of bs)"
  by (simp add: duplicateBy_def getDatalen_def getRaw_def packet_of_def)

lemma packet_of_raw_of [simp]:
  "length bs < 2 ^ 31 \<Longrightarrow> packet_of_raw (getRaw (packet_of bs) @ s) = Inr (packet_of bs)"
  by (simp add: packet_of_raw_def raw_len_def getRaw_def packet_of_def i32_def)

section \<open>Filling a packet from a file\<close>

text \<open>
  \<open>read_loop ans n k acc\<close> is the loop \<open>while (readLen < subpktbytes)\<close> of \<open>readRealBlock\<close>: \<open>acc\<close> holds
  the first \<open>readLen\<close> bytes of the packet's data, \<open>ans k cnt\<close> is what the \<open>k\<close>-th \<open>pread\<close>, which asks
  for \<open>cnt\<close> bytes, puts behind them, \<open>None\<close> when it fails. The loop may not end.
\<close>

partial_function (option) read_loop :: "(nat \<Rightarrow> int \<Rightarrow> string option) \<Rightarrow> int \<Rightarrow> nat \<Rightarrow> string \<Rightarrow> string option" where
  "read_loop ans n k acc =
     (if int (length acc) < n
      then (case ans k (n - int (length acc)) of
              None \<Rightarrow> read_loop ans n (Suc k) acc
            | Some bs \<Rightarrow> read_loop ans n (Suc k) (acc @ bs))
      else Some acc)"

text \<open>
  \<open>pread\<close> on a regular file: some prefix of what is there at the offset, at most \<open>cnt\<close> bytes; the
  kernel chooses, call by call, how many (\<open>most k\<close>).
\<close>

definition file_pread :: "string \<Rightarrow> (nat \<Rightarrow> nat) \<Rightarrow> int \<Rightarrow> nat \<Rightarrow> int \<Rightarrow> string option" where
  "file_pread f most start k cnt = Some (take (min (nat cnt) (most k)) (drop (nat start) f))"

lemma read_loop_done: "n \<le> int (length acc) \<Longrightarrow> read_loop ans n k acc = Some acc"
  by (simp add: read_loop.simps)

lemma read_loop_one:
  assumes "ans k n = Some bs" and "int (length bs) = n"
  shows "read_loop ans n k [] = Some bs"
  using assms by (auto simp: read_loop.simps [of ans n k] read_loop_done)

lemma read_loop_stuck:
  assumes "\<And>k cnt. ans k cnt = None \<or> ans k cnt = Some []" and "int (length acc) < n"
  shows "read_loop ans n k acc = None"
proof -
  let ?P = "\<lambda>ans n k acc r. (\<forall>k cnt. ans k cnt = None \<or> ans k cnt = Some []) \<longrightarrow> int (length acc) < n \<longrightarrow> False"
  have "?P ans n k acc r" if "read_loop ans n k acc = Some r" for r
  proof (rule read_loop.raw_induct [of ?P, OF _ that])
    fix loop :: "(nat \<Rightarrow> int \<Rightarrow> string option) \<Rightarrow> int \<Rightarrow> nat \<Rightarrow> string \<Rightarrow> string option" and ans n k acc r
    assume IH: "\<And>ans n k acc r. loop ans n k acc = Some r \<Longrightarrow> ?P ans n k acc r"
      and step: "(if int (length acc) < n
          then case ans k (n - int (length acc)) of None \<Rightarrow> loop ans n (Suc k) acc | Some bs \<Rightarrow> loop ans n (Suc k) (acc @ bs)
          else Some acc) = Some r"
    show "?P ans n k acc r"
    proof (intro impI)
      assume h: "\<forall>k cnt. ans k cnt = None \<or> ans k cnt = Some []" and l: "int (length acc) < n"
      from h have "ans k (n - int (length acc)) = None \<or> ans k (n - int (length acc)) = Some []" by blast
      with step l have "loop ans n (Suc k) acc = Some r" by (elim disjE) simp_all
      from IH [OF this] h l show False by blast
    qed
  qed
  with assms show ?thesis by (cases "read_loop ans n k acc") auto
qed

lemma pread_full:
  assumes "0 \<le> start" and "0 < n" and "start + n \<le> int (length f)" and "nat n \<le> most 0"
  shows "read_loop (file_pread f most start) n 0 [] = Some (take (nat n) (drop (nat start) f))"
  using assms by (intro read_loop_one) (simp_all add: file_pread_def min_def, linarith)

lemma pread_eof:
  assumes "0 \<le> start" and "0 < n" and "int (length f) \<le> start"
  shows "read_loop (file_pread f most start) n 0 [] = None"
  using assms by (intro read_loop_stuck) (simp_all add: file_pread_def)

lemma pread_short:
  assumes "0 \<le> start" and "0 < n" and *: "start + n \<le> int (length f)" "most 0 = c" "c < nat n" "nat n - c \<le> most 1"
  shows "read_loop (file_pread f most start) n 0 [] =
    Some (take c (drop (nat start) f) @ take (nat n - c) (drop (nat start) f))"
proof -
  let ?sec = "drop (nat start) f"
  have len: "nat n \<le> length ?sec" using assms by simp
  have c: "length (take c ?sec) = c" "length (take (nat n - c) ?sec) = nat n - c" using len *(3) by simp_all
  have cn: "int c < n" using *(3) by linarith
  have 1: "file_pread f most start 0 n = Some (take c ?sec)" using * by (simp add: file_pread_def)
  have 2: "file_pread f most start (Suc 0) (n - int c) = Some (take (nat n - c) ?sec)"
    using * assms by (simp add: file_pread_def nat_diff_distrib')
  have "read_loop (file_pread f most start) n 0 [] = read_loop (file_pread f most start) n (Suc 0) (take c ?sec)"
    using assms(2) by (simp add: read_loop.simps [of _ _ 0] 1)
  also have "\<dots> = read_loop (file_pread f most start) n (Suc (Suc 0)) (take c ?sec @ take (nat n - c) ?sec)"
    unfolding read_loop.simps [of _ _ "Suc 0"] c(1) by (simp only: cn 2 if_True option.case)
  also have "\<dots> = Some (take c ?sec @ take (nat n - c) ?sec)"
    using c *(3) by (intro read_loop_done) simp
  finally show ?thesis .
qed

section \<open>Properties\<close>

text \<open>A packet survives the network: the bytes that the sender pushes, \<open>getRaw()\<close> with the length
  \<open>getDatalen() + 4\<close>, are turned into the same packet by the receiver's \<open>DataPacket(char*)\<close>, whatever
  follows them in its reply buffer; and \<open>duplicateBy\<close> makes a new packet of that length a copy.\<close>

theorem packet_roundtrip:
  assumes "packet_ok p"
  shows "packet_of_raw (take (nat (getDatalen p) + 4) (getRaw p) @ s) = Inr p \<and>
    duplicateBy p (new_packet (getDatalen p)) = Inr p"
proof -
  from assms obtain bs where p: "p = packet_of bs" "length bs < 2 ^ 31" by (rule packet_okE)
  have "take (nat (getDatalen p) + 4) (getRaw p) = getRaw (packet_of bs)"
    unfolding p(1) getData_of by (simp add: getRaw_def packet_of_def)
  then show ?thesis using p by (simp add: new_packet_eq)
qed

lemma packet_roundtrip_witness:
  "packet_of_raw (take 6 (getRaw (packet_of ''ab'')) @ ''xyz'') = Inr (packet_of ''ab'')"
  using packet_roundtrip [of "packet_of ''ab''" "''xyz''"] by simp

text \<open>C40: What \<open>readRealBlock\<close> puts into a packet of \<open>n\<close> bytes at offset \<open>start\<close> of a file: if the first
  \<open>pread\<close> delivers everything, the section of the file that belongs there. But when the first \<open>pread\<close>
  delivers only \<open>c\<close> bytes, the second one reads at \<open>start\<close> again, not at \<open>start + c\<close>: the packet holds
  the first bytes of the section twice. And when the file ends before \<open>start\<close>, the loop never ends.\<close>

theorem read_packet_cases:
  assumes "0 \<le> start" and "0 < n"
  shows "(start + n \<le> int (length f) \<and> nat n \<le> most 0 \<longrightarrow>
      read_loop (file_pread f most start) n 0 [] = Some (take (nat n) (drop (nat start) f))) \<and>
    (start + n \<le> int (length f) \<and> most 0 = c \<and> c < nat n \<and> nat n - c \<le> most 1 \<longrightarrow>
      read_loop (file_pread f most start) n 0 [] =
        Some (take c (drop (nat start) f) @ take (nat n - c) (drop (nat start) f))) \<and>
    (int (length f) \<le> start \<longrightarrow> read_loop (file_pread f most start) n 0 [] = None)"
  using pread_full [OF assms] pread_short [OF assms] pread_eof [OF assms] by blast

lemma read_packet_cases_witness:
  "read_loop (file_pread ''abcdef'' (\<lambda>k. if k = 0 then 1 else 9) 2) 3 0 [] = Some ''ccd''"
  using read_packet_cases [of 2 3 "''abcdef''" "\<lambda>k. if k = 0 then 1 else 9" 1] by (simp add: numeral_3_eq_3)

end
