(* ===== verification/Ecdag.thy ===== *)
theory Ecdag
  imports Prelude
begin

text \<open>
  The repair DAG: \<open>ECNode\<close> (src/src/ec/ECNode.cc) and \<open>ECDAG\<close> (src/src/ec/ECDAG.cc). Every
  \<open>ECNode*\<close> of the program is a value of \<open>_ecNodeMap\<close> under its own id, so a pointer is modelled
  by that id and the heap by the map; a null pointer is an absent key.
\<close>

section \<open>ECNode\<close>

record ecnode =
  nodeId :: int
  ntype :: "int option"      \<comment> \<open>\<open>_type\<close>: 0 leaf, 1 root, 2 intermediate; unset by the constructor\<close>
  childNodes :: "int list"
  coefs :: "int list"
  parentNodes :: "int list"

definition new_ecnode :: "int \<Rightarrow> ecnode" where
  "new_ecnode i = \<lparr>nodeId = i, ntype = None, childNodes = [], coefs = [], parentNodes = []\<rparr>"

definition setType :: "string \<Rightarrow> ecnode \<Rightarrow> ecnode" where
  "setType t n = n\<lparr>ntype := Some (if t = ''leaf'' then 0 else if t = ''root'' then 1 else 2)\<rparr>"

definition setChilds :: "int list \<Rightarrow> ecnode \<Rightarrow> ecnode" where
  "setChilds cs n = n\<lparr>childNodes := cs\<rparr>"

definition setCoefs :: "int list \<Rightarrow> ecnode \<Rightarrow> ecnode" where
  "setCoefs cs n = n\<lparr>coefs := cs\<rparr>"

definition addParentNode :: "int \<Rightarrow> ecnode \<Rightarrow> ecnode" where
  "addParentNode p n = n\<lparr>parentNodes := parentNodes n @ [p]\<rparr>"

definition getNumChilds :: "ecnode \<Rightarrow> nat" where
  "getNumChilds n = length (childNodes n)"

text \<open>
  \<open>removeChildNode(pnode)\<close> erases each child of \<open>pnode\<close> from this node's children;
  \<open>erase(end())\<close> for a child that is not there is undefined behaviour.
\<close>

definition removeChildNode :: "ecnode \<Rightarrow> ecnode \<Rightarrow> ecnode res" where
  "removeChildNode pnode n =
     bindR (foldR (\<lambda>c cs. if c \<in> set cs then Inr (remove1 c cs) else Inl BadIndex)
              (childNodes pnode) (childNodes n))
       (\<lambda>cs. Inr (n\<lparr>childNodes := cs, parentNodes := remove1 (nodeId pnode) (parentNodes n)\<rparr>))"

text \<open>\<open>getChildColors\<close>: the distinct colours of the children in order, without \<open>-1\<close>; \<open>at()\<close> throws.\<close>

definition getChildColors :: "int umap \<Rightarrow> ecnode \<Rightarrow> int list res" where
  "getChildColors coloring n =
     foldR (\<lambda>c ret. bindR (ofOpt OutOfRange (map_of coloring c))
              (\<lambda>color. Inr (if color \<noteq> -1 \<and> color \<notin> set ret then ret @ [color] else ret)))
       (childNodes n) []"

section \<open>ECDAG\<close>

record ecdag =
  ecNodeMap :: "ecnode umap"
  ecHeaders :: "int list"
  ecLeaves :: "int list"
  ecConcacts :: "int list"

definition REQUESTOR :: int where
  "REQUESTOR = 32767"

definition new_ecdag :: ecdag where
  "new_ecdag = \<lparr>ecNodeMap = [], ecHeaders = [], ecLeaves = [], ecConcacts = []\<rparr>"

definition getNode :: "ecdag \<Rightarrow> int \<Rightarrow> ecnode option" where
  "getNode g i = map_of (ecNodeMap g) i"

abbreviation node_ids :: "ecdag \<Rightarrow> int list" where
  "node_ids g \<equiv> um_keys (ecNodeMap g)"

definition updNode :: "int \<Rightarrow> (ecnode \<Rightarrow> ecnode) \<Rightarrow> ecdag \<Rightarrow> ecdag" where
  \<comment> \<open>a write through the pointer \<open>_ecNodeMap[i]\<close>\<close>
  "updNode i f g =
     (case getNode g i of None \<Rightarrow> g | Some n \<Rightarrow> g\<lparr>ecNodeMap := um_put i (f n) (ecNodeMap g)\<rparr>)"

text \<open>The children's loop of \<open>Join\<close>: create a leaf, or demote a header.\<close>

definition join_child :: "int \<Rightarrow> ecdag \<Rightarrow> ecdag" where
  "join_child curId g =
     (case getNode g curId of
        None \<Rightarrow> g\<lparr>ecNodeMap := um_insert curId (setType ''leaf'' (new_ecnode curId)) (ecNodeMap g),
                   ecLeaves := ecLeaves g @ [curId]\<rparr>
      | Some n \<Rightarrow>
          (if curId \<in> set (ecHeaders g)
           then updNode curId (setType ''intermediate'') (g\<lparr>ecHeaders := remove1 curId (ecHeaders g)\<rparr>)
           else g))"

text \<open>The parent's part of \<open>Join\<close>: nothing happens when \<open>pidx\<close> already exists.\<close>

definition join_parent :: "int \<Rightarrow> int list \<Rightarrow> int list \<Rightarrow> ecdag \<Rightarrow> ecdag" where
  "join_parent pidx cidx cfs g =
     (if um_has (ecNodeMap g) pidx then g
      else
        (let r = setCoefs cfs (setChilds cidx (setType ''root'' (new_ecnode pidx)));
             g1 = g\<lparr>ecNodeMap := um_insert pidx r (ecNodeMap g), ecHeaders := ecHeaders g @ [pidx]\<rparr>
         in fold (\<lambda>c. updNode c (addParentNode pidx)) cidx g1))"

definition Join :: "int \<Rightarrow> int list \<Rightarrow> int list \<Rightarrow> ecdag \<Rightarrow> ecdag" where
  "Join pidx cidx cfs g = join_parent pidx cidx cfs (fold join_child cidx g)"

definition Concact1 :: "int list \<Rightarrow> ecdag \<Rightarrow> ecdag" where
  \<comment> \<open>\<open>ECDAG::Concact(vector<int> cidx)\<close>\<close>
  "Concact1 cidx g = Join REQUESTOR cidx (map (\<lambda>_. -1) cidx) g"

text \<open>\<open>Concact(cidx, n, w)\<close>: one concatenation vertex for each block that has a sub-packet in \<open>cidx\<close>.\<close>

definition concact_blocks :: "int list \<Rightarrow> int \<Rightarrow> int \<Rightarrow> int list list res" where
  "concact_blocks cidx n w =
     foldR (\<lambda>it block.
              bindR (cdiv it w) (\<lambda>blkidx.
                if 0 \<le> blkidx \<and> nat blkidx < length block
                then Inr (block[nat blkidx := block ! nat blkidx @ [it]])
                else Inl BadIndex))
       cidx (replicate (nat n) [])"

definition concact_step :: "int list \<Rightarrow> int list list \<Rightarrow> nat \<Rightarrow> ecdag \<Rightarrow> ecdag" where
  "concact_step cfs block i g =
     (if block ! i = [] then g
      else (let g1 = Join (REQUESTOR - int i) (block ! i) cfs g
            in g1\<lparr>ecConcacts := ecConcacts g1 @ [REQUESTOR - int i]\<rparr>))"

definition Concact :: "int list \<Rightarrow> int \<Rightarrow> int \<Rightarrow> ecdag \<Rightarrow> ecdag res" where
  "Concact cidx n w g =
     bindR (concact_blocks cidx n w) (\<lambda>block.
       Inr (fold (concact_step (map (\<lambda>_. -1) cidx) block) [0..<nat n] g))"

definition getAllNodeIds :: "ecdag \<Rightarrow> int list" where
  "getAllNodeIds g = map fst (ecNodeMap g)"

definition genItmIdxs :: "ecdag \<Rightarrow> int list" where
  "genItmIdxs g =
     sort (filter (\<lambda>sidx. sidx \<notin> set (ecHeaders g) \<and> sidx \<notin> set (ecLeaves g)) (node_ids g))"

definition parents_of :: "ecdag \<Rightarrow> int \<Rightarrow> int list" where
  "parents_of g i = (case getNode g i of None \<Rightarrow> [] | Some n \<Rightarrow> parentNodes n)"

definition children_of :: "ecdag \<Rightarrow> int \<Rightarrow> int list" where
  "children_of g i = (case getNode g i of None \<Rightarrow> [] | Some n \<Rightarrow> childNodes n)"

section \<open>Well-formed DAGs\<close>

text \<open>
  The node list is a topological order: a vertex is created after its children, because \<open>Join\<close>
  creates the missing children before the parent and links an existing parent to nothing.
\<close>

fun topo_from :: "int set \<Rightarrow> ecnode umap \<Rightarrow> bool" where
  "topo_from seen [] \<longleftrightarrow> True"
| "topo_from seen ((i, n) # ms) \<longleftrightarrow> set (childNodes n) \<subseteq> seen \<and> topo_from (insert i seen) ms"

definition wf_node :: "ecdag \<Rightarrow> int \<Rightarrow> ecnode \<Rightarrow> bool" where
  "wf_node g i n \<longleftrightarrow>
     nodeId n = i \<and> distinct (childNodes n) \<and> distinct (parentNodes n) \<and>
     set (childNodes n) \<subseteq> set (node_ids g) \<and> set (parentNodes n) \<subseteq> set (node_ids g) \<and>
     (\<forall>c\<in>set (childNodes n). i \<in> set (parents_of g c)) \<and>
     (\<forall>p\<in>set (parentNodes n). i \<in> set (children_of g p))"

definition wf_ecdag :: "ecdag \<Rightarrow> bool" where
  "wf_ecdag g \<longleftrightarrow>
     distinct (node_ids g) \<and>
     list_all (\<lambda>(i, n). wf_node g i n) (ecNodeMap g) \<and>
     topo_from {} (ecNodeMap g) \<and>
     distinct (ecLeaves g) \<and> set (ecLeaves g) = {i \<in> set (node_ids g). children_of g i = []} \<and>
     distinct (ecHeaders g) \<and> set (ecHeaders g) = {i \<in> set (node_ids g). parents_of g i = []}"

end
