(* ===== verification/Ecdag_Inv.thy ===== *)
theory Ecdag_Inv
  imports Ecdag
begin

text \<open>
  The invariant of the repair DAG and its preservation by \<open>Join\<close> and \<open>Concact\<close>. The lemmas see a
  DAG through its vertex list, \<open>children_of\<close> and \<open>parents_of\<close>.
\<close>

named_theorems dag_simps \<open>vertices, children and parents after an update\<close>

section \<open>Reading a DAG\<close>

lemma getNode_iff: "i \<in> set (node_ids g) \<longleftrightarrow> (\<exists>n. getNode g i = Some n)"
  by (simp add: getNode_def map_of_um_keys)

lemma getNode_None [dag_simps]: "getNode g i = None \<longleftrightarrow> i \<notin> set (node_ids g)"
  using getNode_iff [of i g] by (cases "getNode g i") auto

lemma getNode_mem:
  "distinct (node_ids g) \<Longrightarrow> (i, n) \<in> set (ecNodeMap g) \<longleftrightarrow> getNode g i = Some n"
  by (simp add: getNode_def um_keys_def)

lemma children_of_absent [simp]: "i \<notin> set (node_ids g) \<Longrightarrow> children_of g i = []"
  by (simp add: children_of_def flip: getNode_None split: option.splits)

lemma parents_of_absent [simp]: "i \<notin> set (node_ids g) \<Longrightarrow> parents_of g i = []"
  by (simp add: parents_of_def flip: getNode_None split: option.splits)

text \<open>The invariant, vertex by vertex.\<close>

definition dag_ok :: "ecdag \<Rightarrow> bool" where
  "dag_ok g \<longleftrightarrow>
     distinct (node_ids g) \<and> topo_from {} (ecNodeMap g) \<and>
     (\<forall>i n. getNode g i = Some n \<longrightarrow> nodeId n = i) \<and>
     (\<forall>i. distinct (children_of g i)) \<and> (\<forall>i. distinct (parents_of g i)) \<and>
     (\<forall>i. set (children_of g i) \<subseteq> set (node_ids g)) \<and>
     (\<forall>i. set (parents_of g i) \<subseteq> set (node_ids g)) \<and>
     (\<forall>i c. i \<in> set (parents_of g c) \<longleftrightarrow> c \<in> set (children_of g i))"

lemma dag_okD:
  assumes "dag_ok g"
  shows "distinct (node_ids g)" "distinct (children_of g i)" "distinct (parents_of g i)"
    "set (children_of g i) \<subseteq> set (node_ids g)" "set (parents_of g i) \<subseteq> set (node_ids g)"
    "i \<in> set (parents_of g c) \<longleftrightarrow> c \<in> set (children_of g i)"
  using assms by (simp_all add: dag_ok_def)

lemmas dag_mirror = dag_okD(6)

definition wf_upto :: "int set \<Rightarrow> ecdag \<Rightarrow> bool" where
  \<comment> \<open>\<open>X\<close>: vertices already struck off the headers by the children's loop of \<open>Join\<close>\<close>
  "wf_upto X g \<longleftrightarrow>
     dag_ok g \<and>
     distinct (ecLeaves g) \<and> set (ecLeaves g) = {i \<in> set (node_ids g). children_of g i = []} \<and>
     distinct (ecHeaders g) \<and>
     set (ecHeaders g) = {i \<in> set (node_ids g). parents_of g i = []} - X"

lemma wf_nodes_iff:
  assumes d: "distinct (node_ids g)"
  shows "list_all (\<lambda>(i, n). wf_node g i n) (ecNodeMap g) \<longleftrightarrow>
    (\<forall>i n. getNode g i = Some n \<longrightarrow> nodeId n = i) \<and>
    (\<forall>i. distinct (children_of g i)) \<and> (\<forall>i. distinct (parents_of g i)) \<and>
    (\<forall>i. set (children_of g i) \<subseteq> set (node_ids g)) \<and>
    (\<forall>i. set (parents_of g i) \<subseteq> set (node_ids g)) \<and>
    (\<forall>i c. i \<in> set (parents_of g c) \<longleftrightarrow> c \<in> set (children_of g i))"
    (is "?L \<longleftrightarrow> ?R")
proof
  assume ?L
  then have L: "wf_node g i n" if "getNode g i = Some n" for i n
    using that d by (auto simp: list_all_iff getNode_mem)
  have C: "wf_node g i n \<and> children_of g i = childNodes n \<and> parents_of g i = parentNodes n"
    if "getNode g i = Some n" for i n
    using L [OF that] that by (simp add: children_of_def parents_of_def)
  have E: "(\<exists>n. getNode g i = Some n) \<or> children_of g i = [] \<and> parents_of g i = []" for i
    by (cases "getNode g i") (auto simp: children_of_def parents_of_def)
  show ?R
    using C E unfolding wf_node_def
    by (smt (verit, best) distinct.simps(1) empty_iff empty_set empty_subsetI)
next
  assume R: ?R
  have "wf_node g i n" if h: "getNode g i = Some n" for i n
  proof -
    have c: "childNodes n = children_of g i" and p: "parentNodes n = parents_of g i"
      using h by (simp_all add: children_of_def parents_of_def)
    show ?thesis unfolding wf_node_def c p using R h by blast
  qed
  then show ?L
    using d by (auto simp: list_all_iff getNode_mem)
qed

lemma wf_ecdag_upto: "wf_ecdag g \<longleftrightarrow> wf_upto {} g"
proof (cases "distinct (node_ids g)")
  case True
  show ?thesis
    unfolding wf_ecdag_def wf_upto_def dag_ok_def wf_nodes_iff [OF True] by blast
qed (simp add: wf_ecdag_def wf_upto_def dag_ok_def)

lemma wf_ecdag_ok: "wf_ecdag g \<Longrightarrow> dag_ok g"
  by (simp add: wf_ecdag_upto wf_upto_def)

section \<open>Updates\<close>

lemma topo_from_append:
  "topo_from seen (ms @ ms') \<longleftrightarrow> topo_from seen ms \<and> topo_from (seen \<union> set (um_keys ms)) ms'"
  by (induction ms arbitrary: seen) (auto simp: Un_commute Un_left_commute)

lemma topo_from_cong:
  "um_keys ms = um_keys ms' \<Longrightarrow> list_all2 (\<lambda>p q. childNodes (snd p) = childNodes (snd q)) ms ms' \<Longrightarrow>
   topo_from seen ms = topo_from seen ms'"
proof (induction ms arbitrary: ms' seen)
  case Nil
  then show ?case by simp
next
  case (Cons p ms)
  then show ?case by (cases ms'; cases p; cases "hd ms'") (auto simp: list_all2_Cons1)
qed

lemma node_ids_updNode [simp]: "node_ids (updNode i f g) = node_ids g"
  by (auto simp: updNode_def um_keys_put getNode_iff split: option.splits)

lemma getNode_updNode [dag_simps]:
  "getNode (updNode i f g) j = (if j = i then map_option f (getNode g j) else getNode g j)"
  by (auto simp: updNode_def getNode_def split: option.splits)

lemma updNode_frame [simp]:
  "ecHeaders (updNode i f g) = ecHeaders g" "ecLeaves (updNode i f g) = ecLeaves g"
  "ecConcacts (updNode i f g) = ecConcacts g"
  by (auto simp: updNode_def split: option.splits)

lemma children_of_updNode:
  "(\<And>n. childNodes (f n) = childNodes n) \<Longrightarrow> children_of (updNode i f g) j = children_of g j"
  by (auto simp: children_of_def getNode_updNode split: option.splits)

lemma parents_of_updNode:
  "(\<And>n. parentNodes (f n) = parentNodes n) \<Longrightarrow> parents_of (updNode i f g) j = parents_of g j"
  by (auto simp: parents_of_def getNode_updNode split: option.splits)

lemma topo_updNode:
  assumes "distinct (node_ids g)" and "\<And>n. childNodes (f n) = childNodes n"
  shows "topo_from seen (ecNodeMap (updNode i f g)) = topo_from seen (ecNodeMap g)"
proof (cases "getNode g i")
  case (Some n)
  then have k: "i \<in> set (node_ids g)" by (auto simp: getNode_iff)
  have "list_all2 (\<lambda>p q. childNodes (snd p) = childNodes (snd q))
      (um_put i (f n) (ecNodeMap g)) (ecNodeMap g)"
    using Some assms(2) um_get_map_of [OF assms(1)]
    by (auto simp: um_put_present [OF assms(1) k] list_all2_conv_all_nth getNode_mem [OF assms(1)]
        dest!: nth_mem split: prod.splits)
  then show ?thesis
    using Some k by (intro topo_from_cong) (simp_all add: updNode_def um_keys_put)
qed (simp add: updNode_def)

lemma setType_frame [simp]:
  "childNodes (setType t n) = childNodes n" "parentNodes (setType t n) = parentNodes n"
  "nodeId (setType t n) = nodeId n" "coefs (setType t n) = coefs n"
  by (simp_all add: setType_def)

lemma addParentNode_frame [simp]:
  "childNodes (addParentNode p n) = childNodes n" "nodeId (addParentNode p n) = nodeId n"
  "coefs (addParentNode p n) = coefs n" "parentNodes (addParentNode p n) = parentNodes n @ [p]"
  by (simp_all add: addParentNode_def)

lemma new_ecnode_sel [simp]:
  "nodeId (new_ecnode i) = i" "childNodes (new_ecnode i) = []" "parentNodes (new_ecnode i) = []"
  by (simp_all add: new_ecnode_def)

text \<open>A write that touches only the type keeps everything the invariant speaks of.\<close>

lemma dag_ok_updType:
  assumes "dag_ok g" shows "dag_ok (updNode i (setType t) g)"
  using assms topo_updNode [of g "setType t" "{}" i]
  by (auto simp: dag_ok_def children_of_updNode parents_of_updNode getNode_updNode split: if_splits)

lemma dag_ok_lists [simp]:
  "dag_ok (g\<lparr>ecHeaders := hs\<rparr>) = dag_ok g" "dag_ok (g\<lparr>ecLeaves := ls\<rparr>) = dag_ok g"
  "dag_ok (g\<lparr>ecConcacts := cs\<rparr>) = dag_ok g"
  by (simp_all add: dag_ok_def getNode_def children_of_def parents_of_def)

lemma reads_lists [simp]:
  "children_of (g\<lparr>ecHeaders := hs\<rparr>) = children_of g" "parents_of (g\<lparr>ecHeaders := hs\<rparr>) = parents_of g"
  "children_of (g\<lparr>ecLeaves := hs\<rparr>) = children_of g" "parents_of (g\<lparr>ecLeaves := hs\<rparr>) = parents_of g"
  "children_of (g\<lparr>ecConcacts := hs\<rparr>) = children_of g" "parents_of (g\<lparr>ecConcacts := hs\<rparr>) = parents_of g"
  by (simp_all add: getNode_def children_of_def parents_of_def fun_eq_iff)

text \<open>A fresh vertex at the end of the node list.\<close>

definition addNode :: "ecnode \<Rightarrow> ecdag \<Rightarrow> ecdag" where
  "addNode n g = g\<lparr>ecNodeMap := ecNodeMap g @ [(nodeId n, n)]\<rparr>"

lemma addNode_headers: "addNode n (g\<lparr>ecHeaders := hs\<rparr>) = (addNode n g)\<lparr>ecHeaders := hs\<rparr>"
  by (simp add: addNode_def)

lemma getNode_addNode:
  "nodeId n \<notin> set (node_ids g) \<Longrightarrow> getNode (addNode n g) j = (if j = nodeId n then Some n else getNode g j)"
  using getNode_None [of g "nodeId n"]
  by (auto simp: addNode_def getNode_def map_add_def split: option.splits)

lemma reads_addNode:
  assumes "nodeId n \<notin> set (node_ids g)"
  shows "children_of (addNode n g) j = (if j = nodeId n then childNodes n else children_of g j)"
    and "parents_of (addNode n g) j = (if j = nodeId n then parentNodes n else parents_of g j)"
    and "node_ids (addNode n g) = node_ids g @ [nodeId n]"
  using getNode_addNode [OF assms, of j]
  by (auto simp: children_of_def parents_of_def addNode_def)

text \<open>Adding a vertex whose children are known: the links back are added by a second loop.\<close>

lemma dag_ok_addLeaf:
  assumes "dag_ok g" and "nodeId n \<notin> set (node_ids g)" and "childNodes n = []" "parentNodes n = []"
  shows "dag_ok (addNode n g)"
proof -
  have t: "topo_from {} (ecNodeMap (addNode n g))"
    using assms by (simp add: addNode_def topo_from_append dag_ok_def)
  have m: "nodeId n \<notin> set (children_of g i)" "nodeId n \<notin> set (parents_of g i)" for i
    using assms(1,2) unfolding dag_ok_def by blast+
  show ?thesis
    using assms t m unfolding dag_ok_def
    by (auto simp: reads_addNode getNode_addNode split: if_splits)
qed

lemma wf_upto_join_child:
  assumes "wf_upto X g"
  shows "wf_upto (insert c X) (join_child c g)"
    and "set (node_ids (join_child c g)) = insert c (set (node_ids g))"
    and "children_of (join_child c g) i = children_of g i"
    and "ecConcacts (join_child c g) = ecConcacts g"
proof -
  have ok: "dag_ok g" using assms by (simp add: wf_upto_def)
  let ?n = "setType ''leaf'' (new_ecnode c)"
  have leaf: "join_child c g = addNode ?n (g\<lparr>ecLeaves := ecLeaves g @ [c]\<rparr>)"
    if "c \<notin> set (node_ids g)"
    using that getNode_None [of g c]
    by (simp add: join_child_def addNode_def um_insert_def um_has_def)
  have node: "join_child c g = (if c \<in> set (ecHeaders g)
      then updNode c (setType ''intermediate'') (g\<lparr>ecHeaders := remove1 c (ecHeaders g)\<rparr>) else g)"
    if "c \<in> set (node_ids g)"
    using that by (auto simp: join_child_def getNode_iff)
  have new: "wf_upto (insert c X) (join_child c g)" if c: "c \<notin> set (node_ids g)"
  proof -
    have "dag_ok (join_child c g)"
      unfolding leaf [OF c] using ok c by (intro dag_ok_addLeaf) simp_all
    then show ?thesis
      using assms c unfolding wf_upto_def
      by (auto simp: leaf [OF c] reads_addNode) (auto simp: addNode_def)
  qed
  have old: "wf_upto (insert c X) (join_child c g)" if c: "c \<in> set (node_ids g)"
    using assms ok c unfolding wf_upto_def
    by (auto simp: node [OF c] dag_ok_updType children_of_updNode parents_of_updNode)
  show "wf_upto (insert c X) (join_child c g)" using new old by blast
  show "set (node_ids (join_child c g)) = insert c (set (node_ids g))"
    by (cases "c \<in> set (node_ids g)") (auto simp: leaf node reads_addNode)
  show "children_of (join_child c g) i = children_of g i"
    by (cases "c \<in> set (node_ids g)") (auto simp: leaf node reads_addNode children_of_updNode)
  show "ecConcacts (join_child c g) = ecConcacts g"
    by (cases "c \<in> set (node_ids g)") (auto simp: leaf node addNode_def)
qed

lemma wf_upto_join_childs:
  "wf_upto X g \<Longrightarrow>
     wf_upto (set cs \<union> X) (fold join_child cs g) \<and>
     set (node_ids (fold join_child cs g)) = set (node_ids g) \<union> set cs \<and>
     (\<forall>i. children_of (fold join_child cs g) i = children_of g i) \<and>
     ecConcacts (fold join_child cs g) = ecConcacts g"
proof (induction cs arbitrary: X g)
  case Nil
  then show ?case by simp
next
  case (Cons c cs)
  note step = wf_upto_join_child [OF Cons.prems, of c]
  from Cons.IH [OF step(1)] step(2-4) show ?case by auto
qed

text \<open>The loop that links the children of a new parent back to it.\<close>

lemma link_back:
  "node_ids (fold (\<lambda>c. updNode c (addParentNode p)) cs g) = node_ids g"
  "children_of (fold (\<lambda>c. updNode c (addParentNode p)) cs g) i = children_of g i"
  "ecHeaders (fold (\<lambda>c. updNode c (addParentNode p)) cs g) = ecHeaders g"
  "ecLeaves (fold (\<lambda>c. updNode c (addParentNode p)) cs g) = ecLeaves g"
  "ecConcacts (fold (\<lambda>c. updNode c (addParentNode p)) cs g) = ecConcacts g"
  by (induction cs arbitrary: g) (simp_all add: children_of_updNode)

lemma link_back_topo:
  "distinct (node_ids g) \<Longrightarrow>
   topo_from seen (ecNodeMap (fold (\<lambda>c. updNode c (addParentNode p)) cs g)) = topo_from seen (ecNodeMap g)"
  by (induction cs arbitrary: g) (simp_all add: topo_updNode)

lemma link_back_nodeId:
  "getNode (fold (\<lambda>c. updNode c (addParentNode p)) cs g) i = Some n \<Longrightarrow>
   \<exists>n'. getNode g i = Some n' \<and> nodeId n' = nodeId n"
  by (induction cs arbitrary: g) (fastforce simp: getNode_updNode split: if_splits)+

lemma link_back_parents:
  "distinct cs \<Longrightarrow> set cs \<subseteq> set (node_ids g) \<Longrightarrow>
   parents_of (fold (\<lambda>c. updNode c (addParentNode p)) cs g) i =
   parents_of g i @ (if i \<in> set cs then [p] else [])"
proof (induction cs arbitrary: g)
  case Nil
  then show ?case by simp
next
  case (Cons c cs)
  have "parents_of (updNode c (addParentNode p) g) i = parents_of g i @ (if i = c then [p] else [])"
    using Cons.prems(2) by (auto simp: parents_of_def getNode_updNode getNode_iff split: option.splits)
  with Cons show ?case by auto
qed

section \<open>Join and Concact\<close>

lemma wf_join_parent:
  assumes wf: "wf_upto (set cidx) g" and fresh: "pidx \<notin> set (node_ids g)"
    and sub: "set cidx \<subseteq> set (node_ids g)" and dis: "distinct cidx" and ne: "cidx \<noteq> []"
  shows "wf_ecdag (join_parent pidx cidx cfs g)"
    and "set (node_ids (join_parent pidx cidx cfs g)) = insert pidx (set (node_ids g))"
    and "children_of (join_parent pidx cidx cfs g) i = (if i = pidx then cidx else children_of g i)"
    and "ecConcacts (join_parent pidx cidx cfs g) = ecConcacts g"
proof -
  define r where "r = setCoefs cfs (setChilds cidx (setType ''root'' (new_ecnode pidx)))"
  define g1 where "g1 = addNode r (g\<lparr>ecHeaders := ecHeaders g @ [pidx]\<rparr>)"
  have r: "nodeId r = pidx" "childNodes r = cidx" "parentNodes r = []"
    by (simp_all add: r_def setCoefs_def setChilds_def)
  have jp: "join_parent pidx cidx cfs g = fold (\<lambda>c. updNode c (addParentNode pidx)) cidx g1"
    using fresh r(1)
    by (simp add: join_parent_def um_has_def um_insert_def Let_def g1_def addNode_headers
        r_def [symmetric]) (simp add: addNode_def)
  have f1: "nodeId r \<notin> set (node_ids (g\<lparr>ecHeaders := ecHeaders g @ [pidx]\<rparr>))"
    using fresh r(1) by simp
  have V: "node_ids g1 = node_ids g @ [pidx]"
    and C: "children_of g1 j = (if j = pidx then cidx else children_of g j)"
    and P: "parents_of g1 j = (if j = pidx then [] else parents_of g j)" for j
    using reads_addNode [OF f1] r by (simp_all add: g1_def)
  have P': "parents_of (join_parent pidx cidx cfs g) j =
      (if j = pidx then [] else parents_of g j) @ (if j \<in> set cidx then [pidx] else [])" for j
    unfolding jp using dis sub by (subst link_back_parents) (auto simp: V P)
  have hl: "ecHeaders g1 = ecHeaders g @ [pidx]" "ecLeaves g1 = ecLeaves g" "ecConcacts g1 = ecConcacts g"
    by (simp_all add: g1_def addNode_def)
  have ok: "dag_ok g" using wf by (simp add: wf_upto_def)
  have d1: "distinct (node_ids g1)" using ok fresh by (simp add: V dag_ok_def)
  have t1: "topo_from {} (ecNodeMap g1)"
    using ok sub r by (simp add: g1_def addNode_def topo_from_append dag_ok_def)
  have id: "nodeId n = j" if "getNode (join_parent pidx cidx cfs g) j = Some n" for j n
    using link_back_nodeId [OF that [unfolded jp]] getNode_addNode [OF f1, of j] ok r(1)
    unfolding g1_def by (auto simp: dag_ok_def getNode_def split: if_splits)
  have nc: "pidx \<notin> set cidx" using fresh sub by blast
  have ni: "pidx \<notin> set (children_of g j)" "pidx \<notin> set (parents_of g j)" for j
    using ok fresh unfolding dag_ok_def by blast+
  note reads = link_back(1-5) [of pidx cidx g1, folded jp]
  have ok': "dag_ok (join_parent pidx cidx cfs g)"
    unfolding dag_ok_def
  proof (intro conjI allI)
    show "topo_from {} (ecNodeMap (join_parent pidx cidx cfs g))"
      unfolding jp link_back_topo [OF d1] by (rule t1)
    show "distinct (parents_of (join_parent pidx cidx cfs g) j)" for j
      using ok ni by (auto simp: P' dag_ok_def)
    show "i \<in> set (parents_of (join_parent pidx cidx cfs g) c)
        \<longleftrightarrow> c \<in> set (children_of (join_parent pidx cidx cfs g) i)" for i c
      using ok ni nc sub fresh by (auto simp: P' reads C dag_ok_def)
  qed (use ok d1 sub dis id in \<open>auto simp: reads V C P' dag_ok_def\<close>)
  show "wf_ecdag (join_parent pidx cidx cfs g)"
    using wf ok' fresh ne nc unfolding wf_ecdag_upto wf_upto_def
    by (auto simp: reads V C P' hl)
  show "set (node_ids (join_parent pidx cidx cfs g)) = insert pidx (set (node_ids g))"
    by (simp add: reads V)
  show "children_of (join_parent pidx cidx cfs g) i = (if i = pidx then cidx else children_of g i)"
    by (simp add: reads C)
  show "ecConcacts (join_parent pidx cidx cfs g) = ecConcacts g"
    by (simp add: reads hl)
qed

lemma wf_Join:
  assumes "wf_ecdag g" and "pidx \<notin> set (node_ids g)" and "pidx \<notin> set cidx"
    and "distinct cidx" and "cidx \<noteq> []"
  shows "wf_ecdag (Join pidx cidx cfs g)"
    and "set (node_ids (Join pidx cidx cfs g)) = insert pidx (set (node_ids g) \<union> set cidx)"
    and "children_of (Join pidx cidx cfs g) i = (if i = pidx then cidx else children_of g i)"
    and "ecConcacts (Join pidx cidx cfs g) = ecConcacts g"
proof -
  have up: "wf_upto {} g" using assms(1) by (simp add: wf_ecdag_upto)
  note kids = wf_upto_join_childs [OF up, of cidx]
  have pre: "wf_upto (set cidx) (fold join_child cidx g)"
    "pidx \<notin> set (node_ids (fold join_child cidx g))"
    "set cidx \<subseteq> set (node_ids (fold join_child cidx g))"
    using kids assms(2,3) by auto
  note par = wf_join_parent [OF pre assms(4,5), of cfs]
  show "wf_ecdag (Join pidx cidx cfs g)" using par(1) by (simp add: Join_def)
  show "set (node_ids (Join pidx cidx cfs g)) = insert pidx (set (node_ids g) \<union> set cidx)"
    using par(2) kids by (simp add: Join_def)
  show "children_of (Join pidx cidx cfs g) i = (if i = pidx then cidx else children_of g i)"
    using par(3) kids by (simp add: Join_def)
  show "ecConcacts (Join pidx cidx cfs g) = ecConcacts g"
    using par(4) kids by (simp add: Join_def)
qed

lemma wf_new_ecdag [simp]: "wf_ecdag new_ecdag"
  by (simp add: wf_ecdag_def new_ecdag_def)


text \<open>\<open>Concact(cidx, n, w)\<close> sorts the sub-packets into blocks and adds one vertex for each block.\<close>

lemma concact_blocks_eq:
  assumes "0 < w" and "\<And>it. it \<in> set cidx \<Longrightarrow> 0 \<le> it \<and> it div w < n"
  shows "concact_blocks cidx n w =
    Inr (map (\<lambda>i. filter (\<lambda>it. it div w = int i) cidx) [0..<nat n])"
proof -
  define step where "step it block = block[nat (it div w) := block ! nat (it div w) @ [it]]"
    for it :: int and block :: "int list list"
  let ?blk = "\<lambda>xs. map (\<lambda>i. filter (\<lambda>it. it div w = int i) xs) [0..<nat n]"
  have "foldR (\<lambda>it block. bindR (cdiv it w) (\<lambda>blkidx.
          if 0 \<le> blkidx \<and> nat blkidx < length block
          then Inr (block[nat blkidx := block ! nat blkidx @ [it]]) else Inl BadIndex))
        xs (?blk ys) = Inr (?blk (ys @ xs))"
    if "set xs \<subseteq> set cidx" for xs ys
    using that
  proof (induction xs arbitrary: ys)
    case Nil
    then show ?case by simp
  next
    case (Cons x xs)
    then have x: "0 \<le> x" "0 \<le> x div w" "x div w < n"
      using assms pos_imp_zdiv_nonneg_iff [OF assms(1), of x] by auto
    have "(?blk ys)[nat (x div w) := (?blk ys) ! nat (x div w) @ [x]] = ?blk (ys @ [x])"
      using x by (intro nth_equalityI) (auto simp: nth_list_update)
    then show ?case using Cons.IH [of "ys @ [x]"] Cons.prems x assms(1) by simp
  qed
  from this [of cidx "[]"] show ?thesis
    by (simp add: concact_blocks_def map_replicate_const)
qed

lemma concact_fold:
  fixes blk :: "nat \<Rightarrow> int list" and cfs :: "int list"
  assumes wf: "wf_ecdag g"
    and cidx: "distinct cidx" "\<And>i. set (blk i) \<subseteq> set cidx" "\<And>i. distinct (blk i)"
    and fresh: "\<forall>i<n. REQUESTOR - int i \<notin> set (node_ids g) \<union> set cidx"
    and B: "block = map blk [0..<n]" and k: "k \<le> n"
  defines "gk \<equiv> fold (concact_step cfs block) [0..<k] g"
  shows "wf_ecdag gk \<and>
    set (node_ids gk) = set (node_ids g) \<union> (\<Union>i<k. set (blk i)) \<union> {REQUESTOR - int i |i. i < k \<and> blk i \<noteq> []} \<and>
    ecConcacts gk = ecConcacts g @ map (\<lambda>i. REQUESTOR - int i) (filter (\<lambda>i. blk i \<noteq> []) [0..<k]) \<and>
    (\<forall>v. children_of gk v =
       (if \<exists>i<k. v = REQUESTOR - int i then blk (nat (REQUESTOR - v)) else children_of g v))"
  using k unfolding gk_def
proof (induction k)
  case 0
  then show ?case using wf by simp
next
  case (Suc k)
  let ?g = "fold (concact_step cfs block) [0..<k] g" and ?r = "REQUESTOR - int k"
  have IH: "wf_ecdag ?g"
    "set (node_ids ?g) = set (node_ids g) \<union> (\<Union>i<k. set (blk i)) \<union> {REQUESTOR - int i |i. i < k \<and> blk i \<noteq> []}"
    "ecConcacts ?g = ecConcacts g @ map (\<lambda>i. REQUESTOR - int i) (filter (\<lambda>i. blk i \<noteq> []) [0..<k])"
    "\<And>v. children_of ?g v = (if \<exists>i<k. v = REQUESTOR - int i then blk (nat (REQUESTOR - v)) else children_of g v)"
    using Suc by auto
  have bk: "block ! k = blk k" using B Suc.prems by simp
  have abs: "children_of g ?r = []" using fresh [rule_format, of k] Suc.prems by (intro children_of_absent) auto
  show ?case
  proof (cases "blk k = []")
    case True
    then have "concact_step cfs block k ?g = ?g" using bk by (simp add: concact_step_def)
    then show ?thesis
      using IH True abs by (auto simp: lessThan_Suc less_Suc_eq)
  next
    case False
    have pre: "?r \<notin> set (node_ids ?g)" "?r \<notin> set (blk k)"
      unfolding IH(2) using fresh [rule_format, of k] Suc.prems cidx(2) by auto
    note J = wf_Join [OF IH(1) pre cidx(3) False, of cfs]
    have step: "concact_step cfs block k ?g = (Join ?r (blk k) cfs ?g)
        \<lparr>ecConcacts := ecConcacts (Join ?r (blk k) cfs ?g) @ [?r]\<rparr>"
      using False bk by (simp add: concact_step_def Let_def)
    have wf': "wf_ecdag (h\<lparr>ecConcacts := cs\<rparr>) = wf_ecdag h" for h cs
      by (simp add: wf_ecdag_upto wf_upto_def)
    have "{REQUESTOR - int i |i. i < Suc k \<and> blk i \<noteq> []} =
        insert ?r {REQUESTOR - int i |i. i < k \<and> blk i \<noteq> []}"
      using False by (auto simp: less_Suc_eq)
    then show ?thesis
      using J IH False
      by (auto simp: step wf' lessThan_Suc less_Suc_eq)
  qed
qed

text \<open>Joining existing vertices adds no leaf.\<close>

lemma join_childs_known:
  assumes "set cs \<subseteq> set (node_ids g)"
  shows "ecLeaves (fold join_child cs g) = ecLeaves g \<and> node_ids (fold join_child cs g) = node_ids g"
  using assms
proof (induction cs arbitrary: g)
  case (Cons c cs)
  then obtain n where "getNode g c = Some n" using getNode_iff by auto
  then have "ecLeaves (join_child c g) = ecLeaves g \<and> node_ids (join_child c g) = node_ids g"
    by (simp add: join_child_def)
  with Cons show ?case by simp
qed simp

lemma link_back_frame:
  "ecLeaves (fold (\<lambda>c. updNode c (addParentNode p)) cs g) = ecLeaves g \<and>
   node_ids (fold (\<lambda>c. updNode c (addParentNode p)) cs g) = node_ids g"
  by (induction cs arbitrary: g) simp_all

lemma Join_known:
  assumes "set cs \<subseteq> set (node_ids g)"
  shows "ecLeaves (Join p cs cfs g) = ecLeaves g \<and> set (node_ids g) \<subseteq> set (node_ids (Join p cs cfs g))"
  using join_childs_known [OF assms]
  by (auto simp: Join_def join_parent_def Let_def link_back_frame um_keys_insert)

lemma Concact_leaves:
  assumes "Concact cidx n w g = Inr g'" and "set cidx \<subseteq> set (node_ids g)"
    and "0 < w" and "\<forall>it\<in>set cidx. 0 \<le> it \<and> it div w < n"
  shows "ecLeaves g' = ecLeaves g"
proof -
  let ?blk = "\<lambda>i::nat. filter (\<lambda>it. it div w = int i) cidx"
  have "ecLeaves (fold (concact_step cfs (map ?blk [0..<m])) [0..<k] g) = ecLeaves g \<and>
      set (node_ids g) \<subseteq> set (node_ids (fold (concact_step cfs (map ?blk [0..<m])) [0..<k] g))" if "k \<le> m" for k m cfs
    using that
  proof (induction k)
    case (Suc k)
    let ?h = "fold (concact_step cfs (map ?blk [0..<m])) [0..<k] g"
    have "set (?blk k) \<subseteq> set (node_ids ?h)" using Suc assms(2) by auto
    from Join_known [OF this, of "REQUESTOR - int k" cfs]
    have "ecLeaves (concact_step cfs (map ?blk [0..<m]) k ?h) = ecLeaves ?h \<and>
        set (node_ids ?h) \<subseteq> set (node_ids (concact_step cfs (map ?blk [0..<m]) k ?h))"
      using Suc.prems by (simp add: concact_step_def Let_def)
    with Suc show ?case by (simp add: subset_iff)
  qed simp
  from this [of "nat n" "nat n" "map (\<lambda>_. -1) cidx"] assms(1) show ?thesis
    using concact_blocks_eq [of w cidx n] assms(3,4) by (auto simp: Concact_def)
qed

lemma Concact_blocks:
  assumes "wf_ecdag g" and "distinct cidx" and "0 < w"
    and "\<forall>it\<in>set cidx. 0 \<le> it \<and> it div w < n"
    and "\<forall>i<nat n. REQUESTOR - int i \<notin> set (node_ids g) \<union> set cidx"
  shows "\<exists>g'. Concact cidx n w g = Inr g' \<and> wf_ecdag g' \<and>
    ecConcacts g' = ecConcacts g @ map (\<lambda>i. REQUESTOR - int i)
      (filter (\<lambda>i. \<exists>it\<in>set cidx. it div w = int i) [0..<nat n]) \<and>
    (\<forall>i<nat n. children_of g' (REQUESTOR - int i) = filter (\<lambda>it. it div w = int i) cidx)"
proof -
  let ?blk = "\<lambda>i::nat. filter (\<lambda>it. it div w = int i) cidx"
  have ne: "?blk i \<noteq> [] \<longleftrightarrow> (\<exists>it\<in>set cidx. it div w = int i)" for i
    by (auto simp: filter_empty_conv)
  have "concact_blocks cidx n w = Inr (map ?blk [0..<nat n])"
    using assms(3,4) by (intro concact_blocks_eq) auto
  then have C: "Concact cidx n w g =
      Inr (fold (concact_step (map (\<lambda>_. -1) cidx) (map ?blk [0..<nat n])) [0..<nat n] g)"
    by (simp add: Concact_def)
  have blk: "\<And>i. set (?blk i) \<subseteq> set cidx" "\<And>i. distinct (?blk i)" using assms(2) by auto
  note F = concact_fold [where blk = ?blk and n = "nat n" and k = "nat n" and cfs = "map (\<lambda>_. -1) cidx",
      OF assms(1,2) blk assms(5) refl order_refl]
  show ?thesis unfolding C by (rule exI, rule conjI [OF refl]) (use F [unfolded ne] in auto)
qed

section \<open>The coefficients\<close>

definition coefs_of :: "ecdag \<Rightarrow> int \<Rightarrow> int list" where
  "coefs_of g i = (case getNode g i of None \<Rightarrow> [] | Some n \<Rightarrow> coefs n)"

lemma coefs_join_child: "coefs_of (join_child c g) i = coefs_of g i"
proof (cases "getNode g c")
  case None
  then have "getNode (join_child c g) i = (if i = c then Some (setType ''leaf'' (new_ecnode c)) else getNode g i)"
    using getNode_addNode [of "setType ''leaf'' (new_ecnode c)" "g\<lparr>ecLeaves := ecLeaves g @ [c]\<rparr>" i] getNode_None [of g c]
    by (simp add: join_child_def addNode_def um_insert_def um_has_def getNode_def)
  then show ?thesis using None by (auto simp: coefs_of_def new_ecnode_def)
next
  case (Some n)
  then show ?thesis
    by (auto simp: join_child_def coefs_of_def getNode_updNode getNode_def [of "g\<lparr>ecHeaders := _\<rparr>"]
        simp flip: getNode_def split: option.splits)
qed

lemma coefs_link_back: "coefs_of (fold (\<lambda>c. updNode c (addParentNode p)) cs g) i = coefs_of g i"
proof (induction cs arbitrary: g)
  case (Cons c cs)
  have "coefs_of (updNode c (addParentNode p) g) i = coefs_of g i"
    by (auto simp: coefs_of_def getNode_updNode split: option.splits)
  with Cons show ?case by simp
qed simp

lemma coefs_Join:
  assumes "wf_ecdag g" and "pidx \<notin> set (node_ids g)" and "pidx \<notin> set cidx"
  shows "coefs_of (Join pidx cidx cfs g) i = (if i = pidx then cfs else coefs_of g i)"
proof -
  let ?g = "fold join_child cidx g"
  have "coefs_of ?g i = coefs_of g i" by (induction cidx arbitrary: g) (simp_all add: coefs_join_child)
  moreover have fresh: "pidx \<notin> set (node_ids ?g)"
    using wf_upto_join_childs [of "{}" g cidx] assms by (simp add: wf_ecdag_upto)
  define r where "r = setCoefs cfs (setChilds cidx (setType ''root'' (new_ecnode pidx)))"
  have r: "nodeId r = pidx" "coefs r = cfs" by (simp_all add: r_def setCoefs_def setChilds_def)
  have "Join pidx cidx cfs g = fold (\<lambda>c. updNode c (addParentNode pidx)) cidx
      (addNode r (?g\<lparr>ecHeaders := ecHeaders ?g @ [pidx]\<rparr>))"
    using fresh r(1) by (simp add: Join_def join_parent_def um_has_def um_insert_def Let_def addNode_headers
        r_def [symmetric]) (simp add: addNode_def)
  moreover have "coefs_of (addNode r (?g\<lparr>ecHeaders := ecHeaders ?g @ [pidx]\<rparr>)) i = (if i = pidx then cfs else coefs_of ?g i)"
    using getNode_addNode [of r "?g\<lparr>ecHeaders := ecHeaders ?g @ [pidx]\<rparr>" i] fresh r
    by (auto simp: coefs_of_def getNode_def)
  ultimately show ?thesis by (simp add: coefs_link_back)
qed

section \<open>Properties\<close>

text \<open>C22: \<open>ECDAG::Join\<close> on a fresh parent keeps the DAG well formed (types, links in both
  directions, leaves, headers, topological creation order) and adds exactly the equation asked
  for: the parent gets the children and the coefficients listed, in their order, and every other
  vertex keeps its own children and coefficients.\<close>

theorem Join_wf:
  assumes "wf_ecdag g" and "pidx \<notin> set (node_ids g)" and "pidx \<notin> set cidx"
    and "distinct cidx" and "cidx \<noteq> []"
  shows "wf_ecdag (Join pidx cidx cfs g) \<and>
    set (node_ids (Join pidx cidx cfs g)) = insert pidx (set (node_ids g) \<union> set cidx) \<and>
    (\<forall>i. children_of (Join pidx cidx cfs g) i = (if i = pidx then cidx else children_of g i)) \<and>
    (\<forall>i. coefs_of (Join pidx cidx cfs g) i = (if i = pidx then cfs else coefs_of g i))"
  using wf_Join [OF assms] coefs_Join [OF assms(1-3)] by blast

lemma Join_wf_witness:
  "wf_ecdag (Join 4 [0, 1] [1, 2] new_ecdag) \<and> coefs_of (Join 4 [0, 1] [1, 2] new_ecdag) 4 = [1, 2]"
  using Join_wf [of new_ecdag 4 "[0, 1]" "[1, 2]"] by (simp add: new_ecdag_def wf_ecdag_def)

text \<open>C23: \<open>ECDAG::Concact(cidx, n, w)\<close> never faults on sub-packet indices of the \<open>n\<close> blocks, keeps
  the DAG well formed, adds the vertex \<open>REQUESTOR - i\<close> for each block \<open>i\<close> with a sub-packet in
  \<open>cidx\<close>, gives it exactly those sub-packets as children and registers it as a concatenation.\<close>

theorem Concact_groups_blocks:
  assumes "wf_ecdag g" and "distinct cidx" and "0 < w"
    and "\<forall>it\<in>set cidx. 0 \<le> it \<and> it div w < n"
    and "\<forall>i<nat n. REQUESTOR - int i \<notin> set (node_ids g) \<union> set cidx"
  shows "\<exists>g'. Concact cidx n w g = Inr g' \<and> wf_ecdag g' \<and>
    ecConcacts g' = ecConcacts g @ map (\<lambda>i. REQUESTOR - int i)
      (filter (\<lambda>i. \<exists>it\<in>set cidx. it div w = int i) [0..<nat n]) \<and>
    (\<forall>i<nat n. children_of g' (REQUESTOR - int i) = filter (\<lambda>it. it div w = int i) cidx)"
  using assms by (rule Concact_blocks)

lemma Concact_groups_blocks_witness:
  "\<exists>g'. Concact [0, 1, 4] 3 2 new_ecdag = Inr g' \<and> wf_ecdag g' \<and> ecConcacts g' = [32767, 32765]"
proof -
  have three: "[0..<nat 3] = [0, 1, 2]" by (simp add: upt_rec)
  have "\<forall>i<nat 3. REQUESTOR - int i \<notin> set (node_ids new_ecdag) \<union> set [0, 1, 4]"
    by (auto simp: new_ecdag_def REQUESTOR_def)
  from Concact_groups_blocks [OF wf_new_ecdag _ _ _ this, of 2]
  show ?thesis unfolding three by (auto simp: new_ecdag_def REQUESTOR_def)
qed

end
