(* ===== verification/Topo.thy ===== *)
theory Topo
  imports Ecdag_Inv
begin

text \<open>
  The two topological sorts of src/src/ec/ECDAG.cc, \<open>genLeveledTopologicalSorting\<close> (used to cut the
  repair into levels) and \<open>genTopoIdxs\<close> (used by the colouring heuristics).
\<close>

section \<open>Topological orders\<close>

text \<open>
  Both sorts start from two tables: \<open>inref\<close>, the number of children of each vertex, and
  \<open>outref\<close>, how often a vertex occurs as a child.
\<close>

definition count_outref :: "ecdag \<Rightarrow> int umap" where
  "count_outref g = fold (\<lambda>(i, n) m. fold (\<lambda>c. um_bump c 1) (childNodes n) m) (ecNodeMap g) []"

definition count_inref :: "ecdag \<Rightarrow> int umap" where
  "count_inref g = fold (\<lambda>(i, n). um_insert i (int (length (childNodes n)))) (ecNodeMap g) []"

definition zero_refs :: "int umap \<Rightarrow> int list" where
  "zero_refs inref = map fst (filter (\<lambda>(i, c). c = 0) inref)"

definition dec_parents :: "ecdag \<Rightarrow> int umap \<Rightarrow> int \<Rightarrow> int umap \<Rightarrow> int umap" where
  "dec_parents g outref idx inref =
     (if um_get 0 outref idx \<noteq> 0 then fold (\<lambda>p. um_bump p (-1)) (parents_of g idx) inref else inref)"

definition level_remove :: "ecdag \<Rightarrow> int umap \<Rightarrow> int \<Rightarrow> int umap \<Rightarrow> int umap" where
  "level_remove g outref idx inref = um_erase idx (dec_parents g outref idx inref)"

text \<open>The \<open>while (true)\<close> loop: it does not end when some vertices are left and none has \<open>inref\<close> 0.\<close>

partial_function (option) level_loop ::
    "ecdag \<Rightarrow> int umap \<Rightarrow> int umap \<Rightarrow> int list list \<Rightarrow> int list list option" where
  "level_loop g outref inref toret =
     (if inref = [] then Some toret
      else level_loop g outref (fold (level_remove g outref) (zero_refs inref) inref)
             (toret @ [zero_refs inref]))"

definition genLeveledTopologicalSorting :: "ecdag \<Rightarrow> int list list option" where
  "genLeveledTopologicalSorting g = level_loop g (count_outref g) (count_inref g) []"

text \<open>\<open>genTopoIdxs\<close>: a work queue; concatenation vertices and leaves are left out of the result.\<close>

definition topo_push :: "int \<Rightarrow> int umap \<times> int list \<Rightarrow> int umap \<times> int list" where
  "topo_push p = (\<lambda>(inref, queue).
     let inref' = um_bump p (-1) inref
     in (inref', if um_get 0 inref' p = 0 then queue @ [p] else queue))"

partial_function (option) topo_loop ::
    "ecdag \<Rightarrow> int umap \<Rightarrow> int umap \<Rightarrow> int list \<Rightarrow> int list \<Rightarrow> int list option" where
  "topo_loop g outref inref queue topoIdxs =
     (case queue of [] \<Rightarrow> Some topoIdxs
      | idx # rest \<Rightarrow>
          (let topoIdxs' = (if idx \<notin> set (ecConcacts g) \<and> idx \<notin> set (ecLeaves g)
                            then topoIdxs @ [idx] else topoIdxs)
           in if um_get 0 outref idx = 0 then topo_loop g outref inref rest topoIdxs'
              else (let st = fold topo_push (parents_of g idx) (inref, rest)
                    in topo_loop g outref (fst st) (snd st) topoIdxs')))"

definition genTopoIdxs :: "ecdag \<Rightarrow> int list option" where
  "genTopoIdxs g = topo_loop g (count_outref g) (count_inref g) (zero_refs (count_inref g)) []"

section \<open>The tables\<close>

definition pending :: "ecdag \<Rightarrow> int set \<Rightarrow> int \<Rightarrow> int" where
  \<comment> \<open>children of \<open>i\<close> that are not done\<close>
  "pending g D i = int (length (filter (\<lambda>c. c \<notin> D) (children_of g i)))"

definition inref_of :: "ecdag \<Rightarrow> int set \<Rightarrow> int umap" where
  "inref_of g D = map (\<lambda>i. (i, pending g D i)) (filter (\<lambda>i. i \<notin> D) (node_ids g))"

definition ready :: "ecdag \<Rightarrow> int set \<Rightarrow> int list" where
  "ready g D = filter (\<lambda>i. i \<notin> D \<and> set (children_of g i) \<subseteq> D) (node_ids g)"

definition closed_under :: "ecdag \<Rightarrow> int set \<Rightarrow> bool" where
  "closed_under g D \<longleftrightarrow> (\<forall>i\<in>D. set (children_of g i) \<subseteq> D)"

lemma pending_0: "pending g D i = 0 \<longleftrightarrow> set (children_of g i) \<subseteq> D"
  by (auto simp: pending_def filter_empty_conv)

lemma pending_insert:
  assumes "dag_ok g" and "x \<notin> D"
  shows "pending g (insert x D) i = pending g D i - (if i \<in> set (parents_of g x) then 1 else 0)"
proof -
  have d: "distinct (children_of g i)" and m: "i \<in> set (parents_of g x) \<longleftrightarrow> x \<in> set (children_of g i)"
    using assms(1) by (auto simp: dag_ok_def)
  have "length (filter (\<lambda>c. c \<notin> D) xs) =
      length (filter (\<lambda>c. c \<notin> insert x D) xs) + (if x \<in> set xs then 1 else 0)"
    if "distinct xs" for xs
    using that assms(2) by (induction xs) auto
  from this [OF d] show ?thesis unfolding pending_def m by auto
qed

lemma um_keys_inref_of [simp]: "um_keys (inref_of g D) = filter (\<lambda>i. i \<notin> D) (node_ids g)"
  by (simp add: inref_of_def um_keys_def o_def)

lemma zero_refs_inref_of: "zero_refs (inref_of g D) = ready g D"
  by (simp add: zero_refs_def inref_of_def ready_def filter_map o_def pending_0 conj_commute)

lemma fold_um_insert_fresh:
  "distinct (um_keys ms) \<Longrightarrow> set (um_keys ms) \<inter> set (um_keys acc) = {} \<Longrightarrow>
   fold (\<lambda>(i, n). um_insert i (h n)) ms acc = acc @ map (\<lambda>(i, n). (i, h n)) ms"
proof (induction ms arbitrary: acc)
  case Nil
  then show ?case by simp
next
  case (Cons p ms)
  then have "um_insert (fst p) (h (snd p)) acc = acc @ [(fst p, h (snd p))]"
    by (simp add: um_insert_def um_has_def)
  with Cons show ?case by (cases p) simp
qed

lemma count_inref_eq: "dag_ok g \<Longrightarrow> count_inref g = inref_of g {}"
  unfolding count_inref_def
  by (subst fold_um_insert_fresh [where acc = "[]", simplified])
    (auto simp: dag_ok_def inref_of_def um_keys_def pending_def children_of_def getNode_mem [unfolded um_keys_def])

lemma get_fold_bump:
  "um_get 0 (fold (\<lambda>c. um_bump c 1) cs m) i = um_get 0 m i + int (count_list cs i)"
  by (induction cs arbitrary: m) (auto simp: um_get_bump)

lemma get_count_outref:
  "um_get 0 (fold (\<lambda>(i, n) m. fold (\<lambda>c. um_bump c 1) (childNodes n) m) ms acc) i =
   um_get 0 acc i + (\<Sum>(j, n)\<leftarrow>ms. int (count_list (childNodes n) i))"
  by (induction ms arbitrary: acc) (auto simp: get_fold_bump split: prod.splits)

lemma sum_count_0:
  "0 \<le> (\<Sum>(j, n)\<leftarrow>ms. int (count_list (childNodes n) i)) \<and>
   ((\<Sum>(j, n)\<leftarrow>ms. int (count_list (childNodes n) i)) = 0 \<longleftrightarrow> (\<forall>(j, n)\<in>set ms. i \<notin> set (childNodes n)))"
proof (induction ms)
  case Nil
  then show ?case by simp
next
  case (Cons p ms)
  then show ?case
    by (cases p) (auto simp: add_nonneg_eq_0_iff count_list_0_iff)
qed

lemma no_child_iff:
  assumes "dag_ok g"
  shows "(\<forall>(j, n)\<in>set (ecNodeMap g). i \<notin> set (childNodes n)) \<longleftrightarrow> parents_of g i = []"
    (is "?L \<longleftrightarrow> ?R")
proof
  assume L: ?L
  have "i \<notin> set (children_of g j)" for j
  proof (cases "getNode g j")
    case (Some n)
    then have "(j, n) \<in> set (ecNodeMap g)" using assms by (simp add: dag_ok_def getNode_mem)
    with L Some show ?thesis by (auto simp: children_of_def)
  qed (simp add: children_of_def)
  then have "j \<notin> set (parents_of g i)" for j by (simp add: dag_mirror [OF assms])
  then show ?R by (cases "parents_of g i") auto
next
  assume R: ?R
  have "i \<notin> set (childNodes n)" if "(j, n) \<in> set (ecNodeMap g)" for j n
  proof -
    have "getNode g j = Some n" using that assms by (simp add: dag_ok_def getNode_mem)
    then have "childNodes n = children_of g j" by (simp add: children_of_def)
    then show ?thesis using dag_mirror [OF assms, of j i] R by simp
  qed
  then show ?L by auto
qed

lemma outref_0:
  assumes "dag_ok g" shows "um_get 0 (count_outref g) i = 0 \<longleftrightarrow> parents_of g i = []"
proof -
  have "um_get 0 (count_outref g) i = (\<Sum>(j, n)\<leftarrow>ecNodeMap g. int (count_list (childNodes n) i))"
    unfolding count_outref_def get_count_outref by (simp add: um_get_def)
  then show ?thesis
    using sum_count_0 [where ms = "ecNodeMap g" and i = i] no_child_iff [OF assms, of i] by simp
qed

lemma fold_bump_present:
  "um_wf m \<Longrightarrow> distinct ps \<Longrightarrow> set ps \<subseteq> set (um_keys m) \<Longrightarrow>
   fold (\<lambda>p. um_bump p (-1)) ps m = map (\<lambda>(i, c). (i, c - (if i \<in> set ps then 1 else 0))) m"
proof (induction ps arbitrary: m)
  case Nil
  then show ?case by simp
next
  case (Cons p ps)
  let ?m = "um_bump p (-1) m"
  have k: "um_keys ?m = um_keys m" using Cons.prems by (simp add: um_keys_bump)
  have "fold (\<lambda>p. um_bump p (-1)) (p # ps) m = map (\<lambda>(i, c). (i, c - (if i \<in> set ps then 1 else 0))) ?m"
    using Cons.IH [of ?m] Cons.prems k by simp
  also have "\<dots> = map (\<lambda>(i, c). (i, c - (if i \<in> set (p # ps) then 1 else 0))) m"
    using Cons.prems by (auto simp: um_bump_present)
  finally show ?case .
qed

section \<open>The levelled sort\<close>

lemma parents_outside:
  assumes "dag_ok g" and "closed_under g D" and "x \<notin> D"
  shows "set (parents_of g x) \<subseteq> set (node_ids g) - D"
  using assms unfolding dag_ok_def closed_under_def by blast

lemma level_remove_inref:
  assumes "dag_ok g" and "closed_under g D" and "x \<notin> D"
  shows "level_remove g (count_outref g) x (inref_of g D) = inref_of g (insert x D)"
proof -
  have "dec_parents g (count_outref g) x (inref_of g D) = fold (\<lambda>p. um_bump p (-1)) (parents_of g x) (inref_of g D)"
    using outref_0 [OF assms(1), of x] by (simp add: dec_parents_def)
  also have "\<dots> = map (\<lambda>(i, c). (i, c - (if i \<in> set (parents_of g x) then 1 else 0))) (inref_of g D)"
    using parents_outside [OF assms] assms(1) by (intro fold_bump_present) (auto simp: dag_ok_def)
  also have "\<dots> = map (\<lambda>i. (i, pending g (insert x D) i)) (filter (\<lambda>i. i \<notin> D) (node_ids g))"
    by (simp add: inref_of_def o_def pending_insert [OF assms(1,3)])
  finally show ?thesis
    by (simp add: level_remove_def um_erase_def inref_of_def filter_map o_def conj_commute)
qed

lemma level_remove_ready:
  "dag_ok g \<Longrightarrow> closed_under g D \<Longrightarrow> distinct xs \<Longrightarrow> set xs \<inter> D = {} \<Longrightarrow>
   (\<And>x. x \<in> set xs \<Longrightarrow> set (children_of g x) \<subseteq> D) \<Longrightarrow>
   fold (level_remove g (count_outref g)) xs (inref_of g D) = inref_of g (set xs \<union> D)"
proof (induction xs arbitrary: D)
  case Nil
  then show ?case by simp
next
  case (Cons x xs)
  have c: "closed_under g (insert x D)"
    using Cons.prems(2,5) by (auto simp: closed_under_def)
  have "fold (level_remove g (count_outref g)) xs (inref_of g (insert x D)) = inref_of g (set xs \<union> insert x D)"
    using Cons.prems c by (intro Cons.IH) auto
  then show ?case
    using level_remove_inref [OF Cons.prems(1,2), of x] Cons.prems(4) by simp
qed

text \<open>Some vertex is ready as long as one is left: the first one of the node list.\<close>

lemma topo_from_first:
  "topo_from seen ms \<Longrightarrow> seen \<subseteq> D \<Longrightarrow> (i, n) \<in> set ms \<Longrightarrow> i \<notin> D \<Longrightarrow>
   \<exists>j m. (j, m) \<in> set ms \<and> j \<notin> D \<and> set (childNodes m) \<subseteq> D"
proof (induction ms arbitrary: seen)
  case Nil
  then show ?case by simp
next
  case (Cons p ms)
  obtain j m where p: "p = (j, m)" by (cases p)
  show ?case
  proof (cases "j \<in> D")
    case True
    then have "(i, n) \<in> set ms" using Cons.prems p by auto
    with Cons.IH [of "insert j seen"] Cons.prems p True show ?thesis by auto
  next
    case False
    with Cons.prems p show ?thesis by auto
  qed
qed

lemma ready_nonempty:
  assumes "dag_ok g" and "i \<in> set (node_ids g)" and "i \<notin> D"
  shows "ready g D \<noteq> []"
proof -
  obtain n where "(i, n) \<in> set (ecNodeMap g)" using assms(2) by (auto simp: set_um_keys)
  then obtain j m where "(j, m) \<in> set (ecNodeMap g)" "j \<notin> D" "set (childNodes m) \<subseteq> D"
    using topo_from_first [of "{}" "ecNodeMap g" D i n] assms by (auto simp: dag_ok_def)
  moreover from this(1) have "getNode g j = Some m"
    using assms(1) by (simp add: dag_ok_def getNode_mem)
  ultimately have "j \<in> set (ready g D)"
    by (auto simp: ready_def children_of_def getNode_iff)
  then show ?thesis by auto
qed

text \<open>The level lists the loop must produce: each level is all that is ready, until nothing is left.\<close>

fun levels_from :: "ecdag \<Rightarrow> int set \<Rightarrow> int list list \<Rightarrow> bool" where
  "levels_from g D [] \<longleftrightarrow> set (node_ids g) \<subseteq> D"
| "levels_from g D (L # Ls) \<longleftrightarrow> L \<noteq> [] \<and> L = ready g D \<and> levels_from g (set L \<union> D) Ls"

lemma closed_under_ready: "closed_under g D \<Longrightarrow> closed_under g (set (ready g D) \<union> D)"
  by (auto simp: closed_under_def ready_def)

lemma level_loop_levels:
  assumes "dag_ok g" and "closed_under g D"
  shows "\<exists>Ls. level_loop g (count_outref g) (inref_of g D) acc = Some (acc @ Ls) \<and> levels_from g D Ls"
  using assms(2)
proof (induction "card (set (node_ids g) - D)" arbitrary: D acc rule: less_induct)
  case less
  show ?case
  proof (cases "set (node_ids g) \<subseteq> D")
    case True
    then have "inref_of g D = []" by (auto simp: inref_of_def filter_empty_conv)
    then show ?thesis
      using True level_loop.simps [of g "count_outref g" "[]" acc] by auto
  next
    case False
    then obtain i where i: "i \<in> set (node_ids g)" "i \<notin> D" by blast
    let ?L = "ready g D"
    have ready_props: "distinct ?L" "set ?L \<inter> D = {}" "\<And>x. x \<in> set ?L \<Longrightarrow> set (children_of g x) \<subseteq> D"
      using assms(1) by (auto simp: ready_def dag_ok_def)
    have ne: "?L \<noteq> []" by (rule ready_nonempty [OF assms(1) i])
    have "inref_of g D \<noteq> []" using i by (auto simp: inref_of_def filter_empty_conv)
    then have step: "level_loop g (count_outref g) (inref_of g D) acc =
        level_loop g (count_outref g) (inref_of g (set ?L \<union> D)) (acc @ [?L])"
      using level_loop.simps [of g "count_outref g" "inref_of g D" acc]
        level_remove_ready [OF assms(1) less.prems ready_props]
      by (simp add: zero_refs_inref_of)
    have "set ?L \<subseteq> set (node_ids g) - D" by (auto simp: ready_def)
    then have "card (set (node_ids g) - (set ?L \<union> D)) < card (set (node_ids g) - D)"
      using ne by (intro psubset_card_mono) (auto simp: neq_Nil_conv)
    from less.hyps [OF this closed_under_ready [OF less.prems], of "acc @ [?L]"] obtain Ls where
      "level_loop g (count_outref g) (inref_of g D) acc = Some (acc @ ?L # Ls)"
      "levels_from g (set ?L \<union> D) Ls"
      unfolding step by auto
    then show ?thesis using ne by (intro exI [of _ "?L # Ls"]) simp
  qed
qed

lemma levels_from_props:
  assumes "levels_from g D Ls" and "distinct (node_ids g)"
  shows "distinct (concat Ls) \<and> set (concat Ls) = set (node_ids g) - D \<and> [] \<notin> set Ls"
  using assms(1)
proof (induction Ls arbitrary: D)
  case Nil
  then show ?case by auto
next
  case (Cons L Ls)
  then have IH: "distinct (concat Ls)" "set (concat Ls) = set (node_ids g) - (set L \<union> D)" "[] \<notin> set Ls"
    by auto
  have "distinct L" "set L \<subseteq> set (node_ids g) - D"
    using Cons.prems assms(2) by (auto simp: ready_def)
  with IH Cons.prems show ?case by auto
qed

lemma levels_from_nth:
  assumes "levels_from g D Ls" and "k < length Ls"
  shows "Ls ! k = ready g (D \<union> (\<Union>j<k. set (Ls ! j)))"
  using assms
proof (induction Ls arbitrary: D k)
  case Nil
  then show ?case by simp
next
  case (Cons L Ls)
  show ?case
  proof (cases k)
    case 0
    then show ?thesis using Cons.prems by simp
  next
    case (Suc m)
    then have "Ls ! m = ready g ((set L \<union> D) \<union> (\<Union>j<m. set (Ls ! j)))"
      using Cons by auto
    moreover have "(set L \<union> D) \<union> (\<Union>j<m. set (Ls ! j)) = D \<union> (\<Union>j<Suc m. set ((L # Ls) ! j))"
      by (auto simp: less_Suc_eq_0_disj)
    ultimately show ?thesis using Suc by simp
  qed
qed

lemma genLeveled_returns:
  assumes "wf_ecdag g"
  shows "\<exists>Ls. genLeveledTopologicalSorting g = Some Ls \<and> levels_from g {} Ls"
  using level_loop_levels [OF wf_ecdag_ok [OF assms], of "{}" "[]"] count_inref_eq [OF wf_ecdag_ok [OF assms]]
  by (simp add: genLeveledTopologicalSorting_def closed_under_def)

lemma ready_done: "set (node_ids g) \<subseteq> D \<Longrightarrow> ready g D = []"
  unfolding ready_def filter_empty_conv by blast

lemma levels_from_ConsD: "levels_from g D (L # Ls) \<Longrightarrow> L = ready g D \<and> \<not> set (node_ids g) \<subseteq> D \<and> levels_from g (set L \<union> D) Ls"
  unfolding levels_from.simps using ready_done by blast

lemma levels_from_unique: "levels_from g D Ls \<Longrightarrow> levels_from g D Ms \<Longrightarrow> Ls = Ms"
proof (induction Ls arbitrary: D Ms)
  case Nil
  then have sub: "set (node_ids g) \<subseteq> D" by (simp only: levels_from.simps)
  show ?case
  proof (cases Ms)
    case (Cons M Ms')
    from levels_from_ConsD [OF Nil.prems(2) [unfolded Cons]] sub show ?thesis by blast
  qed blast
next
  case (Cons L Ls)
  note L = levels_from_ConsD [OF Cons.prems(1)]
  show ?case
  proof (cases Ms)
    case Nil
    have "set (node_ids g) \<subseteq> D" using Cons.prems(2) unfolding Nil by (simp only: levels_from.simps)
    with L show ?thesis by blast
  next
    case (Cons M Ms')
    note M = levels_from_ConsD [OF Cons.prems(2) [unfolded Cons]]
    have LM: "L = M" using L M by blast
    have "Ls = Ms'" using L M unfolding LM by (blast intro: Cons.IH)
    then show ?thesis using LM Cons by blast
  qed
qed

lemma genLeveled_eqI:
  assumes "wf_ecdag g" and "levels_from g {} Ls" shows "genLeveledTopologicalSorting g = Some Ls"
proof -
  obtain Ms where "genLeveledTopologicalSorting g = Some Ms" "levels_from g {} Ms"
    using genLeveled_returns [OF assms(1)] by blast
  with levels_from_unique [OF assms(2)] show ?thesis by blast
qed

section \<open>The work-queue sort\<close>

text \<open>Orders in which every vertex comes after its children.\<close>

fun order_from :: "ecdag \<Rightarrow> int set \<Rightarrow> int list \<Rightarrow> bool" where
  "order_from g P [] \<longleftrightarrow> set (node_ids g) \<subseteq> P"
| "order_from g P (i # is) \<longleftrightarrow>
     i \<in> set (node_ids g) \<and> i \<notin> P \<and> set (children_of g i) \<subseteq> P \<and> order_from g (insert i P) is"

definition kept :: "ecdag \<Rightarrow> int \<Rightarrow> bool" where
  "kept g i \<longleftrightarrow> i \<notin> set (ecConcacts g) \<and> i \<notin> set (ecLeaves g)"

definition pend_all :: "ecdag \<Rightarrow> int set \<Rightarrow> int umap" where
  "pend_all g P = map (\<lambda>i. (i, pending g P i)) (node_ids g)"

lemma um_keys_pend_all [simp]: "um_keys (pend_all g P) = node_ids g"
  by (simp add: pend_all_def um_keys_def o_def)

lemma fold_topo_push:
  assumes "um_wf m" and "distinct ps" and "set ps \<subseteq> set (um_keys m)"
  shows "fold topo_push ps (m, q) =
    (fold (\<lambda>p. um_bump p (-1)) ps m, q @ filter (\<lambda>p. um_get 0 m p = 1) ps)"
  using assms
proof (induction ps arbitrary: m q)
  case Nil
  then show ?case by simp
next
  case (Cons p ps)
  let ?m = "um_bump p (-1) m"
  have "filter (\<lambda>p. um_get 0 ?m p = 1) ps = filter (\<lambda>p. um_get 0 m p = 1) ps"
    using Cons.prems(2) by (intro filter_cong) (auto simp: um_get_bump)
  with Cons show ?case by (simp add: topo_push_def um_get_bump um_keys_bump)
qed

lemma pend_all_step:
  assumes "dag_ok g" and "x \<notin> P"
  shows "fold topo_push (parents_of g x) (pend_all g P, q) =
    (pend_all g (insert x P), q @ filter (\<lambda>p. pending g (insert x P) p = 0) (parents_of g x))"
proof -
  have wf: "um_wf (pend_all g P)" "distinct (parents_of g x)"
    "set (parents_of g x) \<subseteq> set (um_keys (pend_all g P))"
    using assms(1) by (auto simp: dag_ok_def)
  have m: "fold (\<lambda>p. um_bump p (-1)) (parents_of g x) (pend_all g P) = pend_all g (insert x P)"
    unfolding fold_bump_present [OF wf] by (simp add: pend_all_def o_def pending_insert [OF assms])
  have "um_get 0 (pend_all g P) p = pending g P p" if "p \<in> set (parents_of g x)" for p
    using wf(1,3) that by (intro um_get_map_of) (auto simp: pend_all_def um_keys_def)
  then have "filter (\<lambda>p. um_get 0 (pend_all g P) p = 1) (parents_of g x) =
      filter (\<lambda>p. pending g (insert x P) p = 0) (parents_of g x)"
    by (intro filter_cong) (auto simp: pending_insert [OF assms])
  then show ?thesis using fold_topo_push [OF wf, of q] m by simp
qed

text \<open>The queue holds exactly the vertices that are ready and not yet processed.\<close>

definition queue_inv :: "ecdag \<Rightarrow> int set \<Rightarrow> int list \<Rightarrow> bool" where
  "queue_inv g P q \<longleftrightarrow> P \<subseteq> set (node_ids g) \<and> closed_under g P \<and> distinct q \<and> set q = set (ready g P)"

lemma queue_inv_step:
  assumes ok: "dag_ok g" and inv: "queue_inv g P (x # q)"
  shows "x \<notin> P" "x \<in> set (node_ids g)" "set (children_of g x) \<subseteq> P"
    and "queue_inv g (insert x P) (q @ filter (\<lambda>p. pending g (insert x P) p = 0) (parents_of g x))"
proof -
  have "x \<in> set (ready g P)" using inv by (auto simp: queue_inv_def)
  then show x: "x \<notin> P" "x \<in> set (node_ids g)" "set (children_of g x) \<subseteq> P"
    by (auto simp: ready_def)
  have par: "p \<in> set (parents_of g x) \<longleftrightarrow> x \<in> set (children_of g p)" for p
    using ok by (auto simp: dag_ok_def)
  have q: "set q = set (ready g P) - {x}" "distinct q"
    using inv by (auto simp: queue_inv_def)
  have cl: "closed_under g (insert x P)" using inv x(3) by (auto simp: queue_inv_def closed_under_def)
  have irr: "x \<notin> set (children_of g x)" using x by blast
  have "set (ready g (insert x P)) = set q \<union> {p \<in> set (parents_of g x). set (children_of g p) \<subseteq> insert x P}"
    using ok inv x(1) unfolding q(1) par ready_def queue_inv_def closed_under_def dag_ok_def
    by (auto simp: irr)
  moreover have "set q \<inter> {p \<in> set (parents_of g x). set (children_of g p) \<subseteq> insert x P} = {}"
    using x(1) unfolding q(1) par ready_def by auto
  ultimately show "queue_inv g (insert x P) (q @ filter (\<lambda>p. pending g (insert x P) p = 0) (parents_of g x))"
    using ok inv q(2) cl x(2) unfolding queue_inv_def pending_0 dag_ok_def by auto
qed

lemma topo_loop_order:
  assumes ok: "dag_ok g" and inv: "queue_inv g P q"
  shows "\<exists>order. topo_loop g (count_outref g) (pend_all g P) q acc = Some (acc @ filter (kept g) order)
    \<and> order_from g P order"
  using inv
proof (induction "card (set (node_ids g) - P)" arbitrary: P q acc rule: less_induct)
  case less
  show ?case
  proof (cases q)
    case Nil
    then have "ready g P = []" using less.prems by (auto simp: queue_inv_def)
    then have "set (node_ids g) \<subseteq> P" using ready_nonempty [OF ok] by blast
    then show ?thesis
      using Nil topo_loop.simps [of g "count_outref g" "pend_all g P" "[]" acc]
      by (intro exI [of _ "[]"]) simp
  next
    case (Cons x rest)
    note step = queue_inv_step [OF ok less.prems [unfolded Cons]]
    let ?P = "insert x P" and ?acc = "acc @ filter (kept g) [x]"
    let ?q = "rest @ filter (\<lambda>p. pending g ?P p = 0) (parents_of g x)"
    have "card (set (node_ids g) - ?P) < card (set (node_ids g) - P)"
      using step(1,2) by (intro psubset_card_mono) auto
    from less.hyps [OF this step(4), of ?acc] obtain order where
      o: "topo_loop g (count_outref g) (pend_all g ?P) ?q ?acc = Some (?acc @ filter (kept g) order)"
      "order_from g ?P order" by blast
    have none: "pend_all g ?P = pend_all g P \<and> ?q = rest" if "parents_of g x = []"
      using that pending_insert [OF ok step(1)] by (simp add: pend_all_def)
    have "topo_loop g (count_outref g) (pend_all g P) q acc =
        topo_loop g (count_outref g) (pend_all g ?P) ?q ?acc"
      using topo_loop.simps [of g "count_outref g" "pend_all g P" q acc] none
        pend_all_step [OF ok step(1), of rest]
      by (auto simp: Cons outref_0 [OF ok] Let_def kept_def)
    with o step(1-3) show ?thesis
      by (intro exI [of _ "x # order"]) simp
  qed
qed

lemma order_from_props:
  "order_from g P xs \<Longrightarrow> distinct xs \<and> set xs = set (node_ids g) - P \<and>
   (\<forall>k<length xs. set (children_of g (xs ! k)) \<subseteq> P \<union> set (take k xs))"
proof (induction xs arbitrary: P)
  case Nil
  then show ?case by auto
next
  case (Cons x xs)
  then have IH: "distinct xs" "set xs = set (node_ids g) - insert x P"
    "\<And>k. k < length xs \<Longrightarrow> set (children_of g (xs ! k)) \<subseteq> insert x P \<union> set (take k xs)"
    by auto
  have "set (children_of g ((x # xs) ! k)) \<subseteq> P \<union> set (take k (x # xs))" if "k < length (x # xs)" for k
    using that Cons.prems IH(3) [of "k - 1"] by (cases k) auto
  with IH(1,2) Cons.prems show ?case by auto
qed

lemma genTopoIdxs_returns:
  assumes "wf_ecdag g"
  shows "\<exists>order. genTopoIdxs g = Some (filter (kept g) order) \<and> order_from g {} order"
proof -
  have ok: "dag_ok g" using assms by (rule wf_ecdag_ok)
  have "count_inref g = pend_all g {}"
    by (simp add: count_inref_eq [OF ok] inref_of_def pend_all_def)
  moreover have "queue_inv g {} (zero_refs (count_inref g))"
    using ok by (simp add: queue_inv_def count_inref_eq zero_refs_inref_of closed_under_def)
      (simp add: ready_def dag_ok_def)
  ultimately show ?thesis
    using topo_loop_order [OF ok, of "{}" "zero_refs (count_inref g)" "[]"]
    by (simp add: genTopoIdxs_def)
qed


section \<open>Properties\<close>

lemma levels_from_lower:
  assumes "levels_from g {} Ls" and "k < length Ls" and "i \<in> set (Ls ! k)"
  shows "set (children_of g i) \<subseteq> (\<Union>j<k. set (Ls ! j))"
    and "0 < k \<Longrightarrow> \<exists>c\<in>set (children_of g i). c \<in> set (Ls ! (k - 1))"
proof -
  note at = levels_from_nth [OF assms(1)]
  let ?D = "\<lambda>k. \<Union>j<k. set (Ls ! j)"
  have i: "i \<notin> ?D k" "i \<in> set (node_ids g)" "set (children_of g i) \<subseteq> ?D k"
    using assms(3) unfolding at [OF assms(2)] by (auto simp: ready_def)
  then show "set (children_of g i) \<subseteq> ?D k" by blast
  assume k: "0 < k"
  then have k1: "k - 1 < length Ls" "{..<k} = insert (k - 1) {..<k - 1}" using assms(2) by auto
  have "i \<notin> set (Ls ! (k - 1))" using i(1) k1(2) by blast
  then have "\<not> set (children_of g i) \<subseteq> ?D (k - 1)"
    using i(1,2) unfolding at [OF k1(1)] k1(2) by (auto simp: ready_def)
  then show "\<exists>c\<in>set (children_of g i). c \<in> set (Ls ! (k - 1))"
    using i(3) unfolding k1(2) by blast
qed

lemma filter_split:
  "filter P xs = us @ y # vs \<Longrightarrow> \<exists>us' vs'. xs = us' @ y # vs' \<and> us = filter P us'"
proof (induction xs arbitrary: us)
  case Nil
  then show ?case by simp
next
  case (Cons x xs)
  show ?case
  proof (cases "P x \<and> us = []")
    case True
    with Cons.prems show ?thesis by (intro exI [of _ "[]"] exI [of _ xs]) auto
  next
    case False
    then obtain us1 where "filter P xs = us1 @ y # vs" "us = (if P x then x # us1 else us1)"
      using Cons.prems by (cases us) (auto split: if_splits)
    with Cons.IH [of us1] obtain us' vs' where "xs = us' @ y # vs'" "us1 = filter P us'" by blast
    with \<open>us = _\<close> show ?thesis by (intro exI [of _ "x # us'"] exI [of _ vs']) auto
  qed
qed

text \<open>C24: on a well-formed DAG \<open>genLeveledTopologicalSorting\<close> returns; its levels are non-empty and
  hold every vertex exactly once, the children of a vertex lie in lower levels, and a vertex
  above level 0 has a child in the level just below it (so each vertex sits as low as it can).\<close>

theorem leveled_sort_correct:
  assumes "wf_ecdag g"
  shows "\<exists>Ls. genLeveledTopologicalSorting g = Some Ls \<and> [] \<notin> set Ls \<and>
    distinct (concat Ls) \<and> set (concat Ls) = set (node_ids g) \<and>
    (\<forall>k<length Ls. \<forall>i\<in>set (Ls ! k).
       set (children_of g i) \<subseteq> (\<Union>j<k. set (Ls ! j)) \<and>
       (0 < k \<longrightarrow> (\<exists>c\<in>set (children_of g i). c \<in> set (Ls ! (k - 1)))))"
proof -
  obtain Ls where Ls: "genLeveledTopologicalSorting g = Some Ls" "levels_from g {} Ls"
    using genLeveled_returns [OF assms] by blast
  have "distinct (node_ids g)" using assms by (simp add: wf_ecdag_def)
  from levels_from_props [OF Ls(2) this] Ls(1) levels_from_lower [OF Ls(2)]
  show ?thesis by auto
qed

definition sample_dag :: ecdag where
  "sample_dag = Join 9 [4, 2] [1, 1] (Join 4 [0, 1] [1, 1] new_ecdag)"

lemma wf_sample_dag: "wf_ecdag sample_dag"
proof -
  note J = wf_Join [OF wf_new_ecdag, of 4 "[0, 1]" "[1, 1]"]
  have J2: "wf_ecdag (Join 4 [0, 1] [1, 1] new_ecdag)"
    "set (node_ids (Join 4 [0, 1] [1, 1] new_ecdag)) = {4, 0, 1}"
    using J(1,2) by (simp_all add: new_ecdag_def)
  show ?thesis unfolding sample_dag_def by (rule wf_Join(1)) (use J2 in simp_all)
qed

lemma leveled_sort_correct_witness: "genLeveledTopologicalSorting sample_dag \<noteq> None"
  using leveled_sort_correct [OF wf_sample_dag] by auto

text \<open>On a well-formed DAG \<open>genTopoIdxs\<close> returns each vertex that is neither a leaf nor a
  concatenation exactly once, and such children of a vertex come before it.\<close>

theorem topo_idxs_correct:
  assumes "wf_ecdag g"
  shows "\<exists>is. genTopoIdxs g = Some is \<and> distinct is \<and>
    set is = set (node_ids g) - set (ecLeaves g) - set (ecConcacts g) \<and>
    (\<forall>us i vs. is = us @ i # vs \<longrightarrow>
       set (children_of g i) - set (ecLeaves g) - set (ecConcacts g) \<subseteq> set us)"
proof -
  obtain xs where xs: "genTopoIdxs g = Some (filter (kept g) xs)" "order_from g {} xs"
    using genTopoIdxs_returns [OF assms] by blast
  note props = order_from_props [OF xs(2)]
  have "set (children_of g i) - set (ecLeaves g) - set (ecConcacts g) \<subseteq> set us"
    if split: "filter (kept g) xs = us @ i # vs" for us i vs
  proof -
    from split obtain us' vs' where x: "xs = us' @ i # vs'" "us = filter (kept g) us'"
      by (blast dest: filter_split)
    then have "length us' < length xs" "xs ! length us' = i" "take (length us') xs = us'" by simp_all
    with props have "set (children_of g i) \<subseteq> set us'" by (metis Un_empty_left)
    then show ?thesis unfolding x(2) by (auto simp: kept_def)
  qed
  with xs(1) props show ?thesis by (intro exI [of _ "filter (kept g) xs"]) (auto simp: kept_def)
qed

lemma topo_idxs_correct_witness: "genTopoIdxs sample_dag \<noteq> None"
  using topo_idxs_correct [OF wf_sample_dag] by auto

end
