(* ===== verification/DistUtil.thy ===== *)
theory DistUtil
  imports Prelude
begin

text \<open>
  String helpers of src/src/util/DistUtil.cc, and the colourings that travel as digit strings:
  \<open>PRSolution::getString\<close> and \<open>Solution::getString\<close> (src/src/dist) write them, and
  \<open>TradeoffPoints::getColoringByIdx\<close> (src/src/common/TradeoffPoints.cc) reads them back.
\<close>

section \<open>Decimal strings\<close>

definition digit_char :: "nat \<Rightarrow> char" where
  "digit_char d = char_of (48 + d)"

fun nat_to_string :: "nat \<Rightarrow> string" where
  "nat_to_string n = (if n < 10 then [digit_char n] else nat_to_string (n div 10) @ [digit_char (n mod 10)])"

declare nat_to_string.simps [simp del]

definition to_string :: "int \<Rightarrow> string" where
  "to_string i = (if i < 0 then CHR ''-'' # nat_to_string (nat (- i)) else nat_to_string (nat i))"

function ndigits_loop :: "int \<Rightarrow> int \<Rightarrow> int" where
  "ndigits_loop m digits = (if 0 < m then ndigits_loop (m div 10) (digits + 1) else digits)"
  by pat_completeness auto
termination by (relation "measure (\<lambda>(m, _). nat m)") auto

declare ndigits_loop.simps [simp del]

definition ndigits :: "int \<Rightarrow> int" where
  "ndigits m = ndigits_loop m 0"

function num2str_loop :: "int \<Rightarrow> string \<Rightarrow> string" where
  "num2str_loop num toret =
     (if 0 < num then num2str_loop (num div 10) (to_string (num mod 10) @ toret) else toret)"
  by pat_completeness auto
termination by (relation "measure (\<lambda>(num, _). nat num)") auto

declare num2str_loop.simps [simp del]

text \<open>
  \<open>toret.length() < digits\<close> compares a \<open>size_t\<close> with an \<open>int\<close>: a negative \<open>digits\<close> would convert
  to a huge number; the callers pass the result of \<open>ndigits\<close>, which is not negative.
\<close>

definition num2str :: "int \<Rightarrow> nat \<Rightarrow> string" where
  "num2str num digits =
     (let toret = num2str_loop num []
      in replicate (digits - length toret) (CHR ''0'') @ toret)"

definition vec2str :: "int list \<Rightarrow> nat \<Rightarrow> string" where
  "vec2str v digits = concat (map (\<lambda>x. num2str x digits) v)"

text \<open>\<open>std::stoi\<close>: white space, an optional sign, digits; it throws when there is no digit or no room.\<close>

definition is_digit :: "char \<Rightarrow> bool" where
  "is_digit ch \<longleftrightarrow> 48 \<le> (of_char ch :: nat) \<and> (of_char ch :: nat) \<le> 57"

definition is_space :: "char \<Rightarrow> bool" where
  "is_space ch \<longleftrightarrow> (of_char ch :: nat) = 32 \<or> 9 \<le> (of_char ch :: nat) \<and> (of_char ch :: nat) \<le> 13"

definition digits_value :: "string \<Rightarrow> int" where
  "digits_value s = fold (\<lambda>ch acc. 10 * acc + (of_char ch - 48)) s 0"

definition stoi :: "string \<Rightarrow> int res" where
  "stoi s =
     (let t = dropWhile is_space s;
          neg = (t \<noteq> [] \<and> hd t = CHR ''-'');
          u = (if t \<noteq> [] \<and> (hd t = CHR ''-'' \<or> hd t = CHR ''+'') then tl t else t);
          ds = takeWhile is_digit u;
          v = (if neg then - digits_value ds else digits_value ds)
      in if ds = [] \<or> v < - (2 ^ 31) \<or> 2 ^ 31 \<le> v then Inl OutOfRange else Inr v)"

section \<open>Splitting\<close>

text \<open>The loop over \<open>find_first_of\<close>: cut at every character of the delimiter set.\<close>

function splitStr :: "string \<Rightarrow> string \<Rightarrow> string list" where
  "splitStr s delimiter =
     (case dropWhile (\<lambda>ch. ch \<notin> set delimiter) s of
        [] \<Rightarrow> [s]
      | _ # rest \<Rightarrow> takeWhile (\<lambda>ch. ch \<notin> set delimiter) s # splitStr rest delimiter)"
  by pat_completeness auto
termination
proof (relation "measure (\<lambda>(s, _). length s)")
  fix s delimiter :: string and x rest
  assume "dropWhile (\<lambda>ch. ch \<notin> set delimiter) s = x # rest"
  then have "length rest < length s"
    by (metis length_Cons length_dropWhile_le less_eq_Suc_le)
  then show "((rest, delimiter), (s, delimiter)) \<in> measure (\<lambda>(s, _). length s)" by simp
qed simp

declare splitStr.simps [simp del]

definition str2container :: "string \<Rightarrow> string list" where
  "str2container line = splitStr line '';''"

lemma splitStr_none:
  assumes "d \<notin> set s" shows "splitStr s [d] = [s]"
proof -
  have "dropWhile (\<lambda>ch. ch \<notin> set [d]) s = []" using assms by auto
  then show ?thesis by (subst splitStr.simps, subst \<open>dropWhile _ _ = []\<close>) simp
qed

fun join_with :: "char \<Rightarrow> string list \<Rightarrow> string" where
  "join_with d [] = []"
| "join_with d [s] = s"
| "join_with d (s # t # ts) = s @ d # join_with d (t # ts)"

lemma splitStr_join:
  assumes "ts \<noteq> []" and "\<And>t. t \<in> set ts \<Longrightarrow> d \<notin> set t"
  shows "splitStr (join_with d ts) [d] = ts"
  using assms
proof (induction d ts rule: join_with.induct)
  case (1 d)
  then show ?case by simp
next
  case (2 d s)
  then show ?case by (simp add: splitStr_none)
next
  case (3 d s t ts)
  have "\<forall>ch\<in>set s. ch \<noteq> d" using "3.prems"(2) by auto
  then have "dropWhile (\<lambda>ch. ch \<noteq> d) (s @ d # join_with d (t # ts)) = d # join_with d (t # ts)"
    "takeWhile (\<lambda>ch. ch \<noteq> d) (s @ d # join_with d (t # ts)) = s"
    by (simp_all add: dropWhile_append3 takeWhile_append2)
  then show ?case using 3 by (subst splitStr.simps) simp
qed

text \<open>A string is the join of its parts, for a one-character delimiter.\<close>

lemma join_splitStr: "join_with d (splitStr s [d]) = s"
proof (induction s "[d]" rule: splitStr.induct)
  case (1 s)
  show ?case
  proof (cases "dropWhile (\<lambda>ch. ch \<noteq> d) s")
    case Nil
    then show ?thesis by (subst splitStr_none) auto
  next
    case (Cons x rest)
    have x: "x = d" using hd_dropWhile [of "\<lambda>ch. ch \<noteq> d" s] Cons by auto
    have s: "s = takeWhile (\<lambda>ch. ch \<noteq> d) s @ d # rest"
      using takeWhile_dropWhile_id [of "\<lambda>ch. ch \<noteq> d" s] Cons x by simp
    obtain u us where u: "splitStr rest [d] = u # us"
      by (cases "splitStr rest [d]") (auto simp: splitStr.simps [of rest] split: list.splits)
    have "splitStr s [d] = takeWhile (\<lambda>ch. ch \<noteq> d) s # u # us"
      using Cons u by (subst splitStr.simps) simp
    moreover have "join_with d (u # us) = rest" using 1 [of x rest] Cons u by simp
    ultimately show ?thesis using s by simp
  qed
qed

section \<open>Colourings as digit strings\<close>

function color_loop :: "nat \<Rightarrow> string \<Rightarrow> int list res" where
  \<comment> \<open>the loop \<open>for (i = 0; i < tmps.length(); i += _digits)\<close>, on what is left from \<open>i\<close>\<close>
  "color_loop d s =
     (if s = [] then Inr []
      else bindR (stoi (take d s)) (\<lambda>v.
             if d = 0 then Inl NoReturn
             else bindR (color_loop d (drop d s)) (\<lambda>vs. Inr (v # vs))))"
  by pat_completeness auto
termination by (relation "measure (\<lambda>(d, s). length s)") auto

declare color_loop.simps [simp del]

definition getColoringByIdx :: "string umap \<Rightarrow> int \<Rightarrow> int \<Rightarrow> int list res" where
  \<comment> \<open>a negative \<open>_digits\<close> makes \<open>substr\<close> take the whole string, and the loop ends after it\<close>
  "getColoringByIdx points digits idx =
     (let tmps = um_get [] points idx in
      if digits < 0 \<and> tmps \<noteq> [] then bindR (stoi tmps) (\<lambda>v. Inr [v])
      else color_loop (nat digits) tmps)"

lemma digit_char_nat: "d < 10 \<Longrightarrow> of_char (digit_char d) = (48 + d :: nat)"
  by (simp add: digit_char_def)

lemma digit_char_int: "d < 10 \<Longrightarrow> of_char (digit_char d) = (48 + int d :: int)"
  using of_nat_of_char [of "digit_char d", where 'a = int] by (simp add: digit_char_nat)

lemma is_digit_digit_char [simp]: "d < 10 \<Longrightarrow> is_digit (digit_char d)"
  by (simp add: is_digit_def digit_char_nat)

lemma to_string_digit: "0 \<le> r \<Longrightarrow> r < 10 \<Longrightarrow> to_string r = [digit_char (nat r)]"
  by (simp add: to_string_def nat_to_string.simps)

lemma digits_value_append: "digits_value (s @ t) = fold (\<lambda>ch acc. 10 * acc + (of_char ch - 48)) t (digits_value s)"
  by (simp add: digits_value_def)

text \<open>The digits of a number: how many, which characters, which value.\<close>

lemma num2str_loop_acc: "num2str_loop num (s @ acc) = num2str_loop num s @ acc"
proof (induction num s rule: num2str_loop.induct)
  case (1 num s)
  show ?case
  proof (cases "0 < num")
    case True
    have "num2str_loop num (s @ acc) = num2str_loop (num div 10) ((to_string (num mod 10) @ s) @ acc)"
      using True by (subst num2str_loop.simps) simp
    also have "\<dots> = num2str_loop (num div 10) (to_string (num mod 10) @ s) @ acc"
      using 1 True by simp
    also have "\<dots> = num2str_loop num s @ acc"
      using True num2str_loop.simps [of num s] by simp
    finally show ?thesis .
  qed (simp add: num2str_loop.simps)
qed

lemma num2str_loop_step:
  assumes "0 < num"
  shows "num2str_loop num [] = num2str_loop (num div 10) [] @ [digit_char (nat (num mod 10))]"
proof -
  have "num2str_loop num [] = num2str_loop (num div 10) [digit_char (nat (num mod 10))]"
    using assms num2str_loop.simps [of num "[]"] by (simp add: to_string_digit)
  then show ?thesis
    using num2str_loop_acc [of "num div 10" "[]" "[digit_char (nat (num mod 10))]"] by simp
qed

lemma div10_aux: "0 \<le> r \<Longrightarrow> r < 10 \<Longrightarrow> (d * 10 + r :: int) < 10 * X \<longleftrightarrow> d < X"
  by auto

lemma div10_bounds: "(n::int) < 10 * X \<longleftrightarrow> n div 10 < X"
  using div10_aux [of "n mod 10" "n div 10" X] pos_mod_sign [OF zero_less_numeral, of n] pos_mod_bound [OF zero_less_numeral, of n]
  unfolding div_mult_mod_eq by blast

lemma num2str_loop_digits:
  "0 \<le> num \<Longrightarrow> num < 10 ^ d \<Longrightarrow>
   length (num2str_loop num []) \<le> d \<and> list_all is_digit (num2str_loop num []) \<and>
   digits_value (num2str_loop num []) = num"
proof (induction d arbitrary: num)
  case 0
  then show ?case by (simp add: num2str_loop.simps digits_value_def)
next
  case (Suc d)
  show ?case
  proof (cases "0 < num")
    case True
    have "num div 10 < 10 ^ d" using Suc.prems(2) by (simp flip: div10_bounds)
    then have IH: "length (num2str_loop (num div 10) []) \<le> d" "list_all is_digit (num2str_loop (num div 10) [])"
      "digits_value (num2str_loop (num div 10) []) = num div 10"
      using Suc.IH [of "num div 10"] True by auto
    define r where "r = nat (num mod 10)"
    have r: "r < 10" "int r = num mod 10" by (simp_all add: r_def nat_less_iff)
    have "digits_value (num2str_loop num []) = 10 * (num div 10) + num mod 10"
      unfolding num2str_loop_step [OF True] r_def [symmetric] digits_value_append
      using r IH(3) by (simp add: digit_char_int)
    moreover have "length (num2str_loop num []) \<le> Suc d" "list_all is_digit (num2str_loop num [])"
      unfolding num2str_loop_step [OF True] r_def [symmetric] using r(1) IH by simp_all
    ultimately show ?thesis by simp
  next
    case False
    then show ?thesis using Suc.prems by (simp add: num2str_loop.simps digits_value_def)
  qed
qed

lemma digits_value_zeros: "digits_value (replicate k (CHR ''0'') @ s) = digits_value s"
proof -
  have "fold (\<lambda>ch acc. 10 * acc + (of_char ch - 48)) (replicate k (CHR ''0'')) (0::int) = 0"
    by (induction k) simp_all
  then show ?thesis by (simp add: digits_value_def)
qed

lemma num2str_width:
  assumes "0 \<le> num" and "num < 10 ^ d"
  shows "length (num2str num d) = d" "list_all is_digit (num2str num d)" "digits_value (num2str num d) = num"
  using num2str_loop_digits [OF assms]
  by (auto simp: num2str_def Let_def digits_value_zeros list_all_iff is_digit_def)

text \<open>\<open>stoi\<close> of a padded number is the number.\<close>

lemma is_digit_plain: "is_digit ch \<Longrightarrow> \<not> is_space ch \<and> ch \<noteq> CHR ''-'' \<and> ch \<noteq> CHR ''+''"
  by (auto simp: is_digit_def is_space_def)

lemma stoi_digits:
  assumes "list_all is_digit s" and "s \<noteq> []" and "0 \<le> digits_value s" and "digits_value s < 2 ^ 31"
  shows "stoi s = Inr (digits_value s)"
proof -
  have h: "is_digit (hd s)" using assms(1,2) by (cases s) auto
  have dw: "dropWhile is_space s = s" using assms(2) is_digit_plain [OF h] by (cases s) auto
  have tw: "takeWhile is_digit s = s" using assms(1) by (simp add: list_all_iff)
  show ?thesis
    using is_digit_plain [OF h] assms(2-4) by (simp add: stoi_def Let_def dw tw)
qed

lemma color_loop_vec2str:
  assumes "0 < d" and "\<And>v. v \<in> set vs \<Longrightarrow> 0 \<le> v \<and> v < 10 ^ d \<and> v < 2 ^ 31"
  shows "color_loop d (vec2str vs d) = Inr vs"
  using assms(2)
proof (induction vs)
  case Nil
  then show ?case by (simp add: vec2str_def color_loop.simps)
next
  case (Cons v vs)
  then have v: "0 \<le> v" "v < 10 ^ d" "v < 2 ^ 31" by auto
  note w = num2str_width [OF v(1,2)]
  have ne: "num2str v d \<noteq> []" using w(1) assms(1) by auto
  have "vec2str (v # vs) d = num2str v d @ vec2str vs d" by (simp add: vec2str_def)
  moreover have "stoi (num2str v d) = Inr v"
    using stoi_digits [OF w(2) ne] w(3) v by simp
  ultimately show ?case
    using Cons assms(1) ne w(1) by (subst color_loop.simps) simp
qed

text \<open>\<open>ndigits m\<close> digits hold every number below \<open>m\<close>, and only that many are needed.\<close>

lemma ndigits_loop_bounds:
  "0 \<le> k \<Longrightarrow> k \<le> ndigits_loop m k \<and> (0 < m \<longrightarrow> m < 10 ^ nat (ndigits_loop m k - k) \<and> k < ndigits_loop m k)"
proof (induction m k rule: ndigits_loop.induct)
  case (1 m k)
  show ?case
  proof (cases "0 < m")
    case True
    let ?r = "ndigits_loop (m div 10) (k + 1)"
    have e: "ndigits_loop m k = ?r" using True by (subst ndigits_loop.simps) simp
    have IH: "k + 1 \<le> ?r" "0 < m div 10 \<longrightarrow> m div 10 < 10 ^ nat (?r - (k + 1))"
      using 1 True by auto
    have "m div 10 < 10 ^ nat (?r - (k + 1))"
    proof (cases "0 < m div 10")
      case False
      then show ?thesis by (rule le_less_trans [OF leI]) simp
    qed (use IH(2) in simp)
    then have "m < 10 * 10 ^ nat (?r - (k + 1))" by (simp only: div10_bounds)
    moreover have "nat (?r - k) = Suc (nat (?r - (k + 1)))" using IH(1) by simp
    ultimately show ?thesis using IH(1) e by simp
  qed (simp add: ndigits_loop.simps)
qed

lemma ndigits_bound: "0 < m \<Longrightarrow> m < 10 ^ nat (ndigits m) \<and> 0 < nat (ndigits m)"
  using ndigits_loop_bounds [of 0 m] by (simp add: ndigits_def)

section \<open>Properties\<close>

text \<open>A colouring whose node ids are below \<open>m\<close>, written by \<open>vec2str\<close> with \<open>ndigits m\<close> digits for
  each node, is read back unchanged by \<open>TradeoffPoints::getColoringByIdx\<close>.\<close>

theorem coloring_string_roundtrip:
  assumes "0 < m" and "m \<le> 2 ^ 31" and "\<forall>v\<in>set vs. 0 \<le> v \<and> v < m"
    and "um_get [] points idx = vec2str vs (nat (ndigits m))"
  shows "getColoringByIdx points (ndigits m) idx = Inr vs"
proof -
  have nd: "m < 10 ^ nat (ndigits m)" "0 < nat (ndigits m)" using ndigits_bound [OF assms(1)] by auto
  have "color_loop (nat (ndigits m)) (vec2str vs (nat (ndigits m))) = Inr vs"
    using assms(2,3) nd by (intro color_loop_vec2str) (auto intro: less_trans order_less_le_trans)
  then show ?thesis using nd(2) by (simp add: getColoringByIdx_def assms(4))
qed

lemma coloring_string_roundtrip_witness:
  "getColoringByIdx [(0, vec2str [3, 41, 7] (nat (ndigits 42)))] (ndigits 42) 0 = Inr [3, 41, 7]"
  by (rule coloring_string_roundtrip) (simp_all add: um_get_def)

text \<open>\<open>splitStr\<close> with a one-character delimiter loses nothing: joining its parts with the
  delimiter gives the line back, and it cuts a joined list of delimiter-free fields into exactly
  these fields.\<close>

theorem splitStr_inverse:
  "join_with d (splitStr s [d]) = s \<and>
   (ts \<noteq> [] \<and> (\<forall>t\<in>set ts. d \<notin> set t) \<longrightarrow> splitStr (join_with d ts) [d] = ts)"
  using join_splitStr [of d s] splitStr_join [of ts d] by blast

lemma splitStr_inverse_witness:
  "splitStr (join_with (CHR '';'') [''ab'', [], ''c'']) '';'' = [''ab'', [], ''c'']"
  using splitStr_inverse [of "CHR '';''" "[]" "[''ab'', [], ''c'']"] by simp

end
