(* ===== verification/Redis.thy ===== *)
theory Redis
  imports Prelude
begin

text \<open>
  The Redis server, through which the coordinator and the agents exchange commands, is a parameter
  of the model: \<open>rpush k v\<close> and \<open>blpop k\<close> act on a server state, \<open>view r k\<close> is the list that the
  server holds under a key. The documented behaviour the code relies on is \<open>redis_lists\<close>: a list
  per key, \<open>RPUSH\<close> appends to it, \<open>BLPOP\<close> takes the first element of a list that is not empty.
\<close>

definition redis_lists ::
  "('r \<Rightarrow> string \<Rightarrow> string list) \<Rightarrow> (string \<Rightarrow> string \<Rightarrow> 'r \<Rightarrow> 'r) \<Rightarrow> (string \<Rightarrow> 'r \<Rightarrow> (string \<times> 'r) res) \<Rightarrow> bool" where
  "redis_lists view rpush blpop \<longleftrightarrow>
     (\<forall>k v r j. view (rpush k v r) j = (if j = k then view r k @ [v] else view r j)) \<and>
     (\<forall>k v vs r. view r k = v # vs \<longrightarrow>
        (\<exists>r'. blpop k r = Inr (v, r') \<and> (\<forall>j. view r' j = (if j = k then vs else view r j))))"

text \<open>A concrete server for the witnesses.\<close>

definition fun_view :: "(string \<Rightarrow> string list) \<Rightarrow> string \<Rightarrow> string list" where
  "fun_view r = r"

definition fun_rpush :: "string \<Rightarrow> string \<Rightarrow> (string \<Rightarrow> string list) \<Rightarrow> string \<Rightarrow> string list" where
  "fun_rpush k v r = r(k := r k @ [v])"

definition fun_blpop :: "string \<Rightarrow> (string \<Rightarrow> string list) \<Rightarrow> (string \<times> (string \<Rightarrow> string list)) res" where
  "fun_blpop k r = (case r k of [] \<Rightarrow> Inl NoReturn | v # vs \<Rightarrow> Inr (v, r(k := vs)))"

lemma redis_lists_fun: "redis_lists fun_view fun_rpush fun_blpop"
  by (auto simp: redis_lists_def fun_view_def fun_rpush_def fun_blpop_def)

type_synonym pushes = "(string \<times> string) list"

definition push_all :: "(string \<Rightarrow> string \<Rightarrow> 'r \<Rightarrow> 'r) \<Rightarrow> pushes \<Rightarrow> 'r \<Rightarrow> 'r" where
  "push_all rpush ps r = fold (\<lambda>(k, v). rpush k v) ps r"

text \<open>\<open>holds view r ps rest\<close>: what is left of the pushes \<open>ps\<close> is in front, under each key.\<close>

definition holds :: "('r \<Rightarrow> string \<Rightarrow> string list) \<Rightarrow> 'r \<Rightarrow> pushes \<Rightarrow> (string \<Rightarrow> string list) \<Rightarrow> bool" where
  "holds view r ps rest \<longleftrightarrow> (\<forall>j. view r j = map snd (filter (\<lambda>p. fst p = j) ps) @ rest j)"

lemma view_push_all:
  assumes "redis_lists view rpush blpop"
  shows "view (push_all rpush ps r) j = view r j @ map snd (filter (\<lambda>p. fst p = j) ps)"
proof (induction ps arbitrary: r)
  case (Cons p ps)
  have "view (rpush (fst p) (snd p) r) j = (if j = fst p then view r (fst p) @ [snd p] else view r j)"
    using assms unfolding redis_lists_def by blast
  with Cons [of "rpush (fst p) (snd p) r"] show ?case
    by (auto simp: push_all_def case_prod_beta)
qed (simp add: push_all_def)

lemma holds_push_all:
  assumes "redis_lists view rpush blpop" and "\<And>j. view r j = []"
  shows "holds view (push_all rpush ps r) ps (\<lambda>_. [])"
  by (simp add: holds_def view_push_all [OF assms(1)] assms(2))

lemma holds_pop:
  assumes "redis_lists view rpush blpop" and "holds view r ((k, v) # ps) rest"
  shows "\<exists>r'. blpop k r = Inr (v, r') \<and> holds view r' ps rest"
proof -
  have "view r k = v # (map snd (filter (\<lambda>p. fst p = k) ps) @ rest k)"
    using assms(2) by (simp add: holds_def)
  with assms(1) obtain r' where "blpop k r = Inr (v, r')"
    "\<And>j. view r' j = (if j = k then map snd (filter (\<lambda>p. fst p = k) ps) @ rest k else view r j)"
    unfolding redis_lists_def by blast
  with assms(2) show ?thesis by (auto simp: holds_def)
qed

end
