(* ===== verification/Task.thy ===== *)
theory Task
  imports Command DistUtil Redis
begin

text \<open>
  The five kinds of repair tasks and their messages: classes \<open>ComputeItem\<close> and \<open>Task\<close> of
  src/src/ec/Task.hh and src/src/ec/Task.cc.

  A compute task sends one command for itself and one for each of its items, under keys of its
  own. The agent reads them from its Redis server, a parameter (theory Redis).
\<close>

section \<open>Data\<close>

definition TASK_COMMAND_LEN :: nat where
  "TASK_COMMAND_LEN = 1024"

definition COMPUTE_COMMAND_LEN :: nat where
  "COMPUTE_COMMAND_LEN = 128"

record compute_item =
  ci_dstidx :: int
  ci_srclist :: "int list"
  ci_coefs :: "int list"
  ci_usage :: "bool \<times> bool"
  ci_cmd :: cbuf
  ci_cKey :: string

definition new_compute_item :: "int \<Rightarrow> int list \<Rightarrow> int list \<Rightarrow> bool \<times> bool \<Rightarrow> compute_item" where
  "new_compute_item dst src cfs usage =
     \<lparr>ci_dstidx = dst, ci_srclist = src, ci_coefs = cfs, ci_usage = usage,
      ci_cmd = calloc_buf 0 COMPUTE_COMMAND_LEN, ci_cKey = []\<rparr>"

record task =
  ttype :: "int option"   \<comment> \<open>0 read, 1 send, 2 receive, 3 compute, 4 persist; unset by the constructor\<close>
  batch_id :: int
  t_stripe_id :: int
  blk_name :: string
  dagidx_list :: "int list"
  usage_list :: "(bool \<times> bool) list"
  send_to_list :: "int list list"
  compute_list :: "compute_item list"
  collect_list :: "int list"
  repaired_block :: string
  agCmd :: cbuf
  rKey :: string

definition new_task :: "int \<Rightarrow> int \<Rightarrow> task" where
  "new_task b s =
     \<lparr>ttype = None, batch_id = b, t_stripe_id = s, blk_name = [], dagidx_list = [], usage_list = [],
      send_to_list = [], compute_list = [], collect_list = [], repaired_block = [],
      agCmd = calloc_buf 0 TASK_COMMAND_LEN, rKey = []\<rparr>"

definition buildReadTask :: "int \<Rightarrow> string \<Rightarrow> int list \<Rightarrow> (bool \<times> bool) list \<Rightarrow> task \<Rightarrow> task" where
  "buildReadTask type blockname dagidxlist usagelist t =
     t\<lparr>ttype := Some type, blk_name := blockname, dagidx_list := dagidxlist, usage_list := usagelist\<rparr>"

definition buildSendTask :: "int \<Rightarrow> int list \<Rightarrow> int list list \<Rightarrow> task \<Rightarrow> task" where
  "buildSendTask type dagidxlist sendtolist t =
     t\<lparr>ttype := Some type, dagidx_list := dagidxlist, send_to_list := sendtolist\<rparr>"

definition buildRecvTask :: "int \<Rightarrow> int list \<Rightarrow> task \<Rightarrow> task" where
  "buildRecvTask type dagidxlist t = t\<lparr>ttype := Some type, dagidx_list := dagidxlist\<rparr>"

definition buildComputeTask :: "int \<Rightarrow> compute_item list \<Rightarrow> task \<Rightarrow> task" where
  "buildComputeTask type clist t = t\<lparr>ttype := Some type, compute_list := clist\<rparr>"

definition buildPersistTask :: "int \<Rightarrow> int list \<Rightarrow> string \<Rightarrow> task \<Rightarrow> task" where
  "buildPersistTask type clist blkname t =
     t\<lparr>ttype := Some type, collect_list := clist, repaired_block := blkname\<rparr>"

section \<open>Writing the commands\<close>

definition write_flag :: "bool \<Rightarrow> cbuf \<Rightarrow> cbuf res" where
  "write_flag f b = (if f then writeInt 1 b else writeInt 0 b)"

definition write_usage :: "bool \<times> bool \<Rightarrow> cbuf \<Rightarrow> cbuf res" where
  "write_usage u b = bindR (write_flag (fst u) b) (write_flag (snd u))"

definition write_type :: "task \<Rightarrow> cbuf \<Rightarrow> cbuf res" where
  "write_type t b = writeInt (case ttype t of None \<Rightarrow> 0 | Some k \<Rightarrow> k) b"

definition ci_writeInt :: "int \<Rightarrow> cbuf \<Rightarrow> cbuf res" where
  \<comment> \<open>the copy of \<open>writeInt\<close> in class \<open>ComputeItem\<close>\<close>
  "ci_writeInt v b =
     memcpy_to (htonl_bytes v) (if length (bytes b) + 4 > bmax b then grow b else b)"

definition ci_buildCommand :: "string \<Rightarrow> compute_item \<Rightarrow> compute_item res" where
  "ci_buildCommand ckey ci =
     bindR (ci_writeInt (ci_dstidx ci) (calloc_buf COMPUTE_COMMAND_LEN (bmax (ci_cmd ci)))) (\<lambda>b.
     bindR (ci_writeInt (int (length (ci_srclist ci))) b) (\<lambda>b.
     bindR (foldR ci_writeInt (ci_srclist ci) b) (\<lambda>b.
     bindR (foldR ci_writeInt (ci_coefs ci) b) (\<lambda>b.
     bindR (ci_writeInt (if fst (ci_usage ci) then 1 else 0) b) (\<lambda>b.
     bindR (ci_writeInt (if snd (ci_usage ci) then 1 else 0) b) (\<lambda>b.
       Inr (ci\<lparr>ci_cmd := b, ci_cKey := ckey\<rparr>)))))))"

definition buildReadTaskCommand :: "task \<Rightarrow> cbuf \<Rightarrow> cbuf res" where
  "buildReadTaskCommand t b =
     bindR (write_type t b) (\<lambda>b.
     bindR (writeString (blk_name t) b) (\<lambda>b.
     bindR (writeInt (int (length (dagidx_list t))) b) (\<lambda>b.
     bindR (writeInts (dagidx_list t) b) (\<lambda>b.
       if blk_name t \<noteq> ''ZERO'' then foldR write_usage (usage_list t) b else Inr b))))"

definition write_sendtos :: "int list \<Rightarrow> cbuf \<Rightarrow> cbuf res" where
  "write_sendtos sendtos b = bindR (writeInt (int (length sendtos)) b) (writeInts sendtos)"

definition buildSendTaskCommand :: "task \<Rightarrow> cbuf \<Rightarrow> cbuf res" where
  "buildSendTaskCommand t b =
     bindR (write_type t b) (\<lambda>b.
     bindR (writeInt (int (length (dagidx_list t))) b) (\<lambda>b.
     bindR (writeInts (dagidx_list t) b)
       (foldR (\<lambda>i b. bindR (vget (send_to_list t) i) (\<lambda>sendtos. write_sendtos sendtos b))
          (map int [0..<length (dagidx_list t)]))))"

definition buildRecvTaskCommand :: "task \<Rightarrow> cbuf \<Rightarrow> cbuf res" where
  "buildRecvTaskCommand t b =
     bindR (write_type t b) (\<lambda>b.
     bindR (writeInt (int (length (dagidx_list t))) b) (writeInts (dagidx_list t)))"

definition compute_key :: "int \<Rightarrow> int \<Rightarrow> int \<Rightarrow> string" where
  "compute_key batch stripe dst =
     (to_string batch @ '':'' @ to_string stripe @ '':command'') @ '':compute:'' @ to_string dst"

definition buildComputeTaskCommand :: "task \<Rightarrow> cbuf \<Rightarrow> (cbuf \<times> compute_item list) res" where
  "buildComputeTaskCommand t b =
     bindR (write_type t b) (\<lambda>b.
     bindR (writeInt (int (length (compute_list t))) b) (\<lambda>b.
     bindR (writeInts (map ci_dstidx (compute_list t)) b) (\<lambda>b.
     bindR (mapR (\<lambda>ci. ci_buildCommand (rKey t @ '':compute:'' @ to_string (ci_dstidx ci)) ci) (compute_list t))
       (\<lambda>cs. Inr (b, cs)))))"

definition buildPersistTaskCommand :: "task \<Rightarrow> cbuf \<Rightarrow> cbuf res" where
  "buildPersistTaskCommand t b =
     bindR (write_type t b) (\<lambda>b.
     bindR (writeInt (int (length (collect_list t))) b) (\<lambda>b.
     bindR (writeInts (collect_list t) b) (writeString (repaired_block t))))"

text \<open>
  \<open>buildTaskCommand\<close> allocates \<open>TASK_COMMAND_LEN\<close> bytes but leaves \<open>_maxLen\<close> as an earlier build
  may have raised it.
\<close>

definition buildTaskCommand :: "task \<Rightarrow> task res" where
  "buildTaskCommand t =
     (let b = calloc_buf TASK_COMMAND_LEN (bmax (agCmd t));
          t1 = t\<lparr>rKey := to_string (batch_id t) @ '':'' @ to_string (t_stripe_id t) @ '':command''\<rparr>;
          set = (\<lambda>r. bindR r (\<lambda>b. Inr (t1\<lparr>agCmd := b\<rparr>)))
      in if ttype t = Some 0 then set (buildReadTaskCommand t1 b)
         else if ttype t = Some 1 then set (buildSendTaskCommand t1 b)
         else if ttype t = Some 2 then set (buildRecvTaskCommand t1 b)
         else if ttype t = Some 3 then
           bindR (buildComputeTaskCommand t1 b) (\<lambda>(b, cs). Inr (t1\<lparr>agCmd := b, compute_list := cs\<rparr>))
         else if ttype t = Some 4 then set (buildPersistTaskCommand t1 b)
         else Inr (t1\<lparr>agCmd := b\<rparr>))"

section \<open>Reading the commands\<close>

definition ci_readInt :: "string \<Rightarrow> (int \<times> string) res" where
  "ci_readInt s = readInt s"

definition parse_compute_item :: "string \<Rightarrow> compute_item res" where
  \<comment> \<open>the constructor \<open>ComputeItem(char* reqStr)\<close>\<close>
  "parse_compute_item s =
     bindR (ci_readInt s) (\<lambda>(dst, s).
     bindR (ci_readInt s) (\<lambda>(numsrc, s).
     bindR (readN ci_readInt (nat numsrc) s) (\<lambda>(src, s).
     bindR (readN ci_readInt (nat numsrc) s) (\<lambda>(cfs, s).
     bindR (ci_readInt s) (\<lambda>(same, s).
     bindR (ci_readInt s) (\<lambda>(diff, s).
       Inr (new_compute_item dst src cfs (same \<noteq> 0, diff \<noteq> 0))))))))"

definition read_usage :: "string \<Rightarrow> ((bool \<times> bool) \<times> string) res" where
  "read_usage s = bindR (readInt s) (\<lambda>(sameint, s). bindR (readInt s) (\<lambda>(diffint, s).
     Inr ((sameint = 1, diffint = 1), s)))"

definition resolveReadTask :: "string \<Rightarrow> task \<Rightarrow> task res" where
  "resolveReadTask s t =
     bindR (readString s) (\<lambda>(name, s).
     bindR (readInt s) (\<lambda>(num, s).
     bindR (readInts num s) (\<lambda>(idxs, s).
       (if name \<noteq> ''ZERO''
        then bindR (readN read_usage (nat num) s) (\<lambda>(us, s).
               Inr (t\<lparr>blk_name := name, dagidx_list := idxs, usage_list := us\<rparr>))
        else Inr (t\<lparr>blk_name := name, dagidx_list := idxs\<rparr>)))))"

definition read_sendtos :: "string \<Rightarrow> (int list \<times> string) res" where
  "read_sendtos s = bindR (readInt s) (\<lambda>(nodenum, s). readInts nodenum s)"

definition resolveSendTask :: "string \<Rightarrow> task \<Rightarrow> task res" where
  "resolveSendTask s t =
     bindR (readInt s) (\<lambda>(num, s).
     bindR (readInts num s) (\<lambda>(idxs, s).
     bindR (readN read_sendtos (nat num) s) (\<lambda>(sends, s).
       Inr (t\<lparr>dagidx_list := idxs, send_to_list := sends\<rparr>))))"

definition resolveRecvTask :: "string \<Rightarrow> task \<Rightarrow> task res" where
  "resolveRecvTask s t =
     bindR (readInt s) (\<lambda>(num, s).
     bindR (readInts num s) (\<lambda>(idxs, s). Inr (t\<lparr>dagidx_list := idxs\<rparr>)))"

text \<open>The loop over the items: a target is read, then its command is popped and parsed.\<close>

fun read_compute_items ::
  "(string \<Rightarrow> 'r \<Rightarrow> (string \<times> 'r) res) \<Rightarrow> (int \<Rightarrow> string) \<Rightarrow> nat \<Rightarrow> string \<Rightarrow> 'r \<Rightarrow> (compute_item list \<times> 'r) res" where
  "read_compute_items blpop key 0 s r = Inr ([], r)"
| "read_compute_items blpop key (Suc n) s r =
     bindR (readInt s) (\<lambda>(dagidx, s).
     bindR (blpop (key dagidx) r) (\<lambda>(reqStr, r).
     bindR (parse_compute_item reqStr) (\<lambda>ci.
     bindR (read_compute_items blpop key n s r) (\<lambda>(cs, r). Inr (ci # cs, r)))))"

definition resolveComputeTask :: "(string \<Rightarrow> 'r \<Rightarrow> (string \<times> 'r) res) \<Rightarrow> string \<Rightarrow> task \<Rightarrow> 'r \<Rightarrow> (task \<times> 'r) res" where
  "resolveComputeTask blpop s t r =
     bindR (readInt s) (\<lambda>(num, s).
     bindR (read_compute_items blpop (compute_key (batch_id t) (t_stripe_id t)) (nat num) s r) (\<lambda>(cs, r).
       Inr (t\<lparr>compute_list := cs\<rparr>, r)))"

definition resolvePersistTask :: "string \<Rightarrow> task \<Rightarrow> task res" where
  "resolvePersistTask s t =
     bindR (readInt s) (\<lambda>(num, s).
     bindR (readInts num s) (\<lambda>(srcs, s).
     bindR (readString s) (\<lambda>(name, s). Inr (t\<lparr>collect_list := srcs, repaired_block := name\<rparr>))))"

definition parse_task ::
  "(string \<Rightarrow> 'r \<Rightarrow> (string \<times> 'r) res) \<Rightarrow> string \<Rightarrow> int \<Rightarrow> int \<Rightarrow> 'r \<Rightarrow> (task \<times> 'r) res" where
  \<comment> \<open>the constructor \<open>Task(char* reqStr, int batchid, int stripeid, unsigned int ip)\<close>\<close>
  "parse_task blpop s batchid stripeid r =
     bindR (readInt s) (\<lambda>(type, s).
       let t = (new_task batchid stripeid)\<lparr>ttype := Some type\<rparr>;
           keep = (\<lambda>x. bindR x (\<lambda>t. Inr (t, r)))
       in if type = 0 then keep (resolveReadTask s t)
          else if type = 1 then keep (resolveSendTask s t)
          else if type = 2 then keep (resolveRecvTask s t)
          else if type = 3 then resolveComputeTask blpop s t r
          else if type = 4 then keep (resolvePersistTask s t)
          else Inr (t, r))"

section \<open>Round trips\<close>

definition enc_usage :: "bool \<times> bool \<Rightarrow> string" where
  "enc_usage u = htonl_bytes (if fst u then 1 else 0) @ htonl_bytes (if snd u then 1 else 0)"

definition enc_list :: "int list \<Rightarrow> string" where
  "enc_list xs = htonl_bytes (int (length xs)) @ enc_ints xs"

definition list_ok :: "int list \<Rightarrow> bool" where
  "list_ok xs \<longleftrightarrow> list_all i32 xs \<and> length xs < 2 ^ 31"

lemma i32_small [simp]: "i32 0" "i32 1" "i32 2" "i32 3" "i32 4"
  by (simp_all add: i32_def)

lemma i32_length: "length xs < 2 ^ 31 \<Longrightarrow> i32 (int (length xs))"
  by (simp add: i32_def)

lemma write_flag_eq: "write_flag f = writeInt (if f then 1 else 0)"
  by (simp add: fun_eq_iff write_flag_def)

lemma ci_copies: "ci_writeInt = writeInt" "ci_readInt = readInt"
  by (simp_all add: fun_eq_iff ci_writeInt_def writeInt_def ci_readInt_def)

interpretation usage_codec: codec enc_usage read_usage "\<lambda>_. True"
  by unfold_locales (auto simp: read_usage_def enc_usage_def)

interpretation sendtos_codec: codec enc_list read_sendtos list_ok
proof unfold_locales
  fix xs rest assume "list_ok xs"
  then show "read_sendtos (enc_list xs @ rest) = Inr (xs, rest)"
    by (simp add: read_sendtos_def enc_list_def list_ok_def i32_length)
qed

lemma emits_usage: "emits n (write_usage u) (enc_usage u)"
  unfolding write_usage_def [abs_def] enc_usage_def write_flag_eq by (intro emit_intros)

lemma emits_sendtos: "emits n (write_sendtos xs) (enc_list xs)"
  unfolding write_sendtos_def [abs_def] enc_list_def by (intro emit_intros)

lemma emits_list: "emits n (\<lambda>b. bindR (writeInt (int (length xs)) b) (writeInts xs)) (enc_list xs)"
  unfolding enc_list_def by (intro emit_intros)

lemma read_list:
  assumes "list_ok xs"
  shows "readInt (enc_list xs @ rest) = Inr (int (length xs), enc_ints xs @ rest)"
  using assms by (simp add: enc_list_def list_ok_def i32_length)

text \<open>The loop of \<open>buildSendTaskCommand\<close> over positions, as a loop over the lists themselves.\<close>

lemma foldR_vget:
  "foldR (\<lambda>i b. bindR (vget xs i) (\<lambda>x. f x b)) (map int [0..<length xs]) b = foldR f xs b"
proof -
  have "foldR (\<lambda>i b. bindR (vget xs i) (\<lambda>x. f x b)) (map int [k..<length xs]) b = foldR f (drop k xs) b"
    if "k \<le> length xs" for k b
    using that
  proof (induction "length xs - k" arbitrary: k b)
    case 0
    then show ?case by simp
  next
    case (Suc m)
    then have k: "k < length xs" by simp
    have "[k..<length xs] = k # [Suc k..<length xs]" using k by (simp add: upt_rec)
    moreover have "drop k xs = xs ! k # drop (Suc k) xs" using k by (simp add: Cons_nth_drop_Suc)
    ultimately show ?case using Suc k by (cases "f (xs ! k) b") simp_all
  qed
  from this [of 0 b] show ?thesis by simp
qed

text \<open>What each kind of command looks like on the wire.\<close>

lemma emits_read:
  assumes "ttype t = Some 0" and "length (blk_name t) + 4 \<le> n"
  shows "emits n (buildReadTaskCommand t)
    (htonl_bytes 0 @ enc_string (blk_name t) @ enc_list (dagidx_list t) @
     (if blk_name t = ''ZERO'' then [] else concat (map enc_usage (usage_list t))))"
  using emits_seq [OF emits_writeInt [of n 0]
      emits_seq [OF emits_writeString [OF assms(2)]
        emits_seq [OF emits_writeInt emits_seq [OF emits_writeInts [of n "dagidx_list t"]]]]]
    emits_foldR [of "usage_list t", OF emits_usage] emits_skip [of n] assms(1)
  by (simp add: buildReadTaskCommand_def [abs_def] write_type_def enc_list_def)

lemma emits_send:
  assumes "ttype t = Some 1" and "length (send_to_list t) = length (dagidx_list t)"
  shows "emits n (buildSendTaskCommand t)
    (htonl_bytes 1 @ enc_list (dagidx_list t) @ concat (map enc_list (send_to_list t)))"
proof -
  have loop: "foldR (\<lambda>i b. bindR (vget (send_to_list t) i) (\<lambda>sendtos. write_sendtos sendtos b))
      (map int [0..<length (dagidx_list t)]) = foldR write_sendtos (send_to_list t)"
    using foldR_vget [of "send_to_list t" write_sendtos] assms(2) by (intro ext) simp
  have "emits n (foldR write_sendtos (send_to_list t)) (concat (map enc_list (send_to_list t)))"
    by (rule emits_foldR [OF emits_sendtos])
  from emits_seq [OF emits_writeInt [of n 1] emits_seq [OF emits_writeInt emits_seq [OF emits_writeInts
        [of n "dagidx_list t"] this]]] assms(1)
  show ?thesis
    unfolding buildSendTaskCommand_def [abs_def] loop by (simp add: write_type_def enc_list_def)
qed

lemma emits_recv:
  "ttype t = Some 2 \<Longrightarrow> emits n (buildRecvTaskCommand t) (htonl_bytes 2 @ enc_list (dagidx_list t))"
  using emits_seq [OF emits_writeInt [of n 2] emits_list]
  by (simp add: buildRecvTaskCommand_def [abs_def] write_type_def)

lemma emits_persist:
  assumes "ttype t = Some 4" and "length (repaired_block t) + 4 \<le> n"
  shows "emits n (buildPersistTaskCommand t)
    (htonl_bytes 4 @ enc_list (collect_list t) @ enc_string (repaired_block t))"
  using emits_seq [OF emits_writeInt [of n 4] emits_seq [OF emits_writeInt emits_seq [OF emits_writeInts
        [of n "collect_list t"] emits_writeString [OF assms(2)]]]] assms(1)
  by (simp add: buildPersistTaskCommand_def [abs_def] write_type_def enc_list_def)

lemma parse_type:
  "i32 k \<Longrightarrow> parse_task blpop (htonl_bytes k @ s) b sid r =
   (let t = (new_task b sid)\<lparr>ttype := Some k\<rparr>; keep = (\<lambda>x. bindR x (\<lambda>t. Inr (t, r)))
    in if k = 0 then keep (resolveReadTask s t) else if k = 1 then keep (resolveSendTask s t)
       else if k = 2 then keep (resolveRecvTask s t) else if k = 3 then resolveComputeTask blpop s t r
       else if k = 4 then keep (resolvePersistTask s t) else Inr (t, r))"
  by (simp add: parse_task_def)

lemma read_lists: "list_ok xs \<Longrightarrow> readInts (int (length xs)) (enc_ints xs @ rest) = Inr (xs, rest)"
  by (simp add: list_ok_def)

lemma resolve_read:
  assumes "cstring_ok name" and "list_ok idxs" and "name \<noteq> ''ZERO'' \<Longrightarrow> length us = length idxs"
  shows "resolveReadTask (enc_string name @ enc_list idxs @
      (if name = ''ZERO'' then [] else concat (map enc_usage us))) t =
    Inr (t\<lparr>blk_name := name, dagidx_list := idxs,
      usage_list := (if name = ''ZERO'' then usage_list t else us)\<rparr>)"
  using string_codec.dec_enc [OF assms(1)] read_list [OF assms(2)] read_lists [OF assms(2)]
    usage_codec.readN_enc [of us "[]"] assms(3)
  by (auto simp: list_all_iff resolveReadTask_def)

lemma resolve_send:
  assumes "list_ok idxs" and "list_all list_ok sends" and "length sends = length idxs"
  shows "resolveSendTask (enc_list idxs @ concat (map enc_list sends)) t =
    Inr (t\<lparr>dagidx_list := idxs, send_to_list := sends\<rparr>)"
  using sendtos_codec.readN_enc [OF assms(2), of "[]"] assms(1,3)
  by (simp add: resolveSendTask_def read_list read_lists)

lemma resolve_recv:
  "list_ok idxs \<Longrightarrow> resolveRecvTask (enc_list idxs) t = Inr (t\<lparr>dagidx_list := idxs\<rparr>)"
  using read_list [of idxs "[]"] read_lists [of idxs "[]"] by (simp add: resolveRecvTask_def)

lemma resolve_persist:
  assumes "list_ok srcs" and "cstring_ok name"
  shows "resolvePersistTask (enc_list srcs @ enc_string name) t =
    Inr (t\<lparr>collect_list := srcs, repaired_block := name\<rparr>)"
  using string_codec.dec_enc [OF assms(2), of "[]"] assms(1)
  by (simp add: resolvePersistTask_def read_list read_lists)

text \<open>Tasks as the planner builds them, fresh from their constructor, and what the agent must get.\<close>

definition fresh_buf :: "task \<Rightarrow> bool" where
  "fresh_buf t \<longleftrightarrow> bmax (agCmd t) = TASK_COMMAND_LEN"

definition sendable :: "task \<Rightarrow> bool" where
  "sendable t \<longleftrightarrow> fresh_buf t \<and>
     (case ttype t of
        Some k \<Rightarrow>
          (k = 0 \<and> cstring_ok (blk_name t) \<and> length (blk_name t) + 4 \<le> TASK_COMMAND_LEN \<and>
             list_ok (dagidx_list t) \<and> (blk_name t \<noteq> ''ZERO'' \<longrightarrow> length (usage_list t) = length (dagidx_list t)))
        \<or> (k = 1 \<and> list_ok (dagidx_list t) \<and> list_all list_ok (send_to_list t) \<and>
             length (send_to_list t) = length (dagidx_list t))
        \<or> (k = 2 \<and> list_ok (dagidx_list t))
        \<or> (k = 4 \<and> list_ok (collect_list t) \<and> cstring_ok (repaired_block t) \<and>
             length (repaired_block t) + 4 \<le> TASK_COMMAND_LEN)
      | None \<Rightarrow> False)"

definition received :: "task \<Rightarrow> task" where
  "received t =
     (let r = (new_task (batch_id t) (t_stripe_id t))\<lparr>ttype := ttype t\<rparr>
      in if ttype t = Some 0 then r\<lparr>blk_name := blk_name t, dagidx_list := dagidx_list t,
             usage_list := (if blk_name t = ''ZERO'' then [] else usage_list t)\<rparr>
         else if ttype t = Some 1 then r\<lparr>dagidx_list := dagidx_list t, send_to_list := send_to_list t\<rparr>
         else if ttype t = Some 2 then r\<lparr>dagidx_list := dagidx_list t\<rparr>
         else if ttype t = Some 3 then r\<lparr>compute_list :=
             map (\<lambda>ci. new_compute_item (ci_dstidx ci) (ci_srclist ci) (ci_coefs ci) (ci_usage ci)) (compute_list t)\<rparr>
         else r\<lparr>collect_list := collect_list t, repaired_block := repaired_block t\<rparr>)"

lemma calloc_task: "fresh_buf t \<Longrightarrow> calloc_buf TASK_COMMAND_LEN (bmax (agCmd t)) = calloc_buf TASK_COMMAND_LEN TASK_COMMAND_LEN"
  by (simp add: fresh_buf_def)

lemma emits_task: "emits TASK_COMMAND_LEN f s \<Longrightarrow>
  \<exists>b. f (calloc_buf TASK_COMMAND_LEN TASK_COMMAND_LEN) = Inr b \<and> bytes b = s"
  using emits_at [of TASK_COMMAND_LEN f s] by (auto simp: TASK_COMMAND_LEN_def)

definition command_key :: "task \<Rightarrow> string" where
  "command_key t = to_string (batch_id t) @ '':'' @ to_string (t_stripe_id t) @ '':command''"

lemma plain_task_travels:
  assumes "sendable t"
  shows "\<exists>t'. buildTaskCommand t = Inr t' \<and> rKey t' = command_key t \<and> ttype t' = ttype t \<and>
    parse_task blpop (bytes (agCmd t')) (batch_id t) (t_stripe_id t) r = Inr (received t, r)"
proof -
  let ?N = TASK_COMMAND_LEN
  let ?t = "t\<lparr>rKey := to_string (batch_id t) @ '':'' @ to_string (t_stripe_id t) @ '':command''\<rparr>"
  let ?goal = "\<lambda>f s. emits ?N f s"
  have fresh: "fresh_buf t" using assms by (simp add: sendable_def)
  obtain k where k: "ttype t = Some k" using assms by (auto simp: sendable_def split: option.splits)
  consider "k = 0" | "k = 1" | "k = 2" | "k = 4" using assms k by (auto simp: sendable_def)
  then show ?thesis
  proof cases
    case 1
    with assms k have ok: "cstring_ok (blk_name t)" "length (blk_name t) + 4 \<le> ?N" "list_ok (dagidx_list t)"
      "blk_name t \<noteq> ''ZERO'' \<Longrightarrow> length (usage_list t) = length (dagidx_list t)"
      by (auto simp: sendable_def)
    from emits_task [OF emits_read [of ?t]] k 1 ok(2)
    obtain b where "buildReadTaskCommand ?t (calloc_buf ?N ?N) = Inr b"
      "bytes b = htonl_bytes 0 @ enc_string (blk_name t) @ enc_list (dagidx_list t) @
        (if blk_name t = ''ZERO'' then [] else concat (map enc_usage (usage_list t)))"
      by auto
    with resolve_read [OF ok(1,3,4)] k 1 show ?thesis
      by (simp add: buildTaskCommand_def calloc_task [OF fresh] parse_type received_def new_task_def command_key_def Let_def)
  next
    case 2
    with assms k have ok: "list_ok (dagidx_list t)" "list_all list_ok (send_to_list t)"
      "length (send_to_list t) = length (dagidx_list t)" by (auto simp: sendable_def)
    from emits_task [OF emits_send [of ?t]] k 2 ok(3)
    obtain b where "buildSendTaskCommand ?t (calloc_buf ?N ?N) = Inr b"
      "bytes b = htonl_bytes 1 @ enc_list (dagidx_list t) @ concat (map enc_list (send_to_list t))"
      by auto
    with resolve_send [OF ok] k 2 show ?thesis
      by (simp add: buildTaskCommand_def calloc_task [OF fresh] parse_type received_def new_task_def command_key_def Let_def)
  next
    case 3
    with assms k have ok: "list_ok (dagidx_list t)" by (auto simp: sendable_def)
    from emits_task [OF emits_recv [of ?t]] k 3
    obtain b where "buildRecvTaskCommand ?t (calloc_buf ?N ?N) = Inr b"
      "bytes b = htonl_bytes 2 @ enc_list (dagidx_list t)"
      by auto
    with resolve_recv [OF ok] k 3 show ?thesis
      by (simp add: buildTaskCommand_def calloc_task [OF fresh] parse_type received_def new_task_def command_key_def Let_def)
  next
    case 4
    with assms k have ok: "list_ok (collect_list t)" "cstring_ok (repaired_block t)"
      "length (repaired_block t) + 4 \<le> ?N" by (auto simp: sendable_def)
    from emits_task [OF emits_persist [of ?t]] k 4 ok(3)
    obtain b where "buildPersistTaskCommand ?t (calloc_buf ?N ?N) = Inr b"
      "bytes b = htonl_bytes 4 @ enc_list (collect_list t) @ enc_string (repaired_block t)"
      by auto
    with resolve_persist [OF ok(1,2)] k 4 show ?thesis
      by (simp add: buildTaskCommand_def calloc_task [OF fresh] parse_type received_def new_task_def command_key_def Let_def)
  qed
qed

definition enc_item :: "compute_item \<Rightarrow> string" where
  "enc_item ci = htonl_bytes (ci_dstidx ci) @ enc_list (ci_srclist ci) @ enc_ints (ci_coefs ci) @ enc_usage (ci_usage ci)"

definition item_ok :: "compute_item \<Rightarrow> bool" where
  "item_ok ci \<longleftrightarrow> i32 (ci_dstidx ci) \<and> list_ok (ci_srclist ci) \<and> list_all i32 (ci_coefs ci) \<and>
     length (ci_coefs ci) = length (ci_srclist ci) \<and> bmax (ci_cmd ci) = COMPUTE_COMMAND_LEN"

lemma foldR_writeInt: "foldR writeInt = writeInts"
  by (simp add: fun_eq_iff writeInts_def)

lemma ci_build_ok:
  assumes "item_ok ci"
  shows "\<exists>b. ci_buildCommand key ci = Inr (ci\<lparr>ci_cmd := b, ci_cKey := key\<rparr>) \<and> bytes b = enc_item ci"
proof -
  let ?N = COMPUTE_COMMAND_LEN
  have "emits ?N (\<lambda>b. bindR (writeInt (ci_dstidx ci) b) (\<lambda>b.
      bindR (writeInt (int (length (ci_srclist ci))) b) (\<lambda>b.
      bindR (writeInts (ci_srclist ci) b) (\<lambda>b. bindR (writeInts (ci_coefs ci) b) (\<lambda>b.
      bindR (writeInt (if fst (ci_usage ci) then 1 else 0) b)
        (writeInt (if snd (ci_usage ci) then 1 else 0)))))))
    (htonl_bytes (ci_dstidx ci) @ htonl_bytes (int (length (ci_srclist ci))) @
      enc_ints (ci_srclist ci) @ enc_ints (ci_coefs ci) @ enc_usage (ci_usage ci))"
    (is "emits ?N ?f ?s")
    unfolding enc_usage_def by (intro emit_intros)
  from emits_at [OF this] obtain b where "?f (calloc_buf ?N ?N) = Inr b" "bytes b = ?s"
    by (auto simp: COMPUTE_COMMAND_LEN_def)
  then show ?thesis
    using assms
    by (auto simp: ci_buildCommand_def ci_copies foldR_writeInt item_ok_def enc_item_def enc_list_def bindR_eq_Inr)
qed

lemma parse_item:
  assumes "item_ok ci"
  shows "parse_compute_item (enc_item ci) =
    Inr (new_compute_item (ci_dstidx ci) (ci_srclist ci) (ci_coefs ci) (ci_usage ci))"
proof -
  have ok: "i32 (ci_dstidx ci)" "list_ok (ci_srclist ci)" "list_all i32 (ci_coefs ci)"
    "length (ci_coefs ci) = length (ci_srclist ci)"
    using assms by (auto simp: item_ok_def)
  have r: "readN readInt (length (ci_srclist ci)) (enc_ints (ci_srclist ci) @ r) = Inr (ci_srclist ci, r)"
    "readN readInt (length (ci_srclist ci)) (enc_ints (ci_coefs ci) @ r) = Inr (ci_coefs ci, r)" for r
    using int_codec.readN_enc [of "ci_srclist ci" r] int_codec.readN_enc [of "ci_coefs ci" r] ok
    by (simp_all add: list_ok_def enc_ints_def)
  have u: "readInt (enc_usage u) = Inr (if fst u then 1 else 0, htonl_bytes (if snd u then 1 else 0))"
    "readInt (htonl_bytes (if snd u then 1 else 0)) = Inr (if snd u then 1 else 0, [])" for u :: "bool \<times> bool"
    using readInt_htonl [of "if fst u then 1 else 0" "htonl_bytes (if snd u then 1 else 0)"]
      readInt_htonl [of "if snd u then 1 else 0" "[]"]
    by (simp_all add: enc_usage_def)
  show ?thesis
    using ok r u [of "ci_usage ci"]
    by (cases "ci_usage ci") (simp add: parse_compute_item_def ci_copies enc_item_def read_list)
qed

lemma build_items:
  "list_all item_ok cs \<Longrightarrow> \<exists>cs'. mapR (\<lambda>ci. ci_buildCommand (key ci) ci) cs = Inr cs' \<and>
     list_all2 (\<lambda>ci ci'. ci_cKey ci' = key ci \<and> bytes (ci_cmd ci') = enc_item ci) cs cs'"
proof (induction cs)
  case Nil
  then show ?case by simp
next
  case (Cons ci cs)
  then obtain cs' where cs': "mapR (\<lambda>ci. ci_buildCommand (key ci) ci) cs = Inr cs'"
    "list_all2 (\<lambda>ci ci'. ci_cKey ci' = key ci \<and> bytes (ci_cmd ci') = enc_item ci) cs cs'" by auto
  from ci_build_ok [of ci "key ci"] Cons.prems obtain b where
    "ci_buildCommand (key ci) ci = Inr (ci\<lparr>ci_cmd := b, ci_cKey := key ci\<rparr>)" "bytes b = enc_item ci"
    by auto
  with cs' show ?case by simp
qed

lemma enc_ints_Cons: "enc_ints (x # xs) = htonl_bytes x @ enc_ints xs"
  by (simp add: enc_ints_def)

lemma item_ok_dst: "item_ok ci \<Longrightarrow> i32 (ci_dstidx ci)"
  by (simp add: item_ok_def)

lemma read_items:
  assumes "redis_lists view rpush blpop"
    and "list_all2 (\<lambda>ci ci'. ci_cKey ci' = key (ci_dstidx ci) \<and> bytes (ci_cmd ci') = enc_item ci) cs cs'"
    and "list_all item_ok cs" and "holds view r (map (\<lambda>ci. (ci_cKey ci, bytes (ci_cmd ci))) cs' @ ps) rest"
  shows "\<exists>r'. read_compute_items blpop key (length cs) (enc_ints (map ci_dstidx cs)) r =
      Inr (map (\<lambda>ci. new_compute_item (ci_dstidx ci) (ci_srclist ci) (ci_coefs ci) (ci_usage ci)) cs, r') \<and>
    holds view r' ps rest"
  using assms(2-4)
proof (induction cs cs' arbitrary: r rule: list_all2_induct)
  case Nil
  then show ?case by simp
next
  case (Cons ci cs ci' cs')
  then have "holds view r ((key (ci_dstidx ci), enc_item ci) # map (\<lambda>ci. (ci_cKey ci, bytes (ci_cmd ci))) cs' @ ps) rest"
    by simp
  from holds_pop [OF assms(1) this] obtain r1 where
    r1: "blpop (key (ci_dstidx ci)) r = Inr (enc_item ci, r1)"
      "holds view r1 (map (\<lambda>ci. (ci_cKey ci, bytes (ci_cmd ci))) cs' @ ps) rest" by blast
  have "item_ok ci" using Cons.prems(1) by simp
  then have "readInt (htonl_bytes (ci_dstidx ci) @ s) = Inr (ci_dstidx ci, s)" for s
    by (simp add: item_ok_dst)
  with Cons.IH [OF _ r1(2)] Cons.prems r1(1) show ?case
    by (auto simp: parse_item enc_ints_Cons)
qed

definition computable :: "task \<Rightarrow> bool" where
  "computable t \<longleftrightarrow> ttype t = Some 3 \<and> fresh_buf t \<and> list_all item_ok (compute_list t) \<and>
     length (compute_list t) < 2 ^ 31"

text \<open>What a task puts on the agent's server: its own command, then those of its items.\<close>

definition item_pushes :: "task \<Rightarrow> pushes" where
  "item_pushes t = (if ttype t = Some 3 then map (\<lambda>ci. (ci_cKey ci, bytes (ci_cmd ci))) (compute_list t) else [])"

lemma compute_task_travels:
  assumes redis: "redis_lists view rpush blpop" and "computable t"
  shows "\<exists>t'. buildTaskCommand t = Inr t' \<and> rKey t' = command_key t \<and> ttype t' = ttype t \<and>
    (\<forall>r ps rest. holds view r (item_pushes t' @ ps) rest \<longrightarrow>
      (\<exists>r'. parse_task blpop (bytes (agCmd t')) (batch_id t) (t_stripe_id t) r = Inr (received t, r') \<and>
        holds view r' ps rest))"
proof -
  have t: "ttype t = Some 3" "fresh_buf t" "list_all item_ok (compute_list t)" "length (compute_list t) < 2 ^ 31"
    using assms(2) by (auto simp: computable_def)
  let ?N = TASK_COMMAND_LEN and ?key = "compute_key (batch_id t) (t_stripe_id t)"
  let ?dst = "map ci_dstidx (compute_list t)"
  obtain cs' where cs': "mapR (\<lambda>ci. ci_buildCommand (?key (ci_dstidx ci)) ci) (compute_list t) = Inr cs'"
    "list_all2 (\<lambda>ci ci'. ci_cKey ci' = ?key (ci_dstidx ci) \<and> bytes (ci_cmd ci') = enc_item ci) (compute_list t) cs'"
    using build_items [OF t(3), of "\<lambda>ci. ?key (ci_dstidx ci)"] by blast
  have dst: "list_ok ?dst" using t(3,4) by (auto simp: list_ok_def list_all_iff item_ok_def)
  have "emits ?N (\<lambda>b. bindR (writeInt 3 b) (\<lambda>b. bindR (writeInt (int (length ?dst)) b) (writeInts ?dst)))
      (htonl_bytes 3 @ enc_list ?dst)" (is "emits ?N ?f ?s")
    by (intro emits_seq emits_writeInt emits_list)
  from emits_task [OF this] obtain b where b: "?f (calloc_buf ?N ?N) = Inr b" "bytes b = ?s" by blast
  have bld: "buildTaskCommand t = Inr (t\<lparr>rKey := command_key t, agCmd := b, compute_list := cs'\<rparr>)"
    using b(1) cs'(1) t(1,2)
    by (auto simp: buildTaskCommand_def buildComputeTaskCommand_def write_type_def calloc_task
        compute_key_def command_key_def bindR_eq_Inr Let_def)
  have "\<exists>r'. parse_task blpop (bytes b) (batch_id t) (t_stripe_id t) r = Inr (received t, r') \<and> holds view r' ps rest"
    if "holds view r (map (\<lambda>ci. (ci_cKey ci, bytes (ci_cmd ci))) cs' @ ps) rest" for r ps rest
    using read_items [OF redis cs'(2) t(3) that] t(1) b(2) dst
    by (auto simp: parse_type resolveComputeTask_def received_def new_task_def enc_list_def list_ok_def i32_length)
  with bld t(1) show ?thesis by (auto simp: item_pushes_def)
qed

section \<open>Properties\<close>

text \<open>C32: a read, send, receive or persist task survives the wire: \<open>Task::buildTaskCommand\<close>
  succeeds on a task fresh from its constructor, and the receiving constructor rebuilds from the
  bytes exactly the fields that kind of task carries (a read of the virtual block \<open>ZERO\<close> carries
  no usage flags), without reading anything else from the server.\<close>

theorem task_roundtrip:
  assumes "sendable t"
  shows "\<exists>t'. buildTaskCommand t = Inr t' \<and>
    parse_task blpop (bytes (agCmd t')) (batch_id t) (t_stripe_id t) r = Inr (received t, r)"
  using plain_task_travels [OF assms, of blpop r] by (elim exE conjE) (intro exI conjI)

lemma task_roundtrip_witness:
  "\<exists>t'. buildTaskCommand (buildReadTask 0 ''blk'' [3, 4] [(True, False), (False, True)] (new_task 1 2)) = Inr t' \<and>
    parse_task fun_blpop (bytes (agCmd t')) 1 2 (\<lambda>_. []) =
      Inr (buildReadTask 0 ''blk'' [3, 4] [(True, False), (False, True)] (new_task 1 2), \<lambda>_. [])"
  using task_roundtrip [of "buildReadTask 0 ''blk'' [3, 4] [(True, False), (False, True)] (new_task 1 2)" fun_blpop "\<lambda>_. []"]
  by (simp add: sendable_def fresh_buf_def received_def buildReadTask_def new_task_def calloc_buf_def
      TASK_COMMAND_LEN_def cstring_ok_def list_ok_def i32_def)

text \<open>The command of one compute item.\<close>

text \<open>A compute task survives the wire: \<open>buildTaskCommand\<close> succeeds, and from a server on which
  the commands of its items lie first under their keys the agent's constructor rebuilds every item
  with its target, sources, coefficients and usage flags, in order, and takes exactly those commands
  off the server.\<close>

theorem compute_task_roundtrip:
  assumes "redis_lists view rpush blpop" and "computable t"
  shows "\<exists>t'. buildTaskCommand t = Inr t' \<and>
    (\<forall>r rest. (\<forall>j. view r j = map (\<lambda>ci. bytes (ci_cmd ci)) (filter (\<lambda>ci. ci_cKey ci = j) (compute_list t')) @ rest j) \<longrightarrow>
      (\<exists>r'. parse_task blpop (bytes (agCmd t')) (batch_id t) (t_stripe_id t) r =
          Inr (buildComputeTask 3
              (map (\<lambda>ci. new_compute_item (ci_dstidx ci) (ci_srclist ci) (ci_coefs ci) (ci_usage ci)) (compute_list t))
              (new_task (batch_id t) (t_stripe_id t)), r') \<and>
        (\<forall>j. view r' j = rest j)))"
proof -
  have t: "ttype t = Some 3" using assms(2) by (simp add: computable_def)
  have r: "received t = buildComputeTask 3
      (map (\<lambda>ci. new_compute_item (ci_dstidx ci) (ci_srclist ci) (ci_coefs ci) (ci_usage ci)) (compute_list t))
      (new_task (batch_id t) (t_stripe_id t))"
    using t by (simp add: received_def buildComputeTask_def Let_def)
  obtain t' where t': "buildTaskCommand t = Inr t'" "ttype t' = ttype t"
    "\<And>r ps rest. holds view r (item_pushes t' @ ps) rest \<Longrightarrow>
      \<exists>r'. parse_task blpop (bytes (agCmd t')) (batch_id t) (t_stripe_id t) r = Inr (received t, r') \<and> holds view r' ps rest"
    using compute_task_travels [OF assms] by blast
  have "\<exists>r'. parse_task blpop (bytes (agCmd t')) (batch_id t) (t_stripe_id t) r = Inr (received t, r') \<and> (\<forall>j. view r' j = rest j)"
    if "\<forall>j. view r j = map (\<lambda>ci. bytes (ci_cmd ci)) (filter (\<lambda>ci. ci_cKey ci = j) (compute_list t')) @ rest j" for r rest
  proof -
    have "holds view r (item_pushes t' @ []) rest"
      using that t t'(2) by (simp add: holds_def item_pushes_def filter_map o_def)
    from t'(3) [OF this] show ?thesis by (simp add: holds_def)
  qed
  with t'(1) r show ?thesis by auto
qed

lemma compute_task_roundtrip_witness:
  "\<exists>t'. buildTaskCommand (buildComputeTask 3 [new_compute_item 9 [1, 2] [1, 3] (True, False)] (new_task 0 5)) = Inr t'"
  using compute_task_roundtrip [OF redis_lists_fun,
      of "buildComputeTask 3 [new_compute_item 9 [1, 2] [1, 3] (True, False)] (new_task 0 5)"]
  by (auto simp: computable_def buildComputeTask_def fresh_buf_def new_task_def calloc_buf_def item_ok_def
      new_compute_item_def list_ok_def i32_def)

text \<open>C33: \<open>Task::writeString\<close> grows its buffer once only, so a read task whose block name is longer
  than twice the initial buffer is written past the allocation instead of being sent or refused.\<close>

theorem long_block_name_overruns:
  assumes "ttype t = Some 0" and "fresh_buf t" and "2 * TASK_COMMAND_LEN < length (blk_name t) + 8"
  shows "buildTaskCommand t = Inl BufferOverrun"
proof -
  let ?t = "t\<lparr>rKey := to_string (batch_id t) @ '':'' @ to_string (t_stripe_id t) @ '':command''\<rparr>"
  let ?b = "calloc_buf TASK_COMMAND_LEN TASK_COMMAND_LEN"
  have w: "writeInt 0 ?b = Inr (?b\<lparr>bytes := htonl_bytes 0\<rparr>)"
    by (simp add: writeInt_def memcpy_to_def calloc_buf_def TASK_COMMAND_LEN_def)
  have "writeString (blk_name t) (?b\<lparr>bytes := htonl_bytes 0\<rparr>) = Inl BufferOverrun"
    using assms(3) by (intro writeString_overrun) (simp_all add: calloc_buf_def)
  then have "buildReadTaskCommand ?t ?b = Inl BufferOverrun"
    using assms(1) w by (simp add: buildReadTaskCommand_def write_type_def)
  then show ?thesis
    using assms(1) by (simp add: buildTaskCommand_def calloc_task [OF assms(2)] Let_def)
qed

lemma long_block_name_overruns_witness:
  "buildTaskCommand (buildReadTask 0 (replicate 3000 (CHR ''b'')) [] [] (new_task 0 0)) = Inl BufferOverrun"
  using long_block_name_overruns [of "buildReadTask 0 (replicate 3000 (CHR ''b'')) [] [] (new_task 0 0)"]
  by (simp add: buildReadTask_def fresh_buf_def new_task_def calloc_buf_def TASK_COMMAND_LEN_def)

end
