(* ===== verification/Stripe.thy ===== *)
theory Stripe
  imports Topo Task
begin

text \<open>
  A stripe under repair: class \<open>Stripe\<close> of src/src/common/Stripe.hh and the load accounting of
  src/src/common/Stripe.cc (\<open>evaluateColoring\<close>, \<open>changeColor\<close>, \<open>changeColor2\<close>, \<open>evaluateChange\<close>,
  \<open>evaluateChange2\<close>, \<open>evalColoringGlobal\<close>, \<open>dumpTrans\<close>, \<open>dumpLoad\<close>). The properties are in
  theory Traffic; the generation of tasks is in theory RepairTasks.

  Loads are kept in two shapes: a pair of unordered maps (\<open>_in\<close>, \<open>_out\<close>) and a vector of rows
  \<open>[out, in]\<close>, one row for each node. The members \<open>_bdwt\<close> and \<open>_load\<close> are \<open>double\<close>s that only ever
  hold small integers; they are integers here.
\<close>

section \<open>The stripe\<close>

record stripe =
  stripe_id :: int
  nodelist :: "int list"
  s_ecdag :: ecdag
  s_in :: "int umap"
  s_out :: "int umap"
  s_bdwt :: int
  s_load :: int
  coloring :: "int umap"
  fail_blk_idxs :: "int list"
  new_node :: int
  stripe_name :: string
  blklist :: "string list"
  loclist :: "int list"
  taskmap :: "task list umap"

definition new_stripe :: "int \<Rightarrow> int list \<Rightarrow> stripe" where
  "new_stripe stripeid nodes =
     \<lparr>stripe_id = stripeid, nodelist = nodes, s_ecdag = new_ecdag, s_in = [], s_out = [], s_bdwt = 0,
      s_load = 0, coloring = [], fail_blk_idxs = [], new_node = -1, stripe_name = [], blklist = [],
      loclist = [], taskmap = []\<rparr>"

definition new_named_stripe :: "int \<Rightarrow> string \<Rightarrow> string list \<Rightarrow> int list \<Rightarrow> int list \<Rightarrow> stripe" where
  "new_named_stripe stripeid name blks locs nodes =
     (new_stripe stripeid nodes)\<lparr>stripe_name := name, blklist := blks, loclist := locs\<rparr>"

definition getPlacement :: "stripe \<Rightarrow> int list" where
  "getPlacement s = nodelist s"

definition getStripeId :: "stripe \<Rightarrow> int" where
  "getStripeId s = stripe_id s"

definition getFailNum :: "stripe \<Rightarrow> nat" where
  "getFailNum s = length (fail_blk_idxs s)"

definition getECDAG :: "stripe \<Rightarrow> ecdag" where
  "getECDAG s = s_ecdag s"

definition setColoring :: "int umap \<Rightarrow> stripe \<Rightarrow> stripe" where
  "setColoring cl s = s\<lparr>coloring := cl\<rparr>"

definition getColoring :: "stripe \<Rightarrow> int umap" where
  "getColoring s = coloring s"

definition getInMap :: "stripe \<Rightarrow> int umap" where
  "getInMap s = s_in s"

definition getOutMap :: "stripe \<Rightarrow> int umap" where
  "getOutMap s = s_out s"

definition getBdwt :: "stripe \<Rightarrow> int" where
  "getBdwt s = s_bdwt s"

definition getLoad :: "stripe \<Rightarrow> int" where
  "getLoad s = s_load s"

section \<open>Load tables\<close>

datatype dir = IN | OUT

fun dir_index :: "dir \<Rightarrow> nat" where
  "dir_index IN = 1"
| "dir_index OUT = 0"

lemma dir_not_IN: "dr \<noteq> IN \<longleftrightarrow> dr = OUT"
  by (cases dr) simp_all

lemma dir_index_eq: "dir_index a = dir_index b \<longleftrightarrow> a = b"
  by (cases a; cases b) simp_all

text \<open>The two shapes of a table: \<open>tab_add\<close> is \<open>_in[k] += d\<close> or \<open>_out[k] += d\<close>, \<open>vt_add\<close> is
  \<open>loadTable[k][dir] += d\<close>.\<close>

type_synonym maps = "int umap \<times> int umap"
type_synonym rows = "int list list"

definition tab_add :: "dir \<Rightarrow> int \<Rightarrow> int \<Rightarrow> maps \<Rightarrow> maps res" where
  "tab_add dr k d m = Inr (if dr = IN then (um_bump k d (fst m), snd m) else (fst m, um_bump k d (snd m)))"

definition tab_get :: "maps \<Rightarrow> dir \<Rightarrow> int \<Rightarrow> int" where
  "tab_get m dr k = um_get 0 (if dr = IN then fst m else snd m) k"

definition vt_add :: "dir \<Rightarrow> int \<Rightarrow> int \<Rightarrow> rows \<Rightarrow> rows res" where
  "vt_add dr k d t = bindR (vget t k) (\<lambda>row.
     if dir_index dr < length row
     then Inr (t[nat k := row[dir_index dr := row ! dir_index dr + d]])
     else Inl BadIndex)"

definition vt_set :: "dir \<Rightarrow> int \<Rightarrow> int \<Rightarrow> rows \<Rightarrow> rows res" where
  "vt_set dr k v t = bindR (vget t k) (\<lambda>row.
     if dir_index dr < length row then Inr (t[nat k := row[dir_index dr := v]]) else Inl BadIndex)"

definition vt_get :: "rows \<Rightarrow> dir \<Rightarrow> int \<Rightarrow> int" where
  "vt_get t dr k = (if 0 \<le> k \<and> nat k < length t then t ! nat k ! dir_index dr else 0)"

definition rows_ok :: "nat \<Rightarrow> rows \<Rightarrow> bool" where
  "rows_ok n t \<longleftrightarrow> length t = n \<and> list_all (\<lambda>row. length row = 2) t"

text \<open>What every routine that counts relies on: adding to one cell changes that cell only.\<close>

locale load_table =
  fixes add :: "dir \<Rightarrow> int \<Rightarrow> int \<Rightarrow> 't \<Rightarrow> 't res"
    and get :: "'t \<Rightarrow> dir \<Rightarrow> int \<Rightarrow> int"
    and tinv :: "'t \<Rightarrow> bool"
    and ok :: "int \<Rightarrow> bool"
  assumes add_law: "tinv t \<Longrightarrow> ok k \<Longrightarrow> \<exists>t'. add dr k d t = Inr t' \<and> tinv t' \<and>
    (\<forall>dr' j. get t' dr' j = get t dr' j + (if dr' = dr \<and> j = k then d else 0))"

text \<open>\<open>effects get tinv f D\<close>: the step \<open>f\<close> never faults and changes every cell by \<open>D\<close>.\<close>

definition effects :: "('t \<Rightarrow> dir \<Rightarrow> int \<Rightarrow> int) \<Rightarrow> ('t \<Rightarrow> bool) \<Rightarrow> ('t \<Rightarrow> 't res) \<Rightarrow> (dir \<Rightarrow> int \<Rightarrow> int) \<Rightarrow> bool" where
  "effects get tinv f D \<longleftrightarrow>
     (\<forall>t. tinv t \<longrightarrow> (\<exists>t'. f t = Inr t' \<and> tinv t' \<and> (\<forall>dr k. get t' dr k = get t dr k + D dr k)))"

definition unit_at :: "dir \<Rightarrow> int \<Rightarrow> int \<Rightarrow> dir \<Rightarrow> int \<Rightarrow> int" where
  "unit_at dr k d = (\<lambda>dr' j. if dr' = dr \<and> j = k then d else 0)"

lemma effectsD: "effects get tinv f D \<Longrightarrow> tinv t \<Longrightarrow>
    \<exists>t'. f t = Inr t' \<and> tinv t' \<and> (\<forall>dr k. get t' dr k = get t dr k + D dr k)"
  by (simp add: effects_def)

lemma effects_skip: "effects get tinv Inr (\<lambda>_ _. 0)"
  by (simp add: effects_def)

lemma effects_seq:
  assumes "effects get tinv f D" and "effects get tinv g E"
  shows "effects get tinv (\<lambda>t. bindR (f t) g) (\<lambda>dr k. D dr k + E dr k)"
  unfolding effects_def
proof (intro allI impI)
  fix t assume "tinv t"
  from effectsD [OF assms(1) this] obtain t1 where
    t1: "f t = Inr t1" "tinv t1" "\<And>dr k. get t1 dr k = get t dr k + D dr k" by blast
  from effectsD [OF assms(2) t1(2)] obtain t2 where
    "g t1 = Inr t2" "tinv t2" "\<And>dr k. get t2 dr k = get t1 dr k + E dr k" by blast
  with t1 show "\<exists>t'. bindR (f t) g = Inr t' \<and> tinv t' \<and> (\<forall>dr k. get t' dr k = get t dr k + (D dr k + E dr k))"
    by simp
qed

lemma effects_if:
  "(b \<Longrightarrow> effects get tinv f D) \<Longrightarrow> (\<not> b \<Longrightarrow> effects get tinv g E) \<Longrightarrow>
   effects get tinv (\<lambda>t. if b then f t else g t) (\<lambda>dr k. if b then D dr k else E dr k)"
  by (cases b) simp_all

lemma effects_foldR:
  "(\<And>x. x \<in> set xs \<Longrightarrow> effects get tinv (f x) (D x)) \<Longrightarrow>
   effects get tinv (foldR f xs) (\<lambda>dr k. \<Sum>x\<leftarrow>xs. D x dr k)"
proof (induction xs)
  case Nil
  then show ?case by (simp add: effects_def)
next
  case (Cons x xs)
  have "effects get tinv (\<lambda>t. bindR (f x t) (foldR f xs)) (\<lambda>dr k. D x dr k + (\<Sum>x\<leftarrow>xs. D x dr k))"
    using Cons by (intro effects_seq) auto
  then show ?case by (simp add: foldR.simps(2) [abs_def])
qed

lemma effects_cong: "effects get tinv f D \<Longrightarrow> (\<And>dr k. D dr k = E dr k) \<Longrightarrow> effects get tinv f E"
  by (simp add: effects_def)

context load_table
begin

lemma effects_add: "ok k \<Longrightarrow> effects get tinv (add dr k d) (unit_at dr k d)"
  using add_law by (auto simp: effects_def unit_at_def)

lemma effects_add2:
  "ok k \<Longrightarrow> ok j \<Longrightarrow> effects get tinv (\<lambda>t. bindR (add dr k d t) (add dr' j e))
     (\<lambda>dr'' i. unit_at dr k d dr'' i + unit_at dr' j e dr'' i)"
  by (intro effects_seq effects_add)

end

interpretation maps: load_table tab_add tab_get "\<lambda>m. um_wf (fst m) \<and> um_wf (snd m)" "\<lambda>_. True"
  by unfold_locales (auto simp: tab_add_def tab_get_def um_get_bump dir_not_IN)

interpretation rows: load_table vt_add vt_get "rows_ok n" "\<lambda>k. 0 \<le> k \<and> nat k < n" for n
proof unfold_locales
  fix t :: rows and k d :: int and dr
  assume t: "rows_ok n t" and k: "0 \<le> k \<and> nat k < n"
  have len: "nat k < length t" "length (t ! nat k) = 2" "dir_index dr < 2" "dir_index dr' < 2" for dr'
    using t k by (auto simp: rows_ok_def list_all_length) (cases dr; simp; fail | cases dr'; simp; fail)+
  let ?row = "(t ! nat k)[dir_index dr := t ! nat k ! dir_index dr + d]"
  let ?t = "t[nat k := ?row]"
  have "rows_ok n ?t" using t len by (auto simp: rows_ok_def list_all_length nth_list_update)
  moreover have "vt_add dr k d t = Inr ?t" using len k by (simp add: vt_add_def)
  moreover have "vt_get ?t dr' j = vt_get t dr' j + (if dr' = dr \<and> j = k then d else 0)" for dr' j
  proof (cases "0 \<le> j \<and> nat j = nat k")
    case True
    then have "j = k" using k by auto
    then show ?thesis using len k by (simp add: vt_get_def nth_list_update dir_index_eq)
  next
    case False
    then show ?thesis using k by (auto simp: vt_get_def nth_list_update)
  qed
  ultimately show "\<exists>t'. vt_add dr k d t = Inr t' \<and> rows_ok n t' \<and>
      (\<forall>dr' j. vt_get t' dr' j = vt_get t dr' j + (if dr' = dr \<and> j = k then d else 0))"
    by blast
qed

section \<open>Colours of the parents\<close>

text \<open>
  \<open>_coloring[i]\<close> inserts 0 for a vertex without colour. The insertion never changes what a later
  \<open>_coloring[j]\<close> yields, so the values are read off the colouring as it was, and \<open>touch\<close> collects
  the insertions.
\<close>

definition touch :: "int list \<Rightarrow> int umap \<Rightarrow> int umap" where
  "touch is cl = fold (um_ref 0) is cl"

definition color_of :: "int umap \<Rightarrow> int \<Rightarrow> int" where
  "color_of cl i = um_get 0 cl i"

definition add_color :: "int \<Rightarrow> int list \<Rightarrow> int list" where
  "add_color c cs = (if c \<in> set cs then cs else cs @ [c])"

definition parent_colors :: "int umap \<Rightarrow> int list \<Rightarrow> int list" where
  \<comment> \<open>the loop that collects the distinct colours of the parents in a vector\<close>
  "parent_colors cl ps = fold (\<lambda>p. add_color (color_of cl p)) ps []"

definition parent_color_set :: "int umap \<Rightarrow> int list \<Rightarrow> int list" where
  \<comment> \<open>the same colours in a \<open>set<int>\<close>, in the order of its iterator\<close>
  "parent_color_set cl ps = sort (parent_colors cl ps)"

section \<open>evaluateColoring\<close>

definition count_edge :: "int \<Rightarrow> int \<Rightarrow> maps \<Rightarrow> maps" where
  \<comment> \<open>one sub-packet from \<open>mycolor\<close> to the node \<open>pc\<close> of a parent\<close>
  "count_edge mycolor pc m =
     (if mycolor \<noteq> pc \<and> pc \<noteq> -1
      then (um_bump pc 1 (fst m), um_bump mycolor 1 (snd m)) else m)"

definition eval_vertex :: "ecdag \<Rightarrow> int umap \<Rightarrow> int \<times> int \<Rightarrow> maps \<Rightarrow> maps res" where
  "eval_vertex g cl item m =
     (if snd item = -1 then Inr m
      else bindR (ofOpt NullNode (getNode g (fst item))) (\<lambda>node.
             Inr (fold (count_edge (snd item)) (parent_colors cl (parentNodes node)) m)))"

definition visited_parents :: "ecdag \<Rightarrow> int umap \<Rightarrow> int list" where
  "visited_parents g cl = concat (map (\<lambda>item. if snd item = -1 then [] else parents_of g (fst item)) cl)"

definition bdwt_of :: "int umap \<Rightarrow> int" where
  "bdwt_of inm = fold (\<lambda>item b. b + snd item) inm 0"

definition load_of :: "int umap \<Rightarrow> int umap \<Rightarrow> int" where
  "load_of inm outm =
     fold (\<lambda>item l. if snd item > l then snd item else l) outm
       (fold (\<lambda>item l. if snd item > l then snd item else l) inm 0)"

definition evaluateColoring :: "stripe \<Rightarrow> stripe res" where
  "evaluateColoring s =
     bindR (foldR (eval_vertex (s_ecdag s) (coloring s)) (coloring s) ([], [])) (\<lambda>(inm, outm).
       Inr (s\<lparr>s_in := inm, s_out := outm, s_bdwt := bdwt_of inm, s_load := load_of inm outm,
              coloring := touch (visited_parents (s_ecdag s) (coloring s)) (coloring s)\<rparr>))"

definition dumpTrans :: "stripe \<Rightarrow> stripe res" where
  \<comment> \<open>the same recount, with every transfer logged\<close>
  "dumpTrans s =
     bindR (foldR (eval_vertex (s_ecdag s) (coloring s)) (coloring s) ([], [])) (\<lambda>(inm, outm).
       Inr (s\<lparr>s_in := inm, s_out := outm, s_bdwt := bdwt_of inm, s_load := load_of inm outm,
              coloring := touch (visited_parents (s_ecdag s) (coloring s)) (coloring s)\<rparr>))"

definition dumpLoad :: "int \<Rightarrow> stripe \<Rightarrow> stripe" where
  \<comment> \<open>printing \<open>_in[nodeid]\<close> and \<open>_out[nodeid]\<close> inserts the missing nodes\<close>
  "dumpLoad num_agents s =
     s\<lparr>s_in := touch (map int [0..<nat num_agents]) (s_in s),
       s_out := touch (map int [0..<nat num_agents]) (s_out s)\<rparr>"

definition global_vertex :: "ecdag \<Rightarrow> int umap \<Rightarrow> int \<times> int \<Rightarrow> rows \<Rightarrow> rows res" where
  "global_vertex g cl item t =
     (if snd item = -1 then Inr t
      else bindR (ofOpt NullNode (getNode g (fst item))) (\<lambda>node.
             foldR (\<lambda>pc t. if snd item \<noteq> pc \<and> pc \<noteq> -1
                           then bindR (vt_add OUT (snd item) 1 t) (vt_add IN pc 1) else Inr t)
               (parent_colors cl (parentNodes node)) t))"

definition evalColoringGlobal :: "stripe \<Rightarrow> rows \<Rightarrow> rows res" where
  \<comment> \<open>apart from the table, only the colouring may be touched, as in \<open>evaluateColoring\<close>\<close>
  "evalColoringGlobal s loadTable =
     foldR (global_vertex (s_ecdag s) (coloring s)) (coloring s) loadTable"

section \<open>changeColor\<close>

text \<open>The first loop, over the colours of the parents; \<open>old\<close> and \<open>new\<close> are the colours of the vertex.\<close>

definition change_parent :: "int \<Rightarrow> int \<Rightarrow> int \<Rightarrow> maps \<Rightarrow> maps res" where
  "change_parent old new pc m =
     (if pc = -1 then Inr m
      else bindR (if pc \<noteq> old \<and> old \<noteq> -1
                  then bindR (tab_add IN pc (-1) m) (tab_add OUT old (-1)) else Inr m)
             (\<lambda>m. if pc \<noteq> new \<and> new \<noteq> -1
                  then bindR (tab_add IN pc 1 m) (tab_add OUT new 1) else Inr m))"

definition count_color :: "int umap \<Rightarrow> int list \<Rightarrow> int \<Rightarrow> nat" where
  "count_color cl is c = length (filter (\<lambda>i. color_of cl i = c) is)"

text \<open>The second loop, over the children; its first form is for a vertex that had no node yet.\<close>

definition change_child :: "ecdag \<Rightarrow> int umap \<Rightarrow> int \<Rightarrow> int \<Rightarrow> int \<Rightarrow> maps \<Rightarrow> maps res" where
  "change_child g cl old new child m =
     (let cc = color_of cl child; ps = parents_of g child in
      if cc = -1 then Inr m
      else if old = -1 then
        (if count_color cl ps new = 0 \<and> new \<noteq> cc
         then bindR (tab_add OUT cc 1 m) (tab_add IN new 1) else Inr m)
      else bindR (if count_color cl ps old = 1 \<and> old \<noteq> cc
                  then bindR (tab_add OUT cc (-1) m) (tab_add IN old (-1)) else Inr m)
             (\<lambda>m. if count_color cl ps new = 0 \<and> new \<noteq> cc
                  then bindR (tab_add OUT cc 1 m) (tab_add IN new 1) else Inr m))"

definition child_reads :: "ecdag \<Rightarrow> int umap \<Rightarrow> int list \<Rightarrow> int list" where
  "child_reads g cl cs = concat (map (\<lambda>c. if color_of cl c = -1 then [] else parents_of g c) cs)"

definition all_nonneg :: "int umap \<Rightarrow> unit res" where
  "all_nonneg m = guardR AssertFailed (list_all (\<lambda>item. 0 \<le> snd item) m)"

definition changeColor :: "int \<Rightarrow> int \<Rightarrow> stripe \<Rightarrow> stripe res" where
  "changeColor idx new s =
     bindR (ofOpt NullNode (getNode (s_ecdag s) idx)) (\<lambda>node.
     let cl = coloring s; old = color_of cl (nodeId node);
         cl1 = touch (nodeId node # parentNodes node) cl
     in bindR (foldR (change_parent old new) (parent_colors cl (parentNodes node)) (s_in s, s_out s)) (\<lambda>m1.
        bindR (getChildColors cl1 node) (\<lambda>_.
        bindR (foldR (change_child (s_ecdag s) cl old new) (childNodes node) m1) (\<lambda>m2.
        bindR (all_nonneg (fst m2)) (\<lambda>_.
        bindR (all_nonneg (snd m2)) (\<lambda>_.
          Inr (s\<lparr>s_in := fst m2, s_out := snd m2, s_bdwt := bdwt_of (fst m2),
                 s_load := load_of (fst m2) (snd m2),
                 coloring := um_put idx new (touch (child_reads (s_ecdag s) cl (childNodes node)) cl1)\<rparr>)))))))"

text \<open>
  \<open>changeColor2\<close> repeats \<open>changeColor\<close>, but for a vertex that had a node its children's loop counts
  the arrivals at the child's node and the departures at the vertex's.
\<close>

definition change_child2 :: "ecdag \<Rightarrow> int umap \<Rightarrow> int \<Rightarrow> int \<Rightarrow> int \<Rightarrow> maps \<Rightarrow> maps res" where
  "change_child2 g cl old new child m =
     (let cc = color_of cl child; ps = parents_of g child in
      if cc = -1 then Inr m
      else if old = -1 then
        (if count_color cl ps new = 0 \<and> new \<noteq> cc
         then bindR (tab_add OUT cc 1 m) (tab_add IN new 1) else Inr m)
      else bindR (if count_color cl ps old = 1 \<and> old \<noteq> cc
                  then bindR (tab_add OUT old (-1) m) (tab_add IN cc (-1)) else Inr m)
             (\<lambda>m. if count_color cl ps new = 0 \<and> new \<noteq> cc
                  then bindR (tab_add OUT new 1 m) (tab_add IN cc 1) else Inr m))"

definition changeColor2 :: "int \<Rightarrow> int \<Rightarrow> stripe \<Rightarrow> stripe res" where
  "changeColor2 idx new s =
     bindR (ofOpt NullNode (getNode (s_ecdag s) idx)) (\<lambda>node.
     let cl = coloring s; old = color_of cl (nodeId node);
         cl1 = touch (nodeId node # parentNodes node) cl
     in bindR (foldR (change_parent old new) (parent_color_set cl (parentNodes node)) (s_in s, s_out s)) (\<lambda>m1.
        bindR (getChildColors cl1 node) (\<lambda>_.
        bindR (foldR (change_child2 (s_ecdag s) cl old new) (childNodes node) m1) (\<lambda>m2.
        bindR (all_nonneg (fst m2)) (\<lambda>_.
        bindR (all_nonneg (snd m2)) (\<lambda>_.
          Inr (s\<lparr>s_in := fst m2, s_out := snd m2, s_bdwt := bdwt_of (fst m2),
                 s_load := load_of (fst m2) (snd m2),
                 coloring := um_put idx new (touch (child_reads (s_ecdag s) cl (childNodes node)) cl1)\<rparr>)))))))"

section \<open>evaluateChange\<close>

definition load_rows :: "int \<Rightarrow> int umap \<Rightarrow> int umap \<Rightarrow> rows res" where
  \<comment> \<open>the table copied from \<open>_in\<close> and \<open>_out\<close>\<close>
  "load_rows n inm outm =
     bindR (foldR (\<lambda>it. vt_set IN (fst it) (snd it)) inm (replicate (nat n) [0, 0]))
       (foldR (\<lambda>it. vt_set OUT (fst it) (snd it)) outm)"

definition change_parent_rows :: "int \<Rightarrow> int \<Rightarrow> int \<Rightarrow> rows \<Rightarrow> rows res" where
  "change_parent_rows old new pc t =
     (if pc = -1 then Inr t
      else bindR (if pc \<noteq> old \<and> old \<noteq> -1
                  then bindR (vt_add OUT old (-1) t) (vt_add IN pc (-1)) else Inr t)
             (\<lambda>t. if pc \<noteq> new \<and> new \<noteq> -1
                  then bindR (vt_add OUT new 1 t) (vt_add IN pc 1) else Inr t))"

definition change_child_rows :: "ecdag \<Rightarrow> int umap \<Rightarrow> int \<Rightarrow> int \<Rightarrow> int \<Rightarrow> rows \<Rightarrow> rows res" where
  "change_child_rows g cl old new child t =
     (let cc = color_of cl child; ps = parents_of g child in
      if cc = -1 then Inr t
      else if old = -1 then
        (if count_color cl ps new = 0 \<and> new \<noteq> cc
         then bindR (vt_add OUT cc 1 t) (vt_add IN new 1) else Inr t)
      else bindR (if count_color cl ps old = 1 \<and> old \<noteq> cc
                  then bindR (vt_add IN old (-1) t) (vt_add OUT cc (-1)) else Inr t)
             (\<lambda>t. if count_color cl ps new = 0 \<and> new \<noteq> cc
                  then bindR (vt_add IN new 1 t) (vt_add OUT cc 1) else Inr t))"

definition evaluateChange :: "int \<Rightarrow> int \<Rightarrow> int \<Rightarrow> stripe \<Rightarrow> rows res" where
  "evaluateChange n idx new s =
     bindR (load_rows n (s_in s) (s_out s)) (\<lambda>t0.
     bindR (ofOpt NullNode (getNode (s_ecdag s) idx)) (\<lambda>node.
     let cl = coloring s; old = color_of cl (nodeId node) in
     bindR (foldR (change_parent_rows old new) (parent_color_set cl (parentNodes node)) t0) (\<lambda>t1.
     bindR (getChildColors (touch (nodeId node # parentNodes node) cl) node) (\<lambda>_.
       foldR (change_child_rows (s_ecdag s) cl old new) (childNodes node) t1))))"

text \<open>\<open>evaluateChange2\<close>: several vertices move, the children are those of the first one.\<close>

definition change_child_rows2 :: "ecdag \<Rightarrow> int umap \<Rightarrow> int \<Rightarrow> int \<Rightarrow> int \<Rightarrow> rows \<Rightarrow> rows res" where
  "change_child_rows2 g cl old new child t =
     (let cc = color_of cl child; ps = parents_of g child in
      if cc = -1 then Inr t
      else if old = -1 then
        (if count_color cl ps new = 0 \<and> new \<noteq> cc
         then bindR (vt_add OUT cc 1 t) (vt_add IN new 1) else Inr t)
      else bindR (if count_color cl ps old = 1 \<and> old \<noteq> cc
                  then bindR (vt_add OUT old (-1) t) (vt_add IN cc (-1)) else Inr t)
             (\<lambda>t. if count_color cl ps new = 0 \<and> new \<noteq> cc
                  then bindR (vt_add OUT new 1 t) (vt_add IN cc 1) else Inr t))"

definition evaluateChange2 :: "int \<Rightarrow> int list \<Rightarrow> int \<Rightarrow> stripe \<Rightarrow> rows res" where
  "evaluateChange2 n itm_idx new s =
     bindR (load_rows n (s_in s) (s_out s)) (\<lambda>t0.
     let cl = coloring s in
     bindR (foldR (\<lambda>idx t. bindR (ofOpt NullNode (getNode (s_ecdag s) idx)) (\<lambda>node.
              foldR (change_parent_rows (color_of cl (nodeId node)) new)
                (parent_color_set cl (parentNodes node)) t)) itm_idx t0) (\<lambda>t1.
     bindR (vget itm_idx 0) (\<lambda>first.
     bindR (ofOpt NullNode (getNode (s_ecdag s) first)) (\<lambda>node.
     bindR (getChildColors (touch (concat (map (parents_of (s_ecdag s)) itm_idx) @ itm_idx) cl) node) (\<lambda>_.
       foldR (change_child_rows2 (s_ecdag s) cl (color_of cl (nodeId node)) new) (childNodes node) t1)))))"

end
