(* ===== verification/Traffic.thy ===== *)
theory Traffic
  imports Stripe
begin

text \<open>
  What the load accounting of theory Stripe must compute: a repair with a given colouring sends
  each vertex once to every other node that hosts one of its parents. \<open>expected\<close> counts these
  transfers by receiver and by sender; the recount, the incremental update and the look-ahead
  tables are all proved against it.
\<close>

section \<open>The transfers of a colouring\<close>

definition transfers :: "ecdag \<Rightarrow> (int \<Rightarrow> int) \<Rightarrow> (int \<times> int \<times> int) set" where
  \<comment> \<open>(vertex, sending node, receiving node)\<close>
  "transfers g col = {(v, a, b). v \<in> set (node_ids g) \<and> a = col v \<and> b \<in> col ` set (parents_of g v) \<and>
     a \<noteq> -1 \<and> b \<noteq> -1 \<and> a \<noteq> b}"

fun endpoint :: "dir \<Rightarrow> int \<times> int \<times> int \<Rightarrow> int" where
  "endpoint IN (v, a, b) = b"
| "endpoint OUT (v, a, b) = a"

definition expected :: "ecdag \<Rightarrow> (int \<Rightarrow> int) \<Rightarrow> dir \<Rightarrow> int \<Rightarrow> int" where
  "expected g col dr k = int (card {t \<in> transfers g col. endpoint dr t = k})"

definition is_peak :: "(dir \<Rightarrow> int \<Rightarrow> int) \<Rightarrow> int \<Rightarrow> bool" where
  "is_peak f l \<longleftrightarrow> 0 \<le> l \<and> (\<forall>dr k. f dr k \<le> l) \<and> (l = 0 \<or> (\<exists>dr k. f dr k = l))"

definition stats_ok :: "stripe \<Rightarrow> bool" where
  "stats_ok s \<longleftrightarrow> um_wf (s_in s) \<and> um_wf (s_out s) \<and>
     (\<forall>dr k. tab_get (s_in s, s_out s) dr k = expected (s_ecdag s) (color_of (coloring s)) dr k) \<and>
     s_bdwt s = int (card (transfers (s_ecdag s) (color_of (coloring s)))) \<and>
     is_peak (expected (s_ecdag s) (color_of (coloring s))) (s_load s)"

definition colored :: "stripe \<Rightarrow> bool" where
  "colored s \<longleftrightarrow> wf_ecdag (s_ecdag s) \<and> um_wf (coloring s) \<and> set (um_keys (coloring s)) = set (node_ids (s_ecdag s))"

text \<open>The same count, vertex by vertex.\<close>

definition edge :: "int \<Rightarrow> int \<Rightarrow> dir \<Rightarrow> int \<Rightarrow> int" where
  "edge a b dr k = (if a \<noteq> -1 \<and> b \<noteq> -1 \<and> a \<noteq> b then unit_at IN b 1 dr k + unit_at OUT a 1 dr k else 0)"

definition vertex_load :: "ecdag \<Rightarrow> (int \<Rightarrow> int) \<Rightarrow> int \<Rightarrow> dir \<Rightarrow> int \<Rightarrow> int" where
  "vertex_load g col v dr k = (\<Sum>b\<in>col ` set (parents_of g v). edge (col v) b dr k)"

lemma card_transfers:
  "card {t \<in> transfers g col. Q t} =
   (\<Sum>v\<in>set (node_ids g). card {b \<in> col ` set (parents_of g v). col v \<noteq> -1 \<and> b \<noteq> -1 \<and> col v \<noteq> b \<and> Q (v, col v, b)})"
  (is "_ = (\<Sum>v\<in>?V. card (?B v))")
proof -
  have "{t \<in> transfers g col. Q t} = (\<lambda>(v, b). (v, col v, b)) ` (SIGMA v:?V. ?B v)"
    by (auto simp: transfers_def image_iff)
  moreover have "inj_on (\<lambda>(v, b). (v, col v, b)) (SIGMA v:?V. ?B v)"
    by (auto simp: inj_on_def)
  ultimately have "card {t \<in> transfers g col. Q t} = card (SIGMA v:?V. ?B v)"
    by (simp add: card_image)
  then show ?thesis by simp
qed

lemma finite_transfers [simp]: "finite (transfers g col)"
proof -
  have "transfers g col \<subseteq> (\<lambda>(v, b). (v, col v, b)) ` (SIGMA v:set (node_ids g). col ` set (parents_of g v))"
    by (auto simp: transfers_def image_iff)
  then show ?thesis by (rule finite_subset) simp
qed

lemma expected_sum: "expected g col dr k = (\<Sum>v\<in>set (node_ids g). vertex_load g col v dr k)"
proof -
  have "int (card {b \<in> col ` set (parents_of g v). col v \<noteq> -1 \<and> b \<noteq> -1 \<and> col v \<noteq> b \<and> endpoint dr (v, col v, b) = k})
      = vertex_load g col v dr k" for v
    unfolding vertex_load_def card_eq_sum sum.inter_filter [OF finite_imageI [OF finite_set]]
    by (cases dr) (auto simp: edge_def unit_at_def intro!: sum.cong)
  then show ?thesis unfolding expected_def card_transfers by simp
qed

lemma expected_nonneg [simp]: "0 \<le> expected g col dr k"
  by (simp add: expected_def)

lemma expected_total:
  assumes "finite A" and "\<And>k. expected g col IN k \<noteq> 0 \<Longrightarrow> k \<in> A"
  shows "(\<Sum>k\<in>A. expected g col IN k) = int (card (transfers g col))"
proof -
  have "endpoint IN ` transfers g col \<subseteq> A"
  proof
    fix k assume "k \<in> endpoint IN ` transfers g col"
    then have "{t \<in> transfers g col. endpoint IN t = k} \<noteq> {}" by blast
    moreover have "finite {t \<in> transfers g col. endpoint IN t = k}" by simp
    ultimately show "k \<in> A" by (intro assms(2)) (simp add: expected_def card_eq_0_iff)
  qed
  from sum_fun_comp [OF finite_transfers assms(1) this, of "\<lambda>_. 1 :: int"]
  show ?thesis by (simp add: expected_def)
qed

section \<open>Colours\<close>

lemma parent_colors_acc:
  "set (fold (\<lambda>p. add_color (color_of cl p)) ps acc) = set acc \<union> color_of cl ` set ps"
  "distinct acc \<Longrightarrow> distinct (fold (\<lambda>p. add_color (color_of cl p)) ps acc)"
  by (induction ps arbitrary: acc) (auto simp: add_color_def)

lemma parent_colors_props [simp]:
  "set (parent_colors cl ps) = color_of cl ` set ps" "distinct (parent_colors cl ps)"
  "set (parent_color_set cl ps) = color_of cl ` set ps" "distinct (parent_color_set cl ps)"
  by (simp_all add: parent_colors_def parent_color_set_def parent_colors_acc)

lemma touch_id: "set is \<subseteq> set (um_keys cl) \<Longrightarrow> touch is cl = cl"
  unfolding touch_def by (induction "is") (simp_all add: um_has_def)

lemma color_of_put: "color_of (um_put i c cl) = (color_of cl)(i := c)"
  by (auto simp: color_of_def um_get_put)

lemma colored_parents:
  assumes "colored s"
  shows "set (parents_of (s_ecdag s) v) \<subseteq> set (um_keys (coloring s))"
    and "set (children_of (s_ecdag s) v) \<subseteq> set (um_keys (coloring s))"
  using assms dag_okD(4,5) [OF wf_ecdag_ok] by (auto simp: colored_def)

lemma colored_node:
  assumes "colored s" and "(v, c) \<in> set (coloring s)"
  shows "color_of (coloring s) v = c" and "\<exists>n. getNode (s_ecdag s) v = Some n"
proof -
  show "color_of (coloring s) v = c"
    using assms by (simp add: color_of_def colored_def um_get_map_of)
  have "v \<in> set (um_keys (coloring s))" using assms(2) by (force simp: set_um_keys)
  then show "\<exists>n. getNode (s_ecdag s) v = Some n" using assms(1) getNode_iff by (auto simp: colored_def)
qed

lemma getNode_reads:
  assumes "wf_ecdag g" and "getNode g v = Some n"
  shows "nodeId n = v" "parentNodes n = parents_of g v" "childNodes n = children_of g v"
  using assms wf_ecdag_ok [OF assms(1)]
  by (auto simp: dag_ok_def parents_of_def children_of_def)

section \<open>The recount\<close>

lemma bdwt_sum: "bdwt_of m = sum_list (map snd m)"
proof -
  have "fold (\<lambda>item b. b + snd item) m a = a + sum_list (map snd m)" for a
    by (induction m arbitrary: a) auto
  then show ?thesis by (simp add: bdwt_of_def)
qed

lemma fold_peak:
  "fold (\<lambda>item l. if snd item > l then snd item else l) m l = Max (insert (l::int) (snd ` set m))"
proof (induction m arbitrary: l)
  case Nil
  then show ?case by simp
next
  case (Cons p m)
  have "Max (insert (max l (snd p)) (snd ` set m)) = Max (insert l (insert (snd p) (snd ` set m)))"
    by (cases "m = []") (simp_all add: max.assoc)
  moreover have "(if snd p > l then snd p else l) = max l (snd p)" by auto
  ultimately show ?case using Cons by simp
qed

lemma load_max: "load_of inm outm = Max (insert 0 (snd ` set inm \<union> snd ` set outm))"
proof -
  have "Max (insert (Max (insert 0 A)) B) = Max (insert 0 (A \<union> B))" if "finite A" "finite B" for A B :: "int set"
    using that by (cases "B = {}"; cases "A = {}") (simp_all add: Max_Un max.assoc)
  then show ?thesis unfolding load_of_def fold_peak by simp
qed

text \<open>Maps that hold the expected counts yield the expected totals.\<close>

definition counts :: "maps \<Rightarrow> ecdag \<Rightarrow> (int \<Rightarrow> int) \<Rightarrow> bool" where
  "counts m g col \<longleftrightarrow> um_wf (fst m) \<and> um_wf (snd m) \<and> (\<forall>dr k. tab_get m dr k = expected g col dr k)"

lemma countsD:
  assumes "counts m g col"
  shows "um_get 0 (fst m) k = expected g col IN k" "um_get 0 (snd m) k = expected g col OUT k"
proof -
  have "tab_get m dr k = expected g col dr k" for dr using assms by (simp add: counts_def)
  from this [of IN] this [of OUT] show "um_get 0 (fst m) k = expected g col IN k"
    "um_get 0 (snd m) k = expected g col OUT k"
    by (simp_all add: tab_get_def)
qed

lemma counts_item:
  assumes "counts m g col"
  shows "p \<in> set (fst m) \<Longrightarrow> snd p = expected g col IN (fst p)"
    and "p \<in> set (snd m) \<Longrightarrow> snd p = expected g col OUT (fst p)"
proof -
  note get = countsD [OF assms]
  show "snd p = expected g col IN (fst p)" if "p \<in> set (fst m)"
    using um_get_map_of [of "fst m" "fst p" "snd p" 0] that assms get by (simp add: counts_def)
  show "snd p = expected g col OUT (fst p)" if "p \<in> set (snd m)"
    using um_get_map_of [of "snd m" "fst p" "snd p" 0] that assms get by (simp add: counts_def)
qed

lemma counts_bdwt:
  assumes "counts m g col"
  shows "bdwt_of (fst m) = int (card (transfers g col))"
proof -
  let ?A = "set (um_keys (fst m))"
  note get = countsD(1) [OF assms]
  have A: "k \<in> ?A" if "expected g col IN k \<noteq> 0" for k
    using that unfolding get [symmetric]
    by (cases "map_of (fst m) k") (auto simp: um_get_def um_keys_def dest: map_of_SomeD intro: rev_image_eqI)
  have "bdwt_of (fst m) = (\<Sum>k\<in>?A. um_get 0 (fst m) k)"
    unfolding bdwt_sum using assms A get by (intro sum_values) (auto simp: counts_def)
  then show ?thesis using expected_total [OF _ A] by (simp add: get)
qed

lemma counts_peak:
  assumes "counts m g col"
  shows "is_peak (expected g col) (load_of (fst m) (snd m))"
proof -
  let ?S = "snd ` set (fst m) \<union> snd ` set (snd m)"
  have in_S: "expected g col dr k = 0 \<or> expected g col dr k \<in> ?S" for dr k
  proof -
    have "expected g col dr k = tab_get m dr k" using assms by (simp add: counts_def)
    then show ?thesis
      by (cases dr) (force simp: tab_get_def um_get_def split: option.splits dest: map_of_SomeD)+
  qed
  have S_in: "\<exists>dr k. expected g col dr k = l" if "l \<in> ?S" for l
    using that counts_item [OF assms] by auto
  have "expected g col dr k \<le> Max (insert 0 ?S)" for dr k
    using in_S [of dr k] by (auto intro: Max_ge)
  moreover have "Max (insert 0 ?S) \<in> insert 0 ?S" by (rule Max_in) auto
  moreover have "0 \<le> Max (insert 0 ?S)" by (rule Max_ge) auto
  ultimately show ?thesis unfolding is_peak_def load_max using S_in by blast
qed

lemma sum_colors:
  "distinct cs \<Longrightarrow> set cs = col ` set (parents_of g v) \<Longrightarrow>
   (\<Sum>b\<leftarrow>cs. edge (col v) b dr k) = vertex_load g col v dr k"
  by (simp add: vertex_load_def sum_list_distinct_conv_sum_set)

lemma vertex_load_off: "col v = -1 \<Longrightarrow> vertex_load g col v dr k = 0"
  by (simp add: vertex_load_def edge_def)

abbreviation maps_wf :: "maps \<Rightarrow> bool" where
  "maps_wf m \<equiv> um_wf (fst m) \<and> um_wf (snd m)"

lemma effects_count_edge:
  "a \<noteq> -1 \<Longrightarrow> effects tab_get maps_wf (\<lambda>m. Inr (count_edge a b m)) (edge a b)"
  unfolding effects_def count_edge_def edge_def unit_at_def tab_get_def
  by (auto simp: um_get_bump dir_not_IN)

lemma effects_eval_vertex:
  assumes "colored s" and "item \<in> set (coloring s)"
  shows "effects tab_get maps_wf (eval_vertex (s_ecdag s) (coloring s) item)
    (vertex_load (s_ecdag s) (color_of (coloring s)) (fst item))"
proof -
  obtain v c where item: "item = (v, c)" by (cases item)
  note col = colored_node [OF assms(1) assms(2) [unfolded item]]
  show ?thesis
  proof (cases "c = -1")
    case True
    then show ?thesis
      using col(1) by (simp add: item eval_vertex_def [abs_def] vertex_load_off effects_def)
  next
    case False
    from col(2) obtain n where n: "getNode (s_ecdag s) v = Some n" by blast
    let ?pcs = "parent_colors (coloring s) (parentNodes n)"
    have "effects tab_get maps_wf (foldR (\<lambda>b m. Inr (count_edge c b m)) ?pcs) (\<lambda>dr k. \<Sum>b\<leftarrow>?pcs. edge c b dr k)"
      using False by (intro effects_foldR effects_count_edge)
    moreover have "foldR (\<lambda>b m. Inr (count_edge c b m)) ?pcs m = Inr (fold (count_edge c) ?pcs m)" for m
      by (rule foldR_pure) simp
    moreover have "(\<Sum>b\<leftarrow>?pcs. edge c b dr k) = vertex_load (s_ecdag s) (color_of (coloring s)) v dr k" for dr k
      unfolding col(1) [symmetric] using assms(1) getNode_reads [OF _ n]
      by (intro sum_colors) (auto simp: colored_def)
    ultimately show ?thesis
      using False n by (simp add: item eval_vertex_def [abs_def] effects_def)
  qed
qed

lemma sum_over_coloring:
  assumes "colored s"
  shows "(\<Sum>item\<leftarrow>coloring s. vertex_load (s_ecdag s) col (fst item) dr k) = expected (s_ecdag s) col dr k"
proof -
  have "(\<Sum>item\<leftarrow>coloring s. vertex_load (s_ecdag s) col (fst item) dr k) =
      (\<Sum>v\<leftarrow>um_keys (coloring s). vertex_load (s_ecdag s) col v dr k)"
    by (simp add: um_keys_def o_def)
  also have "\<dots> = expected (s_ecdag s) col dr k"
    using assms by (simp add: colored_def sum_list_distinct_conv_sum_set expected_sum)
  finally show ?thesis .
qed

lemma visited_colored:
  assumes "colored s"
  shows "touch (visited_parents (s_ecdag s) (coloring s)) (coloring s) = coloring s"
  using colored_parents(1) [OF assms] by (intro touch_id) (auto simp: visited_parents_def split: if_splits)

lemma stats_ok_counts:
  "stats_ok (s\<lparr>s_in := fst m, s_out := snd m, s_bdwt := bdwt_of (fst m), s_load := load_of (fst m) (snd m),
     coloring := cl\<rparr>)" if "counts m (s_ecdag s) (color_of cl)"
  using that counts_bdwt [OF that] counts_peak [OF that] by (simp add: stats_ok_def counts_def)

lemma evaluateColoring_counts:
  assumes "colored s"
  shows "\<exists>s'. evaluateColoring s = Inr s' \<and> stats_ok s' \<and> coloring s' = coloring s \<and> s_ecdag s' = s_ecdag s"
proof -
  have "effects tab_get maps_wf (foldR (eval_vertex (s_ecdag s) (coloring s)) (coloring s))
      (\<lambda>dr k. \<Sum>item\<leftarrow>coloring s. vertex_load (s_ecdag s) (color_of (coloring s)) (fst item) dr k)"
    by (intro effects_foldR effects_eval_vertex assms)
  from effectsD [OF this, of "([], [])"] obtain m where
    m: "foldR (eval_vertex (s_ecdag s) (coloring s)) (coloring s) ([], []) = Inr m" "maps_wf m"
      "\<And>dr k. tab_get m dr k = expected (s_ecdag s) (color_of (coloring s)) dr k"
    by (auto simp: sum_over_coloring [OF assms] tab_get_def um_get_def)
  then have "counts m (s_ecdag s) (color_of (coloring s))" by (simp add: counts_def)
  from stats_ok_counts [of m s "coloring s", OF this] m(1) show ?thesis
    by (cases m) (simp add: evaluateColoring_def visited_colored [OF assms])
qed

end
