(* ===== verification/Recolor.thy ===== *)
theory Recolor
  imports Traffic
begin

text \<open>
  Moving one vertex to another node: \<open>changeColor\<close> updates the loads in place, \<open>evaluateChange\<close>
  computes the table the move would give, \<open>evalColoringGlobal\<close> adds a stripe's loads to a global
  table (src/src/common/Stripe.cc). Each is proved against \<open>expected\<close> of theory Traffic.
\<close>

section \<open>What a move changes\<close>

text \<open>Only the moved vertex and its children send differently.\<close>

lemma vertex_load_frame:
  assumes "v \<noteq> idx" and "idx \<notin> set (parents_of g v)"
  shows "vertex_load g (col(idx := new)) v dr k = vertex_load g col v dr k"
proof -
  have "(col(idx := new)) ` set (parents_of g v) = col ` set (parents_of g v)"
    using assms(2) by (auto simp: image_iff)
  then show ?thesis using assms(1) by (simp add: vertex_load_def)
qed

lemma topo_from_no_self:
  "topo_from seen ms \<Longrightarrow> distinct (um_keys ms) \<Longrightarrow> set (um_keys ms) \<inter> seen = {} \<Longrightarrow>
   (i, n) \<in> set ms \<Longrightarrow> i \<notin> set (childNodes n)"
proof (induction ms arbitrary: seen)
  case Nil
  then show ?case by simp
next
  case (Cons p ms)
  obtain j m where p: "p = (j, m)" by (cases p)
  show ?case
  proof (cases "(i, n) = p")
    case True
    then show ?thesis using Cons.prems p by auto
  next
    case False
    then show ?thesis
      using Cons.IH [of "insert j seen"] Cons.prems p by (auto simp: set_um_keys)
  qed
qed

lemma no_self_child:
  assumes "wf_ecdag g" shows "i \<notin> set (children_of g i)"
proof (cases "getNode g i")
  case (Some n)
  then have "(i, n) \<in> set (ecNodeMap g)" using assms by (simp add: wf_ecdag_def getNode_mem)
  from topo_from_no_self [OF _ _ _ this, of "{}"] assms Some show ?thesis
    by (simp add: wf_ecdag_def children_of_def)
qed (simp add: children_of_def)

lemma expected_move:
  assumes wf: "wf_ecdag g" and idx: "idx \<in> set (node_ids g)"
  shows "expected g (col(idx := new)) dr k = expected g col dr k
    + (vertex_load g (col(idx := new)) idx dr k - vertex_load g col idx dr k)
    + (\<Sum>c\<leftarrow>children_of g idx. vertex_load g (col(idx := new)) c dr k - vertex_load g col c dr k)"
proof -
  let ?V = "set (node_ids g)" and ?C = "set (children_of g idx)"
  let ?d = "\<lambda>v. vertex_load g (col(idx := new)) v dr k - vertex_load g col v dr k"
  have ok: "dag_ok g" using wf by (rule wf_ecdag_ok)
  have sub: "insert idx ?C \<subseteq> ?V" using idx dag_okD(4) [OF ok] by blast
  have "?d v = 0" if "v \<in> ?V - insert idx ?C" for v
    using that dag_mirror [OF ok, of idx v] by (simp add: vertex_load_frame)
  then have "(\<Sum>v\<in>?V. ?d v) = (\<Sum>v\<in>insert idx ?C. ?d v)"
    using sub by (intro sum.mono_neutral_right) auto
  also have "\<dots> = ?d idx + (\<Sum>c\<leftarrow>children_of g idx. ?d c)"
    using no_self_child [OF wf, of idx] dag_okD(2) [OF ok, of idx]
    by (simp add: sum_list_distinct_conv_sum_set)
  finally show ?thesis unfolding expected_sum by (simp add: sum_subtractf)
qed

text \<open>The moved vertex: its parents stay where they are.\<close>

lemma moved_vertex:
  assumes "wf_ecdag g"
  shows "vertex_load g (col(idx := new)) idx dr k - vertex_load g col idx dr k =
    (\<Sum>b\<in>col ` set (parents_of g idx). edge new b dr k - edge (col idx) b dr k)"
proof -
  have "idx \<notin> set (parents_of g idx)"
    using no_self_child [OF assms] dag_mirror [OF wf_ecdag_ok [OF assms]] by blast
  then have "(col(idx := new)) ` set (parents_of g idx) = col ` set (parents_of g idx)"
    by (auto simp: image_iff)
  then show ?thesis by (simp add: vertex_load_def sum_subtractf)
qed

text \<open>A child of the moved vertex: it may stop sending to the old node and start sending to the new one.\<close>

lemma count_color_0: "count_color cl ps c = 0 \<longleftrightarrow> c \<notin> color_of cl ` set ps"
  by (auto simp: count_color_def filter_empty_conv)

lemma count_color_1:
  assumes "distinct ps" and "idx \<in> set ps" and "color_of cl idx = c"
  shows "count_color cl ps c = 1 \<longleftrightarrow> c \<notin> color_of cl ` (set ps - {idx})"
proof -
  have "count_color cl ps c = card {p \<in> set ps. color_of cl p = c}"
    using assms(1) unfolding count_color_def by (metis distinct_card distinct_filter set_filter)
  also have "{p \<in> set ps. color_of cl p = c} = insert idx {p \<in> set ps - {idx}. color_of cl p = c}"
    using assms(2,3) by auto
  finally have "count_color cl ps c = Suc (card {p \<in> set ps - {idx}. color_of cl p = c})" by simp
  then show ?thesis by auto
qed

lemma moved_child:
  fixes cl :: "int umap"
  defines "col \<equiv> color_of cl"
  assumes wf: "wf_ecdag g" and c: "c \<in> set (children_of g idx)" and ne: "new \<noteq> col idx"
  shows "vertex_load g (col(idx := new)) c dr k - vertex_load g col c dr k =
    (if count_color cl (parents_of g c) new = 0 then edge (col c) new dr k else 0)
    - (if count_color cl (parents_of g c) (col idx) = 1 then edge (col c) (col idx) dr k else 0)"
proof -
  let ?P = "set (parents_of g c)" and ?old = "col idx"
  have ok: "dag_ok g" using wf by (rule wf_ecdag_ok)
  have P: "idx \<in> ?P" "distinct (parents_of g c)" "c \<noteq> idx"
    using c dag_mirror [OF ok, of idx c] dag_okD(3) [OF ok] no_self_child [OF wf, of idx] by auto
  define R where "R = col ` (?P - {idx})"
  have fin: "finite R" by (simp add: R_def)
  have new: "(col(idx := new)) ` ?P = insert new R"
  proof -
    have "(col(idx := new)) ` (?P - {idx}) = R" unfolding R_def by (rule image_cong) auto
    moreover have "?P = insert idx (?P - {idx})" using P(1) by blast
    ultimately show ?thesis by (metis fun_upd_same image_insert)
  qed
  have old: "col ` ?P = insert ?old R" using P(1) by (auto simp: R_def)
  have ins: "(\<Sum>b\<in>insert a R. edge e b dr k) = (\<Sum>b\<in>R. edge e b dr k) + (if a \<in> R then 0 else edge e a dr k)"
    for a e using fin by (simp add: insert_absorb)
  have "count_color cl (parents_of g c) new = 0 \<longleftrightarrow> new \<notin> R"
    unfolding count_color_0 col_def [symmetric] old using ne by blast
  moreover have "count_color cl (parents_of g c) ?old = 1 \<longleftrightarrow> ?old \<notin> R"
    using count_color_1 [OF P(2,1), of cl ?old] by (simp add: col_def R_def)
  moreover have "(col(idx := new)) c = col c" using P(3) by simp
  ultimately show ?thesis unfolding vertex_load_def new old ins by simp
qed

section \<open>changeColor\<close>

lemma edge_0 [simp]: "edge (-1) b dr k = 0" "edge a (-1) dr k = 0" "edge a a dr k = 0"
  by (simp_all add: edge_def)

lemma unit_minus: "unit_at dr k (-1) dr' j = - unit_at dr k 1 dr' j"
  by (simp add: unit_at_def)

lemma effects_change_parent:
  "effects tab_get maps_wf (change_parent old new b) (\<lambda>dr k. edge new b dr k - edge old b dr k)"
  unfolding change_parent_def [abs_def]
  by (rule effects_cong, (rule effects_if maps.effects_add2 effects_skip effects_seq TrueI)+)
    (auto simp: edge_def unit_minus)

lemma effects_change_child:
  assumes "new \<noteq> -1"
  shows "effects tab_get maps_wf (change_child g cl old new c)
    (\<lambda>dr k. (if count_color cl (parents_of g c) new = 0 then edge (color_of cl c) new dr k else 0)
      - (if count_color cl (parents_of g c) old = 1 then edge (color_of cl c) old dr k else 0))"
  unfolding change_child_def [abs_def] Let_def
  by (rule effects_cong, (rule effects_if maps.effects_add2 effects_skip effects_seq TrueI)+)
    (use assms in \<open>auto simp: edge_def unit_minus\<close>)

lemma sum_parent_colors:
  "distinct cs \<Longrightarrow> set cs = color_of cl ` P \<Longrightarrow> (\<Sum>b\<leftarrow>cs. f b) = (\<Sum>b\<in>color_of cl ` P. f b :: int)"
  by (simp add: sum_list_distinct_conv_sum_set)

text \<open>The two loops together turn the counts of the old colouring into those of the new one.\<close>

lemma move_sum:
  fixes cl :: "int umap"
  assumes "wf_ecdag g" and "idx \<in> set (node_ids g)" and "new \<noteq> color_of cl idx"
    and "distinct cs" and "set cs = color_of cl ` set (parents_of g idx)"
  shows "expected g (color_of (um_put idx new cl)) dr k = expected g (color_of cl) dr k
    + (\<Sum>b\<leftarrow>cs. edge new b dr k - edge (color_of cl idx) b dr k)
    + (\<Sum>c\<leftarrow>children_of g idx.
        (if count_color cl (parents_of g c) new = 0 then edge (color_of cl c) new dr k else 0)
        - (if count_color cl (parents_of g c) (color_of cl idx) = 1 then edge (color_of cl c) (color_of cl idx) dr k else 0))"
proof -
  have "(\<Sum>c\<leftarrow>children_of g idx. vertex_load g ((color_of cl)(idx := new)) c dr k - vertex_load g (color_of cl) c dr k) =
    (\<Sum>c\<leftarrow>children_of g idx.
        (if count_color cl (parents_of g c) new = 0 then edge (color_of cl c) new dr k else 0)
        - (if count_color cl (parents_of g c) (color_of cl idx) = 1 then edge (color_of cl c) (color_of cl idx) dr k else 0))"
    using moved_child [OF assms(1) _ assms(3)] by (intro arg_cong [where f = sum_list] map_cong) auto
  then show ?thesis
    unfolding color_of_put expected_move [OF assms(1,2)] moved_vertex [OF assms(1)]
      sum_parent_colors [OF assms(4,5)] by simp
qed

lemma getChildColors_ok:
  assumes "set (childNodes n) \<subseteq> set (um_keys cl)"
  shows "\<exists>cs. getChildColors cl n = Inr cs"
proof -
  have "\<exists>cs. foldR (\<lambda>c ret. bindR (ofOpt OutOfRange (map_of cl c))
      (\<lambda>color. Inr (if color \<noteq> -1 \<and> color \<notin> set ret then ret @ [color] else ret))) (childNodes n) [] = Inr cs \<and> True"
    using assms by (intro foldR_invariant TrueI) (auto simp: subset_iff simp flip: map_of_um_keys)
  then show ?thesis by (simp add: getChildColors_def)
qed

lemma counts_nonneg:
  assumes "counts m g col" shows "all_nonneg (fst m) = Inr ()" "all_nonneg (snd m) = Inr ()"
proof -
  have "list_all (\<lambda>item. 0 \<le> snd item) (fst m)" "list_all (\<lambda>item. 0 \<le> snd item) (snd m)"
    using counts_item [OF assms] by (simp_all add: list_all_iff)
  then show "all_nonneg (fst m) = Inr ()" "all_nonneg (snd m) = Inr ()"
    by (simp_all add: all_nonneg_def)
qed

lemma changeColor_counts:
  assumes col: "colored s" and st: "stats_ok s" and idx: "idx \<in> set (node_ids (s_ecdag s))"
    and new: "new \<noteq> -1" "new \<noteq> color_of (coloring s) idx"
  shows "\<exists>s'. changeColor idx new s = Inr s' \<and> stats_ok s' \<and> colored s' \<and>
    coloring s' = um_put idx new (coloring s) \<and> s_ecdag s' = s_ecdag s"
proof -
  let ?g = "s_ecdag s" and ?cl = "coloring s"
  let ?old = "color_of ?cl idx"
  have wf: "wf_ecdag ?g" using col by (simp add: colored_def)
  obtain n where n: "getNode ?g idx = Some n" using idx getNode_iff by blast
  note rd = getNode_reads [OF wf n]
  let ?pcs = "parent_colors ?cl (parents_of ?g idx)"
  let ?E = "\<lambda>dr k. (\<Sum>b\<leftarrow>?pcs. edge new b dr k - edge ?old b dr k)"
  let ?F = "\<lambda>dr k. (\<Sum>c\<leftarrow>children_of ?g idx.
      (if count_color ?cl (parents_of ?g c) new = 0 then edge (color_of ?cl c) new dr k else 0)
      - (if count_color ?cl (parents_of ?g c) ?old = 1 then edge (color_of ?cl c) ?old dr k else 0))"
  have eff: "effects tab_get maps_wf (foldR (change_parent ?old new) ?pcs) ?E"
    "effects tab_get maps_wf (foldR (change_child ?g ?cl ?old new) (children_of ?g idx)) ?F"
    by (intro effects_foldR effects_change_parent effects_change_child new(1))+
  have m0: "maps_wf (s_in s, s_out s)" using st by (simp add: stats_ok_def)
  from effectsD [OF eff(1) m0] obtain m1 where
    m1: "foldR (change_parent ?old new) ?pcs (s_in s, s_out s) = Inr m1" "maps_wf m1"
      "\<And>dr k. tab_get m1 dr k = tab_get (s_in s, s_out s) dr k + ?E dr k" by blast
  from effectsD [OF eff(2) m1(2)] obtain m2 where
    m2: "foldR (change_child ?g ?cl ?old new) (children_of ?g idx) m1 = Inr m2" "maps_wf m2"
      "\<And>dr k. tab_get m2 dr k = tab_get m1 dr k + ?F dr k" by blast
  have "tab_get m2 dr k = expected ?g (color_of (um_put idx new ?cl)) dr k" for dr k
    using st m1(3) m2(3) move_sum [OF wf idx new(2), of ?pcs] by (simp add: stats_ok_def)
  then have cnt: "counts m2 ?g (color_of (um_put idx new ?cl))" using m2(2) by (simp add: counts_def)
  have keys: "set (nodeId n # parentNodes n) \<subseteq> set (um_keys ?cl)"
    "set (childNodes n) \<subseteq> set (um_keys ?cl)"
    "set (child_reads ?g ?cl (childNodes n)) \<subseteq> set (um_keys ?cl)"
    using colored_parents [OF col] idx col rd
    by (auto simp: child_reads_def colored_def split: if_splits)
  obtain cs where cs: "getChildColors ?cl n = Inr cs" using getChildColors_ok [OF keys(2)] by blast
  let ?s' = "s\<lparr>s_in := fst m2, s_out := snd m2, s_bdwt := bdwt_of (fst m2),
      s_load := load_of (fst m2) (snd m2), coloring := um_put idx new ?cl\<rparr>"
  have "changeColor idx new s = Inr ?s'"
    using m1(1) m2(1) counts_nonneg [OF cnt] cs n rd
    by (simp add: changeColor_def touch_id [OF keys(1) [unfolded rd]] touch_id [OF keys(3) [unfolded rd]])
  moreover have "colored ?s'"
    using col idx by (auto simp: colored_def um_keys_put)
  ultimately show ?thesis using stats_ok_counts [OF cnt] by auto
qed

section \<open>evaluateChange\<close>

text \<open>The tables: reading them back from the maps, and the same two loops on rows.\<close>

lemma vt_set_law:
  assumes "rows_ok n t" and "0 \<le> k" and "nat k < n"
  shows "\<exists>t'. vt_set dr k v t = Inr t' \<and> rows_ok n t' \<and>
    (\<forall>dr' j. vt_get t' dr' j = (if dr' = dr \<and> j = k then v else vt_get t dr' j))"
proof -
  have eq: "vt_set dr k v t = vt_add dr k (v - vt_get t dr k) t"
    using assms by (simp add: vt_set_def vt_add_def vt_get_def rows_ok_def)
  from rows.add_law [OF assms(1), of k dr "v - vt_get t dr k"] assms(2,3) eq show ?thesis
    by auto
qed

lemma fill_rows:
  "um_wf m \<Longrightarrow> rows_ok n t \<Longrightarrow> (\<And>k. k \<in> set (um_keys m) \<Longrightarrow> 0 \<le> k \<and> nat k < n) \<Longrightarrow>
   \<exists>t'. foldR (\<lambda>it. vt_set dr (fst it) (snd it)) m t = Inr t' \<and> rows_ok n t' \<and>
     (\<forall>dr' j. vt_get t' dr' j = (if dr' = dr \<and> j \<in> set (um_keys m) then um_get 0 m j else vt_get t dr' j))"
proof (induction m arbitrary: t)
  case Nil
  then show ?case by simp
next
  case (Cons p m)
  obtain k v where p: "p = (k, v)" by (cases p)
  from vt_set_law [OF Cons.prems(2), of k dr v] Cons.prems(3) [of k] obtain t1 where
    t1: "vt_set dr k v t = Inr t1" "rows_ok n t1"
      "\<And>dr' j. vt_get t1 dr' j = (if dr' = dr \<and> j = k then v else vt_get t dr' j)"
    by (auto simp: p)
  from Cons.IH [OF _ t1(2)] Cons.prems obtain t2 where
    "foldR (\<lambda>it. vt_set dr (fst it) (snd it)) m t1 = Inr t2" "rows_ok n t2"
    "\<And>dr' j. vt_get t2 dr' j = (if dr' = dr \<and> j \<in> set (um_keys m) then um_get 0 m j else vt_get t1 dr' j)"
    by (auto simp: p)
  with t1 Cons.prems(1) show ?case by (auto simp: p um_get_def)
qed

definition in_range :: "int \<Rightarrow> int \<Rightarrow> bool" where
  "in_range n k \<longleftrightarrow> 0 \<le> k \<and> k < n"

definition tables_in_range :: "int \<Rightarrow> stripe \<Rightarrow> bool" where
  \<comment> \<open>every node that occurs in the stripe is a row of the table\<close>
  "tables_in_range n s \<longleftrightarrow> 0 \<le> n \<and>
     list_all (in_range n) (um_keys (s_in s)) \<and> list_all (in_range n) (um_keys (s_out s)) \<and>
     list_all (\<lambda>item. snd item = -1 \<or> in_range n (snd item)) (coloring s)"

lemma load_rows_ok:
  assumes "um_wf (s_in s)" "um_wf (s_out s)" "tables_in_range n s"
  shows "\<exists>t. load_rows n (s_in s) (s_out s) = Inr t \<and> rows_ok (nat n) t \<and>
    (\<forall>dr k. vt_get t dr k = tab_get (s_in s, s_out s) dr k)"
proof -
  let ?t0 = "replicate (nat n) [0, 0] :: rows"
  have t0: "rows_ok (nat n) ?t0" "vt_get ?t0 dr k = 0" for dr k
    by (cases dr; auto simp: rows_ok_def vt_get_def list_all_iff)+
  have r: "\<And>k. k \<in> set (um_keys (s_in s)) \<Longrightarrow> 0 \<le> k \<and> nat k < nat n"
    "\<And>k. k \<in> set (um_keys (s_out s)) \<Longrightarrow> 0 \<le> k \<and> nat k < nat n"
    using assms(3) by (auto simp: tables_in_range_def in_range_def list_all_iff)
  obtain t1 where
    t1: "foldR (\<lambda>it. vt_set IN (fst it) (snd it)) (s_in s) ?t0 = Inr t1" "rows_ok (nat n) t1"
      "\<And>dr j. vt_get t1 dr j = (if dr = IN \<and> j \<in> set (um_keys (s_in s)) then um_get 0 (s_in s) j else 0)"
    using fill_rows [where dr = IN, OF assms(1) t0(1) r(1)] unfolding t0(2) by blast
  obtain t2 where
    t2: "foldR (\<lambda>it. vt_set OUT (fst it) (snd it)) (s_out s) t1 = Inr t2" "rows_ok (nat n) t2"
      "\<And>dr j. vt_get t2 dr j = (if dr = OUT \<and> j \<in> set (um_keys (s_out s)) then um_get 0 (s_out s) j else vt_get t1 dr j)"
    using fill_rows [where dr = OUT, OF assms(2) t1(2) r(2)] by blast
  have absent: "um_get 0 m j = 0" if "j \<notin> set (um_keys m)" for j and m :: "int umap"
    using that map_of_um_keys [of m j] by (cases "map_of m j") (auto simp: um_get_def)
  have "vt_get t2 dr k = tab_get (s_in s, s_out s) dr k" for dr k
    using t1(3) t2(3) by (cases dr) (auto simp: tab_get_def absent)
  with t1 t2 show ?thesis by (auto simp: load_rows_def)
qed

lemma effects_change_parent_rows:
  assumes "old = -1 \<or> in_range n old" "b = -1 \<or> in_range n b" "in_range n new"
  shows "effects vt_get (rows_ok (nat n)) (change_parent_rows old new b) (\<lambda>dr k. edge new b dr k - edge old b dr k)"
  unfolding change_parent_rows_def [abs_def]
  by (rule effects_cong, (rule effects_if rows.effects_add2 effects_skip effects_seq |
        use assms in \<open>force simp: in_range_def\<close>)+)
    (use assms in \<open>auto simp: edge_def unit_minus in_range_def\<close>)

lemma effects_change_child_rows:
  assumes "old = -1 \<or> in_range n old" "color_of cl c = -1 \<or> in_range n (color_of cl c)" "in_range n new"
  shows "effects vt_get (rows_ok (nat n)) (change_child_rows g cl old new c)
    (\<lambda>dr k. (if count_color cl (parents_of g c) new = 0 then edge (color_of cl c) new dr k else 0)
      - (if count_color cl (parents_of g c) old = 1 then edge (color_of cl c) old dr k else 0))"
  unfolding change_child_rows_def [abs_def] Let_def
  by (rule effects_cong, (rule effects_if rows.effects_add2 effects_skip effects_seq |
        use assms in \<open>force simp: in_range_def\<close>)+)
    (use assms in \<open>auto simp: edge_def unit_minus in_range_def\<close>)

text \<open>The rows a colouring should give.\<close>

definition expected_rows :: "int \<Rightarrow> ecdag \<Rightarrow> (int \<Rightarrow> int) \<Rightarrow> rows" where
  "expected_rows n g col = map (\<lambda>k. [expected g col OUT k, expected g col IN k]) (map int [0..<nat n])"

lemma rows_eq:
  assumes "rows_ok (nat n) t" and "\<And>dr k. vt_get t dr k = expected g col dr k"
  shows "t = expected_rows n g col"
proof (rule nth_equalityI)
  show "length t = length (expected_rows n g col)" using assms(1) by (simp add: rows_ok_def expected_rows_def)
next
  fix i assume i: "i < length t"
  then have len: "length (t ! i) = 2" "i < nat n" using assms(1) by (auto simp: rows_ok_def list_all_length)
  have "t ! i = [vt_get t OUT (int i), vt_get t IN (int i)]"
    using len(1) i by (auto simp: vt_get_def length_Suc_conv numeral_2_eq_2)
  then show "t ! i = expected_rows n g col ! i"
    using len(2) assms(2) by (simp add: expected_rows_def)
qed

lemma color_in_range:
  assumes "tables_in_range n s"
  shows "color_of (coloring s) v = -1 \<or> color_of (coloring s) v = 0 \<or> in_range n (color_of (coloring s) v)"
  using assms by (auto simp: tables_in_range_def color_of_def um_get_def list_all_iff
      split: option.splits dest!: map_of_SomeD)

lemma evaluateChange_rows:
  assumes col: "colored s" and st: "stats_ok s" and idx: "idx \<in> set (node_ids (s_ecdag s))"
    and new: "in_range n new" "new \<noteq> color_of (coloring s) idx" and rng: "tables_in_range n s"
  shows "evaluateChange n idx new s = Inr (expected_rows n (s_ecdag s) (color_of (um_put idx new (coloring s))))"
proof -
  let ?g = "s_ecdag s" and ?cl = "coloring s"
  let ?old = "color_of ?cl idx"
  have wf: "wf_ecdag ?g" using col by (simp add: colored_def)
  obtain n' where n: "getNode ?g idx = Some n'" using idx getNode_iff by blast
  note rd = getNode_reads [OF wf n]
  have ir: "color_of ?cl v = -1 \<or> in_range n (color_of ?cl v)" for v
    using color_in_range [OF rng, of v] new(1) by (auto simp: in_range_def)
  let ?pcs = "parent_color_set ?cl (parents_of ?g idx)"
  let ?E = "\<lambda>dr k. (\<Sum>b\<leftarrow>?pcs. edge new b dr k - edge ?old b dr k)"
  let ?F = "\<lambda>dr k. (\<Sum>c\<leftarrow>children_of ?g idx.
      (if count_color ?cl (parents_of ?g c) new = 0 then edge (color_of ?cl c) new dr k else 0)
      - (if count_color ?cl (parents_of ?g c) ?old = 1 then edge (color_of ?cl c) ?old dr k else 0))"
  have "b = -1 \<or> in_range n b" if "b \<in> set ?pcs" for b using that ir by auto
  then have eff: "effects vt_get (rows_ok (nat n)) (foldR (change_parent_rows ?old new) ?pcs) ?E"
    "effects vt_get (rows_ok (nat n)) (foldR (change_child_rows ?g ?cl ?old new) (children_of ?g idx)) ?F"
    by (intro effects_foldR effects_change_parent_rows effects_change_child_rows ir new(1); blast)+
  from load_rows_ok [OF _ _ rng] st obtain t0 where
    t0: "load_rows n (s_in s) (s_out s) = Inr t0" "rows_ok (nat n) t0"
      "\<And>dr k. vt_get t0 dr k = expected ?g (color_of ?cl) dr k"
    by (auto simp: stats_ok_def)
  from effectsD [OF eff(1) t0(2)] obtain t1 where
    t1: "foldR (change_parent_rows ?old new) ?pcs t0 = Inr t1" "rows_ok (nat n) t1"
      "\<And>dr k. vt_get t1 dr k = vt_get t0 dr k + ?E dr k" by blast
  from effectsD [OF eff(2) t1(2)] obtain t2 where
    t2: "foldR (change_child_rows ?g ?cl ?old new) (children_of ?g idx) t1 = Inr t2" "rows_ok (nat n) t2"
      "\<And>dr k. vt_get t2 dr k = vt_get t1 dr k + ?F dr k" by blast
  have "vt_get t2 dr k = expected ?g (color_of (um_put idx new ?cl)) dr k" for dr k
    using t0(3) t1(3) t2(3) move_sum [OF wf idx new(2), of ?pcs] by simp
  from rows_eq [OF t2(2) this] have t2': "t2 = expected_rows n ?g (color_of (um_put idx new ?cl))" .
  have keys: "set (idx # parents_of ?g idx) \<subseteq> set (um_keys ?cl)" "set (childNodes n') \<subseteq> set (um_keys ?cl)"
    using colored_parents [OF col] idx col rd by (auto simp: colored_def)
  obtain cs where "getChildColors ?cl n' = Inr cs" using getChildColors_ok [OF keys(2)] by blast
  then show ?thesis
    using t0(1) t1(1) t2(1) n rd by (simp add: evaluateChange_def touch_id [OF keys(1)] t2')
qed

section \<open>evalColoringGlobal\<close>

lemma colored_color_in_range:
  assumes "colored s" and "list_all (\<lambda>item. snd item = -1 \<or> in_range n (snd item)) (coloring s)"
    and "v \<in> set (node_ids (s_ecdag s))"
  shows "color_of (coloring s) v = -1 \<or> in_range n (color_of (coloring s) v)"
proof -
  obtain c where c: "(v, c) \<in> set (coloring s)"
    using assms(1,3) map_of_um_keys [of "coloring s" v] by (auto simp: colored_def dest: map_of_SomeD)
  with colored_node(1) [OF assms(1) c] assms(2) show ?thesis by (auto simp: list_all_iff)
qed

lemma effects_global_vertex:
  assumes col: "colored s" and item: "item \<in> set (coloring s)"
    and rng: "list_all (\<lambda>item. snd item = -1 \<or> in_range n (snd item)) (coloring s)"
  shows "effects vt_get (rows_ok (nat n)) (global_vertex (s_ecdag s) (coloring s) item)
    (vertex_load (s_ecdag s) (color_of (coloring s)) (fst item))"
proof -
  obtain v c where vc: "item = (v, c)" by (cases item)
  note cv = colored_node [OF col item [unfolded vc]]
  show ?thesis
  proof (cases "c = -1")
    case True
    then show ?thesis
      using cv(1) by (simp add: vc global_vertex_def [abs_def] vertex_load_off effects_def)
  next
    case False
    from cv(2) obtain m where m: "getNode (s_ecdag s) v = Some m" by blast
    let ?pcs = "parent_colors (coloring s) (parentNodes m)"
    have wf: "wf_ecdag (s_ecdag s)" using col by (simp add: colored_def)
    note rd = getNode_reads [OF wf m]
    have c: "in_range n c" using item rng False by (auto simp: vc list_all_iff)
    have b: "b = -1 \<or> in_range n b" if "b \<in> set ?pcs" for b
      using that rd dag_okD(5) [OF wf_ecdag_ok [OF wf], of v] colored_color_in_range [OF col rng] by auto
    have step: "effects vt_get (rows_ok (nat n))
        (\<lambda>t. if c \<noteq> b \<and> b \<noteq> -1 then bindR (vt_add OUT c 1 t) (vt_add IN b 1) else Inr t) (edge c b)"
      if "b \<in> set ?pcs" for b
      by (rule effects_cong, (rule effects_if rows.effects_add2 effects_skip |
            use b [OF that] c in \<open>force simp: in_range_def\<close>)+)
        (use False in \<open>auto simp: edge_def\<close>)
    have "effects vt_get (rows_ok (nat n))
        (foldR (\<lambda>b t. if c \<noteq> b \<and> b \<noteq> -1 then bindR (vt_add OUT c 1 t) (vt_add IN b 1) else Inr t) ?pcs)
        (\<lambda>dr k. \<Sum>b\<leftarrow>?pcs. edge c b dr k)"
      by (intro effects_foldR step)
    moreover have "(\<Sum>b\<leftarrow>?pcs. edge c b dr k) = vertex_load (s_ecdag s) (color_of (coloring s)) v dr k" for dr k
      unfolding cv(1) [symmetric] using rd by (intro sum_colors) auto
    ultimately show ?thesis
      using False m by (simp add: vc global_vertex_def [abs_def] effects_def split_def fst_conv snd_conv cong: if_cong)
  qed
qed

lemma evalColoringGlobal_effects:
  assumes "colored s" and "list_all (\<lambda>item. snd item = -1 \<or> in_range n (snd item)) (coloring s)"
  shows "effects vt_get (rows_ok (nat n)) (evalColoringGlobal s) (expected (s_ecdag s) (color_of (coloring s)))"
proof -
  have "effects vt_get (rows_ok (nat n)) (foldR (global_vertex (s_ecdag s) (coloring s)) (coloring s))
      (\<lambda>dr k. \<Sum>item\<leftarrow>coloring s. vertex_load (s_ecdag s) (color_of (coloring s)) (fst item) dr k)"
    by (intro effects_foldR effects_global_vertex assms)
  then show ?thesis
    by (simp add: sum_over_coloring [OF assms(1)] evalColoringGlobal_def [abs_def])
qed

lemma is_peak_unique: "is_peak f l \<Longrightarrow> is_peak f l' \<Longrightarrow> l = l'"
  unfolding is_peak_def by (metis order_antisym)

section \<open>Properties\<close>

definition sample_stripe :: stripe where
  "sample_stripe = (new_stripe 0 [0, 1, 2, 3])\<lparr>s_ecdag := sample_dag,
     coloring := [(0, 0), (1, 1), (2, 2), (4, 2), (9, 3)]\<rparr>"

lemma sample_ids: "set (node_ids sample_dag) = {0, 1, 2, 4, 9}"
proof -
  note J = wf_Join(1,2) [OF wf_new_ecdag, of 4 "[0, 1]" "[1, 1]"]
  have "set (node_ids new_ecdag) = {}" by (simp add: new_ecdag_def)
  with J wf_Join(2) [of "Join 4 [0, 1] [1, 1] new_ecdag" 9 "[4, 2]" "[1, 1]"]
  show ?thesis unfolding sample_dag_def by auto
qed

lemma colored_sample: "colored sample_stripe"
  using wf_sample_dag by (auto simp: colored_def sample_stripe_def new_stripe_def sample_ids)

text \<open>C9: \<open>Stripe::evaluateColoring\<close> counts what the repair sends: with every vertex coloured it
  never faults and leaves the colouring alone; for each node \<open>_in\<close> and \<open>_out\<close> are the numbers of
  transfers it receives and sends (each vertex goes once to every other node hosting one of its
  parents, shortened vertices excepted), \<open>_bdwt\<close> is the total and \<open>_load\<close> the peak.\<close>

theorem evaluateColoring_correct:
  assumes "colored s"
  shows "\<exists>s'. evaluateColoring s = Inr s' \<and> coloring s' = coloring s \<and> s_ecdag s' = s_ecdag s \<and>
    (\<forall>k. um_get 0 (s_in s') k = int (card {(v, a, b) \<in> transfers (s_ecdag s) (color_of (coloring s)). b = k})) \<and>
    (\<forall>k. um_get 0 (s_out s') k = int (card {(v, a, b) \<in> transfers (s_ecdag s) (color_of (coloring s)). a = k})) \<and>
    s_bdwt s' = int (card (transfers (s_ecdag s) (color_of (coloring s)))) \<and>
    is_peak (expected (s_ecdag s) (color_of (coloring s))) (s_load s')"
proof -
  obtain s' where s': "evaluateColoring s = Inr s'" "stats_ok s'" "coloring s' = coloring s" "s_ecdag s' = s_ecdag s"
    using evaluateColoring_counts [OF assms] by blast
  have "{(v, a, b) \<in> transfers g col. b = k} = {t \<in> transfers g col. endpoint IN t = k}"
    "{(v, a, b) \<in> transfers g col. a = k} = {t \<in> transfers g col. endpoint OUT t = k}" for g col k
    by auto
  moreover have "tab_get (s_in s', s_out s') dr k = expected (s_ecdag s) (color_of (coloring s)) dr k" for dr k
    using s' by (simp add: stats_ok_def)
  from this [of IN] this [of OUT]
  have "um_get 0 (s_in s') k = expected (s_ecdag s) (color_of (coloring s)) IN k"
    "um_get 0 (s_out s') k = expected (s_ecdag s) (color_of (coloring s)) OUT k" for k
    by (simp_all add: tab_get_def)
  ultimately show ?thesis using s' by (simp add: stats_ok_def expected_def)
qed

lemma evaluateColoring_correct_witness: "\<exists>s'. evaluateColoring sample_stripe = Inr s'"
  using evaluateColoring_correct [OF colored_sample] by blast

text \<open>C8: \<open>Stripe::changeColor\<close> is an exact incremental update: if the loads are those of the
  current colouring and a vertex moves to a different real node, no assertion fails, exactly that
  vertex is recoloured, and \<open>_in\<close>, \<open>_out\<close>, \<open>_bdwt\<close> and \<open>_load\<close> are those of the new colouring.\<close>

theorem changeColor_correct:
  assumes "colored s" and "stats_ok s" and "idx \<in> set (node_ids (s_ecdag s))"
    and "new \<noteq> -1" and "new \<noteq> color_of (coloring s) idx"
  shows "\<exists>s'. changeColor idx new s = Inr s' \<and> stats_ok s' \<and> colored s' \<and>
    coloring s' = um_put idx new (coloring s) \<and> s_ecdag s' = s_ecdag s"
  using assms by (rule changeColor_counts)

lemma sample_move:
  obtains s where "evaluateColoring sample_stripe = Inr s" "colored s" "stats_ok s"
    "coloring s = coloring sample_stripe" "s_ecdag s = sample_dag"
  using evaluateColoring_counts [OF colored_sample] colored_sample
  by (auto simp: colored_def sample_stripe_def)

lemma changeColor_correct_witness:
  "\<exists>s s'. evaluateColoring sample_stripe = Inr s \<and> changeColor 4 3 s = Inr s' \<and> stats_ok s'"
proof -
  obtain s where s: "evaluateColoring sample_stripe = Inr s" "colored s" "stats_ok s"
    "coloring s = coloring sample_stripe" "s_ecdag s = sample_dag" by (rule sample_move)
  have "4 \<in> set (node_ids (s_ecdag s))" "3 \<noteq> color_of (coloring s) 4"
    by (simp_all add: s sample_ids) (simp add: sample_stripe_def color_of_def um_get_def)
  from changeColor_correct [OF s(2,3) this(1) _ this(2)] s(1) show ?thesis by auto
qed

text \<open>C34: \<open>Stripe::evaluateChange\<close> predicts a move without making it: its table is, row by row, the
  loads that \<open>evaluateColoring\<close> would count after recolouring that one vertex.\<close>

theorem evaluateChange_correct:
  assumes "colored s" and "stats_ok s" and "idx \<in> set (node_ids (s_ecdag s))"
    and "in_range n new" and "new \<noteq> color_of (coloring s) idx" and "tables_in_range n s"
  shows "evaluateChange n idx new s =
    Inr (map (\<lambda>k. [expected (s_ecdag s) ((color_of (coloring s))(idx := new)) OUT k,
                   expected (s_ecdag s) ((color_of (coloring s))(idx := new)) IN k]) (map int [0..<nat n]))"
  using evaluateChange_rows [OF assms] by (simp add: expected_rows_def color_of_put)

definition sample_eval :: stripe where
  "sample_eval = sample_stripe\<lparr>s_in := [(2, 2), (3, 2)], s_out := [(0, 1), (1, 1), (2, 2)], s_bdwt := 4, s_load := 2\<rparr>"

lemma sample_eval: "evaluateColoring sample_stripe = Inr sample_eval"
  by code_simp

lemma sample_eval_ok: "colored sample_eval" "stats_ok sample_eval"
  using sample_move [of "stats_ok sample_eval"] sample_move [of "colored sample_eval"] by (simp_all add: sample_eval)

lemma evaluateChange_correct_witness: "\<exists>t. evaluateChange 4 4 3 sample_eval = Inr t"
proof -
  have "4 \<in> set (node_ids (s_ecdag sample_eval))" "in_range 4 3" "3 \<noteq> color_of (coloring sample_eval) 4"
    "tables_in_range 4 sample_eval"
    by (simp_all add: sample_eval_def sample_stripe_def sample_ids in_range_def color_of_def um_get_def tables_in_range_def)
  from evaluateChange_correct [OF sample_eval_ok this] show ?thesis by blast
qed

text \<open>\<open>Stripe::evalColoringGlobal\<close> adds exactly the stripe's own transfers to the global load
  table, for any table that has a row for every node of the colouring.\<close>

theorem evalColoringGlobal_adds:
  assumes "colored s" and "rows_ok (nat n) t"
    and "list_all (\<lambda>item. snd item = -1 \<or> in_range n (snd item)) (coloring s)"
  shows "\<exists>t'. evalColoringGlobal s t = Inr t' \<and> rows_ok (nat n) t' \<and>
    (\<forall>dr k. vt_get t' dr k = vt_get t dr k + expected (s_ecdag s) (color_of (coloring s)) dr k)"
  using effectsD [OF evalColoringGlobal_effects [OF assms(1,3)] assms(2)] by simp

lemma evalColoringGlobal_adds_witness:
  "\<exists>t. evalColoringGlobal sample_stripe (replicate 4 [5, 7]) = Inr t"
proof -
  have "list_all (\<lambda>item. snd item = -1 \<or> in_range 4 (snd item)) (coloring sample_stripe)"
    by (simp add: sample_stripe_def in_range_def)
  moreover have "rows_ok (nat 4) (replicate 4 [5, 7])" by (simp add: rows_ok_def list_all_iff)
  ultimately show ?thesis using evalColoringGlobal_adds [OF colored_sample] by blast
qed

text \<open>Histories of a stripe: a recount, then any number of moves to other real nodes.\<close>

inductive recolored :: "stripe \<Rightarrow> stripe \<Rightarrow> bool" where
  recount: "evaluateColoring s = Inr t \<Longrightarrow> recolored s t"
| move: "recolored s t \<Longrightarrow> idx \<in> set (node_ids (s_ecdag t)) \<Longrightarrow> new \<noteq> -1 \<Longrightarrow>
    new \<noteq> color_of (coloring t) idx \<Longrightarrow> changeColor idx new t = Inr u \<Longrightarrow> recolored s u"

inductive_cases recolored_elim: "recolored s t"

lemma recolored_inv: "recolored s t \<Longrightarrow> colored s \<Longrightarrow> colored t \<and> stats_ok t \<and> s_ecdag t = s_ecdag s"
proof (induction rule: recolored.induct)
  case (recount s t)
  then show ?case using evaluateColoring_counts [of s] by (auto simp: colored_def)
next
  case (move s t idx new u)
  then show ?case using changeColor_counts [of t idx new] by auto
qed

text \<open>After any history of moves the incremental loads never drift: counting again from
  scratch gives the same \<open>_bdwt\<close>, the same \<open>_load\<close> and the same \<open>_in\<close> and \<open>_out\<close> for every node.\<close>

theorem moves_never_drift:
  assumes "recolored s t" and "colored s"
  shows "\<exists>u. evaluateColoring t = Inr u \<and> s_bdwt u = s_bdwt t \<and> s_load u = s_load t \<and>
    (\<forall>dr k. tab_get (s_in u, s_out u) dr k = tab_get (s_in t, s_out t) dr k)"
proof -
  have t: "colored t" "stats_ok t" using recolored_inv [OF assms] by auto
  obtain u where u: "evaluateColoring t = Inr u" "stats_ok u" "coloring u = coloring t" "s_ecdag u = s_ecdag t"
    using evaluateColoring_counts [OF t(1)] by blast
  have "l = l'" if "is_peak f l" "is_peak f l'" for f l l'
    using that unfolding is_peak_def by (metis order_antisym)
  with t(2) u show ?thesis by (auto simp: stats_ok_def)
qed

lemma moves_never_drift_witness:
  "\<exists>t u. recolored sample_stripe t \<and> coloring t \<noteq> coloring sample_stripe \<and> evaluateColoring t = Inr u"
proof -
  have m: "recolored sample_stripe sample_eval" by (rule recolored.recount) (rule sample_eval)
  have pre: "4 \<in> set (node_ids (s_ecdag sample_eval))" "3 \<noteq> color_of (coloring sample_eval) 4"
    by (simp_all add: sample_eval_def sample_stripe_def sample_ids color_of_def um_get_def)
  obtain t where t: "changeColor 4 3 sample_eval = Inr t" "coloring t = um_put 4 3 (coloring sample_eval)"
    using changeColor_counts [OF sample_eval_ok pre(1) _ pre(2)] by auto
  have "recolored sample_stripe t" by (rule recolored.move [OF m pre(1) _ pre(2) t(1)]) simp
  moreover have "coloring t \<noteq> coloring sample_stripe"
    unfolding t(2) by (simp add: sample_eval_def sample_stripe_def um_put_def)
  ultimately show ?thesis using moves_never_drift [OF _ colored_sample] by blast
qed

text \<open>\<open>changeColor2\<close> swaps sender and receiver for the children of a vertex that already has a
  node: on a stripe whose loads are right, a move that \<open>changeColor\<close> accounts for correctly makes
  a count of \<open>changeColor2\<close> negative and its assertion abort.\<close>

theorem changeColor2_aborts:
  "(\<exists>s'. changeColor 4 3 sample_eval = Inr s' \<and> s_bdwt s' = 3) \<and>
   changeColor2 4 3 sample_eval = Inl AssertFailed"
proof -
  have "map_sum id s_bdwt (changeColor 4 3 sample_eval) = Inr 3" by code_simp
  moreover have "changeColor2 4 3 sample_eval = Inl AssertFailed" by code_simp
  ultimately show ?thesis by (cases "changeColor 4 3 sample_eval") auto
qed

end
