(* ===== verification/Batch.thy ===== *)
theory Batch
  imports Recolor
begin

text \<open>
  Batches of stripes that are repaired together: class \<open>RepairBatch\<close> (src/src/sol/RepairBatch.cc),
  its load accounting. The commands a batch sends are in theory Dispatch.

  A batch holds pointers to stripes of the coordinator's list. A pointer is an index into that
  list, \<open>st\<close> below, so that a batch sees later updates of its stripes. \<open>_bdwt\<close> and \<open>_load\<close> are not
  initialised by the constructor; the model sets them to 0 and no property reads them before
  \<open>evaluateBatch\<close> or \<open>push\<close> has.
\<close>

section \<open>The batch\<close>

record repair_batch =
  rb_id :: int
  rb_stripes :: "int list"
  rb_in :: "int umap"
  rb_out :: "int umap"
  rb_bdwt :: int
  rb_load :: int

definition new_RepairBatch :: "int \<Rightarrow> int list \<Rightarrow> repair_batch" where
  "new_RepairBatch batchid stripes =
     \<lparr>rb_id = batchid, rb_stripes = stripes, rb_in = [], rb_out = [], rb_bdwt = 0, rb_load = 0\<rparr>"

definition nodes_upto :: "int \<Rightarrow> int list" where
  "nodes_upto n = map int [0..<nat n]"

definition add_counts :: "int \<Rightarrow> int umap \<Rightarrow> int umap \<Rightarrow> int umap" where
  "add_counts n sm m = fold (\<lambda>nodeid. um_bump nodeid (um_get 0 sm nodeid)) (nodes_upto n) m"

definition add_stripe :: "stripe list \<Rightarrow> int \<Rightarrow> int \<Rightarrow> maps \<Rightarrow> maps res" where
  "add_stripe st n p m =
     bindR (vget st p) (\<lambda>s. Inr (add_counts n (getInMap s) (fst m), add_counts n (getOutMap s) (snd m)))"

definition evaluateBatch :: "stripe list \<Rightarrow> int \<Rightarrow> repair_batch \<Rightarrow> repair_batch res" where
  "evaluateBatch st n b =
     bindR (foldR (add_stripe st n) (rb_stripes b) ([], [])) (\<lambda>(inm, outm).
       let peak = (\<lambda>m l. fold (\<lambda>i l. if um_get 0 m i > l then um_get 0 m i else l) (nodes_upto n) l)
       in Inr (b\<lparr>rb_in := inm, rb_out := outm, rb_bdwt := fold (\<lambda>i c. c + um_get 0 inm i) (nodes_upto n) 0,
                 rb_load := peak outm (peak inm 0)\<rparr>))"

definition getStripeList :: "repair_batch \<Rightarrow> int list" where
  "getStripeList b = rb_stripes b"

definition getInputMap :: "repair_batch \<Rightarrow> int umap" where
  "getInputMap b = rb_in b"

definition getOutputMap :: "repair_batch \<Rightarrow> int umap" where
  "getOutputMap b = rb_out b"

definition getBatchLoad :: "repair_batch \<Rightarrow> int" where
  "getBatchLoad b = rb_load b"

definition getBatchBdwt :: "repair_batch \<Rightarrow> int" where
  "getBatchBdwt b = rb_bdwt b"

definition getBatchId :: "repair_batch \<Rightarrow> int" where
  "getBatchId b = rb_id b"

definition add_rows :: "stripe list \<Rightarrow> int \<Rightarrow> rows \<Rightarrow> rows res" where
  "add_rows st p t =
     bindR (vget st p) (\<lambda>s.
     bindR (foldR (\<lambda>it. vt_add IN (fst it) (snd it)) (getInMap s) t)
       (foldR (\<lambda>it. vt_add OUT (fst it) (snd it)) (getOutMap s)))"

definition getLoadTable :: "stripe list \<Rightarrow> int \<Rightarrow> repair_batch \<Rightarrow> rows res" where
  "getLoadTable st n b = foldR (add_rows st) (rb_stripes b) (replicate (nat n) [0, 0])"

definition erase_stripe :: "int \<Rightarrow> repair_batch \<Rightarrow> repair_batch" where
  "erase_stripe p b = b\<lparr>rb_stripes := removeAll p (rb_stripes b)\<rparr>"

definition push_stripe :: "stripe list \<Rightarrow> int \<Rightarrow> repair_batch \<Rightarrow> repair_batch res" where
  "push_stripe st p b =
     bindR (vget st p) (\<lambda>s.
       let inm = fold (\<lambda>it. um_bump (fst it) (snd it)) (getInMap s) (rb_in b);
           outm = fold (\<lambda>it. um_bump (fst it) (snd it)) (getOutMap s) (rb_out b)
       in Inr (b\<lparr>rb_stripes := rb_stripes b @ [p], rb_in := inm, rb_out := outm,
                 rb_bdwt := fold (\<lambda>it c. c + snd it) inm 0,
                 rb_load := fold (\<lambda>it l. max l (snd it)) outm (fold (\<lambda>it l. max l (snd it)) inm 0)\<rparr>))"

definition pop_stripe :: "repair_batch \<Rightarrow> (int \<times> repair_batch) res" where
  "pop_stripe b =
     (if rb_stripes b = [] then Inl BadIndex
      else Inr (last (rb_stripes b), b\<lparr>rb_stripes := butlast (rb_stripes b)\<rparr>))"

definition dump_batch_load :: "int \<Rightarrow> repair_batch \<Rightarrow> repair_batch" where
  \<comment> \<open>\<open>dumpLoad\<close>: printing \<open>_in[i]\<close> and \<open>_out[i]\<close> inserts the missing nodes\<close>
  "dump_batch_load n b = b\<lparr>rb_in := touch (nodes_upto n) (rb_in b), rb_out := touch (nodes_upto n) (rb_out b)\<rparr>"

section \<open>Sums over the stripes of a batch\<close>

lemma set_nodes_upto: "set (nodes_upto n) = {0..<n}"
  by (auto simp: nodes_upto_def image_iff intro!: bexI [of _ "nat x" for x])

lemma distinct_nodes_upto [simp]: "distinct (nodes_upto n)"
  by (simp add: nodes_upto_def distinct_map)

definition batch_at :: "stripe list \<Rightarrow> int list \<Rightarrow> dir \<Rightarrow> int \<Rightarrow> int" where
  \<comment> \<open>what the stripes of a batch say of a node, together\<close>
  "batch_at st ps dr k = (\<Sum>p\<leftarrow>ps. tab_get (s_in (st ! nat p), s_out (st ! nat p)) dr k)"

definition pointers_ok :: "stripe list \<Rightarrow> int list \<Rightarrow> bool" where
  "pointers_ok st ps \<longleftrightarrow> list_all (\<lambda>p. 0 \<le> p \<and> nat p < length st) ps"

lemma bump_all:
  assumes "um_wf m"
  shows "um_wf (fold (\<lambda>i. um_bump i (f i)) is m)"
    and "um_get 0 (fold (\<lambda>i. um_bump i (f i)) is m) k = um_get 0 m k + (\<Sum>i\<leftarrow>is. if i = k then f i else 0)"
  using assms by (induction "is" arbitrary: m) (auto simp: um_get_bump)

lemma sum_pick: "distinct is \<Longrightarrow> (\<Sum>i\<leftarrow>is. if i = k then f i else 0) = (if k \<in> set is then f k else (0::int))"
  by (induction "is") auto

lemma add_counts:
  assumes "um_wf m"
  shows "um_wf (add_counts n sm m)"
    and "um_get 0 (add_counts n sm m) k = um_get 0 m k + (if k \<in> {0..<n} then um_get 0 sm k else 0)"
  using bump_all [OF assms, of "um_get 0 sm" "nodes_upto n"] sum_pick [of "nodes_upto n" k "um_get 0 sm"]
  by (simp_all add: add_counts_def set_nodes_upto)

lemma add_stripe_effects:
  assumes "0 \<le> p" "nat p < length st"
  shows "effects tab_get (\<lambda>m. um_wf (fst m) \<and> um_wf (snd m)) (add_stripe st n p)
    (\<lambda>dr k. if k \<in> {0..<n} then tab_get (s_in (st ! nat p), s_out (st ! nat p)) dr k else 0)"
  unfolding effects_def
proof (intro allI impI)
  fix m :: maps assume m: "um_wf (fst m) \<and> um_wf (snd m)"
  let ?s = "st ! nat p"
  let ?m = "(add_counts n (s_in ?s) (fst m), add_counts n (s_out ?s) (snd m))"
  have "tab_get ?m dr k = tab_get m dr k + (if k \<in> {0..<n} then tab_get (s_in ?s, s_out ?s) dr k else 0)" for dr k
    using m by (simp add: tab_get_def add_counts)
  then show "\<exists>m'. add_stripe st n p m = Inr m' \<and> (um_wf (fst m') \<and> um_wf (snd m')) \<and>
      (\<forall>dr k. tab_get m' dr k = tab_get m dr k + (if k \<in> {0..<n} then tab_get (s_in ?s, s_out ?s) dr k else 0))"
    using assms m by (intro exI [of _ ?m]) (simp add: add_stripe_def getInMap_def getOutMap_def add_counts)
qed

lemma batch_effects:
  assumes "pointers_ok st ps"
  shows "effects tab_get (\<lambda>m. um_wf (fst m) \<and> um_wf (snd m)) (foldR (add_stripe st n) ps)
    (\<lambda>dr k. if k \<in> {0..<n} then batch_at st ps dr k else 0)"
proof -
  have "effects tab_get (\<lambda>m. um_wf (fst m) \<and> um_wf (snd m)) (foldR (add_stripe st n) ps)
    (\<lambda>dr k. \<Sum>p\<leftarrow>ps. if k \<in> {0..<n} then tab_get (s_in (st ! nat p), s_out (st ! nat p)) dr k else 0)"
    using assms by (intro effects_foldR add_stripe_effects) (auto simp: pointers_ok_def list_all_iff)
  moreover have "(\<Sum>p\<leftarrow>ps. if k \<in> {0..<n} then tab_get (s_in (st ! nat p), s_out (st ! nat p)) dr k else 0) =
      (if k \<in> {0..<n} then batch_at st ps dr k else 0)" for dr k
    by (induction ps) (simp_all add: batch_at_def)
  ultimately show ?thesis by simp
qed

lemma fold_add: "fold (\<lambda>i c. c + f i) is c = c + (\<Sum>i\<leftarrow>is. f i)" for c :: int
  by (induction "is" arbitrary: c) auto

lemma fold_greater: "fold (\<lambda>i l. if f i > l then f i else l) is l = Max (insert (l::int) (f ` set is))"
  using fold_peak [of "map (\<lambda>i. (0::int, f i)) is" l] by (simp add: fold_map o_def image_image if_distrib cong: if_cong)

lemma sum_items: "um_wf m \<Longrightarrow> (\<Sum>it\<leftarrow>m. if fst it = k then snd it else 0) = um_get (0::int) m k"
proof (induction m)
  case (Cons it m)
  have "um_get 0 m (fst it) = 0" using Cons.prems by (auto simp: um_get_def um_keys_def map_of_eq_None_iff [THEN iffD2])
  with Cons show ?case by (cases it) (auto simp: um_get_def)
qed (simp add: um_get_def)

lemma bump_items:
  assumes "um_wf m"
  shows "um_wf (fold (\<lambda>it. um_bump (fst it) (snd it)) u m)"
    and "um_wf u \<Longrightarrow> um_get 0 (fold (\<lambda>it. um_bump (fst it) (snd it)) u m) k = um_get 0 m k + um_get (0::int) u k"
proof -
  have "um_wf (fold (\<lambda>it. um_bump (fst it) (snd it)) u m) \<and>
      um_get 0 (fold (\<lambda>it. um_bump (fst it) (snd it)) u m) k = um_get 0 m k + (\<Sum>it\<leftarrow>u. if fst it = k then snd it else 0)"
    using assms by (induction u arbitrary: m) (auto simp: um_get_bump)
  then show "um_wf (fold (\<lambda>it. um_bump (fst it) (snd it)) u m)"
    and "um_wf u \<Longrightarrow> um_get 0 (fold (\<lambda>it. um_bump (fst it) (snd it)) u m) k = um_get 0 m k + um_get 0 u k"
    by (simp_all add: sum_items)
qed

lemma Max_insert_Max: "finite A \<Longrightarrow> finite B \<Longrightarrow> Max (insert (Max (insert x A)) B) = Max (insert x (A \<union> B))" for x :: int
  by (cases "B = {}"; cases "A = {}") (simp_all add: Max_Un max.assoc)

lemma fold_max: "fold (\<lambda>it l. max l (snd it)) m l = Max (insert (l::int) (snd ` set m))"
proof -
  have "max l (snd it) = (if snd it > l then snd it else l)" for l :: int and it :: "'a \<times> int" by simp
  then show ?thesis unfolding fold_peak [symmetric] by simp
qed

lemma add_items_effects:
  assumes "um_wf m" and "\<And>k. k \<in> set (um_keys m) \<Longrightarrow> in_range n k"
  shows "effects vt_get (rows_ok (nat n)) (foldR (\<lambda>it. vt_add dr (fst it) (snd it)) m)
    (\<lambda>dr' k. if dr' = dr then um_get 0 m k else 0)"
proof -
  have "effects vt_get (rows_ok (nat n)) (foldR (\<lambda>it. vt_add dr (fst it) (snd it)) m)
      (\<lambda>dr' k. \<Sum>it\<leftarrow>m. unit_at dr (fst it) (snd it) dr' k)"
  proof (intro effects_foldR rows.effects_add)
    fix it assume "it \<in> set m"
    then have "in_range n (fst it)" using assms(2) by (simp add: set_um_keys)
    then show "0 \<le> fst it \<and> nat (fst it) < nat n" by (simp add: in_range_def)
  qed
  moreover have "(\<Sum>it\<leftarrow>m. unit_at dr (fst it) (snd it) dr' k) = (if dr' = dr then um_get 0 m k else 0)" for dr' k
  proof (cases "dr' = dr")
    case True
    then have "unit_at dr (fst it) (snd it) dr' k = (if fst it = k then snd it else 0)" for it :: "int \<times> int"
      by (auto simp: unit_at_def)
    with True sum_items [OF assms(1), of k] show ?thesis by simp
  next
    case False
    then show ?thesis by (induction m) (simp_all add: unit_at_def)
  qed
  ultimately show ?thesis by simp
qed

lemma add_rows_effects:
  assumes "0 \<le> p" "nat p < length st" and "stats_ok (st ! nat p)" and "tables_in_range n (st ! nat p)"
  shows "effects vt_get (rows_ok (nat n)) (add_rows st p)
    (\<lambda>dr k. expected (s_ecdag (st ! nat p)) (color_of (coloring (st ! nat p))) dr k)"
proof -
  let ?s = "st ! nat p"
  have wf: "um_wf (s_in ?s)" "um_wf (s_out ?s)"
    and get: "\<And>dr k. tab_get (s_in ?s, s_out ?s) dr k = expected (s_ecdag ?s) (color_of (coloring ?s)) dr k"
    using assms(3) by (simp_all add: stats_ok_def)
  have r: "\<And>k. k \<in> set (um_keys (s_in ?s)) \<Longrightarrow> in_range n k" "\<And>k. k \<in> set (um_keys (s_out ?s)) \<Longrightarrow> in_range n k"
    using assms(4) by (auto simp: tables_in_range_def list_all_iff)
  have "effects vt_get (rows_ok (nat n)) (add_rows st p) (\<lambda>dr k. (if dr = IN then um_get 0 (s_in ?s) k else 0) +
      (if dr = OUT then um_get 0 (s_out ?s) k else 0))"
    unfolding add_rows_def vget_ok [OF assms(1,2)] bindR_Inr getInMap_def getOutMap_def
    using wf r by (intro effects_seq add_items_effects)
  then show ?thesis
  proof (rule effects_cong)
    fix dr k
    show "(if dr = IN then um_get 0 (s_in ?s) k else 0) + (if dr = OUT then um_get 0 (s_out ?s) k else 0) =
        expected (s_ecdag ?s) (color_of (coloring ?s)) dr k"
      unfolding get [symmetric] by (cases dr) (simp_all add: tab_get_def)
  qed
qed

text \<open>Two tables of the same size with the same cells are the same table.\<close>

lemma rows_same:
  assumes "rows_ok n t" and "rows_ok n t'" and "\<And>dr k. vt_get t dr k = vt_get t' dr k"
  shows "t = t'"
proof (rule nth_equalityI)
  show "length t = length t'" using assms(1,2) by (simp add: rows_ok_def)
  fix i assume i: "i < length t"
  then have len: "length (t ! i) = 2" "length (t' ! i) = 2" "i < length t'"
    using assms(1,2) by (auto simp: rows_ok_def list_all_length)
  have "t ! i ! dir_index dr = t' ! i ! dir_index dr" for dr
    using assms(3) [of dr "int i"] i len(3) by (simp add: vt_get_def)
  from this [of IN] this [of OUT] have e: "t ! i ! 1 = t' ! i ! 1" "t ! i ! 0 = t' ! i ! 0" by simp_all
  show "t ! i = t' ! i"
  proof (rule nth_equalityI)
    fix j assume "j < length (t ! i)"
    then have "j = 0 \<or> j = 1" using len by auto
    then show "t ! i ! j = t' ! i ! j" using e by auto
  qed (use len in simp)
qed

section \<open>Peaks\<close>

lemma peak_of_maps:
  assumes "um_wf (fst m)" and "um_wf (snd m)"
  shows "is_peak (tab_get m) (Max (insert 0 (snd ` set (fst m) \<union> snd ` set (snd m))))"
proof -
  let ?S = "snd ` set (fst m) \<union> snd ` set (snd m)"
  have val: "tab_get m dr k = 0 \<or> tab_get m dr k \<in> ?S" for dr k
  proof -
    have "um_get 0 u k = 0 \<or> um_get 0 u k \<in> snd ` set u" for u :: "int umap"
      by (cases "map_of u k") (auto simp: um_get_def dest!: map_of_SomeD intro: rev_image_eqI)
    then show ?thesis by (cases dr) (auto simp: tab_get_def)
  qed
  have hit: "\<exists>dr k. tab_get m dr k = v" if v: "v \<in> ?S" for v
  proof -
    from v consider k where "(k, v) \<in> set (fst m)" | k where "(k, v) \<in> set (snd m)" by force
    then show ?thesis
    proof cases
      case 1
      then have "tab_get m IN k = v" using assms(1) by (simp add: tab_get_def um_get_map_of)
      then show ?thesis by blast
    next
      case 2
      then have "tab_get m OUT k = v" using assms(2) by (simp add: tab_get_def um_get_map_of)
      then show ?thesis by blast
    qed
  qed
  have fin: "finite (insert 0 ?S)" by simp
  have "Max (insert 0 ?S) \<in> insert 0 ?S" by (rule Max_in) simp_all
  then have "Max (insert 0 ?S) = 0 \<or> (\<exists>dr k. tab_get m dr k = Max (insert 0 ?S))" using hit by blast
  moreover have "tab_get m dr k \<le> Max (insert 0 ?S)" for dr k
    using val [of dr k] by (intro Max_ge [OF fin]) auto
  ultimately show ?thesis unfolding is_peak_def using Max_ge [OF fin, of 0] by simp
qed

lemma peak_of_nodes:
  "is_peak (\<lambda>dr k. if k \<in> {0..<n} then f dr k else 0)
     (Max (insert (Max (insert 0 (f IN ` {0..<n}))) (f OUT ` {0..<n})))" (is "is_peak ?f ?M")
proof -
  let ?S = "f IN ` {0..<n} \<union> f OUT ` {0..<n}"
  have fin: "finite (insert 0 ?S)" by simp
  have M: "?M = Max (insert 0 ?S)"
    by (cases "{0..<n} = {}") (auto simp: Max_Un max.assoc)
  have "?f dr k \<in> insert 0 ?S" for dr k by (cases dr) auto
  then have "?f dr k \<le> Max (insert 0 ?S)" for dr k by (rule Max_ge [OF fin])
  moreover have "Max (insert 0 ?S) \<in> insert 0 ?S" by (rule Max_in) simp_all
  then have "Max (insert 0 ?S) = 0 \<or> (\<exists>dr k. ?f dr k = Max (insert 0 ?S))" by fastforce
  ultimately show ?thesis unfolding is_peak_def M using Max_ge [OF fin, of 0] by simp
qed

lemma evaluateBatch_ok:
  assumes "pointers_ok st (rb_stripes b)"
  shows "\<exists>b'. evaluateBatch st n b = Inr b' \<and> rb_stripes b' = rb_stripes b \<and> um_wf (rb_in b') \<and> um_wf (rb_out b') \<and>
    (\<forall>dr k. tab_get (rb_in b', rb_out b') dr k = (if k \<in> {0..<n} then batch_at st (rb_stripes b) dr k else 0)) \<and>
    rb_bdwt b' = (\<Sum>k\<in>{0..<n}. batch_at st (rb_stripes b) IN k) \<and>
    is_peak (\<lambda>dr k. if k \<in> {0..<n} then batch_at st (rb_stripes b) dr k else 0) (rb_load b')"
proof -
  let ?at = "\<lambda>dr k. if k \<in> {0..<n} then batch_at st (rb_stripes b) dr k else 0"
  obtain m where m: "foldR (add_stripe st n) (rb_stripes b) ([], []) = Inr m" "um_wf (fst m)" "um_wf (snd m)"
    "\<And>dr k. tab_get m dr k = tab_get ([], []) dr k + ?at dr k"
    using effectsD [OF batch_effects [OF assms, of n], of "([], [])"] by auto
  have get: "tab_get m dr k = ?at dr k" for dr k
    unfolding m(4) by (simp add: tab_get_def um_get_def)
  have get': "um_get 0 (fst m) k = ?at IN k" "um_get 0 (snd m) k = ?at OUT k" for k
    using get [of IN k] get [of OUT k] by (simp_all add: tab_get_def)
  let ?peak = "\<lambda>m l. fold (\<lambda>i l. if um_get 0 m i > l then um_get 0 m i else l) (nodes_upto n) l"
  have img: "um_get 0 (fst m) ` {0..<n} = batch_at st (rb_stripes b) IN ` {0..<n}"
    "um_get 0 (snd m) ` {0..<n} = batch_at st (rb_stripes b) OUT ` {0..<n}"
    by (intro image_cong refl; simp add: get')+
  have "?peak (snd m) (?peak (fst m) 0) =
      Max (insert (Max (insert 0 (batch_at st (rb_stripes b) IN ` {0..<n}))) (batch_at st (rb_stripes b) OUT ` {0..<n}))"
    unfolding fold_greater set_nodes_upto img ..
  then have load: "is_peak ?at (?peak (snd m) (?peak (fst m) 0))" using peak_of_nodes by simp
  have "fold (\<lambda>i c. c + um_get 0 (fst m) i) (nodes_upto n) 0 = (\<Sum>i\<leftarrow>nodes_upto n. um_get 0 (fst m) i)"
    by (simp add: fold_add)
  also have "\<dots> = (\<Sum>k\<in>{0..<n}. um_get 0 (fst m) k)"
    by (simp add: sum_list_distinct_conv_sum_set set_nodes_upto)
  also have "\<dots> = (\<Sum>k\<in>{0..<n}. batch_at st (rb_stripes b) IN k)"
    by (intro sum.cong) (simp_all add: get')
  finally have bdwt: "fold (\<lambda>i c. c + um_get 0 (fst m) i) (nodes_upto n) 0 = \<dots>" .
  have "evaluateBatch st n b = Inr (b\<lparr>rb_in := fst m, rb_out := snd m,
      rb_bdwt := fold (\<lambda>i c. c + um_get 0 (fst m) i) (nodes_upto n) 0, rb_load := ?peak (snd m) (?peak (fst m) 0)\<rparr>)"
    by (simp add: evaluateBatch_def m(1) case_prod_beta Let_def)
  moreover have "\<forall>dr k. tab_get (fst m, snd m) dr k = ?at dr k" using get by simp
  ultimately show ?thesis using m(2,3) load bdwt by (intro exI conjI) (assumption | simp)+
qed

section \<open>Properties\<close>

text \<open>\<open>RepairBatch::evaluateBatch\<close> adds up its stripes: for every node below \<open>num_agents\<close> the
  batch's tables hold the sum of the stripes' entries and nothing for other nodes, \<open>_bdwt\<close> is the
  total received and \<open>_load\<close> the peak over all nodes and both directions.\<close>

theorem evaluateBatch_correct:
  assumes "pointers_ok st (rb_stripes b)"
  shows "\<exists>b'. evaluateBatch st n b = Inr b' \<and> rb_stripes b' = rb_stripes b \<and>
    (\<forall>dr k. tab_get (rb_in b', rb_out b') dr k = (if k \<in> {0..<n} then batch_at st (rb_stripes b) dr k else 0)) \<and>
    rb_bdwt b' = (\<Sum>k\<in>{0..<n}. batch_at st (rb_stripes b) IN k) \<and>
    is_peak (\<lambda>dr k. if k \<in> {0..<n} then batch_at st (rb_stripes b) dr k else 0) (rb_load b')"
  using evaluateBatch_ok [OF assms] by blast

lemma evaluateBatch_correct_witness:
  "\<exists>b. evaluateBatch [sample_eval, sample_eval] 4 (new_RepairBatch 0 [1, 0]) = Inr b"
proof -
  have "pointers_ok [sample_eval, sample_eval] (rb_stripes (new_RepairBatch 0 [1, 0]))"
    by (simp add: pointers_ok_def new_RepairBatch_def)
  from evaluateBatch_correct [OF this] show ?thesis by blast
qed

text \<open>\<open>RepairBatch::getLoadTable\<close> agrees with the other way to build the same table: adding the
  stripes' stored maps gives, row by row, what adding each stripe's colouring to an empty table by
  \<open>Stripe::evalColoringGlobal\<close> gives, when the stripes' maps are up to date.\<close>

theorem getLoadTable_recounts:
  assumes "pointers_ok st (rb_stripes b)"
    and "\<And>p. p \<in> set (rb_stripes b) \<Longrightarrow>
      colored (st ! nat p) \<and> stats_ok (st ! nat p) \<and> tables_in_range n (st ! nat p)"
  shows "\<exists>t. getLoadTable st n b = Inr t \<and>
    foldR (\<lambda>p t. bindR (vget st p) (\<lambda>s. evalColoringGlobal s t)) (rb_stripes b) (replicate (nat n) [0, 0]) = Inr t"
proof -
  let ?ps = "rb_stripes b" and ?zero = "replicate (nat n) [0, 0] :: rows"
  let ?D = "\<lambda>dr k. \<Sum>p\<leftarrow>?ps. expected (s_ecdag (st ! nat p)) (color_of (coloring (st ! nat p))) dr k"
  have p: "0 \<le> p" "nat p < length st" if "p \<in> set ?ps" for p
    using that assms(1) by (auto simp: pointers_ok_def list_all_iff)
  have z: "rows_ok (nat n) ?zero" by (simp add: rows_ok_def list_all_iff)
  have "effects vt_get (rows_ok (nat n)) (foldR (add_rows st) ?ps) ?D"
    using p assms(2) by (intro effects_foldR add_rows_effects) auto
  from effectsD [OF this z] obtain t where t: "getLoadTable st n b = Inr t" "rows_ok (nat n) t"
    "\<And>dr k. vt_get t dr k = vt_get ?zero dr k + ?D dr k" by (auto simp: getLoadTable_def)
  have "effects vt_get (rows_ok (nat n)) (foldR (\<lambda>p t. bindR (vget st p) (\<lambda>s. evalColoringGlobal s t)) ?ps) ?D"
  proof (intro effects_foldR)
    fix p assume p': "p \<in> set ?ps"
    let ?s = "st ! nat p"
    have "list_all (\<lambda>item. snd item = -1 \<or> in_range n (snd item)) (coloring ?s)"
      using assms(2) [OF p'] by (simp add: tables_in_range_def)
    then show "effects vt_get (rows_ok (nat n)) (\<lambda>t. bindR (vget st p) (\<lambda>s. evalColoringGlobal s t))
        (\<lambda>dr k. expected (s_ecdag ?s) (color_of (coloring ?s)) dr k)"
      unfolding vget_ok [OF p [OF p']] bindR_Inr
      using evalColoringGlobal_effects [of ?s n] assms(2) [OF p'] by blast
  qed
  from effectsD [OF this z] obtain t' where t':
    "foldR (\<lambda>p t. bindR (vget st p) (\<lambda>s. evalColoringGlobal s t)) ?ps ?zero = Inr t'" "rows_ok (nat n) t'"
    "\<And>dr k. vt_get t' dr k = vt_get ?zero dr k + ?D dr k" by auto
  have "t = t'" using rows_same [OF t(2) t'(2)] t(3) t'(3) by simp
  with t(1) t'(1) show ?thesis by blast
qed

lemma sample_eval_range: "tables_in_range 4 sample_eval"
  by (simp add: tables_in_range_def sample_eval_def sample_stripe_def in_range_def)

lemma getLoadTable_recounts_witness:
  "\<exists>t. getLoadTable [sample_eval] 4 (new_RepairBatch 0 [0, 0]) = Inr t"
  using getLoadTable_recounts [where st = "[sample_eval]" and b = "new_RepairBatch 0 [0, 0]" and n = 4] sample_eval_ok sample_eval_range
  by (auto simp: pointers_ok_def new_RepairBatch_def)

text \<open>\<open>RepairBatch::push\<close> keeps a batch's statistics in step: pushing a stripe whose nodes are in
  range onto an evaluated batch leaves the tables, \<open>_bdwt\<close> and \<open>_load\<close> that evaluating the longer
  batch from scratch would give.\<close>

theorem push_stripe_correct:
  assumes "pointers_ok st (p # rb_stripes b)" and "evaluateBatch st n b = Inr b1"
    and "um_wf (s_in (st ! nat p))" and "um_wf (s_out (st ! nat p))"
    and "list_all (in_range n) (um_keys (s_in (st ! nat p)))" and "list_all (in_range n) (um_keys (s_out (st ! nat p)))"
  shows "\<exists>b2 b3. push_stripe st p b1 = Inr b2 \<and> evaluateBatch st n (b\<lparr>rb_stripes := rb_stripes b @ [p]\<rparr>) = Inr b3 \<and>
    rb_stripes b2 = rb_stripes b3 \<and> (\<forall>dr k. tab_get (rb_in b2, rb_out b2) dr k = tab_get (rb_in b3, rb_out b3) dr k) \<and>
    rb_bdwt b2 = rb_bdwt b3 \<and> rb_load b2 = rb_load b3"
proof -
  let ?s = "st ! nat p" and ?ps = "rb_stripes b"
  have ok: "pointers_ok st ?ps" "pointers_ok st (?ps @ [p])" "0 \<le> p" "nat p < length st"
    using assms(1) by (auto simp: pointers_ok_def)
  obtain b1' where "evaluateBatch st n b = Inr b1'" "rb_stripes b1' = ?ps" "um_wf (rb_in b1')" "um_wf (rb_out b1')"
    "\<And>dr k. tab_get (rb_in b1', rb_out b1') dr k = (if k \<in> {0..<n} then batch_at st ?ps dr k else 0)"
    using evaluateBatch_ok [OF ok(1), of n] by blast
  with assms(2) have b1: "rb_stripes b1 = ?ps" "um_wf (rb_in b1)" "um_wf (rb_out b1)"
    "\<And>dr k. tab_get (rb_in b1, rb_out b1) dr k = (if k \<in> {0..<n} then batch_at st ?ps dr k else 0)" by auto
  let ?at = "\<lambda>dr k. if k \<in> {0..<n} then batch_at st (?ps @ [p]) dr k else 0"
  have sel: "rb_stripes (b\<lparr>rb_stripes := ?ps @ [p]\<rparr>) = ?ps @ [p]" by simp
  obtain b3 where b3: "evaluateBatch st n (b\<lparr>rb_stripes := ?ps @ [p]\<rparr>) = Inr b3" "rb_stripes b3 = ?ps @ [p]"
    "\<And>dr k. tab_get (rb_in b3, rb_out b3) dr k = ?at dr k"
    "rb_bdwt b3 = (\<Sum>k\<in>{0..<n}. batch_at st (?ps @ [p]) IN k)" "is_peak ?at (rb_load b3)"
    using evaluateBatch_ok [of st "b\<lparr>rb_stripes := ?ps @ [p]\<rparr>" n, unfolded sel, OF ok(2)] by blast
  let ?bump = "\<lambda>u m. fold (\<lambda>it. um_bump (fst it) (snd it)) u m :: int umap"
  let ?m = "(?bump (s_in ?s) (rb_in b1), ?bump (s_out ?s) (rb_out b1))"
  have wf: "um_wf (fst ?m)" "um_wf (snd ?m)" using b1(2,3) by (simp_all add: bump_items)
  have zero: "um_get 0 (s_in ?s) k = 0" "um_get 0 (s_out ?s) k = 0" if "k \<notin> {0..<n}" for k
  proof -
    have "k \<notin> set (um_keys (s_in ?s))" "k \<notin> set (um_keys (s_out ?s))"
      using that assms(5,6) by (auto simp: list_all_iff in_range_def)
    then show "um_get 0 (s_in ?s) k = 0" "um_get 0 (s_out ?s) k = 0"
      by (simp_all add: um_get_def set_um_keys map_of_eq_None_iff [THEN iffD2])
  qed
  have at: "tab_get ?m dr k = ?at dr k" for dr k
  proof -
    have "tab_get ?m dr k = tab_get (rb_in b1, rb_out b1) dr k + tab_get (s_in ?s, s_out ?s) dr k"
      using b1(2,3) assms(3,4) by (cases dr) (simp_all add: tab_get_def bump_items)
    moreover have "tab_get (s_in ?s, s_out ?s) dr k = 0" if "k \<notin> {0..<n}"
      using zero [OF that] by (simp add: tab_get_def)
    ultimately show ?thesis unfolding b1(4) batch_at_def by auto
  qed
  define b2 where "b2 = b1\<lparr>rb_stripes := ?ps @ [p], rb_in := fst ?m, rb_out := snd ?m,
    rb_bdwt := fold (\<lambda>it c. c + snd it) (fst ?m) 0,
    rb_load := fold (\<lambda>it l. max l (snd it)) (snd ?m) (fold (\<lambda>it l. max l (snd it)) (fst ?m) 0)\<rparr>"
  have "push_stripe st p b1 = Inr b2"
    using ok(3,4) by (simp add: push_stripe_def b2_def b1(1) getInMap_def getOutMap_def Let_def)
  moreover have "rb_bdwt b2 = rb_bdwt b3"
  proof -
    have "rb_bdwt b2 = sum_list (map snd (fst ?m))" by (simp add: b2_def fold_add)
    also have "\<dots> = (\<Sum>k\<in>{0..<n}. um_get 0 (fst ?m) k)"
    proof (rule sum_values [OF wf(1)])
      fix k assume "um_get 0 (fst ?m) k \<noteq> 0"
      then show "k \<in> {0..<n}" using at [of IN k] by (simp add: tab_get_def split: if_splits)
    qed simp
    also have "\<dots> = (\<Sum>k\<in>{0..<n}. batch_at st (?ps @ [p]) IN k)"
      using at [of IN] by (intro sum.cong) (simp_all add: tab_get_def)
    finally show ?thesis using b3(4) by simp
  qed
  moreover have "rb_load b2 = rb_load b3"
  proof (rule is_peak_unique [OF _ b3(5)])
    have "rb_load b2 = Max (insert 0 (snd ` set (fst ?m) \<union> snd ` set (snd ?m)))"
      by (simp add: b2_def fold_max Max_insert_Max)
    then have "is_peak (tab_get ?m) (rb_load b2)" using peak_of_maps [OF wf] by simp
    moreover have "tab_get ?m = ?at" by (intro ext at)
    ultimately show "is_peak ?at (rb_load b2)" by simp
  qed
  moreover have "tab_get (rb_in b2, rb_out b2) dr k = tab_get (rb_in b3, rb_out b3) dr k" for dr k
    using at by (simp add: b2_def b3(3))
  ultimately show ?thesis using b3(1,2) by (auto simp: b2_def)
qed

lemma push_stripe_correct_witness:
  "\<exists>b1 b2. evaluateBatch [sample_eval] 4 (new_RepairBatch 0 [0]) = Inr b1 \<and> push_stripe [sample_eval] 0 b1 = Inr b2"
proof -
  obtain b1 where b1: "evaluateBatch [sample_eval] 4 (new_RepairBatch 0 [0]) = Inr b1"
    using evaluateBatch_ok [of "[sample_eval]" "new_RepairBatch 0 [0]" 4] by (auto simp: pointers_ok_def new_RepairBatch_def)
  have "pointers_ok [sample_eval] (0 # rb_stripes (new_RepairBatch 0 [0]))" by (simp add: pointers_ok_def new_RepairBatch_def)
  from push_stripe_correct [OF this b1] b1 show ?thesis
    by (auto simp: sample_eval_def in_range_def)
qed

end
