(* ===== verification/RepairTasks.thy ===== *)
theory RepairTasks
  imports Recolor
begin

text \<open>
  From a coloured DAG to the tasks of the agents: \<open>genRepairTasks\<close>, \<open>genLevel0\<close>,
  \<open>genIntermediateLevels\<close> and \<open>genLastLevel\<close> of src/src/common/Stripe.cc. Colours are read as in
  theory Stripe; the key set that the reads leave behind is collected once, by \<open>genRepairTasks\<close>.
\<close>

section \<open>The plan of a level\<close>

text \<open>
  The local maps of the two level functions. \<open>pl_work\<close> is \<open>blkidx2readdagidxlist\<close> on level 0 and
  \<open>nodeid2dagidxlist\<close> above it.
\<close>

record level_plan =
  pl_work :: "int list umap"
  pl_usage :: "(bool \<times> bool) umap"
  pl_sendfrom :: "int list umap"
  pl_sendto :: "int list umap"
  pl_recv :: "int list umap"

definition no_plan :: level_plan where
  "no_plan = \<lparr>pl_work = [], pl_usage = [], pl_sendfrom = [], pl_sendto = [], pl_recv = []\<rparr>"

text \<open>\<open>usage\<close>: is the sub-packet used on its own node, is it used on another one; the loop breaks
  when both are known.\<close>

fun usage_loop :: "int \<Rightarrow> int list \<Rightarrow> bool \<times> bool \<Rightarrow> bool \<times> bool" where
  "usage_loop mycolor [] u = u"
| "usage_loop mycolor (p # ps) u =
     (let u' = (if p = mycolor then (True, snd u) else (fst u, True))
      in if fst u' \<and> snd u' then u' else usage_loop mycolor ps u')"

definition plan_vertex :: "int \<Rightarrow> int \<Rightarrow> int \<Rightarrow> int list \<Rightarrow> level_plan \<Rightarrow> level_plan" where
  \<comment> \<open>\<open>key\<close>: where the vertex is read or computed; \<open>nodeids\<close>: the nodes of its parents\<close>
  "plan_vertex key dagidx mycolor nodeids pl =
     (let remote = remove1 mycolor nodeids;
          pl1 = pl\<lparr>pl_work := um_push key dagidx (pl_work pl),
                   pl_usage := um_insert dagidx (usage_loop mycolor nodeids (False, False)) (pl_usage pl)\<rparr>;
          pl2 = (if remote = [] then pl1
                 else pl1\<lparr>pl_sendfrom := um_push mycolor dagidx (pl_sendfrom pl1),
                          pl_sendto := um_insert dagidx remote (pl_sendto pl1)\<rparr>)
      in pl2\<lparr>pl_recv := fold (\<lambda>p. um_push p dagidx) remote (pl_recv pl2)\<rparr>)"

definition plan_level0 :: "ecdag \<Rightarrow> int umap \<Rightarrow> int \<Rightarrow> int \<Rightarrow> level_plan \<Rightarrow> level_plan res" where
  "plan_level0 g cl ecw dagidx pl =
     bindR (cdiv dagidx ecw) (\<lambda>blkidx.
     bindR (ofOpt NullNode (getNode g dagidx)) (\<lambda>node.
       Inr (plan_vertex blkidx dagidx (color_of cl dagidx) (parent_colors cl (parentNodes node)) pl)))"

definition plan_intermediate :: "ecdag \<Rightarrow> int umap \<Rightarrow> int \<Rightarrow> level_plan \<Rightarrow> level_plan res" where
  "plan_intermediate g cl dagidx pl =
     bindR (ofOpt NullNode (getNode g dagidx)) (\<lambda>node.
       Inr (plan_vertex (color_of cl dagidx) dagidx (color_of cl dagidx) (parent_colors cl (parentNodes node)) pl))"

text \<open>Zero sub-packets: which nodes need which of them; a parent without a node is left for later.\<close>

definition plan_zero :: "ecdag \<Rightarrow> int umap \<Rightarrow> int \<Rightarrow> int list umap \<Rightarrow> int list umap res" where
  "plan_zero g cl dagidx m =
     bindR (ofOpt NullNode (getNode g dagidx)) (\<lambda>node.
       Inr (fold (\<lambda>p. um_push p dagidx)
              (fold (\<lambda>p ret. if color_of cl p = -1 then ret else add_color (color_of cl p) ret) (parentNodes node) []) m))"

section \<open>The tasks of a level\<close>

type_synonym tasks = "task list umap"

definition read_task :: "int \<Rightarrow> int umap \<Rightarrow> string list \<Rightarrow> level_plan \<Rightarrow> int \<Rightarrow> int \<times> int list \<Rightarrow> tasks \<Rightarrow> tasks res" where
  "read_task batchid cl blks pl sid item res =
     bindR (vget blks (fst item)) (\<lambda>blkname.
     bindR (vget (snd item) 0) (\<lambda>first.
       let dagidxlist = sort (snd item) in
       Inr (um_push (color_of cl first)
              (buildReadTask 0 blkname dagidxlist (map (um_get (False, False) (pl_usage pl)) dagidxlist)
                (new_task batchid sid)) res)))"

definition send_task :: "int \<Rightarrow> level_plan \<Rightarrow> int \<Rightarrow> int \<times> int list \<Rightarrow> tasks \<Rightarrow> tasks" where
  "send_task batchid pl sid item =
     um_push (fst item)
       (buildSendTask 1 (snd item) (map (um_get [] (pl_sendto pl)) (snd item)) (new_task batchid sid))"

definition recv_task :: "int \<Rightarrow> int \<Rightarrow> int \<times> int list \<Rightarrow> tasks \<Rightarrow> tasks" where
  "recv_task batchid sid item = um_push (fst item) (buildRecvTask 2 (snd item) (new_task batchid sid))"

definition zero_task :: "int \<Rightarrow> int \<Rightarrow> int \<times> int list \<Rightarrow> tasks \<Rightarrow> tasks" where
  "zero_task batchid sid item = um_push (fst item) (buildReadTask 0 ''ZERO'' (snd item) [] (new_task batchid sid))"

definition compute_task :: "int \<Rightarrow> ecdag \<Rightarrow> level_plan \<Rightarrow> int \<Rightarrow> int \<times> int list \<Rightarrow> tasks \<Rightarrow> tasks res" where
  "compute_task batchid g pl sid item res =
     bindR (mapR (\<lambda>dagidx. bindR (ofOpt NullNode (getNode g dagidx)) (\<lambda>node.
              Inr (new_compute_item dagidx (childNodes node) (coefs node) (um_get (False, False) (pl_usage pl) dagidx))))
             (snd item)) (\<lambda>clist.
       Inr (um_push (fst item) (buildComputeTask 3 clist (new_task batchid sid)) res))"

definition is_real :: "int \<Rightarrow> int \<Rightarrow> int \<Rightarrow> bool res" where
  "is_real ecn ecw dagidx = bindR (cdiv dagidx ecw) (\<lambda>blkidx. Inr (blkidx < ecn))"

fun split_real :: "int \<Rightarrow> int \<Rightarrow> int list \<Rightarrow> (int list \<times> int list) res" where
  "split_real ecn ecw [] = Inr ([], [])"
| "split_real ecn ecw (v # vs) =
     bindR (is_real ecn ecw v) (\<lambda>r. bindR (split_real ecn ecw vs) (\<lambda>(real, virt).
       Inr (if r then (v # real, virt) else (real, v # virt))))"

definition genLevel0 :: "int \<Rightarrow> int \<Rightarrow> int \<Rightarrow> int \<Rightarrow> int list \<Rightarrow> stripe \<Rightarrow> tasks \<Rightarrow> tasks res" where
  "genLevel0 batchid ecn eck ecw leaves s res =
     (let g = s_ecdag s; cl = coloring s; sid = stripe_id s in
      bindR (split_real ecn ecw leaves) (\<lambda>(realidx, virtidx).
      bindR (foldR (plan_level0 g cl ecw) realidx no_plan) (\<lambda>pl.
      bindR (foldR (read_task batchid cl (blklist s) pl sid) (pl_work pl) res) (\<lambda>res.
      let res = fold (send_task batchid pl sid) (pl_sendfrom pl) res;
          res = fold (recv_task batchid sid) (pl_recv pl) res
      in bindR (foldR (plan_zero g cl) virtidx []) (\<lambda>zeros.
           Inr (fold (zero_task batchid sid) zeros res))))))"

definition genIntermediateLevels :: "int \<Rightarrow> int \<Rightarrow> int \<Rightarrow> int \<Rightarrow> int list \<Rightarrow> stripe \<Rightarrow> tasks \<Rightarrow> tasks res" where
  "genIntermediateLevels batchid ecn eck ecw leaves s res =
     (let g = s_ecdag s; cl = coloring s; sid = stripe_id s;
          realidx = filter (\<lambda>v. color_of cl v \<noteq> -1) leaves;
          zeroidx = filter (\<lambda>v. \<not> color_of cl v \<noteq> -1) leaves in
      bindR (foldR (plan_intermediate g cl) realidx no_plan) (\<lambda>pl.
      bindR (foldR (compute_task batchid g pl sid) (pl_work pl) res) (\<lambda>res.
      let res = fold (send_task batchid pl sid) (pl_sendfrom pl) res;
          res = fold (recv_task batchid sid) (pl_recv pl) res
      in bindR (foldR (plan_zero g cl) zeroidx []) (\<lambda>zeros.
           Inr (fold (zero_task batchid sid) zeros res)))))"

definition persist_task :: "int \<Rightarrow> stripe \<Rightarrow> int \<Rightarrow> tasks \<Rightarrow> tasks res" where
  "persist_task batchid s leave res =
     bindR (vget (blklist s) (REQUESTOR - leave)) (\<lambda>blkname.
     bindR (ofOpt NullNode (getNode (s_ecdag s) leave)) (\<lambda>node.
       Inr (um_push (color_of (coloring s) leave)
              (buildPersistTask 4 (childNodes node) blkname (new_task batchid (stripe_id s))) res)))"

definition genLastLevel :: "int \<Rightarrow> int \<Rightarrow> int \<Rightarrow> int \<Rightarrow> int list \<Rightarrow> stripe \<Rightarrow> tasks \<Rightarrow> tasks res" where
  "genLastLevel batchid ecn eck ecw leaves s res = foldR (persist_task batchid s) leaves res"

section \<open>genRepairTasks\<close>

definition remap_colors :: "int umap \<Rightarrow> int umap \<Rightarrow> int umap" where
  \<comment> \<open>the colour of a failed node becomes that of its replacement\<close>
  "remap_colors fail2repair cl =
     map (\<lambda>(i, c). (i, case map_of fail2repair c of None \<Rightarrow> c | Some r \<Rightarrow> r)) cl"

definition gen_level :: "int \<Rightarrow> int \<Rightarrow> int \<Rightarrow> int \<Rightarrow> stripe \<Rightarrow> int list list \<Rightarrow> nat \<Rightarrow> tasks \<Rightarrow> tasks res" where
  "gen_level batchid ecn eck ecw s Ls level res =
     (if level = 0 then genLevel0 batchid ecn eck ecw (Ls ! level) s res
      else if level = length Ls - 1 then genLastLevel batchid ecn eck ecw (Ls ! level) s res
      else genIntermediateLevels batchid ecn eck ecw (Ls ! level) s res)"

definition level_reads :: "ecdag \<Rightarrow> int list list \<Rightarrow> int list" where
  "level_reads g Ls = concat (map (\<lambda>v. v # parents_of g v) (concat Ls))"

definition genRepairTasks :: "int \<Rightarrow> int \<Rightarrow> int \<Rightarrow> int \<Rightarrow> int umap \<Rightarrow> stripe \<Rightarrow> stripe res" where
  "genRepairTasks batchid ecn eck ecw fail2repair s =
     bindR (ofOpt NoReturn (genLeveledTopologicalSorting (s_ecdag s))) (\<lambda>Ls.
     let s1 = s\<lparr>coloring := remap_colors fail2repair (coloring s)\<rparr> in
     bindR (foldR (gen_level batchid ecn eck ecw s1 Ls) [0..<length Ls] (taskmap s1)) (\<lambda>res.
       Inr (s1\<lparr>taskmap := res, coloring := touch (level_reads (s_ecdag s1) Ls) (coloring s1)\<rparr>)))"

definition getTaskNumForNodeId :: "int \<Rightarrow> stripe \<Rightarrow> nat" where
  "getTaskNumForNodeId nodeid s = (if um_has (taskmap s) nodeid then length (um_get [] (taskmap s) nodeid) else 0)"

definition getTaskForNodeId :: "int \<Rightarrow> stripe \<Rightarrow> task list" where
  "getTaskForNodeId nodeid s = (if um_has (taskmap s) nodeid then um_get [] (taskmap s) nodeid else [])"

section \<open>What tasks transfer\<close>

definition task_sends :: "task \<Rightarrow> (int \<times> int) set" where
  \<comment> \<open>(vertex, destination)\<close>
  "task_sends t = (if ttype t = Some 1
     then {(v, b). \<exists>bs. (v, bs) \<in> set (zip (dagidx_list t) (send_to_list t)) \<and> b \<in> set bs} else {})"

definition task_recvs :: "task \<Rightarrow> int set" where
  "task_recvs t = (if ttype t = Some 2 then set (dagidx_list t) else {})"

definition sends_of :: "tasks \<Rightarrow> (int \<times> int \<times> int) set" where
  "sends_of res = {(v, a, b). \<exists>t\<in>set (um_get [] res a). (v, b) \<in> task_sends t}"

definition recvs_of :: "tasks \<Rightarrow> (int \<times> int) set" where
  "recvs_of res = {(v, b). \<exists>t\<in>set (um_get [] res b). v \<in> task_recvs t}"

lemma sends_push: "sends_of (um_push n t res) = sends_of res \<union> {(v, a, b). a = n \<and> (v, b) \<in> task_sends t}"
  by (auto simp: sends_of_def um_get_push split: if_splits)

lemma recvs_push: "recvs_of (um_push n t res) = recvs_of res \<union> {(v, b). b = n \<and> v \<in> task_recvs t}"
  by (auto simp: recvs_of_def um_get_push split: if_splits)

named_theorems silent \<open>tasks that neither send nor receive\<close>

lemma silent_tasks [silent]:
  "task_sends (buildReadTask 0 name xs us t) = {}" "task_recvs (buildReadTask 0 name xs us t) = {}"
  "task_sends (buildComputeTask 3 cs t) = {}" "task_recvs (buildComputeTask 3 cs t) = {}"
  "task_sends (buildPersistTask 4 xs name t) = {}" "task_recvs (buildPersistTask 4 xs name t) = {}"
  "task_sends (buildRecvTask 2 xs t) = {}" "task_recvs (buildSendTask 1 xs yss t) = {}"
  by (simp_all add: task_sends_def task_recvs_def buildReadTask_def buildComputeTask_def
      buildPersistTask_def buildRecvTask_def buildSendTask_def)

lemma zip_self_map: "zip xs (map f xs) = map (\<lambda>x. (x, f x)) xs"
  by (induction xs) simp_all

lemma sends_send_task:
  "sends_of (send_task b pl sid item res) =
   sends_of res \<union> {(v, a, c). a = fst item \<and> v \<in> set (snd item) \<and> c \<in> set (um_get [] (pl_sendto pl) v)}"
  unfolding send_task_def sends_push
  by (auto simp: task_sends_def buildSendTask_def zip_self_map)

lemma recvs_send_task: "recvs_of (send_task b pl sid item res) = recvs_of res"
  by (auto simp: send_task_def recvs_push silent)

lemma recv_task_transfers:
  "sends_of (recv_task b sid item res) = sends_of res"
  "recvs_of (recv_task b sid item res) = recvs_of res \<union> {(v, c). c = fst item \<and> v \<in> set (snd item)}"
  by (auto simp: recv_task_def sends_push recvs_push silent)
    (auto simp: task_recvs_def buildRecvTask_def)

lemma zero_task_transfers:
  "sends_of (zero_task b sid item res) = sends_of res" "recvs_of (zero_task b sid item res) = recvs_of res"
  by (auto simp: zero_task_def sends_push recvs_push silent)

lemma fold_send_tasks:
  "sends_of (fold (send_task b pl sid) items res) = sends_of res \<union>
     {(v, a, c). \<exists>vs. (a, vs) \<in> set items \<and> v \<in> set vs \<and> c \<in> set (um_get [] (pl_sendto pl) v)}"
  "recvs_of (fold (send_task b pl sid) items res) = recvs_of res"
  by (induction items arbitrary: res) (auto simp: sends_send_task recvs_send_task)

lemma fold_recv_tasks:
  "sends_of (fold (recv_task b sid) items res) = sends_of res"
  "recvs_of (fold (recv_task b sid) items res) = recvs_of res \<union> {(v, c). \<exists>vs. (c, vs) \<in> set items \<and> v \<in> set vs}"
  by (induction items arbitrary: res) (auto simp: recv_task_transfers)

lemma fold_zero_tasks:
  "sends_of (fold (zero_task b sid) items res) = sends_of res"
  "recvs_of (fold (zero_task b sid) items res) = recvs_of res"
  by (induction items arbitrary: res) (simp_all add: zero_task_transfers)

section \<open>What a plan holds\<close>

lemma um_items:
  assumes "um_wf m"
  shows "(\<exists>vs. (k, vs) \<in> set m \<and> v \<in> set vs) \<longleftrightarrow> v \<in> set (um_get [] m k)"
proof -
  have "(k, vs) \<in> set m \<longleftrightarrow> map_of m k = Some vs" for vs
    using map_of_eq_Some_iff [of m k vs] assms by (simp add: um_keys_def)
  then show ?thesis by (cases "map_of m k") (simp_all add: um_get_def)
qed

text \<open>The nodes a vertex must be sent to.\<close>

definition remote :: "ecdag \<Rightarrow> int umap \<Rightarrow> int \<Rightarrow> int list" where
  "remote g cl v = remove1 (color_of cl v) (parent_colors cl (parents_of g v))"

lemma set_remote: "set (remote g cl v) = color_of cl ` set (parents_of g v) - {color_of cl v}"
  by (simp add: remote_def)

definition plan_ok :: "ecdag \<Rightarrow> int umap \<Rightarrow> int list \<Rightarrow> level_plan \<Rightarrow> bool" where
  "plan_ok g cl vs pl \<longleftrightarrow>
     um_wf (pl_sendfrom pl) \<and> um_wf (pl_sendto pl) \<and> um_wf (pl_recv pl) \<and>
     (\<forall>a v. v \<in> set (um_get [] (pl_sendfrom pl) a) \<longleftrightarrow> v \<in> set vs \<and> a = color_of cl v \<and> remote g cl v \<noteq> []) \<and>
     (\<forall>v. um_get [] (pl_sendto pl) v = (if v \<in> set vs then remote g cl v else [])) \<and>
     (\<forall>v b. v \<in> set (um_get [] (pl_recv pl) b) \<longleftrightarrow> v \<in> set vs \<and> b \<in> set (remote g cl v))"

lemma plan_ok_empty: "plan_ok g cl [] no_plan"
  by (simp add: plan_ok_def no_plan_def um_get_def)

lemma set_get_push: "v \<in> set (um_get [] (um_push p x m) b) \<longleftrightarrow> v \<in> set (um_get [] m b) \<or> v = x \<and> b = p"
  by (cases "b = p") (simp_all add: um_get_push disj_commute)

lemma fold_push_get:
  "um_wf m \<Longrightarrow> um_wf (fold (\<lambda>p. um_push p x) ps m) \<and>
   (v \<in> set (um_get [] (fold (\<lambda>p. um_push p x) ps m) b) \<longleftrightarrow> v \<in> set (um_get [] m b) \<or> v = x \<and> b \<in> set ps)"
proof (induction ps arbitrary: m)
  case Nil
  then show ?case by simp
next
  case (Cons p ps)
  from Cons.IH [of "um_push p x m"] Cons.prems show ?case
    unfolding fold_simps(2) set_get_push by (simp only: um_wf_push list.set insert_iff) blast
qed

lemma um_get_insert_new:
  "\<not> um_has m k \<Longrightarrow> um_get d (um_insert k v m) j = (if j = k then v else um_get d m j)"
  by (auto simp: um_get_def map_of_um_insert um_has_iff)

lemma plan_ok_step:
  assumes ok: "plan_ok g cl vs pl" and x: "x \<notin> set vs" and keys: "set (um_keys (pl_sendto pl)) \<subseteq> set vs"
  shows "plan_ok g cl (vs @ [x]) (plan_vertex key x (color_of cl x) (parent_colors cl (parents_of g x)) pl)"
    and "set (um_keys (pl_sendto (plan_vertex key x (color_of cl x) (parent_colors cl (parents_of g x)) pl))) \<subseteq> set (vs @ [x])"
proof -
  let ?pl = "plan_vertex key x (color_of cl x) (parent_colors cl (parents_of g x)) pl"
  have wf: "um_wf (pl_sendfrom pl)" "um_wf (pl_sendto pl)" "um_wf (pl_recv pl)"
    and sf: "\<And>a v. v \<in> set (um_get [] (pl_sendfrom pl) a) \<longleftrightarrow> v \<in> set vs \<and> a = color_of cl v \<and> remote g cl v \<noteq> []"
    and st: "\<And>v. um_get [] (pl_sendto pl) v = (if v \<in> set vs then remote g cl v else [])"
    and rv: "\<And>v b. v \<in> set (um_get [] (pl_recv pl) b) \<longleftrightarrow> v \<in> set vs \<and> b \<in> set (remote g cl v)"
    using ok by (auto simp: plan_ok_def)
  have nh: "\<not> um_has (pl_sendto pl) x" using keys x by (auto simp: um_has_def)
  have parts: "pl_sendfrom ?pl = (if remote g cl x = [] then pl_sendfrom pl else um_push (color_of cl x) x (pl_sendfrom pl))"
    "pl_sendto ?pl = (if remote g cl x = [] then pl_sendto pl else um_insert x (remote g cl x) (pl_sendto pl))"
    "pl_recv ?pl = fold (\<lambda>p. um_push p x) (remote g cl x) (pl_recv pl)"
    by (simp_all add: plan_vertex_def Let_def flip: remote_def)
  have "v \<in> set (um_get [] (pl_sendfrom ?pl) a) \<longleftrightarrow> v \<in> set (vs @ [x]) \<and> a = color_of cl v \<and> remote g cl v \<noteq> []" for a v
    using sf [of v a] x unfolding parts by (cases "remote g cl x = []") (auto simp: set_get_push)
  moreover have "um_get [] (pl_sendto ?pl) v = (if v \<in> set (vs @ [x]) then remote g cl v else [])" for v
    using st x by (auto simp: parts um_get_insert_new [OF nh])
  moreover have "v \<in> set (um_get [] (pl_recv ?pl) b) \<longleftrightarrow> v \<in> set (vs @ [x]) \<and> b \<in> set (remote g cl v)" for v b
    using rv x fold_push_get [OF wf(3), of x "remote g cl x" v b] by (auto simp: parts)
  moreover have "um_wf (pl_sendfrom ?pl)" "um_wf (pl_sendto ?pl)" "um_wf (pl_recv ?pl)"
    using wf fold_push_get [OF wf(3)] by (auto simp: parts)
  ultimately show "plan_ok g cl (vs @ [x]) ?pl" by (auto simp: plan_ok_def)
  show "set (um_keys (pl_sendto ?pl)) \<subseteq> set (vs @ [x])"
    using keys by (auto simp: parts um_keys_insert)
qed

text \<open>The work lists of a plan: not empty, and only of planned vertices under their own keys.\<close>

definition work_ok :: "(int \<Rightarrow> int) \<Rightarrow> int list \<Rightarrow> level_plan \<Rightarrow> bool" where
  "work_ok key vs pl \<longleftrightarrow> (\<forall>(k, l)\<in>set (pl_work pl). l \<noteq> [] \<and> set l \<subseteq> set vs \<and> k \<in> key ` set vs)"

lemma set_um_put: "p \<in> set (um_put k v m) \<Longrightarrow> p \<in> set m \<or> p = (k, v)"
  by (induction m) (auto simp: um_put_def split: if_splits)

lemma um_get_in: "um_get [] m k = [] \<or> (k, um_get [] m k) \<in> set m"
  by (cases "map_of m k") (simp_all add: um_get_def map_of_SomeD)

lemma work_ok_step:
  assumes "work_ok key vs pl"
  shows "work_ok key (vs @ [x]) (plan_vertex (key x) x c ps pl)"
proof -
  have w: "pl_work (plan_vertex (key x) x c ps pl) = um_push (key x) x (pl_work pl)"
    by (simp add: plan_vertex_def Let_def)
  have old: "set (um_get [] (pl_work pl) (key x)) \<subseteq> set vs"
    using assms um_get_in [of "pl_work pl" "key x"] by (auto simp: work_ok_def)
  show ?thesis
    unfolding work_ok_def w um_push_def
  proof (clarify)
    fix k l assume "(k, l) \<in> set (um_put (key x) (um_get [] (pl_work pl) (key x) @ [x]) (pl_work pl))"
    then consider "(k, l) \<in> set (pl_work pl)" | "k = key x" "l = um_get [] (pl_work pl) (key x) @ [x]"
      by (auto dest: set_um_put)
    then show "l \<noteq> [] \<and> set l \<subseteq> set (vs @ [x]) \<and> k \<in> key ` set (vs @ [x])"
      using assms old by cases (fastforce simp: work_ok_def)+
  qed
qed

lemma plan_loop:
  assumes "\<And>x pl. x \<in> set xs \<Longrightarrow>
      f x pl = Inr (plan_vertex (key x) x (color_of cl x) (parent_colors cl (parents_of g x)) pl)"
    and "distinct (vs @ xs)" and "plan_ok g cl vs pl" and "work_ok key vs pl"
    and "set (um_keys (pl_sendto pl)) \<subseteq> set vs"
  shows "\<exists>pl'. foldR f xs pl = Inr pl' \<and> plan_ok g cl (vs @ xs) pl' \<and> work_ok key (vs @ xs) pl'"
  using assms
proof (induction xs arbitrary: vs pl)
  case Nil
  then show ?case by simp
next
  case (Cons x xs)
  let ?pl = "plan_vertex (key x) x (color_of cl x) (parent_colors cl (parents_of g x)) pl"
  have x: "x \<notin> set vs" using Cons.prems(2) by auto
  note st = plan_ok_step [OF Cons.prems(3) x Cons.prems(5), of "key x"]
  have "\<exists>pl'. foldR f xs ?pl = Inr pl' \<and> plan_ok g cl ((vs @ [x]) @ xs) pl' \<and> work_ok key ((vs @ [x]) @ xs) pl'"
    using Cons.prems(1,2) by (intro Cons.IH st work_ok_step Cons.prems(4)) auto
  then show ?case using Cons.prems(1) [of x pl] by simp
qed

lemma plan_start:
  assumes "\<And>x pl. x \<in> set xs \<Longrightarrow>
      f x pl = Inr (plan_vertex (key x) x (color_of cl x) (parent_colors cl (parents_of g x)) pl)"
    and "distinct xs"
  shows "\<exists>pl. foldR f xs no_plan = Inr pl \<and> plan_ok g cl xs pl \<and> work_ok key xs pl"
  using plan_loop [where vs = "[]" and pl = no_plan, OF assms(1)] assms(2) plan_ok_empty
  by (simp add: work_ok_def no_plan_def)

section \<open>The transfers of a level\<close>

definition sent :: "ecdag \<Rightarrow> int umap \<Rightarrow> int list \<Rightarrow> (int \<times> int \<times> int) set" where
  "sent g cl vs = {(v, a, b). v \<in> set vs \<and> a = color_of cl v \<and> b \<in> set (remote g cl v)}"

definition arrived :: "ecdag \<Rightarrow> int umap \<Rightarrow> int list \<Rightarrow> (int \<times> int) set" where
  "arrived g cl vs = {(v, b). v \<in> set vs \<and> b \<in> set (remote g cl v)}"

lemma plan_transfers:
  fixes res :: tasks and b sid :: int
  assumes "plan_ok g cl vs pl"
  defines "out \<equiv> fold (recv_task b sid) (pl_recv pl) (fold (send_task b pl sid) (pl_sendfrom pl) res)"
  shows "sends_of out = sends_of res \<union> sent g cl vs" "recvs_of out = recvs_of res \<union> arrived g cl vs"
proof -
  have wf: "um_wf (pl_sendfrom pl)" "um_wf (pl_recv pl)"
    and sf: "\<And>a v. v \<in> set (um_get [] (pl_sendfrom pl) a) \<longleftrightarrow> v \<in> set vs \<and> a = color_of cl v \<and> remote g cl v \<noteq> []"
    and st: "\<And>v. um_get [] (pl_sendto pl) v = (if v \<in> set vs then remote g cl v else [])"
    and rv: "\<And>v b. v \<in> set (um_get [] (pl_recv pl) b) \<longleftrightarrow> v \<in> set vs \<and> b \<in> set (remote g cl v)"
    using assms(1) by (auto simp: plan_ok_def)
  have "(\<exists>ws. (a, ws) \<in> set (pl_sendfrom pl) \<and> v \<in> set ws \<and> c \<in> set (um_get [] (pl_sendto pl) v))
      \<longleftrightarrow> (v, a, c) \<in> sent g cl vs" for v a c
    using um_items [OF wf(1), of a v] sf [of v a] st [of v] by (auto simp: sent_def)
  then show "sends_of out = sends_of res \<union> sent g cl vs"
    by (simp add: out_def fold_recv_tasks fold_send_tasks)
  have "(\<exists>ws. (c, ws) \<in> set (pl_recv pl) \<and> v \<in> set ws) \<longleftrightarrow> (v, c) \<in> arrived g cl vs" for v c
    using um_items [OF wf(2), of c v] rv [of v c] by (auto simp: arrived_def)
  then show "recvs_of out = recvs_of res \<union> arrived g cl vs"
    by (simp add: out_def fold_recv_tasks fold_send_tasks)
qed

lemma plan_zero_ok:
  assumes "set vs \<subseteq> set (node_ids g)"
  shows "\<exists>m'. foldR (plan_zero g cl) vs m = Inr m'"
proof -
  have "\<exists>m'. foldR (plan_zero g cl) vs m = Inr m' \<and> True"
    using assms getNode_iff by (intro foldR_invariant TrueI) (fastforce simp: plan_zero_def)
  then show ?thesis by simp
qed

lemma silent_loop:
  assumes "\<And>x r. x \<in> set xs \<Longrightarrow> \<exists>r'. f x r = Inr r' \<and> sends_of r' = sends_of r \<and> recvs_of r' = recvs_of r"
  shows "\<exists>r'. foldR f xs res = Inr r' \<and> sends_of r' = sends_of res \<and> recvs_of r' = recvs_of res"
  using assms by (intro foldR_invariant [where P = "\<lambda>r. sends_of r = sends_of res \<and> recvs_of r = recvs_of res"]) fastforce+

lemma split_real_eq:
  "0 < ecw \<Longrightarrow> (\<And>v. v \<in> set vs \<Longrightarrow> 0 \<le> v) \<Longrightarrow>
   split_real ecn ecw vs = Inr (filter (\<lambda>v. v div ecw < ecn) vs, filter (\<lambda>v. \<not> v div ecw < ecn) vs)"
  by (induction vs) (auto simp: is_real_def)

lemma sent_filter:
  "sent g cl (filter (\<lambda>v. color_of cl v \<noteq> -1) L) =
    {(v, a, c). v \<in> set L \<and> color_of cl v \<noteq> -1 \<and> a = color_of cl v \<and> c \<in> set (remote g cl v)}"
  "arrived g cl (filter (\<lambda>v. color_of cl v \<noteq> -1) L) =
    {(v, c). v \<in> set L \<and> color_of cl v \<noteq> -1 \<and> c \<in> set (remote g cl v)}"
  by (auto simp: sent_def arrived_def)

lemma genLevel0_transfers:
  fixes s :: stripe
  defines "g \<equiv> s_ecdag s" and "cl \<equiv> coloring s"
  assumes wf: "wf_ecdag g" and vs: "set leaves \<subseteq> set (node_ids g)" "distinct leaves"
    and w: "0 < ecw" and pos: "\<And>v. v \<in> set leaves \<Longrightarrow> 0 \<le> v"
    and blk: "\<And>v. v \<in> set leaves \<Longrightarrow> v div ecw < ecn \<Longrightarrow> nat (v div ecw) < length (blklist s)"
  shows "\<exists>res'. genLevel0 b ecn eck ecw leaves s res = Inr res' \<and>
    sends_of res' = sends_of res \<union> sent g cl (filter (\<lambda>v. v div ecw < ecn) leaves) \<and>
    recvs_of res' = recvs_of res \<union> arrived g cl (filter (\<lambda>v. v div ecw < ecn) leaves)"
proof -
  let ?real = "filter (\<lambda>v. v div ecw < ecn) leaves" and ?virt = "filter (\<lambda>v. \<not> v div ecw < ecn) leaves"
  have node: "\<exists>n. getNode g v = Some n \<and> parentNodes n = parents_of g v" if "v \<in> set leaves" for v
    using that vs(1) getNode_iff getNode_reads [OF wf] by blast
  have "plan_level0 g cl ecw x pl =
      Inr (plan_vertex (x div ecw) x (color_of cl x) (parent_colors cl (parents_of g x)) pl)"
    if "x \<in> set ?real" for x pl
    using that node [of x] w pos [of x] by (auto simp: plan_level0_def)
  from plan_start [where xs = ?real, OF this] vs(2) obtain pl where
    pl: "foldR (plan_level0 g cl ecw) ?real no_plan = Inr pl" "plan_ok g cl ?real pl"
      "work_ok (\<lambda>x. x div ecw) ?real pl"
    by auto
  have "\<exists>r'. read_task b cl (blklist s) pl (stripe_id s) item r = Inr r' \<and>
      sends_of r' = sends_of r \<and> recvs_of r' = recvs_of r" if "item \<in> set (pl_work pl)" for item r
  proof -
    obtain k l where kl: "item = (k, l)" by (cases item)
    have "l \<noteq> []" "k \<in> (\<lambda>x. x div ecw) ` set ?real" using pl(3) that by (auto simp: work_ok_def kl)
    moreover from this(2) have "0 \<le> k" "nat k < length (blklist s)"
      using w pos blk by (auto simp: pos_imp_zdiv_nonneg_iff)
    ultimately show ?thesis
      by (auto simp: kl read_task_def Let_def sends_push recvs_push silent)
  qed
  from silent_loop [where xs = "pl_work pl" and res = res and
      f = "read_task b cl (blklist s) pl (stripe_id s)", OF this] obtain r1 where
    r1: "foldR (read_task b cl (blklist s) pl (stripe_id s)) (pl_work pl) res = Inr r1"
      "sends_of r1 = sends_of res" "recvs_of r1 = recvs_of res" by blast
  obtain zeros where z: "foldR (plan_zero g cl) ?virt [] = Inr zeros"
    using plan_zero_ok [of ?virt g cl "[]"] vs(1) by (meson filter_is_subset order_trans)
  have "split_real ecn ecw leaves = Inr (?real, ?virt)" using w pos by (rule split_real_eq)
  then show ?thesis
    using pl(1) r1 z plan_transfers [OF pl(2), of b "stripe_id s" r1]
    by (simp add: genLevel0_def fold_zero_tasks Let_def flip: g_def cl_def)
qed

lemma genIntermediate_transfers:
  fixes s :: stripe
  defines "g \<equiv> s_ecdag s" and "cl \<equiv> coloring s"
  assumes wf: "wf_ecdag g" and vs: "set leaves \<subseteq> set (node_ids g)" "distinct leaves"
  shows "\<exists>res'. genIntermediateLevels b ecn eck ecw leaves s res = Inr res' \<and>
    sends_of res' = sends_of res \<union> sent g cl (filter (\<lambda>v. color_of cl v \<noteq> -1) leaves) \<and>
    recvs_of res' = recvs_of res \<union> arrived g cl (filter (\<lambda>v. color_of cl v \<noteq> -1) leaves)"
proof -
  let ?real = "filter (\<lambda>v. color_of cl v \<noteq> -1) leaves" and ?zero = "filter (\<lambda>v. \<not> color_of cl v \<noteq> -1) leaves"
  have node: "\<exists>n. getNode g v = Some n \<and> parentNodes n = parents_of g v" if "v \<in> set leaves" for v
    using that vs(1) getNode_iff getNode_reads [OF wf] by blast
  have "plan_intermediate g cl x pl =
      Inr (plan_vertex (color_of cl x) x (color_of cl x) (parent_colors cl (parents_of g x)) pl)"
    if "x \<in> set ?real" for x pl
    using that node [of x] by (auto simp: plan_intermediate_def)
  from plan_start [where xs = ?real, OF this] vs(2) obtain pl where
    pl: "foldR (plan_intermediate g cl) ?real no_plan = Inr pl" "plan_ok g cl ?real pl"
      "work_ok (color_of cl) ?real pl"
    by auto
  have "\<exists>r'. compute_task b g pl (stripe_id s) item r = Inr r' \<and>
      sends_of r' = sends_of r \<and> recvs_of r' = recvs_of r" if "item \<in> set (pl_work pl)" for item r
  proof -
    obtain k l where kl: "item = (k, l)" by (cases item)
    have l: "set l \<subseteq> set leaves" using pl(3) that by (auto simp: work_ok_def kl)
    have "mapR (\<lambda>dagidx. bindR (ofOpt NullNode (getNode g dagidx)) (\<lambda>node.
          Inr (new_compute_item dagidx (childNodes node) (coefs node) (um_get (False, False) (pl_usage pl) dagidx)))) l
        = Inr (map (\<lambda>dagidx. new_compute_item dagidx (childNodes (the (getNode g dagidx)))
            (coefs (the (getNode g dagidx))) (um_get (False, False) (pl_usage pl) dagidx)) l)"
      using l node by (intro mapR_pure) (fastforce simp: subset_iff)
    then show ?thesis by (auto simp: kl compute_task_def sends_push recvs_push silent)
  qed
  from silent_loop [where xs = "pl_work pl" and res = res and
      f = "compute_task b g pl (stripe_id s)", OF this] obtain r1 where
    r1: "foldR (compute_task b g pl (stripe_id s)) (pl_work pl) res = Inr r1"
      "sends_of r1 = sends_of res" "recvs_of r1 = recvs_of res" by blast
  obtain zeros where z: "foldR (plan_zero g cl) ?zero [] = Inr zeros"
    using plan_zero_ok [of ?zero g cl "[]"] vs(1) by (meson filter_is_subset order_trans)
  show ?thesis
    using pl(1) r1 z plan_transfers [OF pl(2), of b "stripe_id s" r1]
    by (simp add: genIntermediateLevels_def fold_zero_tasks Let_def flip: g_def cl_def)
qed

lemma genLastLevel_transfers:
  assumes "set leaves \<subseteq> set (node_ids (s_ecdag s))"
    and "\<And>v. v \<in> set leaves \<Longrightarrow> v \<le> REQUESTOR \<and> nat (REQUESTOR - v) < length (blklist s)"
  shows "\<exists>res'. genLastLevel b ecn eck ecw leaves s res = Inr res' \<and>
    sends_of res' = sends_of res \<and> recvs_of res' = recvs_of res"
  unfolding genLastLevel_def
proof (rule silent_loop)
  fix v r assume v: "v \<in> set leaves"
  then obtain n where "getNode (s_ecdag s) v = Some n" using assms(1) getNode_iff by blast
  with assms(2) [OF v] show "\<exists>r'. persist_task b s v r = Inr r' \<and> sends_of r' = sends_of r \<and> recvs_of r' = recvs_of r"
    by (auto simp: persist_task_def sends_push recvs_push silent)
qed

section \<open>Properties\<close>

text \<open>
  When a repair can be turned into tasks: sub-packets of stored blocks are the leaves with a node,
  shortened vertices only feed shortened vertices or real ones, and there is a block name for
  every block that is read or restored.
\<close>

definition deployable :: "int \<Rightarrow> int \<Rightarrow> int list list \<Rightarrow> ecdag \<Rightarrow> int umap \<Rightarrow> nat \<Rightarrow> bool" where
  "deployable ecn ecw Ls g cl nblks \<longleftrightarrow> 0 < ecw \<and>
     list_all (\<lambda>v. 0 \<le> v \<and> (v div ecw < ecn \<longleftrightarrow> color_of cl v \<noteq> -1) \<and>
                   (v div ecw < ecn \<longrightarrow> nat (v div ecw) < nblks)) (hd Ls) \<and>
     list_all (\<lambda>v. v \<le> REQUESTOR \<and> nat (REQUESTOR - v) < nblks) (last Ls) \<and>
     list_all (\<lambda>v. color_of cl v \<noteq> -1 \<longrightarrow> list_all (\<lambda>p. color_of cl p \<noteq> -1) (parents_of g v)) (node_ids g)"

lemma last_level_no_parents:
  assumes wf: "wf_ecdag g" and lev: "levels_from g {} Ls" and v: "v \<in> set (Ls ! (length Ls - 1))" and ne: "Ls \<noteq> []"
  shows "parents_of g v = []"
proof (rule ccontr)
  assume "parents_of g v \<noteq> []"
  then obtain p where p: "p \<in> set (parents_of g v)" by (cases "parents_of g v") auto
  have ok: "dag_ok g" using wf by (rule wf_ecdag_ok)
  have props: "distinct (concat Ls)" "set (concat Ls) = set (node_ids g)"
    using levels_from_props [OF lev] dag_okD(1) [OF ok] by auto
  have "p \<in> set (concat Ls)" using p dag_okD(5) [OF ok] props(2) by blast
  then obtain L where "L \<in> set Ls" "p \<in> set L" by auto
  then obtain k where k: "k < length Ls" "p \<in> set (Ls ! k)" by (metis in_set_conv_nth)
  have "v \<in> set (children_of g p)" using p dag_mirror [OF ok] by blast
  with levels_from_lower(1) [OF lev k] obtain j where j: "j < k" "v \<in> set (Ls ! j)" by blast
  have "Ls = take (length Ls - 1) Ls @ [Ls ! (length Ls - 1)]"
    using ne by (metis append_butlast_last_id butlast_conv_take last_conv_nth)
  then have "distinct (concat (take (length Ls - 1) Ls) @ Ls ! (length Ls - 1))"
    using props(1) by (metis concat.simps concat_append append_Nil2)
  moreover have "v \<in> set (concat (take (length Ls - 1) Ls))"
  proof -
    have "Ls ! j \<in> set (take (length Ls - 1) Ls)" using j(1) k(1) by (auto simp: in_set_conv_nth intro!: exI [of _ j])
    with j(2) show ?thesis by auto
  qed
  ultimately show False using v by auto
qed

lemma transfers_sent:
  assumes "\<And>v p. v \<in> set (node_ids g) \<Longrightarrow> color_of cl v \<noteq> -1 \<Longrightarrow> p \<in> set (parents_of g v) \<Longrightarrow> color_of cl p \<noteq> -1"
  shows "transfers g (color_of cl) = {(v, a, b). v \<in> set (node_ids g) \<and> color_of cl v \<noteq> -1 \<and>
    a = color_of cl v \<and> b \<in> set (remote g cl v)}"
  using assms by (auto simp: transfers_def set_remote)

text \<open>The loop over the levels, as far as level \<open>k\<close>.\<close>

lemma gen_levels_upto:
  fixes s :: stripe
  defines "g \<equiv> s_ecdag s" and "cl \<equiv> coloring s"
  assumes wf: "wf_ecdag g" and lev: "levels_from g {} Ls" and dep: "deployable ecn ecw Ls g cl (length (blklist s))"
    and k: "k \<le> length Ls"
  shows "\<exists>res'. foldR (gen_level b ecn eck ecw s Ls) [0..<k] res = Inr res' \<and>
    sends_of res' = sends_of res \<union> {(v, a, c). v \<in> set (concat (take k Ls)) \<and> color_of cl v \<noteq> -1 \<and>
      a = color_of cl v \<and> c \<in> set (remote g cl v)} \<and>
    recvs_of res' = recvs_of res \<union> {(v, c). v \<in> set (concat (take k Ls)) \<and> color_of cl v \<noteq> -1 \<and> c \<in> set (remote g cl v)}"
  using k
proof (induction k)
  case 0
  then show ?case by auto
next
  case (Suc k)
  then obtain r where r: "foldR (gen_level b ecn eck ecw s Ls) [0..<k] res = Inr r"
    "sends_of r = sends_of res \<union> {(v, a, c). v \<in> set (concat (take k Ls)) \<and> color_of cl v \<noteq> -1 \<and>
      a = color_of cl v \<and> c \<in> set (remote g cl v)}"
    "recvs_of r = recvs_of res \<union> {(v, c). v \<in> set (concat (take k Ls)) \<and> color_of cl v \<noteq> -1 \<and> c \<in> set (remote g cl v)}"
    by auto
  have kl: "k < length Ls" using Suc.prems by simp
  have props: "distinct (concat Ls)" "set (concat Ls) = set (node_ids g)"
    using levels_from_props [OF lev] dag_okD(1) [OF wf_ecdag_ok [OF wf]] by auto
  have L: "set (Ls ! k) \<subseteq> set (node_ids (s_ecdag s))" "distinct (Ls ! k)"
    using kl props unfolding g_def by (auto simp: distinct_concat_iff)
  have step: "\<exists>r'. gen_level b ecn eck ecw s Ls k r = Inr r' \<and>
      sends_of r' = sends_of r \<union> {(v, a, c). v \<in> set (Ls ! k) \<and> color_of cl v \<noteq> -1 \<and> a = color_of cl v \<and> c \<in> set (remote g cl v)} \<and>
      recvs_of r' = recvs_of r \<union> {(v, c). v \<in> set (Ls ! k) \<and> color_of cl v \<noteq> -1 \<and> c \<in> set (remote g cl v)}"
  proof -
    consider "k = 0" | "k \<noteq> 0" "k = length Ls - 1" | "k \<noteq> 0" "k \<noteq> length Ls - 1" by blast
    then show ?thesis
    proof cases
      case 1
      have hd: "Ls ! k = hd Ls" using 1 kl by (simp add: hd_conv_nth)
      have pre: "0 < ecw" "\<And>v. v \<in> set (Ls ! k) \<Longrightarrow> 0 \<le> v"
        "\<And>v. v \<in> set (Ls ! k) \<Longrightarrow> v div ecw < ecn \<longleftrightarrow> color_of cl v \<noteq> -1"
        "\<And>v. v \<in> set (Ls ! k) \<Longrightarrow> v div ecw < ecn \<Longrightarrow> nat (v div ecw) < length (blklist s)"
        using dep unfolding deployable_def hd by (auto simp: list_all_iff)
      have flt: "filter (\<lambda>v. v div ecw < ecn) (Ls ! k) = filter (\<lambda>v. color_of (coloring s) v \<noteq> -1) (Ls ! k)"
        using pre(3) by (intro filter_cong) (auto simp: cl_def)
      have "gen_level b ecn eck ecw s Ls k = genLevel0 b ecn eck ecw (Ls ! k) s"
        using 1 by (simp add: gen_level_def fun_eq_iff)
      with genLevel0_transfers [where ecn = ecn, OF wf [unfolded g_def] L pre(1,2,4), unfolded flt sent_filter]
      show ?thesis unfolding g_def cl_def by simp
    next
      case 2
      have "Ls \<noteq> []" using kl by auto
      then have "Ls ! k = last Ls" using 2 by (simp add: last_conv_nth)
      then have "v \<le> REQUESTOR \<and> nat (REQUESTOR - v) < length (blklist s)" if "v \<in> set (Ls ! k)" for v
        using that dep by (simp add: deployable_def list_all_iff)
      from genLastLevel_transfers [OF L(1) this, of b ecn eck ecw r] obtain r' where
        r': "gen_level b ecn eck ecw s Ls k r = Inr r'" "sends_of r' = sends_of r" "recvs_of r' = recvs_of r"
        using 2 by (auto simp: gen_level_def)
      have "remote g cl v = []" if "v \<in> set (Ls ! k)" for v
        using last_level_no_parents [OF wf lev] that 2 kl by (force simp: remote_def parent_colors_def)
      with r' show ?thesis by auto
    next
      case 3
      then have "gen_level b ecn eck ecw s Ls k = genIntermediateLevels b ecn eck ecw (Ls ! k) s"
        by (simp add: gen_level_def fun_eq_iff)
      with genIntermediate_transfers [OF wf [unfolded g_def] L, unfolded sent_filter]
      show ?thesis unfolding g_def cl_def by simp
    qed
  qed
  then obtain r' where "gen_level b ecn eck ecw s Ls k r = Inr r'"
    "sends_of r' = sends_of r \<union> {(v, a, c). v \<in> set (Ls ! k) \<and> color_of cl v \<noteq> -1 \<and> a = color_of cl v \<and> c \<in> set (remote g cl v)}"
    "recvs_of r' = recvs_of r \<union> {(v, c). v \<in> set (Ls ! k) \<and> color_of cl v \<noteq> -1 \<and> c \<in> set (remote g cl v)}"
    by blast
  then show ?case
    unfolding take_Suc_conv_app_nth [OF kl] using r by (auto simp: foldR_append)
qed

text \<open>C17: the tasks \<open>Stripe::genRepairTasks\<close> hands out move exactly the sub-packets that
  \<open>evaluateColoring\<close> accounts for: the send tasks, taken together, send each vertex from its own
  node once to every other node hosting one of its parents, nothing else is sent, and each
  transfer is announced by a receive task at its destination.\<close>

theorem genRepairTasks_transfers:
  assumes "wf_ecdag (s_ecdag s)" and "genLeveledTopologicalSorting (s_ecdag s) = Some Ls"
    and "deployable ecn ecw Ls (s_ecdag s) (remap_colors f2r (coloring s)) (length (blklist s))"
    and "taskmap s = []"
  shows "\<exists>s'. genRepairTasks b ecn eck ecw f2r s = Inr s' \<and>
    sends_of (taskmap s') = transfers (s_ecdag s) (color_of (remap_colors f2r (coloring s))) \<and>
    recvs_of (taskmap s') = {(v, c). \<exists>a. (v, a, c) \<in> transfers (s_ecdag s) (color_of (remap_colors f2r (coloring s)))}"
proof -
  let ?s = "s\<lparr>coloring := remap_colors f2r (coloring s)\<rparr>" and ?cl = "remap_colors f2r (coloring s)"
  have lev: "levels_from (s_ecdag s) {} Ls" using genLeveled_returns [OF assms(1)] assms(2) by auto
  have nodes: "set (concat Ls) = set (node_ids (s_ecdag s))"
    using levels_from_props [OF lev] dag_okD(1) [OF wf_ecdag_ok [OF assms(1)]] by auto
  have empty: "sends_of [] = {}" "recvs_of [] = {}" by (simp_all add: sends_of_def recvs_of_def um_get_def)
  have T: "transfers (s_ecdag s) (color_of ?cl) = {(v, a, b). v \<in> set (node_ids (s_ecdag s)) \<and> color_of ?cl v \<noteq> -1 \<and>
      a = color_of ?cl v \<and> b \<in> set (remote (s_ecdag s) ?cl v)}"
    using assms(3) by (intro transfers_sent) (auto simp: deployable_def list_all_iff)
  from gen_levels_upto [of ?s Ls ecn ecw "length Ls" b eck "[]"] assms(1,3) lev obtain res where
    "foldR (gen_level b ecn eck ecw ?s Ls) [0..<length Ls] [] = Inr res"
    "sends_of res = transfers (s_ecdag s) (color_of ?cl)"
    "recvs_of res = {(v, c). v \<in> set (node_ids (s_ecdag s)) \<and> color_of ?cl v \<noteq> -1 \<and> c \<in> set (remote (s_ecdag s) ?cl v)}"
    unfolding T by (auto simp: empty nodes simp del: set_concat)
  then show ?thesis
    using assms(2,4) by (auto simp: genRepairTasks_def T)
qed

text \<open>A stripe with one failed block: block 0 of node 0 is restored from blocks 1 and 2 on node 3.\<close>

definition sample_repair :: stripe where
  "sample_repair = (new_stripe 0 [0, 1, 2])\<lparr>
     s_ecdag := Join REQUESTOR [0] [-1] (Join 0 [1, 2] [1, 1] new_ecdag),
     coloring := [(1, 1), (2, 2), (0, 0), (REQUESTOR, 0)], blklist := [''b0'', ''b1'', ''b2'']\<rparr>"

lemma wf_sample_repair: "wf_ecdag (s_ecdag sample_repair)"
proof -
  note J = wf_Join [OF wf_new_ecdag, of 0 "[1, 2]" "[1, 1]"]
  have J2: "wf_ecdag (Join 0 [1, 2] [1, 1] new_ecdag)" "set (node_ids (Join 0 [1, 2] [1, 1] new_ecdag)) = {0, 1, 2}"
    using J(1,2) by (simp_all add: new_ecdag_def)
  have "wf_ecdag (Join REQUESTOR [0] [-1] (Join 0 [1, 2] [1, 1] new_ecdag))"
    by (rule wf_Join(1)) (use J2 in \<open>simp_all add: REQUESTOR_def\<close>)
  then show ?thesis by (simp add: sample_repair_def)
qed

lemma genRepairTasks_transfers_witness:
  "\<exists>s'. genRepairTasks 5 3 2 1 [(0, 3)] sample_repair = Inr s' \<and> sends_of (taskmap s') \<noteq> {}"
proof -
  have lev: "genLeveledTopologicalSorting (s_ecdag sample_repair) = Some [[1, 2], [0], [REQUESTOR]]"
    by (rule genLeveled_eqI [OF wf_sample_repair]) code_simp
  have dep: "deployable 3 1 [[1, 2], [0], [REQUESTOR]] (s_ecdag sample_repair)
      (remap_colors [(0, 3)] (coloring sample_repair)) (length (blklist sample_repair))"
    by code_simp
  have "(1, 1, 3) \<in> transfers (s_ecdag sample_repair) (color_of (remap_colors [(0, 3)] (coloring sample_repair)))"
    by (simp add: transfers_def) code_simp
  moreover have "taskmap sample_repair = []" by (simp add: sample_repair_def new_stripe_def)
  ultimately show ?thesis using genRepairTasks_transfers [OF wf_sample_repair lev dep] by blast
qed

end
