(* ===== verification/Dispatch.thy ===== *)
theory Dispatch
  imports Batch RepairTasks
begin

text \<open>
  From the coordinator to the agents: \<open>NodeBatchTask\<close> (src/src/ec/NodeBatchTask.cc),
  \<open>RepairBatch::genRepairTasks\<close> (src/src/sol/RepairBatch.cc) and the agent's side,
  \<open>readInstructions\<close>, \<open>recvBatchTasks\<close> and \<open>sendFinishFlag\<close> (src/src/common/Worker.cc).

  The commands for one node are a list of pushes in the order in which they are appended to the
  connection; the pushes of different nodes go to different servers. The one thread per node, and
  the pipelining of replies, do not change that order.
\<close>

section \<open>Batches of tasks for a node\<close>

record node_batch =
  nb_batch_id :: int
  nb_stripe_ids :: "int list"
  nb_nums :: "int list"
  nb_taskmap :: "task list umap"
  nb_ip :: nat

definition new_NodeBatchTask :: "int \<Rightarrow> int list \<Rightarrow> int list \<Rightarrow> task list umap \<Rightarrow> nat \<Rightarrow> node_batch" where
  "new_NodeBatchTask batchid ids nums tmap ip =
     \<lparr>nb_batch_id = batchid, nb_stripe_ids = ids, nb_nums = nums, nb_taskmap = tmap, nb_ip = ip\<rparr>"

definition sendAGCommand :: "node_batch \<Rightarrow> pushes res" where
  "sendAGCommand nb =
     bindR (buildAGCommand (nb_batch_id nb) (int (length (nb_stripe_ids nb))) (nb_stripe_ids nb) (nb_nums nb) new_ag_buf)
       (\<lambda>b. Inr [(''ag_request'', bytes b)])"

definition task_pushes :: "task \<Rightarrow> pushes" where
  "task_pushes t = (rKey t, bytes (agCmd t)) # item_pushes t"

definition send_task_commands :: "task list \<Rightarrow> int \<Rightarrow> pushes res" where
  \<comment> \<open>the loop over the tasks of one stripe\<close>
  "send_task_commands tasklist tasknum =
     bindR (mapR (\<lambda>taskid. bindR (vget tasklist taskid) (\<lambda>t. bindR (buildTaskCommand t) (\<lambda>t'. Inr (task_pushes t'))))
             (map int [0..<nat tasknum])) (\<lambda>pss. Inr (concat pss))"

definition sendTaskCommands :: "node_batch \<Rightarrow> pushes res" where
  "sendTaskCommands nb =
     bindR (mapR (\<lambda>i. bindR (vget (nb_stripe_ids nb) i) (\<lambda>sid. bindR (vget (nb_nums nb) i) (\<lambda>num.
              send_task_commands (um_get [] (nb_taskmap nb) sid) num)))
             (map int [0..<length (nb_stripe_ids nb)])) (\<lambda>pss. Inr (concat pss))"

definition sendCommands :: "node_batch \<Rightarrow> pushes res" where
  "sendCommands nb = bindR (sendAGCommand nb) (\<lambda>ps. bindR (sendTaskCommands nb) (\<lambda>qs. Inr (ps @ qs)))"

text \<open>The pipelining: \<open>(count, replyid)\<close>, the commands appended and the replies read.\<close>

definition append_reply :: "int \<times> int \<Rightarrow> int \<times> int" where
  "append_reply = (\<lambda>(count, replyid). (count + 1, if count + 1 > 10 then replyid + 1 else replyid))"

definition reply_loop :: "nat \<Rightarrow> int \<times> int" where
  "reply_loop n = fold (\<lambda>_. append_reply) [0..<n] (0, 0)"

definition reply_drain :: "int \<times> int \<Rightarrow> int \<times> int" where
  "reply_drain = (\<lambda>(count, replyid). (count, fold (\<lambda>_ r. r + 1) [replyid..count - 1] replyid))"

section \<open>Nodes and their servers\<close>

definition agent_ip :: "nat list \<Rightarrow> nat list \<Rightarrow> int \<Rightarrow> nat res" where
  \<comment> \<open>a negative \<open>nodeid\<close> is compared as unsigned, so that it counts as a repair node\<close>
  "agent_ip agents repairs nodeid =
     (if 0 \<le> nodeid \<and> nodeid < int (length agents) then vget agents nodeid
      else vget repairs (nodeid - int (length agents)))"

fun first_index :: "nat \<Rightarrow> nat list \<Rightarrow> int option" where
  "first_index ip [] = None"
| "first_index ip (a # as) = (if ip = a then Some 0 else map_option (\<lambda>i. i + 1) (first_index ip as))"

definition worker_nodeid :: "nat list \<Rightarrow> nat list \<Rightarrow> nat \<Rightarrow> int" where
  "worker_nodeid agents repairs localip =
     (case first_index localip agents of Some i \<Rightarrow> i
      | None \<Rightarrow> (case first_index localip repairs of Some i \<Rightarrow> int (length agents) + i | None \<Rightarrow> -1))"

definition wait_key :: "int \<Rightarrow> int \<Rightarrow> string" where
  \<comment> \<open>the key \<open>waitFinishFlag\<close> blocks on\<close>
  "wait_key batchid nodeid = to_string batchid @ '':'' @ to_string nodeid @ '':finish''"

definition finish_key :: "nat list \<Rightarrow> nat list \<Rightarrow> nat \<Rightarrow> int \<Rightarrow> string" where
  \<comment> \<open>the key \<open>sendFinishFlag\<close> pushes\<close>
  "finish_key agents repairs localip batchid =
     to_string batchid @ '':'' @ to_string (worker_nodeid agents repairs localip) @ '':finish''"

section \<open>genRepairTasks of a batch\<close>

definition batch_stripe ::
  "int \<Rightarrow> int \<Rightarrow> int \<Rightarrow> int \<Rightarrow> int umap \<Rightarrow> int \<times> int \<Rightarrow> stripe list \<times> int list umap \<Rightarrow> (stripe list \<times> int list umap) res" where
  "batch_stripe batchid ecn eck ecw fail2repair = (\<lambda>(i, p) (st, idx).
     bindR (vget st p) (\<lambda>s.
     bindR (genRepairTasks batchid ecn eck ecw fail2repair s) (\<lambda>s'.
       Inr (st[nat p := s'], fold (\<lambda>item. um_push (fst item) i) (taskmap s') idx))))"

definition node_tasks ::
  "nat list \<Rightarrow> nat list \<Rightarrow> stripe list \<Rightarrow> repair_batch \<Rightarrow> int \<times> int list \<Rightarrow> (int \<times> node_batch) res" where
  "node_tasks agents repairs st b = (\<lambda>(nodeid, internalidx).
     bindR (mapR (\<lambda>ii. bindR (vget (rb_stripes b) ii) (vget st)) internalidx) (\<lambda>ss.
     bindR (agent_ip agents repairs nodeid) (\<lambda>ip.
       Inr (nodeid, new_NodeBatchTask (rb_id b) (map stripe_id ss) (map (\<lambda>s. int (getTaskNumForNodeId nodeid s)) ss)
         (fold (\<lambda>s. um_insert (stripe_id s) (getTaskForNodeId nodeid s)) ss []) ip))))"

definition batch_genRepairTasks ::
  "nat list \<Rightarrow> nat list \<Rightarrow> int \<Rightarrow> int \<Rightarrow> int \<Rightarrow> int umap \<Rightarrow> repair_batch \<Rightarrow> stripe list \<Rightarrow>
   (stripe list \<times> (int \<times> nat \<times> pushes) list \<times> string list) res" where
  \<comment> \<open>the stripes with their tasks, what is sent to each node, and the keys waited for\<close>
  "batch_genRepairTasks agents repairs ecn eck ecw fail2repair b st =
     bindR (foldR (batch_stripe (rb_id b) ecn eck ecw fail2repair)
              (zip (map int [0..<length (rb_stripes b)]) (rb_stripes b)) (st, [])) (\<lambda>(st', idx).
     bindR (mapR (node_tasks agents repairs st' b) idx) (\<lambda>nbs.
     bindR (mapR (\<lambda>(nodeid, nb). bindR (sendCommands nb) (\<lambda>ps. Inr (nodeid, nb_ip nb, ps))) nbs) (\<lambda>sends.
       Inr (st', sends, map (\<lambda>(nodeid, _). wait_key (rb_id b) nodeid) idx))))"

section \<open>The agent's side\<close>

fun recv_tasks ::
  "(string \<Rightarrow> 'r \<Rightarrow> (string \<times> 'r) res) \<Rightarrow> int \<Rightarrow> int \<Rightarrow> nat \<Rightarrow> 'r \<Rightarrow> (task list \<times> 'r) res" where
  "recv_tasks blpop batchid stripeid 0 r = Inr ([], r)"
| "recv_tasks blpop batchid stripeid (Suc n) r =
     bindR (blpop (to_string batchid @ '':'' @ to_string stripeid @ '':command'') r) (\<lambda>(reqStr, r).
     bindR (parse_task blpop reqStr batchid stripeid r) (\<lambda>(t, r).
     bindR (recv_tasks blpop batchid stripeid n r) (\<lambda>(ts, r). Inr (t # ts, r))))"

definition recv_stripe ::
  "(string \<Rightarrow> 'r \<Rightarrow> (string \<times> 'r) res) \<Rightarrow> int \<Rightarrow> int \<Rightarrow> int \<Rightarrow> task list umap \<times> 'r \<Rightarrow> (task list umap \<times> 'r) res" where
  "recv_stripe blpop batchid stripeid tasknum s =
     bindR (recv_tasks blpop batchid stripeid (nat tasknum) (snd s)) (\<lambda>(ts, r). Inr (um_insert stripeid ts (fst s), r))"

definition recvBatchTasks ::
  "(string \<Rightarrow> 'r \<Rightarrow> (string \<times> 'r) res) \<Rightarrow> int \<Rightarrow> int \<Rightarrow> int list \<Rightarrow> int list \<Rightarrow> 'r \<Rightarrow> (node_batch \<times> 'r) res" where
  "recvBatchTasks blpop batchid stripenum ids nums r =
     bindR (foldR (\<lambda>i s. bindR (vget ids i) (\<lambda>stripeid. bindR (vget nums i) (\<lambda>tasknum.
              recv_stripe blpop batchid stripeid tasknum s))) (map int [0..<nat stripenum]) ([], r)) (\<lambda>(tmap, r).
       Inr (new_NodeBatchTask batchid ids nums tmap 0, r))"

definition readInstructions :: "(string \<Rightarrow> 'r \<Rightarrow> (string \<times> 'r) res) \<Rightarrow> 'r \<Rightarrow> (node_batch \<times> 'r) res" where
  "readInstructions blpop r =
     bindR (blpop ''ag_request'' r) (\<lambda>(reqStr, r).
     bindR (parseAGCommand reqStr) (\<lambda>ag.
       recvBatchTasks blpop (ag_batch_id ag) (ag_num_stripes ag) (ag_stripe_id_list ag) (ag_stripe_task_num ag) r))"

section \<open>What is sent is what is received\<close>

definition deliverable :: "int \<Rightarrow> int \<Rightarrow> task \<Rightarrow> bool" where
  "deliverable batchid sid t \<longleftrightarrow> (sendable t \<or> computable t) \<and> batch_id t = batchid \<and> t_stripe_id t = sid"

lemma mapR_vget: "mapR (\<lambda>i. bindR (vget xs i) f) (map int [0..<length xs]) = mapR f xs"
proof -
  have "mapR (\<lambda>i. bindR (vget (us @ xs) i) f) (map int [length us..<length us + length xs]) = mapR f xs" for us
  proof (induction xs arbitrary: us)
    case (Cons x xs)
    have "[length us..<length us + length (x # xs)] = length us # [length (us @ [x])..<length (us @ [x]) + length xs]"
      by (simp add: upt_conv_Cons del: upt_Suc)
    with Cons [of "us @ [x]"] show ?case by (simp del: upt_Suc)
  qed simp
  from this [of "[]"] show ?thesis by simp
qed

lemma task_travels:
  assumes redis: "redis_lists view rpush blpop" and t: "deliverable b s t"
  shows "\<exists>t'. buildTaskCommand t = Inr t' \<and> rKey t' = to_string b @ '':'' @ to_string s @ '':command'' \<and>
    (\<forall>r ps rest. holds view r (item_pushes t' @ ps) rest \<longrightarrow>
      (\<exists>r'. parse_task blpop (bytes (agCmd t')) b s r = Inr (received t, r') \<and> holds view r' ps rest))"
proof -
  have key: "command_key t = to_string b @ '':'' @ to_string s @ '':command''" "batch_id t = b" "t_stripe_id t = s"
    using t by (simp_all add: deliverable_def command_key_def)
  show ?thesis
  proof (cases "sendable t")
    case True
    have nt: "ttype t \<noteq> Some 3" using True by (auto simp: sendable_def split: option.splits)
    obtain t' where t': "buildTaskCommand t = Inr t'" "rKey t' = command_key t" "ttype t' = ttype t"
      using plain_task_travels [OF True, of blpop undefined] by (elim exE conjE)
    have parse: "parse_task blpop (bytes (agCmd t')) b s r = Inr (received t, r)" for r
    proof -
      obtain t'' where t'': "buildTaskCommand t = Inr t''"
        "parse_task blpop (bytes (agCmd t'')) (batch_id t) (t_stripe_id t) r = Inr (received t, r)"
        using plain_task_travels [OF True, of blpop r] by (elim exE conjE)
      then have "t'' = t'" using t'(1) by simp
      then show ?thesis using t''(2) key by simp
    qed
    have "item_pushes t' = []" using nt t'(3) by (simp add: item_pushes_def)
    then show ?thesis using t' parse key by (intro exI [of _ t']) simp
  next
    case False
    then have "computable t" using t by (simp add: deliverable_def)
    from compute_task_travels [OF redis this] show ?thesis using key by auto
  qed
qed

lemma tasks_travel:
  assumes redis: "redis_lists view rpush blpop" and "list_all (deliverable b s) ts"
  shows "\<exists>ps. send_task_commands ts (int (length ts)) = Inr ps \<and>
    (\<forall>r qs rest. holds view r (ps @ qs) rest \<longrightarrow>
      (\<exists>r'. recv_tasks blpop b s (length ts) r = Inr (map received ts, r') \<and> holds view r' qs rest))"
proof -
  let ?one = "\<lambda>t. bindR (buildTaskCommand t) (\<lambda>t'. Inr (task_pushes t'))"
  have snd: "send_task_commands ts (int (length ts)) = bindR (mapR ?one ts) (\<lambda>pss. Inr (concat pss))"
    by (simp add: send_task_commands_def mapR_vget)
  have "\<exists>pss. mapR ?one ts = Inr pss \<and>
    (\<forall>r qs rest. holds view r (concat pss @ qs) rest \<longrightarrow>
      (\<exists>r'. recv_tasks blpop b s (length ts) r = Inr (map received ts, r') \<and> holds view r' qs rest))"
    using assms(2)
  proof (induction ts)
    case Nil
    then show ?case by simp
  next
    case (Cons t ts)
    then obtain pss where pss: "mapR ?one ts = Inr pss"
      "\<And>r qs rest. holds view r (concat pss @ qs) rest \<Longrightarrow>
        \<exists>r'. recv_tasks blpop b s (length ts) r = Inr (map received ts, r') \<and> holds view r' qs rest" by auto
    obtain t' where t': "buildTaskCommand t = Inr t'" "rKey t' = to_string b @ '':'' @ to_string s @ '':command''"
      "\<And>r ps rest. holds view r (item_pushes t' @ ps) rest \<Longrightarrow>
        \<exists>r'. parse_task blpop (bytes (agCmd t')) b s r = Inr (received t, r') \<and> holds view r' ps rest"
      using task_travels [OF redis, of b s t] Cons.prems by auto
    have "\<exists>r'. recv_tasks blpop b s (length (t # ts)) r = Inr (map received (t # ts), r') \<and> holds view r' qs rest"
      if h: "holds view r (concat (task_pushes t' # pss) @ qs) rest" for r qs rest
    proof -
      have "holds view r ((rKey t', bytes (agCmd t')) # item_pushes t' @ concat pss @ qs) rest"
        using h by (simp add: task_pushes_def)
      from holds_pop [OF redis this] obtain r1 where
        r1: "blpop (rKey t') r = Inr (bytes (agCmd t'), r1)" "holds view r1 (item_pushes t' @ concat pss @ qs) rest" by blast
      from t'(3) [OF r1(2)] obtain r2 where
        r2: "parse_task blpop (bytes (agCmd t')) b s r1 = Inr (received t, r2)" "holds view r2 (concat pss @ qs) rest" by blast
      from pss(2) [OF r2(2)] r1(1) r2(1) show ?thesis by (auto simp: t'(2))
    qed
    then show ?case using pss(1) t'(1) by auto
  qed
  then show ?thesis unfolding snd by auto
qed

lemma vget_both: "bindR (vget xs i) (\<lambda>x. bindR (vget (map f xs) i) (g x)) = bindR (vget xs i) (\<lambda>x. g x (f x))"
  by (simp add: vget_def)

definition nb_ok :: "node_batch \<Rightarrow> bool" where
  "nb_ok nb \<longleftrightarrow> i32 (nb_batch_id nb) \<and> distinct (nb_stripe_ids nb) \<and> list_ok (nb_stripe_ids nb) \<and>
     nb_nums nb = map (\<lambda>sid. int (length (um_get [] (nb_taskmap nb) sid))) (nb_stripe_ids nb) \<and>
     list_all (\<lambda>sid. length (um_get [] (nb_taskmap nb) sid) < 2 ^ 31 \<and>
       list_all (deliverable (nb_batch_id nb) sid) (um_get [] (nb_taskmap nb) sid)) (nb_stripe_ids nb)"

lemma stripes_travel:
  fixes tasks :: "int \<Rightarrow> task list"
  assumes redis: "redis_lists view rpush blpop" and "list_all (\<lambda>sid. list_all (deliverable b sid) (tasks sid)) ids"
  shows "\<exists>pss. mapR (\<lambda>sid. send_task_commands (tasks sid) (int (length (tasks sid)))) ids = Inr pss \<and>
    (\<forall>r m rest. holds view r (concat pss) rest \<and> distinct ids \<and> set ids \<inter> set (um_keys m) = {} \<longrightarrow>
      (\<exists>r'. foldR (\<lambda>sid. recv_stripe blpop b sid (int (length (tasks sid)))) ids (m, r) =
          Inr (m @ map (\<lambda>sid. (sid, map received (tasks sid))) ids, r') \<and>
        holds view r' [] rest))"
  using assms(2)
proof (induction ids)
  case Nil
  then show ?case by simp
next
  case (Cons sid ids)
  let ?recv = "\<lambda>sid. recv_stripe blpop b sid (int (length (tasks sid)))"
  from Cons obtain pss where pss: "mapR (\<lambda>sid. send_task_commands (tasks sid) (int (length (tasks sid)))) ids = Inr pss"
    "\<And>r m rest. holds view r (concat pss) rest \<Longrightarrow> distinct ids \<Longrightarrow> set ids \<inter> set (um_keys m) = {} \<Longrightarrow>
      \<exists>r'. foldR ?recv ids (m, r) = Inr (m @ map (\<lambda>sid. (sid, map received (tasks sid))) ids, r') \<and> holds view r' [] rest"
    unfolding list.pred_inject by blast
  obtain ps where ps: "send_task_commands (tasks sid) (int (length (tasks sid))) = Inr ps"
    "\<And>r qs rest. holds view r (ps @ qs) rest \<Longrightarrow>
      \<exists>r'. recv_tasks blpop b sid (length (tasks sid)) r = Inr (map received (tasks sid), r') \<and> holds view r' qs rest"
    using tasks_travel [OF redis, of b sid "tasks sid"] Cons.prems unfolding list.pred_inject by blast
  have "\<exists>r'. foldR ?recv (sid # ids) (m, r) = Inr (m @ map (\<lambda>sid. (sid, map received (tasks sid))) (sid # ids), r') \<and>
      holds view r' [] rest"
    if h: "holds view r (concat (ps # pss)) rest" and d: "distinct (sid # ids)" "set (sid # ids) \<inter> set (um_keys m) = {}" for r m rest
  proof -
    from ps(2) [of r "concat pss"] h obtain r1 where
      r1: "recv_tasks blpop b sid (length (tasks sid)) r = Inr (map received (tasks sid), r1)" "holds view r1 (concat pss) rest" by auto
    have new: "um_insert sid (map received (tasks sid)) m = m @ [(sid, map received (tasks sid))]"
      using d by (simp add: um_insert_def um_has_def)
    from pss(2) [OF r1(2), of "m @ [(sid, map received (tasks sid))]"] d show ?thesis
      by (auto simp: r1(1) new recv_stripe_def)
  qed
  then show ?case using ps(1) pss(1) by auto
qed

text \<open>C37: What the coordinator sends is what the agent gets: for a well-formed batch of tasks,
  \<open>NodeBatchTask::sendCommands\<close> succeeds, and an agent whose server was empty reads from it, with
  \<open>readInstructions\<close> and \<open>recvBatchTasks\<close>, the batch id, the stripes with their task counts, and for
  each stripe all its tasks in order; it takes every message off the server and blocks on none.\<close>

theorem dispatch_received:
  assumes "redis_lists view rpush blpop" and "nb_ok nb" and "\<And>j. view r j = []"
  shows "\<exists>ps r'. sendCommands nb = Inr ps \<and>
    readInstructions blpop (push_all rpush ps r) = Inr (new_NodeBatchTask (nb_batch_id nb) (nb_stripe_ids nb) (nb_nums nb)
      (map (\<lambda>sid. (sid, map received (um_get [] (nb_taskmap nb) sid))) (nb_stripe_ids nb)) 0, r') \<and>
    (\<forall>j. view r' j = [])"
proof -
  let ?ids = "nb_stripe_ids nb" and ?tasks = "um_get [] (nb_taskmap nb)" and ?b = "nb_batch_id nb"
  have nums: "nb_nums nb = map (\<lambda>sid. int (length (?tasks sid))) ?ids"
    and ids: "i32 ?b" "distinct ?ids" "list_all i32 ?ids" "length ?ids < 2 ^ 31"
    and ok: "list_all (\<lambda>sid. list_all (deliverable ?b sid) (?tasks sid)) ?ids"
    and len: "list_all (\<lambda>sid. length (?tasks sid) < 2 ^ 31) ?ids"
    using assms(2) by (auto simp: nb_ok_def list_ok_def list_all_iff)
  have "list_all i32 (nb_nums nb)" using len by (auto simp: nums list_all_iff i32_length)
  with ag_travels [of ?ids "nb_nums nb" ?b] ids nums obtain c where
    c: "buildAGCommand ?b (int (length ?ids)) ?ids (nb_nums nb) new_ag_buf = Inr c"
      "parseAGCommand (bytes c) = Inr \<lparr>ag_batch_id = ?b, ag_num_stripes = int (length ?ids),
        ag_stripe_id_list = ?ids, ag_stripe_task_num = nb_nums nb\<rparr>" by auto
  obtain pss where pss: "mapR (\<lambda>sid. send_task_commands (?tasks sid) (int (length (?tasks sid)))) ?ids = Inr pss"
      "\<And>r rest. holds view r (concat pss) rest \<Longrightarrow>
        \<exists>r'. foldR (\<lambda>sid. recv_stripe blpop ?b sid (int (length (?tasks sid)))) ?ids ([], r) =
            Inr (map (\<lambda>sid. (sid, map received (?tasks sid))) ?ids, r') \<and> holds view r' [] rest"
  proof -
    from stripes_travel [OF assms(1) ok] obtain pss where
      1: "mapR (\<lambda>sid. send_task_commands (?tasks sid) (int (length (?tasks sid)))) ?ids = Inr pss" and
      2: "\<forall>r m rest. holds view r (concat pss) rest \<and> distinct ?ids \<and> set ?ids \<inter> set (um_keys m) = {} \<longrightarrow>
        (\<exists>r'. foldR (\<lambda>sid. recv_stripe blpop ?b sid (int (length (?tasks sid)))) ?ids (m, r) =
            Inr (m @ map (\<lambda>sid. (sid, map received (?tasks sid))) ?ids, r') \<and> holds view r' [] rest)"
      by (elim exE conjE)
    show thesis
    proof (rule that [OF 1])
      fix r rest assume "holds view r (concat pss) rest"
      with 2 [THEN spec, of r, THEN spec, of "[]", THEN spec, of rest] ids(2) show "\<exists>r'. foldR (\<lambda>sid. recv_stripe blpop ?b sid (int (length (?tasks sid)))) ?ids ([], r) =
          Inr (map (\<lambda>sid. (sid, map received (?tasks sid))) ?ids, r') \<and> holds view r' [] rest" by simp
    qed
  qed
  let ?ps = "(''ag_request'', bytes c) # concat pss"
  have "sendAGCommand nb = Inr [(''ag_request'', bytes c)]" by (simp add: sendAGCommand_def c(1))
  moreover have "sendTaskCommands nb = Inr (concat pss)"
    by (simp add: sendTaskCommands_def nums vget_both mapR_vget pss(1))
  ultimately have send: "sendCommands nb = Inr ?ps" by (simp add: sendCommands_def)
  from holds_pop [OF assms(1) holds_push_all [OF assms(1,3)], of "''ag_request''" "bytes c" "concat pss"]
  obtain r1 where r1: "blpop ''ag_request'' (push_all rpush ?ps r) = Inr (bytes c, r1)"
    "holds view r1 (concat pss) (\<lambda>_. [])" by blast
  from pss(2) [OF r1(2)] obtain r' where r': "foldR (\<lambda>sid. recv_stripe blpop ?b sid (int (length (?tasks sid)))) ?ids ([], r1) =
      Inr (map (\<lambda>sid. (sid, map received (?tasks sid))) ?ids, r')" "holds view r' [] (\<lambda>_. [])" by blast
  have "foldR (\<lambda>i s. bindR (vget ?ids i) (\<lambda>stripeid. bindR (vget (nb_nums nb) i) (\<lambda>tasknum.
          recv_stripe blpop ?b stripeid tasknum s))) (map int [0..<nat (int (length ?ids))]) ([], r1) =
      foldR (\<lambda>sid. recv_stripe blpop ?b sid (int (length (?tasks sid)))) ?ids ([], r1)"
    unfolding nums using foldR_vget [of ?ids "\<lambda>sid. recv_stripe blpop ?b sid (int (length (?tasks sid)))"]
    by (simp add: vget_both)
  then have "recvBatchTasks blpop ?b (int (length ?ids)) ?ids (nb_nums nb) r1 =
      Inr (new_NodeBatchTask ?b ?ids (nb_nums nb) (map (\<lambda>sid. (sid, map received (?tasks sid))) ?ids) 0, r')"
    unfolding recvBatchTasks_def r'(1) by simp
  then show ?thesis
    using send r1(1) c(2) r'(2) by (auto simp: readInstructions_def holds_def)
qed

definition sample_batch :: node_batch where
  "sample_batch = new_NodeBatchTask 7 [3] [2]
     [(3, [buildRecvTask 2 [4, 5] (new_task 7 3),
           buildComputeTask 3 [new_compute_item 9 [4, 5] [1, 2] (True, False)] (new_task 7 3)])] 1"

lemma dispatch_received_witness:
  "\<exists>ps r'. sendCommands sample_batch = Inr ps \<and>
    readInstructions fun_blpop (push_all fun_rpush ps (\<lambda>_. [])) = Inr (new_NodeBatchTask 7 [3] [2]
      [(3, [received (buildRecvTask 2 [4, 5] (new_task 7 3)),
            received (buildComputeTask 3 [new_compute_item 9 [4, 5] [1, 2] (True, False)] (new_task 7 3))])] 0, r')"
proof -
  have "nb_ok sample_batch"
    by (simp add: nb_ok_def sample_batch_def new_NodeBatchTask_def um_get_def deliverable_def sendable_def computable_def
        fresh_buf_def buildRecvTask_def buildComputeTask_def new_task_def calloc_buf_def list_ok_def i32_def item_ok_def
        new_compute_item_def)
  from dispatch_received [OF redis_lists_fun this, of "\<lambda>_. []"] show ?thesis
    by (auto simp: fun_view_def sample_batch_def new_NodeBatchTask_def um_get_def)
qed

section \<open>Finish flags\<close>

lemma first_index_nth: "distinct xs \<Longrightarrow> i < length xs \<Longrightarrow> first_index (xs ! i) xs = Some (int i)"
proof (induction xs arbitrary: i)
  case (Cons x xs)
  then show ?case by (cases i) (auto simp: nth_mem)
qed simp

lemma first_index_none: "ip \<notin> set xs \<Longrightarrow> first_index ip xs = None"
  by (induction xs) auto

text \<open>The coordinator waits for the flag that the agent raises: when all servers have different
  addresses, the node id that an agent derives from its own address in \<open>sendFinishFlag\<close> is the one
  the coordinator sent the batch to, so the agent pushes the key that \<open>waitFinishFlag\<close> blocks on.\<close>

theorem finish_flag_reaches:
  assumes "distinct (agents @ repairs)" and "0 \<le> nodeid" and "nodeid < int (length agents + length repairs)"
  shows "\<exists>ip. agent_ip agents repairs nodeid = Inr ip \<and> worker_nodeid agents repairs ip = nodeid \<and>
    finish_key agents repairs ip batchid = wait_key batchid nodeid"
proof (cases "nodeid < int (length agents)")
  case True
  then have "agent_ip agents repairs nodeid = Inr (agents ! nat nodeid)" using assms(2) by (simp add: agent_ip_def)
  moreover have "worker_nodeid agents repairs (agents ! nat nodeid) = nodeid"
    using first_index_nth [of agents "nat nodeid"] assms(1,2) True by (simp add: worker_nodeid_def)
  ultimately show ?thesis by (simp add: finish_key_def wait_key_def)
next
  case False
  let ?i = "nat (nodeid - int (length agents))"
  have i: "?i < length repairs" using assms(3) False by linarith
  have "agent_ip agents repairs nodeid = Inr (repairs ! ?i)" using False i by (simp add: agent_ip_def)
  moreover have "repairs ! ?i \<notin> set agents" using assms(1) i by (auto dest: nth_mem)
  then have "worker_nodeid agents repairs (repairs ! ?i) = nodeid"
    using first_index_nth [of repairs ?i] assms(1) i False by (simp add: worker_nodeid_def first_index_none)
  ultimately show ?thesis by (simp add: finish_key_def wait_key_def)
qed

lemma finish_flag_reaches_witness:
  "\<exists>ip. agent_ip [10, 11] [12] 2 = Inr ip \<and> finish_key [10, 11] [12] ip 5 = wait_key 5 2"
  using finish_flag_reaches [of "[10, 11]" "[12]" 2 5] by auto

section \<open>The pipeline of replies\<close>

lemma reply_loop_eq: "reply_loop n = (int n, max 0 (int n - 10))"
  by (induction n) (auto simp: reply_loop_def append_reply_def)

text \<open>\<open>sendTaskCommands\<close> never leaves more than ten commands unanswered once it has read a reply
  for the command it appended, and before it returns it has read exactly one reply for each.\<close>

theorem reply_window:
  "fst (reply_loop n) - snd (reply_loop n) \<le> 10 \<and> reply_drain (reply_loop n) = (int n, int n)"
proof -
  have "fold (\<lambda>_ r. r + 1) xs a = a + int (length xs)" for xs :: "int list" and a
    by (induction xs arbitrary: a) auto
  then show ?thesis by (auto simp: reply_loop_eq reply_drain_def)
qed

end
