(* ===== verification/Worker.thy ===== *)
theory Worker
  imports Threads DataPacket Dispatch
begin

text \<open>
  The agent's data plane (src/src/common/Worker.cc, Worker.hh): the queues of a stripe and the
  threads that read blocks, send, receive and store sub-packets. Theory Worker_Compute adds the
  threads that compute.

  A thread is an \<open>io\<close> value of theory Threads. Its channels are the blocking queues of the agent
  \<open>Queue ip stripe key\<close>, the lists on Redis servers \<open>Server ip key\<close> and the files the agent appends
  to. A queue holds pointers to packets, a server or a file holds bytes.

  The replies to pushes are not modelled, only their order at each server matters. The receiver
  pipelines its \<open>blpop\<close>s: it takes the elements in the order of its commands.
\<close>

section \<open>Channels and configuration\<close>

datatype chan =
    Queue nat int int        \<comment> \<open>agent, stripe, key in the \<open>DataMap\<close>\<close>
  | Server nat string
  | File nat string

datatype item = Packet packet | Bytes string

type_synonym 'a thread = "(chan, item, 'a) io"

record worker_conf =
  localIp :: nat
  blkBytes :: int
  pktBytes :: int
  conf_ecw :: int
  agentsIPs :: "nat list"
  repairIPs :: "nat list"
  blkDir :: string
  recvGroupSize :: int
  computeGroupSize :: int

text \<open>The size of a sub-packet and the number of packets per block, as every thread computes them.\<close>

definition packet_sizes :: "worker_conf \<Rightarrow> (int \<times> int) res" where
  "packet_sizes w =
     (let pktbytes = pktBytes w * conf_ecw w in
      bindR (cdiv pktbytes (conf_ecw w)) (\<lambda>subpktbytes.
      bindR (cdiv (blkBytes w) pktbytes) (\<lambda>pktnum. Inr (subpktbytes, pktnum))))"

section \<open>The queues of a stripe\<close>

text \<open>
  \<open>DataMap\<close>: the keys that have a queue. A vertex \<open>d\<close> that is used on its own node is queued under
  \<open>d\<close>, one that is sent away under \<open>-d\<close>, or under \<open>KEY0\<close> when \<open>d\<close> is 0.
\<close>

type_synonym data_map = "int list"

definition KEY0 :: int where
  "KEY0 = -32767"

definition createQueue :: "int \<Rightarrow> data_map \<Rightarrow> data_map" where
  "createQueue dagidx m = (if dagidx \<in> set m then m else m @ [dagidx])"

definition getQueue :: "worker_conf \<Rightarrow> int \<Rightarrow> data_map \<Rightarrow> int \<Rightarrow> chan option" where
  "getQueue w stripeid m dagidx = (if dagidx \<in> set m then Some (Queue (localIp w) stripeid dagidx) else None)"

definition cache_key :: "int \<Rightarrow> int" where
  "cache_key dagidx = (if dagidx = 0 then KEY0 else -1 * dagidx)"

definition create_used :: "int \<Rightarrow> bool \<times> bool \<Rightarrow> data_map \<Rightarrow> data_map" where
  "create_used dagidx usage m =
     (let m1 = (if fst usage then createQueue dagidx m else m)
      in if snd usage then createQueue (cache_key dagidx) m1 else m1)"

definition prepareDataMap :: "task \<Rightarrow> data_map \<Rightarrow> data_map res" where
  "prepareDataMap t m =
     (if ttype t = Some 0 then
        if blk_name t = ''ZERO'' then Inr (fold createQueue (dagidx_list t) m)
        else foldR (\<lambda>i m. bindR (vget (dagidx_list t) i) (\<lambda>dagidx. bindR (vget (usage_list t) i) (\<lambda>usage.
               Inr (create_used dagidx usage m)))) (map int [0..<length (dagidx_list t)]) m
      else if ttype t = Some 2 then Inr (fold createQueue (dagidx_list t) m)
      else if ttype t = Some 3 then Inr (fold (\<lambda>ci. create_used (ci_dstidx ci) (ci_usage ci)) (compute_list t) m)
      else Inr m)"

text \<open>\<open>prepareBQ\<close> does the same to the agent's own map \<open>_datamap\<close>; only the sequential variant of
  \<open>repairBatch\<close>, which is commented out, calls it.\<close>

definition prepareBQ :: "task \<Rightarrow> data_map \<Rightarrow> data_map res" where
  "prepareBQ t m =
     (if ttype t = Some 0 then
        if blk_name t = ''ZERO'' then Inr (fold createQueue (dagidx_list t) m)
        else foldR (\<lambda>i m. bindR (vget (dagidx_list t) i) (\<lambda>dagidx. bindR (vget (usage_list t) i) (\<lambda>usage.
               Inr (create_used dagidx usage m)))) (map int [0..<length (dagidx_list t)]) m
      else if ttype t = Some 2 then Inr (fold createQueue (dagidx_list t) m)
      else if ttype t = Some 3 then Inr (fold (\<lambda>ci. create_used (ci_dstidx ci) (ci_usage ci)) (compute_list t) m)
      else Inr m)"

section \<open>Pushing and popping packets\<close>

definition push_to :: "chan option \<Rightarrow> packet \<Rightarrow> unit thread" where
  \<comment> \<open>\<open>queue->push(pkt)\<close>\<close>
  "push_to q p = (case q of None \<Rightarrow> Crash NullNode | Some c \<Rightarrow> put c (Packet p))"

definition pop_from :: "chan option \<Rightarrow> packet thread" where
  \<comment> \<open>\<open>queue->pop()\<close>\<close>
  "pop_from q = (case q of None \<Rightarrow> Crash NullNode
     | Some c \<Rightarrow> Get c (\<lambda>v. case v of Packet p \<Rightarrow> Ret p | Bytes bs \<Rightarrow> Crash BadBuffer))"

definition push_used :: "worker_conf \<Rightarrow> int \<Rightarrow> data_map \<Rightarrow> bool \<Rightarrow> int \<Rightarrow> bool \<times> bool \<Rightarrow> packet \<Rightarrow> unit thread" where
  \<comment> \<open>one packet for the own node, one for others; \<open>cache_first\<close>: which of the two is pushed first\<close>
  "push_used w sid m cache_first dagidx usage p =
     (let readqueue = getQueue w sid m dagidx; cachequeue = getQueue w sid m (cache_key dagidx) in
      if fst usage \<and> snd usage then
        bindP (liftP (duplicateBy p (new_packet (getDatalen p)))) (\<lambda>cachepkt.
          if cache_first then bindP (push_to cachequeue cachepkt) (\<lambda>_. push_to readqueue p)
          else bindP (push_to readqueue p) (\<lambda>_. push_to cachequeue cachepkt))
      else if snd usage then push_to cachequeue p
      else if fst usage then push_to readqueue p
      else Ret ())"

section \<open>Reading\<close>

definition vset :: "'a list \<Rightarrow> int \<Rightarrow> 'a \<Rightarrow> 'a list res" where
  "vset xs i v = (if 0 \<le> i \<and> nat i < length xs then Inr (xs[nat i := v]) else Inl BadIndex)"

definition read_pattern :: "int \<Rightarrow> int list \<Rightarrow> (int list \<times> int umap) res" where
  \<comment> \<open>\<open>pattern\<close> and \<open>off2dagidx\<close>\<close>
  "read_pattern ecw dagidxs =
     foldR (\<lambda>dagidx (pattern, off2dagidx). bindR (cmod dagidx ecw) (\<lambda>j. bindR (vset pattern j 1) (\<lambda>pattern.
              Inr (pattern, um_insert j dagidx off2dagidx))))
       dagidxs (replicate (nat ecw) 0, [])"

definition usage_map_of :: "task \<Rightarrow> (bool \<times> bool) umap res" where
  "usage_map_of t =
     foldR (\<lambda>i m. bindR (vget (dagidx_list t) i) (\<lambda>dagidx. bindR (vget (usage_list t) i) (\<lambda>usage.
              Inr (um_insert dagidx usage m)))) (map int [0..<length (dagidx_list t)]) []"

text \<open>
  \<open>disk ip blkname\<close> is what \<open>pread\<close> answers on the file that the agent finds for a block: at an
  offset, at the \<open>k\<close>-th attempt, for a number of bytes.
\<close>

type_synonym disk = "nat \<Rightarrow> string \<Rightarrow> int \<Rightarrow> nat \<Rightarrow> int \<Rightarrow> string option"

definition read_subpacket :: "worker_conf \<Rightarrow> disk \<Rightarrow> int \<Rightarrow> data_map \<Rightarrow> string \<Rightarrow> (bool \<times> bool) umap \<Rightarrow> int umap \<Rightarrow> int \<Rightarrow> int \<Rightarrow> int \<Rightarrow> unit thread" where
  \<comment> \<open>the \<open>j\<close>-th sub-packet of packet \<open>i\<close>\<close>
  "read_subpacket w disk sid m blkname usage_map off2dagidx subpktbytes i j =
     (let dagidx = um_get 0 off2dagidx j;
          start = i * (pktBytes w * conf_ecw w) + j * subpktbytes in
      case read_loop (disk (localIp w) blkname start) subpktbytes 0 [] of
        None \<Rightarrow> Crash NoReturn
      | Some bs \<Rightarrow> push_used w sid m False dagidx (um_get (False, False) usage_map dagidx) (set_data bs (new_packet subpktbytes)))"

definition readRealBlock :: "worker_conf \<Rightarrow> disk \<Rightarrow> int \<Rightarrow> data_map \<Rightarrow> task \<Rightarrow> unit thread" where
  "readRealBlock w disk sid m t =
     bindP (liftP (usage_map_of t)) (\<lambda>usage_map.
     bindP (liftP (packet_sizes w)) (\<lambda>(subpktbytes, pktnum).
     bindP (liftP (read_pattern (conf_ecw w) (dagidx_list t))) (\<lambda>(pattern, off2dagidx).
       forP (\<lambda>i _. forP (\<lambda>j _.
              if pattern ! j = 0 then Ret ()
              else read_subpacket w disk sid m (blk_name t) usage_map off2dagidx subpktbytes (int i) (int j))
            [0..<nat (conf_ecw w)] ()) [0..<nat pktnum] ())))"

definition readVirtBlock :: "worker_conf \<Rightarrow> int \<Rightarrow> data_map \<Rightarrow> task \<Rightarrow> unit thread" where
  "readVirtBlock w sid m t =
     bindP (liftP (packet_sizes w)) (\<lambda>(subpktbytes, pktnum).
       forP (\<lambda>i _. forP (\<lambda>dagidx _. push_to (getQueue w sid m dagidx) (new_packet subpktbytes)) (dagidx_list t) ())
         [0..<nat pktnum] ())"

section \<open>Sending\<close>

definition pkt_key :: "int \<Rightarrow> int \<Rightarrow> int \<Rightarrow> string" where
  "pkt_key batchid stripeid dagidx =
     to_string batchid @ '':'' @ to_string stripeid @ '':dagidx:'' @ to_string dagidx"

definition node_ip :: "worker_conf \<Rightarrow> int \<Rightarrow> nat res" where
  "node_ip w = agent_ip (agentsIPs w) (repairIPs w)"

definition raw_bytes :: "packet \<Rightarrow> string" where
  \<comment> \<open>the \<open>rawlen\<close> bytes that \<open>RPUSH\<close> sends\<close>
  "raw_bytes p = take (nat (getDatalen p + 4)) (getRaw p)"

definition contexts :: "worker_conf \<Rightarrow> int list \<Rightarrow> nat umap res" where
  \<comment> \<open>\<open>redisCtxMap\<close>\<close>
  "contexts w nodeids =
     foldR (\<lambda>nodeid m. bindR (node_ip w nodeid) (\<lambda>ip. Inr (um_insert nodeid ip m))) nodeids []"

definition push_packet :: "nat umap \<Rightarrow> string \<Rightarrow> packet \<Rightarrow> int list \<Rightarrow> unit thread" where
  "push_packet ctx key p nodeids = forP (\<lambda>nodeid _. put (Server (um_get 0 ctx nodeid) key) (Bytes (raw_bytes p))) nodeids ()"

definition send_targets :: "task \<Rightarrow> (int list umap \<times> int list) res" where
  \<comment> \<open>\<open>dagidx2sendtolist\<close> and \<open>nodeidlist\<close>\<close>
  "send_targets t =
     foldR (\<lambda>i (d2s, nodeids). bindR (vget (dagidx_list t) i) (\<lambda>dagidx. bindR (vget (send_to_list t) i) (\<lambda>sendtos.
              Inr (um_insert dagidx sendtos d2s, fold add_color sendtos nodeids))))
       (map int [0..<length (dagidx_list t)]) ([], [])"

definition sendOneByOne :: "worker_conf \<Rightarrow> int \<Rightarrow> int \<Rightarrow> data_map \<Rightarrow> task \<Rightarrow> unit thread" where
  "sendOneByOne w batchid sid m t =
     bindP (liftP (send_targets t)) (\<lambda>(d2s, nodeids).
     bindP (liftP (contexts w nodeids)) (\<lambda>ctx.
     bindP (liftP (packet_sizes w)) (\<lambda>(_, pktnum).
       forP (\<lambda>pktid _. forP (\<lambda>dagidx _.
              bindP (pop_from (getQueue w sid m (cache_key dagidx))) (\<lambda>curslice.
                push_packet ctx (pkt_key batchid sid dagidx) curslice (um_get [] d2s dagidx)))
            (dagidx_list t) ()) [0..<nat pktnum] ())))"

text \<open>The grouped variant: one thread per node for the sub-packets that go to one node only, one
  thread for each of the others.\<close>

definition sendToNode :: "worker_conf \<Rightarrow> int \<Rightarrow> int \<Rightarrow> data_map \<Rightarrow> int \<Rightarrow> int list \<Rightarrow> unit thread" where
  "sendToNode w batchid sid m nodeid dagidxs =
     bindP (liftP (node_ip w nodeid)) (\<lambda>ip.
     bindP (liftP (packet_sizes w)) (\<lambda>(_, pktnum).
       forP (\<lambda>pktid _. forP (\<lambda>dagidx _.
              bindP (pop_from (getQueue w sid m (cache_key dagidx))) (\<lambda>curslice.
                put (Server ip (pkt_key batchid sid dagidx)) (Bytes (raw_bytes curslice))))
            dagidxs ()) [0..<nat pktnum] ()))"

definition sendDagidx :: "worker_conf \<Rightarrow> int \<Rightarrow> int \<Rightarrow> data_map \<Rightarrow> int \<Rightarrow> int list \<Rightarrow> unit thread" where
  "sendDagidx w batchid sid m dagidx nodeids =
     bindP (liftP (contexts w nodeids)) (\<lambda>ctx.
     bindP (liftP (packet_sizes w)) (\<lambda>(_, pktnum).
       forP (\<lambda>pktid _. bindP (pop_from (getQueue w sid m (cache_key dagidx))) (\<lambda>curslice.
                push_packet ctx (pkt_key batchid sid dagidx) curslice nodeids))
            [0..<nat pktnum] ()))"

definition send_groups :: "task \<Rightarrow> (int list umap \<times> int list umap) res" where
  \<comment> \<open>\<open>nodeid2dagidxlist\<close> and \<open>dagidx2nodeidlist\<close>\<close>
  "send_groups t =
     foldR (\<lambda>i (n2d, d2n). bindR (vget (dagidx_list t) i) (\<lambda>dagidx. bindR (vget (send_to_list t) i) (\<lambda>nodeids.
              Inr (case nodeids of [nodeid] \<Rightarrow> (um_push nodeid dagidx n2d, d2n)
                                 | _ \<Rightarrow> (n2d, um_insert dagidx nodeids d2n)))))
       (map int [0..<length (dagidx_list t)]) ([], [])"

definition sendGroups :: "worker_conf \<Rightarrow> int \<Rightarrow> int \<Rightarrow> data_map \<Rightarrow> task \<Rightarrow> unit thread list res" where
  \<comment> \<open>the threads that it starts and joins\<close>
  "sendGroups w batchid sid m t =
     bindR (send_groups t) (\<lambda>(n2d, d2n).
       Inr (map (\<lambda>(nodeid, dagidxs). sendToNode w batchid sid m nodeid dagidxs) n2d @
            map (\<lambda>(dagidx, nodeids). sendDagidx w batchid sid m dagidx nodeids) d2n))"

section \<open>Receiving\<close>

definition recvList :: "worker_conf \<Rightarrow> int \<Rightarrow> int \<Rightarrow> data_map \<Rightarrow> int list \<Rightarrow> unit thread" where
  "recvList w batchid sid m dagidxs =
     bindP (liftP (packet_sizes w)) (\<lambda>(_, pktnum).
       forP (\<lambda>i _. forP (\<lambda>dagidx _.
              bindP (get (Server (localIp w) (pkt_key batchid sid dagidx))) (\<lambda>content.
                case content of Packet p \<Rightarrow> Crash BadBuffer
                | Bytes bs \<Rightarrow> bindP (liftP (packet_of_raw bs)) (push_to (getQueue w sid m dagidx))))
            dagidxs ()) [0..<nat pktnum] ())"

definition recvOneByOne :: "worker_conf \<Rightarrow> int \<Rightarrow> int \<Rightarrow> data_map \<Rightarrow> task \<Rightarrow> unit thread" where
  "recvOneByOne w batchid sid m t = recvList w batchid sid m (dagidx_list t)"

definition recv_groups :: "worker_conf \<Rightarrow> int list \<Rightarrow> int list list res" where
  "recv_groups w dagidxs =
     (let groupsize = recvGroupSize w; n = int (length dagidxs) in
      bindR (cdiv n groupsize) (\<lambda>q. bindR (cmod n groupsize) (\<lambda>r.
        let groupnum = (if r > 0 then q + 1 else q) in
        foldR (\<lambda>(i, dagidx) groups. bindR (cdiv i groupsize) (\<lambda>groupid.
                 bindR (vget groups groupid) (\<lambda>g. vset groups groupid (g @ [dagidx]))))
          (zip (map int [0..<length dagidxs]) dagidxs) (replicate (nat groupnum) []))))"

definition recvGroups :: "worker_conf \<Rightarrow> int \<Rightarrow> int \<Rightarrow> data_map \<Rightarrow> task \<Rightarrow> unit thread list res" where
  "recvGroups w batchid sid m t =
     bindR (recv_groups w (dagidx_list t)) (\<lambda>groups. Inr (map (recvList w batchid sid m) groups))"

section \<open>Storing the repaired block\<close>

fun persist_row :: "worker_conf \<Rightarrow> int \<Rightarrow> data_map \<Rightarrow> chan \<Rightarrow> int list \<Rightarrow> unit thread" where
  \<comment> \<open>one packet of every collected sub-block; an empty one ends the row\<close>
  "persist_row w sid m file [] = Ret ()"
| "persist_row w sid m file (dagidx # rest) =
     bindP (pop_from (getQueue w sid m dagidx)) (\<lambda>p.
       if getDatalen p = 0 then Ret ()
       else bindP (put file (Bytes (take (nat (getDatalen p)) (getData p)))) (\<lambda>_. persist_row w sid m file rest))"

definition repair_file :: "worker_conf \<Rightarrow> string \<Rightarrow> chan" where
  "repair_file w blkname = File (localIp w) (blkDir w @ ''/'' @ blkname @ ''.repair'')"

definition persist :: "worker_conf \<Rightarrow> int \<Rightarrow> int \<Rightarrow> data_map \<Rightarrow> task \<Rightarrow> unit thread" where
  "persist w batchid sid m t =
     bindP (liftP (packet_sizes w)) (\<lambda>(_, pktnum).
       forP (\<lambda>i _. persist_row w sid m (repair_file w (repaired_block t)) (collect_list t)) [0..<nat pktnum] ())"

end
