(* ===== verification/Worker_Compute.thy ===== *)
theory Worker_Compute
  imports Worker
begin

text \<open>
  The threads that compute (\<open>computeOneByOne\<close>, \<open>computeGroups\<close> and \<open>computeList\<close> of
  src/src/common/Worker.cc, \<open>ComputeGroup\<close> of Worker.hh, \<open>Computation::Multi\<close> of
  src/src/ec/Computation.cc), and the threads of a stripe (\<open>repairStripe\<close>, \<open>repairBatch\<close>).

  The vector multiplication of the library ISA-L (\<open>ec_init_tables\<close>, \<open>ec_encode_data\<close>) is a
  parameter \<open>isal len row srcs\<close>: the \<open>len\<close> bytes that one row of coefficients makes of the sources.
\<close>

section \<open>Computation::Multi\<close>

type_synonym isal = "int \<Rightarrow> string \<Rightarrow> string list \<Rightarrow> string"

definition Multi :: "isal \<Rightarrow> string list \<Rightarrow> int list \<Rightarrow> nat \<Rightarrow> nat \<Rightarrow> int \<Rightarrow> string list res" where
  \<comment> \<open>the branch for \<open>lib != "Jerasure"\<close>; a coefficient is cut to a \<open>char\<close>. Buffers that are too short are overrun.\<close>
  "Multi isal src mat rowCnt colCnt len =
     (if rowCnt * colCnt \<le> length mat \<and> colCnt \<le> length src \<and> list_all (\<lambda>b. nat len \<le> length b) (take colCnt src)
      then Inr (map (\<lambda>r. isal len (map char_of (take colCnt (drop (r * colCnt) mat))) (map (take (nat len)) (take colCnt src)))
                 [0..<rowCnt])
      else Inl BufferOverrun)"

section \<open>One item after the other\<close>

definition ci_matrix :: "compute_item \<Rightarrow> int list res" where
  \<comment> \<open>\<open>calloc(srclist.size())\<close>, then as many entries as there are coefficients\<close>
  "ci_matrix ci =
     (if length (ci_coefs ci) \<le> length (ci_srclist ci)
      then Inr (ci_coefs ci @ replicate (length (ci_srclist ci) - length (ci_coefs ci)) 0) else Inl BufferOverrun)"

definition matrix_map_of :: "compute_item list \<Rightarrow> int list umap res" where
  "matrix_map_of cis = foldR (\<lambda>ci m. bindR (ci_matrix ci) (\<lambda>mat. Inr (um_insert (ci_dstidx ci) mat m))) cis []"

definition input_list :: "compute_item list \<Rightarrow> int list" where
  "input_list cis = fold (\<lambda>ci. fold add_color (ci_srclist ci)) cis []"

text \<open>
  The state of the loop over the items: the buffers of \<open>bufMap\<close>, and the vertices whose buffer
  belongs to a packet that was already pushed, so that another thread may have freed it.
\<close>

definition pop_inputs :: "worker_conf \<Rightarrow> int \<Rightarrow> data_map \<Rightarrow> int list \<Rightarrow> string umap thread" where
  "pop_inputs w sid m inputs =
     forP (\<lambda>d bufs. bindP (pop_from (getQueue w sid m d)) (\<lambda>p. Ret (um_insert d (getData p) bufs))) inputs []"

definition compute_one ::
  "isal \<Rightarrow> worker_conf \<Rightarrow> int \<Rightarrow> data_map \<Rightarrow> int list umap \<Rightarrow> int \<Rightarrow> compute_item \<Rightarrow>
   string umap \<times> int list \<Rightarrow> (string umap \<times> int list) thread" where
  "compute_one isal w sid m matrix_map sub ci = (\<lambda>(bufs, handed).
     let dst = ci_dstidx ci; src = ci_srclist ci; usage = ci_usage ci;
         fresh = (\<not> um_has bufs dst);
         bufs1 = um_insert dst (replicate (nat sub) CHR 0x00) bufs
     in bindP (liftP (guardR AssertFailed (list_all (um_has bufs1) src))) (\<lambda>_.
        bindP (liftP (guardR BadBuffer (dst \<notin> set src \<and> dst \<notin> set handed))) (\<lambda>_.
        bindP (liftP (Multi isal (map (um_get [] bufs1) src) (um_get [] matrix_map dst) 1 (length src) sub)) (\<lambda>code.
        let out = hd code;
            bufs2 = um_put dst (out @ drop (length out) (um_get [] bufs1 dst)) bufs1;
            respkt = (if fresh then set_data out (new_packet sub) else new_packet sub)
        in bindP (push_used w sid m True dst usage respkt) (\<lambda>_.
             Ret (bufs2, if fresh \<and> (fst usage \<or> snd usage) then dst # handed else handed))))))"

definition computeOneByOne :: "isal \<Rightarrow> worker_conf \<Rightarrow> int \<Rightarrow> data_map \<Rightarrow> task \<Rightarrow> unit thread" where
  "computeOneByOne isal w sid m t =
     (let cis = compute_list t in
      bindP (liftP (packet_sizes w)) (\<lambda>(subpktbytes, pktnum).
      bindP (liftP (matrix_map_of cis)) (\<lambda>matrix_map.
        forP (\<lambda>pktid _. bindP (pop_inputs w sid m (input_list cis)) (\<lambda>bufs.
               bindP (forP (compute_one isal w sid m matrix_map subpktbytes) cis (bufs, [])) (\<lambda>_. Ret ())))
          [0..<nat pktnum] ())))"

section \<open>Groups of items\<close>

record compute_group =
  cg_list :: "compute_item list"
  cg_src :: "int list"     \<comment> \<open>the keys of \<open>_src_map\<close>; every value is 1\<close>

definition new_group :: compute_group where
  "new_group = \<lparr>cg_list = [], cg_src = []\<rparr>"

definition cg_match :: "compute_item \<Rightarrow> compute_group \<Rightarrow> bool" where
  "cg_match ci cg \<longleftrightarrow> list_ex (\<lambda>srcidx. srcidx \<in> set (cg_src cg)) (ci_srclist ci)"

definition cg_add :: "compute_item \<Rightarrow> compute_group \<Rightarrow> compute_group" where
  "cg_add ci cg = cg\<lparr>cg_list := cg_list cg @ [ci], cg_src := fold add_color (ci_srclist ci) (cg_src cg)\<rparr>"

definition canMerge :: "compute_group \<Rightarrow> int \<Rightarrow> compute_group \<Rightarrow> bool" where
  \<comment> \<open>an unsigned comparison: a negative \<open>limit\<close> is larger than any sum\<close>
  "canMerge cg limit tomerge \<longleftrightarrow> limit < 0 \<or> int (length (cg_list tomerge) + length (cg_list cg)) \<le> limit"

definition cg_merge :: "compute_group \<Rightarrow> compute_group \<Rightarrow> compute_group" where
  "cg_merge cg tomerge = fold cg_add (cg_list cg) tomerge"

fun group_item :: "compute_item \<Rightarrow> compute_group list \<Rightarrow> compute_group list" where
  \<comment> \<open>into the first group that shares a source, else a new group\<close>
  "group_item ci [] = [cg_add ci new_group]"
| "group_item ci (cg # cgs) = (if cg_match ci cg then cg_add ci cg # cgs else cg # group_item ci cgs)"

fun merge_group :: "int \<Rightarrow> compute_group \<Rightarrow> compute_group list \<Rightarrow> compute_group list" where
  "merge_group limit cg [] = [cg]"
| "merge_group limit cg (tomerge # cgs) =
     (if canMerge cg limit tomerge then cg_merge cg tomerge # cgs else tomerge # merge_group limit cg cgs)"

definition compute_groups :: "int \<Rightarrow> compute_item list \<Rightarrow> compute_group list" where
  "compute_groups limit cis = fold (merge_group limit) (fold group_item cis []) []"

definition group_row :: "int list \<Rightarrow> compute_item \<Rightarrow> int list res" where
  \<comment> \<open>one row of the matrix, over all inputs of the group\<close>
  "group_row inputs ci =
     bindR (foldR (\<lambda>(srcid, dagidx) d2c. bindR (vget (ci_coefs ci) srcid) (\<lambda>coef. Inr (um_insert dagidx coef d2c)))
              (zip (map int [0..<length (ci_srclist ci)]) (ci_srclist ci)) []) (\<lambda>d2c.
       Inr (map (um_get 0 d2c) inputs))"

definition group_usage :: "compute_item list \<Rightarrow> (bool \<times> bool) umap" where
  "group_usage cis = fold (\<lambda>ci. um_insert (ci_dstidx ci) (ci_usage ci)) cis []"

definition computeList :: "isal \<Rightarrow> worker_conf \<Rightarrow> int \<Rightarrow> data_map \<Rightarrow> compute_group \<Rightarrow> unit thread" where
  "computeList isal w sid m cg =
     (let cis = cg_list cg; inputs = cg_src cg in
      bindP (liftP (packet_sizes w)) (\<lambda>(subpktbytes, pktnum).
      bindP (liftP (mapR (group_row inputs) cis)) (\<lambda>rows.
        forP (\<lambda>pktid _.
          bindP (forP (\<lambda>d data. bindP (pop_from (getQueue w sid m d)) (\<lambda>p. Ret (data @ [getData p]))) inputs []) (\<lambda>data.
          bindP (liftP (Multi isal data (concat rows) (length cis) (length inputs) subpktbytes)) (\<lambda>code.
          let pkts = fold (\<lambda>(ci, out). um_insert (ci_dstidx ci) (set_data out (new_packet subpktbytes))) (zip cis code) []
          in forP (\<lambda>(dst, usage) _. push_used w sid m True dst usage (um_get (new_packet 0) pkts dst)) (group_usage cis) ())))
          [0..<nat pktnum] ())))"

definition computeGroups :: "isal \<Rightarrow> worker_conf \<Rightarrow> int \<Rightarrow> data_map \<Rightarrow> task \<Rightarrow> unit thread list" where
  "computeGroups isal w sid m t =
     map (computeList isal w sid m) (compute_groups (computeGroupSize w) (compute_list t))"

section \<open>The threads of a stripe and of a batch\<close>

definition of_type :: "int \<Rightarrow> task list \<Rightarrow> task list" where
  "of_type k ts = filter (\<lambda>t. ttype t = Some k) ts"

definition repairStripe ::
  "isal \<Rightarrow> disk \<Rightarrow> worker_conf \<Rightarrow> int \<Rightarrow> int \<Rightarrow> data_map \<Rightarrow> int \<Rightarrow> task list \<Rightarrow> unit thread list res" where
  \<comment> \<open>the threads that it starts and joins\<close>
  "repairStripe isal disk w batchid sid m tasknum tasklist =
     bindR (mapR (vget tasklist) (map int [0..<nat tasknum])) (\<lambda>ts.
       let reads = of_type 0 ts;
           virtread = filter (\<lambda>t. blk_name t = ''ZERO'') reads;
           realread = filter (\<lambda>t. blk_name t \<noteq> ''ZERO'') reads
       in Inr (map (readRealBlock w disk sid m) realread @ map (readVirtBlock w sid m) virtread @
               map (sendOneByOne w batchid sid m) (of_type 1 ts) @ map (recvOneByOne w batchid sid m) (of_type 2 ts) @
               map (computeOneByOne isal w sid m) (of_type 3 ts) @ map (persist w batchid sid m) (of_type 4 ts)))"

definition batch_maps :: "node_batch \<Rightarrow> data_map umap res" where
  \<comment> \<open>\<open>_stripe2datamap\<close> as \<open>repairBatch\<close> fills it\<close>
  "batch_maps nb =
     foldR (\<lambda>stripeid dms. bindR (foldR prepareDataMap (um_get [] (nb_taskmap nb) stripeid) []) (\<lambda>curmap.
              Inr (um_insert stripeid curmap dms))) (nb_stripe_ids nb) []"

definition repairBatch :: "isal \<Rightarrow> disk \<Rightarrow> worker_conf \<Rightarrow> node_batch \<Rightarrow> unit thread list res" where
  \<comment> \<open>the threads of all stripes; the finish flag follows when they have ended\<close>
  "repairBatch isal disk w nb =
     bindR (batch_maps nb) (\<lambda>dms.
     bindR (mapR (\<lambda>i. bindR (vget (nb_stripe_ids nb) i) (\<lambda>stripeid. bindR (vget (nb_nums nb) i) (\<lambda>tasknum.
              repairStripe isal disk w (nb_batch_id nb) stripeid (um_get [] dms stripeid) tasknum
                (um_get [] (nb_taskmap nb) stripeid))))
            (map int [0..<length (nb_stripe_ids nb)])) (\<lambda>tss. Inr (concat tss)))"

end
