(* ===== verification/Worker_Run.thy ===== *)
theory Worker_Run
  imports Worker_Compute
begin

text \<open>
  What each thread of theories Worker and Worker_Compute takes and gives, when every channel carries
  the packets of one vertex: \<open>pk s d i\<close> is the data of the \<open>i\<close>-th packet of vertex \<open>d\<close> of stripe \<open>s\<close>.
\<close>

section \<open>What the channels carry\<close>

definition vertex_of :: "int \<Rightarrow> int" where
  \<comment> \<open>the vertex behind the key of a queue\<close>
  "vertex_of k = (if k = KEY0 then 0 else \<bar>k\<bar>)"

definition vertex_ok :: "int \<Rightarrow> bool" where
  "vertex_ok d \<longleftrightarrow> 0 \<le> d \<and> d < REQUESTOR"

lemma vertex_of_key [simp]: "vertex_ok d \<Longrightarrow> vertex_of d = d" "vertex_ok d \<Longrightarrow> vertex_of (cache_key d) = d"
  by (auto simp: vertex_of_def vertex_ok_def cache_key_def KEY0_def REQUESTOR_def)

lemma cache_key_inj [simp]: "vertex_ok d \<Longrightarrow> vertex_ok e \<Longrightarrow> cache_key d = cache_key e \<longleftrightarrow> d = e"
  by (metis vertex_of_key(2))

lemma cache_key_other [simp]: "vertex_ok d \<Longrightarrow> vertex_ok e \<Longrightarrow> cache_key d \<noteq> e" "vertex_ok d \<Longrightarrow> vertex_ok e \<Longrightarrow> e \<noteq> cache_key d"
  by (auto simp: vertex_ok_def cache_key_def KEY0_def REQUESTOR_def)

definition key_vertex :: "int \<Rightarrow> string \<Rightarrow> int \<times> int" where
  "key_vertex b key = (SOME (s, d). key = pkt_key b s d)"

fun content :: "int \<Rightarrow> (int \<Rightarrow> int \<Rightarrow> nat \<Rightarrow> string) \<Rightarrow> (nat \<Rightarrow> string \<Rightarrow> int \<times> int list) \<Rightarrow> nat \<Rightarrow> chan \<Rightarrow> item list" where
  "content b pk coll i (Queue ip s k) = [Packet (packet_of (pk s (vertex_of k) i))]"
| "content b pk coll i (Server ip key) = [Bytes (getRaw (packet_of (pk (fst (key_vertex b key)) (snd (key_vertex b key)) i)))]"
| "content b pk coll i (File ip name) = map (\<lambda>d. Bytes (pk (fst (coll ip name)) d i)) (snd (coll ip name))"

definition whole :: "int \<Rightarrow> (int \<Rightarrow> int \<Rightarrow> nat \<Rightarrow> string) \<Rightarrow> (nat \<Rightarrow> string \<Rightarrow> int \<times> int list) \<Rightarrow> nat \<Rightarrow> chan \<Rightarrow> item list" where
  "whole b pk coll n c = concat (map (\<lambda>i. content b pk coll i c) [0..<n])"

text \<open>Keys of different sub-packets are different.\<close>

lemma nat_to_string_digits: "list_all is_digit (nat_to_string n) \<and> digits_value (nat_to_string n) = int n"
proof (induction n rule: nat_to_string.induct)
  case (1 n)
  show ?case
  proof (cases "n < 10")
    case True
    then show ?thesis by (simp add: nat_to_string.simps digits_value_def digit_char_int)
  next
    case False
    note n = nat_to_string.simps [of n, unfolded if_not_P [OF False]]
    have "int n = 10 * int (n div 10) + int (n mod 10)"
      by (metis div_mult_mod_eq mult.commute of_nat_add of_nat_mult of_nat_numeral)
    with 1 [OF False] show ?thesis by (simp add: n digits_value_append digit_char_int)
  qed
qed

lemma digits_only:
  assumes "list_all is_digit s" shows "CHR '':'' \<notin> set s" and "CHR ''-'' \<notin> set s"
  using assms by (auto simp: list_all_iff is_digit_def)

lemma colon_free: "CHR '':'' \<notin> set (to_string i)"
  using nat_to_string_digits digits_only(1) by (simp add: to_string_def)

lemma nat_to_string_inj: "nat_to_string n = nat_to_string k \<longleftrightarrow> n = k"
  using nat_to_string_digits by (metis of_nat_eq_iff)

lemma nat_to_string_no_sign: "nat_to_string n \<noteq> CHR ''-'' # s"
proof
  assume "nat_to_string n = CHR ''-'' # s"
  moreover have "CHR ''-'' \<notin> set (nat_to_string n)" using nat_to_string_digits digits_only(2) by blast
  ultimately show False by simp
qed

lemma to_string_inj: "to_string i = to_string j \<longleftrightarrow> i = j"
  using nat_to_string_no_sign [of "nat i" "nat_to_string (nat (- j))"]
    nat_to_string_no_sign [of "nat j" "nat_to_string (nat (- i))"]
  by (cases "i < 0"; cases "j < 0") (auto simp: to_string_def nat_to_string_inj)

lemma takeWhile_colon: "CHR '':'' \<notin> set s \<Longrightarrow> takeWhile (\<lambda>c. c \<noteq> CHR '':'') (s @ CHR '':'' # t) = s"
  by (induction s) auto

lemma split_at_colon:
  assumes "CHR '':'' \<notin> set s" and "CHR '':'' \<notin> set s'"
  shows "s @ CHR '':'' # t = s' @ CHR '':'' # t' \<longleftrightarrow> s = s' \<and> t = t'"
  using takeWhile_colon [OF assms(1), of t] takeWhile_colon [OF assms(2), of t'] by auto

lemma pkt_key_inj [simp]: "pkt_key b s d = pkt_key b' s' d' \<longleftrightarrow> b = b' \<and> s = s' \<and> d = d'"
  by (auto simp: pkt_key_def split_at_colon [OF colon_free colon_free] to_string_inj)

lemma key_vertex [simp]: "key_vertex b (pkt_key b s d) = (s, d)"
  unfolding key_vertex_def by (rule some_equality) auto

section \<open>Queues\<close>

lemma getQueue_Some [simp]: "k \<in> set m \<Longrightarrow> getQueue w s m k = Some (Queue (localIp w) s k)"
  by (simp add: getQueue_def)

lemma carries_push:
  assumes "k \<in> set m" and "p = packet_of (pk s (vertex_of k) i)"
  shows "carries (content b pk coll i) {} {Queue (localIp w) s k} (push_to (getQueue w s m k) p) ()"
  using assms by (simp add: push_to_def carries_put)

lemma carries_pop:
  assumes "k \<in> set m"
  shows "carries (content b pk coll i) {Queue (localIp w) s k} {} (pop_from (getQueue w s m k)) (packet_of (pk s (vertex_of k) i))"
  using assms by (auto simp: pop_from_def intro!: carries_Get gives_Ret)

definition used_chans :: "worker_conf \<Rightarrow> int \<Rightarrow> int \<Rightarrow> bool \<times> bool \<Rightarrow> chan set" where
  "used_chans w s d u = (if fst u then {Queue (localIp w) s d} else {}) \<union>
     (if snd u then {Queue (localIp w) s (cache_key d)} else {})"

definition used_keys :: "int \<Rightarrow> bool \<times> bool \<Rightarrow> int set" where
  "used_keys d u = (if fst u then {d} else {}) \<union> (if snd u then {cache_key d} else {})"

lemma used_chans_keys: "used_chans w s d u = Queue (localIp w) s ` used_keys d u"
  by (auto simp: used_chans_def used_keys_def)

lemma used_keys_disjoint: "vertex_ok d \<Longrightarrow> vertex_ok e \<Longrightarrow> d \<noteq> e \<Longrightarrow> used_keys d u \<inter> used_keys e v = {}"
  by (auto simp: used_keys_def)

lemma used_keys_vertex: "vertex_ok d \<Longrightarrow> k \<in> used_keys d u \<Longrightarrow> vertex_of k = d"
  by (auto simp: used_keys_def split: if_splits)

lemma carries_push_used:
  assumes d: "vertex_ok d" and m: "used_keys d u \<subseteq> set m" and p: "p = packet_of (pk s d i)"
  shows "carries (content b pk coll i) {} (used_chans w s d u) (push_used w s m cf d u p) ()"
proof -
  have dup: "duplicateBy p (new_packet (getDatalen p)) = Inr p"
    by (simp add: p new_packet_eq)
  have loc: "carries (content b pk coll i) {} {Queue (localIp w) s d} (push_to (getQueue w s m d) p) ()" if "fst u"
    using that m d p by (intro carries_push) (auto simp: used_keys_def)
  have cache: "carries (content b pk coll i) {} {Queue (localIp w) s (cache_key d)} (push_to (getQueue w s m (cache_key d)) p) ()"
    if "snd u"
    using that m d p by (intro carries_push) (auto simp: used_keys_def)
  consider "fst u" "snd u" | "\<not> fst u" "snd u" | "fst u" "\<not> snd u" | "\<not> fst u" "\<not> snd u" by blast
  then show ?thesis
  proof cases
    case 1
    have "carries (content b pk coll i) ({} \<union> {}) ({Queue (localIp w) s (cache_key d)} \<union> {Queue (localIp w) s d})
        (bindP (push_to (getQueue w s m (cache_key d)) p) (\<lambda>_. push_to (getQueue w s m d) p)) ()"
      using d by (intro carries_bind [OF cache loc]) (auto simp: 1)
    moreover have "carries (content b pk coll i) ({} \<union> {}) ({Queue (localIp w) s d} \<union> {Queue (localIp w) s (cache_key d)})
        (bindP (push_to (getQueue w s m d) p) (\<lambda>_. push_to (getQueue w s m (cache_key d)) p)) ()"
      using d by (intro carries_bind [OF loc cache]) (auto simp: 1)
    ultimately show ?thesis
      using 1 by (simp add: push_used_def dup used_chans_def Let_def insert_commute)
  qed (use loc cache in \<open>simp_all add: push_used_def used_chans_def Let_def carries_Ret\<close>)
qed

section \<open>Reading\<close>

definition pkt_len_ok :: "(int \<Rightarrow> int \<Rightarrow> nat \<Rightarrow> string) \<Rightarrow> int \<Rightarrow> bool" where
  \<comment> \<open>every packet holds \<open>sub\<close> bytes\<close>
  "pkt_len_ok pk sub \<longleftrightarrow> 0 < sub \<and> sub < 2 ^ 31 \<and> (\<forall>s d i. int (length (pk s d i)) = sub)"

lemma new_packet_filled:
  "pkt_len_ok pk sub \<Longrightarrow> set_data (pk s d i) (new_packet sub) = packet_of (pk s d i)"
proof -
  assume ok: "pkt_len_ok pk sub"
  then have "int (length (pk s d i)) = sub" by (simp add: pkt_len_ok_def)
  then have "length (pk s d i) = nat sub" by linarith
  with ok show ?thesis by (simp add: pkt_len_ok_def new_packet_eq)
qed

lemma read_pattern_ok:
  assumes "0 < ecw" and "\<And>d. d \<in> set ds \<Longrightarrow> 0 \<le> d" and "inj_on (\<lambda>d. d mod ecw) (set ds)" and "distinct ds"
  shows "\<exists>pat off. read_pattern ecw ds = Inr (pat, off) \<and> length pat = nat ecw \<and>
    (\<forall>j<nat ecw. pat ! j \<noteq> 0 \<longleftrightarrow> (\<exists>d\<in>set ds. d mod ecw = int j)) \<and>
    (\<forall>d\<in>set ds. um_get 0 off (d mod ecw) = d) \<and> (\<forall>k. um_has off k \<longrightarrow> (\<exists>d\<in>set ds. d mod ecw = k))"
  using assms(2-4)
proof (induction ds rule: rev_induct)
  case Nil
  then show ?case by (simp add: read_pattern_def um_has_def)
next
  case (snoc x ds)
  have inj: "inj_on (\<lambda>d. d mod ecw) (set ds)" by (rule inj_on_subset [OF snoc.prems(2)]) auto
  have pre: "\<And>d. d \<in> set ds \<Longrightarrow> 0 \<le> d" "distinct ds" using snoc.prems(1,3) by auto
  from snoc.IH [OF pre(1) inj pre(2)] obtain pat off where IH: "read_pattern ecw ds = Inr (pat, off)" "length pat = nat ecw"
    "\<And>j. j < nat ecw \<Longrightarrow> pat ! j \<noteq> 0 \<longleftrightarrow> (\<exists>d\<in>set ds. d mod ecw = int j)"
    "\<And>d. d \<in> set ds \<Longrightarrow> um_get 0 off (d mod ecw) = d"
    "\<And>k. um_has off k \<Longrightarrow> \<exists>d\<in>set ds. d mod ecw = k" by blast
  let ?j = "x mod ecw"
  have j: "0 \<le> ?j" "?j < ecw" using assms(1) by simp_all
  then have nj: "nat ?j < nat ecw" by linarith
  have new: "\<And>d. d \<in> set ds \<Longrightarrow> d mod ecw \<noteq> ?j"
    using snoc.prems(2,3) by auto (metis image_eqI)
  have fresh: "\<not> um_has off ?j" using IH(5) new by blast
  have x: "0 \<le> x" using snoc.prems(1) by simp
  have "read_pattern ecw (ds @ [x]) = Inr (pat[nat ?j := 1], um_insert ?j x off)"
    using IH(1) assms(1) x j nj IH(2) by (simp add: read_pattern_def foldR_append vset_def)
  moreover have "pat[nat ?j := 1] ! i \<noteq> 0 \<longleftrightarrow> (\<exists>d\<in>set (ds @ [x]). d mod ecw = int i)" if "i < nat ecw" for i
  proof (cases "i = nat ?j")
    case True
    then show ?thesis using IH(2) nj j(1) by simp
  next
    case False
    then have "?j \<noteq> int i" by auto
    then show ?thesis using False IH(3) [OF that] by simp
  qed
  moreover have "um_get 0 (um_insert ?j x off) (d mod ecw) = d" if "d \<in> set (ds @ [x])" for d
    using that IH(4) new by (auto simp: um_get_insert_new [OF fresh])
  moreover have "\<exists>d\<in>set (ds @ [x]). d mod ecw = k" if "um_has (um_insert ?j x off) k" for k
    using that IH(5) by (auto simp: um_has_def um_keys_insert split: if_splits)
  ultimately show ?case using IH(2) by (intro exI [of _ "pat[nat ?j := 1]"] exI [of _ "um_insert ?j x off"]) simp
qed

lemma foldR_index:
  \<comment> \<open>a loop over the indices of a list that reads two lists in step\<close>
  assumes "length us = length ds"
  shows "foldR (\<lambda>i s. bindR (vget ds i) (\<lambda>d. bindR (vget us i) (\<lambda>u. Inr (f d u s)))) (map int [0..<length ds]) s
    = Inr (fold (\<lambda>(d, u). f d u) (zip ds us) s)"
  using assms
proof (induction ds us arbitrary: s rule: rev_induct2)
  case (4 x xs y ys)
  have "foldR (\<lambda>i s. bindR (vget (xs @ [x]) i) (\<lambda>d. bindR (vget (ys @ [y]) i) (\<lambda>u. Inr (f d u s)))) (map int [0..<length xs]) s =
      foldR (\<lambda>i s. bindR (vget xs i) (\<lambda>d. bindR (vget ys i) (\<lambda>u. Inr (f d u s)))) (map int [0..<length xs]) s"
    using 4(2) by (intro foldR_cong) (auto simp: nth_append)
  with 4 show ?case by (simp add: foldR_append nth_append)
qed simp_all

lemma um_get_inserts:
  assumes "x \<in> set xs \<or> um_has m x"
  shows "um_get d (fold (\<lambda>x. um_insert x (f x)) xs m) x = (if um_has m x then um_get d m x else f x)"
  using assms
proof (induction xs arbitrary: m)
  case (Cons e xs)
  have "um_has (um_insert e (f e) m) x \<longleftrightarrow> um_has m x \<or> x = e" by (auto simp: um_has_iff map_of_um_insert)
  moreover have "um_get d (um_insert e (f e) m) x = (if um_has m x then um_get d m x else f e)"
    if "um_has m x \<or> x = e" using that by (auto simp: um_get_def um_has_iff map_of_um_insert split: option.splits)
  ultimately show ?case using Cons.IH [of "um_insert e (f e) m"] Cons.prems by auto
qed simp

lemma um_get_inserts_new: "x \<in> set xs \<Longrightarrow> um_get d (fold (\<lambda>x. um_insert x (f x)) xs []) x = f x"
  by (simp add: um_get_inserts um_has_def)

lemma fold_zip_map: "fold (\<lambda>(d, u). g d u) (zip ds (map u ds)) s = fold (\<lambda>d. g d (u d)) ds s"
  by (induction ds arbitrary: s) simp_all

lemma usage_map_of_ok:
  assumes "usage_list t = map u (dagidx_list t)"
  shows "\<exists>um. usage_map_of t = Inr um \<and> (\<forall>d\<in>set (dagidx_list t). um_get (False, False) um d = u d)"
  unfolding usage_map_of_def assms
  by (subst foldR_index) (simp_all add: fold_zip_map um_get_inserts_new)

text \<open>What every thread reads from the configuration.\<close>

definition sizes_are :: "worker_conf \<Rightarrow> int \<Rightarrow> nat \<Rightarrow> bool" where
  "sizes_are w sub n \<longleftrightarrow> packet_sizes w = Inr (sub, int n) \<and> 0 < conf_ecw w"

text \<open>The disk holds the sub-packets of a block, and delivers each with one \<open>pread\<close>.\<close>

definition on_disk :: "worker_conf \<Rightarrow> disk \<Rightarrow> (int \<Rightarrow> int \<Rightarrow> nat \<Rightarrow> string) \<Rightarrow> int \<Rightarrow> int \<Rightarrow> string \<Rightarrow> int \<Rightarrow> nat \<Rightarrow> bool" where
  "on_disk w disk pk sub s blk d n \<longleftrightarrow> (\<forall>i<n.
     disk (localIp w) blk (int i * (pktBytes w * conf_ecw w) + d mod conf_ecw w * sub) 0 sub = Some (pk s d i))"

lemma carries_read:
  assumes sz: "sizes_are w sub n" and len: "pkt_len_ok pk sub"
    and us: "usage_list t = map u (dagidx_list t)" and ds: "distinct (dagidx_list t)"
    and inj: "inj_on (\<lambda>d. d mod conf_ecw w) (set (dagidx_list t))"
    and ok: "\<And>d. d \<in> set (dagidx_list t) \<Longrightarrow> vertex_ok d"
    and keys: "\<And>d. d \<in> set (dagidx_list t) \<Longrightarrow> used_keys d (u d) \<subseteq> set m"
    and disk: "\<And>d. d \<in> set (dagidx_list t) \<Longrightarrow> on_disk w disk pk sub s (blk_name t) d n"
  shows "carries (whole b pk coll n) {} (\<Union>d\<in>set (dagidx_list t). used_chans w s d (u d)) (readRealBlock w disk s m t) ()"
proof -
  let ?ds = "set (dagidx_list t)" and ?w = "conf_ecw w"
  have w: "0 < ?w" using sz by (simp add: sizes_are_def)
  obtain um where um: "usage_map_of t = Inr um" "\<And>d. d \<in> ?ds \<Longrightarrow> um_get (False, False) um d = u d"
    using usage_map_of_ok [OF us] by blast
  obtain pat off where pat: "read_pattern ?w (dagidx_list t) = Inr (pat, off)"
    "\<And>j. j < nat ?w \<Longrightarrow> pat ! j \<noteq> 0 \<longleftrightarrow> (\<exists>d\<in>?ds. d mod ?w = int j)"
    "\<And>d. d \<in> ?ds \<Longrightarrow> um_get 0 off (d mod ?w) = d"
    using read_pattern_ok [OF w _ inj ds] ok by (auto simp: vertex_ok_def)
  have vert: "um_get 0 off (int j) \<in> ?ds \<and> um_get 0 off (int j) mod ?w = int j" if "j < nat ?w" "pat ! j \<noteq> 0" for j
    using pat(2) [OF that(1)] that(2) pat(3) by force
  let ?W = "\<lambda>j. if pat ! j = 0 then {} else used_chans w s (um_get 0 off (int j)) (u (um_get 0 off (int j)))"
  have round: "carries (content b pk coll i) {} (\<Union>d\<in>?ds. used_chans w s d (u d))
      (forP (\<lambda>j _. if pat ! j = 0 then Ret () else read_subpacket w disk s m (blk_name t) um off sub (int i) (int j))
         [0..<nat ?w] ()) ()" if i: "i < n" for i
  proof -
    have one: "carries (content b pk coll i) {} (?W j)
        (if pat ! j = 0 then Ret () else read_subpacket w disk s m (blk_name t) um off sub (int i) (int j)) ()"
      if j: "j \<in> set [0..<nat ?w]" for j
    proof (cases "pat ! j = 0")
      case False
      define d where "d = um_get 0 off (int j)"
      have d: "d \<in> ?ds" "d mod ?w = int j" using vert [of j] j False by (simp_all add: d_def)
      have "disk (localIp w) (blk_name t) (int i * (pktBytes w * ?w) + int j * sub) 0 sub = Some (pk s d i)"
        using disk [OF d(1)] i unfolding on_disk_def d(2) by blast
      then have "read_loop (disk (localIp w) (blk_name t) (int i * (pktBytes w * ?w) + int j * sub)) sub 0 [] = Some (pk s d i)"
        using len by (intro read_loop_one) (simp_all add: pkt_len_ok_def)
      then have "read_subpacket w disk s m (blk_name t) um off sub (int i) (int j) =
          push_used w s m False d (u d) (packet_of (pk s d i))"
        using um(2) [OF d(1)] by (simp add: read_subpacket_def d_def [symmetric] new_packet_filled [OF len])
      then show ?thesis
        using False carries_push_used [OF ok [OF d(1)] keys [OF d(1)] refl, of b pk coll i w s False] by (simp add: d_def)
    qed (simp add: carries_Ret)
    have disj: "?W j \<inter> ?W k = {}" if "j \<in> set [0..<nat ?w]" "k \<in> set [0..<nat ?w]" "j \<noteq> k" for j k
    proof (cases "pat ! j = 0 \<or> pat ! k = 0")
      case False
      let ?d = "um_get 0 off (int j)" and ?e = "um_get 0 off (int k)"
      have *: "?d \<in> ?ds" "?e \<in> ?ds" "?d mod ?w = int j" "?e mod ?w = int k"
        using vert [of j] vert [of k] that False by simp_all
      then have "?d \<noteq> ?e" using that(3) by auto
      from used_keys_disjoint [OF ok [OF *(1)] ok [OF *(2)] this, of "u ?d" "u ?e"] False
      show ?thesis by (simp add: used_chans_keys image_Int [symmetric] inj_on_def)
    qed auto
    have "carries (content b pk coll i) (\<Union>j\<in>set [0..<nat ?w]. {}) (\<Union>j\<in>set [0..<nat ?w]. ?W j)
        (forP (\<lambda>j _. if pat ! j = 0 then Ret () else read_subpacket w disk s m (blk_name t) um off sub (int i) (int j))
           [0..<nat ?w] ()) ()"
      using disj by (intro carries_forP one) auto
    moreover have "(\<Union>j\<in>set [0..<nat ?w]. ?W j) = (\<Union>d\<in>?ds. used_chans w s d (u d))"
    proof (intro equalityI subsetI)
      fix c assume "c \<in> (\<Union>j\<in>set [0..<nat ?w]. ?W j)"
      then obtain j where "j < nat ?w" "c \<in> ?W j" by auto
      then show "c \<in> (\<Union>d\<in>?ds. used_chans w s d (u d))" using vert [of j] by (cases "pat ! j = 0") auto
    next
      fix c assume "c \<in> (\<Union>d\<in>?ds. used_chans w s d (u d))"
      then obtain d where d: "d \<in> ?ds" "c \<in> used_chans w s d (u d)" by auto
      have j: "nat (d mod ?w) < nat ?w" "int (nat (d mod ?w)) = d mod ?w" using w by simp_all
      then have "pat ! nat (d mod ?w) \<noteq> 0" using pat(2) d(1) by auto
      then have "c \<in> ?W (nat (d mod ?w))" using d pat(3) [OF d(1)] j(2) by simp
      moreover have "nat (d mod ?w) \<in> set [0..<nat ?w]" using j(1) by simp
      ultimately show "c \<in> (\<Union>j\<in>set [0..<nat ?w]. ?W j)" by (rule UN_I [rotated])
    qed
    ultimately show ?thesis by simp
  qed
  have "readRealBlock w disk s m t = forP (\<lambda>i _. forP (\<lambda>j _. if pat ! j = 0 then Ret ()
      else read_subpacket w disk s m (blk_name t) um off sub (int i) (int j)) [0..<nat ?w] ()) [0..<n] ()"
    using sz by (simp add: readRealBlock_def um(1) pat(1) sizes_are_def)
  then show ?thesis
    unfolding whole_def by (simp only:) (rule carries_rounds, use round in auto)
qed

lemma carries_virt:
  assumes sz: "sizes_are w sub n" and len: "pkt_len_ok pk sub"
    and ds: "distinct (dagidx_list t)" "set (dagidx_list t) \<subseteq> set m"
    and ok: "\<And>d. d \<in> set (dagidx_list t) \<Longrightarrow> vertex_ok d"
    and zero: "\<And>d i. d \<in> set (dagidx_list t) \<Longrightarrow> i < n \<Longrightarrow> pk s d i = replicate (nat sub) CHR 0x00"
  shows "carries (whole b pk coll n) {} (Queue (localIp w) s ` set (dagidx_list t)) (readVirtBlock w s m t) ()"
proof -
  have "carries (content b pk coll i) {} (Queue (localIp w) s ` set (dagidx_list t))
      (forP (\<lambda>d _. push_to (getQueue w s m d) (new_packet sub)) (dagidx_list t) ()) ()" if i: "i < n" for i
  proof -
    have "carries (content b pk coll i) (\<Union>d\<in>set (dagidx_list t). {}) (\<Union>d\<in>set (dagidx_list t). {Queue (localIp w) s d})
        (forP (\<lambda>d _. push_to (getQueue w s m d) (new_packet sub)) (dagidx_list t) ()) ()"
    proof (rule carries_forP)
      fix d assume d: "d \<in> set (dagidx_list t)"
      have "new_packet sub = packet_of (pk s (vertex_of d) i)"
        using len zero [OF d i] ok [OF d] by (simp add: new_packet_eq pkt_len_ok_def)
      then show "carries (content b pk coll i) {} {Queue (localIp w) s d} (push_to (getQueue w s m d) (new_packet sub)) ()"
        using d ds(2) by (intro carries_push) auto
    qed (use ds(1) in auto)
    then show ?thesis by (simp add: UNION_singleton_eq_range)
  qed
  then have "carries (whole b pk coll n) {} (Queue (localIp w) s ` set (dagidx_list t))
      (forP (\<lambda>i _. forP (\<lambda>d _. push_to (getQueue w s m d) (new_packet sub)) (dagidx_list t) ()) [0..<n] ()) ()"
    unfolding whole_def by (intro carries_rounds) auto
  then show ?thesis using sz by (simp add: readVirtBlock_def sizes_are_def)
qed

section \<open>Sending and receiving\<close>

lemma raw_bytes_of: "raw_bytes (packet_of bs) = getRaw (packet_of bs)"
  by (simp add: raw_bytes_def getDatalen_def getRaw_def packet_of_def)

lemma set_add_colors: "set (fold add_color xs cs) = set cs \<union> set xs"
  by (induction xs arbitrary: cs) (auto simp: add_color_def)

lemma send_targets_ok:
  assumes "send_to_list t = map to (dagidx_list t)"
  shows "\<exists>d2s nodes. send_targets t = Inr (d2s, nodes) \<and>
    (\<forall>d\<in>set (dagidx_list t). um_get [] d2s d = to d) \<and> set nodes = (\<Union>d\<in>set (dagidx_list t). set (to d))"
proof -
  let ?step = "\<lambda>d xs p. (um_insert d xs (fst p), fold add_color xs (snd p))"
  have "send_targets t = Inr (fold (\<lambda>d. ?step d (to d)) (dagidx_list t) ([], []))"
    unfolding send_targets_def assms
    using foldR_index [of "map to (dagidx_list t)" "dagidx_list t" ?step "([], [])", unfolded fold_zip_map]
    by (simp add: case_prod_unfold)
  moreover have "fold (\<lambda>d. ?step d (to d)) ds (m, ns) =
      (fold (\<lambda>d. um_insert d (to d)) ds m, fold (\<lambda>d. fold add_color (to d)) ds ns)" for ds m ns
    by (induction ds arbitrary: m ns) simp_all
  moreover have "set (fold (\<lambda>d. fold add_color (to d)) ds ns) = set ns \<union> (\<Union>d\<in>set ds. set (to d))" for ds ns
    by (induction ds arbitrary: ns) (auto simp: set_add_colors)
  ultimately show ?thesis by (simp add: um_get_inserts_new)
qed

lemma contexts_ok:
  assumes "\<And>x. x \<in> set nodes \<Longrightarrow> node_ip w x = Inr (ip x)"
  shows "\<exists>ctx. contexts w nodes = Inr ctx \<and> (\<forall>x\<in>set nodes. um_get 0 ctx x = ip x)"
proof -
  have "contexts w nodes = Inr (fold (\<lambda>x. um_insert x (ip x)) nodes [])"
    unfolding contexts_def using assms by (intro foldR_pure) simp
  then show ?thesis by (simp add: um_get_inserts_new)
qed

lemma carries_send:
  assumes sz: "sizes_are w sub n" and len: "pkt_len_ok pk sub"
    and ts: "send_to_list t = map to (dagidx_list t)" and ds: "distinct (dagidx_list t)"
    and ok: "\<And>d. d \<in> set (dagidx_list t) \<Longrightarrow> vertex_ok d \<and> cache_key d \<in> set m \<and> distinct (to d)"
    and ips: "\<And>d x. d \<in> set (dagidx_list t) \<Longrightarrow> x \<in> set (to d) \<Longrightarrow> node_ip w x = Inr (ip x)"
    and inj: "\<And>d. d \<in> set (dagidx_list t) \<Longrightarrow> inj_on ip (set (to d))"
  shows "carries (whole b pk coll n) ((\<lambda>d. Queue (localIp w) s (cache_key d)) ` set (dagidx_list t))
    (\<Union>d\<in>set (dagidx_list t). (\<lambda>x. Server (ip x) (pkt_key b s d)) ` set (to d)) (sendOneByOne w b s m t) ()"
proof -
  let ?ds = "set (dagidx_list t)"
  obtain d2s nodes where st: "send_targets t = Inr (d2s, nodes)" "\<And>d. d \<in> ?ds \<Longrightarrow> um_get [] d2s d = to d"
    "set nodes = (\<Union>d\<in>?ds. set (to d))" using send_targets_ok [OF ts] by blast
  have "node_ip w x = Inr (ip x)" if "x \<in> set nodes" for x using that ips st(3) by auto
  from contexts_ok [of nodes w ip, OF this] obtain ctx where
    ctx: "contexts w nodes = Inr ctx" "\<And>x. x \<in> set nodes \<Longrightarrow> um_get 0 ctx x = ip x" by blast
  let ?R = "\<lambda>d. {Queue (localIp w) s (cache_key d)}" and ?W = "\<lambda>d. (\<lambda>x. Server (ip x) (pkt_key b s d)) ` set (to d)"
  have one: "carries (content b pk coll i) (?R d) (?W d)
      (bindP (pop_from (getQueue w s m (cache_key d))) (\<lambda>p. push_packet ctx (pkt_key b s d) p (um_get [] d2s d))) ()"
    if d: "d \<in> ?ds" for d i
  proof -
    let ?p = "packet_of (pk s d i)"
    have "carries (content b pk coll i) (\<Union>x\<in>set (to d). {}) (\<Union>x\<in>set (to d). {Server (ip x) (pkt_key b s d)})
        (forP (\<lambda>x _. put (Server (um_get 0 ctx x) (pkt_key b s d)) (Bytes (raw_bytes ?p))) (to d) ()) ()"
    proof (rule carries_forP)
      fix x assume x: "x \<in> set (to d)"
      then have "um_get 0 ctx x = ip x" using ctx(2) st(3) d by auto
      then show "carries (content b pk coll i) {} {Server (ip x) (pkt_key b s d)}
          (put (Server (um_get 0 ctx x) (pkt_key b s d)) (Bytes (raw_bytes ?p))) ()"
        by (simp only:) (rule carries_put, simp add: raw_bytes_of)
    next
      show "distinct (to d)" using ok [OF d] by blast
      show "{} \<inter> {} = {} \<and> {Server (ip x) (pkt_key b s d)} \<inter> {Server (ip y) (pkt_key b s d)} = {}"
        if "x \<in> set (to d)" "y \<in> set (to d)" "x \<noteq> y" for x y
        using inj [OF d] that by (auto dest: inj_onD)
    qed simp
    then have "carries (content b pk coll i) {} (?W d) (push_packet ctx (pkt_key b s d) ?p (um_get [] d2s d)) ()"
      by (simp add: push_packet_def st(2) [OF d] UNION_singleton_eq_range)
    moreover have "carries (content b pk coll i) (?R d) {} (pop_from (getQueue w s m (cache_key d))) ?p"
      using carries_pop [of "cache_key d" m b pk coll i w s] ok [OF d] by simp
    ultimately show ?thesis
      using carries_bind [where R = "?R d" and W = "{}" and R' = "{}" and W' = "?W d" and a = ?p] by fastforce
  qed
  have "carries (content b pk coll i) (\<Union>d\<in>?ds. ?R d) (\<Union>d\<in>?ds. ?W d)
      (forP (\<lambda>d _. bindP (pop_from (getQueue w s m (cache_key d))) (\<lambda>p. push_packet ctx (pkt_key b s d) p (um_get [] d2s d)))
         (dagidx_list t) ()) ()" for i
    using ok ds by (intro carries_forP one) auto
  then have "carries (whole b pk coll n) (\<Union>d\<in>?ds. ?R d) (\<Union>d\<in>?ds. ?W d)
     (forP (\<lambda>i _. forP (\<lambda>d _. bindP (pop_from (getQueue w s m (cache_key d))) (\<lambda>p. push_packet ctx (pkt_key b s d) p (um_get [] d2s d)))
         (dagidx_list t) ()) [0..<n] ()) ()"
    unfolding whole_def by (intro carries_rounds) auto
  moreover have "sendOneByOne w b s m t = forP (\<lambda>i _. forP (\<lambda>d _. bindP (pop_from (getQueue w s m (cache_key d)))
      (\<lambda>p. push_packet ctx (pkt_key b s d) p (um_get [] d2s d))) (dagidx_list t) ()) [0..<n] ()"
    using sz by (simp add: sendOneByOne_def st(1) ctx(1) sizes_are_def)
  ultimately show ?thesis by (simp add: UNION_singleton_eq_range)
qed

lemma carries_recv:
  assumes sz: "sizes_are w sub n" and len: "pkt_len_ok pk sub"
    and ds: "distinct ds" and ok: "\<And>d. d \<in> set ds \<Longrightarrow> vertex_ok d \<and> d \<in> set m"
  shows "carries (whole b pk coll n) ((\<lambda>d. Server (localIp w) (pkt_key b s d)) ` set ds)
    (Queue (localIp w) s ` set ds) (recvList w b s m ds) ()"
proof -
  let ?R = "\<lambda>d. {Server (localIp w) (pkt_key b s d)}" and ?W = "\<lambda>d. {Queue (localIp w) s d}"
  let ?one = "\<lambda>d. bindP (get (Server (localIp w) (pkt_key b s d))) (\<lambda>content.
      case content of Packet p \<Rightarrow> Crash BadBuffer
      | Bytes bs \<Rightarrow> bindP (liftP (packet_of_raw bs)) (push_to (getQueue w s m d)))"
  have one: "carries (content b pk coll i) (?R d) (?W d) (?one d) ()" if d: "d \<in> set ds" for d i
  proof -
    let ?p = "packet_of (pk s d i)"
    have "int (length (pk s d i)) < 2 ^ 31" using len by (simp add: pkt_len_ok_def)
    then have "length (pk s d i) < 2 ^ 31" by simp
    from packet_of_raw_of [OF this, of "[]"] have raw: "packet_of_raw (getRaw ?p) = Inr ?p" by simp
    have "carries (content b pk coll i) {} (?W d) (push_to (getQueue w s m d) ?p) ()"
      using ok [OF d] by (intro carries_push) simp_all
    then have "carries (content b pk coll i) {} (?W d) (case Bytes (getRaw ?p) of Packet p \<Rightarrow> Crash BadBuffer
        | Bytes bs \<Rightarrow> bindP (liftP (packet_of_raw bs)) (push_to (getQueue w s m d))) ()" by (simp add: raw)
    moreover have "carries (content b pk coll i) (?R d) {} (get (Server (localIp w) (pkt_key b s d))) (Bytes (getRaw ?p))"
      unfolding get_def by (rule carries_Get [OF _ gives_Ret]) simp
    ultimately show ?thesis
      using carries_bind [where R = "?R d" and W = "{}" and R' = "{}" and W' = "?W d" and a = "Bytes (getRaw ?p)"] by fastforce
  qed
  have "carries (content b pk coll i) (\<Union>d\<in>set ds. ?R d) (\<Union>d\<in>set ds. ?W d) (forP (\<lambda>d _. ?one d) ds ()) ()" for i
    using ds by (intro carries_forP one) auto
  then have "carries (whole b pk coll n) (\<Union>d\<in>set ds. ?R d) (\<Union>d\<in>set ds. ?W d)
      (forP (\<lambda>i _. forP (\<lambda>d _. ?one d) ds ()) [0..<n] ()) ()"
    unfolding whole_def by (intro carries_rounds) auto
  then show ?thesis using sz by (simp add: recvList_def sizes_are_def UNION_singleton_eq_range)
qed

section \<open>Storing\<close>

lemma carries_persist:
  assumes sz: "sizes_are w sub n" and len: "pkt_len_ok pk sub"
    and ds: "distinct (collect_list t)" and ok: "\<And>d. d \<in> set (collect_list t) \<Longrightarrow> vertex_ok d \<and> d \<in> set m"
    and fname: "repair_file w (repaired_block t) = File ip name" "coll ip name = (s, collect_list t)"
  shows "carries (whole b pk coll n) (Queue (localIp w) s ` set (collect_list t)) {repair_file w (repaired_block t)}
    (persist w b s m t) ()"
proof -
  let ?f = "repair_file w (repaired_block t)"
  have row: "gives (map (\<lambda>d. (Queue (localIp w) s d, Packet (packet_of (pk s d i)))) ds)
      (map (\<lambda>d. (?f, Bytes (pk s d i))) ds) (persist_row w s m ?f ds) ()"
    if "set ds \<subseteq> set (collect_list t)" for ds i
    using that
  proof (induction ds)
    case Nil
    show ?case by (simp add: gives_Ret)
  next
    case (Cons d ds)
    let ?p = "packet_of (pk s d i)"
    have ne: "getDatalen ?p \<noteq> 0" using len by (auto simp: pkt_len_ok_def)
    have IH: "gives (map (\<lambda>d. (Queue (localIp w) s d, Packet (packet_of (pk s d i)))) ds)
      (map (\<lambda>d. (?f, Bytes (pk s d i))) ds) (persist_row w s m ?f ds) ()" using Cons by simp
    have put: "gives [] [(?f, Bytes (pk s d i))] (put ?f (Bytes (pk s d i))) ()" by (rule gives_put)
    have "gives ([] @ map (\<lambda>d. (Queue (localIp w) s d, Packet (packet_of (pk s d i)))) ds)
        ([(?f, Bytes (pk s d i))] @ map (\<lambda>d. (?f, Bytes (pk s d i))) ds)
        (bindP (put ?f (Bytes (pk s d i))) (\<lambda>_. persist_row w s m ?f ds)) ()"
      by (rule gives_bind [OF put]) (use IH in \<open>auto simp: repair_file_def\<close>)
    moreover have "d \<in> set m" using Cons.prems ok by auto
    ultimately show ?case
      using ne by (auto simp: pop_from_def intro!: gives_Get)
  qed
  have "carries (content b pk coll i) (Queue (localIp w) s ` set (collect_list t)) {?f}
      (persist_row w s m ?f (collect_list t)) ()" for i
    unfolding carries_def
  proof (intro exI conjI)
    show "gives (map (\<lambda>d. (Queue (localIp w) s d, Packet (packet_of (pk s d i)))) (collect_list t))
      (map (\<lambda>d. (?f, Bytes (pk s d i))) (collect_list t)) (persist_row w s m ?f (collect_list t)) ()"
      by (rule row) simp
    have "on_chan c (map (\<lambda>d. (Queue (localIp w) s d, Packet (packet_of (pk s d i)))) ds) =
        (if c \<in> Queue (localIp w) s ` set ds then content b pk coll i c else [])"
      if "distinct ds" "set ds \<subseteq> set (collect_list t)" for c ds
      using that ok by (induction ds) auto
    then show "\<forall>c. on_chan c (map (\<lambda>d. (Queue (localIp w) s d, Packet (packet_of (pk s d i)))) (collect_list t)) =
        (if c \<in> Queue (localIp w) s ` set (collect_list t) then content b pk coll i c else [])" using ds by simp
    have "on_chan ?f (map (\<lambda>d. (?f, Bytes (pk s d i))) ds) = map (\<lambda>d. Bytes (pk s d i)) ds" for ds
      by (induction ds) simp_all
    moreover have "on_chan c (map (\<lambda>d. (?f, Bytes (pk s d i))) ds) = []" if "c \<noteq> ?f" for c ds
      using that by (induction ds) auto
    ultimately show "\<forall>c. on_chan c (map (\<lambda>d. (?f, Bytes (pk s d i))) (collect_list t)) =
        (if c \<in> {?f} then content b pk coll i c else [])" by (simp add: fname)
  qed
  then have "carries (whole b pk coll n) (Queue (localIp w) s ` set (collect_list t)) {?f}
      (forP (\<lambda>i _. persist_row w s m ?f (collect_list t)) [0..<n] ()) ()"
    unfolding whole_def by (intro carries_rounds) (auto simp: repair_file_def)
  then show ?thesis using sz by (simp add: persist_def sizes_are_def)
qed

section \<open>Computing\<close>

definition item_value :: "isal \<Rightarrow> int \<Rightarrow> (int \<Rightarrow> int \<Rightarrow> nat \<Rightarrow> string) \<Rightarrow> int \<Rightarrow> nat \<Rightarrow> compute_item \<Rightarrow> string" where
  \<comment> \<open>what an item makes of the \<open>i\<close>-th packets of its sources\<close>
  "item_value isal sub pk s i ci =
     isal sub (map char_of (ci_coefs ci @ replicate (length (ci_srclist ci) - length (ci_coefs ci)) 0))
       (map (\<lambda>c. pk s c i) (ci_srclist ci))"

lemma set_input_list: "set (input_list cis) = (\<Union>ci\<in>set cis. set (ci_srclist ci))"
proof -
  have "set (fold (\<lambda>ci. fold add_color (ci_srclist ci)) cis cs) = set cs \<union> (\<Union>ci\<in>set cis. set (ci_srclist ci))" for cs
    by (induction cis arbitrary: cs) (auto simp: set_add_colors)
  then show ?thesis by (simp add: input_list_def)
qed

lemma distinct_add_colors: "distinct cs \<Longrightarrow> distinct (fold add_color xs cs)"
  by (induction xs arbitrary: cs) (auto simp: add_color_def)

lemma distinct_input_list: "distinct (input_list cis)"
proof -
  have "distinct cs \<Longrightarrow> distinct (fold (\<lambda>ci. fold add_color (ci_srclist ci)) cis cs)" for cs
    by (induction cis arbitrary: cs) (auto simp: distinct_add_colors)
  then show ?thesis by (simp add: input_list_def)
qed

lemma carries_pop_inputs:
  assumes "distinct ds" and "\<And>d. d \<in> set ds \<Longrightarrow> vertex_ok d \<and> d \<in> set m"
  shows "carries (content b pk coll i) (Queue (localIp w) s ` set ds) {} (pop_inputs w s m ds)
    (fold (\<lambda>d. um_insert d (pk s d i)) ds [])"
proof -
  have "carries (content b pk coll i) (\<Union>d\<in>set ds. {Queue (localIp w) s d}) (\<Union>d\<in>set ds. {})
      (forP (\<lambda>d bufs. bindP (pop_from (getQueue w s m d)) (\<lambda>p. Ret (um_insert d (getData p) bufs))) ds [])
      (fold (\<lambda>d. um_insert d (pk s d i)) ds [])"
  proof (rule carries_fold)
    fix d bufs assume d: "d \<in> set ds"
    have "carries (content b pk coll i) {Queue (localIp w) s d} {} (pop_from (getQueue w s m d)) (packet_of (pk s d i))"
      using carries_pop [of d m b pk coll i w s] assms(2) [OF d] by simp
    from carries_bind [OF this, where f = "\<lambda>p. Ret (um_insert d (getData p) bufs)", OF carries_Ret]
    show "carries (content b pk coll i) {Queue (localIp w) s d} {}
        (bindP (pop_from (getQueue w s m d)) (\<lambda>p. Ret (um_insert d (getData p) bufs))) (um_insert d (pk s d i) bufs)"
      by simp
  qed (use assms(1) in auto)
  then show ?thesis by (simp add: pop_inputs_def UNION_singleton_eq_range)
qed

lemma Multi_one:
  assumes "length mat = length src" and "list_all (\<lambda>bs. length bs = nat sub) src"
  shows "Multi isal src mat 1 (length src) sub = Inr [isal sub (map char_of mat) src]"
proof -
  have "map (take (nat sub)) src = src" using assms(2) by (intro map_idI) (auto simp: list_all_iff)
  moreover have "list_all (\<lambda>bs. nat sub \<le> length bs) src" using assms(2) by (auto simp: list_all_iff)
  ultimately show ?thesis using assms(1) by (simp add: Multi_def)
qed

text \<open>Items that can be computed side by side: the results are new, and none is a source.\<close>

definition items_ok :: "data_map \<Rightarrow> compute_item list \<Rightarrow> bool" where
  "items_ok m cis \<longleftrightarrow> distinct (map ci_dstidx cis) \<and>
     (\<forall>ci\<in>set cis. length (ci_coefs ci) \<le> length (ci_srclist ci) \<and> vertex_ok (ci_dstidx ci) \<and>
        used_keys (ci_dstidx ci) (ci_usage ci) \<subseteq> set m \<and> ci_dstidx ci \<notin> set (input_list cis)) \<and>
     (\<forall>d\<in>set (input_list cis). vertex_ok d \<and> d \<in> set m)"

lemma carries_items:
  assumes len: "pkt_len_ok pk sub"
    and val: "\<And>ci. ci \<in> set cis \<Longrightarrow> pk s (ci_dstidx ci) i = item_value isal sub pk s i ci"
    and mat: "\<And>ci. ci \<in> set cis \<Longrightarrow> um_get [] mm (ci_dstidx ci) =
        ci_coefs ci @ replicate (length (ci_srclist ci) - length (ci_coefs ci)) 0"
    and cis: "distinct (map ci_dstidx cis)"
      "\<And>ci. ci \<in> set cis \<Longrightarrow> length (ci_coefs ci) \<le> length (ci_srclist ci) \<and> vertex_ok (ci_dstidx ci) \<and>
        used_keys (ci_dstidx ci) (ci_usage ci) \<subseteq> set m \<and> ci_dstidx ci \<notin> set inputs \<and> set (ci_srclist ci) \<subseteq> set inputs"
    and bufs: "\<And>d. d \<in> set inputs \<Longrightarrow> um_has bufs d \<and> um_get [] bufs d = pk s d i"
      "\<And>ci. ci \<in> set cis \<Longrightarrow> \<not> um_has bufs (ci_dstidx ci) \<and> ci_dstidx ci \<notin> set handed"
  shows "\<exists>a. carries (content b pk coll i) {} (\<Union>ci\<in>set cis. used_chans w s (ci_dstidx ci) (ci_usage ci))
    (forP (compute_one isal w s m mm sub) cis (bufs, handed)) a"
  using val mat cis bufs
proof (induction cis arbitrary: bufs handed)
  case Nil
  show ?case using carries_Ret by fastforce
next
  case (Cons ci cis)
  let ?dst = "ci_dstidx ci" and ?src = "ci_srclist ci" and ?u = "ci_usage ci"
  let ?bufs1 = "um_insert ?dst (replicate (nat sub) CHR 0x00) bufs"
  have ci: "length (ci_coefs ci) \<le> length ?src" "vertex_ok ?dst" "used_keys ?dst ?u \<subseteq> set m" "?dst \<notin> set inputs"
    "set ?src \<subseteq> set inputs" using Cons.prems(4) [of ci] by auto
  have fresh: "\<not> um_has bufs ?dst" "?dst \<notin> set handed" using Cons.prems(6) [of ci] by auto
  have src: "um_has ?bufs1 d \<and> um_get [] ?bufs1 d = pk s d i" if "d \<in> set ?src" for d
    using Cons.prems(5) [of d] ci(4,5) that by (auto simp: um_get_insert_new [OF fresh(1)] um_has_iff map_of_um_insert)
  have data: "map (um_get [] ?bufs1) ?src = map (\<lambda>c. pk s c i) ?src" using src by simp
  have notin: "?dst \<notin> set ?src" using ci(4,5) by auto
  let ?out = "pk s ?dst i"
  have lens: "length (pk s d i) = nat sub" for d
  proof -
    have "int (length (pk s d i)) = sub" using len by (simp add: pkt_len_ok_def)
    then show ?thesis by linarith
  qed
  have "Multi isal (map (um_get [] ?bufs1) ?src) (um_get [] mm ?dst) 1 (length ?src) sub = Inr [?out]"
    using Multi_one [of "um_get [] mm ?dst" "map (\<lambda>c. pk s c i) ?src" sub isal] Cons.prems(1,2) [of ci] ci(1)
    unfolding data by (simp add: item_value_def lens list_all_iff)
  then have one: "compute_one isal w s m mm sub ci (bufs, handed) =
      bindP (push_used w s m True ?dst ?u (packet_of ?out)) (\<lambda>_.
        Ret (um_put ?dst (?out @ drop (length ?out) (um_get [] ?bufs1 ?dst)) ?bufs1,
          if fst ?u \<or> snd ?u then ?dst # handed else handed))"
    using fresh src notin new_packet_filled [OF len, of s ?dst i]
    by (simp add: compute_one_def Let_def list_all_iff)
  define st where "st = (um_put ?dst (?out @ drop (length ?out) (um_get [] ?bufs1 ?dst)) ?bufs1,
          if fst ?u \<or> snd ?u then ?dst # handed else handed)"
  have "carries (content b pk coll i) {} (used_chans w s ?dst ?u) (push_used w s m True ?dst ?u (packet_of ?out)) ()"
    by (rule carries_push_used [OF ci(2,3) refl])
  from carries_bind [where f = "\<lambda>_. Ret st" and a = "()", OF this carries_Ret]
  have step: "carries (content b pk coll i) {} (used_chans w s ?dst ?u) (compute_one isal w s m mm sub ci (bufs, handed)) st"
    by (simp add: one st_def)
  have "\<exists>a. carries (content b pk coll i) {} (\<Union>ci\<in>set cis. used_chans w s (ci_dstidx ci) (ci_usage ci))
    (forP (compute_one isal w s m mm sub) cis (fst st, snd st)) a"
  proof (rule Cons.IH)
    show "um_has (fst st) d \<and> um_get [] (fst st) d = pk s d i" if "d \<in> set inputs" for d
    proof -
      have "d \<noteq> ?dst" using that ci(4) by auto
      then show ?thesis using Cons.prems(5) [OF that]
        by (auto simp: st_def um_get_put um_get_insert_new [OF fresh(1)] um_has_iff map_of_um_insert)
    qed
    show "\<not> um_has (fst st) (ci_dstidx cj) \<and> ci_dstidx cj \<notin> set (snd st)" if "cj \<in> set cis" for cj
    proof -
      have "ci_dstidx cj \<noteq> ?dst" using that Cons.prems(3) by (auto, metis image_eqI)
      then show ?thesis using Cons.prems(6) [of cj] that by (auto simp: st_def um_has_iff map_of_um_insert)
    qed
  qed (use Cons.prems in auto)
  then obtain a where rest: "carries (content b pk coll i) {} (\<Union>ci\<in>set cis. used_chans w s (ci_dstidx ci) (ci_usage ci))
    (forP (compute_one isal w s m mm sub) cis st) a" by auto
  have "used_chans w s ?dst ?u \<inter> (\<Union>ci\<in>set cis. used_chans w s (ci_dstidx ci) (ci_usage ci)) = {}"
  proof -
    have "used_chans w s ?dst ?u \<inter> used_chans w s (ci_dstidx cj) (ci_usage cj) = {}" if cj: "cj \<in> set cis" for cj
    proof -
      have "?dst \<noteq> ci_dstidx cj" using cj Cons.prems(3) by auto
      from used_keys_disjoint [OF ci(2) _ this, of ?u "ci_usage cj"] Cons.prems(4) [of cj] cj
      show ?thesis by (simp add: used_chans_keys image_Int [symmetric] inj_on_def)
    qed
    then show ?thesis by blast
  qed
  from carries_bind [where f = "forP (compute_one isal w s m mm sub) cis", OF step rest _ this] show ?case by (auto simp del: split_paired_Ex)
qed

lemma matrix_map_ok:
  assumes "distinct (map ci_dstidx cis)" and "\<And>ci. ci \<in> set cis \<Longrightarrow> length (ci_coefs ci) \<le> length (ci_srclist ci)"
  shows "\<exists>mm. matrix_map_of cis = Inr mm \<and> (\<forall>ci\<in>set cis. um_get [] mm (ci_dstidx ci) =
    ci_coefs ci @ replicate (length (ci_srclist ci) - length (ci_coefs ci)) 0)"
proof -
  let ?mat = "\<lambda>ci. ci_coefs ci @ replicate (length (ci_srclist ci) - length (ci_coefs ci)) 0"
  have "matrix_map_of cis = Inr (fold (\<lambda>ci. um_insert (ci_dstidx ci) (?mat ci)) cis [])"
    unfolding matrix_map_of_def using assms(2) by (intro foldR_pure) (simp add: ci_matrix_def)
  moreover have "\<forall>ci\<in>set cis. um_get [] (fold (\<lambda>ci. um_insert (ci_dstidx ci) (?mat ci)) cis []) (ci_dstidx ci) = ?mat ci"
    using assms(1)
  proof (induction cis rule: rev_induct)
    case (snoc c cis)
    have "um_keys (fold (\<lambda>ci. um_insert (ci_dstidx ci) (?mat ci)) cis m) =
        um_keys m @ map ci_dstidx cis" if "distinct (um_keys m @ map ci_dstidx cis)" for cis and m :: "int list umap"
      using that by (induction cis arbitrary: m) (auto simp: um_keys_insert)
    from this [of "[]" cis] snoc.prems have "\<not> um_has (fold (\<lambda>ci. um_insert (ci_dstidx ci) (?mat ci)) cis []) (ci_dstidx c)"
      by (simp add: um_has_def)
    note new = um_get_insert_new [OF this]
    have "ci_dstidx ci \<noteq> ci_dstidx c" if "ci \<in> set cis" for ci using snoc.prems that by (auto, metis image_eqI)
    with snoc show ?case by (simp add: new)
  qed simp
  ultimately show ?thesis by blast
qed

lemma carries_compute:
  assumes sz: "sizes_are w sub n" and len: "pkt_len_ok pk sub" and ok: "items_ok m (compute_list t)"
    and val: "\<And>ci i. ci \<in> set (compute_list t) \<Longrightarrow> i < n \<Longrightarrow> pk s (ci_dstidx ci) i = item_value isal sub pk s i ci"
  shows "carries (whole b pk coll n) (Queue (localIp w) s ` set (input_list (compute_list t)))
    (\<Union>ci\<in>set (compute_list t). used_chans w s (ci_dstidx ci) (ci_usage ci)) (computeOneByOne isal w s m t) ()"
proof -
  let ?cis = "compute_list t" and ?in = "input_list (compute_list t)"
  let ?W = "\<Union>ci\<in>set ?cis. used_chans w s (ci_dstidx ci) (ci_usage ci)"
  have src: "set (ci_srclist ci) \<subseteq> set ?in" if "ci \<in> set ?cis" for ci using that by (auto simp: set_input_list)
  obtain mm where mm: "matrix_map_of ?cis = Inr mm" "\<And>ci. ci \<in> set ?cis \<Longrightarrow> um_get [] mm (ci_dstidx ci) =
      ci_coefs ci @ replicate (length (ci_srclist ci) - length (ci_coefs ci)) 0"
    using matrix_map_ok [of ?cis] ok by (auto simp: items_ok_def)
  have disj: "?W \<inter> Queue (localIp w) s ` set ?in = {}"
    using ok by (fastforce simp: items_ok_def used_chans_def split: if_splits)
  have round: "carries (content b pk coll i) (Queue (localIp w) s ` set ?in) ?W
      (bindP (pop_inputs w s m ?in) (\<lambda>bufs. bindP (forP (compute_one isal w s m mm sub) ?cis (bufs, [])) (\<lambda>_. Ret ()))) ()"
    if i: "i < n" for i
  proof -
    let ?bufs = "fold (\<lambda>d. um_insert d (pk s d i)) ?in []"
    have keys: "um_has (fold (\<lambda>d. um_insert d (pk s d i)) ds m) d \<longleftrightarrow> d \<in> set ds \<or> um_has m d" for ds m d
      by (induction ds arbitrary: m) (auto simp: um_has_def um_keys_insert)
    have pop: "carries (content b pk coll i) (Queue (localIp w) s ` set ?in) {} (pop_inputs w s m ?in) ?bufs"
      using ok by (intro carries_pop_inputs distinct_input_list) (auto simp: items_ok_def)
    have "\<exists>a. carries (content b pk coll i) {} ?W (forP (compute_one isal w s m mm sub) ?cis (?bufs, [])) a"
      using ok mm(2) val i src
      by (intro carries_items [where inputs = ?in, OF len])
        (auto simp: items_ok_def um_get_inserts_new keys um_has_def [of "[]"])
    then obtain a where a: "carries (content b pk coll i) {} ?W (forP (compute_one isal w s m mm sub) ?cis (?bufs, [])) a" ..
    from carries_bind [where f = "\<lambda>_. Ret ()", OF this carries_Ret]
    have "carries (content b pk coll i) {} ?W (bindP (forP (compute_one isal w s m mm sub) ?cis (?bufs, [])) (\<lambda>_. Ret ())) ()"
      by simp
    from carries_bind [where f = "\<lambda>bufs. bindP (forP (compute_one isal w s m mm sub) ?cis (bufs, [])) (\<lambda>_. Ret ())", OF pop this]
    show ?thesis by simp
  qed
  have "carries (whole b pk coll n) (Queue (localIp w) s ` set ?in) ?W
      (forP (\<lambda>pktid _. bindP (pop_inputs w s m ?in) (\<lambda>bufs. bindP (forP (compute_one isal w s m mm sub) ?cis (bufs, [])) (\<lambda>_. Ret ())))
        [0..<n] ()) ()"
    unfolding whole_def using disj by (intro carries_rounds round) auto
  then show ?thesis using sz by (simp add: computeOneByOne_def sizes_are_def mm(1) Let_def)
qed

section \<open>Which channels a thread uses\<close>

lemma within_push: "Queue (localIp w) s k \<in> W \<Longrightarrow> within R W (push_to (getQueue w s m k) p)"
  by (auto simp: push_to_def getQueue_def intro: within_intros)

lemma within_pop: "Queue (localIp w) s k \<in> R \<Longrightarrow> within R W (pop_from (getQueue w s m k))"
  by (auto simp: pop_from_def getQueue_def intro!: within_Get split: item.splits)

lemma within_push_used: "used_chans w s d u \<subseteq> W \<Longrightarrow> within R W (push_used w s m cf d u p)"
  by (auto simp: push_used_def Let_def used_chans_def split: if_splits intro!: within_intros within_push)

lemma within_read:
  assumes us: "usage_list t = map u (dagidx_list t)" and ds: "distinct (dagidx_list t)" and w: "0 < conf_ecw w"
    and inj: "inj_on (\<lambda>d. d mod conf_ecw w) (set (dagidx_list t))" and pos: "\<And>d. d \<in> set (dagidx_list t) \<Longrightarrow> 0 \<le> d"
  shows "within {} (\<Union>d\<in>set (dagidx_list t). used_chans w s d (u d)) (readRealBlock w disk s m t)"
proof -
  let ?ds = "set (dagidx_list t)" and ?w = "conf_ecw w"
  obtain um where um: "usage_map_of t = Inr um" "\<And>d. d \<in> ?ds \<Longrightarrow> um_get (False, False) um d = u d"
    using usage_map_of_ok [OF us] by blast
  obtain pat off where pat: "read_pattern ?w (dagidx_list t) = Inr (pat, off)"
    "\<And>j. j < nat ?w \<Longrightarrow> pat ! j \<noteq> 0 \<longleftrightarrow> (\<exists>d\<in>?ds. d mod ?w = int j)"
    "\<And>d. d \<in> ?ds \<Longrightarrow> um_get 0 off (d mod ?w) = d"
    using read_pattern_ok [OF w pos inj ds] by blast
  have one: "within {} (\<Union>d\<in>?ds. used_chans w s d (u d)) (read_subpacket w disk s m blk um off sub i (int j))"
    if "j < nat ?w" "pat ! j \<noteq> 0" for j i sub blk
  proof -
    have "um_get 0 off (int j) \<in> ?ds" using pat(2) [OF that(1)] that(2) pat(3) by force
    then show ?thesis
      using um(2) by (auto simp: read_subpacket_def Let_def intro!: within_push_used split: option.splits)
  qed
  show ?thesis
    unfolding readRealBlock_def um(1) pat(1)
    by (auto intro!: within_lift within_forP one split: if_splits)
qed

lemma within_virt: "within {} (Queue (localIp w) s ` set (dagidx_list t)) (readVirtBlock w s m t)"
  by (auto simp: readVirtBlock_def intro!: within_lift within_forP within_push)

lemma within_send:
  assumes ts: "send_to_list t = map to (dagidx_list t)"
    and ips: "\<And>d x. d \<in> set (dagidx_list t) \<Longrightarrow> x \<in> set (to d) \<Longrightarrow> node_ip w x = Inr (ip x)"
  shows "within ((\<lambda>d. Queue (localIp w) s (cache_key d)) ` set (dagidx_list t))
    (\<Union>d\<in>set (dagidx_list t). (\<lambda>x. Server (ip x) (pkt_key b s d)) ` set (to d)) (sendOneByOne w b s m t)"
proof -
  let ?ds = "set (dagidx_list t)"
  obtain d2s nodes where st: "send_targets t = Inr (d2s, nodes)" "\<And>d. d \<in> ?ds \<Longrightarrow> um_get [] d2s d = to d"
    "set nodes = (\<Union>d\<in>?ds. set (to d))" using send_targets_ok [OF ts] by blast
  have "node_ip w x = Inr (ip x)" if "x \<in> set nodes" for x using that ips st(3) by auto
  from contexts_ok [of nodes w ip, OF this] obtain ctx where
    ctx: "contexts w nodes = Inr ctx" "\<And>x. x \<in> set nodes \<Longrightarrow> um_get 0 ctx x = ip x" by blast
  have "um_get 0 ctx x = ip x" if "d \<in> ?ds" "x \<in> set (to d)" for d x using that ctx(2) st(3) by blast
  then show ?thesis
    unfolding sendOneByOne_def push_packet_def
    by (auto intro!: within_lift within_forP within_bind within_pop within_put simp: st(1,2) ctx(1))
qed

lemma within_recv:
  "within ((\<lambda>d. Server (localIp w) (pkt_key b s d)) ` set ds) (Queue (localIp w) s ` set ds) (recvList w b s m ds)"
  by (auto simp: recvList_def intro!: within_lift within_forP within_bind within_get within_push split: item.splits)

lemma within_persist:
  "within (Queue (localIp w) s ` set (collect_list t)) {repair_file w (repaired_block t)} (persist w b s m t)"
proof -
  have "set ds \<subseteq> set (collect_list t) \<Longrightarrow>
      within (Queue (localIp w) s ` set (collect_list t)) {repair_file w (repaired_block t)}
        (persist_row w s m (repair_file w (repaired_block t)) ds)" for ds
    by (induction ds) (auto intro!: within_bind within_pop within_put)
  then show ?thesis unfolding persist_def by (auto intro!: within_lift within_forP)
qed

lemma within_compute:
  "within (Queue (localIp w) s ` set (input_list (compute_list t)))
    (\<Union>ci\<in>set (compute_list t). used_chans w s (ci_dstidx ci) (ci_usage ci)) (computeOneByOne isal w s m t)"
proof -
  let ?R = "Queue (localIp w) s ` set (input_list (compute_list t))"
  let ?W = "\<Union>ci\<in>set (compute_list t). used_chans w s (ci_dstidx ci) (ci_usage ci)"
  have "within ?R ?W (pop_inputs w s m (input_list (compute_list t)))"
    by (auto simp: pop_inputs_def intro!: within_forP within_bind within_pop)
  moreover have "within ?R ?W (compute_one isal w s m mm sub ci st)" if "ci \<in> set (compute_list t)" for mm sub ci st
    using that by (cases st) (auto simp: compute_one_def Let_def intro!: within_lift within_bind within_push_used)
  ultimately show ?thesis
    unfolding computeOneByOne_def Let_def by (auto intro!: within_lift within_forP within_bind)
qed

end
