(* ===== verification/Worker_Net.thy ===== *)
theory Worker_Net
  imports Worker_Run
begin

text \<open>
  The agents together: the queues, Redis lists and files through which the tasks of a batch hand packets to
  each other, and the threads that \<open>repairStripe\<close> (src/src/common/Worker.cc) starts for them on all nodes. A
  collection of tasks whose links fit together is carried out under every schedule.
\<close>

section \<open>Links between tasks\<close>

text \<open>A sub-packet of a stripe on a node: in the queue for its own use, in the queue from which it is sent,
  in the list on the node's server; or the file of a repaired block.\<close>

datatype link =
    Local int int int
  | Cached int int int
  | Sent int int int
  | Stored int string

definition ip_of :: "worker_conf \<Rightarrow> int \<Rightarrow> nat" where
  "ip_of w a = (case node_ip w a of Inl e \<Rightarrow> 0 | Inr ip \<Rightarrow> ip)"

definition agent :: "worker_conf \<Rightarrow> int \<Rightarrow> worker_conf" where
  \<comment> \<open>the configuration as node \<open>a\<close> reads it\<close>
  "agent w a = w\<lparr>localIp := ip_of w a\<rparr>"

lemma agent_fields [simp]:
  "localIp (agent w a) = ip_of w a" "conf_ecw (agent w a) = conf_ecw w" "node_ip (agent w a) = node_ip w"
  "sizes_are (agent w a) = sizes_are w" "pktBytes (agent w a) = pktBytes w"
  by (auto simp: agent_def node_ip_def sizes_are_def packet_sizes_def fun_eq_iff)

fun chan_of :: "worker_conf \<Rightarrow> int \<Rightarrow> link \<Rightarrow> chan" where
  "chan_of w b (Local s a v) = Queue (ip_of w a) s v"
| "chan_of w b (Cached s a v) = Queue (ip_of w a) s (cache_key v)"
| "chan_of w b (Sent s a v) = Server (ip_of w a) (pkt_key b s v)"
| "chan_of w b (Stored a blk) = repair_file (agent w a) blk"

fun link_ok :: "int set \<Rightarrow> link \<Rightarrow> bool" where
  "link_ok A (Local s a v) \<longleftrightarrow> a \<in> A \<and> vertex_ok v"
| "link_ok A (Cached s a v) \<longleftrightarrow> a \<in> A \<and> vertex_ok v"
| "link_ok A (Sent s a v) \<longleftrightarrow> a \<in> A \<and> vertex_ok v"
| "link_ok A (Stored a blk) \<longleftrightarrow> a \<in> A"

lemma chan_of_inj:
  assumes "inj_on (ip_of w) A"
  shows "inj_on (chan_of w b) {l. link_ok A l}"
proof (rule inj_onI)
  fix l l' assume "l \<in> {l. link_ok A l}" "l' \<in> {l. link_ok A l}" "chan_of w b l = chan_of w b l'"
  then show "l = l'"
    using assms by (cases l; cases l') (auto simp: inj_on_eq_iff repair_file_def)
qed

definition used_links :: "int \<Rightarrow> int \<Rightarrow> int \<Rightarrow> bool \<times> bool \<Rightarrow> link set" where
  "used_links s a v u = (if fst u then {Local s a v} else {}) \<union> (if snd u then {Cached s a v} else {})"

definition takes :: "int \<Rightarrow> int \<Rightarrow> task \<Rightarrow> link set" where
  "takes s a t =
     (if ttype t = Some 1 then Cached s a ` set (dagidx_list t)
      else if ttype t = Some 2 then Sent s a ` set (dagidx_list t)
      else if ttype t = Some 3 then Local s a ` set (input_list (compute_list t))
      else if ttype t = Some 4 then Local s a ` set (collect_list t) else {})"

definition fills :: "int \<Rightarrow> int \<Rightarrow> task \<Rightarrow> link set" where
  "fills s a t =
     (if ttype t = Some 0 then
        if blk_name t = ''ZERO'' then Local s a ` set (dagidx_list t)
        else (\<Union>(v, u)\<in>set (zip (dagidx_list t) (usage_list t)). used_links s a v u)
      else if ttype t = Some 1 then \<Union>(v, bs)\<in>set (zip (dagidx_list t) (send_to_list t)). (\<lambda>x. Sent s x v) ` set bs
      else if ttype t = Some 2 then Local s a ` set (dagidx_list t)
      else if ttype t = Some 3 then \<Union>ci\<in>set (compute_list t). used_links s a (ci_dstidx ci) (ci_usage ci)
      else if ttype t = Some 4 then {Stored a (repaired_block t)} else {})"

lemma chan_of_used: "chan_of w b ` used_links s a v u = used_chans (agent w a) s v u"
  by (auto simp: used_links_def used_chans_def)

section \<open>The queues that a task creates\<close>

definition task_keys :: "task \<Rightarrow> int set" where
  "task_keys t =
     (if ttype t = Some 0 then
        if blk_name t = ''ZERO'' then set (dagidx_list t)
        else (\<Union>(v, u)\<in>set (zip (dagidx_list t) (usage_list t)). used_keys v u)
      else if ttype t = Some 2 then set (dagidx_list t)
      else if ttype t = Some 3 then \<Union>ci\<in>set (compute_list t). used_keys (ci_dstidx ci) (ci_usage ci)
      else {})"

lemma set_createQueue: "set (createQueue d m) = insert d (set m)"
  by (auto simp: createQueue_def)

lemma set_createQueues: "set (fold createQueue ds m) = set m \<union> set ds"
  by (induction ds arbitrary: m) (auto simp: set_createQueue)

lemma set_create_used: "set (create_used d u m) = set m \<union> used_keys d u"
  by (auto simp: create_used_def used_keys_def Let_def set_createQueue)

lemma prepare_keys:
  assumes "ttype t = Some 0 \<Longrightarrow> blk_name t \<noteq> ''ZERO'' \<Longrightarrow> \<exists>u. usage_list t = map u (dagidx_list t)"
  shows "\<exists>m'. prepareDataMap t m = Inr m' \<and> set m' = set m \<union> task_keys t"
proof -
  consider "ttype t = Some 0 \<and> blk_name t \<noteq> ''ZERO''" | "\<not> (ttype t = Some 0 \<and> blk_name t \<noteq> ''ZERO'')" by blast
  then show ?thesis
  proof cases
    case 1
    then obtain u where u: "usage_list t = map u (dagidx_list t)" using assms by blast
    let ?ds = "dagidx_list t"
    have "prepareDataMap t m = Inr (fold (\<lambda>d. create_used d (u d)) ?ds m)"
      using 1 foldR_index [of "map u ?ds" ?ds create_used m, unfolded fold_zip_map] by (simp add: prepareDataMap_def u)
    moreover have "set (fold (\<lambda>d. create_used d (u d)) ds m) = set m \<union> (\<Union>d\<in>set ds. used_keys d (u d))" for ds
      by (induction ds arbitrary: m) (auto simp: set_create_used)
    moreover have "zip ?ds (map u ?ds) = map (\<lambda>d. (d, u d)) ?ds" by (simp add: zip_map2 zip_same_conv_map)
    ultimately show ?thesis using 1 u by (simp add: task_keys_def)
  next
    case 2
    have "set (fold (\<lambda>ci. create_used (ci_dstidx ci) (ci_usage ci)) cis m) = set m \<union> (\<Union>ci\<in>set cis. used_keys (ci_dstidx ci) (ci_usage ci))"
      for cis m by (induction cis arbitrary: m) (auto simp: set_create_used)
    then show ?thesis using 2 by (auto simp: prepareDataMap_def task_keys_def set_createQueues)
  qed
qed

lemma prepare_all:
  assumes "\<And>t. t \<in> set ts \<Longrightarrow> ttype t = Some 0 \<Longrightarrow> blk_name t \<noteq> ''ZERO'' \<Longrightarrow> \<exists>u. usage_list t = map u (dagidx_list t)"
  shows "\<exists>m'. foldR prepareDataMap ts m = Inr m' \<and> set m' = set m \<union> (\<Union>t\<in>set ts. task_keys t)"
  using assms
proof (induction ts arbitrary: m)
  case (Cons t ts)
  obtain m1 where m1: "prepareDataMap t m = Inr m1" "set m1 = set m \<union> task_keys t"
    using prepare_keys [of t m] Cons.prems by auto
  with Cons.IH [of m1] Cons.prems show ?case by fastforce
qed simp

lemma in_used_links:
  "Local s' a' v' \<in> used_links s a v u \<longleftrightarrow> fst u \<and> s' = s \<and> a' = a \<and> v' = v"
  "Cached s' a' v' \<in> used_links s a v u \<longleftrightarrow> snd u \<and> s' = s \<and> a' = a \<and> v' = v"
  "Sent s' a' v' \<notin> used_links s a v u" "Stored a' blk \<notin> used_links s a v u"
  by (auto simp: used_links_def)

lemma fills_keys:
  "Local s' a' v \<in> fills s a t \<Longrightarrow> s' = s \<and> a' = a \<and> v \<in> task_keys t"
  "Cached s' a' v \<in> fills s a t \<Longrightarrow> s' = s \<and> a' = a \<and> cache_key v \<in> task_keys t"
  unfolding fills_def task_keys_def used_keys_def UN_iff by (auto simp: in_used_links split: if_split_asm)
    (rule bexI [rotated], assumption, simp)+

section \<open>The thread of a task\<close>

definition thread_of :: "isal \<Rightarrow> disk \<Rightarrow> worker_conf \<Rightarrow> int \<Rightarrow> int \<Rightarrow> data_map \<Rightarrow> task \<Rightarrow> unit thread" where
  "thread_of isal disk w b s m t =
     (if ttype t = Some 0 then if blk_name t = ''ZERO'' then readVirtBlock w s m t else readRealBlock w disk s m t
      else if ttype t = Some 1 then sendOneByOne w b s m t
      else if ttype t = Some 2 then recvOneByOne w b s m t
      else if ttype t = Some 3 then computeOneByOne isal w s m t
      else persist w b s m t)"

lemma repairStripe_threads:
  assumes "list_all (\<lambda>t. \<exists>k\<in>{0..4}. ttype t = Some k) ts"
  shows "\<exists>ths. repairStripe isal disk w b s m (int (length ts)) ts = Inr ths \<and> mset ths = mset (map (thread_of isal disk w b s m) ts)"
proof -
  have "bindR r Inr = r" for r :: "task res" by (cases r) simp_all
  then have vget: "mapR (vget ts) (map int [0..<length ts]) = Inr ts"
    using mapR_vget [of ts Inr] mapR_pure [of ts Inr id] by simp
  have "mset (map f (filter (\<lambda>t. blk_name t \<noteq> ''ZERO'') (of_type 0 ts)) @ map f (filter (\<lambda>t. blk_name t = ''ZERO'') (of_type 0 ts)) @
      map f (of_type 1 ts) @ map f (of_type 2 ts) @ map f (of_type 3 ts) @ map f (of_type 4 ts)) = mset (map f ts)" for f :: "task \<Rightarrow> 'b"
    using assms
  proof (induction ts)
    case (Cons t ts)
    then obtain k where "0 \<le> k" "k \<le> 4" "ttype t = Some k" by auto
    then consider "ttype t = Some 0" | "ttype t = Some 1" | "ttype t = Some 2" | "ttype t = Some 3" | "ttype t = Some 4" by force
    then show ?case using Cons by cases (simp_all add: of_type_def)
  qed (simp add: of_type_def)
  note all_types = this [of "thread_of isal disk w b s m"]
  let ?virt = "filter (\<lambda>t. blk_name t = ''ZERO'') (of_type 0 ts)" and ?real = "filter (\<lambda>t. blk_name t \<noteq> ''ZERO'') (of_type 0 ts)"
  have maps: "map (readRealBlock w disk s m) ?real = map (thread_of isal disk w b s m) ?real"
    "map (readVirtBlock w s m) ?virt = map (thread_of isal disk w b s m) ?virt"
    "map (sendOneByOne w b s m) (of_type 1 ts) = map (thread_of isal disk w b s m) (of_type 1 ts)"
    "map (recvOneByOne w b s m) (of_type 2 ts) = map (thread_of isal disk w b s m) (of_type 2 ts)"
    "map (computeOneByOne isal w s m) (of_type 3 ts) = map (thread_of isal disk w b s m) (of_type 3 ts)"
    "map (persist w b s m) (of_type 4 ts) = map (thread_of isal disk w b s m) (of_type 4 ts)"
    by (auto simp: thread_of_def of_type_def)
  have "repairStripe isal disk w b s m (int (length ts)) ts =
      Inr (map (readRealBlock w disk s m) ?real @ map (readVirtBlock w s m) ?virt @ map (sendOneByOne w b s m) (of_type 1 ts) @
        map (recvOneByOne w b s m) (of_type 2 ts) @ map (computeOneByOne isal w s m) (of_type 3 ts) @ map (persist w b s m) (of_type 4 ts))"
    by (simp add: repairStripe_def vget Let_def)
  then show ?thesis using all_types unfolding maps by blast
qed


section \<open>Tasks that can be carried out\<close>

text \<open>
  What a task on node \<open>a\<close> must satisfy for its thread to move the packets \<open>pk\<close>: \<open>sub\<close> is the size of a
  packet, \<open>n\<close> their number, \<open>A\<close> the nodes, and \<open>coll\<close> tells which sub-packets a file is made of.
\<close>

definition read_fits ::
  "disk \<Rightarrow> worker_conf \<Rightarrow> (int \<Rightarrow> int \<Rightarrow> nat \<Rightarrow> string) \<Rightarrow> int \<Rightarrow> nat \<Rightarrow> int \<Rightarrow> int \<Rightarrow> task \<Rightarrow> bool" where
  "read_fits disk w pk sub n s a t \<longleftrightarrow> distinct (dagidx_list t) \<and> list_all vertex_ok (dagidx_list t) \<and>
     (if blk_name t = ''ZERO'' then \<forall>d\<in>set (dagidx_list t). \<forall>i<n. pk s d i = replicate (nat sub) CHR 0x00
      else (\<exists>u. usage_list t = map u (dagidx_list t)) \<and> inj_on (\<lambda>d. d mod conf_ecw w) (set (dagidx_list t)) \<and>
        (\<forall>d\<in>set (dagidx_list t). on_disk (agent w a) disk pk sub s (blk_name t) d n))"

definition send_fits :: "int set \<Rightarrow> task \<Rightarrow> bool" where
  "send_fits A t \<longleftrightarrow> distinct (dagidx_list t) \<and> list_all vertex_ok (dagidx_list t) \<and>
     (\<exists>to. send_to_list t = map to (dagidx_list t) \<and> (\<forall>d\<in>set (dagidx_list t). distinct (to d) \<and> set (to d) \<subseteq> A))"

definition compute_fits :: "isal \<Rightarrow> (int \<Rightarrow> int \<Rightarrow> nat \<Rightarrow> string) \<Rightarrow> int \<Rightarrow> nat \<Rightarrow> int \<Rightarrow> task \<Rightarrow> bool" where
  "compute_fits isal pk sub n s t \<longleftrightarrow> distinct (map ci_dstidx (compute_list t)) \<and> list_all vertex_ok (input_list (compute_list t)) \<and>
     (\<forall>ci\<in>set (compute_list t). length (ci_coefs ci) \<le> length (ci_srclist ci) \<and> vertex_ok (ci_dstidx ci) \<and>
        ci_dstidx ci \<notin> set (input_list (compute_list t)) \<and> (\<forall>i<n. pk s (ci_dstidx ci) i = item_value isal sub pk s i ci))"

definition task_fits ::
  "isal \<Rightarrow> disk \<Rightarrow> worker_conf \<Rightarrow> (int \<Rightarrow> int \<Rightarrow> nat \<Rightarrow> string) \<Rightarrow> int \<Rightarrow> nat \<Rightarrow> int set \<Rightarrow>
   (nat \<Rightarrow> string \<Rightarrow> int \<times> int list) \<Rightarrow> int \<Rightarrow> int \<Rightarrow> task \<Rightarrow> bool" where
  "task_fits isal disk w pk sub n A coll s a t \<longleftrightarrow> a \<in> A \<and>
     (ttype t = Some 0 \<and> read_fits disk w pk sub n s a t \<or> ttype t = Some 1 \<and> send_fits A t \<or>
      ttype t = Some 2 \<and> distinct (dagidx_list t) \<and> list_all vertex_ok (dagidx_list t) \<or>
      ttype t = Some 3 \<and> compute_fits isal pk sub n s t \<or>
      ttype t = Some 4 \<and> distinct (collect_list t) \<and> list_all vertex_ok (collect_list t) \<and>
        (\<forall>ip name. repair_file (agent w a) (repaired_block t) = File ip name \<longrightarrow> coll ip name = (s, collect_list t)))"

lemma fits_thread:
  assumes sz: "sizes_are w sub n" and len: "pkt_len_ok pk sub" and ips: "\<And>x. x \<in> A \<Longrightarrow> node_ip w x = Inr (ip_of w x)"
    and inj: "inj_on (ip_of w) A" and fits: "task_fits isal disk w pk sub n A coll s a t"
    and m: "task_keys t \<subseteq> set m" "\<And>v. Local s a v \<in> takes s a t \<Longrightarrow> v \<in> set m" "\<And>v. Cached s a v \<in> takes s a t \<Longrightarrow> cache_key v \<in> set m"
  shows "carries (whole b pk coll n) (chan_of w b ` takes s a t) (chan_of w b ` fills s a t) (thread_of isal disk (agent w a) b s m t) () \<and>
    within (chan_of w b ` takes s a t) (chan_of w b ` fills s a t) (thread_of isal disk (agent w a) b s m t)"
proof -
  let ?w = "agent w a"
  have szw: "sizes_are ?w sub n" using sz by simp
  have w: "0 < conf_ecw ?w" using sz by (simp add: sizes_are_def)
  consider (zero) "ttype t = Some 0" "blk_name t = ''ZERO''" "read_fits disk w pk sub n s a t"
    | (read) "ttype t = Some 0" "blk_name t \<noteq> ''ZERO''" "read_fits disk w pk sub n s a t"
    | (send) "ttype t = Some 1" "send_fits A t"
    | (recv) "ttype t = Some 2" "distinct (dagidx_list t)" "list_all vertex_ok (dagidx_list t)"
    | (compute) "ttype t = Some 3" "compute_fits isal pk sub n s t"
    | (persist) "ttype t = Some 4" "distinct (collect_list t)" "list_all vertex_ok (collect_list t)"
      "\<And>ip name. repair_file ?w (repaired_block t) = File ip name \<Longrightarrow> coll ip name = (s, collect_list t)"
    using fits unfolding task_fits_def by blast
  then show ?thesis
  proof cases
    case zero
    have "chan_of w b ` fills s a t = Queue (localIp ?w) s ` set (dagidx_list t)" "takes s a t = {}"
      using zero by (simp_all add: fills_def takes_def image_image)
    moreover have "set (dagidx_list t) \<subseteq> set m" using m(1) zero by (simp add: task_keys_def)
    ultimately show ?thesis
      using zero carries_virt [OF szw len, where t = t and m = m and s = s] within_virt [where w = ?w and s = s and t = t and m = m]
      by (simp add: thread_of_def read_fits_def list_all_iff)
  next
    case read
    then obtain u where u: "usage_list t = map u (dagidx_list t)" by (auto simp: read_fits_def)
    let ?ds = "dagidx_list t"
    have z: "set (zip ?ds (usage_list t)) = (\<lambda>d. (d, u d)) ` set ?ds" by (auto simp: u zip_map2 zip_same_conv_map)
    have "chan_of w b ` fills s a t = (\<Union>d\<in>set ?ds. used_chans ?w s d (u d))" "takes s a t = {}"
      using read by (simp_all add: fills_def takes_def image_UN chan_of_used z)
    moreover have "used_keys d (u d) \<subseteq> set m" if "d \<in> set ?ds" for d using that m(1) read by (auto simp: task_keys_def z)
    moreover have "vertex_ok d" if "d \<in> set ?ds" for d using that read by (simp add: read_fits_def list_all_iff)
    moreover from this have "0 \<le> d" if "d \<in> set ?ds" for d using that by (simp add: vertex_ok_def)
    ultimately show ?thesis
      using read u carries_read [OF szw len u, where s = s and m = m and disk = disk] within_read [OF u _ w, where s = s and disk = disk and m = m]
      by (simp add: thread_of_def read_fits_def)
  next
    case send
    then obtain to where to: "send_to_list t = map to (dagidx_list t)" "distinct (dagidx_list t)"
      "\<And>d. d \<in> set (dagidx_list t) \<Longrightarrow> vertex_ok d \<and> distinct (to d) \<and> set (to d) \<subseteq> A" by (auto simp: send_fits_def list_all_iff)
    let ?ds = "dagidx_list t"
    have z: "set (zip ?ds (send_to_list t)) = (\<lambda>d. (d, to d)) ` set ?ds" by (auto simp: to(1) zip_map2 zip_same_conv_map)
    have "chan_of w b ` fills s a t = (\<Union>d\<in>set ?ds. (\<lambda>x. Server (ip_of w x) (pkt_key b s d)) ` set (to d))"
      "chan_of w b ` takes s a t = (\<lambda>d. Queue (localIp ?w) s (cache_key d)) ` set ?ds"
      using send(1) by (simp_all add: fills_def takes_def image_UN image_image z)
    moreover have "cache_key d \<in> set m" if "d \<in> set ?ds" for d using that m(3) [of d] send(1) by (simp add: takes_def)
    moreover have "inj_on (ip_of w) (set (to d))" "\<And>x. x \<in> set (to d) \<Longrightarrow> node_ip ?w x = Inr (ip_of w x)" if "d \<in> set ?ds" for d
      using that to(3) [of d] inj ips by (auto intro: inj_on_subset)
    ultimately show ?thesis
      using send(1) to carries_send [OF szw len to(1,2), where m = m and ip = "ip_of w" and s = s] within_send [OF to(1), where w = ?w and ip = "ip_of w" and s = s and m = m]
      by (simp add: thread_of_def)
  next
    case recv
    have "chan_of w b ` fills s a t = Queue (localIp ?w) s ` set (dagidx_list t)"
      "chan_of w b ` takes s a t = (\<lambda>d. Server (localIp ?w) (pkt_key b s d)) ` set (dagidx_list t)"
      using recv(1) by (simp_all add: fills_def takes_def image_image)
    moreover have "d \<in> set m" if "d \<in> set (dagidx_list t)" for d using that m(1) recv(1) by (auto simp: task_keys_def)
    ultimately show ?thesis
      using recv carries_recv [OF szw len recv(2), where m = m and s = s] within_recv [where w = ?w and s = s and m = m and ds = "dagidx_list t"]
      by (simp add: thread_of_def recvOneByOne_def list_all_iff)
  next
    case compute
    let ?cis = "compute_list t"
    have "chan_of w b ` fills s a t = (\<Union>ci\<in>set ?cis. used_chans ?w s (ci_dstidx ci) (ci_usage ci))"
      "chan_of w b ` takes s a t = Queue (localIp ?w) s ` set (input_list ?cis)"
      using compute(1) by (simp_all add: fills_def takes_def image_UN image_image chan_of_used)
    moreover have "items_ok m ?cis"
      using compute m(1,2) by (force simp: items_ok_def compute_fits_def task_keys_def takes_def list_all_iff)
    ultimately show ?thesis
      using compute carries_compute [OF szw len, where m = m and t = t and s = s and isal = isal] within_compute [where w = ?w and s = s and t = t and m = m and isal = isal]
      by (simp add: thread_of_def compute_fits_def)
  next
    case persist
    have "chan_of w b ` fills s a t = {repair_file ?w (repaired_block t)}"
      "chan_of w b ` takes s a t = Queue (localIp ?w) s ` set (collect_list t)"
      using persist(1) by (simp_all add: fills_def takes_def image_image)
    moreover obtain ip name where "repair_file ?w (repaired_block t) = File ip name" by (auto simp: repair_file_def)
    moreover have "d \<in> set m" if "d \<in> set (collect_list t)" for d using that m(2) [of d] persist(1) by (simp add: takes_def)
    ultimately show ?thesis
      using persist carries_persist [OF szw len persist(2), where m = m and s = s] within_persist [where w = ?w and s = s and t = t and m = m]
      by (simp add: thread_of_def list_all_iff)
  qed
qed


section \<open>A collection of tasks\<close>

lemma wired_image:
  assumes "inj_on h X" and "full \<subseteq> X" and "used \<subseteq> X" and "\<And>R W. (R, W) \<in> set rws \<Longrightarrow> R \<subseteq> X \<and> W \<subseteq> X" and "wired full used rws"
  shows "wired (h ` full) (h ` used) (map (\<lambda>(R, W). (h ` R, h ` W)) rws) \<and>
    drained (h ` full) (map (\<lambda>(R, W). (h ` R, h ` W)) rws) = h ` drained full rws"
  using assms
proof (induction rws arbitrary: full used)
  case (Cons rw rws)
  obtain R W where rw: "rw = (R, W)" by (cases rw)
  have sub: "R \<subseteq> X" "W \<subseteq> X" using Cons.prems(4) [of R W] by (simp_all add: rw)
  have rest: "R' \<subseteq> X \<and> W' \<subseteq> X" if "(R', W') \<in> set rws" for R' W'
    using Cons.prems(4) [of R' W'] that by simp
  have step: "h ` full - h ` R \<union> h ` W = h ` (full - R \<union> W)" "h ` W \<inter> h ` used = h ` (W \<inter> used)"
    using inj_on_image_set_diff [OF Cons.prems(1), of full R] inj_on_image_Int [OF Cons.prems(1) sub(2) Cons.prems(3)]
      Cons.prems(2) sub by (auto simp: image_Un)
  have "wired (h ` (full - R \<union> W)) (h ` (used \<union> W)) (map (\<lambda>(R, W). (h ` R, h ` W)) rws) \<and>
    drained (h ` (full - R \<union> W)) (map (\<lambda>(R, W). (h ` R, h ` W)) rws) = h ` drained (full - R \<union> W) rws"
    using Cons.prems(1-3,5) sub rest by (intro Cons.IH) (simp_all add: rw le_supI1 subset_trans [OF Diff_subset])
  then show ?case using Cons.prems(5) step by (auto simp: rw image_Un)
qed simp

lemma wired_source: "wired full used rws \<Longrightarrow> (R, W) \<in> set rws \<Longrightarrow> R \<subseteq> full \<union> filled rws"
  by (induction rws arbitrary: full used) (auto, blast+)

lemma fits_links:
  assumes "task_fits isal disk w pk sub n A coll s a t"
  shows "takes s a t \<union> fills s a t \<subseteq> {l. link_ok A l}"
proof -
  have "vertex_ok v" if "ttype t = Some 0" "(v, u) \<in> set (zip (dagidx_list t) (usage_list t))" for v u
    using assms that by (auto simp: task_fits_def read_fits_def list_all_iff dest: set_zip_leftD)
  moreover have "vertex_ok v \<and> set bs \<subseteq> A" if "ttype t = Some 1" "(v, bs) \<in> set (zip (dagidx_list t) (send_to_list t))" for v bs
    using assms that by (fastforce simp: task_fits_def send_fits_def list_all_iff zip_map2 zip_same_conv_map)
  ultimately show ?thesis
    using assms unfolding takes_def fills_def used_links_def
    by (fastforce simp: task_fits_def read_fits_def send_fits_def compute_fits_def list_all_iff split: if_splits)
qed

lemma net_schedules:
  assumes sz: "sizes_are w sub n" and len: "pkt_len_ok pk sub" and ips: "\<And>x. x \<in> A \<Longrightarrow> node_ip w x = Inr (ip_of w x)"
    and inj: "inj_on (ip_of w) A"
    and fits: "\<And>s a t. (s, a, t) \<in> set ets \<Longrightarrow> task_fits isal disk w pk sub n A coll s a t"
    and m: "\<And>s a t. (s, a, t) \<in> set ets \<Longrightarrow> set (m s a) = (\<Union>t\<in>{t. (s, a, t) \<in> set ets}. task_keys t)"
    and wired: "wired {} {} (map (\<lambda>(s, a, t). (takes s a t, fills s a t)) ets)"
    and ts: "mset ts = mset (map (\<lambda>(s, a, t). thread_of isal disk (agent w a) b s (m s a) t) ets)"
  shows "\<exists>N. \<forall>k u. (net_step ^^ k) (ts, \<lambda>_. []) u \<longrightarrow> k \<le> N \<and> (k < N \<longrightarrow> (\<exists>u'. net_step u u')) \<and>
    (k = N \<longrightarrow> all_ended u \<and> snd u = (\<lambda>c. if c \<in> chan_of w b ` drained {} (map (\<lambda>(s, a, t). (takes s a t, fills s a t)) ets)
      then whole b pk coll n c else []))"
proof -
  let ?h = "chan_of w b" and ?rws = "map (\<lambda>(s, a, t). (takes s a t, fills s a t)) ets"
  have links: "takes s a t \<subseteq> {l. link_ok A l}" "fills s a t \<subseteq> {l. link_ok A l}" if "(s, a, t) \<in> set ets" for s a t
    using fits_links [OF fits [OF that]] by auto
  have keys: "task_keys t \<subseteq> set (m s a)" "\<And>v. Local s a v \<in> takes s a t \<Longrightarrow> v \<in> set (m s a)"
    "\<And>v. Cached s a v \<in> takes s a t \<Longrightarrow> cache_key v \<in> set (m s a)" if e: "(s, a, t) \<in> set ets" for s a t
  proof -
    show "task_keys t \<subseteq> set (m s a)" using m [OF e] e by auto
    have "takes s a t \<subseteq> filled ?rws" using wired_source [OF wired, of "takes s a t" "fills s a t"] e by force
    then have src: "\<exists>s' a' t'. (s', a', t') \<in> set ets \<and> l \<in> fills s' a' t'" if "l \<in> takes s a t" for l
      using that by (force simp: filled_def)
    show "v \<in> set (m s a)" if "Local s a v \<in> takes s a t" for v
      using src [OF that] m [OF e] by (auto dest: fills_keys(1))
    show "cache_key v \<in> set (m s a)" if "Cached s a v \<in> takes s a t" for v
      using src [OF that] m [OF e] by (auto dest: fills_keys(2))
  qed
  have thread: "carries (whole b pk coll n) (?h ` takes s a t) (?h ` fills s a t) (thread_of isal disk (agent w a) b s (m s a) t) () \<and>
      within (?h ` takes s a t) (?h ` fills s a t) (thread_of isal disk (agent w a) b s (m s a) t)" if "(s, a, t) \<in> set ets" for s a t
    using that by (intro fits_thread [OF sz len ips inj fits] keys)
  have "list_all2 (\<lambda>p (R, W). carries (whole b pk coll n) R W p () \<and> within R W p)
      (map (\<lambda>(s, a, t). thread_of isal disk (agent w a) b s (m s a) t) ets) (map (\<lambda>(R, W). (?h ` R, ?h ` W)) ?rws)"
    unfolding list_all2_map1 list_all2_map2
    using thread by (auto simp: list_all2_same)
  moreover have w: "wired {} {} (map (\<lambda>(R, W). (?h ` R, ?h ` W)) ?rws) \<and>
      drained {} (map (\<lambda>(R, W). (?h ` R, ?h ` W)) ?rws) = ?h ` drained {} ?rws"
    using wired_image [OF chan_of_inj [OF inj], of "{}" "{}" ?rws b] wired links by fastforce
  ultimately show ?thesis
    using wired_schedules [OF ts [symmetric], where rws = "map (\<lambda>(R, W). (?h ` R, ?h ` W)) ?rws" and vals = "whole b pk coll n"] by simp
qed

end
