(* ===== verification/RepairDag.thy ===== *)
theory RepairDag
  imports Stripe
begin

text \<open>
  Where the repair DAG of a stripe comes from: the interface \<open>ECBase\<close> (src/src/ec/ECBase.hh),
  \<open>genRepairECDAG\<close> and \<open>refreshECDAG\<close> (src/src/common/Stripe.cc), and what a DAG computes. The
  codes that implement the interface are in theories Rdp, Rs and Rs_Pipe.
\<close>

section \<open>What a DAG computes\<close>

text \<open>
  The sum that a vertex asks for; \<open>emb\<close> reads a coefficient as an element of the field the code
  works in.
\<close>

definition combine :: "(int \<Rightarrow> 'a::comm_ring_1) \<Rightarrow> (int \<Rightarrow> 'a) \<Rightarrow> int list \<Rightarrow> int list \<Rightarrow> 'a" where
  "combine emb f cfs cs = (\<Sum>(c, x)\<leftarrow>zip cfs cs. emb c * f x)"

definition satisfies :: "(int \<Rightarrow> 'a::comm_ring_1) \<Rightarrow> ecdag \<Rightarrow> (int \<Rightarrow> 'a) \<Rightarrow> bool" where
  "satisfies emb g f \<longleftrightarrow>
     (\<forall>v\<in>set (node_ids g). children_of g v \<noteq> [] \<and> v \<notin> set (ecConcacts g) \<longrightarrow>
        f v = combine emb f (coefs_of g v) (children_of g v))"

lemma combine_cong: "(\<And>x. x \<in> set cs \<Longrightarrow> f x = h x) \<Longrightarrow> combine emb f cfs cs = combine emb h cfs cs"
  unfolding combine_def by (intro arg_cong [where f = sum_list] map_cong) (auto dest: set_zip_rightD)

text \<open>The leaves determine everything: two ways to satisfy a DAG that agree on them are the same.\<close>

lemma satisfies_from:
  assumes "topo_from seen ms" and "\<And>x. x \<in> seen \<Longrightarrow> f x = h x"
    and "\<And>v n. (v, n) \<in> set ms \<Longrightarrow> childNodes n = [] \<Longrightarrow> f v = h v"
    and "\<And>v n. (v, n) \<in> set ms \<Longrightarrow> childNodes n \<noteq> [] \<Longrightarrow>
      f v = combine emb f (coefs n) (childNodes n) \<and> h v = combine emb h (coefs n) (childNodes n)"
  shows "\<forall>v\<in>set (um_keys ms). f v = h v"
  using assms
proof (induction ms arbitrary: seen)
  case Nil
  then show ?case by simp
next
  case (Cons p ms)
  obtain v n where p: "p = (v, n)" by (cases p)
  have sub: "set (childNodes n) \<subseteq> seen" "topo_from (insert v seen) ms" using Cons.prems(1) p by auto
  have v: "f v = h v"
  proof (cases "childNodes n = []")
    case True
    then show ?thesis using Cons.prems(3) [of v n] p by simp
  next
    case False
    have "combine emb f (coefs n) (childNodes n) = combine emb h (coefs n) (childNodes n)"
      using sub(1) Cons.prems(2) by (intro combine_cong) auto
    then show ?thesis using Cons.prems(4) [of v n] False p by simp
  qed
  have "\<forall>v\<in>set (um_keys ms). f v = h v"
    using sub(2) Cons.prems(2-4) v p by (intro Cons.IH [of "insert v seen"]) auto
  then show ?case using v p by simp
qed

lemma satisfies_unique:
  assumes "wf_ecdag g" and "ecConcacts g = []" and "satisfies emb g f" and "satisfies emb g h"
    and "\<And>v. v \<in> set (ecLeaves g) \<Longrightarrow> f v = h v"
  shows "\<forall>v\<in>set (node_ids g). f v = h v"
proof (rule satisfies_from)
  show "topo_from {} (ecNodeMap g)" using assms(1) by (simp add: wf_ecdag_def)
  have node: "v \<in> set (node_ids g) \<and> getNode g v = Some n" if "(v, n) \<in> set (ecNodeMap g)" for v n
    using that assms(1) getNode_mem [of g v n] getNode_iff by (auto simp: wf_ecdag_def)
  show "f v = h v" if "(v, n) \<in> set (ecNodeMap g)" "childNodes n = []" for v n
    using node [OF that(1)] that(2) assms(1,5) by (auto simp: wf_ecdag_def children_of_def)
  show "f v = combine emb f (coefs n) (childNodes n) \<and> h v = combine emb h (coefs n) (childNodes n)"
    if "(v, n) \<in> set (ecNodeMap g)" "childNodes n \<noteq> []" for v n
    using node [OF that(1)] that(2) assms(2-4) by (auto simp: satisfies_def children_of_def coefs_of_def)
qed simp

section \<open>DAGs given by equations\<close>

text \<open>A list of equations (parent, children, coefficients), each new when it is added.\<close>

type_synonym equation = "int \<times> int list \<times> int list"

fun eqs_ok :: "int set \<Rightarrow> equation list \<Rightarrow> bool" where
  "eqs_ok S [] \<longleftrightarrow> True"
| "eqs_ok S ((p, cs, cfs) # es) \<longleftrightarrow> p \<notin> S \<and> p \<notin> set cs \<and> distinct cs \<and> cs \<noteq> [] \<and>
     eqs_ok (insert p (S \<union> set cs)) es"

definition join_all :: "equation list \<Rightarrow> ecdag \<Rightarrow> ecdag" where
  "join_all es g = fold (\<lambda>(p, cs, cfs). Join p cs cfs) es g"

lemma join_all_props:
  assumes "wf_ecdag g" and "eqs_ok (set (node_ids g)) es"
  shows "wf_ecdag (join_all es g) \<and>
    set (node_ids (join_all es g)) = set (node_ids g) \<union> (\<Union>(p, cs, cfs)\<in>set es. insert p (set cs)) \<and>
    ecConcacts (join_all es g) = ecConcacts g \<and>
    (\<forall>v. children_of (join_all es g) v = (case map_of es v of None \<Rightarrow> children_of g v | Some e \<Rightarrow> fst e)) \<and>
    (\<forall>v. coefs_of (join_all es g) v = (case map_of es v of None \<Rightarrow> coefs_of g v | Some e \<Rightarrow> snd e))"
  using assms
proof (induction es arbitrary: g)
  case Nil
  then show ?case by (simp add: join_all_def)
next
  case (Cons e es)
  obtain p cs cfs where e: "e = (p, cs, cfs)" by (cases e) auto
  have pre: "p \<notin> set (node_ids g)" "p \<notin> set cs" "distinct cs" "cs \<noteq> []" using Cons.prems(2) e by auto
  note J = wf_Join [OF Cons.prems(1) pre, of cfs]
  note C = coefs_Join [OF Cons.prems(1) pre(1,2), of cfs]
  have "eqs_ok (set (node_ids (Join p cs cfs g))) es" using Cons.prems(2) e J(2) by simp
  note IH = Cons.IH [OF J(1) this]
  have step: "join_all (e # es) g = join_all es (Join p cs cfs g)" by (simp add: join_all_def e)
  have late: "map_of es p = None"
  proof -
    have "p \<notin> set (map fst es)" if "eqs_ok S es" "p \<in> S" for S
      using that by (induction es arbitrary: S) fastforce+
    moreover have "eqs_ok (insert p (set (node_ids g) \<union> set cs)) es" using Cons.prems(2) e by simp
    ultimately show ?thesis by (auto simp: map_of_eq_None_iff)
  qed
  show ?case
    unfolding step using IH J C late e by (auto split: option.splits)
qed

text \<open>The equations are what the DAG asks for.\<close>

lemma eqs_ok_distinct: "eqs_ok S es \<Longrightarrow> distinct (map fst es) \<and> set (map fst es) \<inter> S = {}"
proof (induction es arbitrary: S)
  case Nil
  then show ?case by simp
next
  case (Cons e es)
  obtain p cs cfs where e: "e = (p, cs, cfs)" by (cases e) auto
  from Cons.IH [of "insert p (S \<union> set cs)"] Cons.prems show ?case by (auto simp: e)
qed

lemma satisfies_join_all:
  assumes "eqs_ok {} es"
  shows "satisfies emb (join_all es new_ecdag) f \<longleftrightarrow>
    (\<forall>(p, cs, cfs)\<in>set es. f p = combine emb f cfs cs)"
proof -
  let ?g = "join_all es new_ecdag"
  have "eqs_ok (set (node_ids new_ecdag)) es" using assms by (simp add: new_ecdag_def)
  note P = join_all_props [OF wf_new_ecdag this]
  have none: "children_of new_ecdag v = []" "coefs_of new_ecdag v = []" for v
    by (simp_all add: new_ecdag_def children_of_def coefs_of_def getNode_def)
  have d: "distinct (map fst es)" using eqs_ok_distinct [OF assms] by blast
  have at: "map_of es p = Some (cs, cfs) \<longleftrightarrow> (p, cs, cfs) \<in> set es" for p cs cfs
    using map_of_eq_Some_iff [OF d] by simp
  have ne: "cs \<noteq> []" if "(p, cs, cfs) \<in> set es" for p cs cfs
  proof -
    have "(p, cs, cfs) \<in> set es \<Longrightarrow> eqs_ok S es \<Longrightarrow> cs \<noteq> []" for S
      by (induction es arbitrary: S) auto
    then show ?thesis using that assms by blast
  qed
  show ?thesis
  proof
    assume L: "satisfies emb ?g f"
    show "\<forall>(p, cs, cfs)\<in>set es. f p = combine emb f cfs cs"
    proof (clarify)
      fix p cs cfs assume e: "(p, cs, cfs) \<in> set es"
      have "p \<in> set (node_ids ?g)" using P e by force
      moreover have "map_of es p = Some (cs, cfs)" using at e by blast
      then have "children_of ?g p = cs" "coefs_of ?g p = cfs" using P by simp_all
      ultimately show "f p = combine emb f cfs cs"
        using L ne [OF e] P by (auto simp: satisfies_def new_ecdag_def)
    qed
  next
    assume R: "\<forall>(p, cs, cfs)\<in>set es. f p = combine emb f cfs cs"
    show "satisfies emb ?g f"
      unfolding satisfies_def
    proof (intro ballI impI)
      fix v assume "children_of ?g v \<noteq> [] \<and> v \<notin> set (ecConcacts ?g)"
      then obtain cs cfs where m: "map_of es v = Some (cs, cfs)"
        using P none by (cases "map_of es v") auto
      then have "children_of ?g v = cs" "coefs_of ?g v = cfs" using P by auto
      moreover have "(v, cs, cfs) \<in> set es" using m at by simp
      ultimately show "f v = combine emb f (coefs_of ?g v) (children_of ?g v)" using R by auto
    qed
  qed
qed

section \<open>genRepairECDAG\<close>

record ec_base =
  ec_n :: int
  ec_k :: int
  ec_w :: int
  ec_Decode :: "int list \<Rightarrow> int list \<Rightarrow> ecdag option res"   \<comment> \<open>\<open>Some\<close> a DAG, or the null pointer\<close>

definition block_pkts :: "int \<Rightarrow> int \<Rightarrow> int list" where
  \<comment> \<open>the sub-packets of one block\<close>
  "block_pkts w blkidx = map (\<lambda>offset. blkidx * w + int offset) [0..<nat w]"

definition sort_block :: "stripe \<Rightarrow> int \<Rightarrow> int list \<Rightarrow> int \<Rightarrow> int list \<times> int list \<times> int list \<Rightarrow> (int list \<times> int list \<times> int list) res" where
  "sort_block s w failidx blkidx = (\<lambda>(from, to, fails).
     bindR (vget (nodelist s) blkidx) (\<lambda>curnodeid.
       Inr (if curnodeid \<in> set failidx
            then (from, to @ block_pkts w blkidx, fails @ [blkidx])
            else (from @ block_pkts w blkidx, to, fails))))"

definition genRepairECDAG :: "ec_base \<Rightarrow> int list \<Rightarrow> stripe \<Rightarrow> stripe res" where
  "genRepairECDAG ec failidx s =
     bindR (foldR (sort_block s (ec_w ec) failidx) (map int [0..<nat (ec_n ec)]) ([], [], []))
       (\<lambda>(from, to, fails).
     bindR (ec_Decode ec from to) (\<lambda>r.
     bindR (ofOpt NullNode r) (\<lambda>g.
     bindR (Concact to (ec_n ec) (ec_w ec) g) (\<lambda>g'.
       Inr (s\<lparr>s_ecdag := g', fail_blk_idxs := fails\<rparr>)))))"

definition fail_blocks :: "stripe \<Rightarrow> int \<Rightarrow> int list \<Rightarrow> int list" where
  "fail_blocks s n failidx = filter (\<lambda>b. nodelist s ! nat b \<in> set failidx) (map int [0..<nat n])"

definition live_blocks :: "stripe \<Rightarrow> int \<Rightarrow> int list \<Rightarrow> int list" where
  "live_blocks s n failidx = filter (\<lambda>b. nodelist s ! nat b \<notin> set failidx) (map int [0..<nat n])"

lemma sort_blocks:
  assumes "nat n \<le> length (nodelist s)"
  shows "foldR (sort_block s w failidx) (map int [0..<nat n]) ([], [], []) =
    Inr (concat (map (block_pkts w) (live_blocks s n failidx)),
         concat (map (block_pkts w) (fail_blocks s n failidx)), fail_blocks s n failidx)"
proof -
  have "foldR (sort_block s w failidx) (map int bs) (fr, to, fails) =
      Inr (fr @ concat (map (block_pkts w) (filter (\<lambda>b. nodelist s ! nat b \<notin> set failidx) (map int bs))),
           to @ concat (map (block_pkts w) (filter (\<lambda>b. nodelist s ! nat b \<in> set failidx) (map int bs))),
           fails @ filter (\<lambda>b. nodelist s ! nat b \<in> set failidx) (map int bs))"
    if "set bs \<subseteq> {..<length (nodelist s)}" for bs fr to fails
    using that by (induction bs arbitrary: fr to fails) (auto simp: sort_block_def)
  from this [of "[0..<nat n]" "[]" "[]" "[]"] assms show ?thesis
    by (auto simp: live_blocks_def fail_blocks_def subset_iff)
qed

lemma block_pkts_set: "set (block_pkts w b) = {p. b * w \<le> p \<and> p < b * w + w}"
proof -
  have "p \<in> set (block_pkts w b)" if "b * w \<le> p" "p < b * w + w" for p
    using that by (auto simp: block_pkts_def image_iff intro!: bexI [of _ "nat (p - b * w)"])
  then show ?thesis by (auto simp: block_pkts_def)
qed

lemma block_pkts_div: "p \<in> set (block_pkts w b) \<Longrightarrow> p div w = b"
  unfolding block_pkts_set
  by (intro int_div_pos_eq [of p w b "p - b * w"]) (auto simp: algebra_simps)

lemma block_pkts_iff: "0 < w \<Longrightarrow> p \<in> set (block_pkts w b) \<longleftrightarrow> p div w = b"
proof
  assume "0 < w" "p div w = b"
  then have "p = b * w + p mod w" "0 \<le> p mod w" "p mod w < w" using div_mult_mod_eq [of p w] by simp_all
  then show "p \<in> set (block_pkts w b)" unfolding block_pkts_set by simp
qed (rule block_pkts_div)

lemma distinct_blocks:
  assumes "distinct bs" shows "distinct (concat (map (block_pkts w) bs))"
proof -
  have "distinct (block_pkts w b)" for b
    by (simp add: block_pkts_def distinct_map inj_on_def)
  moreover have "set (block_pkts w a) \<inter> set (block_pkts w b) = {}" if "a \<noteq> b" for a b
    using that block_pkts_div by blast
  ultimately show ?thesis using assms by (induction bs) (auto dest: block_pkts_div)
qed

lemma filter_block:
  "distinct bs \<Longrightarrow> filter (\<lambda>it. it div w = b) (concat (map (block_pkts w) bs)) =
    (if b \<in> set bs then block_pkts w b else [])"
proof (induction bs)
  case Nil
  then show ?case by simp
next
  case (Cons a bs)
  have "filter (\<lambda>it. it div w = b) (block_pkts w a) = (if a = b then block_pkts w b else [])"
    using block_pkts_div [of _ w a] by (auto simp: filter_id_conv filter_empty_conv)
  with Cons show ?case by auto
qed

lemma eqs_ok_append:
  "eqs_ok S (xs @ ys) \<longleftrightarrow> eqs_ok S xs \<and> eqs_ok (S \<union> (\<Union>(p, cs, cfs)\<in>set xs. insert p (set cs))) ys"
  by (induction xs arbitrary: S) (auto simp: Un_assoc)

definition ones :: "'a list \<Rightarrow> int list" where
  "ones xs = map (\<lambda>_. 1) xs"

lemma combine_ones: "emb 1 = 1 \<Longrightarrow> combine emb f (ones xs) xs = (\<Sum>x\<leftarrow>xs. f x)"
  unfolding combine_def ones_def by (induction xs) auto

lemma eqs_ok_list:
  assumes "\<And>e. e \<in> set es \<Longrightarrow> fst e \<notin> S \<and> fst (snd e) \<noteq> [] \<and> distinct (fst (snd e))"
    and "distinct (map fst es)"
    and "\<And>e e'. e \<in> set es \<Longrightarrow> e' \<in> set es \<Longrightarrow> fst e \<notin> set (fst (snd e'))"
  shows "eqs_ok S es"
  using assms
proof (induction es arbitrary: S)
  case Nil
  then show ?case by simp
next
  case (Cons e es)
  obtain p cs cfs where e: "e = (p, cs, cfs)" by (cases e) auto
  have "eqs_ok (insert p (S \<union> set cs)) es"
  proof (rule Cons.IH)
    fix e' assume e': "e' \<in> set es"
    have "fst e' \<noteq> p" using Cons.prems(2) e' e by force
    moreover have "fst e' \<notin> set cs" using Cons.prems(3) [of e' e] e' e by simp
    ultimately show "fst e' \<notin> insert p (S \<union> set cs) \<and> fst (snd e') \<noteq> [] \<and> distinct (fst (snd e'))"
      using Cons.prems(1) [of e'] e' by simp
  qed (use Cons.prems(2,3) in auto)
  then show ?case using Cons.prems(1) [of e] Cons.prems(3) [of e e] e by simp
qed

lemma join_all_leaves:
  assumes "eqs_ok {} es"
  shows "set (ecLeaves (join_all es new_ecdag)) \<subseteq> (\<Union>(p, cs, cfs)\<in>set es. set cs) - fst ` set es"
    and "set (node_ids (join_all es new_ecdag)) = (\<Union>(p, cs, cfs)\<in>set es. insert p (set cs))"
    and "wf_ecdag (join_all es new_ecdag)" "ecConcacts (join_all es new_ecdag) = []"
proof -
  have "eqs_ok (set (node_ids new_ecdag)) es" using assms by (simp add: new_ecdag_def)
  note P = join_all_props [OF wf_new_ecdag this]
  show nodes: "set (node_ids (join_all es new_ecdag)) = (\<Union>(p, cs, cfs)\<in>set es. insert p (set cs))"
    and wf: "wf_ecdag (join_all es new_ecdag)" and "ecConcacts (join_all es new_ecdag) = []"
    using P by (simp_all add: new_ecdag_def)
  have d: "distinct (map fst es)" using eqs_ok_distinct [OF assms] by blast
  have ne: "cs \<noteq> []" if "(p, cs, cfs) \<in> set es" for p cs cfs
  proof -
    have "(p, cs, cfs) \<in> set es \<Longrightarrow> eqs_ok S es \<Longrightarrow> cs \<noteq> []" for S
      by (induction es arbitrary: S) auto
    then show ?thesis using that assms by blast
  qed
  have "children_of (join_all es new_ecdag) p \<noteq> []" if "(p, cs, cfs) \<in> set es" for p cs cfs
    using P ne [OF that] map_of_eq_Some_iff [OF d, of p "(cs, cfs)"] that by simp
  then show "set (ecLeaves (join_all es new_ecdag)) \<subseteq> (\<Union>(p, cs, cfs)\<in>set es. set cs) - fst ` set es"
    using wf nodes unfolding wf_ecdag_def by fastforce
qed

lemma set_int_upt: "set (map int [0..<nat m]) = {x. 0 \<le> x \<and> x < m}"
  by (auto simp: image_iff intro!: bexI [of _ "nat x" for x])

definition one_lost :: "int \<Rightarrow> int list \<Rightarrow> int list \<Rightarrow> bool" where
  \<comment> \<open>exactly one of \<open>n\<close> blocks is lost, the others are read in order\<close>
  "one_lost n live lost \<longleftrightarrow> (\<exists>b. 0 \<le> b \<and> b < n \<and> lost = [b] \<and> live = filter (\<lambda>i. i \<noteq> b) (map int [0..<nat n]))"

lemma live_pkts:
  assumes "live = filter (\<lambda>i. i \<noteq> b) (map int [0..<nat n])"
  shows "v \<in> set (concat (map (block_pkts w) live)) \<longleftrightarrow> (\<exists>c. 0 \<le> c \<and> c < n \<and> c \<noteq> b \<and> v \<in> set (block_pkts w c))"
proof -
  have "set live = {c. 0 \<le> c \<and> c < n \<and> c \<noteq> b}"
    unfolding assms set_filter set_int_upt by auto
  then show ?thesis by auto
qed

text \<open>A decoder that answers with a list of equations.\<close>

lemma decode_by_equations:
  assumes "ec_Decode ec fr to = Inr (Some (join_all es new_ecdag))" and "eqs_ok {} es"
    and "\<And>p cs cfs. (p, cs, cfs) \<in> set es \<Longrightarrow> set cs \<subseteq> set fr \<union> fst ` set es"
    and "set to \<subseteq> fst ` set es"
    and "\<And>p cs cfs v. (p, cs, cfs) \<in> set es \<Longrightarrow> v \<in> insert p (set cs) \<Longrightarrow> v < REQUESTOR - ec_n ec"
    and "\<And>f. codeword f \<Longrightarrow> \<exists>h. (\<forall>(p, cs, cfs)\<in>set es. h p = combine emb h cfs cs) \<and>
      (\<forall>v<ec_n ec * ec_w ec. h v = f v)"
  shows "\<exists>g. ec_Decode ec fr to = Inr (Some g) \<and> wf_ecdag g \<and> ecConcacts g = [] \<and>
    set (ecLeaves g) \<subseteq> set fr \<and> set to \<subseteq> set (node_ids g) \<and>
    (\<forall>v\<in>set (node_ids g). v < REQUESTOR - ec_n ec) \<and>
    (\<forall>f. codeword f \<longrightarrow> (\<exists>h. satisfies emb g h \<and> (\<forall>v<ec_n ec * ec_w ec. h v = f v)))"
proof (intro exI conjI)
  let ?g = "join_all es new_ecdag"
  note L = join_all_leaves [OF assms(2)]
  show "ec_Decode ec fr to = Inr (Some ?g)" by (rule assms(1))
  show "wf_ecdag ?g" "ecConcacts ?g = []" using L(3,4) by simp_all
  show "set (ecLeaves ?g) \<subseteq> set fr" using L(1) assms(3) by fastforce
  show "set to \<subseteq> set (node_ids ?g)" unfolding L(2) using assms(4) by fastforce
  show "\<forall>v\<in>set (node_ids ?g). v < REQUESTOR - ec_n ec" unfolding L(2) using assms(5) by blast
  show "\<forall>f. codeword f \<longrightarrow> (\<exists>h. satisfies emb ?g h \<and> (\<forall>v<ec_n ec * ec_w ec. h v = f v))"
    unfolding satisfies_join_all [OF assms(2)] using assms(6) by blast
qed

text \<open>
  The promise every code makes to \<open>genRepairECDAG\<close>: for the losses it supports, its DAG is well
  formed, starts from surviving sub-packets, reaches the lost ones, leaves the ids of the
  concatenations free, and is satisfied by every codeword (extended to the ids above the blocks).
\<close>

locale erasure_code =
  fixes ec :: ec_base
    and emb :: "int \<Rightarrow> 'a::comm_ring_1"
    and codeword :: "(int \<Rightarrow> 'a) \<Rightarrow> bool"
    and supports :: "int list \<Rightarrow> int list \<Rightarrow> bool"
  assumes decode: "supports live lost \<Longrightarrow> 0 < ec_n ec \<and> 0 < ec_w ec \<and>
      (\<exists>g. ec_Decode ec (concat (map (block_pkts (ec_w ec)) live))
            (concat (map (block_pkts (ec_w ec)) lost)) = Inr (Some g) \<and>
         wf_ecdag g \<and> ecConcacts g = [] \<and>
         set (ecLeaves g) \<subseteq> set (concat (map (block_pkts (ec_w ec)) live)) \<and>
         set (concat (map (block_pkts (ec_w ec)) lost)) \<subseteq> set (node_ids g) \<and>
         (\<forall>v\<in>set (node_ids g). v < REQUESTOR - ec_n ec) \<and>
         (\<forall>f. codeword f \<longrightarrow> (\<exists>h. satisfies emb g h \<and> (\<forall>v<ec_n ec * ec_w ec. h v = f v))))"
begin

lemma repair_dag:
  assumes len: "nat (ec_n ec) \<le> length (nodelist s)"
    and sup: "supports (live_blocks s (ec_n ec) failidx) (fail_blocks s (ec_n ec) failidx)"
  shows "\<exists>g s'. ec_Decode ec (concat (map (block_pkts (ec_w ec)) (live_blocks s (ec_n ec) failidx)))
        (concat (map (block_pkts (ec_w ec)) (fail_blocks s (ec_n ec) failidx))) = Inr (Some g) \<and>
    genRepairECDAG ec failidx s = Inr s' \<and> wf_ecdag (s_ecdag s') \<and>
    nodelist s' = nodelist s \<and> ecLeaves (s_ecdag s') = ecLeaves g \<and>
    set (ecLeaves g) \<subseteq> set (concat (map (block_pkts (ec_w ec)) (live_blocks s (ec_n ec) failidx))) \<and>
    fail_blk_idxs s' = fail_blocks s (ec_n ec) failidx \<and>
    ecConcacts (s_ecdag s') = map (\<lambda>b. REQUESTOR - b) (fail_blocks s (ec_n ec) failidx) \<and>
    (\<forall>b\<in>set (fail_blocks s (ec_n ec) failidx).
       children_of (s_ecdag s') (REQUESTOR - b) = block_pkts (ec_w ec) b)"
proof -
  let ?w = "ec_w ec" and ?n = "ec_n ec"
  let ?live = "live_blocks s ?n failidx" and ?lost = "fail_blocks s ?n failidx"
  let ?to = "concat (map (block_pkts ?w) ?lost)"
  obtain g where g: "ec_Decode ec (concat (map (block_pkts ?w) ?live)) ?to = Inr (Some g)"
    "wf_ecdag g" "ecConcacts g = []" "set ?to \<subseteq> set (node_ids g)" "\<And>v. v \<in> set (node_ids g) \<Longrightarrow> v < REQUESTOR - ?n"
    "set (ecLeaves g) \<subseteq> set (concat (map (block_pkts ?w) ?live))"
    using decode [OF sup] by blast
  have params: "0 < ?n" "0 < ?w" using decode [OF sup] by auto
  have lost: "distinct ?lost" "\<And>b. b \<in> set ?lost \<Longrightarrow> 0 \<le> b \<and> b < ?n" "sorted ?lost"
    by (auto simp: fail_blocks_def distinct_map sorted_map intro!: sorted_wrt_filter)
  have to: "distinct ?to" using lost(1) by (rule distinct_blocks)
  have pkt: "0 \<le> p \<and> p div ?w < ?n" if p: "p \<in> set ?to" for p
  proof -
    obtain b where b: "b \<in> set ?lost" "p \<in> set (block_pkts ?w b)" using p by auto
    have "0 \<le> b * ?w" using lost(2) [OF b(1)] params(2) by simp
    then have "0 \<le> p" using b(2) by (simp add: block_pkts_set)
    then show ?thesis using lost(2) [OF b(1)] block_pkts_div [OF b(2)] by simp
  qed
  have fresh: "\<forall>i<nat ?n. REQUESTOR - int i \<notin> set (node_ids g) \<union> set ?to"
    using g(4,5) by (force simp: subset_iff)
  obtain g' where g': "Concact ?to ?n ?w g = Inr g'" "wf_ecdag g'"
    "ecConcacts g' = map (\<lambda>i. REQUESTOR - int i) (filter (\<lambda>i. \<exists>it\<in>set ?to. it div ?w = int i) [0..<nat ?n])"
    "\<And>i. i < nat ?n \<Longrightarrow> children_of g' (REQUESTOR - int i) = filter (\<lambda>it. it div ?w = int i) ?to"
    using Concact_blocks [OF g(2) to params(2) _ fresh] pkt g(3) by auto
  have hit: "(\<exists>it\<in>set ?to. it div ?w = b) \<longleftrightarrow> b \<in> set ?lost" for b
  proof
    assume "b \<in> set ?lost"
    moreover have "b * ?w \<in> set (block_pkts ?w b)" using params(2) by (simp add: block_pkts_set)
    moreover have "b * ?w div ?w = b" using params(2) by simp
    ultimately have "b * ?w \<in> set ?to \<and> b * ?w div ?w = b" by auto
    then show "\<exists>it\<in>set ?to. it div ?w = b" by blast
  qed (auto dest: block_pkts_div)
  have "int i \<in> set ?lost \<longleftrightarrow> nodelist s ! i \<in> set failidx" if "i < nat ?n" for i
    using that by (auto simp: fail_blocks_def)
  then have "map (\<lambda>i. REQUESTOR - int i) (filter (\<lambda>i. int i \<in> set ?lost) [0..<nat ?n]) =
      map (\<lambda>i. REQUESTOR - int i) (filter (\<lambda>i. nodelist s ! i \<in> set failidx) [0..<nat ?n])"
    by (intro arg_cong [where f = "map _"] filter_cong) auto
  also have "\<dots> = map (\<lambda>b. REQUESTOR - b) ?lost"
    by (simp add: fail_blocks_def filter_map o_def)
  finally have cc: "ecConcacts g' = map (\<lambda>b. REQUESTOR - b) ?lost" using g'(3) unfolding hit by simp
  have kids: "children_of g' (REQUESTOR - b) = block_pkts ?w b" if "b \<in> set ?lost" for b
  proof -
    have "children_of g' (REQUESTOR - b) = filter (\<lambda>it. it div ?w = b) ?to"
      using g'(4) [of "nat b"] lost(2) [OF that] by simp
    then show ?thesis using filter_block [OF lost(1)] that by simp
  qed
  have "genRepairECDAG ec failidx s = Inr (s\<lparr>s_ecdag := g', fail_blk_idxs := ?lost\<rparr>)"
    using g(1) g'(1) by (simp add: genRepairECDAG_def sort_blocks [OF len])
  moreover have "ecLeaves g' = ecLeaves g"
    using Concact_leaves [OF g'(1) g(4) params(2)] pkt by blast
  ultimately show ?thesis using g(1,6) g'(2) cc kids by auto
qed

text \<open>Whoever evaluates the DAG from the surviving sub-packets gets the lost ones back.\<close>

lemma recovers:
  assumes "supports live lost"
    and g: "ec_Decode ec (concat (map (block_pkts (ec_w ec)) live)) (concat (map (block_pkts (ec_w ec)) lost)) = Inr (Some g)"
    and f: "codeword f" and h: "satisfies emb g h"
    and leaves: "\<And>v. v \<in> set (concat (map (block_pkts (ec_w ec)) live)) \<Longrightarrow> h v = f v"
    and range: "\<And>v. v \<in> set (concat (map (block_pkts (ec_w ec)) (live @ lost))) \<Longrightarrow> v < ec_n ec * ec_w ec"
    and p: "p \<in> set (concat (map (block_pkts (ec_w ec)) lost))"
  shows "h p = f p"
proof -
  note D = decode [OF assms(1)]
  then have wf: "wf_ecdag g" "ecConcacts g = []"
    "set (ecLeaves g) \<subseteq> set (concat (map (block_pkts (ec_w ec)) live))" "p \<in> set (node_ids g)"
    using g p by auto
  from D f g obtain h' where h': "satisfies emb g h'" "\<And>v. v < ec_n ec * ec_w ec \<Longrightarrow> h' v = f v" by auto
  have "h v = h' v" if "v \<in> set (ecLeaves g)" for v
  proof -
    have v: "v \<in> set (concat (map (block_pkts (ec_w ec)) live))" using that wf(3) by blast
    then have "v < ec_n ec * ec_w ec" by (intro range) auto
    then show ?thesis using leaves [OF v] h'(2) by simp
  qed
  from satisfies_unique [OF wf(1,2) h h'(1) this] wf(4) have "h p = h' p" by blast
  moreover have "p < ec_n ec * ec_w ec" using p by (intro range) auto
  ultimately show ?thesis using h'(2) by simp
qed

end

section \<open>refreshECDAG\<close>

text \<open>
  Headers that are no concatenation are removed; \<open>ecmap_debug\<close> is the copy of the node map, and
  the writes to \<open>_parentNodes\<close> go through the shared pointers.
\<close>

definition drop_parent :: "int \<Rightarrow> ecnode \<Rightarrow> ecnode" where
  "drop_parent h n = n\<lparr>parentNodes := removeAll h (parentNodes n)\<rparr>"

definition refresh_header :: "int \<Rightarrow> ecdag \<Rightarrow> ecdag res" where
  "refresh_header h g =
     (if h \<in> set (ecConcacts g) then Inr g
      else bindR (ofOpt NullNode (getNode g h)) (\<lambda>node.
             let g1 = fold (\<lambda>c. updNode c (drop_parent h)) (childNodes node) g
             in Inr (g1\<lparr>ecNodeMap := um_erase h (ecNodeMap g1), ecHeaders := removeAll h (ecHeaders g1)\<rparr>)))"

definition refreshECDAG :: "ecdag \<Rightarrow> ecdag res" where
  "refreshECDAG g =
     (if length (ecHeaders g) \<noteq> length (ecConcacts g) then foldR refresh_header (ecHeaders g) g else Inr g)"

lemma drop_parents_loop:
  assumes "distinct cs"
  shows "node_ids (fold (\<lambda>c. updNode c (drop_parent h)) cs g) = node_ids g"
    and "children_of (fold (\<lambda>c. updNode c (drop_parent h)) cs g) v = children_of g v"
    and "parents_of (fold (\<lambda>c. updNode c (drop_parent h)) cs g) v =
      (if v \<in> set cs then removeAll h (parents_of g v) else parents_of g v)"
    and "ecHeaders (fold (\<lambda>c. updNode c (drop_parent h)) cs g) = ecHeaders g"
    and "ecConcacts (fold (\<lambda>c. updNode c (drop_parent h)) cs g) = ecConcacts g"
proof -
  have "parents_of (updNode c (drop_parent h) g) v = (if v = c then removeAll h (parents_of g v) else parents_of g v)" for c g
    by (auto simp: parents_of_def getNode_updNode drop_parent_def split: option.splits)
  then show "parents_of (fold (\<lambda>c. updNode c (drop_parent h)) cs g) v =
      (if v \<in> set cs then removeAll h (parents_of g v) else parents_of g v)"
    using assms by (induction cs arbitrary: g) auto
  show "node_ids (fold (\<lambda>c. updNode c (drop_parent h)) cs g) = node_ids g"
    "children_of (fold (\<lambda>c. updNode c (drop_parent h)) cs g) v = children_of g v"
    "ecHeaders (fold (\<lambda>c. updNode c (drop_parent h)) cs g) = ecHeaders g"
    "ecConcacts (fold (\<lambda>c. updNode c (drop_parent h)) cs g) = ecConcacts g"
    by (induction cs arbitrary: g) (simp_all add: children_of_updNode drop_parent_def)
qed

lemma reads_erase:
  "v \<noteq> h \<Longrightarrow> children_of (g\<lparr>ecNodeMap := um_erase h (ecNodeMap g)\<rparr>) v = children_of g v"
  "v \<noteq> h \<Longrightarrow> parents_of (g\<lparr>ecNodeMap := um_erase h (ecNodeMap g)\<rparr>) v = parents_of g v"
  by (simp_all add: children_of_def parents_of_def getNode_def map_of_um_erase)

text \<open>What is left after some headers \<open>R\<close> have been removed.\<close>

definition without :: "ecdag \<Rightarrow> int set \<Rightarrow> ecdag \<Rightarrow> bool" where
  "without g R g' \<longleftrightarrow>
     node_ids g' = filter (\<lambda>v. v \<notin> R) (node_ids g) \<and> ecHeaders g' = filter (\<lambda>v. v \<notin> R) (ecHeaders g) \<and>
     ecConcacts g' = ecConcacts g \<and>
     (\<forall>v. v \<notin> R \<longrightarrow> children_of g' v = children_of g v \<and>
        parents_of g' v = filter (\<lambda>p. p \<notin> R) (parents_of g v))"

lemma refresh_step:
  assumes wf: "wf_ecdag g" and w: "without g R g'" and h: "h \<in> set (ecHeaders g)" "h \<notin> R"
  shows "\<exists>g''. refresh_header h g' = Inr g'' \<and>
    without g (if h \<in> set (ecConcacts g) then R else insert h R) g''"
proof (cases "h \<in> set (ecConcacts g)")
  case True
  then show ?thesis using w by (simp add: refresh_header_def without_def)
next
  case False
  have ok: "dag_ok g" using wf by (rule wf_ecdag_ok)
  have hn: "h \<in> set (node_ids g')" using h w wf by (auto simp: without_def wf_ecdag_def)
  then obtain n where n: "getNode g' h = Some n" using getNode_iff by blast
  have kids: "childNodes n = children_of g h"
    using n w h by (auto simp: without_def children_of_def)
  let ?g1 = "fold (\<lambda>c. updNode c (drop_parent h)) (childNodes n) g'"
  have d: "distinct (childNodes n)" using kids dag_okD(2) [OF ok] by simp
  note L = drop_parents_loop [OF d]
  let ?g2 = "?g1\<lparr>ecNodeMap := um_erase h (ecNodeMap ?g1), ecHeaders := removeAll h (ecHeaders ?g1)\<rparr>"
  have par: "h \<in> set (parents_of g v) \<longleftrightarrow> v \<in> set (childNodes n)" for v
    using dag_mirror [OF ok, of h v] kids by simp
  have "without g (insert h R) ?g2"
    unfolding without_def
  proof (intro conjI allI impI)
    show "node_ids ?g2 = filter (\<lambda>v. v \<notin> insert h R) (node_ids g)"
      using w by (simp add: um_keys_erase L(1) without_def conj_commute)
    show "ecHeaders ?g2 = filter (\<lambda>v. v \<notin> insert h R) (ecHeaders g)"
      using w by (simp add: L without_def removeAll_filter_not_eq conj_commute eq_commute)
    show "ecConcacts ?g2 = ecConcacts g" using w by (simp add: L without_def)
    fix v assume v: "v \<notin> insert h R"
    have "children_of ?g2 v = children_of ?g1 v" "parents_of ?g2 v = parents_of ?g1 v"
      using v by (simp_all add: reads_erase)
    then show "children_of ?g2 v = children_of g v" "parents_of ?g2 v = filter (\<lambda>p. p \<notin> insert h R) (parents_of g v)"
      using v w par [of v] by (auto simp: L without_def removeAll_filter_not_eq intro!: filter_cong)
  qed
  moreover have "refresh_header h g' = Inr ?g2"
    using False w n by (simp add: refresh_header_def without_def Let_def)
  ultimately show ?thesis using False by auto
qed

lemma refresh_loop:
  assumes "wf_ecdag g" and "without g R g'" and "distinct hs" and "set hs \<subseteq> set (ecHeaders g) - R"
  shows "\<exists>g''. foldR refresh_header hs g' = Inr g'' \<and> without g (R \<union> (set hs - set (ecConcacts g))) g''"
  using assms(2-4)
proof (induction hs arbitrary: R g')
  case Nil
  then show ?case by auto
next
  case (Cons h hs)
  let ?R = "if h \<in> set (ecConcacts g) then R else insert h R"
  obtain g1 where g1: "refresh_header h g' = Inr g1" "without g ?R g1"
    using refresh_step [OF assms(1) Cons.prems(1), of h] Cons.prems(3) by auto
  have "R \<union> (set (h # hs) - set (ecConcacts g)) = ?R \<union> (set hs - set (ecConcacts g))" by auto
  moreover have "distinct hs" "set hs \<subseteq> set (ecHeaders g) - ?R" using Cons.prems(2,3) by auto
  ultimately show ?case using Cons.IH [OF g1(2)] g1(1) by simp
qed

text \<open>C36: \<open>Stripe::refreshECDAG\<close> removes the dangling headers and nothing else: on a well-formed DAG
  whose concatenations are headers it never follows a missing vertex, the headers left are exactly
  the concatenations, every other vertex keeps its children, and no vertex is left with a link to
  a removed parent.\<close>

theorem refreshECDAG_correct:
  assumes "wf_ecdag g" and "distinct (ecConcacts g)" and "set (ecConcacts g) \<subseteq> set (ecHeaders g)"
  shows "\<exists>g'. refreshECDAG g = Inr g' \<and> set (ecHeaders g') = set (ecConcacts g) \<and>
    set (node_ids g') = set (node_ids g) - (set (ecHeaders g) - set (ecConcacts g)) \<and>
    (\<forall>v\<in>set (node_ids g'). children_of g' v = children_of g v \<and>
       set (parents_of g' v) = set (parents_of g v) - (set (ecHeaders g) - set (ecConcacts g)))"
proof (cases "length (ecHeaders g) = length (ecConcacts g)")
  case True
  have "card (set (ecHeaders g)) = card (set (ecConcacts g))"
    using True assms(2) distinct_card [of "ecHeaders g"] distinct_card [of "ecConcacts g"] assms(1)
    by (simp only: wf_ecdag_def)
  then have "set (ecConcacts g) = set (ecHeaders g)"
    using assms(3) by (simp add: card_subset_eq)
  then show ?thesis using True by (simp add: refreshECDAG_def)
next
  case False
  have "without g {} g" by (simp add: without_def)
  from refresh_loop [OF assms(1) this, of "ecHeaders g"] assms(1) obtain g' where
    "foldR refresh_header (ecHeaders g) g = Inr g'" "without g (set (ecHeaders g) - set (ecConcacts g)) g'"
    by (auto simp: wf_ecdag_def)
  then show ?thesis using False assms(3) by (auto simp: refreshECDAG_def without_def)
qed

lemma refreshECDAG_correct_witness:
  "\<exists>g'. refreshECDAG (sample_dag\<lparr>ecConcacts := []\<rparr>) = Inr g' \<and> ecHeaders g' = []"
proof -
  have "wf_ecdag (sample_dag\<lparr>ecConcacts := []\<rparr>)"
    using wf_sample_dag by (simp add: wf_ecdag_upto wf_upto_def)
  from refreshECDAG_correct [OF this] show ?thesis by auto
qed

end
