(* ===== verification/Repair_Emits.thy ===== *)
theory Repair_Emits
  imports Worker_Net RepairDag
begin

text \<open>
  The tasks that \<open>genRepairTasks\<close> (src/src/common/Stripe.cc) emits, in the order in which it pushes them
  into the task map: closed forms of the local maps of the level functions, and the list of all pairs of a
  node and a task.
\<close>

section \<open>Maps filled by push\<close>

definition push_pairs :: "(int \<times> 'a) list \<Rightarrow> 'a list umap \<Rightarrow> 'a list umap" where
  "push_pairs ps m = fold (\<lambda>p. um_push (fst p) (snd p)) ps m"

lemma push_pairs_simps [simp]:
  "push_pairs [] m = m" "push_pairs (p # ps) m = push_pairs ps (um_push (fst p) (snd p) m)"
  "push_pairs (ps @ ps') m = push_pairs ps' (push_pairs ps m)"
  by (simp_all add: push_pairs_def)

lemma push_pairs_get: "um_get [] (push_pairs ps m) k = um_get [] m k @ map snd (filter (\<lambda>p. fst p = k) ps)"
  by (induction ps arbitrary: m) (auto simp: um_get_push)

lemma push_pairs_wf: "um_wf m \<Longrightarrow> um_wf (push_pairs ps m)"
  by (induction ps arbitrary: m) simp_all

lemma push_pairs_keys: "set (um_keys (push_pairs ps m)) = set (um_keys m) \<union> fst ` set ps"
  by (induction ps arbitrary: m) (auto simp: um_push_def um_keys_put split: if_splits)

lemma push_pairs_items:
  "(k, l) \<in> set (push_pairs ps []) \<longleftrightarrow> l = map snd (filter (\<lambda>p. fst p = k) ps) \<and> l \<noteq> []"
proof -
  have wf: "um_wf (push_pairs ps ([] :: 'a list umap))" by (rule push_pairs_wf) simp
  have get: "um_get [] (push_pairs ps []) k = map snd (filter (\<lambda>p. fst p = k) ps)" 
    using push_pairs_get [of ps "[]" k] by (simp add: um_get_def [of "[]" "[]"])
  have keys: "k \<in> set (um_keys (push_pairs ps ([] :: 'a list umap))) \<longleftrightarrow> map snd (filter (\<lambda>p. fst p = k) ps) \<noteq> []"
    by (auto simp: push_pairs_keys filter_empty_conv)
  show ?thesis
  proof
    assume "(k, l) \<in> set (push_pairs ps [])"
    moreover from this have "k \<in> set (um_keys (push_pairs ps ([] :: 'a list umap)))" by (force simp: um_keys_def)
    ultimately show "l = map snd (filter (\<lambda>p. fst p = k) ps) \<and> l \<noteq> []"
      using um_get_map_of [OF wf, of k l "[]"] get keys by metis
  next
    assume l: "l = map snd (filter (\<lambda>p. fst p = k) ps) \<and> l \<noteq> []"
    then have "k \<in> set (um_keys (push_pairs ps ([] :: 'a list umap)))" using keys by blast
    then obtain l' where "(k, l') \<in> set (push_pairs ps [])" by (auto simp: um_keys_def)
    moreover from um_get_map_of [OF wf this, of "[]"] have "l' = l" using get l by simp
    ultimately show "(k, l) \<in> set (push_pairs ps [])" by simp
  qed
qed

lemma push_pairs_distinct: "distinct (push_pairs ps ([] :: 'a list umap))"
  using push_pairs_wf [of "[] :: 'a list umap" ps] by (simp add: um_keys_def distinct_map)

lemma distinct_push_items:
  "distinct ps \<Longrightarrow> (k, l) \<in> set (push_pairs ps []) \<Longrightarrow> distinct l"
  unfolding push_pairs_items by (simp add: distinct_map inj_on_def prod_eq_iff)

section \<open>The plan of a level in closed form\<close>

definition use_of :: "ecdag \<Rightarrow> int umap \<Rightarrow> int \<Rightarrow> bool \<times> bool" where
  "use_of g cl v = (color_of cl v \<in> color_of cl ` set (parents_of g v), remote g cl v \<noteq> [])"

lemma usage_loop_eq: "usage_loop c ps (F, G) = (F \<or> c \<in> set ps, G \<or> (\<exists>p\<in>set ps. p \<noteq> c))" if "\<not> (F \<and> G)"
  using that
proof (induction ps arbitrary: F G)
  case (Cons p ps)
  then show ?case by (cases F; cases G; cases "p = c") (auto simp: Let_def)
qed auto

lemma usage_of_vertex:
  "usage_loop (color_of cl v) (parent_colors cl (parents_of g v)) (False, False) = use_of g cl v"
proof -
  have "remote g cl v \<noteq> [] \<longleftrightarrow> (\<exists>p\<in>set (parent_colors cl (parents_of g v)). p \<noteq> color_of cl v)"
    using set_remote [of g cl v] by (auto simp: set_empty [symmetric] simp del: set_empty)
  then show ?thesis by (simp add: usage_loop_eq use_of_def)
qed

definition plan_of :: "ecdag \<Rightarrow> int umap \<Rightarrow> (int \<Rightarrow> int) \<Rightarrow> int list \<Rightarrow> level_plan" where
  "plan_of g cl key vs =
     \<lparr>pl_work = push_pairs (map (\<lambda>v. (key v, v)) vs) [],
      pl_usage = fold (\<lambda>v. um_insert v (use_of g cl v)) vs [],
      pl_sendfrom = push_pairs (map (\<lambda>v. (color_of cl v, v)) (filter (\<lambda>v. remote g cl v \<noteq> []) vs)) [],
      pl_sendto = fold (\<lambda>v. um_insert v (remote g cl v)) (filter (\<lambda>v. remote g cl v \<noteq> []) vs) [],
      pl_recv = push_pairs (concat (map (\<lambda>v. map (\<lambda>b. (b, v)) (remote g cl v)) vs)) []\<rparr>"

lemma plan_vertex_snoc:
  "plan_vertex (key v) v (color_of cl v) (parent_colors cl (parents_of g v)) (plan_of g cl key vs) = plan_of g cl key (vs @ [v])"
proof -
  have "fold (\<lambda>p. um_push p v) ps m = push_pairs (map (\<lambda>b. (b, v)) ps) m" for ps m
    by (induction ps arbitrary: m) simp_all
  then show ?thesis
    by (simp add: plan_vertex_def plan_of_def Let_def usage_of_vertex flip: remote_def)
qed

lemma plan_fold:
  assumes "\<And>v pl. v \<in> set vs \<Longrightarrow> f v pl = Inr (plan_vertex (key v) v (color_of cl v) (parent_colors cl (parents_of g v)) pl)"
  shows "foldR f vs no_plan = Inr (plan_of g cl key vs)"
proof -
  have "foldR f vs (plan_of g cl key us) = Inr (plan_of g cl key (us @ vs))" for us
    using assms by (induction vs arbitrary: us) (simp_all add: plan_vertex_snoc)
  from this [of "[]"] show ?thesis by (simp add: plan_of_def no_plan_def)
qed

text \<open>Zero sub-packets: the nodes that need one.\<close>

definition zero_nodes :: "ecdag \<Rightarrow> int umap \<Rightarrow> int \<Rightarrow> int list" where
  "zero_nodes g cl v = fold (\<lambda>p ret. if color_of cl p = -1 then ret else add_color (color_of cl p) ret) (parents_of g v) []"

lemma zero_nodes_props: "distinct (zero_nodes g cl v)" "set (zero_nodes g cl v) = color_of cl ` set (parents_of g v) - {-1}"
proof -
  have "distinct r \<Longrightarrow> distinct (fold (\<lambda>p ret. if color_of cl p = -1 then ret else add_color (color_of cl p) ret) ps r)"
    and "set (fold (\<lambda>p ret. if color_of cl p = -1 then ret else add_color (color_of cl p) ret) ps r) =
      set r \<union> (color_of cl ` set ps - {-1})" for ps r
    by (induction ps arbitrary: r) (auto simp: add_color_def)
  then show "distinct (zero_nodes g cl v)" "set (zero_nodes g cl v) = color_of cl ` set (parents_of g v) - {-1}"
    by (simp_all add: zero_nodes_def)
qed

lemma remote_distinct: "distinct (remote g cl v)"
proof -
  have "distinct r \<Longrightarrow> distinct (fold (\<lambda>p. add_color (color_of cl p)) ps r)" for ps r
    by (induction ps arbitrary: r) (auto simp: add_color_def)
  then show ?thesis by (simp add: remote_def parent_colors_def)
qed

definition zeros_of :: "ecdag \<Rightarrow> int umap \<Rightarrow> int list \<Rightarrow> int list umap" where
  "zeros_of g cl vs = push_pairs (concat (map (\<lambda>v. map (\<lambda>b. (b, v)) (zero_nodes g cl v)) vs)) []"

lemma zeros_fold:
  assumes "wf_ecdag g" and "set vs \<subseteq> set (node_ids g)"
  shows "foldR (plan_zero g cl) vs [] = Inr (zeros_of g cl vs)"
proof -
  have "fold (\<lambda>p. um_push p v) ps m = push_pairs (map (\<lambda>b. (b, v)) ps) m" for ps v and m :: "int list umap"
    by (induction ps arbitrary: m) simp_all
  then have "plan_zero g cl v m = Inr (push_pairs (map (\<lambda>b. (b, v)) (zero_nodes g cl v)) m)" if "v \<in> set vs" for v m
    using that assms getNode_iff [of v g] getNode_reads [OF assms(1), of v] by (fastforce simp: plan_zero_def zero_nodes_def)
  then have "foldR (plan_zero g cl) vs m = Inr (push_pairs (concat (map (\<lambda>v. map (\<lambda>b. (b, v)) (zero_nodes g cl v)) vs)) m)" for m
    by (induction vs arbitrary: m) simp_all
  then show ?thesis by (simp add: zeros_of_def)
qed


section \<open>Items by their key\<close>

abbreviation groups :: "(int \<times> 'a) list \<Rightarrow> (int \<times> 'a list) list" where
  "groups ps \<equiv> push_pairs ps []"

lemma group_mem: "(k, l) \<in> set (groups ps) \<Longrightarrow> v \<in> set l \<longleftrightarrow> (k, v) \<in> set ps"
  by (force simp: push_pairs_items)

lemma group_nonempty: "(k, l) \<in> set (groups ps) \<Longrightarrow> l \<noteq> []"
  unfolding push_pairs_items by blast

lemma group_of: "(k, v) \<in> set ps \<Longrightarrow> \<exists>l. (k, l) \<in> set (groups ps) \<and> v \<in> set l"
  by (force simp: push_pairs_items filter_empty_conv)

lemma group_unique: "(k, l) \<in> set (groups ps) \<Longrightarrow> (k, l') \<in> set (groups ps) \<Longrightarrow> l = l'"
  by (simp add: push_pairs_items)

lemma Union_groups: "(\<Union>(k, l)\<in>set (groups ps). \<Union>v\<in>set l. f k v) = (\<Union>(k, v)\<in>set ps. f k v)"
proof (intro equalityI subsetI)
  fix y assume "y \<in> (\<Union>(k, l)\<in>set (groups ps). \<Union>v\<in>set l. f k v)"
  then obtain k l v where kl: "(k, l) \<in> set (groups ps)" "v \<in> set l" "y \<in> f k v" by auto
  then have "(k, v) \<in> set ps" using group_mem [OF kl(1)] by blast
  then show "y \<in> (\<Union>(k, v)\<in>set ps. f k v)" using kl(3) by auto
next
  fix y assume "y \<in> (\<Union>(k, v)\<in>set ps. f k v)"
  then obtain k v where kv: "(k, v) \<in> set ps" "y \<in> f k v" by auto
  from group_of [OF kv(1)] obtain l where "(k, l) \<in> set (groups ps)" "v \<in> set l" by blast
  then show "y \<in> (\<Union>(k, l)\<in>set (groups ps). \<Union>v\<in>set l. f k v)" using kv(2) by fast
qed

section \<open>What a level emits\<close>

definition work_pairs :: "(int \<Rightarrow> int) \<Rightarrow> int list \<Rightarrow> (int \<times> int) list" where
  "work_pairs key vs = map (\<lambda>v. (key v, v)) vs"

definition send_pairs :: "ecdag \<Rightarrow> int umap \<Rightarrow> int list \<Rightarrow> (int \<times> int) list" where
  "send_pairs g cl vs = map (\<lambda>v. (color_of cl v, v)) (filter (\<lambda>v. remote g cl v \<noteq> []) vs)"

definition recv_pairs :: "ecdag \<Rightarrow> int umap \<Rightarrow> int list \<Rightarrow> (int \<times> int) list" where
  "recv_pairs g cl vs = concat (map (\<lambda>v. map (\<lambda>b. (b, v)) (remote g cl v)) vs)"

definition zero_pairs :: "ecdag \<Rightarrow> int umap \<Rightarrow> int list \<Rightarrow> (int \<times> int) list" where
  "zero_pairs g cl vs = concat (map (\<lambda>v. map (\<lambda>b. (b, v)) (zero_nodes g cl v)) vs)"

definition read_emit :: "int \<Rightarrow> stripe \<Rightarrow> int \<times> int list \<Rightarrow> int \<times> task" where
  "read_emit b s = (\<lambda>(k, l). (color_of (coloring s) (hd l),
     buildReadTask 0 (blklist s ! nat k) (sort l) (map (use_of (s_ecdag s) (coloring s)) (sort l)) (new_task b (stripe_id s))))"

definition send_emit :: "int \<Rightarrow> stripe \<Rightarrow> int \<times> int list \<Rightarrow> int \<times> task" where
  "send_emit b s = (\<lambda>(a, l). (a, buildSendTask 1 l (map (remote (s_ecdag s) (coloring s)) l) (new_task b (stripe_id s))))"

definition recv_emit :: "int \<Rightarrow> stripe \<Rightarrow> int \<times> int list \<Rightarrow> int \<times> task" where
  "recv_emit b s = (\<lambda>(a, l). (a, buildRecvTask 2 l (new_task b (stripe_id s))))"

definition zero_emit :: "int \<Rightarrow> stripe \<Rightarrow> int \<times> int list \<Rightarrow> int \<times> task" where
  "zero_emit b s = (\<lambda>(a, l). (a, buildReadTask 0 ''ZERO'' l [] (new_task b (stripe_id s))))"

definition compute_emit :: "int \<Rightarrow> stripe \<Rightarrow> int \<times> int list \<Rightarrow> int \<times> task" where
  "compute_emit b s = (\<lambda>(a, l). (a, buildComputeTask 3
     (map (\<lambda>v. new_compute_item v (children_of (s_ecdag s) v) (coefs_of (s_ecdag s) v) (use_of (s_ecdag s) (coloring s) v)) l)
     (new_task b (stripe_id s))))"

definition persist_emit :: "int \<Rightarrow> stripe \<Rightarrow> int \<Rightarrow> int \<times> task" where
  "persist_emit b s v = (color_of (coloring s) v,
     buildPersistTask 4 (children_of (s_ecdag s) v) (blklist s ! nat (REQUESTOR - v)) (new_task b (stripe_id s)))"

definition reals :: "stripe \<Rightarrow> int list \<Rightarrow> int list" where
  "reals s L = filter (\<lambda>v. color_of (coloring s) v \<noteq> -1) L"

definition blanks :: "stripe \<Rightarrow> int list \<Rightarrow> int list" where
  "blanks s L = filter (\<lambda>v. \<not> color_of (coloring s) v \<noteq> -1) L"

definition moves_emits :: "int \<Rightarrow> stripe \<Rightarrow> int list \<Rightarrow> (int \<times> task) list" where
  \<comment> \<open>sends, receives and zero sub-packets of a level\<close>
  "moves_emits b s L =
     map (send_emit b s) (groups (send_pairs (s_ecdag s) (coloring s) (reals s L))) @
     map (recv_emit b s) (groups (recv_pairs (s_ecdag s) (coloring s) (reals s L))) @
     map (zero_emit b s) (groups (zero_pairs (s_ecdag s) (coloring s) (blanks s L)))"

definition level0_emits :: "int \<Rightarrow> int \<Rightarrow> stripe \<Rightarrow> int list \<Rightarrow> (int \<times> task) list" where
  "level0_emits b ecw s L = map (read_emit b s) (groups (work_pairs (\<lambda>v. v div ecw) (reals s L))) @ moves_emits b s L"

definition inner_emits :: "int \<Rightarrow> stripe \<Rightarrow> int list \<Rightarrow> (int \<times> task) list" where
  "inner_emits b s L = map (compute_emit b s) (groups (work_pairs (color_of (coloring s)) (reals s L))) @ moves_emits b s L"

lemma push_pairs_map: "fold (\<lambda>x. um_push (fst (f x)) (snd (f x))) xs res = push_pairs (map f xs) res"
  by (induction xs arbitrary: res) simp_all

lemma foldR_push:
  assumes "\<And>x r. x \<in> set xs \<Longrightarrow> f x r = Inr (um_push (fst (h x)) (snd (h x)) r)"
  shows "foldR f xs res = Inr (push_pairs (map h xs) res)"
  using assms by (induction xs arbitrary: res) simp_all

lemma plan_parts:
  assumes "(a, l) \<in> set (pl_sendfrom (plan_of g cl key vs))"
  shows "map (um_get [] (pl_sendto (plan_of g cl key vs))) l = map (remote g cl) l"
proof -
  have "v \<in> set (filter (\<lambda>v. remote g cl v \<noteq> []) vs)" if "v \<in> set l" for v
    using group_mem [OF assms [unfolded plan_of_def level_plan.simps], of v] that by auto
  then show ?thesis by (simp add: plan_of_def um_get_inserts_new)
qed

lemma moves_folds:
  fixes s :: stripe and vs :: "int list" and key :: "int \<Rightarrow> int"
  defines "pl \<equiv> plan_of (s_ecdag s) (coloring s) key vs"
  shows "fold (recv_task b (stripe_id s)) (pl_recv pl) (fold (send_task b pl (stripe_id s)) (pl_sendfrom pl) res) =
    push_pairs (map (send_emit b s) (groups (send_pairs (s_ecdag s) (coloring s) vs)) @
      map (recv_emit b s) (groups (recv_pairs (s_ecdag s) (coloring s) vs))) res"
proof -
  have send: "send_task b pl (stripe_id s) x r = um_push (fst (send_emit b s x)) (snd (send_emit b s x)) r"
    if x: "x \<in> set (pl_sendfrom pl)" for x r
  proof -
    obtain a l where al: "x = (a, l)" by (cases x)
    show ?thesis
      using plan_parts [of a l, OF x [unfolded al pl_def]] by (simp only: al pl_def send_task_def send_emit_def fst_conv snd_conv prod.case)
  qed
  have recv: "recv_task b (stripe_id s) = (\<lambda>x. um_push (fst (recv_emit b s x)) (snd (recv_emit b s x)))"
    by (simp add: fun_eq_iff recv_task_def recv_emit_def)
  have "fold (send_task b pl (stripe_id s)) (pl_sendfrom pl) res = push_pairs (map (send_emit b s) (pl_sendfrom pl)) res"
    using fold_cong [OF refl refl, of "pl_sendfrom pl" "send_task b pl (stripe_id s)"
        "\<lambda>x. um_push (fst (send_emit b s x)) (snd (send_emit b s x))"] send by (simp add: fun_eq_iff push_pairs_map)
  then show ?thesis
    unfolding recv push_pairs_map by (simp add: pl_def plan_of_def send_pairs_def recv_pairs_def)
qed


lemma usage_at: "(k, l) \<in> set (groups (work_pairs key vs)) \<Longrightarrow> v \<in> set l \<Longrightarrow>
    um_get (False, False) (pl_usage (plan_of g cl key vs)) v = use_of g cl v"
  using group_mem [of k l "work_pairs key vs" v] by (auto simp: plan_of_def work_pairs_def um_get_inserts_new)

lemma node_reads:
  assumes "wf_ecdag g" and "v \<in> set (node_ids g)"
  shows "\<exists>n. getNode g v = Some n \<and> parentNodes n = parents_of g v \<and> childNodes n = children_of g v \<and> coefs n = coefs_of g v"
  using assms(2) getNode_iff [of v g] getNode_reads [OF assms(1), of v] by (force simp: coefs_of_def)

lemma zeros_push:
  fixes s :: stripe
  assumes "wf_ecdag (s_ecdag s)" and "set vs \<subseteq> set (node_ids (s_ecdag s))"
  shows "bindR (foldR (plan_zero (s_ecdag s) (coloring s)) vs []) (\<lambda>zeros. Inr (fold (zero_task b (stripe_id s)) zeros res)) =
    Inr (push_pairs (map (zero_emit b s) (groups (zero_pairs (s_ecdag s) (coloring s) vs))) res)"
proof -
  have "zero_task b (stripe_id s) = (\<lambda>x. um_push (fst (zero_emit b s x)) (snd (zero_emit b s x)))"
    by (simp add: fun_eq_iff zero_task_def zero_emit_def)
  then show ?thesis
    using zeros_fold [OF assms] push_pairs_map [of "zero_emit b s"] by (simp add: zeros_of_def zero_pairs_def)
qed

lemma genLevel0_emits:
  assumes wf: "wf_ecdag (s_ecdag s)" and L: "set L \<subseteq> set (node_ids (s_ecdag s))" and w: "0 < ecw"
    and leaf: "\<And>v. v \<in> set L \<Longrightarrow> 0 \<le> v \<and> (v div ecw < ecn \<longleftrightarrow> color_of (coloring s) v \<noteq> -1) \<and>
      (v div ecw < ecn \<longrightarrow> nat (v div ecw) < length (blklist s))"
  shows "genLevel0 b ecn eck ecw L s res = Inr (push_pairs (level0_emits b ecw s L) res)"
proof -
  let ?g = "s_ecdag s" and ?cl = "coloring s" and ?key = "\<lambda>v. v div ecw"
  let ?pl = "plan_of ?g ?cl ?key (reals s L)"
  have "filter (\<lambda>v. v div ecw < ecn) L = reals s L" "filter (\<lambda>v. \<not> v div ecw < ecn) L = blanks s L"
    using leaf by (auto simp: reals_def blanks_def intro!: filter_cong)
  then have split: "split_real ecn ecw L = Inr (reals s L, blanks s L)" using split_real_eq [of ecw L ecn] w leaf by simp
  have plan: "foldR (plan_level0 ?g ?cl ecw) (reals s L) no_plan = Inr ?pl"
  proof (rule plan_fold)
    fix v pl assume "v \<in> set (reals s L)"
    then have v: "v \<in> set L" "v \<in> set (node_ids ?g)" using L by (auto simp: reals_def)
    from node_reads [OF wf v(2)] leaf [OF v(1)] w
    show "plan_level0 ?g ?cl ecw v pl = Inr (plan_vertex (v div ecw) v (color_of ?cl v) (parent_colors ?cl (parents_of ?g v)) pl)"
      by (auto simp: plan_level0_def)
  qed
  have "foldR (read_task b ?cl (blklist s) ?pl (stripe_id s)) (groups (work_pairs ?key (reals s L))) res =
      Inr (push_pairs (map (read_emit b s) (groups (work_pairs ?key (reals s L)))) res)"
  proof (rule foldR_push)
    fix x r assume x: "x \<in> set (groups (work_pairs ?key (reals s L)))"
    obtain k l where kl: "x = (k, l)" by (cases x)
    obtain v where v: "v \<in> set l" using group_nonempty x by (fastforce simp: kl neq_Nil_conv)
    then have "k = v div ecw" "v \<in> set L" "color_of ?cl v \<noteq> -1"
      using group_mem [OF x [unfolded kl], of v] by (auto simp: work_pairs_def reals_def)
    then have k: "0 \<le> k" "nat k < length (blklist s)" using leaf [of v] w by (auto simp: pos_imp_zdiv_nonneg_iff)
    have us: "map (um_get (False, False) (pl_usage ?pl)) (sort l) = map (use_of ?g ?cl) (sort l)"
      using usage_at x by (auto simp: kl)
    have gets: "vget l 0 = Inr (hd l)" "vget (blklist s) k = Inr (blklist s ! nat k)" using v k by (cases l, simp_all)
    show "read_task b ?cl (blklist s) ?pl (stripe_id s) x r = Inr (um_push (fst (read_emit b s x)) (snd (read_emit b s x)) r)"
      by (simp only: kl read_task_def read_emit_def Let_def fst_conv snd_conv prod.case gets bindR_Inr us)
  qed
  moreover have "pl_work ?pl = groups (work_pairs ?key (reals s L))" by (simp add: plan_of_def work_pairs_def)
  moreover have "set (blanks s L) \<subseteq> set (node_ids ?g)" using L by (auto simp: blanks_def)
  ultimately show ?thesis
    unfolding genLevel0_def Let_def split bindR_Inr prod.case plan moves_folds
    by (simp add: zeros_push [OF wf] level0_emits_def moves_emits_def)
qed


lemma genIntermediate_emits:
  assumes wf: "wf_ecdag (s_ecdag s)" and L: "set L \<subseteq> set (node_ids (s_ecdag s))"
  shows "genIntermediateLevels b ecn eck ecw L s res = Inr (push_pairs (inner_emits b s L) res)"
proof -
  let ?g = "s_ecdag s" and ?cl = "coloring s"
  let ?pl = "plan_of ?g ?cl (color_of ?cl) (reals s L)" and ?work = "groups (work_pairs (color_of ?cl) (reals s L))"
  have plan: "foldR (plan_intermediate ?g ?cl) (reals s L) no_plan = Inr ?pl"
  proof (rule plan_fold)
    fix v pl assume "v \<in> set (reals s L)"
    then have v: "v \<in> set (node_ids ?g)" using L by (auto simp: reals_def)
    from node_reads [OF wf v]
    show "plan_intermediate ?g ?cl v pl = Inr (plan_vertex (color_of ?cl v) v (color_of ?cl v) (parent_colors ?cl (parents_of ?g v)) pl)"
      by (auto simp: plan_intermediate_def)
  qed
  have "foldR (compute_task b ?g ?pl (stripe_id s)) ?work res = Inr (push_pairs (map (compute_emit b s) ?work) res)"
  proof (rule foldR_push)
    fix x r assume x: "x \<in> set ?work"
    obtain a l where al: "x = (a, l)" by (cases x)
    have "v \<in> set (node_ids ?g)" if "v \<in> set l" for v
      using group_mem [OF x [unfolded al], of v] that L by (auto simp: work_pairs_def reals_def)
    from node_reads [OF wf this] usage_at [OF x [unfolded al], of _ ?g ?cl]
    have "mapR (\<lambda>v. bindR (ofOpt NullNode (getNode ?g v)) (\<lambda>node.
          Inr (new_compute_item v (childNodes node) (coefs node) (um_get (False, False) (pl_usage ?pl) v)))) l
        = Inr (map (\<lambda>v. new_compute_item v (children_of ?g v) (coefs_of ?g v) (use_of ?g ?cl v)) l)"
      by (intro mapR_pure) fastforce
    then show "compute_task b ?g ?pl (stripe_id s) x r = Inr (um_push (fst (compute_emit b s x)) (snd (compute_emit b s x)) r)"
      by (simp add: al compute_task_def compute_emit_def)
  qed
  moreover have "pl_work ?pl = ?work" by (simp add: plan_of_def work_pairs_def)
  moreover have "set (blanks s L) \<subseteq> set (node_ids ?g)" using L by (auto simp: blanks_def)
  ultimately show ?thesis
    unfolding genIntermediateLevels_def Let_def reals_def [symmetric] blanks_def [symmetric] plan bindR_Inr moves_folds
    by (simp add: zeros_push [OF wf] inner_emits_def moves_emits_def)
qed

lemma genLastLevel_emits:
  assumes wf: "wf_ecdag (s_ecdag s)" and L: "set L \<subseteq> set (node_ids (s_ecdag s))"
    and blk: "\<And>v. v \<in> set L \<Longrightarrow> v \<le> REQUESTOR \<and> nat (REQUESTOR - v) < length (blklist s)"
  shows "genLastLevel b ecn eck ecw L s res = Inr (push_pairs (map (persist_emit b s) L) res)"
  unfolding genLastLevel_def
proof (rule foldR_push)
  fix v r assume v: "v \<in> set L"
  then have "v \<in> set (node_ids (s_ecdag s))" using L by auto
  from node_reads [OF wf this] blk [OF v]
  show "persist_task b s v r = Inr (um_push (fst (persist_emit b s v)) (snd (persist_emit b s v)) r)"
    by (auto simp: persist_task_def persist_emit_def)
qed

definition level_emits :: "int \<Rightarrow> int \<Rightarrow> stripe \<Rightarrow> int list list \<Rightarrow> nat \<Rightarrow> (int \<times> task) list" where
  "level_emits b ecw s Ls k =
     (if k = 0 then level0_emits b ecw s (Ls ! k)
      else if k = length Ls - 1 then map (persist_emit b s) (Ls ! k)
      else inner_emits b s (Ls ! k))"

definition stripe_emits :: "int \<Rightarrow> int \<Rightarrow> stripe \<Rightarrow> int list list \<Rightarrow> (int \<times> task) list" where
  "stripe_emits b ecw s Ls = concat (map (level_emits b ecw s Ls) [0..<length Ls])"

lemma gen_levels_emits:
  assumes wf: "wf_ecdag (s_ecdag s)" and lev: "levels_from (s_ecdag s) {} Ls"
    and dep: "deployable ecn ecw Ls (s_ecdag s) (coloring s) (length (blklist s))" and k: "k \<le> length Ls"
  shows "foldR (gen_level b ecn eck ecw s Ls) [0..<k] res = Inr (push_pairs (concat (map (level_emits b ecw s Ls) [0..<k])) res)"
  using k
proof (induction k)
  case (Suc k)
  then have kl: "k < length Ls" by simp
  have "set (concat Ls) = set (node_ids (s_ecdag s))"
    using levels_from_props [OF lev] dag_okD(1) [OF wf_ecdag_ok [OF wf]] by auto
  then have L: "set (Ls ! k) \<subseteq> set (node_ids (s_ecdag s))" using kl by auto
  have "gen_level b ecn eck ecw s Ls k res = Inr (push_pairs (level_emits b ecw s Ls k) res)" for res
  proof -
    consider "k = 0" | "k \<noteq> 0" "k = length Ls - 1" | "k \<noteq> 0" "k \<noteq> length Ls - 1" by blast
    then show ?thesis
    proof cases
      case 1
      have "Ls ! k = hd Ls" using 1 kl by (simp add: hd_conv_nth)
      then have "genLevel0 b ecn eck ecw (Ls ! k) s res = Inr (push_pairs (level0_emits b ecw s (Ls ! k)) res)"
        using dep by (intro genLevel0_emits [OF wf L]) (simp_all add: deployable_def list_all_iff)
      then show ?thesis using 1 by (simp add: gen_level_def level_emits_def)
    next
      case 2
      have "Ls ! k = last Ls" using 2 kl by (metis last_conv_nth length_0_conv not_less_zero)
      then have "genLastLevel b ecn eck ecw (Ls ! k) s res = Inr (push_pairs (map (persist_emit b s) (Ls ! k)) res)"
        using dep by (intro genLastLevel_emits [OF wf L]) (simp add: deployable_def list_all_iff)
      then show ?thesis using 2 by (simp add: gen_level_def level_emits_def)
    next
      case 3
      with genIntermediate_emits [OF wf L] show ?thesis by (simp add: gen_level_def level_emits_def)
    qed
  qed
  then show ?case using Suc by (simp add: foldR_append)
qed simp

lemma genRepairTasks_emits:
  assumes wf: "wf_ecdag (s_ecdag s)" and lev: "genLeveledTopologicalSorting (s_ecdag s) = Some Ls"
    and dep: "deployable ecn ecw Ls (s_ecdag s) (remap_colors f2r (coloring s)) (length (blklist s))"
  shows "\<exists>s'. genRepairTasks b ecn eck ecw f2r s = Inr s' \<and>
    taskmap s' = push_pairs (stripe_emits b ecw (s\<lparr>coloring := remap_colors f2r (coloring s)\<rparr>) Ls) (taskmap s) \<and>
    s_ecdag s' = s_ecdag s \<and> stripe_id s' = stripe_id s"
proof -
  let ?s = "s\<lparr>coloring := remap_colors f2r (coloring s)\<rparr>"
  have "levels_from (s_ecdag s) {} Ls" using genLeveled_returns [OF wf] lev by auto
  with gen_levels_emits [of ?s Ls ecn ecw "length Ls" b eck "taskmap s"] wf dep lev show ?thesis
    by (simp add: genRepairTasks_def stripe_emits_def)
qed

end
