(* ===== verification/Repair_Wiring.thy ===== *)
theory Repair_Wiring
  imports Repair_Emits
begin

text \<open>
  The tasks of a stripe as \<open>genRepairTasks\<close> (src/src/common/Stripe.cc) emits them, level by level, form a
  wired collection: each task finds filled what it takes, and no link is filled twice.
\<close>

section \<open>Groups of tasks\<close>

lemma wired_groups:
  assumes links: "\<And>k l. (k, l) \<in> set (groups ps) \<Longrightarrow> rw (k, l) = ((\<Union>v\<in>set l. R k v), (\<Union>v\<in>set l. W k v))"
    and ok: "\<And>k v. (k, v) \<in> set ps \<Longrightarrow> R k v \<subseteq> full \<and> W k v \<inter> used = {}"
    and disj: "\<And>k v k' v'. (k, v) \<in> set ps \<Longrightarrow> (k', v') \<in> set ps \<Longrightarrow> k \<noteq> k' \<Longrightarrow> R k v \<inter> R k' v' = {} \<and> W k v \<inter> W k' v' = {}"
    and full: "full \<subseteq> used"
  shows "wired full used (map rw (groups ps)) \<and>
    drained full (map rw (groups ps)) = full - (\<Union>(k, v)\<in>set ps. R k v) \<union> (\<Union>(k, v)\<in>set ps. W k v) \<and>
    filled (map rw (groups ps)) = (\<Union>(k, v)\<in>set ps. W k v)"
proof -
  let ?R = "\<lambda>(k, l). \<Union>v\<in>set l. R k v" and ?W = "\<lambda>(k, l). \<Union>v\<in>set l. W k v"
  have eq: "map rw (groups ps) = map (\<lambda>x. (?R x, ?W x)) (groups ps)" using links by auto
  have "wired full used (map (\<lambda>x. (?R x, ?W x)) (groups ps)) \<and>
    drained full (map (\<lambda>x. (?R x, ?W x)) (groups ps)) = full - (\<Union>x\<in>set (groups ps). ?R x) \<union> (\<Union>x\<in>set (groups ps). ?W x) \<and>
    filled (map (\<lambda>x. (?R x, ?W x)) (groups ps)) = (\<Union>x\<in>set (groups ps). ?W x)"
  proof (rule wired_batch)
    fix x assume x: "x \<in> set (groups ps)"
    obtain k l where kl: "x = (k, l)" by (cases x)
    have "(k, v) \<in> set ps" if "v \<in> set l" for v using group_mem [OF x [unfolded kl]] that by blast
    from ok [OF this] show "?R x \<subseteq> full" "?W x \<inter> used = {}" unfolding kl prod.case by blast+
    fix y assume y: "y \<in> set (groups ps)" "x \<noteq> y"
    obtain k' l' where kl': "y = (k', l')" by (cases y)
    have "k \<noteq> k'" using y group_unique [of k l ps l'] x by (auto simp: kl kl')
    moreover have "(k, v) \<in> set ps" if "v \<in> set l" for v using group_mem [OF x [unfolded kl]] that by blast
    moreover have "(k', v) \<in> set ps" if "v \<in> set l'" for v using group_mem [OF y(1) [unfolded kl']] that by blast
    ultimately show "?R x \<inter> ?R y = {} \<and> ?W x \<inter> ?W y = {}" using disj unfolding kl kl' prod.case by blast
  qed (use full push_pairs_distinct in auto)
  then show ?thesis unfolding eq Union_groups .
qed

section \<open>The links of the tasks\<close>

definition links :: "stripe \<Rightarrow> int \<times> task \<Rightarrow> link set \<times> link set" where
  "links s e = (takes (stripe_id s) (fst e) (snd e), fills (stripe_id s) (fst e) (snd e))"

definition made :: "stripe \<Rightarrow> int \<Rightarrow> link set" where
  \<comment> \<open>what the task that reads or computes a vertex fills\<close>
  "made s v = used_links (stripe_id s) (color_of (coloring s) v) v (use_of (s_ecdag s) (coloring s) v)"

lemma build_fields [simp]:
  "ttype (buildReadTask k name xs us t) = Some k" "dagidx_list (buildReadTask k name xs us t) = xs"
  "usage_list (buildReadTask k name xs us t) = us" "blk_name (buildReadTask k name xs us t) = name"
  "ttype (buildSendTask k xs yss t) = Some k" "dagidx_list (buildSendTask k xs yss t) = xs"
  "send_to_list (buildSendTask k xs yss t) = yss"
  "ttype (buildRecvTask k xs t) = Some k" "dagidx_list (buildRecvTask k xs t) = xs"
  "ttype (buildComputeTask k cs t) = Some k" "compute_list (buildComputeTask k cs t) = cs"
  "ttype (buildPersistTask k xs name t) = Some k" "collect_list (buildPersistTask k xs name t) = xs"
  "repaired_block (buildPersistTask k xs name t) = name"
  by (simp_all add: buildReadTask_def buildSendTask_def buildRecvTask_def buildComputeTask_def buildPersistTask_def)

lemma compute_fields [simp]:
  "ci_dstidx (new_compute_item d src cfs u) = d" "ci_srclist (new_compute_item d src cfs u) = src"
  "ci_coefs (new_compute_item d src cfs u) = cfs" "ci_usage (new_compute_item d src cfs u) = u"
  by (simp_all add: new_compute_item_def)

lemma send_links:
  "links s (send_emit b s (a, l)) = (\<Union>v\<in>set l. {Cached (stripe_id s) a v},
     \<Union>v\<in>set l. (\<lambda>x. Sent (stripe_id s) x v) ` set (remote (s_ecdag s) (coloring s) v))"
  by (auto simp: links_def send_emit_def takes_def fills_def zip_map2 zip_same_conv_map)

lemma recv_links:
  "links s (recv_emit b s (a, l)) = (\<Union>v\<in>set l. {Sent (stripe_id s) a v}, \<Union>v\<in>set l. {Local (stripe_id s) a v})"
  by (auto simp: links_def recv_emit_def takes_def fills_def)

lemma zero_links:
  "links s (zero_emit b s (a, l)) = (\<Union>v\<in>set l. {}, \<Union>v\<in>set l. {Local (stripe_id s) a v})"
  by (auto simp: links_def zero_emit_def takes_def fills_def)

lemma read_links:
  assumes "\<And>v. v \<in> set l \<Longrightarrow> color_of (coloring s) v = color_of (coloring s) (hd l)" and "blklist s ! nat k \<noteq> ''ZERO''"
  shows "links s (read_emit b s (k, l)) = (\<Union>v\<in>set l. {}, \<Union>v\<in>set l. made s v)"
  using assms by (simp add: links_def read_emit_def takes_def fills_def zip_map2 zip_same_conv_map made_def)

lemma compute_links:
  assumes "\<And>v. v \<in> set l \<Longrightarrow> color_of (coloring s) v = a"
  shows "links s (compute_emit b s (a, l)) = (\<Union>v\<in>set l. Local (stripe_id s) a ` set (children_of (s_ecdag s) v), \<Union>v\<in>set l. made s v)"
proof -
  have "set (input_list (compute_list (snd (compute_emit b s (a, l))))) = (\<Union>v\<in>set l. set (children_of (s_ecdag s) v))"
    by (simp add: set_input_list compute_emit_def)
  then show ?thesis
    using assms by (simp add: links_def compute_emit_def takes_def fills_def made_def image_UN)
qed

lemma persist_links:
  "links s (persist_emit b s v) = (Local (stripe_id s) (color_of (coloring s) v) ` set (children_of (s_ecdag s) v),
     {Stored (color_of (coloring s) v) (blklist s ! nat (REQUESTOR - v))})"
  by (simp add: links_def persist_emit_def takes_def fills_def)

section \<open>Stripes that can be repaired\<close>

definition lower :: "int list list \<Rightarrow> nat \<Rightarrow> int set" where
  "lower Ls k = set (concat (take k Ls))"

definition single_use :: "ecdag \<Rightarrow> int umap \<Rightarrow> int list list \<Rightarrow> bool" where
  \<comment> \<open>a sub-packet is taken on each node by one task only\<close>
  "single_use g cl Ls \<longleftrightarrow> list_all (\<lambda>u. list_all (\<lambda>p. list_all (\<lambda>p'. p \<noteq> p' \<and> color_of cl p = color_of cl p' \<and> color_of cl p \<noteq> -1 \<longrightarrow>
     list_ex (\<lambda>L. p \<in> set L \<and> p' \<in> set L) (butlast Ls)) (parents_of g u)) (parents_of g u)) (node_ids g)"

definition deployed :: "int \<Rightarrow> int \<Rightarrow> int list list \<Rightarrow> stripe \<Rightarrow> bool" where
  "deployed ecn ecw Ls s \<longleftrightarrow> wf_ecdag (s_ecdag s) \<and> levels_from (s_ecdag s) {} Ls \<and> 2 \<le> length Ls \<and>
     deployable ecn ecw Ls (s_ecdag s) (coloring s) (length (blklist s)) \<and>
     single_use (s_ecdag s) (coloring s) Ls \<and> distinct (blklist s) \<and> ''ZERO'' \<notin> set (blklist s) \<and>
     list_all (\<lambda>v. color_of (coloring s) v \<noteq> -1) (last Ls) \<and>
     list_all (\<lambda>u. list_all (\<lambda>v. u div ecw = v div ecw \<longrightarrow> color_of (coloring s) u = color_of (coloring s) v) (hd Ls)) (hd Ls) \<and>
     list_all vertex_ok (concat (butlast Ls)) \<and>
     list_all (\<lambda>v. length (coefs_of (s_ecdag s) v) \<le> length (children_of (s_ecdag s) v)) (concat (butlast Ls))"


text \<open>Facts about the vertices of such a stripe.\<close>

lemma deployedD:
  assumes "deployed ecn ecw Ls s"
  shows "wf_ecdag (s_ecdag s)" "levels_from (s_ecdag s) {} Ls" "2 \<le> length Ls"
    "deployable ecn ecw Ls (s_ecdag s) (coloring s) (length (blklist s))"
    "distinct (blklist s)" "''ZERO'' \<notin> set (blklist s)"
    "v \<in> set (last Ls) \<Longrightarrow> color_of (coloring s) v \<noteq> -1"
    "u \<in> set (hd Ls) \<Longrightarrow> v \<in> set (hd Ls) \<Longrightarrow> u div ecw = v div ecw \<Longrightarrow> color_of (coloring s) u = color_of (coloring s) v"
    "L \<in> set (butlast Ls) \<Longrightarrow> v \<in> set L \<Longrightarrow> vertex_ok v"
    "L \<in> set (butlast Ls) \<Longrightarrow> v \<in> set L \<Longrightarrow> length (coefs_of (s_ecdag s) v) \<le> length (children_of (s_ecdag s) v)"
  using assms unfolding deployed_def list_all_iff set_concat by blast+

lemma deployable_leaf:
  assumes "deployed ecn ecw Ls s" and "v \<in> set (hd Ls)"
  shows "0 < ecw" "0 \<le> v" "v div ecw < ecn \<longleftrightarrow> color_of (coloring s) v \<noteq> -1"
    "color_of (coloring s) v \<noteq> -1 \<Longrightarrow> nat (v div ecw) < length (blklist s)"
  using deployedD(4) [OF assms(1)] assms(2) by (auto simp: deployable_def list_all_iff)

lemma lower_simps: "lower Ls 0 = {}" "k < length Ls \<Longrightarrow> lower Ls (Suc k) = lower Ls k \<union> set (Ls ! k)"
  by (simp_all add: lower_def take_Suc_conv_app_nth)

lemma lower_nth: "v \<in> lower Ls k \<longleftrightarrow> (\<exists>j<k. j < length Ls \<and> v \<in> set (Ls ! j))"
proof -
  have "L \<in> set (take k Ls) \<longleftrightarrow> (\<exists>j<k. j < length Ls \<and> L = Ls ! j)" for L by (auto simp: in_set_conv_nth)
  then show ?thesis by (auto simp: lower_def)
qed

lemma level_facts:
  assumes "deployed ecn ecw Ls s" and k: "k < length Ls" and v: "v \<in> set (Ls ! k)"
  shows "v \<in> set (node_ids (s_ecdag s))" "v \<notin> lower Ls k"
    "c \<in> set (children_of (s_ecdag s) v) \<Longrightarrow> c \<in> lower Ls k"
    "p \<in> set (parents_of (s_ecdag s) v) \<Longrightarrow> p \<in> set (node_ids (s_ecdag s)) \<and> p \<notin> lower Ls (Suc k)"
    "p \<in> set (parents_of (s_ecdag s) v) \<Longrightarrow> color_of (coloring s) v \<noteq> -1 \<Longrightarrow> color_of (coloring s) p \<noteq> -1"
proof -
  let ?g = "s_ecdag s"
  have wf: "wf_ecdag ?g" and lev: "levels_from ?g {} Ls" using assms(1) by (simp_all add: deployed_def)
  have ok: "dag_ok ?g" using wf by (rule wf_ecdag_ok)
  have props: "distinct (concat Ls)" "set (concat Ls) = set (node_ids ?g)"
    using levels_from_props [OF lev] dag_okD(1) [OF ok] by auto
  show nodes: "v \<in> set (node_ids ?g)" using k v props(2) by auto
  have one: "j = i" if "j < length Ls" "i < length Ls" "x \<in> set (Ls ! j)" "x \<in> set (Ls ! i)" for i j x
  proof (rule ccontr)
    assume "j \<noteq> i"
    then have "j < i \<or> i < j" by auto
    have no: "False" if "j < i" "i < length Ls" "x \<in> set (Ls ! j)" "x \<in> set (Ls ! i)" for i j
    proof -
      have "Ls = take i Ls @ Ls ! i # drop (Suc i) Ls" using that(2) by (rule id_take_nth_drop)
      then have "distinct (concat (take i Ls) @ Ls ! i @ concat (drop (Suc i) Ls))"
        using props(1) by (metis concat.simps(2) concat_append)
      moreover have "x \<in> set (concat (take i Ls))" using that(1,2,3) lower_nth [of x Ls i] by (auto simp: lower_def)
      ultimately show False using that(4) by auto
    qed
    from \<open>j < i \<or> i < j\<close> no that show False by blast
  qed
  show "v \<notin> lower Ls k" using one [OF _ k _ v] by (auto simp: lower_nth)
  show "c \<in> lower Ls k" if "c \<in> set (children_of ?g v)"
    using levels_from_lower(1) [OF lev k v] that k by (force simp: lower_nth)
  show "p \<in> set (node_ids ?g) \<and> p \<notin> lower Ls (Suc k)" if p: "p \<in> set (parents_of ?g v)"
  proof
    show "p \<in> set (node_ids ?g)" using p dag_okD(5) [OF ok] by blast
    show "p \<notin> lower Ls (Suc k)"
    proof
      assume "p \<in> lower Ls (Suc k)"
      then obtain j where j: "j < Suc k" "j < length Ls" "p \<in> set (Ls ! j)" by (auto simp: lower_nth)
      have "v \<in> set (children_of ?g p)" using p dag_mirror [OF ok] by blast
      with levels_from_lower(1) [OF lev j(2,3)] obtain i where i: "i < j" "v \<in> set (Ls ! i)" by blast
      from one [OF _ k i(2) v] i(1) j(1) k show False by simp
    qed
  qed
  show "color_of (coloring s) p \<noteq> -1" if "p \<in> set (parents_of ?g v)" "color_of (coloring s) v \<noteq> -1"
    using assms(1) nodes that by (auto simp: deployed_def deployable_def list_all_iff)
qed

lemma single_useD:
  assumes "deployed ecn ecw Ls s" and "p \<in> set (parents_of (s_ecdag s) u)" and "p' \<in> set (parents_of (s_ecdag s) u)"
    and "p \<noteq> p'" and "color_of (coloring s) p = color_of (coloring s) p'" and "color_of (coloring s) p \<noteq> -1"
    and "u \<in> set (node_ids (s_ecdag s))"
  shows "\<exists>k. Suc k < length Ls \<and> p \<in> set (Ls ! k) \<and> p' \<in> set (Ls ! k)"
proof -
  have "list_ex (\<lambda>L. p \<in> set L \<and> p' \<in> set L) (butlast Ls)"
    using assms unfolding deployed_def single_use_def list_all_iff by blast
  then obtain L where L: "L \<in> set (butlast Ls)" "p \<in> set L" "p' \<in> set L" by (auto simp: list_ex_iff)
  then obtain k where "k < length (butlast Ls)" "butlast Ls ! k = L" by (auto simp: in_set_conv_nth)
  then show ?thesis using L(2,3) by (intro exI [of _ k]) (auto simp: nth_butlast)
qed


section \<open>A level\<close>

fun link_in :: "int \<Rightarrow> int set \<Rightarrow> link \<Rightarrow> bool" where
  "link_in sid D (Local s a v) \<longleftrightarrow> s = sid \<and> v \<in> D"
| "link_in sid D (Cached s a v) \<longleftrightarrow> s = sid \<and> v \<in> D"
| "link_in sid D (Sent s a v) \<longleftrightarrow> s = sid \<and> v \<in> D"
| "link_in sid D (Stored a blk) \<longleftrightarrow> False"

definition at_vertices :: "stripe \<Rightarrow> int set \<Rightarrow> link set" where
  "at_vertices s D = {l. link_in (stripe_id s) D l}"

lemma at_vertices_mono: "D \<subseteq> D' \<Longrightarrow> at_vertices s D \<subseteq> at_vertices s D'"
proof
  fix l assume "D \<subseteq> D'" "l \<in> at_vertices s D"
  then show "l \<in> at_vertices s D'" by (cases l) (auto simp: at_vertices_def)
qed

lemma at_vertices_disjoint: "D \<inter> D' = {} \<Longrightarrow> l \<in> at_vertices s D \<Longrightarrow> l \<notin> at_vertices s D'"
  by (cases l) (auto simp: at_vertices_def)

lemma made_links:
  "Local sid a u \<in> made s v \<longleftrightarrow> sid = stripe_id s \<and> a = color_of (coloring s) v \<and> u = v \<and>
     color_of (coloring s) v \<in> color_of (coloring s) ` set (parents_of (s_ecdag s) v)"
  "Cached sid a u \<in> made s v \<longleftrightarrow> sid = stripe_id s \<and> a = color_of (coloring s) v \<and> u = v \<and> remote (s_ecdag s) (coloring s) v \<noteq> []"
  "Sent sid a u \<notin> made s v" "Stored a blk \<notin> made s v"
  by (auto simp: made_def in_used_links use_of_def)

lemma made_at: "made s v \<subseteq> at_vertices s {v}"
proof
  fix l assume "l \<in> made s v"
  then show "l \<in> at_vertices s {v}" by (cases l) (auto simp: made_links at_vertices_def)
qed

definition arrivals :: "stripe \<Rightarrow> int list \<Rightarrow> link set" where
  \<comment> \<open>a level's sub-packets, on the nodes where they are needed\<close>
  "arrivals s L = {Local (stripe_id s) b v | b v. v \<in> set L \<and> b \<noteq> -1 \<and> b \<in> color_of (coloring s) ` set (parents_of (s_ecdag s) v)}"

lemma pair_mem:
  "(a, v) \<in> set (send_pairs g cl vs) \<longleftrightarrow> v \<in> set vs \<and> a = color_of cl v \<and> remote g cl v \<noteq> []"
  "(a, v) \<in> set (recv_pairs g cl vs) \<longleftrightarrow> v \<in> set vs \<and> a \<in> set (remote g cl v)"
  "(a, v) \<in> set (zero_pairs g cl vs) \<longleftrightarrow> v \<in> set vs \<and> a \<in> set (zero_nodes g cl v)"
  "(a, v) \<in> set (work_pairs key vs) \<longleftrightarrow> v \<in> set vs \<and> a = key v"
  by (auto simp: send_pairs_def recv_pairs_def zero_pairs_def work_pairs_def)

lemma moves_wired:
  assumes dep: "deployed ecn ecw Ls s" and k: "k < length Ls"
    and old: "base \<subseteq> used" "used \<subseteq> at_vertices s (lower Ls k)"
  defines "L \<equiv> Ls ! k"
  defines "M \<equiv> \<Union>v\<in>set (reals s L). made s v"
  shows "wired (base \<union> M) (used \<union> M) (map (links s) (moves_emits b s L)) \<and>
    drained (base \<union> M) (map (links s) (moves_emits b s L)) = base \<union> arrivals s L \<and>
    filled (map (links s) (moves_emits b s L)) \<subseteq> at_vertices s (set L)"
proof -
  let ?sid = "stripe_id s" and ?g = "s_ecdag s" and ?cl = "coloring s"
  let ?rem = "\<lambda>v. set (remote ?g ?cl v)" and ?col = "color_of ?cl"
  let ?sends = "send_pairs ?g ?cl (reals s L)" and ?recvs = "recv_pairs ?g ?cl (reals s L)" and ?zeros = "zero_pairs ?g ?cl (blanks s L)"
  have fresh: "l \<notin> used" if "l \<in> at_vertices s (set L)" for l
  proof -
    have "lower Ls k \<inter> set L = {}" using level_facts(2) [OF dep k] by (auto simp: L_def)
    then show ?thesis using at_vertices_disjoint [of "set L" "lower Ls k"] that old(2) by blast
  qed
  have real: "v \<in> set (reals s L) \<longleftrightarrow> v \<in> set L \<and> ?col v \<noteq> -1" for v by (auto simp: reals_def)
  have rem: "?rem v = ?col ` set (parents_of ?g v) - {?col v}" for v by (rule set_remote)
  have Mat: "M \<subseteq> at_vertices s (set L)"
    using made_at at_vertices_mono [of "{_}" "set L"] real by (fastforce simp: M_def)
  define F1 U1 where F1: "F1 = base \<union> M" and U1: "U1 = used \<union> M"
  define S where S: "S = {Sent ?sid x v | x v. v \<in> set (reals s L) \<and> x \<in> ?rem v}"
  define C where C: "C = {Cached ?sid (?col v) v | v. v \<in> set (reals s L) \<and> remote ?g ?cl v \<noteq> []}"
  define H where H: "H = {Local ?sid b v | b v. v \<in> set (reals s L) \<and> b \<in> ?rem v}"
  define Z where Z: "Z = {Local ?sid b v | b v. v \<in> set (blanks s L) \<and> b \<in> set (zero_nodes ?g ?cl v)}"
  have at: "S \<subseteq> at_vertices s (set L)" "H \<subseteq> at_vertices s (set L)" "Z \<subseteq> at_vertices s (set L)"
    by (auto simp: S H Z at_vertices_def real blanks_def)
  have send: "wired F1 U1 (map (\<lambda>x. links s (send_emit b s x)) (groups ?sends)) \<and>
    drained F1 (map (\<lambda>x. links s (send_emit b s x)) (groups ?sends)) =
      F1 - (\<Union>(a, v)\<in>set ?sends. {Cached ?sid a v}) \<union> (\<Union>(a, v)\<in>set ?sends. (\<lambda>x. Sent ?sid x v) ` ?rem v) \<and>
    filled (map (\<lambda>x. links s (send_emit b s x)) (groups ?sends)) = (\<Union>(a, v)\<in>set ?sends. (\<lambda>x. Sent ?sid x v) ` ?rem v)"
  proof (rule wired_groups [OF send_links])
    fix a v assume v: "(a, v) \<in> set ?sends"
    have "Sent ?sid x v \<notin> U1" if "x \<in> ?rem v" for x
      using fresh [of "Sent ?sid x v"] v by (auto simp: U1 M_def made_links at_vertices_def pair_mem real)
    moreover have "Cached ?sid a v \<in> F1" using v by (auto simp: F1 M_def made_links pair_mem)
    ultimately show "{Cached ?sid a v} \<subseteq> F1 \<and> (\<lambda>x. Sent ?sid x v) ` ?rem v \<inter> U1 = {}" by auto
  qed (use old(1) in \<open>auto simp: F1 U1 pair_mem\<close>)
  have sets: "(\<Union>(a, v)\<in>set ?sends. {Cached ?sid a v}) = C" "(\<Union>(a, v)\<in>set ?sends. (\<lambda>x. Sent ?sid x v) ` ?rem v) = S"
    "(\<Union>(a, v)\<in>set ?recvs. {Sent ?sid a v}) = S" "(\<Union>(a, v)\<in>set ?recvs. {Local ?sid a v}) = H"
    "(\<Union>(a, v)\<in>set ?zeros. {Local ?sid a v}) = Z"
    by (force simp: C S H Z pair_mem)+
  define F2 U2 where F2: "F2 = F1 - C \<union> S" and U2: "U2 = U1 \<union> S"
  have recv: "wired F2 U2 (map (\<lambda>x. links s (recv_emit b s x)) (groups ?recvs)) \<and>
    drained F2 (map (\<lambda>x. links s (recv_emit b s x)) (groups ?recvs)) = F2 - S \<union> H \<and>
    filled (map (\<lambda>x. links s (recv_emit b s x)) (groups ?recvs)) = H"
    unfolding sets(3,4) [symmetric]
  proof (rule wired_groups [OF recv_links])
    fix a v assume v: "(a, v) \<in> set ?recvs"
    have "Local ?sid a v \<notin> U2"
      using fresh [of "Local ?sid a v"] v by (auto simp: U2 U1 M_def S made_links at_vertices_def pair_mem real rem)
    moreover have "Sent ?sid a v \<in> F2" using v by (auto simp: F2 S pair_mem)
    ultimately show "{Sent ?sid a v} \<subseteq> F2 \<and> {Local ?sid a v} \<inter> U2 = {}" by auto
  qed (use old(1) in \<open>auto simp: F2 U2 F1 U1\<close>)
  define F3 U3 where F3: "F3 = F2 - S \<union> H" and U3: "U3 = U2 \<union> H"
  have zero: "wired F3 U3 (map (\<lambda>x. links s (zero_emit b s x)) (groups ?zeros)) \<and>
    drained F3 (map (\<lambda>x. links s (zero_emit b s x)) (groups ?zeros)) = F3 - (\<Union>(a, v)\<in>set ?zeros. {}) \<union> Z \<and>
    filled (map (\<lambda>x. links s (zero_emit b s x)) (groups ?zeros)) = Z"
    unfolding sets(5) [symmetric]
  proof (rule wired_groups [OF zero_links])
    fix a v assume v: "(a, v) \<in> set ?zeros"
    have "Local ?sid a v \<notin> U3"
      using fresh [of "Local ?sid a v"] v by (auto simp: U3 U2 U1 H M_def S made_links at_vertices_def pair_mem real blanks_def)
    then show "{} \<subseteq> F3 \<and> {Local ?sid a v} \<inter> U3 = {}" by auto
  qed (use old(1) in \<open>auto simp: F3 U3 F2 U2 F1 U1\<close>)
  have "F3 - (\<Union>(a, v)\<in>set ?zeros. {}) \<union> Z = base \<union> arrivals s L"
  proof -
    have "l \<notin> base" if "l \<in> at_vertices s (set L)" for l using fresh [OF that] old(1) by blast
    then have out: "base \<inter> (C \<union> S) = {}" using at(1) by (auto simp: C at_vertices_def real)
    have "F3 \<union> Z = base \<union> (M - C) \<union> H \<union> Z" using out by (auto simp: F3 F2 F1 S M_def made_links)
    moreover have "M - C = {Local ?sid (?col v) v | v. v \<in> set (reals s L) \<and> ?col v \<in> ?col ` set (parents_of ?g v)}" (is "_ = ?K")
    proof (intro equalityI subsetI)
      fix l assume "l \<in> M - C"
      then show "l \<in> ?K" by (cases l) (auto simp: M_def C made_links)
    qed (auto simp: M_def C made_links)
    moreover have "?K \<union> H \<union> Z = arrivals s L"
    proof (intro equalityI subsetI)
      fix l assume "l \<in> ?K \<union> H \<union> Z"
      then consider b v where "v \<in> set (reals s L)" "b \<in> ?col ` set (parents_of ?g v)" "l = Local ?sid b v"
        | b v where "v \<in> set (blanks s L)" "b \<in> ?col ` set (parents_of ?g v) - {-1}" "l = Local ?sid b v"
        unfolding H Z rem zero_nodes_props by blast
      then show "l \<in> arrivals s L"
      proof cases
        case (1 b v)
        then have "v \<in> set (Ls ! k)" "?col v \<noteq> -1" using real by (simp_all add: L_def)
        from level_facts(5) [OF dep k this(1) _ this(2)] 1(2) have "b \<noteq> -1" by auto
        then show ?thesis using 1 by (simp add: arrivals_def real)
      qed (simp add: arrivals_def blanks_def)
    next
      fix l assume "l \<in> arrivals s L"
      then obtain b v where "l = Local ?sid b v" "v \<in> set L" "b \<noteq> -1" "b \<in> ?col ` set (parents_of ?g v)" by (auto simp: arrivals_def)
      then show "l \<in> ?K \<union> H \<union> Z" by (cases "?col v = -1"; cases "b = ?col v") (auto simp: H Z real rem blanks_def zero_nodes_props)
    qed
    moreover have "F3 - (\<Union>(a, v)\<in>set ?zeros. {}) \<union> Z = F3 \<union> Z" by simp
    ultimately show ?thesis by (simp only: Un_assoc)
  qed
  note last = this
  define A B D where A: "A = map (\<lambda>x. links s (send_emit b s x)) (groups ?sends)"
    and B: "B = map (\<lambda>x. links s (recv_emit b s x)) (groups ?recvs)"
    and D: "D = map (\<lambda>x. links s (zero_emit b s x)) (groups ?zeros)"
  have all: "map (links s) (moves_emits b s L) = A @ B @ D" by (simp add: moves_emits_def A B D)
  have a: "wired F1 U1 A" "drained F1 A = F2" "U1 \<union> filled A = U2" "filled A = S"
    using send by (simp_all only: A sets F2 U2)
  have b: "wired F2 U2 B" "drained F2 B = F3" "U2 \<union> filled B = U3" "filled B = H"
    using recv by (simp_all only: B F3 U3)
  have d: "wired F3 U3 D" "drained F3 D = base \<union> arrivals s L" "filled D = Z"
    using zero last by (simp_all only: D)
  have "filled (A @ B @ D) \<subseteq> at_vertices s (set L)" using at by (simp add: a(4) b(4) d(3))
  then show ?thesis
    unfolding all F1 [symmetric] U1 [symmetric] by (simp add: wired_append drained_append a(1-3) b(1-3) d(1,2))
qed


definition pending :: "stripe \<Rightarrow> int list list \<Rightarrow> nat \<Rightarrow> link set" where
  \<comment> \<open>the sub-packets of the lower levels that the levels from \<open>k\<close> on still take\<close>
  "pending s Ls k = {Local (stripe_id s) b v | b v. v \<in> lower Ls k \<and> b \<noteq> -1 \<and>
     (\<exists>p\<in>set (parents_of (s_ecdag s) v). color_of (coloring s) p = b \<and> p \<notin> lower Ls k)}"

definition taken :: "stripe \<Rightarrow> int list \<Rightarrow> link set" where
  "taken s L = {Local (stripe_id s) (color_of (coloring s) v) u | v u. v \<in> set (reals s L) \<and> u \<in> set (children_of (s_ecdag s) v)}"

lemma pending_at: "pending s Ls k \<subseteq> at_vertices s (lower Ls k)"
  by (auto simp: pending_def at_vertices_def)

lemma children_pending:
  assumes dep: "deployed ecn ecw Ls s" and k: "k < length Ls" and v: "v \<in> set (reals s (Ls ! k))" and u: "u \<in> set (children_of (s_ecdag s) v)"
  shows "Local (stripe_id s) (color_of (coloring s) v) u \<in> pending s Ls k"
proof -
  have v': "v \<in> set (Ls ! k)" "color_of (coloring s) v \<noteq> -1" using v by (auto simp: reals_def)
  have "v \<in> set (parents_of (s_ecdag s) u)"
    using u dag_mirror [OF wf_ecdag_ok, of "s_ecdag s" v u] dep by (simp add: deployed_def)
  then show ?thesis using level_facts(2,3) [OF dep k v'(1)] u v'(2) by (auto simp: pending_def)
qed

lemma pending_step:
  assumes dep: "deployed ecn ecw Ls s" and k: "Suc k < length Ls"
  shows "pending s Ls k - taken s (Ls ! k) \<union> arrivals s (Ls ! k) = pending s Ls (Suc k)"
proof (intro equalityI subsetI)
  let ?g = "s_ecdag s" and ?col = "color_of (coloring s)" and ?sid = "stripe_id s"
  have k': "k < length Ls" using k by simp
  have mirror: "p \<in> set (parents_of ?g v) \<longleftrightarrow> v \<in> set (children_of ?g p)" for p v
    using dag_mirror [OF wf_ecdag_ok, of ?g] dep by (simp add: deployed_def)
  {
    fix l assume "l \<in> pending s Ls k - taken s (Ls ! k) \<union> arrivals s (Ls ! k)"
    then consider (old) b v p where "l = Local ?sid b v" "l \<notin> taken s (Ls ! k)" "v \<in> lower Ls k" "b \<noteq> -1" "p \<in> set (parents_of ?g v)"
        "?col p = b" "p \<notin> lower Ls k"
      | (new) b v p where "l = Local ?sid b v" "v \<in> set (Ls ! k)" "b \<noteq> -1" "p \<in> set (parents_of ?g v)" "?col p = b"
      by (fastforce simp: pending_def arrivals_def)
    then show "l \<in> pending s Ls (Suc k)"
    proof cases
      case old
      then have "p \<notin> set (Ls ! k)" using mirror [of p v] by (auto simp: taken_def reals_def)
      with old show ?thesis by (auto simp: pending_def lower_simps(2) [OF k'])
    next
      case new
      then have "p \<notin> lower Ls (Suc k)" using level_facts(4) [OF dep k'] by blast
      with new show ?thesis by (auto simp: pending_def lower_simps(2) [OF k'])
    qed
  next
    fix l assume "l \<in> pending s Ls (Suc k)"
    then obtain b v p where l: "l = Local ?sid b v" "v \<in> lower Ls (Suc k)" "b \<noteq> -1" "p \<in> set (parents_of ?g v)" "?col p = b"
      "p \<notin> lower Ls (Suc k)" by (auto simp: pending_def)
    show "l \<in> pending s Ls k - taken s (Ls ! k) \<union> arrivals s (Ls ! k)"
    proof (cases "v \<in> set (Ls ! k)")
      case True
      then show ?thesis using l by (auto simp: arrivals_def)
    next
      case False
      then have v: "v \<in> lower Ls k" "p \<notin> lower Ls k" using l(2,6) by (auto simp: lower_simps(2) [OF k'])
      then obtain j where j: "j < length Ls" "v \<in> set (Ls ! j)" by (auto simp: lower_nth)
      have "l \<notin> taken s (Ls ! k)"
      proof
        assume "l \<in> taken s (Ls ! k)"
        then obtain p' where p': "p' \<in> set (Ls ! k)" "?col p' = b" "p' \<in> set (parents_of ?g v)"
          using l(1) mirror by (auto simp: taken_def reals_def)
        have "p \<noteq> p'" using p'(1) l(6) by (auto simp: lower_simps(2) [OF k'])
        then obtain i where i: "Suc i < length Ls" "p \<in> set (Ls ! i)" "p' \<in> set (Ls ! i)"
          using single_useD [OF dep l(4) p'(3)] l(3,5) p'(2) level_facts(1) [OF dep j] by auto
        have "i < length Ls" using i(1) by simp
        have "\<not> k < i" using level_facts(2) [OF dep \<open>i < length Ls\<close> i(3)] p'(1) k' by (auto simp: lower_nth)
        then have "p \<in> lower Ls (Suc k)" using i(2) \<open>i < length Ls\<close> by (auto simp: lower_nth intro!: exI [of _ i])
        with l(6) show False by simp
      qed
      moreover have "l \<in> pending s Ls k" using l v by (auto simp: pending_def)
      ultimately show ?thesis by simp
    qed
  }
qed

definition work_emits :: "int \<Rightarrow> int \<Rightarrow> stripe \<Rightarrow> int list list \<Rightarrow> nat \<Rightarrow> (int \<times> task) list" where
  "work_emits b ecw s Ls k =
     (if k = 0 then map (read_emit b s) (groups (work_pairs (\<lambda>v. v div ecw) (reals s (Ls ! k))))
      else map (compute_emit b s) (groups (work_pairs (color_of (coloring s)) (reals s (Ls ! k)))))"

lemma level_emits_parts: "Suc k < length Ls \<Longrightarrow> level_emits b ecw s Ls k = work_emits b ecw s Ls k @ moves_emits b s (Ls ! k)"
  by (auto simp: level_emits_def work_emits_def level0_emits_def inner_emits_def)

lemma work_wired:
  assumes dep: "deployed ecn ecw Ls s" and k: "Suc k < length Ls"
    and used: "pending s Ls k \<subseteq> used" "used \<subseteq> at_vertices s (lower Ls k)"
  defines "M \<equiv> \<Union>v\<in>set (reals s (Ls ! k)). made s v"
  shows "wired (pending s Ls k) used (map (links s) (work_emits b ecw s Ls k)) \<and>
    drained (pending s Ls k) (map (links s) (work_emits b ecw s Ls k)) = pending s Ls k - taken s (Ls ! k) \<union> M \<and>
    filled (map (links s) (work_emits b ecw s Ls k)) = M"
proof -
  let ?g = "s_ecdag s" and ?col = "color_of (coloring s)" and ?sid = "stripe_id s"
  have k': "k < length Ls" using k by simp
  have fresh: "made s v \<inter> used = {}" if "v \<in> set (reals s (Ls ! k))" for v
  proof -
    have "{v} \<inter> lower Ls k = {}" using level_facts(2) [OF dep k'] that by (auto simp: reals_def)
    from at_vertices_disjoint [OF this] made_at [of s v] used(2) show ?thesis by blast
  qed
  have other: "made s v \<inter> made s v' = {}" if "v \<noteq> v'" for v v'
  proof -
    have "{v} \<inter> {v'} = {}" using that by simp
    from at_vertices_disjoint [OF this] made_at [of s v] made_at [of s v'] show ?thesis by blast
  qed
  have M: "(\<Union>(a, v)\<in>set (work_pairs key (reals s (Ls ! k))). made s v) = M" for key
    by (auto simp: M_def work_pairs_def)
  show ?thesis
  proof (cases "k = 0")
    case True
    have L0: "Ls ! 0 = hd Ls" using k by (cases Ls) simp_all
    have home: "?col u = ?col v" if "u \<in> set (reals s (hd Ls))" "v \<in> set (reals s (hd Ls))" "u div ecw = v div ecw" for u v
      using deployedD(8) [OF dep, of u v] that by (simp add: reals_def)
    have names: "blklist s ! nat (v div ecw) \<noteq> ''ZERO''" if "v \<in> set (reals s (hd Ls))" for v
    proof -
      have "nat (v div ecw) < length (blklist s)" using deployable_leaf(4) [OF dep, of v] that by (simp add: reals_def)
      then show ?thesis using deployedD(6) [OF dep] nth_mem [of "nat (v div ecw)" "blklist s"] by metis
    qed
    let ?ps = "work_pairs (\<lambda>v. v div ecw) (reals s (hd Ls))"
    have "wired {} used (map (\<lambda>x. links s (read_emit b s x)) (groups ?ps)) \<and>
      drained {} (map (\<lambda>x. links s (read_emit b s x)) (groups ?ps)) = {} - (\<Union>(a, v)\<in>set ?ps. {}) \<union> (\<Union>(a, v)\<in>set ?ps. made s v) \<and>
      filled (map (\<lambda>x. links s (read_emit b s x)) (groups ?ps)) = (\<Union>(a, v)\<in>set ?ps. made s v)"
    proof (rule wired_groups)
      fix a l assume al: "(a, l) \<in> set (groups ?ps)"
      have v: "v \<in> set (reals s (hd Ls)) \<and> a = v div ecw" if "v \<in> set l" for v
        using group_mem [OF al, of v] that by (simp add: pair_mem)
      have hd: "hd l \<in> set l" using group_nonempty [OF al] by simp
      have "?col u = ?col (hd l)" if "u \<in> set l" for u using home [of u "hd l"] v [OF that] v [OF hd] by simp
      moreover have "blklist s ! nat a \<noteq> ''ZERO''" using names [of "hd l"] v [OF hd] by simp
      ultimately show "links s (read_emit b s (a, l)) = (\<Union>v\<in>set l. {}, \<Union>v\<in>set l. made s v)" by (rule read_links)
    next
      fix a v assume "(a, v) \<in> set ?ps"
      then show "{} \<subseteq> {} \<and> made s v \<inter> used = {}" using fresh [of v] True L0 by (simp add: pair_mem)
    next
      fix a v a' v' assume "(a, v) \<in> set ?ps" "(a', v') \<in> set ?ps" "a \<noteq> a'"
      then show "{} \<inter> {} = {} \<and> made s v \<inter> made s v' = {}" using other [of v v'] by (auto simp: pair_mem)
    qed simp
    note read = this
    have none: "pending s Ls 0 = {}" "({} :: link set) - (\<Union>(a, v)\<in>set ?ps. {}) = {}" "{} - taken s (hd Ls) = {}"
      by (simp_all add: pending_def lower_simps)
    have "map (links s) (work_emits b ecw s Ls k) = map (\<lambda>x. links s (read_emit b s x)) (groups ?ps)"
      using True by (simp add: work_emits_def L0)
    then show ?thesis
      using read [unfolded M [of "\<lambda>v. v div ecw", folded L0 True, unfolded True L0] none] True L0 none by simp
  next
    case False
    let ?ps = "work_pairs ?col (reals s (Ls ! k))"
    have "wired (pending s Ls k) used (map (\<lambda>x. links s (compute_emit b s x)) (groups ?ps)) \<and>
      drained (pending s Ls k) (map (\<lambda>x. links s (compute_emit b s x)) (groups ?ps)) =
        pending s Ls k - (\<Union>(a, v)\<in>set ?ps. Local ?sid a ` set (children_of ?g v)) \<union> (\<Union>(a, v)\<in>set ?ps. made s v) \<and>
      filled (map (\<lambda>x. links s (compute_emit b s x)) (groups ?ps)) = (\<Union>(a, v)\<in>set ?ps. made s v)"
    proof (rule wired_groups)
      fix a l assume al: "(a, l) \<in> set (groups ?ps)"
      show "links s (compute_emit b s (a, l)) = (\<Union>v\<in>set l. Local ?sid a ` set (children_of ?g v), \<Union>v\<in>set l. made s v)"
        using group_mem [OF al] by (intro compute_links) (simp add: pair_mem)
    next
      fix a v assume av: "(a, v) \<in> set ?ps"
      then show "Local ?sid a ` set (children_of ?g v) \<subseteq> pending s Ls k \<and> made s v \<inter> used = {}"
        using fresh [of v] children_pending [OF dep k', of v] by (auto simp: pair_mem)
    next
      fix a v a' v' assume "(a, v) \<in> set ?ps" "(a', v') \<in> set ?ps" "a \<noteq> a'"
      then show "Local ?sid a ` set (children_of ?g v) \<inter> Local ?sid a' ` set (children_of ?g v') = {} \<and> made s v \<inter> made s v' = {}"
        using other [of v v'] by (auto simp: pair_mem)
    qed (rule used(1))
    moreover have "(\<Union>(a, v)\<in>set ?ps. Local ?sid a ` set (children_of ?g v)) = taken s (Ls ! k)"
      by (auto simp: taken_def work_pairs_def)
    moreover have "map (links s) (work_emits b ecw s Ls k) = map (\<lambda>x. links s (compute_emit b s x)) (groups ?ps)"
      using False by (simp add: work_emits_def)
    ultimately show ?thesis unfolding M by simp
  qed
qed


section \<open>The levels of a stripe\<close>

lemma drained_filled: "drained full rws \<subseteq> full \<union> filled rws"
  by (induction full rws rule: drained.induct) auto

lemma level_wired:
  assumes dep: "deployed ecn ecw Ls s" and k: "Suc k < length Ls"
    and used: "pending s Ls k \<subseteq> used" "used \<subseteq> at_vertices s (lower Ls k)"
  shows "wired (pending s Ls k) used (map (links s) (level_emits b ecw s Ls k)) \<and>
    drained (pending s Ls k) (map (links s) (level_emits b ecw s Ls k)) = pending s Ls (Suc k) \<and>
    filled (map (links s) (level_emits b ecw s Ls k)) \<subseteq> at_vertices s (set (Ls ! k))"
proof -
  let ?base = "pending s Ls k - taken s (Ls ! k)" and ?M = "\<Union>v\<in>set (reals s (Ls ! k)). made s v"
  have k': "k < length Ls" using k by simp
  have "?base \<subseteq> used" using used(1) by blast
  note moves = moves_wired [OF dep k' this used(2), of b]
  note work = work_wired [OF dep k used, of b]
  have "?M \<subseteq> at_vertices s (set (Ls ! k))"
  proof
    fix l assume "l \<in> ?M"
    then obtain v where v: "v \<in> set (Ls ! k)" "l \<in> made s v" by (auto simp: reals_def)
    then show "l \<in> at_vertices s (set (Ls ! k))" using made_at [of s v] at_vertices_mono [of "{v}" "set (Ls ! k)" s] by blast
  qed
  then show ?thesis
    using work moves pending_step [OF dep k] unfolding level_emits_parts [OF k] map_append wired_append drained_append filled_simps(3)
    by simp
qed

lemma levels_wired:
  assumes dep: "deployed ecn ecw Ls s" and k: "k < length Ls"
  shows "wired {} {} (map (links s) (concat (map (level_emits b ecw s Ls) [0..<k]))) \<and>
    drained {} (map (links s) (concat (map (level_emits b ecw s Ls) [0..<k]))) = pending s Ls k \<and>
    filled (map (links s) (concat (map (level_emits b ecw s Ls) [0..<k]))) \<subseteq> at_vertices s (lower Ls k)"
  using k
proof (induction k)
  case 0
  then show ?case by (simp add: pending_def lower_simps)
next
  case (Suc k)
  let ?pre = "map (links s) (concat (map (level_emits b ecw s Ls) [0..<k]))"
  have IH: "wired {} {} ?pre" "drained {} ?pre = pending s Ls k" "filled ?pre \<subseteq> at_vertices s (lower Ls k)" using Suc by simp_all
  have "pending s Ls k \<subseteq> filled ?pre" using drained_filled [of "{}" ?pre] IH(2) by simp
  note level = level_wired [OF dep Suc.prems this IH(3), of b]
  have "filled ?pre \<union> filled (map (links s) (level_emits b ecw s Ls k)) \<subseteq> at_vertices s (lower Ls (Suc k))"
    using IH(3) level at_vertices_mono [of "lower Ls k" "lower Ls (Suc k)" s] at_vertices_mono [of "set (Ls ! k)" "lower Ls (Suc k)" s]
      lower_simps(2) [of k Ls] Suc.prems by auto
  then show ?case using IH level by (simp add: wired_append drained_append)
qed

definition restored :: "stripe \<Rightarrow> int list list \<Rightarrow> link set" where
  \<comment> \<open>the files of the repaired blocks\<close>
  "restored s Ls = (\<lambda>v. Stored (color_of (coloring s) v) (blklist s ! nat (REQUESTOR - v))) ` set (last Ls)"

lemma stripe_wired:
  assumes dep: "deployed ecn ecw Ls s"
  shows "wired {} {} (map (links s) (stripe_emits b ecw s Ls)) \<and>
    drained {} (map (links s) (stripe_emits b ecw s Ls)) = restored s Ls \<and>
    filled (map (links s) (stripe_emits b ecw s Ls)) \<subseteq> at_vertices s (lower Ls (length Ls - 1)) \<union> restored s Ls"
proof -
  let ?k = "length Ls - 1" and ?g = "s_ecdag s" and ?col = "color_of (coloring s)" and ?sid = "stripe_id s"
  let ?pre = "map (links s) (concat (map (level_emits b ecw s Ls) [0..<?k]))"
  have k: "?k < length Ls" "length Ls = Suc ?k" "?k \<noteq> 0" using deployedD(3) [OF dep] by auto
  have last: "last Ls = Ls ! ?k" using k by (metis last_conv_nth length_0_conv not_less_zero)
  have pre: "wired {} {} ?pre" "drained {} ?pre = pending s Ls ?k" "filled ?pre \<subseteq> at_vertices s (lower Ls ?k)"
    using levels_wired [OF dep k(1)] by blast+
  have emits: "stripe_emits b ecw s Ls = concat (map (level_emits b ecw s Ls) [0..<?k]) @ map (persist_emit b s) (last Ls)"
    unfolding stripe_emits_def using deployedD(3) [OF dep] by (subst k(2)) (simp add: level_emits_def last)
  let ?R = "\<lambda>v. Local ?sid (?col v) ` set (children_of ?g v)" and ?W = "\<lambda>v. {Stored (?col v) (blklist s ! nat (REQUESTOR - v))}"
  have fin: "?col v \<noteq> -1" "v \<le> REQUESTOR" "nat (REQUESTOR - v) < length (blklist s)" if "v \<in> set (last Ls)" for v
    using deployedD(4,7) [OF dep] that by (auto simp: deployable_def list_all_iff)
  have "wired (pending s Ls ?k) (filled ?pre) (map (\<lambda>v. (?R v, ?W v)) (last Ls)) \<and>
    drained (pending s Ls ?k) (map (\<lambda>v. (?R v, ?W v)) (last Ls)) = pending s Ls ?k - (\<Union>v\<in>set (last Ls). ?R v) \<union> (\<Union>v\<in>set (last Ls). ?W v) \<and>
    filled (map (\<lambda>v. (?R v, ?W v)) (last Ls)) = (\<Union>v\<in>set (last Ls). ?W v)"
  proof (rule wired_batch)
    fix v assume v: "v \<in> set (last Ls)"
    then have "v \<in> set (reals s (Ls ! ?k))" using fin by (simp add: reals_def last)
    from children_pending [OF dep k(1) this] show "?R v \<subseteq> pending s Ls ?k" by blast
    show "?W v \<inter> filled ?pre = {}" using pre(3) by (auto simp: at_vertices_def)
    fix u assume u: "u \<in> set (last Ls)" "v \<noteq> u"
    have "blklist s ! nat (REQUESTOR - v) \<noteq> blklist s ! nat (REQUESTOR - u)"
      using fin [OF v] fin [OF u(1)] u(2) deployedD(5) [OF dep] by (simp add: nth_eq_iff_index_eq nat_eq_iff2)
    moreover have "?R v \<inter> ?R u = {}"
    proof (rule ccontr)
      assume "?R v \<inter> ?R u \<noteq> {}"
      then obtain c where c: "?col v = ?col u" "c \<in> set (children_of ?g v)" "c \<in> set (children_of ?g u)" by auto
      have par: "v \<in> set (parents_of ?g c)" "u \<in> set (parents_of ?g c)"
        using c dag_mirror [OF wf_ecdag_ok [OF deployedD(1) [OF dep]]] by blast+
      have "c \<in> lower Ls ?k" using level_facts(3) [OF dep k(1) _ c(2)] v by (simp add: last)
      then obtain j where "j < length Ls" "c \<in> set (Ls ! j)" by (auto simp: lower_nth)
      from single_useD [OF dep par u(2) c(1) fin(1) [OF v] level_facts(1) [OF dep this]]
      obtain i where i: "Suc i < length Ls" "v \<in> set (Ls ! i)" by blast
      then have "v \<in> lower Ls ?k" by (auto simp: lower_nth intro!: exI [of _ i])
      then show False using level_facts(2) [OF dep k(1), of v] v by (simp add: last)
    qed
    ultimately show "?R v \<inter> ?R u = {} \<and> ?W v \<inter> ?W u = {}" by auto
  next
    have "distinct (concat Ls)"
      using levels_from_props [OF deployedD(2) [OF dep]] dag_okD(1) [OF wf_ecdag_ok [OF deployedD(1) [OF dep]]] by auto
    then show "distinct (last Ls)" using k(1) by (simp add: last distinct_concat_iff)
    show "pending s Ls ?k \<subseteq> filled ?pre" using drained_filled [of "{}" ?pre] pre(2) by simp
  qed
  note batch = this
  have none: "pending s Ls ?k - (\<Union>v\<in>set (last Ls). ?R v) = {}"
  proof -
    have "l \<in> (\<Union>v\<in>set (last Ls). ?R v)" if "l \<in> pending s Ls ?k" for l
    proof -
      from that obtain b v p where l: "l = Local ?sid b v" "p \<in> set (parents_of ?g v)" "?col p = b" "p \<notin> lower Ls ?k" "v \<in> lower Ls ?k"
        by (auto simp: pending_def)
      from l(5) obtain j where j: "j < length Ls" "v \<in> set (Ls ! j)" by (auto simp: lower_nth)
      have "set (concat Ls) = set (node_ids ?g)"
        using levels_from_props [OF deployedD(2) [OF dep]] dag_okD(1) [OF wf_ecdag_ok [OF deployedD(1) [OF dep]]] by auto
      then have "p \<in> set (concat Ls)" using level_facts(4) [OF dep j l(2)] by blast
      then obtain i where i: "i < length Ls" "p \<in> set (Ls ! i)" by (auto simp: in_set_conv_nth) (metis in_set_conv_nth nth_mem)
      then have "i = ?k" using l(4) by (cases "i < ?k") (auto simp: lower_nth)
      then have "p \<in> set (last Ls)" using i(2) by (simp add: last)
      moreover have "v \<in> set (children_of ?g p)" using l(2) dag_mirror [OF wf_ecdag_ok [OF deployedD(1) [OF dep]]] by blast
      ultimately show ?thesis using l(1,3) by blast
    qed
    then show ?thesis by blast
  qed
  have files: "(\<Union>v\<in>set (last Ls). ?W v) = restored s Ls" by (auto simp: restored_def)
  have pers: "wired (pending s Ls ?k) (filled ?pre) (map (\<lambda>v. (?R v, ?W v)) (last Ls))"
    "drained (pending s Ls ?k) (map (\<lambda>v. (?R v, ?W v)) (last Ls)) = restored s Ls"
    "filled (map (\<lambda>v. (?R v, ?W v)) (last Ls)) = restored s Ls"
    using batch unfolding none files Un_empty_left by blast+
  have map: "map (links s) (map (persist_emit b s) (last Ls)) = map (\<lambda>v. (?R v, ?W v)) (last Ls)" by (simp add: persist_links)
  show ?thesis
    unfolding emits map_append wired_append drained_append filled_simps(3) pre(2) map pers(2,3)
    using pre(1,3) pers(1) by auto
qed

end
