(* ===== verification/Worker_Groups.thy ===== *)
theory Worker_Groups
  imports Worker_Run "HOL-Library.Multiset"
begin

text \<open>
  The grouped variants of the threads (\<open>computeGroups\<close>, \<open>computeList\<close> and \<open>recvGroups\<close> of
  src/src/common/Worker.cc) against the simple ones: they agree if no two groups
  share a source. Theory Worker_Starve shows what happens if two do.
\<close>

section \<open>The matrix of a group\<close>

text \<open>
  What ISA-L documents of \<open>ec_encode_data\<close>, as far as the code relies on it: the result is the sum of
  the products of coefficients and sources, so that the order of the pairs and pairs with coefficient 0
  do not matter, and it has the length asked for.
\<close>

definition isal_law :: "isal \<Rightarrow> bool" where
  "isal_law isal \<longleftrightarrow>
     (\<forall>len xs ys. filter_mset (\<lambda>p. fst p \<noteq> CHR 0x00) (mset xs) = filter_mset (\<lambda>p. fst p \<noteq> CHR 0x00) (mset ys) \<longrightarrow>
        isal len (map fst xs) (map snd xs) = isal len (map fst ys) (map snd ys)) \<and>
     (\<forall>len row srcs. 0 \<le> len \<and> list_all (\<lambda>bs. int (length bs) = len) srcs \<longrightarrow> int (length (isal len row srcs)) = len)"

lemma group_row_ok:
  assumes "length (ci_coefs ci) = length (ci_srclist ci)" and "distinct (ci_srclist ci)"
  shows "\<exists>cf. group_row inputs ci = Inr (map cf inputs) \<and> map cf (ci_srclist ci) = ci_coefs ci \<and>
    (\<forall>d. d \<notin> set (ci_srclist ci) \<longrightarrow> cf d = 0)"
proof -
  let ?src = "ci_srclist ci" and ?cs = "ci_coefs ci"
  let ?d2c = "fold (\<lambda>(d, c). um_insert d c) (zip ?src ?cs) []"
  have "foldR (\<lambda>(i, d) m. bindR (vget cs i) (\<lambda>c. Inr (um_insert d c m))) (zip (map int [0..<length ds]) ds) m =
      Inr (fold (\<lambda>(d, c). um_insert d c) (zip ds cs) m)" if "length cs = length ds" for ds cs and m :: "int umap"
    using that
  proof (induction ds cs arbitrary: m rule: rev_induct2)
    case (4 x xs y ys)
    have "foldR (\<lambda>(i, d) m. bindR (vget (ys @ [y]) i) (\<lambda>c. Inr (um_insert d c m))) (zip (map int [0..<length xs]) xs) m =
        foldR (\<lambda>(i, d) m. bindR (vget ys i) (\<lambda>c. Inr (um_insert d c m))) (zip (map int [0..<length xs]) xs) m"
    proof (rule foldR_cong, clarify)
      fix i d m assume "(i, d) \<in> set (zip (map int [0..<length xs]) xs)"
      from set_zip_leftD [OF this] have "0 \<le> i \<and> nat i < length ys" using 4(2) by auto
      then show "bindR (vget (ys @ [y]) i) (\<lambda>c. Inr (um_insert d c m)) = bindR (vget ys i) (\<lambda>c. Inr (um_insert d c m))"
        by (simp add: nth_append)
    qed
    with 4 show ?case by (simp add: foldR_append nth_append)
  qed simp_all
  from this [OF assms(1), of "[]"] have "group_row inputs ci = Inr (map (um_get 0 ?d2c) inputs)"
    by (simp add: group_row_def)
  moreover have get: "um_get 0 (fold (\<lambda>(d, c). um_insert d c) (zip ds cs) m) d =
      (if um_has m d then um_get 0 m d else case map_of (zip ds cs) d of None \<Rightarrow> 0 | Some c \<Rightarrow> c)" for ds cs m and d :: int
  proof (induction ds cs arbitrary: m rule: list_induct2')
    case (4 x xs y ys)
    show ?case using 4 [of "um_insert x y m"]
      by (auto simp: um_get_def um_has_iff map_of_um_insert split: option.splits)
  qed (simp_all add: um_get_def um_has_iff)
  have "map (um_get 0 ?d2c) ?src = ?cs"
    unfolding get using assms by (intro nth_equalityI) (simp_all add: um_has_def map_of_zip_nth)
  moreover have "um_get 0 ?d2c d = 0" if "d \<notin> set ?src" for d
    using that assms(1) unfolding get by (simp add: um_has_def map_of_zip_is_None [THEN iffD2])
  ultimately show ?thesis by blast
qed

text \<open>Over all inputs of a group, or over the sources of one item only: the same result.\<close>

lemma isal_row:
  assumes law: "isal_law isal" and src: "set src \<subseteq> set inputs" "distinct src" "distinct inputs"
    and cf: "\<And>d. d \<notin> set src \<Longrightarrow> cf d = (0 :: int)"
  shows "isal len (map char_of (map cf inputs)) (map f inputs) = isal len (map char_of (map cf src)) (map f src)"
proof -
  let ?g = "\<lambda>d. (char_of (cf d) :: char, f d)"
  have zero: "char_of (0 :: int) = (CHR 0x00 :: char)" by (simp add: char_of_def)
  have "filter_mset (\<lambda>p. fst p \<noteq> CHR 0x00) (mset (map ?g inputs)) =
      image_mset ?g (filter_mset (\<lambda>d. char_of (cf d) \<noteq> (CHR 0x00 :: char)) (mset inputs))"
    by (simp add: filter_mset_image_mset)
  moreover have "filter_mset (\<lambda>d. char_of (cf d) \<noteq> (CHR 0x00 :: char)) (mset inputs) =
      filter_mset (\<lambda>d. char_of (cf d) \<noteq> (CHR 0x00 :: char)) (mset src)"
  proof -
    have "mset (filter (\<lambda>d. char_of (cf d) \<noteq> (CHR 0x00 :: char)) inputs) = mset (filter (\<lambda>d. char_of (cf d) \<noteq> (CHR 0x00 :: char)) src)"
    proof (subst set_eq_iff_mset_eq_distinct [symmetric])
      have "d \<in> set src" if "char_of (cf d) \<noteq> (CHR 0x00 :: char)" for d using that cf [of d] zero by (cases "d \<in> set src") auto
      then show "set (filter (\<lambda>d. char_of (cf d) \<noteq> (CHR 0x00 :: char)) inputs) = set (filter (\<lambda>d. char_of (cf d) \<noteq> (CHR 0x00 :: char)) src)"
        using src(1) by auto
    qed (use src in auto)
    then show ?thesis by simp
  qed
  ultimately have "filter_mset (\<lambda>p. fst p \<noteq> CHR 0x00) (mset (map ?g inputs)) =
      filter_mset (\<lambda>p. fst p \<noteq> CHR 0x00) (mset (map ?g src))"
    by (simp add: filter_mset_image_mset)
  with law have "isal len (map fst (map ?g inputs)) (map snd (map ?g inputs)) =
      isal len (map fst (map ?g src)) (map snd (map ?g src))" unfolding isal_law_def by blast
  then show ?thesis by (simp add: o_def)
qed

section \<open>A group computes what its items compute\<close>

definition group_ok :: "compute_group \<Rightarrow> bool" where
  "group_ok cg \<longleftrightarrow> cg_src cg = input_list (cg_list cg)"

definition items_exact :: "compute_item list \<Rightarrow> bool" where
  "items_exact cis \<longleftrightarrow> list_all (\<lambda>ci. length (ci_coefs ci) = length (ci_srclist ci) \<and> distinct (ci_srclist ci)) cis"

lemma group_usage_eq: "distinct (map ci_dstidx cis) \<Longrightarrow> group_usage cis = map (\<lambda>ci. (ci_dstidx ci, ci_usage ci)) cis"
proof -
  have "distinct (um_keys m @ map ci_dstidx cis) \<Longrightarrow>
      fold (\<lambda>ci. um_insert (ci_dstidx ci) (ci_usage ci)) cis m = m @ map (\<lambda>ci. (ci_dstidx ci, ci_usage ci)) cis" for m
    by (induction cis arbitrary: m) (auto simp: um_insert_def um_has_def)
  from this [of "[]"] show "distinct (map ci_dstidx cis) \<Longrightarrow> ?thesis" by (simp add: group_usage_def)
qed

lemma packets_of_codes:
  assumes "distinct (map ci_dstidx cis)" and "ci \<in> set cis"
  shows "um_get d (fold (\<lambda>(ci, out). um_insert (ci_dstidx ci) (g out)) (zip cis (map h cis)) []) (ci_dstidx ci) = g (h ci)"
proof -
  have "um_get d (fold (\<lambda>ci. um_insert (ci_dstidx ci) (g (h ci))) cis m) (ci_dstidx ci) = g (h ci)"
    if "distinct (map ci_dstidx cis)" "ci \<in> set cis" "\<not> um_has m (ci_dstidx ci)" for cis m
    using that
  proof (induction cis arbitrary: m)
    case (Cons c cis)
    have keep: "um_get d (fold (\<lambda>ci. um_insert (ci_dstidx ci) (g (h ci))) cis m) k = um_get d m k"
      if "um_has m k" for cis m k
      using that by (induction cis arbitrary: m) (auto simp: um_get_def um_has_iff map_of_um_insert)
    show ?case
    proof (cases "c = ci")
      case True
      have "um_has (um_insert (ci_dstidx ci) (g (h ci)) m) (ci_dstidx ci)" by (auto simp: um_has_iff map_of_um_insert)
      with True Cons.prems(3) show ?thesis by (simp add: keep um_get_insert_new)
    next
      case False
      then have in_cis: "ci \<in> set cis" using Cons.prems(2) by simp
      then have "ci_dstidx ci \<in> ci_dstidx ` set cis" by simp
      then have "ci_dstidx c \<noteq> ci_dstidx ci" using Cons.prems(1) by auto
      note this in_cis
      then show ?thesis using Cons by (auto simp: um_has_iff map_of_um_insert)
    qed
  qed simp
  from this [OF assms, of "[]"] show ?thesis by (simp add: fold_zip_map um_has_def)
qed

lemma carries_computeList:
  assumes sz: "sizes_are w sub n" and len: "pkt_len_ok pk sub" and law: "isal_law isal"
    and g: "group_ok cg" and ok: "items_ok m (cg_list cg)" and ex: "items_exact (cg_list cg)"
    and val: "\<And>ci i. ci \<in> set (cg_list cg) \<Longrightarrow> i < n \<Longrightarrow> pk s (ci_dstidx ci) i = item_value isal sub pk s i ci"
  shows "carries (whole b pk coll n) (Queue (localIp w) s ` set (input_list (cg_list cg)))
    (\<Union>ci\<in>set (cg_list cg). used_chans w s (ci_dstidx ci) (ci_usage ci)) (computeList isal w s m cg) ()"
proof -
  let ?cis = "cg_list cg" and ?in = "input_list (cg_list cg)"
  let ?W = "\<Union>ci\<in>set ?cis. used_chans w s (ci_dstidx ci) (ci_usage ci)"
  have dist: "distinct (map ci_dstidx ?cis)" using ok by (simp add: items_ok_def)
  have exact: "length (ci_coefs ci) = length (ci_srclist ci)" "distinct (ci_srclist ci)" "set (ci_srclist ci) \<subseteq> set ?in"
    if "ci \<in> set ?cis" for ci
    using ex that by (auto simp: items_exact_def list_all_iff set_input_list)
  have "\<exists>cf. \<forall>ci\<in>set ?cis. group_row ?in ci = Inr (map (cf ci) ?in) \<and> map (cf ci) (ci_srclist ci) = ci_coefs ci \<and>
      (\<forall>d. d \<notin> set (ci_srclist ci) \<longrightarrow> cf ci d = 0)"
    using group_row_ok exact by (intro bchoice) blast
  then obtain cf where cf: "\<And>ci. ci \<in> set ?cis \<Longrightarrow> group_row ?in ci = Inr (map (cf ci) ?in) \<and>
      map (cf ci) (ci_srclist ci) = ci_coefs ci \<and> (\<forall>d. d \<notin> set (ci_srclist ci) \<longrightarrow> cf ci d = 0)" by blast
  define rows where "rows = map (\<lambda>ci. map (cf ci) ?in) ?cis"
  have rows: "mapR (group_row ?in) ?cis = Inr rows"
    unfolding rows_def using cf by (intro mapR_pure) blast
  have lens: "length (pk s d i) = nat sub" for d i
  proof -
    have "int (length (pk s d i)) = sub" using len by (simp add: pkt_len_ok_def)
    then show ?thesis by linarith
  qed
  have block: "take c (drop (r * c) (concat xss)) = xss ! r"
    if "r < length xss" "list_all (\<lambda>xs. length xs = c) xss" for r c and xss :: "int list list"
    using that by (induction xss arbitrary: r) (auto simp: nth_Cons split: nat.splits)
  have multi: "Multi isal (map (\<lambda>d. pk s d i) ?in) (concat rows) (length ?cis) (length ?in) sub =
      Inr (map (\<lambda>ci. pk s (ci_dstidx ci) i) ?cis)" if i: "i < n" for i
  proof -
    have "length (concat rows) = length ?cis * length ?in" by (simp add: rows_def length_concat o_def sum_list_triv)
    moreover have "list_all (\<lambda>xs. length xs = length ?in) rows" by (simp add: rows_def list_all_iff)
    moreover have "isal sub (map char_of (rows ! r)) (map (\<lambda>d. pk s d i) ?in) = pk s (ci_dstidx (?cis ! r)) i"
      if r: "r < length ?cis" for r
    proof -
      let ?ci = "?cis ! r"
      have ci: "?ci \<in> set ?cis" using r by simp
      have "isal sub (map char_of (map (cf ?ci) ?in)) (map (\<lambda>d. pk s d i) ?in) =
          isal sub (map char_of (map (cf ?ci) (ci_srclist ?ci))) (map (\<lambda>d. pk s d i) (ci_srclist ?ci))"
        using cf [OF ci] exact [OF ci] by (intro isal_row [OF law] distinct_input_list) auto
      also have "\<dots> = item_value isal sub pk s i ?ci"
        using cf [OF ci] exact [OF ci] by (simp add: item_value_def)
      finally show ?thesis using val [OF ci i] r by (simp add: rows_def)
    qed
    moreover have cut: "map (take (nat sub)) (map (\<lambda>d. pk s d i) ?in) = map (\<lambda>d. pk s d i) ?in" by (simp add: lens)
    moreover have "map (\<lambda>r. isal sub (map char_of (take (length ?in) (drop (r * length ?in) (concat rows)))) (map (\<lambda>d. pk s d i) ?in))
        [0..<length ?cis] = map (\<lambda>ci. pk s (ci_dstidx ci) i) ?cis"
      using calculation block [of _ rows "length ?in"]
      by (intro nth_equalityI) (simp_all add: rows_def)
    ultimately show ?thesis by (simp add: Multi_def list_all_iff lens del: map_map) 
  qed
  have disj: "?W \<inter> Queue (localIp w) s ` set ?in = {}"
    using ok by (fastforce simp: items_ok_def used_chans_def split: if_splits)
  let ?pop = "forP (\<lambda>d data. bindP (pop_from (getQueue w s m d)) (\<lambda>p. Ret (data @ [getData p]))) ?in []"
  let ?push = "\<lambda>code. let pkts = fold (\<lambda>(ci, out). um_insert (ci_dstidx ci) (set_data out (new_packet sub))) (zip ?cis code) []
          in forP (\<lambda>(dst, usage) _. push_used w s m True dst usage (um_get (new_packet 0) pkts dst)) (group_usage ?cis) ()"
  let ?next = "\<lambda>data. bindP (liftP (Multi isal data (concat rows) (length ?cis) (length ?in) sub)) ?push"
  have round: "carries (content b pk coll i) (Queue (localIp w) s ` set ?in) ?W (bindP ?pop ?next) ()" if i: "i < n" for i
  proof -
    have "carries (content b pk coll i) (\<Union>d\<in>set ?in. {Queue (localIp w) s d}) (\<Union>d\<in>set ?in. {}) ?pop
        (fold (\<lambda>d data. data @ [pk s d i]) ?in [])"
    proof (rule carries_fold)
      fix d and data :: "string list" assume "d \<in> set ?in"
      then have "carries (content b pk coll i) {Queue (localIp w) s d} {} (pop_from (getQueue w s m d)) (packet_of (pk s d i))"
        using carries_pop [of d m b pk coll i w s] ok by (simp add: items_ok_def)
      from carries_bind [OF this, where f = "\<lambda>p. Ret (data @ [getData p])", OF carries_Ret]
      show "carries (content b pk coll i) {Queue (localIp w) s d} {}
          (bindP (pop_from (getQueue w s m d)) (\<lambda>p. Ret (data @ [getData p]))) (data @ [pk s d i])" by simp
    qed (use distinct_input_list in auto)
    moreover have "fold (\<lambda>d data. data @ [pk s d i]) ds data = data @ map (\<lambda>d. pk s d i) ds" for ds data
      by (induction ds arbitrary: data) simp_all
    ultimately have pop: "carries (content b pk coll i) (Queue (localIp w) s ` set ?in) {} ?pop (map (\<lambda>d. pk s d i) ?in)"
      by (simp add: UNION_singleton_eq_range)
    let ?pkts = "fold (\<lambda>(ci, out). um_insert (ci_dstidx ci) (set_data out (new_packet sub)))
        (zip ?cis (map (\<lambda>ci. pk s (ci_dstidx ci) i) ?cis)) []"
    have pkts: "um_get (new_packet 0) ?pkts (ci_dstidx ci) = packet_of (pk s (ci_dstidx ci) i)" if "ci \<in> set ?cis" for ci
      using packets_of_codes [OF dist that, where g = "\<lambda>out. set_data out (new_packet sub)"] new_packet_filled [OF len] by simp
    have "carries (content b pk coll i) (\<Union>(d, u)\<in>set (group_usage ?cis). {}) (\<Union>(d, u)\<in>set (group_usage ?cis). used_chans w s d u)
        (forP (\<lambda>(dst, usage) _. push_used w s m True dst usage (um_get (new_packet 0) ?pkts dst)) (group_usage ?cis) ()) ()"
    proof (rule carries_forP)
      fix x assume "x \<in> set (group_usage ?cis)"
      then obtain ci where ci: "ci \<in> set ?cis" "x = (ci_dstidx ci, ci_usage ci)" by (auto simp: group_usage_eq [OF dist])
      then show "carries (content b pk coll i) (case x of (d, u) \<Rightarrow> {}) (case x of (d, u) \<Rightarrow> used_chans w s d u)
          ((case x of (dst, usage) \<Rightarrow> \<lambda>_. push_used w s m True dst usage (um_get (new_packet 0) ?pkts dst)) ()) ()"
        using ok by (auto simp: pkts [OF ci(1)] items_ok_def intro!: carries_push_used)
    next
      show "distinct (group_usage ?cis)" using dist by (simp add: group_usage_eq distinct_map inj_on_def)
      fix x y assume "x \<in> set (group_usage ?cis)" "y \<in> set (group_usage ?cis)" "x \<noteq> y"
      then obtain ci cj where c: "ci \<in> set ?cis" "cj \<in> set ?cis" "x = (ci_dstidx ci, ci_usage ci)" "y = (ci_dstidx cj, ci_usage cj)"
        by (auto simp: group_usage_eq [OF dist])
      have "ci_dstidx ci \<noteq> ci_dstidx cj"
        using c \<open>x \<noteq> y\<close> dist by (auto simp: distinct_map dest: inj_onD)
      from used_keys_disjoint [OF _ _ this, of "ci_usage ci" "ci_usage cj"] c ok
      show "(case x of (d, u) \<Rightarrow> {}) \<inter> (case y of (d, u) \<Rightarrow> {}) = {} \<and>
          (case x of (d, u) \<Rightarrow> used_chans w s d u) \<inter> (case y of (d, u) \<Rightarrow> used_chans w s d u) = {}"
        by (simp add: used_chans_keys items_ok_def image_Int [symmetric] inj_on_def)
    qed auto
    moreover have "(\<Union>(d, u)\<in>set (group_usage ?cis). used_chans w s d u) = ?W" by (simp add: group_usage_eq [OF dist])
    ultimately have "carries (content b pk coll i) {} ?W (?next (map (\<lambda>d. pk s d i) ?in)) ()"
      by (simp add: multi [OF i] Let_def)
    from carries_bind [where f = ?next, OF pop this] show ?thesis by simp
  qed
  have "carries (whole b pk coll n) (Queue (localIp w) s ` set ?in) ?W (forP (\<lambda>pktid _. bindP ?pop ?next) [0..<n] ()) ()"
    unfolding whole_def using disj by (intro carries_rounds round) auto
  then show ?thesis using sz g rows by (simp add: computeList_def sizes_are_def Let_def group_ok_def)
qed

section \<open>The groups partition the items\<close>

lemma input_list_snoc: "input_list (cis @ [ci]) = fold add_color (ci_srclist ci) (input_list cis)"
  by (simp add: input_list_def)

lemma group_ok_add: "group_ok cg \<Longrightarrow> group_ok (cg_add ci cg)"
  by (simp add: group_ok_def cg_add_def input_list_snoc)

lemma group_ok_new: "group_ok new_group"
  by (simp add: group_ok_def new_group_def input_list_def)

lemma cg_merge_props:
  assumes "group_ok tomerge"
  shows "group_ok (cg_merge cg tomerge)" and "cg_list (cg_merge cg tomerge) = cg_list tomerge @ cg_list cg"
proof -
  have "group_ok (fold cg_add cis g) \<and> cg_list (fold cg_add cis g) = cg_list g @ cis" if "group_ok g" for cis g
    using that by (induction cis arbitrary: g) (simp_all add: group_ok_add, simp add: cg_add_def)
  then show "group_ok (cg_merge cg tomerge)" "cg_list (cg_merge cg tomerge) = cg_list tomerge @ cg_list cg"
    using assms by (simp_all add: cg_merge_def)
qed

definition groups_of :: "compute_item list \<Rightarrow> compute_group list \<Rightarrow> bool" where
  "groups_of cis cgs \<longleftrightarrow> mset (concat (map cg_list cgs)) = mset cis \<and> list_all group_ok cgs \<and>
     list_all (\<lambda>cg. cg_list cg \<noteq> []) cgs"

lemma group_item_groups: "groups_of cis cgs \<Longrightarrow> groups_of (cis @ [ci]) (group_item ci cgs)"
proof -
  have "mset (concat (map cg_list (group_item ci cgs))) = add_mset ci (mset (concat (map cg_list cgs)))"
    by (induction ci cgs rule: group_item.induct) (auto simp: cg_add_def new_group_def)
  moreover have "list_all group_ok cgs \<Longrightarrow> list_all group_ok (group_item ci cgs)"
    by (induction ci cgs rule: group_item.induct) (auto simp: group_ok_add group_ok_new)
  moreover have "list_all (\<lambda>cg. cg_list cg \<noteq> []) cgs \<Longrightarrow> list_all (\<lambda>cg. cg_list cg \<noteq> []) (group_item ci cgs)"
    by (induction ci cgs rule: group_item.induct) (auto simp: cg_add_def)
  ultimately show "groups_of cis cgs \<Longrightarrow> groups_of (cis @ [ci]) (group_item ci cgs)" by (simp add: groups_of_def)
qed

lemma group_items_groups: "groups_of cis (fold group_item cis [])"
  by (induction cis rule: rev_induct) (simp_all add: group_item_groups, simp add: groups_of_def)

lemma merge_group_mset:
  "list_all group_ok cgs \<Longrightarrow> mset (concat (map cg_list (merge_group limit cg cgs))) = mset (concat (map cg_list (cg # cgs)))"
  by (induction limit cg cgs rule: merge_group.induct) (auto simp: cg_merge_props)

lemma merge_group_all:
  "list_all group_ok (cg # cgs) \<Longrightarrow> list_all group_ok (merge_group limit cg cgs)"
  "list_all group_ok (cg # cgs) \<Longrightarrow> list_all (\<lambda>cg. cg_list cg \<noteq> []) (cg # cgs) \<Longrightarrow>
    list_all (\<lambda>cg. cg_list cg \<noteq> []) (merge_group limit cg cgs)"
  "list_all group_ok (cg # cgs) \<Longrightarrow> 0 \<le> limit \<Longrightarrow> x \<in> set (merge_group limit cg cgs) \<Longrightarrow>
    x \<in> set (cg # cgs) \<or> int (length (cg_list x)) \<le> limit"
  by (induction limit cg cgs rule: merge_group.induct) (auto simp: cg_merge_props canMerge_def split: if_splits)

lemma merge_groups:
  assumes "list_all group_ok (done @ cgs)" and "list_all (\<lambda>cg. cg_list cg \<noteq> []) (done @ cgs)"
  shows "mset (concat (map cg_list (fold (merge_group limit) cgs done))) = mset (concat (map cg_list (done @ cgs))) \<and>
    list_all group_ok (fold (merge_group limit) cgs done) \<and>
    list_all (\<lambda>cg. cg_list cg \<noteq> []) (fold (merge_group limit) cgs done) \<and>
    (0 \<le> limit \<longrightarrow> (\<forall>x\<in>set (fold (merge_group limit) cgs done). x \<in> set (done @ cgs) \<or> int (length (cg_list x)) \<le> limit))"
  using assms
proof (induction cgs arbitrary: "done")
  case (Cons cg cgs)
  have *: "list_all group_ok (merge_group limit cg done @ cgs)" "list_all (\<lambda>cg. cg_list cg \<noteq> []) (merge_group limit cg done @ cgs)"
    using Cons.prems merge_group_all(1,2) [of cg "done" limit] by auto
  have "mset (concat (map cg_list (merge_group limit cg done))) = mset (concat (map cg_list (cg # done)))"
    using Cons.prems by (intro merge_group_mset) simp
  moreover have "x \<in> set (done @ cg # cgs) \<or> int (length (cg_list x)) \<le> limit"
    if "0 \<le> limit" "x \<in> set (merge_group limit cg done @ cgs)" for x
    using that merge_group_all(3) [of cg "done" limit x] Cons.prems by auto
  ultimately show ?case using Cons.IH [OF *] by (auto simp: union_commute)
qed simp

lemma compute_groups_props:
  "groups_of cis (compute_groups limit cis)"
  "0 \<le> limit \<Longrightarrow> cg \<in> set (compute_groups limit cis) \<Longrightarrow> cg \<in> set (fold group_item cis []) \<or> int (length (cg_list cg)) \<le> limit"
  using group_items_groups [of cis] merge_groups [of "[]" "fold group_item cis []" limit]
  by (auto simp: groups_of_def compute_groups_def)

text \<open>\<open>computeGroups\<close> neither loses nor repeats work: whatever the size limit, the items of the
  groups that it starts threads for are, together, exactly the items of the task; no group is empty, the
  inputs that a group's thread pops are the sources of its items, each once; and a group exceeds the
  limit only if its items were chained together by common sources, never by merging.\<close>

theorem compute_groups_partition:
  "mset (concat (map cg_list (compute_groups limit cis))) = mset cis \<and>
   list_all (\<lambda>cg. cg_list cg \<noteq> [] \<and> distinct (cg_src cg) \<and> set (cg_src cg) = (\<Union>ci\<in>set (cg_list cg). set (ci_srclist ci)))
     (compute_groups limit cis) \<and>
   (0 \<le> limit \<longrightarrow> (\<forall>cg\<in>set (compute_groups limit cis).
      int (length (cg_list cg)) \<le> limit \<or> cg \<in> set (fold group_item cis [])))"
  using compute_groups_props [where cis = cis and limit = limit]
  by (auto simp: groups_of_def list_all_iff group_ok_def distinct_input_list set_input_list)

lemma compute_groups_partition_witness:
  "mset (concat (map cg_list (compute_groups 2 [new_compute_item 10 [1] [1] (True, False)]))) =
     {#new_compute_item 10 [1] [1] (True, False)#} \<and>
   (\<exists>cg. compute_groups 2 [new_compute_item 10 [1] [1] (True, False)] = [cg] \<and> cg_src cg = [1])"
  using compute_groups_partition [where cis = "[new_compute_item 10 [1] [1] (True, False)]" and limit = 2]
  by (simp add: compute_groups_def cg_add_def new_group_def new_compute_item_def add_color_def)

section \<open>Grouped or one by one\<close>

text \<open>The first \<open>n\<close> elements of the queue of a vertex are packets of the right size.\<close>

definition queued :: "worker_conf \<Rightarrow> int \<Rightarrow> nat \<Rightarrow> int \<Rightarrow> (chan, item) chans \<Rightarrow> int \<Rightarrow> string list \<Rightarrow> bool" where
  "queued w sub n s q d bss \<longleftrightarrow> length bss = n \<and> list_all (\<lambda>bs. int (length bs) = sub) bss \<and>
     take n (q (Queue (localIp w) s d)) = map (\<lambda>bs. Packet (packet_of bs)) bss"

lemma items_ok_sub:
  assumes "items_ok m cis" and "set cjs \<subseteq> set cis" and "distinct (map ci_dstidx cjs)"
  shows "items_ok m cjs"
proof -
  have "set (input_list cjs) \<subseteq> set (input_list cis)" using assms(2) by (auto simp: set_input_list)
  with assms show ?thesis by (auto simp: items_ok_def)
qed

lemma groups_of_distinct:
  assumes "groups_of cis gs" and "distinct (map ci_dstidx cis)"
  shows "distinct gs" and "\<And>cg. cg \<in> set gs \<Longrightarrow> distinct (map ci_dstidx (cg_list cg)) \<and> set (cg_list cg) \<subseteq> set cis"
    and "\<And>cg cg' ci cj. cg \<in> set gs \<Longrightarrow> cg' \<in> set gs \<Longrightarrow> cg \<noteq> cg' \<Longrightarrow> ci \<in> set (cg_list cg) \<Longrightarrow> cj \<in> set (cg_list cg') \<Longrightarrow>
      ci_dstidx ci \<noteq> ci_dstidx cj"
proof -
  have "mset (concat (map (\<lambda>cg. map ci_dstidx (cg_list cg)) gs)) = image_mset ci_dstidx (mset (concat (map cg_list gs)))"
    by (induction gs) simp_all
  also have "\<dots> = mset (map ci_dstidx cis)" using assms(1) by (simp add: groups_of_def)
  finally have "mset (concat (map (\<lambda>cg. map ci_dstidx (cg_list cg)) gs)) = mset (map ci_dstidx cis)" .
  from mset_eq_imp_distinct_iff [OF this] assms(2)
  have d: "distinct (concat (map (\<lambda>cg. map ci_dstidx (cg_list cg)) gs))" by blast
  have ne: "\<And>cg. cg \<in> set gs \<Longrightarrow> cg_list cg \<noteq> []" using assms(1) by (auto simp: groups_of_def list_all_iff)
  have items: "set (concat (map cg_list gs)) = set cis" using assms(1) by (metis groups_of_def mset_eq_setD)
  from d show "\<And>cg. cg \<in> set gs \<Longrightarrow> distinct (map ci_dstidx (cg_list cg)) \<and> set (cg_list cg) \<subseteq> set cis"
    using items by (auto simp: distinct_concat_iff)
  have "removeAll [] xss = filter (\<lambda>xs. xs \<noteq> []) xss" for xss :: "int list list" by (induction xss) auto
  with d have "distinct (filter (\<lambda>xs. xs \<noteq> []) (map (\<lambda>cg. map ci_dstidx (cg_list cg)) gs))"
    by (simp add: distinct_concat_iff)
  moreover have "filter (\<lambda>xs. xs \<noteq> []) (map (\<lambda>cg. map ci_dstidx (cg_list cg)) gs) = map (\<lambda>cg. map ci_dstidx (cg_list cg)) gs"
    using ne by (intro filter_True) auto
  ultimately have dd: "distinct (map (\<lambda>cg. map ci_dstidx (cg_list cg)) gs)" by simp
  then show "distinct gs" by (simp add: distinct_map)
  show "ci_dstidx ci \<noteq> ci_dstidx cj" if *: "cg \<in> set gs" "cg' \<in> set gs" "cg \<noteq> cg'" "ci \<in> set (cg_list cg)" "cj \<in> set (cg_list cg')" for cg cg' ci cj
  proof -
    have "map ci_dstidx (cg_list cg) \<noteq> map ci_dstidx (cg_list cg')" using dd *(1-3) by (auto simp: distinct_map dest: inj_onD)
    moreover have "map ci_dstidx (cg_list cg) \<in> set (map (\<lambda>cg. map ci_dstidx (cg_list cg)) gs)"
      "map ci_dstidx (cg_list cg') \<in> set (map (\<lambda>cg. map ci_dstidx (cg_list cg)) gs)" using *(1,2) by simp_all
    ultimately have "set (map ci_dstidx (cg_list cg)) \<inter> set (map ci_dstidx (cg_list cg')) = {}"
      using d [unfolded distinct_concat_iff, THEN conjunct2, THEN conjunct2] by blast
    moreover have "ci_dstidx ci \<in> set (map ci_dstidx (cg_list cg))" "ci_dstidx cj \<in> set (map ci_dstidx (cg_list cg'))"
      using *(4,5) by simp_all
    ultimately show ?thesis by (metis disjoint_iff)
  qed
qed

text \<open>Packets for all vertices: those that are queued, and what the items make of them.\<close>

definition packets :: "isal \<Rightarrow> int \<Rightarrow> nat \<Rightarrow> compute_item list \<Rightarrow> (int \<Rightarrow> string list) \<Rightarrow> int \<Rightarrow> int \<Rightarrow> nat \<Rightarrow> string" where
  "packets isal sub n cis bss s d i =
     (let inp = (\<lambda>d. if d \<in> set (input_list cis) \<and> i < n then bss d ! i else replicate (nat sub) CHR 0x00) in
      case map_of (map (\<lambda>ci. (ci_dstidx ci, ci)) cis) d of
        None \<Rightarrow> inp d
      | Some ci \<Rightarrow> isal sub (map char_of (ci_coefs ci)) (map inp (ci_srclist ci)))"

lemma packets_ok:
  assumes ok: "items_ok m cis" and ex: "items_exact cis" and law: "isal_law isal" and sub: "0 < sub" "sub < 2 ^ 31"
    and q: "\<And>d. d \<in> set (input_list cis) \<Longrightarrow> queued w sub n s q d (bss d)"
  shows "pkt_len_ok (packets isal sub n cis bss) sub"
    and "\<And>d i. d \<in> set (input_list cis) \<Longrightarrow> i < n \<Longrightarrow> packets isal sub n cis bss s d i = bss d ! i"
    and "\<And>ci i. ci \<in> set cis \<Longrightarrow> i < n \<Longrightarrow>
      packets isal sub n cis bss s (ci_dstidx ci) i = item_value isal sub (packets isal sub n cis bss) s i ci"
proof -
  let ?inp = "\<lambda>i d. if d \<in> set (input_list cis) \<and> i < n then bss d ! i else replicate (nat sub) CHR 0x00"
  let ?items = "map (\<lambda>ci. (ci_dstidx ci, ci)) cis"
  have dist: "distinct (map fst ?items)" using ok by (simp add: items_ok_def o_def)
  have inp_len: "int (length (?inp i d)) = sub" for i d
    using q [of d] sub by (auto simp: queued_def list_all_iff)
  have "int (length (packets isal sub n cis bss s d i)) = sub" for s d i
  proof (cases "map_of ?items d")
    case (Some ci)
    have "list_all (\<lambda>bs. int (length bs) = sub) (map (?inp i) (ci_srclist ci))" using inp_len unfolding list_all_iff set_map by blast
    with law sub(1) Some show ?thesis by (simp add: packets_def Let_def isal_law_def)
  qed (use inp_len in \<open>simp add: packets_def Let_def\<close>)
  then show "pkt_len_ok (packets isal sub n cis bss) sub" using sub by (simp add: pkt_len_ok_def)
  have input: "packets isal sub n cis bss s d i = ?inp i d" if "d \<in> set (input_list cis)" for d i
  proof -
    have "map_of ?items d = None" using that ok by (auto simp: items_ok_def map_of_eq_None_iff)
    then show ?thesis by (simp add: packets_def Let_def)
  qed
  then show "packets isal sub n cis bss s d i = bss d ! i" if "d \<in> set (input_list cis)" "i < n" for d i
    using that by simp
  show "packets isal sub n cis bss s (ci_dstidx ci) i = item_value isal sub (packets isal sub n cis bss) s i ci"
    if ci: "ci \<in> set cis" "i < n" for ci i
  proof -
    have "map_of ?items (ci_dstidx ci) = Some ci"
      using ci(1) dist by (intro map_of_is_SomeI) auto
    moreover have "map (?inp i) (ci_srclist ci) = map (\<lambda>c. packets isal sub n cis bss s c i) (ci_srclist ci)"
    proof (rule map_cong [OF refl])
      fix c assume "c \<in> set (ci_srclist ci)"
      then have "c \<in> set (input_list cis)" using ci(1) by (auto simp: set_input_list)
      then show "?inp i c = packets isal sub n cis bss s c i" by (simp only: input)
    qed
    moreover have "length (ci_coefs ci) = length (ci_srclist ci)" using ex ci(1) by (auto simp: items_exact_def list_all_iff)
    ultimately show ?thesis
      unfolding item_value_def packets_def [of isal sub n cis bss s "ci_dstidx ci"] Let_def
      by (simp del: map_eq_conv)
  qed
qed

lemma queued_content:
  assumes ok: "items_ok m cis" and ex: "items_exact cis" and law: "isal_law isal" and sub: "0 < sub" "sub < 2 ^ 31"
    and q: "\<And>d. d \<in> set (input_list cis) \<Longrightarrow> queued w sub n s q d (bss d)"
    and c: "c \<in> Queue (localIp w) s ` set (input_list cis)"
  shows "take (length (whole 0 (packets isal sub n cis bss) (\<lambda>_ _. (0, [])) n c)) (q c) =
    whole 0 (packets isal sub n cis bss) (\<lambda>_ _. (0, [])) n c"
proof -
  let ?v = "whole 0 (packets isal sub n cis bss) (\<lambda>_ _. (0, [])) n"
  from c obtain d where d: "d \<in> set (input_list cis)" "c = Queue (localIp w) s d" by blast
  have "vertex_ok d" using ok d(1) by (auto simp: items_ok_def)
  then have v: "?v c = map (\<lambda>i. Packet (packet_of (bss d ! i))) [0..<n]"
    using packets_ok(2) [OF ok ex law sub q d(1)] by (simp add: d(2) whole_def concat_map_singleton)
  moreover have "map (\<lambda>i. Packet (packet_of (bss d ! i))) [0..<n] = map (\<lambda>bs. Packet (packet_of bs)) (bss d)"
    using q [OF d(1)] by (intro nth_equalityI) (simp_all add: queued_def)
  ultimately show ?thesis using q [OF d(1)] by (simp add: queued_def d(2))
qed

lemma one_by_one_ends:
  assumes "sizes_are w sub n" and "0 < sub" and "sub < 2 ^ 31" and "isal_law isal"
    and "items_ok m (compute_list t)" and "items_exact (compute_list t)"
    and "\<And>d. d \<in> set (input_list (compute_list t)) \<Longrightarrow> queued w sub n s q d (bss d)"
  shows "\<exists>q'. run_in_order [computeOneByOne isal w s m t] q = Inr q'"
proof -
  note pk = packets_ok [OF assms(5,6,4,2,3,7)]
  have "carries (whole 0 (packets isal sub n (compute_list t) bss) (\<lambda>_ _. (0, [])) n)
      (Queue (localIp w) s ` set (input_list (compute_list t)))
      (\<Union>ci\<in>set (compute_list t). used_chans w s (ci_dstidx ci) (ci_usage ci)) (computeOneByOne isal w s m t) ()"
    by (rule carries_compute [OF assms(1) pk(1) assms(5) pk(3)])
  from carries_run [OF this queued_content [OF assms(5,6,4,2,3,7)]] show ?thesis by simp
qed

text \<open>C38: The groups compute what the items compute: for items with new results, whose sources are
  queued, and if no two groups share a source, running the threads of \<open>computeGroups\<close> leaves every
  channel exactly as one \<open>computeOneByOne\<close> does; both end. Of ISA-L this uses that order and zero
  coefficients do not matter.\<close>

theorem compute_groups_agree:
  assumes "sizes_are w sub n" and "0 < sub" and "sub < 2 ^ 31" and "isal_law isal"
    and "items_ok m (compute_list t)" and "items_exact (compute_list t)"
    and "\<And>d. d \<in> set (input_list (compute_list t)) \<Longrightarrow> queued w sub n s q d (bss d)"
    and "\<And>cg cg'. cg \<in> set (compute_groups (computeGroupSize w) (compute_list t)) \<Longrightarrow>
      cg' \<in> set (compute_groups (computeGroupSize w) (compute_list t)) \<Longrightarrow> cg \<noteq> cg' \<Longrightarrow>
      set (cg_src cg) \<inter> set (cg_src cg') = {}"
  shows "run_in_order (computeGroups isal w s m t) q = run_in_order [computeOneByOne isal w s m t] q \<and>
    (\<exists>q'. run_in_order [computeOneByOne isal w s m t] q = Inr q')"
proof -
  let ?cis = "compute_list t" and ?gs = "compute_groups (computeGroupSize w) (compute_list t)"
  let ?pk = "packets isal sub n (compute_list t) bss"
  let ?v = "whole 0 ?pk (\<lambda>_ _. (0, [])) n"
  note pk = packets_ok [OF assms(5,6,4,2,3,7)]
  have gs: "groups_of ?cis ?gs" by (rule compute_groups_props)
  have dist: "distinct (map ci_dstidx ?cis)" using assms(5) by (simp add: items_ok_def)
  note D = groups_of_distinct [OF gs dist]
  let ?R = "\<lambda>cg. Queue (localIp w) s ` set (input_list (cg_list cg))"
  let ?W = "\<lambda>cg. \<Union>ci\<in>set (cg_list cg). used_chans w s (ci_dstidx ci) (ci_usage ci)"
  have src: "cg_src cg = input_list (cg_list cg)" if "cg \<in> set ?gs" for cg
    using gs that by (auto simp: groups_of_def list_all_iff group_ok_def)
  have list: "carries ?v (?R cg) (?W cg) (computeList isal w s m cg) ()" if cg: "cg \<in> set ?gs" for cg
  proof (rule carries_computeList [OF assms(1) pk(1) assms(4)])
    show "group_ok cg" by (simp add: group_ok_def src [OF cg])
    show "items_ok m (cg_list cg)" using D(2) [OF cg] by (intro items_ok_sub [OF assms(5)]) auto
    show "items_exact (cg_list cg)" using assms(6) D(2) [OF cg] by (auto simp: items_exact_def list_all_iff)
    show "?pk s (ci_dstidx ci) i = item_value isal sub ?pk s i ci" if "ci \<in> set (cg_list cg)" "i < n" for ci i
      using that D(2) [OF cg] by (intro pk(3)) auto
  qed
  have "set (concat (map cg_list ?gs)) = set ?cis" using gs by (metis groups_of_def mset_eq_setD)
  then have items': "(\<Union>cg\<in>set ?gs. set (cg_list cg)) = set ?cis" by simp
  have chans: "(\<Union>cg\<in>set ?gs. ?R cg) = Queue (localIp w) s ` set (input_list ?cis)"
    "(\<Union>cg\<in>set ?gs. ?W cg) = (\<Union>ci\<in>set ?cis. used_chans w s (ci_dstidx ci) (ci_usage ci))"
    unfolding set_input_list items' [symmetric] by blast+
  have "carries ?v (\<Union>cg\<in>set ?gs. ?R cg) (\<Union>cg\<in>set ?gs. ?W cg) (forP (\<lambda>cg _. computeList isal w s m cg) ?gs ()) ()"
  proof (rule carries_forP)
    fix cg cg' assume *: "cg \<in> set ?gs" "cg' \<in> set ?gs"
    have disj: "used_chans w s (ci_dstidx ci) u \<inter> Queue (localIp w) s ` set (input_list ?cis) = {}" if "ci \<in> set ?cis" for ci u
      using that assms(5) by (fastforce simp: items_ok_def used_chans_def split: if_splits)
    have "set (input_list (cg_list cg')) \<subseteq> set (input_list ?cis)" using D(2) [OF *(2)] by (auto simp: set_input_list)
    then show "?W cg \<inter> ?R cg' = {}" using D(2) [OF *(1)] disj by blast
    assume ne: "cg \<noteq> cg'"
    have "used_chans w s (ci_dstidx ci) (ci_usage ci) \<inter> used_chans w s (ci_dstidx cj) (ci_usage cj) = {}"
      if "ci \<in> set (cg_list cg)" "cj \<in> set (cg_list cg')" for ci cj
    proof -
      have "vertex_ok (ci_dstidx ci)" "vertex_ok (ci_dstidx cj)"
        using that D(2) [OF *(1)] D(2) [OF *(2)] assms(5) by (auto simp: items_ok_def)
      from used_keys_disjoint [OF this D(3) [OF * ne that], of "ci_usage ci" "ci_usage cj"]
      show ?thesis by (simp add: used_chans_keys image_Int [symmetric] inj_on_def)
    qed
    then show "?R cg \<inter> ?R cg' = {} \<and> ?W cg \<inter> ?W cg' = {}"
      using assms(8) [OF * ne] by (auto simp: src [OF *(1)] src [OF *(2)])
  qed (use D(1) list in auto)
  note grouped = this [unfolded chans]
  have single: "carries ?v (Queue (localIp w) s ` set (input_list ?cis))
      (\<Union>ci\<in>set ?cis. used_chans w s (ci_dstidx ci) (ci_usage ci)) (computeOneByOne isal w s m t) ()"
    by (rule carries_compute [OF assms(1) pk(1) assms(5) pk(3)])
  note start = queued_content [OF assms(5,6,4,2,3,7)]
  have "run (forP (\<lambda>cg _. computeList isal w s m cg) ?gs ()) q = run (computeOneByOne isal w s m t) q"
    by (rule carries_same_run [OF grouped single start])
  then show ?thesis
    using carries_run [OF single start] by (simp add: computeGroups_def run_in_order_forP)
qed

definition shared_conf :: worker_conf where
  "shared_conf = \<lparr>localIp = 1, blkBytes = 1, pktBytes = 1, conf_ecw = 1, agentsIPs = [1], repairIPs = [],
     blkDir = [], recvGroupSize = 1, computeGroupSize = 2\<rparr>"

definition shared_queues :: "(chan, item) chans" where
  "shared_queues = (\<lambda>_. [])(Queue 1 0 1 := [Packet (packet_of ''a'')], Queue 1 0 2 := [Packet (packet_of ''b'')])"

text \<open>A lawful library for the witnesses: sums of products of bytes.\<close>

definition isal_sum :: isal where
  "isal_sum len row srcs = map (\<lambda>i. char_of (\<Sum>(c, bs)\<leftarrow>zip row srcs. of_char c * (if i < length bs then of_char (bs ! i) else 0 :: nat)))
     [0..<nat len]"

lemma isal_law_sum: "isal_law isal_sum"
  unfolding isal_law_def
proof (intro conjI allI impI)
  fix len :: int and xs ys :: "(char \<times> string) list"
  assume eq: "filter_mset (\<lambda>p. fst p \<noteq> CHR 0x00) (mset xs) = filter_mset (\<lambda>p. fst p \<noteq> CHR 0x00) (mset ys)"
  have drop: "(\<Sum>p\<leftarrow>zs. f p) = sum_mset (image_mset f (filter_mset (\<lambda>p. fst p \<noteq> CHR 0x00) (mset zs)))"
    if "\<And>b. f (CHR 0x00, b) = 0" for f :: "char \<times> string \<Rightarrow> nat" and zs
    using that by (induction zs) auto
  have "(\<Sum>p\<leftarrow>xs. f p) = (\<Sum>p\<leftarrow>ys. f p)" if "\<And>b. f (CHR 0x00, b) = 0" for f :: "char \<times> string \<Rightarrow> nat"
    using drop [of f xs] drop [of f ys] eq that by simp
  then show "isal_sum len (map fst xs) (map snd xs) = isal_sum len (map fst ys) (map snd ys)"
    by (simp add: isal_sum_def zip_map_fst_snd)
next
  fix len :: int and row and srcs :: "string list" assume "0 \<le> len \<and> list_all (\<lambda>bs. int (length bs) = len) srcs"
  then show "int (length (isal_sum len row srcs)) = len" by (simp add: isal_sum_def)
qed

definition apart_task :: task where
  "apart_task = buildComputeTask 3
     [new_compute_item 10 [1] [1] (True, False), new_compute_item 11 [2] [1] (False, True)] (new_task 0 0)"

lemma compute_groups_agree_witness:
  "run_in_order (computeGroups isal_sum (shared_conf\<lparr>computeGroupSize := 1\<rparr>) 0 [1, 2, 10, -11] apart_task) shared_queues =
   run_in_order [computeOneByOne isal_sum (shared_conf\<lparr>computeGroupSize := 1\<rparr>) 0 [1, 2, 10, -11] apart_task] shared_queues"
proof -
  have gs: "compute_groups 1 (compute_list apart_task) =
      [\<lparr>cg_list = [new_compute_item 10 [1] [1] (True, False)], cg_src = [1]\<rparr>,
       \<lparr>cg_list = [new_compute_item 11 [2] [1] (False, True)], cg_src = [2]\<rparr>]"
    by (simp add: apart_task_def buildComputeTask_def compute_groups_def cg_match_def cg_add_def canMerge_def new_group_def
        new_compute_item_def add_color_def)
  have inputs: "input_list (compute_list apart_task) = [1, 2]"
    by (simp add: apart_task_def buildComputeTask_def input_list_def new_compute_item_def add_color_def)
  show ?thesis
  proof (rule compute_groups_agree [where sub = 1 and n = 1 and bss = "\<lambda>d. if d = 1 then [''a''] else [''b'']", THEN conjunct1])
    show "sizes_are (shared_conf\<lparr>computeGroupSize := 1\<rparr>) 1 1"
      by (simp add: sizes_are_def packet_sizes_def shared_conf_def)
    show "items_ok [1, 2, 10, -11] (compute_list apart_task)"
      unfolding items_ok_def inputs
      by (simp add: apart_task_def buildComputeTask_def new_compute_item_def vertex_ok_def REQUESTOR_def used_keys_def cache_key_def)
    show "items_exact (compute_list apart_task)"
      by (simp add: apart_task_def buildComputeTask_def new_compute_item_def items_exact_def)
    show "queued (shared_conf\<lparr>computeGroupSize := 1\<rparr>) 1 1 0 shared_queues d (if d = 1 then [''a''] else [''b''])"
      if "d \<in> set (input_list (compute_list apart_task))" for d
      using that unfolding inputs by (auto simp: queued_def shared_conf_def shared_queues_def)
    fix cg cg' assume "cg \<in> set (compute_groups (computeGroupSize (shared_conf\<lparr>computeGroupSize := 1\<rparr>)) (compute_list apart_task))"
      "cg' \<in> set (compute_groups (computeGroupSize (shared_conf\<lparr>computeGroupSize := 1\<rparr>)) (compute_list apart_task))" "cg \<noteq> cg'"
    then show "set (cg_src cg) \<inter> set (cg_src cg') = {}" by (auto simp: gs)
  qed (simp_all add: isal_law_sum)
qed

end
