(* ===== verification/Repair_Run.thy ===== *)
theory Repair_Run
  imports Repair_Wiring Worker_Groups
begin

text \<open>
  A batch of stripes, from \<open>genRepairTasks\<close> (src/src/common/Stripe.cc) to the threads that the agents run
  for it (\<open>repairBatch\<close> of src/src/common/Worker.cc): whatever the scheduler does, all threads end, all
  queues are empty again, and the files hold the packets of the repaired blocks.
\<close>

section \<open>The packets of a stripe\<close>

definition vertex_value :: "isal \<Rightarrow> int \<Rightarrow> (int \<Rightarrow> int \<Rightarrow> nat \<Rightarrow> string) \<Rightarrow> stripe \<Rightarrow> int \<Rightarrow> nat \<Rightarrow> string" where
  \<comment> \<open>what the DAG makes of the packets of a vertex's children\<close>
  "vertex_value isal sub pk s v i =
     isal sub (map char_of (coefs_of (s_ecdag s) v @ replicate (length (children_of (s_ecdag s) v) - length (coefs_of (s_ecdag s) v)) 0))
       (map (\<lambda>c. pk (stripe_id s) c i) (children_of (s_ecdag s) v))"

definition stripe_data :: "isal \<Rightarrow> disk \<Rightarrow> worker_conf \<Rightarrow> (int \<Rightarrow> int \<Rightarrow> nat \<Rightarrow> string) \<Rightarrow> int \<Rightarrow> nat \<Rightarrow> int list list \<Rightarrow> stripe \<Rightarrow> bool" where
  \<comment> \<open>\<open>pk\<close> is the data of the stripe: the leaves are on the disks, shortened vertices are zero, and the others
    are computed from their children\<close>
  "stripe_data isal disk w pk sub n Ls s \<longleftrightarrow>
     (\<forall>v\<in>set (hd Ls). color_of (coloring s) v \<noteq> -1 \<longrightarrow>
        on_disk (agent w (color_of (coloring s) v)) disk pk sub (stripe_id s) (blklist s ! nat (v div conf_ecw w)) v n) \<and>
     (\<forall>v\<in>set (concat (butlast Ls)). color_of (coloring s) v = -1 \<longrightarrow> (\<forall>i<n. pk (stripe_id s) v i = replicate (nat sub) CHR 0x00)) \<and>
     (\<forall>v\<in>set (concat (tl (butlast Ls))). color_of (coloring s) v \<noteq> -1 \<longrightarrow> (\<forall>i<n. pk (stripe_id s) v i = vertex_value isal sub pk s v i))"

definition on_nodes :: "int set \<Rightarrow> stripe \<Rightarrow> bool" where
  "on_nodes A s \<longleftrightarrow> (\<forall>v\<in>set (node_ids (s_ecdag s)). color_of (coloring s) v \<noteq> -1 \<longrightarrow> color_of (coloring s) v \<in> A)"

definition collected :: "worker_conf \<Rightarrow> (nat \<Rightarrow> string \<Rightarrow> int \<times> int list) \<Rightarrow> int list list \<Rightarrow> stripe \<Rightarrow> bool" where
  \<comment> \<open>\<open>coll\<close>: the sub-packets that make up a repaired block's file\<close>
  "collected w coll Ls s \<longleftrightarrow> (\<forall>v\<in>set (last Ls). \<forall>ip name.
     repair_file (agent w (color_of (coloring s) v)) (blklist s ! nat (REQUESTOR - v)) = File ip name \<longrightarrow>
     coll ip name = (stripe_id s, children_of (s_ecdag s) v))"

section \<open>Every task fits\<close>

lemma in_level:
  assumes dep: "deployed ecn ecw Ls s" and k: "Suc k < length Ls" and v: "v \<in> set (Ls ! k)"
  shows "vertex_ok v" "length (coefs_of (s_ecdag s) v) \<le> length (children_of (s_ecdag s) v)" "v \<in> set (concat (butlast Ls))"
    "k \<noteq> 0 \<Longrightarrow> v \<in> set (concat (tl (butlast Ls)))" "k = 0 \<Longrightarrow> v \<in> set (hd Ls)"
proof -
  have b: "Ls ! k \<in> set (butlast Ls)" using k by (auto simp: in_set_conv_nth nth_butlast intro!: exI [of _ k])
  then show "vertex_ok v" "length (coefs_of (s_ecdag s) v) \<le> length (children_of (s_ecdag s) v)" "v \<in> set (concat (butlast Ls))"
    using deployedD(9,10) [OF dep b v] v by auto
  show "v \<in> set (concat (tl (butlast Ls)))" if "k \<noteq> 0"
  proof -
    have "tl (butlast Ls) ! (k - 1) = Ls ! k" "k - 1 < length (tl (butlast Ls))" using that k by (auto simp: nth_tl nth_butlast)
    then have "Ls ! k \<in> set (tl (butlast Ls))" by (metis nth_mem)
    then show ?thesis using v by auto
  qed
  show "v \<in> set (hd Ls)" if "k = 0" using that k v by (cases Ls) auto
qed

lemma lower_ok:
  assumes dep: "deployed ecn ecw Ls s" and k: "k < length Ls" and c: "c \<in> lower Ls k"
  shows "vertex_ok c"
proof -
  obtain j where j: "j < k" "j < length Ls" "c \<in> set (Ls ! j)" using c by (auto simp: lower_nth)
  then have "Suc j < length Ls" using k by simp
  from in_level(1) [OF dep this j(3)] show ?thesis .
qed

lemma color_on: "on_nodes A s \<Longrightarrow> v \<in> set (node_ids (s_ecdag s)) \<Longrightarrow> color_of (coloring s) v \<noteq> -1 \<Longrightarrow> color_of (coloring s) v \<in> A"
  by (simp add: on_nodes_def)

lemma group_distinct: "(k, l) \<in> set (groups ps) \<Longrightarrow> distinct ps \<Longrightarrow> distinct l"
  using distinct_push_items by blast

lemma pairs_distinct:
  assumes "distinct vs"
  shows "distinct (work_pairs key vs)" "distinct (send_pairs g cl vs)" "distinct (recv_pairs g cl vs)" "distinct (zero_pairs g cl vs)"
proof -
  have "distinct (concat (map (\<lambda>v. map (\<lambda>b. (b, v)) (f v)) vs))" if "\<And>v. distinct (f v)" for f :: "int \<Rightarrow> int list"
    using assms that by (induction vs) (auto simp: distinct_map inj_on_def)
  then show "distinct (work_pairs key vs)" "distinct (send_pairs g cl vs)" "distinct (recv_pairs g cl vs)" "distinct (zero_pairs g cl vs)"
    using assms remote_distinct zero_nodes_props(1)
    by (auto simp: work_pairs_def send_pairs_def recv_pairs_def zero_pairs_def distinct_map inj_on_def)
qed

lemma level_distinct: "deployed ecn ecw Ls s \<Longrightarrow> k < length Ls \<Longrightarrow> distinct (Ls ! k)"
  using levels_from_props [OF deployedD(2)] dag_okD(1) [OF wf_ecdag_ok [OF deployedD(1)]] by (fastforce simp: distinct_concat_iff)

lemma moves_fit:
  assumes dep: "deployed ecn ecw Ls s" and A: "on_nodes A s" and data: "stripe_data isal disk w pk sub n Ls s"
    and k: "Suc k < length Ls" and e: "(a, t) \<in> set (moves_emits b s (Ls ! k))"
  shows "task_fits isal disk w pk sub n A coll (stripe_id s) a t"
proof -
  let ?g = "s_ecdag s" and ?cl = "coloring s" and ?L = "Ls ! k"
  have k': "k < length Ls" using k by simp
  have real: "v \<in> set ?L \<and> color_of ?cl v \<noteq> -1" if "v \<in> set (reals s ?L)" for v using that by (simp add: reals_def)
  have blank: "v \<in> set ?L \<and> color_of ?cl v = -1" if "v \<in> set (blanks s ?L)" for v using that by (simp add: blanks_def)
  have dist: "distinct (reals s ?L)" "distinct (blanks s ?L)" using level_distinct [OF dep k'] by (simp_all add: reals_def blanks_def)
  note pd = pairs_distinct [OF dist(1)] pairs_distinct [OF dist(2)]
  have parent: "color_of ?cl p \<in> A" if "v \<in> set ?L" "p \<in> set (parents_of ?g v)" "color_of ?cl p \<noteq> -1" for v p
    using color_on [OF A, of p] level_facts(4) [OF dep k' that(1,2)] that(3) by blast
  have rem: "x \<in> A" if "v \<in> set (reals s ?L)" "x \<in> set (remote ?g ?cl v)" for v x
  proof -
    from that(2) obtain p where "p \<in> set (parents_of ?g v)" "x = color_of ?cl p" unfolding set_remote by blast
    then show ?thesis using parent [of v p] level_facts(5) [OF dep k', of v p] real [OF that(1)] by simp
  qed
  have ok: "vertex_ok v" if "v \<in> set ?L" for v using in_level(1) [OF dep k that] .
  from e consider l where "(a, l) \<in> set (groups (send_pairs ?g ?cl (reals s ?L)))" "t = snd (send_emit b s (a, l))"
    | l where "(a, l) \<in> set (groups (recv_pairs ?g ?cl (reals s ?L)))" "t = snd (recv_emit b s (a, l))"
    | l where "(a, l) \<in> set (groups (zero_pairs ?g ?cl (blanks s ?L)))" "t = snd (zero_emit b s (a, l))"
    by (auto simp: moves_emits_def send_emit_def recv_emit_def zero_emit_def)
  then show ?thesis
  proof cases
    case (1 l)
    note mem = group_mem [OF 1(1)]
    have v: "v \<in> set (reals s ?L) \<and> a = color_of ?cl v" if "v \<in> set l" for v using mem that by (simp add: pair_mem)
    obtain v where hd: "v \<in> set l" using group_nonempty [OF 1(1)] by (cases l) auto
    have "a \<in> A" using color_on [OF A level_facts(1) [OF dep k', of v]] v [OF hd] real by simp
    moreover have "list_all vertex_ok l" using v real ok by (simp add: list_all_iff)
    moreover have "distinct l" using group_distinct [OF 1(1) pd(2)] .
    moreover have "\<forall>d\<in>set l. distinct (remote ?g ?cl d) \<and> set (remote ?g ?cl d) \<subseteq> A" using rem v remote_distinct by blast
    ultimately show ?thesis by (auto simp: task_fits_def 1(2) send_emit_def send_fits_def)
  next
    case (2 l)
    note mem = group_mem [OF 2(1)]
    have v: "v \<in> set (reals s ?L) \<and> a \<in> set (remote ?g ?cl v)" if "v \<in> set l" for v using mem that by (simp add: pair_mem)
    obtain v where hd: "v \<in> set l" using group_nonempty [OF 2(1)] by (cases l) auto
    have "a \<in> A" using rem v [OF hd] by blast
    moreover have "list_all vertex_ok l" using v real ok by (simp add: list_all_iff)
    ultimately show ?thesis using group_distinct [OF 2(1) pd(3)] by (simp add: task_fits_def 2(2) recv_emit_def)
  next
    case (3 l)
    note mem = group_mem [OF 3(1)]
    have v: "v \<in> set (blanks s ?L) \<and> a \<in> set (zero_nodes ?g ?cl v)" if "v \<in> set l" for v using mem that by (simp add: pair_mem)
    obtain v where hd: "v \<in> set l" using group_nonempty [OF 3(1)] by (cases l) auto
    have "a \<in> color_of ?cl ` set (parents_of ?g v) - {-1}" using v [OF hd] by (simp add: zero_nodes_props)
    then have "a \<in> A" using parent [of v] blank [of v] v [OF hd] by auto
    moreover have "list_all vertex_ok l" using v blank ok by (simp add: list_all_iff)
    moreover have "pk (stripe_id s) d i = replicate (nat sub) CHR 0x00" if "d \<in> set l" "i < n" for d i
    proof -
      have "d \<in> set ?L" "color_of ?cl d = -1" using v [OF that(1)] blank by blast+
      then show ?thesis using in_level(3) [OF dep k] data that(2) unfolding stripe_data_def by blast
    qed
    ultimately show ?thesis
      using group_distinct [OF 3(1) pd(8)] by (simp add: task_fits_def 3(2) zero_emit_def read_fits_def)
  qed
qed


lemma work_fit:
  assumes dep: "deployed ecn (conf_ecw w) Ls s" and A: "on_nodes A s" and data: "stripe_data isal disk w pk sub n Ls s"
    and k: "Suc k < length Ls" and e: "(a, t) \<in> set (work_emits b (conf_ecw w) s Ls k)"
  shows "task_fits isal disk w pk sub n A coll (stripe_id s) a t"
proof -
  let ?g = "s_ecdag s" and ?cl = "coloring s" and ?L = "Ls ! k"
  have k': "k < length Ls" using k by simp
  have real: "v \<in> set ?L \<and> color_of ?cl v \<noteq> -1" if "v \<in> set (reals s ?L)" for v using that by (simp add: reals_def)
  have "distinct (reals s ?L)" using level_distinct [OF dep k'] by (simp add: reals_def)
  note pd = pairs_distinct(1) [OF this]
  have ok: "vertex_ok v" if "v \<in> set ?L" for v using in_level(1) [OF dep k that] .
  have node: "color_of ?cl v \<in> A" if "v \<in> set (reals s ?L)" for v
    using color_on [OF A level_facts(1) [OF dep k', of v]] real [OF that] by blast
  show ?thesis
  proof (cases "k = 0")
    case True
    then obtain j l where l: "(j, l) \<in> set (groups (work_pairs (\<lambda>v. v div conf_ecw w) (reals s ?L)))"
      "a = color_of ?cl (hd l)" "t = snd (read_emit b s (j, l))"
      using e by (auto simp: work_emits_def read_emit_def)
    have v: "v \<in> set (reals s ?L) \<and> j = v div conf_ecw w" if "v \<in> set l" for v using group_mem [OF l(1)] that by (simp add: pair_mem)
    have hd: "hd l \<in> set l" using group_nonempty [OF l(1)] by simp
    have lev0: "v \<in> set (hd Ls)" if "v \<in> set l" for v using in_level(5) [OF dep k, of v] v [OF that] real True by blast
    have home: "color_of ?cl v = a" if "v \<in> set l" for v
      unfolding l(2) using deployedD(8) [OF dep lev0 [OF that] lev0 [OF hd]] v [OF that] v [OF hd] by simp
    have "on_disk (agent w a) disk pk sub (stripe_id s) (blklist s ! nat j) v n" if "v \<in> set l" for v
    proof -
      have "color_of ?cl v \<noteq> -1" "j = v div conf_ecw w" using v [OF that] real by blast+
      with data lev0 [OF that] home [OF that] show ?thesis unfolding stripe_data_def by metis
    qed
    moreover have "inj_on (\<lambda>d. d mod conf_ecw w) (set l)"
    proof (rule inj_onI)
      fix u u' assume "u \<in> set l" "u' \<in> set l" "u mod conf_ecw w = u' mod conf_ecw w"
      then show "u = u'" using v [of u] v [of u'] by (metis mult_div_mod_eq)
    qed
    moreover have "blklist s ! nat j \<noteq> ''ZERO''"
    proof -
      have "nat j < length (blklist s)" using deployable_leaf(4) [OF dep lev0 [OF hd]] v [OF hd] real by simp
      then show ?thesis using deployedD(6) [OF dep] nth_mem by metis
    qed
    moreover have "distinct l" using group_distinct [OF l(1) pd] .
    moreover have "list_all vertex_ok l" using v real ok by (simp add: list_all_iff)
    moreover have "a \<in> A" using node v [OF hd] l(2) by simp
    ultimately show ?thesis by (simp add: task_fits_def l(3) read_emit_def read_fits_def list_all_iff) blast
  next
    case False
    then obtain l where l: "(a, l) \<in> set (groups (work_pairs (color_of ?cl) (reals s ?L)))" "t = snd (compute_emit b s (a, l))"
      using e by (auto simp: work_emits_def compute_emit_def)
    have v: "v \<in> set (reals s ?L) \<and> a = color_of ?cl v" if "v \<in> set l" for v using group_mem [OF l(1)] that by (simp add: pair_mem)
    have hd: "hd l \<in> set l" using group_nonempty [OF l(1)] by simp
    let ?item = "\<lambda>v. new_compute_item v (children_of ?g v) (coefs_of ?g v) (use_of ?g ?cl v)"
    have cis: "compute_list t = map ?item l" by (simp add: l(2) compute_emit_def)
    have inputs: "set (input_list (compute_list t)) = (\<Union>v\<in>set l. set (children_of ?g v))" by (simp add: set_input_list cis)
    have below: "c \<in> lower Ls k" if "c \<in> set (input_list (compute_list t))" for c
    proof -
      from that obtain v where "v \<in> set l" "c \<in> set (children_of ?g v)" by (auto simp: inputs)
      then show ?thesis using level_facts(3) [OF dep k', of v c] v real by blast
    qed
    have "list_all vertex_ok (input_list (compute_list t))" using below lower_ok [OF dep k'] by (simp add: list_all_iff)
    moreover have "d \<notin> set (input_list (compute_list t))" if "d \<in> set l" for d
      using below [of d] level_facts(2) [OF dep k', of d] v [OF that] real by blast
    moreover have "length (coefs_of ?g d) \<le> length (children_of ?g d)" "vertex_ok d" if "d \<in> set l" for d
      using in_level(1,2) [OF dep k, of d] v [OF that] real by blast+
    moreover have "pk (stripe_id s) d i = item_value isal sub pk (stripe_id s) i (?item d)" if "d \<in> set l" "i < n" for d i
    proof -
      have "d \<in> set ?L" "color_of ?cl d \<noteq> -1" using v [OF that(1)] real by blast+
      then have "pk (stripe_id s) d i = vertex_value isal sub pk s d i"
        using in_level(4) [OF dep k _ False] data that(2) unfolding stripe_data_def by blast
      then show ?thesis by (simp add: vertex_value_def item_value_def)
    qed
    moreover have "distinct (map ci_dstidx (compute_list t))" using group_distinct [OF l(1) pd] by (simp add: cis comp_def)
    ultimately have "compute_fits isal pk sub n (stripe_id s) t" unfolding compute_fits_def by (simp add: cis)
    moreover have "a \<in> A" using node v [OF hd] by metis
    ultimately show ?thesis by (simp add: task_fits_def l(2) compute_emit_def)
  qed
qed

lemma emits_fit:
  assumes dep: "deployed ecn (conf_ecw w) Ls s" and A: "on_nodes A s" and data: "stripe_data isal disk w pk sub n Ls s"
    and coll: "collected w coll Ls s" and e: "(a, t) \<in> set (stripe_emits b (conf_ecw w) s Ls)"
  shows "task_fits isal disk w pk sub n A coll (stripe_id s) a t"
proof -
  obtain k where k: "k < length Ls" "(a, t) \<in> set (level_emits b (conf_ecw w) s Ls k)" using e by (auto simp: stripe_emits_def)
  show ?thesis
  proof (cases "Suc k < length Ls")
    case True
    then have "(a, t) \<in> set (work_emits b (conf_ecw w) s Ls k) \<or> (a, t) \<in> set (moves_emits b s (Ls ! k))"
      using k(2) by (simp add: level_emits_parts)
    then show ?thesis using work_fit [OF dep A data True] moves_fit [OF dep A data True] by blast
  next
    case False
    have last: "k = length Ls - 1" "k \<noteq> 0" using False k(1) deployedD(3) [OF dep] by auto
    then have "Ls ! k = last Ls" using k(1) by (metis last_conv_nth length_0_conv not_less_zero)
    then obtain v where v: "v \<in> set (last Ls)" "v \<in> set (Ls ! k)" "a = color_of (coloring s) v" "t = snd (persist_emit b s v)"
      using k(2) last by (auto simp: level_emits_def persist_emit_def)
    have ok: "vertex_ok c" if "c \<in> set (children_of (s_ecdag s) v)" for c
      using lower_ok [OF dep k(1)] level_facts(3) [OF dep k(1) v(2) that] by blast
    have "a \<in> A" using color_on [OF A level_facts(1) [OF dep k(1) v(2)]] deployedD(7) [OF dep v(1)] v(3) by simp
    moreover have "distinct (children_of (s_ecdag s) v)" using dag_okD(2) [OF wf_ecdag_ok [OF deployedD(1) [OF dep]]] .
    ultimately show ?thesis
      using coll v(1,3) ok by (auto simp: task_fits_def v(4) persist_emit_def collected_def list_all_iff)
  qed
qed


section \<open>The threads of a batch\<close>

lemma mset_push:
  assumes "um_wf m"
  shows "mset (concat (map (\<lambda>(k, l). map (f k) l) (um_push k x m))) = add_mset (f k x) (mset (concat (map (\<lambda>(k, l). map (f k) l) m)))"
  using assms
proof (induction m)
  case (Cons p m)
  show ?case
  proof (cases "fst p = k")
    case True
    then show ?thesis by (cases p) (simp add: um_push_def um_put_def um_get_def)
  next
    case False
    then have "um_push k x (p # m) = p # um_push k x m" by (cases p) (simp add: um_push_def um_put_def um_get_def)
    then show ?thesis using Cons by (cases p) (simp add: um_keys_def)
  qed
qed (simp add: um_push_def um_put_def um_get_def)

lemma mset_groups: "mset (concat (map (\<lambda>(k, l). map (f k) l) (groups ps))) = mset (map (\<lambda>(k, v). f k v) ps)"
proof -
  have "mset (concat (map (\<lambda>(k, l). map (f k) l) (push_pairs ps m))) = mset (concat (map (\<lambda>(k, l). map (f k) l) m)) + mset (map (\<lambda>(k, v). f k v) ps)"
    if "um_wf m" for m
    using that by (induction ps arbitrary: m) (auto simp: mset_push simp del: mset_concat)
  from this [of "[]"] show ?thesis by simp
qed

lemma mapR_indices:
  assumes "\<And>j. j < length l \<Longrightarrow> f (int j) = h (l ! j)"
  shows "mapR f (map int [0..<length l]) = mapR h l"
proof -
  have "mapR f (map int [0..<length l]) = mapR (\<lambda>i. bindR (vget l i) h) (map int [0..<length l])"
    using assms by (intro mapR_cong) auto
  then show ?thesis by (simp add: mapR_vget)
qed

lemma mapR_ex:
  assumes "\<And>x. x \<in> set xs \<Longrightarrow> \<exists>ys. f x = Inr ys \<and> mset ys = mset (g x)"
  shows "\<exists>yss. mapR f xs = Inr yss \<and> mset (concat yss) = mset (concat (map g xs))"
  using assms
proof (induction xs)
  case (Cons x xs)
  then obtain ys yss where "f x = Inr ys" "mset ys = mset (g x)" "mapR f xs = Inr yss" "mset (concat yss) = mset (concat (map g xs))"
    by (metis list.set_intros(1,2))
  then show ?case by (simp del: mset_concat)
qed simp

lemma repairBatch_threads:
  assumes ids: "nb_stripe_ids nb = map sid l" "distinct (map sid l)" and b: "nb_batch_id nb = b"
    and nums: "nb_nums nb = map (\<lambda>i. int (length (T i))) l"
    and T: "\<And>i. i \<in> set l \<Longrightarrow> um_get [] (nb_taskmap nb) (sid i) = T i"
    and M: "\<And>i. i \<in> set l \<Longrightarrow> foldR prepareDataMap (T i) [] = Inr (M i)"
    and types: "\<And>i. i \<in> set l \<Longrightarrow> list_all (\<lambda>t. \<exists>k\<in>{0..4}. ttype t = Some k) (T i)"
  shows "\<exists>ths. repairBatch isal disk w nb = Inr ths \<and>
    mset ths = mset (concat (map (\<lambda>i. map (thread_of isal disk w b (sid i) (M i)) (T i)) l))"
proof -
  let ?step = "\<lambda>stripeid dms. bindR (foldR prepareDataMap (um_get [] (nb_taskmap nb) stripeid) []) (\<lambda>curmap. Inr (um_insert stripeid curmap dms))"
  have "\<exists>dms. foldR ?step (map sid l') dms0 = Inr dms \<and> (\<forall>i\<in>set l'. um_get [] dms (sid i) = M i) \<and>
      (\<forall>k. k \<notin> sid ` set l' \<longrightarrow> um_get [] dms k = um_get [] dms0 k)"
    if "set l' \<subseteq> set l" "distinct (map sid l')" "sid ` set l' \<inter> set (um_keys dms0) = {}" for l' dms0
    using that
  proof (induction l' arbitrary: dms0)
    case (Cons i l')
    have i: "\<not> um_has dms0 (sid i)" using Cons.prems(3) by (simp add: um_has_def)
    have "\<exists>dms. foldR ?step (map sid l') (um_insert (sid i) (M i) dms0) = Inr dms \<and> (\<forall>i\<in>set l'. um_get [] dms (sid i) = M i) \<and>
      (\<forall>k. k \<notin> sid ` set l' \<longrightarrow> um_get [] dms k = um_get [] (um_insert (sid i) (M i) dms0) k)"
      using Cons.prems by (intro Cons.IH) (auto simp: um_keys_insert)
    then obtain dms where "foldR ?step (map sid l') (um_insert (sid i) (M i) dms0) = Inr dms" "\<forall>i\<in>set l'. um_get [] dms (sid i) = M i"
      "\<forall>k. k \<notin> sid ` set l' \<longrightarrow> um_get [] dms k = um_get [] (um_insert (sid i) (M i) dms0) k" by blast
    then show ?case using Cons.prems T [of i] M [of i] i by (intro exI [of _ dms]) (auto simp: um_get_insert_new)
  qed simp
  from this [of l "[]"] ids(2) obtain dms where
    dms: "batch_maps nb = Inr dms" "\<And>i. i \<in> set l \<Longrightarrow> um_get [] dms (sid i) = M i" by (auto simp: batch_maps_def ids(1))
  let ?run = "\<lambda>i. repairStripe isal disk w b (sid i) (um_get [] dms (sid i)) (int (length (T i))) (um_get [] (nb_taskmap nb) (sid i))"
  have "mapR (\<lambda>j. bindR (vget (nb_stripe_ids nb) j) (\<lambda>stripeid. bindR (vget (nb_nums nb) j) (\<lambda>tasknum.
        repairStripe isal disk w (nb_batch_id nb) stripeid (um_get [] dms stripeid) tasknum (um_get [] (nb_taskmap nb) stripeid))))
      (map int [0..<length (nb_stripe_ids nb)]) = mapR ?run l"
    unfolding ids(1) length_map by (rule mapR_indices) (simp add: nums b)
  moreover have "\<exists>ths. ?run i = Inr ths \<and> mset ths = mset (map (thread_of isal disk w b (sid i) (M i)) (T i))" if "i \<in> set l" for i
    using repairStripe_threads [OF types [OF that], of isal disk w b "sid i" "M i"] T [OF that] dms(2) [OF that] by simp
  then have "\<exists>thss. mapR ?run l = Inr thss \<and> mset (concat thss) = mset (concat (map (\<lambda>i. map (thread_of isal disk w b (sid i) (M i)) (T i)) l))"
    by (rule mapR_ex)
  ultimately show ?thesis by (auto simp: repairBatch_def dms(1))
qed


section \<open>The tasks of a batch on the nodes\<close>

definition planned :: "int umap \<Rightarrow> stripe \<Rightarrow> stripe" where
  \<comment> \<open>the stripe with the failed nodes replaced in its colouring\<close>
  "planned f2r s = s\<lparr>coloring := remap_colors f2r (coloring s)\<rparr>"

lemma planned_fields [simp]:
  "s_ecdag (planned f2r s) = s_ecdag s" "stripe_id (planned f2r s) = stripe_id s" "blklist (planned f2r s) = blklist s"
  "coloring (planned f2r s) = remap_colors f2r (coloring s)"
  by (simp_all add: planned_def)

definition levels :: "stripe \<Rightarrow> int list list" where
  "levels s = the (genLeveledTopologicalSorting (s_ecdag s))"

lemma genRepairTasks_groups:
  assumes dep: "deployed ecn ecw (levels s) (planned f2r s)" and empty: "taskmap s = []"
  shows "\<exists>s'. genRepairTasks b ecn eck ecw f2r s = Inr s' \<and>
    taskmap s' = groups (stripe_emits b ecw (planned f2r s) (levels s)) \<and> stripe_id s' = stripe_id s"
proof -
  have wf: "wf_ecdag (s_ecdag s)" using deployedD(1) [OF dep] by simp
  then have "genLeveledTopologicalSorting (s_ecdag s) = Some (levels s)"
    using genLeveled_returns [OF wf] by (auto simp: levels_def)
  from genRepairTasks_emits [OF wf this, of ecn ecw f2r b eck] deployedD(4) [OF dep] empty show ?thesis
    by (auto simp: planned_def)
qed

definition index_pairs :: "(nat \<Rightarrow> stripe) \<Rightarrow> nat \<Rightarrow> (int \<times> int) list" where
  \<comment> \<open>each node that has tasks of the \<open>i\<close>-th stripe\<close>
  "index_pairs S k = concat (map (\<lambda>i. map (\<lambda>item. (fst item, int i)) (taskmap (S i))) [0..<k])"

lemma batch_stripes_fold:
  fixes S :: "nat \<Rightarrow> stripe"
  assumes dist: "distinct ps" and range: "\<And>p. p \<in> set ps \<Longrightarrow> 0 \<le> p \<and> nat p < length st"
    and gen: "\<And>i. i < length ps \<Longrightarrow> genRepairTasks b ecn eck ecw f2r (st ! nat (ps ! i)) = Inr (S i)"
    and k: "k \<le> length ps"
  shows "\<exists>st'. foldR (batch_stripe b ecn eck ecw f2r) (zip (map int [0..<k]) (take k ps)) (st, []) = Inr (st', groups (index_pairs S k)) \<and>
    length st' = length st \<and> (\<forall>i<k. st' ! nat (ps ! i) = S i) \<and> (\<forall>i<length ps. k \<le> i \<longrightarrow> st' ! nat (ps ! i) = st ! nat (ps ! i))"
  using k
proof (induction k)
  case (Suc k)
  then obtain st1 where st1: "foldR (batch_stripe b ecn eck ecw f2r) (zip (map int [0..<k]) (take k ps)) (st, []) = Inr (st1, groups (index_pairs S k))"
    "length st1 = length st" "\<And>i. i < k \<Longrightarrow> st1 ! nat (ps ! i) = S i" "\<And>i. i < length ps \<Longrightarrow> k \<le> i \<Longrightarrow> st1 ! nat (ps ! i) = st ! nat (ps ! i)"
    by auto
  have kl: "k < length ps" using Suc.prems by simp
  have p: "0 \<le> ps ! k" "nat (ps ! k) < length st" using range [of "ps ! k"] kl by simp_all
  have other: "nat (ps ! i) \<noteq> nat (ps ! k)" if "i < length ps" "i \<noteq> k" for i
  proof -
    have "0 \<le> ps ! i" using range [of "ps ! i"] that(1) by simp
    then show ?thesis using p(1) dist that kl by (simp add: nth_eq_iff_index_eq nat_eq_iff2)
  qed
  let ?st = "st1[nat (ps ! k) := S k]"
  have idx: "fold (\<lambda>item. um_push (fst item) (int k)) (taskmap (S k)) (groups (index_pairs S k)) = groups (index_pairs S (Suc k))"
    using push_pairs_map [of "\<lambda>item. (fst item, int k)" "taskmap (S k)" "groups (index_pairs S k)"] by (simp add: index_pairs_def)
  have "batch_stripe b ecn eck ecw f2r (int k, ps ! k) (st1, groups (index_pairs S k)) = Inr (?st, groups (index_pairs S (Suc k)))"
    using p gen [OF kl] idx by (simp add: batch_stripe_def st1(2) st1(4) [OF kl order_refl])
  moreover have "zip (map int [0..<Suc k]) (take (Suc k) ps) = zip (map int [0..<k]) (take k ps) @ [(int k, ps ! k)]"
    using kl by (simp add: take_Suc_conv_app_nth)
  ultimately have "foldR (batch_stripe b ecn eck ecw f2r) (zip (map int [0..<Suc k]) (take (Suc k) ps)) (st, []) = Inr (?st, groups (index_pairs S (Suc k)))"
    using st1(1) by (simp add: foldR_append del: upt_Suc)
  moreover have "?st ! nat (ps ! i) = S i" if "i < Suc k" for i
    using that st1(2,3) p(2) other [of i] kl by (cases "i = k") (auto simp: less_Suc_eq)
  moreover have "?st ! nat (ps ! i) = st ! nat (ps ! i)" if "i < length ps" "Suc k \<le> i" for i
    using that st1(4) [of i] other [of i] by simp
  ultimately show ?case using st1(2) by (intro exI [of _ ?st]) simp
qed (simp add: index_pairs_def)

lemma um_inserts_get:
  assumes "distinct (map f ss)" and "s \<in> set ss"
  shows "um_get d (fold (\<lambda>s. um_insert (f s) (g s)) ss []) (f s) = g s"
proof -
  have "um_get d (fold (\<lambda>s. um_insert (f s) (g s)) ss m) k = (if k \<in> set (um_keys m) then um_get d m k
      else case find (\<lambda>s. f s = k) ss of None \<Rightarrow> d | Some s \<Rightarrow> g s)" for m k
  proof (induction ss arbitrary: m)
    case Nil
    then show ?case by (auto simp: um_get_def um_has_iff [unfolded um_has_def])
  next
    case (Cons s ss)
    then show ?case by (auto simp: um_keys_insert um_get_def map_of_um_insert um_has_iff [unfolded um_has_def])
  qed
  moreover have "find (\<lambda>s'. f s' = f s) ss = Some s"
    using assms by (induction ss) auto
  ultimately show ?thesis by simp
qed

lemma node_tasks_ok:
  fixes S :: "nat \<Rightarrow> stripe"
  assumes st: "\<And>i. i \<in> set l \<Longrightarrow> 0 \<le> i \<and> nat i < length (rb_stripes b) \<and> 0 \<le> rb_stripes b ! nat i \<and>
      nat (rb_stripes b ! nat i) < length st \<and> st ! nat (rb_stripes b ! nat i) = S (nat i)"
    and ip: "agent_ip agents repairs a = Inr ip" and dist: "distinct (map (\<lambda>i. stripe_id (S (nat i))) l)"
    and has: "\<And>i. i \<in> set l \<Longrightarrow> a \<in> set (um_keys (taskmap (S (nat i))))"
  shows "\<exists>nb. node_tasks agents repairs st b (a, l) = Inr (a, nb) \<and> nb_batch_id nb = rb_id b \<and> nb_ip nb = ip \<and>
    nb_stripe_ids nb = map (\<lambda>i. stripe_id (S (nat i))) l \<and>
    nb_nums nb = map (\<lambda>i. int (length (um_get [] (taskmap (S (nat i))) a))) l \<and>
    (\<forall>i\<in>set l. um_get [] (nb_taskmap nb) (stripe_id (S (nat i))) = um_get [] (taskmap (S (nat i))) a)"
proof -
  let ?ss = "map (\<lambda>i. S (nat i)) l"
  let ?nb = "new_NodeBatchTask (rb_id b) (map stripe_id ?ss) (map (\<lambda>s. int (getTaskNumForNodeId a s)) ?ss)
         (fold (\<lambda>s. um_insert (stripe_id s) (getTaskForNodeId a s)) ?ss []) ip"
  have "mapR (\<lambda>ii. bindR (vget (rb_stripes b) ii) (vget st)) l = Inr ?ss"
    using st by (intro mapR_pure) auto
  then have "node_tasks agents repairs st b (a, l) = Inr (a, ?nb)" using ip by (simp add: node_tasks_def)
  moreover have "um_get [] (fold (\<lambda>s. um_insert (stripe_id s) (getTaskForNodeId a s)) ?ss []) (stripe_id (S (nat i))) =
      um_get [] (taskmap (S (nat i))) a" if i: "i \<in> set l" for i
    using um_inserts_get [of stripe_id ?ss "S (nat i)" "[]" "getTaskForNodeId a"] dist i has [OF i]
    by (simp add: comp_def getTaskForNodeId_def um_has_def)
  ultimately show ?thesis
    using has by (intro exI [of _ ?nb]) (simp add: new_NodeBatchTask_def getTaskNumForNodeId_def um_has_def comp_def)
qed


section \<open>Stripes side by side\<close>

lemma wired_beside:
  assumes "wired full used rws" and "filled rws \<inter> Y = {}" and "X \<subseteq> Y" and "full \<inter> Y = {}"
  shows "wired (full \<union> X) (used \<union> Y) rws \<and> drained (full \<union> X) rws = drained full rws \<union> X"
  using assms
proof (induction rws arbitrary: full used)
  case (Cons rw rws)
  obtain R W where rw: "rw = (R, W)" by (cases rw)
  have IH: "wired (full - R \<union> W \<union> X) (used \<union> W \<union> Y) rws \<and> drained (full - R \<union> W \<union> X) rws = drained (full - R \<union> W) rws \<union> X"
    using Cons.prems by (intro Cons.IH) (auto simp: rw)
  have "full \<union> X - R \<union> W = full - R \<union> W \<union> X" "used \<union> Y \<union> W = used \<union> W \<union> Y" using Cons.prems by (auto simp: rw)
  then show ?case using IH Cons.prems by (auto simp: rw)
qed simp

lemma wired_all:
  assumes "\<And>x. x \<in> set xs \<Longrightarrow> wired {} {} (f x) \<and> drained {} (f x) = D x \<and> filled (f x) \<subseteq> F x"
    and "distinct xs" and "\<And>x y. x \<in> set xs \<Longrightarrow> y \<in> set xs \<Longrightarrow> x \<noteq> y \<Longrightarrow> F x \<inter> F y = {}"
  shows "wired {} {} (concat (map f xs)) \<and> drained {} (concat (map f xs)) = (\<Union>x\<in>set xs. D x) \<and> filled (concat (map f xs)) \<subseteq> (\<Union>x\<in>set xs. F x)"
  using assms
proof (induction xs rule: rev_induct)
  case (snoc x xs)
  let ?rws = "concat (map f xs)"
  have IH: "wired {} {} ?rws" "drained {} ?rws = (\<Union>x\<in>set xs. D x)" "filled ?rws \<subseteq> (\<Union>x\<in>set xs. F x)"
    using snoc.IH snoc.prems by auto
  have x: "wired {} {} (f x)" "drained {} (f x) = D x" "filled (f x) \<subseteq> F x" using snoc.prems(1) [of x] by auto
  have "filled (f x) \<inter> filled ?rws = {}"
  proof -
    have "F x \<inter> F y = {}" if "y \<in> set xs" for y using snoc.prems(2) snoc.prems(3) [of x y] that by auto
    then show ?thesis using x(3) IH(3) by blast
  qed
  moreover have "drained {} ?rws \<subseteq> filled ?rws" using drained_filled [of "{}" ?rws] by simp
  ultimately have "wired (drained {} ?rws) (filled ?rws) (f x) \<and> drained (drained {} ?rws) (f x) = D x \<union> drained {} ?rws"
    using wired_beside [OF x(1), of "filled ?rws" "drained {} ?rws"] x(2) by auto
  then show ?case using IH x(3) by (auto simp: wired_append drained_append)
qed simp

definition batch_stripes :: "repair_batch \<Rightarrow> stripe list \<Rightarrow> stripe list" where
  "batch_stripes b st = map (\<lambda>p. st ! nat p) (rb_stripes b)"

definition repaired_names :: "stripe \<Rightarrow> string list" where
  "repaired_names s = map (\<lambda>v. blklist s ! nat (REQUESTOR - v)) (last (levels s))"

definition batch_ready :: "int \<Rightarrow> worker_conf \<Rightarrow> int umap \<Rightarrow> repair_batch \<Rightarrow> stripe list \<Rightarrow> bool" where
  "batch_ready ecn w f2r b st \<longleftrightarrow>
     distinct (rb_stripes b) \<and> list_all (\<lambda>p. 0 \<le> p \<and> nat p < length st) (rb_stripes b) \<and>
     distinct (agentsIPs w @ repairIPs w) \<and> distinct (map stripe_id (batch_stripes b st)) \<and>
     distinct (concat (map repaired_names (batch_stripes b st))) \<and>
     list_all (\<lambda>s. taskmap s = [] \<and> deployed ecn (conf_ecw w) (levels s) (planned f2r s) \<and>
       list_all (\<lambda>v. let c = color_of (remap_colors f2r (coloring s)) v in
         c \<noteq> -1 \<longrightarrow> 0 \<le> c \<and> c < int (length (agentsIPs w @ repairIPs w))) (node_ids (s_ecdag s))) (batch_stripes b st)"

text \<open>The threads of all agents, from the stripes as the planner leaves them.\<close>

definition batch_threads ::
  "isal \<Rightarrow> disk \<Rightarrow> worker_conf \<Rightarrow> int \<Rightarrow> int \<Rightarrow> int umap \<Rightarrow> repair_batch \<Rightarrow> stripe list \<Rightarrow> unit thread list res" where
  "batch_threads isal disk w ecn eck f2r b st =
     bindR (foldR (batch_stripe (rb_id b) ecn eck (conf_ecw w) f2r)
              (zip (map int [0..<length (rb_stripes b)]) (rb_stripes b)) (st, [])) (\<lambda>(st', idx).
     bindR (mapR (node_tasks (agentsIPs w) (repairIPs w) st' b) idx) (\<lambda>nbs.
     bindR (mapR (\<lambda>(nodeid, nb). repairBatch isal disk (w\<lparr>localIp := nb_ip nb\<rparr>) nb) nbs) (\<lambda>thss.
       Inr (concat thss))))"

definition repaired_file :: "worker_conf \<Rightarrow> int umap \<Rightarrow> stripe \<Rightarrow> int \<Rightarrow> chan" where
  "repaired_file w f2r s v =
     repair_file (agent w (color_of (remap_colors f2r (coloring s)) v)) (blklist s ! nat (REQUESTOR - v))"

definition file_packets :: "(int \<Rightarrow> int \<Rightarrow> nat \<Rightarrow> string) \<Rightarrow> nat \<Rightarrow> stripe \<Rightarrow> int \<Rightarrow> item list" where
  \<comment> \<open>packet by packet, the sub-packets of the block\<close>
  "file_packets pk n s v = concat (map (\<lambda>i. map (\<lambda>d. Bytes (pk (stripe_id s) d i)) (children_of (s_ecdag s) v)) [0..<n])"

lemma agents_reachable:
  assumes "distinct (agentsIPs w @ repairIPs w)"
  defines "A \<equiv> {c. 0 \<le> c \<and> c < int (length (agentsIPs w @ repairIPs w))}"
  shows "a \<in> A \<Longrightarrow> node_ip w a = Inr (ip_of w a)" "inj_on (ip_of w) A"
proof -
  have ip: "node_ip w a = Inr ((agentsIPs w @ repairIPs w) ! nat a)" if "a \<in> A" for a
    using that by (auto simp: A_def node_ip_def agent_ip_def vget_def nth_append nat_diff_distrib' nat_less_iff)
  then show "a \<in> A \<Longrightarrow> node_ip w a = Inr (ip_of w a)" by (simp add: ip_of_def)
  show "inj_on (ip_of w) A"
  proof (rule inj_onI)
    fix a a' assume a: "a \<in> A" "a' \<in> A" "ip_of w a = ip_of w a'"
    then have "(agentsIPs w @ repairIPs w) ! nat a = (agentsIPs w @ repairIPs w) ! nat a'" using ip by (simp add: ip_of_def)
    then have "nat a = nat a'" using assms(1) a(1,2) nth_eq_iff_index_eq [OF assms(1), of "nat a" "nat a'"] by (auto simp: A_def nat_less_iff)
    then show "a = a'" using a(1,2) by (auto simp: A_def)
  qed
qed


lemma mapR_map: "mapR f (map g xs) = mapR (\<lambda>x. f (g x)) xs"
  by (induction xs) simp_all

lemma mset_concat_cong: "mset xss = mset yss \<Longrightarrow> mset (concat xss) = mset (concat yss)"
  by (metis mset_concat mset_map sum_mset_sum_list)

definition stripe_tasks :: "int \<Rightarrow> worker_conf \<Rightarrow> int umap \<Rightarrow> stripe \<Rightarrow> (int \<times> task) list" where
  "stripe_tasks b w f2r s = stripe_emits b (conf_ecw w) (planned f2r s) (levels s)"

definition tasks_at :: "int \<Rightarrow> worker_conf \<Rightarrow> int umap \<Rightarrow> stripe \<Rightarrow> int \<Rightarrow> task list" where
  "tasks_at b w f2r s a = map snd (filter (\<lambda>p. fst p = a) (stripe_tasks b w f2r s))"

definition queues_at :: "int \<Rightarrow> worker_conf \<Rightarrow> int umap \<Rightarrow> stripe \<Rightarrow> int \<Rightarrow> data_map" where
  "queues_at b w f2r s a = (case foldR prepareDataMap (tasks_at b w f2r s a) [] of Inl e \<Rightarrow> [] | Inr m \<Rightarrow> m)"

lemma emit_types:
  assumes "(a, t) \<in> set (stripe_tasks b w f2r s)"
  shows "(\<exists>k\<in>{0..4}. ttype t = Some k) \<and>
    (ttype t = Some 0 \<longrightarrow> blk_name t \<noteq> ''ZERO'' \<longrightarrow> (\<exists>u. usage_list t = map u (dagidx_list t)))"
  using assms
  by (auto simp: stripe_tasks_def stripe_emits_def level_emits_def level0_emits_def inner_emits_def moves_emits_def
      read_emit_def send_emit_def recv_emit_def zero_emit_def compute_emit_def persist_emit_def split: if_splits)

lemma tasks_at_types: "list_all (\<lambda>t. \<exists>k\<in>{0..4}. ttype t = Some k) (tasks_at b w f2r s a)"
  using emit_types [of _ _ b w f2r s] unfolding list_all_iff tasks_at_def by fastforce

lemma queues_at_ok:
  "foldR prepareDataMap (tasks_at b w f2r s a) [] = Inr (queues_at b w f2r s a)"
  "set (queues_at b w f2r s a) = (\<Union>t\<in>set (tasks_at b w f2r s a). task_keys t)"
proof -
  have "\<exists>u. usage_list t = map u (dagidx_list t)"
    if "t \<in> set (tasks_at b w f2r s a)" "ttype t = Some 0" "blk_name t \<noteq> ''ZERO''" for t
    using that emit_types [of a t b w f2r s] by (auto simp: tasks_at_def)
  from prepare_all [of "tasks_at b w f2r s a" "[]", OF this] obtain m where
    "foldR prepareDataMap (tasks_at b w f2r s a) [] = Inr m" "set m = (\<Union>t\<in>set (tasks_at b w f2r s a). task_keys t)" by auto
  then show "foldR prepareDataMap (tasks_at b w f2r s a) [] = Inr (queues_at b w f2r s a)"
    "set (queues_at b w f2r s a) = (\<Union>t\<in>set (tasks_at b w f2r s a). task_keys t)" by (simp_all add: queues_at_def)
qed

lemma index_pairs_distinct:
  assumes "\<And>i. i < m \<Longrightarrow> um_wf (taskmap (S i))"
  shows "distinct (index_pairs S m)"
proof -
  have one: "distinct (map (\<lambda>item. (fst item, int i)) tm)" if "um_wf tm" for i and tm :: tasks
  proof -
    have "map (\<lambda>item. (fst item, int i)) tm = map (\<lambda>k. (k, int i)) (um_keys tm)" by (simp add: um_keys_def)
    then show ?thesis using that by (simp add: distinct_map inj_on_def)
  qed
  show ?thesis
    using assms
  proof (induction m)
    case (Suc m)
    have "index_pairs S (Suc m) = index_pairs S m @ map (\<lambda>item. (fst item, int m)) (taskmap (S m))" by (simp add: index_pairs_def)
    moreover have "j < int m" if "(a, j) \<in> set (index_pairs S m)" for a j using that by (auto simp: index_pairs_def)
    ultimately show ?case using Suc one [of "taskmap (S m)" m] by auto
  qed (simp add: index_pairs_def)
qed

lemma concat_groups: "concat (map (\<lambda>(a, l). concat (map (g a) l)) xs) = concat (concat (map (\<lambda>(a, l). map (g a) l) xs))"
  by (induction xs) auto

lemma mset_concat_map: "(\<And>x. x \<in> set xs \<Longrightarrow> mset (f x) = mset (g x)) \<Longrightarrow> mset (concat (map f xs)) = mset (concat (map g xs))"
  by (induction xs) (simp_all del: mset_concat)

lemma threads_of_pairs:
  assumes "\<And>i. i < length ss \<Longrightarrow> taskmap (S i) = groups (E (ss ! i))"
  shows "mset (concat (map (\<lambda>(a, l). concat (map (\<lambda>i. map (f (ss ! nat i) a) (map snd (filter (\<lambda>p. fst p = a) (E (ss ! nat i))))) l))
      (groups (index_pairs S (length ss))))) = mset (concat (map (\<lambda>s. map (\<lambda>(a, t). f s a t) (E s)) ss))"
proof -
  let ?g = "\<lambda>a i. map (f (ss ! nat i) a) (map snd (filter (\<lambda>p. fst p = a) (E (ss ! nat i))))"
  let ?ix = "index_pairs S (length ss)"
  have "mset (concat (map (\<lambda>(a, l). concat (map (?g a) l)) (groups ?ix))) = mset (concat (map (\<lambda>(a, i). ?g a i) ?ix))"
    unfolding concat_groups by (rule mset_concat_cong) (rule mset_groups)
  also have "concat (map (\<lambda>(a, i). ?g a i) ?ix) = concat (map (\<lambda>i. concat (map (\<lambda>item. ?g (fst item) (int i)) (taskmap (S i)))) [0..<length ss])"
  proof -
    have nest: "concat (map h (concat (map k xs))) = concat (map (\<lambda>x. concat (map h (k x))) xs)"
      for h :: "'x \<Rightarrow> 'y list" and k :: "nat \<Rightarrow> 'x list" and xs by (induction xs) simp_all
    show ?thesis unfolding index_pairs_def nest by (simp add: comp_def)
  qed
  also have "mset \<dots> = mset (concat (map (\<lambda>i. map (\<lambda>(a, t). f (ss ! i) a t) (E (ss ! i))) [0..<length ss]))"
  proof (rule mset_concat_map)
    fix i assume "i \<in> set [0..<length ss]"
    then have tm: "taskmap (S i) = groups (E (ss ! i))" using assms by simp
    have eq: "map (\<lambda>item. ?g (fst item) (int i)) (groups (E (ss ! i))) = map (\<lambda>(a, l). map (f (ss ! i) a) l) (groups (E (ss ! i)))"
      by (auto simp: push_pairs_items)
    show "mset (concat (map (\<lambda>item. ?g (fst item) (int i)) (taskmap (S i)))) = mset (map (\<lambda>(a, t). f (ss ! i) a t) (E (ss ! i)))"
      unfolding tm eq by (rule mset_groups)
  qed
  also have "map (\<lambda>i. map (\<lambda>(a, t). f (ss ! i) a t) (E (ss ! i))) [0..<length ss] = map (\<lambda>s. map (\<lambda>(a, t). f s a t) (E s)) ss"
    by (rule nth_equalityI) simp_all
  finally show ?thesis .
qed

lemma batch_threads_ok:
  fixes isal :: isal and disk :: disk
  assumes ready: "batch_ready ecn w f2r b st"
  defines "ss \<equiv> batch_stripes b st"
  defines "thread \<equiv> \<lambda>s a. thread_of isal disk (agent w a) (rb_id b) (stripe_id s) (queues_at (rb_id b) w f2r s a)"
  assumes nodes: "\<And>s a t. s \<in> set ss \<Longrightarrow> (a, t) \<in> set (stripe_tasks (rb_id b) w f2r s) \<Longrightarrow> 0 \<le> a \<and> a < int (length (agentsIPs w @ repairIPs w))"
  shows "\<exists>ths. batch_threads isal disk w ecn eck f2r b st = Inr ths \<and>
    mset ths = mset (concat (map (\<lambda>s. map (\<lambda>(a, t). thread s a t) (stripe_tasks (rb_id b) w f2r s)) ss))"
proof -
  let ?b = "rb_id b" and ?ps = "rb_stripes b" and ?m = "length ss"
  have range: "\<And>p. p \<in> set ?ps \<Longrightarrow> 0 \<le> p \<and> nat p < length st" and dist: "distinct ?ps"
    and ips: "distinct (agentsIPs w @ repairIPs w)" and ids: "distinct (map stripe_id ss)"
    and good: "\<And>s. s \<in> set ss \<Longrightarrow> taskmap s = [] \<and> deployed ecn (conf_ecw w) (levels s) (planned f2r s)"
    using ready unfolding batch_ready_def ss_def list_all_iff by blast+
  have len: "?m = length ?ps" "\<And>i. i < length ?ps \<Longrightarrow> st ! nat (?ps ! i) = ss ! i" by (simp_all add: ss_def batch_stripes_def)
  have "\<exists>s'. genRepairTasks ?b ecn eck (conf_ecw w) f2r (ss ! i) = Inr s' \<and>
      taskmap s' = groups (stripe_tasks ?b w f2r (ss ! i)) \<and> stripe_id s' = stripe_id (ss ! i)" if "i < ?m" for i
    using genRepairTasks_groups [of ecn "conf_ecw w" "ss ! i" f2r ?b eck] good [of "ss ! i"] that by (simp add: stripe_tasks_def)
  then obtain S where S: "\<And>i. i < ?m \<Longrightarrow> genRepairTasks ?b ecn eck (conf_ecw w) f2r (ss ! i) = Inr (S i)"
    "\<And>i. i < ?m \<Longrightarrow> taskmap (S i) = groups (stripe_tasks ?b w f2r (ss ! i))" "\<And>i. i < ?m \<Longrightarrow> stripe_id (S i) = stripe_id (ss ! i)" by metis
  define ix where "ix = index_pairs S ?m"
  have "\<exists>st'. foldR (batch_stripe ?b ecn eck (conf_ecw w) f2r) (zip (map int [0..<?m]) (take ?m ?ps)) (st, []) = Inr (st', groups (index_pairs S ?m)) \<and>
    length st' = length st \<and> (\<forall>i<?m. st' ! nat (?ps ! i) = S i) \<and> (\<forall>i<length ?ps. ?m \<le> i \<longrightarrow> st' ! nat (?ps ! i) = st ! nat (?ps ! i))"
    using S(1) len by (intro batch_stripes_fold [OF dist range]) simp_all
  then obtain st' where st': "foldR (batch_stripe ?b ecn eck (conf_ecw w) f2r) (zip (map int [0..<length ?ps]) ?ps) (st, []) = Inr (st', groups ix)"
    "length st' = length st" "\<And>i. i < ?m \<Longrightarrow> st' ! nat (?ps ! i) = S i"
    by (auto simp: ix_def len(1))
  have ix: "\<exists>i<?m. j = int i \<and> a \<in> set (um_keys (taskmap (S i)))" if "(a, j) \<in> set ix" for a j
    using that by (fastforce simp: ix_def index_pairs_def set_um_keys)
  have at: "um_get [] (taskmap (S i)) a = tasks_at ?b w f2r (ss ! i) a" if "i < ?m" for i a
    using S(2) [OF that] push_pairs_get [of "stripe_tasks ?b w f2r (ss ! i)" "[]" a] by (simp add: tasks_at_def um_get_def [of "[]" "[]"])
  have ip: "agent_ip (agentsIPs w) (repairIPs w) a = Inr (ip_of w a)" if "(a, j) \<in> set ix" for a j
  proof -
    obtain i where i: "i < ?m" "a \<in> set (um_keys (taskmap (S i)))" using ix [OF \<open>(a, j) \<in> set ix\<close>] by blast
    then have "a \<in> fst ` set (stripe_tasks ?b w f2r (ss ! i))" using S(2) [OF i(1)] push_pairs_keys [of "stripe_tasks ?b w f2r (ss ! i)" "[]"] by simp
    then obtain t where "(a, t) \<in> set (stripe_tasks ?b w f2r (ss ! i))" by auto
    from nodes [OF nth_mem [OF i(1)] this] agents_reachable(1) [OF ips, of a] show ?thesis by (simp add: node_ip_def)
  qed
  let ?T = "\<lambda>i a. tasks_at ?b w f2r (ss ! nat i) a"
  let ?run = "\<lambda>(a, l). concat (map (\<lambda>i. map (thread (ss ! nat i) a) (?T i a)) l)"
  have one: "\<exists>nb. node_tasks (agentsIPs w) (repairIPs w) st' b x = Inr (fst x, nb) \<and>
      (\<exists>ths. repairBatch isal disk (w\<lparr>localIp := nb_ip nb\<rparr>) nb = Inr ths \<and> mset ths = mset (?run x))" if x: "x \<in> set (groups ix)" for x
  proof -
    obtain a l where al: "x = (a, l)" by (cases x)
    have l: "0 \<le> i \<and> nat i < ?m \<and> a \<in> set (um_keys (taskmap (S (nat i)))) \<and> (a, i) \<in> set ix" if "i \<in> set l" for i
      using group_mem [OF x [unfolded al], of i] ix [of a i] that by auto
    have "distinct ix" unfolding ix_def using S(2) push_pairs_wf [of "[]"] by (intro index_pairs_distinct) simp
    then have dl: "distinct l" by (rule group_distinct [OF x [unfolded al]])
    have sid: "stripe_id (S (nat i)) = stripe_id (ss ! nat i)" if "i \<in> set l" for i using S(3) l [OF that] by blast
    have dsid: "distinct (map (\<lambda>i. stripe_id (S (nat i))) l)"
      unfolding distinct_map
    proof (intro conjI dl inj_onI)
      fix i j assume ij: "i \<in> set l" "j \<in> set l" "stripe_id (S (nat i)) = stripe_id (S (nat j))"
      then have "map stripe_id ss ! nat i = map stripe_id ss ! nat j" using sid l by simp
      then have "nat i = nat j" using nth_eq_iff_index_eq [OF ids, of "nat i" "nat j"] l [OF ij(1)] l [OF ij(2)] by simp
      then show "i = j" using l [OF ij(1)] l [OF ij(2)] eq_nat_nat_iff [of i j] by blast
    qed
    have pos: "0 \<le> i \<and> nat i < length ?ps \<and> 0 \<le> ?ps ! nat i \<and> nat (?ps ! nat i) < length st' \<and> st' ! nat (?ps ! nat i) = S (nat i)"
      if "i \<in> set l" for i using l [OF that] len(1) range [of "?ps ! nat i"] st'(2,3) by simp
    have "(a, hd l) \<in> set ix" using l [of "hd l"] group_nonempty [OF x [unfolded al]] by simp
    from node_tasks_ok [where S = S, OF pos ip [OF this] dsid] l obtain nb where
      nb: "node_tasks (agentsIPs w) (repairIPs w) st' b (a, l) = Inr (a, nb)" "nb_batch_id nb = ?b" "nb_ip nb = ip_of w a"
        "nb_stripe_ids nb = map (\<lambda>i. stripe_id (S (nat i))) l"
        "nb_nums nb = map (\<lambda>i. int (length (um_get [] (taskmap (S (nat i))) a))) l"
        "\<And>i. i \<in> set l \<Longrightarrow> um_get [] (nb_taskmap nb) (stripe_id (S (nat i))) = um_get [] (taskmap (S (nat i))) a" by blast
    have T: "um_get [] (taskmap (S (nat i))) a = ?T i a" if "i \<in> set l" for i using at l [OF that] by blast
    have "\<exists>ths. repairBatch isal disk (agent w a) nb = Inr ths \<and> mset ths =
      mset (concat (map (\<lambda>i. map (thread_of isal disk (agent w a) ?b (stripe_id (S (nat i))) (queues_at ?b w f2r (ss ! nat i) a)) (?T i a)) l))"
      using nb(6) T tasks_at_types queues_at_ok(1)
      by (intro repairBatch_threads [where sid = "\<lambda>i. stripe_id (S (nat i))", OF nb(4) dsid nb(2)]) (simp_all add: nb(5))
    moreover have "map (\<lambda>i. map (thread_of isal disk (agent w a) ?b (stripe_id (S (nat i))) (queues_at ?b w f2r (ss ! nat i) a)) (?T i a)) l =
        map (\<lambda>i. map (thread (ss ! nat i) a) (?T i a)) l"
      using sid by (simp add: thread_def)
    ultimately show ?thesis using nb(1,3) by (simp add: al agent_def [symmetric])
  qed
  let ?P = "\<lambda>x nb. node_tasks (agentsIPs w) (repairIPs w) st' b x = Inr (fst x, nb) \<and>
      (\<exists>ths. repairBatch isal disk (w\<lparr>localIp := nb_ip nb\<rparr>) nb = Inr ths \<and> mset ths = mset (?run x))"
  have "\<forall>x\<in>set (groups ix). \<exists>nb. ?P x nb" using one by (intro ballI)
  from bchoice [OF this] obtain NB where "\<forall>x\<in>set (groups ix). ?P x (NB x)" by (elim exE)
  then have NB: "\<And>x. x \<in> set (groups ix) \<Longrightarrow> node_tasks (agentsIPs w) (repairIPs w) st' b x = Inr (fst x, NB x)"
    "\<And>x. x \<in> set (groups ix) \<Longrightarrow> \<exists>ths. repairBatch isal disk (w\<lparr>localIp := nb_ip (NB x)\<rparr>) (NB x) = Inr ths \<and> mset ths = mset (?run x)"
    by (simp_all del: mset_concat)
  have "mapR (node_tasks (agentsIPs w) (repairIPs w) st' b) (groups ix) = Inr (map (\<lambda>x. (fst x, NB x)) (groups ix))"
    using NB(1) by (rule mapR_pure)
  moreover obtain thss where
    "mapR (\<lambda>x. repairBatch isal disk (w\<lparr>localIp := nb_ip (NB x)\<rparr>) (NB x)) (groups ix) = Inr thss" "mset (concat thss) = mset (concat (map ?run (groups ix)))"
    using mapR_ex [where f = "\<lambda>x. repairBatch isal disk (w\<lparr>localIp := nb_ip (NB x)\<rparr>) (NB x)" and g = ?run, OF NB(2)] by blast
  moreover have "mset (concat (map ?run (groups ix))) = mset (concat (map (\<lambda>s. map (\<lambda>(a, t). thread s a t) (stripe_tasks ?b w f2r s)) ss))"
    using threads_of_pairs [where f = thread and E = "stripe_tasks ?b w f2r", OF S(2)] unfolding ix_def tasks_at_def .
  ultimately show ?thesis
    using st'(1) by (simp add: batch_threads_def mapR_map del: mset_concat)
qed


section \<open>Whatever the schedule\<close>

lemma restored_names: "Stored a name \<in> restored (planned f2r s) (levels s) \<Longrightarrow> name \<in> set (repaired_names s)"
  by (auto simp: restored_def repaired_names_def)

lemma distinct_concat_map:
  "distinct (concat (map f xs)) \<Longrightarrow> x \<in> set xs \<Longrightarrow> y \<in> set xs \<Longrightarrow> z \<in> set (f x) \<Longrightarrow> z \<in> set (f y) \<Longrightarrow> distinct (map g xs) \<Longrightarrow> x = y"
  by (induction xs) auto

lemma batch_wired:
  assumes ready: "batch_ready ecn w f2r b st"
  defines "ss \<equiv> batch_stripes b st"
  defines "rws \<equiv> concat (map (\<lambda>s. map (links (planned f2r s)) (stripe_tasks (rb_id b) w f2r s)) ss)"
  shows "wired {} {} rws \<and> drained {} rws = (\<Union>s\<in>set ss. restored (planned f2r s) (levels s))"
proof -
  let ?D = "\<lambda>s. restored (planned f2r s) (levels s)"
  let ?F = "\<lambda>s. at_vertices (planned f2r s) (lower (levels s) (length (levels s) - 1)) \<union> ?D s"
  have ids: "distinct (map stripe_id ss)" and names: "distinct (concat (map repaired_names ss))"
    and dep: "\<And>s. s \<in> set ss \<Longrightarrow> deployed ecn (conf_ecw w) (levels s) (planned f2r s)"
    using ready unfolding batch_ready_def ss_def list_all_iff by blast+
  have "wired {} {} rws \<and> drained {} rws = (\<Union>s\<in>set ss. ?D s) \<and> filled rws \<subseteq> (\<Union>s\<in>set ss. ?F s)"
    unfolding rws_def
  proof (rule wired_all)
    fix s assume s: "s \<in> set ss"
    show "wired {} {} (map (links (planned f2r s)) (stripe_tasks (rb_id b) w f2r s)) \<and>
        drained {} (map (links (planned f2r s)) (stripe_tasks (rb_id b) w f2r s)) = ?D s \<and>
        filled (map (links (planned f2r s)) (stripe_tasks (rb_id b) w f2r s)) \<subseteq> ?F s"
      unfolding stripe_tasks_def by (rule stripe_wired [OF dep [OF s]])
    fix s' assume s': "s' \<in> set ss" "s \<noteq> s'"
    have sid: "stripe_id s \<noteq> stripe_id s'" using ids s s' by (auto simp: distinct_map inj_on_def)
    show "?F s \<inter> ?F s' = {}"
    proof (rule ccontr)
      assume "?F s \<inter> ?F s' \<noteq> {}"
      then obtain l where l: "l \<in> ?F s" "l \<in> ?F s'" by blast
      show False
      proof (cases l)
        case (Stored a name)
        then have "Stored a name \<in> ?D s" "Stored a name \<in> ?D s'" using l by (simp_all add: at_vertices_def)
        then have "name \<in> set (repaired_names s)" "name \<in> set (repaired_names s')" using restored_names by blast+
        with distinct_concat_map [OF names s s'(1) _ _ ids] s'(2) show False by blast
      qed (use l sid in \<open>auto simp: at_vertices_def restored_def\<close>)
    qed
  qed (use ids in \<open>simp add: distinct_map\<close>)
  then show ?thesis by blast
qed

definition repaired_vertices :: "stripe list \<Rightarrow> (stripe \<times> int) list" where
  "repaired_vertices ss = concat (map (\<lambda>s. map (Pair s) (last (levels s))) ss)"

lemma repaired_file_inj:
  assumes names: "distinct (concat (map repaired_names ss))" and ids: "distinct (map stripe_id ss)"
    and x: "(s, v) \<in> set (repaired_vertices ss)" "(s', v') \<in> set (repaired_vertices ss)" and eq: "repaired_file w f2r s v = repaired_file w f2r s' v'"
  shows "s = s' \<and> v = v'"
proof -
  let ?name = "\<lambda>s v. blklist s ! nat (REQUESTOR - v)"
  have mem: "s \<in> set ss" "v \<in> set (last (levels s))" "s' \<in> set ss" "v' \<in> set (last (levels s'))"
    using x by (auto simp: repaired_vertices_def)
  have name: "?name s v = ?name s' v'" using eq by (simp add: repaired_file_def repair_file_def agent_def)
  have "?name s v \<in> set (repaired_names s)" "?name s' v' \<in> set (repaired_names s')" using mem by (simp_all add: repaired_names_def)
  then have s: "s = s'" using distinct_concat_map [OF names mem(1,3) _ _ ids] name by simp
  have "distinct (repaired_names s)" using names mem(1) by (auto simp: distinct_concat_iff)
  then have "inj_on (?name s) (set (last (levels s)))" by (simp add: repaired_names_def distinct_map)
  then show ?thesis using name mem(2,4) s by (auto simp: inj_on_def)
qed

lemma collected_ex:
  assumes "distinct (concat (map repaired_names ss))" and "distinct (map stripe_id ss)"
  shows "\<exists>coll. \<forall>s\<in>set ss. collected w coll (levels s) (planned f2r s)"
proof -
  let ?at = "\<lambda>ip name (s, v). repaired_file w f2r s v = File ip name"
  let ?coll = "\<lambda>ip name. case find (?at ip name) (repaired_vertices ss) of None \<Rightarrow> (0, []) | Some (s, v) \<Rightarrow> (stripe_id s, children_of (s_ecdag s) v)"
  have "?coll ip name = (stripe_id s, children_of (s_ecdag s) v)"
    if sv: "s \<in> set ss" "v \<in> set (last (levels s))" and f: "repaired_file w f2r s v = File ip name" for s v ip name
  proof -
    have x: "(s, v) \<in> set (repaired_vertices ss)" using sv by (auto simp: repaired_vertices_def)
    then have "find (?at ip name) (repaired_vertices ss) \<noteq> None" using f by (auto simp: find_None_iff)
    then obtain s' v' where fnd: "find (?at ip name) (repaired_vertices ss) = Some (s', v')" by auto
    then have "(s', v') \<in> set (repaired_vertices ss)" "repaired_file w f2r s' v' = File ip name"
      by (auto simp: find_Some_iff) (metis nth_mem)
    with repaired_file_inj [OF assms x this(1), of w f2r] f have "s' = s" "v' = v" by simp_all
    then show ?thesis using fnd by simp
  qed
  then show ?thesis
    by (intro exI [of _ ?coll] ballI) (simp add: collected_def repaired_file_def [symmetric])
qed


lemma find_distinct: "distinct (map f xs) \<Longrightarrow> x \<in> set xs \<Longrightarrow> find (\<lambda>y. f y = f x) xs = Some x"
  by (induction xs) auto

lemma batch_runs:
  assumes ready: "batch_ready ecn w f2r b st" and sz: "sizes_are w sub n" and len: "pkt_len_ok pk sub"
    and data: "\<And>s. s \<in> set (batch_stripes b st) \<Longrightarrow> stripe_data isal disk w pk sub n (levels s) (planned f2r s)"
  defines "files \<equiv> repaired_vertices (batch_stripes b st)"
  shows "\<exists>ths N. batch_threads isal disk w ecn eck f2r b st = Inr ths \<and>
    (\<forall>k u. (net_step ^^ k) (ths, \<lambda>_. []) u \<longrightarrow> k \<le> N \<and> (k < N \<longrightarrow> (\<exists>u'. net_step u u')) \<and>
      (k = N \<longrightarrow> all_ended u \<and> (\<forall>(s, v)\<in>set files. snd u (repaired_file w f2r s v) = file_packets pk n s v) \<and>
        (\<forall>c. c \<notin> (\<lambda>(s, v). repaired_file w f2r s v) ` set files \<longrightarrow> snd u c = [])))"
proof -
  let ?b = "rb_id b" and ?ss = "batch_stripes b st" and ?A = "{c. 0 \<le> c \<and> c < int (length (agentsIPs w @ repairIPs w))}"
  have ips: "distinct (agentsIPs w @ repairIPs w)" and ids: "distinct (map stripe_id ?ss)" and names: "distinct (concat (map repaired_names ?ss))"
    and dep: "\<And>s. s \<in> set ?ss \<Longrightarrow> deployed ecn (conf_ecw w) (levels s) (planned f2r s)"
    using ready unfolding batch_ready_def list_all_iff by blast+
  have on: "on_nodes ?A (planned f2r s)" if "s \<in> set ?ss" for s
    using ready that unfolding batch_ready_def list_all_iff on_nodes_def Let_def by simp
  obtain coll where coll: "\<And>s. s \<in> set ?ss \<Longrightarrow> collected w coll (levels s) (planned f2r s)" using collected_ex [OF names ids] by blast
  have fits: "task_fits isal disk w pk sub n ?A coll (stripe_id s) a t" if "s \<in> set ?ss" "(a, t) \<in> set (stripe_tasks ?b w f2r s)" for s a t
    using emits_fit [OF dep [OF that(1)] on [OF that(1)] data [OF that(1)] coll [OF that(1)]] that(2) by (simp add: stripe_tasks_def)
  then have nodes: "0 \<le> a \<and> a < int (length (agentsIPs w @ repairIPs w))" if "s \<in> set ?ss" "(a, t) \<in> set (stripe_tasks ?b w f2r s)" for s a t
    using that unfolding task_fits_def by blast
  have "\<exists>ths. batch_threads isal disk w ecn eck f2r b st = Inr ths \<and>
    mset ths = mset (concat (map (\<lambda>s. map (\<lambda>(a, t). thread_of isal disk (agent w a) ?b (stripe_id s) (queues_at ?b w f2r s a) t) (stripe_tasks ?b w f2r s)) ?ss))"
    by (rule batch_threads_ok [OF ready]) (rule nodes)
  then obtain ths where ths: "batch_threads isal disk w ecn eck f2r b st = Inr ths"
    "mset ths = mset (concat (map (\<lambda>s. map (\<lambda>(a, t). thread_of isal disk (agent w a) ?b (stripe_id s) (queues_at ?b w f2r s a) t) (stripe_tasks ?b w f2r s)) ?ss))"
    by blast
  define sof where "sof k = the (find (\<lambda>s. stripe_id s = k) ?ss)" for k
  have sof: "sof (stripe_id s) = s" if "s \<in> set ?ss" for s
  proof -
    have "find (\<lambda>s'. stripe_id s' = stripe_id s) ?ss = Some s" using find_distinct [OF ids that] .
    then show ?thesis by (simp add: sof_def)
  qed
  define ets where "ets = concat (map (\<lambda>s. map (\<lambda>(a, t). (stripe_id s, a, t)) (stripe_tasks ?b w f2r s)) ?ss)"
  have ets: "(k, a, t) \<in> set ets \<longleftrightarrow> (\<exists>s\<in>set ?ss. k = stripe_id s \<and> (a, t) \<in> set (stripe_tasks ?b w f2r s))" for k a t
    by (auto simp: ets_def)
  have fit: "task_fits isal disk w pk sub n ?A coll k a t" if "(k, a, t) \<in> set ets" for k a t using that fits by (auto simp: ets)
  have keys: "set (queues_at ?b w f2r (sof k) a) = (\<Union>t\<in>{t. (k, a, t) \<in> set ets}. task_keys t)" if e: "(k, a, t) \<in> set ets" for k a t
  proof -
    from e obtain s where s: "s \<in> set ?ss" "k = stripe_id s" by (auto simp: ets)
    have "{t. (k, a, t) \<in> set ets} = set (tasks_at ?b w f2r s a)"
    proof -
      have "s' = s" if "s' \<in> set ?ss" "stripe_id s = stripe_id s'" for s' using ids s(1) that by (auto simp: distinct_map inj_on_def)
      then have "(k, a, t) \<in> set ets \<longleftrightarrow> (a, t) \<in> set (stripe_tasks ?b w f2r s)" for t using s by (auto simp: ets)
      then show ?thesis by (force simp: tasks_at_def)
    qed
    then show ?thesis using sof s by (simp add: queues_at_ok(2))
  qed
  let ?links = "map (\<lambda>(k, a, t). (takes k a t, fills k a t)) ets"
  have links: "?links = concat (map (\<lambda>s. map (links (planned f2r s)) (stripe_tasks ?b w f2r s)) ?ss)"
  proof -
    have "links (planned f2r s) = (\<lambda>e. (takes (stripe_id s) (fst e) (snd e), fills (stripe_id s) (fst e) (snd e)))" for s
      by (simp add: fun_eq_iff links_def)
    then show ?thesis by (simp add: ets_def map_concat comp_def case_prod_unfold)
  qed
  note wired = batch_wired [OF ready, folded links]
  have perm: "mset ths = mset (map (\<lambda>(k, a, t). thread_of isal disk (agent w a) ?b k (queues_at ?b w f2r (sof k) a) t) ets)"
  proof -
    have eq: "map (\<lambda>(k, a, t). thread_of isal disk (agent w a) ?b k (queues_at ?b w f2r (sof k) a) t) ets =
      concat (map (\<lambda>s. map (\<lambda>(a, t). thread_of isal disk (agent w a) ?b (stripe_id s) (queues_at ?b w f2r s a) t) (stripe_tasks ?b w f2r s)) ?ss)"
      unfolding ets_def map_concat map_map comp_def
      by (rule arg_cong [where f = concat], rule map_cong [OF refl]) (simp add: sof case_prod_unfold)
    show ?thesis unfolding eq by (rule ths(2))
  qed
  have "\<exists>N. \<forall>k u. (net_step ^^ k) (ths, \<lambda>_. []) u \<longrightarrow> k \<le> N \<and> (k < N \<longrightarrow> (\<exists>u'. net_step u u')) \<and> (k = N \<longrightarrow> all_ended u \<and>
        snd u = (\<lambda>c. if c \<in> chan_of w ?b ` drained {} ?links then whole ?b pk coll n c else []))"
    by (rule net_schedules [OF sz len agents_reachable [OF ips] fit keys conjunct1 [OF wired] perm]) assumption+
  then obtain N where
    N: "\<And>k u. (net_step ^^ k) (ths, \<lambda>_. []) u \<Longrightarrow> k \<le> N \<and> (k < N \<longrightarrow> (\<exists>u'. net_step u u')) \<and> (k = N \<longrightarrow> all_ended u \<and>
        snd u = (\<lambda>c. if c \<in> chan_of w ?b ` drained {} ?links then whole ?b pk coll n c else []))" by blast
  have chans: "chan_of w ?b ` drained {} ?links = (\<lambda>(s, v). repaired_file w f2r s v) ` set files"
    unfolding conjunct2 [OF wired] by (simp add: restored_def files_def repaired_vertices_def repaired_file_def image_UN image_image)
  have packets: "whole ?b pk coll n (repaired_file w f2r s v) = file_packets pk n s v" if "(s, v) \<in> set files" for s v
  proof -
    obtain ip name where f: "repaired_file w f2r s v = File ip name" by (auto simp: repaired_file_def repair_file_def)
    have "s \<in> set ?ss" "v \<in> set (last (levels s))" using that by (auto simp: files_def repaired_vertices_def)
    then have "coll ip name = (stripe_id s, children_of (s_ecdag s) v)"
      using coll f by (simp add: collected_def repaired_file_def)
    then show ?thesis by (simp add: f whole_def file_packets_def)
  qed
  show ?thesis
  proof (rule exI [of _ ths], rule exI [of _ N], intro conjI allI impI)
    show "batch_threads isal disk w ecn eck f2r b st = Inr ths" by (rule ths(1))
  next
    fix k u assume u: "(net_step ^^ k) (ths, \<lambda>_. []) u"
    show "k \<le> N" using N [OF u] by blast
    show "\<exists>u'. net_step u u'" if "k < N" using N [OF u] that by blast
    assume k: "k = N"
    then show "all_ended u" using N [OF u] by blast
    have q: "snd u = (\<lambda>c. if c \<in> (\<lambda>(s, v). repaired_file w f2r s v) ` set files then whole ?b pk coll n c else [])"
      using N [OF u] k unfolding chans by blast
    show "\<forall>(s, v)\<in>set files. snd u (repaired_file w f2r s v) = file_packets pk n s v"
      using packets by (auto simp: q)
    show "snd u c = []" if "c \<notin> (\<lambda>(s, v). repaired_file w f2r s v) ` set files" for c using that by (simp add: q)
  qed
qed


section \<open>Properties\<close>

text \<open>C2: Repair from the planner's colouring to the repaired files. For a batch of deployable stripes and data that
  satisfies their repair DAGs (leaves on the disks, the other vertices computed from their children by ISA-L), the
  tasks that \<open>Stripe::genRepairTasks\<close> and \<open>RepairBatch::genRepairTasks\<close> produce make the agents start threads
  (\<open>Worker::repairBatch\<close>) of which every schedule is finite, never blocks before all threads have ended, and ends with
  each repaired block's file holding exactly the block's sub-packets, packet by packet and in order, and with every
  queue and every Redis list empty.\<close>

theorem repair_batch_restores:
  assumes "batch_ready ecn w f2r b st" and "sizes_are w sub n" and "pkt_len_ok pk sub"
    and "\<And>s. s \<in> set (batch_stripes b st) \<Longrightarrow> stripe_data isal disk w pk sub n (levels s) (planned f2r s)"
  defines "files \<equiv> repaired_vertices (batch_stripes b st)"
  shows "\<exists>ths N. batch_threads isal disk w ecn eck f2r b st = Inr ths \<and>
    (\<forall>k u. (net_step ^^ k) (ths, \<lambda>_. []) u \<longrightarrow> k \<le> N \<and> (k < N \<longrightarrow> (\<exists>u'. net_step u u')) \<and>
      (k = N \<longrightarrow> all_ended u \<and> (\<forall>(s, v)\<in>set files. snd u (repaired_file w f2r s v) = file_packets pk n s v) \<and>
        (\<forall>c. c \<notin> (\<lambda>(s, v). repaired_file w f2r s v) ` set files \<longrightarrow> snd u c = [])))"
  unfolding files_def by (rule batch_runs [OF assms(1-4)])

lemma run_of_length:
  assumes "\<And>k u. (net_step ^^ k) s u \<Longrightarrow> k < N \<Longrightarrow> \<exists>u'. net_step u u'" and "k \<le> N"
  shows "\<exists>u. (net_step ^^ k) s u"
  using assms(2)
proof (induction k)
  case (Suc k)
  then obtain u where u: "(net_step ^^ k) s u" by auto
  with assms(1) [OF u] Suc.prems obtain u' where "net_step u u'" by auto
  with u show ?case by (meson relpowp_Suc_I)
qed auto

text \<open>The stripe of theory RepairTasks on four nodes: one packet of one byte per block.\<close>

definition sample_conf :: worker_conf where
  "sample_conf = \<lparr>localIp = 0, blkBytes = 1, pktBytes = 1, conf_ecw = 1, agentsIPs = [10, 11, 12, 13], repairIPs = [],
     blkDir = ''/d'', recvGroupSize = 1, computeGroupSize = 1\<rparr>"

definition sample_pk :: "int \<Rightarrow> int \<Rightarrow> nat \<Rightarrow> string" where
  "sample_pk s d i = (if d = 1 then ''a'' else if d = 2 then [CHR 0x01] else ''b'')"

definition sample_disk :: disk where
  "sample_disk ip blk start k sub = Some (if blk = ''b1'' then ''a'' else [CHR 0x01])"

lemma sample_levels: "levels sample_repair = [[1, 2], [0], [REQUESTOR]]"
proof -
  have "genLeveledTopologicalSorting (s_ecdag sample_repair) = Some [[1, 2], [0], [REQUESTOR]]"
    by (rule genLeveled_eqI [OF wf_sample_repair]) code_simp
  then show ?thesis by (simp add: levels_def)
qed

lemma sample_ready: "batch_ready 3 sample_conf [(0, 3)] (new_RepairBatch 5 [0]) [sample_repair]"
proof -
  have ss: "batch_stripes (new_RepairBatch 5 [0]) [sample_repair] = [sample_repair]" by (simp add: batch_stripes_def new_RepairBatch_def)
  have dep: "deployed 3 1 [[1, 2], [0], [REQUESTOR]] (planned [(0, 3)] sample_repair)"
    unfolding deployed_def planned_fields
    by (intro conjI wf_sample_repair; code_simp)
  have "list_all (\<lambda>v. let c = color_of (remap_colors [(0, 3)] (coloring sample_repair)) v in
      c \<noteq> -1 \<longrightarrow> 0 \<le> c \<and> c < int (length (agentsIPs sample_conf @ repairIPs sample_conf))) (node_ids (s_ecdag sample_repair))"
    by code_simp
  moreover have "taskmap sample_repair = []" by (simp add: sample_repair_def new_stripe_def)
  ultimately show ?thesis
    using dep unfolding batch_ready_def ss by (simp add: sample_levels repaired_names_def new_RepairBatch_def sample_conf_def)
qed


lemma sample_data: "stripe_data isal_sum sample_disk sample_conf sample_pk 1 1 (levels sample_repair) (planned [(0, 3)] sample_repair)"
proof -
  let ?s = "planned [(0, 3)] sample_repair"
  let ?cl = "remap_colors [(0, 3)] (coloring sample_repair)"
  have cols: "color_of ?cl 1 = 1" "color_of ?cl 2 = 2" "color_of ?cl 0 = 3" by code_simp+
  have g: "children_of (s_ecdag sample_repair) 0 = [1, 2]" "coefs_of (s_ecdag sample_repair) 0 = [1, 1]" by code_simp+
  have blks: "blklist sample_repair ! Suc 0 = ''b1''" "blklist sample_repair ! 2 = ''b2''" "stripe_id sample_repair = 0" "conf_ecw sample_conf = 1"
    by code_simp+
  have "isal_sum 1 [char_of (1 :: int), char_of (1 :: int)] [''a'', [CHR 0x01]] = ''b''" by code_simp
  then have "sample_pk 0 0 0 = vertex_value isal_sum 1 sample_pk ?s 0 0"
    by (simp add: vertex_value_def g blks(3) sample_pk_def)
  then show ?thesis
    by (simp add: stripe_data_def sample_levels cols blks on_disk_def sample_disk_def sample_pk_def)
qed

lemma repair_batch_restores_witness:
  "\<exists>ths N u. batch_threads isal_sum sample_disk sample_conf 3 2 [(0, 3)] (new_RepairBatch 5 [0]) [sample_repair] = Inr ths \<and>
     (net_step ^^ N) (ths, \<lambda>_. []) u \<and> all_ended u \<and> snd u (File 13 ''/d/b0.repair'') = [Bytes ''b'']"
proof -
  have ss: "batch_stripes (new_RepairBatch 5 [0]) [sample_repair] = [sample_repair]" by (simp add: batch_stripes_def new_RepairBatch_def)
  have sizes: "sizes_are sample_conf 1 1" by (simp add: sizes_are_def sample_conf_def packet_sizes_def cdiv_def Let_def)
  have len: "pkt_len_ok sample_pk 1" by (simp add: pkt_len_ok_def sample_pk_def)
  have data: "stripe_data isal_sum sample_disk sample_conf sample_pk 1 1 (levels s) (planned [(0, 3)] s)"
    if "s \<in> set (batch_stripes (new_RepairBatch 5 [0]) [sample_repair])" for s
    using that sample_data by (simp add: ss)
  have "\<exists>ths N. batch_threads isal_sum sample_disk sample_conf 3 2 [(0, 3)] (new_RepairBatch 5 [0]) [sample_repair] = Inr ths \<and>
    (\<forall>k u. (net_step ^^ k) (ths, \<lambda>_. []) u \<longrightarrow> k \<le> N \<and> (k < N \<longrightarrow> (\<exists>u'. net_step u u')) \<and>
      (k = N \<longrightarrow> all_ended u \<and> (\<forall>(s, v)\<in>set (repaired_vertices [sample_repair]).
          snd u (repaired_file sample_conf [(0, 3)] s v) = file_packets sample_pk 1 s v) \<and>
        (\<forall>c. c \<notin> (\<lambda>(s, v). repaired_file sample_conf [(0, 3)] s v) ` set (repaired_vertices [sample_repair]) \<longrightarrow> snd u c = [])))"
    by (rule repair_batch_restores [OF sample_ready sizes len, unfolded ss]) (rule data, simp only: ss)
  then obtain ths N where ths: "batch_threads isal_sum sample_disk sample_conf 3 2 [(0, 3)] (new_RepairBatch 5 [0]) [sample_repair] = Inr ths"
    and r: "\<forall>k u. (net_step ^^ k) (ths, \<lambda>_. []) u \<longrightarrow> k \<le> N \<and> (k < N \<longrightarrow> (\<exists>u'. net_step u u')) \<and>
      (k = N \<longrightarrow> all_ended u \<and> (\<forall>(s, v)\<in>set (repaired_vertices [sample_repair]).
          snd u (repaired_file sample_conf [(0, 3)] s v) = file_packets sample_pk 1 s v) \<and>
        (\<forall>c. c \<notin> (\<lambda>(s, v). repaired_file sample_conf [(0, 3)] s v) ` set (repaired_vertices [sample_repair]) \<longrightarrow> snd u c = []))"
    by (elim exE conjE)
  note at = r [THEN spec, THEN spec, THEN mp]
  have "\<exists>u. (net_step ^^ N) (ths, \<lambda>_. []) u" 
    by (rule run_of_length [where N = N]) (use at in simp_all)
  then obtain u where u: "(net_step ^^ N) (ths, \<lambda>_. []) u" ..
  have fin: "all_ended u" "\<forall>(s, v)\<in>set (repaired_vertices [sample_repair]).
      snd u (repaired_file sample_conf [(0, 3)] s v) = file_packets sample_pk 1 s v"
    using at [OF u] by simp_all
  have "repaired_vertices [sample_repair] = [(sample_repair, REQUESTOR)]" by (simp add: repaired_vertices_def sample_levels)
  moreover have "repaired_file sample_conf [(0, 3)] sample_repair REQUESTOR = File 13 ''/d/b0.repair''" by code_simp
  moreover have "file_packets sample_pk 1 sample_repair REQUESTOR = [Bytes ''b'']" by code_simp
  ultimately have "snd u (File 13 ''/d/b0.repair'') = [Bytes ''b'']" using fin(2) by simp
  then show ?thesis using ths u fin(1) by blast
qed

end
