(* ===== verification/Rdp.thy ===== *)
theory Rdp
  imports RepairDag "HOL-Library.Word"
begin

text \<open>
  The RDP code (src/src/ec/RDP.cc): the tables its constructor builds, \<open>Encode\<close> and \<open>Decode\<close>,
  and the proof that it keeps the promise of \<open>erasure_code\<close> for one lost block.

  Sub-packet \<open>colid * w + rowid\<close> is row \<open>rowid\<close> of block \<open>colid\<close>; the blocks are \<open>k\<close> data blocks, the
  row parity and the diagonal parity.
\<close>

section \<open>Constructor\<close>

record rdp =
  rdp_n :: int
  rdp_k :: int
  rdp_w :: int
  rdp_p :: int
  idx2diag :: "int umap"
  diag2data :: "int list umap"
  diag2code :: "int umap"

definition rdp_cell :: "int \<times> int \<Rightarrow> rdp \<Rightarrow> rdp res" where
  \<comment> \<open>the body of the two loops, for (rowid, colid)\<close>
  "rdp_cell = (\<lambda>(rowid, colid) r.
     bindR (cmod (rowid + colid) (rdp_p r)) (\<lambda>d.
       let idx = colid * rdp_w r + rowid;
           r1 = r\<lparr>idx2diag := um_insert idx d (idx2diag r)\<rparr>
       in Inr (if d \<ge> rdp_w r then r1
               else if idx < rdp_p r * rdp_w r then r1\<lparr>diag2data := um_push d idx (diag2data r1)\<rparr>
               else r1\<lparr>diag2code := um_insert d idx (diag2code r1)\<rparr>)))"

definition rdp_cells :: "int \<Rightarrow> int \<Rightarrow> (int \<times> int) list" where
  "rdp_cells w n = concat (map (\<lambda>rowid. map (\<lambda>colid. (rowid, colid)) (map int [0..<nat n])) (map int [0..<nat w]))"

definition new_RDP :: "int \<Rightarrow> int \<Rightarrow> int \<Rightarrow> rdp res" where
  "new_RDP n k w =
     foldR rdp_cell (rdp_cells w n)
       \<lparr>rdp_n = n, rdp_k = k, rdp_w = w, rdp_p = k + 1, idx2diag = [], diag2data = [], diag2code = []\<rparr>"

section \<open>Encode and Decode\<close>

definition rdp_row_eq :: "rdp \<Rightarrow> int \<Rightarrow> equation" where
  "rdp_row_eq r i =
     (let data = map (\<lambda>j. j * rdp_w r + i) (map int [0..<nat (rdp_k r)])
      in (rdp_k r * rdp_w r + i, data, ones data))"

definition rdp_diag_eq :: "rdp \<Rightarrow> int \<times> int \<Rightarrow> equation" where
  "rdp_diag_eq r item = (let data = um_get [] (diag2data r) (fst item) in (snd item, data, ones data))"

definition rdp_Encode :: "rdp \<Rightarrow> ecdag" where
  "rdp_Encode r =
     join_all (map (rdp_diag_eq r) (diag2code r))
       (join_all (map (rdp_row_eq r) (map int [0..<nat (rdp_w r)])) new_ecdag)"

definition rdp_repair_row :: "rdp \<Rightarrow> int \<Rightarrow> int \<Rightarrow> equation" where
  "rdp_repair_row r fnodeidx i =
     (let data = map (\<lambda>j. j * rdp_w r + i) (filter (\<lambda>j. j \<noteq> fnodeidx) (map int [0..<nat (rdp_p r)]))
      in (fnodeidx * rdp_w r + i, data, ones data))"

definition rdp_repair_diag :: "rdp \<Rightarrow> int \<Rightarrow> ecdag \<Rightarrow> ecdag res" where
  "rdp_repair_diag r rowid g =
     bindR (cmod (rdp_n r - 1 + rowid) (rdp_p r)) (\<lambda>d.
       let data = um_get [] (diag2data r) d
       in Inr (Join ((rdp_n r - 1) * rdp_w r + rowid) data (ones data) g))"

definition rdp_Decode :: "rdp \<Rightarrow> int list \<Rightarrow> int list \<Rightarrow> ecdag option res" where
  "rdp_Decode r fr to =
     bindR (vget to 0) (\<lambda>t0.
     bindR (cdiv t0 (rdp_w r)) (\<lambda>fnodeidx.
     bindR (mapR (\<lambda>t. cdiv t (rdp_w r)) (tl to)) (\<lambda>ds.
       if \<not> list_all (\<lambda>d. d = fnodeidx) ds then Inr None
       else if fnodeidx \<noteq> rdp_n r - 1 then
         Inr (Some (join_all (map (rdp_repair_row r fnodeidx) (map int [0..<nat (rdp_w r)])) new_ecdag))
       else bindR (foldR (rdp_repair_diag r) (map int [0..<nat (rdp_w r)]) new_ecdag) (\<lambda>g. Inr (Some g)))))"

section \<open>The tables\<close>

text \<open>The parameters the code is for: \<open>n = k + 2\<close> blocks of at most \<open>k\<close> rows.\<close>

definition rdp_params :: "int \<Rightarrow> int \<Rightarrow> int \<Rightarrow> bool" where
  "rdp_params n k w \<longleftrightarrow> 1 \<le> k \<and> n = k + 2 \<and> 0 < w \<and> w \<le> k \<and> n * w \<le> REQUESTOR - n"

definition diag_data :: "int \<Rightarrow> int \<Rightarrow> (int \<times> int) list \<Rightarrow> int \<Rightarrow> int list" where
  "diag_data k w cells d =
     map (\<lambda>(r, c). c * w + r) (filter (\<lambda>(r, c). (r + c) mod (k + 1) = d \<and> c * w + r < (k + 1) * w) cells)"

definition code_of :: "int \<Rightarrow> int \<Rightarrow> int umap \<Rightarrow> (int \<times> int) list \<Rightarrow> bool" where
  "code_of k w m cells \<longleftrightarrow> um_wf m \<and> (\<forall>x y. (x, y) \<in> set m \<longleftrightarrow> (x, k + 1) \<in> set cells \<and> y = (k + 1) * w + x)"

lemma cell_index:
  fixes c r w p :: int
  assumes "0 \<le> r" "r < w" shows "c * w + r < p * w \<longleftrightarrow> c < p" and "(c * w + r) div w = c"
proof -
  show "(c * w + r) div w = c" using assms by (simp add: div_mult_self3)
  show "c * w + r < p * w \<longleftrightarrow> c < p"
  proof
    assume "c < p"
    then have "(c + 1) * w \<le> p * w" using assms by (intro mult_right_mono) auto
    then show "c * w + r < p * w" using assms by (simp add: algebra_simps)
  next
    assume "c * w + r < p * w"
    then have "c * w < p * w" using assms by linarith
    then show "c < p" using assms by (simp add: mult_less_cancel_right)
  qed
qed

lemma rdp_loop:
  assumes P: "rdp_params n k w" and cells: "set cells \<subseteq> {(r, c). 0 \<le> r \<and> r < w \<and> 0 \<le> c \<and> c < n}"
    and r: "rdp_n r = n" "rdp_k r = k" "rdp_w r = w" "rdp_p r = k + 1"
    and dd: "\<And>d. 0 \<le> d \<Longrightarrow> d < w \<Longrightarrow> um_get [] (diag2data r) d = diag_data k w done d"
    and dc: "code_of k w (diag2code r) done"
  shows "\<exists>r'. foldR rdp_cell cells r = Inr r' \<and>
    rdp_n r' = n \<and> rdp_k r' = k \<and> rdp_w r' = w \<and> rdp_p r' = k + 1 \<and>
    (\<forall>d. 0 \<le> d \<and> d < w \<longrightarrow> um_get [] (diag2data r') d = diag_data k w (done @ cells) d) \<and>
    code_of k w (diag2code r') (done @ cells)"
  using cells r dd dc
proof (induction cells arbitrary: r "done")
  case Nil
  then show ?case by auto
next
  case (Cons cell cells)
  obtain x c where cell: "cell = (x, c)" by (cases cell)
  have x: "0 \<le> x" "x < w" "0 \<le> c" "c < n" using Cons.prems(1) cell by auto
  let ?d = "(x + c) mod (k + 1)" and ?idx = "c * w + x"
  have k: "0 < k + 1" using P by (auto simp: rdp_params_def)
  have d: "0 \<le> ?d" using k by simp
  have data: "?idx < (k + 1) * w \<longleftrightarrow> c < k + 1" using x by (simp add: cell_index)
  have code: "c = k + 1 \<and> ?d = x" if "\<not> c < k + 1"
  proof -
    have "c = k + 1" using that x(4) P by (auto simp: rdp_params_def)
    moreover have "(x + (k + 1)) mod (k + 1) = x" using x P by (simp add: rdp_params_def)
    ultimately show ?thesis by simp
  qed
  let ?r1 = "r\<lparr>idx2diag := um_insert ?idx ?d (idx2diag r)\<rparr>"
  let ?r' = "if ?d \<ge> w then ?r1 else if c < k + 1 then ?r1\<lparr>diag2data := um_push ?d ?idx (diag2data r)\<rparr>
      else ?r1\<lparr>diag2code := um_insert ?d ?idx (diag2code r)\<rparr>"
  have step: "rdp_cell cell r = Inr ?r'"
    using Cons.prems(2-5) x k data by (simp add: rdp_cell_def cell Let_def)
  have dd': "um_get [] (diag2data ?r') j = diag_data k w (done @ [cell]) j" if "0 \<le> j" "j < w" for j
    using Cons.prems(6) [OF that] that data by (auto simp: diag_data_def cell um_get_push)
  have dc': "code_of k w (diag2code ?r') (done @ [cell])"
  proof (cases "c < k + 1")
    case True
    then show ?thesis using Cons.prems(7) by (auto simp: code_of_def cell)
  next
    case False
    have c: "c = k + 1" "?d = x" using code [OF False] by auto
    have m: "um_wf (diag2code r)" "\<And>a b. (a, b) \<in> set (diag2code r) \<longleftrightarrow> (a, k + 1) \<in> set done \<and> b = (k + 1) * w + a"
      using Cons.prems(7) by (auto simp: code_of_def)
    have "(a, b) \<in> set (um_insert x ?idx (diag2code r)) \<longleftrightarrow>
        (a, k + 1) \<in> set (done @ [cell]) \<and> b = (k + 1) * w + a" for a b
      using m(2) by (auto simp: um_insert_def um_has_def set_um_keys cell c(1) image_iff)
    then show ?thesis
      using False x(2) c m(1) unfolding code_of_def by (simp add: um_keys_insert)
  qed
  have "\<exists>r''. foldR rdp_cell cells ?r' = Inr r'' \<and>
    rdp_n r'' = n \<and> rdp_k r'' = k \<and> rdp_w r'' = w \<and> rdp_p r'' = k + 1 \<and>
    (\<forall>d. 0 \<le> d \<and> d < w \<longrightarrow> um_get [] (diag2data r'') d = diag_data k w ((done @ [cell]) @ cells) d) \<and>
    code_of k w (diag2code r'') ((done @ [cell]) @ cells)"
    using Cons.prems(1-5) dd' dc' by (intro Cons.IH) auto
  then show ?case unfolding foldR.simps step by simp
qed

lemma set_pairs: "set (concat (map (\<lambda>r. map (\<lambda>c. (r, c)) cs) rs)) = {(r, c). r \<in> set rs \<and> c \<in> set cs}"
  by auto

lemma distinct_pairs:
  "distinct rs \<Longrightarrow> distinct cs \<Longrightarrow> distinct (concat (map (\<lambda>r. map (\<lambda>c. (r, c)) cs) rs))"
  by (induction rs) (auto simp: distinct_map inj_on_def)

lemma set_rdp_cells: "set (rdp_cells w n) = {(r, c). 0 \<le> r \<and> r < w \<and> 0 \<le> c \<and> c < n}"
  unfolding rdp_cells_def set_pairs set_int_upt by auto

lemma distinct_rdp_cells: "distinct (rdp_cells w n)"
  unfolding rdp_cells_def by (rule distinct_pairs) (simp_all add: distinct_map)

text \<open>What the constructor leaves behind.\<close>

definition rdp_ok :: "int \<Rightarrow> int \<Rightarrow> rdp \<Rightarrow> bool" where
  "rdp_ok k w r \<longleftrightarrow> rdp_n r = k + 2 \<and> rdp_k r = k \<and> rdp_w r = w \<and> rdp_p r = k + 1 \<and>
     (\<forall>d. 0 \<le> d \<and> d < w \<longrightarrow> um_get [] (diag2data r) d = diag_data k w (rdp_cells w (k + 2)) d) \<and>
     um_wf (diag2code r) \<and> set (diag2code r) = (\<lambda>x. (x, (k + 1) * w + x)) ` {0..<w}"

lemma new_RDP_ok:
  assumes "rdp_params n k w" shows "\<exists>r. new_RDP n k w = Inr r \<and> rdp_ok k w r"
proof -
  have n: "n = k + 2" "1 \<le> k" using assms by (auto simp: rdp_params_def)
  let ?r0 = "\<lparr>rdp_n = n, rdp_k = k, rdp_w = w, rdp_p = k + 1, idx2diag = [], diag2data = [], diag2code = []\<rparr>"
  have "\<exists>r'. foldR rdp_cell (rdp_cells w n) ?r0 = Inr r' \<and>
    rdp_n r' = n \<and> rdp_k r' = k \<and> rdp_w r' = w \<and> rdp_p r' = k + 1 \<and>
    (\<forall>d. 0 \<le> d \<and> d < w \<longrightarrow> um_get [] (diag2data r') d = diag_data k w ([] @ rdp_cells w n) d) \<and>
    code_of k w (diag2code r') ([] @ rdp_cells w n)"
    using assms by (intro rdp_loop) (auto simp: set_rdp_cells diag_data_def um_get_def code_of_def)
  then show ?thesis
    using n by (auto simp: new_RDP_def rdp_ok_def code_of_def set_rdp_cells)
qed

lemma diag_data_props:
  assumes "1 \<le> k" "0 < w" "w \<le> k" "0 \<le> d" "d < w"
  shows "distinct (diag_data k w (rdp_cells w (k + 2)) d)" "diag_data k w (rdp_cells w (k + 2)) d \<noteq> []"
    and "\<And>v. v \<in> set (diag_data k w (rdp_cells w (k + 2)) d) \<Longrightarrow> 0 \<le> v \<and> 0 \<le> v div w \<and> v div w < k + 1"
proof -
  have "inj_on (\<lambda>(r, c). c * w + r) (set (rdp_cells w (k + 2)))"
  proof (rule inj_onI, clarify)
    fix r c r' c' assume "(r, c) \<in> set (rdp_cells w (k + 2))" "(r', c') \<in> set (rdp_cells w (k + 2))"
      and e: "c * w + r = c' * w + r'"
    then have b: "0 \<le> r" "r < w" "0 \<le> r'" "r' < w" by (auto simp: set_rdp_cells)
    have "c = c'" using cell_index(2) [OF b(1,2), of c] cell_index(2) [OF b(3,4), of c'] e by simp
    then show "r = r' \<and> c = c'" using e by simp
  qed
  then show "distinct (diag_data k w (rdp_cells w (k + 2)) d)"
    unfolding diag_data_def distinct_map using distinct_rdp_cells by (auto intro: inj_on_subset)
  have "(d, 0) \<in> set (filter (\<lambda>(r, c). (r + c) mod (k + 1) = d \<and> c * w + r < (k + 1) * w) (rdp_cells w (k + 2)))"
    using assms cell_index(1) [of d w 0 "k + 1"] by (auto simp: set_rdp_cells)
  then show "diag_data k w (rdp_cells w (k + 2)) d \<noteq> []"
    unfolding diag_data_def map_is_Nil_conv by (metis empty_iff list.set(1))
  show "0 \<le> v \<and> 0 \<le> v div w \<and> v div w < k + 1"
    if v: "v \<in> set (diag_data k w (rdp_cells w (k + 2)) d)" for v
  proof -
    have "\<exists>r c. v = c * w + r \<and> 0 \<le> r \<and> r < w \<and> 0 \<le> c \<and> c * w + r < (k + 1) * w"
      using v by (auto simp: diag_data_def set_rdp_cells)
    then obtain r c where rc: "v = c * w + r" "0 \<le> r" "r < w" "0 \<le> c" "c * w + r < (k + 1) * w"
      by blast
    then show ?thesis using assms cell_index [OF rc(2,3), of c] by simp
  qed
qed

section \<open>The code keeps its promise\<close>

text \<open>A codeword: values of a field of characteristic 2 that satisfy every parity equation.\<close>

definition rdp_codeword :: "int \<Rightarrow> int \<Rightarrow> (int \<Rightarrow> 'a::comm_ring_1) \<Rightarrow> bool" where
  "rdp_codeword k w f \<longleftrightarrow> (1 + 1 :: 'a) = 0 \<and>
     (\<forall>i\<in>{0..<w}. f (k * w + i) = (\<Sum>j\<leftarrow>map int [0..<nat k]. f (j * w + i))) \<and>
     (\<forall>d\<in>{0..<w}. f ((k + 1) * w + d) = (\<Sum>x\<leftarrow>diag_data k w (rdp_cells w (k + 2)) d. f x))"

text \<open>In characteristic 2 a row parity can be solved for any of its members.\<close>

lemma xor_solve:
  fixes f :: "int \<Rightarrow> 'a::comm_ring_1"
  assumes two: "(1 + 1 :: 'a) = 0" and d: "distinct xs" and x: "x \<in> set xs" and z: "(\<Sum>y\<leftarrow>xs. f y) = 0"
  shows "f x = (\<Sum>y\<leftarrow>filter (\<lambda>y. y \<noteq> x) xs. f y)"
proof -
  have "set (filter (\<lambda>y. y \<noteq> x) xs) = set xs - {x}" by auto
  then have "(\<Sum>y\<leftarrow>xs. f y) = f x + (\<Sum>y\<leftarrow>filter (\<lambda>y. y \<noteq> x) xs. f y)"
    using d x by (simp add: sum_list_distinct_conv_sum_set sum.remove [of "set xs" x])
  moreover have "a + a = 0" for a :: 'a
    using two by (metis distrib_left mult.right_neutral mult_zero_right)
  ultimately show ?thesis using z by (metis add_eq_0_iff add.inverse_unique)
qed

lemma rdp_row_zero:
  assumes "rdp_codeword k w f" and "1 \<le> k" and "0 \<le> i" "i < w"
  shows "(\<Sum>j\<leftarrow>map int [0..<nat (k + 1)]. f (j * w + i)) = 0"
proof -
  have "nat (k + 1) = Suc (nat k)" using assms(2) by simp
  then have "(\<Sum>j\<leftarrow>map int [0..<nat (k + 1)]. f (j * w + i)) =
      (\<Sum>j\<leftarrow>map int [0..<nat k]. f (j * w + i)) + f (k * w + i)"
    using assms(2) by simp
  also have "\<dots> = f (k * w + i) + f (k * w + i)" using assms by (simp add: rdp_codeword_def)
  also have "\<dots> = (1 + 1) * f (k * w + i)" by (simp only: distrib_right mult_1_left)
  finally show ?thesis using assms(1) by (simp add: rdp_codeword_def)
qed

definition rdp_ec :: "rdp \<Rightarrow> ec_base" where
  "rdp_ec r = \<lparr>ec_n = rdp_n r, ec_k = rdp_k r, ec_w = rdp_w r, ec_Decode = rdp_Decode r\<rparr>"

text \<open>The repair equations of block \<open>b\<close>: by rows, or by diagonals for the last block.\<close>

definition rdp_eqs :: "rdp \<Rightarrow> int \<Rightarrow> equation list" where
  "rdp_eqs r b =
     (if b \<noteq> rdp_n r - 1 then map (rdp_repair_row r b) (map int [0..<nat (rdp_w r)])
      else map (\<lambda>i. (b * rdp_w r + i, um_get [] (diag2data r) i, ones (um_get [] (diag2data r) i)))
             (map int [0..<nat (rdp_w r)]))"

lemma rdp_Decode_eqs:
  assumes P: "rdp_params (k + 2) k w" and r: "rdp_ok k w r" and b: "0 \<le> b" "b < k + 2"
  shows "rdp_Decode r fr (block_pkts w b) = Inr (Some (join_all (rdp_eqs r b) new_ecdag))"
proof -
  have w: "rdp_w r = w" "rdp_p r = k + 1" "rdp_n r = k + 2" "0 < w" "0 < k + 1" "w \<le> k"
    using P r by (auto simp: rdp_params_def rdp_ok_def)
  let ?to = "block_pkts w b"
  have len: "length ?to = nat w" "?to \<noteq> []" using w(4) by (auto simp: block_pkts_def)
  have nn: "0 \<le> b * w" using b(1) w(4) by simp
  have div: "cdiv t w = Inr b" if "t \<in> set ?to" for t
  proof -
    have "0 \<le> t" using that nn by (simp add: block_pkts_set)
    then show ?thesis using block_pkts_div [OF that] w(4) by simp
  qed
  have t0: "vget ?to 0 = Inr (hd ?to)" "hd ?to \<in> set ?to" using len w(4) by (auto simp: hd_conv_nth)
  have tl: "mapR (\<lambda>t. cdiv t w) (tl ?to) = Inr (map (\<lambda>_. b) (tl ?to))"
    using div len(2) by (intro mapR_pure) (auto dest: list.set_sel(2))
  have diag: "foldR (rdp_repair_diag r) (map int is) g =
      Inr (join_all (map (\<lambda>i. (b * w + i, um_get [] (diag2data r) i, ones (um_get [] (diag2data r) i))) (map int is)) g)"
    if "b = k + 1" "set is \<subseteq> {..<nat w}" for "is" g
    using that(2)
  proof (induction "is" arbitrary: g)
    case Nil
    then show ?case by (simp add: join_all_def)
  next
    case (Cons i "is")
    have "int i < k + 1" using Cons.prems w(6) by (auto simp: nat_less_iff)
    then have "(k + 1 + int i) mod (k + 1) = int i" by simp
    then have "cmod (k + 1 + int i) (k + 1) = Inr (int i)" using w(5) by simp
    then have "rdp_repair_diag r (int i) g =
        Inr (Join (b * w + int i) (um_get [] (diag2data r) (int i)) (ones (um_get [] (diag2data r) (int i))) g)"
      using w(1-3) that(1) by (simp add: rdp_repair_diag_def add.commute Let_def)
    then show ?case using Cons by (simp add: join_all_def)
  qed
  have last: "rdp_n r - 1 = k + 1" using w(3) by simp
  show ?thesis
    using t0 div [OF t0(2)] tl diag [of "[0..<nat w]" new_ecdag] w(1-3) last
    by (auto simp: rdp_Decode_def rdp_eqs_def list_all_iff subset_iff add.commute [of k 1] simp del: map_map)
qed

lemma rdp_eqs_props:
  assumes P: "rdp_params (k + 2) k w" and r: "rdp_ok k w r" and b: "0 \<le> b" "b < k + 2" and e: "e \<in> set (rdp_eqs r b)"
  shows "\<exists>i xs. 0 \<le> i \<and> i < w \<and> e = (b * w + i, xs, ones xs) \<and> xs \<noteq> [] \<and> distinct xs \<and>
    (\<forall>v\<in>set xs. 0 \<le> v \<and> v div w \<noteq> b \<and> v div w < k + 2) \<and>
    (\<forall>f. rdp_codeword k w f \<longrightarrow> f (b * w + i) = (\<Sum>x\<leftarrow>xs. f x))"
proof (cases "b = k + 1")
  case True
  have w: "rdp_w r = w" "rdp_n r = k + 2" and dd: "\<And>d. 0 \<le> d \<Longrightarrow> d < w \<Longrightarrow>
      um_get [] (diag2data r) d = diag_data k w (rdp_cells w (k + 2)) d"
    using r by (auto simp: rdp_ok_def)
  have k: "1 \<le> k" "0 < w" "w \<le> k" using P by (auto simp: rdp_params_def)
  have "b = rdp_n r - 1" using True w by simp
  with e w obtain i where i: "i \<in> set (map int [0..<nat w])"
    "e = (b * w + i, um_get [] (diag2data r) i, ones (um_get [] (diag2data r) i))"
    by (auto simp: rdp_eqs_def)
  then have iw: "0 \<le> i" "i < w" unfolding set_int_upt by auto
  note D = diag_data_props [OF k iw]
  have "v div w \<noteq> b \<and> v div w < k + 2" if "v \<in> set (diag_data k w (rdp_cells w (k + 2)) i)" for v
    using D(3) [OF that] True by linarith
  then show ?thesis
    using iw D i(2) dd [OF iw] True
    by (intro exI [of _ i] exI [of _ "diag_data k w (rdp_cells w (k + 2)) i"]) (auto simp: rdp_codeword_def)
next
  case False
  have w: "rdp_w r = w" "rdp_n r = k + 2" "rdp_p r = k + 1" using r by (auto simp: rdp_ok_def)
  have k: "1 \<le> k" "0 < w" using P by (auto simp: rdp_params_def)
  let ?js = "filter (\<lambda>j. j \<noteq> b) (map int [0..<nat (k + 1)])"
  have "b \<noteq> rdp_n r - 1" using False w by simp
  with e w obtain i where i: "i \<in> set (map int [0..<nat w])" "e = rdp_repair_row r b i"
    by (auto simp: rdp_eqs_def)
  then have iw: "0 \<le> i" "i < w" unfolding set_int_upt by auto
  let ?xs = "map (\<lambda>j. j * w + i) ?js"
  have js: "set ?js = {j. 0 \<le> j \<and> j < k + 1 \<and> j \<noteq> b}" unfolding set_filter set_int_upt by auto
  have "(if b = 0 then 1 else 0) \<in> set ?js" unfolding js using k(1) by auto
  then have ne: "?xs \<noteq> []" by (metis empty_iff list.set(1) map_is_Nil_conv)
  have ds: "distinct ?xs" using k(2) by (auto simp: distinct_map inj_on_def)
  have vs: "0 \<le> v \<and> v div w \<noteq> b \<and> v div w < k + 2" if v: "v \<in> set ?xs" for v
  proof -
    from v have "v \<in> (\<lambda>j. j * w + i) ` set ?js" by (simp only: set_map)
    then obtain j where j: "v = j * w + i" "0 \<le> j" "j < k + 1" "j \<noteq> b" unfolding js by blast
    then show ?thesis using cell_index(2) [OF iw, of j] k(2) iw(1) by simp
  qed
  have "f (b * w + i) = (\<Sum>x\<leftarrow>?xs. f x)" if f: "rdp_codeword k w f" for f :: "int \<Rightarrow> 'a"
  proof -
    have "b \<in> set (map int [0..<nat (k + 1)])" unfolding set_int_upt using b False by auto
    from xor_solve [OF _ _ this rdp_row_zero [OF f k(1) iw]] f show ?thesis
      by (simp add: rdp_codeword_def distinct_map o_def)
  qed
  moreover have "e = (b * w + i, ?xs, ones ?xs)" using i(2) w by (simp add: rdp_repair_row_def Let_def)
  ultimately show ?thesis using iw ne ds vs by (intro exI [of _ i] exI [of _ ?xs]) blast
qed

lemma rdp_decodes:
  assumes P: "rdp_params (k + 2) k w" and r: "rdp_ok k w r" and l: "one_lost (k + 2) live lost"
  shows "0 < ec_n (rdp_ec r) \<and> 0 < ec_w (rdp_ec r) \<and>
      (\<exists>g. ec_Decode (rdp_ec r) (concat (map (block_pkts (ec_w (rdp_ec r))) live))
            (concat (map (block_pkts (ec_w (rdp_ec r))) lost)) = Inr (Some g) \<and>
         wf_ecdag g \<and> ecConcacts g = [] \<and>
         set (ecLeaves g) \<subseteq> set (concat (map (block_pkts (ec_w (rdp_ec r))) live)) \<and>
         set (concat (map (block_pkts (ec_w (rdp_ec r))) lost)) \<subseteq> set (node_ids g) \<and>
         (\<forall>v\<in>set (node_ids g). v < REQUESTOR - ec_n (rdp_ec r)) \<and>
         (\<forall>f. rdp_codeword k w f \<and> emb 1 = (1::'a::comm_ring_1) \<longrightarrow>
            (\<exists>h. satisfies emb g h \<and> (\<forall>v<ec_n (rdp_ec r) * ec_w (rdp_ec r). h v = f v))))"
proof -
  from l obtain b where b: "0 \<le> b" "b < k + 2" "lost = [b]"
    "live = filter (\<lambda>i. i \<noteq> b) (map int [0..<nat (k + 2)])" by (auto simp: one_lost_def)
  have k: "1 \<le> k" "0 < w" "w \<le> k" "(k + 2) * w \<le> REQUESTOR - (k + 2)" using P by (auto simp: rdp_params_def)
  have ec: "ec_n (rdp_ec r) = k + 2" "ec_w (rdp_ec r) = w" "rdp_w r = w" "rdp_n r = k + 2"
    using r by (simp_all add: rdp_ec_def rdp_ok_def)
  note E = rdp_eqs_props [OF P r b(1,2)]
  have parents: "fst ` set (rdp_eqs r b) = set (block_pkts w b)"
  proof -
    have "map fst (rdp_eqs r b) = block_pkts w b"
      by (simp add: rdp_eqs_def ec rdp_repair_row_def Let_def block_pkts_def o_def)
    then show ?thesis by (metis list.set_map)
  qed
  have dist: "distinct (map fst (rdp_eqs r b))"
    by (auto simp: rdp_eqs_def ec rdp_repair_row_def Let_def distinct_map inj_on_def)
  have live: "set cs \<subseteq> set (concat (map (block_pkts w) live))" if e: "(p, cs, cfs) \<in> set (rdp_eqs r b)" for p cs cfs
  proof
    fix v assume "v \<in> set cs"
    with E [OF e, where 'a = 'a] have v: "v div w \<noteq> b" "0 \<le> v" "v div w < k + 2" by auto
    then show "v \<in> set (concat (map (block_pkts w) live))"
      unfolding live_pkts [OF b(4)] block_pkts_iff [OF k(2)] using k(2)
      by (intro exI [of _ "v div w"]) (simp add: pos_imp_zdiv_nonneg_iff)
  qed
  have small: "v < REQUESTOR - (k + 2)"
    if e: "(p, cs, cfs) \<in> set (rdp_eqs r b)" and v: "v \<in> insert p (set cs)" for p cs cfs v
  proof -
    have "v div w < k + 2"
    proof (cases "v = p")
      case True
      then have "v \<in> set (block_pkts w b)" using e parents by force
      then show ?thesis using b(2) by (simp add: block_pkts_div)
    next
      case False
      then show ?thesis using v E [OF e, where 'a = 'a] by auto
    qed
    moreover have "k + 2 \<le> v div w" if "(k + 2) * w \<le> v"
      using zdiv_mono1 [OF that k(2)] k(2) by simp
    ultimately have "v < (k + 2) * w" by fastforce
    then show ?thesis using k(4) by linarith
  qed
  have ok: "eqs_ok {} (rdp_eqs r b)"
  proof (rule eqs_ok_list [OF _ dist])
    fix e assume "e \<in> set (rdp_eqs r b)"
    from E [OF this, where 'a = 'a] show "fst e \<notin> {} \<and> fst (snd e) \<noteq> [] \<and> distinct (fst (snd e))" by auto
  next
    fix e e' assume e: "e \<in> set (rdp_eqs r b)" "e' \<in> set (rdp_eqs r b)"
    have "fst e div w = b" using e(1) parents block_pkts_div by blast
    then show "fst e \<notin> set (fst (snd e'))" using E [OF e(2), where 'a = 'a] by auto
  qed
  have eqn: "f p = combine emb f cfs cs"
    if "rdp_codeword k w f \<and> emb 1 = 1" "(p, cs, cfs) \<in> set (rdp_eqs r b)" for f :: "int \<Rightarrow> 'a" and p cs cfs
    using E [OF that(2), where 'a = 'a] that(1) by (auto simp: combine_ones)
  show ?thesis
  proof (intro conjI decode_by_equations [where es = "rdp_eqs r b"])
    show "0 < ec_n (rdp_ec r)" "0 < ec_w (rdp_ec r)" using k ec by simp_all
    show "ec_Decode (rdp_ec r) (concat (map (block_pkts (ec_w (rdp_ec r))) live))
        (concat (map (block_pkts (ec_w (rdp_ec r))) lost)) = Inr (Some (join_all (rdp_eqs r b) new_ecdag))"
      using rdp_Decode_eqs [OF P r b(1,2)] b(3) ec by (simp add: rdp_ec_def)
    show "set cs \<subseteq> set (concat (map (block_pkts (ec_w (rdp_ec r))) live)) \<union> fst ` set (rdp_eqs r b)"
      if "(p, cs, cfs) \<in> set (rdp_eqs r b)" for p cs cfs
      using live [OF that] ec by auto
    show "set (concat (map (block_pkts (ec_w (rdp_ec r))) lost)) \<subseteq> fst ` set (rdp_eqs r b)"
      using parents b(3) ec by simp
    show "\<exists>h. (\<forall>(p, cs, cfs)\<in>set (rdp_eqs r b). h p = combine emb h cfs cs) \<and>
        (\<forall>v<ec_n (rdp_ec r) * ec_w (rdp_ec r). h v = f v)"
      if "rdp_codeword k w f \<and> emb 1 = 1" for f
      using eqn [OF that] by blast
  qed (use ok small ec in auto)
qed

interpretation rdp: erasure_code "rdp_ec r" emb "\<lambda>f. rdp_codeword k w f \<and> emb 1 = 1"
    "\<lambda>live lost. rdp_params (k + 2) k w \<and> rdp_ok k w r \<and> one_lost (k + 2) live lost"
  for r k w and emb :: "int \<Rightarrow> 'a::comm_ring_1"
  using rdp_decodes by unfold_locales blast

section \<open>Encode\<close>

lemma rdp_Encode_eqs:
  "rdp_Encode r = join_all (map (rdp_row_eq r) (map int [0..<nat (rdp_w r)]) @ map (rdp_diag_eq r) (diag2code r)) new_ecdag"
  by (simp add: rdp_Encode_def join_all_def)

lemma rdp_row_eq_props:
  assumes "1 \<le> k" "0 < w" "rdp_k r = k" "rdp_w r = w" "0 \<le> i" "i < w"
  shows "rdp_row_eq r i = (k * w + i, map (\<lambda>j. j * w + i) (map int [0..<nat k]), ones (map int [0..<nat k]))"
    and "\<And>v. v \<in> set (map (\<lambda>j. j * w + i) (map int [0..<nat k])) \<Longrightarrow> v div w < k"
    and "distinct (map (\<lambda>j. j * w + i) (map int [0..<nat k]))"
    and "map (\<lambda>j. j * w + i) (map int [0..<nat k]) \<noteq> []"
proof -
  show "rdp_row_eq r i = (k * w + i, map (\<lambda>j. j * w + i) (map int [0..<nat k]), ones (map int [0..<nat k]))"
    using assms by (simp add: rdp_row_eq_def Let_def ones_def)
  show "v div w < k" if v: "v \<in> set (map (\<lambda>j. j * w + i) (map int [0..<nat k]))" for v
  proof -
    from v have "v \<in> (\<lambda>j. j * w + i) ` set (map int [0..<nat k])" by (simp only: set_map)
    then obtain j where "v = j * w + i" "j < k" unfolding set_int_upt by blast
    then show ?thesis using cell_index(2) [OF assms(5,6), of j] by simp
  qed
  show "distinct (map (\<lambda>j. j * w + i) (map int [0..<nat k]))"
    using assms(2) by (auto simp: distinct_map inj_on_def)
  show "map (\<lambda>j. j * w + i) (map int [0..<nat k]) \<noteq> []" using assms(1) by simp
qed

lemma rdp_Encode_ok:
  assumes P: "rdp_params (k + 2) k w" and r: "rdp_ok k w r"
  shows "eqs_ok {} (map (rdp_row_eq r) (map int [0..<nat (rdp_w r)]) @ map (rdp_diag_eq r) (diag2code r))"
proof -
  have k: "1 \<le> k" "0 < w" "w \<le> k" using P by (auto simp: rdp_params_def)
  have w: "rdp_w r = w" "rdp_k r = k" and codes: "set (diag2code r) = (\<lambda>x. (x, (k + 1) * w + x)) ` {0..<w}"
    using r by (simp_all add: rdp_ok_def)
  note R = rdp_row_eq_props [OF k(1,2) w(2,1)]
  let ?rows = "map (rdp_row_eq r) (map int [0..<nat w])" and ?diags = "map (rdp_diag_eq r) (diag2code r)"
  have row: "\<exists>i. 0 \<le> i \<and> i < w \<and> e = rdp_row_eq r i" if e: "e \<in> set ?rows" for e
  proof -
    from e have "e \<in> rdp_row_eq r ` set (map int [0..<nat w])" by (simp only: set_map)
    then show ?thesis unfolding set_int_upt by blast
  qed
  have row': "fst e div w = k \<and> fst (snd e) \<noteq> [] \<and> distinct (fst (snd e)) \<and> (\<forall>v\<in>set (fst (snd e)). v div w < k)"
    if e: "e \<in> set ?rows" for e
  proof -
    obtain i where i: "0 \<le> i" "i < w" "e = rdp_row_eq r i" using row [OF e] by blast
    show ?thesis
      using R(2-4) [OF i(1,2)] cell_index(2) [OF i(1,2), of k] unfolding i(3) R(1) [OF i(1,2)] by auto
  qed
  have "eqs_ok {} ?rows"
  proof (rule eqs_ok_list)
    show "fst e \<notin> {} \<and> fst (snd e) \<noteq> [] \<and> distinct (fst (snd e))" if "e \<in> set ?rows" for e
      using row' [OF that] by simp
    have "map fst ?rows = map (\<lambda>i. k * w + i) (map int [0..<nat w])"
      by (simp add: rdp_row_eq_def Let_def w o_def)
    then show "distinct (map fst ?rows)" by (simp add: distinct_map inj_on_def)
    show "fst e \<notin> set (fst (snd e'))" if "e \<in> set ?rows" "e' \<in> set ?rows" for e e'
      using row' [OF that(1)] row' [OF that(2)] by auto
  qed
  moreover have diag: "fst e div w = k + 1 \<and> fst (snd e) \<noteq> [] \<and> distinct (fst (snd e)) \<and>
      (\<forall>v\<in>set (fst (snd e)). v div w < k + 1)" if e: "e \<in> set ?diags" for e
  proof -
    from e have "e \<in> rdp_diag_eq r ` set (diag2code r)" by (simp only: set_map)
    then obtain d where d: "d \<in> {0..<w}" "e = rdp_diag_eq r (d, (k + 1) * w + d)"
      unfolding codes by blast
    then have dw: "0 \<le> d" "d < w" by auto
    have "um_get [] (diag2data r) d = diag_data k w (rdp_cells w (k + 2)) d"
      using r dw by (simp add: rdp_ok_def)
    with d(2) diag_data_props [OF k dw] cell_index(2) [OF dw, of "k + 1"] show ?thesis
      by (simp add: rdp_diag_eq_def Let_def)
  qed
  have "eqs_ok (\<Union>(p, cs, cfs)\<in>set ?rows. insert p (set cs)) ?diags"
  proof (rule eqs_ok_list)
    show "fst e \<notin> (\<Union>(p, cs, cfs)\<in>set ?rows. insert p (set cs)) \<and> fst (snd e) \<noteq> [] \<and> distinct (fst (snd e))"
      if e: "e \<in> set ?diags" for e
    proof -
      have "v div w \<le> k" if "(p, cs, cfs) \<in> set ?rows" "v \<in> insert p (set cs)" for p cs cfs v
        using row' [OF that(1)] that(2) by auto
      then have "fst e \<notin> (\<Union>(p, cs, cfs)\<in>set ?rows. insert p (set cs))"
        using diag [OF e] by (metis (mono_tags, lifting) UN_E add_le_same_cancel1 case_prod_beta not_one_le_zero prod.collapse)
      with diag [OF e] show ?thesis by blast
    qed
    have "inj_on snd (set (diag2code r))" using r by (auto simp: rdp_ok_def inj_on_def)
    moreover have "distinct (diag2code r)" using r by (auto simp: rdp_ok_def um_keys_def distinct_map)
    ultimately show "distinct (map fst ?diags)"
      by (simp add: rdp_diag_eq_def Let_def o_def distinct_map)
    show "fst e \<notin> set (fst (snd e'))" if "e \<in> set ?diags" "e' \<in> set ?diags" for e e'
      using diag [OF that(1)] diag [OF that(2)] by fastforce
  qed
  ultimately show ?thesis unfolding eqs_ok_append w(1) by simp
qed

lemma rdp_Encode_satisfies:
  assumes P: "rdp_params (k + 2) k w" and r: "rdp_ok k w r"
    and emb: "emb 1 = (1::'a::comm_ring_1)" and two: "(1 + 1 :: 'a) = 0"
  shows "satisfies emb (rdp_Encode r) f \<longleftrightarrow> rdp_codeword k w f"
proof -
  have k: "1 \<le> k" "0 < w" using P by (auto simp: rdp_params_def)
  have w: "rdp_w r = w" "rdp_k r = k" and codes: "set (diag2code r) = (\<lambda>x. (x, (k + 1) * w + x)) ` {0..<w}"
    and dd: "\<And>d. d \<in> {0..<w} \<Longrightarrow> um_get [] (diag2data r) d = diag_data k w (rdp_cells w (k + 2)) d"
    using r by (simp_all add: rdp_ok_def)
  have holds: "(case rdp_row_eq r i of (p, cs, cfs) \<Rightarrow> f p = combine emb f cfs cs) \<longleftrightarrow>
      f (k * w + i) = (\<Sum>j\<leftarrow>map int [0..<nat k]. f (j * w + i))" for i
    by (simp add: rdp_row_eq_def Let_def w combine_ones [where emb = emb, OF emb] o_def)
  have one: "(case rdp_diag_eq r (d, (k + 1) * w + d) of (p, cs, cfs) \<Rightarrow> f p = combine emb f cfs cs) \<longleftrightarrow>
      f ((k + 1) * w + d) = (\<Sum>x\<leftarrow>diag_data k w (rdp_cells w (k + 2)) d. f x)" if "d \<in> {0..<w}" for d
    by (simp add: rdp_diag_eq_def Let_def dd [OF that] combine_ones [where emb = emb, OF emb])
  have diags: "(\<forall>e\<in>set (map (rdp_diag_eq r) (diag2code r)). case e of (p, cs, cfs) \<Rightarrow> f p = combine emb f cfs cs) \<longleftrightarrow>
      (\<forall>d\<in>{0..<w}. f ((k + 1) * w + d) = (\<Sum>x\<leftarrow>diag_data k w (rdp_cells w (k + 2)) d. f x))"
    unfolding set_map codes ball_simps(9) by (rule ball_cong [OF refl one])
  have "set (map int [0..<nat w]) = {0..<w}" unfolding set_int_upt by auto
  then have rows: "(\<forall>e\<in>set (map (rdp_row_eq r) (map int [0..<nat (rdp_w r)])). case e of (p, cs, cfs) \<Rightarrow> f p = combine emb f cfs cs) \<longleftrightarrow>
      (\<forall>i\<in>{0..<w}. f (k * w + i) = (\<Sum>j\<leftarrow>map int [0..<nat k]. f (j * w + i)))"
    unfolding w(1) set_map [of "rdp_row_eq r"] ball_simps(9) holds by simp
  have "satisfies emb (rdp_Encode r) f \<longleftrightarrow>
      (\<forall>e\<in>set (map (rdp_row_eq r) (map int [0..<nat (rdp_w r)]) @ map (rdp_diag_eq r) (diag2code r)).
         case e of (p, cs, cfs) \<Rightarrow> f p = combine emb f cfs cs)"
    unfolding rdp_Encode_eqs by (rule satisfies_join_all [OF rdp_Encode_ok [OF P r]])
  then show ?thesis
    unfolding set_append ball_Un rows diags rdp_codeword_def using two by blast
qed

section \<open>Properties\<close>

text \<open>C21: Encoding, losing any one block and decoding gives the block back. With the parameters RDP
  is for, the constructor builds its tables without a fault, and for every lost block \<open>Decode\<close>
  answers with a well-formed DAG whose leaves are sub-packets of surviving blocks; whoever
  evaluates that DAG on sub-packets that \<open>Encode\<close> produced obtains the lost sub-packets. The
  sub-packets are read in a ring in which \<open>1 + 1 = 0\<close>, as XOR arithmetic is.\<close>

theorem rdp_encode_decode:
  fixes emb :: "int \<Rightarrow> 'a::comm_ring_1"
  assumes "rdp_params n k w" and "emb 1 = 1" and "(1 + 1 :: 'a) = 0" and "0 \<le> b" and "b < n"
  defines "live \<equiv> concat (map (block_pkts w) (filter (\<lambda>i. i \<noteq> b) (map int [0..<nat n])))"
  shows "\<exists>r g. new_RDP n k w = Inr r \<and> rdp_Decode r live (block_pkts w b) = Inr (Some g) \<and>
    wf_ecdag g \<and> set (ecLeaves g) \<subseteq> set live \<and>
    (\<forall>f h. satisfies emb (rdp_Encode r) f \<and> satisfies emb g h \<and> (\<forall>v\<in>set live. h v = f v) \<longrightarrow>
       (\<forall>p\<in>set (block_pkts w b). h p = f p))"
proof -
  have n: "n = k + 2" using assms(1) by (simp add: rdp_params_def)
  obtain r where r: "new_RDP n k w = Inr r" "rdp_ok k w r" using new_RDP_ok [OF assms(1)] by blast
  let ?live = "filter (\<lambda>i. i \<noteq> b) (map int [0..<nat n])"
  have one: "one_lost (k + 2) ?live [b]" using assms(4,5) n by (simp add: one_lost_def)
  have sup: "rdp_params (k + 2) k w \<and> rdp_ok k w r \<and> one_lost (k + 2) ?live [b]"
    using assms(1) n r(2) one by simp
  have ec: "ec_w (rdp_ec r) = w" "ec_n (rdp_ec r) = n" "ec_Decode (rdp_ec r) = rdp_Decode r"
    using r(2) n by (simp_all add: rdp_ec_def rdp_ok_def)
  obtain g where g: "rdp_Decode r live (block_pkts w b) = Inr (Some g)" "wf_ecdag g" "set (ecLeaves g) \<subseteq> set live"
    using rdp.decode [OF sup, where emb = emb] ec by (auto simp: live_def)
  have "h p = f p" if f: "satisfies emb (rdp_Encode r) f" and h: "satisfies emb g h"
    and a: "\<forall>v\<in>set live. h v = f v" and p: "p \<in> set (block_pkts w b)" for f h p
  proof (rule rdp.recovers [OF sup])
    show "ec_Decode (rdp_ec r) (concat (map (block_pkts (ec_w (rdp_ec r))) ?live))
        (concat (map (block_pkts (ec_w (rdp_ec r))) [b])) = Inr (Some g)"
      using g(1) ec by (simp add: live_def)
    show "rdp_codeword k w f \<and> emb 1 = 1"
      using rdp_Encode_satisfies [where emb = emb, OF _ r(2) assms(2,3)] f assms(1,2) n by simp
    show "h v = f v" if "v \<in> set (concat (map (block_pkts (ec_w (rdp_ec r))) ?live))" for v
      using a that unfolding live_def ec by blast
    show "v < ec_n (rdp_ec r) * ec_w (rdp_ec r)"
      if v: "v \<in> set (concat (map (block_pkts (ec_w (rdp_ec r))) (?live @ [b])))" for v
    proof -
      obtain c where c: "c \<in> set (?live @ [b])" "v \<in> set (block_pkts w c)"
        using v unfolding ec set_concat set_map by blast
      then have "c + 1 \<le> n" using assms(5) by auto
      then have "(c + 1) * w \<le> n * w" using assms(1) by (intro mult_right_mono) (auto simp: rdp_params_def)
      then show ?thesis using c(2) ec by (simp add: block_pkts_set algebra_simps)
    qed
  qed (use p ec h in auto)
  then show ?thesis using r(1) g by blast
qed

lemma rdp_encode_decode_witness:
  "\<exists>r g. new_RDP 4 2 2 = Inr r \<and> rdp_Decode r [2, 3, 4, 5, 6, 7] [0, 1] = Inr (Some g) \<and> wf_ecdag g \<and>
    (\<forall>f h :: int \<Rightarrow> 1 word. satisfies of_int (rdp_Encode r) f \<and> satisfies of_int g h \<and>
       (\<forall>v\<in>{2, 3, 4, 5, 6, 7}. h v = f v) \<longrightarrow> h 0 = f 0 \<and> h 1 = f 1)"
  using rdp_encode_decode [of 4 2 2 "of_int :: int \<Rightarrow> 1 word" 0]
  by (simp add: rdp_params_def REQUESTOR_def block_pkts_def upt_rec) blast

text \<open>Two lost blocks crash the repair: \<open>Decode\<close> prints an error and answers NULL, and
  \<open>genRepairECDAG\<close> dereferences the answer.\<close>

theorem rdp_two_losses_fault:
  assumes "rdp_params (k + 2) k w" and "rdp_ok k w r" and "nat (k + 2) \<le> length (nodelist s)"
    and "b < c" and "set (fail_blocks s (k + 2) failidx) = {b, c}"
  shows "genRepairECDAG (rdp_ec r) failidx s = Inl NullNode"
proof -
  let ?fails = "fail_blocks s (k + 2) failidx" and ?live = "live_blocks s (k + 2) failidx"
  have k: "0 < w" using assms(1) by (simp add: rdp_params_def)
  have ec: "ec_n (rdp_ec r) = k + 2" "ec_w (rdp_ec r) = w" "rdp_w r = w" "ec_Decode (rdp_ec r) = rdp_Decode r"
    using assms(2) by (simp_all add: rdp_ec_def rdp_ok_def)
  let ?to = "concat (map (block_pkts w) ?fails)"
  have fails: "\<And>x. x \<in> set ?fails \<Longrightarrow> 0 \<le> x" by (auto simp: fail_blocks_def)
  have div: "cdiv t w = Inr (t div w) \<and> t div w \<in> {b, c}" if t: "t \<in> set ?to" for t
  proof -
    obtain x where x: "x \<in> set ?fails" "t \<in> set (block_pkts w x)" using t by auto
    have "0 \<le> x * w" using fails [OF x(1)] k by simp
    then have "0 \<le> t" using x(2) by (simp add: block_pkts_set)
    moreover have "t div w = x" using x(2) by (rule block_pkts_div)
    ultimately show ?thesis using k x(1) assms(5) by simp
  qed
  have both: "b * w \<in> set ?to" "c * w \<in> set ?to"
    unfolding set_concat set_map assms(5) by (simp_all add: block_pkts_set k)
  then obtain t ts where to: "?to = t # ts" by (cases ?to) auto
  have tl: "mapR (\<lambda>t. cdiv t w) ts = Inr (map (\<lambda>t. t div w) ts)"
    using div to by (intro mapR_pure) auto
  have "\<not> list_all (\<lambda>d. d = t div w) (map (\<lambda>t. t div w) ts)"
  proof
    assume "list_all (\<lambda>d. d = t div w) (map (\<lambda>t. t div w) ts)"
    then have "x div w = t div w" if "x \<in> set ?to" for x using that to by (auto simp: list_all_iff)
    from this [OF both(1)] this [OF both(2)] assms(4) k show False by simp
  qed
  moreover have "t \<in> set ?to" unfolding to by simp
  from div [OF this] have "cdiv t w = Inr (t div w)" by simp
  ultimately have "rdp_Decode r fr ?to = Inr None" for fr
    unfolding to using tl ec(3) by (simp add: rdp_Decode_def)
  then show ?thesis
    by (simp add: genRepairECDAG_def ec sort_blocks [OF assms(3)])
qed

lemma rdp_two_losses_fault_witness:
  "\<exists>r. new_RDP 4 2 2 = Inr r \<and>
    genRepairECDAG (rdp_ec r) [10, 12] (new_stripe 0 [10, 11, 12, 13]) = Inl NullNode"
proof -
  have P: "rdp_params (2 + 2) 2 2" by (simp add: rdp_params_def REQUESTOR_def)
  obtain r where r: "new_RDP (2 + 2) 2 2 = Inr r" "rdp_ok 2 2 r" using new_RDP_ok [OF P] by blast
  have "set (fail_blocks (new_stripe 0 [10, 11, 12, 13]) (2 + 2) [10, 12]) = {0, 2}"
    by (simp add: fail_blocks_def new_stripe_def upt_rec)
  from rdp_two_losses_fault [OF P r(2) _ _ this] r(1) show ?thesis
    by (simp add: new_stripe_def)
qed

end
