(* ===== verification/BlockingQueue.thy ===== *)
theory BlockingQueue
  imports Prelude
begin

text \<open>
  The queue between threads: template class \<open>BlockingQueue\<close> (src/src/util/BlockingQueue.hh). The
  deque is a list, front first. Each operation runs under the queue's mutex, so it is one step.
  \<open>pop\<close> waits on the condition variable while the queue is empty: a caller that runs alone never
  returns from it, which is the value \<open>NoReturn\<close>. With other threads, the wait is a step that is
  not enabled yet (theory Coordinator).
\<close>

section \<open>The queue\<close>

type_synonym 'a bqueue = "'a list"

definition bq_push :: "'a \<Rightarrow> 'a bqueue \<Rightarrow> 'a bqueue" where
  "bq_push v q = q @ [v]"

definition bq_pop :: "'a bqueue \<Rightarrow> ('a \<times> 'a bqueue) res" where
  "bq_pop q = (case q of [] \<Rightarrow> Inl NoReturn | v # q' \<Rightarrow> Inr (v, q'))"

definition bq_getSize :: "'a bqueue \<Rightarrow> int" where
  "bq_getSize q = int (length q)"

section \<open>What the threads rely on\<close>

text \<open>A consumer that pops \<open>n\<close> times, and a producer that pushes a list.\<close>

fun pop_n :: "('q \<Rightarrow> ('a \<times> 'q) res) \<Rightarrow> nat \<Rightarrow> 'q \<Rightarrow> ('a list \<times> 'q) res" where
  "pop_n pop 0 q = Inr ([], q)"
| "pop_n pop (Suc n) q =
     bindR (pop q) (\<lambda>(v, q1). bindR (pop_n pop n q1) (\<lambda>(vs, q2). Inr (v # vs, q2)))"

locale fifo =
  fixes push :: "'a \<Rightarrow> 'q \<Rightarrow> 'q"
    and pop :: "'q \<Rightarrow> ('a \<times> 'q) res"
    and size :: "'q \<Rightarrow> int"
    and view :: "'q \<Rightarrow> 'a list"
  assumes view_push: "view (push v q) = view q @ [v]"
    and pop_front: "view q = v # vs \<Longrightarrow> \<exists>q'. pop q = Inr (v, q') \<and> view q' = vs"
    and pop_blocks: "view q = [] \<Longrightarrow> pop q = Inl NoReturn"
    and size_view: "size q = int (length (view q))"
begin

lemma view_pushes: "view (fold push vs q) = view q @ vs"
  by (induction vs arbitrary: q) (simp_all add: view_push)

lemma pop_iff: "pop q = Inr (v, q') \<Longrightarrow> view q = v # view q'"
  using pop_front pop_blocks by (cases "view q") fastforce+

lemma ready_iff: "(\<exists>v q'. pop q = Inr (v, q')) \<longleftrightarrow> size q \<noteq> 0"
  using pop_front pop_blocks by (cases "view q") (fastforce simp: size_view)+

lemma pop_n_take:
  assumes "n \<le> length (view q)"
  shows "\<exists>q'. pop_n pop n q = Inr (take n (view q), q') \<and> view q' = drop n (view q)"
  using assms
proof (induction n arbitrary: q)
  case 0
  then show ?case by simp
next
  case (Suc n)
  then obtain v vs where v: "view q = v # vs" by (cases "view q") auto
  from pop_front [OF v] obtain q1 where q1: "pop q = Inr (v, q1)" "view q1 = vs" by blast
  have "n \<le> length (view q1)" using Suc.prems v q1(2) by simp
  from Suc.IH [OF this] show ?case using v q1 by auto
qed

lemma pop_n_blocks:
  assumes "length (view q) < n"
  shows "pop_n pop n q = Inl NoReturn"
  using assms
proof (induction n arbitrary: q)
  case (Suc n)
  show ?case
  proof (cases "view q")
    case Nil
    then show ?thesis by (simp add: pop_blocks)
  next
    case (Cons v vs)
    from pop_front [OF this] obtain q1 where "pop q = Inr (v, q1)" "view q1 = vs" by blast
    with Suc Cons show ?thesis by simp
  qed
qed simp

text \<open>Whatever is pushed comes out, once each and in order, behind what was there.\<close>

lemma pushed_popped:
  "\<exists>q'. pop_n pop (length (view q) + length vs) (fold push vs q) = Inr (view q @ vs, q') \<and> view q' = []"
  using pop_n_take [of "length (view q) + length vs" "fold push vs q"] by (simp add: view_pushes)

end

interpretation bq: fifo bq_push bq_pop bq_getSize "\<lambda>q. q"
  by unfold_locales (auto simp: bq_push_def bq_pop_def bq_getSize_def split: list.splits)

end
