(* ===== verification/Solution.thy ===== *)
theory Solution
  imports Batch Rdp BlockingQueue
begin

text \<open>
  The planners that cut a node repair into batches: class \<open>SolutionBase\<close>
  (src/src/sol/SolutionBase.cc), and what its subclasses \<open>CentSolution\<close> (theory Centralized) and
  \<open>OfflineSolution\<close> (theory Offline) share: the split of the failed stripes into batches, around a
  colouring routine \<open>gen\<close>, and the choice of a random candidate.

  The stripes are the coordinator's list; \<open>_stripes_to_repair\<close> and the batches index into it.
  \<open>rnd i\<close> is what the \<open>i\<close>-th call of \<open>rand()\<close> returns, and \<open>rand_count\<close> counts the calls. The
  configuration and the code's name are not read by the modelled operations.
\<close>

section \<open>SolutionBase\<close>

record solution =
  stripe_list :: "stripe list"
  stripes_to_repair :: "int list"
  batch_list :: "repair_batch list"
  batch_request :: bool
  finish_gen_batches :: bool
  batch_queue :: "repair_batch bqueue"
  standby_size :: int
  agents_num :: int
  cluster_size :: int
  batch_size :: int
  num_batches :: int
  rand_count :: nat

definition new_SolutionBase :: solution where
  \<comment> \<open>the members the constructor leaves open are 0\<close>
  "new_SolutionBase =
     \<lparr>stripe_list = [], stripes_to_repair = [], batch_list = [], batch_request = False,
      finish_gen_batches = False, batch_queue = [], standby_size = 0, agents_num = 0,
      cluster_size = 0, batch_size = 0, num_batches = 0, rand_count = 0\<rparr>"

definition init_stripes :: "stripe list \<Rightarrow> solution \<Rightarrow> solution" where
  "init_stripes stripes s = s\<lparr>stripe_list := stripes\<rparr>"

definition getRepairBatches :: "solution \<Rightarrow> repair_batch list" where
  "getRepairBatches s = batch_list s"

definition request_batch :: "solution \<Rightarrow> solution" where
  "request_batch s = (if bq_getSize (batch_queue s) = 0 then s\<lparr>batch_request := True\<rparr> else s)"

definition getRepairBatchFromQueue :: "solution \<Rightarrow> (repair_batch \<times> solution) res" where
  "getRepairBatchFromQueue s =
     (let s1 = request_batch s
      in bindR (bq_pop (batch_queue s1)) (\<lambda>(b, q). Inr (b, s1\<lparr>batch_queue := q\<rparr>)))"

definition filter_block :: "int list \<Rightarrow> int \<Rightarrow> int \<Rightarrow> int list \<Rightarrow> int list" where
  "filter_block fail_node_list stripeid curnode torep =
     (if curnode \<notin> set fail_node_list then torep
      else if stripeid \<notin> set torep then torep @ [stripeid] else torep)"

definition filterFailedStripes :: "int list \<Rightarrow> solution \<Rightarrow> solution" where
  "filterFailedStripes fail_node_list s =
     s\<lparr>stripes_to_repair :=
       fold (\<lambda>stripeid. fold (filter_block fail_node_list (int stripeid)) (getPlacement (stripe_list s ! stripeid)))
         [0..<length (stripe_list s)] (stripes_to_repair s)\<rparr>"

definition hasNext :: "solution \<Rightarrow> bool" where
  "hasNext s \<longleftrightarrow> \<not> finish_gen_batches s \<or> bq_getSize (batch_queue s) \<noteq> 0"

section \<open>The colouring of one stripe\<close>

text \<open>The leaves are where their blocks are; the leaves of virtual blocks have colour -1.\<close>

definition color_leaf :: "int \<Rightarrow> int \<Rightarrow> int list \<Rightarrow> int \<Rightarrow> int umap \<times> int list \<Rightarrow> (int umap \<times> int list) res" where
  "color_leaf n w placement dagidx = (\<lambda>(cl, avoid).
     bindR (cdiv dagidx w) (\<lambda>blkidx.
       if blkidx < n
       then bindR (vget placement blkidx) (\<lambda>nodeid. Inr (um_insert dagidx nodeid cl, avoid @ [nodeid]))
       else Inr (um_insert dagidx (-1) cl, avoid)))"

definition color_leaves :: "ec_base \<Rightarrow> stripe \<Rightarrow> (int umap \<times> int list) res" where
  "color_leaves ec s =
     foldR (color_leaf (ec_n ec) (ec_w ec) (getPlacement s)) (ecLeaves (getECDAG s)) ([], [])"

definition candidates :: "int \<Rightarrow> int list \<Rightarrow> int list" where
  "candidates num_agents avoid = filter (\<lambda>i. i \<notin> set avoid) (nodes_upto num_agents)"

definition pick :: "(nat \<Rightarrow> int) \<Rightarrow> int list \<Rightarrow> nat \<Rightarrow> (int \<times> nat) res" where
  \<comment> \<open>\<open>candidates[rand() % candidates.size()]\<close>\<close>
  "pick rnd cands c =
     bindR (cmod (rnd c) (int (length cands))) (\<lambda>i. bindR (vget cands i) (\<lambda>v. Inr (v, Suc c)))"

definition fill_colors :: "int \<Rightarrow> int list \<Rightarrow> int umap \<Rightarrow> int umap" where
  "fill_colors repair_node = fold (\<lambda>dagidx. um_insert dagidx repair_node)"

section \<open>Batches\<close>

text \<open>A planner's colouring of one stripe: the colours, the stripe, and the calls of \<open>rand()\<close> so far.\<close>

type_synonym coloring_gen = "stripe \<Rightarrow> nat \<Rightarrow> (int umap \<times> stripe \<times> nat) res"

text \<open>What both planners do with one stripe: build its DAG, colour it by \<open>gen\<close>, recount.\<close>

definition plan_stripe ::
    "ec_base \<Rightarrow> int list \<Rightarrow> coloring_gen \<Rightarrow> int \<Rightarrow> solution \<Rightarrow> solution res" where
  "plan_stripe ec fails gen stripeid s =
     bindR (vget (stripe_list s) stripeid) (\<lambda>st.
     bindR (genRepairECDAG ec fails st) (\<lambda>st1.
     bindR (gen st1 (rand_count s)) (\<lambda>(cl, st2, c).
     bindR (evaluateColoring (setColoring cl st2)) (\<lambda>st3.
       Inr (s\<lparr>stripe_list := (stripe_list s)[nat stripeid := st3], rand_count := c\<rparr>)))))"

definition plan_slot ::
    "ec_base \<Rightarrow> int list \<Rightarrow> coloring_gen \<Rightarrow> int \<Rightarrow> int \<Rightarrow>
     int list \<times> solution \<Rightarrow> (int list \<times> solution) res" where
  "plan_slot ec fails gen batchid i = (\<lambda>(cur, s).
     let stripeidx = batchid * batch_size s + i
     in if stripeidx < int (length (stripes_to_repair s))
        then bindR (vget (stripes_to_repair s) stripeidx) (\<lambda>stripeid.
             bindR (plan_stripe ec fails gen stripeid s) (\<lambda>s1. Inr (cur @ [stripeid], s1)))
        else Inr (cur, s))"

definition deliver :: "bool \<Rightarrow> repair_batch \<Rightarrow> solution \<Rightarrow> solution" where
  "deliver enqueue b s =
     (if enqueue then s\<lparr>batch_queue := bq_push b (batch_queue s)\<rparr> else s\<lparr>batch_list := batch_list s @ [b]\<rparr>)"

definition gen_batch ::
    "ec_base \<Rightarrow> int list \<Rightarrow> coloring_gen \<Rightarrow> int \<Rightarrow> bool \<Rightarrow> int \<Rightarrow>
     solution \<Rightarrow> solution res" where
  "gen_batch ec fails gen num_agents enqueue batchid s =
     bindR (foldR (plan_slot ec fails gen batchid) (nodes_upto (batch_size s)) ([], s)) (\<lambda>(cur, s1).
     bindR (evaluateBatch (stripe_list s1) num_agents (new_RepairBatch batchid cur)) (\<lambda>b.
       Inr (deliver enqueue b s1)))"

definition count_batches :: "solution \<Rightarrow> solution res" where
  \<comment> \<open>the divisor is converted to \<open>size_t\<close>\<close>
  "count_batches s =
     (let n = int (length (stripes_to_repair s)); d = batch_size s mod 2 ^ 64
      in bindR (cdiv n d) (\<lambda>q. bindR (cmod n d) (\<lambda>r.
           Inr (s\<lparr>num_batches := q + (if r \<noteq> 0 then 1 else 0)\<rparr>))))"

definition gen_batches ::
    "ec_base \<Rightarrow> int list \<Rightarrow> coloring_gen \<Rightarrow> int \<Rightarrow> bool \<Rightarrow> solution \<Rightarrow> solution res" where
  "gen_batches ec fails gen num_agents enqueue s =
     bindR (count_batches (filterFailedStripes fails s)) (\<lambda>s1.
       foldR (gen_batch ec fails gen num_agents enqueue) (nodes_upto (num_batches s1)) s1)"

section \<open>Which stripes are repaired\<close>

definition is_hit :: "int list \<Rightarrow> stripe \<Rightarrow> bool" where
  \<comment> \<open>the stripe has a block on a failed node\<close>
  "is_hit fails st \<longleftrightarrow> (\<exists>node\<in>set (nodelist st). node \<in> set fails)"

lemma filter_blocks:
  "fold (filter_block fails sid) nodes torep =
   (if sid \<notin> set torep \<and> (\<exists>node\<in>set nodes. node \<in> set fails) then torep @ [sid] else torep)"
  by (induction nodes arbitrary: torep) (auto simp: filter_block_def)

lemma filterFailedStripes_eq:
  "stripes_to_repair (filterFailedStripes fails s) = stripes_to_repair s @
     filter (\<lambda>sid. is_hit fails (stripe_list s ! nat sid) \<and> sid \<notin> set (stripes_to_repair s))
       (map int [0..<length (stripe_list s)])"
proof -
  let ?st = "\<lambda>i. stripe_list s ! i" and ?old = "stripes_to_repair s"
  have "fold (\<lambda>i. fold (filter_block fails (int i)) (nodelist (?st i))) [0..<m] ?old =
      ?old @ filter (\<lambda>sid. is_hit fails (?st (nat sid)) \<and> sid \<notin> set ?old) (map int [0..<m])" for m
    by (induction m) (auto simp: filter_blocks is_hit_def)
  then show ?thesis by (simp add: filterFailedStripes_def getPlacement_def)
qed

section \<open>Colours of the leaves\<close>

definition home :: "ec_base \<Rightarrow> stripe \<Rightarrow> int \<Rightarrow> int" where
  "home ec s v = (if v div ec_w ec < ec_n ec then nodelist s ! nat (v div ec_w ec) else -1)"

definition real_leaves :: "ec_base \<Rightarrow> stripe \<Rightarrow> int list" where
  "real_leaves ec s = filter (\<lambda>v. v div ec_w ec < ec_n ec) (ecLeaves (s_ecdag s))"

definition placed :: "ec_base \<Rightarrow> stripe \<Rightarrow> bool" where
  \<comment> \<open>the leaves are sub-packets, and every block has a node\<close>
  "placed ec s \<longleftrightarrow> 0 < ec_w ec \<and> nat (ec_n ec) \<le> length (nodelist s) \<and> list_all (\<lambda>v. 0 \<le> v) (ecLeaves (s_ecdag s))"

lemma color_leaves_ok:
  assumes "placed ec s" and "distinct (ecLeaves (s_ecdag s))"
  shows "color_leaves ec s =
    Inr (map (\<lambda>v. (v, home ec s v)) (ecLeaves (s_ecdag s)), map (home ec s) (real_leaves ec s))"
proof -
  have "foldR (color_leaf (ec_n ec) (ec_w ec) (nodelist s)) vs (cl, avoid) =
      Inr (cl @ map (\<lambda>v. (v, home ec s v)) vs,
           avoid @ map (home ec s) (filter (\<lambda>v. v div ec_w ec < ec_n ec) vs))"
    if "list_all (\<lambda>v. 0 \<le> v) vs" "distinct (um_keys cl @ vs)" for vs cl avoid
    using that
  proof (induction vs arbitrary: cl avoid)
    case Nil
    then show ?case by simp
  next
    case (Cons v vs)
    have w: "0 < ec_w ec" and n: "nat (ec_n ec) \<le> length (nodelist s)" using assms(1) by (auto simp: placed_def)
    have v: "0 \<le> v div ec_w ec" using Cons.prems(1) w by (simp add: pos_imp_zdiv_nonneg_iff)
    have new: "\<not> um_has cl v" using Cons.prems(2) by (auto simp: um_has_def)
    have idx: "nat (v div ec_w ec) < length (nodelist s)" if "v div ec_w ec < ec_n ec" using that v n by linarith
    show ?case
    proof (cases "v div ec_w ec < ec_n ec")
      case True
      with Cons idx v w new show ?thesis by (simp add: color_leaf_def um_insert_def home_def)
    next
      case False
      with Cons v w new show ?thesis by (simp add: color_leaf_def um_insert_def home_def)
    qed
  qed
  from this [of "ecLeaves (s_ecdag s)" "[]" "[]"] assms show ?thesis
    by (simp add: color_leaves_def real_leaves_def placed_def getECDAG_def getPlacement_def)
qed

lemma fill_colors:
  shows "um_wf cl \<Longrightarrow> um_wf (fill_colors r vs cl)"
    and "set (um_keys (fill_colors r vs cl)) = set (um_keys cl) \<union> set vs"
    and "map_of (fill_colors r vs cl) v =
      (case map_of cl v of Some x \<Rightarrow> Some x | None \<Rightarrow> if v \<in> set vs then Some r else None)"
proof -
  have "um_wf cl \<longrightarrow> um_wf (fill_colors r vs cl)" 
    unfolding fill_colors_def by (induction vs arbitrary: cl) simp_all
  moreover have "set (um_keys (fill_colors r vs cl)) = set (um_keys cl) \<union> set vs \<and>
    map_of (fill_colors r vs cl) v =
      (case map_of cl v of Some x \<Rightarrow> Some x | None \<Rightarrow> if v \<in> set vs then Some r else None)"
    unfolding fill_colors_def
    by (induction vs arbitrary: cl) (auto simp: um_keys_insert map_of_um_insert split: option.splits)
  ultimately show "um_wf cl \<Longrightarrow> um_wf (fill_colors r vs cl)"
    and "set (um_keys (fill_colors r vs cl)) = set (um_keys cl) \<union> set vs"
    and "map_of (fill_colors r vs cl) v =
      (case map_of cl v of Some x \<Rightarrow> Some x | None \<Rightarrow> if v \<in> set vs then Some r else None)" by blast+
qed

lemma pick_ok:
  assumes "cands \<noteq> []" and "0 \<le> rnd c"
  shows "\<exists>v. pick rnd cands c = Inr (v, Suc c) \<and> v \<in> set cands"
proof -
  let ?n = "int (length cands)"
  have n: "0 < ?n" using assms(1) by simp
  then have i: "0 \<le> rnd c mod ?n" "nat (rnd c mod ?n) < length cands"
    by (simp_all add: nat_less_iff)
  have "pick rnd cands c = Inr (cands ! nat (rnd c mod ?n), Suc c)"
    unfolding pick_def cmod_nonneg [OF assms(2) n] using i by simp
  then show ?thesis using i by auto
qed

lemma set_candidates: "set (candidates num avoid) = {i. 0 \<le> i \<and> i < num} - set avoid"
  by (auto simp: candidates_def set_nodes_upto)

section \<open>The batches cover the failed stripes\<close>

definition planned :: "ec_base \<Rightarrow> int list \<Rightarrow> coloring_gen \<Rightarrow> stripe \<Rightarrow> stripe \<Rightarrow> bool" where
  \<comment> \<open>\<open>st'\<close> is \<open>st\<close> with its repair DAG, a colouring by \<open>gen\<close>, and the figures of that colouring\<close>
  "planned ec fails gen st st' \<longleftrightarrow>
     (\<exists>c st1 cl st2 c'. genRepairECDAG ec fails st = Inr st1 \<and> gen st1 c = Inr (cl, st2, c') \<and>
        colored (setColoring cl st2) \<and> evaluateColoring (setColoring cl st2) = Inr st' \<and> stats_ok st')"

definition plannable :: "ec_base \<Rightarrow> int list \<Rightarrow> coloring_gen \<Rightarrow> stripe \<Rightarrow> bool" where
  "plannable ec fails gen st \<longleftrightarrow>
     (\<forall>c. \<exists>st1 cl st2 c'. genRepairECDAG ec fails st = Inr st1 \<and> gen st1 c = Inr (cl, st2, c') \<and>
        colored (setColoring cl st2))"

definition planned_upto :: "(stripe \<Rightarrow> stripe \<Rightarrow> bool) \<Rightarrow> stripe list \<Rightarrow> int list \<Rightarrow> stripe list \<Rightarrow> bool" where
  "planned_upto P st0 done st \<longleftrightarrow> length st = length st0 \<and>
     (\<forall>i<length st0. if int i \<in> set done then P (st0 ! i) (st ! i) else st ! i = st0 ! i)"

lemma plan_stripe_ok:
  assumes "0 \<le> sid" "nat sid < length (stripe_list s)" and "plannable ec fails gen (stripe_list s ! nat sid)"
  shows "\<exists>st' c. plan_stripe ec fails gen sid s =
      Inr (s\<lparr>stripe_list := (stripe_list s)[nat sid := st'], rand_count := c\<rparr>) \<and>
    planned ec fails gen (stripe_list s ! nat sid) st'"
proof -
  from assms(3) obtain st1 cl st2 c' where g: "genRepairECDAG ec fails (stripe_list s ! nat sid) = Inr st1"
    "gen st1 (rand_count s) = Inr (cl, st2, c')" "colored (setColoring cl st2)"
    unfolding plannable_def by blast
  from evaluateColoring_counts [OF g(3)] obtain st' where st': "evaluateColoring (setColoring cl st2) = Inr st'" "stats_ok st'"
    by blast
  have "planned ec fails gen (stripe_list s ! nat sid) st'" unfolding planned_def using g st' by blast
  moreover have "plan_stripe ec fails gen sid s =
      Inr (s\<lparr>stripe_list := (stripe_list s)[nat sid := st'], rand_count := c'\<rparr>)"
    using assms(1,2) g st'(1) by (simp add: plan_stripe_def)
  ultimately show ?thesis by blast
qed

lemma planned_upto_step:
  assumes "planned_upto P st0 done st" and "0 \<le> sid" "nat sid < length st0" and "P (st0 ! nat sid) st'"
  shows "planned_upto P st0 (done @ [sid]) (st[nat sid := st'])"
  using assms by (auto simp: planned_upto_def nth_list_update)

lemma nodes_upto_Suc: "nodes_upto (int (Suc k)) = nodes_upto (int k) @ [int k]"
proof -
  have "nat (int (Suc k)) = Suc k" "nat (int k) = k" by (simp_all only: nat_int)
  then show ?thesis by (simp add: nodes_upto_def)
qed

lemma take_Suc_slice: "b + k < length xs \<Longrightarrow> take (Suc k) (drop b xs) = take k (drop b xs) @ [xs ! (b + k)]"
  by (simp add: take_Suc_conv_app_nth)

lemma plan_slot_at:
  fixes b bs k :: nat
  assumes "batch_size s = int bs"
  shows "plan_slot ec fails gen (int b) (int k) (cur, s) =
    (if b * bs + k < length (stripes_to_repair s)
     then bindR (plan_stripe ec fails gen (stripes_to_repair s ! (b * bs + k)) s)
            (\<lambda>s1. Inr (cur @ [stripes_to_repair s ! (b * bs + k)], s1))
     else Inr (cur, s))"
proof -
  let ?i = "b * bs + k"
  have idx: "int b * batch_size s + int k = int ?i" by (simp add: assms)
  have "plan_slot ec fails gen (int b) (int k) (cur, s) =
    (if int ?i < int (length (stripes_to_repair s))
     then bindR (vget (stripes_to_repair s) (int ?i)) (\<lambda>stripeid.
          bindR (plan_stripe ec fails gen stripeid s) (\<lambda>s1. Inr (cur @ [stripeid], s1)))
     else Inr (cur, s))"
    by (simp only: plan_slot_def split_conv Let_def idx)
  then show ?thesis by (simp only: of_nat_less_iff vget_def of_nat_0_le_iff nat_int simp_thms bindR_Inr split: if_splits)
qed

text \<open>The slots of one batch, over a planner whose stripes are all plannable.\<close>

lemma nth_fresh: "k < length ys \<Longrightarrow> distinct ys \<Longrightarrow> ys ! k \<notin> set (take k ys)"
  by (auto simp: in_set_conv_nth nth_eq_iff_index_eq)

lemma slots_ok:
  fixes b k :: nat
  assumes bs: "batch_size s = int bs" and xs: "stripes_to_repair s = xs" "distinct xs" "pointers_ok (stripe_list s) xs"
    and able: "\<And>sid. sid \<in> set (drop (b * bs) xs) \<Longrightarrow> plannable ec fails gen (stripe_list s ! nat sid)"
  shows "\<exists>st c. foldR (plan_slot ec fails gen (int b)) (nodes_upto (int k)) ([], s) =
      Inr (take k (drop (b * bs) xs), s\<lparr>stripe_list := st, rand_count := c\<rparr>) \<and>
    planned_upto (planned ec fails gen) (stripe_list s) (take k (drop (b * bs) xs)) st"
proof (induction k)
  case 0
  show ?case
    by (intro exI [of _ "stripe_list s"] exI [of _ "rand_count s"]) (simp add: nodes_upto_def planned_upto_def)
next
  case (Suc k)
  let ?ys = "drop (b * bs) xs"
  from Suc obtain st1 c where IH: "foldR (plan_slot ec fails gen (int b)) (nodes_upto (int k)) ([], s) =
      Inr (take k ?ys, s\<lparr>stripe_list := st1, rand_count := c\<rparr>)"
    "planned_upto (planned ec fails gen) (stripe_list s) (take k ?ys) st1" by blast
  let ?s1 = "s\<lparr>stripe_list := st1, rand_count := c\<rparr>" and ?i = "b * bs + k"
  have slot: "plan_slot ec fails gen (int b) (int k) (cur, ?s1) =
      (if ?i < length xs then bindR (plan_stripe ec fails gen (xs ! ?i) ?s1) (\<lambda>s1. Inr (cur @ [xs ! ?i], s1))
       else Inr (cur, ?s1))" for cur
    using plan_slot_at [where s = ?s1 and bs = bs] bs xs(1) by simp
  show ?case
  proof (cases "?i < length xs")
    case False
    then have "plan_slot ec fails gen (int b) (int k) (take k ?ys, ?s1) = Inr (take k ?ys, ?s1)"
      by (simp add: slot)
    then show ?thesis using IH False
      by (intro exI [of _ st1] exI [of _ c]) (simp add: nodes_upto_Suc foldR_append del: of_nat_Suc)
  next
    case True
    let ?sid = "xs ! ?i"
    have k: "k < length ?ys" "?sid = ?ys ! k" using True by simp_all
    have "0 \<le> ?sid \<and> nat ?sid < length (stripe_list s)"
      using xs(3) True unfolding pointers_ok_def list_all_length by blast
    moreover have "?sid \<in> set ?ys" unfolding k(2) using k(1) by (rule nth_mem)
    ultimately have sid: "0 \<le> ?sid" "nat ?sid < length (stripe_list s)" "?sid \<in> set ?ys" by blast+
    have "distinct ?ys" using xs(2) by simp
    then have new: "?sid \<notin> set (take k ?ys)"
      unfolding k(2) by (rule nth_fresh [OF k(1)])
    then have same: "st1 ! nat ?sid = stripe_list s ! nat ?sid" "length st1 = length (stripe_list s)"
      using IH(2) sid by (auto simp: planned_upto_def)
    obtain st' c' where p: "plan_stripe ec fails gen ?sid ?s1 = Inr (?s1\<lparr>stripe_list := st1[nat ?sid := st'], rand_count := c'\<rparr>)"
      "planned ec fails gen (stripe_list s ! nat ?sid) st'"
      using plan_stripe_ok [of ?sid ?s1 ec fails gen] sid same able by auto
    have ext: "take (Suc k) ?ys = take k ?ys @ [?sid]" using k by (simp add: take_Suc_conv_app_nth)
    have "plan_slot ec fails gen (int b) (int k) (take k ?ys, ?s1) =
        Inr (take (Suc k) ?ys, s\<lparr>stripe_list := st1[nat ?sid := st'], rand_count := c'\<rparr>)"
      using True p(1) ext by (simp add: slot)
    then show ?thesis
      using IH(1) planned_upto_step [OF IH(2) sid(1,2) p(2)] ext
      by (intro exI [of _ "st1[nat ?sid := st']"] exI [of _ c']) (simp add: nodes_upto_Suc foldR_append del: of_nat_Suc)
  qed
qed

lemma evaluateBatch_cong:
  assumes "length st = length st'" and "\<And>p. p \<in> set (rb_stripes b) \<Longrightarrow> st ! nat p = st' ! nat p"
  shows "evaluateBatch st n b = evaluateBatch st' n b"
proof -
  have "foldR (add_stripe st n) ps = foldR (add_stripe st' n) ps" if "set ps \<subseteq> set (rb_stripes b)" for ps
    using that
  proof (induction ps)
    case (Cons p ps)
    then have "vget st p = vget st' p" using assms by (simp add: vget_def)
    then have "add_stripe st n p = add_stripe st' n p" by (intro ext) (simp add: add_stripe_def)
    with Cons show ?case by (intro ext) simp
  qed (simp add: fun_eq_iff)
  then show ?thesis by (simp add: evaluateBatch_def)
qed

lemma planned_upto_trans:
  assumes "planned_upto P st0 xs st1" and "planned_upto P st1 ys st2" and "set xs \<inter> set ys = {}"
  shows "planned_upto P st0 (xs @ ys) st2"
  unfolding planned_upto_def
proof (intro conjI allI impI)
  show "length st2 = length st0" using assms(1,2) by (simp add: planned_upto_def)
  fix i assume i: "i < length st0"
  then have a: "if int i \<in> set xs then P (st0 ! i) (st1 ! i) else st1 ! i = st0 ! i"
    and b: "if int i \<in> set ys then P (st1 ! i) (st2 ! i) else st2 ! i = st1 ! i"
    using assms(1,2) by (simp_all add: planned_upto_def)
  show "if int i \<in> set (xs @ ys) then P (st0 ! i) (st2 ! i) else st2 ! i = st0 ! i"
    using a b assms(3) by (auto split: if_splits)
qed

definition slice :: "nat \<Rightarrow> int list \<Rightarrow> nat \<Rightarrow> int list" where
  \<comment> \<open>the stripes of the \<open>b\<close>-th batch\<close>
  "slice bs xs b = take bs (drop (b * bs) xs)"

definition batch_of :: "stripe list \<Rightarrow> int \<Rightarrow> nat \<Rightarrow> int list \<Rightarrow> nat \<Rightarrow> repair_batch res" where
  "batch_of st num_agents bs xs b = evaluateBatch st num_agents (new_RepairBatch (int b) (slice bs xs b))"

lemma take_slice: "take (Suc m * bs) xs = take (m * bs) xs @ slice bs xs m"
proof -
  have "Suc m * bs = m * bs + bs" by simp
  then show ?thesis unfolding slice_def by (simp only: take_add)
qed

lemma concat_slices: "concat (map (slice bs xs) [0..<m]) = take (m * bs) xs"
  by (induction m) (simp_all add: take_slice del: mult_Suc)

lemma deliver_all:
  "fold (deliver enq) bts s =
   (if enq then s\<lparr>batch_queue := batch_queue s @ bts\<rparr> else s\<lparr>batch_list := batch_list s @ bts\<rparr>)"
  by (induction bts arbitrary: s) (simp_all add: deliver_def bq_push_def)

lemma deliver_frame [simp]:
  "stripe_list (fold (deliver enq) bts s) = stripe_list s"
  "stripes_to_repair (fold (deliver enq) bts s) = stripes_to_repair s"
  "batch_size (fold (deliver enq) bts s) = batch_size s"
  by (simp_all add: deliver_all)

lemma deliver_commute:
  "(fold (deliver enq) bts s)\<lparr>stripe_list := st, rand_count := c\<rparr> =
   fold (deliver enq) bts (s\<lparr>stripe_list := st, rand_count := c\<rparr>)"
  by (simp add: deliver_all)

lemma gen_batch_ok:
  assumes "batch_size s = int bs" and "stripes_to_repair s = xs" "distinct xs" "pointers_ok (stripe_list s) xs"
    and "\<And>sid. sid \<in> set (drop (b * bs) xs) \<Longrightarrow> plannable ec fails gen (stripe_list s ! nat sid)"
  shows "\<exists>st c bt. gen_batch ec fails gen num_agents enq (int b) s =
      Inr (deliver enq bt (s\<lparr>stripe_list := st, rand_count := c\<rparr>)) \<and>
    batch_of st num_agents bs xs b = Inr bt \<and>
    planned_upto (planned ec fails gen) (stripe_list s) (slice bs xs b) st"
proof -
  from slots_ok [OF assms(1-4) assms(5), where k = bs] obtain st c where
    st: "foldR (plan_slot ec fails gen (int b)) (nodes_upto (int bs)) ([], s) =
      Inr (slice bs xs b, s\<lparr>stripe_list := st, rand_count := c\<rparr>)"
    "planned_upto (planned ec fails gen) (stripe_list s) (slice bs xs b) st"
    unfolding slice_def by blast
  have sub: "set (slice bs xs b) \<subseteq> set xs"
    using set_take_subset [of bs "drop (b * bs) xs"] set_drop_subset [of "b * bs" xs] by (auto simp: slice_def)
  have "length st = length (stripe_list s)" using st(2) by (simp add: planned_upto_def)
  then have "pointers_ok st (rb_stripes (new_RepairBatch (int b) (slice bs xs b)))"
    using assms(4) sub by (auto simp: pointers_ok_def list_all_iff new_RepairBatch_def)
  from evaluateBatch_ok [OF this, of num_agents] obtain bt where bt: "batch_of st num_agents bs xs b = Inr bt"
    unfolding batch_of_def by blast
  have "gen_batch ec fails gen num_agents enq (int b) s = Inr (deliver enq bt (s\<lparr>stripe_list := st, rand_count := c\<rparr>))"
    using bt by (simp add: gen_batch_def assms(1) st(1) batch_of_def)
  with bt st(2) show ?thesis by blast
qed

lemma slices_disjoint:
  assumes "distinct xs" and "a < b"
  shows "set (slice bs xs a) \<inter> set (drop (b * bs) xs) = {}"
proof -
  have "Suc a * bs \<le> b * bs" using assms(2) by (intro mult_le_mono1) simp
  then have "set (drop (b * bs) xs) \<subseteq> set (drop (Suc a * bs) xs)" by (rule set_drop_subset_set_drop)
  moreover have "slice bs xs a @ drop (Suc a * bs) xs = drop (a * bs) xs"
    using append_take_drop_id [of bs "drop (a * bs) xs"] by (simp add: slice_def add.commute)
  moreover have "distinct (drop (a * bs) xs)" using assms(1) by simp
  ultimately have "set (slice bs xs a) \<inter> set (drop (Suc a * bs) xs) = {}"
    using distinct_append [of "slice bs xs a" "drop (Suc a * bs) xs"] by simp
  with \<open>set (drop (b * bs) xs) \<subseteq> _\<close> show ?thesis by blast
qed

text \<open>The state of the loop once \<open>bts\<close> have been delivered; the queue and the request flag, which other
  threads write, are not part of it.\<close>

definition loop_inv ::
    "ec_base \<Rightarrow> int list \<Rightarrow> coloring_gen \<Rightarrow> int \<Rightarrow> nat \<Rightarrow> int list \<Rightarrow> stripe list \<Rightarrow> repair_batch list \<Rightarrow> solution \<Rightarrow> bool" where
  "loop_inv ec fails gen num_agents bs xs st0 bts s \<longleftrightarrow>
     batch_size s = int bs \<and> stripes_to_repair s = xs \<and> distinct xs \<and> pointers_ok st0 xs \<and>
     (\<forall>sid\<in>set xs. plannable ec fails gen (st0 ! nat sid)) \<and>
     planned_upto (planned ec fails gen) st0 (take (length bts * bs) xs) (stripe_list s) \<and>
     mapR (batch_of (stripe_list s) num_agents bs xs) [0..<length bts] = Inr bts"

lemma loop_inv_step:
  assumes I: "loop_inv ec fails gen num_agents bs xs st0 bts s"
  shows "\<exists>st c bt. gen_batch ec fails gen num_agents enq (int (length bts)) s =
      Inr (deliver enq bt (s\<lparr>stripe_list := st, rand_count := c\<rparr>)) \<and>
    loop_inv ec fails gen num_agents bs xs st0 (bts @ [bt]) (deliver enq bt (s\<lparr>stripe_list := st, rand_count := c\<rparr>))"
proof -
  let ?m = "length bts" and ?st = "stripe_list s"
  have s: "batch_size s = int bs" "stripes_to_repair s = xs" "distinct xs" "pointers_ok st0 xs"
    and able: "\<And>sid. sid \<in> set xs \<Longrightarrow> plannable ec fails gen (st0 ! nat sid)"
    and dn: "planned_upto (planned ec fails gen) st0 (take (?m * bs) xs) ?st"
    and bts: "mapR (batch_of ?st num_agents bs xs) [0..<?m] = Inr bts"
    using I by (simp_all add: loop_inv_def)
  have len: "length ?st = length st0" using dn by (simp add: planned_upto_def)
  then have ptr: "pointers_ok ?st xs" using s(4) by (simp add: pointers_ok_def)
  have old: "set (take (?m * bs) xs) \<inter> set (drop (?m * bs) xs) = {}"
    using s(3) by (metis append_take_drop_id distinct_append)
  have able1: "plannable ec fails gen (?st ! nat sid)" if "sid \<in> set (drop (?m * bs) xs)" for sid
  proof -
    have sid: "sid \<in> set xs" "sid \<notin> set (take (?m * bs) xs)" using that old in_set_dropD by fastforce+
    then have "0 \<le> sid" "nat sid < length st0" using s(4) by (auto simp: pointers_ok_def list_all_iff)
    then have "?st ! nat sid = st0 ! nat sid" using dn sid(2) by (auto simp: planned_upto_def)
    with able [OF sid(1)] show ?thesis by simp
  qed
  obtain st1 c1 bt where G: "gen_batch ec fails gen num_agents enq (int ?m) s =
      Inr (deliver enq bt (s\<lparr>stripe_list := st1, rand_count := c1\<rparr>))"
    "batch_of st1 num_agents bs xs ?m = Inr bt"
    "planned_upto (planned ec fails gen) ?st (slice bs xs ?m) st1"
    using gen_batch_ok [where b = ?m, OF s(1-3) ptr able1, where num_agents = num_agents and enq = enq] by auto
  have "batch_of st1 num_agents bs xs a = batch_of ?st num_agents bs xs a" if a: "a < ?m" for a
    unfolding batch_of_def
  proof (rule evaluateBatch_cong)
    show "length st1 = length ?st" using G(3) by (simp add: planned_upto_def)
    fix p assume "p \<in> set (rb_stripes (new_RepairBatch (int a) (slice bs xs a)))"
    then have p: "p \<in> set (slice bs xs a)" by (simp add: new_RepairBatch_def)
    then have "p \<notin> set (drop (?m * bs) xs)" using slices_disjoint [OF s(3) a, of bs] by blast
    moreover have "p \<in> set xs" using p unfolding slice_def by (auto dest!: in_set_takeD in_set_dropD)
    ultimately have "p \<notin> set (slice bs xs ?m)" "0 \<le> p" "nat p < length ?st"
      using s(4) len by (auto simp: slice_def pointers_ok_def list_all_iff dest: in_set_takeD)
    then show "st1 ! nat p = ?st ! nat p" using G(3) by (auto simp: planned_upto_def)
  qed
  then have "mapR (batch_of st1 num_agents bs xs) [0..<?m] = Inr bts"
    using bts mapR_cong [of "[0..<?m]" "batch_of st1 num_agents bs xs" "batch_of ?st num_agents bs xs"] by simp
  then have "mapR (batch_of st1 num_agents bs xs) [0..<length (bts @ [bt])] = Inr (bts @ [bt])"
    using G(2) by (simp add: mapR_append)
  moreover have "planned_upto (planned ec fails gen) st0 (take (length (bts @ [bt]) * bs) xs) st1"
  proof -
    have "set (slice bs xs ?m) \<subseteq> set (drop (?m * bs) xs)" unfolding slice_def by (rule set_take_subset)
    moreover have "take (length (bts @ [bt]) * bs) xs = take (?m * bs) xs @ slice bs xs ?m"
      using take_slice [of ?m bs xs] by simp
    ultimately show ?thesis using planned_upto_trans [OF dn G(3)] old by (metis inf_mono order_refl subset_empty)
  qed
  ultimately have "loop_inv ec fails gen num_agents bs xs st0 (bts @ [bt]) (deliver enq bt (s\<lparr>stripe_list := st1, rand_count := c1\<rparr>))"
    using s able by (simp add: loop_inv_def deliver_def)
  with G(1) show ?thesis by blast
qed

lemma batches_loop:
  assumes "loop_inv ec fails gen num_agents bs xs st0 [] s"
  shows "\<exists>st c bts. foldR (gen_batch ec fails gen num_agents enq) (nodes_upto (int m)) s =
      Inr (fold (deliver enq) bts (s\<lparr>stripe_list := st, rand_count := c\<rparr>)) \<and> length bts = m \<and>
    loop_inv ec fails gen num_agents bs xs st0 bts (fold (deliver enq) bts (s\<lparr>stripe_list := st, rand_count := c\<rparr>))"
proof (induction m)
  case 0
  show ?case
    using assms by (intro exI [of _ "stripe_list s"] exI [of _ "rand_count s"] exI [of _ "[]"]) (simp add: nodes_upto_def)
next
  case (Suc m)
  then obtain st c bts where IH: "foldR (gen_batch ec fails gen num_agents enq) (nodes_upto (int m)) s =
      Inr (fold (deliver enq) bts (s\<lparr>stripe_list := st, rand_count := c\<rparr>))" "length bts = m"
    "loop_inv ec fails gen num_agents bs xs st0 bts (fold (deliver enq) bts (s\<lparr>stripe_list := st, rand_count := c\<rparr>))" by blast
  from loop_inv_step [OF IH(3), of enq] obtain st1 c1 bt where
    step: "gen_batch ec fails gen num_agents enq (int m) (fold (deliver enq) bts (s\<lparr>stripe_list := st, rand_count := c\<rparr>)) =
      Inr (fold (deliver enq) (bts @ [bt]) (s\<lparr>stripe_list := st1, rand_count := c1\<rparr>))"
    "loop_inv ec fails gen num_agents bs xs st0 (bts @ [bt]) (fold (deliver enq) (bts @ [bt]) (s\<lparr>stripe_list := st1, rand_count := c1\<rparr>))"
    by (auto simp: deliver_commute IH(2))
  then show ?case
    using IH(1,2) unfolding nodes_upto_Suc foldR_append
    by (intro exI [of _ st1] exI [of _ c1] exI [of _ "bts @ [bt]"]) simp
qed

lemma evaluateBatch_frame: "evaluateBatch st n b = Inr b' \<Longrightarrow> rb_id b' = rb_id b \<and> rb_stripes b' = rb_stripes b"
  by (auto simp: evaluateBatch_def Let_def bindR_eq_Inr split: prod.splits)

definition num_slices :: "nat \<Rightarrow> int list \<Rightarrow> nat" where
  "num_slices bs xs = length xs div bs + (if length xs mod bs \<noteq> 0 then 1 else 0)"

lemma num_slices_bounds:
  assumes "0 < bs"
  shows "length xs \<le> num_slices bs xs * bs" and "j < num_slices bs xs \<Longrightarrow> j * bs < length xs"
proof -
  let ?n = "length xs" and ?m = "num_slices bs xs"
  have n: "?n = ?n div bs * bs + ?n mod bs" by simp
  have r: "?n mod bs < bs" using assms by simp
  show "?n \<le> ?m * bs"
  proof (cases "?n mod bs = 0")
    case False
    then have "?m * bs = ?n div bs * bs + bs" by (simp add: num_slices_def)
    with n r show ?thesis by linarith
  qed (use n in \<open>simp add: num_slices_def\<close>)
  show "j * bs < ?n" if j: "j < ?m"
  proof (cases "?n mod bs = 0")
    case True
    then have "Suc j * bs \<le> ?n div bs * bs" using j by (intro mult_le_mono1) (simp add: num_slices_def)
    then show ?thesis using n True assms by simp
  next
    case False
    then have "j * bs \<le> ?n div bs * bs" using j by (intro mult_le_mono1) (simp add: num_slices_def)
    then show ?thesis using n False by linarith
  qed
qed

lemma count_batches_ok:
  assumes "batch_size s = int bs" and "0 < bs" "bs < 2 ^ 31" and "stripes_to_repair s = xs"
  shows "count_batches s = Inr (s\<lparr>num_batches := int (num_slices bs xs)\<rparr>)"
proof -
  have d: "int bs mod 2 ^ 64 = int bs" using assms(3) by (intro mod_pos_pos_trivial) simp_all
  have q: "cdiv (int (length xs)) (int bs) = Inr (int (length xs div bs))"
    "cmod (int (length xs)) (int bs) = Inr (int (length xs mod bs))"
    using assms(2) by (simp_all add: zdiv_int zmod_int)
  show ?thesis unfolding count_batches_def Let_def assms(1,4) d q bindR_Inr num_slices_def by simp
qed

definition failed_stripes :: "int list \<Rightarrow> stripe list \<Rightarrow> int list" where
  "failed_stripes fails st = filter (\<lambda>sid. is_hit fails (st ! nat sid)) (map int [0..<length st])"

definition batches_ok :: "stripe list \<Rightarrow> int \<Rightarrow> nat \<Rightarrow> repair_batch list \<Rightarrow> bool" where
  \<comment> \<open>numbered from 0, not empty, of at most \<open>bs\<close> stripes, and with the figures of the stripes \<open>st\<close>\<close>
  "batches_ok st num_agents bs bts \<longleftrightarrow>
     (\<forall>j<length bts. rb_id (bts ! j) = int j \<and> rb_stripes (bts ! j) \<noteq> [] \<and> length (rb_stripes (bts ! j)) \<le> bs \<and>
        evaluateBatch st num_agents (new_RepairBatch (int j) (rb_stripes (bts ! j))) = Inr (bts ! j))"

text \<open>The state the planners start from, and the loop's invariant before and after the loop.\<close>

definition batch_ready :: "ec_base \<Rightarrow> int list \<Rightarrow> coloring_gen \<Rightarrow> nat \<Rightarrow> stripe list \<Rightarrow> solution \<Rightarrow> bool" where
  "batch_ready ec fails gen bs st0 s \<longleftrightarrow>
     batch_size s = int bs \<and> 0 < bs \<and> bs < 2 ^ 31 \<and> stripes_to_repair s = [] \<and> stripe_list s = st0 \<and>
     (\<forall>st\<in>set st0. is_hit fails st \<longrightarrow> plannable ec fails gen st)"

lemma loop_inv_start:
  assumes "batch_ready ec fails gen bs st0 s"
  shows "\<exists>s1. count_batches (filterFailedStripes fails s) = Inr s1 \<and>
    loop_inv ec fails gen num_agents bs (failed_stripes fails st0) st0 [] s1 \<and>
    num_batches s1 = int (num_slices bs (failed_stripes fails st0)) \<and>
    batch_queue s1 = batch_queue s \<and> batch_list s1 = batch_list s \<and>
    finish_gen_batches s1 = finish_gen_batches s \<and> batch_request s1 = batch_request s"
proof -
  let ?xs = "failed_stripes fails st0" and ?s0 = "filterFailedStripes fails s"
  have bs: "batch_size s = int bs" "0 < bs" "bs < 2 ^ 31" and fresh: "stripes_to_repair s = []" "stripe_list s = st0"
    and able: "\<And>st. st \<in> set st0 \<Longrightarrow> is_hit fails st \<Longrightarrow> plannable ec fails gen st"
    using assms by (simp_all add: batch_ready_def)
  have xs: "stripes_to_repair ?s0 = ?xs" by (simp add: filterFailedStripes_eq fresh failed_stripes_def)
  have "batch_size ?s0 = int bs" using bs(1) by (simp add: filterFailedStripes_def)
  note C = count_batches_ok [OF this bs(2,3) xs]
  have "distinct ?xs" "pointers_ok st0 ?xs"
    by (auto simp: failed_stripes_def distinct_map pointers_ok_def list_all_iff)
  moreover have "\<forall>sid\<in>set ?xs. plannable ec fails gen (st0 ! nat sid)"
    using able by (auto simp: failed_stripes_def)
  ultimately have "loop_inv ec fails gen num_agents bs ?xs st0 [] (?s0\<lparr>num_batches := int (num_slices bs ?xs)\<rparr>)"
    using bs(1) fresh(2) xs by (simp add: loop_inv_def planned_upto_def filterFailedStripes_def)
  with C show ?thesis by (simp add: filterFailedStripes_def)
qed

lemma loop_inv_end:
  assumes I: "loop_inv ec fails gen num_agents bs xs st0 bts s" and len: "length bts = num_slices bs xs" and bs: "0 < bs"
  shows "concat (map rb_stripes bts) = xs" and "batches_ok (stripe_list s) num_agents bs bts"
    and "planned_upto (planned ec fails gen) st0 xs (stripe_list s)"
proof -
  let ?m = "num_slices bs xs" and ?st = "stripe_list s"
  have all: "take (?m * bs) xs = xs" using num_slices_bounds(1) [OF bs] by simp
  then show "planned_upto (planned ec fails gen) st0 xs ?st" using I by (simp add: loop_inv_def len)
  have at: "\<And>j. j < ?m \<Longrightarrow> batch_of ?st num_agents bs xs j = Inr (bts ! j)"
    using I mapR_nth [of "batch_of ?st num_agents bs xs" "[0..<?m]" bts] by (simp add: loop_inv_def len)
  have one: "rb_id (bts ! j) = int j" "rb_stripes (bts ! j) = slice bs xs j" if "j < ?m" for j
    using evaluateBatch_frame [OF at [OF that, unfolded batch_of_def]] by (simp_all add: new_RepairBatch_def)
  show "batches_ok ?st num_agents bs bts"
    unfolding batches_ok_def
  proof (intro allI impI conjI)
    fix j assume "j < length bts"
    then have j: "j < ?m" by (simp add: len)
    show "rb_id (bts ! j) = int j" by (rule one [OF j])
    show "rb_stripes (bts ! j) \<noteq> []" using num_slices_bounds(2) [OF bs j] bs by (simp add: one(2) [OF j] slice_def)
    show "length (rb_stripes (bts ! j)) \<le> bs" by (simp add: one(2) [OF j] slice_def)
    show "evaluateBatch ?st num_agents (new_RepairBatch (int j) (rb_stripes (bts ! j))) = Inr (bts ! j)"
      using at [OF j] by (simp add: batch_of_def one(2) [OF j])
  qed
  have "map rb_stripes bts = map (slice bs xs) [0..<?m]"
    by (rule nth_equalityI) (simp_all add: len one)
  then show "concat (map rb_stripes bts) = xs" by (simp add: concat_slices all)
qed

lemma gen_batches_ok:
  assumes ready: "batch_ready ec fails gen bs st0 s"
  shows "\<exists>s' bts. gen_batches ec fails gen num_agents enq s = Inr s' \<and>
    batch_queue s' = (if enq then batch_queue s @ bts else batch_queue s) \<and>
    batch_list s' = (if enq then batch_list s else batch_list s @ bts) \<and>
    concat (map rb_stripes bts) = failed_stripes fails st0 \<and>
    batches_ok (stripe_list s') num_agents bs bts \<and>
    planned_upto (planned ec fails gen) st0 (failed_stripes fails st0) (stripe_list s')"
proof -
  let ?xs = "failed_stripes fails st0"
  have bs: "0 < bs" using ready by (simp add: batch_ready_def)
  from loop_inv_start [OF ready] obtain s1 where
    s1: "count_batches (filterFailedStripes fails s) = Inr s1" "loop_inv ec fails gen num_agents bs ?xs st0 [] s1"
      "num_batches s1 = int (num_slices bs ?xs)" "batch_queue s1 = batch_queue s" "batch_list s1 = batch_list s" by blast
  from batches_loop [OF s1(2), of enq "num_slices bs ?xs"] obtain st c bts where
    B: "foldR (gen_batch ec fails gen num_agents enq) (nodes_upto (int (num_slices bs ?xs))) s1 =
      Inr (fold (deliver enq) bts (s1\<lparr>stripe_list := st, rand_count := c\<rparr>))" "length bts = num_slices bs ?xs"
    "loop_inv ec fails gen num_agents bs ?xs st0 bts (fold (deliver enq) bts (s1\<lparr>stripe_list := st, rand_count := c\<rparr>))"
    by blast
  let ?s' = "fold (deliver enq) bts (s1\<lparr>stripe_list := st, rand_count := c\<rparr>)"
  have "gen_batches ec fails gen num_agents enq s = Inr ?s'"
    using B(1) by (simp add: gen_batches_def s1(1,3))
  moreover have "batch_queue ?s' = (if enq then batch_queue s @ bts else batch_queue s)"
    "batch_list ?s' = (if enq then batch_list s else batch_list s @ bts)"
    by (simp_all add: deliver_all s1(4,5))
  ultimately show ?thesis using loop_inv_end [OF B(3,2) bs] by blast
qed

section \<open>Repairable stripes\<close>

definition repairable :: "ec_base \<Rightarrow> int list \<Rightarrow> stripe \<Rightarrow> bool" where
  \<comment> \<open>the code has a well-formed DAG for the loss, over sub-packets of blocks that have a node\<close>
  "repairable ec fails st \<longleftrightarrow>
     (\<exists>st1. genRepairECDAG ec fails st = Inr st1 \<and> wf_ecdag (s_ecdag st1) \<and> placed ec st1)"

definition enough_agents :: "ec_base \<Rightarrow> string \<Rightarrow> int \<Rightarrow> int \<Rightarrow> stripe \<Rightarrow> bool" where
  "enough_agents ec scenario num_agents fail_node_id st \<longleftrightarrow>
     scenario = ''standby'' \<or>
     (\<exists>i. 0 \<le> i \<and> i < num_agents \<and> i \<noteq> fail_node_id \<and> i \<notin> set (nodelist st))"

lemma genRepairECDAG_nodelist: "genRepairECDAG ec fails st = Inr st1 \<Longrightarrow> nodelist st1 = nodelist st"
  by (auto simp: genRepairECDAG_def bindR_eq_Inr split: prod.splits)

lemma homes_in_nodelist:
  assumes "placed ec st"
  shows "home ec st ` set (real_leaves ec st) \<subseteq> set (nodelist st)"
proof
  fix x assume "x \<in> home ec st ` set (real_leaves ec st)"
  then obtain v where v: "v \<in> set (ecLeaves (s_ecdag st))" "v div ec_w ec < ec_n ec"
    "x = nodelist st ! nat (v div ec_w ec)" by (auto simp: real_leaves_def home_def)
  moreover have "0 \<le> v div ec_w ec"
    using v(1) assms by (auto simp: placed_def list_all_iff pos_imp_zdiv_nonneg_iff)
  ultimately have "nat (v div ec_w ec) < length (nodelist st)" using assms unfolding placed_def by linarith
  then show "x \<in> set (nodelist st)" using v(3) by simp
qed

lemma enough_candidates:
  assumes "placed ec st" and "enough_agents ec scenario num_agents f st"
  shows "scenario = ''standby'' \<or> candidates num_agents (map (home ec st) (real_leaves ec st) @ [f]) \<noteq> []"
proof (cases "scenario = ''standby''")
  case False
  with assms(2) obtain i where "0 \<le> i" "i < num_agents" "i \<noteq> f" "i \<notin> set (nodelist st)"
    by (auto simp: enough_agents_def)
  then have "i \<in> set (candidates num_agents (map (home ec st) (real_leaves ec st) @ [f]))"
    using homes_in_nodelist [OF assms(1)] by (auto simp: set_candidates)
  then show ?thesis by force
qed simp

section \<open>RDP stripes are repairable\<close>

lemma filter_upt_one: "j < n \<Longrightarrow> filter (\<lambda>i. i = j) [0..<n] = [j]"
proof (induction n)
  case (Suc n)
  then show ?case by (cases "j = n") (auto simp: filter_empty_conv)
qed simp

lemma one_hit_lost:
  assumes "distinct (nodelist st)" and "length (nodelist st) = nat n" and "is_hit [f] st"
  shows "one_lost n (live_blocks st n [f]) (fail_blocks st n [f])"
proof -
  obtain j where j: "j < nat n" "nodelist st ! j = f"
    using assms(2,3) by (auto simp: is_hit_def in_set_conv_nth)
  have eq: "nodelist st ! i = f \<longleftrightarrow> i = j" if "i < nat n" for i
    using that j assms(1,2) by (metis nth_eq_iff_index_eq)
  have "filter (\<lambda>i. nodelist st ! i = f) [0..<nat n] = filter (\<lambda>i. i = j) [0..<nat n]"
    using eq by (intro filter_cong) auto
  then have lost: "fail_blocks st n [f] = [int j]"
    using j(1) by (simp add: fail_blocks_def filter_map o_def filter_upt_one)
  have "filter (\<lambda>i. nodelist st ! i \<noteq> f) [0..<nat n] = filter (\<lambda>i. i \<noteq> j) [0..<nat n]"
    using eq by (intro filter_cong) auto
  then have "live_blocks st n [f] = filter (\<lambda>i. i \<noteq> int j) (map int [0..<nat n])"
    by (simp add: live_blocks_def filter_map o_def)
  with lost j(1) show ?thesis by (auto simp: one_lost_def)
qed

lemma rdp_repairable:
  assumes "rdp_params (k + 2) k w" and "rdp_ok k w r"
    and "distinct (nodelist st)" and "length (nodelist st) = nat (k + 2)" and "is_hit [f] st"
  shows "repairable (rdp_ec r) [f] st"
proof -
  have ec: "ec_n (rdp_ec r) = k + 2" "ec_w (rdp_ec r) = w"
    using assms(2) by (simp_all add: rdp_ec_def rdp_ok_def)
  have w: "0 < w" using assms(1) by (simp add: rdp_params_def)
  have sup: "rdp_params (k + 2) k w \<and> rdp_ok k w r \<and>
      one_lost (k + 2) (live_blocks st (ec_n (rdp_ec r)) [f]) (fail_blocks st (ec_n (rdp_ec r)) [f])"
    using assms(1,2) one_hit_lost [OF assms(3-5)] by (simp add: ec(1))
  have len: "nat (ec_n (rdp_ec r)) \<le> length (nodelist st)" using assms(4) by (simp add: ec)
  obtain s' where s': "genRepairECDAG (rdp_ec r) [f] st = Inr s'" "wf_ecdag (s_ecdag s')" "nodelist s' = nodelist st"
    "set (ecLeaves (s_ecdag s')) \<subseteq> set (concat (map (block_pkts w) (live_blocks st (k + 2) [f])))"
    using rdp.repair_dag [OF len sup, unfolded ec] by auto
  have "0 \<le> v" if v: "v \<in> set (ecLeaves (s_ecdag s'))" for v
  proof -
    obtain b where "b \<in> set (live_blocks st (k + 2) [f])" "v \<in> set (block_pkts w b)" using v s'(4) by auto
    then have "0 \<le> b" "b * w \<le> v" by (auto simp: live_blocks_def block_pkts_set)
    then show ?thesis using w mult_nonneg_nonneg [of b w] by linarith
  qed
  then have "placed (rdp_ec r) s'"
    unfolding placed_def list_all_iff ec using s'(3) assms(4) w by simp
  with s'(1,2) show ?thesis unfolding repairable_def by blast
qed

end
