(* ===== verification/Centralized.thy ===== *)
theory Centralized
  imports Solution
begin

text \<open>
  Class \<open>CentSolution\<close> (src/src/sol/CentSolution.cc): every stripe is repaired at one node, chosen at
  random among the agents that hold no block it reads.
\<close>

section \<open>CentSolution\<close>

definition new_CentSolution :: "int \<Rightarrow> int \<Rightarrow> int \<Rightarrow> solution" where
  "new_CentSolution batchsize standbysize agentsnum =
     new_SolutionBase\<lparr>batch_size := batchsize, standby_size := standbysize, agents_num := agentsnum,
       cluster_size := agentsnum + standbysize\<rparr>"

definition genCentralizedColoringForSingleFailure ::
    "(nat \<Rightarrow> int) \<Rightarrow> ec_base \<Rightarrow> int \<Rightarrow> int \<Rightarrow> string \<Rightarrow> stripe \<Rightarrow> nat \<Rightarrow> (int umap \<times> nat) res" where
  "genCentralizedColoringForSingleFailure rnd ec fail_node_id num_agents scenario s c =
     bindR (color_leaves ec s) (\<lambda>(cl, avoid).
     bindR (if scenario = ''standby'' then Inr (fail_node_id, c)
            else pick rnd (candidates num_agents (avoid @ [fail_node_id])) c) (\<lambda>(repair_node, c1).
       Inr (fill_colors repair_node (getAllNodeIds (getECDAG s)) cl, c1)))"

text \<open>The draw of a further repair node: an index is drawn again while it is an element of
  \<open>ret\<close>, which holds nodes.\<close>

partial_function (option) draw_index :: "(nat \<Rightarrow> int) \<Rightarrow> int \<Rightarrow> int list \<Rightarrow> nat \<Rightarrow> (int \<times> nat) option" where
  "draw_index rnd sz ret c =
     (if rnd c mod sz \<in> set ret then draw_index rnd sz ret (Suc c)
      else Some (rnd c mod sz, Suc c))"

definition draw_node :: "(nat \<Rightarrow> int) \<Rightarrow> int list \<Rightarrow> int list \<times> nat \<Rightarrow> (int list \<times> nat) res" where
  "draw_node rnd cands = (\<lambda>(ret, c).
     if cands = [] then Inl DivByZero
     else bindR (ofOpt NoReturn (draw_index rnd (int (length cands)) ret c)) (\<lambda>(i, c1).
          bindR (vget cands i) (\<lambda>v. Inr (ret @ [v], c1))))"

definition color_concact :: "int list \<Rightarrow> int list \<Rightarrow> nat \<Rightarrow> int umap \<Rightarrow> int umap res" where
  "color_concact concact ret i cl =
     bindR (vget concact (int i)) (\<lambda>v. bindR (vget ret (int i)) (\<lambda>r. Inr (um_put v r cl)))"

definition genCentralizedColoringForMutipleFailure ::
    "(nat \<Rightarrow> int) \<Rightarrow> ec_base \<Rightarrow> int list \<Rightarrow> int \<Rightarrow> string \<Rightarrow> stripe \<Rightarrow> nat \<Rightarrow> (int umap \<times> nat) res" where
  "genCentralizedColoringForMutipleFailure rnd ec fail_node_ids num_agents scenario s c =
     bindR (color_leaves ec s) (\<lambda>(cl, avoid).
     bindR (guardR ExitCalled (scenario \<noteq> ''standby'')) (\<lambda>_.
     let cands = candidates num_agents (avoid @ fail_node_ids)
     in bindR (guardR AssertFailed (length fail_node_ids \<le> length cands)) (\<lambda>_.
     bindR (foldR (\<lambda>_. draw_node rnd cands) [0..<getFailNum s] ([], c)) (\<lambda>(ret, c1).
     bindR (vget ret 0) (\<lambda>relayer_node.
     bindR (foldR (color_concact (ecConcacts (getECDAG s)) ret) [0..<getFailNum s]
              (fill_colors relayer_node (getAllNodeIds (getECDAG s)) cl)) (\<lambda>cl2.
       Inr (cl2, c1)))))))"

definition cent_single :: "(nat \<Rightarrow> int) \<Rightarrow> ec_base \<Rightarrow> int \<Rightarrow> int \<Rightarrow> string \<Rightarrow> bool \<Rightarrow> solution \<Rightarrow> solution res" where
  "cent_single rnd ec fail_node_id num_agents scenario enqueue =
     gen_batches ec [fail_node_id]
       (\<lambda>st c. bindR (genCentralizedColoringForSingleFailure rnd ec fail_node_id num_agents scenario st c)
                 (\<lambda>(cl, c1). Inr (cl, st, c1)))
       num_agents enqueue"

definition cent_multiple :: "(nat \<Rightarrow> int) \<Rightarrow> ec_base \<Rightarrow> int list \<Rightarrow> int \<Rightarrow> string \<Rightarrow> bool \<Rightarrow> solution \<Rightarrow> solution res" where
  "cent_multiple rnd ec fail_node_ids num_agents scenario enqueue =
     gen_batches ec fail_node_ids
       (\<lambda>st c. bindR (genCentralizedColoringForMutipleFailure rnd ec fail_node_ids num_agents scenario st c)
                 (\<lambda>(cl, c1). Inr (cl, st, c1)))
       num_agents enqueue"

definition cent_genRepairBatches ::
    "(nat \<Rightarrow> int) \<Rightarrow> ec_base \<Rightarrow> int \<Rightarrow> int list \<Rightarrow> int \<Rightarrow> string \<Rightarrow> bool \<Rightarrow> solution \<Rightarrow> solution res" where
  "cent_genRepairBatches rnd ec num_failures fail_node_list num_agents scenario enqueue s =
     bindR (if num_failures = 1
            then bindR (vget fail_node_list 0) (\<lambda>f. cent_single rnd ec f num_agents scenario enqueue s)
            else cent_multiple rnd ec fail_node_list num_agents scenario enqueue s) (\<lambda>s1.
       Inr (s1\<lparr>finish_gen_batches := True\<rparr>))"

section \<open>What a centralised colouring looks like\<close>

definition cent_colored :: "ec_base \<Rightarrow> stripe \<Rightarrow> int \<Rightarrow> int umap \<Rightarrow> bool" where
  \<comment> \<open>the leaves at home, all else at the repair node\<close>
  "cent_colored ec s r cl \<longleftrightarrow> um_wf cl \<and> set (um_keys cl) = set (node_ids (s_ecdag s)) \<and>
     (\<forall>v\<in>set (node_ids (s_ecdag s)). color_of cl v = (if v \<in> set (ecLeaves (s_ecdag s)) then home ec s v else r))"

lemma fill_leaves:
  assumes "wf_ecdag (s_ecdag s)"
  shows "cent_colored ec s r (fill_colors r (getAllNodeIds (s_ecdag s)) (map (\<lambda>v. (v, home ec s v)) (ecLeaves (s_ecdag s))))"
proof -
  let ?g = "s_ecdag s" and ?cl = "map (\<lambda>v. (v, home ec s v)) (ecLeaves (s_ecdag s))"
  have L: "distinct (ecLeaves ?g)" "set (ecLeaves ?g) \<subseteq> set (node_ids ?g)"
    using assms by (auto simp: wf_ecdag_def)
  have ids: "set (getAllNodeIds ?g) = set (node_ids ?g)" by (simp add: getAllNodeIds_def um_keys_def)
  have keys: "um_keys ?cl = ecLeaves ?g" by (simp add: um_keys_def o_def)
  have at: "map_of ?cl v = (if v \<in> set (ecLeaves ?g) then Some (home ec s v) else None)" for v
    by (induction "ecLeaves ?g") (auto simp: map_of_map_restrict restrict_map_def)
  show ?thesis
    unfolding cent_colored_def
    using fill_colors(1) [of ?cl] fill_colors(2) [of r "getAllNodeIds ?g" ?cl] L ids
    by (auto simp: keys color_of_def um_get_def fill_colors(3) at)
qed

lemma cent_single_colors:
  assumes "wf_ecdag (s_ecdag s)" and "placed ec s" and "\<And>i. 0 \<le> rnd i"
    and "scenario = ''standby'' \<or> candidates num_agents (map (home ec s) (real_leaves ec s) @ [fail_node_id]) \<noteq> []"
  shows "\<exists>cl r c'. genCentralizedColoringForSingleFailure rnd ec fail_node_id num_agents scenario s c = Inr (cl, c') \<and>
    cent_colored ec s r cl \<and>
    (if scenario = ''standby'' then r = fail_node_id
     else 0 \<le> r \<and> r < num_agents \<and> r \<noteq> fail_node_id \<and> r \<notin> home ec s ` set (real_leaves ec s))"
proof -
  let ?cands = "candidates num_agents (map (home ec s) (real_leaves ec s) @ [fail_node_id])"
  have "distinct (ecLeaves (s_ecdag s))" using assms(1) by (simp add: wf_ecdag_def)
  note L = color_leaves_ok [OF assms(2) this]
  have "\<exists>r c'. (if scenario = ''standby'' then Inr (fail_node_id, c) else pick rnd ?cands c) = Inr (r, c') \<and>
      (if scenario = ''standby'' then r = fail_node_id else r \<in> set ?cands)"
    using pick_ok [of ?cands rnd c] assms(3,4) by auto
  then obtain r c' where r: "(if scenario = ''standby'' then Inr (fail_node_id, c) else pick rnd ?cands c) = Inr (r, c')"
    "if scenario = ''standby'' then r = fail_node_id else r \<in> set ?cands" by (elim exE conjE)
  have "genCentralizedColoringForSingleFailure rnd ec fail_node_id num_agents scenario s c =
      Inr (fill_colors r (getAllNodeIds (s_ecdag s)) (map (\<lambda>v. (v, home ec s v)) (ecLeaves (s_ecdag s))), c')"
    by (simp add: genCentralizedColoringForSingleFailure_def L r(1) getECDAG_def)
  moreover note fill_leaves [OF assms(1), of ec r]
  moreover have "if scenario = ''standby'' then r = fail_node_id
     else 0 \<le> r \<and> r < num_agents \<and> r \<noteq> fail_node_id \<and> r \<notin> home ec s ` set (real_leaves ec s)"
    using r(2) by (auto simp: set_candidates split: if_splits)
  ultimately show ?thesis by blast
qed

text \<open>The transfers of a centralised repair: one for each real leaf that is used, all to one node.\<close>

lemma cent_transfers:
  assumes "wf_ecdag (s_ecdag s)" and "cent_colored ec s r cl" and "r \<noteq> -1"
    and "r \<notin> home ec s ` set (real_leaves ec s)" and "-1 \<notin> home ec s ` set (real_leaves ec s)"
  shows "transfers (s_ecdag s) (color_of cl) =
    (\<lambda>v. (v, home ec s v, r)) ` {v \<in> set (real_leaves ec s). parents_of (s_ecdag s) v \<noteq> []}" (is "_ = ?f ` ?L")
proof -
  let ?g = "s_ecdag s"
  have leaf: "v \<in> set (ecLeaves ?g) \<longleftrightarrow> v \<in> set (node_ids ?g) \<and> children_of ?g v = []" for v
    using assms(1) by (auto simp: wf_ecdag_def)
  have par: "p \<in> set (node_ids ?g) \<and> p \<notin> set (ecLeaves ?g)" if p: "p \<in> set (parents_of ?g v)" and v: "v \<in> set (node_ids ?g)" for p v
  proof -
    obtain n where n: "(v, n) \<in> set (ecNodeMap ?g)" "parents_of ?g v = parentNodes n"
      using v assms(1) by (auto simp: parents_of_def getNode_def set_um_keys wf_ecdag_def um_keys_def)
    then have "wf_node ?g v n" using assms(1) by (auto simp: wf_ecdag_def list_all_iff)
    then show ?thesis using p n(2) leaf by (auto simp: wf_node_def)
  qed
  have col: "color_of cl v = (if v \<in> set (ecLeaves ?g) then home ec s v else r)" if "v \<in> set (node_ids ?g)" for v
    using assms(2) that by (simp add: cent_colored_def)
  have pcol: "color_of cl ` set (parents_of ?g v) = (if parents_of ?g v = [] then {} else {r})" if "v \<in> set (node_ids ?g)" for v
    using par [OF _ that] col by (cases "parents_of ?g v") auto
  have virt: "home ec s v = -1" if "v \<in> set (ecLeaves ?g)" "v \<notin> set (real_leaves ec s)" for v
    using that by (simp add: real_leaves_def home_def)
  have real: "v \<in> set (ecLeaves ?g)" "v \<in> set (node_ids ?g)" if "v \<in> set (real_leaves ec s)" for v
    using that leaf by (auto simp: real_leaves_def)
  have homes: "home ec s v \<noteq> -1" if "v \<in> set (real_leaves ec s)" for v
    using that assms(5) by (metis imageI)
  show ?thesis
  proof (rule set_eqI)
    fix t :: "int \<times> int \<times> int"
    obtain v a b where t: "t = (v, a, b)" by (cases t) auto
    show "t \<in> transfers ?g (color_of cl) \<longleftrightarrow> t \<in> ?f ` ?L"
    proof (cases "v \<in> set (node_ids ?g)")
      case True
      have "t \<in> transfers ?g (color_of cl) \<longleftrightarrow> a = color_of cl v \<and> parents_of ?g v \<noteq> [] \<and> b = r \<and> a \<noteq> -1 \<and> a \<noteq> r"
        using True assms(3) by (auto simp: transfers_def t pcol split: if_splits)
      also have "\<dots> \<longleftrightarrow> v \<in> set (real_leaves ec s) \<and> parents_of ?g v \<noteq> [] \<and> a = home ec s v \<and> b = r"
        using col [OF True] virt [of v] assms(4) homes real(1) [of v] by (auto split: if_splits)
      finally show ?thesis by (auto simp: t)
    next
      case False
      then show ?thesis using real(2) by (auto simp: transfers_def t)
    qed
  qed
qed

lemma cent_repair_load:
  assumes "wf_ecdag (s_ecdag s)" and "cent_colored ec s r cl" and "r \<noteq> -1"
    and "r \<notin> home ec s ` set (real_leaves ec s)" and "-1 \<notin> home ec s ` set (real_leaves ec s)"
  shows "\<exists>s'. evaluateColoring (setColoring cl s) = Inr s' \<and> stats_ok s' \<and> coloring s' = cl \<and> s_ecdag s' = s_ecdag s \<and>
    s_bdwt s' = int (card {v \<in> set (real_leaves ec s). parents_of (s_ecdag s) v \<noteq> []}) \<and>
    um_get 0 (s_in s') r = s_bdwt s'"
proof -
  let ?g = "s_ecdag s" and ?L = "{v \<in> set (real_leaves ec s). parents_of (s_ecdag s) v \<noteq> []}"
  let ?f = "\<lambda>v. (v, home ec s v, r)"
  have "colored (setColoring cl s)"
    using assms(1,2) by (simp add: colored_def setColoring_def cent_colored_def)
  from evaluateColoring_counts [OF this] obtain s' where s':
    "evaluateColoring (setColoring cl s) = Inr s'" "stats_ok s'" "coloring s' = cl" "s_ecdag s' = ?g"
    by (auto simp: setColoring_def)
  have T: "transfers ?g (color_of cl) = ?f ` ?L" by (rule cent_transfers [OF assms])
  have inj: "inj_on ?f A" for A by (simp add: inj_on_def)
  have b: "s_bdwt s' = int (card ?L)"
    using s'(2) by (simp add: stats_ok_def s'(3,4) T card_image [OF inj])
  have "{t \<in> ?f ` ?L. endpoint IN t = r} = ?f ` ?L" by auto
  then have "expected ?g (color_of cl) IN r = int (card ?L)"
    by (simp add: expected_def T card_image [OF inj])
  moreover have "um_get 0 (s_in s') r = expected ?g (color_of cl) IN r"
  proof -
    have "tab_get (s_in s', s_out s') IN r = expected ?g (color_of cl) IN r" using s'(2) by (simp add: stats_ok_def s'(3,4))
    then show ?thesis by (simp add: tab_get_def)
  qed
  ultimately show ?thesis using s' b by auto
qed

section \<open>The centralised planner\<close>

abbreviation cent_gen :: "(nat \<Rightarrow> int) \<Rightarrow> ec_base \<Rightarrow> int \<Rightarrow> int \<Rightarrow> string \<Rightarrow> coloring_gen" where
  "cent_gen rnd ec fail_node_id num_agents scenario \<equiv>
     (\<lambda>st c. bindR (genCentralizedColoringForSingleFailure rnd ec fail_node_id num_agents scenario st c)
               (\<lambda>(cl, c1). Inr (cl, st, c1)))"

lemma cent_plannable:
  assumes "repairable ec [f] st" and "enough_agents ec scenario num_agents f st" and "\<And>i. 0 \<le> rnd i"
  shows "plannable ec [f] (cent_gen rnd ec f num_agents scenario) st"
  unfolding plannable_def
proof
  fix c
  from assms(1) obtain st1 where st1: "genRepairECDAG ec [f] st = Inr st1" "wf_ecdag (s_ecdag st1)" "placed ec st1"
    by (auto simp: repairable_def)
  have "enough_agents ec scenario num_agents f st1"
    using assms(2) genRepairECDAG_nodelist [OF st1(1)] by (simp add: enough_agents_def)
  note E = enough_candidates [OF st1(3) this]
  from cent_single_colors [where rnd = rnd and c = c, OF st1(2,3) assms(3) E] obtain cl r c' where
    cl: "genCentralizedColoringForSingleFailure rnd ec f num_agents scenario st1 c = Inr (cl, c')" "cent_colored ec st1 r cl"
    by blast
  have "colored (setColoring cl st1)"
    using st1(2) cl(2) by (simp add: colored_def cent_colored_def setColoring_def)
  with st1(1) cl(1) show "\<exists>st1 cl st2 c'. genRepairECDAG ec [f] st = Inr st1 \<and>
      cent_gen rnd ec f num_agents scenario st1 c = Inr (cl, st2, c') \<and> colored (setColoring cl st2)"
    by (intro exI [of _ st1] exI [of _ cl] exI [of _ st1] exI [of _ c']) simp
qed

lemma cent_plan:
  assumes "batch_size s = int bs" "0 < bs" "bs < 2 ^ 31" and "stripes_to_repair s = []" and "\<And>i. 0 \<le> rnd i"
    and "\<And>st. st \<in> set (stripe_list s) \<Longrightarrow> is_hit [f] st \<Longrightarrow>
      repairable ec [f] st \<and> enough_agents ec scenario num_agents f st"
  shows "\<exists>s' bts. cent_genRepairBatches rnd ec 1 [f] num_agents scenario enq s = Inr s' \<and>
    finish_gen_batches s' \<and>
    batch_queue s' = (if enq then batch_queue s @ bts else batch_queue s) \<and>
    batch_list s' = (if enq then batch_list s else batch_list s @ bts) \<and>
    concat (map rb_stripes bts) = failed_stripes [f] (stripe_list s) \<and>
    batches_ok (stripe_list s') num_agents bs bts \<and>
    planned_upto (planned ec [f] (cent_gen rnd ec f num_agents scenario)) (stripe_list s)
      (failed_stripes [f] (stripe_list s)) (stripe_list s')"
proof -
  have "batch_ready ec [f] (cent_gen rnd ec f num_agents scenario) bs (stripe_list s) s"
    using assms by (auto simp: batch_ready_def intro!: cent_plannable)
  from gen_batches_ok [OF this, of num_agents enq]
  obtain s' bts where s': "cent_single rnd ec f num_agents scenario enq s = Inr s'"
    "batch_queue s' = (if enq then batch_queue s @ bts else batch_queue s)"
    "batch_list s' = (if enq then batch_list s else batch_list s @ bts)"
    "concat (map rb_stripes bts) = failed_stripes [f] (stripe_list s)"
    "batches_ok (stripe_list s') num_agents bs bts"
    "planned_upto (planned ec [f] (cent_gen rnd ec f num_agents scenario)) (stripe_list s)
      (failed_stripes [f] (stripe_list s)) (stripe_list s')"
    unfolding cent_single_def by blast
  then show ?thesis
    by (intro exI [of _ "s'\<lparr>finish_gen_batches := True\<rparr>"] exI [of _ bts]) (simp add: cent_genRepairBatches_def)
qed

section \<open>Several failures at once\<close>

text \<open>If \<open>rand()\<close> gives every residue again and again, the draw ends with an index that is not an
  element of \<open>ret\<close>.\<close>

definition fair_rand :: "(nat \<Rightarrow> int) \<Rightarrow> int \<Rightarrow> bool" where
  "fair_rand rnd sz \<longleftrightarrow> (\<forall>c i. 0 \<le> i \<and> i < sz \<longrightarrow> (\<exists>d. rnd (c + d) mod sz = i))"

lemma draw_index_at:
  assumes "rnd (c + d) mod sz \<notin> set ret"
  shows "\<exists>i c'. draw_index rnd sz ret c = Some (i, c') \<and> i \<notin> set ret \<and> (\<exists>c. i = rnd c mod sz)"
  using assms
proof (induction d arbitrary: c)
  case 0
  then show ?case by (subst draw_index.simps) auto
next
  case (Suc d)
  show ?case
  proof (cases "rnd c mod sz \<in> set ret")
    case True
    have "rnd (Suc c + d) mod sz \<notin> set ret" using Suc.prems by simp
    from Suc.IH [OF this] True show ?thesis by (subst draw_index.simps) simp
  qed (subst draw_index.simps, auto)
qed

lemma draw_node_ok:
  assumes "fair_rand rnd (int (length cands))" and "length ret < length cands"
  shows "\<exists>v c'. draw_node rnd cands (ret, c) = Inr (ret @ [v], c') \<and> v \<in> set cands"
proof -
  let ?n = "int (length cands)"
  have "\<not> {0..<?n} \<subseteq> set ret"
  proof
    assume "{0..<?n} \<subseteq> set ret"
    then have "card {0..<?n} \<le> card (set ret)" by (rule card_mono [OF finite_set])
    then show False using card_length [of ret] assms(2) by simp
  qed
  then obtain i where i: "0 \<le> i" "i < ?n" "i \<notin> set ret" unfolding subset_iff atLeastLessThan_iff by blast
  then obtain d where "rnd (c + d) mod ?n = i" using assms(1) by (auto simp: fair_rand_def)
  with i(3) draw_index_at [of rnd c d ?n ret] obtain j c' where
    j: "draw_index rnd ?n ret c = Some (j, c')" "\<exists>c. j = rnd c mod ?n" by auto
  have n: "0 < ?n" using assms(2) by linarith
  then have "0 \<le> j" "nat j < length cands" using j(2) by (auto simp: nat_less_iff)
  then show ?thesis using j(1) n by (auto simp: draw_node_def)
qed

lemma draw_nodes_ok:
  assumes "fair_rand rnd (int (length cands))" and "m \<le> length cands"
  shows "\<exists>ret c'. foldR (\<lambda>_. draw_node rnd cands) [0..<m] ([], c) = Inr (ret, c') \<and>
    length ret = m \<and> set ret \<subseteq> set cands"
  using assms(2)
proof (induction m)
  case (Suc m)
  then obtain ret c' where IH: "foldR (\<lambda>_. draw_node rnd cands) [0..<m] ([], c) = Inr (ret, c')"
    "length ret = m" "set ret \<subseteq> set cands" by auto
  with draw_node_ok [OF assms(1), of ret c'] Suc.prems show ?case by (auto simp: foldR_append)
qed simp

text \<open>When \<open>rand()\<close> repeats itself, so does the choice: an index is compared with nodes.\<close>

lemma draw_nodes_same:
  assumes "\<And>j. j < m \<Longrightarrow> rnd (c + j) mod int (length cands) = int i" and "i < length cands" and "cands ! i \<noteq> int i"
  shows "foldR (\<lambda>_. draw_node rnd cands) [0..<m] ([], c) = Inr (replicate m (cands ! i), c + m)"
  using assms(1)
proof (induction m)
  case (Suc m)
  have "draw_index rnd (int (length cands)) (replicate m (cands ! i)) (c + m) = Some (int i, Suc (c + m))"
    using Suc.prems [of m] assms(3) by (subst draw_index.simps) simp
  then have "draw_node rnd cands (replicate m (cands ! i), c + m) = Inr (replicate m (cands ! i) @ [cands ! i], Suc (c + m))"
    using assms(2) by (auto simp: draw_node_def)
  with Suc show ?case by (simp add: foldR_append replicate_append_same)
qed simp

lemma color_concacts:
  assumes "m \<le> length cc" "m \<le> length ret" and "distinct cc"
  shows "\<exists>cl'. foldR (color_concact cc ret) [0..<m] cl = Inr cl' \<and> (um_wf cl \<longrightarrow> um_wf cl') \<and>
    set (um_keys cl') = set (um_keys cl) \<union> set (take m cc) \<and>
    (\<forall>i<m. color_of cl' (cc ! i) = ret ! i) \<and> (\<forall>v. v \<notin> set (take m cc) \<longrightarrow> color_of cl' v = color_of cl v)"
  using assms(1,2)
proof (induction m)
  case 0
  show ?case by simp
next
  case (Suc m)
  then obtain cl' where IH: "foldR (color_concact cc ret) [0..<m] cl = Inr cl'" "um_wf cl \<longrightarrow> um_wf cl'"
    "set (um_keys cl') = set (um_keys cl) \<union> set (take m cc)"
    "\<And>i. i < m \<Longrightarrow> color_of cl' (cc ! i) = ret ! i" "\<And>v. v \<notin> set (take m cc) \<Longrightarrow> color_of cl' v = color_of cl v"
    by auto
  have m: "m < length cc" "m < length ret" using Suc.prems by simp_all
  have t: "set (take (Suc m) cc) = insert (cc ! m) (set (take m cc))"
    using m(1) by (simp add: take_Suc_conv_app_nth)
  have "foldR (color_concact cc ret) [0..<Suc m] cl = Inr (um_put (cc ! m) (ret ! m) cl')"
    using IH(1) m by (simp add: foldR_append color_concact_def)
  moreover have "um_wf cl \<longrightarrow> um_wf (um_put (cc ! m) (ret ! m) cl')" using IH(2) by simp
  moreover have "set (um_keys (um_put (cc ! m) (ret ! m) cl')) = set (um_keys cl) \<union> set (take (Suc m) cc)"
    unfolding t using IH(3) by (auto simp: um_keys_put)
  moreover have "color_of (um_put (cc ! m) (ret ! m) cl') (cc ! i) = ret ! i" if "i < Suc m" for i
  proof (cases "i = m")
    case False
    then have "i < m" "cc ! i \<noteq> cc ! m" using that m(1) assms(3) by (auto simp: nth_eq_iff_index_eq)
    then show ?thesis using IH(4) by (simp add: color_of_put)
  qed (simp add: color_of_put)
  moreover have "color_of (um_put (cc ! m) (ret ! m) cl') v = color_of cl v" if "v \<notin> set (take (Suc m) cc)" for v
    using that IH(5) unfolding t by (simp add: color_of_put)
  ultimately show ?case by blast
qed

definition multi_colored :: "ec_base \<Rightarrow> stripe \<Rightarrow> int list \<Rightarrow> int umap \<Rightarrow> bool" where
  \<comment> \<open>leaves at home, the \<open>i\<close>-th lost block at \<open>ret ! i\<close>, all else at \<open>ret ! 0\<close>\<close>
  "multi_colored ec s ret cl \<longleftrightarrow> um_wf cl \<and> set (um_keys cl) = set (node_ids (s_ecdag s)) \<and>
     (\<forall>i<length ret. color_of cl (ecConcacts (s_ecdag s) ! i) = ret ! i) \<and>
     (\<forall>v\<in>set (node_ids (s_ecdag s)) - set (ecConcacts (s_ecdag s)).
        color_of cl v = (if v \<in> set (ecLeaves (s_ecdag s)) then home ec s v else ret ! 0))"

definition multi_cands :: "ec_base \<Rightarrow> stripe \<Rightarrow> int \<Rightarrow> int list \<Rightarrow> int list" where
  "multi_cands ec s num_agents fail_node_ids =
     candidates num_agents (map (home ec s) (real_leaves ec s) @ fail_node_ids)"

lemma cent_multi_given:
  assumes wf: "wf_ecdag (s_ecdag s)" and pl: "placed ec s" and sc: "scenario \<noteq> ''standby''"
    and enough: "length fail_node_ids \<le> length (multi_cands ec s num_agents fail_node_ids)"
    and cc: "length (ecConcacts (s_ecdag s)) = getFailNum s" "0 < getFailNum s"
      "distinct (ecConcacts (s_ecdag s))" "set (ecConcacts (s_ecdag s)) \<subseteq> set (node_ids (s_ecdag s))"
    and draws: "foldR (\<lambda>_. draw_node rnd (multi_cands ec s num_agents fail_node_ids)) [0..<getFailNum s] ([], c) =
      Inr (ret, c')" "length ret = getFailNum s"
  shows "\<exists>cl. genCentralizedColoringForMutipleFailure rnd ec fail_node_ids num_agents scenario s c = Inr (cl, c') \<and>
    multi_colored ec s ret cl"
proof -
  let ?g = "s_ecdag s" and ?cl = "map (\<lambda>v. (v, home ec s v)) (ecLeaves (s_ecdag s))"
  have "distinct (ecLeaves ?g)" using wf by (simp add: wf_ecdag_def)
  note L = color_leaves_ok [OF pl this]
  have C: "cent_colored ec s (ret ! 0) (fill_colors (ret ! 0) (getAllNodeIds ?g) ?cl)" by (rule fill_leaves [OF wf])
  obtain cl where cl: "foldR (color_concact (ecConcacts ?g) ret) [0..<getFailNum s]
      (fill_colors (ret ! 0) (getAllNodeIds ?g) ?cl) = Inr cl" "um_wf cl"
    "set (um_keys cl) = set (node_ids ?g)"
    "\<And>i. i < getFailNum s \<Longrightarrow> color_of cl (ecConcacts ?g ! i) = ret ! i"
    "\<And>v. v \<notin> set (ecConcacts ?g) \<Longrightarrow> color_of cl v = color_of (fill_colors (ret ! 0) (getAllNodeIds ?g) ?cl) v"
    using color_concacts [OF _ _ cc(3), of "getFailNum s" ret "fill_colors (ret ! 0) (getAllNodeIds ?g) ?cl"] C cc draws(2)
    by (auto simp: cent_colored_def Un_absorb2 [OF cc(4)])
  have "vget ret 0 = Inr (ret ! 0)" using draws(2) cc(2) by simp
  then have "genCentralizedColoringForMutipleFailure rnd ec fail_node_ids num_agents scenario s c = Inr (cl, c')"
    using sc enough draws(1) cl(1)
    by (simp add: genCentralizedColoringForMutipleFailure_def L Let_def getECDAG_def multi_cands_def)
  moreover have "multi_colored ec s ret cl"
    unfolding multi_colored_def using cl(2-5) draws(2) C by (auto simp: cent_colored_def)
  ultimately show ?thesis by blast
qed

section \<open>Properties of the planners\<close>

text \<open>C27: The single-failure planner \<open>CentSolution\<close> returns, and its batches are a partition of the stripes
  that have a block on the failed node: in ascending order, each once, in numbered, non-empty batches
  of at most \<open>batch_size\<close> stripes. Every such stripe has been given its repair DAG and a colouring with
  up-to-date figures, no other stripe has changed, and each batch's load figures are those of its
  stripes as they are at the end. It needs a DAG for each loss and, unless the failed node is replaced
  in place, one agent that holds no block of the stripe.\<close>

theorem cent_batches_cover:
  assumes "batch_size s = int bs" "0 < bs" "bs < 2 ^ 31" and "stripes_to_repair s = []" and "\<forall>i. 0 \<le> rnd i"
    and "\<forall>st\<in>set (stripe_list s). is_hit [f] st \<longrightarrow> repairable ec [f] st \<and> enough_agents ec scenario num_agents f st"
  shows "\<exists>s' bts. cent_genRepairBatches rnd ec 1 [f] num_agents scenario enq s = Inr s' \<and> finish_gen_batches s' \<and>
    (if enq then batch_queue s' = batch_queue s @ bts else batch_list s' = batch_list s @ bts) \<and>
    concat (map rb_stripes bts) = failed_stripes [f] (stripe_list s) \<and>
    batches_ok (stripe_list s') num_agents bs bts \<and>
    (\<forall>i<length (stripe_list s).
       if is_hit [f] (stripe_list s ! i)
       then planned ec [f] (cent_gen rnd ec f num_agents scenario) (stripe_list s ! i) (stripe_list s' ! i)
       else stripe_list s' ! i = stripe_list s ! i)"
proof -
  from cent_plan [of s bs rnd f ec scenario num_agents enq] assms obtain s' bts where
    s': "cent_genRepairBatches rnd ec 1 [f] num_agents scenario enq s = Inr s'" "finish_gen_batches s'"
    "batch_queue s' = (if enq then batch_queue s @ bts else batch_queue s)"
    "batch_list s' = (if enq then batch_list s else batch_list s @ bts)"
    "concat (map rb_stripes bts) = failed_stripes [f] (stripe_list s)" "batches_ok (stripe_list s') num_agents bs bts"
    "planned_upto (planned ec [f] (cent_gen rnd ec f num_agents scenario)) (stripe_list s)
      (failed_stripes [f] (stripe_list s)) (stripe_list s')" by blast
  have "int i \<in> set (failed_stripes [f] (stripe_list s)) \<longleftrightarrow> is_hit [f] (stripe_list s ! i)"
    if "i < length (stripe_list s)" for i
    using that by (auto simp: failed_stripes_def)
  then show ?thesis using s' by (intro exI [of _ s'] exI [of _ bts]) (auto simp: planned_upto_def)
qed

definition sample_stripes :: "stripe list" where
  "sample_stripes = [new_stripe 0 [10, 11, 12, 13], new_stripe 1 [20, 21, 22, 23], new_stripe 2 [11, 10, 13, 20]]"

lemma sample_rdp: "\<exists>r. rdp_ok 2 2 r \<and> (\<forall>st\<in>set sample_stripes. is_hit [10] st \<longrightarrow> repairable (rdp_ec r) [10] st)"
proof -
  have P: "rdp_params (2 + 2) 2 2" by (simp add: rdp_params_def REQUESTOR_def)
  obtain r where r: "rdp_ok 2 2 r" using new_RDP_ok [OF P] by blast
  have "repairable (rdp_ec r) [10] st" if "st \<in> set sample_stripes" "is_hit [10] st" for st
    using that by (intro rdp_repairable [OF P r]) (auto simp: sample_stripes_def new_stripe_def)
  with r show ?thesis by blast
qed

lemma sample_failed: "failed_stripes [10] sample_stripes = [0, 2]"
  by (simp add: failed_stripes_def sample_stripes_def is_hit_def new_stripe_def upt_rec)

lemma cent_batches_cover_witness:
  "\<exists>r s'. rdp_ok 2 2 r \<and>
     cent_genRepairBatches (\<lambda>_. 0) (rdp_ec r) 1 [10] 14 ''scatter'' False
       (init_stripes sample_stripes (new_CentSolution 1 0 14)) = Inr s' \<and>
     map rb_stripes (batch_list s') = [[0], [2]]"
proof -
  let ?s = "init_stripes sample_stripes (new_CentSolution 1 0 14)"
  have s: "batch_size ?s = int 1" "stripes_to_repair ?s = []" "stripe_list ?s = sample_stripes" "batch_list ?s = []"
    by (simp_all add: init_stripes_def new_CentSolution_def new_SolutionBase_def)
  obtain r where r: "rdp_ok 2 2 r" "\<forall>st\<in>set sample_stripes. is_hit [10] st \<longrightarrow> repairable (rdp_ec r) [10] st"
    using sample_rdp by blast
  have "enough_agents (rdp_ec r) ''scatter'' 14 10 st" if "st \<in> set sample_stripes" for st
    using that by (auto simp: enough_agents_def sample_stripes_def new_stripe_def intro!: exI [of _ 0])
  with r(2) have "\<forall>st\<in>set (stripe_list ?s). is_hit [10] st \<longrightarrow>
      repairable (rdp_ec r) [10] st \<and> enough_agents (rdp_ec r) ''scatter'' 14 10 st" unfolding s(3) by blast
  from cent_batches_cover [where s = ?s and bs = 1 and rnd = "\<lambda>_. 0" and enq = False, OF s(1) _ _ s(2) _ this]
  obtain s' bts where s': "cent_genRepairBatches (\<lambda>_. 0) (rdp_ec r) 1 [10] 14 ''scatter'' False ?s = Inr s'"
    "batch_list s' = bts" "concat (map rb_stripes bts) = [0, 2]" "batches_ok (stripe_list s') 14 1 bts"
    by (auto simp: s sample_failed)
  have one: "length (rb_stripes b) = 1" if "b \<in> set bts" for b
    using that s'(4) by (auto simp: batches_ok_def in_set_conv_nth le_Suc_eq)
  have "map rb_stripes bts = [[0], [2]]"
  proof -
    have "xss = map (\<lambda>x. [x]) (concat xss)" if "\<forall>ys\<in>set xss. length ys = 1" for xss :: "int list list"
      using that by (induction xss) (auto simp: length_Suc_conv)
    from this [of "map rb_stripes bts"] show ?thesis using one s'(3) by simp
  qed
  with r(1) s'(1,2) show ?thesis by (intro exI [of _ r] exI [of _ s']) simp
qed

text \<open>C28: A centralised repair of one stripe sends each surviving sub-packet that is used exactly once, and
  all of them to the repair node: after the planner's colouring is recounted, the repair bandwidth is
  the number of real leaves that feed a vertex, and the repair node receives all of it. The repair node
  is the failed node in the standby scenario and an agent that holds neither a lost nor a used block
  otherwise.\<close>

theorem cent_repair_traffic:
  assumes "wf_ecdag (s_ecdag s)" and "placed ec s" and "\<forall>i. 0 \<le> rnd i" and "\<forall>node\<in>set (nodelist s). 0 \<le> node"
    and "0 \<le> f" and "f \<notin> home ec s ` set (real_leaves ec s)" and "enough_agents ec scenario num_agents f s"
  shows "\<exists>cl c' s' r. genCentralizedColoringForSingleFailure rnd ec f num_agents scenario s c = Inr (cl, c') \<and>
    evaluateColoring (setColoring cl s) = Inr s' \<and>
    (if scenario = ''standby'' then r = f
     else 0 \<le> r \<and> r < num_agents \<and> r \<noteq> f \<and> r \<notin> home ec s ` set (real_leaves ec s)) \<and>
    transfers (s_ecdag s) (color_of cl) =
      (\<lambda>v. (v, home ec s v, r)) ` {v \<in> set (real_leaves ec s). parents_of (s_ecdag s) v \<noteq> []} \<and>
    s_bdwt s' = int (card {v \<in> set (real_leaves ec s). parents_of (s_ecdag s) v \<noteq> []}) \<and>
    um_get 0 (s_in s') r = s_bdwt s'"
proof -
  let ?homes = "home ec s ` set (real_leaves ec s)"
  from cent_single_colors [where rnd = rnd and c = c, OF assms(1,2) _ enough_candidates [OF assms(2,7)]] assms(3) obtain cl r c' where
    cl: "genCentralizedColoringForSingleFailure rnd ec f num_agents scenario s c = Inr (cl, c')" "cent_colored ec s r cl"
    "if scenario = ''standby'' then r = f else 0 \<le> r \<and> r < num_agents \<and> r \<noteq> f \<and> r \<notin> ?homes" by blast
  have r: "r \<noteq> -1" "r \<notin> ?homes" using cl(3) assms(5,6) by (auto split: if_splits)
  have "-1 \<notin> ?homes" using homes_in_nodelist [OF assms(2)] assms(4) by fastforce
  from cent_repair_load [OF assms(1) cl(2) r this] cent_transfers [OF assms(1) cl(2) r this] cl(1,3)
  show ?thesis by blast
qed

definition sample_ec :: ec_base where
  "sample_ec = \<lparr>ec_n = 4, ec_k = 2, ec_w = 1, ec_Decode = (\<lambda>_ _. Inr None)\<rparr>"

lemma sample_leaves: "ecLeaves sample_dag = [0, 1, 2]"
  by code_simp

lemma sample_placed: "placed sample_ec sample_stripe"
  by (simp add: placed_def sample_ec_def sample_stripe_def new_stripe_def sample_leaves)

lemma cent_repair_traffic_witness:
  "\<exists>cl c' s'. genCentralizedColoringForSingleFailure (\<lambda>_. 1) sample_ec 3 8 ''scatter'' sample_stripe 0 = Inr (cl, c') \<and>
     evaluateColoring (setColoring cl sample_stripe) = Inr s'"
proof -
  have wf: "wf_ecdag (s_ecdag sample_stripe)" using colored_sample by (simp add: colored_def)
  have "home sample_ec sample_stripe ` set (real_leaves sample_ec sample_stripe) = {0, 1, 2}"
    by (auto simp: real_leaves_def home_def sample_ec_def sample_stripe_def new_stripe_def sample_leaves)
  then have "3 \<notin> home sample_ec sample_stripe ` set (real_leaves sample_ec sample_stripe)" by simp
  moreover have "enough_agents sample_ec ''scatter'' 8 3 sample_stripe"
    by (auto simp: enough_agents_def sample_stripe_def new_stripe_def intro!: exI [of _ 5])
  moreover have "\<forall>node\<in>set (nodelist sample_stripe). 0 \<le> node" by (simp add: sample_stripe_def new_stripe_def)
  ultimately show ?thesis
    using cent_repair_traffic [OF wf sample_placed, where rnd = "\<lambda>_. 1" and f = 3 and num_agents = 8 and scenario = "''scatter''" and c = 0]
    by simp blast
qed

text \<open>C29: With several lost blocks and a \<open>rand()\<close> that keeps giving every residue, \<open>CentSolution\<close> returns a
  colouring of all vertices: the leaves where their blocks are, the concatenation of each lost block at
  a candidate (an agent that holds no lost and no used block), all else at the first candidate drawn.\<close>

theorem cent_multi_places:
  assumes "wf_ecdag (s_ecdag s)" and "placed ec s" and "scenario \<noteq> ''standby''"
    and "length fails \<le> length (multi_cands ec s num_agents fails)"
    and "getFailNum s \<le> length fails" and "length (ecConcacts (s_ecdag s)) = getFailNum s" and "0 < getFailNum s"
    and "distinct (ecConcacts (s_ecdag s))" and "set (ecConcacts (s_ecdag s)) \<subseteq> set (node_ids (s_ecdag s))"
    and "fair_rand rnd (int (length (multi_cands ec s num_agents fails)))"
  shows "\<exists>cl c' ret. genCentralizedColoringForMutipleFailure rnd ec fails num_agents scenario s c = Inr (cl, c') \<and>
    length ret = getFailNum s \<and>
    (\<forall>r\<in>set ret. 0 \<le> r \<and> r < num_agents \<and> r \<notin> set fails \<and> r \<notin> home ec s ` set (real_leaves ec s)) \<and>
    multi_colored ec s ret cl"
proof -
  let ?cands = "multi_cands ec s num_agents fails"
  have "getFailNum s \<le> length ?cands" using assms(4,5) by simp
  from draw_nodes_ok [OF assms(10) this, of c] obtain ret c' where
    ret: "foldR (\<lambda>_. draw_node rnd ?cands) [0..<getFailNum s] ([], c) = Inr (ret, c')" "length ret = getFailNum s"
      "set ret \<subseteq> set ?cands" by blast
  from cent_multi_given [OF assms(1-4,6-9) ret(1,2)] obtain cl where
    "genCentralizedColoringForMutipleFailure rnd ec fails num_agents scenario s c = Inr (cl, c')" "multi_colored ec s ret cl"
    by blast
  moreover have "\<forall>r\<in>set ret. 0 \<le> r \<and> r < num_agents \<and> r \<notin> set fails \<and> r \<notin> home ec s ` set (real_leaves ec s)"
    using ret(3) by (auto simp: multi_cands_def set_candidates)
  ultimately show ?thesis using ret(2) by blast
qed

text \<open>A stripe with two lost blocks, 0 and 1, that are rebuilt from blocks 2 and 3.\<close>

definition sample_two :: stripe where
  "sample_two = (new_stripe 0 [0, 1, 2, 3])\<lparr>
     s_ecdag := (Join (REQUESTOR - 1) [1] [-1] (Join REQUESTOR [0] [-1]
        (Join 1 [2, 3] [1, 2] (Join 0 [2, 3] [1, 1] new_ecdag))))\<lparr>ecConcacts := [REQUESTOR, REQUESTOR - 1]\<rparr>,
     fail_blk_idxs := [0, 1]\<rparr>"

lemma sample_two_wf: "wf_ecdag (s_ecdag sample_two)"
proof -
  let ?g1 = "Join 0 [2, 3] [1, 1] new_ecdag"
  let ?g2 = "Join 1 [2, 3] [1, 2] ?g1"
  let ?g3 = "Join REQUESTOR [0] [-1] ?g2"
  have 1: "wf_ecdag ?g1" "set (node_ids ?g1) = {0, 2, 3}"
    using wf_Join(1,2) [OF wf_new_ecdag, of 0 "[2, 3]" "[1, 1]"] by (auto simp: new_ecdag_def)
  have 2: "wf_ecdag ?g2" "set (node_ids ?g2) = {0, 1, 2, 3}"
    using wf_Join(1,2) [OF 1(1), of 1 "[2, 3]" "[1, 2]"] 1(2) by auto
  have 3: "wf_ecdag ?g3" "set (node_ids ?g3) = {0, 1, 2, 3, REQUESTOR}"
    using wf_Join(1,2) [OF 2(1), of REQUESTOR "[0]" "[-1]"] 2(2) by (auto simp: REQUESTOR_def)
  have "wf_ecdag (Join (REQUESTOR - 1) [1] [-1] ?g3)"
    using wf_Join(1) [OF 3(1), of "REQUESTOR - 1" "[1]" "[-1]"] 3(2) by (simp add: REQUESTOR_def)
  then show ?thesis by (simp add: sample_two_def wf_ecdag_upto wf_upto_def)
qed

lemma sample_two_sel:
  "ecLeaves (s_ecdag sample_two) = [2, 3]" "ecConcacts (s_ecdag sample_two) = [REQUESTOR, REQUESTOR - 1]"
  "nodelist sample_two = [0, 1, 2, 3]" "getFailNum sample_two = 2"
  "set (ecConcacts (s_ecdag sample_two)) \<subseteq> set (node_ids (s_ecdag sample_two))"
  by code_simp+

lemma sample_two_placed: "placed sample_ec sample_two"
  by (simp add: placed_def sample_ec_def sample_two_sel)

lemma sample_two_cands: "multi_cands sample_ec sample_two 6 [0, 1] = [4, 5]"
  by code_simp

lemma cent_multi_places_witness:
  "\<exists>cl c'. genCentralizedColoringForMutipleFailure int sample_ec [0, 1] 6 ''scatter'' sample_two 0 = Inr (cl, c') \<and> um_wf cl"
proof -
  have "\<exists>d. int (c + d) mod 2 = i" if "0 \<le> i" "i < 2" for c :: nat and i :: int
  proof -
    have "int (c + nat ((i - int c) mod 2)) mod 2 = (int c + (i - int c) mod 2) mod 2" by simp
    also have "\<dots> = i mod 2" by (simp only: mod_add_right_eq) simp
    finally show ?thesis using that by (intro exI [of _ "nat ((i - int c) mod 2)"]) simp
  qed
  then have "fair_rand int (int (length (multi_cands sample_ec sample_two 6 [0, 1])))"
    by (simp add: fair_rand_def sample_two_cands)
  from cent_multi_places [OF sample_two_wf sample_two_placed _ _ _ _ _ _ sample_two_sel(5) this,
      where scenario = "''scatter''" and c = 0]
  obtain cl c' ret where
    "genCentralizedColoringForMutipleFailure int sample_ec [0, 1] 6 ''scatter'' sample_two 0 = Inr (cl, c')"
    "multi_colored sample_ec sample_two ret cl"
    by (auto simp: sample_two_cands sample_two_sel(2,4) REQUESTOR_def)
  then show ?thesis by (intro exI [of _ cl] exI [of _ c']) (simp add: multi_colored_def)
qed

text \<open>C30: The draw compares an index with the nodes drawn so far, so it does not keep the repair nodes
  apart: when \<open>rand()\<close> repeats a residue whose candidate has another number, every lost block of the
  stripe is rebuilt at one node.\<close>

theorem cent_multi_same_node:
  assumes "wf_ecdag (s_ecdag s)" and "placed ec s" and "scenario \<noteq> ''standby''"
    and "length fails \<le> length (multi_cands ec s num_agents fails)"
    and "length (ecConcacts (s_ecdag s)) = getFailNum s" and "0 < getFailNum s"
    and "distinct (ecConcacts (s_ecdag s))" and "set (ecConcacts (s_ecdag s)) \<subseteq> set (node_ids (s_ecdag s))"
    and "\<forall>j<getFailNum s. rnd (c + j) mod int (length (multi_cands ec s num_agents fails)) = int i"
    and "i < length (multi_cands ec s num_agents fails)" and "multi_cands ec s num_agents fails ! i \<noteq> int i"
  shows "\<exists>cl c'. genCentralizedColoringForMutipleFailure rnd ec fails num_agents scenario s c = Inr (cl, c') \<and>
    (\<forall>v\<in>set (ecConcacts (s_ecdag s)). color_of cl v = multi_cands ec s num_agents fails ! i)"
proof -
  let ?cands = "multi_cands ec s num_agents fails"
  let ?ret = "replicate (getFailNum s) (?cands ! i)"
  have draws: "foldR (\<lambda>_. draw_node rnd ?cands) [0..<getFailNum s] ([], c) = Inr (?ret, c + getFailNum s)"
    using assms(9-11) by (intro draw_nodes_same) auto
  from cent_multi_given [OF assms(1-8) draws] obtain cl where
    cl: "genCentralizedColoringForMutipleFailure rnd ec fails num_agents scenario s c = Inr (cl, c + getFailNum s)"
      "multi_colored ec s ?ret cl" by auto
  have "color_of cl v = ?cands ! i" if "v \<in> set (ecConcacts (s_ecdag s))" for v
    using that cl(2) assms(5) by (auto simp: multi_colored_def in_set_conv_nth)
  with cl(1) show ?thesis by blast
qed

lemma cent_multi_same_node_witness:
  "\<exists>cl c'. genCentralizedColoringForMutipleFailure (\<lambda>_. 0) sample_ec [0, 1] 6 ''scatter'' sample_two 0 = Inr (cl, c') \<and>
     color_of cl REQUESTOR = 4 \<and> color_of cl (REQUESTOR - 1) = 4"
  using cent_multi_same_node [OF sample_two_wf sample_two_placed, where scenario = "''scatter''" and fails = "[0, 1]" and num_agents = 6 and rnd = "\<lambda>_. 0" and c = 0 and i = 0]
    sample_two_sel(5)
  unfolding sample_two_cands sample_two_sel by auto

end
