(* ===== verification/Offline.thy ===== *)
theory Offline
  imports Centralized
begin

text \<open>
  Class \<open>OfflineSolution\<close> (src/src/sol/OfflineSolution.cc): the colours of the inner vertices come from a
  file of precomputed trade-off points. The points of the file and its \<open>digits\<close> are arguments.
\<close>

section \<open>OfflineSolution\<close>

definition new_OfflineSolution :: "int \<Rightarrow> int \<Rightarrow> int \<Rightarrow> solution" where
  "new_OfflineSolution batchsize standbysize agentsnum =
     new_SolutionBase\<lparr>batch_size := batchsize, standby_size := standbysize, agents_num := agentsnum,
       cluster_size := agentsnum + standbysize\<rparr>"

definition last_block_on :: "int \<Rightarrow> int list \<Rightarrow> int" where
  \<comment> \<open>the loop keeps the last index whose node is \<open>node\<close>\<close>
  "last_block_on node placement =
     fold (\<lambda>i b. if placement ! i = node then int i else b) [0..<length placement] (-1)"

definition itm_vertices :: "ecdag \<Rightarrow> int list" where
  "itm_vertices g = sort (filter (\<lambda>v. v \<notin> set (ecHeaders g) \<and> v \<notin> set (ecLeaves g)) (um_keys (ecNodeMap g)))"

definition offline_vertex ::
    "int list \<Rightarrow> int \<Rightarrow> int \<Rightarrow> int list \<Rightarrow> int list \<Rightarrow> nat \<Rightarrow> int umap \<Rightarrow> int umap res" where
  "offline_vertex placement fail_block repair_node itm colors i cl =
     bindR (vget itm (int i)) (\<lambda>dagidx.
     bindR (vget colors (int i)) (\<lambda>blkidx.
     bindR (if blkidx = fail_block then Inr repair_node else vget placement blkidx) (\<lambda>nodeid.
       Inr (um_insert dagidx nodeid cl))))"

definition genOfflineColoringForSingleFailure ::
    "(nat \<Rightarrow> int) \<Rightarrow> string umap \<Rightarrow> int \<Rightarrow> ec_base \<Rightarrow> int \<Rightarrow> int \<Rightarrow> string \<Rightarrow> stripe \<Rightarrow> nat \<Rightarrow>
     (int umap \<times> stripe \<times> nat) res" where
  "genOfflineColoringForSingleFailure rnd points digits ec fail_node_id num_agents scenario s c =
     (let g = getECDAG s; placement = getPlacement s; fail_block = last_block_on fail_node_id placement
      in bindR (color_leaves ec s) (\<lambda>(cl, avoid).
         bindR (if scenario = ''standby'' then Inr (fail_node_id, c)
                else pick rnd (candidates num_agents (avoid @ [fail_node_id])) c) (\<lambda>(repair_node, c1).
         bindR (vget (ecHeaders g) 0) (\<lambda>header.
         bindR (getColoringByIdx points digits fail_block) (\<lambda>colors.
         bindR (foldR (offline_vertex placement fail_block repair_node (itm_vertices g) colors)
                  [0..<length (itm_vertices g)] (um_insert header repair_node cl)) (\<lambda>cl2.
           Inr (cl2, s\<lparr>new_node := repair_node\<rparr>, c1)))))))"

definition offline_leaf :: "int \<Rightarrow> int \<Rightarrow> int list \<Rightarrow> int \<Rightarrow> int umap \<times> int list \<Rightarrow> (int umap \<times> int list) res" where
  "offline_leaf n w placement dagidx = (\<lambda>(cl, avoid).
     bindR (cdiv dagidx w) (\<lambda>blkidx.
       if blkidx < n
       then bindR (vget placement blkidx) (\<lambda>nodeid.
              Inr (um_insert dagidx nodeid cl, if nodeid \<in> set avoid then avoid else avoid @ [nodeid]))
       else Inr (um_insert dagidx (-1) cl, avoid)))"

definition offline_concact ::
    "(nat \<Rightarrow> int) \<Rightarrow> int \<Rightarrow> int \<Rightarrow> int umap \<times> int list \<times> nat \<Rightarrow> (int umap \<times> int list \<times> nat) res" where
  "offline_concact rnd num_agents concact_idx = (\<lambda>(cl, avoid, c).
     bindR (pick rnd (candidates num_agents avoid) c) (\<lambda>(repair_node, c1).
       Inr (um_insert concact_idx repair_node cl, avoid @ [repair_node], c1)))"

definition fail_code :: "int list \<Rightarrow> int list \<Rightarrow> int res" where
  \<comment> \<open>\<open>fail_block_idx_int += pow(2, node)\<close> for each block that is on a failed node\<close>
  "fail_code fail_node_ids placement =
     foldR (\<lambda>node v.
         if node < 0 then Inr v
         else if node < 31 \<and> v + 2 ^ nat node < 2 ^ 31 then Inr (v + 2 ^ nat node) else Inl UndefinedConv)
       (concat (map (\<lambda>curnode. filter (\<lambda>f. curnode = f) fail_node_ids) placement)) 0"

definition genOfflineColoringForMultipleFailure ::
    "(nat \<Rightarrow> int) \<Rightarrow> string umap \<Rightarrow> int \<Rightarrow> ec_base \<Rightarrow> int list \<Rightarrow> int \<Rightarrow> string \<Rightarrow> stripe \<Rightarrow> nat \<Rightarrow>
     (int umap \<times> nat) res" where
  "genOfflineColoringForMultipleFailure rnd points digits ec fail_node_ids num_agents scenario s c =
     (let g = getECDAG s; placement = getPlacement s
      in bindR (foldR (offline_leaf (ec_n ec) (ec_w ec) placement) (ecLeaves g) ([], fail_node_ids)) (\<lambda>(cl, avoid).
         bindR (guardR ExitCalled (scenario \<noteq> ''standby'')) (\<lambda>_.
         bindR (foldR (offline_concact rnd num_agents) (ecConcacts g) (cl, avoid, c)) (\<lambda>(cl1, avoid1, c1).
         bindR (fail_code fail_node_ids placement) (\<lambda>code.
         bindR (getColoringByIdx points digits code) (\<lambda>colors.
         bindR (foldR (\<lambda>i cl. bindR (vget (itm_vertices g) (int i)) (\<lambda>dagidx.
                         bindR (vget colors (int i)) (\<lambda>blkidx. Inr (um_insert dagidx blkidx cl))))
                  [0..<length (itm_vertices g)] cl1) (\<lambda>cl2.
           Inr (cl2, c1))))))))"

definition offline_single ::
    "(nat \<Rightarrow> int) \<Rightarrow> string umap \<Rightarrow> int \<Rightarrow> ec_base \<Rightarrow> int \<Rightarrow> int \<Rightarrow> string \<Rightarrow> bool \<Rightarrow> solution \<Rightarrow> solution res" where
  "offline_single rnd points digits ec fail_node_id num_agents scenario enqueue =
     gen_batches ec [fail_node_id]
       (genOfflineColoringForSingleFailure rnd points digits ec fail_node_id num_agents scenario)
       num_agents enqueue"

definition offline_multiple ::
    "(nat \<Rightarrow> int) \<Rightarrow> string umap \<Rightarrow> int \<Rightarrow> ec_base \<Rightarrow> int list \<Rightarrow> int \<Rightarrow> string \<Rightarrow> bool \<Rightarrow> solution \<Rightarrow> solution res" where
  "offline_multiple rnd points digits ec fail_node_ids num_agents scenario enqueue =
     gen_batches ec fail_node_ids
       (\<lambda>st c. bindR (genOfflineColoringForMultipleFailure rnd points digits ec fail_node_ids num_agents scenario st c)
                 (\<lambda>(cl, c1). Inr (cl, st, c1)))
       num_agents enqueue"

definition offline_genRepairBatches ::
    "(nat \<Rightarrow> int) \<Rightarrow> string umap \<Rightarrow> int \<Rightarrow> ec_base \<Rightarrow> int \<Rightarrow> int list \<Rightarrow> int \<Rightarrow> string \<Rightarrow> bool \<Rightarrow> solution \<Rightarrow> solution res" where
  "offline_genRepairBatches rnd points digits ec num_failures fail_node_list num_agents scenario enqueue s =
     bindR (if num_failures = 1
            then bindR (vget fail_node_list 0) (\<lambda>f. offline_single rnd points digits ec f num_agents scenario enqueue s)
            else offline_multiple rnd points digits ec fail_node_list num_agents scenario enqueue s) (\<lambda>s1.
       Inr (s1\<lparr>finish_gen_batches := True\<rparr>))"

section \<open>Several failures\<close>

lemma offline_leaves_ok:
  assumes "placed ec s" and "distinct (ecLeaves (s_ecdag s))"
  shows "\<exists>avoid. foldR (offline_leaf (ec_n ec) (ec_w ec) (nodelist s)) (ecLeaves (s_ecdag s)) ([], fails) =
      Inr (map (\<lambda>v. (v, home ec s v)) (ecLeaves (s_ecdag s)), avoid) \<and>
    set avoid = set fails \<union> home ec s ` set (real_leaves ec s)"
proof -
  have "\<exists>avoid'. foldR (offline_leaf (ec_n ec) (ec_w ec) (nodelist s)) vs (cl, avoid) =
      Inr (cl @ map (\<lambda>v. (v, home ec s v)) vs, avoid') \<and>
      set avoid' = set avoid \<union> home ec s ` set (filter (\<lambda>v. v div ec_w ec < ec_n ec) vs)"
    if "list_all (\<lambda>v. 0 \<le> v) vs" "distinct (um_keys cl @ vs)" for vs cl avoid
    using that
  proof (induction vs arbitrary: cl avoid)
    case Nil
    then show ?case by simp
  next
    case (Cons v vs)
    have w: "0 < ec_w ec" and n: "nat (ec_n ec) \<le> length (nodelist s)" using assms(1) by (auto simp: placed_def)
    have v: "0 \<le> v div ec_w ec" using Cons.prems(1) w by (simp add: pos_imp_zdiv_nonneg_iff)
    have new: "\<not> um_has cl v" using Cons.prems(2) by (auto simp: um_has_def)
    have idx: "nat (v div ec_w ec) < length (nodelist s)" if "v div ec_w ec < ec_n ec" using that v n by linarith
    obtain av where av: "offline_leaf (ec_n ec) (ec_w ec) (nodelist s) v (cl, avoid) = Inr (cl @ [(v, home ec s v)], av)"
      "set av = set avoid \<union> (if v div ec_w ec < ec_n ec then {home ec s v} else {})"
      using idx v w new Cons.prems(1) by (cases "v div ec_w ec < ec_n ec") (simp_all add: offline_leaf_def um_insert_def home_def insert_absorb)
    from Cons.IH [of "cl @ [(v, home ec s v)]" av] Cons.prems av show ?case by auto
  qed
  from this [of "ecLeaves (s_ecdag s)" "[]" fails] assms show ?thesis
    by (simp add: real_leaves_def placed_def)
qed

text \<open>Each concatenation takes a node that nothing before it has.\<close>

lemma offline_concacts_ok:
  assumes "\<And>i. 0 \<le> rnd i" and "length cc \<le> card ({0..<num_agents} - set avoid)"
    and "distinct (um_keys cl @ cc)"
  shows "\<exists>cl' avoid' c' rs. foldR (offline_concact rnd num_agents) cc (cl, avoid, c) = Inr (cl', avoid', c') \<and>
    cl' = cl @ zip cc rs \<and> length rs = length cc \<and> distinct rs \<and>
    set rs \<subseteq> {0..<num_agents} - set avoid"
  using assms(2,3)
proof (induction cc arbitrary: cl avoid c)
  case Nil
  then show ?case by simp
next
  case (Cons v cc)
  let ?cands = "candidates num_agents avoid"
  have set: "set ?cands = {0..<num_agents} - set avoid" by (auto simp: set_candidates)
  have "card (set ?cands) \<noteq> 0" using Cons.prems(1) unfolding set by (intro notI) simp
  then have "?cands \<noteq> []" by auto
  from pick_ok [where rnd = rnd and c = c, OF this assms(1)] obtain r where r: "pick rnd ?cands c = Inr (r, Suc c)" "r \<in> {0..<num_agents} - set avoid"
    unfolding set by blast
  have step: "offline_concact rnd num_agents v (cl, avoid, c) = Inr (cl @ [(v, r)], avoid @ [r], Suc c)"
    using r(1) Cons.prems(2) by (simp add: offline_concact_def um_insert_def um_has_def)
  have "{0..<num_agents} - set (avoid @ [r]) = ({0..<num_agents} - set avoid) - {r}" by auto
  then have "length cc \<le> card ({0..<num_agents} - set (avoid @ [r]))"
    using Cons.prems(1) r(2) by (simp add: card_Diff_singleton)
  from Cons.IH [OF this, of "cl @ [(v, r)]" "Suc c"] Cons.prems(2) obtain cl' avoid' c' rs where
    IH: "foldR (offline_concact rnd num_agents) cc (cl @ [(v, r)], avoid @ [r], Suc c) = Inr (cl', avoid', c')"
      "cl' = (cl @ [(v, r)]) @ zip cc rs" "length rs = length cc" "distinct rs" "set rs \<subseteq> {0..<num_agents} - set (avoid @ [r])"
    by auto
  show ?case
    using step IH r(2) by (intro exI [of _ cl'] exI [of _ avoid'] exI [of _ c'] exI [of _ "r # rs"]) auto
qed

lemma offline_vertices_ok:
  assumes "length itm \<le> length colors" and "distinct (um_keys cl @ itm)"
  shows "foldR (\<lambda>i cl. bindR (vget itm (int i)) (\<lambda>dagidx.
      bindR (vget colors (int i)) (\<lambda>blkidx. Inr (um_insert dagidx blkidx cl)))) [0..<length itm] cl =
    Inr (cl @ zip itm colors)"
proof -
  have "foldR (\<lambda>i cl. bindR (vget itm (int i)) (\<lambda>dagidx.
      bindR (vget colors (int i)) (\<lambda>blkidx. Inr (um_insert dagidx blkidx cl)))) [0..<m] cl =
    Inr (cl @ zip (take m itm) (take m colors))" if "m \<le> length itm" for m
    using that
  proof (induction m)
    case (Suc m)
    have "\<not> um_has (cl @ zip (take m itm) (take m colors)) (itm ! m)"
    proof -
      have "um_keys (zip (take m itm) (take m colors)) = take m itm"
        using Suc.prems assms(1) by (simp add: um_keys_def)
      moreover have "itm ! m \<notin> set (take m itm)" using Suc.prems assms(2) by (intro nth_fresh) auto
      moreover have "itm ! m \<in> set itm" using Suc.prems by simp
      then have "itm ! m \<notin> set (um_keys cl)" using assms(2) by auto
      ultimately show ?thesis by (simp add: um_has_def)
    qed
    then show ?case using Suc assms(1)
      by (simp add: foldR_append um_insert_def take_Suc_conv_app_nth)
  qed simp
  moreover have "zip itm (take (length itm) colors) = zip itm colors"
    by (rule nth_equalityI) (use assms(1) in simp_all)
  ultimately show ?thesis by fastforce
qed

lemma itm_vertices_props:
  assumes "wf_ecdag g"
  shows "distinct (itm_vertices g)"
    and "set (itm_vertices g) = set (node_ids g) - set (ecHeaders g) - set (ecLeaves g)"
  using assms by (auto simp: itm_vertices_def wf_ecdag_def)

section \<open>One failure\<close>

lemma offline_inner_ok:
  assumes "length itm \<le> length colors" and "distinct (um_keys cl @ itm)"
    and "\<And>i. i < length itm \<Longrightarrow> colors ! i = fail_block \<or> (0 \<le> colors ! i \<and> nat (colors ! i) < length placement)"
  shows "foldR (offline_vertex placement fail_block r itm colors) [0..<length itm] cl =
    Inr (cl @ zip itm (map (\<lambda>b. if b = fail_block then r else placement ! nat b) colors))"
proof -
  let ?colors = "map (\<lambda>b. if b = fail_block then r else placement ! nat b) colors"
  have "foldR (offline_vertex placement fail_block r itm colors) ks cl =
      foldR (\<lambda>i cl. bindR (vget itm (int i)) (\<lambda>dagidx.
        bindR (vget ?colors (int i)) (\<lambda>blkidx. Inr (um_insert dagidx blkidx cl)))) ks cl"
    if "set ks \<subseteq> {..<length itm}" for ks cl
    using that
  proof (induction ks arbitrary: cl)
    case (Cons i ns)
    then have i: "i < length itm" by simp
    then have "bindR (vget itm (int i)) (\<lambda>dagidx. bindR (vget ?colors (int i)) (\<lambda>blkidx. Inr (um_insert dagidx blkidx cl))) =
        Inr (um_insert (itm ! i) (?colors ! i) cl)" using assms(1) by simp
    moreover have "offline_vertex placement fail_block r itm colors i cl = Inr (um_insert (itm ! i) (?colors ! i) cl)"
      using i assms(1) assms(3) [of i] by (cases "colors ! i = fail_block") (simp_all add: offline_vertex_def)
    ultimately show ?case using Cons by simp
  qed simp
  from this [where ks = "[0..<length itm]" and cl = cl] show ?thesis
    using offline_vertices_ok [where itm = itm and colors = ?colors and cl = cl] assms(1,2) by (simp add: lessThan_atLeast0)
qed

section \<open>Properties\<close>

lemma color_of_mem: "um_wf cl \<Longrightarrow> (v, x) \<in> set cl \<Longrightarrow> color_of cl v = x"
  by (simp add: color_of_def um_get_map_of)

lemma zip_mem: "i < length vs \<Longrightarrow> length vs \<le> length xs \<Longrightarrow> (vs ! i, xs ! i) \<in> set (zip vs xs)"
  by (auto simp: in_set_zip)

text \<open>The colouring that was computed offline is the one that is deployed: when the trade-off point of the
  lost block is the digit string of \<open>colors\<close>, \<open>OfflineSolution\<close> returns, the \<open>i\<close>-th inner vertex is
  placed on the node of block \<open>colors ! i\<close>, or on the repair node if that is the lost block, the header
  on the repair node (which \<open>_new_node\<close> records), and the leaves where their blocks are.\<close>

theorem offline_single_deploys:
  assumes "wf_ecdag (s_ecdag s)" and "placed ec s" and "\<forall>i. 0 \<le> rnd i" and "enough_agents ec scenario num_agents f s"
    and "ecHeaders (s_ecdag s) = header # hs" and "header \<notin> set (ecLeaves (s_ecdag s))"
    and "um_get [] points (last_block_on f (nodelist s)) = vec2str colors d" and "0 < d"
    and "length (itm_vertices (s_ecdag s)) = length colors"
    and "\<forall>v\<in>set colors. 0 \<le> v \<and> nat v < length (nodelist s) \<and> v < 10 ^ d \<and> v < 2 ^ 31"
  shows "\<exists>cl c' r. genOfflineColoringForSingleFailure rnd points (int d) ec f num_agents scenario s c =
      Inr (cl, s\<lparr>new_node := r\<rparr>, c') \<and>
    (if scenario = ''standby'' then r = f
     else 0 \<le> r \<and> r < num_agents \<and> r \<noteq> f \<and> r \<notin> home ec s ` set (real_leaves ec s)) \<and>
    color_of cl header = r \<and> (\<forall>v\<in>set (ecLeaves (s_ecdag s)). color_of cl v = home ec s v) \<and>
    (\<forall>i<length colors. color_of cl (itm_vertices (s_ecdag s) ! i) =
       (if colors ! i = last_block_on f (nodelist s) then r else nodelist s ! nat (colors ! i)))"
proof -
  let ?g = "s_ecdag s" and ?cl = "map (\<lambda>v. (v, home ec s v)) (ecLeaves (s_ecdag s))"
  let ?itm = "itm_vertices ?g" and ?fb = "last_block_on f (nodelist s)"
  let ?cands = "candidates num_agents (map (home ec s) (real_leaves ec s) @ [f])"
  have L: "distinct (ecLeaves ?g)" using assms(1) by (simp add: wf_ecdag_def)
  have keys: "um_keys ?cl = ecLeaves ?g" by (simp add: um_keys_def o_def)
  obtain r c' where r: "(if scenario = ''standby'' then Inr (f, c) else pick rnd ?cands c) = Inr (r, c')"
    "if scenario = ''standby'' then r = f else r \<in> set ?cands"
    using pick_ok [where cands = ?cands and rnd = rnd and c = c] enough_candidates [OF assms(2,4)] assms(3) by (cases "scenario = ''standby''") auto
  have colors: "getColoringByIdx points (int d) ?fb = Inr colors"
    using color_loop_vec2str [of d colors] assms(7,8,10) by (simp add: getColoringByIdx_def)
  let ?cl1 = "?cl @ [(header, r)]" and ?at = "\<lambda>b. if b = ?fb then r else nodelist s ! nat b"
  let ?cl2 = "?cl1 @ zip ?itm (map ?at colors)"
  have ins: "um_insert header r ?cl = ?cl1" using assms(6) keys by (simp add: um_insert_def um_has_def)
  have "header \<notin> set ?itm" "distinct ?itm" "set ?itm \<inter> set (ecLeaves ?g) = {}"
    using itm_vertices_props [OF assms(1)] assms(5) by auto
  then have d2: "distinct (um_keys ?cl1 @ ?itm)" using L assms(6) keys by auto
  have "genOfflineColoringForSingleFailure rnd points (int d) ec f num_agents scenario s c = Inr (?cl2, s\<lparr>new_node := r\<rparr>, c')"
    using color_leaves_ok [OF assms(2) L] r(1) colors ins assms(5,9,10)
      offline_inner_ok [of ?itm colors ?cl1 ?fb "nodelist s" r, OF _ d2]
    by (simp add: genOfflineColoringForSingleFailure_def Let_def getECDAG_def getPlacement_def)
  moreover have wf2: "um_wf ?cl2"
  proof -
    have "um_keys ?cl2 = um_keys ?cl1 @ ?itm" using assms(9) by (simp add: um_keys_def map_fst_zip_take)
    then show ?thesis using d2 by simp
  qed
  moreover have "if scenario = ''standby'' then r = f
     else 0 \<le> r \<and> r < num_agents \<and> r \<noteq> f \<and> r \<notin> home ec s ` set (real_leaves ec s)"
    using r(2) by (auto simp: set_candidates split: if_splits)
  moreover have "color_of ?cl2 header = r" by (rule color_of_mem [OF wf2]) simp
  moreover have "\<forall>v\<in>set (ecLeaves ?g). color_of ?cl2 v = home ec s v"
    by (intro ballI color_of_mem [OF wf2]) simp
  moreover have "color_of ?cl2 (?itm ! i) = ?at (colors ! i)" if i: "i < length colors" for i
    using zip_mem [of i ?itm "map ?at colors"] i assms(9) by (intro color_of_mem [OF wf2]) simp
  ultimately show ?thesis by blast
qed

lemma offline_single_deploys_witness:
  "\<exists>cl c' r. genOfflineColoringForSingleFailure (\<lambda>_. 1) [(3, ''1'')] 1 sample_ec 3 8 ''scatter'' sample_stripe 0 =
     Inr (cl, sample_stripe\<lparr>new_node := r\<rparr>, c') \<and> color_of cl 4 = 1 \<and> color_of cl 9 = r"
proof -
  have wf: "wf_ecdag (s_ecdag sample_stripe)" using colored_sample by (simp add: colored_def)
  have itm: "itm_vertices (s_ecdag sample_stripe) = [4]" by code_simp
  have hd: "ecHeaders (s_ecdag sample_stripe) = 9 # []" by code_simp
  have lf: "ecLeaves (s_ecdag sample_stripe) = [0, 1, 2]" by code_simp
  have fb: "last_block_on 3 [0, 1, 2, 3] = 3" by code_simp
  have nl: "nodelist sample_stripe = [0, 1, 2, 3]" by code_simp
  have str: "vec2str [1] (Suc 0) = ''1''" by code_simp
  have en: "enough_agents sample_ec ''scatter'' 8 3 sample_stripe"
    by (auto simp: enough_agents_def nl intro!: exI [of _ 5])
  from offline_single_deploys [where rnd = "\<lambda>_. 1" and points = "[(3, ''1'')]" and d = 1 and colors = "[1]" and c = 0,
      OF wf sample_placed _ en hd]
  show ?thesis by (auto simp: lf fb itm str nl um_get_def)
qed

text \<open>C31: With several lost blocks \<open>OfflineSolution\<close> returns a colouring in which the lost blocks are rebuilt
  at different agents, none of which holds a lost or a used block: it takes each choice out of the
  candidates of the next. The leaves are where their blocks are, and the \<open>i\<close>-th inner vertex has the
  \<open>i\<close>-th number of the trade-off point itself as its colour, which is used as the id of a node. It needs as many free agents as lost blocks and
  a trade-off point with a number for every inner vertex.\<close>

theorem offline_multi_distinct:
  assumes "wf_ecdag (s_ecdag s)" and "placed ec s" and "scenario \<noteq> ''standby''" and "\<forall>i. 0 \<le> rnd i"
    and "distinct (ecConcacts (s_ecdag s))" and "set (ecConcacts (s_ecdag s)) \<subseteq> set (ecHeaders (s_ecdag s)) - set (ecLeaves (s_ecdag s))"
    and "length (ecConcacts (s_ecdag s)) \<le> card ({0..<num_agents} - (set fails \<union> home ec s ` set (real_leaves ec s)))"
    and "fail_code fails (nodelist s) = Inr code" and "getColoringByIdx points digits code = Inr colors"
    and "length (itm_vertices (s_ecdag s)) \<le> length colors"
  shows "\<exists>cl c'. genOfflineColoringForMultipleFailure rnd points digits ec fails num_agents scenario s c = Inr (cl, c') \<and>
    inj_on (color_of cl) (set (ecConcacts (s_ecdag s))) \<and>
    (\<forall>v\<in>set (ecConcacts (s_ecdag s)). color_of cl v \<in> {0..<num_agents} - (set fails \<union> home ec s ` set (real_leaves ec s))) \<and>
    (\<forall>v\<in>set (ecLeaves (s_ecdag s)). color_of cl v = home ec s v) \<and>
    (\<forall>i<length (itm_vertices (s_ecdag s)). color_of cl (itm_vertices (s_ecdag s) ! i) = colors ! i)"
proof -
  let ?g = "s_ecdag s" and ?cl = "map (\<lambda>v. (v, home ec s v)) (ecLeaves (s_ecdag s))"
  let ?cc = "ecConcacts ?g" and ?itm = "itm_vertices ?g"
  have L: "distinct (ecLeaves ?g)" using assms(1) by (simp add: wf_ecdag_def)
  have keys: "um_keys ?cl = ecLeaves ?g" by (simp add: um_keys_def o_def)
  obtain avoid where av: "foldR (offline_leaf (ec_n ec) (ec_w ec) (nodelist s)) (ecLeaves ?g) ([], fails) = Inr (?cl, avoid)"
    "set avoid = set fails \<union> home ec s ` set (real_leaves ec s)"
    using offline_leaves_ok [OF assms(2) L] by blast
  have dcc: "distinct (um_keys ?cl @ ?cc)" using L assms(5,6) by (auto simp: keys)
  have "length ?cc \<le> card ({0..<num_agents} - set avoid)" using assms(7) unfolding av(2) .
  from offline_concacts_ok [where rnd = rnd and c = c, OF _ this dcc] assms(4) obtain avoid' c' rs where
    C: "foldR (offline_concact rnd num_agents) ?cc (?cl, avoid, c) = Inr (?cl @ zip ?cc rs, avoid', c')"
    "length rs = length ?cc" "distinct rs" "set rs \<subseteq> {0..<num_agents} - set avoid" by blast
  let ?cl1 = "?cl @ zip ?cc rs" and ?cl2 = "(?cl @ zip ?cc rs) @ zip ?itm colors"
  have keys1: "um_keys ?cl1 = ecLeaves ?g @ ?cc" using C(2) by (simp add: keys) (simp add: um_keys_def)
  have itm: "distinct ?itm" "set ?itm \<inter> set (ecLeaves ?g @ ?cc) = {}"
    using itm_vertices_props [OF assms(1)] assms(6) by auto
  have d2: "distinct (um_keys ?cl1 @ ?itm)" using itm L assms(5,6) unfolding keys1 by auto
  have "genOfflineColoringForMultipleFailure rnd points digits ec fails num_agents scenario s c = Inr (?cl2, c')"
    using av(1) C(1) assms(3,8,9) offline_vertices_ok [OF assms(10) d2]
    by (simp add: genOfflineColoringForMultipleFailure_def Let_def getECDAG_def getPlacement_def)
  moreover have wf2: "um_wf ?cl2"
  proof -
    have "um_keys ?cl2 = um_keys ?cl1 @ ?itm" using assms(10) by (simp add: um_keys_def map_fst_zip_take)
    then show ?thesis using d2 by simp
  qed
  have cc: "color_of ?cl2 (?cc ! i) = rs ! i" if i: "i < length ?cc" for i
    using zip_mem [OF i, of rs] C(2) by (intro color_of_mem [OF wf2]) simp
  moreover have "inj_on (color_of ?cl2) (set ?cc)"
    using cc C(2,3) by (auto simp: inj_on_def in_set_conv_nth nth_eq_iff_index_eq)
  moreover have "\<forall>v\<in>set ?cc. color_of ?cl2 v \<in> {0..<num_agents} - (set fails \<union> home ec s ` set (real_leaves ec s))"
  proof
    fix v assume "v \<in> set ?cc"
    then obtain i where i: "i < length ?cc" "v = ?cc ! i" by (auto simp: in_set_conv_nth)
    then have "rs ! i \<in> set rs" using C(2) by simp
    then show "color_of ?cl2 v \<in> {0..<num_agents} - (set fails \<union> home ec s ` set (real_leaves ec s))"
      using C(4) av(2) cc [OF i(1)] i(2) by auto
  qed
  moreover have "\<forall>v\<in>set (ecLeaves ?g). color_of ?cl2 v = home ec s v"
    by (intro ballI color_of_mem [OF wf2]) simp
  moreover have "\<forall>i<length ?itm. color_of ?cl2 (?itm ! i) = colors ! i"
    using zip_mem [OF _ assms(10)] by (intro allI impI color_of_mem [OF wf2]) simp
  ultimately show ?thesis by blast
qed

lemma offline_multi_distinct_witness:
  "\<exists>cl c'. genOfflineColoringForMultipleFailure (\<lambda>_. 0) [(3, ''23'')] 1 sample_ec [0, 1] 6 ''scatter'' sample_two 0 = Inr (cl, c') \<and>
     color_of cl REQUESTOR \<noteq> color_of cl (REQUESTOR - 1)"
proof -
  have itm: "itm_vertices (s_ecdag sample_two) = [0, 1]" by code_simp
  have hd: "ecHeaders (s_ecdag sample_two) = [REQUESTOR, REQUESTOR - 1]" by code_simp
  have code: "fail_code [0, 1] (nodelist sample_two) = Inr 3" by code_simp
  have colors: "getColoringByIdx [(3, ''23'')] 1 3 = Inr [2, 3]" by code_simp
  have homes: "home sample_ec sample_two ` set (real_leaves sample_ec sample_two) = {2, 3}"
    by (auto simp: real_leaves_def home_def sample_ec_def sample_two_sel)
  have "{0..<6} - (set [0, 1] \<union> {2, 3}) = {4, 5 :: int}" by auto
  then have card: "length (ecConcacts (s_ecdag sample_two)) \<le>
      card ({0..<6} - (set [0, 1] \<union> home sample_ec sample_two ` set (real_leaves sample_ec sample_two)))"
    unfolding homes sample_two_sel by simp
  from offline_multi_distinct [where rnd = "\<lambda>_. 0" and scenario = "''scatter''" and c = 0,
      OF sample_two_wf sample_two_placed _ _ _ _ card code colors]
  obtain cl c' where "genOfflineColoringForMultipleFailure (\<lambda>_. 0) [(3, ''23'')] 1 sample_ec [0, 1] 6 ''scatter'' sample_two 0 = Inr (cl, c')"
    "inj_on (color_of cl) {REQUESTOR, REQUESTOR - 1}"
    by (auto simp: sample_two_sel(1,2) hd itm REQUESTOR_def)
  then show ?thesis by (auto simp: inj_on_def)
qed

end
