(* ===== verification/Coordinator.thy ===== *)
theory Coordinator
  imports Centralized
begin

text \<open>
  The coordinator's two threads: \<open>Coordinator::genRepairSolutionAsync\<close> runs the planner on a thread of
  its own, and \<open>Coordinator::repair\<close> (src/src/common/Coordinator.cc) takes batches from the queue until
  \<open>hasNext()\<close> is false (src/src/MultipleCoor.cc starts both).

  One step of the relation below is one iteration of the planner's loop, its end, or one statement of
  the repair loop: the test of \<open>hasNext\<close>, the first half of \<open>getRepairBatchFromQueue\<close> (the request
  flag), and its second half (the \<open>pop\<close>, which waits while the queue is empty). An iteration of the
  planner touches what the other thread reads only when it pushes, so it is one step. The repair of a
  batch that has been taken is not part of it (theory Dispatch).
\<close>

section \<open>Two threads\<close>

datatype gen_pc =
    GenStart       \<comment> \<open>before the loop\<close>
  | GenLoop nat    \<comment> \<open>about to test \<open>batchid < _num_batches\<close>\<close>
  | GenDone        \<comment> \<open>\<open>_finish_gen_batches\<close> is set\<close>

datatype rep_pc =
    RepTest        \<comment> \<open>about to test \<open>hasNext()\<close>\<close>
  | RepFetch       \<comment> \<open>entering \<open>getRepairBatchFromQueue\<close>\<close>
  | RepPop         \<comment> \<open>in \<open>_batch_queue.pop()\<close>\<close>
  | RepDone        \<comment> \<open>the loop has ended\<close>

record coord =
  c_sol :: solution
  c_gen :: gen_pc
  c_rep :: rep_pc
  c_got :: "repair_batch list"   \<comment> \<open>\<open>batch_list\<close> of \<open>repair()\<close>\<close>

inductive coord_step ::
    "(solution \<Rightarrow> solution res) \<Rightarrow> (int \<Rightarrow> solution \<Rightarrow> solution res) \<Rightarrow> coord \<Rightarrow> coord \<Rightarrow> bool"
  for prep body where
  gen_prep: "c_gen c = GenStart \<Longrightarrow> prep (c_sol c) = Inr s \<Longrightarrow>
     coord_step prep body c (c\<lparr>c_sol := s, c_gen := GenLoop 0\<rparr>)"
| gen_iter: "c_gen c = GenLoop b \<Longrightarrow> int b < num_batches (c_sol c) \<Longrightarrow> body (int b) (c_sol c) = Inr s \<Longrightarrow>
     coord_step prep body c (c\<lparr>c_sol := s, c_gen := GenLoop (Suc b)\<rparr>)"
| gen_exit: "c_gen c = GenLoop b \<Longrightarrow> \<not> int b < num_batches (c_sol c) \<Longrightarrow>
     coord_step prep body c (c\<lparr>c_sol := (c_sol c)\<lparr>finish_gen_batches := True\<rparr>, c_gen := GenDone\<rparr>)"
| rep_test: "c_rep c = RepTest \<Longrightarrow>
     coord_step prep body c (c\<lparr>c_rep := if hasNext (c_sol c) then RepFetch else RepDone\<rparr>)"
| rep_fetch: "c_rep c = RepFetch \<Longrightarrow>
     coord_step prep body c (c\<lparr>c_sol := request_batch (c_sol c), c_rep := RepPop\<rparr>)"
| rep_pop: "c_rep c = RepPop \<Longrightarrow> bq_pop (batch_queue (c_sol c)) = Inr (b, q) \<Longrightarrow>
     coord_step prep body c (c\<lparr>c_sol := (c_sol c)\<lparr>batch_queue := q\<rparr>, c_rep := RepTest, c_got := c_got c @ [b]\<rparr>)"

inductive_cases coord_stepE: "coord_step prep body c c'"

definition coord_init :: "solution \<Rightarrow> coord" where
  "coord_init s = \<lparr>c_sol = s, c_gen = GenStart, c_rep = RepTest, c_got = []\<rparr>"

abbreviation coord_runs where
  "coord_runs prep body \<equiv> (coord_step prep body)\<^sup>*\<^sup>*"

definition stuck :: "(solution \<Rightarrow> solution res) \<Rightarrow> (int \<Rightarrow> solution \<Rightarrow> solution res) \<Rightarrow> coord \<Rightarrow> bool" where
  "stuck prep body c \<longleftrightarrow> (\<forall>c'. \<not> coord_step prep body c c')"

definition hung :: "coord \<Rightarrow> bool" where
  \<comment> \<open>the planner has ended, and the repair loop waits at the empty queue\<close>
  "hung c \<longleftrightarrow> c_gen c = GenDone \<and> c_rep c = RepPop \<and> batch_queue (c_sol c) = []"

section \<open>Every run ends\<close>

fun gen_left :: "nat \<Rightarrow> gen_pc \<Rightarrow> nat" where
  "gen_left m GenStart = m + 2"
| "gen_left m (GenLoop b) = m - b + 1"
| "gen_left m GenDone = 0"

fun rep_left :: "rep_pc \<Rightarrow> nat" where
  "rep_left RepTest = 3"
| "rep_left RepFetch = 2"
| "rep_left RepPop = 1"
| "rep_left RepDone = 0"

definition coord_left :: "nat \<Rightarrow> coord \<Rightarrow> nat" where
  "coord_left m c = 4 * gen_left m (c_gen c) + 3 * length (batch_queue (c_sol c)) + rep_left (c_rep c)"

section \<open>The planner's promise\<close>

text \<open>
  What the coordinator relies on: the planner prepares \<open>m\<close> batches without touching the queue, and each
  iteration pushes one batch, whatever the other thread has done to the queue and the request flag in
  the meantime. \<open>I bts s\<close> says that \<open>bts\<close> have been pushed so far.
\<close>

locale planner =
  fixes prep :: "solution \<Rightarrow> solution res"
    and body :: "int \<Rightarrow> solution \<Rightarrow> solution res"
    and ready :: "solution \<Rightarrow> bool"
    and I :: "repair_batch list \<Rightarrow> solution \<Rightarrow> bool"
    and m :: nat
  assumes prep_ok: "ready s \<Longrightarrow> \<exists>s'. prep s = Inr s' \<and> I [] s' \<and> num_batches s' = int m \<and>
      batch_queue s' = batch_queue s \<and> finish_gen_batches s' = finish_gen_batches s"
    and body_ok: "I bts s \<Longrightarrow> \<exists>s' b. body (int (length bts)) s = Inr s' \<and> I (bts @ [b]) s' \<and>
      num_batches s' = num_batches s \<and> batch_queue s' = bq_push b (batch_queue s) \<and>
      finish_gen_batches s' = finish_gen_batches s"
    and ready_frame: "ready s \<Longrightarrow> ready (s\<lparr>batch_request := r\<rparr>)"
    and I_frame: "I bts s \<Longrightarrow> I bts (s\<lparr>batch_queue := q, batch_request := r, finish_gen_batches := f\<rparr>)"
begin

definition cinv :: "coord \<Rightarrow> bool" where
  "cinv c \<longleftrightarrow>
     (case c_gen c of
        GenStart \<Rightarrow> ready (c_sol c) \<and> c_got c = [] \<and> batch_queue (c_sol c) = [] \<and> \<not> finish_gen_batches (c_sol c)
      | GenLoop b \<Rightarrow> I (c_got c @ batch_queue (c_sol c)) (c_sol c) \<and> num_batches (c_sol c) = int m \<and> b \<le> m \<and>
          length (c_got c @ batch_queue (c_sol c)) = b \<and> \<not> finish_gen_batches (c_sol c)
      | GenDone \<Rightarrow> I (c_got c @ batch_queue (c_sol c)) (c_sol c) \<and>
          length (c_got c @ batch_queue (c_sol c)) = m \<and> finish_gen_batches (c_sol c)) \<and>
     (c_rep c = RepDone \<longrightarrow> c_gen c = GenDone \<and> batch_queue (c_sol c) = [])"

lemma cinv_init: "ready s \<Longrightarrow> batch_queue s = [] \<Longrightarrow> \<not> finish_gen_batches s \<Longrightarrow> cinv (coord_init s)"
  by (simp add: cinv_def coord_init_def)

lemma request_frame:
  "\<exists>r. request_batch s = s\<lparr>batch_request := r\<rparr>"
  by (rule exI [of _ "if bq_getSize (batch_queue s) = 0 then True else batch_request s"]) (simp add: request_batch_def)

lemma I_request: "I bts s \<Longrightarrow> I bts (s\<lparr>batch_request := r\<rparr>)"
  using I_frame [where bts = bts and s = s and q = "batch_queue s" and r = r and f = "finish_gen_batches s"] by simp

lemma I_queue: "I bts s \<Longrightarrow> I bts (s\<lparr>batch_queue := q\<rparr>)"
  using I_frame [where bts = bts and s = s and q = q and r = "batch_request s" and f = "finish_gen_batches s"] by simp

lemma I_finish: "I bts s \<Longrightarrow> I bts (s\<lparr>finish_gen_batches := f\<rparr>)"
  using I_frame [where bts = bts and s = s and q = "batch_queue s" and r = "batch_request s" and f = f] by simp

lemma cinv_step:
  assumes "coord_step prep body c c'" and "cinv c"
  shows "cinv c' \<and> coord_left m c' < coord_left m c"
  using assms(1)
proof cases
  case (gen_prep s)
  then show ?thesis using prep_ok [of "c_sol c"] assms(2)
    by (auto simp: cinv_def coord_left_def)
next
  case (gen_iter b s)
  then have c: "I (c_got c @ batch_queue (c_sol c)) (c_sol c)" "length (c_got c @ batch_queue (c_sol c)) = b"
    "num_batches (c_sol c) = int m" "\<not> finish_gen_batches (c_sol c)" "c_rep c \<noteq> RepDone"
    using assms(2) by (auto simp: cinv_def)
  from body_ok [OF c(1)] gen_iter(4) obtain bt where "I ((c_got c @ batch_queue (c_sol c)) @ [bt]) s"
    "num_batches s = int m" "batch_queue s = batch_queue (c_sol c) @ [bt]" "\<not> finish_gen_batches s"
    unfolding c(2) using c(3,4) by (auto simp: bq_push_def)
  then show ?thesis using gen_iter c by (auto simp: cinv_def coord_left_def)
next
  case (gen_exit b)
  then show ?thesis using assms(2) by (auto simp: cinv_def coord_left_def intro: I_finish)
next
  case rep_test
  then show ?thesis using assms(2)
    by (auto simp: cinv_def coord_left_def hasNext_def bq_getSize_def split: gen_pc.splits)
next
  case rep_fetch
  obtain r where r: "request_batch (c_sol c) = (c_sol c)\<lparr>batch_request := r\<rparr>" using request_frame by blast
  show ?thesis using assms(2) rep_fetch
    by (auto simp: cinv_def coord_left_def r intro: ready_frame I_request split: gen_pc.splits)
next
  case (rep_pop b q)
  then have "batch_queue (c_sol c) = b # q" by (auto dest: bq.pop_iff)
  then show ?thesis using assms(2) rep_pop
    by (auto simp: cinv_def coord_left_def intro: I_queue split: gen_pc.splits)
qed

lemma cinv_runs: "coord_runs prep body c c' \<Longrightarrow> cinv c \<Longrightarrow> cinv c'"
  by (induction rule: rtranclp_induct) (auto dest: cinv_step)

text \<open>Every run ends: its length is bounded from the start.\<close>

lemma bounded:
  assumes "(coord_step prep body ^^ n) c c'" and "cinv c"
  shows "n + coord_left m c' \<le> coord_left m c"
  using assms
proof (induction n arbitrary: c')
  case (Suc n)
  then obtain d where d: "(coord_step prep body ^^ n) c d" "coord_step prep body d c'" by auto
  then have "cinv d" using Suc.prems(2) cinv_runs by (blast dest: relpowp_imp_rtranclp)
  with Suc.IH [OF d(1) Suc.prems(2)] cinv_step [OF d(2)] show ?case by simp
qed simp

text \<open>A run can only end with all batches taken: after the loop, or in the wait at the empty queue.\<close>

lemma stuck_cases:
  assumes "cinv c" and "stuck prep body c"
  shows "(c_rep c = RepDone \<or> hung c) \<and> I (c_got c) (c_sol c) \<and> length (c_got c) = m"
proof -
  have st: "\<And>c'. \<not> coord_step prep body c c'" using assms(2) by (simp add: stuck_def)
  have g: "c_gen c = GenDone"
  proof (cases "c_gen c")
    case GenStart
    with assms(1) have "ready (c_sol c)" by (simp add: cinv_def)
    then obtain s' where "prep (c_sol c) = Inr s'" using prep_ok by blast
    then show ?thesis using coord_step.gen_prep [OF GenStart] st by blast
  next
    case (GenLoop b)
    with assms(1) have I: "I (c_got c @ batch_queue (c_sol c)) (c_sol c)" "length (c_got c @ batch_queue (c_sol c)) = b"
      by (auto simp: cinv_def)
    from body_ok [OF I(1)] obtain s' where "body (int b) (c_sol c) = Inr s'" unfolding I(2) by blast
    then show ?thesis using coord_step.gen_iter [OF GenLoop] coord_step.gen_exit [OF GenLoop] st by blast
  qed
  have "c_rep c \<noteq> RepTest" "c_rep c \<noteq> RepFetch" using st coord_step.rep_test coord_step.rep_fetch by blast+
  moreover have "batch_queue (c_sol c) = []" if "c_rep c = RepPop"
  proof (cases "batch_queue (c_sol c)")
    case (Cons b q)
    then have "bq_pop (batch_queue (c_sol c)) = Inr (b, q)" by (simp add: bq_pop_def)
    then show ?thesis using coord_step.rep_pop [OF that] st by blast
  qed
  ultimately have "batch_queue (c_sol c) = [] \<and> (c_rep c = RepDone \<or> hung c)"
    using assms(1) g by (cases "c_rep c") (auto simp: cinv_def hung_def)
  then show ?thesis using assms(1) g by (auto simp: cinv_def)
qed

text \<open>The repair loop keeps up with the planner, tests \<open>hasNext\<close> once more, and waits for ever.\<close>

lemma keeps_up:
  assumes "ready s" "batch_queue s = []" "\<not> finish_gen_batches s" and "b \<le> m"
  shows "\<exists>c. coord_runs prep body (coord_init s) c \<and> c_gen c = GenLoop b \<and> c_rep c = RepTest \<and> batch_queue (c_sol c) = []"
  using assms(4)
proof (induction b)
  case 0
  from prep_ok [OF assms(1)] obtain s' where s': "prep s = Inr s'" "batch_queue s' = batch_queue s" by blast
  let ?c1 = "(coord_init s)\<lparr>c_sol := s', c_gen := GenLoop 0\<rparr>"
  have "coord_step prep body (coord_init s) ?c1"
    by (rule coord_step.gen_prep) (simp_all add: coord_init_def s')
  then show ?case using s'(2) assms(2) by (intro exI [of _ ?c1]) (auto simp: coord_init_def)
next
  case (Suc b)
  then obtain c where c: "coord_runs prep body (coord_init s) c" "c_gen c = GenLoop b" "c_rep c = RepTest"
    "batch_queue (c_sol c) = []" by auto
  have inv: "cinv c" using cinv_runs [OF c(1)] cinv_init assms(1-3) by blast
  then have I: "I (c_got c) (c_sol c)" "length (c_got c) = b" "num_batches (c_sol c) = int m" "\<not> finish_gen_batches (c_sol c)"
    using c(2,4) by (auto simp: cinv_def)
  from body_ok [OF I(1)] obtain s1 bt where s1: "body (int b) (c_sol c) = Inr s1" "batch_queue s1 = [bt]"
    "finish_gen_batches s1 = finish_gen_batches (c_sol c)"
    unfolding I(2) using c(4) by (auto simp: bq_push_def)
  let ?c1 = "c\<lparr>c_sol := s1, c_gen := GenLoop (Suc b)\<rparr>"
  let ?c2 = "?c1\<lparr>c_rep := RepFetch\<rparr>"
  let ?c3 = "?c2\<lparr>c_sol := request_batch s1, c_rep := RepPop\<rparr>"
  let ?c4 = "?c3\<lparr>c_sol := (request_batch s1)\<lparr>batch_queue := []\<rparr>, c_rep := RepTest, c_got := c_got c @ [bt]\<rparr>"
  have 1: "coord_step prep body c ?c1"
    using Suc.prems I(3) by (intro coord_step.gen_iter c(2) s1(1)) simp
  have 2: "coord_step prep body ?c1 ?c2"
    using coord_step.rep_test [of ?c1 prep body] c(3) I(4) s1(3) by (simp add: hasNext_def)
  have 3: "coord_step prep body ?c2 ?c3"
    using coord_step.rep_fetch [of ?c2 prep body] by simp
  have "batch_queue (request_batch s1) = [bt]" using s1(2) by (simp add: request_batch_def)
  then have 4: "coord_step prep body ?c3 ?c4"
    using coord_step.rep_pop [of ?c3 bt "[]" prep body] by (simp add: bq_pop_def)
  from c(1) 1 2 3 4 have "coord_runs prep body (coord_init s) ?c4" by (meson rtranclp.rtrancl_into_rtrancl)
  then show ?case by (intro exI [of _ ?c4]) simp
qed

lemma hang_reachable:
  assumes "ready s" "batch_queue s = []" "\<not> finish_gen_batches s"
  shows "\<exists>c. coord_runs prep body (coord_init s) c \<and> hung c \<and> stuck prep body c"
proof -
  from keeps_up [OF assms order_refl] obtain c where c: "coord_runs prep body (coord_init s) c"
    "c_gen c = GenLoop m" "c_rep c = RepTest" "batch_queue (c_sol c) = []" by blast
  have inv: "cinv c" using cinv_runs [OF c(1)] cinv_init assms by blast
  then have n: "num_batches (c_sol c) = int m" "\<not> finish_gen_batches (c_sol c)" using c(2) by (auto simp: cinv_def)
  let ?c1 = "c\<lparr>c_rep := RepFetch\<rparr>"
  let ?c2 = "?c1\<lparr>c_sol := request_batch (c_sol c), c_rep := RepPop\<rparr>"
  let ?c3 = "?c2\<lparr>c_sol := (request_batch (c_sol c))\<lparr>finish_gen_batches := True\<rparr>, c_gen := GenDone\<rparr>"
  have 1: "coord_step prep body c ?c1"
    using coord_step.rep_test [OF c(3), of prep body] n(2) by (simp add: hasNext_def)
  have 2: "coord_step prep body ?c1 ?c2" using coord_step.rep_fetch [of ?c1 prep body] by simp
  have "num_batches (request_batch (c_sol c)) = int m" using n(1) by (simp add: request_batch_def)
  then have 3: "coord_step prep body ?c2 ?c3"
    using coord_step.gen_exit [of ?c2 m prep body] c(2) by simp
  from c(1) 1 2 3 have runs: "coord_runs prep body (coord_init s) ?c3" by (meson rtranclp.rtrancl_into_rtrancl)
  have q: "batch_queue (c_sol ?c3) = []" using c(4) by (simp add: request_batch_def)
  then have "stuck prep body ?c3"
    unfolding stuck_def by (auto elim!: coord_stepE simp: bq_pop_def)
  with runs q show ?thesis by (intro exI [of _ ?c3]) (simp add: hung_def)
qed

text \<open>The planner may also run to its end first.\<close>

lemma plans_first:
  assumes "ready s" "batch_queue s = []" "\<not> finish_gen_batches s" and "b \<le> m"
  shows "\<exists>c. coord_runs prep body (coord_init s) c \<and> c_gen c = GenLoop b \<and> c_rep c = RepTest"
  using assms(4)
proof (induction b)
  case 0
  from prep_ok [OF assms(1)] obtain s' where s': "prep s = Inr s'" by blast
  let ?c1 = "(coord_init s)\<lparr>c_sol := s', c_gen := GenLoop 0\<rparr>"
  have "coord_step prep body (coord_init s) ?c1"
    by (rule coord_step.gen_prep) (simp_all add: coord_init_def s')
  then show ?case by (intro exI [of _ ?c1]) (auto simp: coord_init_def)
next
  case (Suc b)
  then obtain c where c: "coord_runs prep body (coord_init s) c" "c_gen c = GenLoop b" "c_rep c = RepTest" by auto
  have "cinv c" using cinv_runs [OF c(1)] cinv_init assms(1-3) by blast
  then have I: "I (c_got c @ batch_queue (c_sol c)) (c_sol c)" "length (c_got c @ batch_queue (c_sol c)) = b"
    "num_batches (c_sol c) = int m" using c(2) by (auto simp: cinv_def)
  from body_ok [OF I(1)] obtain s1 where s1: "body (int b) (c_sol c) = Inr s1" unfolding I(2) by blast
  have "coord_step prep body c (c\<lparr>c_sol := s1, c_gen := GenLoop (Suc b)\<rparr>)"
    using Suc.prems I(3) by (intro coord_step.gen_iter c(2) s1) simp
  with c(1,3) show ?case
    by (intro exI [of _ "c\<lparr>c_sol := s1, c_gen := GenLoop (Suc b)\<rparr>"]) auto
qed

lemma ends_first:
  assumes "ready s" "batch_queue s = []" "\<not> finish_gen_batches s"
  shows "\<exists>c. coord_runs prep body (coord_init s) c \<and> c_gen c = GenDone \<and> c_rep c = RepTest"
proof -
  from plans_first [OF assms order_refl] obtain c where
    c: "coord_runs prep body (coord_init s) c" "c_gen c = GenLoop m" "c_rep c = RepTest" by blast
  have "cinv c" using cinv_runs [OF c(1)] cinv_init assms by blast
  then have "\<not> int m < num_batches (c_sol c)" using c(2) by (simp add: cinv_def)
  from coord_step.gen_exit [OF c(2) this, of prep body] c(1,3) show ?thesis
    by (intro exI [of _ "c\<lparr>c_sol := (c_sol c)\<lparr>finish_gen_batches := True\<rparr>, c_gen := GenDone\<rparr>"]) auto
qed

text \<open>If the planner has ended when the loop tests \<open>hasNext\<close>, the loop ends, with every batch.\<close>

lemma drains:
  assumes "cinv c" and "c_gen c = GenDone" and "c_rep c = RepTest"
  shows "\<exists>c'. coord_runs prep body c c' \<and> c_rep c' = RepDone \<and> I (c_got c') (c_sol c') \<and> length (c_got c') = m"
  using assms
proof (induction "batch_queue (c_sol c)" arbitrary: c)
  case Nil
  let ?c1 = "c\<lparr>c_rep := RepDone\<rparr>"
  have fin: "finish_gen_batches (c_sol c)" "I (c_got c) (c_sol c)" "length (c_got c) = m"
    using Nil by (auto simp: cinv_def)
  then have "coord_step prep body c ?c1"
    using coord_step.rep_test [OF Nil.prems(3), of prep body] Nil.hyps by (simp add: hasNext_def bq_getSize_def)
  then show ?case using fin by (intro exI [of _ ?c1]) auto
next
  case (Cons bt q)
  have nxt: "hasNext (c_sol c)" unfolding hasNext_def bq_getSize_def Cons.hyps(2) [symmetric] by simp
  let ?c1 = "c\<lparr>c_rep := RepFetch\<rparr>"
  let ?c2 = "?c1\<lparr>c_sol := request_batch (c_sol c), c_rep := RepPop\<rparr>"
  let ?c3 = "?c2\<lparr>c_sol := (request_batch (c_sol c))\<lparr>batch_queue := q\<rparr>, c_rep := RepTest, c_got := c_got c @ [bt]\<rparr>"
  have 1: "coord_step prep body c ?c1"
    using coord_step.rep_test [OF Cons.prems(3), of prep body] nxt by simp
  have 2: "coord_step prep body ?c1 ?c2" using coord_step.rep_fetch [of ?c1 prep body] by simp
  have "batch_queue (request_batch (c_sol c)) = bt # q" using Cons.hyps(2) [symmetric] by (simp add: request_batch_def)
  then have 3: "coord_step prep body ?c2 ?c3"
    using coord_step.rep_pop [of ?c2 bt q prep body] by (simp add: bq_pop_def)
  have runs: "coord_runs prep body c ?c3" using 1 2 3 by (meson rtranclp.rtrancl_into_rtrancl rtranclp.rtrancl_refl)
  have "cinv ?c3" using cinv_runs [OF runs Cons.prems(1)] .
  from Cons.hyps(1) [of ?c3, OF _ this] Cons.prems(2) obtain c' where
    "coord_runs prep body ?c3 c'" "c_rep c' = RepDone" "I (c_got c') (c_sol c')" "length (c_got c') = m" by auto
  with rtranclp_trans [OF runs] show ?case by blast
qed

end

section \<open>The planners keep the promise\<close>

definition plan_prep :: "int list \<Rightarrow> solution \<Rightarrow> solution res" where
  \<comment> \<open>what the planners do before their loop\<close>
  "plan_prep fails s = count_batches (filterFailedStripes fails s)"

lemma batch_ready_request: "batch_ready ec fails gen bs st0 (s\<lparr>batch_request := r\<rparr>) = batch_ready ec fails gen bs st0 s"
  by (simp add: batch_ready_def)

lemma loop_inv_frame:
  "loop_inv ec fails gen num_agents bs xs st0 bts (s\<lparr>batch_queue := q, batch_request := r, finish_gen_batches := f\<rparr>) =
   loop_inv ec fails gen num_agents bs xs st0 bts s"
  by (simp add: loop_inv_def)

interpretation batches: planner "plan_prep fails" "gen_batch ec fails gen num_agents True"
    "batch_ready ec fails gen bs st0" "loop_inv ec fails gen num_agents bs (failed_stripes fails st0) st0"
    "num_slices bs (failed_stripes fails st0)"
  for ec fails gen num_agents bs st0
proof unfold_locales
  fix s assume "batch_ready ec fails gen bs st0 s"
  from loop_inv_start [OF this, of num_agents]
  show "\<exists>s'. plan_prep fails s = Inr s' \<and> loop_inv ec fails gen num_agents bs (failed_stripes fails st0) st0 [] s' \<and>
      num_batches s' = int (num_slices bs (failed_stripes fails st0)) \<and>
      batch_queue s' = batch_queue s \<and> finish_gen_batches s' = finish_gen_batches s"
    unfolding plan_prep_def by blast
next
  fix bts s assume "loop_inv ec fails gen num_agents bs (failed_stripes fails st0) st0 bts s"
  from loop_inv_step [OF this, of True] obtain st c bt where
    "gen_batch ec fails gen num_agents True (int (length bts)) s = Inr (deliver True bt (s\<lparr>stripe_list := st, rand_count := c\<rparr>))"
    "loop_inv ec fails gen num_agents bs (failed_stripes fails st0) st0 (bts @ [bt]) (deliver True bt (s\<lparr>stripe_list := st, rand_count := c\<rparr>))"
    by blast
  then show "\<exists>s' b. gen_batch ec fails gen num_agents True (int (length bts)) s = Inr s' \<and>
      loop_inv ec fails gen num_agents bs (failed_stripes fails st0) st0 (bts @ [b]) s' \<and>
      num_batches s' = num_batches s \<and> batch_queue s' = bq_push b (batch_queue s) \<and>
      finish_gen_batches s' = finish_gen_batches s"
    by (intro exI [of _ "deliver True bt (s\<lparr>stripe_list := st, rand_count := c\<rparr>)"] exI [of _ bt]) (simp add: deliver_def)
qed (simp_all add: batch_ready_request loop_inv_frame)

definition fresh_queue :: "solution \<Rightarrow> bool" where
  "fresh_queue s \<longleftrightarrow> batch_queue s = [] \<and> \<not> finish_gen_batches s"

lemma all_taken:
  assumes "loop_inv ec fails gen num_agents bs (failed_stripes fails st0) st0 bts s"
    and "length bts = num_slices bs (failed_stripes fails st0)" and "0 < bs"
  shows "concat (map rb_stripes bts) = failed_stripes fails st0 \<and> batches_ok (stripe_list s) num_agents bs bts"
  using loop_inv_end [OF assms] by blast

section \<open>Properties\<close>

text \<open>C25: However the coordinator's two threads interleave, the run ends, after a number of steps bounded
  from the start; and where no step is possible any more, the repair loop has taken every batch of the
  plan exactly once and in order (together they are the failed stripes), and has either left its loop
  or waits at the empty queue.\<close>

theorem coordinator_outcome:
  assumes "batch_ready ec fails gen bs st0 s" and "fresh_queue s"
  shows "(\<exists>N. \<forall>n c. (coord_step (plan_prep fails) (gen_batch ec fails gen num_agents True) ^^ n) (coord_init s) c \<longrightarrow> n \<le> N) \<and>
    (\<forall>c. coord_runs (plan_prep fails) (gen_batch ec fails gen num_agents True) (coord_init s) c \<longrightarrow>
       stuck (plan_prep fails) (gen_batch ec fails gen num_agents True) c \<longrightarrow>
       (c_rep c = RepDone \<or> hung c) \<and>
       concat (map rb_stripes (c_got c)) = failed_stripes fails st0 \<and>
       batches_ok (stripe_list (c_sol c)) num_agents bs (c_got c))"
proof -
  have bs: "0 < bs" using assms(1) by (simp add: batch_ready_def)
  have inv: "batches.cinv ec fails gen bs st0 num_agents (coord_init s)"
    using assms by (intro batches.cinv_init) (simp_all add: fresh_queue_def)
  have "n \<le> coord_left (num_slices bs (failed_stripes fails st0)) (coord_init s)"
    if "(coord_step (plan_prep fails) (gen_batch ec fails gen num_agents True) ^^ n) (coord_init s) c" for n c
    using batches.bounded [OF that inv] by simp
  moreover have "(c_rep c = RepDone \<or> hung c) \<and> concat (map rb_stripes (c_got c)) = failed_stripes fails st0 \<and>
      batches_ok (stripe_list (c_sol c)) num_agents bs (c_got c)"
    if "coord_runs (plan_prep fails) (gen_batch ec fails gen num_agents True) (coord_init s) c"
      "stuck (plan_prep fails) (gen_batch ec fails gen num_agents True) c" for c
    using batches.stuck_cases [OF batches.cinv_runs [OF that(1) inv] that(2)] all_taken [OF _ _ bs] by blast
  ultimately show ?thesis by blast
qed

text \<open>C26: The coordinator can hang: \<open>hasNext\<close> answers true while the planner has not set its flag, and if the
  planner then ends without another batch, the \<open>pop\<close> waits at the empty queue for ever. Whatever
  stripes are repaired, there is such a run.\<close>

theorem coordinator_hangs:
  assumes "batch_ready ec fails gen bs st0 s" and "fresh_queue s"
  shows "\<exists>c. coord_runs (plan_prep fails) (gen_batch ec fails gen num_agents True) (coord_init s) c \<and>
    hung c \<and> stuck (plan_prep fails) (gen_batch ec fails gen num_agents True) c"
  using batches.hang_reachable [OF assms(1)] assms(2) by (simp add: fresh_queue_def)

text \<open>If the planner has ended by the time the repair loop tests \<open>hasNext\<close>, the loop goes on to take all
  remaining batches and ends.\<close>

theorem coordinator_drains:
  assumes "batch_ready ec fails gen bs st0 s" and "fresh_queue s"
    and "coord_runs (plan_prep fails) (gen_batch ec fails gen num_agents True) (coord_init s) c"
    and "c_gen c = GenDone" and "c_rep c = RepTest"
  shows "\<exists>c'. coord_runs (plan_prep fails) (gen_batch ec fails gen num_agents True) c c' \<and> c_rep c' = RepDone \<and>
    concat (map rb_stripes (c_got c')) = failed_stripes fails st0"
proof -
  have bs: "0 < bs" using assms(1) by (simp add: batch_ready_def)
  have "batches.cinv ec fails gen bs st0 num_agents (coord_init s)"
    using assms(1,2) by (intro batches.cinv_init) (simp_all add: fresh_queue_def)
  from batches.drains [OF batches.cinv_runs [OF assms(3) this] assms(4,5)] all_taken [OF _ _ bs] show ?thesis by blast
qed

definition sample_plan :: solution where
  "sample_plan = init_stripes sample_stripes (new_CentSolution 1 0 14)"

lemma sample_plan_ready:
  "\<exists>r. batch_ready (rdp_ec r) [10] (cent_gen (\<lambda>_. 0) (rdp_ec r) 10 14 ''standby'') 1 sample_stripes sample_plan"
proof -
  obtain r where r: "rdp_ok 2 2 r" "\<forall>st\<in>set sample_stripes. is_hit [10] st \<longrightarrow> repairable (rdp_ec r) [10] st"
    using sample_rdp by blast
  have "batch_ready (rdp_ec r) [10] (cent_gen (\<lambda>_. 0) (rdp_ec r) 10 14 ''standby'') 1 sample_stripes sample_plan"
    using r(2) by (auto simp: batch_ready_def sample_plan_def init_stripes_def new_CentSolution_def new_SolutionBase_def
        enough_agents_def intro!: cent_plannable)
  then show ?thesis by blast
qed

lemma sample_plan_fresh: "fresh_queue sample_plan"
  by (simp add: fresh_queue_def sample_plan_def init_stripes_def new_CentSolution_def new_SolutionBase_def)

lemma coordinator_outcome_witness:
  "\<exists>ec gen. \<exists>N. \<forall>n c. (coord_step (plan_prep [10]) (gen_batch ec [10] gen 14 True) ^^ n) (coord_init sample_plan) c \<longrightarrow> n \<le> N"
  using sample_plan_ready coordinator_outcome [OF _ sample_plan_fresh] by blast

lemma coordinator_hangs_witness:
  "\<exists>ec gen c. coord_runs (plan_prep [10]) (gen_batch ec [10] gen 14 True) (coord_init sample_plan) c \<and> hung c"
  using sample_plan_ready coordinator_hangs [OF _ sample_plan_fresh] by blast

lemma coordinator_drains_witness:
  "\<exists>ec gen c'. coord_runs (plan_prep [10]) (gen_batch ec [10] gen 14 True) (coord_init sample_plan) c' \<and>
     c_rep c' = RepDone \<and> concat (map rb_stripes (c_got c')) = [0, 2]"
proof -
  obtain ec gen where ready: "batch_ready ec [10] gen 1 sample_stripes sample_plan" using sample_plan_ready by blast
  obtain c where c: "coord_runs (plan_prep [10]) (gen_batch ec [10] gen 14 True) (coord_init sample_plan) c"
    "c_gen c = GenDone" "c_rep c = RepTest"
    using batches.ends_first [OF ready, of 14] sample_plan_fresh by (auto simp: fresh_queue_def)
  from coordinator_drains [OF ready sample_plan_fresh c] obtain c' where
    "coord_runs (plan_prep [10]) (gen_batch ec [10] gen 14 True) c c'" "c_rep c' = RepDone"
    "concat (map rb_stripes (c_got c')) = [0, 2]" unfolding sample_failed by blast
  with rtranclp_trans [OF c(1)] show ?thesis by blast
qed

end
