(* ===== verification/Threads_Starve.thy ===== *)
theory Threads_Starve
  imports Threads
begin

text \<open>
  Threads that cannot all end: if the threads of a net must together take more from a channel than it
  holds, and none appends to it, then no schedule brings all of them to their ends. When moreover every
  thread does at most so many steps and never faults, every schedule ends in a state in which some thread
  waits at an empty channel.
\<close>

section \<open>Steps and results of one thread\<close>

text \<open>
  \<open>works V P p k\<close>: on channels that hold values of \<open>V\<close>, \<open>p\<close> does not fault, appends such values, ends after
  at most \<open>k\<close> steps if it need not wait, and its result satisfies \<open>P\<close>.
\<close>

primrec works :: "('c \<Rightarrow> 'v set) \<Rightarrow> ('a \<Rightarrow> bool) \<Rightarrow> ('c, 'v, 'a) io \<Rightarrow> nat \<Rightarrow> bool" where
  "works V P (Ret a) k \<longleftrightarrow> P a"
| "works V P (Crash e) k \<longleftrightarrow> False"
| "works V P (Get c f) k \<longleftrightarrow> 0 < k \<and> (\<forall>v\<in>V c. works V P (f v) (k - 1))"
| "works V P (Put c v p) k \<longleftrightarrow> 0 < k \<and> v \<in> V c \<and> works V P p (k - 1)"

named_theorems works_intros \<open>rules for \<open>works\<close>\<close>

lemma works_mono: "works V P p k \<Longrightarrow> k \<le> l \<Longrightarrow> works V P p l"
proof (induction p arbitrary: k l)
  case (Get c f)
  have k: "0 < k" "k - 1 \<le> l - 1" "0 < l" using Get.prems by auto
  have "works V P (f v) (l - 1)" if v: "v \<in> V c" for v
  proof -
    have "works V P (f v) (k - 1)" using Get.prems(1) v by simp
    then show ?thesis using k(2) by (rule Get.IH [OF rangeI])
  qed
  then show ?case using k(3) by simp
next
  case (Put c v p)
  have "works V P p (k - 1)" "k - 1 \<le> l - 1" using Put.prems by auto
  then have "works V P p (l - 1)" by (rule Put.IH)
  then show ?case using Put.prems by simp
qed simp_all

lemma works_bind [works_intros]:
  assumes "works V P p j" and "\<And>a. P a \<Longrightarrow> works V Q (f a) k"
  shows "works V Q (bindP p f) (j + k)"
  using assms(1)
proof (induction p arbitrary: j)
  case (Ret a)
  then have "works V Q (f a) k" using assms(2) by simp
  then show ?case by (auto intro: works_mono)
next
  case (Get c g)
  then have "works V Q (bindP (g v) f) (j - 1 + k)" if "v \<in> V c" for v
    using that by (intro Get.IH [OF rangeI]) auto
  moreover have "j - 1 + k = j + k - 1" using Get.prems by auto
  ultimately show ?case using Get.prems by simp
next
  case (Put c v p)
  then have "works V Q (bindP p f) (j - 1 + k)" by (intro Put.IH) simp
  moreover have "j - 1 + k = j + k - 1" using Put.prems by auto
  ultimately show ?case using Put.prems by simp
qed simp

lemma works_put [works_intros]: "v \<in> V c \<Longrightarrow> works V (\<lambda>_. True) (put c v) 1"
  by (simp add: put_def)

lemma works_lift: "r = Inr a \<Longrightarrow> works V Q (f a) k \<Longrightarrow> works V Q (bindP (liftP r) f) k"
  by simp

text \<open>A loop: the invariant speaks of the number of rounds that are done.\<close>

lemma works_forP:
  assumes "\<And>i s. i < length xs \<Longrightarrow> I i s \<Longrightarrow> works V (I (Suc i)) (f (xs ! i) s) k" and "I 0 s"
  shows "works V (I (length xs)) (forP f xs s) (length xs * k)"
  using assms
proof (induction xs arbitrary: I s)
  case (Cons x xs)
  have "works V (I (Suc 0)) (f x s) k" using Cons.prems(1) [of 0 s] Cons.prems(2) by simp
  moreover have "works V (I (length (x # xs))) (forP f xs s') (length xs * k)" if "I (Suc 0) s'" for s'
    using Cons.IH [of "\<lambda>i. I (Suc i)" s'] Cons.prems(1) [of "Suc _"] that by simp
  ultimately show ?case using works_bind [of V "I (Suc 0)" "f x s" k _ "forP f xs"] by simp
qed simp

section \<open>What a thread must take\<close>

text \<open>\<open>takes c p j\<close>: whatever it takes, \<open>p\<close> does not end before it has taken at least \<open>j\<close> times from \<open>c\<close>.\<close>

primrec takes :: "'c \<Rightarrow> ('c, 'v, 'a) io \<Rightarrow> nat \<Rightarrow> bool" where
  "takes c (Ret a) j \<longleftrightarrow> j = 0"
| "takes c (Crash e) j \<longleftrightarrow> True"
| "takes c (Get d f) j \<longleftrightarrow> (\<forall>v. takes c (f v) (if d = c then j - 1 else j))"
| "takes c (Put d v p) j \<longleftrightarrow> takes c p j"

lemma takes_mono: "takes c p j \<Longrightarrow> i \<le> j \<Longrightarrow> takes c p i"
proof (induction p arbitrary: i j)
  case (Get d f)
  have "takes c (f v) (if d = c then i - 1 else i)" for v
  proof -
    have "takes c (f v) (if d = c then j - 1 else j)" using Get.prems(1) by simp
    moreover have "(if d = c then i - 1 else i) \<le> (if d = c then j - 1 else j)" using Get.prems(2) by auto
    ultimately show ?thesis by (rule Get.IH [OF rangeI])
  qed
  then show ?case by simp
next
  case (Put d v p)
  from Put.prems(1) have "takes c p j" by simp
  then have "takes c p i" using Put.prems(2) by (rule Put.IH)
  then show ?case by simp
qed simp_all

lemma takes_none [simp]: "takes c p 0"
  by (induction p) auto

lemma takes_bind:
  assumes "takes c p i" and "\<And>a. takes c (f a) j"
  shows "takes c (bindP p f) (i + j)"
  using assms(1)
proof (induction p arbitrary: i)
  case (Get d g)
  show ?case
  proof (cases "d = c")
    case True
    then have "takes c (bindP (g v) f) (i - 1 + j)" for v using Get.prems by (intro Get.IH [OF rangeI]) simp
    then have "takes c (bindP (g v) f) (i + j - 1)" for v by (rule takes_mono) simp
    then show ?thesis using True by simp
  next
    case False
    then show ?thesis using Get.prems by (auto intro: Get.IH [OF rangeI])
  qed
qed (use assms(2) in auto)

lemma takes_lift: "(\<And>a. r = Inr a \<Longrightarrow> takes c (f a) j) \<Longrightarrow> takes c (bindP (liftP r) f) j"
  by (cases r) simp_all

lemma takes_rounds: "(\<And>x s. x \<in> set xs \<Longrightarrow> takes c (f x s) 1) \<Longrightarrow> takes c (forP f xs s) (length xs)"
proof (induction xs arbitrary: s)
  case (Cons x xs)
  have "takes c (bindP (f x s) (forP f xs)) (1 + length xs)" using Cons by (intro takes_bind) auto
  then show ?case by simp
qed simp

lemma takes_once:
  assumes "x \<in> set xs" and "\<And>s. takes c (f x s) 1"
  shows "takes c (forP f xs s) 1"
  using assms(1)
proof (induction xs arbitrary: s)
  case (Cons y xs)
  show ?case
  proof (cases "y = x")
    case True
    then show ?thesis using takes_bind [OF assms(2), of "forP f xs" 0] by simp
  next
    case False
    then have "\<And>s'. takes c (forP f xs s') 1" using Cons by simp
    then show ?thesis using takes_bind [of c "f y s" 0 "forP f xs" 1] by simp
  qed
qed simp

section \<open>A net that starves\<close>

definition starved :: "'c \<Rightarrow> ('c, 'v) net \<Rightarrow> bool" where
  "starved c s \<longleftrightarrow> (\<exists>js. list_all2 (takes c) (fst s) js \<and> length (snd s c) < sum_list js) \<and>
     (\<forall>p\<in>set (fst s). c \<notin> puts p)"

definition can_work :: "('c \<Rightarrow> 'v set) \<Rightarrow> 'c set \<Rightarrow> nat \<Rightarrow> ('c, 'v) net \<Rightarrow> bool" where
  \<comment> \<open>no thread faults or takes from channels other than \<open>R\<close>, and together they do at most \<open>B\<close> steps\<close>
  "can_work V R B s \<longleftrightarrow> (\<exists>ks. list_all2 (works V (\<lambda>_. True)) (fst s) ks \<and> sum_list ks \<le> B) \<and>
     (\<forall>d. set (snd s d) \<subseteq> V d) \<and> (\<forall>p\<in>set (fst s). gets p \<subseteq> R)"

lemma sum_list_change:
  fixes xs :: "nat list"
  shows "i < length xs \<Longrightarrow> sum_list (xs[i := y]) + xs ! i = sum_list xs + y"
proof (induction xs arbitrary: i)
  case (Cons x xs)
  then show ?case by (cases i) auto
qed simp

lemma list_all2_change:
  "list_all2 P xs ys \<Longrightarrow> P x y \<Longrightarrow> list_all2 P (xs[i := x]) (ys[i := y])"
  by (rule list_all2_update_cong)

lemma starved_step:
  assumes "net_step s s'" and "starved c s"
  shows "starved c s'"
  using assms(1)
proof cases
  case (1 i ts q p q')
  obtain js where js: "list_all2 (takes c) ts js" "length (q c) < sum_list js" and no: "\<And>r. r \<in> set ts \<Longrightarrow> c \<notin> puts r"
    using assms(2) by (auto simp: starved_def 1(1))
  have i: "i < length js" "takes c (ts ! i) (js ! i)" "c \<notin> puts (ts ! i)"
    using js(1) 1(3) no by (auto simp: list_all2_conv_all_nth)
  have "\<exists>j. takes c p j \<and> length (q' c) + js ! i \<le> length (q c) + j"
  proof (cases "ts ! i")
    case (Get d f)
    then obtain v vs where v: "q d = v # vs" "p = f v" "q' = q(d := vs)"
      using 1(4) by (auto split: list.splits)
    have "takes c p (if d = c then js ! i - 1 else js ! i)" using i(2) by (simp add: Get v(2))
    moreover have "length (q' c) + js ! i \<le> length (q c) + (if d = c then js ! i - 1 else js ! i)"
      using v(1) by (auto simp: v(3))
    ultimately show ?thesis by blast
  next
    case (Put d v r)
    then show ?thesis using 1(4) i by (intro exI [of _ "js ! i"]) auto
  qed (use 1(4) in auto)
  then obtain j where j: "takes c p j" "length (q' c) + js ! i \<le> length (q c) + j" by blast
  have "list_all2 (takes c) (ts[i := p]) (js[i := j])" using js(1) j(1) by (rule list_all2_change)
  moreover have "length (q' c) < sum_list (js[i := j])" using js(2) j(2) sum_list_change [OF i(1), of j] by linarith
  moreover have "c \<notin> puts r" if "r \<in> set (ts[i := p])" for r
    using that no thread_step_chans(2) [OF 1(4)] i(3) set_update_subset_insert [of ts i p] by blast
  ultimately show ?thesis by (auto simp: starved_def 1(2))
qed

lemma can_work_step:
  assumes "net_step s s'" and "can_work V R B s"
  shows "0 < B \<and> can_work V R (B - 1) s'"
  using assms(1)
proof cases
  case (1 i ts q p q')
  obtain ks where ks: "list_all2 (works V (\<lambda>_. True)) ts ks" "sum_list ks \<le> B"
    and V: "\<And>d. set (q d) \<subseteq> V d" and R: "\<And>r. r \<in> set ts \<Longrightarrow> gets r \<subseteq> R"
    using assms(2) by (auto simp: can_work_def 1(1))
  have i: "i < length ks" "works V (\<lambda>_. True) (ts ! i) (ks ! i)" "gets (ts ! i) \<subseteq> R"
    using ks(1) 1(3) R by (auto simp: list_all2_conv_all_nth)
  have step: "0 < ks ! i \<and> works V (\<lambda>_. True) p (ks ! i - 1) \<and> set (q' d) \<subseteq> V d" for d
  proof (cases "ts ! i")
    case (Get e f)
    then obtain v vs where "q e = v # vs" "p = f v" "q' = q(e := vs)" using 1(4) by (auto split: list.splits)
    then show ?thesis using i(2) V [of e] V [of d] by (auto simp: Get)
  next
    case (Put e v r)
    then have "p = r" "q' = q(e := q e @ [v])" using 1(4) by auto
    then show ?thesis using i(2) V [of e] V [of d] by (auto simp: Put)
  qed (use 1(4) in auto)
  have "list_all2 (works V (\<lambda>_. True)) (ts[i := p]) (ks[i := ks ! i - 1])"
    using ks(1) step by (intro list_all2_change) auto
  moreover have "0 < B \<and> sum_list (ks[i := ks ! i - 1]) \<le> B - 1"
    using ks(2) step [THEN conjunct1] sum_list_change [OF i(1), of "ks ! i - 1"] by linarith
  moreover have "gets r \<subseteq> R" if "r \<in> set (ts[i := p])" for r
    using that R thread_step_chans(1) [OF 1(4)] i(3) set_update_subset_insert [of ts i p] by blast
  ultimately show ?thesis using step by (auto simp: can_work_def 1(2))
qed

lemma starved_reaches:
  assumes "(net_step ^^ n) s u" and "starved c s" and "can_work V R B s"
  shows "n \<le> B \<and> starved c u \<and> can_work V R (B - n) u"
  using assms
proof (induction n arbitrary: s B)
  case (Suc n)
  obtain s1 where s1: "net_step s s1" "(net_step ^^ n) s1 u" using Suc.prems(1) by (metis relpowp_Suc_E2)
  from can_work_step [OF s1(1) Suc.prems(3)] have "0 < B" "can_work V R (B - 1) s1" by blast+
  with Suc.IH [OF s1(2) starved_step [OF s1(1) Suc.prems(2)] this(2)] show ?case by auto
qed simp

lemma starved_not_ended:
  assumes "starved c s"
  shows "\<not> all_ended s"
proof
  assume e: "all_ended s"
  obtain js where js: "list_all2 (takes c) (fst s) js" "length (snd s c) < sum_list js" using assms by (auto simp: starved_def)
  have "js ! i = 0" if "i < length js" for i
  proof -
    have "i < length (fst s)" "takes c (fst s ! i) (js ! i)" using js(1) that by (auto simp: list_all2_conv_all_nth)
    moreover from this have "fst s ! i = Ret ()" using e by (auto simp: all_ended_def)
    ultimately show ?thesis by simp
  qed
  then have "\<forall>j\<in>set js. j = 0" by (auto simp: in_set_conv_nth)
  then have "sum_list js = 0" using sum_list_eq_0_iff [of js] by blast
  then show False using js(2) by (metis not_less0)
qed

text \<open>A state without a next step in which not all have ended: somebody waits at an empty channel.\<close>

definition waits_at :: "'c set \<Rightarrow> ('c, 'v) net \<Rightarrow> bool" where
  "waits_at R s \<longleftrightarrow> (\<exists>i<length (fst s). \<exists>c\<in>R. \<exists>f. fst s ! i = Get c f \<and> snd s c = [])"

lemma stuck_waits:
  assumes "can_work V R B s" and "\<not> all_ended s" and "\<And>s'. \<not> net_step s s'"
  shows "waits_at R s"
proof -
  obtain i where i: "i < length (fst s)" "fst s ! i \<noteq> Ret ()"
    using assms(2) by (auto simp: all_ended_def in_set_conv_nth)
  have none: "thread_step (fst s ! i) (snd s) = None"
  proof (rule ccontr)
    assume "thread_step (fst s ! i) (snd s) \<noteq> None"
    then obtain p q where "thread_step (fst s ! i) (snd s) = Some (p, q)" by auto
    from net_step.intros [OF i(1) this] show False using assms(3) by simp
  qed
  have w: "\<exists>k. works V (\<lambda>_. True) (fst s ! i) k" and R: "gets (fst s ! i) \<subseteq> R"
    using assms(1) i(1) by (auto simp: can_work_def list_all2_conv_all_nth)
  from w obtain k where "works V (\<lambda>_. True) (fst s ! i) k" by blast
  then have "\<exists>c f. fst s ! i = Get c f \<and> snd s c = []"
    using none i(2) by (cases "fst s ! i") (auto split: list.splits)
  then show ?thesis using i(1) R unfolding waits_at_def by fastforce
qed

lemma starved_schedules:
  assumes "starved c s" and "can_work V R B s" and "(net_step ^^ n) s u"
  shows "n \<le> B \<and> \<not> all_ended u \<and> ((\<forall>u'. \<not> net_step u u') \<longrightarrow> waits_at R u)"
proof -
  from starved_reaches [OF assms(3,1,2)] have u: "n \<le> B" "starved c u" "can_work V R (B - n) u" by blast+
  have "\<not> all_ended u" by (rule starved_not_ended [OF u(2)])
  with u(1) stuck_waits [OF u(3)] show ?thesis by blast
qed

end
