(* ===== verification/Worker_Starve.thy ===== *)
theory Worker_Starve
  imports Worker_Groups Threads_Starve
begin

text \<open>
  When two groups share a source (\<open>computeGroups\<close> of src/src/common/Worker.cc): each of their threads takes
  all packets of the source, but the queue is filled once, so that the threads cannot all end.
\<close>

section \<open>The steps of a group's thread\<close>

definition sized :: "int \<Rightarrow> item set" where
  "sized sub = {Packet p | p. int (length (getData p)) = sub}"

definition feeding :: "worker_conf \<Rightarrow> int \<Rightarrow> int \<Rightarrow> int list \<Rightarrow> chan \<Rightarrow> item set" where
  \<comment> \<open>packets of \<open>sub\<close> bytes in the queues of the inputs, anything elsewhere\<close>
  "feeding w s sub inputs c = (if c \<in> Queue (localIp w) s ` set inputs then sized sub else UNIV)"

lemma works_pop:
  "d \<in> set m \<Longrightarrow> d \<in> set inputs \<Longrightarrow>
    works (feeding w s sub inputs) (\<lambda>p. int (length (getData p)) = sub) (pop_from (getQueue w s m d)) 1"
  by (auto simp: pop_from_def feeding_def sized_def)

lemma works_push: "k \<in> set m \<Longrightarrow> k \<notin> set inputs \<Longrightarrow> works (feeding w s sub inputs) (\<lambda>_. True) (push_to (getQueue w s m k) p) 1"
  by (auto simp: push_to_def feeding_def put_def)

lemma works_push_used:
  assumes "used_keys d u \<subseteq> set m" and "used_keys d u \<inter> set inputs = {}" and p: "p = packet_of bs"
  shows "works (feeding w s sub inputs) (\<lambda>_. True) (push_used w s m cf d u p) 2"
proof -
  let ?W = "\<lambda>p k. works (feeding w s sub inputs) (\<lambda>_. True) p k"
  have loc: "?W (push_to (getQueue w s m d) p) 1" if "fst u"
    using that assms(1,2) by (intro works_push) (auto simp: used_keys_def)
  have cache: "?W (push_to (getQueue w s m (cache_key d)) p) 1" if "snd u"
    using that assms(1,2) by (intro works_push) (auto simp: used_keys_def)
  have dup: "duplicateBy p (new_packet (getDatalen p)) = Inr p"
    by (simp add: p new_packet_eq)
  consider "fst u" "snd u" | "\<not> fst u" "snd u" | "fst u" "\<not> snd u" | "\<not> fst u" "\<not> snd u" by blast
  then show ?thesis
  proof cases
    case 1
    have "?W (bindP (push_to (getQueue w s m (cache_key d)) p) (\<lambda>_. push_to (getQueue w s m d) p)) (1 + 1)"
      by (rule works_bind [OF cache loc]) (simp_all add: 1)
    moreover have "?W (bindP (push_to (getQueue w s m d) p) (\<lambda>_. push_to (getQueue w s m (cache_key d)) p)) (1 + 1)"
      by (rule works_bind [OF loc cache]) (simp_all add: 1)
    ultimately show ?thesis using 1 by (simp add: push_used_def dup Let_def numeral_2_eq_2)
  qed (use loc cache in \<open>auto simp: push_used_def Let_def intro: works_mono [of _ _ _ 1]\<close>)
qed

lemma used_keys_new:
  assumes "items_ok m cis" and "ci \<in> set cis"
  shows "used_keys (ci_dstidx ci) u \<inter> set (input_list cis) = {}"
proof -
  have d: "vertex_ok (ci_dstidx ci)" "ci_dstidx ci \<notin> set (input_list cis)" using assms by (auto simp: items_ok_def)
  have "cache_key (ci_dstidx ci) \<notin> set (input_list cis)"
  proof
    assume "cache_key (ci_dstidx ci) \<in> set (input_list cis)"
    then have "vertex_ok (cache_key (ci_dstidx ci))" using assms(1) by (simp add: items_ok_def)
    from cache_key_other(1) [OF d(1) this] show False by simp
  qed
  with d(2) show ?thesis by (simp add: used_keys_def)
qed

lemma Multi_runs:
  assumes "isal_law isal" and "0 \<le> len" and "list_all (\<lambda>bs. int (length bs) = len) data" and "length mat = rn * length data"
  shows "\<exists>codes. Multi isal data mat rn (length data) len = Inr codes \<and> length codes = rn \<and>
    list_all (\<lambda>bs. int (length bs) = len) codes"
proof -
  have "map (take (nat len)) data = data" using assms(2,3) by (intro map_idI) (auto simp: list_all_iff)
  moreover have "int (length (isal len row data)) = len" for row using assms(1-3) by (simp add: isal_law_def)
  ultimately show ?thesis using assms(2-4) by (auto simp: Multi_def list_all_iff)
qed

lemma codes_of_items:
  assumes "distinct (map ci_dstidx cis)" and "length codes = length cis"
  shows "\<exists>h. codes = map h cis \<and> (\<forall>ci\<in>set cis. h ci \<in> set codes)"
proof -
  have "distinct cis" using assms(1) by (simp add: distinct_map)
  then have "codes = map (\<lambda>ci. the (map_of (zip cis codes) ci)) cis"
    using assms(2) by (intro nth_equalityI) (simp_all add: map_of_zip_nth)
  moreover from this have "the (map_of (zip cis codes) ci) \<in> set codes" if "ci \<in> set cis" for ci
    using that by (metis (no_types, lifting) image_eqI set_map)
  ultimately show ?thesis by blast
qed

lemma group_rows:
  assumes "items_exact cis"
  shows "\<exists>rows. mapR (group_row inputs) cis = Inr rows \<and> length (concat rows) = length cis * length inputs"
proof -
  have "\<exists>row. group_row inputs ci = Inr row \<and> length row = length inputs" if "ci \<in> set cis" for ci
    using that assms group_row_ok [of ci inputs] by (fastforce simp: items_exact_def list_all_iff)
  then obtain row where row: "\<And>ci. ci \<in> set cis \<Longrightarrow> group_row inputs ci = Inr (row ci) \<and> length (row ci) = length inputs" by metis
  then have "mapR (group_row inputs) cis = Inr (map row cis)" by (intro mapR_pure) blast
  moreover have "length (concat (map row cis)) = length cis * length inputs" using row by (induction cis) auto
  ultimately show ?thesis by blast
qed

lemma works_computeList:
  assumes sz: "sizes_are w sub n" and sub: "0 < sub" "sub < 2 ^ 31" and law: "isal_law isal" and g: "group_ok cg"
    and ok: "items_ok m cis" and ex: "items_exact cis"
    and cg: "set (cg_list cg) \<subseteq> set cis" "distinct (map ci_dstidx (cg_list cg))"
  shows "\<exists>k. works (feeding w s sub (input_list cis)) (\<lambda>_. True) (computeList isal w s m cg) k"
proof -
  let ?cis = "cg_list cg" and ?in = "cg_src cg" and ?V = "feeding w s sub (input_list cis)"
  let ?good = "\<lambda>data. length data = length ?in \<and> list_all (\<lambda>bs. int (length bs) = sub) data"
  have "items_exact ?cis" using ex cg(1) by (auto simp: items_exact_def list_all_iff)
  then obtain rows where rows: "mapR (group_row ?in) ?cis = Inr rows" "length (concat rows) = length ?cis * length ?in"
    using group_rows by blast
  have inp: "d \<in> set m \<and> d \<in> set (input_list cis)" if "d \<in> set ?in" for d
    using that g ok cg(1) by (auto simp: group_ok_def set_input_list items_ok_def)
  let ?pop = "forP (\<lambda>d data. bindP (pop_from (getQueue w s m d)) (\<lambda>p. Ret (data @ [getData p]))) ?in []"
  let ?push = "\<lambda>code. let pkts = fold (\<lambda>(ci, out). um_insert (ci_dstidx ci) (set_data out (new_packet sub))) (zip ?cis code) []
          in forP (\<lambda>(dst, usage) _. push_used w s m True dst usage (um_get (new_packet 0) pkts dst)) (group_usage ?cis) ()"
  let ?next = "\<lambda>data. bindP (liftP (Multi isal data (concat rows) (length ?cis) (length ?in) sub)) ?push"
  have "works ?V (\<lambda>data. length data = length ?in \<and> list_all (\<lambda>bs. int (length bs) = sub) data) ?pop (length ?in * (1 + 0))"
  proof (rule works_forP [where I = "\<lambda>i data. length data = i \<and> list_all (\<lambda>bs. int (length bs) = sub) data"])
    fix i and data :: "string list" assume i: "i < length ?in" "length data = i \<and> list_all (\<lambda>bs. int (length bs) = sub) data"
    then have "d \<in> set m \<and> d \<in> set (input_list cis)" if "d = ?in ! i" for d using that inp by simp
    then show "works ?V (\<lambda>data. length data = Suc i \<and> list_all (\<lambda>bs. int (length bs) = sub) data)
        (bindP (pop_from (getQueue w s m (?in ! i))) (\<lambda>p. Ret (data @ [getData p]))) (1 + 0)"
      using i(2) by (intro works_bind [OF works_pop]) simp_all
  qed simp
  moreover have "works ?V (\<lambda>_. True) (?next data) (length (group_usage ?cis) * 2)" if data: "?good data" for data
  proof -
    obtain codes where codes: "Multi isal data (concat rows) (length ?cis) (length ?in) sub = Inr codes"
        "length codes = length ?cis" "list_all (\<lambda>bs. int (length bs) = sub) codes"
      using Multi_runs [OF law, of sub data "concat rows" "length ?cis"] data rows(2) sub(1) by auto
    obtain h where h: "codes = map h ?cis" "\<And>ci. ci \<in> set ?cis \<Longrightarrow> h ci \<in> set codes"
      using codes_of_items [OF cg(2) codes(2)] by blast
    have full: "set_data (h ci) (new_packet sub) = packet_of (h ci)" if "ci \<in> set ?cis" for ci
    proof -
      have "int (length (h ci)) = sub" using codes(3) h(2) [OF that] by (simp add: list_all_iff)
      with sub show ?thesis using new_packet_filled [of "\<lambda>_ _ _. h ci" sub] by (simp add: pkt_len_ok_def)
    qed
    have "works ?V (\<lambda>_. True) (?push codes) (length (group_usage ?cis) * 2)"
      unfolding Let_def h(1)
    proof (rule works_forP [where I = "\<lambda>_ _. True"])
      fix i and u :: unit assume "i < length (group_usage ?cis)"
      then have "group_usage ?cis ! i \<in> set (group_usage ?cis)" by simp
      then obtain ci where ci: "ci \<in> set ?cis" "group_usage ?cis ! i = (ci_dstidx ci, ci_usage ci)"
        unfolding group_usage_eq [OF cg(2)] by auto
      have "used_keys (ci_dstidx ci) (ci_usage ci) \<subseteq> set m" using ok ci(1) cg(1) by (auto simp: items_ok_def)
      moreover have "used_keys (ci_dstidx ci) (ci_usage ci) \<inter> set (input_list cis) = {}"
        using ci(1) cg(1) by (intro used_keys_new [OF ok]) blast
      ultimately show "works ?V (\<lambda>_. True) ((case group_usage ?cis ! i of (dst, usage) \<Rightarrow> \<lambda>_. push_used w s m True dst usage
          (um_get (new_packet 0) (fold (\<lambda>(ci, out). um_insert (ci_dstidx ci) (set_data out (new_packet sub)))
             (zip ?cis (map h ?cis)) []) dst)) u) 2"
        unfolding ci(2) prod.case packets_of_codes [OF cg(2) ci(1)] full [OF ci(1)] by (rule works_push_used) simp
    qed simp
    then show ?thesis by (simp add: codes(1))
  qed
  ultimately have round: "works ?V (\<lambda>_. True) (bindP ?pop ?next) (length ?in * (1 + 0) + length (group_usage ?cis) * 2)"
    by (rule works_bind)
  have "works ?V (\<lambda>_. True) (forP (\<lambda>pktid _. bindP ?pop ?next) [0..<n] ())
      (length [0..<n] * (length ?in * (1 + 0) + length (group_usage ?cis) * 2))"
    using round by (intro works_forP [where I = "\<lambda>_ _. True"]) (simp_all only:)
  moreover have "computeList isal w s m cg = forP (\<lambda>pktid _. bindP ?pop ?next) [0..<n] ()"
    using sz rows(1) by (simp add: computeList_def sizes_are_def Let_def)
  ultimately show ?thesis by (simp only:) (rule exI)
qed

lemma takes_computeList:
  assumes "sizes_are w sub n" and "d \<in> set (cg_src cg)"
  shows "takes (Queue (localIp w) s d) (computeList isal w s m cg) n"
proof -
  let ?c = "Queue (localIp w) s d"
  have pop: "takes ?c (bindP (pop_from (getQueue w s m d)) f) 1" for f :: "packet \<Rightarrow> 'a thread"
    by (auto simp: pop_from_def getQueue_def split: item.splits)
  have round: "takes ?c (bindP (forP (\<lambda>d data. bindP (pop_from (getQueue w s m d)) (\<lambda>p. Ret (data @ [getData p]))) (cg_src cg) []) f) (1 + 0)"
    for f :: "string list \<Rightarrow> unit thread"
    by (intro takes_bind takes_once [OF assms(2)] pop) simp
  have "takes ?c (forP (\<lambda>pktid _. bindP (forP (\<lambda>d data. bindP (pop_from (getQueue w s m d)) (\<lambda>p. Ret (data @ [getData p]))) (cg_src cg) []) f)
      [0..<n] ()) (length [0..<n])" for f :: "string list \<Rightarrow> unit thread"
    using round by (intro takes_rounds) simp
  then show ?thesis using assms(1) by (auto simp: computeList_def sizes_are_def Let_def intro!: takes_lift)
qed

lemma within_computeList:
  assumes "distinct (map ci_dstidx (cg_list cg))"
  shows "within (Queue (localIp w) s ` set (cg_src cg))
    (\<Union>ci\<in>set (cg_list cg). used_chans w s (ci_dstidx ci) (ci_usage ci)) (computeList isal w s m cg)"
proof -
  let ?R = "Queue (localIp w) s ` set (cg_src cg)"
  let ?W = "\<Union>ci\<in>set (cg_list cg). used_chans w s (ci_dstidx ci) (ci_usage ci)"
  have pop: "within ?R ?W (forP (\<lambda>d data. bindP (pop_from (getQueue w s m d)) (\<lambda>p. Ret (data @ [getData p]))) (cg_src cg) [])"
    by (auto intro!: within_forP within_bind within_pop)
  have used: "used_chans w s d u \<subseteq> ?W" if "(d, u) \<in> set (group_usage (cg_list cg))" for d u
    using that unfolding group_usage_eq [OF assms] by auto
  show ?thesis unfolding computeList_def Let_def
    using pop by (auto intro!: within_lift within_forP within_bind within_push_used [OF used])
qed

section \<open>Two groups that share a source\<close>

text \<open>The threads of a list of groups, of which two take the packets of \<open>v\<close>.\<close>

lemma shared_starved:
  assumes sz: "sizes_are w sub n" and n: "0 < n" and len: "length (q (Queue (localIp w) s v)) = n"
    and gs: "distinct gs" "cg \<in> set gs" "cg' \<in> set gs" "cg \<noteq> cg'" and v: "v \<in> set (cg_src cg)" "v \<in> set (cg_src cg')"
    and no: "\<And>g. g \<in> set gs \<Longrightarrow> Queue (localIp w) s v \<notin> puts (computeList isal w s m g)"
  shows "starved (Queue (localIp w) s v) (map (computeList isal w s m) gs, q)"
proof -
  define need :: "compute_group \<Rightarrow> nat" where "need g = (if v \<in> set (cg_src g) then n else 0)" for g
  have "list_all2 (takes (Queue (localIp w) s v)) (map (computeList isal w s m) gs) (map need gs)"
    using takes_computeList [OF sz] by (auto simp: list_all2_conv_all_nth need_def)
  moreover have "n < sum_list (map need gs)"
  proof -
    have "need cg + need cg' = sum need {cg, cg'}" using gs(4) by simp
    also have "\<dots> \<le> sum need (set gs)" using gs(2,3) by (intro sum_mono2) auto
    also have "\<dots> = sum_list (map need gs)" using gs(1) by (simp add: sum_list_distinct_conv_sum_set)
    finally show ?thesis using v n by (simp add: need_def)
  qed
  ultimately show ?thesis using no by (fastforce simp: starved_def len)
qed

lemma groups_can_work:
  assumes sz: "sizes_are w sub n" and sub: "0 < sub" "sub < 2 ^ 31" and law: "isal_law isal"
    and ok: "items_ok m (compute_list t)" and ex: "items_exact (compute_list t)"
    and q: "\<And>d. d \<in> set (input_list (compute_list t)) \<Longrightarrow> queued w sub n s q d (bss d) \<and> length (q (Queue (localIp w) s d)) = n"
  shows "\<exists>B. can_work (feeding w s sub (input_list (compute_list t))) (Queue (localIp w) s ` set (input_list (compute_list t))) B
    (computeGroups isal w s m t, q)"
proof -
  let ?cis = "compute_list t" and ?gs = "compute_groups (computeGroupSize w) (compute_list t)"
  let ?V = "feeding w s sub (input_list ?cis)" and ?R = "Queue (localIp w) s ` set (input_list ?cis)"
  have gs: "groups_of ?cis ?gs" by (rule compute_groups_props)
  have dist: "distinct (map ci_dstidx ?cis)" using ok by (simp add: items_ok_def)
  note D = groups_of_distinct(2) [OF gs dist]
  have g: "group_ok cg" if "cg \<in> set ?gs" for cg using gs that by (auto simp: groups_of_def list_all_iff)
  have "\<exists>k. works ?V (\<lambda>_. True) (computeList isal w s m cg) k" if "cg \<in> set ?gs" for cg
    using D [OF that] by (intro works_computeList [OF sz sub law g [OF that] ok ex]) auto
  then obtain k where "\<And>cg. cg \<in> set ?gs \<Longrightarrow> works ?V (\<lambda>_. True) (computeList isal w s m cg) (k cg)" by metis
  then have "list_all2 (works ?V (\<lambda>_. True)) (computeGroups isal w s m t) (map k ?gs)"
    by (simp add: computeGroups_def list_all2_conv_all_nth)
  moreover have "set (q c) \<subseteq> ?V c" for c
  proof (cases "c \<in> ?R")
    case True
    then obtain d where d: "c = Queue (localIp w) s d" "d \<in> set (input_list ?cis)" by blast
    then have "q c = map (\<lambda>bs. Packet (packet_of bs)) (bss d)" "list_all (\<lambda>bs. int (length bs) = sub) (bss d)"
      using q [OF d(2)] by (auto simp: queued_def)
    with True show ?thesis by (auto simp: feeding_def sized_def list_all_iff)
  qed (simp add: feeding_def)
  moreover have "gets p \<subseteq> ?R" if p: "p \<in> set (computeGroups isal w s m t)" for p
  proof -
    from p obtain cg where cg: "cg \<in> set ?gs" "p = computeList isal w s m cg" by (auto simp: computeGroups_def)
    have "set (cg_src cg) \<subseteq> set (input_list ?cis)" using g [OF cg(1)] D [OF cg(1)] by (auto simp: group_ok_def set_input_list)
    moreover have "gets p \<subseteq> Queue (localIp w) s ` set (cg_src cg)"
      using within_computeList [of cg w s isal m] D [OF cg(1)] by (simp add: within_def cg(2))
    ultimately show ?thesis by blast
  qed
  ultimately show ?thesis unfolding can_work_def by (intro exI [of _ "sum_list (map k ?gs)"]) auto
qed

text \<open>C39: When two groups share a source, the grouped variant hangs under every schedule, although the simple
  one ends on the same queues: with one copy of its packets in the queue of every source, no schedule brings
  all threads of \<open>computeGroups\<close> to their ends, every schedule is of bounded length, and when no thread can
  go on, one of them waits at the empty queue of a source.\<close>

theorem compute_groups_hang:
  assumes "sizes_are w sub n" and "0 < n" and "0 < sub" and "sub < 2 ^ 31" and "isal_law isal"
    and "items_ok m (compute_list t)" and "items_exact (compute_list t)"
    and "\<And>d. d \<in> set (input_list (compute_list t)) \<Longrightarrow> queued w sub n s q d (bss d) \<and> length (q (Queue (localIp w) s d)) = n"
    and "cg \<in> set (compute_groups (computeGroupSize w) (compute_list t))"
    and "cg' \<in> set (compute_groups (computeGroupSize w) (compute_list t))" and "cg \<noteq> cg'"
    and "v \<in> set (cg_src cg)" and "v \<in> set (cg_src cg')"
  shows "(\<exists>q'. run_in_order [computeOneByOne isal w s m t] q = Inr q') \<and>
    (\<exists>B. \<forall>k u. (net_step ^^ k) (computeGroups isal w s m t, q) u \<longrightarrow> k \<le> B \<and> \<not> all_ended u \<and>
       ((\<forall>u'. \<not> net_step u u') \<longrightarrow> waits_at (Queue (localIp w) s ` set (input_list (compute_list t))) u))"
proof -
  let ?cis = "compute_list t" and ?gs = "compute_groups (computeGroupSize w) (compute_list t)"
  have gs: "groups_of ?cis ?gs" by (rule compute_groups_props)
  have "distinct (map ci_dstidx ?cis)" using assms(6) by (simp add: items_ok_def)
  note D = groups_of_distinct [OF gs this]
  have "group_ok cg" using gs assms(9) by (auto simp: groups_of_def list_all_iff)
  then have v: "v \<in> set (input_list ?cis)" using assms(12) D(2) [OF assms(9)] by (auto simp: group_ok_def set_input_list)
  have "Queue (localIp w) s v \<notin> puts (computeList isal w s m g)" if "g \<in> set ?gs" for g
  proof -
    have "v \<notin> used_keys (ci_dstidx ci) (ci_usage ci)" if "ci \<in> set (cg_list g)" for ci
      using used_keys_new [OF assms(6)] D(2) [OF \<open>g \<in> set ?gs\<close>] that v by blast
    then show ?thesis
      using within_computeList [of g w s isal m] D(2) [OF that] by (auto simp: within_def used_chans_keys)
  qed
  note no = this
  have "length (q (Queue (localIp w) s v)) = n" using assms(8) [OF v] by blast
  then have starved: "starved (Queue (localIp w) s v) (computeGroups isal w s m t, q)"
    unfolding computeGroups_def by (rule shared_starved [OF assms(1,2) _ D(1) assms(9-13) no])
  obtain B where "can_work (feeding w s sub (input_list ?cis)) (Queue (localIp w) s ` set (input_list ?cis)) B (computeGroups isal w s m t, q)"
    using groups_can_work [OF assms(1,3-8)] by blast
  note hang = starved_schedules [OF starved this]
  have "\<exists>q'. run_in_order [computeOneByOne isal w s m t] q = Inr q'"
    using assms(8) by (intro one_by_one_ends [OF assms(1,3-7)]) blast
  with hang show ?thesis by blast
qed

text \<open>Three items, of which the third uses the sources of the other two, and at most two items per group.\<close>

definition shared_task :: task where
  "shared_task = buildComputeTask 3
     [new_compute_item 10 [1] [1] (True, False), new_compute_item 11 [2] [1] (True, False),
      new_compute_item 12 [1, 2] [1, 1] (True, False)] (new_task 0 0)"

lemma compute_groups_hang_witness:
  "(\<exists>q'. run_in_order [computeOneByOne isal_sum shared_conf 0 [1, 2, 10, 11, 12] shared_task] shared_queues = Inr q') \<and>
   (\<forall>k q'. \<not> (net_step ^^ k) (computeGroups isal_sum shared_conf 0 [1, 2, 10, 11, 12] shared_task, shared_queues) ([Ret (), Ret ()], q'))"
proof -
  define c1 where "c1 = \<lparr>cg_list = [new_compute_item 10 [1] [1] (True, False), new_compute_item 12 [1, 2] [1, 1] (True, False)], cg_src = [1, 2]\<rparr>"
  define c2 where "c2 = \<lparr>cg_list = [new_compute_item 11 [2] [1] (True, False)], cg_src = [2]\<rparr>"
  have gs: "compute_groups (computeGroupSize shared_conf) (compute_list shared_task) = [c1, c2]"
    by (simp add: shared_task_def shared_conf_def buildComputeTask_def compute_groups_def cg_match_def cg_add_def canMerge_def
        new_group_def new_compute_item_def add_color_def c1_def c2_def)
  have inputs: "input_list (compute_list shared_task) = [1, 2]"
    by (simp add: shared_task_def buildComputeTask_def input_list_def new_compute_item_def add_color_def)
  have sizes: "sizes_are shared_conf 1 1" by (simp add: sizes_are_def packet_sizes_def shared_conf_def)
  have ok: "items_ok [1, 2, 10, 11, 12] (compute_list shared_task)"
    unfolding items_ok_def inputs
    by (simp add: shared_task_def buildComputeTask_def new_compute_item_def vertex_ok_def REQUESTOR_def used_keys_def)
  have ex: "items_exact (compute_list shared_task)"
    by (simp add: shared_task_def buildComputeTask_def new_compute_item_def items_exact_def)
  have q: "queued shared_conf 1 1 0 shared_queues d (if d = 1 then [''a''] else [''b'']) \<and>
      length (shared_queues (Queue (localIp shared_conf) 0 d)) = 1"
    if "d \<in> set (input_list (compute_list shared_task))" for d
    using that unfolding inputs by (auto simp: queued_def shared_conf_def shared_queues_def)
  have c: "c1 \<in> set (compute_groups (computeGroupSize shared_conf) (compute_list shared_task))"
    "c2 \<in> set (compute_groups (computeGroupSize shared_conf) (compute_list shared_task))" "c1 \<noteq> c2"
    "2 \<in> set (cg_src c1)" "2 \<in> set (cg_src c2)"
    by (simp_all only: gs) (simp_all add: c1_def c2_def)
  have "(0::nat) < 1" "(0::int) < 1" "(1::int) < 2 ^ 31" by simp_all
  from compute_groups_hang [OF sizes this isal_law_sum ok ex q c] show ?thesis by (force simp: all_ended_def)
qed

end
