(* ===== verification/Parallel_Choose.thy ===== *)
theory Parallel_Choose
  imports Recolor
begin

text \<open>
  How \<open>ParallelSolution\<close> picks a node for a vertex (src/src/sol/ParallelSolution.cc): every candidate
  is tried on a copy of the load table, the table is summed up as a \<open>State\<close> (the largest load of a
  node, the total of arrivals), and the best state wins. Arguments that a routine ignores are left
  out: the \<open>coloring\<close> of \<open>chooseColor1\<close> and \<open>chooseColor2\<close>, the log's \<open>placement\<close>.
\<close>

section \<open>States\<close>

record state =
  st_load :: int
  st_bdwt :: int

definition INT_MAX :: int where
  "INT_MAX = 2147483647"

definition worst_state :: state where
  "worst_state = \<lparr>st_load = INT_MAX, st_bdwt = INT_MAX\<rparr>"

definition cell :: "rows \<Rightarrow> dir \<Rightarrow> int \<Rightarrow> int res" where
  \<comment> \<open>\<open>table[k][dir]\<close>\<close>
  "cell t dr k = bindR (vget t k) (\<lambda>row. vget row (int (dir_index dr)))"

definition isBetter :: "state \<Rightarrow> state \<Rightarrow> bool" where
  "isBetter st1 st2 \<longleftrightarrow>
     (if st_load st1 < st_load st2 then True
      else if st_load st1 = st_load st2 then st_bdwt st1 < st_bdwt st2 else False)"

definition isBetter2 :: "state \<Rightarrow> int \<Rightarrow> state \<Rightarrow> int \<Rightarrow> rows \<Rightarrow> bool res" where
  "isBetter2 st1 color1 st2 color2 table =
     Inr (if st_load st1 < st_load st2 then True
          else if st_load st1 = st_load st2 then (if st_bdwt st1 < st_bdwt st2 then True else False)
          else False)"

definition isBetter4 :: "state \<Rightarrow> int \<Rightarrow> state \<Rightarrow> int \<Rightarrow> rows \<Rightarrow> bool res" where
  "isBetter4 st1 color1 st2 color2 table =
     Inr (if st_load st1 < st_load st2 then True
          else if st_load st1 = st_load st2 then (if st_bdwt st1 < st_bdwt st2 then True else False)
          else False)"

definition isBetter3 :: "state \<Rightarrow> int \<Rightarrow> state \<Rightarrow> int \<Rightarrow> rows \<Rightarrow> bool res" where
  "isBetter3 st1 color1 st2 color2 table =
     (if st_load st1 < st_load st2 then Inr True
      else if st_load st1 = st_load st2
      then (if st_bdwt st1 < st_bdwt st2 then Inr True
            else bindR (cell table OUT color1) (\<lambda>a. bindR (cell table OUT color2) (\<lambda>b. Inr (a < b))))
      else Inr False)"

definition evalTable1 :: "rows \<Rightarrow> state res" where
  "evalTable1 table =
     bindR (foldR (\<lambda>item (load, bdwt).
              bindR (vget item 1) (\<lambda>i. bindR (vget item 0) (\<lambda>u. Inr (max (max load u) i, bdwt + i))))
              table (0, 0))
       (\<lambda>(load, bdwt). Inr \<lparr>st_load = load, st_bdwt = bdwt\<rparr>)"

definition evalTable :: "rows \<Rightarrow> int list \<Rightarrow> state res" where
  "evalTable table colors =
     bindR (foldR (\<lambda>item bdwt. bindR (vget item 1) (\<lambda>i. Inr (bdwt + i))) table 0) (\<lambda>bdwt.
     bindR (foldR (\<lambda>color load. bindR (cell table OUT color) (\<lambda>u. bindR (cell table IN color) (\<lambda>i.
              Inr (max (max load u) i)))) colors 0) (\<lambda>load.
       Inr \<lparr>st_load = load, st_bdwt = bdwt\<rparr>))"

section \<open>The choice\<close>

text \<open>The loop that all the \<open>chooseColor\<close> routines share: \<open>table\<close> is the table to sum up for a colour.\<close>

definition try_color ::
    "(int \<Rightarrow> rows res) \<Rightarrow> (state \<Rightarrow> int \<Rightarrow> state \<Rightarrow> int \<Rightarrow> rows \<Rightarrow> bool res) \<Rightarrow> int \<Rightarrow> state \<times> int \<Rightarrow> (state \<times> int) res" where
  "try_color table better newColor = (\<lambda>(bestState, bestColor).
     bindR (table newColor) (\<lambda>t.
     bindR (evalTable1 t) (\<lambda>st.
     bindR (better st newColor bestState bestColor t) (\<lambda>b.
       Inr (if b then (st, newColor) else (bestState, bestColor))))))"

definition choose_color ::
    "(int \<Rightarrow> rows res) \<Rightarrow> (state \<Rightarrow> int \<Rightarrow> state \<Rightarrow> int \<Rightarrow> rows \<Rightarrow> bool res) \<Rightarrow> int list \<Rightarrow> int res" where
  "choose_color table better colors =
     bindR (foldR (try_color table better) colors (worst_state, -1)) (\<lambda>(_, c). Inr c)"

text \<open>\<open>currTable[i] += stripeTable[i]\<close> for every row of the global table.\<close>

definition add_tables :: "rows \<Rightarrow> rows \<Rightarrow> rows res" where
  "add_tables loadTable stripeTable =
     foldR (\<lambda>i t.
       bindR (cell stripeTable OUT (int i)) (\<lambda>u. bindR (vt_add OUT (int i) u t) (\<lambda>t.
       bindR (cell stripeTable IN (int i)) (\<lambda>v. vt_add IN (int i) v t))))
       [0..<length loadTable] loadTable"

definition chooseColor1 :: "int \<Rightarrow> stripe \<Rightarrow> int list \<Rightarrow> int \<Rightarrow> int res" where
  \<comment> \<open>\<open>n\<close> is \<open>_num_agents + _standby_size\<close>\<close>
  "chooseColor1 n s childColors idx = choose_color (\<lambda>c. evaluateChange n idx c s) isBetter3 childColors"

definition chooseColor2 :: "int \<Rightarrow> stripe \<Rightarrow> int list \<Rightarrow> int list \<Rightarrow> int res" where
  "chooseColor2 n s childColors itm_idx =
     choose_color (\<lambda>c. evaluateChange2 n itm_idx c s) (\<lambda>st _ best _ _. Inr (isBetter st best)) childColors"

definition chooseColor2New :: "stripe \<Rightarrow> int list \<Rightarrow> rows \<Rightarrow> int list \<Rightarrow> int res" where
  "chooseColor2New s childColors loadTable itm_idx =
     choose_color (\<lambda>c. bindR (evaluateChange2 (int (length loadTable)) itm_idx c s) (add_tables loadTable))
       isBetter2 childColors"

definition chooseColor4 :: "stripe \<Rightarrow> int list \<Rightarrow> rows \<Rightarrow> int \<Rightarrow> int res" where
  "chooseColor4 s childColors loadTable idx =
     choose_color (\<lambda>c. bindR (evaluateChange (int (length loadTable)) idx c s) (add_tables loadTable))
       isBetter3 childColors"

definition chooseColor_fullnode :: "stripe \<Rightarrow> int list \<Rightarrow> rows \<Rightarrow> int \<Rightarrow> int res" where
  "chooseColor_fullnode s childColors loadTable idx =
     choose_color (\<lambda>c. bindR (evaluateChange (int (length loadTable)) idx c s) (add_tables loadTable))
       isBetter2 childColors"

section \<open>Summing up a table\<close>

text \<open>The summary of a table with two columns.\<close>

definition summary :: "rows \<Rightarrow> state" where
  "summary t = \<lparr>st_load = Max (insert 0 (set (concat t))), st_bdwt = (\<Sum>row\<leftarrow>t. row ! 1)\<rparr>"

definition sum_rows :: "rows \<Rightarrow> rows \<Rightarrow> rows" where
  "sum_rows t u = map (\<lambda>i. [t ! i ! 0 + u ! i ! 0, t ! i ! 1 + u ! i ! 1]) [0..<length t]"

lemma rows_ok_pair: "rows_ok n t \<Longrightarrow> i < n \<Longrightarrow> \<exists>a b. t ! i = [a, b]"
  by (auto simp: rows_ok_def list_all_length length_Suc_conv numeral_2_eq_2)

lemma Max_insert_max: "finite B \<Longrightarrow> Max (insert (max a b) B) = Max (insert a (insert b B))"
  for a b :: "'a::linorder"
  by (cases "B = {}") (simp_all add: max.assoc)

lemma evalTable1_summary:
  assumes "rows_ok n t"
  shows "evalTable1 t = Inr (summary t)"
proof -
  have "foldR (\<lambda>item (load, bdwt).
          bindR (vget item 1) (\<lambda>i. bindR (vget item 0) (\<lambda>u. Inr (max (max load u) i, bdwt + i)))) t (l, b) =
      Inr (Max (insert l (set (concat t))), b + (\<Sum>row\<leftarrow>t. row ! 1))" if "list_all (\<lambda>row. length row = 2) t" for l b
    using that
  proof (induction t arbitrary: l b)
    case (Cons row t)
    then obtain x y where row: "row = [x, y]" by (auto simp: length_Suc_conv numeral_2_eq_2)
    have "Max (insert (max (max l x) y) (set (concat t))) = Max (insert l (insert x (insert y (set (concat t)))))"
      by (simp only: Max_insert_max finite_set finite_insert)
    moreover have "set (concat (row # t)) = insert x (insert y (set (concat t)))" by (simp add: row)
    ultimately show ?case using Cons by (simp only: row) (simp add: row)
  qed simp
  from this [of 0 0] assms show ?thesis by (simp add: evalTable1_def summary_def rows_ok_def)
qed

lemma add_tables_sum:
  assumes "rows_ok n t" and "rows_ok n u"
  shows "add_tables t u = Inr (sum_rows t u)" and "rows_ok n (sum_rows t u)"
proof -
  let ?g = "\<lambda>i. [t ! i ! 0 + u ! i ! 0, t ! i ! 1 + u ! i ! 1]"
  have len: "length t = n" "length u = n" using assms by (simp_all add: rows_ok_def)
  have "foldR (\<lambda>i t. bindR (cell u OUT (int i)) (\<lambda>x. bindR (vt_add OUT (int i) x t) (\<lambda>t.
       bindR (cell u IN (int i)) (\<lambda>y. vt_add IN (int i) y t)))) [0..<m] t = Inr (map ?g [0..<m] @ drop m t)" if "m \<le> n" for m
    using that
  proof (induction m)
    case (Suc m)
    then have m: "m < n" by simp
    obtain a b where ab: "t ! m = [a, b]" using rows_ok_pair [OF assms(1) m] by blast
    obtain c d where cd: "u ! m = [c, d]" using rows_ok_pair [OF assms(2) m] by blast
    have dr: "drop m t = [a, b] # drop (Suc m) t" using m len by (simp add: Cons_nth_drop_Suc [symmetric] ab)
    have "foldR (\<lambda>i t. bindR (cell u OUT (int i)) (\<lambda>x. bindR (vt_add OUT (int i) x t) (\<lambda>t.
        bindR (cell u IN (int i)) (\<lambda>y. vt_add IN (int i) y t)))) [0..<m] t = Inr (map ?g [0..<m] @ [a, b] # drop (Suc m) t)"
      using Suc dr by simp
    then show ?case using m len ab cd
      by (simp add: foldR_append cell_def vt_add_def nth_append list_update_append)
  qed simp
  from this [of n] len show "add_tables t u = Inr (sum_rows t u)" by (simp add: add_tables_def sum_rows_def)
  show "rows_ok n (sum_rows t u)" using len by (simp add: rows_ok_def sum_rows_def list_all_iff)
qed

section \<open>The best colour\<close>

text \<open>\<open>at_most a b\<close>: state \<open>a\<close> is no worse than \<open>b\<close>.\<close>

definition at_most :: "state \<Rightarrow> state \<Rightarrow> bool" where
  "at_most a b \<longleftrightarrow> st_load a < st_load b \<or> st_load a = st_load b \<and> st_bdwt a \<le> st_bdwt b"

lemma not_better: "\<not> isBetter b a \<longleftrightarrow> at_most a b"
  by (auto simp: isBetter_def at_most_def)

lemma at_most_trans: "at_most a b \<Longrightarrow> at_most b c \<Longrightarrow> at_most a c"
  by (auto simp: at_most_def)

lemma better_trans: "isBetter a b \<Longrightarrow> at_most b c \<Longrightarrow> isBetter a c"
  by (auto simp: isBetter_def at_most_def split: if_splits)

lemma better_at_most: "isBetter a b \<Longrightarrow> at_most a b"
  by (auto simp: isBetter_def at_most_def split: if_splits)

lemma isBetter2_eq: "isBetter2 a c b d t = Inr (isBetter a b)" "isBetter4 a c b d t = Inr (isBetter a b)"
  by (simp_all add: isBetter2_def isBetter4_def isBetter_def)

text \<open>
  What a choice promises: a candidate of the best state, the first one in the list; \<open>-1\<close> when there
  is no candidate.
\<close>

definition is_choice :: "(int \<Rightarrow> state) \<Rightarrow> int list \<Rightarrow> int \<Rightarrow> bool" where
  "is_choice S colors c \<longleftrightarrow>
     (if colors = [] then c = -1
      else \<exists>us vs. colors = us @ c # vs \<and> (\<forall>d\<in>set colors. at_most (S c) (S d)) \<and> (\<forall>d\<in>set us. isBetter (S c) (S d)))"

lemma is_choice_split:
  "is_choice S colors c \<Longrightarrow> colors \<noteq> [] \<Longrightarrow>
   \<exists>us vs. colors = us @ c # vs \<and> (\<forall>d\<in>set colors. at_most (S c) (S d)) \<and> (\<forall>d\<in>set us. isBetter (S c) (S d))"
  by (simp add: is_choice_def)

lemma is_choiceI:
  "colors = us @ c # vs \<Longrightarrow> (\<And>d. d \<in> set colors \<Longrightarrow> at_most (S c) (S d)) \<Longrightarrow>
   (\<And>d. d \<in> set us \<Longrightarrow> isBetter (S c) (S d)) \<Longrightarrow> is_choice S colors c"
  unfolding is_choice_def by auto

lemma is_choice_set: "is_choice S colors c \<Longrightarrow> c \<in> set colors \<or> colors = [] \<and> c = -1"
  by (auto simp: is_choice_def split: if_splits)

lemma is_choice_min: "is_choice S colors c \<Longrightarrow> d \<in> set colors \<Longrightarrow> at_most (S c) (S d)"
  by (auto simp: is_choice_def split: if_splits)

lemma choose_color_ok:
  assumes T: "\<And>c. c \<in> set colors \<Longrightarrow> table c = Inr (T c) \<and> evalTable1 (T c) = Inr (S c) \<and> st_load (S c) < INT_MAX"
    and better: "\<And>a c b d t. better a c b d t = Inr (isBetter a b)"
  shows "\<exists>c. choose_color table better colors = Inr c \<and> is_choice S colors c"
proof -
  define inv where "inv ws r \<longleftrightarrow> (if ws = [] then r = (worst_state, -1)
      else fst r = S (snd r) \<and> is_choice S ws (snd r))" for ws and r :: "state \<times> int"
  have "\<exists>r. foldR (try_color table better) zs r0 = Inr r \<and> inv (ws @ zs) r"
    if "inv ws r0" "set (ws @ zs) \<subseteq> set colors" for ws zs r0
    using that
  proof (induction zs arbitrary: ws r0)
    case Nil
    then show ?case by auto
  next
    case (Cons z zs)
    note Tz = T [of z]
    obtain bs bc where r0: "r0 = (bs, bc)" by (cases r0)
    have step: "try_color table better z r0 = Inr (if isBetter (S z) bs then (S z, z) else r0)"
      using Tz Cons.prems(2) by (simp add: try_color_def r0 better)
    have "inv (ws @ [z]) (if isBetter (S z) bs then (S z, z) else r0)"
    proof (cases "ws = []")
      case True
      then have "bs = worst_state" using Cons.prems(1) by (simp add: inv_def r0)
      then have "isBetter (S z) bs" using Tz Cons.prems(2) by (simp add: isBetter_def worst_state_def)
      then show ?thesis by (simp add: True inv_def is_choice_def at_most_def) (rule exI [of _ "[]"], simp)
    next
      case False
      then have ch: "bs = S bc" "is_choice S ws bc" using Cons.prems(1) by (simp_all add: inv_def r0)
      obtain us vs where bc: "ws = us @ bc # vs" "bs = S bc"
        "\<forall>d\<in>set ws. at_most (S bc) (S d)" "\<forall>d\<in>set us. isBetter (S bc) (S d)"
        using is_choice_split [OF ch(2) False] ch(1) by blast
      show ?thesis
      proof (cases "isBetter (S z) (S bc)")
        case True
        then have "isBetter (S z) (S d)" "at_most (S z) (S d)" if "d \<in> set ws" for d
          using bc(3) that better_trans better_at_most by blast+
        then have "is_choice S (ws @ [z]) z"
          by (intro is_choiceI [of _ ws _ "[]"]) (auto simp: at_most_def)
        then show ?thesis using True bc(2) by (simp add: inv_def)
      next
        case no: False
        then have "at_most (S bc) (S z)" by (simp add: not_better)
        then have "is_choice S (ws @ [z]) bc"
          using bc by (intro is_choiceI [of _ us _ "vs @ [z]"]) auto
        then show ?thesis using no bc(2) by (simp add: inv_def r0)
      qed
    qed
    from Cons.IH [OF this] Cons.prems(2) step show ?case by simp
  qed
  from this [of "[]" "(worst_state, -1)" colors] obtain r where
    r: "foldR (try_color table better) colors (worst_state, -1) = Inr r" "inv colors r" by (auto simp: inv_def)
  have "is_choice S colors (snd r)" using r(2) by (auto simp: inv_def is_choice_def split: if_splits)
  with r(1) show ?thesis by (auto simp: choose_color_def split: prod.splits)
qed

end
