(* ===== verification/Group_Recolor.thy ===== *)
theory Group_Recolor
  imports Recolor
begin

text \<open>
  Placing a whole group of vertices at once: \<open>Stripe::evaluateChange2\<close> (src/src/common/Stripe.cc)
  looks ahead at the table that a common node for several vertices would give. It is exact for a
  group that has no node yet and whose members read the same children, which is the shape of the
  sub-packets of one coupled pair; it is also shown here which rows the tables can touch.
\<close>

section \<open>A group of vertices\<close>

definition place_all :: "int list \<Rightarrow> int \<Rightarrow> (int \<Rightarrow> int) \<Rightarrow> int \<Rightarrow> int" where
  "place_all vs new col = (\<lambda>v. if v \<in> set vs then new else col v)"

definition fresh_group :: "stripe \<Rightarrow> int list \<Rightarrow> bool" where
  \<comment> \<open>without a node so far, and with the same children\<close>
  "fresh_group s vs \<longleftrightarrow> vs \<noteq> [] \<and> distinct vs \<and>
     (\<forall>v\<in>set vs. v \<in> set (node_ids (s_ecdag s)) \<and> color_of (coloring s) v = -1 \<and>
        set (children_of (s_ecdag s) v) = set (children_of (s_ecdag s) (hd vs)))"

lemma group_apart:
  assumes wf: "wf_ecdag g" and kids: "\<And>v. v \<in> set vs \<Longrightarrow> set (children_of g v) = set (children_of g (hd vs))"
  shows "v \<in> set vs \<Longrightarrow> set (parents_of g v) \<inter> set vs = {}"
    and "set (children_of g (hd vs)) \<inter> set vs = {}"
proof -
  note self = no_self_child [OF wf]
  show "set (children_of g (hd vs)) \<inter> set vs = {}" using self kids by blast
  show "set (parents_of g v) \<inter> set vs = {}" if v: "v \<in> set vs"
  proof (rule equals0I)
    fix p assume p: "p \<in> set (parents_of g v) \<inter> set vs"
    then have "v \<in> set (children_of g p)" using dag_mirror [OF wf_ecdag_ok [OF wf]] by blast
    then have "v \<in> set (children_of g v)" using kids [of p] kids [OF v] p by blast
    then show False using self by blast
  qed
qed

lemma group_sum:
  assumes wf: "wf_ecdag g" and vs: "vs \<noteq> []" "distinct vs" "set vs \<subseteq> set (node_ids g)"
    and kids: "\<And>v. v \<in> set vs \<Longrightarrow> set (children_of g v) = set (children_of g (hd vs))"
    and old: "\<And>v. v \<in> set vs \<Longrightarrow> col v = -1"
  shows "expected g (place_all vs new col) dr k = expected g col dr k
    + (\<Sum>v\<leftarrow>vs. \<Sum>b\<in>col ` set (parents_of g v). edge new b dr k)
    + (\<Sum>c\<leftarrow>children_of g (hd vs). if new \<in> col ` set (parents_of g c) then 0 else edge (col c) new dr k)"
proof -
  let ?col = "place_all vs new col"
  let ?V = "set (node_ids g)" and ?C = "set (children_of g (hd vs))"
  let ?d = "\<lambda>v. vertex_load g ?col v dr k - vertex_load g col v dr k"
  have ok: "dag_ok g" using wf by (rule wf_ecdag_ok)
  note apart = group_apart [OF wf kids]
  have sub: "set vs \<union> ?C \<subseteq> ?V" using vs(3) dag_okD(4) [OF ok] by blast
  have far: "?d v = 0" if v: "v \<in> ?V - (set vs \<union> ?C)" for v
  proof -
    have "p \<notin> set vs" if p: "p \<in> set (parents_of g v)" for p
      using p dag_mirror [OF ok, of p v] kids [of p] v by blast
    then have "?col ` set (parents_of g v) = col ` set (parents_of g v)" by (auto simp: place_all_def image_iff)
    then show ?thesis using v by (simp add: vertex_load_def place_all_def)
  qed
  have grp: "?d v = (\<Sum>b\<in>col ` set (parents_of g v). edge new b dr k)" if v: "v \<in> set vs" for v
  proof -
    have "?col ` set (parents_of g v) = col ` set (parents_of g v)"
      using apart(1) [OF _ v] by (auto simp: place_all_def image_iff)
    then show ?thesis using v old [OF v] by (simp add: vertex_load_def place_all_def)
  qed
  have kid: "?d c = (if new \<in> col ` set (parents_of g c) then 0 else edge (col c) new dr k)" if c: "c \<in> ?C" for c
  proof -
    let ?P = "set (parents_of g c)"
    have cv: "c \<notin> set vs" using apart(2) c by blast
    have h: "hd vs \<in> set vs" using vs(1) by simp
    have P: "set vs \<subseteq> ?P"
      using c kids dag_mirror [OF ok, of _ c] by blast
    have new: "?col ` ?P = insert new (col ` (?P - set vs))"
      using P h by (auto simp: place_all_def image_iff)
    have "col ` ?P = col ` set vs \<union> col ` (?P - set vs)" using P by (auto simp flip: image_Un intro: arg_cong)
    moreover have "col ` set vs = {-1}" using h old by force
    ultimately have cur: "col ` ?P = insert (-1) (col ` (?P - set vs))" by simp
    let ?R = "col ` (?P - set vs)"
    have ins: "(\<Sum>b\<in>insert a ?R. edge e b dr k) = (\<Sum>b\<in>?R. edge e b dr k) + (if a \<in> ?R then 0 else edge e a dr k)" for a e
      by (simp add: insert_absorb)
    have "?d c = (if new \<in> ?R then 0 else edge (col c) new dr k)"
      unfolding vertex_load_def new cur ins using cv by (simp add: place_all_def)
    then show ?thesis by (auto simp: cur)
  qed
  have "(\<Sum>v\<in>?V. ?d v) = (\<Sum>v\<in>set vs \<union> ?C. ?d v)"
    using sub far by (intro sum.mono_neutral_right) auto
  also have "\<dots> = (\<Sum>v\<in>set vs. ?d v) + (\<Sum>c\<in>?C. ?d c)"
    using apart(2) by (intro sum.union_disjoint) auto
  also have "(\<Sum>v\<in>set vs. ?d v) = (\<Sum>v\<leftarrow>vs. \<Sum>b\<in>col ` set (parents_of g v). edge new b dr k)"
    using vs(2) grp by (simp add: sum_list_distinct_conv_sum_set)
  also have "(\<Sum>c\<in>?C. ?d c) = (\<Sum>c\<leftarrow>children_of g (hd vs). if new \<in> col ` set (parents_of g c) then 0 else edge (col c) new dr k)"
    using dag_okD(2) [OF ok, of "hd vs"] kid by (simp add: sum_list_distinct_conv_sum_set)
  finally show ?thesis unfolding expected_sum by (simp add: sum_subtractf)
qed

section \<open>evaluateChange2\<close>

lemma change_child_rows2_fresh: "change_child_rows2 g cl (-1) new = change_child_rows g cl (-1) new"
  by (intro ext) (simp add: change_child_rows2_def change_child_rows_def Let_def)

lemma fresh_group_nodes:
  assumes "colored s" and "fresh_group s vs" and "v \<in> set vs"
  shows "\<exists>n. getNode (s_ecdag s) v = Some n \<and> nodeId n = v \<and> parentNodes n = parents_of (s_ecdag s) v \<and>
    childNodes n = children_of (s_ecdag s) v \<and> color_of (coloring s) v = -1"
proof -
  have v: "v \<in> set (node_ids (s_ecdag s))" "color_of (coloring s) v = -1" using assms(2,3) unfolding fresh_group_def by blast+
  then obtain n where n: "getNode (s_ecdag s) v = Some n" using getNode_iff by blast
  have "wf_ecdag (s_ecdag s)" using assms(1) by (simp add: colored_def)
  from getNode_reads [OF this n] n v(2) show ?thesis by auto
qed

lemma evaluateChange2_rows:
  assumes col: "colored s" and st: "stats_ok s" and grp: "fresh_group s vs"
    and new: "in_range n new" and rng: "tables_in_range n s"
  shows "evaluateChange2 n vs new s =
    Inr (expected_rows n (s_ecdag s) (place_all vs new (color_of (coloring s))))"
proof -
  let ?g = "s_ecdag s" and ?cl = "coloring s"
  have wf: "wf_ecdag ?g" using col by (simp add: colored_def)
  have vs: "vs \<noteq> []" "distinct vs" "set vs \<subseteq> set (node_ids ?g)"
    and kids: "\<And>v. v \<in> set vs \<Longrightarrow> set (children_of ?g v) = set (children_of ?g (hd vs))"
    and old: "\<And>v. v \<in> set vs \<Longrightarrow> color_of ?cl v = -1"
    using grp unfolding fresh_group_def by blast+
  have new1: "new \<noteq> -1" using new by (auto simp: in_range_def)
  have ir: "color_of ?cl v = -1 \<or> in_range n (color_of ?cl v)" for v
    using color_in_range [OF rng, of v] new by (auto simp: in_range_def)
  let ?pcs = "\<lambda>v. parent_color_set ?cl (parents_of ?g v)"
  let ?E = "\<lambda>dr k. \<Sum>v\<leftarrow>vs. \<Sum>b\<leftarrow>?pcs v. edge new b dr k - edge (-1) b dr k"
  let ?F = "\<lambda>dr k. (\<Sum>c\<leftarrow>children_of ?g (hd vs).
      (if count_color ?cl (parents_of ?g c) new = 0 then edge (color_of ?cl c) new dr k else 0)
      - (if count_color ?cl (parents_of ?g c) (-1) = 1 then edge (color_of ?cl c) (-1) dr k else 0))"
  have "b = -1 \<or> in_range n b" if "b \<in> set (?pcs v)" for b v using that ir by auto
  then have eff: "effects vt_get (rows_ok (nat n)) (foldR (\<lambda>v. foldR (change_parent_rows (-1) new) (?pcs v)) vs) ?E"
    "effects vt_get (rows_ok (nat n)) (foldR (change_child_rows ?g ?cl (-1) new) (children_of ?g (hd vs))) ?F"
    by (intro effects_foldR effects_change_parent_rows effects_change_child_rows ir new; blast)+
  from load_rows_ok [OF _ _ rng] st obtain t0 where
    t0: "load_rows n (s_in s) (s_out s) = Inr t0" "rows_ok (nat n) t0"
      "\<And>dr k. vt_get t0 dr k = expected ?g (color_of ?cl) dr k"
    by (auto simp: stats_ok_def)
  from effectsD [OF eff(1) t0(2)] obtain t1 where
    t1: "foldR (\<lambda>v. foldR (change_parent_rows (-1) new) (?pcs v)) vs t0 = Inr t1" "rows_ok (nat n) t1"
      "\<And>dr k. vt_get t1 dr k = vt_get t0 dr k + ?E dr k" by blast
  from effectsD [OF eff(2) t1(2)] obtain t2 where
    t2: "foldR (change_child_rows ?g ?cl (-1) new) (children_of ?g (hd vs)) t1 = Inr t2" "rows_ok (nat n) t2"
      "\<And>dr k. vt_get t2 dr k = vt_get t1 dr k + ?F dr k" by blast
  have E: "?E dr k = (\<Sum>v\<leftarrow>vs. \<Sum>b\<in>color_of ?cl ` set (parents_of ?g v). edge new b dr k)" for dr k
    using sum_parent_colors [of "?pcs v" ?cl "set (parents_of ?g v)" for v] by simp
  have F: "?F dr k = (\<Sum>c\<leftarrow>children_of ?g (hd vs).
      if new \<in> color_of ?cl ` set (parents_of ?g c) then 0 else edge (color_of ?cl c) new dr k)" for dr k
    by (intro arg_cong [where f = sum_list] map_cong refl) (simp add: count_color_0)
  have "vt_get t2 dr k = expected ?g (place_all vs new (color_of ?cl)) dr k" for dr k
    unfolding t2(3) t1(3) t0(3) E F by (rule group_sum [OF wf vs kids old, symmetric])
  from rows_eq [OF t2(2) this] have t2': "t2 = expected_rows n ?g (place_all vs new (color_of ?cl))" .
  have loop: "foldR (\<lambda>idx t. bindR (ofOpt NullNode (getNode ?g idx)) (\<lambda>node.
      foldR (change_parent_rows (color_of ?cl (nodeId node)) new) (parent_color_set ?cl (parentNodes node)) t)) vs t0 = Inr t1"
  proof -
    have "foldR (\<lambda>idx t. bindR (ofOpt NullNode (getNode ?g idx)) (\<lambda>node.
        foldR (change_parent_rows (color_of ?cl (nodeId node)) new) (parent_color_set ?cl (parentNodes node)) t)) vs t0 =
      foldR (\<lambda>v. foldR (change_parent_rows (-1) new) (?pcs v)) vs t0"
    proof (rule foldR_cong)
      fix v t assume "v \<in> set vs"
      from fresh_group_nodes [OF col grp this] show "bindR (ofOpt NullNode (getNode ?g v)) (\<lambda>node.
          foldR (change_parent_rows (color_of ?cl (nodeId node)) new) (parent_color_set ?cl (parentNodes node)) t) =
        foldR (change_parent_rows (-1) new) (?pcs v) t" by auto
    qed
    with t1(1) show ?thesis by simp
  qed
  have h: "hd vs \<in> set vs" "vget vs 0 = Inr (hd vs)" using vs(1) by (simp_all add: vget_def hd_conv_nth)
  obtain m where m: "getNode ?g (hd vs) = Some m" "nodeId m = hd vs" "childNodes m = children_of ?g (hd vs)"
    "color_of ?cl (hd vs) = -1" using fresh_group_nodes [OF col grp h(1)] by blast
  have keys: "set (um_keys ?cl) = set (node_ids ?g)" using col by (simp add: colored_def)
  have t: "touch (concat (map (parents_of ?g) vs) @ vs) ?cl = ?cl"
  proof (rule touch_id)
    show "set (concat (map (parents_of ?g) vs) @ vs) \<subseteq> set (um_keys ?cl)"
      using vs(3) dag_okD(5) [OF wf_ecdag_ok [OF wf]] keys by auto
  qed
  have "set (childNodes m) \<subseteq> set (um_keys ?cl)"
    using m(3) dag_okD(4) [OF wf_ecdag_ok [OF wf]] keys by simp
  then obtain cs where "getChildColors ?cl m = Inr cs" using getChildColors_ok by blast
  then show ?thesis
    unfolding evaluateChange2_def Let_def t t0(1) bindR_Inr loop h(2)
    using m t2(1) by (simp add: change_child_rows2_fresh t2')
qed

section \<open>The rows in use\<close>

text \<open>Recounts and moves among the nodes \<open>0..<n\<close> only touch the rows of those nodes.\<close>

definition rows_in :: "int \<Rightarrow> maps \<Rightarrow> bool" where
  "rows_in n m \<longleftrightarrow> list_all (in_range n) (um_keys (fst m)) \<and> list_all (in_range n) (um_keys (snd m))"

definition node_color :: "int \<Rightarrow> int \<Rightarrow> bool" where
  \<comment> \<open>a node of the cluster, or none\<close>
  "node_color n c \<longleftrightarrow> c = -1 \<or> in_range n c"

abbreviation node_colors :: "int \<Rightarrow> int umap \<Rightarrow> bool" where
  "node_colors n cl \<equiv> list_all (\<lambda>item. snd item = -1 \<or> in_range n (snd item)) cl"

text \<open>\<open>keeps n f\<close>: the step \<open>f\<close> adds no other row.\<close>

definition keeps :: "int \<Rightarrow> (maps \<Rightarrow> maps res) \<Rightarrow> bool" where
  "keeps n f \<longleftrightarrow> (\<forall>m m'. rows_in n m \<longrightarrow> f m = Inr m' \<longrightarrow> rows_in n m')"

lemma keepsD: "keeps n f \<Longrightarrow> f m = Inr m' \<Longrightarrow> rows_in n m \<Longrightarrow> rows_in n m'"
  unfolding keeps_def by blast

lemma keeps_skip: "keeps n Inr"
  by (simp add: keeps_def)

lemma keeps_seq: "keeps n f \<Longrightarrow> keeps n g \<Longrightarrow> keeps n (\<lambda>m. bindR (f m) g)"
  unfolding keeps_def bindR_eq_Inr by blast

lemma keeps_if: "(b \<Longrightarrow> keeps n f) \<Longrightarrow> (\<not> b \<Longrightarrow> keeps n g) \<Longrightarrow> keeps n (\<lambda>m. if b then f m else g m)"
  by (cases b) simp_all

lemma keeps_add: "in_range n k \<Longrightarrow> keeps n (tab_add dr k d)"
  by (simp add: keeps_def tab_add_def rows_in_def um_keys_bump)

lemma keeps_foldR: "(\<And>x. x \<in> set xs \<Longrightarrow> keeps n (f x)) \<Longrightarrow> keeps n (foldR f xs)"
proof (induction xs)
  case (Cons x xs)
  have "keeps n (\<lambda>m. bindR (f x m) (foldR f xs))" using Cons by (intro keeps_seq) auto
  then show ?case by (simp add: foldR.simps(2) [abs_def])
qed (simp add: keeps_def)

lemma keeps_change_parent:
  assumes "node_color n old" "node_color n pc" "node_color n new"
  shows "keeps n (change_parent old new pc)"
  unfolding change_parent_def [abs_def]
  by (rule keeps_if keeps_skip keeps_seq keeps_add | use assms in \<open>simp add: node_color_def\<close>)+

lemma keeps_change_child:
  assumes "node_color n old" "node_color n (color_of cl c)" "in_range n new"
  shows "keeps n (change_child g cl old new c)"
  unfolding change_child_def [abs_def] Let_def
  by (rule keeps_if keeps_skip keeps_seq keeps_add | use assms in \<open>simp add: node_color_def\<close>)+

lemma keeps_eval_vertex:
  assumes "node_color n (snd item)"
    and "\<And>d b. getNode g (fst item) = Some d \<Longrightarrow> b \<in> set (parent_colors cl (parentNodes d)) \<Longrightarrow> node_color n b"
  shows "keeps n (eval_vertex g cl item)"
proof -
  have one: "rows_in n (count_edge (snd item) b m)" if "node_color n b" "snd item \<noteq> -1" "rows_in n m" for b m
    using that assms(1) by (auto simp: count_edge_def rows_in_def um_keys_bump node_color_def)
  have all: "rows_in n (fold (count_edge (snd item)) bs m)"
    if "\<And>b. b \<in> set bs \<Longrightarrow> node_color n b" "snd item \<noteq> -1" "rows_in n m" for bs m
    using that by (induction bs arbitrary: m) (simp_all add: one)
  show ?thesis
  proof (cases "snd item = -1")
    case True
    then show ?thesis by (simp add: eval_vertex_def [abs_def] keeps_def)
  next
    case False
    show ?thesis
    proof (cases "getNode g (fst item)")
      case None
      then show ?thesis using False by (simp add: eval_vertex_def [abs_def] keeps_def)
    next
      case (Some d)
      have "rows_in n (fold (count_edge (snd item)) (parent_colors cl (parentNodes d)) m)" if "rows_in n m" for m
        by (rule all [OF assms(2) [OF Some] False that])
      then show ?thesis using False Some unfolding keeps_def eval_vertex_def by auto
    qed
  qed
qed

definition ranged :: "int \<Rightarrow> stripe \<Rightarrow> bool" where
  \<comment> \<open>coloured, with the figures of its colouring, over the nodes \<open>0..<n\<close>\<close>
  "ranged n s \<longleftrightarrow> colored s \<and> stats_ok s \<and> tables_in_range n s"

lemma ranged_color:
  assumes "ranged n s" and "v \<in> set (node_ids (s_ecdag s))" shows "node_color n (color_of (coloring s) v)"
  using colored_color_in_range [of s n v] assms by (auto simp: ranged_def node_color_def tables_in_range_def)

lemma evaluateColoring_ranged:
  assumes col: "colored s" and rng: "node_colors n (coloring s)" and n: "0 \<le> n"
  shows "\<exists>s'. evaluateColoring s = Inr s' \<and> ranged n s' \<and> coloring s' = coloring s \<and> s_ecdag s' = s_ecdag s"
proof -
  obtain s' where s': "evaluateColoring s = Inr s'" "stats_ok s'" "coloring s' = coloring s" "s_ecdag s' = s_ecdag s"
    using evaluateColoring_counts [OF col] by blast
  obtain m where m: "foldR (eval_vertex (s_ecdag s) (coloring s)) (coloring s) ([], []) = Inr m" "s_in s' = fst m" "s_out s' = snd m"
    using s'(1) by (auto simp: evaluateColoring_def bindR_eq_Inr)
  have wf: "wf_ecdag (s_ecdag s)" using col by (simp add: colored_def)
  have "keeps n (eval_vertex (s_ecdag s) (coloring s) item)" if item: "item \<in> set (coloring s)" for item
  proof (rule keeps_eval_vertex)
    show "node_color n (snd item)" using rng item by (auto simp: list_all_iff node_color_def)
    fix d b assume d: "getNode (s_ecdag s) (fst item) = Some d" and "b \<in> set (parent_colors (coloring s) (parentNodes d))"
    then show "node_color n b"
      using getNode_reads [OF wf d] dag_okD(5) [OF wf_ecdag_ok [OF wf], of "fst item"]
        colored_color_in_range [OF col rng] by (auto simp: node_color_def)
  qed
  from keepsD [OF keeps_foldR [OF this] m(1)] have "rows_in n m" by (simp add: rows_in_def)
  then have "tables_in_range n s'" using s'(3) m rng n by (simp add: tables_in_range_def rows_in_def)
  with s' col show ?thesis by (auto simp: ranged_def colored_def)
qed

lemma node_colors_put: "node_colors n cl \<Longrightarrow> node_color n c \<Longrightarrow> node_colors n (um_put k c cl)"
proof -
  have "set (um_put k c cl) \<subseteq> insert (k, c) (set cl)"
    unfolding um_put_def by (induction cl) auto
  then show "node_colors n cl \<Longrightarrow> node_color n c \<Longrightarrow> node_colors n (um_put k c cl)"
    unfolding list_all_iff node_color_def by fastforce
qed

lemma changeColor_ranged:
  assumes s: "ranged n s" and idx: "idx \<in> set (node_ids (s_ecdag s))"
    and new: "in_range n new" "new \<noteq> color_of (coloring s) idx"
  shows "\<exists>s'. changeColor idx new s = Inr s' \<and> ranged n s' \<and>
    coloring s' = um_put idx new (coloring s) \<and> s_ecdag s' = s_ecdag s"
proof -
  let ?g = "s_ecdag s" and ?cl = "coloring s"
  have col: "colored s" and st: "stats_ok s" and rng: "tables_in_range n s" using s by (simp_all add: ranged_def)
  have new1: "new \<noteq> -1" using new(1) by (auto simp: in_range_def)
  obtain s' where s': "changeColor idx new s = Inr s'" "stats_ok s'" "colored s'" "coloring s' = um_put idx new ?cl" "s_ecdag s' = ?g"
    using changeColor_counts [OF col st idx new1 new(2)] by blast
  have wf: "wf_ecdag ?g" using col by (simp add: colored_def)
  obtain d where d: "getNode ?g idx = Some d" using idx getNode_iff by blast
  note rd = getNode_reads [OF wf d]
  have nc: "node_color n (color_of ?cl v)" if "v \<in> set (node_ids ?g)" for v using ranged_color [OF s that] .
  obtain m1 m2 where m: "foldR (change_parent (color_of ?cl idx) new) (parent_colors ?cl (parents_of ?g idx)) (s_in s, s_out s) = Inr m1"
    "foldR (change_child ?g ?cl (color_of ?cl idx) new) (children_of ?g idx) m1 = Inr m2" "s_in s' = fst m2" "s_out s' = snd m2"
    using s'(1) d rd by (auto simp: changeColor_def bindR_eq_Inr Let_def)
  have "rows_in n (s_in s, s_out s)" using rng by (simp add: rows_in_def tables_in_range_def)
  moreover have "node_color n b" if "b \<in> set (parent_colors ?cl (parents_of ?g idx))" for b
    using that nc dag_okD(5) [OF wf_ecdag_ok [OF wf], of idx] by auto
  then have "keeps n (foldR (change_parent (color_of ?cl idx) new) (parent_colors ?cl (parents_of ?g idx)))"
    using nc [OF idx] new(1) by (intro keeps_foldR keeps_change_parent) (auto simp: node_color_def)
  moreover have "node_color n (color_of ?cl c)" if "c \<in> set (children_of ?g idx)" for c
    using that nc dag_okD(4) [OF wf_ecdag_ok [OF wf], of idx] by auto
  then have "keeps n (foldR (change_child ?g ?cl (color_of ?cl idx) new) (children_of ?g idx))"
    using nc [OF idx] new(1) by (intro keeps_foldR keeps_change_child)
  ultimately have "rows_in n m2" using m(1,2) by (metis keepsD)
  moreover have "node_colors n (coloring s')"
    unfolding s'(4) using rng new(1) by (intro node_colors_put) (auto simp: tables_in_range_def node_color_def)
  ultimately have "tables_in_range n s'" using m rng by (simp add: rows_in_def tables_in_range_def)
  with s' show ?thesis by (auto simp: ranged_def)
qed

text \<open>Recounts and moves leave the rest of the stripe alone.\<close>

definition same_stripe :: "stripe \<Rightarrow> stripe \<Rightarrow> bool" where
  "same_stripe s t \<longleftrightarrow> stripe_id t = stripe_id s \<and> nodelist t = nodelist s \<and> s_ecdag t = s_ecdag s \<and>
     fail_blk_idxs t = fail_blk_idxs s \<and> blklist t = blklist s \<and> stripe_name t = stripe_name s \<and> loclist t = loclist s \<and>
     taskmap t = taskmap s"

lemma same_stripe_trans: "same_stripe s t \<Longrightarrow> same_stripe t u \<Longrightarrow> same_stripe s u"
  by (simp add: same_stripe_def)

lemma same_stripe_ops:
  "same_stripe s s"
  "evaluateColoring s = Inr t \<Longrightarrow> same_stripe s t"
  "changeColor idx new s = Inr t \<Longrightarrow> same_stripe s t"
  "same_stripe s (setColoring cl s)"
  by (auto simp: same_stripe_def evaluateColoring_def changeColor_def setColoring_def bindR_eq_Inr Let_def)

end
