(* ===== verification/Parallel_Color.thy ===== *)
theory Parallel_Color
  imports Parallel_Choose Group_Recolor Solution
begin

text \<open>
  The colouring of one stripe by \<open>ParallelSolution\<close> (src/src/sol/ParallelSolution.cc): \<open>prepare\<close>
  fixes the leaves and the repair nodes; the other vertices are then placed greedily in topological
  order, one at a time (\<open>SingleMLP\<close>, \<open>GloballyMLP\<close>, \<open>GloballyMLP_yh\<close>) or a group of siblings at a
  time (\<open>SingleMLPGroup\<close>, \<open>SingleMLPLevel\<close>, \<open>GloballyMLPLevel\<close>); \<open>LevelNew\<close> below is
  \<open>genColoringForMultipleFailureLevelNew\<close>. The local map \<open>coloring\<close> and the stripe's own are kept
  apart, as in the code. The loops that only log are left out.
\<close>

section \<open>prepare\<close>

definition prep_leaf :: "int \<Rightarrow> int \<Rightarrow> int list \<Rightarrow> int \<Rightarrow> int umap \<times> int list \<Rightarrow> (int umap \<times> int list) res" where
  "prep_leaf n w placement dagidx = (\<lambda>(cl, avoid).
     bindR (cdiv dagidx w) (\<lambda>blkidx.
       if blkidx < n
       then bindR (vget placement blkidx) (\<lambda>nodeid.
            Inr (um_insert dagidx nodeid cl, if nodeid \<in> set avoid then avoid else avoid @ [nodeid]))
       else Inr (um_insert dagidx (-1) cl, avoid)))"

definition prep_standby :: "int \<Rightarrow> int \<Rightarrow> int umap \<times> int \<Rightarrow> int umap \<times> int" where
  "prep_standby num_agents concact_idx = (\<lambda>(cl, count). (um_insert concact_idx (num_agents + count) cl, count + 1))"

definition prep_scatter ::
    "(nat \<Rightarrow> int) \<Rightarrow> int \<Rightarrow> int list \<Rightarrow> int \<Rightarrow> int umap \<times> int list \<times> nat \<Rightarrow> (int umap \<times> int list \<times> nat) res" where
  "prep_scatter rnd n placement concact_idx = (\<lambda>(cl, avoid, c).
     bindR (pick rnd (filter (\<lambda>i. i \<notin> set placement \<and> i \<notin> set avoid) (nodes_upto n)) c) (\<lambda>(r, c1).
       Inr (um_insert concact_idx r cl, avoid @ [r], c1)))"

definition prepare ::
    "(nat \<Rightarrow> int) \<Rightarrow> ec_base \<Rightarrow> solution \<Rightarrow> int list \<Rightarrow> string \<Rightarrow> stripe \<Rightarrow> nat \<Rightarrow> (int umap \<times> nat) res" where
  \<comment> \<open>the figures computed from \<open>log(w) / log(n - k)\<close> are not used\<close>
  "prepare rnd ec sol fail_node_ids scenario s c =
     bindR (foldR (prep_leaf (ec_n ec) (ec_w ec) (getPlacement s)) (ecLeaves (getECDAG s)) ([], fail_node_ids))
       (\<lambda>(cl, avoid).
       if scenario = ''standby''
       then Inr (fst (fold (prep_standby (agents_num sol)) (ecConcacts (getECDAG s)) (cl, 0)), c)
       else bindR (foldR (prep_scatter rnd (cluster_size sol) (getPlacement s)) (ecConcacts (getECDAG s)) (cl, avoid, c))
              (\<lambda>(cl1, _, c1). Inr (cl1, c1)))"

section \<open>Placing vertices\<close>

definition repaint :: "int \<Rightarrow> int \<Rightarrow> int umap \<times> stripe \<Rightarrow> (int umap \<times> stripe) res" where
  "repaint c idx = (\<lambda>(cl, s). bindR (changeColor idx c s) (\<lambda>s1. Inr (um_put idx c cl, s1)))"

definition blank :: "int list \<Rightarrow> int umap \<Rightarrow> stripe \<Rightarrow> (int umap \<times> stripe) res" where
  \<comment> \<open>"init information and blank solution"\<close>
  "blank idxs cl s =
     (let cl1 = fill_colors (-1) idxs cl
      in bindR (evaluateColoring (setColoring cl1 s)) (\<lambda>s1. Inr (cl1, s1)))"

text \<open>One vertex at a time; \<open>chooser\<close> gets the stripe and the colours of the children.\<close>

definition color_vertex ::
    "(stripe \<Rightarrow> int list \<Rightarrow> int \<Rightarrow> int res) \<Rightarrow> int \<Rightarrow> int umap \<times> stripe \<Rightarrow> (int umap \<times> stripe) res" where
  "color_vertex chooser idx = (\<lambda>(cl, s).
     bindR (ofOpt NullNode (getNode (getECDAG s) idx)) (\<lambda>node.
     let oldColor = um_get 0 cl idx; cl1 = um_ref 0 idx cl in
     bindR (getChildColors cl1 node) (\<lambda>childColors.
     bindR (chooser s childColors idx) (\<lambda>bestColor.
       if bestColor = oldColor then Inr (cl1, s) else repaint bestColor idx (cl1, s)))))"

text \<open>A vertex and all the parents of its first child at a time.\<close>

definition areAllNodesInLeaves :: "int list \<Rightarrow> int list \<Rightarrow> bool" where
  "areAllNodesInLeaves node_parents ecdage_leaves \<longleftrightarrow> list_all (\<lambda>p. p \<in> set ecdage_leaves) node_parents"

definition color_group ::
    "(stripe \<Rightarrow> ecnode \<Rightarrow> int list \<Rightarrow> int list \<Rightarrow> int res) \<Rightarrow> int \<Rightarrow> int umap \<times> stripe \<Rightarrow> (int umap \<times> stripe) res" where
  "color_group chooser idx = (\<lambda>(cl, s).
     bindR (ofOpt NullNode (getNode (getECDAG s) idx)) (\<lambda>node.
     let oldColor = um_get 0 cl idx; cl1 = um_ref 0 idx cl in
     if oldColor \<noteq> -1 then Inr (cl1, s)
     else bindR (getChildColors cl1 node) (\<lambda>childColors.
          bindR (vget (childNodes node) 0) (\<lambda>child.
          bindR (ofOpt NullNode (getNode (getECDAG s) child)) (\<lambda>cnode.
          bindR (chooser s node childColors (parentNodes cnode)) (\<lambda>bestColor.
            if bestColor = oldColor then Inr (cl1, s)
            else foldR (repaint bestColor) (parentNodes cnode) (cl1, s)))))))"

definition by_level :: "int list \<Rightarrow> (stripe \<Rightarrow> int list \<Rightarrow> int list \<Rightarrow> int res) \<Rightarrow>
    stripe \<Rightarrow> ecnode \<Rightarrow> int list \<Rightarrow> int list \<Rightarrow> int res" where
  \<comment> \<open>above the leaves the colours of the children, elsewhere all candidates\<close>
  "by_level cands chooser s node childColors mates =
     (if areAllNodesInLeaves (childNodes node) (ecLeaves (getECDAG s))
      then chooser s childColors mates else chooser s cands mates)"

definition topo_order :: "stripe \<Rightarrow> int list res" where
  "topo_order s = ofOpt NoReturn (genTopoIdxs (getECDAG s))"

definition SingleMLP :: "int \<Rightarrow> stripe \<Rightarrow> int umap \<Rightarrow> (int umap \<times> stripe) res" where
  "SingleMLP n s cl =
     bindR (topo_order s) (\<lambda>topoIdxs.
     bindR (blank topoIdxs cl s) (\<lambda>st.
     bindR (foldR (color_vertex (chooseColor1 n)) topoIdxs st) (\<lambda>(cl2, s2).
     bindR (evaluateColoring s2) (\<lambda>s3. Inr (cl2, s3)))))"

definition SingleMLPGroup :: "int \<Rightarrow> stripe \<Rightarrow> int umap \<Rightarrow> (int umap \<times> stripe) res" where
  "SingleMLPGroup n s cl =
     bindR (topo_order s) (\<lambda>topoIdxs.
     bindR (blank topoIdxs cl s) (\<lambda>st.
     bindR (foldR (color_group (\<lambda>s _ childColors mates. chooseColor2 n s childColors mates)) topoIdxs st) (\<lambda>(cl2, s2).
     bindR (evaluateColoring s2) (\<lambda>s3. Inr (cl2, s3)))))"

definition SingleMLPLevel :: "int \<Rightarrow> stripe \<Rightarrow> int list \<Rightarrow> int umap \<Rightarrow> (int umap \<times> stripe) res" where
  "SingleMLPLevel n s cands cl =
     bindR (topo_order s) (\<lambda>topoIdxs.
     bindR (blank topoIdxs cl s) (\<lambda>st.
     bindR (foldR (color_group (by_level cands (chooseColor2 n))) topoIdxs st) (\<lambda>(cl2, s2).
     bindR (evaluateColoring s2) (\<lambda>s3. Inr (cl2, s3)))))"

definition GloballyMLP :: "stripe \<Rightarrow> int umap \<Rightarrow> rows \<Rightarrow> (int umap \<times> stripe \<times> rows) res" where
  "GloballyMLP s cl loadTable =
     bindR (topo_order s) (\<lambda>topoIdxs.
     bindR (blank topoIdxs cl s) (\<lambda>st.
     bindR (foldR (color_vertex (\<lambda>s cc idx. chooseColor4 s cc loadTable idx)) topoIdxs st) (\<lambda>(cl2, s2).
     bindR (evalColoringGlobal s2 loadTable) (\<lambda>lt. Inr (cl2, s2, lt)))))"

definition GloballyMLP_yh :: "stripe \<Rightarrow> int list \<Rightarrow> int umap \<Rightarrow> rows \<Rightarrow> (int umap \<times> stripe \<times> rows) res" where
  "GloballyMLP_yh s itm_idx cl loadTable =
     bindR (topo_order s) (\<lambda>topoIdxs.
     bindR (blank itm_idx cl s) (\<lambda>st.
     bindR (foldR (color_vertex (\<lambda>s cc idx.
              if length cc = 1 \<and> hd cc = -1 then Inr (-1) else chooseColor_fullnode s cc loadTable idx)) topoIdxs st)
       (\<lambda>(cl2, s2).
     bindR (evalColoringGlobal s2 loadTable) (\<lambda>lt.
     bindR (evaluateColoring s2) (\<lambda>s3. Inr (cl2, s3, lt))))))"

definition GloballyMLPLevel ::
    "stripe \<Rightarrow> int list \<Rightarrow> int umap \<Rightarrow> int list \<Rightarrow> rows \<Rightarrow> (int umap \<times> stripe \<times> rows) res" where
  "GloballyMLPLevel s itm_idx cl cands loadTable =
     bindR (topo_order s) (\<lambda>topoIdxs.
     bindR (blank itm_idx cl s) (\<lambda>st.
     bindR (foldR (color_group (by_level cands (\<lambda>s cs mates. chooseColor2New s cs loadTable mates))) topoIdxs st)
       (\<lambda>(cl2, s2).
     bindR (evalColoringGlobal s2 loadTable) (\<lambda>lt.
     bindR (evaluateColoring s2) (\<lambda>s3. Inr (cl2, s3, lt))))))"

section \<open>genColoringForMultipleFailureLevelNew\<close>

definition add_repair_node :: "stripe \<Rightarrow> nat \<Rightarrow> int umap \<times> int list \<Rightarrow> (int umap \<times> int list) res" where
  "add_repair_node s i = (\<lambda>(cl, cands).
     bindR (vget (ecHeaders (getECDAG s)) (int i)) (\<lambda>h. Inr (um_ref 0 h cl, cands @ [um_get 0 cl h])))"

definition LevelNew ::
    "(nat \<Rightarrow> int) \<Rightarrow> ec_base \<Rightarrow> solution \<Rightarrow> int list \<Rightarrow> string \<Rightarrow> int \<Rightarrow> stripe \<Rightarrow> rows \<times> nat \<Rightarrow> (stripe \<times> rows \<times> nat) res" where
  "LevelNew rnd ec sol fail_node_ids scenario meth s = (\<lambda>(loadTable, c).
     bindR (guardR AssertFailed (int (length loadTable) = cluster_size sol)) (\<lambda>_.
     bindR (prepare rnd ec sol fail_node_ids scenario s c) (\<lambda>(cl, c1).
     let itm_idx = genItmIdxs (getECDAG s) in
     bindR (foldR (add_repair_node s) [0..<getFailNum s]
              (cl, filter (\<lambda>i. i \<notin> set fail_node_ids) (nodelist s))) (\<lambda>(cl1, cands).
     bindR (if meth = 1 then GloballyMLPLevel s itm_idx cl1 cands loadTable
            else GloballyMLP_yh s itm_idx cl1 loadTable) (\<lambda>(cl2, s1, lt).
     bindR (evaluateColoring (setColoring cl2 s1)) (\<lambda>s2.
       Inr (s2, lt, c1)))))))"

end
