(* ===== verification/Parallel_Correct.thy ===== *)
theory Parallel_Correct
  imports Parallel_Color
begin

text \<open>
  What the greedy colouring of theory Parallel_Color achieves: each choice is the best one for the
  real transfers of the repair, a run over a well-formed DAG never faults, leaves no vertex with
  input unplaced, uses the given nodes only, and adds the stripe's transfers to the load table.
\<close>

section \<open>Trials\<close>

definition trial :: "int \<Rightarrow> rows \<Rightarrow> ecdag \<Rightarrow> (int \<Rightarrow> int) \<Rightarrow> state" where
  \<comment> \<open>the state of the table \<open>lt\<close> with the transfers of the colouring \<open>col\<close>\<close>
  "trial n lt g col = summary (sum_rows lt (expected_rows n g col))"

definition edges :: "ecdag \<Rightarrow> int" where
  "edges g = (\<Sum>v\<in>set (node_ids g). int (length (parents_of g v)))"

definition has_room :: "rows \<Rightarrow> ecdag \<Rightarrow> bool" where
  \<comment> \<open>no count can reach \<open>INT_MAX\<close>\<close>
  "has_room lt g \<longleftrightarrow> (\<forall>x\<in>set (concat lt). 0 \<le> x \<and> x + edges g < INT_MAX) \<and> edges g < INT_MAX"

lemma edges_nonneg: "0 \<le> edges g"
  by (simp add: edges_def sum_nonneg)

lemma expected_bound: "expected g col dr k \<le> edges g"
proof -
  let ?V = "set (node_ids g)"
  let ?T = "\<lambda>v. (\<lambda>b. (v, col v, b)) ` col ` set (parents_of g v)"
  have "transfers g col \<subseteq> (\<Union>v\<in>?V. ?T v)" by (auto simp: transfers_def)
  then have "{t \<in> transfers g col. endpoint dr t = k} \<subseteq> (\<Union>v\<in>?V. ?T v)" by blast
  then have "card {t \<in> transfers g col. endpoint dr t = k} \<le> card (\<Union>v\<in>?V. ?T v)"
    by (intro card_mono) auto
  also have "\<dots> \<le> (\<Sum>v\<in>?V. card (?T v))" by (rule card_UN_le) simp
  also have "\<dots> \<le> (\<Sum>v\<in>?V. length (parents_of g v))"
  proof (rule sum_mono)
    fix v
    have "card (?T v) \<le> card (set (parents_of g v))"
      by (meson card_image_le finite_imageI finite_set order_trans)
    also have "\<dots> \<le> length (parents_of g v)" by (rule card_length)
    finally show "card (?T v) \<le> length (parents_of g v)" .
  qed
  finally have "int (card {t \<in> transfers g col. endpoint dr t = k}) \<le> int (\<Sum>v\<in>?V. length (parents_of g v))"
    by (simp only: of_nat_le_iff)
  then show ?thesis by (simp add: expected_def edges_def)
qed

lemma rows_ok_expected: "rows_ok (nat n) (expected_rows n g col)"
  by (simp add: rows_ok_def expected_rows_def list_all_iff)

lemma trial_load:
  assumes "rows_ok (nat n) lt" and "has_room lt g"
  shows "st_load (trial n lt g col) < INT_MAX"
proof -
  have cell: "x < INT_MAX" if x: "x \<in> set (concat (sum_rows lt (expected_rows n g col)))" for x
  proof -
    have "\<exists>i j. i < length lt \<and> j < 2 \<and> x = lt ! i ! j + expected_rows n g col ! i ! j"
      using x by (auto simp: sum_rows_def less_2_cases_iff)
    then obtain i j where ij: "i < length lt" "j < 2" "x = lt ! i ! j + expected_rows n g col ! i ! j" by blast
    have len: "length lt = nat n" "length (lt ! i) = 2" using assms(1) ij(1) by (auto simp: rows_ok_def list_all_length)
    have "lt ! i ! j \<in> set (lt ! i)" "lt ! i \<in> set lt" using ij len by simp_all
    then have "lt ! i ! j \<in> set (concat lt)" by auto
    moreover have "expected_rows n g col ! i ! j \<le> edges g"
      using ij(1,2) len(1) expected_bound [of g col] by (auto simp: expected_rows_def less_2_cases_iff)
    ultimately show ?thesis using assms(2) ij(3) by (force simp: has_room_def)
  qed
  have "0 < INT_MAX" by (simp add: INT_MAX_def)
  with cell show ?thesis by (simp add: trial_def summary_def)
qed

lemma fullnode_choice:
  assumes s: "ranged n s" and lt: "rows_ok (nat n) lt" "has_room lt (s_ecdag s)" and n: "0 \<le> n"
    and idx: "idx \<in> set (node_ids (s_ecdag s))" "color_of (coloring s) idx = -1" and cs: "\<And>c. c \<in> set cs \<Longrightarrow> in_range n c"
  shows "\<exists>c. chooseColor_fullnode s cs lt idx = Inr c \<and>
    is_choice (\<lambda>c. trial n lt (s_ecdag s) ((color_of (coloring s))(idx := c))) cs c"
proof -
  let ?E = "\<lambda>c. expected_rows n (s_ecdag s) ((color_of (coloring s))(idx := c))"
  have len: "int (length lt) = n" using lt(1) n by (simp add: rows_ok_def)
  show ?thesis
    unfolding chooseColor_fullnode_def len
  proof (rule choose_color_ok)
    show "isBetter2 a c b d t = Inr (isBetter a b)" for a c b d t by (rule isBetter2_eq)
    fix c assume c: "c \<in> set cs"
    have new: "in_range n c" "c \<noteq> color_of (coloring s) idx" using cs [OF c] idx(2) by (auto simp: in_range_def)
    have "evaluateChange n idx c s = Inr (?E c)"
      using evaluateChange_rows [OF _ _ idx(1) new] s by (simp add: ranged_def color_of_put)
    then show "bindR (evaluateChange n idx c s) (add_tables lt) = Inr (sum_rows lt (?E c)) \<and>
        evalTable1 (sum_rows lt (?E c)) = Inr (trial n lt (s_ecdag s) ((color_of (coloring s))(idx := c))) \<and>
        st_load (trial n lt (s_ecdag s) ((color_of (coloring s))(idx := c))) < INT_MAX"
      using add_tables_sum [OF lt(1) rows_ok_expected] trial_load [OF lt]
        evalTable1_summary [OF add_tables_sum(2) [OF lt(1) rows_ok_expected]]
      by (simp add: trial_def)
  qed
qed

lemma group_choice:
  assumes s: "ranged n s" and lt: "rows_ok (nat n) lt" "has_room lt (s_ecdag s)" and n: "0 \<le> n"
    and vs: "fresh_group s vs" and cs: "\<And>c. c \<in> set cs \<Longrightarrow> in_range n c"
  shows "\<exists>c. chooseColor2New s cs lt vs = Inr c \<and>
    is_choice (\<lambda>c. trial n lt (s_ecdag s) (place_all vs c (color_of (coloring s)))) cs c"
proof -
  let ?E = "\<lambda>c. expected_rows n (s_ecdag s) (place_all vs c (color_of (coloring s)))"
  have len: "int (length lt) = n" using lt(1) n by (simp add: rows_ok_def)
  show ?thesis
    unfolding chooseColor2New_def len
  proof (rule choose_color_ok)
    show "isBetter2 a c b d t = Inr (isBetter a b)" for a c b d t by (rule isBetter2_eq)
    fix c assume c: "c \<in> set cs"
    have "evaluateChange2 n vs c s = Inr (?E c)"
      using evaluateChange2_rows [OF _ _ vs cs [OF c]] s by (simp add: ranged_def)
    then show "bindR (evaluateChange2 n vs c s) (add_tables lt) = Inr (sum_rows lt (?E c)) \<and>
        evalTable1 (sum_rows lt (?E c)) = Inr (trial n lt (s_ecdag s) (place_all vs c (color_of (coloring s)))) \<and>
        st_load (trial n lt (s_ecdag s) (place_all vs c (color_of (coloring s)))) < INT_MAX"
      using add_tables_sum [OF lt(1) rows_ok_expected] trial_load [OF lt]
        evalTable1_summary [OF add_tables_sum(2) [OF lt(1) rows_ok_expected]]
      by (simp add: trial_def)
  qed
qed

section \<open>Runs\<close>

text \<open>What the two greedy runs share: the vertices are taken in an order in which those that a
  vertex needs come before it, and every step re-establishes an invariant on the vertices taken.\<close>

locale greedy =
  fixes step :: "int \<Rightarrow> 'st \<Rightarrow> 'st res"
    and inv :: "int set \<Rightarrow> 'st \<Rightarrow> bool"
    and verts :: "int set"
    and needs :: "int \<Rightarrow> int set"
  assumes step_law: "inv D st \<Longrightarrow> v \<in> verts - D \<Longrightarrow> needs v \<subseteq> D \<Longrightarrow>
    \<exists>st'. step v st = Inr st' \<and> inv (insert v D) st'"
begin

lemma run:
  assumes "inv D st" and "distinct vs" and "set vs \<subseteq> verts - D"
    and "\<And>us v ws. vs = us @ v # ws \<Longrightarrow> needs v \<subseteq> D \<union> set us"
  shows "\<exists>st'. foldR step vs st = Inr st' \<and> inv (D \<union> set vs) st'"
  using assms
proof (induction vs arbitrary: D st)
  case Nil
  then show ?case by simp
next
  case (Cons v vs)
  have "needs v \<subseteq> D" using Cons.prems(4) [of "[]" v vs] by simp
  moreover have "v \<in> verts - D" using Cons.prems(3) by simp
  ultimately obtain st1 where
    st1: "step v st = Inr st1" "inv (insert v D) st1" using step_law [OF Cons.prems(1)] by blast
  have "needs w \<subseteq> insert v D \<union> set us" if "vs = us @ w # ws" for us w ws
    using Cons.prems(4) [of "v # us" w ws] that by simp
  moreover have "set vs \<subseteq> verts - insert v D" using Cons.prems(2,3) by auto
  ultimately have "\<exists>st'. foldR step vs st1 = Inr st' \<and> inv (insert v D \<union> set vs) st'"
    using Cons.IH [OF st1(2)] Cons.prems(2) by simp
  then show ?case using st1(1) by simp
qed

end

text \<open>The state of a run: \<open>A\<close> are the nodes in use, \<open>itm\<close> the vertices to place, \<open>cl0\<close> the colours
  the other vertices keep.\<close>

definition setting :: "int \<Rightarrow> rows \<Rightarrow> int set \<Rightarrow> int set \<Rightarrow> stripe \<Rightarrow> int umap \<Rightarrow> bool" where
  "setting n lt A itm s0 cl0 \<longleftrightarrow> 0 \<le> n \<and> rows_ok (nat n) lt \<and> has_room lt (s_ecdag s0) \<and> (\<forall>c\<in>A. in_range n c) \<and>
     wf_ecdag (s_ecdag s0) \<and> itm \<subseteq> set (node_ids (s_ecdag s0)) \<and> itm \<inter> set (ecLeaves (s_ecdag s0)) = {} \<and>
     (\<forall>v\<in>itm. set (children_of (s_ecdag s0) v) \<subseteq> set (ecLeaves (s_ecdag s0)) \<union> itm) \<and>
     (\<forall>v\<in>set (ecLeaves (s_ecdag s0)). color_of cl0 v \<in> insert (-1) A)"

definition painted :: "int \<Rightarrow> rows \<Rightarrow> int set \<Rightarrow> int set \<Rightarrow> stripe \<Rightarrow> int umap \<Rightarrow> int umap \<times> stripe \<Rightarrow> bool" where
  "painted n lt A itm s0 cl0 = (\<lambda>(cl, s).
     setting n lt A itm s0 cl0 \<and> coloring s = cl \<and> ranged n s \<and> same_stripe s0 s \<and>
     (\<forall>v\<in>itm. color_of cl v \<in> insert (-1) A) \<and> (\<forall>v. v \<notin> itm \<longrightarrow> color_of cl v = color_of cl0 v))"

lemma paintedD:
  assumes "painted n lt A itm s0 cl0 (cl, s)"
  shows "coloring s = cl" "ranged n s" "s_ecdag s = s_ecdag s0" "colored s" "wf_ecdag (s_ecdag s0)"
    and "set (um_keys cl) = set (node_ids (s_ecdag s0))" "setting n lt A itm s0 cl0"
    and "v \<in> itm \<Longrightarrow> v \<in> set (node_ids (s_ecdag s0)) \<and> v \<notin> set (ecLeaves (s_ecdag s0))"
    and "c \<in> A \<Longrightarrow> in_range n c \<and> c \<noteq> -1"
    and "v \<in> itm \<Longrightarrow> x \<in> set (children_of (s_ecdag s0) v) \<Longrightarrow> color_of cl x \<in> insert (-1) A"
proof -
  note P = assms [unfolded painted_def split_conv]
  show "coloring s = cl" "ranged n s" "setting n lt A itm s0 cl0" using P by blast+
  show g: "s_ecdag s = s_ecdag s0" using P by (simp add: same_stripe_def)
  show "colored s" "wf_ecdag (s_ecdag s0)" "set (um_keys cl) = set (node_ids (s_ecdag s0))"
    using P g by (auto simp: ranged_def colored_def)
  have S: "itm \<subseteq> set (node_ids (s_ecdag s0))" "itm \<inter> set (ecLeaves (s_ecdag s0)) = {}"
    "\<And>v. v \<in> itm \<Longrightarrow> set (children_of (s_ecdag s0) v) \<subseteq> set (ecLeaves (s_ecdag s0)) \<union> itm"
    "\<And>v. v \<in> set (ecLeaves (s_ecdag s0)) \<Longrightarrow> color_of cl0 v \<in> insert (-1) A" "\<And>c. c \<in> A \<Longrightarrow> in_range n c"
    using P unfolding setting_def by blast+
  show "v \<in> itm \<Longrightarrow> v \<in> set (node_ids (s_ecdag s0)) \<and> v \<notin> set (ecLeaves (s_ecdag s0))" using S(1,2) by blast
  show "c \<in> A \<Longrightarrow> in_range n c \<and> c \<noteq> -1" using S(5) [of c] by (auto simp: in_range_def)
  show "color_of cl x \<in> insert (-1) A" if "v \<in> itm" "x \<in> set (children_of (s_ecdag s0) v)"
  proof (cases "x \<in> itm")
    case False
    then have "x \<in> set (ecLeaves (s_ecdag s0))" using S(3) [OF that(1)] that(2) by blast
    then show ?thesis using P False S(4) by auto
  qed (use P in blast)
qed

lemma getChildColors_set:
  assumes "set (childNodes m) \<subseteq> set (um_keys cl)"
  shows "\<exists>cs. getChildColors cl m = Inr cs \<and> set cs = color_of cl ` set (childNodes m) - {-1}"
proof -
  have "\<exists>cs. foldR (\<lambda>c ret. bindR (ofOpt OutOfRange (map_of cl c))
      (\<lambda>color. Inr (if color \<noteq> -1 \<and> color \<notin> set ret then ret @ [color] else ret))) xs acc = Inr cs \<and>
      set cs = set acc \<union> (color_of cl ` set xs - {-1})" if "set xs \<subseteq> set (um_keys cl)" for xs acc
    using that
  proof (induction xs arbitrary: acc)
    case (Cons x xs)
    then obtain c where c: "map_of cl x = Some c" using map_of_um_keys [of cl x] by auto
    then have "color_of cl x = c" by (simp add: color_of_def um_get_def)
    with Cons.IH [of "if c \<noteq> -1 \<and> c \<notin> set acc then acc @ [c] else acc"] Cons.prems c show ?case by auto
  qed simp
  from this [OF assms, of "[]"] show ?thesis by (simp add: getChildColors_def)
qed

lemma painted_node:
  assumes P: "painted n lt A itm s0 cl0 (cl, s)" and v: "v \<in> itm"
  shows "\<exists>m cs. getNode (getECDAG s) v = Some m \<and> childNodes m = children_of (s_ecdag s0) v \<and>
    um_ref 0 v cl = cl \<and> getChildColors cl m = Inr cs \<and> set cs = color_of cl ` set (children_of (s_ecdag s0) v) - {-1} \<and>
    set cs \<subseteq> A \<and> children_of (s_ecdag s0) v \<noteq> []"
proof -
  note D = paintedD [OF P]
  obtain m where m: "getNode (getECDAG s) v = Some m"
    using D(3) D(8) [OF v] getNode_iff by (auto simp: getECDAG_def)
  have rd: "childNodes m = children_of (s_ecdag s0) v"
    using m D(3) by (simp add: children_of_def getECDAG_def)
  have "set (childNodes m) \<subseteq> set (um_keys cl)"
    using dag_okD(4) [OF wf_ecdag_ok [OF D(5)], of v] by (simp add: rd D(6))
  from getChildColors_set [OF this] obtain cs where
    cs: "getChildColors cl m = Inr cs" "set cs = color_of cl ` set (children_of (s_ecdag s0) v) - {-1}" by (auto simp: rd)
  have "children_of (s_ecdag s0) v \<noteq> []" using D(5) D(8) [OF v] by (auto simp: wf_ecdag_def)
  moreover have "um_has cl v" using D(6) D(8) [OF v] by (simp add: um_has_def)
  ultimately show ?thesis using m rd cs D(10) [OF v] by (intro exI [of _ m] exI [of _ cs]) auto
qed

lemma painted_repaint:
  assumes P: "painted n lt A itm s0 cl0 (cl, s)" and v: "v \<in> itm" and c: "c \<in> A" "color_of cl v \<noteq> c"
  shows "\<exists>s'. repaint c v (cl, s) = Inr (um_put v c cl, s') \<and> painted n lt A itm s0 cl0 (um_put v c cl, s')"
proof -
  note D = paintedD [OF P]
  have "v \<in> set (node_ids (s_ecdag s))" "c \<noteq> color_of (coloring s) v" using D(1,3) D(8) [OF v] c(2) by auto
  from changeColor_ranged [OF D(2) this(1) _ this(2)] D(9) [OF c(1)] obtain s' where
    s': "changeColor v c s = Inr s'" "ranged n s'" "coloring s' = um_put v c cl" "s_ecdag s' = s_ecdag s"
    by (auto simp: D(1))
  have "same_stripe s0 s'" using P same_stripe_trans same_stripe_ops(3) [OF s'(1)] by (auto simp: painted_def)
  then have "painted n lt A itm s0 cl0 (um_put v c cl, s')"
    using P s' v c(1) by (auto simp: painted_def color_of_put)
  then show ?thesis using s'(1) by (simp add: repaint_def)
qed

section \<open>One vertex at a time\<close>

definition fed :: "ecdag \<Rightarrow> int umap \<Rightarrow> int \<Rightarrow> bool" where
  \<comment> \<open>a vertex without a node has no child with a node\<close>
  "fed g cl v \<longleftrightarrow> (color_of cl v = -1 \<longrightarrow> (\<forall>x\<in>set (children_of g v). color_of cl x = -1))"

definition by_vertex :: "int \<Rightarrow> rows \<Rightarrow> int set \<Rightarrow> int set \<Rightarrow> stripe \<Rightarrow> int umap \<Rightarrow> int set \<Rightarrow> int umap \<times> stripe \<Rightarrow> bool" where
  "by_vertex n lt A itm s0 cl0 D = (\<lambda>(cl, s). painted n lt A itm s0 cl0 (cl, s) \<and>
     (\<forall>v\<in>itm - D. color_of cl v = -1) \<and>
     (\<forall>v\<in>itm \<inter> D. fed (s_ecdag s0) cl v \<and> set (children_of (s_ecdag s0) v) \<inter> itm \<subseteq> D))"

abbreviation pick_vertex :: "rows \<Rightarrow> stripe \<Rightarrow> int list \<Rightarrow> int \<Rightarrow> int res" where
  "pick_vertex lt s cc idx \<equiv> (if length cc = 1 \<and> hd cc = -1 then Inr (-1) else chooseColor_fullnode s cc lt idx)"

lemma by_vertex_step:
  assumes I: "by_vertex n lt A itm s0 cl0 D st" and v: "v \<in> itm - D"
    and kids: "set (children_of (s_ecdag s0) v) \<inter> itm \<subseteq> D"
  shows "\<exists>st'. color_vertex (pick_vertex lt) v st = Inr st' \<and> by_vertex n lt A itm s0 cl0 (insert v D) st'"
proof -
  let ?g = "s_ecdag s0"
  obtain cl s where st: "st = (cl, s)" by (cases st)
  have P: "painted n lt A itm s0 cl0 (cl, s)" and blank: "\<And>w. w \<in> itm - D \<Longrightarrow> color_of cl w = -1"
    and did: "\<And>w. w \<in> itm \<inter> D \<Longrightarrow> fed ?g cl w \<and> set (children_of ?g w) \<inter> itm \<subseteq> D"
    using I unfolding by_vertex_def st split_conv by blast+
  have vi: "v \<in> itm" using v by simp
  note Pd = paintedD [OF P]
  obtain m cs where m: "getNode (getECDAG s) v = Some m" "um_ref 0 v cl = cl" "getChildColors cl m = Inr cs"
    "set cs = color_of cl ` set (children_of ?g v) - {-1}" "set cs \<subseteq> A"
    using painted_node [OF P vi] by blast
  have ran: "in_range n c" if "c \<in> set cs" for c using m(5) that Pd(9) by blast
  have lt: "rows_ok (nat n) lt" "has_room lt (s_ecdag s)" "0 \<le> n" using Pd(3,7) by (auto simp: setting_def)
  have idx: "v \<in> set (node_ids (s_ecdag s))" "color_of (coloring s) v = -1" using Pd(1,3) Pd(8) [OF vi] blank [OF v] by auto
  obtain c where c: "chooseColor_fullnode s cs lt v = Inr c"
    "is_choice (\<lambda>c. trial n lt (s_ecdag s) ((color_of (coloring s))(v := c))) cs c"
    using fullnode_choice [OF Pd(2) lt idx ran] by blast
  have no: "\<not> (length cs = 1 \<and> hd cs = -1)" using m(4) by (cases cs) auto
  have old: "um_get 0 cl v = -1" using blank [OF v] by (simp add: color_of_def)
  have step: "color_vertex (pick_vertex lt) v st = (if c = -1 then Inr (cl, s) else repaint c v (cl, s))"
    unfolding st color_vertex_def split_conv Let_def old m(1-3) ofOpt_Some bindR_Inr if_not_P [OF no] c(1) ..
  show ?thesis
  proof (cases "cs = []")
    case True
    then have c1: "c = -1" using c(2) by (simp add: is_choice_def)
    have "fed ?g cl v" using m(4) True by (auto simp: fed_def)
    then have "by_vertex n lt A itm s0 cl0 (insert v D) (cl, s)"
      unfolding by_vertex_def using P blank did kids by blast
    then show ?thesis using step c1 by simp
  next
    case False
    then have cA: "c \<in> A" "c \<noteq> -1" using is_choice_set [OF c(2)] m(4,5) by auto
    obtain s' where s': "repaint c v (cl, s) = Inr (um_put v c cl, s')" "painted n lt A itm s0 cl0 (um_put v c cl, s')"
      using painted_repaint [OF P vi cA(1)] blank [OF v] cA(2) by auto
    have keep: "color_of (um_put v c cl) w = (if w = v then c else color_of cl w)" for w by (simp add: color_of_put)
    have "fed ?g (um_put v c cl) w \<and> set (children_of ?g w) \<inter> itm \<subseteq> insert v D" if w: "w \<in> itm \<inter> insert v D" for w
    proof (cases "w = v")
      case True
      then show ?thesis using kids cA(2) by (auto simp: fed_def keep)
    next
      case False
      with w have "w \<in> itm \<inter> D" by blast
      from did [OF this] have "fed ?g cl w" "v \<notin> set (children_of ?g w)" "set (children_of ?g w) \<inter> itm \<subseteq> D" using v by blast+
      then show ?thesis using False by (auto simp: fed_def keep)
    qed
    moreover have "color_of (um_put v c cl) w = -1" if "w \<in> itm - insert v D" for w
      using blank [of w] that by (simp add: keep)
    ultimately have "by_vertex n lt A itm s0 cl0 (insert v D) (um_put v c cl, s')"
      using s'(2) unfolding by_vertex_def by blast
    then show ?thesis using step cA(2) s'(1) by simp
  qed
qed

interpretation vertexwise: greedy "color_vertex (pick_vertex lt)" "by_vertex n lt A itm s0 cl0" itm
  "\<lambda>v. set (children_of (s_ecdag s0) v) \<inter> itm" for n lt A itm s0 cl0
  by unfold_locales (rule by_vertex_step)

section \<open>A group at a time\<close>

definition mates :: "ecdag \<Rightarrow> int \<Rightarrow> int list" where
  "mates g v = parents_of g (hd (children_of g v))"

definition coupled :: "ecdag \<Rightarrow> int set \<Rightarrow> bool" where
  \<comment> \<open>the vertices that share a child share all of them\<close>
  "coupled g itm \<longleftrightarrow> (\<forall>v\<in>itm. set (mates g v) \<subseteq> itm \<and>
     (\<forall>p\<in>set (mates g v). set (children_of g p) = set (children_of g v)))"

lemma mates_class:
  assumes g: "wf_ecdag g" "coupled g itm" and kids: "\<forall>v\<in>itm. children_of g v \<noteq> []" and v: "v \<in> itm"
  shows "v \<in> set (mates g v)" "p \<in> set (mates g v) \<Longrightarrow> p \<in> itm \<and> set (children_of g p) = set (children_of g v)"
    and "p \<in> set (mates g v) \<Longrightarrow> set (mates g p) = set (mates g v)"
proof -
  have mirror: "p \<in> set (parents_of g x) \<longleftrightarrow> x \<in> set (children_of g p)" for p x
    using dag_mirror [OF wf_ecdag_ok [OF g(1)]] .
  show "v \<in> set (mates g v)" using kids v by (simp add: mates_def mirror)
  have same: "p \<in> itm \<and> set (children_of g p) = set (children_of g w)" if "w \<in> itm" "p \<in> set (mates g w)" for p w
    using g(2) that unfolding coupled_def by blast
  then show "p \<in> set (mates g v) \<Longrightarrow> p \<in> itm \<and> set (children_of g p) = set (children_of g v)" using v by blast
  show "set (mates g p) = set (mates g v)" if p: "p \<in> set (mates g v)"
  proof -
    note pv = same [OF v p]
    have sub: "set (mates g a) \<subseteq> set (mates g b)"
      if "a \<in> itm" "b \<in> itm" "set (children_of g a) = set (children_of g b)" for a b
    proof
      fix q assume "q \<in> set (mates g a)"
      from same [OF that(1) this] have "set (children_of g q) = set (children_of g b)" using that(3) by simp
      then show "q \<in> set (mates g b)" using kids that(2) by (simp add: mates_def mirror)
    qed
    show ?thesis using sub [of p v] sub [of v p] pv v by blast
  qed
qed

definition by_group ::
    "int \<Rightarrow> rows \<Rightarrow> int set \<Rightarrow> int set \<Rightarrow> stripe \<Rightarrow> int umap \<Rightarrow> int list \<Rightarrow> int set \<Rightarrow> int umap \<times> stripe \<Rightarrow> bool" where
  "by_group n lt A itm s0 cl0 cands D = (\<lambda>(cl, s). painted n lt A itm s0 cl0 (cl, s) \<and>
     coupled (s_ecdag s0) itm \<and> cands \<noteq> [] \<and> set cands \<subseteq> A \<and>
     (\<forall>v\<in>itm. \<forall>p\<in>set (mates (s_ecdag s0) v). color_of cl p = color_of cl v) \<and>
     (\<forall>v\<in>itm \<inter> D. color_of cl v = -1 \<longrightarrow> set (children_of (s_ecdag s0) v) \<subseteq> set (ecLeaves (s_ecdag s0)) \<and>
        (\<forall>x\<in>set (children_of (s_ecdag s0) v). color_of cl x = -1)))"

lemma repaint_all:
  assumes "painted n lt A itm s0 cl0 (cl, s)" and "set vs \<subseteq> itm" and "distinct vs" and "c \<in> A"
    and "\<And>v. v \<in> set vs \<Longrightarrow> color_of cl v \<noteq> c"
  shows "\<exists>cl' s'. foldR (repaint c) vs (cl, s) = Inr (cl', s') \<and> painted n lt A itm s0 cl0 (cl', s') \<and>
    (\<forall>w. color_of cl' w = (if w \<in> set vs then c else color_of cl w))"
  using assms
proof (induction vs arbitrary: cl s)
  case Nil
  then show ?case by simp
next
  case (Cons v vs)
  have v: "v \<in> itm" "color_of cl v \<noteq> c" "v \<notin> set vs" using Cons.prems by auto
  obtain s1 where s1: "repaint c v (cl, s) = Inr (um_put v c cl, s1)" "painted n lt A itm s0 cl0 (um_put v c cl, s1)"
    using painted_repaint [OF Cons.prems(1) v(1) Cons.prems(4) v(2)] by blast
  have "color_of (um_put v c cl) w \<noteq> c" if "w \<in> set vs" for w
    using that v(3) Cons.prems(5) [of w] by (auto simp: color_of_put)
  from Cons.IH [OF s1(2) _ _ Cons.prems(4) this] Cons.prems(2,3) obtain cl' s' where
    "foldR (repaint c) vs (um_put v c cl, s1) = Inr (cl', s')" "painted n lt A itm s0 cl0 (cl', s')"
    "\<forall>w. color_of cl' w = (if w \<in> set vs then c else color_of (um_put v c cl) w)" by auto
  then show ?case using s1(1) by (intro exI [of _ cl'] exI [of _ s']) (auto simp: color_of_put)
qed

abbreviation pick_level :: "int list \<Rightarrow> rows \<Rightarrow> stripe \<Rightarrow> ecnode \<Rightarrow> int list \<Rightarrow> int list \<Rightarrow> int res" where
  "pick_level cands lt \<equiv> by_level cands (\<lambda>s cs mates. chooseColor2New s cs lt mates)"

lemma by_group_step:
  assumes I: "by_group n lt A itm s0 cl0 cands D st" and v: "v \<in> itm - D"
  shows "\<exists>st'. color_group (pick_level cands lt) v st = Inr st' \<and> by_group n lt A itm s0 cl0 cands (insert v D) st'"
proof -
  let ?g = "s_ecdag s0"
  obtain cl s where st: "st = (cl, s)" by (cases st)
  have P: "painted n lt A itm s0 cl0 (cl, s)" and cpl: "coupled ?g itm" and cands: "cands \<noteq> []" "set cands \<subseteq> A"
    and uni: "\<And>w p. w \<in> itm \<Longrightarrow> p \<in> set (mates ?g w) \<Longrightarrow> color_of cl p = color_of cl w"
    and did: "\<And>w. w \<in> itm \<inter> D \<Longrightarrow> color_of cl w = -1 \<Longrightarrow> set (children_of ?g w) \<subseteq> set (ecLeaves ?g) \<and>
        (\<forall>x\<in>set (children_of ?g w). color_of cl x = -1)"
    using I unfolding by_group_def st split_conv by blast+
  have vi: "v \<in> itm" using v by simp
  note Pd = paintedD [OF P]
  have kids: "children_of ?g w \<noteq> []" if "w \<in> itm" for w using painted_node [OF P that] by blast
  have "\<forall>w\<in>itm. children_of ?g w \<noteq> []" using kids by blast
  note M = mates_class [OF Pd(5) cpl this]
  obtain m cs where m: "getNode (getECDAG s) v = Some m" "um_ref 0 v cl = cl" "getChildColors cl m = Inr cs"
    "set cs = color_of cl ` set (children_of ?g v) - {-1}" "set cs \<subseteq> A" "childNodes m = children_of ?g v"
    using painted_node [OF P vi] by blast
  show ?thesis
  proof (cases "color_of cl v = -1")
    case False
    then have "color_group (pick_level cands lt) v st = Inr (cl, s)"
      unfolding st color_group_def using m(1,2) by (simp add: color_of_def)
    moreover have "by_group n lt A itm s0 cl0 cands (insert v D) (cl, s)"
      unfolding by_group_def split_conv using P cpl cands uni did False by blast
    ultimately show ?thesis by blast
  next
    case True
    let ?vs = "mates ?g v" and ?cs = "if areAllNodesInLeaves (childNodes m) (ecLeaves (getECDAG s)) then cs else cands"
    have h: "hd (children_of ?g v) \<in> set (children_of ?g v)" using kids [OF vi] by simp
    then have "hd (children_of ?g v) \<in> set (node_ids ?g)" using dag_okD(4) [OF wf_ecdag_ok [OF Pd(5)]] by blast
    then obtain d where d: "getNode (getECDAG s) (hd (children_of ?g v)) = Some d"
      using Pd(3) getNode_iff by (auto simp: getECDAG_def)
    have d2: "vget (childNodes m) 0 = Inr (hd (children_of ?g v))" "parentNodes d = ?vs"
      using d kids [OF vi] m(6) Pd(3) by (simp_all add: vget_def hd_conv_nth mates_def parents_of_def getECDAG_def)
    have vs: "?vs \<noteq> []" "distinct ?vs" "set ?vs \<subseteq> itm"
      using M(1) [OF vi] M(2) [OF vi] dag_okD(3) [OF wf_ecdag_ok [OF Pd(5)]] by (auto simp: mates_def)
    have off: "color_of cl p = -1" if "p \<in> set ?vs" for p using uni [OF vi that] True by simp
    have "fresh_group s ?vs"
      unfolding fresh_group_def Pd(1,3)
      using vs off M(2) [OF vi] M(2) [OF vi, of "hd ?vs"] Pd(8) by simp
    moreover have ran: "set ?cs \<subseteq> A" using m(5) cands(2) by simp
    moreover have "rows_ok (nat n) lt" "has_room lt (s_ecdag s)" "0 \<le> n" using Pd(3,7) by (auto simp: setting_def)
    ultimately obtain c where c: "chooseColor2New s ?cs lt ?vs = Inr c"
      "is_choice (\<lambda>c. trial n lt (s_ecdag s) (place_all ?vs c (color_of (coloring s)))) ?cs c"
      using group_choice [OF Pd(2), of lt ?vs ?cs] Pd(9) by blast
    have old: "um_get 0 cl v = -1" using True by (simp add: color_of_def)
    have pl: "pick_level cands lt s m cs ?vs = Inr c" using c(1) by (simp add: by_level_def split: if_splits)
    have step: "color_group (pick_level cands lt) v st = (if c = -1 then Inr (cl, s) else foldR (repaint c) ?vs (cl, s))"
      unfolding st color_group_def split_conv Let_def old m(1-3) ofOpt_Some bindR_Inr d2 d pl by simp
    show ?thesis
    proof (cases "?cs = []")
      case True
      then have c1: "c = -1" using c(2) by (simp only: is_choice_def if_True)
      have leafy: "areAllNodesInLeaves (childNodes m) (ecLeaves (getECDAG s))" "cs = []" using True cands(1) by (simp_all split: if_splits)
      then have "set (children_of ?g v) \<subseteq> set (ecLeaves ?g)" "\<forall>x\<in>set (children_of ?g v). color_of cl x = -1"
        using m(4,6) Pd(3) by (auto simp: areAllNodesInLeaves_def list_all_iff getECDAG_def)
      then have "by_group n lt A itm s0 cl0 cands (insert v D) (cl, s)"
        unfolding by_group_def split_conv using P cpl cands uni did by blast
      then show ?thesis using step c1 by simp
    next
      case False
      then have cA: "c \<in> A" "c \<noteq> -1" using is_choice_set [OF c(2)] ran Pd(9) by blast+
      obtain cl' s' where new: "foldR (repaint c) ?vs (cl, s) = Inr (cl', s')" "painted n lt A itm s0 cl0 (cl', s')"
        "\<And>w. color_of cl' w = (if w \<in> set ?vs then c else color_of cl w)"
        using repaint_all [OF P vs(3,2) cA(1)] off cA(2) by metis
      have "color_of cl' p = color_of cl' w" if w: "w \<in> itm" and p: "p \<in> set (mates ?g w)" for w p
      proof -
        have eq: "set (mates ?g p) = set (mates ?g w)" "p \<in> itm" using M(2,3) [OF w p] by blast+
        have "p \<in> set ?vs \<longleftrightarrow> w \<in> set ?vs"
          using M(3) [OF vi, of p] M(3) [OF vi, of w] M(1) [OF w] M(1) [OF eq(2)] eq(1) by blast
        then show ?thesis using uni [OF w p] by (simp add: new(3))
      qed
      moreover have "set (children_of ?g w) \<subseteq> set (ecLeaves ?g) \<and> (\<forall>x\<in>set (children_of ?g w). color_of cl' x = -1)"
        if w: "w \<in> itm \<inter> insert v D" "color_of cl' w = -1" for w
      proof -
        have "w \<notin> set ?vs" "color_of cl w = -1" using w(2) cA(2) by (auto simp: new(3) split: if_splits)
        moreover have "w \<noteq> v" using calculation(1) M(1) [OF vi] by blast
        ultimately have old: "set (children_of ?g w) \<subseteq> set (ecLeaves ?g)" "\<forall>x\<in>set (children_of ?g w). color_of cl x = -1"
          using did [of w] w(1) by blast+
        then have "x \<notin> set ?vs" if "x \<in> set (children_of ?g w)" for x using that vs(3) Pd(8) by blast
        then show ?thesis using old by (simp add: new(3))
      qed
      ultimately have "by_group n lt A itm s0 cl0 cands (insert v D) (cl', s')"
        unfolding by_group_def split_conv using new(2) cpl cands by blast
      then show ?thesis using step cA(2) new(1) by simp
    qed
  qed
qed

interpretation groupwise: greedy "color_group (pick_level cands lt)" "by_group n lt A itm s0 cl0 cands" itm "\<lambda>_. {}"
  for n lt A itm s0 cl0 cands
  by unfold_locales (rule by_group_step)

end
