(* ===== verification/Parallel_Level.thy ===== *)
theory Parallel_Level
  imports Parallel_Correct
begin

text \<open>
  \<open>genColoringForMultipleFailureLevelNew\<close> (src/src/sol/ParallelSolution.cc) as a whole: where the
  lost blocks are rebuilt, where the rest of the DAG is computed, and what is added to the table.
\<close>

section \<open>Ready stripes\<close>

definition par_dag :: "ec_base \<Rightarrow> stripe \<Rightarrow> bool" where
  \<comment> \<open>the DAG left by \<open>refreshECDAG\<close>: the concatenations are its headers, one for each lost block\<close>
  "par_dag ec s \<longleftrightarrow> wf_ecdag (s_ecdag s) \<and> placed ec s \<and> distinct (ecConcacts (s_ecdag s)) \<and> ecConcacts (s_ecdag s) \<noteq> [] \<and>
     set (ecHeaders (s_ecdag s)) = set (ecConcacts (s_ecdag s)) \<and>
     set (ecConcacts (s_ecdag s)) \<inter> set (ecLeaves (s_ecdag s)) = {} \<and>
     length (fail_blk_idxs s) = length (ecConcacts (s_ecdag s))"

definition par_nodes :: "ec_base \<Rightarrow> solution \<Rightarrow> int list \<Rightarrow> string \<Rightarrow> stripe \<Rightarrow> bool" where
  \<comment> \<open>the stripe is on agents, what is read is not lost, and there are enough nodes to repair on\<close>
  "par_nodes ec sol fails scenario s \<longleftrightarrow>
     list_all (\<lambda>x. 0 \<le> x \<and> x < agents_num sol) (nodelist s) \<and> 0 \<le> agents_num sol \<and> agents_num sol \<le> cluster_size sol \<and>
     home ec s ` set (real_leaves ec s) \<inter> set fails = {} \<and>
     (if scenario = ''standby''
      then list_all (\<lambda>f. f < agents_num sol) fails \<and>
        agents_num sol + int (length (ecConcacts (s_ecdag s))) \<le> cluster_size sol
      else length (ecConcacts (s_ecdag s)) \<le> card ({0..<cluster_size sol} - set (nodelist s) - set fails))"

definition new_homes :: "solution \<Rightarrow> int list \<Rightarrow> stripe \<Rightarrow> int list \<Rightarrow> bool" where
  \<comment> \<open>distinct nodes for the rebuilt blocks, neither failed nor used by the stripe\<close>
  "new_homes sol fails s rs \<longleftrightarrow> length rs = length (ecConcacts (s_ecdag s)) \<and> distinct rs \<and>
     set rs \<subseteq> {0..<cluster_size sol} - set (nodelist s) - set fails"

section \<open>prepare\<close>

lemma prep_leaves:
  assumes "placed ec s" and "distinct (um_keys cl @ vs)" and "set vs \<subseteq> set (ecLeaves (s_ecdag s))"
  shows "\<exists>avoid'. foldR (prep_leaf (ec_n ec) (ec_w ec) (nodelist s)) vs (cl, avoid) =
      Inr (cl @ map (\<lambda>v. (v, home ec s v)) vs, avoid') \<and> set avoid' = set avoid \<union> home ec s ` {v \<in> set vs. v div ec_w ec < ec_n ec}"
  using assms(2,3)
proof (induction vs arbitrary: cl avoid)
  case Nil
  then show ?case by simp
next
  case (Cons v vs)
  have w: "0 < ec_w ec" and n: "nat (ec_n ec) \<le> length (nodelist s)" and pos: "0 \<le> v"
    using assms(1) Cons.prems(2) by (auto simp: placed_def list_all_iff)
  have v: "0 \<le> v div ec_w ec" using pos w by (simp add: pos_imp_zdiv_nonneg_iff)
  have new: "\<not> um_has cl v" using Cons.prems(1) by (auto simp: um_has_def)
  have idx: "nat (v div ec_w ec) < length (nodelist s)" if "v div ec_w ec < ec_n ec" using that v n by linarith
  let ?av = "if v div ec_w ec < ec_n ec \<and> home ec s v \<notin> set avoid then avoid @ [home ec s v] else avoid"
  have step: "prep_leaf (ec_n ec) (ec_w ec) (nodelist s) v (cl, avoid) = Inr (cl @ [(v, home ec s v)], ?av)"
    using pos w v new idx by (simp add: prep_leaf_def um_insert_def home_def)
  from Cons.IH [of "cl @ [(v, home ec s v)]" ?av] Cons.prems obtain avoid' where
    "foldR (prep_leaf (ec_n ec) (ec_w ec) (nodelist s)) vs (cl @ [(v, home ec s v)], ?av) =
       Inr ((cl @ [(v, home ec s v)]) @ map (\<lambda>v. (v, home ec s v)) vs, avoid')"
    "set avoid' = set ?av \<union> home ec s ` {v \<in> set vs. v div ec_w ec < ec_n ec}" by auto
  then show ?case using step by auto
qed

lemma prep_standbys:
  assumes "distinct (um_keys cl @ cs)"
  shows "fold (prep_standby m) cs (cl, k) = (cl @ zip cs (map (\<lambda>i. m + k + int i) [0..<length cs]), k + int (length cs))"
  using assms
proof (induction cs arbitrary: cl k)
  case (Cons c cs)
  have "map (\<lambda>i. m + k + int i) [0..<Suc (length cs)] = (m + k) # map (\<lambda>i. m + (k + 1) + int i) [0..<length cs]"
    by (simp add: map_upt_Suc del: upt_Suc)
  moreover have "\<not> um_has cl c" using Cons.prems by (auto simp: um_has_def)
  ultimately show ?case using Cons.IH [of "cl @ [(c, m + k)]" "k + 1"] Cons.prems
    by (simp add: prep_standby_def um_insert_def del: upt_Suc)
qed simp

lemma prep_scatters:
  assumes "distinct (um_keys cl @ cs)" and "\<And>i. 0 \<le> rnd i"
    and "length cs \<le> card ({0..<n} - set placement - set avoid)"
  shows "\<exists>rs avoid' c'. foldR (prep_scatter rnd n placement) cs (cl, avoid, c) = Inr (cl @ zip cs rs, avoid', c') \<and>
    length rs = length cs \<and> distinct rs \<and> set rs \<subseteq> {0..<n} - set placement - set avoid"
  using assms(1,3)
proof (induction cs arbitrary: cl avoid c)
  case Nil
  then show ?case by simp
next
  case (Cons v cs)
  let ?free = "{0..<n} - set placement - set avoid"
  let ?cands = "filter (\<lambda>i. i \<notin> set placement \<and> i \<notin> set avoid) (nodes_upto n)"
  have sc: "set ?cands = ?free" by (auto simp: set_nodes_upto)
  have "?free \<noteq> {}" using Cons.prems(2) by force
  then have "?cands \<noteq> []" using sc by (metis set_empty)
  from pick_ok [of ?cands rnd c, OF this assms(2)] obtain r where
    r: "pick rnd ?cands c = Inr (r, Suc c)" "r \<in> ?free" unfolding sc by blast
  have "\<not> um_has cl v" using Cons.prems(1) by (auto simp: um_has_def)
  then have step: "prep_scatter rnd n placement v (cl, avoid, c) = Inr (cl @ [(v, r)], avoid @ [r], Suc c)"
    using r(1) by (simp add: prep_scatter_def um_insert_def)
  have rest: "{0..<n} - set placement - set (avoid @ [r]) = ?free - {r}" by auto
  have "length cs \<le> card ({0..<n} - set placement - set (avoid @ [r]))"
    unfolding rest using Cons.prems(2) r(2) by simp
  from Cons.IH [OF _ this, of "cl @ [(v, r)]" "Suc c"] Cons.prems(1) obtain rs avoid' c' where
    "foldR (prep_scatter rnd n placement) cs (cl @ [(v, r)], avoid @ [r], Suc c) = Inr ((cl @ [(v, r)]) @ zip cs rs, avoid', c')"
    "length rs = length cs" "distinct rs" "set rs \<subseteq> ?free - {r}" unfolding rest by auto
  then show ?case using step r(2) by (intro exI [of _ "r # rs"] exI [of _ avoid'] exI [of _ c']) auto
qed

lemma prepare_ok:
  assumes dag: "par_dag ec s" and nodes: "par_nodes ec sol fails scenario s" and rnd: "\<And>i. 0 \<le> rnd i"
  shows "\<exists>rs c'. prepare rnd ec sol fails scenario s c =
      Inr (map (\<lambda>v. (v, home ec s v)) (ecLeaves (s_ecdag s)) @ zip (ecConcacts (s_ecdag s)) rs, c') \<and>
    new_homes sol fails s rs"
proof -
  let ?g = "s_ecdag s" and ?m = "map (\<lambda>v. (v, home ec s v)) (ecLeaves (s_ecdag s))"
  have pl: "placed ec s" "distinct (ecConcacts ?g)" "set (ecConcacts ?g) \<inter> set (ecLeaves ?g) = {}" "distinct (ecLeaves ?g)"
    using dag by (auto simp: par_dag_def wf_ecdag_def)
  obtain avoid where L: "foldR (prep_leaf (ec_n ec) (ec_w ec) (nodelist s)) (ecLeaves ?g) ([], fails) = Inr (?m, avoid)"
    "set avoid = set fails \<union> home ec s ` set (real_leaves ec s)"
    using prep_leaves [OF pl(1), of "[]" "ecLeaves ?g" fails] pl(4) by (auto simp: real_leaves_def)
  have keys: "distinct (um_keys ?m @ ecConcacts ?g)" using pl by (auto simp: um_keys_def o_def)
  have homes: "home ec s ` set (real_leaves ec s) \<subseteq> set (nodelist s)" by (rule homes_in_nodelist [OF pl(1)])
  show ?thesis
  proof (cases "scenario = ''standby''")
    case True
    let ?rs = "map (\<lambda>i. agents_num sol + int i) [0..<length (ecConcacts ?g)]"
    have N: "\<And>x. x \<in> set (nodelist s) \<Longrightarrow> 0 \<le> x \<and> x < agents_num sol" "\<And>f. f \<in> set fails \<Longrightarrow> f < agents_num sol"
      "agents_num sol + int (length (ecConcacts ?g)) \<le> cluster_size sol" "0 \<le> agents_num sol"
      using nodes True by (auto simp: par_nodes_def list_all_iff)
    have "prepare rnd ec sol fails scenario s c = Inr (?m @ zip (ecConcacts ?g) ?rs, c)"
      using L(1) prep_standbys [OF keys, of "agents_num sol" 0] True
      by (simp add: prepare_def getPlacement_def getECDAG_def)
    moreover have "new_homes sol fails s ?rs" using N by (fastforce simp: new_homes_def distinct_map inj_on_def)
    ultimately show ?thesis by blast
  next
    case False
    have "{0..<cluster_size sol} - set (nodelist s) - set avoid = {0..<cluster_size sol} - set (nodelist s) - set fails"
      using L(2) homes by auto
    with nodes False have "length (ecConcacts ?g) \<le> card ({0..<cluster_size sol} - set (nodelist s) - set avoid)"
      by (simp add: par_nodes_def)
    from prep_scatters [where rnd = rnd and c = c, OF keys rnd this] obtain rs avoid' c' where
      S: "foldR (prep_scatter rnd (cluster_size sol) (nodelist s)) (ecConcacts ?g) (?m, avoid, c) = Inr (?m @ zip (ecConcacts ?g) rs, avoid', c')"
      "length rs = length (ecConcacts ?g)" "distinct rs" "set rs \<subseteq> {0..<cluster_size sol} - set (nodelist s) - set avoid" by blast
    have "new_homes sol fails s rs" using S(2-4) L(2) by (auto simp: new_homes_def)
    moreover have "prepare rnd ec sol fails scenario s c = Inr (?m @ zip (ecConcacts ?g) rs, c')"
      using L(1) S(1) False by (simp add: prepare_def getPlacement_def getECDAG_def)
    ultimately show ?thesis by blast
  qed
qed

section \<open>The inner vertices\<close>

definition inner :: "ecdag \<Rightarrow> int set" where
  "inner g = set (node_ids g) - set (ecLeaves g) - set (ecConcacts g)"

lemma par_dag_inner:
  assumes "par_dag ec s"
  shows "set (genItmIdxs (s_ecdag s)) = inner (s_ecdag s)"
    and "set (node_ids (s_ecdag s)) = set (ecLeaves (s_ecdag s)) \<union> set (ecConcacts (s_ecdag s)) \<union> inner (s_ecdag s)"
    and "v \<in> inner (s_ecdag s) \<Longrightarrow> set (children_of (s_ecdag s) v) \<subseteq> set (ecLeaves (s_ecdag s)) \<union> inner (s_ecdag s)"
proof -
  let ?g = "s_ecdag s"
  have wf: "wf_ecdag ?g" and H: "set (ecHeaders ?g) = set (ecConcacts ?g)" using assms by (auto simp: par_dag_def)
  show "set (genItmIdxs ?g) = inner ?g" by (auto simp: genItmIdxs_def inner_def H)
  have sub: "set (ecLeaves ?g) \<subseteq> set (node_ids ?g)" "set (ecConcacts ?g) = {i \<in> set (node_ids ?g). parents_of ?g i = []}"
    using wf H by (auto simp: wf_ecdag_def)
  then show "set (node_ids ?g) = set (ecLeaves ?g) \<union> set (ecConcacts ?g) \<union> inner ?g" by (auto simp: inner_def)
  show "set (children_of ?g v) \<subseteq> set (ecLeaves ?g) \<union> inner ?g"
  proof
    fix x assume x: "x \<in> set (children_of ?g v)"
    then have "v \<in> set (parents_of ?g x)" using dag_mirror [OF wf_ecdag_ok [OF wf]] by blast
    then have "x \<notin> set (ecConcacts ?g)" unfolding sub(2) by auto
    moreover have "x \<in> set (node_ids ?g)" using x dag_okD(4) [OF wf_ecdag_ok [OF wf]] by blast
    ultimately show "x \<in> set (ecLeaves ?g) \<union> inner ?g" by (auto simp: inner_def)
  qed
qed

lemma topo_order_ok:
  assumes "wf_ecdag (s_ecdag s)"
  shows "\<exists>vs. topo_order s = Inr vs \<and> distinct vs \<and> set vs = inner (s_ecdag s) \<and>
    (\<forall>us v ws. vs = us @ v # ws \<longrightarrow> set (children_of (s_ecdag s) v) \<inter> inner (s_ecdag s) \<subseteq> set us)"
proof -
  let ?g = "s_ecdag s"
  obtain xs where xs: "genTopoIdxs ?g = Some (filter (kept ?g) xs)" "order_from ?g {} xs"
    using genTopoIdxs_returns [OF assms] by blast
  note props = order_from_props [OF xs(2)]
  have "set (children_of ?g i) \<inter> inner ?g \<subseteq> set us" if split: "filter (kept ?g) xs = us @ i # vs" for us i vs
  proof -
    from split obtain us' vs' where x: "xs = us' @ i # vs'" "us = filter (kept ?g) us'"
      by (blast dest: filter_split)
    then have "length us' < length xs" "xs ! length us' = i" "take (length us') xs = us'" by simp_all
    with props have "set (children_of ?g i) \<subseteq> set us'" by (metis Un_empty_left)
    then show ?thesis unfolding x(2) by (auto simp: kept_def inner_def)
  qed
  moreover have "set (filter (kept ?g) xs) = inner ?g" using props by (auto simp: kept_def inner_def)
  ultimately show ?thesis using xs(1) props
    by (intro exI [of _ "filter (kept ?g) xs"] conjI allI impI) (simp_all add: topo_order_def getECDAG_def)
qed

lemma blank_ok:
  assumes dag: "par_dag ec s" and cl: "um_wf cl" "set (um_keys cl) = set (ecLeaves (s_ecdag s)) \<union> set (ecConcacts (s_ecdag s))"
    and rng: "node_colors n cl" and n: "0 \<le> n" and idxs: "set idxs = inner (s_ecdag s)"
  shows "\<exists>cl1 s1. blank idxs cl s = Inr (cl1, s1) \<and> coloring s1 = cl1 \<and> ranged n s1 \<and> same_stripe s s1 \<and>
    (\<forall>v\<in>inner (s_ecdag s). color_of cl1 v = -1) \<and> (\<forall>v. v \<notin> inner (s_ecdag s) \<longrightarrow> color_of cl1 v = color_of cl v)"
proof -
  let ?cl = "fill_colors (-1) idxs cl" and ?g = "s_ecdag s"
  note I = par_dag_inner [OF dag]
  have at: "map_of ?cl v = (case map_of cl v of Some x \<Rightarrow> Some x | None \<Rightarrow> if v \<in> inner ?g then Some (-1) else None)" for v
    using fill_colors(3) [where r = "-1" and vs = idxs and cl = cl and v = v] idxs by simp
  have none: "map_of cl v = None" if "v \<in> inner ?g" for v
    using that cl(2) map_of_um_keys [of cl v] by (cases "map_of cl v") (auto simp: inner_def)
  have wf: "um_wf ?cl" "set (um_keys ?cl) = set (node_ids ?g)"
    using fill_colors(1,2) [where r = "-1" and vs = idxs and cl = cl] cl idxs I(2) by auto
  then have col: "colored (setColoring ?cl s)" using dag by (simp add: colored_def setColoring_def par_dag_def)
  have "node_colors n ?cl"
    unfolding list_all_iff
  proof
    fix item assume i: "item \<in> set ?cl"
    then have "map_of ?cl (fst item) = Some (snd item)" using wf(1) by (simp add: um_keys_def)
    then have "map_of cl (fst item) = Some (snd item) \<or> snd item = -1" unfolding at by (auto split: option.splits if_splits)
    then show "snd item = -1 \<or> in_range n (snd item)" using rng by (auto simp: list_all_iff dest!: map_of_SomeD)
  qed
  then have "node_colors n (coloring (setColoring ?cl s))" by (simp add: setColoring_def)
  from evaluateColoring_ranged [OF col this n] obtain s1 where
    s1: "evaluateColoring (setColoring ?cl s) = Inr s1" "ranged n s1" "coloring s1 = ?cl" by (auto simp: setColoring_def)
  have "same_stripe s s1" using same_stripe_trans [OF same_stripe_ops(4) same_stripe_ops(2) [OF s1(1)]] .
  moreover have "color_of ?cl v = (if v \<in> inner ?g then -1 else color_of cl v)" for v
    using at [of v] none [of v] by (auto simp: color_of_def um_get_def split: option.splits)
  ultimately show ?thesis using s1 by (intro exI [of _ ?cl] exI [of _ s1]) (simp add: blank_def)
qed

text \<open>The end of a run: the table gets the transfers of the colouring, and the stripe is recounted.\<close>

definition adds_load :: "int \<Rightarrow> rows \<Rightarrow> stripe \<Rightarrow> rows \<Rightarrow> bool" where
  "adds_load n lt s lt' \<longleftrightarrow> rows_ok (nat n) lt' \<and>
     (\<forall>dr k. vt_get lt' dr k = vt_get lt dr k + expected (s_ecdag s) (color_of (coloring s)) dr k)"

lemma run_end:
  assumes "painted n lt A itm s0 cl0 (cl, s)"
  shows "\<exists>lt' s'. evalColoringGlobal s lt = Inr lt' \<and> adds_load n lt s' lt' \<and> evaluateColoring s = Inr s' \<and>
    ranged n s' \<and> coloring s' = cl \<and> same_stripe s0 s'"
proof -
  note D = paintedD [OF assms]
  have rng: "node_colors n (coloring s)" using D(2) by (simp add: ranged_def tables_in_range_def)
  have lt: "rows_ok (nat n) lt" and n: "0 \<le> n" using D(7) by (auto simp: setting_def)
  from effectsD [OF evalColoringGlobal_effects [OF D(4) rng] lt] obtain lt' where
    lt': "evalColoringGlobal s lt = Inr lt'" "rows_ok (nat n) lt'"
      "\<And>dr k. vt_get lt' dr k = vt_get lt dr k + expected (s_ecdag s) (color_of (coloring s)) dr k" by blast
  obtain s' where s': "evaluateColoring s = Inr s'" "ranged n s'" "coloring s' = coloring s" "s_ecdag s' = s_ecdag s"
    using evaluateColoring_ranged [OF D(4) rng n] by blast
  have "same_stripe s0 s'" using assms same_stripe_trans same_stripe_ops(2) [OF s'(1)] by (auto simp: painted_def)
  then show ?thesis using lt' s' D(1) by (intro exI [of _ lt'] exI [of _ s']) (simp add: adds_load_def)
qed

section \<open>The two runs\<close>

text \<open>The colours \<open>prepare\<close> has fixed.\<close>

definition base_colors :: "ec_base \<Rightarrow> stripe \<Rightarrow> int list \<Rightarrow> int umap" where
  "base_colors ec s rs = map (\<lambda>v. (v, home ec s v)) (ecLeaves (s_ecdag s)) @ zip (ecConcacts (s_ecdag s)) rs"

definition nodes_in_use :: "int list \<Rightarrow> stripe \<Rightarrow> int list \<Rightarrow> int set" where
  "nodes_in_use fails s rs = set rs \<union> (set (nodelist s) - set fails)"

definition par_colored :: "ec_base \<Rightarrow> int list \<Rightarrow> stripe \<Rightarrow> int list \<Rightarrow> int umap \<Rightarrow> bool" where
  \<comment> \<open>the leaves at home, the rebuilt blocks at \<open>rs\<close>, the rest on nodes in use\<close>
  "par_colored ec fails s rs cl \<longleftrightarrow>
     (\<forall>i<length rs. color_of cl (ecConcacts (s_ecdag s) ! i) = rs ! i) \<and>
     (\<forall>v\<in>set (ecLeaves (s_ecdag s)). color_of cl v = home ec s v) \<and>
     (\<forall>v\<in>inner (s_ecdag s). color_of cl v \<in> insert (-1) (nodes_in_use fails s rs) \<and> fed (s_ecdag s) cl v)"

lemma base_colors_props:
  assumes dag: "par_dag ec s" and rs: "new_homes sol fails s rs"
  shows "um_wf (base_colors ec s rs)"
    and "set (um_keys (base_colors ec s rs)) = set (ecLeaves (s_ecdag s)) \<union> set (ecConcacts (s_ecdag s))"
    and "v \<in> set (ecLeaves (s_ecdag s)) \<Longrightarrow> color_of (base_colors ec s rs) v = home ec s v"
    and "i < length rs \<Longrightarrow> color_of (base_colors ec s rs) (ecConcacts (s_ecdag s) ! i) = rs ! i"
proof -
  let ?g = "s_ecdag s" and ?cl = "base_colors ec s rs"
  have d: "distinct (ecLeaves ?g)" "distinct (ecConcacts ?g)" "set (ecConcacts ?g) \<inter> set (ecLeaves ?g) = {}"
    "length rs = length (ecConcacts ?g)"
    using dag rs by (auto simp: par_dag_def wf_ecdag_def new_homes_def)
  have keys: "um_keys ?cl = ecLeaves ?g @ ecConcacts ?g"
    using d(4) by (simp add: base_colors_def um_keys_def o_def)
  show wf: "um_wf ?cl" unfolding keys using d by auto
  show "set (um_keys ?cl) = set (ecLeaves ?g) \<union> set (ecConcacts ?g)" unfolding keys by simp
  show "color_of ?cl v = home ec s v" if "v \<in> set (ecLeaves ?g)"
    unfolding color_of_def by (rule um_get_map_of [OF wf]) (use that in \<open>simp add: base_colors_def\<close>)
  show "color_of ?cl (ecConcacts ?g ! i) = rs ! i" if "i < length rs"
    unfolding color_of_def by (rule um_get_map_of [OF wf]) (use that d(4) in \<open>force simp: base_colors_def set_zip\<close>)
qed

lemma nodes_in_use_range:
  assumes "par_nodes ec sol fails scenario s" and "new_homes sol fails s rs" and "c \<in> nodes_in_use fails s rs"
  shows "in_range (cluster_size sol) c" and "c \<notin> set fails"
proof -
  have "\<And>x. x \<in> set (nodelist s) \<Longrightarrow> 0 \<le> x \<and> x < agents_num sol" "agents_num sol \<le> cluster_size sol"
    using assms(1) by (auto simp: par_nodes_def list_all_iff)
  then show "in_range (cluster_size sol) c" "c \<notin> set fails"
    using assms(2,3) by (force simp: nodes_in_use_def new_homes_def in_range_def)+
qed

lemma home_in_use:
  assumes "par_dag ec s" and "par_nodes ec sol fails scenario s" and "v \<in> set (ecLeaves (s_ecdag s))"
  shows "home ec s v \<in> insert (-1) (nodes_in_use fails s rs)"
proof (cases "v div ec_w ec < ec_n ec")
  case True
  then have v: "v \<in> set (real_leaves ec s)" using assms(3) by (simp add: real_leaves_def)
  have "placed ec s" using assms(1) by (simp add: par_dag_def)
  from homes_in_nodelist [OF this] v assms(2) show ?thesis by (auto simp: nodes_in_use_def par_nodes_def)
qed (simp add: home_def)

text \<open>What both runs start from and end in.\<close>

lemma run_start:
  assumes dag: "par_dag ec s" and nodes: "par_nodes ec sol fails scenario s" and rs: "new_homes sol fails s rs"
    and n: "n = cluster_size sol" and lt: "rows_ok (nat n) lt" "has_room lt (s_ecdag s)" and idxs: "set idxs = inner (s_ecdag s)"
  shows "\<exists>cl1 s1. blank idxs (base_colors ec s rs) s = Inr (cl1, s1) \<and>
    painted n lt (nodes_in_use fails s rs) (inner (s_ecdag s)) s cl1 (cl1, s1) \<and>
    (\<forall>v\<in>inner (s_ecdag s). color_of cl1 v = -1) \<and>
    (\<forall>v. v \<notin> inner (s_ecdag s) \<longrightarrow> color_of cl1 v = color_of (base_colors ec s rs) v)"
proof -
  let ?g = "s_ecdag s" and ?A = "nodes_in_use fails s rs" and ?cl = "base_colors ec s rs"
  note B = base_colors_props [OF dag rs]
  have len: "length rs = length (ecConcacts ?g)" using rs by (simp add: new_homes_def)
  have n0: "0 \<le> n" using nodes n by (auto simp: par_nodes_def)
  have A: "\<And>c. c \<in> ?A \<Longrightarrow> in_range n c" using nodes_in_use_range(1) [OF nodes rs] n by blast
  have "node_colors n ?cl"
    unfolding list_all_iff
  proof
    fix item assume "item \<in> set ?cl"
    then have "item \<in> (\<lambda>v. (v, home ec s v)) ` set (ecLeaves ?g) \<or> item \<in> set (zip (ecConcacts ?g) rs)"
      by (auto simp: base_colors_def)
    then consider v where "v \<in> set (ecLeaves ?g)" "snd item = home ec s v" | "snd item \<in> set rs"
      by (cases item) (auto dest: set_zip_rightD)
    then show "snd item = -1 \<or> in_range n (snd item)"
    proof cases
      case 1
      then show ?thesis using home_in_use [OF dag nodes 1(1), of rs] A by auto
    next
      case 2
      then show ?thesis using A by (simp add: nodes_in_use_def)
    qed
  qed
  from blank_ok [OF dag B(1,2) this n0 idxs] obtain cl1 s1 where
    b: "blank idxs ?cl s = Inr (cl1, s1)" "coloring s1 = cl1" "ranged n s1" "same_stripe s s1"
      "\<forall>v\<in>inner ?g. color_of cl1 v = -1" "\<forall>v. v \<notin> inner ?g \<longrightarrow> color_of cl1 v = color_of ?cl v" by blast
  have wf: "wf_ecdag ?g" using dag by (simp add: par_dag_def)
  have "color_of cl1 v \<in> insert (-1) ?A" if v: "v \<in> set (ecLeaves ?g)" for v
  proof -
    have "v \<notin> inner ?g" using v by (simp add: inner_def)
    then have "color_of cl1 v = home ec s v" using b(6) B(3) [OF v] by simp
    then show ?thesis using home_in_use [OF dag nodes v] by simp
  qed
  then have "setting n lt ?A (inner ?g) s cl1"
    unfolding setting_def using n0 lt A wf par_dag_inner(3) [OF dag] by (auto simp: inner_def)
  then have "painted n lt ?A (inner ?g) s cl1 (cl1, s1)"
    using b by (simp add: painted_def)
  with b show ?thesis by blast
qed

lemma run_result:
  assumes dag: "par_dag ec s" and rs: "new_homes sol fails s rs"
    and P: "painted n lt (nodes_in_use fails s rs) (inner (s_ecdag s)) s cl1 (cl2, s2)"
    and base: "\<forall>v. v \<notin> inner (s_ecdag s) \<longrightarrow> color_of cl1 v = color_of (base_colors ec s rs) v"
    and fed: "\<And>v. v \<in> inner (s_ecdag s) \<Longrightarrow> fed (s_ecdag s) cl2 v"
  shows "par_colored ec fails s rs cl2"
proof -
  let ?g = "s_ecdag s"
  note B = base_colors_props [OF dag rs]
  have len: "length rs = length (ecConcacts ?g)" using rs by (simp add: new_homes_def)
  have out: "color_of cl2 v = color_of (base_colors ec s rs) v" if "v \<notin> inner ?g" for v
    using P that base by (simp add: painted_def)
  show ?thesis
    unfolding par_colored_def
  proof (intro conjI allI impI ballI)
    fix i assume i: "i < length rs"
    then have "ecConcacts ?g ! i \<notin> inner ?g" using len by (simp add: inner_def)
    then show "color_of cl2 (ecConcacts ?g ! i) = rs ! i" using out B(4) [OF i] by simp
  next
    fix v assume v: "v \<in> set (ecLeaves ?g)"
    then have "v \<notin> inner ?g" by (simp add: inner_def)
    then show "color_of cl2 v = home ec s v" using out B(3) [OF v] by simp
  next
    fix v assume v: "v \<in> inner ?g"
    then show "color_of cl2 v \<in> insert (-1) (nodes_in_use fails s rs)" using P by (simp add: painted_def)
    show "fed ?g cl2 v" by (rule fed [OF v])
  qed
qed

definition placed_well :: "int \<Rightarrow> rows \<Rightarrow> ec_base \<Rightarrow> int list \<Rightarrow> stripe \<Rightarrow> int list \<Rightarrow> stripe \<Rightarrow> rows \<Rightarrow> bool" where
  "placed_well n lt ec fails s rs s' lt' \<longleftrightarrow> par_colored ec fails s rs (coloring s') \<and> ranged n s' \<and>
     same_stripe s s' \<and> adds_load n lt s' lt'"

lemma vertexwise_run:
  assumes dag: "par_dag ec s" and nodes: "par_nodes ec sol fails scenario s" and rs: "new_homes sol fails s rs"
    and n: "n = cluster_size sol" and lt: "rows_ok (nat n) lt" "has_room lt (s_ecdag s)" and idxs: "set idxs = inner (s_ecdag s)"
  shows "\<exists>cl2 s' lt'. GloballyMLP_yh s idxs (base_colors ec s rs) lt = Inr (cl2, s', lt') \<and>
    coloring s' = cl2 \<and> placed_well n lt ec fails s rs s' lt'"
proof -
  let ?g = "s_ecdag s" and ?A = "nodes_in_use fails s rs"
  obtain cl1 s1 where b: "blank idxs (base_colors ec s rs) s = Inr (cl1, s1)" "painted n lt ?A (inner ?g) s cl1 (cl1, s1)"
    "\<forall>v\<in>inner ?g. color_of cl1 v = -1" "\<forall>v. v \<notin> inner ?g \<longrightarrow> color_of cl1 v = color_of (base_colors ec s rs) v"
    using run_start [OF dag nodes rs n lt idxs] by blast
  have wf: "wf_ecdag ?g" using dag by (simp add: par_dag_def)
  obtain vs where vs: "topo_order s = Inr vs" "distinct vs" "set vs = inner ?g"
    "\<And>us v ws. vs = us @ v # ws \<Longrightarrow> set (children_of ?g v) \<inter> inner ?g \<subseteq> set us"
    using topo_order_ok [OF wf] by blast
  have "by_vertex n lt ?A (inner ?g) s cl1 {} (cl1, s1)" using b(2,3) by (simp add: by_vertex_def)
  from vertexwise.run [OF this vs(2)] vs(3,4) obtain st where
    st: "foldR (color_vertex (pick_vertex lt)) vs (cl1, s1) = Inr st" "by_vertex n lt ?A (inner ?g) s cl1 (inner ?g) st"
    by auto
  obtain cl2 s2 where e: "st = (cl2, s2)" by (cases st)
  have P: "painted n lt ?A (inner ?g) s cl1 (cl2, s2)" and fed: "\<And>v. v \<in> inner ?g \<Longrightarrow> fed ?g cl2 v"
    using st(2) unfolding e by_vertex_def split_conv by blast+
  obtain lt' s' where f: "evalColoringGlobal s2 lt = Inr lt'" "adds_load n lt s' lt'" "evaluateColoring s2 = Inr s'"
    "ranged n s'" "coloring s' = cl2" "same_stripe s s'" using run_end [OF P] by blast
  have "GloballyMLP_yh s idxs (base_colors ec s rs) lt = Inr (cl2, s', lt')"
    unfolding GloballyMLP_yh_def vs(1) b(1) bindR_Inr st(1) e split_conv f(1,3) ..
  moreover have "par_colored ec fails s rs cl2" by (rule run_result [OF dag rs P b(4) fed])
  ultimately show ?thesis using f by (auto simp: placed_well_def)
qed

lemma groupwise_run:
  assumes dag: "par_dag ec s" and nodes: "par_nodes ec sol fails scenario s" and rs: "new_homes sol fails s rs"
    and n: "n = cluster_size sol" and lt: "rows_ok (nat n) lt" "has_room lt (s_ecdag s)" and idxs: "set idxs = inner (s_ecdag s)"
    and cpl: "coupled (s_ecdag s) (inner (s_ecdag s))" and cands: "cands \<noteq> []" "set cands \<subseteq> nodes_in_use fails s rs"
  shows "\<exists>cl2 s' lt'. GloballyMLPLevel s idxs (base_colors ec s rs) cands lt = Inr (cl2, s', lt') \<and>
    coloring s' = cl2 \<and> placed_well n lt ec fails s rs s' lt'"
proof -
  let ?g = "s_ecdag s" and ?A = "nodes_in_use fails s rs"
  obtain cl1 s1 where b: "blank idxs (base_colors ec s rs) s = Inr (cl1, s1)" "painted n lt ?A (inner ?g) s cl1 (cl1, s1)"
    "\<forall>v\<in>inner ?g. color_of cl1 v = -1" "\<forall>v. v \<notin> inner ?g \<longrightarrow> color_of cl1 v = color_of (base_colors ec s rs) v"
    using run_start [OF dag nodes rs n lt idxs] by blast
  have wf: "wf_ecdag ?g" using dag by (simp add: par_dag_def)
  obtain vs where vs: "topo_order s = Inr vs" "distinct vs" "set vs = inner ?g"
    using topo_order_ok [OF wf] by blast
  have "color_of cl1 p = color_of cl1 v" if "v \<in> inner ?g" "p \<in> set (mates ?g v)" for v p
  proof -
    have "p \<in> inner ?g" using cpl that unfolding coupled_def by blast
    then show ?thesis using b(3) that(1) by simp
  qed
  then have "by_group n lt ?A (inner ?g) s cl1 cands {} (cl1, s1)" using b(2) cpl cands by (simp add: by_group_def)
  from groupwise.run [OF this vs(2)] vs(3) obtain st where
    st: "foldR (color_group (pick_level cands lt)) vs (cl1, s1) = Inr st" "by_group n lt ?A (inner ?g) s cl1 cands (inner ?g) st"
    by auto
  obtain cl2 s2 where e: "st = (cl2, s2)" by (cases st)
  have P: "painted n lt ?A (inner ?g) s cl1 (cl2, s2)" and fed: "\<And>v. v \<in> inner ?g \<Longrightarrow> fed ?g cl2 v"
    using st(2) unfolding e by_group_def split_conv fed_def by blast+
  obtain lt' s' where f: "evalColoringGlobal s2 lt = Inr lt'" "adds_load n lt s' lt'" "evaluateColoring s2 = Inr s'"
    "ranged n s'" "coloring s' = cl2" "same_stripe s s'" using run_end [OF P] by blast
  have "GloballyMLPLevel s idxs (base_colors ec s rs) cands lt = Inr (cl2, s', lt')"
    unfolding GloballyMLPLevel_def vs(1) b(1) bindR_Inr st(1) e split_conv f(1,3) ..
  moreover have "par_colored ec fails s rs cl2" by (rule run_result [OF dag rs P b(4) fed])
  ultimately show ?thesis using f by (auto simp: placed_well_def)
qed

section \<open>The whole routine\<close>

lemma add_repair_nodes:
  assumes "set (ecHeaders (s_ecdag s)) \<subseteq> set (um_keys cl)" and "k \<le> length (ecHeaders (s_ecdag s))"
  shows "foldR (add_repair_node s) [0..<k] (cl, cands) =
    Inr (cl, cands @ map (color_of cl) (take k (ecHeaders (s_ecdag s))))"
  using assms(2)
proof (induction k)
  case (Suc k)
  then have "ecHeaders (s_ecdag s) ! k \<in> set (um_keys cl)" using assms(1) by auto
  with Suc show ?case
    by (simp add: foldR_append add_repair_node_def getECDAG_def um_has_def take_Suc_conv_app_nth color_of_def)
qed simp

lemma LevelNew_ok:
  assumes dag: "par_dag ec s" and nodes: "par_nodes ec sol fails scenario s" and rnd: "\<And>i. 0 \<le> rnd i"
    and lt: "rows_ok (nat (cluster_size sol)) lt" "has_room lt (s_ecdag s)"
    and cpl: "meth = 1 \<Longrightarrow> coupled (s_ecdag s) (inner (s_ecdag s))"
  shows "\<exists>s' lt' c' rs. LevelNew rnd ec sol fails scenario meth s (lt, c) = Inr (s', lt', c') \<and>
    new_homes sol fails s rs \<and> placed_well (cluster_size sol) lt ec fails s rs s' lt'"
proof -
  let ?g = "s_ecdag s" and ?n = "cluster_size sol"
  obtain rs c' where p: "prepare rnd ec sol fails scenario s c = Inr (base_colors ec s rs, c')" "new_homes sol fails s rs"
    using prepare_ok [where rnd = rnd and c = c, OF dag nodes rnd] unfolding base_colors_def by blast
  note B = base_colors_props [OF dag p(2)]
  have H: "set (ecHeaders ?g) = set (ecConcacts ?g)" "distinct (ecHeaders ?g)" "distinct (ecConcacts ?g)"
    "getFailNum s = length (ecConcacts ?g)" "ecConcacts ?g \<noteq> []"
    using dag by (auto simp: par_dag_def wf_ecdag_def getFailNum_def)
  then have len: "length (ecHeaders ?g) = length (ecConcacts ?g)" by (metis distinct_card)
  let ?surv = "filter (\<lambda>i. i \<notin> set fails) (nodelist s)"
  let ?cands = "?surv @ map (color_of (base_colors ec s rs)) (ecHeaders ?g)"
  have add: "foldR (add_repair_node s) [0..<getFailNum s] (base_colors ec s rs, ?surv) = Inr (base_colors ec s rs, ?cands)"
    using add_repair_nodes [of s "base_colors ec s rs" "length (ecConcacts ?g)" ?surv] B(2) H(1,4) len by auto
  have "color_of (base_colors ec s rs) h \<in> set rs" if "h \<in> set (ecHeaders ?g)" for h
  proof -
    have "h \<in> set (ecConcacts ?g)" using that H(1) by simp
    then obtain i where "i < length (ecConcacts ?g)" "h = ecConcacts ?g ! i" unfolding in_set_conv_nth by blast
    then show ?thesis using B(4) [of i] p(2) by (simp add: new_homes_def)
  qed
  then have cands: "?cands \<noteq> []" "set ?cands \<subseteq> nodes_in_use fails s rs"
    using H(5) len by (auto simp: nodes_in_use_def)
  have n0: "0 \<le> ?n" using nodes by (auto simp: par_nodes_def)
  have size: "int (length lt) = ?n" using lt(1) n0 by (simp add: rows_ok_def)
  have idxs: "set (genItmIdxs ?g) = inner ?g" by (rule par_dag_inner(1) [OF dag])
  have "\<exists>cl2 s1 lt'. (if meth = 1 then GloballyMLPLevel s (genItmIdxs ?g) (base_colors ec s rs) ?cands lt
      else GloballyMLP_yh s (genItmIdxs ?g) (base_colors ec s rs) lt) = Inr (cl2, s1, lt') \<and>
      coloring s1 = cl2 \<and> placed_well ?n lt ec fails s rs s1 lt'"
  proof (cases "meth = 1")
    case True
    then show ?thesis using groupwise_run [OF dag nodes p(2) refl lt idxs cpl cands] by simp
  next
    case False
    then show ?thesis using vertexwise_run [OF dag nodes p(2) refl lt idxs] by simp
  qed
  then obtain cl2 s1 lt' where r: "(if meth = 1 then GloballyMLPLevel s (genItmIdxs ?g) (base_colors ec s rs) ?cands lt
      else GloballyMLP_yh s (genItmIdxs ?g) (base_colors ec s rs) lt) = Inr (cl2, s1, lt')"
    "coloring s1 = cl2" "placed_well ?n lt ec fails s rs s1 lt'" by blast
  have same: "setColoring cl2 s1 = s1" using r(2) by (simp add: setColoring_def)
  have rng: "colored s1" "node_colors ?n (coloring s1)"
    using r(3) by (auto simp: placed_well_def ranged_def tables_in_range_def)
  from evaluateColoring_ranged [OF rng n0] obtain s' where
    s': "evaluateColoring s1 = Inr s'" "ranged ?n s'" "coloring s' = coloring s1" "s_ecdag s' = s_ecdag s1" by blast
  have "same_stripe s s'" using r(3) same_stripe_trans same_stripe_ops(2) [OF s'(1)] by (auto simp: placed_well_def)
  then have "placed_well ?n lt ec fails s rs s' lt'"
    using r(3) s' by (simp add: placed_well_def adds_load_def)
  moreover have "LevelNew rnd ec sol fails scenario meth s (lt, c) = Inr (s', lt', c')"
    unfolding LevelNew_def split_conv size p(1) Let_def getECDAG_def add r(1) bindR_Inr same s'(1) by simp
  ultimately show ?thesis using p(2) by blast
qed

end
