(* ===== verification/Parallel_Batches.thy ===== *)
theory Parallel_Batches
  imports Parallel_Level
begin

text \<open>
  \<open>genRepairBatchesForMultipleFailureRandom\<close> and \<open>genRepairBatchesForMultipleFailureNew\<close>
  (src/src/sol/ParallelSolution.cc): the failed stripes are cut into batches, in the order of the
  list or shuffled, and each stripe of a batch is coloured against the load table of its batch.
  \<open>perm\<close> stands for the shuffle with a random device.
\<close>

section \<open>One stripe\<close>

definition par_dag_of :: "ec_base \<Rightarrow> int list \<Rightarrow> stripe \<Rightarrow> stripe res" where
  \<comment> \<open>\<open>genRepairECDAG\<close>, then \<open>refreshECDAG\<close> on its result\<close>
  "par_dag_of ec fails st =
     bindR (genRepairECDAG ec fails st) (\<lambda>st1.
     bindR (refreshECDAG (getECDAG st1)) (\<lambda>g. Inr (st1\<lparr>s_ecdag := g\<rparr>)))"

definition zero_table :: "int \<Rightarrow> rows" where
  "zero_table n = replicate (nat n) [0, 0]"

text \<open>A way to colour one stripe, given the table of the batch and the calls of \<open>rand()\<close> so far.\<close>

type_synonym table_gen = "solution \<Rightarrow> stripe \<Rightarrow> rows \<times> nat \<Rightarrow> (stripe \<times> rows \<times> nat) res"

definition random_color :: "(nat \<Rightarrow> int) \<Rightarrow> ec_base \<Rightarrow> int list \<Rightarrow> string \<Rightarrow> table_gen" where
  "random_color rnd ec fails scenario sol st = LevelNew rnd ec sol fails scenario 1 st"

definition new_color :: "(nat \<Rightarrow> int) \<Rightarrow> ec_base \<Rightarrow> int list \<Rightarrow> string \<Rightarrow> int \<Rightarrow> table_gen" where
  \<comment> \<open>both colourings are tried; the table is reset in between\<close>
  "new_color rnd ec fails scenario meth sol st = (\<lambda>(loadtable, c).
     if meth = 1
     then bindR (LevelNew rnd ec sol fails scenario 0 st (loadtable, c)) (\<lambda>(st1, _, c1).
          let load_hyper = getLoad st1; coloring_hyper = getColoring st1 in
          bindR (LevelNew rnd ec sol fails scenario 1 st1 (zero_table (cluster_size sol), c1)) (\<lambda>(st2, lt2, c2).
          if getLoad st2 > load_hyper
          then bindR (evaluateColoring (setColoring coloring_hyper st2)) (\<lambda>st3. Inr (st3, lt2, c2))
          else Inr (st2, lt2, c2)))
     else LevelNew rnd ec sol fails scenario meth st (loadtable, c))"

definition par_stripe :: "ec_base \<Rightarrow> int list \<Rightarrow> table_gen \<Rightarrow> int \<Rightarrow> int list \<times> rows \<times> solution \<Rightarrow> (int list \<times> rows \<times> solution) res" where
  \<comment> \<open>\<open>cur\<close> is \<open>cur_stripe_list\<close>\<close>
  "par_stripe ec fails gen stripeid = (\<lambda>(cur, loadtable, s).
     bindR (vget (stripe_list s) stripeid) (\<lambda>st.
     bindR (par_dag_of ec fails st) (\<lambda>st1.
     bindR (gen s st1 (loadtable, rand_count s)) (\<lambda>(st2, lt, c).
       Inr (cur @ [stripeid], lt, s\<lparr>stripe_list := (stripe_list s)[nat stripeid := st2], rand_count := c\<rparr>)))))"

section \<open>Batches in the order of the list\<close>

definition par_slot ::
    "ec_base \<Rightarrow> int list \<Rightarrow> table_gen \<Rightarrow> int \<Rightarrow> int \<Rightarrow> int list \<times> rows \<times> solution \<Rightarrow> (int list \<times> rows \<times> solution) res" where
  "par_slot ec fails gen batchid i = (\<lambda>(cur, loadtable, s).
     let stripeidx = batchid * batch_size s + i
     in if stripeidx < int (length (stripes_to_repair s))
        then bindR (vget (stripes_to_repair s) stripeidx) (\<lambda>stripeid.
             par_stripe ec fails gen stripeid (cur, loadtable, s))
        else Inr (cur, loadtable, s))"

definition par_deliver :: "int \<Rightarrow> int list \<Rightarrow> solution \<Rightarrow> solution res" where
  \<comment> \<open>queue or list is decided by \<open>_batch_request\<close>\<close>
  "par_deliver batchid cur s =
     bindR (evaluateBatch (stripe_list s) (cluster_size s) (new_RepairBatch batchid cur)) (\<lambda>b.
       Inr (deliver (batch_request s) b s))"

definition par_batch :: "ec_base \<Rightarrow> int list \<Rightarrow> table_gen \<Rightarrow> int \<Rightarrow> solution \<Rightarrow> solution res" where
  "par_batch ec fails gen batchid s =
     bindR (foldR (par_slot ec fails gen batchid) (nodes_upto (batch_size s)) ([], zero_table (cluster_size s), s))
       (\<lambda>(cur, _, s1). par_deliver batchid cur s1)"

definition par_batches :: "ec_base \<Rightarrow> int list \<Rightarrow> table_gen \<Rightarrow> solution \<Rightarrow> solution res" where
  "par_batches ec fails gen s =
     bindR (count_batches s) (\<lambda>s1. foldR (par_batch ec fails gen) (nodes_upto (num_batches s1)) s1)"

definition genRepairBatchesRandom ::
    "(nat \<Rightarrow> int) \<Rightarrow> (int list \<Rightarrow> int list) \<Rightarrow> ec_base \<Rightarrow> int list \<Rightarrow> string \<Rightarrow> solution \<Rightarrow> solution res" where
  "genRepairBatchesRandom rnd perm ec fails scenario s =
     (let s1 = filterFailedStripes fails s
      in par_batches ec fails (random_color rnd ec fails scenario)
           (s1\<lparr>stripes_to_repair := perm (stripes_to_repair s1)\<rparr>))"

definition genRepairBatchesNew ::
    "(nat \<Rightarrow> int) \<Rightarrow> ec_base \<Rightarrow> int list \<Rightarrow> string \<Rightarrow> int \<Rightarrow> solution \<Rightarrow> solution res" where
  "genRepairBatchesNew rnd ec fails scenario meth s =
     par_batches ec fails (new_color rnd ec fails scenario meth) (filterFailedStripes fails s)"

text \<open>A batch whose stripes are listed.\<close>

definition par_list_batch :: "ec_base \<Rightarrow> int list \<Rightarrow> table_gen \<Rightarrow> int \<times> int list \<Rightarrow> solution \<Rightarrow> solution res" where
  "par_list_batch ec fails gen bt s =
     bindR (foldR (par_stripe ec fails gen) (snd bt) ([], zero_table (cluster_size s), s))
       (\<lambda>(cur, _, s1). par_deliver (fst bt) cur s1)"

section \<open>Small tables\<close>

definition below :: "int \<Rightarrow> rows \<Rightarrow> int \<Rightarrow> bool" where
  \<comment> \<open>a table of \<open>n\<close> rows with cells in \<open>0..b\<close>\<close>
  "below n lt b \<longleftrightarrow> rows_ok (nat n) lt \<and> (\<forall>x\<in>set (concat lt). 0 \<le> x \<and> x \<le> b)"

lemma table_cells:
  assumes "rows_ok m t" shows "x \<in> set (concat t) \<longleftrightarrow> (\<exists>dr k. 0 \<le> k \<and> nat k < m \<and> x = vt_get t dr k)"
proof
  assume "x \<in> set (concat t)"
  then obtain i j where ij: "i < length t" "j < length (t ! i)" "x = t ! i ! j" by (auto simp: in_set_conv_nth)
  then have len: "length t = m" "length (t ! i) = 2" using assms by (auto simp: rows_ok_def list_all_length)
  have "x = vt_get t (if j = 0 then OUT else IN) (int i)" using ij len by (auto simp: vt_get_def less_2_cases_iff)
  then show "\<exists>dr k. 0 \<le> k \<and> nat k < m \<and> x = vt_get t dr k"
    using ij(1) len(1) by (intro exI [of _ "if j = 0 then OUT else IN"] exI [of _ "int i"]) simp
next
  assume "\<exists>dr k. 0 \<le> k \<and> nat k < m \<and> x = vt_get t dr k"
  then obtain dr k where k: "0 \<le> k" "nat k < m" "x = vt_get t dr k" by blast
  then have "length t = m" "length (t ! nat k) = 2" "dir_index dr < 2" "t ! nat k \<in> set t"
    using assms by (auto simp: rows_ok_def list_all_length) (cases dr; simp)
  with k show "x \<in> set (concat t)" by (auto simp: vt_get_def intro!: bexI [of _ "t ! nat k"])
qed

lemma below_zero: "0 \<le> b \<Longrightarrow> below n (zero_table n) b"
  by (auto simp: below_def zero_table_def rows_ok_def list_all_iff)

lemma below_room: "below n lt b \<Longrightarrow> edges g \<le> E \<Longrightarrow> 0 \<le> b \<Longrightarrow> b + E < INT_MAX \<Longrightarrow> has_room lt g"
  by (force simp: below_def has_room_def)

lemma below_adds:
  assumes "below n lt b" and "adds_load n lt s lt'" and "edges (s_ecdag s) \<le> E"
  shows "below n lt' (b + E)"
proof -
  have ok: "rows_ok (nat n) lt" "rows_ok (nat n) lt'" using assms(1,2) by (auto simp: below_def adds_load_def)
  have "0 \<le> x \<and> x \<le> b + E" if x: "x \<in> set (concat lt')" for x
  proof -
    obtain dr k where k: "0 \<le> k" "nat k < nat n" "x = vt_get lt' dr k" using x table_cells [OF ok(2)] by blast
    then have "vt_get lt dr k \<in> set (concat lt)" using table_cells [OF ok(1)] by blast
    then have "0 \<le> vt_get lt dr k" "vt_get lt dr k \<le> b" using assms(1) by (auto simp: below_def)
    moreover have "x = vt_get lt dr k + expected (s_ecdag s) (color_of (coloring s)) dr k" using assms(2) k(3) by (simp add: adds_load_def)
    moreover note expected_nonneg [of "s_ecdag s" "color_of (coloring s)" dr k]
      expected_bound [of "s_ecdag s" "color_of (coloring s)" dr k]
    ultimately show ?thesis using assms(3) by linarith
  qed
  with ok(2) show ?thesis by (simp add: below_def)
qed

end
