(* ===== verification/Parallel_Plan.thy ===== *)
theory Parallel_Plan
  imports Parallel_Batches
begin

text \<open>
  The batches of \<open>ParallelSolution\<close> are sound: whatever way of colouring a stripe is used, as long
  as it keeps its promise (locale \<open>table_planner\<close>), every listed stripe is planned exactly once,
  and the figures of every batch are those of its stripes.
\<close>

section \<open>The promise of a colouring\<close>

definition same_cluster :: "solution \<Rightarrow> solution \<Rightarrow> bool" where
  "same_cluster sol s \<longleftrightarrow> agents_num s = agents_num sol \<and> cluster_size s = cluster_size sol"

definition dag_ready :: "(nat \<Rightarrow> int) \<Rightarrow> ec_base \<Rightarrow> solution \<Rightarrow> int list \<Rightarrow> string \<Rightarrow> int \<Rightarrow> stripe \<Rightarrow> bool" where
  "dag_ready rnd ec sol fails scenario E st \<longleftrightarrow> (\<forall>i. 0 \<le> rnd i) \<and> par_dag ec st \<and> par_nodes ec sol fails scenario st \<and>
     coupled (s_ecdag st) (inner (s_ecdag st)) \<and> edges (s_ecdag st) \<le> E"

definition par_good :: "ec_base \<Rightarrow> solution \<Rightarrow> int list \<Rightarrow> stripe \<Rightarrow> stripe \<Rightarrow> bool" where
  \<comment> \<open>\<open>st'\<close> is the stripe \<open>st\<close> with a sound colouring and its figures\<close>
  "par_good ec sol fails st st' \<longleftrightarrow> (\<exists>rs. new_homes sol fails st rs \<and> par_colored ec fails st rs (coloring st')) \<and>
     ranged (cluster_size sol) st' \<and> same_stripe st st'"

definition par_able :: "(nat \<Rightarrow> int) \<Rightarrow> ec_base \<Rightarrow> solution \<Rightarrow> int list \<Rightarrow> string \<Rightarrow> int \<Rightarrow> stripe \<Rightarrow> bool" where
  "par_able rnd ec sol fails scenario E st \<longleftrightarrow>
     (\<exists>st1. par_dag_of ec fails st = Inr st1 \<and> dag_ready rnd ec sol fails scenario E st1)"

definition par_planned :: "ec_base \<Rightarrow> solution \<Rightarrow> int list \<Rightarrow> stripe \<Rightarrow> stripe \<Rightarrow> bool" where
  "par_planned ec sol fails st st' \<longleftrightarrow> (\<exists>st1. par_dag_of ec fails st = Inr st1 \<and> par_good ec sol fails st1 st')"

locale table_planner =
  fixes gen :: table_gen and rnd :: "nat \<Rightarrow> int" and ec :: ec_base and sol :: solution
    and fails :: "int list" and scenario :: string and E :: int
  assumes gen_law: "same_cluster sol s \<Longrightarrow> dag_ready rnd ec sol fails scenario E st \<Longrightarrow>
    below (cluster_size sol) lt b \<Longrightarrow> 0 \<le> b \<Longrightarrow> b + E < INT_MAX \<Longrightarrow>
    \<exists>st' lt' c'. gen s st (lt, c) = Inr (st', lt', c') \<and> par_good ec sol fails st st' \<and> below (cluster_size sol) lt' (b + E)"
begin

lemma stripe_ok:
  assumes "same_cluster sol s" and sid: "0 \<le> sid" "nat sid < length (stripe_list s)"
    and able: "par_able rnd ec sol fails scenario E (stripe_list s ! nat sid)"
    and lt: "below (cluster_size sol) lt b" "0 \<le> b" "b + E < INT_MAX"
  shows "\<exists>st' lt' c'. par_stripe ec fails gen sid (cur, lt, s) =
      Inr (cur @ [sid], lt', s\<lparr>stripe_list := (stripe_list s)[nat sid := st'], rand_count := c'\<rparr>) \<and>
    par_planned ec sol fails (stripe_list s ! nat sid) st' \<and> below (cluster_size sol) lt' (b + E)"
proof -
  obtain st1 where st1: "par_dag_of ec fails (stripe_list s ! nat sid) = Inr st1" "dag_ready rnd ec sol fails scenario E st1"
    using able by (auto simp: par_able_def)
  from gen_law [OF assms(1) st1(2) lt, of "rand_count s"] obtain st' lt' c' where
    "gen s st1 (lt, rand_count s) = Inr (st', lt', c')" "par_good ec sol fails st1 st'" "below (cluster_size sol) lt' (b + E)"
    by blast
  then show ?thesis using st1(1) sid by (auto simp: par_stripe_def par_planned_def)
qed

lemma stripes_ok:
  assumes "same_cluster sol s" and "distinct sids" and "pointers_ok (stripe_list s) sids"
    and "\<And>sid. sid \<in> set sids \<Longrightarrow> par_able rnd ec sol fails scenario E (stripe_list s ! nat sid)"
    and "below (cluster_size sol) lt b" "0 \<le> b" "0 \<le> E" "b + int (length sids) * E < INT_MAX"
  shows "\<exists>st c lt'. foldR (par_stripe ec fails gen) sids (cur, lt, s) =
      Inr (cur @ sids, lt', s\<lparr>stripe_list := st, rand_count := c\<rparr>) \<and>
    planned_upto (par_planned ec sol fails) (stripe_list s) sids st"
  using assms
proof (induction sids arbitrary: cur lt s b)
  case Nil
  show ?case
    by (intro exI [of _ "stripe_list s"] exI [of _ "rand_count s"] exI [of _ lt]) (simp add: planned_upto_def)
next
  case (Cons sid sids)
  have sid: "0 \<le> sid" "nat sid < length (stripe_list s)" using Cons.prems(3) by (auto simp: pointers_ok_def)
  have nn: "0 \<le> int (length sids) * E" using Cons.prems(7) by simp
  have "b + (int (length sids) + 1) * E < INT_MAX" using Cons.prems(8) by (simp add: add.commute)
  then have bE: "b + E < INT_MAX" "b + E + int (length sids) * E < INT_MAX" using nn by (simp_all add: algebra_simps)
  obtain st' lt' c' where step: "par_stripe ec fails gen sid (cur, lt, s) =
      Inr (cur @ [sid], lt', s\<lparr>stripe_list := (stripe_list s)[nat sid := st'], rand_count := c'\<rparr>)"
    "par_planned ec sol fails (stripe_list s ! nat sid) st'" "below (cluster_size sol) lt' (b + E)"
    using stripe_ok [where cur = cur, OF Cons.prems(1) sid _ Cons.prems(5,6) bE(1)] Cons.prems(4) [of sid]
    by (simp only: list.set_intros) blast
  let ?s1 = "s\<lparr>stripe_list := (stripe_list s)[nat sid := st'], rand_count := c'\<rparr>"
  have other: "stripe_list ?s1 ! nat x = stripe_list s ! nat x" if "x \<in> set sids" for x
  proof -
    have "x \<noteq> sid" "0 \<le> x" using that Cons.prems(2,3) by (auto simp: pointers_ok_def list_all_iff)
    then have "nat x \<noteq> nat sid" using sid(1) by (simp add: eq_nat_nat_iff)
    then show ?thesis by simp
  qed
  have "par_able rnd ec sol fails scenario E (stripe_list ?s1 ! nat x)" if "x \<in> set sids" for x
    unfolding other [OF that] using Cons.prems(4) [of x] that by simp
  moreover have "same_cluster sol ?s1" "pointers_ok (stripe_list ?s1) sids" "0 \<le> b + E"
    using Cons.prems by (simp_all add: same_cluster_def pointers_ok_def)
  ultimately obtain st c lt'' where IH: "foldR (par_stripe ec fails gen) sids (cur @ [sid], lt', ?s1) =
      Inr ((cur @ [sid]) @ sids, lt'', ?s1\<lparr>stripe_list := st, rand_count := c\<rparr>)"
    "planned_upto (par_planned ec sol fails) (stripe_list ?s1) sids st"
    using Cons.IH [of ?s1 lt' "b + E" "cur @ [sid]"] Cons.prems(2,7) step(3) bE(2) by auto
  have "planned_upto (par_planned ec sol fails) (stripe_list s) [sid] (stripe_list ?s1)"
    using sid step(2) by (auto simp: planned_upto_def nth_list_update)
  from planned_upto_trans [OF this IH(2)] Cons.prems(2) have
    "planned_upto (par_planned ec sol fails) (stripe_list s) (sid # sids) st" by auto
  then show ?case using step(1) IH(1) by auto
qed

lemma list_batch_ok:
  assumes "same_cluster sol s" and "distinct sids" and "pointers_ok (stripe_list s) sids"
    and "\<And>sid. sid \<in> set sids \<Longrightarrow> par_able rnd ec sol fails scenario E (stripe_list s ! nat sid)"
    and "0 \<le> E" "int (length sids) * E < INT_MAX"
  shows "\<exists>st c bt. par_list_batch ec fails gen (j, sids) s =
      Inr (deliver (batch_request s) bt (s\<lparr>stripe_list := st, rand_count := c\<rparr>)) \<and>
    evaluateBatch st (cluster_size sol) (new_RepairBatch j sids) = Inr bt \<and>
    planned_upto (par_planned ec sol fails) (stripe_list s) sids st"
proof -
  have n: "cluster_size s = cluster_size sol" using assms(1) by (simp add: same_cluster_def)
  obtain st c lt' where f: "foldR (par_stripe ec fails gen) sids ([], zero_table (cluster_size sol), s) =
      Inr (sids, lt', s\<lparr>stripe_list := st, rand_count := c\<rparr>)"
    "planned_upto (par_planned ec sol fails) (stripe_list s) sids st"
    using stripes_ok [OF assms(1-4) below_zero [of 0], of "[]"] assms(5,6) by auto
  have "length st = length (stripe_list s)" using f(2) by (simp add: planned_upto_def)
  then have "pointers_ok st (rb_stripes (new_RepairBatch j sids))"
    using assms(3) by (auto simp: pointers_ok_def list_all_iff new_RepairBatch_def)
  from evaluateBatch_ok [OF this] obtain bt where bt: "evaluateBatch st (cluster_size sol) (new_RepairBatch j sids) = Inr bt"
    by blast
  then show ?thesis using f by (intro exI [of _ st] exI [of _ c] exI [of _ bt]) (simp add: par_list_batch_def par_deliver_def n)
qed

lemma lists_ok:
  assumes "same_cluster sol s" and "distinct (concat bss)" and "pointers_ok (stripe_list s) (concat bss)"
    and "\<And>sid. sid \<in> set (concat bss) \<Longrightarrow> par_able rnd ec sol fails scenario E (stripe_list s ! nat sid)"
    and "0 \<le> E" "\<And>sids. sids \<in> set bss \<Longrightarrow> int (length sids) * E < INT_MAX"
  shows "\<exists>st c bts. foldR (par_list_batch ec fails gen) (zip (map int [0..<length bss]) bss) s =
      Inr (fold (deliver (batch_request s)) bts (s\<lparr>stripe_list := st, rand_count := c\<rparr>)) \<and> length bts = length bss \<and>
    (\<forall>j<length bss. evaluateBatch st (cluster_size sol) (new_RepairBatch (int j) (bss ! j)) = Inr (bts ! j)) \<and>
    planned_upto (par_planned ec sol fails) (stripe_list s) (concat bss) st"
  using assms(2-4,6)
proof (induction bss rule: rev_induct)
  case Nil
  show ?case
    by (intro exI [of _ "stripe_list s"] exI [of _ "rand_count s"] exI [of _ "[]"]) (simp add: planned_upto_def)
next
  case (snoc sids bss)
  let ?n = "cluster_size sol" and ?rq = "batch_request s" and ?P = "par_planned ec sol fails" and ?m = "length bss"
  obtain st c bts where IH: "foldR (par_list_batch ec fails gen) (zip (map int [0..<?m]) bss) s =
      Inr (fold (deliver ?rq) bts (s\<lparr>stripe_list := st, rand_count := c\<rparr>))" "length bts = ?m"
    "\<And>j. j < ?m \<Longrightarrow> evaluateBatch st ?n (new_RepairBatch (int j) (bss ! j)) = Inr (bts ! j)"
    "planned_upto ?P (stripe_list s) (concat bss) st"
    using snoc.IH snoc.prems by (auto simp: pointers_ok_def)
  let ?s1 = "fold (deliver ?rq) bts (s\<lparr>stripe_list := st, rand_count := c\<rparr>)"
  have s1: "stripe_list ?s1 = st" "batch_request ?s1 = ?rq" "same_cluster sol ?s1"
    using assms(1) by (simp_all add: same_cluster_def deliver_all)
  have len: "length st = length (stripe_list s)" using IH(4) by (simp add: planned_upto_def)
  have ptr: "0 \<le> x \<and> nat x < length (stripe_list s)" if "x \<in> set (concat (bss @ [sids]))" for x
    using snoc.prems(2) that unfolding pointers_ok_def list_all_iff by blast
  have same: "st ! nat x = stripe_list s ! nat x" if "x \<in> set sids" for x
  proof -
    have "x \<notin> set (concat bss)" using snoc.prems(1) that by auto
    moreover have "0 \<le> x" "nat x < length (stripe_list s)" using ptr [of x] that by auto
    ultimately show ?thesis using IH(4) by (auto simp: planned_upto_def)
  qed
  have able: "par_able rnd ec sol fails scenario E (stripe_list ?s1 ! nat x)" if "x \<in> set sids" for x
    unfolding s1(1) same [OF that] using snoc.prems(3) [of x] that by simp
  have d: "distinct sids" "pointers_ok (stripe_list ?s1) sids" "int (length sids) * E < INT_MAX"
    using snoc.prems(1,4) ptr s1(1) len by (auto simp: pointers_ok_def list_all_iff)
  obtain st2 c2 bt where B: "par_list_batch ec fails gen (int ?m, sids) ?s1 =
      Inr (deliver ?rq bt (?s1\<lparr>stripe_list := st2, rand_count := c2\<rparr>))"
    "evaluateBatch st2 ?n (new_RepairBatch (int ?m) sids) = Inr bt" "planned_upto ?P st sids st2"
    using list_batch_ok [where j = "int ?m" and sids = sids, OF s1(3) d(1,2) able assms(5) d(3)]
    unfolding s1(1,2) by blast
  have "concat bss @ sids = concat (bss @ [sids])" by simp
  moreover have "set (concat bss) \<inter> set sids = {}" using snoc.prems(1) by auto
  ultimately have pl: "planned_upto ?P (stripe_list s) (concat (bss @ [sids])) st2"
    using planned_upto_trans [OF IH(4) B(3)] by simp
  have old: "evaluateBatch st2 ?n (new_RepairBatch (int j) (bss ! j)) = Inr (bts ! j)" if j: "j < ?m" for j
  proof -
    have "evaluateBatch st2 ?n (new_RepairBatch (int j) (bss ! j)) = evaluateBatch st ?n (new_RepairBatch (int j) (bss ! j))"
    proof (rule evaluateBatch_cong)
      show "length st2 = length st" using B(3) by (simp add: planned_upto_def)
      fix p assume "p \<in> set (rb_stripes (new_RepairBatch (int j) (bss ! j)))"
      then have "p \<in> set (concat bss)" using j by (auto simp: new_RepairBatch_def)
      then have "p \<notin> set sids" "0 \<le> p" "nat p < length st" using snoc.prems(1) ptr [of p] len by auto
      then show "st2 ! nat p = st ! nat p" using B(3) by (auto simp: planned_upto_def)
    qed
    with IH(3) [OF j] show ?thesis by simp
  qed
  have "evaluateBatch st2 ?n (new_RepairBatch (int j) ((bss @ [sids]) ! j)) = Inr ((bts @ [bt]) ! j)" if "j < length (bss @ [sids])" for j
  proof (cases "j < ?m")
    case True
    then show ?thesis using old [OF True] IH(2) by (simp add: nth_append)
  next
    case False
    then have "j = ?m" using that by simp
    then show ?thesis using B(2) IH(2) by (simp add: nth_append)
  qed
  moreover have "zip (map int [0..<length (bss @ [sids])]) (bss @ [sids]) = zip (map int [0..<?m]) bss @ [(int ?m, sids)]"
    by (simp add: zip_append1)
  moreover have "fold (deliver ?rq) (bts @ [bt]) (s\<lparr>stripe_list := st2, rand_count := c2\<rparr>) =
      deliver ?rq bt (?s1\<lparr>stripe_list := st2, rand_count := c2\<rparr>)" by (simp add: deliver_commute)
  ultimately show ?case
    using IH(1,2) B(1) pl
    by (intro exI [of _ st2] exI [of _ c2] exI [of _ "bts @ [bt]"]) (simp add: foldR_append)
qed

end

section \<open>Slots and slices\<close>

lemma par_stripe_frame:
  "par_stripe ec fails gen sid (cur, lt, s) = Inr (cur', lt', s') \<Longrightarrow>
   stripes_to_repair s' = stripes_to_repair s \<and> batch_size s' = batch_size s"
  by (auto simp: par_stripe_def bindR_eq_Inr split: prod.splits)

lemma par_stripes_frame:
  "foldR (par_stripe ec fails gen) sids (cur, lt, s) = Inr (cur', lt', s') \<Longrightarrow>
   stripes_to_repair s' = stripes_to_repair s \<and> batch_size s' = batch_size s"
proof (induction sids arbitrary: cur lt s)
  case (Cons sid sids)
  then obtain cur1 lt1 s1 where "par_stripe ec fails gen sid (cur, lt, s) = Inr (cur1, lt1, s1)"
    "foldR (par_stripe ec fails gen) sids (cur1, lt1, s1) = Inr (cur', lt', s')"
    by (auto simp: bindR_eq_Inr)
  with Cons.IH [of cur1 lt1 s1] par_stripe_frame [of ec fails gen sid cur lt s cur1 lt1 s1] show ?case by simp
qed simp

text \<open>The index loop of a batch walks its slice of the list.\<close>

lemma par_slots_list:
  fixes b k bs :: nat
  assumes bs: "batch_size s = int bs" and xs: "stripes_to_repair s = xs"
  shows "foldR (par_slot ec fails gen (int b)) (nodes_upto (int k)) (cur, lt, s) =
    foldR (par_stripe ec fails gen) (take k (drop (b * bs) xs)) (cur, lt, s)"
proof (induction k)
  case 0
  show ?case by (simp add: nodes_upto_def)
next
  case (Suc k)
  let ?i = "b * bs + k"
  have slot: "par_slot ec fails gen (int b) (int k) st =
      (if ?i < length xs then par_stripe ec fails gen (xs ! ?i) st else Inr st)"
    if "stripes_to_repair (snd (snd st)) = xs" "batch_size (snd (snd st)) = int bs" for st
  proof -
    obtain cur' lt' s' where st: "st = (cur', lt', s')" by (cases st)
    have idx: "int b * batch_size s' + int k = int ?i" using that(2) by (simp add: st)
    have r: "stripes_to_repair s' = xs" using that(1) by (simp add: st)
    show ?thesis
    proof (cases "?i < length xs")
      case True
      then have "vget xs (int ?i) = Inr (xs ! ?i)" by (simp only: vget_def of_nat_0_le_iff nat_int simp_thms if_True)
      with True show ?thesis
        unfolding st par_slot_def split_conv Let_def idx r of_nat_less_iff by (simp only: if_True bindR_Inr)
    next
      case False
      then show ?thesis
        unfolding st par_slot_def split_conv Let_def idx r of_nat_less_iff by (simp only: if_False)
    qed
  qed
  have "foldR (par_slot ec fails gen (int b)) (nodes_upto (int (Suc k))) (cur, lt, s) =
      bindR (foldR (par_stripe ec fails gen) (take k (drop (b * bs) xs)) (cur, lt, s)) (par_slot ec fails gen (int b) (int k))"
    unfolding nodes_upto_Suc foldR_append Suc by (simp add: bindR_def split: sum.splits)
  also have "\<dots> = bindR (foldR (par_stripe ec fails gen) (take k (drop (b * bs) xs)) (cur, lt, s))
      (\<lambda>st. if ?i < length xs then par_stripe ec fails gen (xs ! ?i) st else Inr st)"
    using slot par_stripes_frame [where ?cur = cur and ?lt = lt and ?s = s] bs xs
    by (auto simp: bindR_def split: sum.splits)
  also have "\<dots> = foldR (par_stripe ec fails gen) (take (Suc k) (drop (b * bs) xs)) (cur, lt, s)"
  proof (cases "?i < length xs")
    case True
    then show ?thesis by (simp add: take_Suc_slice foldR_append bindR_def split: sum.splits)
  next
    case False
    then have "take (Suc k) (drop (b * bs) xs) = take k (drop (b * bs) xs)" by simp
    then show ?thesis using False by (simp add: bindR_def split: sum.splits)
  qed
  finally show ?case .
qed

lemma par_batch_list:
  assumes "batch_size s = int bs" and "stripes_to_repair s = xs"
  shows "par_batch ec fails gen (int b) s = par_list_batch ec fails gen (int b, slice bs xs b) s"
  unfolding par_batch_def par_list_batch_def assms(1) slice_def fst_conv snd_conv
    par_slots_list [OF assms] ..

end
