(* ===== verification/Parallel.thy ===== *)
theory Parallel
  imports Parallel_Plan
begin

text \<open>
  The planners of \<open>ParallelSolution\<close> keep the promise of locale \<open>table_planner\<close>, and so plan every
  failed stripe exactly once.
\<close>

section \<open>The colourings keep the promise\<close>

lemma LevelNew_cluster:
  assumes "same_cluster sol s" shows "LevelNew rnd ec s = LevelNew rnd ec sol"
proof -
  have eq: "agents_num s = agents_num sol" "cluster_size s = cluster_size sol" using assms by (simp_all add: same_cluster_def)
  show ?thesis by (intro ext) (simp only: LevelNew_def prepare_def eq)
qed

lemma same_stripe_sym: "same_stripe s t \<Longrightarrow> same_stripe t s"
  by (simp add: same_stripe_def)

lemma dag_ready_same:
  assumes "same_stripe s t" shows "dag_ready rnd ec sol fails scenario E t = dag_ready rnd ec sol fails scenario E s"
proof -
  have "nodelist t = nodelist s" "s_ecdag t = s_ecdag s" "fail_blk_idxs t = fail_blk_idxs s"
    using assms by (simp_all add: same_stripe_def)
  then show ?thesis
    by (simp add: dag_ready_def par_dag_def par_nodes_def placed_def home_def [abs_def] real_leaves_def)
qed

lemma par_good_same:
  assumes "same_stripe s t" and "par_good ec sol fails t st'" shows "par_good ec sol fails s st'"
proof -
  have eq: "nodelist t = nodelist s" "s_ecdag t = s_ecdag s" using assms(1) by (simp_all add: same_stripe_def)
  obtain rs where rs: "new_homes sol fails t rs" "par_colored ec fails t rs (coloring st')" "ranged (cluster_size sol) st'"
    "same_stripe t st'" using assms(2) by (auto simp: par_good_def)
  have "new_homes sol fails s rs" using rs(1) by (simp add: new_homes_def eq)
  moreover have "par_colored ec fails s rs (coloring st')"
    using rs(2) by (simp add: par_colored_def nodes_in_use_def home_def [abs_def] eq)
  moreover have "same_stripe s st'" by (rule same_stripe_trans [OF assms(1) rs(4)])
  ultimately show ?thesis using rs(3) by (auto simp: par_good_def)
qed

lemma level_law:
  assumes "same_cluster sol s" and "dag_ready rnd ec sol fails scenario E st"
    and lt: "below (cluster_size sol) lt b" "0 \<le> b" "b + E < INT_MAX"
  shows "\<exists>st' lt' c'. LevelNew rnd ec s fails scenario meth st (lt, c) = Inr (st', lt', c') \<and>
    par_good ec sol fails st st' \<and> below (cluster_size sol) lt' (b + E)"
proof -
  have R: "par_dag ec st" "par_nodes ec sol fails scenario st" "\<And>i. 0 \<le> rnd i"
    "coupled (s_ecdag st) (inner (s_ecdag st))" "edges (s_ecdag st) \<le> E"
    using assms(2) by (auto simp: dag_ready_def)
  have "rows_ok (nat (cluster_size sol)) lt" using lt(1) by (simp add: below_def)
  from LevelNew_ok [where rnd = rnd and c = c and meth = meth, OF R(1-3) this below_room [OF lt(1) R(5) lt(2,3)] R(4)]
  obtain st' lt' c' rs where L: "LevelNew rnd ec sol fails scenario meth st (lt, c) = Inr (st', lt', c')"
    "new_homes sol fails st rs" "placed_well (cluster_size sol) lt ec fails st rs st' lt'" by blast
  have "edges (s_ecdag st') \<le> E" using L(3) R(5) by (simp add: placed_well_def same_stripe_def)
  then have "below (cluster_size sol) lt' (b + E)"
    using below_adds [OF lt(1)] L(3) unfolding placed_well_def by blast
  moreover have "par_good ec sol fails st st'" using L(2,3) by (auto simp: par_good_def placed_well_def)
  ultimately show ?thesis using L(1) LevelNew_cluster [OF assms(1)] by auto
qed

interpretation random_plan: table_planner "random_color rnd ec fails scenario" rnd ec sol fails scenario E
  for rnd ec sol fails scenario E
  by unfold_locales (simp only: random_color_def, rule level_law)

lemma recolor_hyper:
  assumes "par_good ec sol fails st st1" and s2: "same_stripe st1 st2" and "0 \<le> cluster_size sol"
  shows "\<exists>st3. evaluateColoring (setColoring (getColoring st1) st2) = Inr st3 \<and> par_good ec sol fails st st3"
proof -
  have s1: "ranged (cluster_size sol) st1" "same_stripe st st1" using assms(1) by (simp_all add: par_good_def)
  let ?s = "setColoring (getColoring st1) st2"
  have "colored ?s" "node_colors (cluster_size sol) (coloring ?s)"
    using s1(1) s2 by (auto simp: setColoring_def getColoring_def colored_def ranged_def same_stripe_def tables_in_range_def)
  from evaluateColoring_ranged [OF this assms(3)] obtain st3 where
    st3: "evaluateColoring ?s = Inr st3" "ranged (cluster_size sol) st3" "coloring st3 = coloring ?s" by blast
  have "same_stripe st st3"
    using same_stripe_trans [OF same_stripe_trans [OF s1(2) s2] same_stripe_trans [OF same_stripe_ops(4) same_stripe_ops(2) [OF st3(1)]]] .
  moreover have "coloring st3 = coloring st1" using st3(3) by (simp add: setColoring_def getColoring_def)
  ultimately show ?thesis using assms(1) st3 by (auto simp: par_good_def)
qed

lemma new_color_law:
  assumes cl: "same_cluster sol s" and rd: "dag_ready rnd ec sol fails scenario E st"
    and lt: "below (cluster_size sol) lt b" "0 \<le> b" "b + E < INT_MAX"
  shows "\<exists>st' lt' c'. new_color rnd ec fails scenario meth s st (lt, c) = Inr (st', lt', c') \<and>
    par_good ec sol fails st st' \<and> below (cluster_size sol) lt' (b + E)"
proof (cases "meth = 1")
  case False
  then show ?thesis using level_law [OF assms] by (simp add: new_color_def)
next
  case True
  let ?n = "cluster_size sol"
  have n: "cluster_size s = ?n" using cl by (simp add: same_cluster_def)
  have n0: "0 \<le> ?n" using rd by (auto simp: dag_ready_def par_nodes_def)
  have E: "0 \<le> E" using rd edges_nonneg [of "s_ecdag st"] by (simp add: dag_ready_def)
  obtain st1 lt1 c1 where L1: "LevelNew rnd ec s fails scenario 0 st (lt, c) = Inr (st1, lt1, c1)"
    "par_good ec sol fails st st1" using level_law [OF assms] by blast
  have same: "same_stripe st st1" using L1(2) by (simp add: par_good_def)
  then have rd1: "dag_ready rnd ec sol fails scenario E st1" using rd dag_ready_same by blast
  have "below ?n (zero_table ?n) 0" "0 + E < INT_MAX" using below_zero [of 0] lt(2,3) by auto
  from level_law [OF cl rd1 this(1) order_refl this(2)] obtain st2 lt2 c2 where
    L2: "LevelNew rnd ec s fails scenario 1 st1 (zero_table ?n, c1) = Inr (st2, lt2, c2)" "par_good ec sol fails st1 st2"
      "below ?n lt2 (0 + E)" by blast
  have small: "below ?n lt2 (b + E)" using L2(3) lt(2) by (force simp: below_def)
  obtain st3 where st3: "evaluateColoring (setColoring (getColoring st1) st2) = Inr st3" "par_good ec sol fails st st3"
    using recolor_hyper [OF L1(2) _ n0, of st2] L2(2) unfolding par_good_def by blast
  have "new_color rnd ec fails scenario meth s st (lt, c) =
      Inr (if getLoad st2 > getLoad st1 then st3 else st2, lt2, c2)"
    using True L1(1) L2(1) st3(1) by (simp add: new_color_def n)
  moreover have "par_good ec sol fails st st2" by (rule par_good_same [OF same L2(2)])
  ultimately show ?thesis using st3(2) small by auto
qed

interpretation new_plan: table_planner "new_color rnd ec fails scenario meth" rnd ec sol fails scenario E
  for rnd ec fails scenario meth sol E
  by unfold_locales (rule new_color_law)

section \<open>Batches cut from a list\<close>

lemma par_list_batch_frame:
  assumes "par_list_batch ec fails gen bt s = Inr s'"
  shows "stripes_to_repair s' = stripes_to_repair s" "batch_size s' = batch_size s"
proof -
  obtain cur lt s1 where f: "foldR (par_stripe ec fails gen) (snd bt) ([], zero_table (cluster_size s), s) = Inr (cur, lt, s1)"
    "par_deliver (fst bt) cur s1 = Inr s'"
    using assms by (auto simp: par_list_batch_def bindR_eq_Inr)
  have "stripes_to_repair s' = stripes_to_repair s1" "batch_size s' = batch_size s1"
    using f(2) by (auto simp: par_deliver_def deliver_def bindR_eq_Inr split: if_splits)
  then show "stripes_to_repair s' = stripes_to_repair s" "batch_size s' = batch_size s"
    using par_stripes_frame [OF f(1)] by simp_all
qed

lemma foldR_one: "foldR f [x] s = f x s"
  by (cases "f x s") simp_all

lemma bindR_cong: "r = r' \<Longrightarrow> (\<And>a. r = Inr a \<Longrightarrow> f a = g a) \<Longrightarrow> bindR r f = bindR r' g"
  by (cases r) auto

lemma par_loop_lists:
  assumes "batch_size s = int bs" and "stripes_to_repair s = xs"
  shows "foldR (par_batch ec fails gen) (nodes_upto (int m)) s =
      foldR (par_list_batch ec fails gen) (zip (map int [0..<m]) (map (slice bs xs) [0..<m])) s \<and>
    (\<forall>s'. foldR (par_batch ec fails gen) (nodes_upto (int m)) s = Inr s' \<longrightarrow> batch_size s' = int bs \<and> stripes_to_repair s' = xs)"
proof (induction m)
  case 0
  then show ?case using assms by (simp add: nodes_upto_def)
next
  case (Suc m)
  let ?f = "foldR (par_batch ec fails gen) (nodes_upto (int m)) s"
  have z: "zip (map int [0..<Suc m]) (map (slice bs xs) [0..<Suc m]) =
      zip (map int [0..<m]) (map (slice bs xs) [0..<m]) @ [(int m, slice bs xs m)]" by (simp add: zip_append1)
  have last: "foldR (par_batch ec fails gen) [int m] s' = foldR (par_list_batch ec fails gen) [(int m, slice bs xs m)] s'"
    if "?f = Inr s'" for s'
    using par_batch_list [of s' bs xs ec fails gen m] Suc that unfolding foldR_one by simp
  have eq: "foldR (par_batch ec fails gen) (nodes_upto (int (Suc m))) s = bindR ?f (foldR (par_batch ec fails gen) [int m])"
    unfolding nodes_upto_Suc foldR_append ..
  have "bindR ?f (foldR (par_batch ec fails gen) [int m]) =
      foldR (par_list_batch ec fails gen) (zip (map int [0..<Suc m]) (map (slice bs xs) [0..<Suc m])) s"
    unfolding z foldR_append using Suc last by (intro bindR_cong) blast+
  moreover have "batch_size s' = int bs \<and> stripes_to_repair s' = xs"
    if r: "bindR ?f (foldR (par_batch ec fails gen) [int m]) = Inr s'" for s'
  proof -
    obtain s1 where s1: "?f = Inr s1" "foldR (par_batch ec fails gen) [int m] s1 = Inr s'"
      using r unfolding bindR_eq_Inr by blast
    then have "par_list_batch ec fails gen (int m, slice bs xs m) s1 = Inr s'" using last [OF s1(1)] unfolding foldR_one by simp
    from par_list_batch_frame [OF this] Suc s1(1) show ?thesis by simp
  qed
  ultimately show ?case unfolding eq by simp
qed

context table_planner
begin

lemma lists_good:
  assumes cl: "same_cluster sol s" and "distinct (concat bss)" and "pointers_ok (stripe_list s) (concat bss)"
    and "\<And>sid. sid \<in> set (concat bss) \<Longrightarrow> par_able rnd ec sol fails scenario E (stripe_list s ! nat sid)"
    and E: "0 \<le> E" "int bs * E < INT_MAX" and sizes: "\<And>sids. sids \<in> set bss \<Longrightarrow> sids \<noteq> [] \<and> length sids \<le> bs"
  shows "\<exists>s' bts. foldR (par_list_batch ec fails gen) (zip (map int [0..<length bss]) bss) s = Inr s' \<and>
    batch_queue s' = (if batch_request s then batch_queue s @ bts else batch_queue s) \<and>
    batch_list s' = (if batch_request s then batch_list s else batch_list s @ bts) \<and>
    map rb_stripes bts = bss \<and> batches_ok (stripe_list s') (cluster_size s) bs bts \<and>
    planned_upto (par_planned ec sol fails) (stripe_list s) (concat bss) (stripe_list s') \<and>
    finish_gen_batches s' = finish_gen_batches s"
proof -
  let ?n = "cluster_size sol"
  have n: "cluster_size s = ?n" using cl by (simp add: same_cluster_def)
  have small: "int (length sids) * E < INT_MAX" if "sids \<in> set bss" for sids
  proof -
    have "int (length sids) * E \<le> int bs * E" using E(1) sizes [OF that] by (simp add: mult_right_mono)
    with E(2) show ?thesis by linarith
  qed
  from lists_ok [OF assms(1-4) E(1) small] obtain st c bts where
    L: "foldR (par_list_batch ec fails gen) (zip (map int [0..<length bss]) bss) s =
      Inr (fold (deliver (batch_request s)) bts (s\<lparr>stripe_list := st, rand_count := c\<rparr>))" "length bts = length bss"
    "\<And>j. j < length bss \<Longrightarrow> evaluateBatch st ?n (new_RepairBatch (int j) (bss ! j)) = Inr (bts ! j)"
    "planned_upto (par_planned ec sol fails) (stripe_list s) (concat bss) st"
    by auto
  have one: "rb_id (bts ! j) = int j" "rb_stripes (bts ! j) = bss ! j" if "j < length bss" for j
    using evaluateBatch_frame [OF L(3) [OF that]] by (simp_all add: new_RepairBatch_def)
  have "map rb_stripes bts = bss" by (rule nth_equalityI) (use L(2) one in simp_all)
  moreover have "batches_ok st ?n bs bts"
    unfolding batches_ok_def
  proof (intro allI impI)
    fix j assume "j < length bts"
    then have j: "j < length bss" using L(2) by simp
    then show "rb_id (bts ! j) = int j \<and> rb_stripes (bts ! j) \<noteq> [] \<and> length (rb_stripes (bts ! j)) \<le> bs \<and>
        evaluateBatch st ?n (new_RepairBatch (int j) (rb_stripes (bts ! j))) = Inr (bts ! j)"
      using sizes [OF nth_mem [OF j]] L(3) [OF j] by (simp add: one [OF j])
  qed
  ultimately show ?thesis using L(1,4) by (auto simp: deliver_all n)
qed

lemma batches_good:
  assumes cl: "same_cluster sol s" and bs: "batch_size s = int bs" "0 < bs" "bs < 2 ^ 31"
    and xs: "stripes_to_repair s = xs" "distinct xs" "pointers_ok (stripe_list s) xs"
    and able: "\<And>sid. sid \<in> set xs \<Longrightarrow> par_able rnd ec sol fails scenario E (stripe_list s ! nat sid)"
    and E: "0 \<le> E" "int bs * E < INT_MAX"
  shows "\<exists>s' bts. par_batches ec fails gen s = Inr s' \<and>
    batch_queue s' = (if batch_request s then batch_queue s @ bts else batch_queue s) \<and>
    batch_list s' = (if batch_request s then batch_list s else batch_list s @ bts) \<and>
    concat (map rb_stripes bts) = xs \<and> batches_ok (stripe_list s') (cluster_size s) bs bts \<and>
    planned_upto (par_planned ec sol fails) (stripe_list s) xs (stripe_list s') \<and>
    finish_gen_batches s' = finish_gen_batches s"
proof -
  let ?m = "num_slices bs xs" and ?s = "s\<lparr>num_batches := int (num_slices bs xs)\<rparr>"
  let ?bss = "map (slice bs xs) [0..<?m]"
  have all: "concat ?bss = xs" using num_slices_bounds(1) [OF bs(2)] by (simp add: concat_slices)
  have sizes: "sids \<noteq> [] \<and> length sids \<le> bs" if mem: "sids \<in> set ?bss" for sids
  proof -
    obtain j where j: "j < ?m" "sids = slice bs xs j" using mem by auto
    from num_slices_bounds(2) [OF bs(2) j(1)] show ?thesis using bs(2) by (simp add: j(2) slice_def)
  qed
  have "same_cluster sol ?s" "distinct (concat ?bss)" "pointers_ok (stripe_list ?s) (concat ?bss)"
    using cl xs(2,3) unfolding all by (simp_all add: same_cluster_def)
  note start = this
  have f: "stripe_list ?s = stripe_list s" "batch_request ?s = batch_request s" "batch_queue ?s = batch_queue s"
    "batch_list ?s = batch_list s" "cluster_size ?s = cluster_size s" "finish_gen_batches ?s = finish_gen_batches s" by simp_all
  have "par_able rnd ec sol fails scenario E (stripe_list ?s ! nat sid)" if "sid \<in> set (concat ?bss)" for sid
    using able that unfolding all f by blast
  from lists_good [OF start this E sizes] obtain s' bts where
    L: "foldR (par_list_batch ec fails gen) (zip (map int [0..<length ?bss]) ?bss) ?s = Inr s'"
    "batch_queue s' = (if batch_request s then batch_queue s @ bts else batch_queue s)"
    "batch_list s' = (if batch_request s then batch_list s else batch_list s @ bts)" "map rb_stripes bts = ?bss"
    "batches_ok (stripe_list s') (cluster_size s) bs bts"
    "planned_upto (par_planned ec sol fails) (stripe_list s) xs (stripe_list s')" "finish_gen_batches s' = finish_gen_batches s"
    unfolding all f by blast
  have "foldR (par_batch ec fails gen) (nodes_upto (int ?m)) ?s = Inr s'"
    using par_loop_lists [of ?s bs xs ec fails gen ?m] bs(1) xs(1) L(1) by simp
  then have "par_batches ec fails gen s = Inr s'" by (simp add: par_batches_def count_batches_ok [OF bs xs(1)])
  then show ?thesis using L(2-7) all by auto
qed

end

section \<open>A sample\<close>

text \<open>A code with two data and two parity blocks; blocks 0 and 1 are lost.\<close>

definition mds_ec :: ec_base where
  "mds_ec = \<lparr>ec_n = 4, ec_k = 2, ec_w = 1,
     ec_Decode = (\<lambda>_ _. Inr (Some (Join 1 [2, 3] [1, 2] (Join 0 [2, 3] [1, 1] new_ecdag))))\<rparr>"

definition mds_stripes :: "stripe list" where
  "mds_stripes = [new_stripe 0 [0, 1, 2, 3], new_stripe 1 [2, 3, 4, 5], new_stripe 2 [1, 0, 4, 5]]"

definition mds_dag :: ecdag where
  "mds_dag = (Join (REQUESTOR - 1) [1] [-1, -1] (Join REQUESTOR [0] [-1, -1]
     (Join 1 [2, 3] [1, 2] (Join 0 [2, 3] [1, 1] new_ecdag))))\<lparr>ecConcacts := [REQUESTOR, REQUESTOR - 1]\<rparr>"

lemma mds_dag_of:
  "par_dag_of mds_ec [0, 1] (new_stripe 0 [0, 1, 2, 3]) = Inr ((new_stripe 0 [0, 1, 2, 3])\<lparr>s_ecdag := mds_dag, fail_blk_idxs := [0, 1]\<rparr>)"
  "par_dag_of mds_ec [0, 1] (new_stripe 2 [1, 0, 4, 5]) = Inr ((new_stripe 2 [1, 0, 4, 5])\<lparr>s_ecdag := mds_dag, fail_blk_idxs := [0, 1]\<rparr>)"
  by code_simp+

lemma mds_dag_facts:
  "wf_ecdag mds_dag" "ecConcacts mds_dag = [REQUESTOR, REQUESTOR - 1]" "set (ecHeaders mds_dag) = {REQUESTOR, REQUESTOR - 1}"
  "ecLeaves mds_dag = [2, 3]" "edges mds_dag = 6" "inner mds_dag = {0, 1}"
  "coupled mds_dag {0, 1}"
  by code_simp+

definition mds_stripe :: stripe where
  "mds_stripe = (new_stripe 0 [0, 1, 2, 3])\<lparr>s_ecdag := mds_dag, fail_blk_idxs := [0, 1]\<rparr>"

definition mds_sol :: solution where
  "mds_sol = new_SolutionBase\<lparr>stripe_list := mds_stripes, standby_size := 2, agents_num := 6, cluster_size := 8, batch_size := 1\<rparr>"

lemma mds_par_dag:
  assumes "nodelist s = [a, b, c, d]" and "s_ecdag s = mds_dag" and "fail_blk_idxs s = [0, 1]"
  shows "par_dag mds_ec s"
proof -
  have "placed mds_ec s" using assms by (simp add: placed_def mds_ec_def mds_dag_facts)
  then show ?thesis using assms mds_dag_facts by (simp add: par_dag_def REQUESTOR_def)
qed

lemma mds_homes:
  assumes "nodelist s = [a, b, c, d]" and "s_ecdag s = mds_dag"
  shows "home mds_ec s ` set (real_leaves mds_ec s) = {c, d}"
  using assms by (auto simp: real_leaves_def home_def mds_ec_def mds_dag_facts)

lemma mds_par_nodes:
  assumes "agents_num sol = 6" "cluster_size sol = 8" and "set (nodelist s) \<subseteq> {0..5}" and "nodelist s = [a, b, c, d]"
    and "s_ecdag s = mds_dag" and "c \<notin> {0, 1}" "d \<notin> {0, 1}"
  shows "par_nodes mds_ec sol [0, 1] ''scatter'' s"
proof -
  have "{6, 7} \<subseteq> {0..<cluster_size sol} - set (nodelist s) - set [0, 1]" using assms(2,3) by auto
  from card_mono [OF _ this] have "2 \<le> card ({0..<cluster_size sol} - set (nodelist s) - set [0, 1])" by simp
  then show ?thesis
    using assms mds_homes [OF assms(4,5)] by (auto simp: par_nodes_def list_all_iff mds_dag_facts)
qed

lemma mds_ready:
  assumes "agents_num sol = 6" "cluster_size sol = 8" and "\<And>i. 0 \<le> rnd i"
  shows "st \<in> set mds_stripes \<Longrightarrow> is_hit [0, 1] st \<Longrightarrow> par_able rnd mds_ec sol [0, 1] ''scatter'' 6 st"
proof -
  have "dag_ready rnd mds_ec sol [0, 1] ''scatter'' 6 (new_stripe i [a, b, c, d]\<lparr>s_ecdag := mds_dag, fail_blk_idxs := [0, 1]\<rparr>)"
    if "set [a, b, c, d] \<subseteq> {0..5}" "c \<notin> {0, 1}" "d \<notin> {0, 1}" for i a b c d
    unfolding dag_ready_def
    using that assms mds_par_dag [of "new_stripe i [a, b, c, d]\<lparr>s_ecdag := mds_dag, fail_blk_idxs := [0, 1]\<rparr>" a b c d]
      mds_par_nodes [of sol "new_stripe i [a, b, c, d]\<lparr>s_ecdag := mds_dag, fail_blk_idxs := [0, 1]\<rparr>" a b c d] mds_dag_facts
    by (simp add: new_stripe_def)
  then have "par_able rnd mds_ec sol [0, 1] ''scatter'' 6 (new_stripe 0 [0, 1, 2, 3])"
    "par_able rnd mds_ec sol [0, 1] ''scatter'' 6 (new_stripe 2 [1, 0, 4, 5])"
    unfolding par_able_def mds_dag_of by simp_all
  then show "st \<in> set mds_stripes \<Longrightarrow> is_hit [0, 1] st \<Longrightarrow> par_able rnd mds_ec sol [0, 1] ''scatter'' 6 st"
    by (auto simp: mds_stripes_def is_hit_def new_stripe_def)
qed

section \<open>Moves keep a stripe well typed\<close>

definition move_to :: "int \<times> int \<Rightarrow> stripe \<Rightarrow> stripe res" where
  \<comment> \<open>how the colouring loops call \<open>changeColor\<close>: not when the colour stays the same\<close>
  "move_to m s = (if snd m = color_of (coloring s) (fst m) then Inr s else changeColor (fst m) (snd m) s)"

lemma moves_ranged:
  assumes "ranged n s" and "\<forall>m\<in>set ms. fst m \<in> set (node_ids (s_ecdag s)) \<and> in_range n (snd m)"
  shows "\<exists>t. foldR move_to ms s = Inr t \<and> ranged n t \<and> s_ecdag t = s_ecdag s"
  using assms
proof (induction ms arbitrary: s)
  case (Cons m ms)
  then have m: "fst m \<in> set (node_ids (s_ecdag s))" "in_range n (snd m)" by simp_all
  obtain u where u: "move_to m s = Inr u" "ranged n u" "s_ecdag u = s_ecdag s"
  proof (cases "snd m = color_of (coloring s) (fst m)")
    case True
    then show ?thesis using that Cons.prems(1) by (simp add: move_to_def)
  next
    case False
    then show ?thesis using that changeColor_ranged [OF Cons.prems(1) m False] by (auto simp: move_to_def)
  qed
  with Cons.IH [OF u(2)] Cons.prems(2) show ?case by simp
qed simp

section \<open>Properties\<close>

text \<open>C35: a stripe is well typed over the nodes \<open>0..<n\<close> when its DAG is coloured with these nodes (or
  none), both its tables are keyed by them, and \<open>_in\<close>, \<open>_out\<close>, \<open>_bdwt\<close> and \<open>_load\<close> are those of the
  colouring. \<open>evaluateColoring\<close> makes a coloured stripe well typed, and any sequence of moves the
  planner makes with \<open>changeColor\<close> ends without a fault and keeps it well typed.\<close>

theorem stripe_stays_typed:
  assumes "colored s" and "node_colors n (coloring s)" and "0 \<le> n"
    and "\<forall>m\<in>set ms. fst m \<in> set (node_ids (s_ecdag s)) \<and> in_range n (snd m)"
  shows "\<exists>t. bindR (evaluateColoring s) (foldR move_to ms) = Inr t \<and> colored t \<and> stats_ok t \<and> tables_in_range n t \<and>
    (\<forall>v\<in>set (node_ids (s_ecdag t)). node_color n (color_of (coloring t) v)) \<and> s_ecdag t = s_ecdag s"
proof -
  obtain u where u: "evaluateColoring s = Inr u" "ranged n u" "s_ecdag u = s_ecdag s"
    using evaluateColoring_ranged [OF assms(1-3)] by blast
  with moves_ranged [OF u(2), of ms] assms(4) obtain t where "foldR move_to ms u = Inr t" "ranged n t" "s_ecdag t = s_ecdag s" by auto
  with u(1) ranged_color [of n t] show ?thesis by (auto simp: ranged_def)
qed

lemma mds_colored:
  "colored (setColoring [(2, 2), (3, 3), (REQUESTOR, 4), (REQUESTOR - 1, 5), (0, -1), (1, -1)] mds_stripe)"
  "node_colors 8 (coloring (setColoring [(2, 2), (3, 3), (REQUESTOR, 4), (REQUESTOR - 1, 5), (0, -1), (1, -1)] mds_stripe))"
proof -
  let ?cl = "[(2, 2), (3, 3), (REQUESTOR, 4), (REQUESTOR - 1, 5), (0, -1), (1, -1)]"
  have g: "s_ecdag (setColoring ?cl mds_stripe) = mds_dag" "coloring (setColoring ?cl mds_stripe) = ?cl"
    by (simp_all add: setColoring_def mds_stripe_def)
  have "set (node_ids mds_dag) = set (um_keys ?cl)" by code_simp
  then show "colored (setColoring ?cl mds_stripe)" unfolding colored_def g using mds_dag_facts(1) by (simp add: REQUESTOR_def)
  show "node_colors 8 (coloring (setColoring ?cl mds_stripe))" unfolding g(2) by (simp add: in_range_def)
qed

lemma mds_ranged:
  "\<exists>s. ranged 8 s \<and> coloring s = [(2, 2), (3, 3), (REQUESTOR, 4), (REQUESTOR - 1, 5), (0, -1), (1, -1)] \<and> s_ecdag s = mds_dag"
  using evaluateColoring_ranged [OF mds_colored] by (auto simp: setColoring_def mds_stripe_def)

lemma stripe_stays_typed_witness:
  "\<exists>t. bindR (evaluateColoring (setColoring [(2, 2), (3, 3), (REQUESTOR, 4), (REQUESTOR - 1, 5), (0, -1), (1, -1)] mds_stripe))
      (foldR move_to [(0, 2), (1, 6), (0, 3)]) = Inr t \<and> stats_ok t"
proof -
  have "\<forall>m\<in>set [(0, 2), (1, 6), (0, 3)]. fst m \<in> set (node_ids mds_dag) \<and> in_range 8 (snd m)"
    using mds_dag_facts(6) by (auto simp: inner_def in_range_def)
  moreover have "s_ecdag (setColoring cl mds_stripe) = mds_dag" for cl by (simp add: setColoring_def mds_stripe_def)
  ultimately show ?thesis using stripe_stays_typed [OF mds_colored, of "[(0, 2), (1, 6), (0, 3)]"] by auto
qed

text \<open>\<open>evaluateChange2\<close>, the trial of one node for a group of vertices at once, is exact for the groups
  the planner forms, vertices without a node that have the same children: the table it returns,
  without touching the stripe, is the one that counting the transfers after the move would give.\<close>

theorem group_trial_exact:
  assumes "colored s" and "stats_ok s" and "fresh_group s vs" and "in_range n new" and "tables_in_range n s"
  shows "\<exists>t. evaluateChange2 n vs new s = Inr t \<and> rows_ok (nat n) t \<and>
    (\<forall>dr k. 0 \<le> k \<and> k < n \<longrightarrow> vt_get t dr k = expected (s_ecdag s) (place_all vs new (color_of (coloring s))) dr k)"
proof -
  have "vt_get (expected_rows n g col) dr k = expected g col dr k" if "0 \<le> k" "k < n" for g col dr k
    using that by (cases dr) (simp_all add: vt_get_def expected_rows_def)
  with evaluateChange2_rows [OF assms] rows_ok_expected show ?thesis by auto
qed

lemma group_trial_exact_witness:
  "\<exists>s t. evaluateChange2 8 [0, 1] 2 s = Inr t \<and> vt_get t IN 2 = expected mds_dag (place_all [0, 1] 2 (color_of (coloring s))) IN 2"
proof -
  obtain s where s: "ranged 8 s" "coloring s = [(2, 2), (3, 3), (REQUESTOR, 4), (REQUESTOR - 1, 5), (0, -1), (1, -1)]" "s_ecdag s = mds_dag"
    using mds_ranged by blast
  have "set (node_ids mds_dag) = {0, 1, 2, 3, REQUESTOR, REQUESTOR - 1} \<and> children_of mds_dag 0 = [2, 3] \<and> children_of mds_dag 1 = [2, 3]" by code_simp
  then have "fresh_group s [0, 1]" by (simp add: fresh_group_def s(2,3) color_of_def um_get_def REQUESTOR_def)
  with s(1) group_trial_exact [of s "[0, 1]" 8 2] obtain t where "evaluateChange2 8 [0, 1] 2 s = Inr t"
    "\<forall>dr k. 0 \<le> k \<and> k < 8 \<longrightarrow> vt_get t dr k = expected mds_dag (place_all [0, 1] 2 (color_of (coloring s))) dr k"
    by (auto simp: ranged_def in_range_def s(3))
  then show ?thesis by (intro exI [of _ s] exI [of _ t]) simp
qed

text \<open>C7: the greedy choice of a node for one vertex is optimal: on a stripe with right figures, for a
  vertex that has no node yet, \<open>chooseColor_fullnode\<close> returns the first candidate that gives the
  smallest peak load of any node of the cluster, and among these the fewest transfers, counted over
  the real transfers of the repair on top of the given table.\<close>

theorem choice_optimal:
  assumes "ranged n s" and "0 \<le> n" and "rows_ok (nat n) lt" and "has_room lt (s_ecdag s)"
    and "idx \<in> set (node_ids (s_ecdag s))" and "color_of (coloring s) idx = -1" and "\<forall>c\<in>set cs. in_range n c"
  shows "\<exists>c. chooseColor_fullnode s cs lt idx = Inr c \<and>
    (if cs = [] then c = -1
     else \<exists>us vs. cs = us @ c # vs \<and>
       (\<forall>d\<in>set cs. at_most (trial n lt (s_ecdag s) ((color_of (coloring s))(idx := c)))
                            (trial n lt (s_ecdag s) ((color_of (coloring s))(idx := d)))) \<and>
       (\<forall>d\<in>set us. isBetter (trial n lt (s_ecdag s) ((color_of (coloring s))(idx := c)))
                              (trial n lt (s_ecdag s) ((color_of (coloring s))(idx := d)))))"
proof -
  have "\<And>c. c \<in> set cs \<Longrightarrow> in_range n c" using assms(7) by blast
  from fullnode_choice [OF assms(1,3,4,2,5,6) this] show ?thesis unfolding is_choice_def by blast
qed

lemma choice_optimal_witness:
  "\<exists>s c. chooseColor_fullnode s [2, 3] (zero_table 8) 0 = Inr c \<and> c \<in> {2, 3}"
proof -
  let ?cl = "[(2, 2), (3, 3), (REQUESTOR, 4), (REQUESTOR - 1, 5), (0, -1), (1, -1)]"
  obtain s where s: "ranged 8 s" "coloring s = ?cl" "s_ecdag s = mds_dag" using mds_ranged by blast
  have lt: "rows_ok (nat 8) (zero_table 8)" "has_room (zero_table 8) (s_ecdag s)"
    using below_zero [of 0 8] below_room [of 8 "zero_table 8" 0 mds_dag 6]
    by (simp_all add: below_def s mds_dag_facts INT_MAX_def)
  have "0 \<in> set (node_ids (s_ecdag s))" using mds_dag_facts(6) by (auto simp: inner_def s)
  moreover have "color_of (coloring s) 0 = -1" by (simp add: s color_of_def um_get_def REQUESTOR_def)
  moreover have "\<forall>c\<in>set [2, 3]. in_range 8 c" by (simp add: in_range_def)
  ultimately obtain c where c: "chooseColor_fullnode s [2, 3] (zero_table 8) 0 = Inr c"
    "\<exists>us vs. [2, 3] = us @ c # vs"
    using choice_optimal [OF s(1) _ lt, of 0 "[2, 3]"] by auto
  then have "c \<in> set [2, 3]" by (metis in_set_conv_decomp)
  with c(1) show ?thesis by auto
qed

text \<open>C6: \<open>genColoringForMultipleFailureLevelNew\<close> colours a stripe soundly: it ends without a fault,
  the lost blocks are rebuilt on pairwise different nodes that neither failed nor hold a block of the
  stripe, leaves stay where their blocks are, nothing is computed on a failed node, a vertex is left
  without a node only when all its input is virtual, and the load table grows by exactly the
  transfers of the colouring. Method 1, which places groups of vertices, needs that a vertex
  which shares a child with an inner vertex is inner itself and has the same children.\<close>

theorem level_coloring_correct:
  assumes "par_dag ec s" and "par_nodes ec sol fails scenario s" and "\<forall>i. 0 \<le> rnd i"
    and "rows_ok (nat (cluster_size sol)) lt" and "has_room lt (s_ecdag s)"
    and "meth = 1 \<longrightarrow> coupled (s_ecdag s) (inner (s_ecdag s))"
  shows "\<exists>s' lt' c' rs. LevelNew rnd ec sol fails scenario meth s (lt, c) = Inr (s', lt', c') \<and>
    new_homes sol fails s rs \<and> par_colored ec fails s rs (coloring s') \<and>
    (\<forall>v\<in>set (node_ids (s_ecdag s)). color_of (coloring s') v = -1 \<or>
       in_range (cluster_size sol) (color_of (coloring s') v) \<and> color_of (coloring s') v \<notin> set fails) \<and>
    stats_ok s' \<and>
    (\<forall>dr k. vt_get lt' dr k = vt_get lt dr k + expected (s_ecdag s) (color_of (coloring s')) dr k)"
proof -
  have rnd: "\<And>i. 0 \<le> rnd i" and cpl: "meth = 1 \<Longrightarrow> coupled (s_ecdag s) (inner (s_ecdag s))" using assms(3,6) by blast+
  obtain s' lt' c' rs where L: "LevelNew rnd ec sol fails scenario meth s (lt, c) = Inr (s', lt', c')"
    "new_homes sol fails s rs" "placed_well (cluster_size sol) lt ec fails s rs s' lt'"
    using LevelNew_ok [where c = c and rnd = rnd and meth = meth, OF assms(1,2) rnd assms(4,5) cpl] by blast
  have P: "par_colored ec fails s rs (coloring s')" "ranged (cluster_size sol) s'" "s_ecdag s' = s_ecdag s"
    "adds_load (cluster_size sol) lt s' lt'" using L(3) by (simp_all add: placed_well_def same_stripe_def)
  have len: "length rs = length (ecConcacts (s_ecdag s))" using L(2) by (simp add: new_homes_def)
  have use: "color_of (coloring s') v \<in> insert (-1) (nodes_in_use fails s rs)" if v: "v \<in> set (node_ids (s_ecdag s))" for v
  proof -
    consider "v \<in> set (ecLeaves (s_ecdag s))" | "v \<in> set (ecConcacts (s_ecdag s))" | "v \<in> inner (s_ecdag s)"
      using v par_dag_inner(2) [OF assms(1)] by blast
    then show ?thesis
    proof cases
      case 1
      then show ?thesis using P(1) home_in_use [OF assms(1,2) 1] by (simp add: par_colored_def)
    next
      case 2
      then obtain i where i: "i < length (ecConcacts (s_ecdag s))" "v = ecConcacts (s_ecdag s) ! i" unfolding in_set_conv_nth by blast
      then have "color_of (coloring s') v = rs ! i" using P(1) len by (simp add: par_colored_def)
      then show ?thesis using i(1) len by (simp add: nodes_in_use_def)
    next
      case 3
      then show ?thesis using P(1) by (simp add: par_colored_def)
    qed
  qed
  have "color_of (coloring s') v = -1 \<or> in_range (cluster_size sol) (color_of (coloring s') v) \<and> color_of (coloring s') v \<notin> set fails"
    if "v \<in> set (node_ids (s_ecdag s))" for v
    using use [OF that] nodes_in_use_range [OF assms(2) L(2)] by blast
  moreover have "stats_ok s'" using P(2) by (simp add: ranged_def)
  moreover have "\<forall>dr k. vt_get lt' dr k = vt_get lt dr k + expected (s_ecdag s) (color_of (coloring s')) dr k"
    using P(3,4) by (simp add: adds_load_def)
  ultimately show ?thesis using L(1,2) P(1) by blast
qed

lemma level_coloring_correct_witness:
  "\<exists>s' lt' c'. LevelNew (\<lambda>_. 0) mds_ec mds_sol [0, 1] ''scatter'' 1 mds_stripe (zero_table 8, 0) = Inr (s', lt', c') \<and>
    color_of (coloring s') 0 \<notin> {0, 1}"
proof -
  have st: "nodelist mds_stripe = [0, 1, 2, 3]" "s_ecdag mds_stripe = mds_dag" "fail_blk_idxs mds_stripe = [0, 1]"
    by (simp_all add: mds_stripe_def new_stripe_def)
  have sol: "agents_num mds_sol = 6" "cluster_size mds_sol = 8" by (simp_all add: mds_sol_def)
  have nodes: "par_nodes mds_ec mds_sol [0, 1] ''scatter'' mds_stripe"
    by (rule mds_par_nodes [OF sol _ st(1,2)]) (simp_all add: st)
  have lt: "rows_ok (nat (cluster_size mds_sol)) (zero_table 8)" "has_room (zero_table 8) (s_ecdag mds_stripe)"
    using below_zero [of 0 8] below_room [of 8 "zero_table 8" 0 mds_dag 6]
    by (simp_all add: sol below_def st mds_dag_facts INT_MAX_def)
  have "(1::int) = 1 \<longrightarrow> coupled (s_ecdag mds_stripe) (inner (s_ecdag mds_stripe))" by (simp add: st mds_dag_facts)
  from level_coloring_correct [where rnd = "\<lambda>_. 0" and c = 0, OF mds_par_dag [OF st] nodes _ lt this] obtain s' lt' c' where
    s': "LevelNew (\<lambda>_. 0) mds_ec mds_sol [0, 1] ''scatter'' 1 mds_stripe (zero_table 8, 0) = Inr (s', lt', c')"
    "\<forall>v\<in>set (node_ids mds_dag). color_of (coloring s') v = -1 \<or> color_of (coloring s') v \<notin> set [0, 1]" by (auto simp: st)
  have "0 \<in> set (node_ids mds_dag)" using mds_dag_facts(6) by (auto simp: inner_def)
  with s' show ?thesis by auto
qed

text \<open>With \<open>genRepairBatchesForMultipleFailureNew\<close> every failed stripe is planned exactly once, in
  the order of the list: the batches are numbered from 0, hold between one and \<open>_batch_size\<close>
  stripes, carry the figures of their stripes, and every planned stripe has a sound colouring; the
  batches go to the queue or to the list as a whole, as \<open>_batch_request\<close> says.\<close>

lemma parallel_new_plans:
  assumes "batch_size s = int bs" and "0 < bs" and "bs < 2 ^ 31" and "stripes_to_repair s = []"
    and "\<forall>st\<in>set (stripe_list s). is_hit fails st \<longrightarrow> par_able rnd ec s fails scenario E st"
    and "0 \<le> E" and "int bs * E < INT_MAX"
  shows "\<exists>s' bts. genRepairBatchesNew rnd ec fails scenario meth s = Inr s' \<and>
    batch_queue s' = (if batch_request s then batch_queue s @ bts else batch_queue s) \<and>
    batch_list s' = (if batch_request s then batch_list s else batch_list s @ bts) \<and>
    concat (map rb_stripes bts) = failed_stripes fails (stripe_list s) \<and>
    batches_ok (stripe_list s') (cluster_size s) bs bts \<and>
    planned_upto (par_planned ec s fails) (stripe_list s) (failed_stripes fails (stripe_list s)) (stripe_list s')"
proof -
  let ?s1 = "filterFailedStripes fails s" and ?xs = "failed_stripes fails (stripe_list s)"
  have f: "stripe_list ?s1 = stripe_list s" "batch_size ?s1 = batch_size s" "batch_queue ?s1 = batch_queue s"
    "batch_list ?s1 = batch_list s" "batch_request ?s1 = batch_request s" "cluster_size ?s1 = cluster_size s"
    "same_cluster s ?s1" by (simp_all add: filterFailedStripes_def same_cluster_def)
  have xs: "stripes_to_repair ?s1 = ?xs" by (simp add: filterFailedStripes_eq assms(4) failed_stripes_def)
  have d: "distinct ?xs" "pointers_ok (stripe_list ?s1) ?xs"
    by (auto simp: f failed_stripes_def distinct_map pointers_ok_def list_all_iff)
  have able: "par_able rnd ec s fails scenario E (stripe_list ?s1 ! nat sid)" if "sid \<in> set ?xs" for sid
    using that assms(5) by (auto simp: f failed_stripes_def)
  have bs: "batch_size ?s1 = int bs" using assms(1) f(2) by simp
  from new_plan.batches_good [OF f(7) bs assms(2,3) xs d able assms(6,7), where meth = meth]
  show ?thesis unfolding f genRepairBatchesNew_def by blast
qed

lemma parallel_new_plans_witness:
  "\<exists>s'. genRepairBatchesNew (\<lambda>_. 0) mds_ec [0, 1] ''scatter'' 1 mds_sol = Inr s' \<and>
    concat (map rb_stripes (batch_list s')) = [0, 2]"
proof -
  have s: "batch_size mds_sol = int 1" "stripes_to_repair mds_sol = []" "stripe_list mds_sol = mds_stripes"
    "batch_request mds_sol = False" "batch_list mds_sol = []" "agents_num mds_sol = 6" "cluster_size mds_sol = 8"
    by (simp_all add: mds_sol_def new_SolutionBase_def)
  have "\<forall>st\<in>set (stripe_list mds_sol). is_hit [0, 1] st \<longrightarrow> par_able (\<lambda>_. 0) mds_ec mds_sol [0, 1] ''scatter'' 6 st"
    using mds_ready [OF s(6,7)] by (simp add: s(3))
  from parallel_new_plans [OF s(1) _ _ s(2) this, where meth = 1] have
    "\<exists>s' bts. genRepairBatchesNew (\<lambda>_. 0) mds_ec [0, 1] ''scatter'' 1 mds_sol = Inr s' \<and> batch_list s' = bts \<and>
       concat (map rb_stripes bts) = failed_stripes [0, 1] mds_stripes" by (auto simp: s INT_MAX_def)
  moreover have "failed_stripes [0, 1] mds_stripes = [0, 2]"
    by (simp add: failed_stripes_def mds_stripes_def is_hit_def new_stripe_def upt_rec)
  ultimately show ?thesis by auto
qed

end
