(* ===== verification/Parallel_Pack.thy ===== *)
theory Parallel_Pack
  imports Complex_Main Parallel "HOL-Library.Multiset"
begin

text \<open>
  How \<open>genRepairBatchesForMultipleFailureNewFire\<close> and \<open>...NewFireNew\<close>
  (src/src/sol/ParallelSolution.cc) pack stripes into batches: heavy stripes first, each into the
  batch whose bottleneck stays smallest, then simulated annealing by swaps.

  The vectors \<open>balanced_batches\<close> and \<open>batch_node_loads\<close>, which run in parallel, are one list of
  pairs. A \<open>Stripe*\<close> is an index into the stripe list. The \<open>double\<close>s of the variance are exact
  rationals here: rounding can only change which of several equally loaded batches is taken.
  \<open>std::sort\<close> leaves the order of equals open; the model keeps it.
\<close>

section \<open>Bottlenecks\<close>

definition row_max :: "int list \<Rightarrow> int res" where
  "row_max row = bindR (vget row 0) (\<lambda>a. bindR (vget row 1) (\<lambda>b. Inr (max a b)))"

definition bottleneck :: "rows \<Rightarrow> int res" where
  \<comment> \<open>\<open>get_max_time\<close>, and the loops that compute \<open>b_neck\<close> and \<open>batch_bottleneck\<close>\<close>
  "bottleneck t = foldR (\<lambda>row b. bindR (row_max row) (\<lambda>m. Inr (if m > b then m else b))) t 0"

type_synonym bins = "(int list \<times> rows) list"

definition node_peaks :: "int \<Rightarrow> rows \<Rightarrow> rows \<Rightarrow> int list res" where
  \<comment> \<open>\<open>max(sim_in, sim_out)\<close> for every node\<close>
  "node_peaks n bl sl =
     mapR (\<lambda>v. bindR (cell bl OUT v) (\<lambda>a. bindR (cell sl OUT v) (\<lambda>b.
               bindR (cell bl IN v) (\<lambda>c. bindR (cell sl IN v) (\<lambda>d. Inr (max (a + b) (c + d)))))))
       (nodes_upto n)"

definition sim_bottlenecks :: "int \<Rightarrow> int \<Rightarrow> bins \<Rightarrow> rows \<Rightarrow> int list res" where
  \<comment> \<open>\<open>INT_MAX\<close> for a batch that is full\<close>
  "sim_bottlenecks n bs bins sl =
     mapR (\<lambda>(sids, bl). if int (length sids) \<ge> bs then Inr INT_MAX
                        else bindR (node_peaks n bl sl) (\<lambda>ps. Inr (fold max ps 0))) bins"

section \<open>The choice of a batch\<close>

type_synonym chooser = "bins \<Rightarrow> rows \<Rightarrow> int list \<Rightarrow> int res"

definition first_best :: chooser where
  \<comment> \<open>\<open>NewFire\<close>: the first batch with the smallest bottleneck\<close>
  "first_best bins sl sims =
     Inr (fst (fold (\<lambda>(b, bn) (best, mn). if bn < mn then (b, bn) else (best, mn))
            (zip (map int [0..<length sims]) sims) (0, INT_MAX)))"

definition variance :: "int list \<Rightarrow> rat" where
  "variance ps =
     (let m = (\<Sum>p\<leftarrow>ps. of_int p) / of_nat (length ps)
      in (\<Sum>p\<leftarrow>ps. (of_int p - m) * (of_int p - m)) / of_nat (length ps))"

definition even_step :: "int \<Rightarrow> bins \<Rightarrow> rows \<Rightarrow> int \<Rightarrow> int \<times> int \<Rightarrow> int \<times> rat \<Rightarrow> (int \<times> rat) res" where
  "even_step n bins sl mn = (\<lambda>(b, bn) (best, var).
     if bn \<noteq> mn then Inr (best, var)
     else bindR (vget bins b) (\<lambda>(_, bl). bindR (node_peaks n bl sl) (\<lambda>ps.
            Inr (if best = -1 \<or> variance ps < var then (b, variance ps) else (best, var)))))"

definition even_best :: "int \<Rightarrow> chooser" where
  \<comment> \<open>\<open>NewFireNew\<close>: among the batches with the smallest bottleneck, the one with the least variance\<close>
  "even_best n bins sl sims =
     (let mn = fold min sims INT_MAX
      in bindR (foldR (even_step n bins sl mn) (zip (map int [0..<length sims]) sims) (-1, 0))
           (\<lambda>(best, _). Inr best))"

section \<open>Packing\<close>

definition pack_one :: "chooser \<Rightarrow> int \<Rightarrow> int \<Rightarrow> rows umap \<Rightarrow> int \<Rightarrow> bins \<Rightarrow> bins res" where
  "pack_one chooser n bs dummy sid bins =
     (let sl = um_get [] dummy sid in
      bindR (sim_bottlenecks n bs bins sl) (\<lambda>sims.
      bindR (chooser bins sl sims) (\<lambda>best.
      bindR (vget bins best) (\<lambda>(sids, bl).
      bindR (add_tables bl sl) (\<lambda>bl1.
        Inr (bins[nat best := (sids @ [sid], bl1)]))))))"

definition pack :: "chooser \<Rightarrow> int \<Rightarrow> int \<Rightarrow> int \<Rightarrow> rows umap \<Rightarrow> int list \<Rightarrow> bins res" where
  "pack chooser n bs nb dummy sorted_stripes =
     foldR (pack_one chooser n bs dummy) sorted_stripes (replicate (nat nb) ([], zero_table n))"

section \<open>Annealing\<close>

definition batch_table :: "int \<Rightarrow> rows umap \<Rightarrow> int list \<Rightarrow> rows res" where
  "batch_table n dummy sids = foldR (\<lambda>sid t. add_tables t (um_get [] dummy sid)) sids (zero_table n)"

definition total_makespan :: "int \<Rightarrow> rows umap \<Rightarrow> int list list \<Rightarrow> int res" where
  "total_makespan n dummy batches =
     foldR (\<lambda>sids total. bindR (batch_table n dummy sids) (\<lambda>t. bindR (bottleneck t) (\<lambda>b. Inr (total + b)))) batches 0"

text \<open>One round draws two batches, a stripe of each, and a number that accepts a worse neighbour or not;
  \<open>accepts delta\<close> says whether the number drawn is below \<open>exp(-delta / current_temp)\<close>. What is drawn
  may depend on the round and, as the ranges do, on the current solution.\<close>

record move =
  mv_b1 :: int
  mv_b2 :: int
  mv_s1 :: int
  mv_s2 :: int
  accepts :: "int \<Rightarrow> bool"

record anneal_state =
  cur_sol :: "int list list"
  cur_energy :: int
  best_sol :: "int list list"
  best_energy :: int

definition swap_stripes :: "int \<Rightarrow> int \<Rightarrow> int \<Rightarrow> int \<Rightarrow> int list list \<Rightarrow> int list list res" where
  "swap_stripes b1 i b2 j sol =
     bindR (vget sol b1) (\<lambda>x1. bindR (vget sol b2) (\<lambda>x2.
     bindR (vget x1 i) (\<lambda>u. bindR (vget x2 j) (\<lambda>v.
       Inr (sol[nat b1 := x1[nat i := v], nat b2 := x2[nat j := u]])))))"

definition anneal_round :: "int \<Rightarrow> rows umap \<Rightarrow> move \<Rightarrow> anneal_state \<Rightarrow> anneal_state res" where
  \<comment> \<open>\<open>mv_b1\<close> and \<open>mv_b2\<close> differ\<close>
  "anneal_round n dummy mv a =
     bindR (vget (cur_sol a) (mv_b1 mv)) (\<lambda>x1. bindR (vget (cur_sol a) (mv_b2 mv)) (\<lambda>x2.
     if x1 = [] \<or> x2 = [] then Inr a
     else bindR (swap_stripes (mv_b1 mv) (mv_s1 mv) (mv_b2 mv) (mv_s2 mv) (cur_sol a)) (\<lambda>neighbor.
          bindR (total_makespan n dummy neighbor) (\<lambda>e.
          let moved = a\<lparr>cur_sol := neighbor, cur_energy := e\<rparr> in
          Inr (if e < cur_energy a
               then (if e < best_energy a then moved\<lparr>best_sol := neighbor, best_energy := e\<rparr> else moved)
               else if accepts mv (e - cur_energy a) then moved else a)))))"

text \<open>The temperature falls from 1000 by a factor of 0.95 while it is above 0.1, with 50 rounds at each.\<close>

definition cooling_steps :: nat where
  "cooling_steps = 180"

lemma cooling_steps_count:
  "(1 / 10 :: rat) < 1000 * (95 / 100) ^ (cooling_steps - 1)" "1000 * (95 / 100) ^ cooling_steps \<le> (1 / 10 :: rat)"
  by (simp_all add: cooling_steps_def power_divide)

definition anneal :: "int \<Rightarrow> rows umap \<Rightarrow> (nat \<Rightarrow> int list list \<Rightarrow> move) \<Rightarrow> int list list \<Rightarrow> int list list res" where
  "anneal n dummy moves batches =
     (if length batches > 1
      then bindR (total_makespan n dummy batches) (\<lambda>e.
           bindR (foldR (\<lambda>i a. anneal_round n dummy (moves i (cur_sol a)) a) [0..<cooling_steps * 50]
                    \<lparr>cur_sol = batches, cur_energy = e, best_sol = batches, best_energy = e\<rparr>)
             (\<lambda>a. Inr (best_sol a)))
      else Inr batches)"

section \<open>Bottlenecks of tables\<close>

abbreviation table_ok :: "int \<Rightarrow> rows \<Rightarrow> bool" where
  "table_ok n t \<equiv> rows_ok (nat n) t"

definition peak :: "rows \<Rightarrow> int" where
  "peak t = Max (insert 0 (set (concat t)))"

lemma bottleneck_peak:
  assumes "rows_ok m t" shows "bottleneck t = Inr (peak t)"
proof -
  have "foldR (\<lambda>row b. bindR (row_max row) (\<lambda>m. Inr (if m > b then m else b))) t l = Inr (Max (insert l (set (concat t))))"
    if "list_all (\<lambda>row. length row = 2) t" for l
    using that
  proof (induction t arbitrary: l)
    case (Cons row t)
    then obtain x y where row: "row = [x, y]" by (auto simp: length_Suc_conv numeral_2_eq_2)
    have "(if max x y > l then max x y else l) = max (max l x) y" by (simp add: max_def)
    moreover have "Max (insert (max (max l x) y) (set (concat t))) = Max (insert l (insert x (insert y (set (concat t)))))"
      by (simp only: Max_insert_max finite_set finite_insert)
    moreover have "set (concat (row # t)) = insert x (insert y (set (concat t)))" by (simp add: row)
    ultimately show ?case using Cons by (simp only: row) (simp add: row row_max_def)
  qed simp
  from this [of 0] assms show ?thesis by (simp add: bottleneck_def peak_def rows_ok_def)
qed

lemma fold_max_Max: "fold max xs (l::int) = Max (insert l (set xs))"
proof (induction xs arbitrary: l)
  case (Cons x xs)
  have "Max (insert (max l x) (set xs)) = Max (insert l (insert x (set xs)))" by (simp only: Max_insert_max finite_set)
  with Cons [of "max x l"] show ?case by (simp add: max.commute)
qed simp

lemma fold_max_pairs: "fold max (map (\<lambda>i. max (f i) (g i)) ks) (l::int) = Max (insert l (set (concat (map (\<lambda>i. [f i, g i]) ks))))"
proof (induction ks arbitrary: l)
  case (Cons i js)
  have "Max (insert (max (max l (f i)) (g i)) (set (concat (map (\<lambda>i. [f i, g i]) js)))) =
      Max (insert l (insert (f i) (insert (g i) (set (concat (map (\<lambda>i. [f i, g i]) js))))))"
    by (simp only: Max_insert_max finite_set finite_insert)
  moreover have "max (max (f i) (g i)) l = max (max l (f i)) (g i)" by simp
  ultimately show ?case using Cons [of "max (max (f i) (g i)) l"] by simp
qed simp

lemma cell_at: "rows_ok m t \<Longrightarrow> i < m \<Longrightarrow> cell t dr (int i) = Inr (t ! i ! dir_index dr)"
  by (cases dr) (auto simp: cell_def rows_ok_def list_all_length)

lemma node_peaks_ok:
  assumes "table_ok n bl" and "table_ok n sl"
  shows "node_peaks n bl sl =
    Inr (map (\<lambda>i. max (bl ! i ! 0 + sl ! i ! 0) (bl ! i ! 1 + sl ! i ! 1)) [0..<nat n])"
proof -
  have "node_peaks n bl sl = Inr (map (\<lambda>v. max (bl ! nat v ! 0 + sl ! nat v ! 0) (bl ! nat v ! 1 + sl ! nat v ! 1)) (nodes_upto n))"
    unfolding node_peaks_def
  proof (rule mapR_pure)
    fix v assume "v \<in> set (nodes_upto n)"
    then obtain i where "v = int i" "i < nat n" by (auto simp: nodes_upto_def)
    then show "bindR (cell bl OUT v) (\<lambda>a. bindR (cell sl OUT v) (\<lambda>b.
               bindR (cell bl IN v) (\<lambda>c. bindR (cell sl IN v) (\<lambda>d. Inr (max (a + b) (c + d)))))) =
      Inr (max (bl ! nat v ! 0 + sl ! nat v ! 0) (bl ! nat v ! 1 + sl ! nat v ! 1))"
      using cell_at [OF assms(1)] cell_at [OF assms(2)] by simp
  qed
  then show ?thesis by (simp add: nodes_upto_def comp_def)
qed

lemma peak_of_sum:
  assumes "table_ok n bl" and "table_ok n sl"
  shows "\<exists>ps. node_peaks n bl sl = Inr ps \<and> fold max ps 0 = peak (sum_rows bl sl)"
proof -
  have "length bl = nat n" using assms(1) by (simp add: rows_ok_def)
  then show ?thesis unfolding node_peaks_ok [OF assms] peak_def sum_rows_def by (simp add: fold_max_pairs)
qed

text \<open>What a batch would come to with a further stripe of table \<open>sl\<close>.\<close>

definition bins_ok :: "int \<Rightarrow> bins \<Rightarrow> bool" where
  "bins_ok n bins \<longleftrightarrow> (\<forall>(_, bl)\<in>set bins. table_ok n bl)"

definition would_be :: "int \<Rightarrow> rows \<Rightarrow> int list \<times> rows \<Rightarrow> int" where
  "would_be bs sl bin = (if int (length (fst bin)) \<ge> bs then INT_MAX else peak (sum_rows (snd bin) sl))"

lemma sim_bottlenecks_ok:
  assumes "bins_ok n bins" and "table_ok n sl"
  shows "sim_bottlenecks n bs bins sl = Inr (map (would_be bs sl) bins)"
  unfolding sim_bottlenecks_def
proof (rule mapR_pure)
  fix bin assume "bin \<in> set bins"
  then have "table_ok n (snd bin)" using assms(1) by (auto simp: bins_ok_def)
  from peak_of_sum [OF this assms(2)]
  show "(case bin of (sids, bl) \<Rightarrow> if int (length sids) \<ge> bs then Inr INT_MAX
        else bindR (node_peaks n bl sl) (\<lambda>ps. Inr (fold max ps 0))) = Inr (would_be bs sl bin)"
    by (auto simp: would_be_def split: prod.splits)
qed

section \<open>The contract of a chooser\<close>

text \<open>While some batch has room, the chosen one has room, and no batch would come to less.\<close>

locale batch_chooser =
  fixes chooser :: chooser and n :: int
  assumes choice: "bins_ok n bins \<Longrightarrow> table_ok n sl \<Longrightarrow> length sims = length bins \<Longrightarrow> j < length sims \<Longrightarrow>
    sims ! j < INT_MAX \<Longrightarrow>
    \<exists>b<length sims. chooser bins sl sims = Inr (int b) \<and> (\<forall>i<length sims. sims ! b \<le> sims ! i)"

lemma first_min:
  fixes xs :: "int list"
  shows "\<exists>r. fold (\<lambda>(b, bn) (best, mn). if bn < mn then (b, bn) else (best, mn)) (zip (map int [k..<k + length xs]) xs) (b0, m0) = r \<and>
    snd r \<le> m0 \<and> (\<forall>x\<in>set xs. snd r \<le> x) \<and> (r = (b0, m0) \<or> (\<exists>j<length xs. r = (int (k + j), xs ! j)))"
proof (induction xs arbitrary: k b0 m0)
  case (Cons x xs)
  let ?z = "if x < m0 then (int k, x) else (b0, m0)"
  have z: "[k..<k + length (x # xs)] = k # [Suc k..<Suc k + length xs]" by (simp add: upt_conv_Cons del: upt_Suc)
  obtain r where r: "fold (\<lambda>(b, bn) (best, mn). if bn < mn then (b, bn) else (best, mn))
      (zip (map int [Suc k..<Suc k + length xs]) xs) ?z = r" "snd r \<le> snd ?z" "\<forall>y\<in>set xs. snd r \<le> y"
    "r = ?z \<or> (\<exists>j<length xs. r = (int (Suc k + j), xs ! j))"
    using Cons [of "Suc k" "fst ?z" "snd ?z"] by auto
  have "r = (b0, m0) \<or> (\<exists>j<length (x # xs). r = (int (k + j), (x # xs) ! j))"
    using r(4)
  proof
    assume "r = ?z"
    then show ?thesis by (cases "x < m0") auto
  next
    assume "\<exists>j<length xs. r = (int (Suc k + j), xs ! j)"
    then obtain j where "j < length xs" "r = (int (Suc k + j), xs ! j)" by blast
    then show ?thesis by (intro disjI2 exI [of _ "Suc j"]) simp
  qed
  moreover have "snd r \<le> m0" "snd r \<le> x" using r(2) by (auto split: if_splits)
  ultimately show ?case using r(1,3) unfolding z by (intro exI [of _ r]) simp
qed simp

interpretation first_best: batch_chooser first_best n for n
proof
  fix bins :: bins and sl :: rows and sims :: "int list" and j
  assume j: "j < length sims" "sims ! j < INT_MAX"
  obtain r where r: "fold (\<lambda>(b, bn) (best, mn). if bn < mn then (b, bn) else (best, mn)) (zip (map int [0..<length sims]) sims) (0, INT_MAX) = r"
    "\<forall>x\<in>set sims. snd r \<le> x" "r = (0, INT_MAX) \<or> (\<exists>b<length sims. r = (int b, sims ! b))"
    using first_min [of 0 sims 0 INT_MAX] by auto
  have "snd r < INT_MAX" using bspec [OF r(2) nth_mem [OF j(1)]] j(2) by linarith
  then obtain b where "b < length sims" "r = (int b, sims ! b)" using r(3) by auto
  then show "\<exists>b<length sims. first_best bins sl sims = Inr (int b) \<and> (\<forall>i<length sims. sims ! b \<le> sims ! i)"
    using r(1,2) by (intro exI [of _ b]) (simp add: first_best_def)
qed

lemma even_scan:
  fixes xs :: "int list"
  assumes "bins_ok n bins" "table_ok n sl" "k + length xs \<le> length bins"
  shows "\<exists>best' var'. foldR (even_step n bins sl mn)
           (zip (map int [k..<k + length xs]) xs) (best, var) = Inr (best', var') \<and>
    (best' = best \<and> (best = -1 \<longrightarrow> mn \<notin> set xs) \<or> (\<exists>j<length xs. best' = int (k + j) \<and> xs ! j = mn))"
  using assms(3)
proof (induction xs arbitrary: k best var)
  case (Cons x xs)
  have z: "[k..<k + length (x # xs)] = k # [Suc k..<Suc k + length xs]" by (simp add: upt_conv_Cons del: upt_Suc)
  have k: "k < length bins" "Suc k + length xs \<le> length bins" using Cons.prems by simp_all
  then have "bins ! k \<in> set bins" by simp
  then have "table_ok n (snd (bins ! k))" using assms(1) unfolding bins_ok_def by (metis (mono_tags) case_prod_beta)
  from peak_of_sum [OF this assms(2)] obtain ps where ps: "node_peaks n (snd (bins ! k)) sl = Inr ps" by blast
  have "even_step n bins sl mn (int k, x) (best, var) =
      Inr (if x = mn \<and> (best = -1 \<or> variance ps < var) then (int k, variance ps) else (best, var))"
    using k(1) ps by (cases "bins ! k") (auto simp: even_step_def)
  then obtain b1 v1 where one: "even_step n bins sl mn (int k, x) (best, var) = Inr (b1, v1)"
    "b1 = best \<and> (x \<noteq> mn \<or> best \<noteq> -1) \<or> b1 = int k \<and> x = mn" by (auto split: if_splits)
  obtain b2 v2 where rest: "foldR (even_step n bins sl mn) (zip (map int [Suc k..<Suc k + length xs]) xs) (b1, v1) = Inr (b2, v2)"
    "b2 = b1 \<and> (b1 = -1 \<longrightarrow> mn \<notin> set xs) \<or> (\<exists>j<length xs. b2 = int (Suc k + j) \<and> xs ! j = mn)"
    using Cons.IH [OF k(2), of b1 v1] by (elim exE conjE) (rule that)
  have "b2 = best \<and> (best = -1 \<longrightarrow> mn \<notin> set (x # xs)) \<or> (\<exists>j<length (x # xs). b2 = int (k + j) \<and> (x # xs) ! j = mn)"
    using rest(2)
  proof
    assume b2: "b2 = b1 \<and> (b1 = -1 \<longrightarrow> mn \<notin> set xs)"
    show ?thesis using one(2)
    proof
      assume "b1 = best \<and> (x \<noteq> mn \<or> best \<noteq> -1)"
      with b2 show ?thesis by (intro disjI1) auto
    next
      assume "b1 = int k \<and> x = mn"
      with b2 show ?thesis by (intro disjI2 exI [of _ 0]) simp
    qed
  next
    assume "\<exists>j<length xs. b2 = int (Suc k + j) \<and> xs ! j = mn"
    then obtain j where "j < length xs" "b2 = int (Suc k + j)" "xs ! j = mn" by blast
    then show ?thesis by (intro disjI2 exI [of _ "Suc j"]) simp
  qed
  moreover have "foldR (even_step n bins sl mn) (zip (map int [k..<k + length (x # xs)]) (x # xs)) (best, var) = Inr (b2, v2)"
    unfolding z list.map zip_Cons_Cons foldR.simps one(1) bindR_Inr by (rule rest(1))
  ultimately show ?case by blast
qed simp

lemma fold_min_le:
  fixes xs :: "int list"
  shows "fold min xs m \<le> m \<and> (\<forall>x\<in>set xs. fold min xs m \<le> x) \<and> (fold min xs m = m \<or> fold min xs m \<in> set xs)"
proof (induction xs arbitrary: m)
  case (Cons x xs)
  show ?case using Cons [of "min x m"] by (auto simp: min_def split: if_splits)
qed simp

interpretation even_best: batch_chooser "even_best n" n for n
proof
  fix bins :: bins and sl :: rows and sims :: "int list" and j
  assume A: "bins_ok n bins" "table_ok n sl" "length sims = length bins" "j < length sims" "sims ! j < INT_MAX"
  let ?mn = "fold min sims INT_MAX"
  have mn1: "\<forall>x\<in>set sims. ?mn \<le> x" "?mn = INT_MAX \<or> ?mn \<in> set sims"
    using fold_min_le [of sims INT_MAX] by blast+
  have "?mn < INT_MAX" using bspec [OF mn1(1) nth_mem [OF A(4)]] A(5) by linarith
  with mn1 have mn: "\<forall>x\<in>set sims. ?mn \<le> x" "?mn \<in> set sims" by auto
  from even_scan [OF A(1,2), of 0 sims ?mn "-1" 0] A(3) mn(2) obtain b var' where
    "b < length sims" "sims ! b = ?mn" "even_best n bins sl sims = Inr (int b)"
    by (auto simp: even_best_def Let_def)
  then show "\<exists>b<length sims. even_best n bins sl sims = Inr (int b) \<and> (\<forall>i<length sims. sims ! b \<le> sims ! i)"
    using mn(1) by auto
qed

section \<open>Packing keeps the stripes\<close>

text \<open>Every stripe has a table with cells up to \<open>E\<close>.\<close>

definition dummies_ok :: "int \<Rightarrow> int \<Rightarrow> rows umap \<Rightarrow> int list \<Rightarrow> bool" where
  "dummies_ok n E dummy xs \<longleftrightarrow> (\<forall>x\<in>set xs. below n (um_get [] dummy x) E)"

lemma below_sum:
  assumes "below n t a" and "below n u b" shows "below n (sum_rows t u) (a + b)"
proof -
  have ok: "table_ok n t" "table_ok n u" using assms by (simp_all add: below_def)
  have "0 \<le> x \<and> x \<le> a + b" if x: "x \<in> set (concat (sum_rows t u))" for x
  proof -
    obtain i where i: "i < nat n" "x = t ! i ! 0 + u ! i ! 0 \<or> x = t ! i ! 1 + u ! i ! 1"
      using x ok(1) by (auto simp: sum_rows_def rows_ok_def)
    have in_t: "t ! i ! j \<in> set (concat t)" if "j < 2" for j
      using ok(1) i(1) that by (auto simp: rows_ok_def list_all_length intro!: bexI [of _ "t ! i"])
    have in_u: "u ! i ! j \<in> set (concat u)" if "j < 2" for j
      using ok(2) i(1) that by (auto simp: rows_ok_def list_all_length intro!: bexI [of _ "u ! i"])
    have "0 \<le> t ! i ! j \<and> t ! i ! j \<le> a" "0 \<le> u ! i ! j \<and> u ! i ! j \<le> b" if "j < 2" for j
      using in_t [OF that] in_u [OF that] assms by (auto simp: below_def)
    from this [of 0] this [of 1] show ?thesis using i(2) by auto
  qed
  moreover have "table_ok n (sum_rows t u)" using add_tables_sum(2) ok by blast
  ultimately show ?thesis by (simp add: below_def)
qed

lemma below_peak: "below n t b \<Longrightarrow> 0 \<le> b \<Longrightarrow> peak t \<le> b"
  by (auto simp: below_def peak_def)

lemma batch_table_snoc:
  "batch_table n dummy (sids @ [sid]) = bindR (batch_table n dummy sids) (\<lambda>t. add_tables t (um_get [] dummy sid))"
  unfolding batch_table_def foldR_append by (intro bindR_cong refl) (simp only: foldR_one)

lemma batch_table_ok:
  assumes "dummies_ok n E dummy sids" and "0 \<le> E"
  shows "\<exists>t. batch_table n dummy sids = Inr t \<and> below n t (int (length sids) * E)"
  using assms(1)
proof (induction sids rule: rev_induct)
  case Nil
  show ?case using below_zero [of 0 n] by (simp add: batch_table_def)
next
  case (snoc sid sids)
  obtain t where t: "batch_table n dummy sids = Inr t" "below n t (int (length sids) * E)"
    using snoc by (auto simp: dummies_ok_def)
  have u: "below n (um_get [] dummy sid) E" using snoc.prems by (simp add: dummies_ok_def)
  have "add_tables t (um_get [] dummy sid) = Inr (sum_rows t (um_get [] dummy sid))"
    using add_tables_sum(1) t(2) u by (auto simp: below_def)
  then show ?case using t(1) below_sum [OF t(2) u] by (simp add: batch_table_snoc algebra_simps)
qed

definition packed :: "int \<Rightarrow> rows umap \<Rightarrow> nat \<Rightarrow> int list \<Rightarrow> bins \<Rightarrow> bool" where
  "packed n dummy bs xs bins \<longleftrightarrow> mset (concat (map fst bins)) = mset xs \<and>
     (\<forall>bin\<in>set bins. length (fst bin) \<le> bs \<and> batch_table n dummy (fst bin) = Inr (snd bin))"

lemma packed_tables:
  assumes "packed n dummy bs xs bins" and "dummies_ok n E dummy xs" and "0 \<le> E" and "bin \<in> set bins"
  shows "below n (snd bin) (int (length (fst bin)) * E)"
proof -
  have "set (concat (map fst bins)) = set xs" using assms(1) mset_eq_setD unfolding packed_def by blast
  then have "dummies_ok n E dummy (fst bin)" using assms(2,4) by (auto simp: dummies_ok_def)
  from batch_table_ok [OF this assms(3)] show ?thesis using assms(1,4) by (auto simp: packed_def)
qed

lemma room_left:
  assumes "packed n dummy bs xs bins" and "length xs < length bins * bs"
  shows "\<exists>bin\<in>set bins. length (fst bin) < bs"
proof (rule ccontr)
  assume "\<not> ?thesis"
  then have "length bins * bs \<le> (\<Sum>bin\<leftarrow>bins. length (fst bin))"
    using sum_list_mono [of bins "\<lambda>_. bs" "\<lambda>bin. length (fst bin)"] by (simp add: sum_list_triv not_less)
  also have "\<dots> = length (concat (map fst bins))" by (simp add: length_concat comp_def)
  also have "\<dots> = length xs" using assms(1) mset_eq_length unfolding packed_def by blast
  finally show False using assms(2) by simp
qed

lemma mset_concat_update:
  assumes "b < length xs" shows "mset (concat (xs[b := y])) + mset (xs ! b) = mset (concat xs) + mset y"
proof -
  have "xs = take b xs @ xs ! b # drop (Suc b) xs" by (rule id_take_nth_drop [OF assms])
  then have "mset (concat xs) = mset (concat (take b xs)) + (mset (xs ! b) + mset (concat (drop (Suc b) xs)))"
    by (metis concat.simps(2) concat_append mset_append)
  then show ?thesis using assms by (simp add: upd_conv_take_nth_drop)
qed

lemma mset_put:
  assumes "b < length bins" and "fst bin = fst (bins ! b) @ [sid]"
  shows "mset (concat (map fst (bins[b := bin]))) = add_mset sid (mset (concat (map fst bins)))"
  using mset_concat_update [of b "map fst bins" "fst bin"] assms by (simp add: map_update)

text \<open>The stripe goes to a batch with room whose bottleneck becomes no larger than that of any other
  batch with room would.\<close>

definition best_fit :: "nat \<Rightarrow> rows \<Rightarrow> int \<Rightarrow> bins \<Rightarrow> bins \<Rightarrow> bool" where
  "best_fit bs sl sid bins bins' \<longleftrightarrow>
     (\<exists>b<length bins. length (fst (bins ! b)) < bs \<and>
        bins' = bins[b := (fst (bins ! b) @ [sid], sum_rows (snd (bins ! b)) sl)] \<and>
        (\<forall>j<length bins. length (fst (bins ! j)) < bs \<longrightarrow>
           peak (sum_rows (snd (bins ! b)) sl) \<le> peak (sum_rows (snd (bins ! j)) sl)))"

context batch_chooser
begin

lemma pack_one_ok:
  assumes "packed n dummy bs xs bins" and d: "dummies_ok n E dummy (xs @ [sid])" and E: "0 \<le> E" "int bs * E < INT_MAX"
    and room: "length xs < length bins * bs"
  shows "\<exists>bins'. pack_one chooser n (int bs) dummy sid bins = Inr bins' \<and> packed n dummy bs (xs @ [sid]) bins' \<and>
    length bins' = length bins \<and> best_fit bs (um_get [] dummy sid) sid bins bins'"
proof -
  let ?sl = "um_get [] dummy sid" and ?sims = "map (would_be (int bs) (um_get [] dummy sid)) bins"
  have dx: "dummies_ok n E dummy xs" and sl: "below n ?sl E" using d by (simp_all add: dummies_ok_def)
  have small: "below n (snd bin) (int (length (fst bin)) * E)" if "bin \<in> set bins" for bin
    by (rule packed_tables [OF assms(1) dx E(1) that])
  then have ok: "bins_ok n bins" "table_ok n ?sl" using sl by (force simp: bins_ok_def below_def)+
  obtain bin where bin: "bin \<in> set bins" "length (fst bin) < bs" using room_left [OF assms(1) room] by blast
  then obtain j where j: "j < length bins" "bins ! j = bin" by (auto simp: in_set_conv_nth)
  have "peak (sum_rows (snd bin) ?sl) \<le> int (length (fst bin)) * E + E"
    using below_peak [OF below_sum [OF small [OF bin(1)] sl]] E(1) by simp
  also have "\<dots> = (int (length (fst bin)) + 1) * E" by (simp add: algebra_simps)
  also have "\<dots> \<le> int bs * E" using bin(2) E(1) by (intro mult_right_mono) simp_all
  finally have "?sims ! j < INT_MAX" using j bin(2) E(2) by (simp add: would_be_def)
  from choice [OF ok _ _ this] j(1) obtain b where b: "b < length bins" "chooser bins ?sl ?sims = Inr (int b)"
    "\<forall>i<length bins. ?sims ! b \<le> ?sims ! i" by auto
  have "?sims ! b < INT_MAX" using b(3) j(1) \<open>?sims ! j < INT_MAX\<close> order_le_less_trans by blast
  then have fits: "length (fst (bins ! b)) < bs" using b(1) by (simp add: would_be_def split: if_splits)
  have mem: "bins ! b \<in> set bins" using b(1) by simp
  have add: "add_tables (snd (bins ! b)) ?sl = Inr (sum_rows (snd (bins ! b)) ?sl)"
    using add_tables_sum(1) small [OF mem] sl by (auto simp: below_def)
  let ?bin = "(fst (bins ! b) @ [sid], sum_rows (snd (bins ! b)) ?sl)"
  have "pack_one chooser n (int bs) dummy sid bins = Inr (bins[b := ?bin])"
    using sim_bottlenecks_ok [OF ok, of "int bs"] b(1,2) add by (auto simp: pack_one_def Let_def split: prod.splits)
  moreover have "packed n dummy bs (xs @ [sid]) (bins[b := ?bin])"
  proof -
    have "batch_table n dummy (fst ?bin) = Inr (snd ?bin)"
      using assms(1) mem add by (auto simp: packed_def batch_table_snoc)
    moreover have "set (bins[b := ?bin]) \<subseteq> insert ?bin (set bins)" by (rule set_update_subset_insert)
    ultimately have "\<forall>x\<in>set (bins[b := ?bin]). length (fst x) \<le> bs \<and> batch_table n dummy (fst x) = Inr (snd x)"
      using assms(1) fits unfolding packed_def by fastforce
    moreover have "mset (concat (map fst (bins[b := ?bin]))) = mset (xs @ [sid])"
      using mset_put [OF b(1), of ?bin sid] assms(1) by (simp add: packed_def)
    ultimately show ?thesis unfolding packed_def by blast
  qed
  moreover have "peak (sum_rows (snd (bins ! b)) ?sl) \<le> peak (sum_rows (snd (bins ! j)) ?sl)"
    if "j < length bins" "length (fst (bins ! j)) < bs" for j
    using spec [OF b(3), of j] that b(1) fits by (simp add: would_be_def)
  then have "best_fit bs ?sl sid bins (bins[b := ?bin])" using b(1) fits unfolding best_fit_def by blast
  ultimately show ?thesis by (intro exI [of _ "bins[b := ?bin]"]) simp
qed

lemma pack_ok:
  assumes d: "dummies_ok n E dummy xs" and E: "0 \<le> E" "int bs * E < INT_MAX" and room: "length xs \<le> nb * bs"
  shows "\<exists>bins. pack chooser n (int bs) (int nb) dummy xs = Inr bins \<and> packed n dummy bs xs bins \<and> length bins = nb \<and>
    (\<forall>ys y. xs = ys @ [y] \<longrightarrow> (\<exists>bins0. pack chooser n (int bs) (int nb) dummy ys = Inr bins0 \<and>
       best_fit bs (um_get [] dummy y) y bins0 bins))"
  using d room
proof (induction xs rule: rev_induct)
  case Nil
  then show ?case by (simp add: pack_def packed_def batch_table_def)
next
  case (snoc x xs)
  then obtain bins where bins: "pack chooser n (int bs) (int nb) dummy xs = Inr bins" "packed n dummy bs xs bins"
    "length bins = nb" by (auto simp: dummies_ok_def)
  moreover have "pack chooser n (int bs) (int nb) dummy (xs @ [x]) = pack_one chooser n (int bs) dummy x bins"
    using bins(1) by (simp only: pack_def foldR_append bindR_Inr foldR_one)
  ultimately show ?case using pack_one_ok [OF bins(2) snoc.prems(1) E] snoc.prems(2) by auto
qed

end

section \<open>Annealing keeps the stripes and never makes the plan worse\<close>

definition same_stripes :: "int list list \<Rightarrow> int list list \<Rightarrow> bool" where
  "same_stripes xs ys \<longleftrightarrow> mset (concat ys) = mset (concat xs) \<and> map length ys = map length xs"

definition drawn :: "int list list \<Rightarrow> move \<Rightarrow> bool" where
  \<comment> \<open>two different batches and, when both hold stripes, a stripe of each\<close>
  "drawn xs mv \<longleftrightarrow> 0 \<le> mv_b1 mv \<and> nat (mv_b1 mv) < length xs \<and> 0 \<le> mv_b2 mv \<and> nat (mv_b2 mv) < length xs \<and>
     mv_b1 mv \<noteq> mv_b2 mv \<and>
     (xs ! nat (mv_b1 mv) \<noteq> [] \<and> xs ! nat (mv_b2 mv) \<noteq> [] \<longrightarrow>
        0 \<le> mv_s1 mv \<and> nat (mv_s1 mv) < length (xs ! nat (mv_b1 mv)) \<and>
        0 \<le> mv_s2 mv \<and> nat (mv_s2 mv) < length (xs ! nat (mv_b2 mv)))"

lemma same_stripes_nth:
  assumes "same_stripes xs ys" shows "length ys = length xs" "i < length xs \<Longrightarrow> length (ys ! i) = length (xs ! i)"
proof -
  have eq: "map length ys = map length xs" using assms by (simp add: same_stripes_def)
  then show len: "length ys = length xs" by (rule map_eq_imp_length_eq)
  show "length (ys ! i) = length (xs ! i)" if "i < length xs" using arg_cong [OF eq, of "\<lambda>l. l ! i"] that len by simp
qed

lemma total_makespan_ok:
  assumes "dummies_ok n E dummy (concat sol)" and "0 \<le> E"
  shows "\<exists>e. total_makespan n dummy sol = Inr e"
proof -
  have "\<exists>e. foldR (\<lambda>sids total. bindR (batch_table n dummy sids) (\<lambda>t. bindR (bottleneck t) (\<lambda>b. Inr (total + b)))) sol e0 = Inr e" for e0
    using assms(1)
  proof (induction sol arbitrary: e0)
    case (Cons sids sol)
    have "dummies_ok n E dummy sids" using Cons.prems by (simp add: dummies_ok_def)
    from batch_table_ok [OF this assms(2)] obtain t where t: "batch_table n dummy sids = Inr t" "table_ok n t"
      by (auto simp: below_def)
    have "dummies_ok n E dummy (concat sol)" using Cons.prems by (simp add: dummies_ok_def)
    from Cons.IH [OF this, of "e0 + peak t"] show ?case by (simp add: t(1) bottleneck_peak [OF t(2)])
  qed simp
  then show ?thesis by (simp add: total_makespan_def)
qed

lemma swap_mset:
  assumes "Q + A = T + X" and "P + B = Q + Y" and "X + {#u#} = A + {#v#}" and "Y + {#v#} = B + {#u#}"
  shows "P = T"
proof (rule multiset_eqI)
  fix z
  from assms [THEN arg_cong, of "\<lambda>M. count M z"] show "count P z = count T z"
    by (simp only: count_union)
qed

lemma swap_stripes_ok:
  assumes "drawn xs mv" and "xs ! nat (mv_b1 mv) \<noteq> []" "xs ! nat (mv_b2 mv) \<noteq> []"
  shows "\<exists>ys. swap_stripes (mv_b1 mv) (mv_s1 mv) (mv_b2 mv) (mv_s2 mv) xs = Inr ys \<and> same_stripes xs ys"
proof -
  let ?a = "nat (mv_b1 mv)" and ?b = "nat (mv_b2 mv)" and ?i = "nat (mv_s1 mv)" and ?j = "nat (mv_s2 mv)"
  have D: "0 \<le> mv_b1 mv" "?a < length xs" "0 \<le> mv_b2 mv" "?b < length xs" "?a \<noteq> ?b"
    "0 \<le> mv_s1 mv" "?i < length (xs ! ?a)" "0 \<le> mv_s2 mv" "?j < length (xs ! ?b)"
    using assms by (auto simp: drawn_def eq_nat_nat_iff)
  let ?u = "xs ! ?a ! ?i" and ?v = "xs ! ?b ! ?j"
  let ?x = "(xs ! ?a)[?i := ?v]" and ?y = "(xs ! ?b)[?j := ?u]"
  let ?ys = "xs[?a := ?x, ?b := ?y]"
  have x: "mset ?x + {#?u#} = mset (xs ! ?a) + {#?v#}" "mset ?y + {#?v#} = mset (xs ! ?b) + {#?u#}"
    using D by (simp_all add: mset_update add_mset_commute)
  have y: "mset (concat (xs[?a := ?x])) + mset (xs ! ?a) = mset (concat xs) + mset ?x"
    "mset (concat ?ys) + mset (xs ! ?b) = mset (concat (xs[?a := ?x])) + mset ?y"
    using mset_concat_update [OF D(2), of ?x] mset_concat_update [of ?b "xs[?a := ?x]" ?y] D(4,5) by simp_all
  have "mset (concat ?ys) = mset (concat xs)" by (rule swap_mset [OF y x])
  moreover have "map length ?ys = map length xs" using D(2,4) by (intro nth_equalityI) (simp_all add: nth_list_update)
  moreover have "swap_stripes (mv_b1 mv) (mv_s1 mv) (mv_b2 mv) (mv_s2 mv) xs = Inr ?ys"
    using D by (simp add: swap_stripes_def)
  ultimately show ?thesis by (auto simp: same_stripes_def)
qed

definition anneal_inv :: "int \<Rightarrow> rows umap \<Rightarrow> int list list \<Rightarrow> int \<Rightarrow> anneal_state \<Rightarrow> bool" where
  "anneal_inv n dummy xs e a \<longleftrightarrow> same_stripes xs (cur_sol a) \<and> same_stripes xs (best_sol a) \<and>
     total_makespan n dummy (best_sol a) = Inr (best_energy a) \<and> best_energy a \<le> e"

lemma dummies_same:
  assumes "same_stripes xs ys" and "dummies_ok n E dummy (concat xs)" shows "dummies_ok n E dummy (concat ys)"
  using assms mset_eq_setD [of "concat ys" "concat xs"] by (simp add: same_stripes_def dummies_ok_def)

lemma anneal_round_ok:
  assumes inv: "anneal_inv n dummy xs e a" and mv': "drawn (cur_sol a) mv" and d: "dummies_ok n E dummy (concat xs)" and E: "0 \<le> E"
  shows "\<exists>a'. anneal_round n dummy mv a = Inr a' \<and> anneal_inv n dummy xs e a'"
proof -
  let ?x1 = "cur_sol a ! nat (mv_b1 mv)" and ?x2 = "cur_sol a ! nat (mv_b2 mv)"
  have cur: "same_stripes xs (cur_sol a)" using inv by (simp add: anneal_inv_def)
  from mv' have get: "vget (cur_sol a) (mv_b1 mv) = Inr ?x1" "vget (cur_sol a) (mv_b2 mv) = Inr ?x2" by (simp_all add: drawn_def)
  show ?thesis
  proof (cases "?x1 = [] \<or> ?x2 = []")
    case True
    then show ?thesis using inv by (auto simp: anneal_round_def get)
  next
    case False
    with swap_stripes_ok [OF mv'] obtain ys where
      ys: "swap_stripes (mv_b1 mv) (mv_s1 mv) (mv_b2 mv) (mv_s2 mv) (cur_sol a) = Inr ys" "same_stripes (cur_sol a) ys" by blast
    have same: "same_stripes xs ys" using cur ys(2) by (simp add: same_stripes_def)
    obtain f where f: "total_makespan n dummy ys = Inr f"
      using total_makespan_ok [OF dummies_same [OF same d] E] by blast
    let ?moved = "a\<lparr>cur_sol := ys, cur_energy := f\<rparr>"
    have "anneal_round n dummy mv a = Inr (if f < cur_energy a
        then (if f < best_energy a then ?moved\<lparr>best_sol := ys, best_energy := f\<rparr> else ?moved)
        else if accepts mv (f - cur_energy a) then ?moved else a)"
      using False by (auto simp: anneal_round_def get ys(1) f Let_def)
    then show ?thesis using inv same f by (auto simp: anneal_inv_def)
  qed
qed

lemma anneal_ok:
  assumes mv: "\<forall>i sol. 1 < length sol \<longrightarrow> drawn sol (moves i sol)" and d: "dummies_ok n E dummy (concat xs)" and E: "0 \<le> E"
  shows "\<exists>ys e e'. anneal n dummy moves xs = Inr ys \<and> same_stripes xs ys \<and>
    total_makespan n dummy xs = Inr e \<and> total_makespan n dummy ys = Inr e' \<and> e' \<le> e"
proof -
  obtain e where e: "total_makespan n dummy xs = Inr e" using total_makespan_ok [OF d E] by blast
  show ?thesis
  proof (cases "length xs > 1")
    case False
    then show ?thesis using e by (auto simp: anneal_def same_stripes_def)
  next
    case True
    have "\<exists>a. foldR (\<lambda>i a. anneal_round n dummy (moves i (cur_sol a)) a) [0..<cooling_steps * 50]
        \<lparr>cur_sol = xs, cur_energy = e, best_sol = xs, best_energy = e\<rparr> = Inr a \<and> anneal_inv n dummy xs e a"
    proof (rule foldR_invariant)
      show "anneal_inv n dummy xs e \<lparr>cur_sol = xs, cur_energy = e, best_sol = xs, best_energy = e\<rparr>"
        using e by (simp add: anneal_inv_def same_stripes_def)
    next
      fix i a assume a: "anneal_inv n dummy xs e a"
      then have "length (cur_sol a) = length xs" using same_stripes_nth(1) unfolding anneal_inv_def by blast
      then have "drawn (cur_sol a) (moves i (cur_sol a))" using mv True by simp
      from anneal_round_ok [OF a this d E]
      show "\<exists>a'. anneal_round n dummy (moves i (cur_sol a)) a = Inr a' \<and> anneal_inv n dummy xs e a'" .
    qed
    then obtain a where a: "foldR (\<lambda>i a. anneal_round n dummy (moves i (cur_sol a)) a) [0..<cooling_steps * 50]
        \<lparr>cur_sol = xs, cur_energy = e, best_sol = xs, best_energy = e\<rparr> = Inr a" "anneal_inv n dummy xs e a" by blast
    then have "anneal n dummy moves xs = Inr (best_sol a)" using True e by (simp add: anneal_def)
    then show ?thesis using a(2) e by (auto simp: anneal_inv_def)
  qed
qed

section \<open>Properties\<close>

text \<open>C4: the greedy packing of \<open>NewFire\<close> and of \<open>NewFireNew\<close> is sound: with room for all stripes it never
  faults, puts every stripe into exactly one batch, keeps the batches within \<open>_batch_size\<close>, and
  the load table it carries along for a batch is the sum over its stripes; every stripe goes to a
  batch with room whose bottleneck becomes no larger than that of any other batch with room would.\<close>

theorem packing_correct:
  assumes "dummies_ok n E dummy xs" and "0 \<le> E" and "int bs * E < INT_MAX" and "length xs \<le> nb * bs"
    and "choose_batch \<in> {first_best, even_best n}"
  shows "\<exists>bins. pack choose_batch n (int bs) (int nb) dummy xs = Inr bins \<and> length bins = nb \<and>
    mset (concat (map fst bins)) = mset xs \<and>
    (\<forall>bin\<in>set bins. length (fst bin) \<le> bs \<and> batch_table n dummy (fst bin) = Inr (snd bin)) \<and>
    (\<forall>ys y. xs = ys @ [y] \<longrightarrow> (\<exists>bins0. pack choose_batch n (int bs) (int nb) dummy ys = Inr bins0 \<and>
       best_fit bs (um_get [] dummy y) y bins0 bins))"
  using assms(5) first_best.pack_ok [OF assms(1-4)] even_best.pack_ok [OF assms(1-4)] unfolding packed_def by blast

definition sample_dummy :: "rows umap" where
  "sample_dummy = [(0, [[2, 0], [0, 2]]), (1, [[2, 1], [0, 1]]), (2, [[0, 1], [1, 0]])]"

lemma sample_dummies: "dummies_ok 2 2 sample_dummy [0, 1, 2]"
  by code_simp

lemma packing_correct_witness:
  "\<exists>bins. pack (even_best 2) 2 2 2 sample_dummy [0, 1, 2] = Inr bins \<and> mset (concat (map fst bins)) = {#0, 1, 2#}"
  using packing_correct [OF sample_dummies, of 2 2 "even_best 2"] by (auto simp: INT_MAX_def)

text \<open>C5: annealing never loses or doubles a stripe and never makes the plan worse: whatever stripes are
  drawn and whichever worse neighbours are accepted, it ends without a fault, the batches keep their
  sizes and together the same stripes, and the sum of their bottlenecks is at most the one of the
  packing it starts from.\<close>

theorem annealing_never_worse:
  assumes "\<forall>i sol. 1 < length sol \<longrightarrow> drawn sol (moves i sol)" and "dummies_ok n E dummy (concat batches)" and "0 \<le> E"
  shows "\<exists>best e e'. anneal n dummy moves batches = Inr best \<and> mset (concat best) = mset (concat batches) \<and>
    map length best = map length batches \<and>
    total_makespan n dummy batches = Inr e \<and> total_makespan n dummy best = Inr e' \<and> e' \<le> e"
  using anneal_ok [OF assms] unfolding same_stripes_def by blast

definition sample_swaps :: "nat \<Rightarrow> int list list \<Rightarrow> move" where
  "sample_swaps i sol = \<lparr>mv_b1 = 0, mv_b2 = 1, mv_s1 = 0, mv_s2 = 0, accepts = (\<lambda>delta. delta < 3)\<rparr>"

lemma sample_swaps_drawn: "\<forall>i sol. 1 < length sol \<longrightarrow> drawn sol (sample_swaps i sol)"
  by (auto simp: drawn_def sample_swaps_def)

lemma annealing_never_worse_witness:
  "\<exists>best e'. anneal 2 sample_dummy sample_swaps [[0, 1], [2]] = Inr best \<and>
    total_makespan 2 sample_dummy best = Inr e' \<and> e' \<le> 5"
proof -
  have "total_makespan 2 sample_dummy [[0, 1], [2]] = Inr 5" by code_simp
  then show ?thesis
    using annealing_never_worse [OF sample_swaps_drawn, of 2 2 sample_dummy "[[0, 1], [2]]"] sample_dummies by auto
qed

end
