(* ===== verification/Parallel_Fire.thy ===== *)
theory Parallel_Fire
  imports Parallel_Pack
begin

text \<open>
  \<open>genRepairBatchesForMultipleFailureNewFire\<close> and \<open>...NewFireNew\<close> as a whole, and the dispatcher
  \<open>genRepairBatches\<close> (src/src/sol/ParallelSolution.cc): a dry run of every failed stripe, the stripes
  sorted by the bottleneck it shows, packing and annealing (theory \<open>Parallel_Pack\<close>), and the final
  colouring of every batch against its own load table.

  \<open>srt\<close> is \<open>std::sort\<close> with a comparison by weight, which leaves the order of equals open; the maps
  keyed by \<open>Stripe*\<close> are keyed by the index of the stripe.
\<close>

section \<open>The dry run\<close>

definition dry_color :: "(nat \<Rightarrow> int) \<Rightarrow> ec_base \<Rightarrow> int list \<Rightarrow> string \<Rightarrow> table_gen" where
  "dry_color rnd ec fails scenario sol st = LevelNew rnd ec sol fails scenario 0 st"

type_synonym dry = "rows umap \<times> int umap \<times> solution"

definition dry_run :: "(nat \<Rightarrow> int) \<Rightarrow> ec_base \<Rightarrow> int list \<Rightarrow> string \<Rightarrow> int \<Rightarrow> dry \<Rightarrow> dry res" where
  "dry_run rnd ec fails scenario stripeid = (\<lambda>(dummy, weight, s).
     bindR (par_stripe ec fails (dry_color rnd ec fails scenario) stripeid ([], zero_table (cluster_size s), s))
       (\<lambda>(_, lt, s1).
     bindR (bottleneck lt) (\<lambda>b_neck. Inr (um_put stripeid lt dummy, um_put stripeid b_neck weight, s1))))"

section \<open>The final colouring\<close>

definition adopt :: "int umap \<Rightarrow> rows \<Rightarrow> nat \<Rightarrow> stripe \<Rightarrow> (stripe \<times> rows \<times> nat) res" where
  "adopt cl lt c st = bindR (evaluateColoring (setColoring cl st)) (\<lambda>st1. Inr (st1, lt, c))"

definition fire_color :: "(nat \<Rightarrow> int) \<Rightarrow> ec_base \<Rightarrow> int list \<Rightarrow> string \<Rightarrow> int \<Rightarrow> table_gen" where
  \<comment> \<open>both colourings start from copies of the table of the batch\<close>
  "fire_color rnd ec fails scenario meth sol st = (\<lambda>(loadtable, c).
     if meth = 1
     then bindR (LevelNew rnd ec sol fails scenario 0 st (loadtable, c)) (\<lambda>(st1, lt_hyper, c1).
          bindR (bottleneck lt_hyper) (\<lambda>time_hyper.
          let load_hyper = getLoad st1; coloring_hyper = getColoring st1 in
          bindR (LevelNew rnd ec sol fails scenario 1 st1 (loadtable, c1)) (\<lambda>(st2, lt_multi, c2).
          bindR (bottleneck lt_multi) (\<lambda>time_multi.
          if time_multi < time_hyper \<or> time_multi = time_hyper \<and> getLoad st2 \<le> load_hyper
          then adopt (getColoring st2) lt_multi c2 st2
          else adopt coloring_hyper lt_hyper c2 st2))))
     else LevelNew rnd ec sol fails scenario meth st (loadtable, c))"

section \<open>The planner\<close>

definition genRepairBatchesFire ::
    "chooser \<Rightarrow> ((int \<Rightarrow> int) \<Rightarrow> int list \<Rightarrow> int list) \<Rightarrow> (nat \<Rightarrow> int list list \<Rightarrow> move) \<Rightarrow>
     (nat \<Rightarrow> int) \<Rightarrow> ec_base \<Rightarrow> int list \<Rightarrow> string \<Rightarrow> int \<Rightarrow> solution \<Rightarrow> solution res" where
  "genRepairBatchesFire choose_batch srt moves rnd ec fails scenario meth s =
     (let s1 = filterFailedStripes fails s in
      if stripes_to_repair s1 = [] then Inr s1
      else bindR (foldR (dry_run rnd ec fails scenario) (stripes_to_repair s1) ([], [], s1)) (\<lambda>(dummy, weight, s2).
           let sorted_stripes = srt (um_get 0 weight) (stripes_to_repair s1); n = cluster_size s2 in
           bindR (count_batches s2) (\<lambda>s3.
           bindR (pack choose_batch n (batch_size s3) (num_batches s3) dummy sorted_stripes) (\<lambda>bins.
           bindR (anneal n dummy moves (map fst bins)) (\<lambda>balanced_batches.
             foldR (par_list_batch ec fails (fire_color rnd ec fails scenario meth))
               (zip (map int [0..<length balanced_batches]) balanced_batches) s3)))))"

record chance =
  draws :: "nat \<Rightarrow> int"
  shuffled :: "int list \<Rightarrow> int list"
  sorting :: "(int \<Rightarrow> int) \<Rightarrow> int list \<Rightarrow> int list"
  swaps :: "nat \<Rightarrow> int list list \<Rightarrow> move"

definition par_genRepairBatches ::
    "chance \<Rightarrow> ec_base \<Rightarrow> int \<Rightarrow> int list \<Rightarrow> string \<Rightarrow> int \<Rightarrow> solution \<Rightarrow> solution res" where
  \<comment> \<open>\<open>_enqueue\<close> is stored and never read by this planner\<close>
  "par_genRepairBatches ch ec num_failures fails scenario batch_method s =
     (let new = genRepairBatchesNew (draws ch) ec fails scenario;
          fire_new = genRepairBatchesFire (even_best (cluster_size s)) (sorting ch) (swaps ch) (draws ch) ec fails scenario;
          fire = genRepairBatchesFire first_best (sorting ch) (swaps ch) (draws ch) ec fails scenario;
          random = genRepairBatchesRandom (draws ch) (shuffled ch) ec fails scenario in
      bindR (if num_failures = 1
             then (if batch_method = 0 then new 1 s
                   else if batch_method = 1 then fire_new 1 s
                   else if batch_method = 2 then random s
                   else if num_failures = 1 then new 0 s else fire_new 1 s)
             else (if batch_method = 0 then new 1 s
                   else if batch_method = 1 then fire_new 1 s
                   else if batch_method = 2 then random s
                   else if num_failures = 1 then new 1 s else fire 1 s))
        (\<lambda>s1. Inr (s1\<lparr>finish_gen_batches := True\<rparr>)))"

section \<open>Planning a stripe again\<close>

lemma genRepairECDAG_again:
  assumes "genRepairECDAG ec fails s = Inr s1" and "nodelist t = nodelist s"
  shows "genRepairECDAG ec fails t = Inr (t\<lparr>s_ecdag := s_ecdag s1, fail_blk_idxs := fail_blk_idxs s1\<rparr>)"
    and "s1 = s\<lparr>s_ecdag := s_ecdag s1, fail_blk_idxs := fail_blk_idxs s1\<rparr>"
proof -
  have "sort_block t = sort_block s" by (intro ext) (simp add: sort_block_def assms(2))
  with assms(1) show "genRepairECDAG ec fails t = Inr (t\<lparr>s_ecdag := s_ecdag s1, fail_blk_idxs := fail_blk_idxs s1\<rparr>)"
    "s1 = s\<lparr>s_ecdag := s_ecdag s1, fail_blk_idxs := fail_blk_idxs s1\<rparr>"
    by (auto simp: genRepairECDAG_def bindR_eq_Inr)
qed

lemma par_dag_again:
  assumes "par_dag_of ec fails s = Inr s1" and "same_stripe s1 t"
  shows "\<exists>t1. par_dag_of ec fails t = Inr t1 \<and> same_stripe s1 t1"
proof -
  obtain s0 g where r: "genRepairECDAG ec fails s = Inr s0" "refreshECDAG (s_ecdag s0) = Inr g" "s1 = s0\<lparr>s_ecdag := g\<rparr>"
    using assms(1) by (auto simp: par_dag_of_def bindR_eq_Inr getECDAG_def)
  have s0: "s0 = s\<lparr>s_ecdag := s_ecdag s0, fail_blk_idxs := fail_blk_idxs s0\<rparr>" by (rule genRepairECDAG_again(2) [OF r(1) refl])
  then have "nodelist s1 = nodelist s" by (metis r(3) stripe.surjective stripe.update_convs stripe.select_convs(2))
  then have "nodelist t = nodelist s" using assms(2) by (simp add: same_stripe_def)
  from genRepairECDAG_again(1) [OF r(1) this] r(2) have
    "par_dag_of ec fails t = Inr (t\<lparr>s_ecdag := g, fail_blk_idxs := fail_blk_idxs s0\<rparr>)"
    by (simp add: par_dag_of_def getECDAG_def)
  moreover have "same_stripe s1 (t\<lparr>s_ecdag := g, fail_blk_idxs := fail_blk_idxs s0\<rparr>)"
    using assms(2) by (simp add: same_stripe_def r(3))
  ultimately show ?thesis by blast
qed

lemma planned_again:
  assumes "par_planned ec sol fails st st'"
  shows "par_able rnd ec sol fails scenario E st \<Longrightarrow> par_able rnd ec sol fails scenario E st'"
    and "par_planned ec sol fails st' st'' \<Longrightarrow> par_planned ec sol fails st st''"
proof -
  obtain st1 where st1: "par_dag_of ec fails st = Inr st1" "par_good ec sol fails st1 st'"
    using assms by (auto simp: par_planned_def)
  then have "same_stripe st1 st'" by (simp add: par_good_def)
  from par_dag_again [OF st1(1) this] obtain t1 where t1: "par_dag_of ec fails st' = Inr t1" "same_stripe st1 t1" by blast
  show "par_able rnd ec sol fails scenario E st'" if "par_able rnd ec sol fails scenario E st"
    using that st1(1) t1 dag_ready_same [OF t1(2)] by (auto simp: par_able_def)
  show "par_planned ec sol fails st st''" if "par_planned ec sol fails st' st''"
    using that st1(1) t1 par_good_same [OF t1(2)] by (auto simp: par_planned_def)
qed

section \<open>The dry run keeps the promise and yields small tables\<close>

interpretation dry_plan: table_planner "dry_color rnd ec fails scenario" rnd ec sol fails scenario E
  for rnd ec sol fails scenario E
  by unfold_locales (simp only: dry_color_def, rule level_law)

lemma dry_runs:
  assumes "same_cluster sol s" and "distinct sids" and "pointers_ok (stripe_list s) sids"
    and "\<And>sid. sid \<in> set sids \<Longrightarrow> par_able rnd ec sol fails scenario E (stripe_list s ! nat sid)"
    and E: "0 \<le> E" "E < INT_MAX"
  shows "\<exists>dummy' weight' st c. foldR (dry_run rnd ec fails scenario) sids (dummy, weight, s) =
      Inr (dummy', weight', s\<lparr>stripe_list := st, rand_count := c\<rparr>) \<and>
    planned_upto (par_planned ec sol fails) (stripe_list s) sids st \<and>
    dummies_ok (cluster_size sol) E dummy' sids \<and> (\<forall>x. x \<notin> set sids \<longrightarrow> um_get [] dummy' x = um_get [] dummy x)"
  using assms(1-4)
proof (induction sids arbitrary: dummy weight s)
  case Nil
  show ?case
    by (intro exI [of _ dummy] exI [of _ weight] exI [of _ "stripe_list s"] exI [of _ "rand_count s"])
      (simp add: planned_upto_def dummies_ok_def)
next
  case (Cons sid sids)
  let ?n = "cluster_size sol"
  have sid: "0 \<le> sid" "nat sid < length (stripe_list s)" using Cons.prems(3) by (auto simp: pointers_ok_def)
  have n: "cluster_size s = ?n" using Cons.prems(1) by (simp add: same_cluster_def)
  have "par_able rnd ec sol fails scenario E (stripe_list s ! nat sid)" using Cons.prems(4) [of sid] by simp
  from dry_plan.stripe_ok [where cur = "[]", OF Cons.prems(1) sid this below_zero [OF order_refl]] E(2)
  obtain st' lt' c' where step: "par_stripe ec fails (dry_color rnd ec fails scenario) sid ([], zero_table ?n, s) =
      Inr ([sid], lt', s\<lparr>stripe_list := (stripe_list s)[nat sid := st'], rand_count := c'\<rparr>)"
    "par_planned ec sol fails (stripe_list s ! nat sid) st'" "below ?n lt' E" by auto
  have b: "bottleneck lt' = Inr (peak lt')" using bottleneck_peak step(3) by (auto simp: below_def)
  let ?s1 = "s\<lparr>stripe_list := (stripe_list s)[nat sid := st'], rand_count := c'\<rparr>"
  let ?d = "um_put sid lt' dummy" and ?w = "um_put sid (peak lt') weight"
  have other: "stripe_list ?s1 ! nat x = stripe_list s ! nat x" if "x \<in> set sids" for x
  proof -
    have "x \<noteq> sid" "0 \<le> x" using that Cons.prems(2,3) by (auto simp: pointers_ok_def list_all_iff)
    then have "nat x \<noteq> nat sid" using sid(1) by (simp add: eq_nat_nat_iff)
    then show ?thesis by simp
  qed
  have "par_able rnd ec sol fails scenario E (stripe_list ?s1 ! nat x)" if "x \<in> set sids" for x
    unfolding other [OF that] using Cons.prems(4) [of x] that by simp
  moreover have "same_cluster sol ?s1" "pointers_ok (stripe_list ?s1) sids" "distinct sids"
    using Cons.prems by (simp_all add: same_cluster_def pointers_ok_def)
  ultimately obtain dummy' weight' st c where IH: "foldR (dry_run rnd ec fails scenario) sids (?d, ?w, ?s1) =
      Inr (dummy', weight', ?s1\<lparr>stripe_list := st, rand_count := c\<rparr>)"
    "planned_upto (par_planned ec sol fails) (stripe_list ?s1) sids st" "dummies_ok ?n E dummy' sids"
    "\<forall>x. x \<notin> set sids \<longrightarrow> um_get [] dummy' x = um_get [] ?d x"
    using Cons.IH [of ?s1 ?d ?w] by blast
  have "um_get [] dummy' sid = lt'" using IH(4) Cons.prems(2) by (simp add: um_get_put)
  then have "dummies_ok ?n E dummy' (sid # sids)" using IH(3) step(3) by (simp add: dummies_ok_def)
  moreover have "planned_upto (par_planned ec sol fails) (stripe_list s) (sid # sids) st"
  proof -
    have "planned_upto (par_planned ec sol fails) (stripe_list s) [sid] (stripe_list ?s1)"
      using sid step(2) by (auto simp: planned_upto_def nth_list_update)
    from planned_upto_trans [OF this IH(2)] Cons.prems(2) show ?thesis by auto
  qed
  moreover have "dry_run rnd ec fails scenario sid (dummy, weight, s) = Inr (?d, ?w, ?s1)"
    using step(1) b by (simp add: dry_run_def n)
  ultimately show ?case using IH(1,4) by (auto simp: um_get_put)
qed

section \<open>The final colouring keeps the promise\<close>

lemma fire_color_law:
  assumes cl: "same_cluster sol s" and rd: "dag_ready rnd ec sol fails scenario E st"
    and lt: "below (cluster_size sol) lt b" "0 \<le> b" "b + E < INT_MAX"
  shows "\<exists>st' lt' c'. fire_color rnd ec fails scenario meth s st (lt, c) = Inr (st', lt', c') \<and>
    par_good ec sol fails st st' \<and> below (cluster_size sol) lt' (b + E)"
proof (cases "meth = 1")
  case False
  then show ?thesis using level_law [OF assms] by (simp add: fire_color_def)
next
  case True
  let ?n = "cluster_size sol"
  have n0: "0 \<le> ?n" using rd by (auto simp: dag_ready_def par_nodes_def)
  obtain st1 lt1 c1 where L1: "LevelNew rnd ec s fails scenario 0 st (lt, c) = Inr (st1, lt1, c1)"
    "par_good ec sol fails st st1" "below ?n lt1 (b + E)" using level_law [OF assms] by blast
  have same: "same_stripe st st1" using L1(2) by (simp add: par_good_def)
  then have "dag_ready rnd ec sol fails scenario E st1" using rd dag_ready_same by blast
  from level_law [OF cl this lt] obtain st2 lt2 c2 where
    L2: "LevelNew rnd ec s fails scenario 1 st1 (lt, c1) = Inr (st2, lt2, c2)" "par_good ec sol fails st1 st2"
      "below ?n lt2 (b + E)" by blast
  have good2: "par_good ec sol fails st st2" and same2: "same_stripe st1 st2"
    using par_good_same [OF same L2(2)] L2(2) by (simp_all add: par_good_def)
  obtain h where h: "evaluateColoring (setColoring (getColoring st1) st2) = Inr h" "par_good ec sol fails st h"
    using recolor_hyper [OF L1(2) same2 n0] by blast
  obtain m where m: "evaluateColoring (setColoring (getColoring st2) st2) = Inr m" "par_good ec sol fails st m"
    using recolor_hyper [OF good2 same_stripe_ops(1) n0] by blast
  have b: "bottleneck lt1 = Inr (peak lt1)" "bottleneck lt2 = Inr (peak lt2)"
    using bottleneck_peak L1(3) L2(3) by (auto simp: below_def)
  have "fire_color rnd ec fails scenario meth s st (lt, c) =
      Inr (if peak lt2 < peak lt1 \<or> peak lt2 = peak lt1 \<and> getLoad st2 \<le> getLoad st1 then (m, lt2, c2) else (h, lt1, c2))"
    using True L1(1) L2(1) h(1) m(1) b by (simp add: fire_color_def adopt_def Let_def)
  then show ?thesis using h(2) m(2) L1(3) L2(3) by auto
qed

interpretation fire_plan: table_planner "fire_color rnd ec fails scenario meth" rnd ec sol fails scenario E
  for rnd ec fails scenario meth sol E
  by unfold_locales (rule fire_color_law)

section \<open>The planner\<close>

lemma all_filled:
  assumes "\<forall>x\<in>set xss. length x \<le> bs" and "(length xss - 1) * bs < length (concat xss)"
  shows "\<forall>x\<in>set xss. x \<noteq> []"
proof
  fix x assume "x \<in> set xss"
  then obtain us vs where s: "xss = us @ x # vs" by (auto simp: in_set_conv_decomp)
  have le: "length (concat zs) \<le> length zs * bs" if "set zs \<subseteq> set xss" for zs
    using that assms(1) by (induction zs) force+
  show "x \<noteq> []"
  proof
    assume "x = []"
    then have "length (concat xss) = length (concat (us @ vs))" by (simp add: s)
    also have "\<dots> \<le> length (us @ vs) * bs" by (rule le) (auto simp: s)
    finally show False using assms(2) by (simp add: s)
  qed
qed

lemma planned_upto_twice:
  assumes a: "planned_upto (par_planned ec sol fails) st0 xs st1" and b: "planned_upto (par_planned ec sol fails) st1 ys st2"
    and "set ys = set xs"
  shows "planned_upto (par_planned ec sol fails) st0 xs st2"
proof -
  have "length st2 = length st0" using a b by (simp add: planned_upto_def)
  moreover have "if int i \<in> set xs then par_planned ec sol fails (st0 ! i) (st2 ! i) else st2 ! i = st0 ! i"
    if "i < length st0" for i
    using a b assms(3) planned_again(2) that unfolding planned_upto_def by (metis (full_types))
  ultimately show ?thesis unfolding planned_upto_def by blast
qed

lemma genRepairBatchesFire_ok:
  assumes bs: "batch_size s = int bs" "0 < bs" "bs < 2 ^ 31" and "stripes_to_repair s = []"
    and able: "\<forall>st\<in>set (stripe_list s). is_hit fails st \<longrightarrow> par_able rnd ec s fails scenario E st"
    and E: "0 \<le> E" "int bs * E < INT_MAX"
    and srt: "\<forall>w xs. mset (srt w xs) = mset xs"
    and swaps: "\<forall>i sol. 1 < length sol \<longrightarrow> drawn sol (moves i sol)"
    and ch: "choose_batch \<in> {first_best, even_best (cluster_size s)}"
  shows "\<exists>s' bts. genRepairBatchesFire choose_batch srt moves rnd ec fails scenario meth s = Inr s' \<and>
    batch_queue s' = (if batch_request s then batch_queue s @ bts else batch_queue s) \<and>
    batch_list s' = (if batch_request s then batch_list s else batch_list s @ bts) \<and>
    mset (concat (map rb_stripes bts)) = mset (failed_stripes fails (stripe_list s)) \<and>
    batches_ok (stripe_list s') (cluster_size s) bs bts \<and>
    planned_upto (par_planned ec s fails) (stripe_list s) (failed_stripes fails (stripe_list s)) (stripe_list s')"
proof -
  let ?s1 = "filterFailedStripes fails s" and ?xs = "failed_stripes fails (stripe_list s)" and ?n = "cluster_size s"
  let ?P = "par_planned ec s fails"
  have f: "stripe_list ?s1 = stripe_list s" "batch_size ?s1 = batch_size s" "batch_queue ?s1 = batch_queue s"
    "batch_list ?s1 = batch_list s" "batch_request ?s1 = batch_request s" "cluster_size ?s1 = ?n"
    "same_cluster s ?s1" by (simp_all add: filterFailedStripes_def same_cluster_def)
  have xs: "stripes_to_repair ?s1 = ?xs" by (simp add: filterFailedStripes_eq assms(4) failed_stripes_def)
  have d: "distinct ?xs" "pointers_ok (stripe_list ?s1) ?xs"
    by (auto simp: f failed_stripes_def distinct_map pointers_ok_def list_all_iff)
  have ab: "par_able rnd ec s fails scenario E (stripe_list ?s1 ! nat sid)" if "sid \<in> set ?xs" for sid
    using that able by (auto simp: f failed_stripes_def)
  show ?thesis
  proof (cases "?xs = []")
    case True
    have "genRepairBatchesFire choose_batch srt moves rnd ec fails scenario meth s = Inr ?s1"
      using True by (simp add: genRepairBatchesFire_def xs)
    then show ?thesis using True
      by (intro exI [of _ ?s1] exI [of _ "[]"]) (simp add: f batches_ok_def planned_upto_def)
  next
    case False
    have "1 * E \<le> int bs * E" using E(1) bs(2) by (intro mult_right_mono) simp_all
    then have E1: "E < INT_MAX" using E(2) by linarith
    obtain dummy weight st c where dry: "foldR (dry_run rnd ec fails scenario) ?xs ([], [], ?s1) =
        Inr (dummy, weight, ?s1\<lparr>stripe_list := st, rand_count := c\<rparr>)" "planned_upto ?P (stripe_list s) ?xs st"
      "dummies_ok ?n E dummy ?xs"
      using dry_runs [OF f(7) d ab E(1) E1] unfolding f by blast
    let ?s2 = "?s1\<lparr>stripe_list := st, rand_count := c\<rparr>" and ?ys = "srt (um_get 0 weight) ?xs"
    let ?nb = "num_slices bs ?xs"
    let ?s3 = "?s2\<lparr>num_batches := int ?nb\<rparr>"
    have cnt: "count_batches ?s2 = Inr ?s3" by (rule count_batches_ok [OF _ bs(2,3)]) (simp_all add: f bs(1) xs)
    have ys: "mset ?ys = mset ?xs" using srt by blast
    then have ys': "set ?ys = set ?xs" "length ?ys = length ?xs" by (rule mset_eq_setD, rule mset_eq_length)
    have dy: "dummies_ok ?n E dummy ?ys" using dry(3) by (simp add: dummies_ok_def ys'(1))
    have room: "length ?ys \<le> ?nb * bs" using num_slices_bounds(1) [OF bs(2), of ?xs] by (simp add: ys'(2))
    obtain bins where bins: "pack choose_batch ?n (int bs) (int ?nb) dummy ?ys = Inr bins"
      "packed ?n dummy bs ?ys bins" "length bins = ?nb"
      using ch first_best.pack_ok [OF dy E room] even_best.pack_ok [OF dy E room] by blast
    have mb: "mset (concat (map fst bins)) = mset ?ys" using bins(2) by (simp add: packed_def)
    then have "dummies_ok ?n E dummy (concat (map fst bins))"
      using dy mset_eq_setD [OF mb] by (simp add: dummies_ok_def)
    from anneal_ok [OF swaps this E(1)] obtain bss where bss: "anneal ?n dummy moves (map fst bins) = Inr bss"
      "same_stripes (map fst bins) bss" by blast
    have mx: "mset (concat bss) = mset ?xs" using bss(2) mb ys by (simp add: same_stripes_def)
    have lens: "map length bss = map length (map fst bins)" using bss(2) by (simp add: same_stripes_def)
    then have len: "length bss = ?nb" using bins(3) by (metis length_map)
    have le: "\<forall>x\<in>set bss. length x \<le> bs"
    proof
      fix x assume "x \<in> set bss"
      then have "length x \<in> set (map length (map fst bins))" unfolding lens [symmetric] by simp
      then show "length x \<le> bs" using bins(2) by (auto simp: packed_def)
    qed
    have "?nb - 1 < ?nb" using False bs(2) num_slices_bounds(1) [OF bs(2), of ?xs] by (cases ?nb) simp_all
    from num_slices_bounds(2) [OF bs(2) this] have "(length bss - 1) * bs < length (concat bss)"
      using mset_eq_length [OF mx] by (simp add: len)
    then have sizes: "sids \<noteq> [] \<and> length sids \<le> bs" if "sids \<in> set bss" for sids
      using all_filled [OF le] le that by blast
    have set: "set (concat bss) = set ?xs" by (rule mset_eq_setD [OF mx])
    have s3: "stripe_list ?s3 = st" "same_cluster s ?s3" "batch_request ?s3 = batch_request s" "cluster_size ?s3 = ?n"
      "batch_queue ?s3 = batch_queue s" "batch_list ?s3 = batch_list s"
      by (simp_all add: f filterFailedStripes_def same_cluster_def)
    have "length st = length (stripe_list s)" using dry(2) by (simp add: planned_upto_def)
    then have ptr: "pointers_ok (stripe_list ?s3) (concat bss)"
      using d(2) set unfolding pointers_ok_def list_all_iff s3(1) f(1) by auto
    have dist: "distinct (concat bss)" using mset_eq_imp_distinct_iff [OF mx] d(1) by blast
    have "par_able rnd ec s fails scenario E (stripe_list ?s3 ! nat sid)" if m: "sid \<in> set (concat bss)" for sid
    proof -
      have mem: "sid \<in> set ?xs" using m set by blast
      then have "0 \<le> sid" "nat sid < length (stripe_list s)" using d(2) unfolding pointers_ok_def list_all_iff f(1) by blast+
      then have "?P (stripe_list s ! nat sid) (st ! nat sid)" using dry(2) mem unfolding planned_upto_def by fastforce
      then show ?thesis using planned_again(1) ab [OF mem] unfolding s3(1) f(1) by blast
    qed
    from fire_plan.lists_good [OF s3(2) dist ptr this E sizes, where meth = meth]
    obtain s' bts where L: "foldR (par_list_batch ec fails (fire_color rnd ec fails scenario meth))
        (zip (map int [0..<length bss]) bss) ?s3 = Inr s'"
      "batch_queue s' = (if batch_request s then batch_queue s @ bts else batch_queue s)"
      "batch_list s' = (if batch_request s then batch_list s else batch_list s @ bts)" "map rb_stripes bts = bss"
      "batches_ok (stripe_list s') ?n bs bts" "planned_upto ?P st (concat bss) (stripe_list s')"
      unfolding s3 by blast
    have "genRepairBatchesFire choose_batch srt moves rnd ec fails scenario meth s = Inr s'"
      using False dry(1) cnt bins(1) bss(1) L(1) by (simp add: genRepairBatchesFire_def xs Let_def f bs(1))
    then show ?thesis using L(2-5) mx planned_upto_twice [OF dry(2) L(6) set] by auto
  qed
qed

lemma planned_upto_set: "set xs = set ys \<Longrightarrow> planned_upto P st0 xs st = planned_upto P st0 ys st"
  by (simp add: planned_upto_def)

text \<open>What the library promises of the shuffle, the sort and the draws.\<close>

definition chance_ok :: "chance \<Rightarrow> bool" where
  "chance_ok ch \<longleftrightarrow> (\<forall>xs. mset (shuffled ch xs) = mset xs) \<and>
     (\<forall>w xs. mset (sorting ch w xs) = mset xs \<and> sorted_wrt (\<lambda>a b. w b \<le> w a) (sorting ch w xs)) \<and>
     (\<forall>i sol. 1 < length sol \<longrightarrow> drawn sol (swaps ch i sol))"

lemma all_methods_plan:
  assumes "batch_size s = int bs" and "0 < bs" and "bs < 2 ^ 31" and "stripes_to_repair s = []"
    and "\<forall>st\<in>set (stripe_list s). is_hit fails st \<longrightarrow> par_able (draws ch) ec s fails scenario E st"
    and "0 \<le> E" and "int bs * E < INT_MAX" and "chance_ok ch"
  shows "\<exists>s' bts. par_genRepairBatches ch ec num_failures fails scenario batch_method s = Inr s' \<and>
    batch_queue s' = (if batch_request s then batch_queue s @ bts else batch_queue s) \<and>
    batch_list s' = (if batch_request s then batch_list s else batch_list s @ bts) \<and>
    mset (concat (map rb_stripes bts)) = mset (failed_stripes fails (stripe_list s)) \<and>
    batches_ok (stripe_list s') (cluster_size s) bs bts \<and>
    planned_upto (par_planned ec s fails) (stripe_list s) (failed_stripes fails (stripe_list s)) (stripe_list s') \<and>
    finish_gen_batches s'"
proof -
  let ?s1 = "filterFailedStripes fails s" and ?xs = "failed_stripes fails (stripe_list s)"
  define plans where "plans r \<longleftrightarrow> (\<exists>s' bts. r = Inr s' \<and>
    batch_queue s' = (if batch_request s then batch_queue s @ bts else batch_queue s) \<and>
    batch_list s' = (if batch_request s then batch_list s else batch_list s @ bts) \<and>
    mset (concat (map rb_stripes bts)) = mset ?xs \<and> batches_ok (stripe_list s') (cluster_size s) bs bts \<and>
    planned_upto (par_planned ec s fails) (stripe_list s) ?xs (stripe_list s'))" for r :: "solution res"
  have C: "\<forall>xs. mset (shuffled ch xs) = mset xs" "\<forall>w xs. mset (sorting ch w xs) = mset xs"
    "\<forall>i sol. 1 < length sol \<longrightarrow> drawn sol (swaps ch i sol)" using assms(8) unfolding chance_ok_def by blast+
  have f: "stripe_list ?s1 = stripe_list s" "batch_size ?s1 = batch_size s" "batch_queue ?s1 = batch_queue s"
    "batch_list ?s1 = batch_list s" "batch_request ?s1 = batch_request s" "cluster_size ?s1 = cluster_size s"
    by (simp_all add: filterFailedStripes_def)
  have xs: "stripes_to_repair ?s1 = ?xs" by (simp add: filterFailedStripes_eq assms(4) failed_stripes_def)
  have d: "distinct ?xs" "pointers_ok (stripe_list s) ?xs"
    by (auto simp: failed_stripes_def distinct_map pointers_ok_def list_all_iff)
  have ab: "par_able (draws ch) ec s fails scenario E (stripe_list s ! nat sid)" if "sid \<in> set ?xs" for sid
    using that assms(5) by (auto simp: failed_stripes_def)
  have cl: "same_cluster s ?s1" by (simp add: filterFailedStripes_def same_cluster_def)
  have new: "plans (genRepairBatchesNew (draws ch) ec fails scenario meth s)" for meth
  proof -
    from new_plan.batches_good [OF cl _ assms(2,3) xs d(1) _ _ assms(6,7), where meth = meth, unfolded f, OF assms(1) d(2) ab]
    show ?thesis unfolding plans_def genRepairBatchesNew_def by (metis (no_types, lifting))
  qed
  have random: "plans (genRepairBatchesRandom (draws ch) (shuffled ch) ec fails scenario s)"
  proof -
    let ?ys = "shuffled ch ?xs"
    let ?s2 = "?s1\<lparr>stripes_to_repair := ?ys\<rparr>"
    have ys: "mset ?ys = mset ?xs" using C(1) by blast
    then have set: "set ?ys = set ?xs" by (rule mset_eq_setD)
    have dy: "distinct ?ys" "pointers_ok (stripe_list s) ?ys" using d set mset_eq_imp_distinct_iff [OF ys] by (simp_all add: pointers_ok_def list_all_iff)
    have f2: "stripe_list ?s2 = stripe_list s" "batch_size ?s2 = batch_size s" "batch_queue ?s2 = batch_queue s"
      "batch_list ?s2 = batch_list s" "batch_request ?s2 = batch_request s" "cluster_size ?s2 = cluster_size s"
      "same_cluster s ?s2" "stripes_to_repair ?s2 = ?ys" using cl by (simp_all add: f same_cluster_def)
    have ab2: "par_able (draws ch) ec s fails scenario E (stripe_list s ! nat sid)" if "sid \<in> set ?ys" for sid
      using ab that set by blast
    from random_plan.batches_good [OF f2(7) _ assms(2,3) f2(8) dy(1) _ _ assms(6,7), unfolded f2(1-6), OF assms(1) dy(2) ab2]
    obtain s' bts where "par_batches ec fails (random_color (draws ch) ec fails scenario) ?s2 = Inr s'"
      "batch_queue s' = (if batch_request s then batch_queue s @ bts else batch_queue s)"
      "batch_list s' = (if batch_request s then batch_list s else batch_list s @ bts)" "concat (map rb_stripes bts) = ?ys"
      "batches_ok (stripe_list s') (cluster_size s) bs bts"
      "planned_upto (par_planned ec s fails) (stripe_list s) ?ys (stripe_list s')" by blast
    then show ?thesis using ys planned_upto_set [OF set] unfolding plans_def genRepairBatchesRandom_def Let_def xs by metis
  qed
  have fire: "plans (genRepairBatchesFire cb (sorting ch) (swaps ch) (draws ch) ec fails scenario meth s)"
    if "cb \<in> {first_best, even_best (cluster_size s)}" for cb meth
    using genRepairBatchesFire_ok [OF assms(1-7) C(2,3) that, where meth = meth] unfolding plans_def .
  have "\<exists>r. plans r \<and> par_genRepairBatches ch ec num_failures fails scenario batch_method s =
      bindR r (\<lambda>s1. Inr (s1\<lparr>finish_gen_batches := True\<rparr>))"
    using new random fire [of first_best] fire [of "even_best (cluster_size s)"] unfolding par_genRepairBatches_def Let_def
    by (cases "num_failures = 1"; cases "batch_method = 0"; cases "batch_method = 1"; cases "batch_method = 2") auto
  then show ?thesis unfolding plans_def by force
qed

section \<open>Properties\<close>

text \<open>C3: whichever way of batching \<open>genRepairBatches\<close> is asked for (in order, shuffled, or packed and
  annealed), it ends without a fault and plans every failed stripe exactly once: the batches are
  numbered from 0, hold between one and \<open>_batch_size\<close> stripes, carry the figures of their stripes, and
  every planned stripe has a sound colouring; they go to the queue or to the list as a whole, and
  the planner is marked as finished.\<close>

theorem parallel_plans:
  assumes "batch_size s = int bs" and "0 < bs" and "bs < 2 ^ 31" and "stripes_to_repair s = []"
    and "\<forall>st\<in>set (stripe_list s). is_hit fails st \<longrightarrow> par_able (draws ch) ec s fails scenario E st"
    and "0 \<le> E" and "int bs * E < INT_MAX" and "chance_ok ch"
  shows "\<exists>s' bts. par_genRepairBatches ch ec num_failures fails scenario batch_method s = Inr s' \<and>
    batch_queue s' = (if batch_request s then batch_queue s @ bts else batch_queue s) \<and>
    batch_list s' = (if batch_request s then batch_list s else batch_list s @ bts) \<and>
    mset (concat (map rb_stripes bts)) = mset (failed_stripes fails (stripe_list s)) \<and>
    batches_ok (stripe_list s') (cluster_size s) bs bts \<and>
    planned_upto (par_planned ec s fails) (stripe_list s) (failed_stripes fails (stripe_list s)) (stripe_list s') \<and>
    finish_gen_batches s'"
  by (rule all_methods_plan [OF assms])

definition sample_chance :: chance where
  "sample_chance = \<lparr>draws = (\<lambda>_. 0), shuffled = rev, sorting = (\<lambda>w. sort_key (\<lambda>x. - w x)), swaps = sample_swaps\<rparr>"

lemma sample_chance_ok: "chance_ok sample_chance"
proof -
  have "sorted_wrt (\<lambda>a b. w b \<le> w a) (sort_key (\<lambda>x. - w x) xs)" for w :: "int \<Rightarrow> int" and xs
    using sorted_sort_key [of "\<lambda>x. - w x" xs] by (simp add: sorted_map)
  then show ?thesis using sample_swaps_drawn by (simp add: chance_ok_def sample_chance_def)
qed

lemma parallel_plans_witness:
  "\<exists>s'. par_genRepairBatches sample_chance mds_ec 2 [0, 1] ''scatter'' 3 mds_sol = Inr s' \<and> finish_gen_batches s' \<and>
    mset (concat (map rb_stripes (batch_list s'))) = {#0, 2#}"
proof -
  have s: "batch_size mds_sol = int 1" "stripes_to_repair mds_sol = []" "stripe_list mds_sol = mds_stripes"
    "batch_request mds_sol = False" "batch_list mds_sol = []" "agents_num mds_sol = 6" "cluster_size mds_sol = 8"
    by (simp_all add: mds_sol_def new_SolutionBase_def)
  have "\<forall>st\<in>set (stripe_list mds_sol). is_hit [0, 1] st \<longrightarrow> par_able (draws sample_chance) mds_ec mds_sol [0, 1] ''scatter'' 6 st"
    using mds_ready [OF s(6,7)] by (simp add: s(3) sample_chance_def)
  from parallel_plans [OF s(1) _ _ s(2) this _ _ sample_chance_ok, where num_failures = 2 and batch_method = 3] have
    "\<exists>s' bts. par_genRepairBatches sample_chance mds_ec 2 [0, 1] ''scatter'' 3 mds_sol = Inr s' \<and> batch_list s' = bts \<and>
       mset (concat (map rb_stripes bts)) = mset (failed_stripes [0, 1] mds_stripes) \<and> finish_gen_batches s'"
    by (auto simp: s INT_MAX_def)
  moreover have "failed_stripes [0, 1] mds_stripes = [0, 2]"
    by (simp add: failed_stripes_def mds_stripes_def is_hit_def new_stripe_def upt_rec)
  ultimately show ?thesis by auto
qed

end
