(* ===== verification/Parallel_Repair.thy ===== *)
theory Parallel_Repair
  imports Parallel_Fire Repair_Run
begin

text \<open>
  From the failed nodes to the repaired files: what \<open>ParallelSolution\<close> plans is what the agents can
  carry out (theory \<open>Repair_Run\<close>), whichever way the stripes are batched. The premises speak of the
  code's repair DAGs, of the cluster and of the data on the disks only, not of the planner.
\<close>

section \<open>What a code's DAG has to bring along\<close>

definition dag_levels :: "ecdag \<Rightarrow> int list list" where
  "dag_levels g = the (genLeveledTopologicalSorting g)"

definition layered :: "ecdag \<Rightarrow> int list list \<Rightarrow> bool" where
  \<comment> \<open>the vertices that share a child are computed at the same level\<close>
  "layered g Ls \<longleftrightarrow> list_all (\<lambda>u. list_all (\<lambda>p. list_all (\<lambda>p'. p \<noteq> p' \<longrightarrow>
     list_ex (\<lambda>L. p \<in> set L \<and> p' \<in> set L) (butlast Ls)) (parents_of g u)) (parents_of g u)) (node_ids g)"

definition repair_dag :: "ec_base \<Rightarrow> nat \<Rightarrow> ecdag \<Rightarrow> bool" where
  \<comment> \<open>only sub-packets of stored blocks are read, exactly the rebuilt blocks are at the last level, and
    \<open>nblks\<close> blocks have names\<close>
  "repair_dag ec nblks g \<longleftrightarrow> (let Ls = dag_levels g in
     2 \<le> length Ls \<and> layered g Ls \<and> set (last Ls) = set (ecConcacts g) \<and>
     list_all (\<lambda>v. v div ec_w ec < ec_n ec \<and> nat (v div ec_w ec) < nblks) (ecLeaves g) \<and>
     list_all (\<lambda>v. v \<le> REQUESTOR \<and> nat (REQUESTOR - v) < nblks) (ecConcacts g) \<and>
     list_all (\<lambda>v. vertex_ok v \<and> length (coefs_of g v) \<le> length (children_of g v)) (concat (butlast Ls)))"

lemma levels_dag: "levels s = dag_levels (s_ecdag s)"
  by (simp add: levels_def dag_levels_def)

lemma dag_levels_ok: "wf_ecdag g \<Longrightarrow> levels_from g {} (dag_levels g)"
  using genLeveled_returns [of g] by (auto simp: dag_levels_def)

lemma first_level:
  assumes "wf_ecdag g" and "dag_levels g \<noteq> []" shows "set (hd (dag_levels g)) = set (ecLeaves g)"
proof -
  obtain L Ls where L: "dag_levels g = L # Ls" using assms(2) by (cases "dag_levels g") auto
  then have "L = ready g {}" using dag_levels_ok [OF assms(1)] by simp
  then show ?thesis using assms(1) L by (auto simp: ready_def wf_ecdag_def)
qed

section \<open>A planned stripe can be deployed\<close>

lemma color_remap:
  assumes "v \<in> set (um_keys cl)" and "color_of cl v \<notin> set (um_keys f2r)"
  shows "color_of (remap_colors f2r cl) v = color_of cl v"
proof -
  have "map_of (remap_colors f2r cl) v = map_option (\<lambda>c. case map_of f2r c of None \<Rightarrow> c | Some r \<Rightarrow> r) (map_of cl v)"
    unfolding remap_colors_def by (induction cl) (auto split: option.split)
  moreover obtain c where "map_of cl v = Some c" using assms(1) map_of_um_keys [of cl v] by blast
  moreover have "map_of f2r c = None" using assms(2) calculation(2) map_of_um_keys [of f2r c]
    by (auto simp: color_of_def um_get_def)
  ultimately show ?thesis by (simp add: color_of_def um_get_def)
qed

lemma planned_colors:
  assumes rd: "dag_ready rnd ec sol fails scenario E st1" and good: "par_good ec sol fails st1 st'"
    and dag: "repair_dag ec nblks (s_ecdag st1)" and v: "v \<in> set (node_ids (s_ecdag st1))"
  shows "0 \<le> color_of (coloring st') v" "color_of (coloring st') v < cluster_size sol" "color_of (coloring st') v \<notin> set fails"
proof -
  let ?g = "s_ecdag st1" and ?cl = "coloring st'"
  have D: "par_dag ec st1" "par_nodes ec sol fails scenario st1" using rd by (auto simp: dag_ready_def)
  have wf: "wf_ecdag ?g" and place: "placed ec st1" using D(1) by (auto simp: par_dag_def)
  obtain rs where rs: "new_homes sol fails st1 rs" "par_colored ec fails st1 rs ?cl" using good by (auto simp: par_good_def)
  have agents: "\<And>x. x \<in> set (nodelist st1) \<Longrightarrow> 0 \<le> x \<and> x < agents_num sol" "agents_num sol \<le> cluster_size sol"
    using D(2) by (auto simp: par_nodes_def list_all_iff)
  let ?ok = "\<lambda>c. 0 \<le> c \<and> c < cluster_size sol \<and> c \<notin> set fails"
  have real: "u div ec_w ec < ec_n ec" if "u \<in> set (ecLeaves ?g)" for u
    using dag that by (auto simp: repair_dag_def Let_def list_all_iff)
  have leaf: "?ok (color_of ?cl u)" if u: "u \<in> set (ecLeaves ?g)" for u
  proof -
    have h: "color_of ?cl u = home ec st1 u" using rs(2) u by (simp add: par_colored_def)
    have "0 \<le> u" "0 < ec_w ec" "nat (ec_n ec) \<le> length (nodelist st1)" using place u by (auto simp: placed_def list_all_iff)
    moreover from this have "0 \<le> u div ec_w ec" by (simp add: pos_imp_zdiv_nonneg_iff)
    ultimately have "home ec st1 u \<in> set (nodelist st1)" using real [OF u] by (auto simp: home_def intro!: nth_mem)
    moreover have "home ec st1 u \<notin> set fails" using D(2) u real [OF u] by (auto simp: par_nodes_def real_leaves_def)
    ultimately show ?thesis unfolding h using agents by fastforce
  qed
  have new: "?ok c" if "c \<in> set rs" for c using rs(1) that by (auto simp: new_homes_def)
  have use: "?ok c" if "c \<in> nodes_in_use fails st1 rs" for c
    using that new agents by (fastforce simp: nodes_in_use_def)
  have con: "?ok (color_of ?cl u)" if u: "u \<in> set (ecConcacts ?g)" for u
  proof -
    obtain i where "i < length rs" "u = ecConcacts ?g ! i" using u rs(1) by (auto simp: new_homes_def in_set_conv_nth)
    then have "color_of ?cl u = rs ! i" "rs ! i \<in> set rs" using rs(2) by (auto simp: par_colored_def)
    with new show ?thesis by simp
  qed
  have lev: "levels_from ?g {} (dag_levels ?g)" by (rule dag_levels_ok [OF wf])
  have "?ok (color_of ?cl u)" if "k < length (dag_levels ?g)" "u \<in> set (dag_levels ?g ! k)" for k u
    using that
  proof (induction k arbitrary: u rule: less_induct)
    case (less k)
    have low: "set (children_of ?g u) \<subseteq> (\<Union>j<k. set (dag_levels ?g ! j))" by (rule levels_from_lower(1) [OF lev less.prems])
    have "set (concat (dag_levels ?g)) = set (node_ids ?g)"
      using levels_from_props [OF lev] dag_okD(1) [OF wf_ecdag_ok [OF wf]] by blast
    then have "u \<in> set (node_ids ?g)" using less.prems nth_mem [OF less.prems(1)] by auto
    then consider "u \<in> set (ecLeaves ?g)" | "u \<in> set (ecConcacts ?g)" | "u \<in> inner ?g" "u \<notin> set (ecLeaves ?g)"
      using par_dag_inner(2) [OF D(1)] by blast
    then show ?case
    proof cases
      case 3
      have "children_of ?g u \<noteq> []" using 3(2) wf \<open>u \<in> set (node_ids ?g)\<close> by (auto simp: wf_ecdag_def)
      then obtain x where x: "x \<in> set (children_of ?g u)" by (cases "children_of ?g u") auto
      with low obtain j where "j < k" "x \<in> set (dag_levels ?g ! j)" by blast
      with less have "?ok (color_of ?cl x)" by simp
      moreover have "color_of ?cl u \<in> insert (-1) (nodes_in_use fails st1 rs)" "fed ?g ?cl u"
        using rs(2) 3(1) by (simp_all add: par_colored_def)
      ultimately have "color_of ?cl u \<in> nodes_in_use fails st1 rs" using x by (auto simp: fed_def)
      then show ?thesis by (rule use)
    qed (use leaf con in blast)+
  qed
  moreover have "\<exists>k<length (dag_levels ?g). v \<in> set (dag_levels ?g ! k)"
  proof -
    have "v \<in> set (concat (dag_levels ?g))" using levels_from_props [OF lev] dag_okD(1) [OF wf_ecdag_ok [OF wf]] v by blast
    then obtain L where "L \<in> set (dag_levels ?g)" "v \<in> set L" by auto
    then show ?thesis by (metis in_set_conv_nth)
  qed
  ultimately show "0 \<le> color_of ?cl v" "color_of ?cl v < cluster_size sol" "color_of ?cl v \<notin> set fails" by blast+
qed

lemma planned_deployed:
  assumes rd: "dag_ready rnd ec sol fails scenario E st1" and good: "par_good ec sol fails st1 st'"
    and dag: "repair_dag ec (length (blklist st1)) (s_ecdag st1)" and f2r: "set (um_keys f2r) \<subseteq> set fails"
    and names: "distinct (blklist st1)" "''ZERO'' \<notin> set (blklist st1)"
  shows "deployed (ec_n ec) (ec_w ec) (levels st') (planned f2r st')"
    and "v \<in> set (node_ids (s_ecdag st1)) \<Longrightarrow> color_of (remap_colors f2r (coloring st')) v = color_of (coloring st') v"
proof -
  let ?g = "s_ecdag st1" and ?cl = "coloring st'" and ?Ls = "dag_levels (s_ecdag st1)"
  have D: "par_dag ec st1" using rd by (simp add: dag_ready_def)
  have wf: "wf_ecdag ?g" and place: "placed ec st1" using D by (auto simp: par_dag_def)
  have same: "s_ecdag st' = ?g" "blklist st' = blklist st1" using good by (simp_all add: par_good_def same_stripe_def)
  have R: "2 \<le> length ?Ls" "layered ?g ?Ls" "set (last ?Ls) = set (ecConcacts ?g)"
    "\<And>v. v \<in> set (ecLeaves ?g) \<Longrightarrow> v div ec_w ec < ec_n ec \<and> nat (v div ec_w ec) < length (blklist st1)"
    "\<And>v. v \<in> set (ecConcacts ?g) \<Longrightarrow> v \<le> REQUESTOR \<and> nat (REQUESTOR - v) < length (blklist st1)"
    "\<And>v. v \<in> set (concat (butlast ?Ls)) \<Longrightarrow> vertex_ok v \<and> length (coefs_of ?g v) \<le> length (children_of ?g v)"
    using dag unfolding repair_dag_def Let_def list_all_iff by blast+
  have "colored st'" using good by (simp add: par_good_def ranged_def)
  then have keys: "set (um_keys ?cl) = set (node_ids ?g)" by (simp add: colored_def same)
  have remap: "color_of (remap_colors f2r ?cl) v = color_of ?cl v" if "v \<in> set (node_ids ?g)" for v
    using color_remap [of v ?cl f2r] planned_colors(3) [OF rd good dag that] f2r that keys by blast
  then show "v \<in> set (node_ids ?g) \<Longrightarrow> color_of (remap_colors f2r ?cl) v = color_of ?cl v" .
  let ?c = "color_of (remap_colors f2r ?cl)"
  have pos: "0 \<le> ?c v" if "v \<in> set (node_ids ?g)" for v
    using planned_colors(1) [OF rd good dag that] remap [OF that] by simp
  have lev: "levels_from ?g {} ?Ls" by (rule dag_levels_ok [OF wf])
  have ids: "set (concat ?Ls) = set (node_ids ?g)"
    using levels_from_props [OF lev] dag_okD(1) [OF wf_ecdag_ok [OF wf]] by blast
  have ne: "?Ls \<noteq> []" using R(1) by auto
  have hd: "set (hd ?Ls) = set (ecLeaves ?g)" by (rule first_level [OF wf ne])
  have in_ids: "v \<in> set (node_ids ?g)" if "L \<in> set ?Ls" "v \<in> set L" for L v using that ids by auto
  have hd_ids: "v \<in> set (node_ids ?g)" if "v \<in> set (hd ?Ls)" for v using in_ids [OF hd_in_set [OF ne] that] .
  have home: "?c v = home ec st1 v" if "v \<in> set (hd ?Ls)" for v
    using good remap [OF hd_ids [OF that]] that hd by (auto simp: par_good_def par_colored_def)
  have leaf0: "0 \<le> v" if "v \<in> set (hd ?Ls)" for v using place that hd by (auto simp: placed_def list_all_iff)
  have w: "0 < ec_w ec" using place by (simp add: placed_def)
  have "deployable (ec_n ec) (ec_w ec) ?Ls ?g (remap_colors f2r ?cl) (length (blklist st1))"
    unfolding deployable_def list_all_iff
  proof (intro conjI ballI impI)
    fix v p assume "v \<in> set (node_ids ?g)" "p \<in> set (parents_of ?g v)"
    then have "p \<in> set (node_ids ?g)" using dag_okD(5) [OF wf_ecdag_ok [OF wf]] by blast
    from pos [OF this] show "?c p \<noteq> -1" by simp
  next
    fix v assume v: "v \<in> set (hd ?Ls)"
    show "(v div ec_w ec < ec_n ec) = (?c v \<noteq> -1)" using R(4) [of v] pos [OF hd_ids [OF v]] v hd by auto
  qed (use w leaf0 R(3-5) hd in auto)
  moreover have "single_use ?g (remap_colors f2r ?cl) ?Ls"
    using R(2) unfolding layered_def single_use_def list_all_iff by blast
  moreover have "list_all (\<lambda>v. ?c v \<noteq> -1) (last ?Ls)"
    using pos in_ids [OF last_in_set [OF ne]] unfolding list_all_iff by fastforce
  moreover have "list_all (\<lambda>u. list_all (\<lambda>v. u div ec_w ec = v div ec_w ec \<longrightarrow> ?c u = ?c v) (hd ?Ls)) (hd ?Ls)"
    by (simp add: list_all_iff home home_def)
  moreover have "list_all vertex_ok (concat (butlast ?Ls))" using R(6) unfolding list_all_iff by blast
  moreover have "list_all (\<lambda>v. length (coefs_of ?g v) \<le> length (children_of ?g v)) (concat (butlast ?Ls))"
    using R(6) unfolding list_all_iff by blast
  ultimately show "deployed (ec_n ec) (ec_w ec) (levels st') (planned f2r st')"
    using wf lev R(1) names unfolding deployed_def planned_fields levels_dag same by blast
qed

section \<open>A planned batch is ready\<close>

definition fitting :: "(nat \<Rightarrow> int) \<Rightarrow> ec_base \<Rightarrow> solution \<Rightarrow> int list \<Rightarrow> string \<Rightarrow> int \<Rightarrow> stripe \<Rightarrow> bool" where
  \<comment> \<open>the code has a DAG for what the stripe lost, and the cluster has room for it\<close>
  "fitting rnd ec sol fails scenario E st \<longleftrightarrow> taskmap st = [] \<and>
     (\<exists>st1. par_dag_of ec fails st = Inr st1 \<and> dag_ready rnd ec sol fails scenario E st1 \<and>
        repair_dag ec (length (blklist st)) (s_ecdag st1))"

definition named_apart :: "stripe list \<Rightarrow> bool" where
  \<comment> \<open>no two blocks share a name, no two stripes a number\<close>
  "named_apart st \<longleftrightarrow> distinct (concat (map blklist st)) \<and> ''ZERO'' \<notin> set (concat (map blklist st)) \<and> distinct (map stripe_id st)"

definition same_code :: "worker_conf \<Rightarrow> ec_base \<Rightarrow> solution \<Rightarrow> bool" where
  \<comment> \<open>the agents' configuration speaks of the same code and the same nodes\<close>
  "same_code w ec sol \<longleftrightarrow> conf_ecw w = ec_w ec \<and> distinct (agentsIPs w @ repairIPs w) \<and>
     int (length (agentsIPs w @ repairIPs w)) = cluster_size sol"

lemma par_dag_frame:
  assumes "par_dag_of ec fails s = Inr s1"
  shows "blklist s1 = blklist s" "stripe_id s1 = stripe_id s" "taskmap s1 = taskmap s" "nodelist s1 = nodelist s"
proof -
  obtain s0 g where r: "genRepairECDAG ec fails s = Inr s0" "s1 = s0\<lparr>s_ecdag := g\<rparr>"
    using assms by (auto simp: par_dag_of_def bindR_eq_Inr)
  have "s0 = s\<lparr>s_ecdag := s_ecdag s0, fail_blk_idxs := fail_blk_idxs s0\<rparr>" by (rule genRepairECDAG_again(2) [OF r(1) refl])
  then have "s1 = s\<lparr>s_ecdag := g, fail_blk_idxs := fail_blk_idxs s0\<rparr>" using r(2) by (cases s0; cases s) simp
  then show "blklist s1 = blklist s" "stripe_id s1 = stripe_id s" "taskmap s1 = taskmap s" "nodelist s1 = nodelist s" by simp_all
qed

text \<open>What planning makes of a fitting stripe.\<close>

lemma planned_stripe:
  assumes fit: "fitting rnd ec sol fails scenario E st" and pl: "par_planned ec sol fails st st'"
    and names: "distinct (blklist st)" "''ZERO'' \<notin> set (blklist st)" and f2r: "set (um_keys f2r) \<subseteq> set fails"
    and w: "same_code w ec sol"
  shows "blklist st' = blklist st" "stripe_id st' = stripe_id st" "taskmap st' = []"
    "deployed (ec_n ec) (conf_ecw w) (levels st') (planned f2r st')"
    "list_all (\<lambda>v. let c = color_of (remap_colors f2r (coloring st')) v in
         c \<noteq> -1 \<longrightarrow> 0 \<le> c \<and> c < int (length (agentsIPs w @ repairIPs w))) (node_ids (s_ecdag st'))"
    "set (repaired_names st') \<subseteq> set (blklist st)" "distinct (repaired_names st')"
proof -
  obtain st1 where st1: "par_dag_of ec fails st = Inr st1" "dag_ready rnd ec sol fails scenario E st1"
    "repair_dag ec (length (blklist st)) (s_ecdag st1)" using fit by (auto simp: fitting_def)
  have good: "par_good ec sol fails st1 st'" using pl st1(1) by (auto simp: par_planned_def)
  note F = par_dag_frame [OF st1(1)]
  have same: "same_stripe st1 st'" using good by (simp add: par_good_def)
  show eqs: "blklist st' = blklist st" "stripe_id st' = stripe_id st" "taskmap st' = []"
    using same F fit by (simp_all add: same_stripe_def fitting_def)
  have g: "s_ecdag st' = s_ecdag st1" using same by (simp add: same_stripe_def)
  have dag: "repair_dag ec (length (blklist st1)) (s_ecdag st1)" "distinct (blklist st1)" "''ZERO'' \<notin> set (blklist st1)"
    using st1(3) F(1) names by simp_all
  note P = planned_deployed [OF st1(2) good dag(1) f2r dag(2,3)]
  show "deployed (ec_n ec) (conf_ecw w) (levels st') (planned f2r st')" using P(1) w by (simp add: same_code_def)
  have n: "int (length (agentsIPs w @ repairIPs w)) = cluster_size sol" using w by (simp only: same_code_def)
  show "list_all (\<lambda>v. let c = color_of (remap_colors f2r (coloring st')) v in
         c \<noteq> -1 \<longrightarrow> 0 \<le> c \<and> c < int (length (agentsIPs w @ repairIPs w))) (node_ids (s_ecdag st'))"
    unfolding list_all_iff n g Let_def using P(2) planned_colors(1,2) [OF st1(2) good dag(1)] by simp
  have wf: "wf_ecdag (s_ecdag st1)" using st1(2) by (auto simp: dag_ready_def par_dag_def)
  have R: "2 \<le> length (levels st')" "set (last (levels st')) = set (ecConcacts (s_ecdag st1))"
    "\<And>v. v \<in> set (ecConcacts (s_ecdag st1)) \<Longrightarrow> v \<le> REQUESTOR \<and> nat (REQUESTOR - v) < length (blklist st)"
    using st1(3) unfolding repair_dag_def Let_def list_all_iff levels_dag g by blast+
  then show "set (repaired_names st') \<subseteq> set (blklist st)" by (auto simp: repaired_names_def eqs(1))
  have "distinct (concat (levels st'))"
    using levels_from_props [OF dag_levels_ok [OF wf]] dag_okD(1) [OF wf_ecdag_ok [OF wf]] by (simp add: levels_dag g)
  moreover have "last (levels st') \<in> set (levels st')" using R(1) by (intro last_in_set) auto
  ultimately have "distinct (last (levels st'))" by (simp add: distinct_concat_iff)
  moreover have "inj_on (\<lambda>v. blklist st' ! nat (REQUESTOR - v)) (set (last (levels st')))"
    using R(2,3) names(1) by (auto simp: inj_on_def eqs(1) nth_eq_iff_index_eq eq_nat_nat_iff)
  ultimately show "distinct (repaired_names st')" by (simp add: repaired_names_def distinct_map)
qed

lemma distinct_concat_by:
  assumes "distinct xs" and "\<And>x. x \<in> set xs \<Longrightarrow> distinct (g x)"
    and "\<And>x y. x \<in> set xs \<Longrightarrow> y \<in> set xs \<Longrightarrow> x \<noteq> y \<Longrightarrow> set (g x) \<inter> set (g y) = {}"
  shows "distinct (concat (map g xs))"
  using assms
proof (induction xs)
  case (Cons x xs)
  have "set (g x) \<inter> set (g y) = {}" if "y \<in> set xs" for y using Cons.prems that by (metis distinct.simps(2) list.set_intros)
  then show ?case using Cons by auto
qed simp

lemma planned_batch_ready:
  assumes fit: "\<And>sid. sid \<in> set (rb_stripes b) \<Longrightarrow> fitting rnd ec sol fails scenario E (st0 ! nat sid)"
    and pl: "planned_upto (par_planned ec sol fails) st0 xs st" and sub: "set (rb_stripes b) \<subseteq> set xs"
    and d: "distinct (rb_stripes b)" and ptr: "pointers_ok st0 (rb_stripes b)"
    and names: "named_apart st0" and f2r: "set (um_keys f2r) \<subseteq> set fails" and w: "same_code w ec sol"
  shows "batch_ready (ec_n ec) w f2r b st"
proof -
  let ?st = "\<lambda>sid. st0 ! nat sid"
  have len: "length st = length st0" using pl by (simp add: planned_upto_def)
  have at: "0 \<le> sid \<and> nat sid < length st0" if "sid \<in> set (rb_stripes b)" for sid
    using ptr that unfolding pointers_ok_def list_all_iff by blast
  have N: "distinct (concat (map blklist st0))" "''ZERO'' \<notin> set (concat (map blklist st0))" "distinct (map stripe_id st0)"
    using names unfolding named_apart_def by blast+
  have one: "distinct (blklist (?st sid))" "''ZERO'' \<notin> set (blklist (?st sid))" if "sid \<in> set (rb_stripes b)" for sid
    using N(1,2) at [OF that] nth_mem [of "nat sid" st0] by (auto simp: distinct_concat_iff)
  have "par_planned ec sol fails (?st sid) (st ! nat sid)" if "sid \<in> set (rb_stripes b)" for sid
    using pl sub at [OF that] that unfolding planned_upto_def by fastforce
  note S = planned_stripe [OF fit this one f2r w]
  have inj: "x = y" if "x \<in> set (rb_stripes b)" "y \<in> set (rb_stripes b)" "stripe_id (?st x) = stripe_id (?st y)" for x y
  proof -
    have "map stripe_id st0 ! nat x = map stripe_id st0 ! nat y" using that(3) at that(1,2) by simp
    then have "nat x = nat y" using N(3) at that(1,2) nth_eq_iff_index_eq by (metis length_map)
    then show "x = y" using at that(1,2) by (simp add: eq_nat_nat_iff)
  qed
  have "distinct (map stripe_id (batch_stripes b st))"
    using d S(2) inj by (auto simp: batch_stripes_def distinct_map inj_on_def comp_def)
  moreover have "distinct (concat (map repaired_names (batch_stripes b st)))"
  proof -
    have "distinct (concat (map (\<lambda>sid. repaired_names (st ! nat sid)) (rb_stripes b)))"
    proof (rule distinct_concat_by [OF d])
      fix x y assume xy: "x \<in> set (rb_stripes b)" "y \<in> set (rb_stripes b)" "x \<noteq> y"
      have mem: "?st x \<in> set st0" "?st y \<in> set st0" using at xy(1,2) by simp_all
      show "set (repaired_names (st ! nat x)) \<inter> set (repaired_names (st ! nat y)) = {}"
      proof (rule ccontr)
        assume "\<not> ?thesis"
        then obtain z where "z \<in> set (blklist (?st x))" "z \<in> set (blklist (?st y))" using S(6) xy(1,2) by blast
        then have "?st x = ?st y" by (rule distinct_concat_map [OF N(1) mem _ _ N(3)])
        then show False using inj xy by simp
      qed
    qed (rule S(7))
    then show ?thesis by (simp add: batch_stripes_def comp_def)
  qed
  moreover have "list_all (\<lambda>p. 0 \<le> p \<and> nat p < length st) (rb_stripes b)" using at len by (simp add: list_all_iff)
  moreover have "list_all (\<lambda>s. taskmap s = [] \<and> deployed (ec_n ec) (conf_ecw w) (levels s) (planned f2r s) \<and>
       list_all (\<lambda>v. let c = color_of (remap_colors f2r (coloring s)) v in
         c \<noteq> -1 \<longrightarrow> 0 \<le> c \<and> c < int (length (agentsIPs w @ repairIPs w))) (node_ids (s_ecdag s))) (batch_stripes b st)"
    unfolding batch_stripes_def by (subst list_all_iff) (use S(3-5) in auto)
  ultimately show ?thesis using d w unfolding batch_ready_def same_code_def by blast
qed

section \<open>The data\<close>

definition stored ::
    "isal \<Rightarrow> disk \<Rightarrow> worker_conf \<Rightarrow> (int \<Rightarrow> int \<Rightarrow> nat \<Rightarrow> string) \<Rightarrow> int \<Rightarrow> nat \<Rightarrow> ec_base \<Rightarrow> int list \<Rightarrow> stripe \<Rightarrow> bool" where
  \<comment> \<open>\<open>pk\<close> gives every sub-packet: the surviving ones are on the disks of their nodes, the others are what
    the DAG's equations make of their children\<close>
  "stored isal disk w pk sub n ec fails st \<longleftrightarrow> (\<forall>st1. par_dag_of ec fails st = Inr st1 \<longrightarrow>
     (\<forall>v\<in>set (ecLeaves (s_ecdag st1)). on_disk (agent w (home ec st v)) disk pk sub (stripe_id st)
        (blklist st ! nat (v div ec_w ec)) v n) \<and>
     (\<forall>v\<in>inner (s_ecdag st1). \<forall>i<n. pk (stripe_id st) v i = vertex_value isal sub pk st1 v i))"

lemma planned_data:
  assumes fit: "fitting rnd ec sol fails scenario E st" and pl: "par_planned ec sol fails st st'"
    and names: "distinct (blklist st)" "''ZERO'' \<notin> set (blklist st)" and f2r: "set (um_keys f2r) \<subseteq> set fails"
    and w: "same_code w ec sol" and data: "stored isal disk w pk sub n ec fails st"
  shows "stripe_data isal disk w pk sub n (levels st') (planned f2r st')"
proof -
  obtain st1 where st1: "par_dag_of ec fails st = Inr st1" "dag_ready rnd ec sol fails scenario E st1"
    "repair_dag ec (length (blklist st)) (s_ecdag st1)" using fit by (auto simp: fitting_def)
  have good: "par_good ec sol fails st1 st'" using pl st1(1) by (auto simp: par_planned_def)
  note F = par_dag_frame [OF st1(1)]
  have same: "s_ecdag st' = s_ecdag st1" "blklist st' = blklist st" "stripe_id st' = stripe_id st" "stripe_id st1 = stripe_id st"
    using good F by (simp_all add: par_good_def same_stripe_def)
  let ?g = "s_ecdag st1" and ?Ls = "dag_levels (s_ecdag st1)"
  have dag: "repair_dag ec (length (blklist st1)) ?g" "distinct (blklist st1)" "''ZERO'' \<notin> set (blklist st1)"
    using st1(3) F(1) names by simp_all
  note P = planned_deployed [OF st1(2) good dag(1) f2r dag(2,3)]
  have D: "par_dag ec st1" using st1(2) by (simp add: dag_ready_def)
  have wf: "wf_ecdag ?g" using D by (simp add: par_dag_def)
  have R: "2 \<le> length ?Ls" "set (last ?Ls) = set (ecConcacts ?g)"
    using st1(3) unfolding repair_dag_def Let_def by blast+
  have ne: "?Ls \<noteq> []" "butlast ?Ls \<noteq> []" using R(1) by (auto simp: length_0_conv [symmetric] simp del: length_0_conv)
  have hd: "set (hd ?Ls) = set (ecLeaves ?g)" by (rule first_level [OF wf ne(1)])
  have props: "distinct (concat ?Ls)" "set (concat ?Ls) = set (node_ids ?g)"
    using levels_from_props [OF dag_levels_ok [OF wf]] dag_okD(1) [OF wf_ecdag_ok [OF wf]] by auto
  have split: "?Ls = hd ?Ls # tl (butlast ?Ls) @ [last ?Ls]"
    using ne by (metis append_butlast_last_id append_Cons hd_append2 list.collapse)
  have mid: "v \<in> inner ?g" if "v \<in> set (concat (tl (butlast ?Ls)))" for v
  proof -
    have "concat ?Ls = hd ?Ls @ concat (tl (butlast ?Ls)) @ last ?Ls" by (subst split) simp
    then have "v \<notin> set (hd ?Ls)" "v \<notin> set (last ?Ls)" "v \<in> set (concat ?Ls)" using that props(1) by auto
    then show ?thesis unfolding inner_def using props(2) hd R(2) by blast
  qed
  have node: "v \<in> set (node_ids ?g)" if "v \<in> set (concat (butlast ?Ls))" for v
    using that props(2) in_set_butlastD by fastforce
  have home: "color_of (remap_colors f2r (coloring st')) v = home ec st v" if "v \<in> set (hd ?Ls)" for v
  proof -
    have "v \<in> set (node_ids ?g)" using that hd par_dag_inner(2) [OF D] by blast
    then have "color_of (remap_colors f2r (coloring st')) v = color_of (coloring st') v" by (rule P(2))
    also have "\<dots> = home ec st1 v" using good that hd by (auto simp: par_good_def par_colored_def)
    finally show ?thesis by (simp add: home_def F(4))
  qed
  have pos: "color_of (remap_colors f2r (coloring st')) v \<noteq> -1" if "v \<in> set (node_ids ?g)" for v
    using planned_colors(1) [OF st1(2) good dag(1) that] P(2) [OF that] by simp
  have val: "vertex_value isal sub pk (planned f2r st') v i = vertex_value isal sub pk st1 v i" for v i
    by (simp add: vertex_value_def same)
  have data1: "\<And>v. v \<in> set (ecLeaves ?g) \<Longrightarrow> on_disk (agent w (home ec st v)) disk pk sub (stripe_id st) (blklist st ! nat (v div ec_w ec)) v n"
    "\<And>v i. v \<in> inner ?g \<Longrightarrow> i < n \<Longrightarrow> pk (stripe_id st) v i = vertex_value isal sub pk st1 v i"
    using data st1(1) unfolding stored_def by blast+
  have ecw: "conf_ecw w = ec_w ec" using w by (simp add: same_code_def)
  show ?thesis
    unfolding stripe_data_def levels_dag planned_fields same ecw val
    using data1 home hd mid pos node by auto
qed

section \<open>Properties\<close>

definition restores ::
    "isal \<Rightarrow> disk \<Rightarrow> worker_conf \<Rightarrow> (int \<Rightarrow> int \<Rightarrow> nat \<Rightarrow> string) \<Rightarrow> nat \<Rightarrow> int \<Rightarrow> int \<Rightarrow> int umap \<Rightarrow> repair_batch \<Rightarrow> stripe list \<Rightarrow> bool" where
  \<comment> \<open>every schedule of the threads that the agents start for the batch ends, never blocks before, and
    leaves exactly the repaired blocks in the files and every queue empty\<close>
  "restores isal disk w pk n ecn eck f2r b st \<longleftrightarrow>
     (let files = set (repaired_vertices (batch_stripes b st)) in
      \<exists>ths N. batch_threads isal disk w ecn eck f2r b st = Inr ths \<and>
        (\<forall>k u. (net_step ^^ k) (ths, \<lambda>_. []) u \<longrightarrow> k \<le> N \<and> (k < N \<longrightarrow> (\<exists>u'. net_step u u')) \<and>
          (k = N \<longrightarrow> all_ended u \<and> (\<forall>(s, v)\<in>files. snd u (repaired_file w f2r s v) = file_packets pk n s v) \<and>
            (\<forall>c. c \<notin> (\<lambda>(s, v). repaired_file w f2r s v) ` files \<longrightarrow> snd u c = []))))"

text \<open>C1: from the failed nodes to the repaired files. Given a code with a repair DAG for what each
  stripe lost, a cluster with room for the repair, and the surviving blocks on the disks, whichever way
  of batching \<open>genRepairBatches\<close> is asked for and however the threads of the agents are scheduled:
  the planner delivers every failed stripe in exactly one batch, and repairing a batch ends, with
  each lost block's file holding exactly the sub-packets that the code's equations give.\<close>

theorem failed_nodes_restored:
  assumes "batch_size s = int bs" and "0 < bs" and "bs < 2 ^ 31" and "stripes_to_repair s = []"
    and "0 \<le> E" and "int bs * E < INT_MAX" and "chance_ok ch"
    and "\<forall>st\<in>set (stripe_list s). is_hit fails st \<longrightarrow>
      fitting (draws ch) ec s fails scenario E st \<and> stored isal disk w pk sub n ec fails st"
    and "named_apart (stripe_list s)" and "set (um_keys f2r) \<subseteq> set fails" and "same_code w ec s"
    and "sizes_are w sub n" and "pkt_len_ok pk sub"
  shows "\<exists>s' bts. par_genRepairBatches ch ec num_failures fails scenario batch_method s = Inr s' \<and>
    (if batch_request s then batch_queue s' = batch_queue s @ bts else batch_list s' = batch_list s @ bts) \<and>
    mset (concat (map rb_stripes bts)) = mset (failed_stripes fails (stripe_list s)) \<and>
    (\<forall>b\<in>set bts. restores isal disk w pk n (ec_n ec) eck f2r b (stripe_list s'))"
proof -
  let ?xs = "failed_stripes fails (stripe_list s)"
  have hit: "fitting (draws ch) ec s fails scenario E st" "stored isal disk w pk sub n ec fails st"
    if "st \<in> set (stripe_list s)" "is_hit fails st" for st using assms(8) that by blast+
  have "\<forall>st\<in>set (stripe_list s). is_hit fails st \<longrightarrow> par_able (draws ch) ec s fails scenario E st"
    using hit(1) by (auto simp: fitting_def par_able_def)
  from all_methods_plan [OF assms(1-4) this assms(5-7)] obtain s' bts where
    P: "par_genRepairBatches ch ec num_failures fails scenario batch_method s = Inr s'"
    "batch_queue s' = (if batch_request s then batch_queue s @ bts else batch_queue s)"
    "batch_list s' = (if batch_request s then batch_list s else batch_list s @ bts)"
    "mset (concat (map rb_stripes bts)) = mset ?xs"
    "planned_upto (par_planned ec s fails) (stripe_list s) ?xs (stripe_list s')" by blast
  have xs: "distinct ?xs" "pointers_ok (stripe_list s) ?xs"
    by (auto simp: failed_stripes_def distinct_map pointers_ok_def list_all_iff)
  have one: "distinct (blklist st)" "''ZERO'' \<notin> set (blklist st)" if "st \<in> set (stripe_list s)" for st
    using assms(9) that by (auto simp: named_apart_def distinct_concat_iff)
  have "restores isal disk w pk n (ec_n ec) eck f2r b (stripe_list s')" if b: "b \<in> set bts" for b
  proof -
    have sub: "set (rb_stripes b) \<subseteq> set ?xs" using mset_eq_setD [OF P(4)] b by auto
    have "distinct (concat (map rb_stripes bts))" using mset_eq_imp_distinct_iff [OF P(4)] xs(1) by blast
    then have d: "distinct (rb_stripes b)" using b by (simp add: distinct_concat_iff)
    have ptr: "pointers_ok (stripe_list s) (rb_stripes b)" using xs(2) sub unfolding pointers_ok_def list_all_iff by blast
    have at: "stripe_list s ! nat sid \<in> set (stripe_list s) \<and> is_hit fails (stripe_list s ! nat sid) \<and>
        par_planned ec s fails (stripe_list s ! nat sid) (stripe_list s' ! nat sid)" if "sid \<in> set (rb_stripes b)" for sid
    proof -
      have "sid \<in> set ?xs" using sub that by blast
      then have "0 \<le> sid" "nat sid < length (stripe_list s)" "is_hit fails (stripe_list s ! nat sid)"
        by (auto simp: failed_stripes_def)
      with \<open>sid \<in> set ?xs\<close> show ?thesis using P(5) unfolding planned_upto_def by fastforce
    qed
    have "fitting (draws ch) ec s fails scenario E (stripe_list s ! nat sid)" if "sid \<in> set (rb_stripes b)" for sid
      using at [OF that] hit(1) by blast
    from planned_batch_ready [OF this P(5) sub d ptr assms(9-11)]
    have ready: "batch_ready (ec_n ec) w f2r b (stripe_list s')" .
    have "stripe_data isal disk w pk sub n (levels st) (planned f2r st)" if "st \<in> set (batch_stripes b (stripe_list s'))" for st
    proof -
      obtain sid where sid: "sid \<in> set (rb_stripes b)" "st = stripe_list s' ! nat sid"
        using \<open>st \<in> set (batch_stripes b (stripe_list s'))\<close> by (auto simp: batch_stripes_def)
      have A: "stripe_list s ! nat sid \<in> set (stripe_list s)" "is_hit fails (stripe_list s ! nat sid)"
        "par_planned ec s fails (stripe_list s ! nat sid) st" using at [OF sid(1)] sid(2) by blast+
      show ?thesis by (rule planned_data [OF hit(1) [OF A(1,2)] A(3) one [OF A(1)] assms(10,11) hit(2) [OF A(1,2)]])
    qed
    from batch_runs [OF ready assms(12,13) this] show ?thesis unfolding restores_def Let_def .
  qed
  then show ?thesis using P(1-4) by auto
qed

text \<open>One stripe of the code of theory Parallel with names for its blocks, one packet of one byte per block.\<close>

definition named_stripe :: stripe where
  "named_stripe = (new_stripe 0 [0, 1, 2, 3])\<lparr>blklist := [''b0'', ''b1'', ''b2'', ''b3'']\<rparr>"

definition named_sol :: solution where
  "named_sol = mds_sol\<lparr>stripe_list := [named_stripe]\<rparr>"

definition mds_conf :: worker_conf where
  "mds_conf = \<lparr>localIp = 0, blkBytes = 1, pktBytes = 1, conf_ecw = 1, agentsIPs = [10, 11, 12, 13, 14, 15], repairIPs = [16, 17],
     blkDir = ''/d'', recvGroupSize = 1, computeGroupSize = 1\<rparr>"

definition mds_disk :: disk where
  "mds_disk ip blk start k sub = Some (if blk = ''b2'' then ''a'' else [CHR 0x01])"

definition mds_pk :: "int \<Rightarrow> int \<Rightarrow> nat \<Rightarrow> string" where
  "mds_pk s d i = (if d = 0 then ''b'' else if d = 1 then ''c'' else if d = 2 then ''a'' else [CHR 0x01])"

lemma named_dag:
  "par_dag_of mds_ec [0, 1] named_stripe = Inr (named_stripe\<lparr>s_ecdag := mds_dag, fail_blk_idxs := [0, 1]\<rparr>)"
  by code_simp

lemma mds_repair_dag: "repair_dag mds_ec 4 mds_dag"
proof -
  have "levels_from mds_dag {} [[2, 3], [0, 1], [REQUESTOR, REQUESTOR - 1]]" by code_simp
  then have "dag_levels mds_dag = [[2, 3], [0, 1], [REQUESTOR, REQUESTOR - 1]]"
    by (simp only: dag_levels_def genLeveled_eqI [OF mds_dag_facts(1)] option.sel)
  moreover have "layered mds_dag [[2, 3], [0, 1], [REQUESTOR, REQUESTOR - 1]]" by code_simp
  moreover have "list_all (\<lambda>v. vertex_ok v \<and> length (coefs_of mds_dag v) \<le> length (children_of mds_dag v)) [2, 3, 0, 1]" by code_simp
  ultimately show ?thesis by (simp add: repair_dag_def mds_dag_facts mds_ec_def REQUESTOR_def)
qed

lemma named_fitting: "fitting (draws sample_chance) mds_ec named_sol [0, 1] ''scatter'' 6 named_stripe"
proof -
  let ?st = "named_stripe\<lparr>s_ecdag := mds_dag, fail_blk_idxs := [0, 1]\<rparr>"
  have st: "nodelist ?st = [0, 1, 2, 3]" "s_ecdag ?st = mds_dag" "fail_blk_idxs ?st = [0, 1]" by (simp_all add: named_stripe_def new_stripe_def)
  have sol: "agents_num named_sol = 6" "cluster_size named_sol = 8" by (simp_all add: named_sol_def mds_sol_def)
  have "par_nodes mds_ec named_sol [0, 1] ''scatter'' ?st" by (rule mds_par_nodes [OF sol _ st(1,2)]) (simp_all add: st)
  then have "dag_ready (draws sample_chance) mds_ec named_sol [0, 1] ''scatter'' 6 ?st"
    unfolding dag_ready_def using mds_par_dag [OF st] mds_dag_facts by (simp add: st sample_chance_def)
  moreover have "taskmap named_stripe = []" "length (blklist named_stripe) = 4" by (simp_all add: named_stripe_def new_stripe_def)
  ultimately show ?thesis unfolding fitting_def named_dag using mds_repair_dag by (simp add: st)
qed

lemma named_stored: "stored isal_sum mds_disk mds_conf mds_pk 1 1 mds_ec [0, 1] named_stripe"
proof -
  let ?st = "named_stripe\<lparr>s_ecdag := mds_dag, fail_blk_idxs := [0, 1]\<rparr>"
  have c: "children_of mds_dag 0 = [2, 3]" "coefs_of mds_dag 0 = [1, 1]" "children_of mds_dag 1 = [2, 3]" "coefs_of mds_dag 1 = [1, 2]"
    by code_simp+
  have v: "isal_sum 1 [char_of (1 :: int), char_of (1 :: int)] [''a'', [CHR 0x01]] = ''b''"
    "isal_sum 1 [char_of (1 :: int), char_of (2 :: int)] [''a'', [CHR 0x01]] = ''c''" by code_simp+
  have id: "stripe_id named_stripe = 0" "s_ecdag ?st = mds_dag" "blklist named_stripe = [''b0'', ''b1'', ''b2'', ''b3'']"
    by (simp_all add: named_stripe_def new_stripe_def)
  have "mds_pk 0 u 0 = vertex_value isal_sum 1 mds_pk ?st u 0" if "u \<in> {0, 1}" for u
    using that v by (auto simp: vertex_value_def id c mds_pk_def)
  then show ?thesis
    unfolding stored_def named_dag by (simp add: mds_dag_facts id on_disk_def mds_disk_def mds_pk_def mds_ec_def)
qed

lemma failed_nodes_restored_witness:
  "\<exists>s' bts. par_genRepairBatches sample_chance mds_ec 2 [0, 1] ''scatter'' 1 named_sol = Inr s' \<and> batch_list s' = bts \<and>
     mset (concat (map rb_stripes bts)) = {#0#} \<and>
     (\<forall>b\<in>set bts. restores isal_sum mds_disk mds_conf mds_pk 1 4 2 [] b (stripe_list s'))"
proof -
  have s: "batch_size named_sol = int 1" "stripes_to_repair named_sol = []" "stripe_list named_sol = [named_stripe]"
    "batch_request named_sol = False" "batch_list named_sol = []" "cluster_size named_sol = 8"
    by (simp_all add: named_sol_def mds_sol_def new_SolutionBase_def)
  have names: "named_apart (stripe_list named_sol)" by (simp add: s named_apart_def named_stripe_def new_stripe_def)
  have conf: "same_code mds_conf mds_ec named_sol" by (simp add: same_code_def mds_conf_def mds_ec_def s)
  have sizes: "sizes_are mds_conf 1 1" by (simp add: sizes_are_def mds_conf_def packet_sizes_def cdiv_def Let_def)
  have len: "pkt_len_ok mds_pk 1" by (simp add: pkt_len_ok_def mds_pk_def)
  have fit: "\<forall>st\<in>set (stripe_list named_sol). is_hit [0, 1] st \<longrightarrow>
      fitting (draws sample_chance) mds_ec named_sol [0, 1] ''scatter'' 6 st \<and>
      stored isal_sum mds_disk mds_conf mds_pk 1 1 mds_ec [0, 1] st"
    using named_fitting named_stored by (simp add: s)
  have f2r: "set (um_keys ([] :: int umap)) \<subseteq> set [0, 1]" by (simp add: um_keys_def)
  have "failed_stripes [0, 1] [named_stripe] = [0]"
    by (simp add: failed_stripes_def named_stripe_def is_hit_def new_stripe_def)
  with failed_nodes_restored [OF s(1) _ _ s(2) _ _ sample_chance_ok fit names f2r conf sizes len,
      where num_failures = 2 and batch_method = 1 and eck = 2]
  show ?thesis by (auto simp: s INT_MAX_def mds_ec_def)
qed

end
