(* ===== verification/Scheduler.thy ===== *)
theory Scheduler
  imports Complex_Main Solution
begin

text \<open>
  When to repair: \<open>RepairScheduler\<close> (src/src/common/RepairScheduler.cc), the cursor of \<open>TraceReader\<close>
  (src/src/common/TraceReader.cc) and the loop of \<open>RepairSimulator.cc\<close> that runs a strategy over a
  trace of failures. A \<open>set<int>\<close> is the sorted list of its elements, a \<open>double\<close> a rational. What the
  planner makes of one stripe, \<open>computeRepairLoadForStripe\<close>, is an argument that may keep a state of its
  own (the stripes' colourings, the random numbers); reading the trace file and all output are left out.
\<close>

section \<open>The scheduler\<close>

datatype repair_decision = REPAIR_IMMEDIATE | REPAIR_LAZY | REPAIR_PARTIAL

record repair_stats =
  total_repair_rounds :: int
  total_repair_load :: rat
  total_repair_bdwt :: rat
  data_loss_events :: int
  lazy_skip_count :: int
  max_concurrent_failures :: int
  partial_repair_count :: int
  skipped_repair_count :: int
  avg_risk_at_repair :: rat
  lost_stripes_count :: int

definition no_stats :: repair_stats where
  "no_stats = \<lparr>total_repair_rounds = 0, total_repair_load = 0, total_repair_bdwt = 0, data_loss_events = 0,
     lazy_skip_count = 0, max_concurrent_failures = 0, partial_repair_count = 0, skipped_repair_count = 0,
     avg_risk_at_repair = 0, lost_stripes_count = 0\<rparr>"

record scheduler =
  sch_ecn :: int
  sch_eck :: int
  sch_ecw :: int
  fault_tolerance :: int
  failed_now :: "int list"
  sch_stats :: repair_stats

definition new_RepairScheduler :: "int \<Rightarrow> int \<Rightarrow> int \<Rightarrow> scheduler" where
  "new_RepairScheduler n k w =
     \<lparr>sch_ecn = n, sch_eck = k, sch_ecw = w, fault_tolerance = n - k, failed_now = [], sch_stats = no_stats\<rparr>"

definition addFailures :: "int list \<Rightarrow> scheduler \<Rightarrow> bool \<times> scheduler" where
  "addFailures ids s =
     (let failed = fold insort_insert ids (failed_now s); cur = int (length failed); st = sch_stats s;
          st1 = (if cur > max_concurrent_failures st then st\<lparr>max_concurrent_failures := cur\<rparr> else st)
      in (cur > fault_tolerance s, s\<lparr>failed_now := failed, sch_stats := st1\<rparr>))"

definition decideImmediate :: "scheduler \<Rightarrow> repair_decision" where
  "decideImmediate s = (if length (failed_now s) > 0 then REPAIR_IMMEDIATE else REPAIR_LAZY)"

definition decideLazy :: "scheduler \<Rightarrow> repair_decision" where
  "decideLazy s = (if int (length (failed_now s)) \<ge> fault_tolerance s then REPAIR_IMMEDIATE else REPAIR_LAZY)"

record trace_event =
  timestamp :: int
  fail_node_ids :: "int list"

definition decideTraceDriven :: "trace_event option \<Rightarrow> scheduler \<Rightarrow> repair_decision" where
  "decideTraceDriven next_event s =
     (let current_failures = int (length (failed_now s)); remaining_tolerance = fault_tolerance s - current_failures in
      if remaining_tolerance \<le> 0 then REPAIR_IMMEDIATE
      else case next_event of
        None \<Rightarrow> if current_failures > 0 then REPAIR_IMMEDIATE else REPAIR_LAZY
      | Some e \<Rightarrow> if int (length (fail_node_ids e)) > remaining_tolerance then REPAIR_IMMEDIATE else REPAIR_LAZY)"

definition executeRepair :: "scheduler \<Rightarrow> int list \<times> scheduler" where
  "executeRepair s =
     (failed_now s, s\<lparr>failed_now := [], sch_stats := (sch_stats s)\<lparr>total_repair_rounds := total_repair_rounds (sch_stats s) + 1\<rparr>\<rparr>)"

definition recordRepairLoad :: "rat \<Rightarrow> rat \<Rightarrow> scheduler \<Rightarrow> scheduler" where
  "recordRepairLoad load bdwt s =
     s\<lparr>sch_stats := (sch_stats s)\<lparr>total_repair_load := total_repair_load (sch_stats s) + load,
        total_repair_bdwt := total_repair_bdwt (sch_stats s) + bdwt\<rparr>\<rparr>"

definition recordDataLoss :: "scheduler \<Rightarrow> scheduler" where
  "recordDataLoss s = s\<lparr>sch_stats := (sch_stats s)\<lparr>data_loss_events := data_loss_events (sch_stats s) + 1\<rparr>\<rparr>"

definition sch_reset :: "scheduler \<Rightarrow> scheduler" where
  "sch_reset s = s\<lparr>failed_now := [], sch_stats := no_stats\<rparr>"

section \<open>The trace\<close>

record trace_reader =
  tr_events :: "trace_event list"
  current_idx :: nat

definition getCurrentEvent :: "trace_reader \<Rightarrow> trace_event option" where
  "getCurrentEvent r = (if current_idx r < length (tr_events r) then Some (tr_events r ! current_idx r) else None)"

definition peekNextEvent :: "trace_reader \<Rightarrow> trace_event option" where
  "peekNextEvent r = (if current_idx r + 1 < length (tr_events r) then Some (tr_events r ! (current_idx r + 1)) else None)"

definition advance :: "trace_reader \<Rightarrow> trace_reader" where
  "advance r = (if current_idx r < length (tr_events r) then r\<lparr>current_idx := current_idx r + 1\<rparr> else r)"

definition reader_reset :: "trace_reader \<Rightarrow> trace_reader" where
  "reader_reset r = r\<lparr>current_idx := 0\<rparr>"

section \<open>Running over a trace\<close>

function trace_loop :: "(trace_reader \<Rightarrow> trace_event \<Rightarrow> 's \<Rightarrow> 's) \<Rightarrow> trace_reader \<Rightarrow> 's \<Rightarrow> 's" where
  \<comment> \<open>\<open>while (reader.hasCurrentEvent()) { ... reader.advance(); }\<close>\<close>
  "trace_loop f r s =
     (case getCurrentEvent r of None \<Rightarrow> s | Some e \<Rightarrow> trace_loop f (advance r) (f r e s))"
  by pat_completeness auto

termination
  by (relation "measure (\<lambda>(_, r, _). length (tr_events r) - current_idx r)")
    (auto simp: getCurrentEvent_def advance_def split: if_splits)

declare trace_loop.simps [simp del]

lemma trace_loop_stop: "length (tr_events r) \<le> current_idx r \<Longrightarrow> trace_loop f r s = s"
  by (simp add: trace_loop.simps getCurrentEvent_def)

lemma trace_loop_step:
  "current_idx r < length (tr_events r) \<Longrightarrow>
     trace_loop f r s = trace_loop f (r\<lparr>current_idx := Suc (current_idx r)\<rparr>) (f r (tr_events r ! current_idx r) s)"
  by (subst trace_loop.simps) (simp add: getCurrentEvent_def advance_def)

lemma trace_loop_relates:
  assumes "\<And>i s t. i < length es \<Longrightarrow> R i s t \<Longrightarrow>
      R (Suc i) (f \<lparr>tr_events = es, current_idx = i\<rparr> (es ! i) s) (g \<lparr>tr_events = es, current_idx = i\<rparr> (es ! i) t)"
    and "i \<le> length es" and "R i s t"
  shows "R (length es) (trace_loop f \<lparr>tr_events = es, current_idx = i\<rparr> s) (trace_loop g \<lparr>tr_events = es, current_idx = i\<rparr> t)"
  using assms(2,3)
proof (induction "length es - i" arbitrary: i s t)
  case 0
  then show ?case by (simp add: trace_loop_stop)
next
  case (Suc n)
  then have "i < length es" by simp
  with Suc.prems assms(1) have "R (Suc i) (f \<lparr>tr_events = es, current_idx = i\<rparr> (es ! i) s)
    (g \<lparr>tr_events = es, current_idx = i\<rparr> (es ! i) t)" by blast
  with Suc.hyps \<open>i < length es\<close> show ?case by (simp add: trace_loop_step)
qed

lemma trace_loop_invariant:
  assumes "\<And>i s. i < length es \<Longrightarrow> P i s \<Longrightarrow> P (Suc i) (f \<lparr>tr_events = es, current_idx = i\<rparr> (es ! i) s)"
    and "i \<le> length es" and "P i s"
  shows "P (length es) (trace_loop f \<lparr>tr_events = es, current_idx = i\<rparr> s)"
  using trace_loop_relates [of es "\<lambda>i s _. P i s" f "\<lambda>_ _ t. t" i s "()"] assms by blast

lemma peek_at: "peekNextEvent \<lparr>tr_events = es, current_idx = i\<rparr> = (if Suc i < length es then Some (es ! Suc i) else None)"
  by (simp add: peekNextEvent_def)

section \<open>Running a strategy\<close>

type_synonym 'w repair_cost = "stripe \<Rightarrow> int list \<Rightarrow> 'w \<Rightarrow> (rat \<times> rat) \<times> 'w"

definition failed_in :: "int list \<Rightarrow> stripe \<Rightarrow> int list" where
  \<comment> \<open>\<open>stripe_failed_nodes\<close>; its length is \<open>fails_in_stripe\<close>\<close>
  "failed_in failed s = filter (\<lambda>nid. nid \<in> set (getPlacement s)) failed"

definition dataloss_stripes :: "int \<Rightarrow> int list \<Rightarrow> stripe list \<Rightarrow> nat" where
  "dataloss_stripes tol failed stripes = length (filter (\<lambda>s. int (length (failed_in failed s)) > tol) stripes)"

definition add_cost :: "'w repair_cost \<Rightarrow> int \<Rightarrow> int list \<Rightarrow> stripe \<Rightarrow> scheduler \<times> 'w \<Rightarrow> scheduler \<times> 'w" where
  \<comment> \<open>\<open>size() <= ecn - eck\<close> compares unsigned numbers, so a negative tolerance admits every stripe\<close>
  "add_cost cost tol failed s = (\<lambda>(sch, w).
     let fs = failed_in failed s in
     if length fs > 0 \<and> (int (length fs) \<le> tol \<or> tol < 0)
     then (case cost s fs w of ((l, b), w1) \<Rightarrow> (recordRepairLoad l b sch, w1)) else (sch, w))"

definition repair_all :: "'w repair_cost \<Rightarrow> int \<Rightarrow> stripe list \<Rightarrow> scheduler \<times> 'w \<Rightarrow> scheduler \<times> 'w" where
  "repair_all cost tol stripes = (\<lambda>(sch, w).
     case executeRepair sch of (failed, sch1) \<Rightarrow> fold (add_cost cost tol failed) stripes (sch1, w))"

definition decide :: "int \<Rightarrow> trace_reader \<Rightarrow> scheduler \<Rightarrow> repair_decision" where
  "decide strategy r sch =
     (if strategy = 0 then decideImmediate sch
      else if strategy = 1 then decideLazy sch
      else if strategy = 2 then decideTraceDriven (peekNextEvent r) sch
      else REPAIR_IMMEDIATE)"

definition day ::
    "int \<Rightarrow> 'w repair_cost \<Rightarrow> int \<Rightarrow> stripe list \<Rightarrow> trace_reader \<Rightarrow> trace_event \<Rightarrow> scheduler \<times> 'w \<Rightarrow> scheduler \<times> 'w" where
  \<comment> \<open>one turn of the loop\<close>
  "day strategy cost tol stripes r e = (\<lambda>(sch, w).
     case addFailures (fail_node_ids e) sch of (_, sch1) \<Rightarrow>
      if dataloss_stripes tol (failed_now sch1) stripes > 0 then repair_all cost tol stripes (recordDataLoss sch1, w)
      else if decide strategy r sch1 = REPAIR_IMMEDIATE then repair_all cost tol stripes (sch1, w)
      else (sch1, w))"

definition runStrategy ::
    "int \<Rightarrow> 'w repair_cost \<Rightarrow> int \<Rightarrow> int \<Rightarrow> int \<Rightarrow> stripe list \<Rightarrow> trace_reader \<Rightarrow> 'w \<Rightarrow> repair_stats \<times> 'w" where
  \<comment> \<open>\<open>strategy\<close> is 0, 1 or 2: it also indexes an array of three names\<close>
  "runStrategy strategy cost ecn eck ecw stripes r w =
     (let (sch, w1) = trace_loop (day strategy cost (ecn - eck) stripes) (reader_reset r) (new_RepairScheduler ecn eck ecw, w);
          (sch1, w2) = (if length (failed_now sch) > 0 then repair_all cost (ecn - eck) stripes (sch, w1) else (sch, w1))
      in (sch_stats sch1, w2))"

section \<open>The failures a run has seen\<close>

lemma fold_insort_insert:
  "set (fold insort_insert ids xs) = set ids \<union> set xs"
  "sorted xs \<Longrightarrow> sorted (fold insort_insert ids xs)"
  "distinct xs \<Longrightarrow> distinct (fold insort_insert ids xs)"
  by (induction ids arbitrary: xs) (auto simp: set_insort_insert sorted_insort_insert distinct_insort_insert)

lemma fold_insort_insert_length: "length (fold insort_insert ids xs) \<le> length ids + length xs"
proof (induction ids arbitrary: xs)
  case (Cons i ids)
  have "length (insort_insert i xs) \<le> Suc (length xs)" by (simp add: insort_insert_key_def)
  with Cons [of "insort_insert i xs"] show ?case by simp
qed simp

lemma failed_in_length: "length (failed_in failed s) \<le> length failed"
  by (simp add: failed_in_def)

lemma no_loss_below: "int (length failed) \<le> tol \<Longrightarrow> dataloss_stripes tol failed stripes = 0"
proof -
  assume "int (length failed) \<le> tol"
  moreover have "int (length (failed_in failed s)) \<le> int (length failed)" for s using failed_in_length by simp
  ultimately have "\<not> tol < int (length (failed_in failed s))" for s by (meson order_trans not_le)
  then show ?thesis by (simp add: dataloss_stripes_def)
qed

lemma add_cost_keeps:
  "failed_now (fst (add_cost cost tol failed s p)) = failed_now (fst p)"
  "fault_tolerance (fst (add_cost cost tol failed s p)) = fault_tolerance (fst p)"
  "data_loss_events (sch_stats (fst (add_cost cost tol failed s p))) = data_loss_events (sch_stats (fst p))"
  by (auto simp: add_cost_def recordRepairLoad_def Let_def split: prod.splits)

lemma add_costs_keep:
  "failed_now (fst (fold (add_cost cost tol failed) stripes p)) = failed_now (fst p)"
  "fault_tolerance (fst (fold (add_cost cost tol failed) stripes p)) = fault_tolerance (fst p)"
  "data_loss_events (sch_stats (fst (fold (add_cost cost tol failed) stripes p))) = data_loss_events (sch_stats (fst p))"
  by (induction stripes arbitrary: p) (simp_all add: add_cost_keeps)

lemma repair_all_sum:
  "failed_now (fst (repair_all cost tol stripes p)) = []"
  "fault_tolerance (fst (repair_all cost tol stripes p)) = fault_tolerance (fst p)"
  "data_loss_events (sch_stats (fst (repair_all cost tol stripes p))) = data_loss_events (sch_stats (fst p))"
  by (simp_all add: repair_all_def executeRepair_def add_costs_keep split_beta)

lemma addFailures_sum:
  "failed_now (snd (addFailures ids s)) = fold insort_insert ids (failed_now s)"
  "fault_tolerance (snd (addFailures ids s)) = fault_tolerance s"
  "data_loss_events (sch_stats (snd (addFailures ids s))) = data_loss_events (sch_stats s)"
  by (simp_all add: addFailures_def Let_def)

section \<open>Looking ahead loses nothing\<close>

definition room_for :: "int \<Rightarrow> trace_event list \<Rightarrow> nat \<Rightarrow> scheduler \<times> 'w \<Rightarrow> bool" where
  "room_for tol es i p \<longleftrightarrow> fault_tolerance (fst p) = tol \<and> data_loss_events (sch_stats (fst p)) = 0 \<and>
     (i < length es \<longrightarrow> int (length (failed_now (fst p)) + length (fail_node_ids (es ! i))) \<le> tol)"

lemma wait_leaves_room:
  assumes "strategy = 0 \<or> strategy = 2" and "fault_tolerance sch = tol" and "Suc i < length es"
    and "decide strategy \<lparr>tr_events = es, current_idx = i\<rparr> sch \<noteq> REPAIR_IMMEDIATE"
    and "int (length (fail_node_ids (es ! Suc i))) \<le> tol"
  shows "int (length (failed_now sch) + length (fail_node_ids (es ! Suc i))) \<le> tol"
  using assms(1)
proof
  assume "strategy = 0"
  with assms(4,5) show ?thesis by (simp add: decide_def decideImmediate_def split: if_splits)
next
  assume "strategy = 2"
  with assms(3,4) have "decideTraceDriven (Some (es ! Suc i)) sch \<noteq> REPAIR_IMMEDIATE" by (simp add: decide_def peek_at)
  with assms(2) show ?thesis by (simp add: decideTraceDriven_def Let_def split: if_splits)
qed

lemma day_keeps_room:
  assumes "room_for tol es i p" and "i < length es" and "strategy = 0 \<or> strategy = 2"
    and "\<forall>e\<in>set es. int (length (fail_node_ids e)) \<le> tol"
  shows "room_for tol es (Suc i) (day strategy cost tol stripes \<lparr>tr_events = es, current_idx = i\<rparr> (es ! i) p)"
proof -
  obtain sch w where p: "p = (sch, w)" by fastforce
  define sch1 where "sch1 = snd (addFailures (fail_node_ids (es ! i)) sch)"
  have s1: "fault_tolerance sch1 = tol" "data_loss_events (sch_stats sch1) = 0" "int (length (failed_now sch1)) \<le> tol"
    using assms(1,2) fold_insort_insert_length [of "fail_node_ids (es ! i)" "failed_now sch"]
    by (auto simp: room_for_def p sch1_def addFailures_sum)
  have next_day: "Suc i < length es \<Longrightarrow> int (length (fail_node_ids (es ! Suc i))) \<le> tol" using assms(4) by simp
  have d: "fst (day strategy cost tol stripes \<lparr>tr_events = es, current_idx = i\<rparr> (es ! i) p) =
      (if decide strategy \<lparr>tr_events = es, current_idx = i\<rparr> sch1 = REPAIR_IMMEDIATE
       then fst (repair_all cost tol stripes (sch1, w)) else sch1)"
    using no_loss_below [OF s1(3), of stripes] by (simp add: p day_def split_beta sch1_def [symmetric])
  show ?thesis
  proof (cases "decide strategy \<lparr>tr_events = es, current_idx = i\<rparr> sch1 = REPAIR_IMMEDIATE")
    case True
    then have q: "fst (day strategy cost tol stripes \<lparr>tr_events = es, current_idx = i\<rparr> (es ! i) p) =
      fst (repair_all cost tol stripes (sch1, w))" using d by simp
    show ?thesis unfolding room_for_def q repair_all_sum fst_conv using s1(1,2) next_day by simp
  next
    case False
    then have q: "fst (day strategy cost tol stripes \<lparr>tr_events = es, current_idx = i\<rparr> (es ! i) p) = sch1"
      using d by simp
    have "int (length (failed_now sch1) + length (fail_node_ids (es ! Suc i))) \<le> tol" if n: "Suc i < length es"
      by (rule wait_leaves_room [OF assms(3) s1(1) n False next_day [OF n]])
    then show ?thesis unfolding room_for_def q using s1(1,2) by blast
  qed
qed

text \<open>C16: \<open>runStrategy\<close> of \<open>RepairSimulator\<close> never loses data with the Immediate (0) and the TraceDriven
  (2) strategy, whatever the placement and the cost of repairs, as long as no single day names more
  failing nodes than the code tolerates: the failures carried over to a day, with those of the day,
  never exceed \<open>ecn - eck\<close>, and the run reports no data loss.\<close>
theorem trace_driven_no_loss:
  assumes "strategy = 0 \<or> strategy = 2"
    and "\<forall>e\<in>set (tr_events r). int (length (fail_node_ids e)) \<le> ecn - eck"
  shows "data_loss_events (fst (runStrategy strategy cost ecn eck ecw stripes r w)) = 0"
proof -
  let ?es = "tr_events r" and ?p0 = "(new_RepairScheduler ecn eck ecw, w)"
  have r: "reader_reset r = \<lparr>tr_events = ?es, current_idx = 0\<rparr>" by (simp add: reader_reset_def)
  have "room_for (ecn - eck) ?es 0 ?p0" using assms(2) by (auto simp: room_for_def new_RepairScheduler_def no_stats_def)
  then have "room_for (ecn - eck) ?es (length ?es) (trace_loop (day strategy cost (ecn - eck) stripes) (reader_reset r) ?p0)"
    unfolding r by (intro trace_loop_invariant [where P = "room_for (ecn - eck) ?es"] day_keeps_room assms) auto
  then show ?thesis
    by (auto simp: runStrategy_def room_for_def repair_all_sum split_beta Let_def)
qed

definition sample_trace :: trace_reader where
  "sample_trace = \<lparr>tr_events = [\<lparr>timestamp = 0, fail_node_ids = [0]\<rparr>, \<lparr>timestamp = 1, fail_node_ids = [1, 2]\<rparr>,
     \<lparr>timestamp = 2, fail_node_ids = [3]\<rparr>, \<lparr>timestamp = 3, fail_node_ids = [4, 5]\<rparr>], current_idx = 0\<rparr>"

definition sample_places :: "stripe list" where
  "sample_places = [new_stripe 0 [0, 1, 2, 3], new_stripe 1 [2, 3, 4, 5]]"

lemma trace_driven_no_loss_witness:
  "data_loss_events (fst (runStrategy 2 (\<lambda>_ _ w. ((1, 1), w)) 4 2 1 sample_places sample_trace ())) = 0"
  by (rule trace_driven_no_loss) (auto simp: sample_trace_def)

end
