(* ===== verification/Scheduler_New.thy ===== *)
theory Scheduler_New
  imports Scheduler "HOL-Library.Multiset"
begin

text \<open>
  The decisions of \<open>RepairSchedulerNew\<close> (src/src/RepairScheduler_new.hh): which failed nodes to repair
  now, judged stripe by stripe, by the failures to come, or by a risk score. A \<open>double\<close> is a rational,
  and \<open>None\<close> the infinity a division by a tolerance of 0 gives. \<open>std::sort\<close> leaves the order of equal
  elements open: it is the argument \<open>srt\<close>. An \<open>unordered_set\<close> that is sorted afterwards is a list
  without repetitions.
\<close>

section \<open>State and basic operations\<close>

record scheduler_new =
  new_ecn :: int
  new_eck :: int
  new_ecw :: int
  tolerance :: int
  current_failed :: "int list"
  new_stats :: repair_stats
  daily_fail_counts :: "int list"
  risk_sum_at_repair :: rat
  repair_trigger_count :: int

definition new_RepairSchedulerNew :: "int \<Rightarrow> int \<Rightarrow> int \<Rightarrow> scheduler_new" where
  "new_RepairSchedulerNew n k w =
     \<lparr>new_ecn = n, new_eck = k, new_ecw = w, tolerance = n - k, current_failed = [], new_stats = no_stats,
      daily_fail_counts = [], risk_sum_at_repair = 0, repair_trigger_count = 0\<rparr>"

definition add_failed :: "int list \<Rightarrow> int list \<Rightarrow> int list" where
  "add_failed fails cur = fold (\<lambda>nid failed. if nid \<in> set failed then failed else failed @ [nid]) fails cur"

definition addFailures_new :: "int list \<Rightarrow> scheduler_new \<Rightarrow> bool \<times> scheduler_new" where
  "addFailures_new fails s =
     (let failed = add_failed fails (current_failed s); cur = int (length failed); st = new_stats s;
          st1 = (if cur > max_concurrent_failures st then st\<lparr>max_concurrent_failures := cur\<rparr> else st)
      in (cur > tolerance s,
          s\<lparr>current_failed := failed, daily_fail_counts := daily_fail_counts s @ [int (length fails)], new_stats := st1\<rparr>))"

definition recordDataLoss_new :: "int \<Rightarrow> scheduler_new \<Rightarrow> scheduler_new" where
  "recordDataLoss_new lost s = s\<lparr>new_stats := (new_stats s)\<lparr>data_loss_events := data_loss_events (new_stats s) + 1,
     lost_stripes_count := lost_stripes_count (new_stats s) + lost\<rparr>\<rparr>"

definition recordRepairLoad_new :: "rat \<Rightarrow> rat \<Rightarrow> scheduler_new \<Rightarrow> scheduler_new" where
  "recordRepairLoad_new load bdwt s = s\<lparr>new_stats := (new_stats s)\<lparr>total_repair_load := total_repair_load (new_stats s) + load,
     total_repair_bdwt := total_repair_bdwt (new_stats s) + bdwt\<rparr>\<rparr>"

definition executeFullRepair :: "scheduler_new \<Rightarrow> int list \<times> scheduler_new" where
  "executeFullRepair s =
     (current_failed s, s\<lparr>current_failed := [],
        new_stats := (new_stats s)\<lparr>total_repair_rounds := total_repair_rounds (new_stats s) + 1\<rparr>\<rparr>)"

definition repair_nodes :: "int list \<Rightarrow> int list \<Rightarrow> int list \<times> int list" where
  \<comment> \<open>the loop: the nodes found and erased, and what is left\<close>
  "repair_nodes nodes cur = fold (\<lambda>nid (repaired, failed).
     if nid \<in> set failed then (repaired @ [nid], remove1 nid failed) else (repaired, failed)) nodes ([], cur)"

definition executePartialRepair :: "int list \<Rightarrow> scheduler_new \<Rightarrow> int list \<times> scheduler_new" where
  "executePartialRepair nodes s =
     (case repair_nodes nodes (current_failed s) of (repaired, failed) \<Rightarrow>
      let st = new_stats s;
          st1 = (if repaired \<noteq> [] then st\<lparr>total_repair_rounds := total_repair_rounds st + 1,
                   partial_repair_count := partial_repair_count st + 1\<rparr> else st)
      in (repaired, s\<lparr>current_failed := failed, new_stats := st1\<rparr>))"

definition getStats_new :: "scheduler_new \<Rightarrow> repair_stats" where
  "getStats_new s =
     (if repair_trigger_count s > 0
      then (new_stats s)\<lparr>avg_risk_at_repair := risk_sum_at_repair s / of_int (repair_trigger_count s)\<rparr> else new_stats s)"

definition reset_new :: "scheduler_new \<Rightarrow> scheduler_new" where
  "reset_new s = s\<lparr>current_failed := [], new_stats := no_stats, daily_fail_counts := [], risk_sum_at_repair := 0,
     repair_trigger_count := 0\<rparr>"

definition skip_repair :: "scheduler_new \<Rightarrow> scheduler_new" where
  "skip_repair s = s\<lparr>new_stats := (new_stats s)\<lparr>skipped_repair_count := skipped_repair_count (new_stats s) + 1\<rparr>\<rparr>"

definition note_risk :: "rat \<Rightarrow> scheduler_new \<Rightarrow> scheduler_new" where
  "note_risk risk s = s\<lparr>risk_sum_at_repair := risk_sum_at_repair s + risk, repair_trigger_count := repair_trigger_count s + 1\<rparr>"

section \<open>Strategies on single stripes\<close>

definition sid_map :: "stripe list \<Rightarrow> stripe umap" where
  "sid_map stripes = fold (\<lambda>s. um_put (getStripeId s) s) stripes []"

definition in_stripe :: "int list \<Rightarrow> stripe \<Rightarrow> int list" where
  \<comment> \<open>\<open>cur_in_stripe\<close>, \<open>next_in_stripe\<close>: the positions of the stripe that lie on one of the nodes\<close>
  "in_stripe ids s = filter (\<lambda>nid. nid \<in> set ids) (getPlacement s)"

definition sorted_set :: "int list \<Rightarrow> int list" where
  "sorted_set xs = sort (remdups xs)"

definition decideImmediate_new :: "scheduler_new \<Rightarrow> repair_decision" where
  "decideImmediate_new s = (if current_failed s = [] then REPAIR_LAZY else REPAIR_IMMEDIATE)"

definition decideLazy_new :: "stripe list \<Rightarrow> scheduler_new \<Rightarrow> repair_decision \<times> int list" where
  "decideLazy_new stripes s =
     (if current_failed s = [] then (REPAIR_LAZY, [])
      else let nodes = concat (map (\<lambda>st. let cur = in_stripe (current_failed s) st in
                 if int (length cur) \<ge> tolerance s then cur else []) (map snd (sid_map stripes)))
        in if nodes = [] then (REPAIR_LAZY, []) else (REPAIR_IMMEDIATE, sorted_set nodes))"

definition dangerous_nodes :: "stripe list \<Rightarrow> int list \<Rightarrow> scheduler_new \<Rightarrow> int list" where
  \<comment> \<open>what \<open>nodes_to_repair_set\<close> receives\<close>
  "dangerous_nodes stripes next_ids s =
     concat (map (\<lambda>st. let cur = in_stripe (current_failed s) st; nxt = in_stripe next_ids st in
       if cur = [] then [] else if int (length cur) + int (length nxt) > tolerance s then cur else [])
       (map snd (sid_map stripes)))"

definition decideTraceDrivenStripe :: "stripe list \<Rightarrow> int list \<Rightarrow> scheduler_new \<Rightarrow> repair_decision \<times> int list" where
  "decideTraceDrivenStripe stripes next_ids s =
     (if current_failed s = [] then (REPAIR_LAZY, [])
      else let nodes = dangerous_nodes stripes next_ids s
        in if nodes = [] then (REPAIR_LAZY, [])
           else if length (sorted_set nodes) = length (current_failed s) then (REPAIR_IMMEDIATE, sorted_set nodes)
           else (REPAIR_PARTIAL, sorted_set nodes))"

definition decideTraceDriven_new :: "int list \<Rightarrow> scheduler_new \<Rightarrow> repair_decision" where
  "decideTraceDriven_new next_ids s =
     (let cur = int (length (current_failed s)); nxt = int (length next_ids) in
      if cur = 0 \<and> nxt = 0 then REPAIR_LAZY
      else if cur + nxt > tolerance s then REPAIR_IMMEDIATE else REPAIR_LAZY)"

section \<open>The global risk\<close>

definition adaptiveLookahead :: "int \<Rightarrow> int \<Rightarrow> int" where
  "adaptiveLookahead current_failures tol =
     (if tol \<le> 0 then 1
      else let ratio = of_int current_failures / of_int tol :: rat in
        if ratio \<ge> 3/4 then 5 else if ratio \<ge> 1/2 then 3 else if ratio \<ge> 1/4 then 2 else 1)"

definition computeFailureTrend :: "int list \<Rightarrow> int \<Rightarrow> rat" where
  \<comment> \<open>\<open>window\<close> is positive (3 by default)\<close>
  "computeFailureTrend recent window =
     (if recent = [] then 0
      else let n = min (int (length recent)) window in
        of_int (sum_list (drop (length recent - nat n) recent)) / of_int n)"

definition step_risk :: "int \<Rightarrow> int \<Rightarrow> rat" where
  \<comment> \<open>\<open>min(step_risk, 1.0)\<close>; with a tolerance of 0 the quotient is infinite\<close>
  "step_risk cumulative tol = (if tol = 0 then 1 else min (of_int cumulative / of_int tol) 1)"

fun risk_loop :: "int \<Rightarrow> int list list \<Rightarrow> nat \<Rightarrow> rat \<Rightarrow> rat \<Rightarrow> int \<Rightarrow> rat" where
  "risk_loop tol [] n risk discount cumulative = risk"
| "risk_loop tol (win # wins) 0 risk discount cumulative = risk"
| "risk_loop tol (win # wins) (Suc n) risk discount cumulative =
     (let cum = cumulative + int (length win) in
      risk_loop tol wins n (risk + discount * step_risk cum tol) (discount * (7/10)) cum)"

fun max_risk_loop :: "nat \<Rightarrow> rat \<Rightarrow> rat \<Rightarrow> rat" where
  "max_risk_loop 0 max_risk d = max_risk"
| "max_risk_loop (Suc n) max_risk d = max_risk_loop n (max_risk + d) (d * (7/10))"

definition computeGlobalRisk :: "int list list \<Rightarrow> int \<Rightarrow> rat \<Rightarrow> scheduler_new \<Rightarrow> rat" where
  "computeGlobalRisk windows lookahead trend s =
     (let risk = risk_loop (tolerance s) windows (nat lookahead) 0 1 (int (length (current_failed s)));
          max_risk = max_risk_loop (nat lookahead) 0 1;
          risk1 = (if max_risk > 0 then risk / max_risk else 0);
          trend_factor = min (trend / max (of_int (tolerance s) * (1/2)) 1) (3/10)
      in min (risk1 + trend_factor) 1)"

definition decideRiskAwarePartial ::
    "int list list \<Rightarrow> rat \<Rightarrow> rat \<Rightarrow> scheduler_new \<Rightarrow> repair_decision \<times> scheduler_new" where
  "decideRiskAwarePartial windows thr_partial thr_full s =
     (let cur = int (length (current_failed s)) in
      if cur = 0 then (REPAIR_LAZY, s)
      else let lookahead = adaptiveLookahead cur (tolerance s); trend = computeFailureTrend (daily_fail_counts s) 3;
               risk = computeGlobalRisk windows lookahead trend s;
               s1 = (if risk \<ge> thr_partial then note_risk risk s else s)
        in if risk \<ge> thr_full then (REPAIR_IMMEDIATE, s1)
           else if risk \<ge> thr_partial then (REPAIR_PARTIAL, s1)
           else (REPAIR_LAZY, skip_repair s1))"

section \<open>Stripes at risk and the nodes that save them\<close>

record stripe_risk =
  sr_stripe_id :: int
  sr_fail_count :: int
  sr_tolerance :: int
  sr_score :: "rat option"
  sr_critical :: bool
  sr_failed_nodes :: "int list"

record node_priority =
  np_node_id :: int
  np_score :: rat
  np_critical_stripes :: int
  np_high_risk_stripes :: int

definition stripe_risk_of :: "scheduler_new \<Rightarrow> stripe \<Rightarrow> stripe_risk" where
  "stripe_risk_of s st =
     (let fails = failed_in (current_failed s) st; n = int (length fails) in
      \<lparr>sr_stripe_id = getStripeId st, sr_fail_count = n, sr_tolerance = tolerance s,
       sr_score = (if tolerance s = 0 then None else Some (of_int n / of_int (tolerance s))),
       sr_critical = (n > tolerance s), sr_failed_nodes = fails\<rparr>)"

definition computeStripeRisks :: "stripe list \<Rightarrow> scheduler_new \<Rightarrow> stripe_risk list" where
  "computeStripeRisks stripes s = map (stripe_risk_of s) (filter (\<lambda>st. failed_in (current_failed s) st \<noteq> []) stripes)"

definition node_priority_of :: "stripe list \<Rightarrow> stripe_risk list \<Rightarrow> stripe_risk list \<Rightarrow> int \<Rightarrow> node_priority" where
  "node_priority_of stripes critical high nid =
     (let mine = filter (\<lambda>st. nid \<in> set (getPlacement st)) stripes;
          c = int (length (filter (\<lambda>st. getStripeId st \<in> sr_stripe_id ` set critical) mine));
          h = int (length (filter (\<lambda>st. getStripeId st \<in> sr_stripe_id ` set high) mine))
      in \<lparr>np_node_id = nid, np_score = of_int c * 10 + of_int h * 1, np_critical_stripes = c, np_high_risk_stripes = h\<rparr>)"

type_synonym priority_sort = "node_priority list \<Rightarrow> node_priority list"

definition computeNodePriorities ::
    "priority_sort \<Rightarrow> int list \<Rightarrow> stripe list \<Rightarrow> stripe_risk list \<Rightarrow> stripe_risk list \<Rightarrow> node_priority list" where
  "computeNodePriorities srt failed_nodes stripes critical high = srt (map (node_priority_of stripes critical high) failed_nodes)"

definition cover_entry :: "stripe umap \<Rightarrow> int \<Rightarrow> int \<times> int \<Rightarrow> int umap" where
  \<comment> \<open>one entry of \<open>uncovered\<close>, erased when its count runs out\<close>
  "cover_entry smap nid = (\<lambda>(sid, k). case map_of smap sid of None \<Rightarrow> [(sid, k)]
     | Some st \<Rightarrow> if nid \<in> set (getPlacement st) then (if k - 1 \<le> 0 then [] else [(sid, k - 1)]) else [(sid, k)])"

definition is_useful :: "stripe umap \<Rightarrow> int \<Rightarrow> int umap \<Rightarrow> bool" where
  "is_useful smap nid unc \<longleftrightarrow> (\<exists>e\<in>set unc. case map_of smap (fst e) of None \<Rightarrow> False | Some st \<Rightarrow> nid \<in> set (getPlacement st))"

fun greedy_loop :: "stripe umap \<Rightarrow> node_priority list \<Rightarrow> int umap \<Rightarrow> int list \<Rightarrow> int list" where
  "greedy_loop smap [] unc selected = selected"
| "greedy_loop smap (np # nps) unc selected =
     (if unc = [] then selected
      else if np_score np = 0 then selected
      else greedy_loop smap nps (concat (map (cover_entry smap (np_node_id np)) unc))
             (if is_useful smap (np_node_id np) unc then selected @ [np_node_id np] else selected))"

definition greedySelectNodes :: "node_priority list \<Rightarrow> stripe_risk list \<Rightarrow> stripe list \<Rightarrow> scheduler_new \<Rightarrow> int list" where
  "greedySelectNodes priorities critical stripes s =
     (let uncovered = fold (\<lambda>sr. um_put (sr_stripe_id sr) (max (sr_fail_count sr - tolerance s + 1) 1)) critical []
      in greedy_loop (sid_map stripes) priorities uncovered [])"

definition risk_at_least :: "rat \<Rightarrow> stripe_risk \<Rightarrow> bool" where
  "risk_at_least thr sr = (case sr_score sr of None \<Rightarrow> True | Some x \<Rightarrow> x \<ge> thr)"

definition future_hits :: "stripe umap \<Rightarrow> int list list \<Rightarrow> stripe_risk \<Rightarrow> int" where
  \<comment> \<open>\<open>find\<close> in the map never fails here: the risks come from the same stripes\<close>
  "future_hits smap windows sr = (case map_of smap (sr_stripe_id sr) of None \<Rightarrow> 0
     | Some st \<Rightarrow> int (length (filter (\<lambda>nid. nid \<in> set (getPlacement st)) (concat windows))))"

definition is_critical :: "stripe umap \<Rightarrow> int list list \<Rightarrow> int \<Rightarrow> stripe_risk \<Rightarrow> bool" where
  "is_critical smap windows tol sr \<longleftrightarrow> sr_critical sr \<or>
     um_has smap (sr_stripe_id sr) \<and> sr_fail_count sr + future_hits smap windows sr > tol"

definition decideStripeDifferentiated ::
    "priority_sort \<Rightarrow> stripe list \<Rightarrow> int list \<Rightarrow> rat \<Rightarrow> scheduler_new \<Rightarrow> (repair_decision \<times> int list) \<times> scheduler_new" where
  "decideStripeDifferentiated srt stripes next_ids thr s =
     (if current_failed s = [] then ((REPAIR_LAZY, []), s)
      else let risks = computeStripeRisks stripes s; smap = sid_map stripes;
             critical = filter (\<lambda>sr. sr_critical sr \<or> risk_at_least thr sr \<and> is_critical smap [next_ids] (tolerance s) sr) risks;
             high = filter (\<lambda>sr. \<not> sr_critical sr \<and> risk_at_least thr sr \<and> um_has smap (sr_stripe_id sr) \<and>
                       \<not> is_critical smap [next_ids] (tolerance s) sr) risks
        in if critical = [] \<and> high = [] then ((REPAIR_LAZY, []), skip_repair s)
           else let nodes = greedySelectNodes (computeNodePriorities srt (current_failed s) stripes critical high) critical stripes s
             in if nodes = [] then ((REPAIR_LAZY, []), skip_repair s)
                else if length nodes = length (current_failed s) then ((REPAIR_IMMEDIATE, nodes), s)
                else ((REPAIR_PARTIAL, nodes), s))"

definition decideCombined ::
    "priority_sort \<Rightarrow> stripe list \<Rightarrow> int list list \<Rightarrow> rat \<Rightarrow> rat \<Rightarrow> rat \<Rightarrow> scheduler_new \<Rightarrow>
      (repair_decision \<times> int list) \<times> scheduler_new" where
  "decideCombined srt stripes windows thr_partial thr_full thr_stripe s =
     (let cur = int (length (current_failed s)) in
      if cur = 0 then ((REPAIR_LAZY, []), s)
      else let lookahead = adaptiveLookahead cur (tolerance s); trend = computeFailureTrend (daily_fail_counts s) 3;
               risk = computeGlobalRisk windows lookahead trend s
        in if risk < thr_partial * (1/2) then ((REPAIR_LAZY, []), skip_repair s)
           else let risks = computeStripeRisks stripes s; smap = sid_map stripes;
                    must = filter (is_critical smap (take (nat lookahead) windows) (tolerance s)) risks
             in if must = []
                then (if risk \<ge> thr_full then ((REPAIR_IMMEDIATE, current_failed s), note_risk risk s)
                      else ((REPAIR_LAZY, []), skip_repair s))
                else let high = filter (risk_at_least thr_stripe) risks;
                         nodes = greedySelectNodes (computeNodePriorities srt (current_failed s) stripes must high) must stripes s;
                         s1 = note_risk risk s
                  in if nodes = [] \<or> length nodes = length (current_failed s)
                     then ((REPAIR_IMMEDIATE, current_failed s), s1)
                     else ((REPAIR_PARTIAL, nodes), s1))"

section \<open>Sets of failed nodes\<close>

definition hits :: "int list \<Rightarrow> stripe \<Rightarrow> int" where
  \<comment> \<open>how many nodes of the stripe are among the given ones\<close>
  "hits ids st = int (length (failed_in (remdups ids) st))"

lemma hits_card: "hits ids st = int (card (set ids \<inter> set (getPlacement st)))"
proof -
  have "set (failed_in (remdups ids) st) = set ids \<inter> set (getPlacement st)" by (auto simp: failed_in_def)
  moreover have "distinct (failed_in (remdups ids) st)" by (simp add: failed_in_def)
  ultimately show ?thesis by (metis hits_def distinct_card)
qed

lemma failed_in_hits: "distinct ids \<Longrightarrow> int (length (failed_in ids st)) = hits ids st"
  by (simp add: hits_def distinct_remdups_id)

lemma add_failed_sum:
  "set (add_failed fails cur) = set fails \<union> set cur"
  "distinct cur \<Longrightarrow> distinct (add_failed fails cur)"
  unfolding add_failed_def by (induction fails arbitrary: cur) auto

lemma repair_nodes_loop:
  assumes "distinct cur"
  shows "case fold (\<lambda>nid (repaired, failed). if nid \<in> set failed then (repaired @ [nid], remove1 nid failed) else (repaired, failed))
      nodes (acc, cur) of (repaired, failed) \<Rightarrow>
    set failed = set cur - set nodes \<and> distinct failed \<and> set repaired = set acc \<union> (set nodes \<inter> set cur)"
  using assms
proof (induction nodes arbitrary: acc cur)
  case (Cons n nodes)
  show ?case
  proof (cases "n \<in> set cur")
    case True
    with Cons.IH [of "remove1 n cur" "acc @ [n]"] Cons.prems show ?thesis by (auto split: prod.splits)
  next
    case False
    with Cons.IH [of cur acc] Cons.prems show ?thesis by (auto split: prod.splits)
  qed
qed simp

lemma partial_repair_sum:
  assumes "distinct (current_failed s)"
  shows "set (current_failed (snd (executePartialRepair nodes s))) = set (current_failed s) - set nodes"
    and "distinct (current_failed (snd (executePartialRepair nodes s)))"
    and "set (fst (executePartialRepair nodes s)) = set nodes \<inter> set (current_failed s)"
  using repair_nodes_loop [OF assms, of nodes "[]"]
  by (auto simp: executePartialRepair_def repair_nodes_def Let_def split: prod.splits)

lemma partial_repair_fields:
  "tolerance (snd (executePartialRepair nodes s)) = tolerance s"
  "data_loss_events (new_stats (snd (executePartialRepair nodes s))) = data_loss_events (new_stats s)"
  "lost_stripes_count (new_stats (snd (executePartialRepair nodes s))) = lost_stripes_count (new_stats s)"
  by (simp_all add: executePartialRepair_def Let_def split: prod.splits)

lemma full_repair_sum:
  "current_failed (snd (executeFullRepair s)) = []"
  "tolerance (snd (executeFullRepair s)) = tolerance s"
  "data_loss_events (new_stats (snd (executeFullRepair s))) = data_loss_events (new_stats s)"
  "lost_stripes_count (new_stats (snd (executeFullRepair s))) = lost_stripes_count (new_stats s)"
  by (simp_all add: executeFullRepair_def)

lemma addFailures_new_sum:
  "current_failed (snd (addFailures_new fails s)) = add_failed fails (current_failed s)"
  "tolerance (snd (addFailures_new fails s)) = tolerance s"
  "data_loss_events (new_stats (snd (addFailures_new fails s))) = data_loss_events (new_stats s)"
  "lost_stripes_count (new_stats (snd (addFailures_new fails s))) = lost_stripes_count (new_stats s)"
  by (simp_all add: addFailures_new_def Let_def)

lemma um_put_new: "k \<notin> set (um_keys m) \<Longrightarrow> um_put k v m = m @ [(k, v)]"
  unfolding um_put_def by (induction m) (auto simp: um_keys_def)

lemma sid_map_loop:
  assumes "distinct (map getStripeId stripes)" and "set (um_keys m) \<inter> getStripeId ` set stripes = {}"
  shows "fold (\<lambda>s. um_put (getStripeId s) s) stripes m = m @ map (\<lambda>s. (getStripeId s, s)) stripes"
  using assms by (induction stripes arbitrary: m) (auto simp: um_put_new um_keys_def)

lemma sid_map_distinct:
  assumes "distinct (map getStripeId stripes)"
  shows "sid_map stripes = map (\<lambda>s. (getStripeId s, s)) stripes"
  using sid_map_loop [OF assms, of "[]"] by (simp add: sid_map_def)

lemma sid_map_lookup:
  assumes "distinct (map getStripeId stripes)" and "st \<in> set stripes"
  shows "map_of (sid_map stripes) (getStripeId st) = Some st"
proof -
  have "distinct (map fst (map (\<lambda>s. (getStripeId s, s)) stripes))" using assms(1) by (simp add: comp_def)
  with assms(2) show ?thesis unfolding sid_map_distinct [OF assms(1)] by (intro map_of_is_SomeI) auto
qed

section \<open>A stripe in danger is repaired in time\<close>

lemma dangerous_repaired:
  assumes "distinct (map getStripeId stripes)" and "st \<in> set stripes"
    and "in_stripe (current_failed s) st \<noteq> []"
    and "int (length (in_stripe (current_failed s) st)) + int (length (in_stripe pred st)) > tolerance s"
  shows "set (current_failed s) \<inter> set (getPlacement st) \<subseteq> set (snd (decideTraceDrivenStripe stripes pred s))"
proof
  fix n assume "n \<in> set (current_failed s) \<inter> set (getPlacement st)"
  then have n: "n \<in> set (in_stripe (current_failed s) st)" by (simp add: in_stripe_def)
  have "n \<in> set (dangerous_nodes stripes pred s)"
    unfolding dangerous_nodes_def sid_map_distinct [OF assms(1)] Let_def using assms(2,3,4) n by auto
  moreover from n have "current_failed s \<noteq> []" by (auto simp: in_stripe_def)
  ultimately show "n \<in> set (snd (decideTraceDrivenStripe stripes pred s))"
    by (auto simp: decideTraceDrivenStripe_def Let_def sorted_set_def)
qed

lemma repaired_in_time:
  assumes "distinct (map getStripeId stripes)" and "st \<in> set stripes"
    and "hits nxt st \<le> tolerance s"
    and "set nxt \<inter> set (getPlacement st) - set (current_failed s) \<subseteq> set pred"
    and "set left = set (current_failed s) - set (snd (decideTraceDrivenStripe stripes pred s))"
  shows "hits (nxt @ left) st \<le> tolerance s"
proof (cases "in_stripe (current_failed s) st = [] \<or>
    int (length (in_stripe (current_failed s) st)) + int (length (in_stripe pred st)) > tolerance s")
  case True
  then have "set left \<inter> set (getPlacement st) = {}"
    using dangerous_repaired [OF assms(1,2), of s pred] by (auto simp: assms(5) in_stripe_def filter_empty_conv)
  then have "set (nxt @ left) \<inter> set (getPlacement st) = set nxt \<inter> set (getPlacement st)" by auto
  with assms(3) show ?thesis by (simp add: hits_card)
next
  case False
  have "card (set (nxt @ left) \<inter> set (getPlacement st)) \<le> card (set (in_stripe (current_failed s) st @ in_stripe pred st))"
    using assms(4,5) by (intro card_mono) (auto simp: in_stripe_def)
  also have "\<dots> \<le> length (in_stripe (current_failed s) st @ in_stripe pred st)" by (rule card_length)
  finally show ?thesis using False by (simp add: hits_card)
qed

section \<open>The greedy choice saves every critical stripe\<close>

lemma cover_entry_key: "set (um_keys (cover_entry smap nid e)) \<subseteq> {fst e}"
  by (cases e) (auto simp: um_keys_def cover_entry_def split: option.splits if_splits)

lemma cover_entry_keys: "set (um_keys (concat (map (cover_entry smap nid) unc))) \<subseteq> set (um_keys unc)"
proof (induction unc)
  case (Cons e unc)
  with cover_entry_key [of smap nid e] show ?case by (auto simp: um_keys_def simp del: set_map)
qed simp

lemma cover_entry_wf: "um_wf unc \<Longrightarrow> um_wf (concat (map (cover_entry smap nid) unc))"
proof (induction unc)
  case (Cons e unc)
  let ?rest = "concat (map (cover_entry smap nid) unc)"
  have keys: "um_keys (xs @ ys) = um_keys xs @ um_keys ys" for xs ys :: "int umap" by (simp add: um_keys_def)
  have "um_keys (cover_entry smap nid e) = [] \<or> um_keys (cover_entry smap nid e) = [fst e]"
    by (cases e) (auto simp: um_keys_def cover_entry_def split: option.splits)
  moreover have "fst e \<notin> set (um_keys ?rest)"
    using Cons.prems cover_entry_keys [of smap nid unc] by (cases e) auto
  moreover have "um_wf ?rest" using Cons by (cases e) simp
  moreover have "concat (map (cover_entry smap nid) (e # unc)) = cover_entry smap nid e @ ?rest" by simp
  ultimately show ?case by (metis keys append_Nil append_Cons distinct.simps(2))
qed simp

lemma cover_lookup:
  assumes "map_of unc sid = Some k" and "map_of smap sid = Some st" and "um_wf unc"
  shows "map_of (concat (map (cover_entry smap nid) unc)) sid =
    (if nid \<in> set (getPlacement st) then (if k \<le> 1 then None else Some (k - 1)) else Some k)"
  using assms(1,3)
proof (induction unc)
  case (Cons e unc)
  obtain i j where e: "e = (i, j)" by fastforce
  show ?case
  proof (cases "i = sid")
    case True
    then have "sid \<notin> set (um_keys unc)" "j = k" using Cons.prems by (auto simp: e)
    then have "map_of (concat (map (cover_entry smap nid) unc)) sid = None"
      using cover_entry_keys [of smap nid unc] by (auto simp: map_of_eq_None_iff um_keys_def)
    then show ?thesis using True \<open>j = k\<close> assms(2) by (auto simp: e cover_entry_def map_add_def)
  next
    case False
    then have "map_of (cover_entry smap nid e) sid = None" by (auto simp: e cover_entry_def split: option.splits)
    moreover have "map_of unc sid = Some k" "um_wf unc" using False Cons.prems by (auto simp: e)
    ultimately show ?thesis using Cons.IH by (simp add: map_add_def split: option.splits)
  qed
qed simp

lemma greedy_keeps: "set selected \<subseteq> set (greedy_loop smap nps unc selected)"
  by (induction smap nps unc selected rule: greedy_loop.induct) auto

lemma greedy_from: "set (greedy_loop smap nps unc selected) \<subseteq> set selected \<union> np_node_id ` set nps"
  by (induction smap nps unc selected rule: greedy_loop.induct) (auto split: if_splits)

lemma greedy_covers:
  assumes "map_of unc sid = Some k" and "1 \<le> k" and "map_of smap sid = Some st" and "um_wf unc"
    and "sorted_wrt (\<lambda>a b. np_score a \<ge> np_score b) nps" and "\<forall>np\<in>set nps. np_score np \<ge> 0"
    and "\<forall>np\<in>set nps. np_node_id np \<in> set (getPlacement st) \<longrightarrow> np_score np > 0"
    and "distinct (map np_node_id nps)" and "set selected \<inter> np_node_id ` set nps = {}"
    and "k \<le> int (card (np_node_id ` set nps \<inter> set (getPlacement st)))"
  shows "k + int (card (set selected \<inter> set (getPlacement st))) \<le>
    int (card (set (greedy_loop smap nps unc selected) \<inter> set (getPlacement st)))"
  using assms
proof (induction nps arbitrary: unc k selected)
  case (Cons np nps)
  let ?pl = "set (getPlacement st)" and ?n = "np_node_id np"
  let ?unc = "concat (map (cover_entry smap ?n) unc)" and ?sel = "if is_useful smap ?n unc then selected @ [?n] else selected"
  have ne: "unc \<noteq> []" using Cons.prems(1) by auto
  have score: "np_score np \<noteq> 0"
  proof
    assume "np_score np = 0"
    with Cons.prems(5,6,7) have "\<forall>q\<in>set (np # nps). np_node_id q \<notin> ?pl" by fastforce
    then have "np_node_id ` set (np # nps) \<inter> ?pl = {}" by auto
    with Cons.prems(2,10) show False by (simp only: card.empty)
  qed
  have step: "greedy_loop smap (np # nps) unc selected = greedy_loop smap nps ?unc ?sel" using ne score by simp
  have fresh: "?n \<notin> np_node_id ` set nps" "?n \<notin> set selected" using Cons.prems(8,9) by auto
  have dis: "set ?sel \<inter> np_node_id ` set nps = {}" using Cons.prems(9) fresh by auto
  show ?case
  proof (cases "?n \<in> ?pl")
    case True
    have entry: "(sid, k) \<in> set unc" using Cons.prems(1) by (rule map_of_SomeD)
    then have "is_useful smap ?n unc" unfolding is_useful_def using True Cons.prems(3) by (intro bexI [of _ "(sid, k)"]) simp_all
    then have sel: "?sel = selected @ [?n]" by simp
    have more: "card (set ?sel \<inter> ?pl) = Suc (card (set selected \<inter> ?pl))" using True fresh(2) by (simp add: sel)
    show ?thesis
    proof (cases "k \<le> 1")
      case True
      have "card (set ?sel \<inter> ?pl) \<le> card (set (greedy_loop smap nps ?unc ?sel) \<inter> ?pl)"
        using greedy_keeps [of ?sel smap nps ?unc] by (intro card_mono) auto
      with more True show ?thesis unfolding step by linarith
    next
      case False
      have "np_node_id ` set (np # nps) \<inter> ?pl = insert ?n (np_node_id ` set nps \<inter> ?pl)" using \<open>?n \<in> ?pl\<close> by auto
      then have "k - 1 \<le> int (card (np_node_id ` set nps \<inter> ?pl))" using Cons.prems(10) fresh(1) by simp
      moreover have "map_of ?unc sid = Some (k - 1)"
        using cover_lookup [OF Cons.prems(1,3,4), of ?n] \<open>?n \<in> ?pl\<close> False by simp
      ultimately have "k - 1 + int (card (set ?sel \<inter> ?pl)) \<le> int (card (set (greedy_loop smap nps ?unc ?sel) \<inter> ?pl))"
        using Cons.prems(3,5-8) cover_entry_wf [OF Cons.prems(4)] dis False by (intro Cons.IH) auto
      with more show ?thesis unfolding step by linarith
    qed
  next
    case False
    then have "np_node_id ` set (np # nps) \<inter> ?pl = np_node_id ` set nps \<inter> ?pl" by auto
    moreover have "map_of ?unc sid = Some k" using cover_lookup [OF Cons.prems(1,3,4), of ?n] False by simp
    ultimately have "k + int (card (set ?sel \<inter> ?pl)) \<le> int (card (set (greedy_loop smap nps ?unc ?sel) \<inter> ?pl))"
      using Cons.prems(2,3,5-8,10) cover_entry_wf [OF Cons.prems(4)] dis by (intro Cons.IH) auto
    moreover have "set ?sel \<inter> ?pl = set selected \<inter> ?pl" using False by auto
    ultimately show ?thesis unfolding step by simp
  qed
qed simp

definition sorts_priorities :: "priority_sort \<Rightarrow> bool" where
  \<comment> \<open>what \<open>std::sort\<close> promises: the same elements, by falling score\<close>
  "sorts_priorities srt \<longleftrightarrow> (\<forall>xs. mset (srt xs) = mset xs \<and> sorted_wrt (\<lambda>a b. np_score a \<ge> np_score b) (srt xs))"

lemma uncovered_lookup:
  assumes "\<forall>x\<in>set critical. sr_stripe_id x = sid \<longrightarrow> f x = v"
    and "sid \<in> sr_stripe_id ` set critical \<or> map_of m sid = Some v"
  shows "map_of (fold (\<lambda>sr. um_put (sr_stripe_id sr) (f sr)) critical m) sid = Some v"
  using assms
proof (induction critical arbitrary: m)
  case (Cons x critical)
  have "sid \<in> sr_stripe_id ` set critical \<or> map_of (um_put (sr_stripe_id x) (f x) m) sid = Some v"
    using Cons.prems by auto
  with Cons show ?case by simp
qed simp

lemma uncovered_wf: "um_wf m \<Longrightarrow> um_wf (fold (\<lambda>sr. um_put (sr_stripe_id sr) (f sr)) critical m)"
  by (induction critical arbitrary: m) simp_all

lemma priority_facts:
  "np_node_id (node_priority_of stripes critical high nid) = nid"
  "np_score (node_priority_of stripes critical high nid) \<ge> 0"
  by (simp_all add: node_priority_of_def Let_def)

lemma critical_priority:
  assumes "st \<in> set stripes" and "stripe_risk_of s st \<in> set critical" and "nid \<in> set (getPlacement st)"
  shows "np_score (node_priority_of stripes critical high nid) > 0"
proof -
  have "getStripeId st \<in> sr_stripe_id ` set critical"
    using assms(2) by (intro image_eqI [of _ _ "stripe_risk_of s st"]) (simp_all add: stripe_risk_of_def Let_def)
  with assms(1,3) have "filter (\<lambda>st. getStripeId st \<in> sr_stripe_id ` set critical)
      (filter (\<lambda>st. nid \<in> set (getPlacement st)) stripes) \<noteq> []"
    by (auto simp: filter_empty_conv)
  then have "0 < length (filter (\<lambda>st. getStripeId st \<in> sr_stripe_id ` set critical)
      (filter (\<lambda>st. nid \<in> set (getPlacement st)) stripes))" by blast
  then show ?thesis by (simp add: node_priority_of_def Let_def add_pos_nonneg del: filter_filter)
qed

lemma risk_fail_count: "distinct (current_failed s) \<Longrightarrow> sr_fail_count (stripe_risk_of s st) = hits (current_failed s) st"
  by (simp add: stripe_risk_of_def Let_def failed_in_hits)

text \<open>C13: The nodes \<open>greedySelectNodes\<close> picks from the priorities of \<open>computeNodePriorities\<close> save every
  stripe it is told is critical: all of them have failed, and once \<open>executePartialRepair\<close> has repaired
  them the stripe has fewer failed nodes than before, and fewer than it tolerates, in whatever order
  \<open>std::sort\<close> leaves nodes of equal score.\<close>
theorem greedy_saves_critical:
  assumes "sorts_priorities srt" and "distinct (map getStripeId stripes)" and "distinct (current_failed s)"
    and "1 \<le> tolerance s" and "set critical \<subseteq> set (computeStripeRisks stripes s)"
    and "st \<in> set stripes" and "stripe_risk_of s st \<in> set critical"
    and "nodes = greedySelectNodes (computeNodePriorities srt (current_failed s) stripes critical high) critical stripes s"
    and "s' = snd (executePartialRepair nodes s)"
  shows "set nodes \<subseteq> set (current_failed s) \<and> hits (current_failed s') st < tolerance s \<and>
    hits (current_failed s') st < hits (current_failed s) st"
proof -
  let ?cur = "set (current_failed s)" and ?pl = "set (getPlacement st)"
  define f where "f x = max (sr_fail_count x - tolerance s + 1) 1" for x :: stripe_risk
  define unc where "unc = fold (\<lambda>sr. um_put (sr_stripe_id sr) (f sr)) critical []"
  define nps where "nps = computeNodePriorities srt (current_failed s) stripes critical high"
  let ?k = "f (stripe_risk_of s st)"
  have ms: "mset nps = mset (map (node_priority_of stripes critical high) (current_failed s))"
    and sorted: "sorted_wrt (\<lambda>a b. np_score a \<ge> np_score b) nps"
    using assms(1) by (simp_all add: nps_def computeNodePriorities_def sorts_priorities_def)
  from ms have set_nps: "set nps = node_priority_of stripes critical high ` ?cur" by (metis set_mset_mset set_map)
  from ms have "mset (map np_node_id nps) = mset (map np_node_id (map (node_priority_of stripes critical high) (current_failed s)))"
    by (metis mset_map)
  then have ids: "mset (map np_node_id nps) = mset (current_failed s)" by (simp add: priority_facts comp_def)
  then have dist: "distinct (map np_node_id nps)" using assms(3) by (metis mset_eq_imp_distinct_iff)
  from ids have id_set: "np_node_id ` set nps = ?cur" by (metis set_mset_mset set_map)
  have nonempty: "1 \<le> hits (current_failed s) st"
  proof -
    from assms(5,7) obtain st' where "stripe_risk_of s st = stripe_risk_of s st'" "failed_in (current_failed s) st' \<noteq> []"
      by (auto simp: computeStripeRisks_def)
    then have "failed_in (current_failed s) st \<noteq> []" by (simp add: stripe_risk_of_def Let_def)
    then have "length (failed_in (current_failed s) st) \<noteq> 0" by blast
    then show ?thesis unfolding failed_in_hits [OF assms(3), symmetric] by linarith
  qed
  have k: "?k = max (hits (current_failed s) st - tolerance s + 1) 1" by (simp add: f_def risk_fail_count [OF assms(3)])
  have same: "f x = ?k" if "x \<in> set critical" "sr_stripe_id x = getStripeId st" for x
  proof -
    from that(1) assms(5) obtain st' where "st' \<in> set stripes" "x = stripe_risk_of s st'" by (auto simp: computeStripeRisks_def)
    moreover from this that(2) have "getStripeId st' = getStripeId st" by (simp add: stripe_risk_of_def Let_def)
    ultimately have "st' = st" using assms(2,6) by (auto simp: distinct_map dest: inj_onD)
    with \<open>x = stripe_risk_of s st'\<close> show ?thesis by simp
  qed
  have sid: "getStripeId st \<in> sr_stripe_id ` set critical"
    using assms(7) by (intro image_eqI [of _ _ "stripe_risk_of s st"]) (simp_all add: stripe_risk_of_def Let_def)
  have look: "map_of unc (getStripeId st) = Some ?k" unfolding unc_def
    by (rule uncovered_lookup) (use same sid in auto)
  have wf: "um_wf unc" unfolding unc_def by (rule uncovered_wf) (simp add: um_keys_def)
  have pos: "\<forall>np\<in>set nps. np_score np \<ge> 0" unfolding set_nps using priority_facts(2) by blast
  have crit: "\<forall>np\<in>set nps. np_node_id np \<in> ?pl \<longrightarrow> np_score np > 0"
    unfolding set_nps using critical_priority [OF assms(6,7)] by (simp add: priority_facts)
  have enough: "?k \<le> int (card (np_node_id ` set nps \<inter> ?pl))"
    using nonempty assms(4) unfolding id_set k hits_card by simp
  have nodes: "nodes = greedy_loop (sid_map stripes) nps unc []"
    by (simp add: assms(8) greedySelectNodes_def nps_def unc_def f_def)
  from look have "1 \<le> ?k" by (simp add: k)
  then have cover: "?k \<le> int (card (set nodes \<inter> ?pl))"
    using greedy_covers [OF look _ sid_map_lookup [OF assms(2,6)] wf sorted pos crit dist _ enough, of "[]"] by (simp add: nodes)
  have sub: "set nodes \<subseteq> ?cur" using greedy_from [of "sid_map stripes" nps unc "[]"] by (simp add: nodes id_set)
  have "set (current_failed s') \<inter> ?pl = ?cur \<inter> ?pl - set nodes \<inter> ?pl"
    using partial_repair_sum(1) [OF assms(3), of nodes] by (auto simp: assms(9))
  moreover have "set nodes \<inter> ?pl \<subseteq> ?cur \<inter> ?pl" using sub by blast
  ultimately have "hits (current_failed s') st = hits (current_failed s) st - int (card (set nodes \<inter> ?pl))"
    unfolding hits_card by (simp add: card_Diff_subset card_mono of_nat_diff)
  with cover sub show ?thesis unfolding k by linarith
qed

definition stable_priorities :: priority_sort where
  "stable_priorities = sort_key (\<lambda>p. - np_score p)"

lemma stable_priorities_sort: "sorts_priorities stable_priorities"
proof -
  have "sorted_wrt (\<lambda>a b. np_score b \<le> np_score a) (sort_key (\<lambda>p. - np_score p) xs)" for xs :: "node_priority list"
    using sorted_sort_key [of "\<lambda>p. - np_score p" xs] by (simp add: sorted_map)
  then show ?thesis by (simp add: sorts_priorities_def stable_priorities_def)
qed

definition sample_new :: scheduler_new where
  "sample_new = (new_RepairSchedulerNew 4 2 1)\<lparr>current_failed := [2, 3, 0, 1]\<rparr>"

section \<open>The risk score\<close>

lemma max_risk_grows: "0 \<le> d \<Longrightarrow> m \<le> max_risk_loop n m d"
proof (induction n arbitrary: m d)
  case (Suc n)
  from Suc.IH [of "d * (7/10)" "m + d"] Suc.prems show ?case by simp
qed simp

lemma step_risk_bounds: "0 \<le> tol \<Longrightarrow> 0 \<le> cum \<Longrightarrow> 0 \<le> step_risk cum tol \<and> step_risk cum tol \<le> 1"
  by (simp add: step_risk_def)

lemma risk_loop_bounds:
  assumes "0 \<le> tol" and "0 \<le> cum" and "0 \<le> d"
  shows "r \<le> risk_loop tol wins n r d cum \<and> risk_loop tol wins n r d cum \<le> max_risk_loop n r d"
  using assms
proof (induction tol wins n r d cum rule: risk_loop.induct)
  case (1 tol n risk d cum)
  then show ?case by (simp add: max_risk_grows)
next
  case (3 tol win wins n risk d cum)
  define c where "c = cum + int (length win)"
  have b: "0 \<le> step_risk c tol" "step_risk c tol \<le> 1" using step_risk_bounds [of tol c] 3(2,3) by (simp_all add: c_def)
  then have m: "0 \<le> d * step_risk c tol" "d * step_risk c tol \<le> d" using 3(4) by (simp_all add: mult_left_le)
  have mono: "max_risk_loop n x e \<le> max_risk_loop n y e" if "x \<le> y" for x y e :: rat and n
    using that by (induction n arbitrary: x y e) simp_all
  from 3 have "risk + d * step_risk c tol \<le> risk_loop tol wins n (risk + d * step_risk c tol) (d * (7/10)) c \<and>
    risk_loop tol wins n (risk + d * step_risk c tol) (d * (7/10)) c \<le> max_risk_loop n (risk + d * step_risk c tol) (d * (7/10))"
    by (simp add: c_def)
  with m mono [of "risk + d * step_risk c tol" "risk + d" n "d * (7/10)"] show ?case by (simp add: c_def [symmetric] Let_def)
qed simp

lemma risk_loop_full:
  assumes "0 \<le> tol" and "tol \<le> cum" and "n \<le> length wins"
  shows "risk_loop tol wins n r d cum = max_risk_loop n r d"
  using assms
proof (induction tol wins n r d cum rule: risk_loop.induct)
  case (3 tol win wins n risk d cum)
  then have "step_risk (cum + int (length win)) tol = 1" by (auto simp: step_risk_def min_def)
  with 3 show ?case by (simp add: Let_def)
qed simp_all

lemma computeGlobalRisk_bounds:
  assumes "0 \<le> tolerance s" and "1 \<le> lookahead" and "0 \<le> trend"
  shows "0 \<le> computeGlobalRisk windows lookahead trend s \<and> computeGlobalRisk windows lookahead trend s \<le> 1 \<and>
    (tolerance s \<le> int (length (current_failed s)) \<and> lookahead \<le> int (length windows) \<longrightarrow>
       computeGlobalRisk windows lookahead trend s = 1) \<and>
    (windows = [] \<longrightarrow> computeGlobalRisk windows lookahead trend s \<le> 3/10)"
proof -
  define n where "n = nat lookahead"
  obtain n' where n': "n = Suc n'" using assms(2) by (metis n_def One_nat_def Suc_le_D nat_mono nat_1)
  define mx where "mx = max_risk_loop n 0 1"
  define rk where "rk = risk_loop (tolerance s) windows n 0 1 (int (length (current_failed s)))"
  define tf where "tf = min (trend / max (of_int (tolerance s) * (1/2)) 1) (3/10 :: rat)"
  have mx: "0 < mx" using max_risk_grows [of "7/10" 1 n'] by (simp add: mx_def n')
  have rk: "0 \<le> rk" "rk \<le> mx"
    using risk_loop_bounds [OF assms(1), of "int (length (current_failed s))" 1 0 windows n] by (simp_all add: rk_def mx_def)
  have tf: "0 \<le> tf" using assms(3) by (simp add: tf_def)
  have tf3: "tf \<le> 3/10" unfolding tf_def by (rule min.cobounded2)
  have g: "computeGlobalRisk windows lookahead trend s = min (rk / mx + tf) 1"
    using mx by (simp add: computeGlobalRisk_def Let_def n_def [symmetric] rk_def [symmetric] mx_def [symmetric] tf_def)
  have "rk = mx" if "tolerance s \<le> int (length (current_failed s))" "lookahead \<le> int (length windows)"
    using risk_loop_full [OF assms(1) that(1), of n windows] that(2) by (simp add: rk_def mx_def n_def)
  moreover have "rk = 0" if "windows = []" by (simp add: rk_def that)
  ultimately show ?thesis unfolding g using rk tf tf3 mx by (auto simp: min_def)
qed

lemma lookahead_range: "1 \<le> adaptiveLookahead cur tol \<and> adaptiveLookahead cur tol \<le> 5"
  by (simp add: adaptiveLookahead_def Let_def)

lemma trend_nonneg:
  assumes "\<forall>c\<in>set recent. 0 \<le> c" and "0 < window"
  shows "0 \<le> computeFailureTrend recent window"
proof -
  have "0 \<le> sum_list (drop k recent)" for k using assms(1) by (intro sum_list_nonneg) (auto dest: in_set_dropD)
  then show ?thesis using assms(2) by (simp add: computeFailureTrend_def Let_def)
qed

text \<open>C14: The score \<open>computeGlobalRisk\<close> gives lies between 0 and 1, and decides as
  \<open>decideRiskAwarePartial\<close> means it to: with at least as many failed nodes as the code tolerates and the
  failures of five days ahead known, everything is repaired. With no day ahead, at the end of the trace,
  the score is at most 0.3, so that the default thresholds repair nothing, however many nodes have failed.\<close>
theorem risk_aware_decides:
  assumes "0 \<le> tolerance s" and "current_failed s \<noteq> []" and "\<forall>c\<in>set (daily_fail_counts s). 0 \<le> c"
    and "risk = computeGlobalRisk windows (adaptiveLookahead (int (length (current_failed s))) (tolerance s))
      (computeFailureTrend (daily_fail_counts s) 3) s"
  shows "0 \<le> risk \<and> risk \<le> 1 \<and>
    (tolerance s \<le> int (length (current_failed s)) \<and> 5 \<le> length windows \<and> thr_full \<le> 1 \<longrightarrow>
       fst (decideRiskAwarePartial windows thr_partial thr_full s) = REPAIR_IMMEDIATE) \<and>
    (windows = [] \<longrightarrow> decideRiskAwarePartial windows (1/2) (4/5) s = (REPAIR_LAZY, skip_repair s))"
proof -
  let ?look = "adaptiveLookahead (int (length (current_failed s))) (tolerance s)"
  have look: "1 \<le> ?look" "?look \<le> 5" using lookahead_range by blast+
  note b = computeGlobalRisk_bounds [OF assms(1) look(1) trend_nonneg [OF assms(3), of 3], of windows, folded assms(4)]
  have d: "decideRiskAwarePartial windows p f s =
      (let s1 = (if risk \<ge> p then note_risk risk s else s) in
       if risk \<ge> f then (REPAIR_IMMEDIATE, s1) else if risk \<ge> p then (REPAIR_PARTIAL, s1) else (REPAIR_LAZY, skip_repair s1))" for p f
    using assms(2) by (simp add: decideRiskAwarePartial_def Let_def assms(4))
  have r: "risk = 1" if "tolerance s \<le> int (length (current_failed s))" "5 \<le> length windows"
    using b that look(2) by simp
  have e: "risk \<le> 3/10" if "windows = []" using b that by simp
  have range: "0 \<le> risk" "risk \<le> 1" using b by simp_all
  have "fst (decideRiskAwarePartial windows thr_partial thr_full s) = REPAIR_IMMEDIATE"
    if "tolerance s \<le> int (length (current_failed s)) \<and> 5 \<le> length windows \<and> thr_full \<le> 1"
    using r that by (simp add: d Let_def)
  moreover have "decideRiskAwarePartial windows (1/2) (4/5) s = (REPAIR_LAZY, skip_repair s)" if "windows = []"
    using e [OF that] by (simp add: d Let_def)
  ultimately show ?thesis using range by blast
qed

lemma risk_aware_decides_witness:
  "decideRiskAwarePartial [] (1/2) (4/5) (sample_new\<lparr>daily_fail_counts := [4]\<rparr>) =
     (REPAIR_LAZY, skip_repair (sample_new\<lparr>daily_fail_counts := [4]\<rparr>))"
  using risk_aware_decides [of "sample_new\<lparr>daily_fail_counts := [4]\<rparr>" _ "[]" 1 1]
  by (simp add: sample_new_def new_RepairSchedulerNew_def)

lemma greedy_saves_critical_witness:
  "hits (current_failed (snd (executePartialRepair
     (greedySelectNodes (computeNodePriorities stable_priorities [2, 3, 0, 1] sample_places
       (computeStripeRisks sample_places sample_new) []) (computeStripeRisks sample_places sample_new) sample_places sample_new)
     sample_new))) (new_stripe 0 [0, 1, 2, 3]) < 2"
proof -
  have "new_stripe 0 [0, 1, 2, 3] \<in> set sample_places" "distinct (map getStripeId sample_places)"
    "current_failed sample_new = [2, 3, 0, 1]" "tolerance sample_new = 2"
    by (simp_all add: sample_places_def sample_new_def new_RepairSchedulerNew_def getStripeId_def new_stripe_def)
  moreover have "stripe_risk_of sample_new (new_stripe 0 [0, 1, 2, 3]) \<in> set (computeStripeRisks sample_places sample_new)"
    by (simp add: computeStripeRisks_def sample_places_def failed_in_def getPlacement_def new_stripe_def
        sample_new_def new_RepairSchedulerNew_def)
  ultimately show ?thesis
    using greedy_saves_critical [OF stable_priorities_sort, of sample_places sample_new
        "computeStripeRisks sample_places sample_new" "new_stripe 0 [0, 1, 2, 3]" _ "[]" _, OF _ _ _ _ _ _ refl refl]
    by simp
qed

end
