(* ===== verification/Predictor.thy ===== *)
theory Predictor
  imports Scheduler
begin

text \<open>
  A simulated failure predictor: \<open>MLPredictor\<close> (src/src/MLPredictor.hh) looks at the failures the trace
  has for the next day and misses some or adds some at random. The numbers \<open>dist(_rng)\<close> delivers are
  the argument \<open>rnd\<close>, read from the position \<open>mp_drawn\<close> on; a \<open>double\<close> is a rational. The look-ahead
  \<open>setLookahead\<close> sets is the field \<open>mp_lookahead\<close>.
\<close>

section \<open>Its quality\<close>

record predictor_stats =
  true_positives :: int
  false_positives :: int
  false_negatives :: int
  true_negatives :: int

definition no_predictions :: predictor_stats where
  "no_predictions = \<lparr>true_positives = 0, false_positives = 0, false_negatives = 0, true_negatives = 0\<rparr>"

definition precision :: "predictor_stats \<Rightarrow> rat" where
  "precision p = (let denom = true_positives p + false_positives p in
     if denom > 0 then of_int (true_positives p) / of_int denom else 1)"

definition recall :: "predictor_stats \<Rightarrow> rat" where
  "recall p = (let denom = true_positives p + false_negatives p in
     if denom > 0 then of_int (true_positives p) / of_int denom else 1)"

definition fpr :: "predictor_stats \<Rightarrow> rat" where
  "fpr p = (let denom = false_positives p + true_negatives p in
     if denom > 0 then of_int (false_positives p) / of_int denom else 0)"

section \<open>Predicting\<close>

record predictor =
  mp_total_nodes :: int
  mp_fpr :: rat
  mp_fnr :: rat
  mp_lookahead :: int
  all_node_ids :: "int list"
  mp_stats :: predictor_stats
  mp_drawn :: nat

definition new_MLPredictor :: "int \<Rightarrow> rat \<Rightarrow> rat \<Rightarrow> predictor" where
  "new_MLPredictor total_nodes false_pos false_neg =
     \<lparr>mp_total_nodes = total_nodes, mp_fpr = false_pos, mp_fnr = false_neg, mp_lookahead = 1,
      all_node_ids = [0..total_nodes - 1], mp_stats = no_predictions, mp_drawn = 0\<rparr>"

definition setNodePool :: "int list \<Rightarrow> predictor \<Rightarrow> predictor" where
  "setNodePool ids p = p\<lparr>all_node_ids := ids, mp_total_nodes := int (length ids)\<rparr>"

definition resetStats :: "predictor \<Rightarrow> predictor" where
  "resetStats p = p\<lparr>mp_stats := no_predictions\<rparr>"

definition real_failures :: "trace_event option \<Rightarrow> int list" where
  "real_failures e = (case e of None \<Rightarrow> [] | Some ev \<Rightarrow> fail_node_ids ev)"

definition predict_node ::
    "(nat \<Rightarrow> rat) \<Rightarrow> int list \<Rightarrow> int list \<Rightarrow> int \<Rightarrow> int list \<times> predictor \<Rightarrow> int list \<times> predictor" where
  \<comment> \<open>one turn of the loop over the nodes\<close>
  "predict_node rnd truth already nid = (\<lambda>(predicted, p).
     if nid \<in> set already then (predicted, p)
     else let x = rnd (mp_drawn p); p1 = p\<lparr>mp_drawn := mp_drawn p + 1\<rparr>; st = mp_stats p in
       if nid \<in> set truth
       then (if x \<ge> mp_fnr p
             then (predicted @ [nid], p1\<lparr>mp_stats := st\<lparr>true_positives := true_positives st + 1\<rparr>\<rparr>)
             else (predicted, p1\<lparr>mp_stats := st\<lparr>false_negatives := false_negatives st + 1\<rparr>\<rparr>))
       else (if x < mp_fpr p
             then (predicted @ [nid], p1\<lparr>mp_stats := st\<lparr>false_positives := false_positives st + 1\<rparr>\<rparr>)
             else (predicted, p1\<lparr>mp_stats := st\<lparr>true_negatives := true_negatives st + 1\<rparr>\<rparr>)))"

definition predictNextFailures ::
    "(nat \<Rightarrow> rat) \<Rightarrow> trace_event option \<Rightarrow> int list \<Rightarrow> predictor \<Rightarrow> int list \<times> predictor" where
  "predictNextFailures rnd real_next current_failed p =
     fold (predict_node rnd (real_failures real_next) current_failed) (all_node_ids p) ([], p)"

definition predictMultiStep ::
    "(nat \<Rightarrow> rat) \<Rightarrow> trace_event option list \<Rightarrow> int list \<Rightarrow> predictor \<Rightarrow> int list list \<times> predictor" where
  \<comment> \<open>the set \<open>cumulative_failed\<close> as a list: only membership in it is asked for\<close>
  "predictMultiStep rnd future current_failed p =
     (case fold (\<lambda>ev (result, cumulative, q). case predictNextFailures rnd ev cumulative q of (step, q1) \<Rightarrow>
          (result @ [step], cumulative @ real_failures ev, q1))
        (take (nat (mp_lookahead p)) future) ([], current_failed, p)
      of (result, _, q) \<Rightarrow> (result, q))"

section \<open>What is predicted\<close>

lemma predict_nodes_fields:
  "mp_fnr (snd (fold (predict_node rnd truth already) ids (pred, p))) = mp_fnr p \<and>
   mp_fpr (snd (fold (predict_node rnd truth already) ids (pred, p))) = mp_fpr p \<and>
   all_node_ids (snd (fold (predict_node rnd truth already) ids (pred, p))) = all_node_ids p \<and>
   mp_lookahead (snd (fold (predict_node rnd truth already) ids (pred, p))) = mp_lookahead p"
proof (induction ids arbitrary: pred p)
  case (Cons i ids)
  obtain pred1 p1 where q: "predict_node rnd truth already i (pred, p) = (pred1, p1)" by fastforce
  then have "mp_fnr p1 = mp_fnr p \<and> mp_fpr p1 = mp_fpr p \<and> all_node_ids p1 = all_node_ids p \<and> mp_lookahead p1 = mp_lookahead p"
    by (auto simp: predict_node_def Let_def split: if_splits)
  with Cons [of pred1 p1] q show ?case by simp
qed simp

lemma predict_next_fields:
  "mp_fnr (snd (predictNextFailures rnd e cur p)) = mp_fnr p"
  "mp_fpr (snd (predictNextFailures rnd e cur p)) = mp_fpr p"
  "all_node_ids (snd (predictNextFailures rnd e cur p)) = all_node_ids p"
  "mp_lookahead (snd (predictNextFailures rnd e cur p)) = mp_lookahead p"
  by (simp_all add: predictNextFailures_def predict_nodes_fields)

lemma predict_nodes_sound:
  "set (fst (fold (predict_node rnd truth already) ids (pred, p))) \<subseteq> set pred \<union> (set ids - set already)"
proof (induction ids arbitrary: pred p)
  case (Cons i ids)
  obtain pred1 p1 where q: "predict_node rnd truth already i (pred, p) = (pred1, p1)" by fastforce
  then have "set pred1 \<subseteq> set pred \<union> ({i} - set already)"
    by (auto simp: predict_node_def Let_def split: if_splits)
  with Cons [of pred1 p1] q show ?case by fastforce
qed simp

lemma predict_nodes_complete:
  assumes "\<forall>i. mp_fnr p \<le> rnd i"
  shows "set pred \<union> (set ids \<inter> set truth - set already) \<subseteq> set (fst (fold (predict_node rnd truth already) ids (pred, p)))"
  using assms
proof (induction ids arbitrary: pred p)
  case (Cons i ids)
  obtain pred1 p1 where q: "predict_node rnd truth already i (pred, p) = (pred1, p1)" by fastforce
  then have "mp_fnr p1 = mp_fnr p" and "set pred \<union> ({i} \<inter> set truth - set already) \<subseteq> set pred1"
    using Cons.prems by (auto simp: predict_node_def Let_def not_le [symmetric] split: if_splits)
  with Cons.IH [of p1 pred1] Cons.prems q show ?case by auto
qed simp

lemma predict_nodes_exact:
  assumes "\<forall>i. mp_fnr p \<le> rnd i" and "\<forall>i. mp_fpr p \<le> rnd i"
  shows "fst (fold (predict_node rnd truth already) ids (pred, p)) = pred @ filter (\<lambda>i. i \<in> set truth \<and> i \<notin> set already) ids \<and>
    false_positives (mp_stats (snd (fold (predict_node rnd truth already) ids (pred, p)))) = false_positives (mp_stats p)"
  using assms
proof (induction ids arbitrary: pred p)
  case (Cons i ids)
  obtain pred1 p1 where q: "predict_node rnd truth already i (pred, p) = (pred1, p1)" by fastforce
  then have "mp_fnr p1 = mp_fnr p" "mp_fpr p1 = mp_fpr p" "false_positives (mp_stats p1) = false_positives (mp_stats p)"
    and "pred1 = pred @ filter (\<lambda>i. i \<in> set truth \<and> i \<notin> set already) [i]"
    using Cons.prems by (auto simp: predict_node_def Let_def not_less [symmetric] split: if_splits)
  with Cons.IH [of p1 pred1] Cons.prems q show ?case by auto
qed simp

definition counted :: "predictor_stats \<Rightarrow> int" where
  "counted st = true_positives st + false_positives st + false_negatives st + true_negatives st"

lemma predict_nodes_counted:
  "mp_drawn (snd (fold (predict_node rnd truth already) ids (pred, p))) = mp_drawn p + length (filter (\<lambda>i. i \<notin> set already) ids) \<and>
   counted (mp_stats (snd (fold (predict_node rnd truth already) ids (pred, p)))) =
     counted (mp_stats p) + int (length (filter (\<lambda>i. i \<notin> set already) ids)) \<and>
   true_positives (mp_stats (snd (fold (predict_node rnd truth already) ids (pred, p)))) +
     false_positives (mp_stats (snd (fold (predict_node rnd truth already) ids (pred, p)))) - int (length (fst (fold (predict_node rnd truth already) ids (pred, p)))) =
     true_positives (mp_stats p) + false_positives (mp_stats p) - int (length pred) \<and>
   true_positives (mp_stats (snd (fold (predict_node rnd truth already) ids (pred, p)))) +
     false_negatives (mp_stats (snd (fold (predict_node rnd truth already) ids (pred, p)))) =
     true_positives (mp_stats p) + false_negatives (mp_stats p) +
       int (length (filter (\<lambda>i. i \<in> set truth \<and> i \<notin> set already) ids))"
proof (induction ids arbitrary: pred p)
  case (Cons i ids)
  obtain pred1 p1 where q: "predict_node rnd truth already i (pred, p) = (pred1, p1)" by fastforce
  then have "mp_drawn p1 = mp_drawn p + length (filter (\<lambda>i. i \<notin> set already) [i])"
    "counted (mp_stats p1) = counted (mp_stats p) + int (length (filter (\<lambda>i. i \<notin> set already) [i]))"
    "true_positives (mp_stats p1) + false_positives (mp_stats p1) - int (length pred1) =
       true_positives (mp_stats p) + false_positives (mp_stats p) - int (length pred)"
    "true_positives (mp_stats p1) + false_negatives (mp_stats p1) = true_positives (mp_stats p) + false_negatives (mp_stats p) +
       int (length (filter (\<lambda>i. i \<in> set truth \<and> i \<notin> set already) [i]))"
    by (auto simp: predict_node_def Let_def counted_def split: if_splits)
  with Cons [of pred1 p1] q show ?case by auto
qed simp

text \<open>C15: \<open>predictNextFailures\<close> of \<open>MLPredictor\<close> judges every node of the pool that has not failed yet
  exactly once, with one random number each: true and false positives and negatives together grow by
  that many, the positives by the nodes returned, and true positives with false negatives by the nodes
  that will really fail. It never returns a node that has already failed or lies outside the pool.\<close>
theorem prediction_accounted:
  "case predictNextFailures rnd e cur p of (pred, p') \<Rightarrow>
     set pred \<subseteq> set (all_node_ids p) - set cur \<and>
     mp_drawn p' = mp_drawn p + length (filter (\<lambda>i. i \<notin> set cur) (all_node_ids p)) \<and>
     counted (mp_stats p') = counted (mp_stats p) + int (length (filter (\<lambda>i. i \<notin> set cur) (all_node_ids p))) \<and>
     true_positives (mp_stats p') + false_positives (mp_stats p') =
       true_positives (mp_stats p) + false_positives (mp_stats p) + int (length pred) \<and>
     true_positives (mp_stats p') + false_negatives (mp_stats p') = true_positives (mp_stats p) + false_negatives (mp_stats p) +
       int (length (filter (\<lambda>i. i \<in> set (real_failures e) \<and> i \<notin> set cur) (all_node_ids p)))"
  using predict_nodes_counted [of rnd "real_failures e" cur "all_node_ids p" "[]" p]
    predict_nodes_sound [of rnd "real_failures e" cur "all_node_ids p" "[]" p]
  by (auto simp: predictNextFailures_def split: prod.splits)

lemma prediction_complete:
  assumes "\<forall>i. mp_fnr p \<le> rnd i"
  shows "set (all_node_ids p) \<inter> set (real_failures e) - set cur \<subseteq> set (fst (predictNextFailures rnd e cur p))"
  using predict_nodes_complete [OF assms, of "[]" "all_node_ids p" "real_failures e" cur] by (auto simp: predictNextFailures_def)

end
