(* ===== verification/Simulator.thy ===== *)
theory Simulator
  imports Scheduler_New Predictor DistUtil Batch
begin

text \<open>
  The extended simulator (src/src/RepairSimulator_new.cc): how each strategy of \<open>Scheduler_New\<close> runs over
  a trace, the predictor of \<open>Predictor\<close> in place of the trace's own future, and what a run reports. The
  planner of the repairs, \<open>genRepairBatches\<close> of a fresh \<open>ParallelSolution\<close>, is the argument \<open>plan\<close>: it is
  given the failed nodes and the affected stripes and delivers the batches, and what it changes for its
  later calls (colourings of stripes, random numbers) is the state \<open>'w\<close>; it leaves the placements alone.
  A \<open>double\<close> is a rational, \<open>ecw\<close> is not 0; all output is left out.
\<close>

section \<open>Stripes and costs\<close>

definition atoi :: "string \<Rightarrow> int" where
  \<comment> \<open>0 without digits; the behaviour on a number that does not fit is not defined\<close>
  "atoi s = (case stoi s of Inl _ \<Rightarrow> 0 | Inr v \<Rightarrow> v)"

definition loadPlacement :: "string list \<Rightarrow> stripe list" where
  \<comment> \<open>from the lines of the placement file\<close>
  "loadPlacement lines = map (\<lambda>(i, line). new_stripe (int i) (map atoi (filter (\<lambda>t. t \<noteq> []) (splitStr line '' ''))))
     (List.enumerate 0 (filter (\<lambda>line. line \<noteq> []) lines))"

type_synonym 'w planner = "int list \<Rightarrow> stripe list \<Rightarrow> 'w \<Rightarrow> repair_batch list \<times> 'w"

definition affected_stripes :: "int list \<Rightarrow> int \<Rightarrow> int \<Rightarrow> stripe list \<Rightarrow> stripe list" where
  "affected_stripes repaired ecn eck stripes =
     filter (\<lambda>s. length (failed_in repaired s) > 0 \<and> int (length (failed_in repaired s)) \<le> ecn - eck) stripes"

definition applyRepairCost ::
    "'w planner \<Rightarrow> int \<Rightarrow> int \<Rightarrow> int \<Rightarrow> stripe list \<Rightarrow> int list \<Rightarrow> scheduler_new \<times> 'w \<Rightarrow> scheduler_new \<times> 'w" where
  "applyRepairCost plan ecn eck ecw stripes repaired = (\<lambda>(s, w).
     if repaired = [] then (s, w)
     else let affected = affected_stripes repaired ecn eck stripes in
       if affected = [] then (s, w)
       else case plan repaired affected w of (batches, w1) \<Rightarrow>
         (recordRepairLoad_new (of_int (sum_list (map getBatchLoad batches)) / of_int ecw)
            (of_int (sum_list (map getBatchBdwt batches)) / of_int ecw) s, w1))"

definition checkStripeDataLoss :: "int list \<Rightarrow> stripe list \<Rightarrow> int \<Rightarrow> int \<Rightarrow> int" where
  "checkStripeDataLoss failed stripes ecn eck = int (dataloss_stripes (ecn - eck) failed stripes)"

definition start_day :: "stripe list \<Rightarrow> int \<Rightarrow> int \<Rightarrow> trace_event \<Rightarrow> scheduler_new \<Rightarrow> scheduler_new" where
  \<comment> \<open>how the loop of every run begins; \<open>handleDataLoss\<close> only records\<close>
  "start_day stripes ecn eck e s =
     (case addFailures_new (fail_node_ids e) s of (_, s1) \<Rightarrow>
      let loss = checkStripeDataLoss (current_failed s1) stripes ecn eck in
      if loss > 0 then recordDataLoss_new loss s1 else s1)"

definition full_repair :: "'w planner \<Rightarrow> int \<Rightarrow> int \<Rightarrow> int \<Rightarrow> stripe list \<Rightarrow> scheduler_new \<times> 'w \<Rightarrow> scheduler_new \<times> 'w" where
  "full_repair plan ecn eck ecw stripes = (\<lambda>(s, w).
     case executeFullRepair s of (failed, s1) \<Rightarrow> applyRepairCost plan ecn eck ecw stripes failed (s1, w))"

definition partial_repair ::
    "'w planner \<Rightarrow> int \<Rightarrow> int \<Rightarrow> int \<Rightarrow> stripe list \<Rightarrow> int list \<Rightarrow> scheduler_new \<times> 'w \<Rightarrow> scheduler_new \<times> 'w" where
  "partial_repair plan ecn eck ecw stripes nodes = (\<lambda>(s, w).
     case executePartialRepair nodes s of (repaired, s1) \<Rightarrow> applyRepairCost plan ecn eck ecw stripes repaired (s1, w))"

definition finish_run :: "'w planner \<Rightarrow> int \<Rightarrow> int \<Rightarrow> int \<Rightarrow> stripe list \<Rightarrow> scheduler_new \<times> 'w \<Rightarrow> scheduler_new \<times> 'w" where
  "finish_run plan ecn eck ecw stripes p =
     (if length (current_failed (fst p)) > 0 then full_repair plan ecn eck ecw stripes p else p)"

section \<open>Predicted failures\<close>

type_synonym 'p prediction = "trace_event option \<Rightarrow> int list \<Rightarrow> 'p \<Rightarrow> int list \<times> 'p"

definition perfect :: "unit prediction" where
  "perfect e cur p = (real_failures e, p)"

definition predicted_day ::
    "'w planner \<Rightarrow> 'p prediction \<Rightarrow> int \<Rightarrow> int \<Rightarrow> int \<Rightarrow> stripe list \<Rightarrow> trace_reader \<Rightarrow> trace_event \<Rightarrow>
      (scheduler_new \<times> 'w) \<times> 'p \<Rightarrow> (scheduler_new \<times> 'w) \<times> 'p" where
  \<comment> \<open>one turn of the loop for \<open>TraceDriven\<close> and for \<open>MLDriven\<close>\<close>
  "predicted_day plan predict ecn eck ecw stripes r e = (\<lambda>((s, w), p).
     let s1 = start_day stripes ecn eck e s in
     case predict (peekNextEvent r) (current_failed s1) p of (next_ids, p1) \<Rightarrow>
     case decideTraceDrivenStripe stripes next_ids s1 of (decision, nodes) \<Rightarrow>
       (if decision = REPAIR_IMMEDIATE \<or> decision = REPAIR_PARTIAL
        then partial_repair plan ecn eck ecw stripes nodes (s1, w) else (s1, w), p1))"

definition runMLDriven ::
    "'w planner \<Rightarrow> (nat \<Rightarrow> rat) \<Rightarrow> int \<Rightarrow> int \<Rightarrow> int \<Rightarrow> stripe list \<Rightarrow> int \<Rightarrow> rat \<Rightarrow> rat \<Rightarrow> trace_reader \<Rightarrow> 'w \<Rightarrow>
      repair_stats \<times> 'w" where
  \<comment> \<open>\<open>rnd\<close> holds the random numbers of the seed\<close>
  "runMLDriven plan rnd ecn eck ecw stripes num_agents false_pos false_neg r w =
     (case trace_loop (predicted_day plan (predictNextFailures rnd) ecn eck ecw stripes) (reader_reset r)
         ((new_RepairSchedulerNew ecn eck ecw, w), new_MLPredictor num_agents false_pos false_neg) of (q, p) \<Rightarrow>
      case finish_run plan ecn eck ecw stripes q of (s, w1) \<Rightarrow>
        ((getStats_new s)\<lparr>avg_risk_at_repair := fpr (mp_stats p)\<rparr>, w1))"

section \<open>The other strategies\<close>

definition original_day ::
    "int \<Rightarrow> 'w planner \<Rightarrow> int \<Rightarrow> int \<Rightarrow> int \<Rightarrow> stripe list \<Rightarrow> trace_reader \<Rightarrow> trace_event \<Rightarrow>
      scheduler_new \<times> 'w \<Rightarrow> scheduler_new \<times> 'w" where
  "original_day strategy plan ecn eck ecw stripes r e = (\<lambda>(s, w).
     if strategy = 0
     then let s1 = start_day stripes ecn eck e s in
       if decideImmediate_new s1 = REPAIR_IMMEDIATE then full_repair plan ecn eck ecw stripes (s1, w) else (s1, w)
     else if strategy = 1
     then let s1 = start_day stripes ecn eck e s in
       case decideLazy_new stripes s1 of (decision, nodes) \<Rightarrow>
         if decision = REPAIR_IMMEDIATE then partial_repair plan ecn eck ecw stripes nodes (s1, w) else (s1, w)
     else fst (predicted_day plan perfect ecn eck ecw stripes r e ((s, w), ())))"

definition run_days ::
    "'w planner \<Rightarrow> int \<Rightarrow> int \<Rightarrow> int \<Rightarrow> stripe list \<Rightarrow> (trace_reader \<Rightarrow> trace_event \<Rightarrow> scheduler_new \<times> 'w \<Rightarrow> scheduler_new \<times> 'w) \<Rightarrow>
      trace_reader \<Rightarrow> 'w \<Rightarrow> repair_stats \<times> 'w" where
  \<comment> \<open>the frame of every run\<close>
  "run_days plan ecn eck ecw stripes one_day r w =
     (case finish_run plan ecn eck ecw stripes
         (trace_loop one_day (reader_reset r) (new_RepairSchedulerNew ecn eck ecw, w)) of (s, w1) \<Rightarrow> (getStats_new s, w1))"

definition runOriginalStrategy ::
    "int \<Rightarrow> 'w planner \<Rightarrow> int \<Rightarrow> int \<Rightarrow> int \<Rightarrow> stripe list \<Rightarrow> trace_reader \<Rightarrow> 'w \<Rightarrow> repair_stats \<times> 'w" where
  "runOriginalStrategy strategy plan ecn eck ecw stripes =
     run_days plan ecn eck ecw stripes (original_day strategy plan ecn eck ecw stripes)"

fun collect_windows :: "nat \<Rightarrow> trace_reader \<Rightarrow> int list list" where
  "collect_windows 0 r = []"
| "collect_windows (Suc n) r =
     (case getCurrentEvent r of None \<Rightarrow> [] | Some e \<Rightarrow> fail_node_ids e # collect_windows n (advance r))"

definition risk_day ::
    "'w planner \<Rightarrow> int \<Rightarrow> int \<Rightarrow> int \<Rightarrow> stripe list \<Rightarrow> rat \<Rightarrow> rat \<Rightarrow> trace_reader \<Rightarrow> trace_event \<Rightarrow>
      scheduler_new \<times> 'w \<Rightarrow> scheduler_new \<times> 'w" where
  "risk_day plan ecn eck ecw stripes thr_partial thr_full r e = (\<lambda>(s, w).
     let s1 = start_day stripes ecn eck e s in
     case decideRiskAwarePartial (collect_windows 5 (advance r)) thr_partial thr_full s1 of (decision, s2) \<Rightarrow>
       if decision = REPAIR_IMMEDIATE then full_repair plan ecn eck ecw stripes (s2, w)
       else if decision = REPAIR_PARTIAL
       then let cur = current_failed s2; repair_count = max 1 (length cur div 2) in
         partial_repair plan ecn eck ecw stripes (take repair_count cur) (s2, w)
       else (s2, w))"

definition runRiskAwarePartial ::
    "'w planner \<Rightarrow> int \<Rightarrow> int \<Rightarrow> int \<Rightarrow> stripe list \<Rightarrow> rat \<Rightarrow> rat \<Rightarrow> trace_reader \<Rightarrow> 'w \<Rightarrow> repair_stats \<times> 'w" where
  "runRiskAwarePartial plan ecn eck ecw stripes thr_partial thr_full =
     run_days plan ecn eck ecw stripes (risk_day plan ecn eck ecw stripes thr_partial thr_full)"

definition differentiated_day ::
    "priority_sort \<Rightarrow> 'w planner \<Rightarrow> int \<Rightarrow> int \<Rightarrow> int \<Rightarrow> stripe list \<Rightarrow> rat \<Rightarrow> trace_reader \<Rightarrow> trace_event \<Rightarrow>
      scheduler_new \<times> 'w \<Rightarrow> scheduler_new \<times> 'w" where
  "differentiated_day srt plan ecn eck ecw stripes thr r e = (\<lambda>(s, w).
     let s1 = start_day stripes ecn eck e s in
     case decideStripeDifferentiated srt stripes (real_failures (peekNextEvent r)) thr s1 of ((decision, nodes), s2) \<Rightarrow>
       if decision = REPAIR_IMMEDIATE then full_repair plan ecn eck ecw stripes (s2, w)
       else if decision = REPAIR_PARTIAL then partial_repair plan ecn eck ecw stripes nodes (s2, w)
       else (s2, w))"

definition runStripeDifferentiated ::
    "priority_sort \<Rightarrow> 'w planner \<Rightarrow> int \<Rightarrow> int \<Rightarrow> int \<Rightarrow> stripe list \<Rightarrow> rat \<Rightarrow> trace_reader \<Rightarrow> 'w \<Rightarrow> repair_stats \<times> 'w" where
  "runStripeDifferentiated srt plan ecn eck ecw stripes thr =
     run_days plan ecn eck ecw stripes (differentiated_day srt plan ecn eck ecw stripes thr)"

definition combined_day ::
    "priority_sort \<Rightarrow> 'w planner \<Rightarrow> int \<Rightarrow> int \<Rightarrow> int \<Rightarrow> stripe list \<Rightarrow> rat \<Rightarrow> rat \<Rightarrow> rat \<Rightarrow> trace_reader \<Rightarrow> trace_event \<Rightarrow>
      scheduler_new \<times> 'w \<Rightarrow> scheduler_new \<times> 'w" where
  "combined_day srt plan ecn eck ecw stripes thr_partial thr_full thr_stripe r e = (\<lambda>(s, w).
     let s1 = start_day stripes ecn eck e s in
     case decideCombined srt stripes (collect_windows 5 (advance r)) thr_partial thr_full thr_stripe s1 of ((decision, nodes), s2) \<Rightarrow>
       if decision = REPAIR_IMMEDIATE then full_repair plan ecn eck ecw stripes (s2, w)
       else if decision = REPAIR_PARTIAL then partial_repair plan ecn eck ecw stripes nodes (s2, w)
       else (s2, w))"

definition runCombined ::
    "priority_sort \<Rightarrow> 'w planner \<Rightarrow> int \<Rightarrow> int \<Rightarrow> int \<Rightarrow> stripe list \<Rightarrow> rat \<Rightarrow> rat \<Rightarrow> rat \<Rightarrow> trace_reader \<Rightarrow> 'w \<Rightarrow>
      repair_stats \<times> 'w" where
  "runCombined srt plan ecn eck ecw stripes thr_partial thr_full thr_stripe =
     run_days plan ecn eck ecw stripes (combined_day srt plan ecn eck ecw stripes thr_partial thr_full thr_stripe)"

section \<open>What the costs leave alone\<close>

lemma apply_cost_keeps:
  "current_failed (fst (applyRepairCost plan ecn eck ecw stripes ns p)) = current_failed (fst p)"
  "tolerance (fst (applyRepairCost plan ecn eck ecw stripes ns p)) = tolerance (fst p)"
  "data_loss_events (new_stats (fst (applyRepairCost plan ecn eck ecw stripes ns p))) = data_loss_events (new_stats (fst p))"
  "lost_stripes_count (new_stats (fst (applyRepairCost plan ecn eck ecw stripes ns p))) = lost_stripes_count (new_stats (fst p))"
  by (simp_all add: applyRepairCost_def recordRepairLoad_new_def Let_def split: prod.splits)

lemma full_repair_keeps:
  "current_failed (fst (full_repair plan ecn eck ecw stripes p)) = []"
  "tolerance (fst (full_repair plan ecn eck ecw stripes p)) = tolerance (fst p)"
  "data_loss_events (new_stats (fst (full_repair plan ecn eck ecw stripes p))) = data_loss_events (new_stats (fst p))"
  "lost_stripes_count (new_stats (fst (full_repair plan ecn eck ecw stripes p))) = lost_stripes_count (new_stats (fst p))"
  by (simp_all add: full_repair_def split_beta apply_cost_keeps full_repair_sum)

lemma partial_repair_keeps:
  "current_failed (fst (partial_repair plan ecn eck ecw stripes ns p)) = current_failed (snd (executePartialRepair ns (fst p)))"
  "tolerance (fst (partial_repair plan ecn eck ecw stripes ns p)) = tolerance (fst p)"
  "data_loss_events (new_stats (fst (partial_repair plan ecn eck ecw stripes ns p))) = data_loss_events (new_stats (fst p))"
  "lost_stripes_count (new_stats (fst (partial_repair plan ecn eck ecw stripes ns p))) = lost_stripes_count (new_stats (fst p))"
  by (simp_all add: partial_repair_def split_beta apply_cost_keeps partial_repair_fields)

lemma getStats_keeps:
  "data_loss_events (getStats_new s) = data_loss_events (new_stats s)"
  "lost_stripes_count (getStats_new s) = lost_stripes_count (new_stats s)"
  by (simp_all add: getStats_new_def)

lemma loadPlacement_ids: "distinct (map getStripeId (loadPlacement lines))"
proof -
  have "map getStripeId (loadPlacement lines) = map int (map fst (List.enumerate 0 (filter (\<lambda>line. line \<noteq> []) lines)))"
    by (simp add: loadPlacement_def getStripeId_def new_stripe_def comp_def case_prod_beta map_fst_enumerate [symmetric]
        del: map_fst_enumerate)
  then show ?thesis by (simp add: distinct_map)
qed

section \<open>No stripe beyond its tolerance\<close>

definition mild :: "int \<Rightarrow> stripe list \<Rightarrow> trace_event list \<Rightarrow> bool" where
  \<comment> \<open>no single day takes more nodes from a stripe than it tolerates\<close>
  "mild tol stripes es \<longleftrightarrow> (\<forall>e\<in>set es. \<forall>st\<in>set stripes. hits (fail_node_ids e) st \<le> tol)"

definition unharmed :: "int \<Rightarrow> scheduler_new \<Rightarrow> bool" where
  "unharmed tol s \<longleftrightarrow> tolerance s = tol \<and> distinct (current_failed s) \<and>
     data_loss_events (new_stats s) = 0 \<and> lost_stripes_count (new_stats s) = 0"

definition withstands :: "int \<Rightarrow> stripe list \<Rightarrow> trace_event list \<Rightarrow> nat \<Rightarrow> scheduler_new \<Rightarrow> bool" where
  \<comment> \<open>the failures at hand and those of day \<open>i\<close> together harm no stripe\<close>
  "withstands tol stripes es i s \<longleftrightarrow> unharmed tol s \<and>
     (i < length es \<longrightarrow> (\<forall>st\<in>set stripes. hits (fail_node_ids (es ! i) @ current_failed s) st \<le> tol))"

lemma hits_cong: "set xs = set ys \<Longrightarrow> hits xs st = hits ys st"
  by (simp add: hits_card)

lemma start_day_unharmed:
  assumes "withstands (ecn - eck) stripes es i s" and "i < length es"
  shows "unharmed (ecn - eck) (start_day stripes ecn eck (es ! i) s)"
    and "current_failed (start_day stripes ecn eck (es ! i) s) = add_failed (fail_node_ids (es ! i)) (current_failed s)"
proof -
  let ?s1 = "snd (addFailures_new (fail_node_ids (es ! i)) s)"
  have d: "distinct (current_failed ?s1)"
    using assms(1) by (simp add: addFailures_new_sum add_failed_sum withstands_def unharmed_def)
  have "hits (current_failed ?s1) st \<le> ecn - eck" if "st \<in> set stripes" for st
    using assms that hits_cong [of "current_failed ?s1" "fail_node_ids (es ! i) @ current_failed s" st]
    by (simp add: addFailures_new_sum add_failed_sum withstands_def)
  then have "filter (\<lambda>st. int (length (failed_in (current_failed ?s1) st)) > ecn - eck) stripes = []"
    by (simp add: failed_in_hits [OF d] filter_empty_conv not_less)
  then have "start_day stripes ecn eck (es ! i) s = ?s1"
    by (simp add: start_day_def checkStripeDataLoss_def dataloss_stripes_def split_beta)
  with d assms(1) show "unharmed (ecn - eck) (start_day stripes ecn eck (es ! i) s)"
    "current_failed (start_day stripes ecn eck (es ! i) s) = add_failed (fail_node_ids (es ! i)) (current_failed s)"
    by (simp_all add: addFailures_new_sum withstands_def unharmed_def)
qed

lemma withstands_start: "mild (ecn - eck) stripes es \<Longrightarrow> withstands (ecn - eck) stripes es 0 (new_RepairSchedulerNew ecn eck ecw)"
  by (simp add: withstands_def unharmed_def mild_def new_RepairSchedulerNew_def no_stats_def)

lemma withstands_empty:
  assumes "mild tol stripes es" and "unharmed tol s" and "current_failed s = []"
  shows "withstands tol stripes es i s"
  using assms by (simp add: withstands_def mild_def)

lemma full_repair_withstands:
  assumes "mild tol stripes es" and "unharmed tol (fst p)"
  shows "withstands tol stripes es i (fst (full_repair plan ecn eck ecw stripes p))"
proof (rule withstands_empty [OF assms(1)])
  show "unharmed tol (fst (full_repair plan ecn eck ecw stripes p))"
    using assms(2) by (simp add: unharmed_def full_repair_keeps)
  show "current_failed (fst (full_repair plan ecn eck ecw stripes p)) = []" by (rule full_repair_keeps)
qed

lemma finish_harmless:
  assumes "unharmed tol (fst p)"
  shows "unharmed tol (fst (finish_run plan ecn eck ecw stripes p))"
  using assms by (simp add: finish_run_def unharmed_def full_repair_keeps)

text \<open>A predictor that misses no failure still to come is good enough, whatever else it predicts.\<close>

locale full_recall =
  fixes predict :: "'p prediction" and able :: "int list \<Rightarrow> 'p \<Rightarrow> bool"
  assumes recall: "able ids p \<Longrightarrow> set (real_failures e) \<subseteq> set ids \<Longrightarrow>
      set (real_failures e) - set cur \<subseteq> set (fst (predict e cur p))"
    and stays_able: "able ids p \<Longrightarrow> able ids (snd (predict e cur p))"
begin

lemma day_withstands:
  assumes ids: "distinct (map getStripeId stripes)" and mild: "mild (ecn - eck) stripes es"
    and known: "\<forall>e\<in>set es. set (fail_node_ids e) \<subseteq> set pool"
    and i: "i < length es" and inv: "withstands (ecn - eck) stripes es i (fst (fst q)) \<and> able pool (snd q)"
  shows "withstands (ecn - eck) stripes es (Suc i)
      (fst (fst (predicted_day plan predict ecn eck ecw stripes \<lparr>tr_events = es, current_idx = i\<rparr> (es ! i) q))) \<and>
    able pool (snd (predicted_day plan predict ecn eck ecw stripes \<lparr>tr_events = es, current_idx = i\<rparr> (es ! i) q))"
proof -
  obtain s w p where q: "q = ((s, w), p)" by (metis prod.exhaust)
  define s1 where "s1 = start_day stripes ecn eck (es ! i) s"
  define next_event where "next_event = peekNextEvent \<lparr>tr_events = es, current_idx = i\<rparr>"
  obtain pred p1 where pr: "predict next_event (current_failed s1) p = (pred, p1)" by fastforce
  obtain decision nodes where d: "decideTraceDrivenStripe stripes pred s1 = (decision, nodes)" by fastforce
  have u: "unharmed (ecn - eck) s1" using start_day_unharmed(1) [of ecn eck stripes es i s] inv i by (simp add: s1_def q)
  have p1: "able pool p1" using stays_able [of pool p next_event "current_failed s1"] inv by (simp add: q pr)
  have day: "predicted_day plan predict ecn eck ecw stripes \<lparr>tr_events = es, current_idx = i\<rparr> (es ! i) q =
      (if decision = REPAIR_IMMEDIATE \<or> decision = REPAIR_PARTIAL
       then partial_repair plan ecn eck ecw stripes nodes (s1, w) else (s1, w), p1)"
    by (simp add: q predicted_day_def s1_def [symmetric] next_event_def [symmetric] pr d)
  define s2 where "s2 = fst (fst (predicted_day plan predict ecn eck ecw stripes \<lparr>tr_events = es, current_idx = i\<rparr> (es ! i) q))"
  have dist: "distinct (current_failed s1)" using u by (simp add: unharmed_def)
  have idle: "nodes = []" if "\<not> (decision = REPAIR_IMMEDIATE \<or> decision = REPAIR_PARTIAL)"
    using d that by (auto simp: decideTraceDrivenStripe_def Let_def split: if_splits)
  have left: "set (current_failed s2) = set (current_failed s1) - set nodes" "distinct (current_failed s2)"
    using idle partial_repair_sum [OF dist, of nodes] dist by (auto simp: s2_def day partial_repair_keeps)
  have u2: "unharmed (ecn - eck) s2"
    using u left(2) by (simp add: unharmed_def s2_def day partial_repair_keeps)
  have "hits (fail_node_ids (es ! Suc i) @ current_failed s2) st \<le> ecn - eck" if n: "Suc i < length es" and st: "st \<in> set stripes" for st
  proof -
    have e: "real_failures next_event = fail_node_ids (es ! Suc i)" using n by (simp add: next_event_def peek_at real_failures_def)
    have "set (real_failures next_event) \<subseteq> set pool" using known n by (simp add: e)
    then have "set (fail_node_ids (es ! Suc i)) - set (current_failed s1) \<subseteq> set pred"
      using recall [of pool p next_event "current_failed s1"] inv by (simp add: q pr e)
    moreover have "hits (fail_node_ids (es ! Suc i)) st \<le> tolerance s1" using mild n st u by (simp add: mild_def unharmed_def)
    moreover have "tolerance s1 = ecn - eck" using u by (simp add: unharmed_def)
    ultimately show ?thesis
      using repaired_in_time [OF ids st, of "fail_node_ids (es ! Suc i)" s1 pred "current_failed s2"] left(1) d by auto
  qed
  then have "withstands (ecn - eck) stripes es (Suc i) s2" using u2 by (simp add: withstands_def)
  then show ?thesis using p1 by (simp add: s2_def day)
qed

lemma run_withstands:
  assumes "distinct (map getStripeId stripes)" and "mild (ecn - eck) stripes (tr_events r)"
    and "\<forall>e\<in>set (tr_events r). set (fail_node_ids e) \<subseteq> set pool" and "able pool p"
  shows "unharmed (ecn - eck) (fst (fst (trace_loop (predicted_day plan predict ecn eck ecw stripes) (reader_reset r)
    ((new_RepairSchedulerNew ecn eck ecw, w), p))))"
proof -
  let ?q = "((new_RepairSchedulerNew ecn eck ecw, w), p)" and ?es = "tr_events r"
  have r: "reader_reset r = \<lparr>tr_events = ?es, current_idx = 0\<rparr>" by (simp add: reader_reset_def)
  have "withstands (ecn - eck) stripes ?es (length ?es) (fst (fst (trace_loop (predicted_day plan predict ecn eck ecw stripes)
      \<lparr>tr_events = ?es, current_idx = 0\<rparr> ?q))) \<and>
    able pool (snd (trace_loop (predicted_day plan predict ecn eck ecw stripes) \<lparr>tr_events = ?es, current_idx = 0\<rparr> ?q))"
  proof (rule trace_loop_invariant [where P = "\<lambda>i q. withstands (ecn - eck) stripes ?es i (fst (fst q)) \<and> able pool (snd q)"])
    show "withstands (ecn - eck) stripes ?es 0 (fst (fst ?q)) \<and> able pool (snd ?q)"
      using withstands_start [OF assms(2)] assms(4) by simp
  qed (rule day_withstands [OF assms(1-3)], assumption, assumption, simp)
  then show ?thesis by (simp add: r withstands_def)
qed

end

interpretation perfect_recall: full_recall perfect "\<lambda>ids p. True"
  by unfold_locales (auto simp: perfect_def)

interpretation ml_recall: full_recall "predictNextFailures rnd"
  "\<lambda>ids p. (\<forall>i. mp_fnr p \<le> rnd i) \<and> set ids \<subseteq> set (all_node_ids p)" for rnd
proof
  fix ids cur :: "int list" and p :: predictor and e
  assume "(\<forall>i. mp_fnr p \<le> rnd i) \<and> set ids \<subseteq> set (all_node_ids p)" and "set (real_failures e) \<subseteq> set ids"
  with prediction_complete [of p rnd e cur]
  show "set (real_failures e) - set cur \<subseteq> set (fst (predictNextFailures rnd e cur p))" by auto
qed (simp add: predict_next_fields)

section \<open>What the runs report\<close>

lemma immediate_day_withstands:
  assumes "mild (ecn - eck) stripes es" and "i < length es" and "withstands (ecn - eck) stripes es i (fst q)"
  shows "withstands (ecn - eck) stripes es (Suc i)
    (fst (original_day 0 plan ecn eck ecw stripes \<lparr>tr_events = es, current_idx = i\<rparr> (es ! i) q))"
proof -
  obtain s w where q: "q = (s, w)" by fastforce
  define s1 where "s1 = start_day stripes ecn eck (es ! i) s"
  have u: "unharmed (ecn - eck) s1" using start_day_unharmed(1) [of ecn eck stripes es i s] assms(2,3) by (simp add: s1_def q)
  have day: "original_day 0 plan ecn eck ecw stripes \<lparr>tr_events = es, current_idx = i\<rparr> (es ! i) q =
      (if decideImmediate_new s1 = REPAIR_IMMEDIATE then full_repair plan ecn eck ecw stripes (s1, w) else (s1, w))"
    by (simp add: q original_day_def s1_def [symmetric])
  show ?thesis
  proof (cases "current_failed s1 = []")
    case True
    with withstands_empty [OF assms(1) u] show ?thesis by (simp add: day decideImmediate_new_def)
  next
    case False
    with full_repair_withstands [OF assms(1), of "(s1, w)"] u show ?thesis by (simp add: day decideImmediate_new_def)
  qed
qed

lemma perfect_days:
  assumes "strategy \<noteq> 0" and "strategy \<noteq> 1"
  shows "trace_loop (original_day strategy plan ecn eck ecw stripes) (reader_reset r) q =
    fst (trace_loop (predicted_day plan perfect ecn eck ecw stripes) (reader_reset r) (q, ()))"
proof -
  have "reader_reset r = \<lparr>tr_events = tr_events r, current_idx = 0\<rparr>" by (simp add: reader_reset_def)
  moreover have "original_day strategy plan ecn eck ecw stripes rd e (fst t) =
      fst (predicted_day plan perfect ecn eck ecw stripes rd e t)" for rd e t
    using assms by (cases t) (simp add: original_day_def split_beta)
  ultimately show ?thesis
    using trace_loop_relates [of "tr_events r" "\<lambda>_ s t. s = fst t" "original_day strategy plan ecn eck ecw stripes"
        "predicted_day plan perfect ecn eck ecw stripes" 0 q "(q, ())"] by simp
qed

lemma run_days_lossless:
  assumes "unharmed (ecn - eck) (fst (trace_loop one_day (reader_reset r) (new_RepairSchedulerNew ecn eck ecw, w)))"
  shows "data_loss_events (fst (run_days plan ecn eck ecw stripes one_day r w)) = 0 \<and>
    lost_stripes_count (fst (run_days plan ecn eck ecw stripes one_day r w)) = 0"
  using finish_harmless [OF assms, of plan ecn eck ecw stripes]
  by (simp add: run_days_def split_beta getStats_keeps unharmed_def)

text \<open>C10: \<open>runOriginalStrategy\<close> loses no stripe with the Immediate strategy (0) and with the TraceDriven one,
  on any placement file, whatever the planner does: as long as no single day of the trace takes more nodes
  from a stripe than it tolerates, what TraceDriven leaves unrepaired never adds up, with the next day's
  failures, to a lost stripe, and the run reports no loss event and no lost stripe.\<close>
theorem original_no_loss:
  assumes "strategy \<noteq> 1" and "mild (ecn - eck) (loadPlacement lines) (tr_events r)"
    and "stats = fst (runOriginalStrategy strategy plan ecn eck ecw (loadPlacement lines) r w)"
  shows "data_loss_events stats = 0 \<and> lost_stripes_count stats = 0"
proof -
  let ?stripes = "loadPlacement lines" and ?es = "tr_events r" and ?s0 = "new_RepairSchedulerNew ecn eck ecw"
  have "unharmed (ecn - eck) (fst (trace_loop (original_day strategy plan ecn eck ecw ?stripes) (reader_reset r) (?s0, w)))"
  proof (cases "strategy = 0")
    case True
    have r: "reader_reset r = \<lparr>tr_events = ?es, current_idx = 0\<rparr>" by (simp add: reader_reset_def)
    have "withstands (ecn - eck) ?stripes ?es (length ?es)
        (fst (trace_loop (original_day 0 plan ecn eck ecw ?stripes) \<lparr>tr_events = ?es, current_idx = 0\<rparr> (?s0, w)))"
    proof (rule trace_loop_invariant [where P = "\<lambda>i q. withstands (ecn - eck) ?stripes ?es i (fst q)"])
      show "withstands (ecn - eck) ?stripes ?es 0 (fst (?s0, w))" using withstands_start [OF assms(2)] by simp
    qed (rule immediate_day_withstands [OF assms(2)], assumption, assumption, simp)
    then show ?thesis by (simp add: r True withstands_def)
  next
    case False
    have "\<forall>e\<in>set ?es. set (fail_node_ids e) \<subseteq> set (concat (map fail_node_ids ?es))" by auto
    from perfect_recall.run_withstands [OF loadPlacement_ids assms(2) this TrueI]
    show ?thesis unfolding perfect_days [OF False assms(1)] .
  qed
  from run_days_lossless [OF this] show ?thesis by (simp add: assms(3) runOriginalStrategy_def)
qed

text \<open>C11: \<open>runMLDriven\<close> with a predictor that misses nothing loses no stripe: when the false negative
  rate lies below every random number, every node of the trace is an agent and no single day takes more
  nodes from a stripe than it tolerates, no loss is reported, however many false alarms the predictor
  raises and although it never predicts a node that has failed already.\<close>
theorem ml_full_recall_no_loss:
  assumes "\<forall>i. false_neg \<le> rnd i" and "\<forall>e\<in>set (tr_events r). set (fail_node_ids e) \<subseteq> {0..<num_agents}"
    and "mild (ecn - eck) (loadPlacement lines) (tr_events r)"
    and "stats = fst (runMLDriven plan rnd ecn eck ecw (loadPlacement lines) num_agents false_pos false_neg r w)"
  shows "data_loss_events stats = 0 \<and> lost_stripes_count stats = 0"
proof -
  let ?stripes = "loadPlacement lines" and ?p = "new_MLPredictor num_agents false_pos false_neg"
  have "set [0..num_agents - 1] = {0..<num_agents}" by auto
  with assms(2) have known: "\<forall>e\<in>set (tr_events r). set (fail_node_ids e) \<subseteq> set [0..num_agents - 1]" by simp
  obtain q p where run: "trace_loop (predicted_day plan (predictNextFailures rnd) ecn eck ecw ?stripes) (reader_reset r)
      ((new_RepairSchedulerNew ecn eck ecw, w), ?p) = (q, p)" by fastforce
  have "unharmed (ecn - eck) (fst q)"
    using ml_recall.run_withstands [where rnd = rnd and p = ?p and plan = plan and ecw = ecw and w = w, OF loadPlacement_ids assms(3) known] assms(1)
    by (simp add: new_MLPredictor_def run [unfolded new_MLPredictor_def])
  from finish_harmless [OF this, of plan ecn eck ecw ?stripes] show ?thesis
    by (simp add: assms(4) runMLDriven_def run split_beta getStats_keeps unharmed_def)
qed

section \<open>A perfect predictor\<close>

lemma same_decision:
  assumes "set xs = set ys"
  shows "decideTraceDrivenStripe stripes xs s = decideTraceDrivenStripe stripes ys s"
  using assms by (simp add: decideTraceDrivenStripe_def dangerous_nodes_def in_stripe_def)

lemma start_day_failed:
  "set (current_failed (start_day stripes ecn eck e s)) = set (fail_node_ids e) \<union> set (current_failed s)"
  by (simp add: start_day_def Let_def split_beta addFailures_new_sum add_failed_sum recordDataLoss_new_def)

lemma predicted_day_failed:
  assumes "distinct (current_failed s)"
  shows "set (current_failed (fst (fst (predicted_day plan predict ecn eck ecw stripes r e ((s, w), p))))) \<subseteq>
      set (fail_node_ids e) \<union> set (current_failed s) \<and>
    distinct (current_failed (fst (fst (predicted_day plan predict ecn eck ecw stripes r e ((s, w), p)))))"
proof -
  let ?s1 = "start_day stripes ecn eck e s"
  have d: "distinct (current_failed ?s1)"
    using assms by (simp add: start_day_def Let_def split_beta addFailures_new_sum add_failed_sum recordDataLoss_new_def)
  show ?thesis
    using partial_repair_sum [OF d] start_day_failed [of stripes ecn eck e s] d
    by (auto simp: predicted_day_def Let_def split_beta partial_repair_keeps)
qed

definition no_false :: "(nat \<Rightarrow> rat) \<Rightarrow> int list \<Rightarrow> predictor \<Rightarrow> bool" where
  "no_false rnd pool p \<longleftrightarrow> (\<forall>i. mp_fnr p \<le> rnd i \<and> mp_fpr p \<le> rnd i) \<and> all_node_ids p = pool \<and>
     false_positives (mp_stats p) = 0"

lemma no_false_predicts:
  assumes "no_false rnd pool p"
  shows "fst (predictNextFailures rnd e cur p) = filter (\<lambda>i. i \<in> set (real_failures e) \<and> i \<notin> set cur) pool"
    and "no_false rnd pool (snd (predictNextFailures rnd e cur p))"
  using predict_nodes_exact [of p rnd "real_failures e" cur "all_node_ids p" "[]"] assms predict_next_fields [of rnd e cur p]
  by (auto simp: no_false_def predictNextFailures_def)

definition seen :: "trace_event list \<Rightarrow> nat \<Rightarrow> int set" where
  "seen es i = set (concat (map fail_node_ids (take i es)))"

lemma seen_next: "i < length es \<Longrightarrow> seen es (Suc i) = seen es i \<union> set (fail_node_ids (es ! i))"
  by (simp add: seen_def take_Suc_conv_app_nth)

lemma seen_fresh:
  assumes "distinct (concat (map fail_node_ids es))" and "i < length es"
  shows "set (fail_node_ids (es ! i)) \<inter> seen es i = {}"
proof -
  have "es = take i es @ es ! i # drop (Suc i) es" using assms(2) by (rule id_take_nth_drop)
  then have "concat (map fail_node_ids es) =
      concat (map fail_node_ids (take i es)) @ fail_node_ids (es ! i) @ concat (map fail_node_ids (drop (Suc i) es))"
    by (metis concat.simps(2) concat_append list.simps(9) map_append)
  with assms(1) show ?thesis by (auto simp: seen_def)
qed

definition alike :: "(nat \<Rightarrow> rat) \<Rightarrow> int list \<Rightarrow> trace_event list \<Rightarrow> nat \<Rightarrow>
    (scheduler_new \<times> 'w) \<times> predictor \<Rightarrow> (scheduler_new \<times> 'w) \<times> unit \<Rightarrow> bool" where
  "alike rnd pool es i q t \<longleftrightarrow> fst q = fst t \<and> no_false rnd pool (snd q) \<and>
     distinct (current_failed (fst (fst q))) \<and> set (current_failed (fst (fst q))) \<subseteq> seen es i"

lemma day_alike:
  assumes "distinct (concat (map fail_node_ids es))" and "\<forall>e\<in>set es. set (fail_node_ids e) \<subseteq> set pool"
    and "i < length es" and "alike rnd pool es i q t"
  shows "alike rnd pool es (Suc i)
    (predicted_day plan (predictNextFailures rnd) ecn eck ecw stripes \<lparr>tr_events = es, current_idx = i\<rparr> (es ! i) q)
    (predicted_day plan perfect ecn eck ecw stripes \<lparr>tr_events = es, current_idx = i\<rparr> (es ! i) t)"
proof -
  obtain s w p where q: "q = ((s, w), p)" by (metis prod.exhaust)
  with assms(4) have t: "t = ((s, w), ())" and p: "no_false rnd pool p" and d: "distinct (current_failed s)"
    and cur: "set (current_failed s) \<subseteq> seen es i" by (auto simp: alike_def prod_eq_iff)
  let ?r = "\<lparr>tr_events = es, current_idx = i\<rparr>"
  define e where "e = es ! i"
  define s1 where "s1 = start_day stripes ecn eck e s"
  define next_event where "next_event = peekNextEvent ?r"
  have s1: "set (current_failed s1) \<subseteq> seen es (Suc i)"
    using cur seen_next [OF assms(3)] by (auto simp: s1_def e_def start_day_failed)
  obtain pred p1 where pr: "predictNextFailures rnd next_event (current_failed s1) p = (pred, p1)" by fastforce
  have p1: "no_false rnd pool p1" using no_false_predicts(2) [OF p, of next_event "current_failed s1"] by (simp add: pr)
  have "set pred = set (real_failures next_event)"
  proof -
    have "set (real_failures next_event) \<subseteq> set pool \<and> set (real_failures next_event) \<inter> set (current_failed s1) = {}"
    proof (cases "Suc i < length es")
      case True
      with assms(2) seen_fresh [OF assms(1) True] s1 show ?thesis by (auto simp: next_event_def peek_at real_failures_def)
    qed (simp add: next_event_def peek_at real_failures_def)
    then show ?thesis using no_false_predicts(1) [OF p, of next_event "current_failed s1"] by (auto simp: pr)
  qed
  then have dec: "decideTraceDrivenStripe stripes pred s1 = decideTraceDrivenStripe stripes (real_failures next_event) s1"
    by (rule same_decision)
  have same: "fst (predicted_day plan (predictNextFailures rnd) ecn eck ecw stripes ?r e q) =
      fst (predicted_day plan perfect ecn eck ecw stripes ?r e t)"
    and snd: "snd (predicted_day plan (predictNextFailures rnd) ecn eck ecw stripes ?r e q) = p1"
    by (simp_all add: q t predicted_day_def Let_def s1_def [symmetric] next_event_def [symmetric] pr perfect_def dec split_beta)
  show ?thesis
    using predicted_day_failed [OF d, of plan "predictNextFailures rnd" ecn eck ecw stripes ?r e w p] same snd p1 cur
      seen_next [OF assms(3)] by (auto simp: alike_def e_def q)
qed

text \<open>C12: With neither misses nor false alarms \<open>runMLDriven\<close> is the TraceDriven run: on a trace in which no
  node fails twice and every node is an agent, both report the same rounds, loads, losses and counts and
  leave the planner in the same state; only the field that carries the measured false positive rate differs,
  and it is 0.\<close>
theorem ml_perfect_is_trace_driven:
  assumes "\<forall>i. false_neg \<le> rnd i \<and> false_pos \<le> rnd i" and "distinct (concat (map fail_node_ids (tr_events r)))"
    and "\<forall>e\<in>set (tr_events r). set (fail_node_ids e) \<subseteq> {0..<num_agents}"
  shows "runMLDriven plan rnd ecn eck ecw stripes num_agents false_pos false_neg r w =
    (case runOriginalStrategy 2 plan ecn eck ecw stripes r w of (stats, w1) \<Rightarrow> (stats\<lparr>avg_risk_at_repair := 0\<rparr>, w1))"
proof -
  let ?es = "tr_events r" and ?pool = "[0..num_agents - 1]" and ?s0 = "(new_RepairSchedulerNew ecn eck ecw, w)"
  let ?p = "new_MLPredictor num_agents false_pos false_neg"
  have "set ?pool = {0..<num_agents}" by auto
  with assms(3) have pool: "\<forall>e\<in>set ?es. set (fail_node_ids e) \<subseteq> set ?pool" by simp
  obtain q p where run: "trace_loop (predicted_day plan (predictNextFailures rnd) ecn eck ecw stripes) (reader_reset r) (?s0, ?p) = (q, p)"
    by fastforce
  have r: "reader_reset r = \<lparr>tr_events = ?es, current_idx = 0\<rparr>" by (simp add: reader_reset_def)
  have "alike rnd ?pool ?es (length ?es) (q, p) (trace_loop (predicted_day plan perfect ecn eck ecw stripes) (reader_reset r) (?s0, ()))"
    unfolding run [symmetric] r
  proof (rule trace_loop_relates)
    show "alike rnd ?pool ?es 0 (?s0, ?p) (?s0, ())"
      using assms(1) by (simp add: alike_def no_false_def new_MLPredictor_def no_predictions_def new_RepairSchedulerNew_def seen_def)
  qed (rule day_alike [OF assms(2) pool], simp_all)
  then have "q = trace_loop (original_day 2 plan ecn eck ecw stripes) (reader_reset r) ?s0" and "fpr (mp_stats p) = 0"
    by (simp_all add: alike_def no_false_def fpr_def perfect_days Let_def)
  then show ?thesis by (simp add: runMLDriven_def run runOriginalStrategy_def run_days_def split_beta)
qed

definition sample_lines :: "string list" where
  "sample_lines = [''0 1 2 3'', [], ''2 3 4 5'']"

definition sample_plan :: "unit planner" where
  "sample_plan ns affected w = ([], w)"

lemma sample_mild: "mild (4 - 2) (loadPlacement sample_lines) (tr_events sample_trace)"
  by code_simp

lemma sample_known: "\<forall>e\<in>set (tr_events sample_trace). set (fail_node_ids e) \<subseteq> {0..<6}"
  by (simp add: sample_trace_def)

lemma lazy_loses:
  "data_loss_events (fst (runOriginalStrategy 1 sample_plan 4 2 1 (loadPlacement sample_lines) sample_trace ())) = 2"
  by code_simp

lemma original_no_loss_witness:
  "data_loss_events (fst (runOriginalStrategy 2 sample_plan 4 2 1 (loadPlacement sample_lines) sample_trace ())) = 0"
  using original_no_loss [OF _ sample_mild refl, of 2 sample_plan 1 "()"] by simp

lemma ml_full_recall_no_loss_witness:
  "data_loss_events (fst (runMLDriven sample_plan (\<lambda>_. 1/2) 4 2 1 (loadPlacement sample_lines) 6 1 0 sample_trace ())) = 0"
  using ml_full_recall_no_loss [OF _ sample_known sample_mild refl, of 0 "\<lambda>_. 1/2" sample_plan 1 1 "()"] by simp

lemma ml_perfect_is_trace_driven_witness:
  "snd (runMLDriven sample_plan (\<lambda>_. 1/2) 4 2 1 sample_places 6 0 0 sample_trace ()) =
     snd (runOriginalStrategy 2 sample_plan 4 2 1 sample_places sample_trace ())"
proof -
  have "distinct (concat (map fail_node_ids (tr_events sample_trace)))" by (simp add: sample_trace_def)
  from ml_perfect_is_trace_driven [OF _ this sample_known, of 0 "\<lambda>_. 1/2" 0 sample_plan 4 2 1 sample_places "()"]
  show ?thesis by (simp add: split_beta)
qed

end
