(* ===== verification/Galois.thy ===== *)
theory Galois
  imports RepairDag "HOL-Library.Word"
begin

unbundle bit_operations_syntax

text \<open>
  Matrices over a Galois field: \<open>jerasure_invert_matrix\<close> and \<open>jerasure_matrix_multiply\<close>
  (src/src/util/jerasure.c), which \<open>Computation\<close> (src/src/ec/Computation.cc) calls under a lock. The field
  itself comes from a library: \<open>galois_single_multiply\<close> and \<open>galois_single_divide\<close> are arguments, whose
  last argument is the word size. A matrix is the list of its rows; addition is exclusive or.
\<close>

section \<open>The two routines\<close>

record galois =
  single_multiply :: "int \<Rightarrow> int \<Rightarrow> int \<Rightarrow> int"
  single_divide :: "int \<Rightarrow> int \<Rightarrow> int \<Rightarrow> int"

type_synonym matrix = "int list list"

definition xor_scaled :: "galois \<Rightarrow> int \<Rightarrow> int \<Rightarrow> int list \<Rightarrow> int list \<Rightarrow> int list" where
  \<comment> \<open>\<open>row[x] ^= tmp * other[x]\<close>\<close>
  "xor_scaled g w tmp row other = map2 (\<lambda>d s. d XOR single_multiply g tmp s w) row other"

definition swap_rows :: "nat \<Rightarrow> nat \<Rightarrow> matrix \<Rightarrow> matrix" where
  "swap_rows i j m = m[i := m ! j, j := m ! i]"

definition find_pivot :: "nat \<Rightarrow> matrix \<times> matrix \<Rightarrow> (matrix \<times> matrix) option" where
  "find_pivot i = (\<lambda>(mat, inv).
     if mat ! i ! i = 0
     then (case find (\<lambda>j. mat ! j ! i \<noteq> 0) [Suc i..<length mat] of
             None \<Rightarrow> None | Some j \<Rightarrow> Some (swap_rows i j mat, swap_rows i j inv))
     else Some (mat, inv))"

definition norm_pivot :: "galois \<Rightarrow> int \<Rightarrow> nat \<Rightarrow> matrix \<times> matrix \<Rightarrow> matrix \<times> matrix" where
  "norm_pivot g w i = (\<lambda>(mat, inv).
     let tmp = mat ! i ! i in
     if tmp \<noteq> 1
     then let inverse = single_divide g 1 tmp w in
       (mat[i := map (\<lambda>x. single_multiply g x inverse w) (mat ! i)],
        inv[i := map (\<lambda>x. single_multiply g x inverse w) (inv ! i)])
     else (mat, inv))"

definition clear_below :: "galois \<Rightarrow> int \<Rightarrow> nat \<Rightarrow> nat \<Rightarrow> matrix \<times> matrix \<Rightarrow> matrix \<times> matrix" where
  "clear_below g w i j = (\<lambda>(mat, inv).
     let tmp = mat ! j ! i in
     if tmp \<noteq> 0
     then if tmp = 1
          then (mat[j := map2 (XOR) (mat ! j) (mat ! i)], inv[j := map2 (XOR) (inv ! j) (inv ! i)])
          else (mat[j := xor_scaled g w tmp (mat ! j) (mat ! i)], inv[j := xor_scaled g w tmp (inv ! j) (inv ! i)])
     else (mat, inv))"

fun to_upper :: "galois \<Rightarrow> int \<Rightarrow> nat list \<Rightarrow> matrix \<times> matrix \<Rightarrow> bool \<times> matrix \<times> matrix" where
  \<comment> \<open>the first loop; \<open>False\<close> when there is no pivot\<close>
  "to_upper g w [] p = (True, p)"
| "to_upper g w (i # is) p =
     (case find_pivot i p of None \<Rightarrow> (False, p)
      | Some q \<Rightarrow> to_upper g w is (fold (clear_below g w i) [Suc i..<length (fst p)] (norm_pivot g w i q)))"

definition clear_above :: "galois \<Rightarrow> int \<Rightarrow> nat \<Rightarrow> nat \<Rightarrow> matrix \<times> matrix \<Rightarrow> matrix \<times> matrix" where
  "clear_above g w i j = (\<lambda>(mat, inv).
     let tmp = mat ! j ! i in
     if tmp \<noteq> 0 then (mat[j := (mat ! j)[i := 0]], inv[j := xor_scaled g w tmp (inv ! j) (inv ! i)]) else (mat, inv))"

definition identity :: "nat \<Rightarrow> matrix" where
  "identity n = map (\<lambda>i. map (\<lambda>j. if i = j then 1 else 0) [0..<n]) [0..<n]"

definition jerasure_invert_matrix :: "galois \<Rightarrow> matrix \<Rightarrow> nat \<Rightarrow> int \<Rightarrow> int \<times> matrix" where
  \<comment> \<open>the value returned and what it leaves in \<open>inv\<close>\<close>
  "jerasure_invert_matrix g mat rows w =
     (case to_upper g w [0..<rows] (mat, identity rows) of
        (False, p) \<Rightarrow> (-1, snd p)
      | (True, p) \<Rightarrow> (0, snd (fold (\<lambda>i. fold (clear_above g w i) [0..<i]) (rev [0..<rows]) p)))"

definition jerasure_matrix_multiply :: "galois \<Rightarrow> matrix \<Rightarrow> matrix \<Rightarrow> nat \<Rightarrow> nat \<Rightarrow> nat \<Rightarrow> int \<Rightarrow> matrix" where
  \<comment> \<open>\<open>r1\<close> rows, \<open>c2\<close> columns, sums of \<open>r2\<close> products\<close>
  "jerasure_matrix_multiply g m1 m2 r1 c2 r2 w =
     map (\<lambda>i. map (\<lambda>j. fold (\<lambda>k acc. acc XOR single_multiply g (m1 ! i ! k) (m2 ! k ! j) w) [0..<r2] 0) [0..<c2]) [0..<r1]"

section \<open>A field, as far as a set of values goes\<close>

text \<open>
  What the field library documents, for the values in \<open>V\<close>: they are closed under the operations, which
  \<open>emb\<close> carries to those of a ring, and dividing 1 by a value other than 0 inverts it.
\<close>

definition field_on :: "galois \<Rightarrow> int \<Rightarrow> int set \<Rightarrow> (int \<Rightarrow> 'a::comm_ring_1) \<Rightarrow> bool" where
  "field_on g w V emb \<longleftrightarrow> {0, 1} \<subseteq> V \<and> emb 0 = 0 \<and> emb 1 = 1 \<and>
     (\<forall>x\<in>V. \<forall>y\<in>V. x XOR y \<in> V \<and> emb (x XOR y) = emb x + emb y \<and>
        single_multiply g x y w \<in> V \<and> emb (single_multiply g x y w) = emb x * emb y) \<and>
     (\<forall>x\<in>V. single_multiply g 0 x w = 0 \<and> single_multiply g x 0 w = 0 \<and>
        single_multiply g x 1 w = x \<and> single_multiply g 1 x w = x) \<and>
     (\<forall>x\<in>V. x \<noteq> 0 \<longrightarrow> single_divide g 1 x w \<in> V \<and> single_multiply g x (single_divide g 1 x w) w = 1)"

lemma field_onD:
  assumes "field_on g w V emb"
  shows "0 \<in> V" "1 \<in> V" "emb 0 = 0" "emb 1 = 1"
    and "x \<in> V \<Longrightarrow> y \<in> V \<Longrightarrow> x XOR y \<in> V" "x \<in> V \<Longrightarrow> y \<in> V \<Longrightarrow> emb (x XOR y) = emb x + emb y"
    and "x \<in> V \<Longrightarrow> y \<in> V \<Longrightarrow> single_multiply g x y w \<in> V" "x \<in> V \<Longrightarrow> y \<in> V \<Longrightarrow> emb (single_multiply g x y w) = emb x * emb y"
    and "x \<in> V \<Longrightarrow> single_multiply g 0 x w = 0" "x \<in> V \<Longrightarrow> single_multiply g x 0 w = 0" "x \<in> V \<Longrightarrow> single_multiply g x 1 w = x"
    and "x \<in> V \<Longrightarrow> single_multiply g 1 x w = x"
    and "x \<in> V \<Longrightarrow> x \<noteq> 0 \<Longrightarrow> single_divide g 1 x w \<in> V" "x \<in> V \<Longrightarrow> x \<noteq> 0 \<Longrightarrow> single_multiply g x (single_divide g 1 x w) w = 1"
  using assms by (simp_all add: field_on_def)

text \<open>Row \<open>mr\<close> is the combination of the rows of \<open>S\<close> whose coefficients are \<open>vr\<close>.\<close>

definition row_of :: "nat \<Rightarrow> int set \<Rightarrow> (int \<Rightarrow> 'a::comm_ring_1) \<Rightarrow> matrix \<Rightarrow> int list \<Rightarrow> int list \<Rightarrow> bool" where
  "row_of k V emb S mr vr \<longleftrightarrow> length mr = k \<and> length vr = k \<and> set mr \<subseteq> V \<and> set vr \<subseteq> V \<and>
     (\<forall>c<k. (\<Sum>x<k. emb (vr ! x) * emb (S ! x ! c)) = emb (mr ! c))"

lemma map2_values: "set xs \<subseteq> V \<Longrightarrow> set ys \<subseteq> V \<Longrightarrow> (\<And>x y. x \<in> V \<Longrightarrow> y \<in> V \<Longrightarrow> f x y \<in> V) \<Longrightarrow> set (map2 f xs ys) \<subseteq> V"
  by (induction xs ys rule: list_induct2') auto

lemma row_of_scaled:
  assumes "row_of k V emb S mr vr" and F: "field_on g w V emb" and t: "t \<in> V"
  shows "row_of k V emb S (map (\<lambda>x. single_multiply g x t w) mr) (map (\<lambda>x. single_multiply g x t w) vr)"
proof -
  have mem: "mr ! c \<in> V" "vr ! c \<in> V" if "c < k" for c
    using assms(1) that by (metis nth_mem row_of_def subsetD)+
  have "(\<Sum>x<k. emb (map (\<lambda>x. single_multiply g x t w) vr ! x) * emb (S ! x ! c)) =
      (\<Sum>x<k. emb (vr ! x) * emb (S ! x ! c)) * emb t" if "c < k" for c
    unfolding sum_distrib_right
    using assms(1) mem field_onD(8) [OF F _ t] by (intro sum.cong) (simp_all add: row_of_def algebra_simps)
  moreover have "emb (map (\<lambda>x. single_multiply g x t w) mr ! c) = emb (mr ! c) * emb t" if "c < k" for c
    using assms(1) mem(1) [OF that] field_onD(8) [OF F _ t] that by (simp add: row_of_def)
  ultimately show ?thesis
    using assms(1) field_onD(7) [OF F _ t] by (auto simp: row_of_def)
qed

lemma row_of_added:
  assumes "row_of k V emb S mr vr" and "row_of k V emb S ms vs" and F: "field_on g w V emb" and t: "t \<in> V"
  shows "row_of k V emb S (xor_scaled g w t mr ms) (xor_scaled g w t vr vs)"
proof -
  have len: "length mr = k" "length vr = k" "length ms = k" "length vs = k" using assms(1,2) by (simp_all add: row_of_def)
  have mem: "mr ! c \<in> V" "vr ! c \<in> V" "ms ! c \<in> V" "vs ! c \<in> V" if "c < k" for c
    using assms(1,2) that by (metis nth_mem row_of_def subsetD)+
  have e: "emb (xor_scaled g w t xs ys ! c) = emb (xs ! c) + emb t * emb (ys ! c)"
    if "c < k" "length xs = k" "length ys = k" "xs ! c \<in> V" "ys ! c \<in> V" for c xs ys
    using that t by (simp add: xor_scaled_def field_onD(6-8) [OF F])
  have "(\<Sum>x<k. emb (xor_scaled g w t vr vs ! x) * emb (S ! x ! c)) =
      (\<Sum>x<k. emb (vr ! x) * emb (S ! x ! c)) + emb t * (\<Sum>x<k. emb (vs ! x) * emb (S ! x ! c))" for c
    unfolding sum_distrib_left sum.distrib [symmetric]
    using len mem by (intro sum.cong) (simp_all add: e algebra_simps)
  moreover have "set (xor_scaled g w t xs ys) \<subseteq> V" if "set xs \<subseteq> V" "set ys \<subseteq> V" for xs ys
    unfolding xor_scaled_def using that t field_onD(5,7) [OF F] by (intro map2_values) auto
  moreover have "length (xor_scaled g w t mr ms) = k" "length (xor_scaled g w t vr vs) = k" using len by (simp_all add: xor_scaled_def)
  ultimately show ?thesis using assms(1,2) len mem by (auto simp: row_of_def e)
qed

section \<open>Gauss--Jordan elimination\<close>

definition rows_of :: "nat \<Rightarrow> int set \<Rightarrow> (int \<Rightarrow> 'a::comm_ring_1) \<Rightarrow> matrix \<Rightarrow> matrix \<times> matrix \<Rightarrow> bool" where
  "rows_of k V emb S p \<longleftrightarrow> length (fst p) = k \<and> length (snd p) = k \<and> (\<forall>i<k. row_of k V emb S (fst p ! i) (snd p ! i))"

lemma rows_of_dims:
  assumes "rows_of k V emb S p" and "i < k"
  shows "length (fst p ! i) = k" "c < k \<Longrightarrow> fst p ! i ! c \<in> V"
  using assms by (auto simp: rows_of_def row_of_def) (metis nth_mem subsetD)

lemma rows_of_update:
  assumes "rows_of k V emb S p" and "row_of k V emb S mr vr" and "i < k"
  shows "rows_of k V emb S ((fst p)[i := mr], (snd p)[i := vr])"
  using assms by (simp add: rows_of_def nth_list_update)

definition upper :: "nat \<Rightarrow> nat \<Rightarrow> matrix \<Rightarrow> bool" where
  \<comment> \<open>the first \<open>i\<close> columns are those of an upper triangular matrix with ones on the diagonal\<close>
  "upper k i m \<longleftrightarrow> (\<forall>c<i. m ! c ! c = 1 \<and> (\<forall>a. c < a \<and> a < k \<longrightarrow> m ! a ! c = 0))"

lemma find_pivot_keeps:
  assumes "rows_of k V emb S p" and "upper k i (fst p)" and "i < k" and "find_pivot i p = Some q"
  shows "rows_of k V emb S q \<and> upper k i (fst q) \<and> fst q ! i ! i \<noteq> 0"
proof (cases "fst p ! i ! i = 0")
  case False
  then show ?thesis using assms by (cases p) (auto simp: find_pivot_def)
next
  case True
  obtain mat inv where p: "p = (mat, inv)" by fastforce
  obtain j where f: "find (\<lambda>j. mat ! j ! i \<noteq> 0) [Suc i..<length mat] = Some j"
    and q: "q = (swap_rows i j mat, swap_rows i j inv)"
    using assms(4) True by (auto simp: find_pivot_def p split: option.splits)
  from f assms(1) have j: "i < j" "j < k" "mat ! j ! i \<noteq> 0"
    by (auto simp: find_Some_iff rows_of_def p)
  have "rows_of k V emb S q" using assms(1,3) j(2) by (simp add: rows_of_def p q swap_rows_def nth_list_update)
  moreover have "upper k i (fst q)"
    using assms(1-3) j by (auto simp: upper_def rows_of_def p q swap_rows_def nth_list_update)
  moreover have "fst q ! i ! i \<noteq> 0" using assms(1,3) j by (simp add: rows_of_def p q swap_rows_def nth_list_update)
  ultimately show ?thesis by blast
qed

lemma norm_pivot_keeps:
  assumes "rows_of k V emb S p" and "upper k i (fst p)" and "i < k" and "fst p ! i ! i \<noteq> 0" and F: "field_on g w V emb"
  shows "rows_of k V emb S (norm_pivot g w i p) \<and> upper k i (fst (norm_pivot g w i p)) \<and> fst (norm_pivot g w i p) ! i ! i = 1"
proof (cases "fst p ! i ! i = 1")
  case True
  then show ?thesis using assms by (simp add: norm_pivot_def split_beta)
next
  case False
  let ?t = "fst p ! i ! i" and ?v = "single_divide g 1 (fst p ! i ! i) w"
  have t: "?t \<in> V" using rows_of_dims(2) [OF assms(1,3) assms(3)] .
  then have v: "?v \<in> V" "single_multiply g ?t ?v w = 1" using field_onD(13,14) [OF F t assms(4)] by simp_all
  have n: "norm_pivot g w i p = ((fst p)[i := map (\<lambda>x. single_multiply g x ?v w) (fst p ! i)],
      (snd p)[i := map (\<lambda>x. single_multiply g x ?v w) (snd p ! i)])"
    using False by (simp add: norm_pivot_def split_beta Let_def)
  have "row_of k V emb S (map (\<lambda>x. single_multiply g x ?v w) (fst p ! i)) (map (\<lambda>x. single_multiply g x ?v w) (snd p ! i))"
    using assms(1,3) row_of_scaled [OF _ F v(1)] by (simp add: rows_of_def)
  then have "rows_of k V emb S (norm_pivot g w i p)" unfolding n by (rule rows_of_update [OF assms(1) _ assms(3)])
  moreover have "upper k i (fst (norm_pivot g w i p))"
    using assms(1-3) rows_of_dims [OF assms(1,3)] field_onD(9) [OF F v(1)]
    by (auto simp: upper_def n nth_list_update rows_of_def)
  moreover have "fst (norm_pivot g w i p) ! i ! i = 1"
    using rows_of_dims(1) [OF assms(1,3)] assms(1,3) v(2) by (simp add: n rows_of_def)
  ultimately show ?thesis by blast
qed

lemma clear_below_scaled:
  assumes "rows_of k V emb S p" and "i < k" and "j < k" and F: "field_on g w V emb"
  shows "clear_below g w i j p = (if fst p ! j ! i \<noteq> 0
    then ((fst p)[j := xor_scaled g w (fst p ! j ! i) (fst p ! j) (fst p ! i)],
          (snd p)[j := xor_scaled g w (fst p ! j ! i) (snd p ! j) (snd p ! i)]) else p)"
proof -
  have "map2 (XOR) xs ys = xor_scaled g w 1 xs ys" if "set ys \<subseteq> V" for xs ys
    using that by (induction xs ys rule: list_induct2') (auto simp: xor_scaled_def field_onD(12) [OF F])
  moreover have "set (fst p ! i) \<subseteq> V" "set (snd p ! i) \<subseteq> V" using assms(1,2) by (simp_all add: rows_of_def row_of_def)
  ultimately show ?thesis by (simp add: clear_below_def split_beta Let_def)
qed

lemma clear_below_keeps:
  assumes "rows_of k V emb S p" and "upper k i (fst p)" and "i < j" and "j < k" and "fst p ! i ! i = 1"
    and F: "field_on g w V emb"
  shows "rows_of k V emb S (clear_below g w i j p) \<and> upper k i (fst (clear_below g w i j p)) \<and>
    fst (clear_below g w i j p) ! j ! i = 0 \<and> (\<forall>a<k. a \<noteq> j \<longrightarrow> fst (clear_below g w i j p) ! a = fst p ! a)"
proof -
  have i: "i < k" using assms(3,4) by simp
  let ?t = "fst p ! j ! i" and ?m = "fst p" and ?v = "snd p"
  note c = clear_below_scaled [OF assms(1) i assms(4) F]
  show ?thesis
  proof (cases "?t = 0")
    case True
    with assms c show ?thesis by simp
  next
    case False
    have t: "?t \<in> V" using rows_of_dims(2) [OF assms(1) assms(4) i] .
    have r: "row_of k V emb S (xor_scaled g w ?t (?m ! j) (?m ! i)) (xor_scaled g w ?t (?v ! j) (?v ! i))"
      using assms(1,4) i by (intro row_of_added [OF _ _ F t]) (simp_all add: rows_of_def)
    have len: "length (?m ! j) = k" "length (?m ! i) = k" "length ?m = k"
      using rows_of_dims(1) [OF assms(1)] assms(1,4) i by (simp_all add: rows_of_def)
    have e: "xor_scaled g w ?t (?m ! j) (?m ! i) ! c = ?m ! j ! c XOR single_multiply g ?t (?m ! i ! c) w" if "c < k" for c
      using that len by (simp add: xor_scaled_def)
    define mr where "mr = xor_scaled g w ?t (?m ! j) (?m ! i)"
    have up: "?m[j := mr] ! a ! c = 0" if "c < i" "c < a" "a < k" for a c
    proof (cases "a = j")
      case True
      have "?m ! j ! c = 0" "?m ! i ! c = 0" using assms(2) that i True assms(4) by (auto simp: upper_def)
      moreover have "c < k" using that i by simp
      ultimately show ?thesis using True e [of c] field_onD(10) [OF F t] len assms(4) by (simp add: mr_def)
    next
      case False
      then show ?thesis using assms(2) that by (simp add: upper_def)
    qed
    have "rows_of k V emb S (clear_below g w i j p)"
      using False rows_of_update [OF assms(1) r assms(4)] by (simp add: c)
    moreover have "upper k i (fst (clear_below g w i j p))"
      using False assms(2,3) up by (simp add: c upper_def mr_def)
    moreover have "fst (clear_below g w i j p) ! j ! i = 0"
      using False e [OF i] len assms(4,5) field_onD(11) [OF F t] by (simp add: c)
    moreover have "\<forall>a<k. a \<noteq> j \<longrightarrow> fst (clear_below g w i j p) ! a = fst p ! a" using False by (simp add: c)
    ultimately show ?thesis by blast
  qed
qed

lemma clear_column:
  assumes "rows_of k V emb S p" and "upper k i (fst p)" and "fst p ! i ! i = 1" and "i < m" and "m \<le> k" and F: "field_on g w V emb"
  shows "rows_of k V emb S (fold (clear_below g w i) [Suc i..<m] p) \<and> upper k i (fst (fold (clear_below g w i) [Suc i..<m] p)) \<and>
    fst (fold (clear_below g w i) [Suc i..<m] p) ! i ! i = 1 \<and>
    (\<forall>a. i < a \<and> a < m \<longrightarrow> fst (fold (clear_below g w i) [Suc i..<m] p) ! a ! i = 0)"
  using assms(4,5)
proof (induction m)
  case (Suc m)
  show ?case
  proof (cases "i < m")
    case True
    let ?q = "fold (clear_below g w i) [Suc i..<m] p"
    have q: "rows_of k V emb S ?q" "upper k i (fst ?q)" "fst ?q ! i ! i = 1" "\<And>a. i < a \<Longrightarrow> a < m \<Longrightarrow> fst ?q ! a ! i = 0"
      using Suc True by auto
    from clear_below_keeps [OF q(1,2) True _ q(3) F] Suc.prems
    have "rows_of k V emb S (clear_below g w i m ?q) \<and> upper k i (fst (clear_below g w i m ?q)) \<and>
      fst (clear_below g w i m ?q) ! m ! i = 0 \<and> (\<forall>a<k. a \<noteq> m \<longrightarrow> fst (clear_below g w i m ?q) ! a = fst ?q ! a)" by simp
    moreover have "fold (clear_below g w i) [Suc i..<Suc m] p = clear_below g w i m ?q" using True by simp
    ultimately show ?thesis using q(3,4) True Suc.prems by (auto simp: less_Suc_eq)
  next
    case False
    then have "m = i" using Suc.prems by simp
    then show ?thesis using assms(1-3) by auto
  qed
qed simp

lemma to_upper_correct:
  assumes "rows_of k V emb S p" and "upper k i (fst p)" and "i \<le> k" and F: "field_on g w V emb"
    and "to_upper g w [i..<k] p = (True, q)"
  shows "rows_of k V emb S q \<and> upper k k (fst q)"
  using assms(1-3,5)
proof (induction "k - i" arbitrary: i p)
  case 0
  then show ?case by simp
next
  case (Suc n)
  then have i: "i < k" by simp
  then have up: "[i..<k] = i # [Suc i..<k]" by (rule upt_conv_Cons)
  obtain r where r: "find_pivot i p = Some r" using Suc.prems(4) up by (auto split: option.splits)
  note f = find_pivot_keeps [OF Suc.prems(1,2) i r]
  then have n: "rows_of k V emb S (norm_pivot g w i r) \<and> upper k i (fst (norm_pivot g w i r)) \<and> fst (norm_pivot g w i r) ! i ! i = 1"
    using norm_pivot_keeps [OF _ _ i _ F] by blast
  let ?c = "fold (clear_below g w i) [Suc i..<k] (norm_pivot g w i r)"
  have c: "rows_of k V emb S ?c \<and> upper k i (fst ?c) \<and> fst ?c ! i ! i = 1 \<and> (\<forall>a. i < a \<and> a < k \<longrightarrow> fst ?c ! a ! i = 0)"
    using n by (intro clear_column [OF _ _ _ i order_refl F]) blast+
  then have u: "upper k (Suc i) (fst ?c)" by (auto simp: upper_def less_Suc_eq)
  have len: "length (fst p) = k" using Suc.prems(1) by (simp add: rows_of_def)
  have "to_upper g w [i..<k] p = to_upper g w [Suc i..<k] ?c" unfolding up to_upper.simps r option.case len ..
  then have t: "to_upper g w [Suc i..<k] ?c = (True, q)" using Suc.prems(4) by simp
  have "n = k - Suc i" using Suc.hyps(2) by simp
  from Suc.hyps(1) [OF this conjunct1 [OF c] u _ t] i show ?case by simp
qed

definition cleared :: "nat \<Rightarrow> nat \<Rightarrow> matrix \<Rightarrow> bool" where
  \<comment> \<open>from column \<open>i\<close> on, those of the identity\<close>
  "cleared k i m \<longleftrightarrow> (\<forall>c a. i \<le> c \<and> c < k \<and> a < k \<longrightarrow> m ! a ! c = (if a = c then 1 else 0))"

lemma clear_above_keeps:
  assumes "rows_of k V emb S p" and "upper k k (fst p)" and "cleared k (Suc i) (fst p)" and "j < i" and "i < k"
    and F: "field_on g w V emb"
  shows "rows_of k V emb S (clear_above g w i j p) \<and> upper k k (fst (clear_above g w i j p)) \<and>
    cleared k (Suc i) (fst (clear_above g w i j p)) \<and>
    fst (clear_above g w i j p) ! j ! i = 0 \<and> (\<forall>a<k. a \<noteq> j \<longrightarrow> fst (clear_above g w i j p) ! a = fst p ! a)"
proof (cases "fst p ! j ! i = 0")
  case True
  with assms show ?thesis by (simp add: clear_above_def split_beta)
next
  case False
  let ?t = "fst p ! j ! i" and ?m = "fst p" and ?v = "snd p"
  have j: "j < k" using assms(4,5) by simp
  have t: "?t \<in> V" using rows_of_dims(2) [OF assms(1) j assms(5)] .
  have c: "clear_above g w i j p = (?m[j := (?m ! j)[i := 0]], ?v[j := xor_scaled g w ?t (?v ! j) (?v ! i)])"
    using False by (simp add: clear_above_def split_beta)
  have len: "length ?m = k" "length (?m ! j) = k" using assms(1) j by (simp_all add: rows_of_def row_of_def)
  have unit: "?m ! i ! c = (if c = i then 1 else 0)" if "c < k" for c
    using assms(2,3,5) that unfolding upper_def cleared_def by (cases c i rule: linorder_cases) auto
  have R: "row_of k V emb S (?m ! j) (?v ! j)" "row_of k V emb S (?m ! i) (?v ! i)" using assms(1,5) j by (simp_all add: rows_of_def)
  have r: "row_of k V emb S (xor_scaled g w ?t (?m ! j) (?m ! i)) (xor_scaled g w ?t (?v ! j) (?v ! i))"
    by (rule row_of_added [OF R F t])
  have "xor_scaled g w ?t (?m ! j) (?m ! i) = (?m ! j)[i := 0]"
  proof (rule nth_equalityI)
    fix c assume "c < length (xor_scaled g w ?t (?m ! j) (?m ! i))"
    then have "c < k" "length (?m ! i) = k" using R by (simp_all add: xor_scaled_def row_of_def)
    then show "xor_scaled g w ?t (?m ! j) (?m ! i) ! c = (?m ! j)[i := 0] ! c"
      using len unit [of c] field_onD(10,11) [OF F t] by (simp add: xor_scaled_def nth_list_update)
  qed (use R in \<open>simp add: xor_scaled_def row_of_def\<close>)
  with r have r': "row_of k V emb S ((?m ! j)[i := 0]) (xor_scaled g w ?t (?v ! j) (?v ! i))" by simp
  have e: "?m[j := (?m ! j)[i := 0]] ! a ! c = (if a = j \<and> c = i then 0 else ?m ! a ! c)" if "a < k" "c < k" for a c
    using that len by (cases "a = j") (simp_all add: nth_list_update)
  have "rows_of k V emb S (clear_above g w i j p)" unfolding c by (rule rows_of_update [OF assms(1) r' j])
  moreover have "upper k k (fst (clear_above g w i j p))"
    using assms(2,4) e by (auto simp: upper_def c)
  moreover have "cleared k (Suc i) (fst (clear_above g w i j p))"
    using assms(3) e unfolding cleared_def c fst_conv by (metis Suc_n_not_le_n)
  moreover have "fst (clear_above g w i j p) ! j ! i = 0" using e [OF j assms(5)] by (simp add: c)
  moreover have "\<forall>a<k. a \<noteq> j \<longrightarrow> fst (clear_above g w i j p) ! a = ?m ! a" by (simp add: c)
  ultimately show ?thesis by blast
qed

lemma clear_column_above:
  assumes "rows_of k V emb S p" and "upper k k (fst p)" and "cleared k (Suc i) (fst p)" and "i < k" and "m \<le> i"
    and F: "field_on g w V emb"
  shows "rows_of k V emb S (fold (clear_above g w i) [0..<m] p) \<and> upper k k (fst (fold (clear_above g w i) [0..<m] p)) \<and>
    cleared k (Suc i) (fst (fold (clear_above g w i) [0..<m] p)) \<and>
    (\<forall>a<m. fst (fold (clear_above g w i) [0..<m] p) ! a ! i = 0)"
  using assms(5)
proof (induction m)
  case (Suc m)
  let ?q = "fold (clear_above g w i) [0..<m] p"
  have q: "rows_of k V emb S ?q" "upper k k (fst ?q)" "cleared k (Suc i) (fst ?q)" "\<And>a. a < m \<Longrightarrow> fst ?q ! a ! i = 0"
    using Suc by auto
  from clear_above_keeps [OF q(1-3) _ assms(4) F, of m] Suc.prems q(4) assms(4) show ?case by (auto simp: less_Suc_eq)
qed (use assms in simp)

lemma clear_all_above:
  assumes "rows_of k V emb S p" and "upper k k (fst p)" and "cleared k i (fst p)" and "i \<le> k" and F: "field_on g w V emb"
  shows "rows_of k V emb S (fold (\<lambda>i. fold (clear_above g w i) [0..<i]) (rev [0..<i]) p) \<and>
    cleared k 0 (fst (fold (\<lambda>i. fold (clear_above g w i) [0..<i]) (rev [0..<i]) p))"
  using assms(1-4)
proof (induction i arbitrary: p)
  case (Suc i)
  let ?q = "fold (clear_above g w i) [0..<i] p"
  have i: "i < k" using Suc.prems(4) by simp
  note c = clear_column_above [OF Suc.prems(1-3) i order_refl F]
  have "cleared k i (fst ?q)"
    unfolding cleared_def
  proof (intro allI impI)
    fix col a assume a: "i \<le> col \<and> col < k \<and> a < k"
    show "fst ?q ! a ! col = (if a = col then 1 else 0)"
    proof (cases "col = i")
      case True
      with a c show ?thesis unfolding upper_def by (cases a i rule: linorder_cases) auto
    next
      case False
      with a c show ?thesis unfolding cleared_def by simp
    qed
  qed
  moreover have "rev [0..<Suc i] = i # rev [0..<i]" by simp
  ultimately show ?case using c Suc.IH [of ?q] i by (simp only: fold_simps less_imp_le)
qed simp

section \<open>The inverse\<close>

definition square :: "nat \<Rightarrow> int set \<Rightarrow> matrix \<Rightarrow> bool" where
  "square k V m \<longleftrightarrow> length m = k \<and> (\<forall>r\<in>set m. length r = k \<and> set r \<subseteq> V)"

lemma square_nth: "square k V m \<Longrightarrow> a < k \<Longrightarrow> c < k \<Longrightarrow> m ! a ! c \<in> V"
  unfolding square_def by (metis nth_mem subsetD)

lemma identity_nth: "i < k \<Longrightarrow> j < k \<Longrightarrow> identity k ! i ! j = (if i = j then 1 else 0)"
  by (simp add: identity_def)

text \<open>When \<open>jerasure_invert_matrix\<close> succeeds, what it leaves in \<open>inv\<close> times the matrix is the identity.\<close>

lemma invert_correct:
  assumes "jerasure_invert_matrix g S k w = (0, iv)" and "square k V S" and F: "field_on g w V emb"
  shows "square k V iv" and "i < k \<Longrightarrow> c < k \<Longrightarrow> (\<Sum>x<k. emb (iv ! i ! x) * emb (S ! x ! c)) = (if i = c then 1 else 0)"
proof -
  have start: "rows_of k V emb S (S, identity k)"
    unfolding rows_of_def
  proof (intro conjI allI impI)
    fix i assume i: "i < k"
    have "set (identity k ! i) \<subseteq> V" using i field_onD(1,2) [OF F] by (auto simp: identity_def)
    moreover have "(\<Sum>x<k. emb (identity k ! i ! x) * emb (S ! x ! c)) = emb (S ! i ! c)" for c
    proof -
      have "(\<Sum>x<k. emb (identity k ! i ! x) * emb (S ! x ! c)) = (\<Sum>x<k. if x = i then emb (S ! x ! c) else 0)"
        using i field_onD(3,4) [OF F] by (intro sum.cong) (auto simp: identity_nth)
      then show ?thesis using i by simp
    qed
    moreover have "length (identity k ! i) = k" using i by (simp add: identity_def)
    ultimately show "row_of k V emb S (fst (S, identity k) ! i) (snd (S, identity k) ! i)"
      using assms(2) i by (simp add: row_of_def square_def)
  qed (use assms(2) in \<open>simp_all add: square_def identity_def\<close>)
  obtain ok p where u: "to_upper g w [0..<k] (S, identity k) = (ok, p)" by (meson surj_pair)
  with assms(1) have ok: "ok" and iv: "iv = snd (fold (\<lambda>i. fold (clear_above g w i) [0..<i]) (rev [0..<k]) p)"
    by (auto simp: jerasure_invert_matrix_def split: bool.splits)
  have "upper k 0 (fst (S, identity k))" by (simp add: upper_def)
  from to_upper_correct [OF start this _ F] u ok have p: "rows_of k V emb S p" "upper k k (fst p)" by auto
  have "cleared k k (fst p)" by (simp add: cleared_def)
  note c = clear_all_above [OF p this order_refl F]
  let ?q = "fold (\<lambda>i. fold (clear_above g w i) [0..<i]) (rev [0..<k]) p"
  have rows: "row_of k V emb S (fst ?q ! i) (iv ! i)" if "i < k" for i
    using c that by (simp add: rows_of_def iv)
  have len: "length iv = k" using c by (simp add: rows_of_def iv)
  show "square k V iv"
    unfolding square_def
  proof (intro conjI ballI len)
    fix r assume "r \<in> set iv"
    then obtain i where "i < k" "r = iv ! i" using len by (metis in_set_conv_nth)
    with rows show "length r = k" "set r \<subseteq> V" by (simp_all add: row_of_def)
  qed
  show "(\<Sum>x<k. emb (iv ! i ! x) * emb (S ! x ! c)) = (if i = c then 1 else 0)" if "i < k" "c < k"
    using rows [OF that(1)] that c field_onD(3,4) [OF F] by (auto simp: row_of_def cleared_def)
qed

text \<open>What \<open>jerasure_matrix_multiply\<close> sums up.\<close>

lemma multiply_entry:
  assumes F: "field_on g w V emb" and "\<forall>k<n. xs k \<in> V" and "\<forall>k<n. ys k \<in> V"
  shows "fold (\<lambda>k acc. acc XOR single_multiply g (xs k) (ys k) w) [0..<n] 0 \<in> V \<and>
    emb (fold (\<lambda>k acc. acc XOR single_multiply g (xs k) (ys k) w) [0..<n] 0) = (\<Sum>k<n. emb (xs k) * emb (ys k))"
  using assms(2,3)
proof (induction n)
  case 0
  then show ?case using field_onD(1,3) [OF F] by simp
next
  case (Suc n)
  then have x: "xs n \<in> V" "ys n \<in> V"
    and "fold (\<lambda>k acc. acc XOR single_multiply g (xs k) (ys k) w) [0..<n] 0 \<in> V" by auto
  with Suc field_onD(5-8) [OF F] show ?case by simp
qed

end
