(* ===== verification/Rs.thy ===== *)
theory Rs
  imports Galois
begin

text \<open>
  The Reed-Solomon codes \<open>RSCONV\<close> (src/src/ec/RSCONV.cc) and \<open>RSPIPE\<close> (src/src/ec/RSPIPE.cc). Both build the
  same encoding matrix; \<open>RSCONV\<close> repairs a block with one equation over \<open>k\<close> blocks, \<open>RSPIPE\<close> with a chain
  of equations over two. The Galois field is the argument \<open>g\<close>; the code multiplies with word size 8 but
  inverts with word size \<open>_k\<close>.
\<close>

section \<open>The encoding matrix\<close>

record rs =
  rs_n :: int
  rs_k :: int
  rs_w :: int
  rs_m :: int

definition new_RSCONV :: "int \<Rightarrow> int \<Rightarrow> int \<Rightarrow> rs res" where
  \<comment> \<open>the array has 32 * 32 entries\<close>
  "new_RSCONV n k w =
     (let m = n - k in
      bindR (guardR BufferOverrun ((k + m) * k \<le> 1024)) (\<lambda>_. Inr \<lparr>rs_n = n, rs_k = k, rs_w = w, rs_m = m\<rparr>))"

definition new_RSPIPE :: "int \<Rightarrow> int \<Rightarrow> int \<Rightarrow> rs res" where
  "new_RSPIPE n k w =
     (let m = n - k in
      bindR (guardR BufferOverrun ((k + m) * m \<le> 1024)) (\<lambda>_. Inr \<lparr>rs_n = n, rs_k = k, rs_w = w, rs_m = m\<rparr>))"

fun power_row :: "galois \<Rightarrow> int \<Rightarrow> int \<Rightarrow> int \<Rightarrow> nat \<Rightarrow> int list" where
  \<comment> \<open>\<open>tmp\<close>, \<open>tmp * x\<close>, and so on\<close>
  "power_row g w x tmp 0 = []"
| "power_row g w x tmp (Suc j) = tmp # power_row g w x (single_multiply g tmp x w) j"

definition rs_matrix :: "galois \<Rightarrow> int \<Rightarrow> int \<Rightarrow> int \<Rightarrow> matrix" where
  "rs_matrix g n k w = identity (nat k) @ map (\<lambda>i. power_row g w (int i + 1) 1 (nat k)) [0..<nat (n - k)]"

definition generate_matrix :: "galois \<Rightarrow> int \<Rightarrow> int \<Rightarrow> int \<Rightarrow> matrix res" where
  "generate_matrix g rows cols w = bindR (guardR BufferOverrun (rows * cols \<le> 1024)) (\<lambda>_. Inr (rs_matrix g rows cols w))"

section \<open>Encode and Decode\<close>

definition rs_Encode :: "galois \<Rightarrow> rs \<Rightarrow> ecdag res" where
  "rs_Encode g r =
     bindR (generate_matrix g (rs_n r) (rs_k r) 8) (\<lambda>enc.
       let data = map int [0..<nat (rs_k r)] in
       Inr (join_all (map (\<lambda>i. (rs_k r + int i, data, enc ! (nat (rs_k r) + i))) [0..<nat (rs_m r)]) new_ecdag))"

definition decode_coefs :: "galois \<Rightarrow> nat \<Rightarrow> matrix \<Rightarrow> int list \<Rightarrow> int list" where
  \<comment> \<open>\<open>_coef_vector\<close>\<close>
  "decode_coefs g k iv row = hd (jerasure_matrix_multiply g [row] iv 1 k k 8)"

definition select_inverse :: "galois \<Rightarrow> rs \<Rightarrow> matrix \<Rightarrow> int list \<Rightarrow> (int list \<times> matrix) res" where
  \<comment> \<open>the first \<open>_k\<close> blocks to read, and the inverse of their rows; whether there is one is not looked at\<close>
  "select_inverse g r enc fr =
     bindR (mapR (vget fr) (map int [0..<nat (rs_k r)])) (\<lambda>data.
     bindR (mapR (vget enc) data) (\<lambda>sel.
       Inr (data, snd (jerasure_invert_matrix g sel (nat (rs_k r)) (rs_k r)))))"

definition rs_Decode :: "galois \<Rightarrow> rs \<Rightarrow> int list \<Rightarrow> int list \<Rightarrow> ecdag option res" where
  "rs_Decode g r fr to =
     bindR (generate_matrix g (rs_n r) (rs_k r) 8) (\<lambda>enc.
     bindR (select_inverse g r enc fr) (\<lambda>(data, iv).
     bindR (mapR (\<lambda>ridx. bindR (vget enc ridx) (\<lambda>row. Inr (ridx, data, decode_coefs g (nat (rs_k r)) iv row))) to) (\<lambda>es.
       Inr (Some (join_all es new_ecdag)))))"

function pipe_chain :: "int \<Rightarrow> int \<Rightarrow> int list \<Rightarrow> int list \<Rightarrow> equation list \<times> int" where
  \<comment> \<open>the loop over the two queues: the equations joined and the next name\<close>
  "pipe_chain ridx tmpname ds cs =
     (if length ds \<ge> 2
      then let datav = take 2 ds; coefv = take 2 cs; rest = drop 2 ds in
        if rest = [] then ([(ridx, datav, coefv)], tmpname)
        else case pipe_chain ridx (tmpname + 1) (tmpname # rest) (1 # drop 2 cs) of
          (es, t) \<Rightarrow> ((tmpname, datav, coefv) # es, t)
      else ([], tmpname))"
  by pat_completeness auto
termination by (relation "measure (\<lambda>(_, _, ds, _). length ds)") auto

declare pipe_chain.simps [simp del]

definition pipe_chains :: "galois \<Rightarrow> rs \<Rightarrow> matrix \<Rightarrow> matrix \<Rightarrow> int list \<Rightarrow> int list \<Rightarrow> (equation list \<times> int) res" where
  "pipe_chains g r enc iv data to =
     foldR (\<lambda>ridx (es, tmpname). bindR (vget enc ridx) (\<lambda>row.
       case pipe_chain ridx tmpname data (decode_coefs g (nat (rs_k r)) iv row) of
         (es1, t) \<Rightarrow> Inr (es @ es1, t))) to ([], rs_k r + rs_m r)"

definition pipe_Encode :: "galois \<Rightarrow> rs \<Rightarrow> ecdag res" where
  \<comment> \<open>the body is that of \<open>RSCONV::Encode\<close>\<close>
  "pipe_Encode g r = rs_Encode g r"

definition pipe_Decode :: "galois \<Rightarrow> rs \<Rightarrow> int list \<Rightarrow> int list \<Rightarrow> ecdag option res" where
  "pipe_Decode g r fr to =
     bindR (generate_matrix g (rs_n r) (rs_k r) 8) (\<lambda>enc.
     bindR (select_inverse g r enc fr) (\<lambda>(data, iv).
     bindR (pipe_chains g r enc iv data to) (\<lambda>(es, _). Inr (Some (join_all es new_ecdag)))))"

section \<open>What the matrix holds\<close>

definition rs_params :: "int \<Rightarrow> int \<Rightarrow> bool" where
  "rs_params n k \<longleftrightarrow> 1 \<le> k \<and> k \<le> n \<and> n * k \<le> 1024 \<and> n \<le> REQUESTOR - n"

lemma power_row_length [simp]: "length (power_row g w x tmp j) = j"
  by (induction j arbitrary: tmp) simp_all

lemma power_row_first [simp]: "power_row g w x tmp (Suc j) ! 0 = tmp"
  by simp

lemma rs_matrix_length: "1 \<le> k \<Longrightarrow> k \<le> n \<Longrightarrow> length (rs_matrix g n k w) = nat n"
  by (simp add: rs_matrix_def identity_def)

lemma rs_matrix_row: "r < length (rs_matrix g n k w) \<Longrightarrow> length (rs_matrix g n k w ! r) = nat k"
  by (auto simp: rs_matrix_def identity_def nth_append)

lemma rs_matrix_data: "i < nat k \<Longrightarrow> j < nat k \<Longrightarrow> rs_matrix g n k w ! i ! j = (if i = j then 1 else 0)"
  by (simp add: rs_matrix_def identity_def nth_append)

lemma rs_matrix_parity: "i < nat (n - k) \<Longrightarrow> rs_matrix g n k w ! (nat k + i) = power_row g w (int i + 1) 1 (nat k)"
  by (simp add: rs_matrix_def identity_def nth_append)

text \<open>A codeword: every parity block is the combination of the data blocks its row tells.\<close>

definition rs_codeword :: "galois \<Rightarrow> int \<Rightarrow> int \<Rightarrow> (int \<Rightarrow> 'a::comm_ring_1) \<Rightarrow> (int \<Rightarrow> 'a) \<Rightarrow> bool" where
  "rs_codeword g n k emb f \<longleftrightarrow>
     (\<forall>i<nat (n - k). f (k + int i) = (\<Sum>j<nat k. emb (rs_matrix g n k 8 ! (nat k + i) ! j) * f (int j)))"

lemma rs_codeword_all:
  assumes "rs_codeword g n k emb f" and "emb 0 = 0" and "emb 1 = 1" and "1 \<le> k" and "r < nat n"
  shows "f (int r) = (\<Sum>j<nat k. emb (rs_matrix g n k 8 ! r ! j) * f (int j))"
proof (cases "r < nat k")
  case True
  have "(\<Sum>j<nat k. emb (rs_matrix g n k 8 ! r ! j) * f (int j)) = (\<Sum>j<nat k. if j = r then f (int j) else 0)"
    using True assms(2,3) by (intro sum.cong) (auto simp: rs_matrix_data)
  then show ?thesis using True by simp
next
  case False
  then have "r - nat k < nat (n - k)" "nat k + (r - nat k) = r" "k + int (r - nat k) = int r" using assms(4,5) by auto
  then show ?thesis using assms(1) unfolding rs_codeword_def by metis
qed

section \<open>The decoding coefficients\<close>

lemma decode_coefs_nth:
  assumes "field_on g 8 V emb" and "square k V iv" and "length row = k" and "set row \<subseteq> V" and "j < k"
  shows "length (decode_coefs g k iv row) = k"
    and "emb (decode_coefs g k iv row ! j) = (\<Sum>x<k. emb (row ! x) * emb (iv ! x ! j))"
proof -
  show "length (decode_coefs g k iv row) = k" by (simp add: decode_coefs_def jerasure_matrix_multiply_def)
  have "\<forall>x<k. row ! x \<in> V" using assms(3,4) by (metis nth_mem subsetD)
  moreover have "\<forall>x<k. iv ! x ! j \<in> V" using square_nth [OF assms(2)] assms(5) by blast
  ultimately show "emb (decode_coefs g k iv row ! j) = (\<Sum>x<k. emb (row ! x) * emb (iv ! x ! j))"
    using multiply_entry [OF assms(1), of k "\<lambda>x. row ! x" "\<lambda>x. iv ! x ! j"] assms(5)
    by (simp add: decode_coefs_def jerasure_matrix_multiply_def)
qed

lemma combine_nth:
  assumes "length cfs = k" and "length cs = k"
  shows "combine emb f cfs cs = (\<Sum>j<k. emb (cfs ! j) * f (cs ! j))"
  using assms by (simp add: combine_def sum_list_sum_nth atLeast0LessThan split_beta)

lemma decode_value:
  assumes F: "field_on g 8 V emb" and sq: "square k V iv" and row: "length row = k" "set row \<subseteq> V"
    and inv: "\<And>i c. i < k \<Longrightarrow> c < k \<Longrightarrow> (\<Sum>x<k. emb (iv ! i ! x) * emb (S ! x ! c)) = (if i = c then 1 else 0)"
    and data: "length data = k" "\<And>j. j < k \<Longrightarrow> f (data ! j) = (\<Sum>c<k. emb (S ! j ! c) * f (int c))"
  shows "combine emb f (decode_coefs g k iv row) data = (\<Sum>x<k. emb (row ! x) * f (int x))"
proof -
  have len: "length (decode_coefs g k iv row) = k" by (simp add: decode_coefs_def jerasure_matrix_multiply_def)
  have "combine emb f (decode_coefs g k iv row) data =
      (\<Sum>j<k. (\<Sum>x<k. emb (row ! x) * emb (iv ! x ! j)) * (\<Sum>c<k. emb (S ! j ! c) * f (int c)))"
    unfolding combine_nth [OF len data(1)]
    using decode_coefs_nth(2) [OF F sq row] data(2) by (intro sum.cong) auto
  also have "\<dots> = (\<Sum>j<k. \<Sum>x<k. \<Sum>c<k. emb (row ! x) * (emb (iv ! x ! j) * emb (S ! j ! c)) * f (int c))"
    by (intro sum.cong refl) (simp only: sum_product, simp add: mult.assoc)
  also have "\<dots> = (\<Sum>x<k. \<Sum>c<k. \<Sum>j<k. emb (row ! x) * (emb (iv ! x ! j) * emb (S ! j ! c)) * f (int c))"
    by (rule trans [OF sum.swap]) (intro sum.cong refl sum.swap)
  also have "\<dots> = (\<Sum>x<k. \<Sum>c<k. emb (row ! x) * (\<Sum>j<k. emb (iv ! x ! j) * emb (S ! j ! c)) * f (int c))"
    by (simp add: sum_distrib_left sum_distrib_right)
  also have "\<dots> = (\<Sum>x<k. \<Sum>c<k. if c = x then emb (row ! x) * f (int c) else 0)"
    by (intro sum.cong refl) (simp add: inv)
  finally show ?thesis by simp
qed

section \<open>The codes keep their promise\<close>

definition selected :: "galois \<Rightarrow> int \<Rightarrow> int \<Rightarrow> int list \<Rightarrow> matrix" where
  \<comment> \<open>\<open>_select_matrix\<close>\<close>
  "selected g n k live = map (\<lambda>i. rs_matrix g n k 8 ! nat i) (take (nat k) live)"

definition rs_supports :: "galois \<Rightarrow> int set \<Rightarrow> int \<Rightarrow> int \<Rightarrow> int list \<Rightarrow> int list \<Rightarrow> bool" where
  \<comment> \<open>\<open>k\<close> blocks are left, their rows can be inverted, and the rows used have entries in \<open>V\<close>\<close>
  "rs_supports g V n k live lost \<longleftrightarrow> rs_params n k \<and> distinct live \<and> distinct lost \<and> set live \<union> set lost \<subseteq> {0..<n} \<and>
     set live \<inter> set lost = {} \<and> nat k \<le> length live \<and>
     fst (jerasure_invert_matrix g (selected g n k live) (nat k) k) = 0 \<and>
     (\<forall>i\<in>set (take (nat k) live) \<union> set lost. set (rs_matrix g n k 8 ! nat i) \<subseteq> V)"

definition rs_field :: "galois \<Rightarrow> int set \<Rightarrow> int \<Rightarrow> (int \<Rightarrow> 'a::comm_ring_1) \<Rightarrow> bool" where
  \<comment> \<open>on \<open>V\<close> the field the matrix is inverted in is the one everything else is computed in\<close>
  "rs_field g V k emb \<longleftrightarrow> field_on g 8 V emb \<and> field_on g k V emb"

definition rs_coefs :: "galois \<Rightarrow> int \<Rightarrow> int \<Rightarrow> int list \<Rightarrow> int \<Rightarrow> int list" where
  "rs_coefs g n k live b =
     decode_coefs g (nat k) (snd (jerasure_invert_matrix g (selected g n k live) (nat k) k)) (rs_matrix g n k 8 ! nat b)"

lemma rs_supports_facts:
  assumes "rs_supports g V n k live lost"
  shows "1 \<le> k" "k \<le> n" "n * k \<le> 1024" "n \<le> REQUESTOR - n" "length (take (nat k) live) = nat k" "distinct (take (nat k) live)"
    and "b \<in> set (take (nat k) live) \<Longrightarrow> 0 \<le> b \<and> b < n \<and> b \<notin> set lost \<and> b \<in> set live"
    and "b \<in> set lost \<Longrightarrow> 0 \<le> b \<and> b < n \<and> b \<notin> set (take (nat k) live)"
  using assms by (auto simp: rs_supports_def rs_params_def dest: in_set_takeD)

lemma rs_coefs_value:
  assumes S: "rs_supports g V n k live lost" and F: "rs_field g V k emb" and f: "rs_codeword g n k emb f" and b: "b \<in> set lost"
  shows "combine emb f (rs_coefs g n k live b) (take (nat k) live) = f b"
proof -
  let ?k = "nat k" and ?E = "rs_matrix g n k 8" and ?S = "selected g n k live"
  have P: "1 \<le> k" "k \<le> n" using rs_supports_facts(1,2) [OF S] .
  have F8: "field_on g 8 V emb" and Fk: "field_on g k V emb" using F by (simp_all add: rs_field_def)
  have E: "length ?E = nat n" using rs_matrix_length [OF P] .
  have row: "length (?E ! nat i) = ?k" "set (?E ! nat i) \<subseteq> V" if "i \<in> set (take ?k live) \<union> set lost" for i
  proof -
    have "0 \<le> i \<and> i < n" using that rs_supports_facts(7,8) [OF S] by blast
    then show "length (?E ! nat i) = ?k" by (intro rs_matrix_row) (simp add: E)
    show "set (?E ! nat i) \<subseteq> V" using S that by (simp add: rs_supports_def)
  qed
  have sq: "square ?k V ?S" using rs_supports_facts(5) [OF S] row by (auto simp: square_def selected_def)
  obtain iv where iv: "jerasure_invert_matrix g ?S ?k k = (0, iv)"
    using S by (metis rs_supports_def prod.collapse)
  note I = invert_correct [OF iv sq Fk]
  have data: "f (take ?k live ! j) = (\<Sum>c<?k. emb (?S ! j ! c) * f (int c))" if j: "j < ?k" for j
  proof -
    have m: "take ?k live ! j \<in> set (take ?k live)" using j rs_supports_facts(5) [OF S] by (metis nth_mem)
    then have r: "0 \<le> take ?k live ! j" "take ?k live ! j < n" using rs_supports_facts(7) [OF S] by auto
    then have "f (int (nat (take ?k live ! j))) = (\<Sum>c<?k. emb (?E ! nat (take ?k live ! j) ! c) * f (int c))"
      by (intro rs_codeword_all [OF f field_onD(3,4) [OF F8] P(1)]) simp
    then show ?thesis using r j rs_supports_facts(5) [OF S] by (simp add: selected_def)
  qed
  have "combine emb f (decode_coefs g ?k iv (?E ! nat b)) (take ?k live) = (\<Sum>x<?k. emb (?E ! nat b ! x) * f (int x))"
    using row [of b] b rs_supports_facts(5) [OF S] data by (intro decode_value [OF F8 I(1) _ _ I(2)]) auto
  also have "\<dots> = f b"
    using rs_codeword_all [OF f field_onD(3,4) [OF F8] P(1), of "nat b"] rs_supports_facts(8) [OF S b] by simp
  finally show ?thesis by (simp add: rs_coefs_def iv)
qed

lemma single_pkts: "concat (map (block_pkts 1) bs) = bs"
  by (induction bs) (simp_all add: block_pkts_def)

definition rs_ok :: "int \<Rightarrow> int \<Rightarrow> rs \<Rightarrow> bool" where
  "rs_ok n k r \<longleftrightarrow> r = \<lparr>rs_n = n, rs_k = k, rs_w = 1, rs_m = n - k\<rparr>"

lemma select_inverse_ok:
  assumes "rs_supports g V n k live lost" and "rs_ok n k r"
  shows "generate_matrix g (rs_n r) (rs_k r) 8 = Inr (rs_matrix g n k 8)"
    and "select_inverse g r (rs_matrix g n k 8) live =
      Inr (take (nat k) live, snd (jerasure_invert_matrix g (selected g n k live) (nat k) k))"
    and "b \<in> set lost \<Longrightarrow> vget (rs_matrix g n k 8) b = Inr (rs_matrix g n k 8 ! nat b)"
proof -
  note S = rs_supports_facts [OF assms(1)]
  show "generate_matrix g (rs_n r) (rs_k r) 8 = Inr (rs_matrix g n k 8)"
    using S(3) assms(2) by (simp add: generate_matrix_def rs_ok_def)
  have "mapR (vget live) (map int [0..<nat k]) = Inr (map (\<lambda>i. live ! nat i) (map int [0..<nat k]))"
    using assms(1) by (intro mapR_pure) (auto simp: rs_supports_def)
  also have "map (\<lambda>i. live ! nat i) (map int [0..<nat k]) = take (nat k) live"
    using assms(1) by (intro nth_equalityI) (auto simp: rs_supports_def)
  finally have data: "mapR (vget live) (map int [0..<nat k]) = Inr (take (nat k) live)" .
  have v: "vget (rs_matrix g n k 8) i = Inr (rs_matrix g n k 8 ! nat i)" if "0 \<le> i" "i < n" for i
    using that rs_matrix_length [OF S(1,2), of g 8] by simp
  have "mapR (vget (rs_matrix g n k 8)) (take (nat k) live) = Inr (selected g n k live)"
    unfolding selected_def using S(7) v by (intro mapR_pure) blast
  with data show "select_inverse g r (rs_matrix g n k 8) live =
      Inr (take (nat k) live, snd (jerasure_invert_matrix g (selected g n k live) (nat k) k))"
    using assms(2) by (simp add: select_inverse_def rs_ok_def)
  show "b \<in> set lost \<Longrightarrow> vget (rs_matrix g n k 8) b = Inr (rs_matrix g n k 8 ! nat b)" using v S(8) by blast
qed

definition conv_eqs :: "galois \<Rightarrow> int \<Rightarrow> int \<Rightarrow> int list \<Rightarrow> int list \<Rightarrow> equation list" where
  "conv_eqs g n k live lost = map (\<lambda>b. (b, take (nat k) live, rs_coefs g n k live b)) lost"

lemma rs_Decode_eqs:
  assumes "rs_supports g V n k live lost" and "rs_ok n k r"
  shows "rs_Decode g r live lost = Inr (Some (join_all (conv_eqs g n k live lost) new_ecdag))"
proof -
  note s = select_inverse_ok [OF assms]
  have "mapR (\<lambda>ridx. bindR (vget (rs_matrix g n k 8) ridx) (\<lambda>row. Inr (ridx, take (nat k) live,
      decode_coefs g (nat k) (snd (jerasure_invert_matrix g (selected g n k live) (nat k) k)) row))) lost = Inr (conv_eqs g n k live lost)"
    unfolding conv_eqs_def using s(3) by (intro mapR_pure) (simp add: rs_coefs_def)
  then show ?thesis using s(1,2) assms(2) by (simp add: rs_Decode_def rs_ok_def)
qed

definition rs_ec :: "galois \<Rightarrow> rs \<Rightarrow> ec_base" where
  "rs_ec g r = \<lparr>ec_n = rs_n r, ec_k = rs_k r, ec_w = rs_w r, ec_Decode = rs_Decode g r\<rparr>"

lemma rs_decodes:
  assumes S: "rs_supports g V n k live lost" and r: "rs_ok n k r"
  shows "0 < ec_n (rs_ec g r) \<and> 0 < ec_w (rs_ec g r) \<and>
      (\<exists>dag. ec_Decode (rs_ec g r) (concat (map (block_pkts (ec_w (rs_ec g r))) live))
            (concat (map (block_pkts (ec_w (rs_ec g r))) lost)) = Inr (Some dag) \<and>
         wf_ecdag dag \<and> ecConcacts dag = [] \<and>
         set (ecLeaves dag) \<subseteq> set (concat (map (block_pkts (ec_w (rs_ec g r))) live)) \<and>
         set (concat (map (block_pkts (ec_w (rs_ec g r))) lost)) \<subseteq> set (node_ids dag) \<and>
         (\<forall>v\<in>set (node_ids dag). v < REQUESTOR - ec_n (rs_ec g r)) \<and>
         (\<forall>f. rs_codeword g n k emb f \<and> rs_field g V k emb \<longrightarrow>
            (\<exists>h. satisfies emb dag h \<and> (\<forall>v<ec_n (rs_ec g r) * ec_w (rs_ec g r). h v = f v))))"
proof -
  note P = rs_supports_facts [OF S]
  have ec: "ec_n (rs_ec g r) = n" "ec_w (rs_ec g r) = 1" using r by (simp_all add: rs_ec_def rs_ok_def)
  let ?es = "conv_eqs g n k live lost"
  have parents: "fst ` set ?es = set lost" by (simp add: conv_eqs_def image_image)
  have es: "p \<in> set lost" "cs = take (nat k) live" "cfs = rs_coefs g n k live p" if "(p, cs, cfs) \<in> set ?es" for p cs cfs
    using that by (auto simp: conv_eqs_def)
  have ne: "take (nat k) live \<noteq> []"
  proof
    assume "take (nat k) live = []"
    then show False using P(1,5) by (simp only: list.size)
  qed
  have ok: "eqs_ok {} ?es"
  proof (rule eqs_ok_list)
    show "fst e \<notin> {} \<and> fst (snd e) \<noteq> [] \<and> distinct (fst (snd e))" if "e \<in> set ?es" for e
      using that ne P(6) by (auto simp: conv_eqs_def)
    show "distinct (map fst ?es)" using S by (simp add: conv_eqs_def o_def rs_supports_def)
    show "fst e \<notin> set (fst (snd e'))" if "e \<in> set ?es" "e' \<in> set ?es" for e e'
      using that P(8) by (auto simp: conv_eqs_def)
  qed
  show ?thesis unfolding ec single_pkts
  proof (intro conjI decode_by_equations [where es = ?es and ec = "rs_ec g r", unfolded ec])
    show "0 < n" using P by simp
    show "ec_Decode (rs_ec g r) live lost = Inr (Some (join_all ?es new_ecdag))"
      using rs_Decode_eqs [OF S r] by (simp add: rs_ec_def)
    show "set cs \<subseteq> set live \<union> fst ` set ?es" if "(p, cs, cfs) \<in> set ?es" for p cs cfs
      using es(2) [OF that] by (auto dest: in_set_takeD)
    show "set lost \<subseteq> fst ` set ?es" using parents by simp
    show "v < REQUESTOR - n" if "(p, cs, cfs) \<in> set ?es" "v \<in> insert p (set cs)" for p cs cfs v
    proof -
      have "v < n" using es [OF that(1)] that(2) P(7) [of v] P(8) [of v] by auto
      then show ?thesis using P(4) by linarith
    qed
    show "\<exists>h. (\<forall>(p, cs, cfs)\<in>set ?es. h p = combine emb h cfs cs) \<and> (\<forall>v<n * 1. h v = f v)"
      if "rs_codeword g n k emb f \<and> rs_field g V k emb" for f
    proof (intro exI [of _ f] conjI ballI, goal_cases)
      case (1 e)
      obtain p cs cfs where e: "e = (p, cs, cfs)" by (cases e) auto
      with 1 have "(p, cs, cfs) \<in> set ?es" by simp
      with rs_coefs_value [OF S, of emb f p] that es [OF this] show ?case by (simp add: e)
    qed simp
  qed (use ok in auto)
qed

interpretation rsconv: erasure_code "rs_ec g r" emb "\<lambda>f. rs_codeword g n k emb f \<and> rs_field g V k emb"
    "\<lambda>live lost. rs_supports g V n k live lost \<and> rs_ok n k r"
  for g r n k V and emb :: "int \<Rightarrow> 'a::comm_ring_1"
  using rs_decodes by unfold_locales blast

section \<open>Encode\<close>

lemma rs_Encode_satisfies:
  assumes "rs_params n k" and "rs_ok n k r"
  shows "\<exists>enc. rs_Encode g r = Inr enc \<and> (\<forall>emb f. satisfies emb enc f \<longleftrightarrow> rs_codeword g n k emb (f :: int \<Rightarrow> 'a::comm_ring_1))"
proof -
  let ?data = "map int [0..<nat k]" and ?E = "rs_matrix g n k 8"
  let ?es = "map (\<lambda>i. (k + int i, ?data, ?E ! (nat k + i))) [0..<nat (n - k)]"
  have k: "1 \<le> k" "k \<le> n" using assms(1) by (simp_all add: rs_params_def)
  have enc: "rs_Encode g r = Inr (join_all ?es new_ecdag)"
    using assms by (simp add: rs_Encode_def generate_matrix_def rs_ok_def rs_params_def)
  have data: "set ?data = {0..<k}" unfolding set_int_upt by auto
  have ok: "eqs_ok {} ?es"
  proof (rule eqs_ok_list)
    show "fst e \<notin> {} \<and> fst (snd e) \<noteq> [] \<and> distinct (fst (snd e))" if "e \<in> set ?es" for e
      using that k by (auto simp: distinct_map)
    show "distinct (map fst ?es)" by (simp add: o_def distinct_map inj_on_def)
    show "fst e \<notin> set (fst (snd e'))" if "e \<in> set ?es" "e' \<in> set ?es" for e e'
      using that data by auto
  qed
  have "combine emb f (?E ! (nat k + i)) ?data = (\<Sum>j<nat k. emb (?E ! (nat k + i) ! j) * f (int j))"
    if "i < nat (n - k)" for i and emb :: "int \<Rightarrow> 'a" and f
    using rs_matrix_parity [OF that, of g 8] by (subst combine_nth) (auto intro!: sum.cong)
  then have "satisfies emb (join_all ?es new_ecdag) f \<longleftrightarrow> rs_codeword g n k emb f" for emb and f :: "int \<Rightarrow> 'a"
    unfolding satisfies_join_all [OF ok] rs_codeword_def by auto
  with enc show ?thesis by blast
qed

text \<open>C18: Encoding with \<open>RSCONV\<close>, losing blocks and decoding gives the blocks back: whenever at least \<open>k\<close>
  blocks are left whose rows the inversion routine manages to invert, and the field it inverts in, of word
  size \<open>_k\<close>, is on the values used the field of word size 8 in which the blocks are encoded, \<open>Decode\<close>
  answers with a well-formed DAG over surviving blocks, and whoever evaluates it on blocks that \<open>Encode\<close>
  produced obtains every lost one.\<close>
theorem rs_encode_decode:
  fixes emb :: "int \<Rightarrow> 'a::comm_ring_1"
  assumes "new_RSCONV n k 1 = Inr r" and "rs_supports g V n k live lost" and "rs_field g V k emb"
  shows "\<exists>enc dag. rs_Encode g r = Inr enc \<and> rs_Decode g r live lost = Inr (Some dag) \<and>
    wf_ecdag dag \<and> set (ecLeaves dag) \<subseteq> set live \<and>
    (\<forall>f h. satisfies emb enc f \<and> satisfies emb dag h \<and> (\<forall>v\<in>set live. h v = f v) \<longrightarrow> (\<forall>b\<in>set lost. h b = f b))"
proof -
  have P: "rs_params n k" using assms(2) by (simp add: rs_supports_def)
  then have r: "rs_ok n k r" using assms(1) by (auto simp: new_RSCONV_def rs_params_def rs_ok_def Let_def)
  have ec: "ec_w (rs_ec g r) = 1" "ec_n (rs_ec g r) = n" "ec_Decode (rs_ec g r) = rs_Decode g r"
    using r by (simp_all add: rs_ec_def rs_ok_def)
  obtain enc where enc: "rs_Encode g r = Inr enc" "\<And>f :: int \<Rightarrow> 'a. satisfies emb enc f \<longleftrightarrow> rs_codeword g n k emb f"
    using rs_Encode_satisfies [OF P r] by blast
  have sup: "rs_supports g V n k live lost \<and> rs_ok n k r" using assms(2) r by simp
  obtain dag where dag: "rs_Decode g r live lost = Inr (Some dag)" "wf_ecdag dag" "set (ecLeaves dag) \<subseteq> set live"
    using rsconv.decode [OF sup, where emb = emb] unfolding ec single_pkts by blast
  have "h b = f b" if f: "satisfies emb enc f" and h: "satisfies emb dag h" and a: "\<forall>v\<in>set live. h v = f v" and b: "b \<in> set lost"
    for f h b
  proof (rule rsconv.recovers [OF sup, where emb = emb, unfolded ec single_pkts])
    show "rs_codeword g n k emb f \<and> rs_field g V k emb" using f enc(2) assms(3) by simp
    show "v < n * 1" if "v \<in> set (live @ lost)" for v using that assms(2) by (auto simp: rs_supports_def)
  qed (use dag(1) h a b in auto)
  with enc(1) dag show ?thesis by blast
qed

text \<open>A field of four elements, for an instance.\<close>

datatype gf4 = G0 | G1 | G2 | G3

instantiation gf4 :: comm_ring_1
begin

definition zero_gf4 :: gf4 where "zero_gf4 = G0"

definition one_gf4 :: gf4 where "one_gf4 = G1"

fun plus_gf4 :: "gf4 \<Rightarrow> gf4 \<Rightarrow> gf4" where
  "plus_gf4 G0 b = b"
| "plus_gf4 G1 b = (case b of G0 \<Rightarrow> G1 | G1 \<Rightarrow> G0 | G2 \<Rightarrow> G3 | G3 \<Rightarrow> G2)"
| "plus_gf4 G2 b = (case b of G0 \<Rightarrow> G2 | G1 \<Rightarrow> G3 | G2 \<Rightarrow> G0 | G3 \<Rightarrow> G1)"
| "plus_gf4 G3 b = (case b of G0 \<Rightarrow> G3 | G1 \<Rightarrow> G2 | G2 \<Rightarrow> G1 | G3 \<Rightarrow> G0)"

fun times_gf4 :: "gf4 \<Rightarrow> gf4 \<Rightarrow> gf4" where
  "times_gf4 G0 b = G0"
| "times_gf4 G1 b = b"
| "times_gf4 G2 b = (case b of G0 \<Rightarrow> G0 | G1 \<Rightarrow> G2 | G2 \<Rightarrow> G3 | G3 \<Rightarrow> G1)"
| "times_gf4 G3 b = (case b of G0 \<Rightarrow> G0 | G1 \<Rightarrow> G3 | G2 \<Rightarrow> G1 | G3 \<Rightarrow> G2)"

definition uminus_gf4 :: "gf4 \<Rightarrow> gf4" where "uminus_gf4 a = a"

definition minus_gf4 :: "gf4 \<Rightarrow> gf4 \<Rightarrow> gf4" where "minus_gf4 a (b :: gf4) = a + b"

instance
proof
  fix a b c :: gf4
  show "a + b + c = a + (b + c)" "a + b = b + a" "a * b * c = a * (b * c)" "a * b = b * a" "(a + b) * c = a * c + b * c"
    by (cases a; cases b; cases c; simp)+
  show "0 + a = a" "1 * a = a" "- a + a = 0" "a - b = a + - b" "(0 :: gf4) \<noteq> 1"
    by (cases a; simp add: zero_gf4_def one_gf4_def uminus_gf4_def minus_gf4_def)+
qed

end

definition emb4 :: "int \<Rightarrow> gf4" where
  "emb4 x = (if x = 1 then G1 else if x = 2 then G2 else if x = 3 then G3 else G0)"

primrec code4 :: "gf4 \<Rightarrow> int" where
  "code4 G0 = 0"
| "code4 G1 = 1"
| "code4 G2 = 2"
| "code4 G3 = 3"

definition lib4 :: galois where
  "lib4 = \<lparr>single_multiply = (\<lambda>x y w. code4 (emb4 x * emb4 y)),
     single_divide = (\<lambda>x y w. code4 (emb4 x * (emb4 y * emb4 y)))\<rparr>"

lemma lib4_field: "rs_field lib4 {0, 1, 2, 3} k emb4"
  by (simp add: rs_field_def field_on_def lib4_def emb4_def zero_gf4_def one_gf4_def)

lemma rs_encode_decode_witness:
  "\<exists>r enc dag. new_RSCONV 4 2 1 = Inr r \<and> rs_Encode lib4 r = Inr enc \<and> rs_Decode lib4 r [2, 3] [0, 1] = Inr (Some dag) \<and>
    (\<forall>f h. satisfies emb4 enc f \<and> satisfies emb4 dag h \<and> h 2 = f 2 \<and> h 3 = f 3 \<longrightarrow> h 0 = f 0 \<and> h 1 = f 1)"
proof -
  have r: "new_RSCONV 4 2 1 = Inr \<lparr>rs_n = 4, rs_k = 2, rs_w = 1, rs_m = 2\<rparr>" by (simp add: new_RSCONV_def Let_def)
  have "fst (jerasure_invert_matrix lib4 (selected lib4 4 2 [2, 3]) (nat 2) 2) = 0" by code_simp
  moreover have "\<forall>i\<in>set (take (nat 2) [2, 3]) \<union> set [0, 1]. set (rs_matrix lib4 4 2 8 ! nat i) \<subseteq> {0, 1, 2, 3}" by code_simp
  ultimately have "rs_supports lib4 {0, 1, 2, 3} 4 2 [2, 3] [0, 1]"
    by (simp add: rs_supports_def rs_params_def REQUESTOR_def)
  from rs_encode_decode [OF r this lib4_field] r show ?thesis by (simp, blast)
qed

text \<open>C20: Two lost data blocks of a (4, 2) code come back wrong from \<open>RSCONV\<close>: \<open>Decode\<close> inverts the
  selected rows with word size \<open>_k\<close>, here in the field of four elements, while the blocks are encoded with
  word size 8. With the products the field library documents for word size 2, the DAG is built without any
  complaint, and what it computes for each of the two blocks differs from the block by 7 times block 1,
  where 7 is not zero in the field of word size 8; there are blocks of which both come back wrong.\<close>
theorem rs_decode_wrong_field:
  fixes emb :: "int \<Rightarrow> 'a::comm_ring_1"
  assumes "single_divide g 1 3 2 = 2" and "single_multiply g 3 2 2 = 1" and "\<forall>x w. single_multiply g 0 x w = 0"
    and "\<forall>x w. single_multiply g x 0 w = 0" and "\<forall>x w. single_multiply g 1 x w = x"
    and "emb 0 = 0" and "emb 1 = 1" and "emb 2 * emb 2 = emb 4" and "emb 2 + emb 1 = emb 3" and "emb 4 + emb 3 = emb 7"
    and "(1 + 1 :: 'a) = 0" and "emb 7 \<noteq> 0"
  shows "\<exists>r enc dag. new_RSCONV 4 2 1 = Inr r \<and> rs_Encode g r = Inr enc \<and> rs_Decode g r [2, 3] [0, 1] = Inr (Some dag) \<and>
    (\<forall>f h. satisfies emb enc f \<and> satisfies emb dag h \<and> h 2 = f 2 \<and> h 3 = f 3 \<longrightarrow>
       h 0 = f 0 + emb 7 * f 1 \<and> h 1 = f 1 + emb 7 * f 1) \<and>
    (\<exists>f h. satisfies emb enc f \<and> satisfies emb dag h \<and> h 2 = f 2 \<and> h 3 = f 3 \<and> h 0 \<noteq> f 0 \<and> h 1 \<noteq> f 1)"
proof -
  define r where "r = \<lparr>rs_n = 4, rs_k = 2, rs_w = 1, rs_m = (2::int)\<rparr>"
  have r: "new_RSCONV 4 2 1 = Inr r" "rs_ok 4 2 r" by (simp_all add: new_RSCONV_def Let_def r_def rs_ok_def)
  have P: "rs_params 4 2" by (simp add: rs_params_def REQUESTOR_def)
  have E: "rs_matrix g 4 2 8 = [[1, 0], [0, 1], [1, 1], [1, 2]]"
    using assms(5) by (simp add: rs_matrix_def identity_def upt_rec numeral_2_eq_2)
  have inv: "snd (jerasure_invert_matrix g [[1, 1], [1, 2]] (Suc (Suc 0)) 2) = [[3, 2], [2, 2]]"
    using assms(1-5) by (simp add: jerasure_invert_matrix_def identity_def upt_rec find_pivot_def norm_pivot_def
        clear_below_def clear_above_def xor_scaled_def Let_def)
  obtain enc where enc: "rs_Encode g r = Inr enc" "\<And>f :: int \<Rightarrow> 'a. satisfies emb enc f \<longleftrightarrow> rs_codeword g 4 2 emb f"
    using rs_Encode_satisfies [OF P r(2)] by blast
  let ?es = "[(0, [2, 3], [3, 2]), (1, [2, 3], [2, 2])] :: equation list"
  have dec: "rs_Decode g r [2, 3] [0, 1] = Inr (Some (join_all ?es new_ecdag))"
    using assms(3,5) by (simp add: rs_Decode_def generate_matrix_def r_def E select_inverse_def inv vget_def upt_rec
        decode_coefs_def jerasure_matrix_multiply_def numeral_2_eq_2)
  have code: "rs_codeword g 4 2 emb f \<longleftrightarrow> f 2 = f 0 + f 1 \<and> f 3 = f 0 + emb 2 * f 1" for f
    using assms(6,7) by (auto simp: rs_codeword_def E numeral_2_eq_2 less_Suc_eq)
  have sat: "satisfies emb (join_all ?es new_ecdag) h \<longleftrightarrow> h 0 = emb 3 * h 2 + emb 2 * h 3 \<and> h 1 = emb 2 * h 2 + emb 2 * h 3" for h
    using satisfies_join_all [of ?es emb h] by (simp add: combine_def)
  have "emb 2 + emb 2 = 0" using assms(11) by (metis distrib_left mult.right_neutral mult_zero_right)
  then have two: "emb 3 + emb 2 = 1" using assms(7,9) by (metis add.assoc add.commute add.right_neutral)
  have seven: "emb 3 + emb 2 * emb 2 = emb 7" using assms(8,10) by (simp add: add.commute)
  have wrong: "emb 3 * (a + b) + emb 2 * (a + emb 2 * b) = a + emb 7 * b"
    "emb 2 * (a + b) + emb 2 * (a + emb 2 * b) = b + emb 7 * b" for a b
  proof -
    have "emb 3 * (a + b) + emb 2 * (a + emb 2 * b) = (emb 3 + emb 2) * a + (emb 3 + emb 2 * emb 2) * b"
      by (simp add: algebra_simps)
    then show "emb 3 * (a + b) + emb 2 * (a + emb 2 * b) = a + emb 7 * b" by (simp add: two seven)
    have "1 + emb 7 = (1 + 1) + (emb 2 + emb 2 * emb 2)"
      unfolding seven [symmetric] assms(9) [symmetric] assms(7) by (simp only: ac_simps)
    then have "emb 2 + emb 2 * emb 2 = 1 + emb 7" unfolding assms(11) by (simp only: add_0)
    moreover have "emb 2 * (a + b) + emb 2 * (a + emb 2 * b) = (emb 2 + emb 2) * a + (emb 2 + emb 2 * emb 2) * b"
      by (simp add: algebra_simps)
    ultimately show "emb 2 * (a + b) + emb 2 * (a + emb 2 * b) = b + emb 7 * b"
      using \<open>emb 2 + emb 2 = 0\<close> by (simp add: distrib_right)
  qed
  have all: "h 0 = f 0 + emb 7 * f 1 \<and> h 1 = f 1 + emb 7 * f 1" if "rs_codeword g 4 2 emb f"
      "satisfies emb (join_all ?es new_ecdag) h" "h 2 = f 2" "h 3 = f 3" for f h
    using that unfolding code sat by (simp add: wrong)
  define f where "f = (\<lambda>v::int. if v = 0 then 0 else if v = 3 then emb 2 else 1)"
  define h where "h = f(0 := emb 3 * f 2 + emb 2 * f 3, 1 := emb 2 * f 2 + emb 2 * f 3)"
  have f: "rs_codeword g 4 2 emb f" by (simp add: code f_def)
  moreover have h: "satisfies emb (join_all ?es new_ecdag) h" "h 2 = f 2" "h 3 = f 3" by (simp_all add: sat h_def)
  moreover have "h 0 \<noteq> f 0" "h 1 \<noteq> f 1" using all [OF f h] assms(12) by (simp_all add: f_def)
  ultimately show ?thesis using r(1) enc dec all by blast
qed

text \<open>A field of eight elements: \<open>GF8 a b c\<close> is \<open>a + b x + c x^2\<close> with \<open>x^3 = x + 1\<close>.\<close>

datatype gf8 = GF8 bool bool bool

fun add8 :: "gf8 \<Rightarrow> gf8 \<Rightarrow> gf8" where
  "add8 (GF8 a b c) (GF8 d e f) = GF8 (a \<noteq> d) (b \<noteq> e) (c \<noteq> f)"

fun mul8 :: "gf8 \<Rightarrow> gf8 \<Rightarrow> gf8" where
  "mul8 (GF8 a b c) (GF8 d e f) =
     (let c3 = ((b \<and> f) \<noteq> (c \<and> e)); c4 = (c \<and> f) in
      GF8 ((a \<and> d) \<noteq> c3) (((a \<and> e) \<noteq> (b \<and> d)) \<noteq> (c3 \<noteq> c4)) ((((a \<and> f) \<noteq> (b \<and> e)) \<noteq> (c \<and> d)) \<noteq> c4))"

definition gf8s :: "gf8 list" where
  "gf8s = [GF8 a b c. a \<leftarrow> [False, True], b \<leftarrow> [False, True], c \<leftarrow> [False, True]]"

lemma in_gf8s: "a \<in> set gf8s"
  by (cases a) (auto simp: gf8s_def)

lemma gf8_laws:
  "\<forall>a\<in>set gf8s. \<forall>b\<in>set gf8s. add8 a b = add8 b a \<and> mul8 a b = mul8 b a"
  "\<forall>a\<in>set gf8s. \<forall>b\<in>set gf8s. \<forall>c\<in>set gf8s. add8 (add8 a b) c = add8 a (add8 b c)"
  "\<forall>a\<in>set gf8s. \<forall>b\<in>set gf8s. \<forall>c\<in>set gf8s. mul8 (mul8 a b) c = mul8 a (mul8 b c)"
  "\<forall>a\<in>set gf8s. \<forall>b\<in>set gf8s. \<forall>c\<in>set gf8s. mul8 (add8 a b) c = add8 (mul8 a c) (mul8 b c)"
  by code_simp+

instantiation gf8 :: comm_ring_1
begin

definition zero_gf8 :: gf8 where "zero_gf8 = GF8 False False False"

definition one_gf8 :: gf8 where "one_gf8 = GF8 True False False"

definition plus_gf8 :: "gf8 \<Rightarrow> gf8 \<Rightarrow> gf8" where "plus_gf8 = add8"

definition times_gf8 :: "gf8 \<Rightarrow> gf8 \<Rightarrow> gf8" where "times_gf8 = mul8"

definition uminus_gf8 :: "gf8 \<Rightarrow> gf8" where "uminus_gf8 a = a"

definition minus_gf8 :: "gf8 \<Rightarrow> gf8 \<Rightarrow> gf8" where "minus_gf8 a (b :: gf8) = a + b"

instance
proof
  fix a b c :: gf8
  show "a + b + c = a + (b + c)" "a + b = b + a" "a * b = b * a" "a * b * c = a * (b * c)" "(a + b) * c = a * c + b * c"
    unfolding plus_gf8_def times_gf8_def using gf8_laws in_gf8s by blast+
  show "0 + a = a" "1 * a = a" "- a + a = 0" "a - b = a + - b" "(0 :: gf8) \<noteq> 1"
    by (cases a; simp add: zero_gf8_def one_gf8_def uminus_gf8_def minus_gf8_def plus_gf8_def times_gf8_def)+
qed

end

definition emb8 :: "int \<Rightarrow> gf8" where
  "emb8 x = GF8 (x mod 2 = 1) (x div 2 mod 2 = 1) (x div 4 mod 2 = 1)"

primrec code8 :: "gf8 \<Rightarrow> int" where
  "code8 (GF8 a b c) = of_bool a + 2 * of_bool b + 4 * of_bool c"

definition lib8 :: galois where
  \<comment> \<open>word size 2 in the field of four elements, every other one in the field of eight\<close>
  "lib8 = \<lparr>single_multiply = (\<lambda>x y w. if x = 0 \<or> y = 0 then 0 else if x = 1 then y else if y = 1 then x
       else if w = 2 then code4 (emb4 x * emb4 y) else code8 (emb8 x * emb8 y)),
     single_divide = single_divide lib4\<rparr>"

lemma rs_decode_wrong_field_witness:
  "\<exists>r enc dag. new_RSCONV 4 2 1 = Inr r \<and> rs_Encode lib8 r = Inr enc \<and> rs_Decode lib8 r [2, 3] [0, 1] = Inr (Some dag) \<and>
    (\<exists>f h. satisfies emb8 enc f \<and> satisfies emb8 dag h \<and> h 2 = f 2 \<and> h 3 = f 3 \<and> h 0 \<noteq> f 0 \<and> h 1 \<noteq> f 1)"
proof -
  have "single_divide lib8 1 3 2 = 2" "single_multiply lib8 3 2 2 = 1" by code_simp+
  moreover have "\<forall>x w. single_multiply lib8 0 x w = 0" "\<forall>x w. single_multiply lib8 x 0 w = 0" "\<forall>x w. single_multiply lib8 1 x w = x"
    by (simp_all add: lib8_def)
  moreover have "emb8 0 = 0" "emb8 1 = 1" "emb8 2 * emb8 2 = emb8 4" "emb8 2 + emb8 1 = emb8 3" "emb8 4 + emb8 3 = emb8 7"
      "(1 + 1 :: gf8) = 0" "emb8 7 \<noteq> 0"
    by code_simp+
  ultimately show ?thesis using rs_decode_wrong_field [of lib8 emb8] by blast
qed

end
