(* ===== verification/Rs_Pipe.thy ===== *)
theory Rs_Pipe
  imports Rs
begin

text \<open>
  \<open>RSPIPE\<close> (src/src/ec/RSPIPE.cc) computes the combination that \<open>RSCONV\<close> computes in one equation along a
  chain of equations with two children each, and so keeps the promise of \<open>erasure_code\<close>.
\<close>

section \<open>One chain\<close>

lemma combine_Cons: "combine emb f (c # cs) (d # ds) = emb c * f d + combine emb f cs ds"
  by (simp add: combine_def)

lemma chain_cases:
  assumes "length ds = length cs" and "2 \<le> length ds"
  obtains a b c d rest cs' where "ds = a # b # rest" "cs = c # d # cs'" "length rest = length cs'"
  using assms by (metis Suc_le_length_iff numeral_2_eq_2 length_Cons nat.inject)

lemma pipe_chain_step:
  "pipe_chain ridx tmp (a # b # rest) (c # d # cs) =
     (if rest = [] then ([(ridx, [a, b], [c, d])], tmp)
      else case pipe_chain ridx (tmp + 1) (tmp # rest) (1 # cs) of (es, t) \<Rightarrow> ((tmp, [a, b], [c, d]) # es, t))"
  by (subst pipe_chain.simps) (simp add: Let_def numeral_2_eq_2)

definition chain_shape :: "int \<Rightarrow> int \<Rightarrow> int list \<Rightarrow> equation list \<Rightarrow> int \<Rightarrow> bool" where
  \<comment> \<open>the equations of a chain from the blocks \<open>ds\<close> to \<open>ridx\<close>, with the names from \<open>tmp\<close> up to \<open>t\<close>\<close>
  "chain_shape ridx tmp ds es t \<longleftrightarrow> t = tmp + int (length ds) - 2 \<and> fst ` set es = insert ridx {tmp..<t} \<and>
     (\<forall>p c cf. (p, c, cf) \<in> set es \<longrightarrow> p < t \<and> set c \<subseteq> set ds \<union> {tmp..<t})"

definition fits :: "int \<Rightarrow> int \<Rightarrow> equation list \<Rightarrow> bool" where
  "fits ridx tmp es \<longleftrightarrow> (\<forall>S. ridx \<notin> S \<and> (\<forall>v\<in>S. v < tmp) \<longrightarrow> eqs_ok S es)"

lemma chain_shape_Cons:
  assumes "chain_shape ridx (tmp + 1) (tmp # rest) es t" and "rest \<noteq> []" and "ridx < tmp"
    and "\<forall>d\<in>set (a # b # rest). d < tmp"
  shows "chain_shape ridx tmp (a # b # rest) ((tmp, [a, b], cf0) # es) t"
proof -
  have t: "t = tmp + int (length (a # b # rest)) - 2" using assms(1) by (simp add: chain_shape_def)
  then have lt: "tmp < t" using assms(2) by (cases rest) auto
  have "fst ` set ((tmp, [a, b], cf0) # es) = insert ridx {tmp..<t}"
  proof -
    have "fst ` set ((tmp, [a, b], cf0) # es) = insert tmp (fst ` set es)" by simp
    also have "fst ` set es = insert ridx {tmp + 1..<t}" using assms(1) by (simp add: chain_shape_def)
    finally show ?thesis using lt by auto
  qed
  moreover have "p < t \<and> set c \<subseteq> set (a # b # rest) \<union> {tmp..<t}" if e: "(p, c, cf) \<in> set ((tmp, [a, b], cf0) # es)" for p c cf
  proof (cases "(p, c, cf) \<in> set es")
    case True
    with assms(1) have "p < t \<and> set c \<subseteq> set (tmp # rest) \<union> {tmp + 1..<t}" unfolding chain_shape_def by blast
    then show ?thesis using lt by auto
  next
    case False
    then have "p = tmp" "c = [a, b]" using e by auto
    then show ?thesis using lt by auto
  qed
  ultimately show ?thesis using t unfolding chain_shape_def by blast
qed

lemma fits_Cons:
  assumes "fits ridx (tmp + 1) es" and "ridx < tmp" and "a < tmp" and "b < tmp" and "a \<noteq> b" and "ridx \<noteq> a" and "ridx \<noteq> b"
  shows "fits ridx tmp ((tmp, [a, b], cf0) # es)"
  unfolding fits_def
proof (intro allI impI)
  fix S assume S: "ridx \<notin> S \<and> (\<forall>v\<in>S. v < tmp)"
  let ?S = "insert tmp (S \<union> set [a, b])"
  have r: "ridx \<notin> ?S" using S assms(2,6,7) by simp
  have v: "v < tmp + 1" if "v \<in> ?S" for v
  proof -
    from that consider "v = tmp" | "v \<in> S" | "v = a" | "v = b" by auto
    then show ?thesis using S assms(3,4) by cases auto
  qed
  from assms(1) have "ridx \<notin> ?S \<and> (\<forall>v\<in>?S. v < tmp + 1) \<longrightarrow> eqs_ok ?S es" unfolding fits_def by (rule spec)
  with r v have "eqs_ok ?S es" by blast
  moreover have "tmp \<notin> S" using S by blast
  moreover have "tmp \<noteq> a" "tmp \<noteq> b" using assms(3,4) by simp_all
  ultimately show "eqs_ok S ((tmp, [a, b], cf0) # es)" using assms(5) by (simp only: eqs_ok.simps) simp
qed

lemma pipe_chain_shape:
  assumes "length ds = length cs" and "2 \<le> length ds" and "pipe_chain ridx tmp ds cs = (es, t)"
    and "distinct ds" and "\<forall>d\<in>set ds. d < tmp" and "ridx < tmp" and "ridx \<notin> set ds"
  shows "chain_shape ridx tmp ds es t \<and> fits ridx tmp es"
  using assms
proof (induction "length ds" arbitrary: tmp ds cs es t rule: less_induct)
  case (less ds tmp cs)
  obtain a b c d rest cs' where l: "ds = a # b # rest" "cs = c # d # cs'" "length rest = length cs'"
    by (rule chain_cases [OF less.prems(1,2)])
  have first: "a < tmp" "b < tmp" "a \<noteq> b" "ridx \<noteq> a" "ridx \<noteq> b" using less.prems(4-7) by (simp_all add: l)
  show ?case
  proof (cases "rest = []")
    case True
    then have es: "es = [(ridx, [a, b], [c, d])]" "t = tmp" using less.prems(3) by (simp_all add: l pipe_chain_step)
    have "chain_shape ridx tmp ds es t" using less.prems(6) True by (simp add: chain_shape_def es l)
    moreover have "fits ridx tmp es" using first by (simp add: fits_def es)
    ultimately show ?thesis by blast
  next
    case False
    obtain es' where e: "pipe_chain ridx (tmp + 1) (tmp # rest) (1 # cs') = (es', t)" "es = (tmp, [a, b], [c, d]) # es'"
      using less.prems(3) False by (auto simp: l pipe_chain_step split: prod.splits)
    have IH: "chain_shape ridx (tmp + 1) (tmp # rest) es' t \<and> fits ridx (tmp + 1) es'"
    proof (rule less.hyps)
      show "length (tmp # rest) < length ds" "length (tmp # rest) = length (1 # cs')" using l(3) by (simp_all add: l(1))
      show "2 \<le> length (tmp # rest)" using False by (cases rest) simp_all
      show "pipe_chain ridx (tmp + 1) (tmp # rest) (1 # cs') = (es', t)" by (rule e(1))
      show "distinct (tmp # rest)" "\<forall>d\<in>set (tmp # rest). d < tmp + 1" "ridx < tmp + 1" "ridx \<notin> set (tmp # rest)"
        using less.prems(4-7) by (auto simp: l(1))
    qed
    have "chain_shape ridx tmp ds es t"
      unfolding l(1) e(2) using IH False less.prems(5,6) by (intro chain_shape_Cons) (simp_all add: l(1))
    moreover have "fits ridx tmp es" unfolding e(2) using IH first less.prems(6) by (intro fits_Cons) simp_all
    ultimately show ?thesis by blast
  qed
qed

definition holds_in :: "(int \<Rightarrow> 'a::comm_ring_1) \<Rightarrow> (int \<Rightarrow> 'a) \<Rightarrow> equation list \<Rightarrow> bool" where
  "holds_in emb h es \<longleftrightarrow> (\<forall>(p, c, cf)\<in>set es. h p = combine emb h cf c)"

lemma pipe_chain_value:
  assumes "length ds = length cs" and "2 \<le> length ds" and "pipe_chain ridx tmp ds cs = (es, t)"
    and "\<forall>d\<in>set ds. d < tmp" and "ridx < tmp" and "emb 1 = 1" and "f ridx = combine emb f cs ds"
  shows "\<exists>h. (\<forall>v<tmp. h v = f v) \<and> holds_in emb h es"
  using assms
proof (induction "length ds" arbitrary: tmp ds cs es t f rule: less_induct)
  case (less ds tmp cs)
  obtain a b c d rest cs' where l: "ds = a # b # rest" "cs = c # d # cs'" "length rest = length cs'"
    by (rule chain_cases [OF less.prems(1,2)])
  show ?case
  proof (cases "rest = []")
    case True
    then have "es = [(ridx, [a, b], [c, d])]" "cs' = []" using less.prems(3) l(3) by (simp_all add: l(1,2) pipe_chain_step)
    then have "holds_in emb f es" using less.prems(7) True by (simp add: l(1,2) holds_in_def)
    then show ?thesis by blast
  next
    case False
    obtain es' where e: "pipe_chain ridx (tmp + 1) (tmp # rest) (1 # cs') = (es', t)" "es = (tmp, [a, b], [c, d]) # es'"
      using less.prems(3) False by (auto simp: l pipe_chain_step split: prod.splits)
    define f' where "f' = f(tmp := combine emb f [c, d] [a, b])"
    have old: "f' v = f v" if "v < tmp" for v using that by (simp add: f'_def)
    have rest: "combine emb f' cs' rest = combine emb f cs' rest"
      using less.prems(4) old by (intro combine_cong) (simp add: l(1))
    have "f' ridx = combine emb f [c, d] [a, b] + combine emb f cs' rest"
      using less.prems(7) old [OF less.prems(5)] by (simp add: l(1,2) combine_Cons) (simp add: combine_def add.assoc)
    also have "\<dots> = combine emb f' (1 # cs') (tmp # rest)"
      using less.prems(6) rest by (simp add: combine_Cons [of _ _ 1] f'_def)
    finally have val: "f' ridx = combine emb f' (1 # cs') (tmp # rest)" .
    have "\<exists>h. (\<forall>v<tmp + 1. h v = f' v) \<and> holds_in emb h es'"
    proof (rule less.hyps [OF _ _ _ e(1) _ _ less.prems(6) val])
      show "length (tmp # rest) < length ds" "length (tmp # rest) = length (1 # cs')" using l(3) by (simp_all add: l(1))
      show "2 \<le> length (tmp # rest)" using False by (cases rest) simp_all
      show "\<forall>d\<in>set (tmp # rest). d < tmp + 1" "ridx < tmp + 1" using less.prems(4,5) by (auto simp: l(1))
    qed
    then obtain h where h: "\<And>v. v < tmp + 1 \<Longrightarrow> h v = f' v" "holds_in emb h es'" by blast
    have ab: "a < tmp" "b < tmp" using less.prems(4) by (simp_all add: l(1))
    then have "h tmp = combine emb h [c, d] [a, b]"
      using h(1) [of tmp] h(1) [of a] h(1) [of b] old by (simp add: f'_def combine_def)
    then have "holds_in emb h es" using h(2) by (simp add: e(2) holds_in_def)
    moreover have "\<forall>v<tmp. h v = f v" using h(1) old by simp
    ultimately show ?thesis by blast
  qed
qed

section \<open>The chains of all lost blocks\<close>

primrec chains :: "(int \<Rightarrow> int list) \<Rightarrow> int list \<Rightarrow> int list \<Rightarrow> int \<Rightarrow> equation list \<times> int" where
  "chains cf ds [] tmp = ([], tmp)"
| "chains cf ds (b # bs) tmp =
     (case pipe_chain b tmp ds (cf b) of (es, t) \<Rightarrow> case chains cf ds bs t of (es', t') \<Rightarrow> (es @ es', t'))"

definition room :: "(int \<Rightarrow> int list) \<Rightarrow> int list \<Rightarrow> int list \<Rightarrow> int \<Rightarrow> bool" where
  "room cf ds bs tmp \<longleftrightarrow> 2 \<le> length ds \<and> distinct ds \<and> distinct bs \<and> set ds \<inter> set bs = {} \<and>
     (\<forall>v\<in>set ds \<union> set bs. v < tmp) \<and> (\<forall>b\<in>set bs. length (cf b) = length ds)"

lemma room_Cons: "room cf ds (b # bs) tmp \<Longrightarrow> tmp \<le> t \<Longrightarrow> room cf ds bs t"
  unfolding room_def by (auto intro: less_le_trans)

lemma room_chain:
  assumes "room cf ds (b # bs) tmp" and "pipe_chain b tmp ds (cf b) = (es, t)"
  shows "chain_shape b tmp ds es t" "fits b tmp es" "t = tmp + int (length ds) - 2" "tmp \<le> t"
proof -
  have "chain_shape b tmp ds es t \<and> fits b tmp es"
    using assms(1) by (intro pipe_chain_shape [OF _ _ assms(2)]) (auto simp: room_def)
  then show "chain_shape b tmp ds es t" "fits b tmp es" by blast+
  then show t: "t = tmp + int (length ds) - 2" unfolding chain_shape_def by blast
  show "tmp \<le> t" using assms(1) unfolding t room_def by simp
qed

lemma chains_shape:
  assumes "room cf ds bs tmp" and "chains cf ds bs tmp = (es, t)"
  shows "t = tmp + int (length bs) * (int (length ds) - 2) \<and> fst ` set es = set bs \<union> {tmp..<t} \<and>
    (\<forall>p c cff. (p, c, cff) \<in> set es \<longrightarrow> p < t \<and> set c \<subseteq> set ds \<union> {tmp..<t})"
  using assms
proof (induction bs arbitrary: tmp es t)
  case (Cons b bs)
  obtain e1 t1 es2 where e: "pipe_chain b tmp ds (cf b) = (e1, t1)" "chains cf ds bs t1 = (es2, t)" "es = e1 @ es2"
    using Cons.prems(2) by (auto split: prod.splits)
  note first = room_chain [OF Cons.prems(1) e(1)]
  note IH = Cons.IH [OF room_Cons [OF Cons.prems(1) first(4)] e(2)]
  have t: "t = tmp + int (length (b # bs)) * (int (length ds) - 2)" using IH first(3) by (simp add: algebra_simps)
  have "t1 \<le> t" using IH Cons.prems(1) by (simp add: room_def)
  with first(4) have split: "{tmp..<t} = {tmp..<t1} \<union> {t1..<t}" by auto
  have "fst ` set es = set (b # bs) \<union> {tmp..<t}"
  proof -
    have "fst ` set e1 = insert b {tmp..<t1}" using first(1) unfolding chain_shape_def by blast
    moreover have "fst ` set es2 = set bs \<union> {t1..<t}" using IH by blast
    ultimately show ?thesis by (simp only: e(3) set_append image_Un split) auto
  qed
  moreover have "p < t \<and> set c \<subseteq> set ds \<union> {tmp..<t}" if i: "(p, c, cff) \<in> set es" for p c cff
  proof (cases "(p, c, cff) \<in> set e1")
    case True
    with first(1) have "p < t1 \<and> set c \<subseteq> set ds \<union> {tmp..<t1}" unfolding chain_shape_def by blast
    then show ?thesis using \<open>t1 \<le> t\<close> split by auto
  next
    case False
    then have "(p, c, cff) \<in> set es2" using i by (simp add: e(3))
    with IH have "p < t \<and> set c \<subseteq> set ds \<union> {t1..<t}" by blast
    then show ?thesis using split by auto
  qed
  ultimately show ?case using t by blast
qed simp

lemma chains_ok:
  assumes "room cf ds bs tmp" and "chains cf ds bs tmp = (es, t)" and "set bs \<inter> S = {}" and "\<forall>v\<in>S. v < tmp"
  shows "eqs_ok S es"
  using assms
proof (induction bs arbitrary: tmp es t S)
  case (Cons b bs)
  obtain e1 t1 es2 where e: "pipe_chain b tmp ds (cf b) = (e1, t1)" "chains cf ds bs t1 = (es2, t)" "es = e1 @ es2"
    using Cons.prems(2) by (auto split: prod.splits)
  note first = room_chain [OF Cons.prems(1) e(1)]
  let ?S = "S \<union> (\<Union>(p, c, cff)\<in>set e1. insert p (set c))"
  have S: "v \<in> S \<or> v = b \<or> v \<in> set ds \<or> tmp \<le> v \<and> v < t1" if v: "v \<in> ?S" for v
  proof -
    from v consider "v \<in> S" | p c cff where "(p, c, cff) \<in> set e1" "v = p \<or> v \<in> set c" by auto
    then show ?thesis
    proof cases
      case 2
      have "p \<in> fst ` set e1" using 2(1) by force
      then have "p = b \<or> tmp \<le> p \<and> p < t1" using first(1) by (auto simp: chain_shape_def)
      moreover have "set c \<subseteq> set ds \<union> {tmp..<t1}" using first(1) 2(1) unfolding chain_shape_def by blast
      ultimately show ?thesis using 2(2) by auto
    qed simp
  qed
  have b: "b < tmp" "b \<notin> set bs" "\<forall>v\<in>set ds. v < tmp \<and> v \<notin> set bs" "\<forall>v\<in>set bs. v < tmp"
    using Cons.prems(1) by (auto simp: room_def)
  have "eqs_ok ?S es2"
  proof (rule Cons.IH [OF room_Cons [OF Cons.prems(1) first(4)] e(2)])
    show "set bs \<inter> ?S = {}" using S b Cons.prems(3) by fastforce
    show "\<forall>v\<in>?S. v < t1" using S b Cons.prems(4) first(4) by fastforce
  qed
  moreover have "eqs_ok S e1" using first(2) Cons.prems(3,4) by (auto simp: fits_def)
  ultimately show ?case by (simp add: e(3) eqs_ok_append)
qed simp

lemma chains_value:
  assumes "room cf ds bs tmp" and "chains cf ds bs tmp = (es, t)" and "emb 1 = 1"
    and "\<forall>b\<in>set bs. f b = combine emb f (cf b) ds"
  shows "\<exists>h. (\<forall>v<tmp. h v = f v) \<and> holds_in emb h es"
  using assms
proof (induction bs arbitrary: tmp es t f)
  case (Cons b bs)
  obtain e1 t1 es2 where e: "pipe_chain b tmp ds (cf b) = (e1, t1)" "chains cf ds bs t1 = (es2, t)" "es = e1 @ es2"
    using Cons.prems(2) by (auto split: prod.splits)
  note first = room_chain [OF Cons.prems(1) e(1)]
  have low: "\<forall>d\<in>set ds. d < tmp" "\<forall>v\<in>set (b # bs). v < tmp" using Cons.prems(1) by (auto simp: room_def)
  obtain h1 where h1: "\<And>v. v < tmp \<Longrightarrow> h1 v = f v" "holds_in emb h1 e1"
    using pipe_chain_value [OF _ _ e(1), where emb = emb and f = f] Cons.prems(1,3,4) low by (auto simp: room_def)
  have "combine emb h1 cs ds = combine emb f cs ds" for cs using low h1(1) by (intro combine_cong) simp
  then have "\<forall>b\<in>set bs. h1 b = combine emb h1 (cf b) ds" using Cons.prems(4) h1(1) low(2) by simp
  from Cons.IH [OF room_Cons [OF Cons.prems(1) first(4)] e(2) Cons.prems(3) this]
  obtain h where h: "\<And>v. v < t1 \<Longrightarrow> h v = h1 v" "holds_in emb h es2" by blast
  have "h p = combine emb h cff c" if i: "(p, c, cff) \<in> set e1" for p c cff
  proof -
    have "p < t1" "set c \<subseteq> set ds \<union> {tmp..<t1}" using first(1) i unfolding chain_shape_def by blast+
    then have "\<forall>x\<in>set c. x < t1" using low(1) first(4) by fastforce
    then have "combine emb h cff c = combine emb h1 cff c" using h(1) by (intro combine_cong) simp
    moreover have "h1 p = combine emb h1 cff c" using h1(2) i unfolding holds_in_def by fastforce
    ultimately show ?thesis using h(1) \<open>p < t1\<close> by simp
  qed
  then have "holds_in emb h es" using h(2) by (auto simp: e(3) holds_in_def)
  moreover have "\<forall>v<tmp. h v = f v" using h(1) h1(1) first(4) by simp
  ultimately show ?case by blast
qed (auto simp: holds_in_def)

section \<open>RSPIPE keeps the promise\<close>

lemma pipe_chains_loop:
  assumes "\<And>b. b \<in> set bs \<Longrightarrow> vget enc b = Inr (row b)"
  shows "foldR (\<lambda>ridx (es, tmpname). bindR (vget enc ridx) (\<lambda>row.
       case pipe_chain ridx tmpname ds (coef row) of (es1, t) \<Rightarrow> Inr (es @ es1, t))) bs (es0, tmp) =
    (case chains (\<lambda>b. coef (row b)) ds bs tmp of (es, t) \<Rightarrow> Inr (es0 @ es, t))"
  using assms by (induction bs arbitrary: es0 tmp) (simp_all split: prod.splits)

definition pipe_eqs :: "galois \<Rightarrow> int \<Rightarrow> int \<Rightarrow> int list \<Rightarrow> int list \<Rightarrow> equation list" where
  "pipe_eqs g n k live lost = fst (chains (rs_coefs g n k live) (take (nat k) live) lost n)"

lemma pipe_Decode_eqs:
  assumes "rs_supports g V n k live lost" and "rs_ok n k r"
  shows "pipe_Decode g r live lost = Inr (Some (join_all (pipe_eqs g n k live lost) new_ecdag))"
proof -
  note s = select_inverse_ok [OF assms]
  let ?iv = "snd (jerasure_invert_matrix g (selected g n k live) (nat k) k)"
  obtain es t where c: "chains (rs_coefs g n k live) (take (nat k) live) lost n = (es, t)" by fastforce
  have "pipe_chains g r (rs_matrix g n k 8) ?iv (take (nat k) live) lost = Inr (es, t)"
    using pipe_chains_loop [OF s(3), of lost "take (nat k) live" "decode_coefs g (nat k) ?iv" "[]" n] c assms(2)
    by (simp add: pipe_chains_def rs_ok_def rs_coefs_def [abs_def])
  then show ?thesis using s(1,2) by (simp add: pipe_Decode_def pipe_eqs_def c)
qed

definition pipe_ec :: "galois \<Rightarrow> rs \<Rightarrow> ec_base" where
  "pipe_ec g r = \<lparr>ec_n = rs_n r, ec_k = rs_k r, ec_w = rs_w r, ec_Decode = pipe_Decode g r\<rparr>"

lemma rs_room:
  assumes "rs_supports g V n k live lost" and "2 \<le> k"
  shows "room (rs_coefs g n k live) (take (nat k) live) lost n"
proof -
  note P = rs_supports_facts [OF assms(1)]
  have "length (rs_coefs g n k live b) = nat k" for b
    by (simp add: rs_coefs_def decode_coefs_def jerasure_matrix_multiply_def)
  moreover have "2 \<le> length (take (nat k) live)" unfolding P(5) using assms(2) by linarith
  moreover have "distinct lost" using assms(1) by (simp add: rs_supports_def)
  moreover have "set (take (nat k) live) \<inter> set lost = {}" using P(7) by blast
  moreover have "\<forall>v\<in>set (take (nat k) live) \<union> set lost. v < n" using P(7,8) by blast
  ultimately show ?thesis unfolding room_def using P(5,6) by metis
qed

lemma pipe_names:
  assumes "rs_supports g V n k live lost" and "2 \<le> k"
  shows "n + int (length lost) * (k - 2) \<le> REQUESTOR - n"
proof -
  note P = rs_supports_facts [OF assms(1)]
  have "length lost = card (set lost)" "set lost \<subseteq> {0..<n}"
    using assms(1) by (auto simp: rs_supports_def distinct_card)
  then have "int (length lost) \<le> n" using card_mono [of "{0..<n}" "set lost"] P(1,2) by simp
  then have "int (length lost) * (k - 2) \<le> n * (k - 2)" using assms(2) by (intro mult_right_mono) simp_all
  also have "\<dots> = n * k - 2 * n" by (simp add: algebra_simps)
  finally have "n + int (length lost) * (k - 2) \<le> 1024 - n" using P(3) by linarith
  moreover have "0 \<le> n" using P(1,2) by simp
  ultimately show ?thesis by (simp add: REQUESTOR_def)
qed

lemma pipe_decodes:
  assumes S: "rs_supports g V n k live lost" and r: "rs_ok n k r" and k: "2 \<le> k"
  shows "0 < ec_n (pipe_ec g r) \<and> 0 < ec_w (pipe_ec g r) \<and>
      (\<exists>dag. ec_Decode (pipe_ec g r) (concat (map (block_pkts (ec_w (pipe_ec g r))) live))
            (concat (map (block_pkts (ec_w (pipe_ec g r))) lost)) = Inr (Some dag) \<and>
         wf_ecdag dag \<and> ecConcacts dag = [] \<and>
         set (ecLeaves dag) \<subseteq> set (concat (map (block_pkts (ec_w (pipe_ec g r))) live)) \<and>
         set (concat (map (block_pkts (ec_w (pipe_ec g r))) lost)) \<subseteq> set (node_ids dag) \<and>
         (\<forall>v\<in>set (node_ids dag). v < REQUESTOR - ec_n (pipe_ec g r)) \<and>
         (\<forall>f. rs_codeword g n k emb f \<and> rs_field g V k emb \<longrightarrow>
            (\<exists>h. satisfies emb dag h \<and> (\<forall>v<ec_n (pipe_ec g r) * ec_w (pipe_ec g r). h v = f v))))"
proof -
  note P = rs_supports_facts [OF S]
  have ec: "ec_n (pipe_ec g r) = n" "ec_w (pipe_ec g r) = 1" using r by (simp_all add: pipe_ec_def rs_ok_def)
  let ?es = "pipe_eqs g n k live lost" and ?ds = "take (nat k) live"
  obtain t where c: "chains (rs_coefs g n k live) ?ds lost n = (?es, t)" by (metis pipe_eqs_def prod.collapse)
  note R = rs_room [OF S k]
  note shape = chains_shape [OF R c]
  have t: "n \<le> t" "t \<le> REQUESTOR - n" using shape P(1,5) pipe_names [OF S k] k by auto
  have children: "set cs \<subseteq> set ?ds \<union> {n..<t}" and parent: "p < t" if "(p, cs, cfs) \<in> set ?es" for p cs cfs
    using shape that by blast+
  have names: "fst ` set ?es = set lost \<union> {n..<t}" using shape by blast
  show ?thesis unfolding ec single_pkts
  proof (intro conjI decode_by_equations [where es = ?es and ec = "pipe_ec g r", unfolded ec])
    show "0 < n" using P by simp
    show "ec_Decode (pipe_ec g r) live lost = Inr (Some (join_all ?es new_ecdag))"
      using pipe_Decode_eqs [OF S r] by (simp add: pipe_ec_def)
    show "eqs_ok {} ?es" by (rule chains_ok [OF R c]) simp_all
    show "set cs \<subseteq> set live \<union> fst ` set ?es" if "(p, cs, cfs) \<in> set ?es" for p cs cfs
      using children [OF that] P(7) unfolding names by blast
    show "set lost \<subseteq> fst ` set ?es" unfolding names by blast
    show "v < REQUESTOR - n" if e: "(p, cs, cfs) \<in> set ?es" and v: "v \<in> insert p (set cs)" for p cs cfs v
    proof -
      have "v < t" using v parent [OF e] children [OF e] P(7) t(1) by fastforce
      then show ?thesis using t(2) by simp
    qed
    show "\<exists>h. (\<forall>(p, cs, cfs)\<in>set ?es. h p = combine emb h cfs cs) \<and> (\<forall>v<n * 1. h v = f v)"
      if f: "rs_codeword g n k emb f \<and> rs_field g V k emb" for f
    proof -
      have "emb 1 = 1" using f by (simp add: rs_field_def field_on_def)
      moreover have "\<forall>b\<in>set lost. f b = combine emb f (rs_coefs g n k live b) ?ds"
      proof
        fix b assume "b \<in> set lost"
        with rs_coefs_value [OF S, of emb f b] f show "f b = combine emb f (rs_coefs g n k live b) ?ds" by simp
      qed
      ultimately show ?thesis using chains_value [OF R c, of emb f] by (auto simp: holds_in_def)
    qed
  qed simp
qed

interpretation rspipe: erasure_code "pipe_ec g r" emb "\<lambda>f. rs_codeword g n k emb f \<and> rs_field g V k emb"
    "\<lambda>live lost. rs_supports g V n k live lost \<and> rs_ok n k r \<and> 2 \<le> k"
  for g r n k V and emb :: "int \<Rightarrow> 'a::comm_ring_1"
  using pipe_decodes by unfold_locales blast

lemma pipe_chain_two:
  assumes "e \<in> set (fst (pipe_chain ridx tmp ds cs))"
  shows "length (fst (snd e)) = 2"
  using assms
proof (induction ridx tmp ds cs rule: pipe_chain.induct)
  case (1 ridx tmp ds cs)
  show ?case
  proof (cases "length ds \<ge> 2 \<and> drop 2 ds \<noteq> []")
    case True
    have "pipe_chain ridx tmp ds cs = (case pipe_chain ridx (tmp + 1) (tmp # drop 2 ds) (1 # drop 2 cs) of
        (es, t) \<Rightarrow> ((tmp, take 2 ds, take 2 cs) # es, t))"
      using True by (subst pipe_chain.simps) (simp add: Let_def)
    with 1 True show ?thesis by (auto split: prod.splits)
  next
    case False
    with 1(2) show ?thesis by (subst (asm) pipe_chain.simps) (auto simp: Let_def split: if_splits)
  qed
qed

lemma chains_two: "e \<in> set (fst (chains cf ds bs tmp)) \<Longrightarrow> length (fst (snd e)) = 2"
proof (induction bs arbitrary: tmp)
  case (Cons b bs)
  obtain e1 t1 es2 t where c: "pipe_chain b tmp ds (cf b) = (e1, t1)" "chains cf ds bs t1 = (es2, t)" by (meson surj_pair)
  then have "e \<in> set e1 \<or> e \<in> set es2" using Cons.prems by simp
  then show ?case using pipe_chain_two [of e b tmp ds "cf b"] Cons.IH [of t1] c by auto
qed simp

lemma pipe_two_children:
  assumes "rs_supports g V n k live lost" and "rs_ok n k r" and "2 \<le> k" and "pipe_Decode g r live lost = Inr (Some dag)"
  shows "length (children_of dag v) \<le> 2"
proof -
  let ?es = "pipe_eqs g n k live lost"
  have "eqs_ok {} ?es" unfolding pipe_eqs_def
    by (rule chains_ok [OF rs_room [OF assms(1,3)], of _ "snd (chains (rs_coefs g n k live) (take (nat k) live) lost n)"]) simp_all
  then have "eqs_ok (set (node_ids new_ecdag)) ?es" by (simp add: new_ecdag_def)
  note J = join_all_props [OF wf_new_ecdag this]
  have dag: "dag = join_all ?es new_ecdag" using assms(4) pipe_Decode_eqs [OF assms(1,2)] by simp
  have none: "children_of new_ecdag v = []" by (simp add: new_ecdag_def children_of_def getNode_def)
  have "children_of dag v = (case map_of ?es v of None \<Rightarrow> children_of new_ecdag v | Some e \<Rightarrow> fst e)"
    unfolding dag using J by blast
  then have "children_of dag v = (case map_of ?es v of None \<Rightarrow> [] | Some e \<Rightarrow> fst e)"
    by (simp only: none)
  then show ?thesis
    using chains_two [of "(v, the (map_of ?es v))"] by (auto simp: pipe_eqs_def dest!: map_of_SomeD split: option.splits)
qed

text \<open>C19: Encoding with \<open>RSPIPE\<close>, losing blocks and decoding gives the blocks back, as it does with \<open>RSCONV\<close>,
  whenever the rows read can be inverted and the field of word size \<open>_k\<close> agrees with that of word size 8:
  with at least two data blocks, the chains that \<open>Decode\<close> joins use fresh names below the ids of the
  concatenations, form a well-formed DAG over surviving blocks in which every vertex has at most two
  children, and whoever evaluates it on blocks that \<open>Encode\<close> produced obtains every lost one.\<close>
theorem pipe_encode_decode:
  fixes emb :: "int \<Rightarrow> 'a::comm_ring_1"
  assumes "new_RSPIPE n k 1 = Inr r" and "2 \<le> k" and "rs_supports g V n k live lost" and "rs_field g V k emb"
  shows "\<exists>enc dag. pipe_Encode g r = Inr enc \<and> pipe_Decode g r live lost = Inr (Some dag) \<and>
    wf_ecdag dag \<and> set (ecLeaves dag) \<subseteq> set live \<and> (\<forall>v. length (children_of dag v) \<le> 2) \<and>
    (\<forall>v\<in>set (node_ids dag). v < REQUESTOR - n) \<and>
    (\<forall>f h. satisfies emb enc f \<and> satisfies emb dag h \<and> (\<forall>v\<in>set live. h v = f v) \<longrightarrow> (\<forall>b\<in>set lost. h b = f b))"
proof -
  have r: "rs_ok n k r" using assms(1) by (auto simp: new_RSPIPE_def rs_ok_def Let_def bindR_def guardR_def split: if_splits)
  have P: "rs_params n k" using assms(3) by (simp add: rs_supports_def)
  have ec: "ec_w (pipe_ec g r) = 1" "ec_n (pipe_ec g r) = n" "ec_Decode (pipe_ec g r) = pipe_Decode g r"
    using r by (simp_all add: pipe_ec_def rs_ok_def)
  obtain enc where enc: "pipe_Encode g r = Inr enc" "\<And>f :: int \<Rightarrow> 'a. satisfies emb enc f \<longleftrightarrow> rs_codeword g n k emb f"
    using rs_Encode_satisfies [OF P r] unfolding pipe_Encode_def by blast
  have sup: "rs_supports g V n k live lost \<and> rs_ok n k r \<and> 2 \<le> k" using assms(2,3) r by simp
  obtain dag where dag: "pipe_Decode g r live lost = Inr (Some dag)" "wf_ecdag dag" "set (ecLeaves dag) \<subseteq> set live"
      "\<forall>v\<in>set (node_ids dag). v < REQUESTOR - n"
    using rspipe.decode [OF sup, where emb = emb] unfolding ec single_pkts by blast
  have "h b = f b" if f: "satisfies emb enc f" and h: "satisfies emb dag h" and a: "\<forall>v\<in>set live. h v = f v" and b: "b \<in> set lost"
    for f h b
  proof (rule rspipe.recovers [OF sup, where emb = emb, unfolded ec single_pkts])
    show "rs_codeword g n k emb f \<and> rs_field g V k emb" using f enc(2) assms(4) by simp
    show "v < n * 1" if "v \<in> set (live @ lost)" for v using that assms(3) by (auto simp: rs_supports_def)
  qed (use dag(1) h a b in auto)
  moreover have "\<forall>v. length (children_of dag v) \<le> 2" using pipe_two_children [OF assms(3) r assms(2) dag(1)] by simp
  ultimately show ?thesis using enc(1) dag by blast
qed

text \<open>Three blocks are combined in two steps: the (4, 3) code over the field of four elements.\<close>

lemma pipe_encode_decode_witness:
  "\<exists>r enc dag. new_RSPIPE 4 3 1 = Inr r \<and> pipe_Encode lib4 r = Inr enc \<and> pipe_Decode lib4 r [0, 2, 3] [1] = Inr (Some dag) \<and>
    length (children_of dag 1) \<le> 2 \<and>
    (\<forall>f h. satisfies emb4 enc f \<and> satisfies emb4 dag h \<and> h 0 = f 0 \<and> h 2 = f 2 \<and> h 3 = f 3 \<longrightarrow> h 1 = f 1)"
proof -
  have r: "new_RSPIPE 4 3 1 = Inr \<lparr>rs_n = 4, rs_k = 3, rs_w = 1, rs_m = 1\<rparr>" by (simp add: new_RSPIPE_def Let_def)
  have "fst (jerasure_invert_matrix lib4 (selected lib4 4 3 [0, 2, 3]) (nat 3) 3) = 0" by code_simp
  moreover have "\<forall>i\<in>set (take (nat 3) [0, 2, 3]) \<union> set [1]. set (rs_matrix lib4 4 3 8 ! nat i) \<subseteq> {0, 1, 2, 3}" by code_simp
  ultimately have S: "rs_supports lib4 {0, 1, 2, 3} 4 3 [0, 2, 3] [1]"
    by (simp add: rs_supports_def rs_params_def REQUESTOR_def)
  have "(2::int) \<le> 3" by simp
  from pipe_encode_decode [OF r this S lib4_field] r show ?thesis by (simp, blast)
qed

end
