(* ===== verification/Spec2Isabelle.thy ===== *)
theory Spec2Isabelle
  imports Repair_Run Offline Coordinator Worker_Starve Parallel_Repair Simulator Rs_Pipe
begin

text \<open>
  A verification library for HyperParaRC, a C++ program that repairs erasure-coded stripes after nodes of a
  storage cluster have failed. File names below are relative to src/src.

  \<^bold>\<open>What the program does.\<close> A stripe is a list of blocks on different nodes; a block has \<open>ecw\<close> sub-packets.
  When nodes fail, the coordinator (MultipleCoor.cc, common/Coordinator.cc) asks a planner (sol/) for batches
  of stripes. For each stripe the planner obtains a repair DAG from the erasure code (ec/), whose vertices are
  sub-packets and whose edges say which sub-packets are combined with which coefficients, and colours it: a
  colour is the node that computes a vertex. An edge between two colours is a transfer, and the planner keeps
  the largest number of transfers of a node small. A coloured DAG is turned into tasks (read, send, receive,
  compute, persist), the tasks of a node are sent to its agent through Redis (ec/Task.cc,
  ec/NodeBatchTask.cc), and the agent (common/Worker.cc) starts threads that carry them out. Two simulators
  (RepairSimulator.cc, RepairSimulator_new.cc) compare strategies for when to repair over a trace of failures.

  \<^bold>\<open>How C++ is modelled.\<close> A class is a record, a method a function on it, and \<open>'a res = fault + 'a\<close> the
  result of what may fault: null pointers, indices, \<open>assert\<close>, \<open>exit\<close>, overruns of a buffer, a wait for ever (type
  \<open>fault\<close> of theory Prelude). An \<open>unordered_map\<close> is an association list with distinct keys; no property
  depends on its order. A pointer to a stripe is its index in the coordinator's list, a pointer to a vertex its id.
  An \<open>int\<close> is an \<open>int\<close> of HOL: where a property needs that it stays in its range it says so, and the bytes
  of a message are those of a 32-bit integer. A \<open>double\<close> is a rational.
\<close>

section \<open>The theories\<close>

text \<open>
  \<^bold>\<open>Foundations.\<close> Prelude: faults, sequencing (\<open>bindR\<close>, \<open>foldR\<close>), maps, vectors. Redis: a server as a
  parameter with the documented laws of its lists. BlockingQueue: util/BlockingQueue.hh; locale \<open>fifo\<close>,
  interpreted by the queue of the code. DistUtil: the string helpers of util/DistUtil.cc and the colouring
  strings of common/TradeoffPoints.cc.

  \<^bold>\<open>Repair DAGs.\<close> Ecdag: ec/ECNode.cc and ec/ECDAG.cc, \<open>Join\<close> and \<open>Concact\<close>. Ecdag_Inv: the invariant
  \<open>wf_ecdag\<close> (links in both directions, leaves, headers) is kept by both (\<open>Join_wf\<close>,
  \<open>Concact_groups_blocks\<close>). Topo: the two topological sorts; their loops are partial functions and are proved to
  return on well-formed DAGs (\<open>leveled_sort_correct\<close>).

  \<^bold>\<open>Codes.\<close> RepairDag: what a DAG computes (\<open>satisfies\<close>: every inner vertex is the combination of its
  children, over any commutative ring), the interface of ec/ECBase.hh and \<open>genRepairECDAG\<close> of
  common/Stripe.cc. The locale \<open>erasure_code\<close> is the contract between a code and the rest of the program; its
  lemmas show that the repair DAG of a stripe is well formed and computes the lost blocks. It is interpreted by
  \<open>rdp\<close> (Rdp: ec/RDP.cc), \<open>rsconv\<close> (Rs: ec/RSCONV.cc) and \<open>rspipe\<close> (Rs_Pipe: ec/RSPIPE.cc). Galois: the
  inversion and the product of matrices in util/jerasure.c; Gauss-Jordan elimination as the library writes it
  yields an inverse whenever it reports success. The round trips \<open>rdp_encode_decode\<close>, \<open>rs_encode_decode\<close> and
  \<open>pipe_encode_decode\<close> follow; \<open>rs_decode_wrong_field\<close> shows what the wrong word size in \<open>Decode\<close> does.

  \<^bold>\<open>Stripes and their loads.\<close> Stripe: the class of common/Stripe.hh with its load tables, in the code's two
  shapes (locale \<open>load_table\<close>, interpreted by maps and by rows). Traffic: the transfers of a colouring, counted
  by receiver and sender, and \<open>evaluateColoring\<close> against them. Recolor: moving one vertex
  (\<open>changeColor_correct\<close>, \<open>evaluateChange_correct\<close>). Group_Recolor: placing a group (\<open>evaluateChange2\<close>).

  \<^bold>\<open>Tasks and messages.\<close> Command: the byte buffers of ec/Task.cc and protocol/AGCommand.cc (locale \<open>codec\<close>,
  interpreted by integers, strings, lists and tasks). Task: the five kinds of tasks and their messages
  (\<open>task_roundtrip\<close>). RepairTasks: \<open>genRepairTasks\<close> of common/Stripe.cc (\<open>genRepairTasks_transfers\<close>).
  Batch: sol/RepairBatch.cc. Dispatch: from a batch to the agents' task lists (\<open>dispatch_received\<close>).

  \<^bold>\<open>Planners.\<close> Solution: sol/SolutionBase.cc. Centralized and Offline: the two simple planners. Coordinator:
  the planner's thread and the repair loop as a step relation \<open>coord_step\<close>, locale \<open>planner\<close>; every
  interleaving ends as \<open>coordinator_outcome\<close> says, and \<open>coordinator_hangs\<close> exhibits one in which the repair loop
  waits for ever. The parallel planner, sol/ParallelSolution.cc, takes the theories Parallel_Choose (a node for a
  vertex), Parallel_Color (the greedy runs over a DAG), Parallel_Correct (locale \<open>greedy\<close>, interpreted by the
  vertex-wise and the group-wise run), Parallel_Level (the colouring of a stripe as a whole), Parallel_Batches,
  Parallel_Plan (locale \<open>table_planner\<close>: what a way of colouring has to promise for the batches to be sound),
  Parallel (its interpretations \<open>random_plan\<close> and \<open>new_plan\<close>), Parallel_Pack (packing, locale \<open>batch_chooser\<close>,
  and simulated annealing), and Parallel_Fire (dry run, packing, annealing, final colouring, and the dispatcher
  \<open>genRepairBatches\<close>; interpretations \<open>dry_plan\<close> and \<open>fire_plan\<close>).

  \<^bold>\<open>Agents.\<close> Threads: programs that talk through channels; a net of them steps in any order, and if no channel
  has two readers or two writers and some sequential order succeeds, every schedule ends in the same state.
  DataPacket: common/DataPacket.cc and the read loop. Worker, Worker_Compute: every thread body of
  common/Worker.cc. Worker_Run, Worker_Net: what a thread takes and gives, and what a wired collection of
  tasks does under every schedule. Worker_Groups: the grouped variants against the simple ones, which they
  match if no two groups share a source. Threads_Starve, Worker_Starve: if two do, the groups must take more
  packets than are queued, and every schedule gets stuck (\<open>compute_groups_hang\<close>).

  \<^bold>\<open>The whole path.\<close> Repair_Emits, Repair_Wiring: the tasks that \<open>genRepairTasks\<close> emits are wired. Repair_Run:
  every schedule of the threads of a batch ends with the repaired blocks in the files (\<open>repair_batch_restores\<close>).
  Parallel_Repair: from the failed nodes to the repaired files (\<open>failed_nodes_restored\<close>).

  \<^bold>\<open>When to repair.\<close> Scheduler: common/RepairScheduler.cc, common/TraceReader.cc and RepairSimulator.cc.
  Scheduler_New: RepairScheduler_new.hh. Predictor: MLPredictor.hh. Simulator: RepairSimulator_new.cc; locale
  \<open>full_recall\<close> (a predictor that misses no failure), interpreted by the trace's own future and by \<open>MLPredictor\<close>
  with no misses, carries the proofs that no data is lost.
\<close>

section \<open>Parameters, bounds and termination\<close>

text \<open>
  \<^bold>\<open>Parameters.\<close> Code that is not part of the program is an argument: the multiplication of ISA-L (\<open>isal\<close>), the
  Galois field (record \<open>galois\<close>, with \<open>field_on\<close> as the law that the code relies on), Redis (\<open>redis_lists\<close>), the
  random numbers (streams), the order in which \<open>std::sort\<close> leaves equal elements (\<open>srt\<close>), the points of the
  trade-off file, and in Simulator the planner that prices a repair.

  \<^bold>\<open>Bounds.\<close> The planner starts its minima at \<open>INT_MAX\<close>; its properties assume that a batch cannot reach that
  load, \<open>bs * E < INT_MAX\<close> for \<open>bs\<close> stripes of at most \<open>E\<close> edges. The matrices of the Reed-Solomon codes have
  room for 1024 entries, and a larger one is the fault \<open>BufferOverrun\<close>. Names of vertices stay below
  \<open>REQUESTOR - n\<close>, where the ids of the concatenations begin.

  \<^bold>\<open>Loops.\<close> A loop that may run for ever is a \<open>partial_function (option)\<close> or ends in the fault \<open>NoReturn\<close>, and
  its properties state that it returns. Annealing cools from 1000 by 0.95 down to 0.1 with 50 rounds at each
  temperature: these are 180 temperatures (\<open>cooling_steps_count\<close>), and whether a worse plan is accepted is an
  argument, so that the floating-point exponential plays no part.
\<close>

section \<open>What is not modelled\<close>

text \<open>
  The Clay, Hitchhiker and Butterfly codes (ec/Clay.cc, ec/HHXORPlus.cc, ec/BUTTERFLY.cc), which would be three
  more interpretations of \<open>erasure_code\<close>; the searches of sol/ParallelSolution.cc that \<open>genRepairBatches\<close> no
  longer calls; lines 134 to 2100 of ec/ECDAG.cc, which are commented out; the reading of configurations,
  placements, traces and trade-off points from files; connections, logging, printing and timing; the programs
  that only run the planners for experiments or generate their data; dist/, an earlier search they use; the
  vendored libraries (tinyxml2, the rest of Jerasure, the headers of HDFS and KFS).
\<close>

end
